(* ===== verification/Prelude.thy ===== *)
theory Prelude
  imports Main "HOL-Library.Word"
begin

text \<open>
  What every component shares: the machine types of the Go program as words, the error values, the
  big-endian codec of \<^verbatim>\<open>encoding/binary\<close>, the in-memory \<^verbatim>\<open>io.Reader\<close>, Go's truncating integer
  division, and the lemma collections the component proofs use.

  Go's \<^verbatim>\<open>uint8 .. uint64\<close> are words of their width.  An \<^verbatim>\<open>int64\<close> or \<^verbatim>\<open>int\<close> (64 bits on the platforms
  the program is built for) is an \<open>int\<close>, read from a word with \<open>sint\<close>; where a result may leave the
  range the definition wraps it with \<open>wrap64\<close>.  An error is a value of the type \<open>error\<close>: the
  sentinels of package \<^verbatim>\<open>io\<close> are constructors of their own and \<^verbatim>\<open>fmt.Errorf\<close> is the constructor
  \<open>Errf\<close> with the constant part of the message.  \<open>Panic\<close> is no value of the program: a definition
  answers it where the code would index past the end of a slice, and a theorem says it never does.
\<close>

unbundle bit_operations_syntax

section \<open>Types\<close>

type_synonym byte = "8 word"
type_synonym bytes = "byte list"
type_synonym u16 = "16 word"
type_synonym u32 = "32 word"
type_synonym u64 = "64 word"

datatype error =
    EOF
  | UnexpectedEOF
  | ReadErr nat
  | Errf string
  | Panic

type_synonym 'a result = "error + 'a"

named_theorems byte_simps \<open>facts on the big-endian codec\<close>
named_theorems slice_simps \<open>facts on slices of byte strings\<close>

section \<open>Integers\<close>

definition int64_min :: int where "int64_min = - (2 ^ 63)"

definition int64_max :: int where "int64_max = 2 ^ 63 - 1"

definition in_int64 :: "int \<Rightarrow> bool" where
  "in_int64 x \<longleftrightarrow> int64_min \<le> x \<and> x \<le> int64_max"

text \<open>What a 64-bit two's complement register holds after an operation with exact result \<open>x\<close>.\<close>

definition wrap64 :: "int \<Rightarrow> int" where
  "wrap64 x = (x + 2 ^ 63) mod 2 ^ 64 - 2 ^ 63"

lemma wrap64_id [simp]: "in_int64 x \<Longrightarrow> wrap64 x = x"
  by (simp add: wrap64_def in_int64_def int64_min_def int64_max_def)

lemma wrap64_range: "in_int64 (wrap64 x)"
proof -
  have "0 \<le> (x + 2 ^ 63) mod 2 ^ 64" "(x + 2 ^ 63) mod 2 ^ 64 < 2 ^ 64"
    by (rule pos_mod_sign, simp) (rule pos_mod_bound, simp)
  then show ?thesis by (simp add: wrap64_def in_int64_def int64_min_def int64_max_def)
qed

text \<open>Go's \<^verbatim>\<open>/\<close> and \<^verbatim>\<open>%\<close> round towards zero.\<close>

definition go_div :: "int \<Rightarrow> int \<Rightarrow> int" where
  "go_div a b = sgn a * sgn b * (\<bar>a\<bar> div \<bar>b\<bar>)"

definition go_mod :: "int \<Rightarrow> int \<Rightarrow> int" where
  "go_mod a b = a - b * go_div a b"

lemma go_div_nonneg [simp]: "0 \<le> a \<Longrightarrow> 0 < b \<Longrightarrow> go_div a b = a div b"
  by (cases "a = 0") (simp_all add: go_div_def)

lemma go_mod_nonneg [simp]: "0 \<le> a \<Longrightarrow> 0 < b \<Longrightarrow> go_mod a b = a mod b"
  by (simp add: go_mod_def minus_mult_div_eq_mod)

lemma go_div_neg: "a < 0 \<Longrightarrow> 0 < b \<Longrightarrow> go_div a b = - ((- a) div b)"
  by (simp add: go_div_def)

lemma go_div_mod: "b * go_div a b + go_mod a b = a"
  by (simp add: go_mod_def)

lemma go_mod_bound: "0 < b \<Longrightarrow> \<bar>go_mod a b\<bar> < b"
proof (cases "0 \<le> a")
  case False
  assume b: "0 < b"
  with False have "go_mod a b = - ((- a) mod b)"
    by (simp add: go_mod_def go_div_neg minus_div_mult_eq_mod [symmetric] algebra_simps)
  with b show ?thesis by simp
qed simp

section \<open>Big-endian numbers\<close>

text \<open>
  The low \<open>n\<close> bytes of a word, most significant first: \<^verbatim>\<open>binary.BigEndian.PutUint\<close> into a buffer of
  which the last \<open>n\<close> bytes are taken.  Reading is the shift-and-or loop.
\<close>

primrec be_enc :: "nat \<Rightarrow> 'a::len word \<Rightarrow> bytes" where
  "be_enc 0 w = []"
| "be_enc (Suc n) w = ucast (drop_bit (8 * n) w) # be_enc n w"

fun be_acc :: "'a::len word \<Rightarrow> bytes \<Rightarrow> 'a word" where
  "be_acc v [] = v"
| "be_acc v (b # bs) = be_acc (push_bit 8 v OR ucast b) bs"

definition be_dec :: "bytes \<Rightarrow> 'a::len word" where
  "be_dec bs = be_acc 0 bs"

lemma length_be_enc [simp]: "length (be_enc n w) = n"
  by (induction n) simp_all

lemma be_enc_Nil_iff [simp]: "be_enc n w = [] \<longleftrightarrow> n = 0"
  by (cases n) simp_all

lemma be_acc_append: "be_acc v (xs @ ys) = be_acc (be_acc v xs) ys"
  by (induction xs arbitrary: v) simp_all

lemma be_acc_split: "be_acc (v :: 'a::len word) bs = push_bit (8 * length bs) v OR be_acc 0 bs"
proof (induction bs arbitrary: v)
  case Nil
  then show ?case by simp
next
  case (Cons b bs)
  have "be_acc v (b # bs) = push_bit (8 * length bs) (push_bit 8 v OR ucast b) OR be_acc 0 bs"
    using Cons [of "push_bit 8 v OR ucast b"] by simp
  also have "\<dots> = push_bit (8 * length (b # bs)) v OR (push_bit (8 * length bs) (ucast b) OR be_acc 0 bs)"
    by (simp add: push_bit_or or.assoc add.commute)
  also have "push_bit (8 * length bs) (ucast b) OR be_acc 0 bs = (be_acc 0 (b # bs) :: 'a word)"
    using Cons [of "ucast b"] by simp
  finally show ?case .
qed

lemma be_acc_enc:
  "be_acc v (be_enc n w) = push_bit (8 * n) v OR take_bit (8 * n) (w :: 'a::len word)"
proof (induction n arbitrary: v)
  case 0
  then show ?case by simp
next
  case (Suc n)
  have "push_bit (8 * n) (push_bit 8 v OR ucast (ucast (drop_bit (8 * n) w) :: byte))
          OR take_bit (8 * n) w
      = push_bit (8 * Suc n) v OR take_bit (8 * Suc n) w"
    by (rule bit_eqI) (auto simp add: bit_simps add.commute)
  with Suc show ?case by simp
qed

lemma be_dec_enc [byte_simps]: "be_dec (be_enc n w) = take_bit (8 * n) (w :: 'a::len word)"
  by (simp add: be_dec_def be_acc_enc)

lemma be_dec_enc_full [simp]:
  "LENGTH('a) \<le> 8 * n \<Longrightarrow> be_dec (be_enc n w) = (w :: 'a::len word)"
  by (simp add: be_dec_enc take_bit_word_eq_self)

lemma drop_be_enc [byte_simps]: "k \<le> n \<Longrightarrow> drop (n - k) (be_enc n w) = be_enc k w"
proof (induction n)
  case (Suc n)
  then show ?case by (cases "k = Suc n") (simp_all add: Suc_diff_le)
qed simp

lemma be_enc_cong_take_bit: "be_enc n (take_bit (8 * n) w) = be_enc n (w :: 'a::len word)"
proof -
  have "be_enc m (take_bit (8 * n) w) = be_enc m w" if "m \<le> n" for m
    using that
  proof (induction m)
    case (Suc m)
    have "ucast (drop_bit (8 * m) (take_bit (8 * n) w)) = (ucast (drop_bit (8 * m) w) :: byte)"
      by (rule bit_eqI) (use Suc.prems in \<open>auto simp add: bit_simps\<close>)
    with Suc show ?case by simp
  qed simp
  then show ?thesis by simp
qed

lemma bit_be_acc:
  "length bs * 8 \<le> LENGTH('a) \<Longrightarrow> i < LENGTH('a) \<Longrightarrow>
   bit (be_acc (v :: 'a::len word) bs) i \<longleftrightarrow>
     (if i < 8 * length bs then bit (bs ! (length bs - 1 - i div 8)) (i mod 8)
      else bit v (i - 8 * length bs))"
proof (induction bs arbitrary: v)
  case Nil
  then show ?case by simp
next
  case (Cons b bs)
  let ?n = "length bs"
  have IH: "bit (be_acc (push_bit 8 v OR ucast b) bs) i \<longleftrightarrow>
     (if i < 8 * ?n then bit (bs ! (?n - 1 - i div 8)) (i mod 8)
      else bit (push_bit 8 v OR ucast b :: 'a word) (i - 8 * ?n))"
    using Cons by simp
  show ?case
  proof (cases "i < 8 * ?n")
    case True
    then have "i div 8 < ?n" by (simp add: less_mult_imp_div_less)
    then have "?n - i div 8 = Suc (?n - 1 - i div 8)" by linarith
    with True IH show ?thesis by simp
  next
    case False
    define k where "k = i - 8 * ?n"
    have i: "i = 8 * ?n + k" using False by (simp add: k_def)
    show ?thesis
    proof (cases "k < 8")
      case True
      have "i div 8 = ?n" "i mod 8 = k" using i True by simp_all
      moreover have "bit (push_bit 8 v OR ucast b :: 'a word) k \<longleftrightarrow> bit b k"
        using True Cons.prems by (auto simp add: bit_simps)
      ultimately show ?thesis using IH False i True by (simp add: k_def [symmetric])
    next
      case False
      have len: "i < LENGTH('a)" by (rule Cons.prems)
      have "bit (push_bit 8 v OR ucast b :: 'a word) k \<longleftrightarrow> bit v (k - 8)"
      proof -
        have "\<not> bit b k" using False bit_imp_le_length [of b k] by auto
        moreover have "k < LENGTH('a)" using i len by simp
        ultimately show ?thesis using False by (auto simp add: bit_simps)
      qed
      then show ?thesis using IH i False by (simp add: k_def [symmetric])
    qed
  qed
qed


lemma be_enc_dec:
  assumes "8 * length bs \<le> LENGTH('a)"
  shows "be_enc (length bs) (be_dec bs :: 'a::len word) = bs"
proof -
  have "be_enc n (be_acc v bs :: 'a word) = drop (length bs - n) bs"
    if "n \<le> length bs" for n and v :: "'a word"
    using that
  proof (induction n)
    case 0
    then show ?case by simp
  next
    case (Suc n)
    have "ucast (drop_bit (8 * n) (be_acc v bs)) = bs ! (length bs - Suc n)"
    proof (rule bit_eqI)
      fix k
      show "bit (ucast (drop_bit (8 * n) (be_acc v bs)) :: byte) k \<longleftrightarrow> bit (bs ! (length bs - Suc n)) k"
      proof (cases "k < 8")
        case True
        then have lt: "8 * n + k < 8 * length bs" and lt': "8 * n + k < LENGTH('a)"
          and dm: "(8 * n + k) div 8 = n" "(8 * n + k) mod 8 = k"
          using Suc.prems assms by auto
        have "bit (be_acc v bs) (8 * n + k) \<longleftrightarrow> bit (bs ! (length bs - 1 - n)) k"
          using bit_be_acc [of bs "8 * n + k" v] assms lt lt' dm by simp
        with True show ?thesis by (simp add: bit_simps)
      next
        case False
        then show ?thesis by (auto dest: bit_imp_le_length)
      qed
    qed
    moreover have "drop (length bs - Suc n) bs = bs ! (length bs - Suc n) # drop (length bs - n) bs"
      using Suc.prems by (simp add: Cons_nth_drop_Suc [symmetric] Suc_diff_Suc)
    ultimately show ?case using Suc by simp
  qed
  then show ?thesis by (simp add: be_dec_def)
qed

section \<open>Readers\<close>

text \<open>
  An \<^verbatim>\<open>io.Reader\<close>: the bytes it still holds, the error it answers with once they are used up
  (\<^verbatim>\<open>io.EOF\<close>, or the failure of the device), and whether it also implements \<^verbatim>\<open>io.ByteReader\<close>, which
  several routines test for.
\<close>

record source =
  pending :: bytes
  at_end :: error
  byte_reader :: bool

text \<open>\<^verbatim>\<open>io.ReadFull\<close> into a buffer of \<open>n\<close> bytes, and \<^verbatim>\<open>ReadByte\<close>.\<close>

definition read_full :: "nat \<Rightarrow> source \<Rightarrow> bytes result \<times> source" where
  "read_full n s =
     (if n \<le> length (pending s)
      then (Inr (take n (pending s)), s\<lparr>pending := drop n (pending s)\<rparr>)
      else (Inl (if at_end s = EOF \<and> pending s \<noteq> [] then UnexpectedEOF else at_end s),
            s\<lparr>pending := []\<rparr>))"

definition read_byte :: "source \<Rightarrow> byte result \<times> source" where
  "read_byte s =
     (case pending s of
        [] \<Rightarrow> (Inl (at_end s), s)
      | b # bs \<Rightarrow> (Inr b, s\<lparr>pending := bs\<rparr>))"

lemma pending_update_id [simp]: "pending s = bs \<Longrightarrow> s\<lparr>pending := bs\<rparr> = s"
  by (cases s) simp

lemma read_full_append:
  "length xs = n \<Longrightarrow> read_full n (s\<lparr>pending := xs @ ys\<rparr>) = (Inr xs, s\<lparr>pending := ys\<rparr>)"
  by (simp add: read_full_def)

lemma read_byte_Cons [simp]: "read_byte (s\<lparr>pending := b # bs\<rparr>) = (Inr b, s\<lparr>pending := bs\<rparr>)"
  by (simp add: read_byte_def)

section \<open>Slices\<close>

text \<open>
  \<^verbatim>\<open>b[i:j]\<close> for indices in range.  The definitions that slice check the bounds first, as the code
  does, so the value outside the range is never used.
\<close>

definition slice :: "nat \<Rightarrow> nat \<Rightarrow> 'a list \<Rightarrow> 'a list" where
  "slice i j xs = take (j - i) (drop i xs)"

lemma length_slice [slice_simps]: "j \<le> length xs \<Longrightarrow> length (slice i j xs) = j - i"
  by (simp add: slice_def)

lemma slice_append_right [slice_simps]:
  "length xs \<le> i \<Longrightarrow> slice i j (xs @ ys) = slice (i - length xs) (j - length xs) ys"
  by (simp add: slice_def)

lemma slice_append_left [slice_simps]:
  "j \<le> length xs \<Longrightarrow> slice i j (xs @ ys) = slice i j xs"
  by (simp add: slice_def)

lemma slice_whole [slice_simps]: "length xs \<le> j \<Longrightarrow> slice 0 j xs = xs"
  by (simp add: slice_def)

lemma slice_drop: "slice i j (drop k xs) = slice (k + i) (k + j) xs"
  by (simp add: slice_def add.commute)


section \<open>Results\<close>

text \<open>
  \<^verbatim>\<open>if err != nil { return err }\<close> after a call, and a sequence of writes that stops at the first
  error.
\<close>

definition bind_r :: "'a result \<Rightarrow> ('a \<Rightarrow> 'b result) \<Rightarrow> 'b result" where
  "bind_r r f = (case r of Inl e \<Rightarrow> Inl e | Inr x \<Rightarrow> f x)"

lemma bind_r_simps [simp]: "bind_r (Inl e) f = Inl e" "bind_r (Inr x) f = f x"
  by (simp_all add: bind_r_def)

lemma bind_r_cong [fundef_cong]: "r = r' \<Longrightarrow> (\<And>x. r' = Inr x \<Longrightarrow> f x = f' x) \<Longrightarrow> bind_r r f = bind_r r' f'"
  by (cases r') simp_all

lemma bind_r_Inr: "bind_r r f = Inr y \<longleftrightarrow> (\<exists>x. r = Inr x \<and> f x = Inr y)"
  by (cases r) simp_all

fun seq_w :: "bytes result list \<Rightarrow> bytes result" where
  "seq_w [] = Inr []"
| "seq_w (r # rs) = bind_r r (\<lambda>b. bind_r (seq_w rs) (\<lambda>bs. Inr (b @ bs)))"

end
