(* ===== verification/Ebml.thy ===== *)
theory Ebml
  imports Prelude
begin

text \<open>
  Package \<^verbatim>\<open>ebml\<close> (\<^verbatim>\<open>primitives.go\<close>, \<^verbatim>\<open>reader.go\<close>, \<^verbatim>\<open>writer.go\<close>): variable-length integers, element
  headers and primitive payloads, reading and writing.  A reader is a \<open>source\<close> of the prelude and
  every read returns its result with the source it leaves; a writer returns the bytes it hands to the
  sink (a failing sink is not modelled).  A float is its IEEE bit pattern.
\<close>

section \<open>Reading\<close>

definition MaxElementSize :: int where "MaxElementSize = 512 * 1024 * 1024"

definition checkSize :: "int \<Rightarrow> unit result" where
  "checkSize sz =
     (if sz < 0 \<or> sz > MaxElementSize then Inl (Errf ''element size exceeds limit'') else Inr ())"

text \<open>\<open>readBE_from i m\<close>: the loop of \<^verbatim>\<open>readBE\<close> at index \<open>i\<close> with \<open>m\<close> bytes to go.\<close>

fun readBE_from :: "nat \<Rightarrow> nat \<Rightarrow> u64 \<Rightarrow> source \<Rightarrow> u64 result \<times> source" where
  "readBE_from i 0 val s = (Inr val, s)"
| "readBE_from i (Suc m) val s =
     (case read_byte s of
        (Inl e, s') \<Rightarrow> (Inl (if e = EOF \<and> i > 0 then UnexpectedEOF else e), s')
      | (Inr b, s') \<Rightarrow> readBE_from (Suc i) m (push_bit 8 val OR ucast b) s')"

definition readBE :: "source \<Rightarrow> nat \<Rightarrow> u64 result \<times> source" where
  "readBE s n = readBE_from 0 n 0 s"

definition ReadUint :: "source \<Rightarrow> int \<Rightarrow> u64 result \<times> source" where
  "ReadUint s sz =
     (if sz < 0 \<or> sz > 8 then (Inl (Errf ''invalid uint size''), s)
      else if byte_reader s then readBE s (nat sz)
      else (case read_full (nat sz) s of
              (Inl e, s') \<Rightarrow> (Inl e, s')
            | (Inr buf, s') \<Rightarrow> (Inr (be_acc 0 buf), s')))"

text \<open>The loop over the bits of the first byte, from bit 7 down.\<close>

fun vint_width_from :: "nat \<Rightarrow> byte \<Rightarrow> nat" where
  "vint_width_from 0 b = (if b AND 1 \<noteq> 0 then 8 else 1)"
| "vint_width_from (Suc i) b =
     (if b AND push_bit (Suc i) 1 \<noteq> 0 then 8 - Suc i else vint_width_from i b)"

definition vint_width :: "byte \<Rightarrow> nat" where
  "vint_width b = vint_width_from 7 b"

text \<open>\<^verbatim>\<open>ReadVINT\<close> on an \<^verbatim>\<open>io.ByteReader\<close>, and on any other reader.\<close>

definition ReadVINT_bytes :: "source \<Rightarrow> (u64 \<times> nat) result \<times> source" where
  "ReadVINT_bytes s =
     (case read_byte s of
        (Inl e, s1) \<Rightarrow> (Inl e, s1)
      | (Inr b, s1) \<Rightarrow>
          if b = 0 then (Inl (Errf ''invalid VINT: leading zero byte''), s1)
          else let width = vint_width b in
            (case readBE s1 (width - 1) of
               (Inl e, s2) \<Rightarrow> (Inl e, s2)
             | (Inr rest, s2) \<Rightarrow>
                 (Inr (push_bit (8 * (width - 1)) (ucast b) OR rest, width), s2)))"

definition ReadVINT_full :: "source \<Rightarrow> (u64 \<times> nat) result \<times> source" where
  "ReadVINT_full s =
     (case read_full 1 s of
        (Inl e, s1) \<Rightarrow> (Inl e, s1)
      | (Inr first, s1) \<Rightarrow>
          let b = first ! 0 in
          if b = 0 then (Inl (Errf ''invalid VINT: leading zero byte''), s1)
          else let width = vint_width b in
            if width > 1 then
              (case read_full (width - 1) s1 of
                 (Inl e, s2) \<Rightarrow> (Inl e, s2)
               | (Inr rest, s2) \<Rightarrow> (Inr (be_acc (ucast b) rest, width), s2))
            else (Inr (ucast b, width), s1))"

definition ReadVINT :: "source \<Rightarrow> (u64 \<times> nat) result \<times> source" where
  "ReadVINT s = (if byte_reader s then ReadVINT_bytes s else ReadVINT_full s)"

definition ReadElementID :: "source \<Rightarrow> (u32 \<times> nat) result \<times> source" where
  "ReadElementID s =
     (case ReadVINT s of
        (Inl e, s') \<Rightarrow> (Inl e, s')
      | (Inr (val, n), s') \<Rightarrow>
          if n > 4 then (Inl (Errf ''invalid element ID: VINT exceeds 4-octet limit''), s')
          else (Inr (ucast val, n), s'))"

definition ReadDataSize :: "source \<Rightarrow> (int \<times> nat) result \<times> source" where
  "ReadDataSize s =
     (case ReadVINT s of
        (Inl e, s') \<Rightarrow> (Inl e, s')
      | (Inr (val, n), s') \<Rightarrow>
          let mask = push_bit (n * 7) (1 :: u64);
              sz = sint (val AND NOT mask)
          in if val = mask OR (mask - 1) then (Inr (-1, n), s') else (Inr (sz, n), s'))"

record ElementHeader =
  hdr_ID :: u32
  hdr_Size :: int

definition ReadElementHeader :: "source \<Rightarrow> (ElementHeader \<times> nat) result \<times> source" where
  "ReadElementHeader s =
     (case ReadElementID s of
        (Inl e, s1) \<Rightarrow> (Inl e, s1)
      | (Inr (eid, n1), s1) \<Rightarrow>
          (case ReadDataSize s1 of
             (Inl e, s2) \<Rightarrow> (Inl e, s2)
           | (Inr (sz, n2), s2) \<Rightarrow> (Inr (\<lparr>hdr_ID = eid, hdr_Size = sz\<rparr>, n1 + n2), s2)))"

text \<open>
  \<^verbatim>\<open>float64(math.Float32frombits(x))\<close> on bit patterns: the sign is kept, the exponent rebiased, the
  fraction shifted into place; a subnormal single is normalised, a NaN becomes quiet.
\<close>

fun top_bit_from :: "nat \<Rightarrow> u32 \<Rightarrow> nat" where
  "top_bit_from 0 m = 0"
| "top_bit_from (Suc i) m = (if bit m (Suc i) then Suc i else top_bit_from i m)"

definition float32_to_64 :: "u32 \<Rightarrow> u64" where
  "float32_to_64 x =
     (let sign = push_bit 63 (of_bool (bit x 31));
          e = take_bit 8 (drop_bit 23 x);
          m = take_bit 23 x
      in if e = 255 then
           sign OR push_bit 52 2047 OR (if m = 0 then 0 else push_bit 51 1 OR push_bit 29 (ucast m))
         else if e = 0 then
           (if m = 0 then sign
            else let p = top_bit_from 22 m in
              sign OR push_bit 52 (of_nat (p + 874)) OR
              take_bit 52 (push_bit (52 - p) (ucast m)))
         else sign OR push_bit 52 (ucast e + 896) OR push_bit 29 (ucast m))"

definition ReadFloat :: "source \<Rightarrow> int \<Rightarrow> u64 result \<times> source" where
  "ReadFloat s sz =
     (if sz = 0 then (Inr 0, s)
      else if sz = 4 then
        (case read_full 4 s of
           (Inl e, s') \<Rightarrow> (Inl e, s')
         | (Inr buf, s') \<Rightarrow> (Inr (float32_to_64 (be_dec buf)), s'))
      else if sz \<noteq> 8 then (Inl (Errf ''invalid float size''), s)
      else (case read_full 8 s of
              (Inl e, s') \<Rightarrow> (Inl e, s')
            | (Inr buf, s') \<Rightarrow> (Inr (be_dec buf), s')))"

text \<open>
  \<^verbatim>\<open>readExact\<close>.  Beside the data the model records every allocation the routine makes, newest
  first.  The loop's fuel is the number of times it may still go round; \<open>None\<close> is running out.
\<close>

definition maxUpfront :: nat where "maxUpfront = 2 ^ 20"

fun readExact_loop ::
  "nat \<Rightarrow> nat \<Rightarrow> bytes \<Rightarrow> nat \<Rightarrow> nat list \<Rightarrow> source \<Rightarrow> (bytes result \<times> nat list \<times> source) option" where
  "readExact_loop 0 sz buf cap allocs s = None"
| "readExact_loop (Suc fuel) sz buf cap allocs s =
     (if length buf < sz then
        let (cap', allocs') =
              (if length buf = cap
               then let next = 2 * cap; next' = (if 4 * next \<ge> sz then sz else next)
                    in (next', next' # allocs)
               else (cap, allocs))
        in (case read_full (cap' - length buf) s of
              (Inl e, s') \<Rightarrow> Some (Inl (if e = EOF then UnexpectedEOF else e), allocs', s')
            | (Inr got, s') \<Rightarrow> readExact_loop fuel sz (buf @ got) cap' allocs' s')
      else Some (Inr buf, allocs, s))"

definition readExact :: "nat \<Rightarrow> source \<Rightarrow> int \<Rightarrow> (bytes result \<times> nat list \<times> source) option" where
  "readExact fuel s sz =
     (case checkSize sz of
        Inl e \<Rightarrow> Some (Inl e, [], s)
      | Inr _ \<Rightarrow>
          if nat sz \<le> maxUpfront then
            (case read_full (nat sz) s of (r, s') \<Rightarrow> Some (r, [nat sz], s'))
          else readExact_loop fuel (nat sz) [] maxUpfront [maxUpfront] s)"

definition readExact_fuel :: nat where "readExact_fuel = 12"

definition ReadString :: "source \<Rightarrow> int \<Rightarrow> (bytes result \<times> source) option" where
  "ReadString s sz =
     (case readExact readExact_fuel s sz of
        None \<Rightarrow> None
      | Some (Inl e, _, s') \<Rightarrow> Some (Inl e, s')
      | Some (Inr buf, _, s') \<Rightarrow> Some (Inr (takeWhile (\<lambda>b. b \<noteq> 0) buf), s'))"

definition ReadBytes :: "source \<Rightarrow> int \<Rightarrow> (bytes result \<times> source) option" where
  "ReadBytes s sz =
     map_option (\<lambda>(r, _, s'). (r, s')) (readExact readExact_fuel s sz)"

section \<open>Writing\<close>

definition ElementIDLen :: "u32 \<Rightarrow> nat" where
  "ElementIDLen eid =
     (if eid \<ge> 0x10000000 then 4 else if eid \<ge> 0x200000 then 3 else if eid \<ge> 0x4000 then 2 else 1)"

definition DataSizeLen :: "int \<Rightarrow> nat" where
  "DataSizeLen sz =
     (case find (\<lambda>w. (word_of_int sz :: u64) \<le> push_bit (w * 7) 1 - 2) [1..<9] of
        Some w \<Rightarrow> w | None \<Rightarrow> 8)"

lemma unat_drop_bit_8_less: "0 < v \<Longrightarrow> unat (drop_bit 8 (v :: u64)) < unat v"
  unfolding unat_drop_bit_eq by (simp add: drop_bit_eq_div word_gt_0 unat_gt_0)

function UintLen_loop :: "u64 \<Rightarrow> nat" where
  "UintLen_loop v = (if v > 0 then Suc (UintLen_loop (drop_bit 8 v)) else 0)"
  by pat_completeness auto
termination
  by (relation "measure unat") (simp_all add: unat_drop_bit_8_less)

declare UintLen_loop.simps [simp del]

definition UintLen :: "u64 \<Rightarrow> nat" where
  "UintLen val = (if val = 0 then 1 else UintLen_loop val)"

definition ElementHeaderLen :: "u32 \<Rightarrow> int \<Rightarrow> nat" where
  "ElementHeaderLen eid sz =
     (if sz < 0 then ElementIDLen eid + 8 else ElementIDLen eid + DataSizeLen sz)"

definition WriteElementID :: "u32 \<Rightarrow> bytes" where
  "WriteElementID eid = drop (4 - ElementIDLen eid) (be_enc 4 eid)"

definition WriteDataSizeWidth :: "int \<Rightarrow> int \<Rightarrow> bytes result" where
  "WriteDataSizeWidth sz width =
     (if sz < 0 \<or> width > 8 \<or> width < int (DataSizeLen sz)
      then Inl (Errf ''ebml: cannot encode data size as a VINT of that width'')
      else let val = (word_of_int sz :: u64) OR push_bit (nat width * 7) 1
           in Inr (drop (8 - nat width) (be_enc 8 val)))"

definition WriteDataSize :: "int \<Rightarrow> bytes result" where
  "WriteDataSize sz =
     (if sz < 0 then Inr [0x01, 0xFF, 0xFF, 0xFF, 0xFF, 0xFF, 0xFF, 0xFF]
      else WriteDataSizeWidth sz (int (DataSizeLen sz)))"

definition WriteElementHeader :: "u32 \<Rightarrow> int \<Rightarrow> bytes result" where
  "WriteElementHeader eid sz =
     (case WriteDataSize sz of Inl e \<Rightarrow> Inl e | Inr d \<Rightarrow> Inr (WriteElementID eid @ d))"

definition WriteUint :: "u64 \<Rightarrow> int \<Rightarrow> bytes result" where
  "WriteUint val n =
     (if n < 1 \<or> n > 8 then Inl (Errf ''ebml: cannot encode a uint in that many bytes'')
      else Inr (drop (8 - nat n) (be_enc 8 val)))"

definition WriteFloat :: "u64 \<Rightarrow> bytes" where "WriteFloat val = be_enc 8 val"

definition WriteFloat32 :: "u32 \<Rightarrow> bytes" where "WriteFloat32 val = be_enc 4 val"


section \<open>The two read paths agree\<close>

lemma readBE_from_spec:
  "readBE_from i n v s =
     (if n \<le> length (pending s)
      then (Inr (be_acc v (take n (pending s))), s\<lparr>pending := drop n (pending s)\<rparr>)
      else (Inl (if at_end s = EOF \<and> (i > 0 \<or> pending s \<noteq> []) then UnexpectedEOF else at_end s),
            s\<lparr>pending := []\<rparr>))"
proof (induction n arbitrary: i v s)
  case 0
  then show ?case by simp
next
  case (Suc n)
  show ?case
  proof (cases "pending s")
    case Nil
    then show ?thesis by (simp add: read_byte_def)
  next
    case (Cons b bs)
    then show ?thesis
      using Suc [of "Suc i" "push_bit 8 v OR ucast b" "s\<lparr>pending := bs\<rparr>"]
      by (simp add: read_byte_def)
  qed
qed

lemma readBE_read_full:
  "readBE s n = (case read_full n s of
     (Inl e, s') \<Rightarrow> (Inl e, s') | (Inr buf, s') \<Rightarrow> (Inr (be_acc 0 buf), s'))"
  by (simp add: readBE_def readBE_from_spec read_full_def)

lemma ReadUint_paths: "ReadUint s sz = (if sz < 0 \<or> sz > 8 then (Inl (Errf ''invalid uint size''), s) else readBE s (nat sz))"
  by (simp add: ReadUint_def readBE_read_full)

lemma ReadVINT_paths: "ReadVINT_bytes s = ReadVINT_full s"
proof (cases "pending s")
  case Nil
  then show ?thesis
    by (simp add: ReadVINT_bytes_def ReadVINT_full_def read_byte_def read_full_def)
next
  case (Cons b bs)
  have one: "read_byte s = (Inr b, s\<lparr>pending := bs\<rparr>)" "read_full 1 s = (Inr [b], s\<lparr>pending := bs\<rparr>)"
    using Cons by (simp_all add: read_byte_def read_full_def)
  show ?thesis
  proof (cases "vint_width b > 1")
    case True
    let ?w = "vint_width b"
    have split: "be_acc (ucast b) rest = (push_bit (8 * (?w - 1)) (ucast b) OR be_acc 0 rest :: u64)"
      if "length rest = ?w - 1" for rest
      using be_acc_split [of "ucast b" rest] that by simp
    show ?thesis
      using True one split
      by (auto simp add: ReadVINT_bytes_def ReadVINT_full_def readBE_read_full read_full_def Let_def)
  next
    case False
    then show ?thesis
      using one by (simp add: ReadVINT_bytes_def ReadVINT_full_def readBE_read_full read_full_def Let_def)
  qed
qed

lemma ReadVINT_eq: "ReadVINT s = ReadVINT_full s"
  by (simp add: ReadVINT_def ReadVINT_paths)

section \<open>Widths\<close>

lemma vint_width_bounds: "1 \<le> vint_width b \<and> vint_width b \<le> 8"
proof -
  have "1 \<le> vint_width_from i b \<and> vint_width_from i b \<le> 8" if "i \<le> 7" for i
    using that by (induction i) auto
  then show ?thesis by (simp add: vint_width_def)
qed

lemma and_push_bit_iff: "(b :: byte) AND push_bit i 1 \<noteq> 0 \<longleftrightarrow> bit b i"
  by (simp add: push_bit_eq_mult and_exp_eq_0_iff_not_bit)

lemma vint_width_from_top:
  "i \<le> 7 \<Longrightarrow> j \<le> i \<Longrightarrow> bit b j \<Longrightarrow> (\<And>k. j < k \<Longrightarrow> \<not> bit b k) \<Longrightarrow> vint_width_from i b = 8 - j"
proof (induction i)
  case 0
  then show ?case using and_push_bit_iff [of b 0] by simp
next
  case (Suc i)
  show ?case
  proof (cases "j = Suc i")
    case True
    then show ?thesis using Suc.prems(3) and_push_bit_iff [of b "Suc i"] by simp
  next
    case False
    then have "\<not> bit b (Suc i)" using Suc.prems by simp
    then have "vint_width_from (Suc i) b = vint_width_from i b"
      using and_push_bit_iff [of b "Suc i"] by simp
    with Suc False show ?thesis by simp
  qed
qed

lemma vint_width_top:
  assumes "1 \<le> w" "w \<le> 8" "bit b (8 - w)" "\<And>k. 8 - w < k \<Longrightarrow> \<not> bit b k"
  shows "vint_width b = w"
  using vint_width_from_top [of 7 "8 - w" b] assms by (simp add: vint_width_def)


section \<open>Writing and reading back\<close>

text \<open>\<open>val\<close> is a VINT of \<open>w\<close> bytes with its length marker: the marker is its top bit.\<close>

definition vint_ok :: "nat \<Rightarrow> u64 \<Rightarrow> bool" where
  "vint_ok w val \<longleftrightarrow> 1 \<le> w \<and> w \<le> 8 \<and> bit val (7 * w) \<and> drop_bit (7 * w + 1) val = 0"

lemma vint_ok_high: "vint_ok w val \<Longrightarrow> 7 * w < k \<Longrightarrow> \<not> bit val k"
proof -
  assume "vint_ok w val" "7 * w < k"
  then have "\<not> bit (drop_bit (7 * w + 1) val) (k - (7 * w + 1))" and "k = 7 * w + 1 + (k - (7 * w + 1))"
    by (simp_all add: vint_ok_def)
  then show ?thesis by (simp add: bit_simps)
qed

lemma vint_first_byte:
  assumes "vint_ok w val"
  shows "vint_width (ucast (drop_bit (8 * (w - 1)) val)) = w"
    and "(ucast (drop_bit (8 * (w - 1)) val) :: byte) \<noteq> 0"
proof -
  let ?b = "ucast (drop_bit (8 * (w - 1)) val) :: byte"
  have w: "1 \<le> w" "w \<le> 8" using assms by (simp_all add: vint_ok_def)
  have top: "bit ?b (8 - w)"
  proof -
    have "8 * (w - 1) + (8 - w) = 7 * w" using w by simp
    with assms w show ?thesis by (simp add: bit_simps vint_ok_def)
  qed
  moreover have "\<not> bit ?b k" if "8 - w < k" for k
  proof -
    have "7 * w < 8 * (w - 1) + k" using w that by simp
    then show ?thesis using vint_ok_high [OF assms] by (simp add: bit_simps)
  qed
  ultimately show "vint_width ?b = w" using w by (intro vint_width_top)
  show "?b \<noteq> 0" using top by auto
qed

lemma vint_take_bit:
  assumes "vint_ok w val"
  shows "take_bit (8 * w) val = val"
proof (rule bit_eqI)
  fix k
  show "bit (take_bit (8 * w) val) k = bit val k"
  proof (cases "k < 8 * w")
    case False
    then have "7 * w < k" using assms by (simp add: vint_ok_def)
    then show ?thesis using vint_ok_high [OF assms] False by (simp add: bit_simps)
  qed (simp add: bit_simps)
qed

lemma ReadVINT_enc:
  assumes "vint_ok w val" and p: "pending s = be_enc w val @ rest"
  shows "ReadVINT s = (Inr (val, w), s\<lparr>pending := rest\<rparr>)"
proof -
  obtain m where w: "w = Suc m" using assms by (cases w) (simp_all add: vint_ok_def)
  let ?b = "ucast (drop_bit (8 * m) val) :: byte"
  have b: "vint_width ?b = Suc m" "?b \<noteq> 0" using vint_first_byte [OF assms(1)] w by simp_all
  have bits: "be_acc (ucast ?b) (be_enc m val) = val"
  proof -
    have "be_acc 0 (be_enc (Suc m) val) = val"
      using be_dec_enc [of "Suc m" val] vint_take_bit [OF assms(1)] w by (simp add: be_dec_def)
    then show ?thesis by simp
  qed
  then show ?thesis
    using p w b by (auto simp add: ReadVINT_eq ReadVINT_full_def read_full_def Let_def)
qed

lemma ReadElementID_enc:
  assumes "vint_ok w (ucast eid)" "w \<le> 4" and p: "pending s = be_enc w (ucast eid :: u64) @ rest"
  shows "ReadElementID s = (Inr (eid, w), s\<lparr>pending := rest\<rparr>)"
proof -
  have "(ucast (ucast eid :: u64) :: u32) = eid"
    by (rule bit_eqI) (auto simp add: bit_simps)
  then show ?thesis using ReadVINT_enc [OF assms(1) p] assms(2) by (simp add: ReadElementID_def)
qed

lemma word_of_int_high_bit:
  assumes "0 \<le> sz" "sz < 2 ^ n" "n \<le> k"
  shows "\<not> bit (word_of_int sz :: u64) k"
proof -
  have "take_bit n sz = sz" using assms by (simp add: take_bit_int_eq_self)
  then have "\<not> bit sz k" using bit_take_bit_iff [of n sz k] assms(3) by simp
  then show ?thesis by (simp add: bit_simps)
qed

lemma vint_ok_size:
  assumes "1 \<le> w" "w \<le> 8" "0 \<le> sz" "sz < 2 ^ (7 * w)"
  shows "vint_ok w (word_of_int sz OR push_bit (w * 7) 1)"
proof -
  have "drop_bit (7 * w + 1) (word_of_int sz OR push_bit (w * 7) 1 :: u64) = 0"
  proof (rule bit_eqI)
    fix k
    show "bit (drop_bit (7 * w + 1) (word_of_int sz OR push_bit (w * 7) 1 :: u64)) k = bit (0 :: u64) k"
      using word_of_int_high_bit [OF assms(3,4), of "7 * w + 1 + k"] by (auto simp add: bit_simps)
  qed
  moreover have "bit (word_of_int sz OR push_bit (w * 7) 1 :: u64) (7 * w)"
    using assms by (simp add: bit_simps mult.commute [of w])
  ultimately show ?thesis using assms by (simp only: vint_ok_def)
qed

lemma clear_marker:
  assumes "\<not> bit x n" shows "(x OR push_bit n 1) AND NOT (push_bit n 1) = (x :: u64)"
proof (rule bit_eqI)
  fix k
  show "bit ((x OR push_bit n 1) AND NOT (push_bit n 1)) k = bit x k"
    using assms bit_imp_le_length [of x k] by (cases "k = n") (auto simp add: bit_simps)
qed

lemma mask_word_of_int: "push_bit n 1 - 1 = (word_of_int (2 ^ n - 1) :: u64)"
  by (simp add: push_bit_eq_mult)

lemma marker_all_ones:
  assumes n: "n < 64" and sz: "0 \<le> sz" "sz < 2 ^ n"
  shows "(word_of_int sz OR push_bit n 1 = (push_bit n 1 OR (push_bit n 1 - 1) :: u64)) \<longleftrightarrow> sz = 2 ^ n - 1"
proof
  assume eq: "word_of_int sz OR push_bit n 1 = (push_bit n 1 OR (push_bit n 1 - 1) :: u64)"
  have "(word_of_int sz :: u64) = (word_of_int sz OR push_bit n 1) AND NOT (push_bit n 1)"
    using clear_marker [of "word_of_int sz" n] word_of_int_high_bit [OF sz, of n] by simp
  also have "\<dots> = (word_of_int (2 ^ n - 1) OR push_bit n 1) AND NOT (push_bit n 1)"
    by (simp only: eq mask_word_of_int or.commute)
  also have "\<dots> = word_of_int (2 ^ n - 1)"
    using clear_marker [of "word_of_int (2 ^ n - 1)" n] word_of_int_high_bit [of "2 ^ n - 1" n n] by simp
  finally have "(word_of_int sz :: u64) = word_of_int (2 ^ n - 1)" .
  then have "uint (word_of_int sz :: u64) = uint (word_of_int (2 ^ n - 1) :: u64)"
    by (rule arg_cong)
  then have "sz mod 2 ^ 64 = (2 ^ n - 1) mod 2 ^ 64" unfolding uint_word_of_int by simp
  moreover have "(2 :: int) ^ n < 2 ^ 64" using n by (intro power_strict_increasing) simp_all
  ultimately show "sz = 2 ^ n - 1" using sz by simp
qed (simp add: mask_word_of_int or.commute)

lemma sint_word_of_int_small: "0 \<le> sz \<Longrightarrow> sz < 2 ^ 63 \<Longrightarrow> sint (word_of_int sz :: u64) = sz"
  by (simp add: signed_of_int signed_take_bit_int_eq_self)

lemma ReadDataSize_enc:
  assumes w: "1 \<le> w" "w \<le> 8" and sz: "0 \<le> sz" "sz < 2 ^ (7 * w) - 1"
    and p: "pending s = be_enc w (word_of_int sz OR push_bit (w * 7) 1 :: u64) @ rest"
  shows "ReadDataSize s = (Inr (sz, w), s\<lparr>pending := rest\<rparr>)"
proof -
  let ?x = "word_of_int sz :: u64" and ?m = "push_bit (w * 7) 1 :: u64"
  have sz': "sz < 2 ^ (7 * w)" "sz < 2 ^ (w * 7)" using sz by (simp_all add: mult.commute)
  have "(2 :: int) ^ (7 * w) \<le> 2 ^ 56" using w by (intro power_increasing) simp_all
  then have small: "sz < 2 ^ 63" using sz by simp
  have "vint_ok w (?x OR ?m)" using vint_ok_size w sz sz' by simp
  moreover have "(?x OR ?m) AND NOT ?m = ?x"
    using clear_marker word_of_int_high_bit [OF sz(1) sz'(2)] by simp
  moreover have "?x OR ?m \<noteq> ?m OR (?m - 1)"
    using marker_all_ones [of "w * 7" sz] w sz sz' by (simp add: mult.commute)
  ultimately show ?thesis
    using ReadVINT_enc [OF _ p] sint_word_of_int_small [OF sz(1) small]
    by (simp add: ReadDataSize_def Let_def)
qed


section \<open>The minimal width\<close>

lemma size_fits_iff:
  assumes "1 \<le> w" "w \<le> 8" "0 \<le> sz" "sz < 2 ^ 63"
  shows "(word_of_int sz :: u64) \<le> push_bit (w * 7) 1 - 2 \<longleftrightarrow> sz \<le> 2 ^ (7 * w) - 2"
proof -
  have "w \<in> {1, 2, 3, 4, 5, 6, 7, 8}" using assms by auto
  then have "uint (push_bit (w * 7) 1 - 2 :: u64) = 2 ^ (7 * w) - 2" by auto
  moreover have "uint (word_of_int sz :: u64) = sz"
    using assms by (simp add: uint_word_of_int)
  ultimately show ?thesis by (simp add: word_le_def)
qed

lemma DataSizeLen_cases:
  assumes "0 \<le> sz" "sz < 2 ^ 63"
  shows "DataSizeLen sz =
     (case find (\<lambda>w. sz \<le> 2 ^ (7 * w) - 2) [1..<9] of Some w \<Rightarrow> w | None \<Rightarrow> 8)"
proof -
  have "find (\<lambda>w. (word_of_int sz :: u64) \<le> push_bit (w * 7) 1 - 2) [1..<9]
      = find (\<lambda>w. sz \<le> 2 ^ (7 * w) - 2) [1..<9]"
    using size_fits_iff [OF _ _ assms] by (intro find_cong) auto
  then show ?thesis by (simp add: DataSizeLen_def)
qed

lemma DataSizeLen_bounds: "1 \<le> DataSizeLen sz \<and> DataSizeLen sz \<le> 8"
  by (auto simp add: DataSizeLen_def find_Some_iff split: option.splits)

lemma DataSizeLen_least:
  assumes "0 \<le> sz" "sz < 2 ^ 56 - 1" "1 \<le> w" "w \<le> 8"
  shows "DataSizeLen sz \<le> w \<longleftrightarrow> sz < 2 ^ (7 * w) - 1"
proof -
  have "(2 :: int) ^ 56 \<le> 2 ^ 63" by simp
  then have sz: "sz < 2 ^ 63" using assms by simp
  let ?P = "\<lambda>w. sz \<le> 2 ^ (7 * w) - 2"
  have mono: "?P v" if "?P u" "u \<le> v" for u v :: nat
  proof -
    have "(2 :: int) ^ (7 * u) \<le> 2 ^ (7 * v)" using that(2) by (intro power_increasing) simp_all
    with that(1) show ?thesis by linarith
  qed
  have "?P 8" using assms by simp
  have "find ?P [1..<9] \<noteq> None"
  proof
    assume "find ?P [1..<9] = None"
    then have "\<forall>x \<in> set [1..<9]. \<not> ?P x" unfolding find_None_iff by blast
    then have "\<not> ?P 8" by (rule bspec) simp
    with \<open>?P 8\<close> show False by simp
  qed
  then obtain u where u: "find ?P [1..<9] = Some u" by blast
  then have len: "DataSizeLen sz = u" using DataSizeLen_cases [OF assms(1) sz] by simp
  from u obtain i where i: "i < 8" "?P (1 + i)" "u = 1 + i" "\<And>j. j < i \<Longrightarrow> \<not> ?P (1 + j)"
    by (auto simp add: find_Some_iff nth_upt)
  show ?thesis
  proof
    assume "DataSizeLen sz \<le> w"
    then show "sz < 2 ^ (7 * w) - 1" using mono [OF i(2), of w] len i(3) by simp
  next
    assume "sz < 2 ^ (7 * w) - 1"
    then have "?P w" by simp
    show "DataSizeLen sz \<le> w"
    proof (rule ccontr)
      assume "\<not> DataSizeLen sz \<le> w"
      then have "w - 1 < i" using len i(3) assms(3) by simp
      then show False using i(4) [of "w - 1"] \<open>?P w\<close> assms(3) by simp
    qed
  qed
qed


lemma WriteDataSizeWidth_enc:
  assumes "0 \<le> sz" "1 \<le> w" "w \<le> 8" "DataSizeLen sz \<le> w"
  shows "WriteDataSizeWidth sz (int w) = Inr (be_enc w (word_of_int sz OR push_bit (w * 7) 1 :: u64))"
  using assms by (simp add: WriteDataSizeWidth_def drop_be_enc)

lemma WriteDataSizeWidth_Inr:
  assumes "WriteDataSizeWidth sz width = Inr bs"
  obtains w where "width = int w" "1 \<le> w" "w \<le> 8" "0 \<le> sz" "DataSizeLen sz \<le> w"
    "bs = be_enc w (word_of_int sz OR push_bit (w * 7) 1 :: u64)"
proof -
  have w: "0 \<le> sz" "width \<le> 8" "int (DataSizeLen sz) \<le> width"
    and bs: "bs = drop (8 - nat width) (be_enc 8 ((word_of_int sz :: u64) OR push_bit (nat width * 7) 1))"
    using assms by (auto simp add: WriteDataSizeWidth_def Let_def split: if_splits)
  have "1 \<le> width" using w DataSizeLen_bounds [of sz] by linarith
  with w bs show thesis
    by (intro that [of "nat width"]) (auto simp add: drop_be_enc)
qed

lemma WriteElementID_enc: "WriteElementID eid = be_enc (ElementIDLen eid) eid"
  by (simp add: WriteElementID_def ElementIDLen_def drop_be_enc)

lemma be_enc_ucast: "n \<le> 4 \<Longrightarrow> be_enc n (ucast (w :: u32) :: u64) = be_enc n w"
proof (induction n)
  case (Suc n)
  have "(ucast (drop_bit (8 * n) (ucast w :: u64)) :: byte) = ucast (drop_bit (8 * n) w)"
    by (rule bit_eqI) (use Suc.prems in \<open>auto simp add: bit_simps\<close>)
  with Suc show ?case by simp
qed simp

text \<open>An element ID carries its own length marker; \<open>valid_ID\<close> says it is the right one.\<close>

definition valid_ID :: "u32 \<Rightarrow> bool" where
  "valid_ID eid \<longleftrightarrow> vint_ok (ElementIDLen eid) (ucast eid)"

lemma ElementIDLen_bounds: "1 \<le> ElementIDLen eid \<and> ElementIDLen eid \<le> 4"
  by (simp add: ElementIDLen_def)

lemma UintLen_loop_holds: "take_bit (8 * UintLen_loop v) v = v"
proof (induction v rule: UintLen_loop.induct)
  case (1 v)
  show ?case
  proof (cases "0 < v")
    case True
    define n where "n = UintLen_loop (drop_bit 8 v)"
    have IH: "take_bit (8 * n) (drop_bit 8 v) = drop_bit 8 v" using 1 True by (simp add: n_def)
    have high: "k < 8 * n + 8" if "bit v k" for k
    proof (rule ccontr)
      assume k: "\<not> k < 8 * n + 8"
      then have "bit (drop_bit 8 v) (k - 8)" using that by (simp add: bit_drop_bit_eq)
      moreover have "\<not> bit (take_bit (8 * n) (drop_bit 8 v)) (k - 8)" using k by (simp add: bit_take_bit_iff)
      ultimately show False using IH by simp
    qed
    have "take_bit (8 * n + 8) v = v"
      by (rule bit_eqI) (use high in \<open>auto simp add: bit_simps\<close>)
    then show ?thesis using True by (simp add: UintLen_loop.simps [of v] n_def [symmetric] add.commute)
  qed (simp add: UintLen_loop.simps [of v] word_gt_0)
qed

lemma UintLen_loop_le: "drop_bit (8 * k) v = 0 \<Longrightarrow> UintLen_loop v \<le> k"
proof (induction k arbitrary: v)
  case 0
  then show ?case by (simp add: UintLen_loop.simps [of 0])
next
  case (Suc k)
  have "drop_bit (8 * k) (drop_bit 8 v) = 0" using Suc.prems by (simp add: drop_bit_drop_bit add.commute)
  then have "UintLen_loop (drop_bit 8 v) \<le> k" by (rule Suc.IH)
  then show ?case by (simp add: UintLen_loop.simps [of v])
qed

lemma UintLen_bounds: "1 \<le> UintLen v \<and> UintLen v \<le> 8"
proof -
  have "drop_bit (8 * 8) v = 0" by (rule bit_eqI) (auto simp add: bit_simps dest: bit_imp_le_length)
  then have "UintLen_loop v \<le> 8" by (rule UintLen_loop_le)
  moreover have "v \<noteq> 0 \<Longrightarrow> 1 \<le> UintLen_loop v" by (simp add: UintLen_loop.simps [of v] word_gt_0)
  ultimately show ?thesis by (simp add: UintLen_def)
qed

lemma UintLen_holds: "take_bit (8 * UintLen v) v = v"
  by (cases "v = 0") (simp_all add: UintLen_def UintLen_loop_holds)

lemma WriteUint_enc: "1 \<le> n \<Longrightarrow> n \<le> 8 \<Longrightarrow> WriteUint v (int n) = Inr (be_enc n v)"
  by (simp add: WriteUint_def drop_be_enc)

lemma ReadUint_enc:
  assumes "n \<le> 8" and "pending s = be_enc n v @ rest"
  shows "ReadUint s (int n) = (Inr (take_bit (8 * n) v), s\<lparr>pending := rest\<rparr>)"
  using assms by (simp add: ReadUint_paths readBE_read_full read_full_def be_dec_enc [unfolded be_dec_def])

section \<open>Bounded allocation\<close>

definition exact_err :: "source \<Rightarrow> error" where
  "exact_err s = (if at_end s = EOF then UnexpectedEOF else at_end s)"

text \<open>What reading \<open>need\<close> more bytes behind \<open>buf\<close> gives, and the reader it leaves.\<close>

definition exact_outcome :: "nat \<Rightarrow> bytes \<Rightarrow> source \<Rightarrow> bytes result \<times> source" where
  "exact_outcome need buf s =
     (if need \<le> length (pending s)
      then (Inr (buf @ take need (pending s)), s\<lparr>pending := drop need (pending s)\<rparr>)
      else (Inl (exact_err s), s\<lparr>pending := []\<rparr>))"

lemma exact_outcome_split:
  "c \<le> length (pending s) \<Longrightarrow>
   exact_outcome m (buf @ take c (pending s)) (s\<lparr>pending := drop c (pending s)\<rparr>) = exact_outcome (c + m) buf s"
  by (auto simp add: exact_outcome_def exact_err_def take_add add.commute)

definition next_cap :: "nat \<Rightarrow> nat \<Rightarrow> nat" where
  "next_cap sz cap = (if 8 * cap \<ge> sz then sz else 2 * cap)"

lemma readExact_loop_done: "length buf \<ge> sz \<Longrightarrow> readExact_loop (Suc fuel) sz buf cap allocs s = Some (Inr buf, allocs, s)"
  by simp

lemma readExact_loop_grow:
  assumes "length buf = cap" "cap < sz"
  shows "readExact_loop (Suc fuel) sz buf cap allocs s =
     (let c = next_cap sz cap; need = c - cap in
      if need \<le> length (pending s)
      then readExact_loop fuel sz (buf @ take need (pending s)) c (c # allocs)
             (s\<lparr>pending := drop need (pending s)\<rparr>)
      else Some (Inl (exact_err s), c # allocs, s\<lparr>pending := []\<rparr>))"
  using assms by (auto simp add: next_cap_def read_full_def exact_err_def Let_def)

lemma readExact_loop_first:
  assumes "0 < cap" "cap < sz"
  shows "readExact_loop (Suc fuel) sz [] cap allocs s =
     (if cap \<le> length (pending s)
      then readExact_loop fuel sz (take cap (pending s)) cap allocs (s\<lparr>pending := drop cap (pending s)\<rparr>)
      else Some (Inl (exact_err s), allocs, s\<lparr>pending := []\<rparr>))"
  using assms by (auto simp add: read_full_def exact_err_def)

declare readExact_loop.simps(2) [simp del]

lemma readExact_loop_full:
  assumes "length buf = cap" "0 < cap" "cap < sz" "sz \<le> 8 * cap * 2 ^ k"
  shows "\<exists>grown. readExact_loop (k + 2) sz buf cap allocs s =
           (case exact_outcome (sz - cap) buf s of (r, s') \<Rightarrow> Some (r, grown @ allocs, s')) \<and>
         (sz \<le> 8 * cap \<longrightarrow> sum_list grown \<le> sz) \<and>
         (4 * cap \<le> sz \<longrightarrow> 2 * sum_list grown + 4 * cap \<le> 3 * sz) \<and>
         (\<forall>a \<in> set grown. a \<le> 8 * (cap + min (sz - cap) (length (pending s))))"
  using assms
proof (induction k arbitrary: buf cap allocs s)
  case 0
  then have c: "next_cap sz cap = sz" by (simp add: next_cap_def)
  show ?case
    using 0 c readExact_loop_grow [of buf cap sz 1 allocs s]
    by (intro exI [of _ "[sz]"]) (simp add: exact_outcome_def Let_def readExact_loop_done)
next
  case (Suc k)
  show ?case
  proof (cases "sz \<le> 8 * cap")
    case True
    then have c: "next_cap sz cap = sz" by (simp add: next_cap_def)
    show ?thesis
      using Suc.prems True c readExact_loop_grow [of buf cap sz "Suc (Suc k)" allocs s]
      by (intro exI [of _ "[sz]"]) (simp add: exact_outcome_def Let_def readExact_loop_done)
  next
    case False
    then have c: "next_cap sz cap = 2 * cap" by (simp add: next_cap_def)
    show ?thesis
    proof (cases "cap \<le> length (pending s)")
      case short: False
      then show ?thesis
        using Suc.prems False c readExact_loop_grow [of buf cap sz "Suc (Suc k)" allocs s]
        by (intro exI [of _ "[2 * cap]"]) (simp add: exact_outcome_def Let_def)
    next
      case True
      let ?buf = "buf @ take cap (pending s)" and ?s = "s\<lparr>pending := drop cap (pending s)\<rparr>"
      have "length ?buf = 2 * cap" "0 < 2 * cap" "2 * cap < sz" "sz \<le> 8 * (2 * cap) * 2 ^ k"
        using Suc.prems False True by simp_all
      from Suc.IH [OF this, of "2 * cap # allocs" ?s] obtain grown where
        eq: "readExact_loop (k + 2) sz ?buf (2 * cap) (2 * cap # allocs) ?s =
           (case exact_outcome (sz - 2 * cap) ?buf ?s of (r, s') \<Rightarrow> Some (r, grown @ 2 * cap # allocs, s'))"
        and b1: "4 * (2 * cap) \<le> sz \<longrightarrow> 2 * sum_list grown + 4 * (2 * cap) \<le> 3 * sz"
        and b2: "\<forall>a \<in> set grown. a \<le> 8 * (2 * cap + min (sz - 2 * cap) (length (pending ?s)))"
        by auto
      have same: "exact_outcome (sz - 2 * cap) ?buf ?s = exact_outcome (sz - cap) buf s"
      proof -
        obtain m where m: "sz = cap + cap + m" using False le_Suc_ex [of "2 * cap" sz] by auto
        show ?thesis
          using True exact_outcome_split [of cap s m buf] m by (simp add: mult_2)
      qed
      have "readExact_loop (Suc k + 2) sz buf cap allocs s =
           (case exact_outcome (sz - cap) buf s of (r, s') \<Rightarrow> Some (r, (grown @ [2 * cap]) @ allocs, s'))"
        using readExact_loop_grow [of buf cap sz "k + 2" allocs s] Suc.prems c True eq same
        by (simp add: Let_def)
      moreover have "2 * sum_list (grown @ [2 * cap]) + 4 * cap \<le> 3 * sz"
        using b1 False by simp
      moreover have "\<forall>a \<in> set (grown @ [2 * cap]). a \<le> 8 * (cap + min (sz - cap) (length (pending s)))"
        using b2 False True by (auto simp add: min_def split: if_splits)
      ultimately show ?thesis using False by blast
    qed
  qed
qed

lemma readExact_big:
  assumes "int maxUpfront < sz" "sz \<le> MaxElementSize"
  shows "\<exists>grown. readExact readExact_fuel s sz =
           (case exact_outcome (nat sz) [] s of (r, s') \<Rightarrow> Some (r, grown @ [maxUpfront], s')) \<and>
         sum_list grown \<le> nat sz + (if sz < 2 ^ 22 then 0 else nat sz div 2 - 2 ^ 21) \<and>
         (\<forall>a \<in> set grown. a \<le> 8 * min (nat sz) (length (pending s)))"
proof -
  let ?n = "nat sz" and ?u = "maxUpfront"
  have lim: "?u < ?n" "?n \<le> 8 * ?u * 2 ^ 9" "checkSize sz = Inr ()" "\<not> ?n \<le> ?u"
    using assms by (simp_all add: maxUpfront_def MaxElementSize_def checkSize_def)
  have start: "readExact readExact_fuel s sz = readExact_loop (Suc (9 + 2)) ?n [] ?u [?u] s"
    using lim by (simp add: readExact_def readExact_fuel_def)
  show ?thesis
  proof (cases "?u \<le> length (pending s)")
    case False
    then show ?thesis
      using lim(1) start readExact_loop_first [of ?u ?n "9 + 2" "[?u]" s]
      by (intro exI [of _ "[]"]) (auto simp add: exact_outcome_def maxUpfront_def)
  next
    case True
    let ?buf = "take ?u (pending s)" and ?s = "s\<lparr>pending := drop ?u (pending s)\<rparr>"
    have step: "readExact_loop (Suc (9 + 2)) ?n [] ?u [?u] s = readExact_loop (9 + 2) ?n ?buf ?u [?u] ?s"
      using True lim(1) readExact_loop_first [of ?u ?n "9 + 2" "[?u]" s] by (simp add: maxUpfront_def)
    have "length ?buf = ?u" "0 < ?u" "?u < ?n" "?n \<le> 8 * ?u * 2 ^ 9"
      using True lim by (simp_all add: maxUpfront_def)
    from readExact_loop_full [OF this, of "[?u]" ?s] obtain grown where
      eq: "readExact_loop (9 + 2) ?n ?buf ?u [?u] ?s =
             (case exact_outcome (?n - ?u) ?buf ?s of (r, s') \<Rightarrow> Some (r, grown @ [?u], s'))"
      and b1: "?n \<le> 8 * ?u \<longrightarrow> sum_list grown \<le> ?n"
      and b2: "4 * ?u \<le> ?n \<longrightarrow> 2 * sum_list grown + 4 * ?u \<le> 3 * ?n"
      and b3: "\<forall>a \<in> set grown. a \<le> 8 * (?u + min (?n - ?u) (length (pending ?s)))"
      by blast
    have same: "exact_outcome (?n - ?u) ?buf ?s = exact_outcome ?n [] s"
    proof -
      obtain m where m: "?n = ?u + m" using lim(1) le_Suc_ex [of ?u ?n] by auto
      then show ?thesis using exact_outcome_split [of ?u s m "[]"] True by simp
    qed
    have "sum_list grown \<le> ?n + (if sz < 2 ^ 22 then 0 else ?n div 2 - 2 ^ 21)"
      using b1 b2 by (auto simp add: maxUpfront_def nat_less_iff)
    moreover have "\<forall>a \<in> set grown. a \<le> 8 * min ?n (length (pending s))"
      using b3 True lim by (auto simp add: min_def split: if_splits)
    ultimately show ?thesis using eq same step start by auto
  qed
qed

section \<open>Properties\<close>

text \<open>
  A data size written as a VINT of any admissible width reads back as that size and that width,
  and the reader is left right behind it.  (The all-ones value of eight bytes, \<open>2 ^ 56 - 1\<close>, is
  excluded: see \<open>data_size_all_ones_lost\<close>.)
\<close>

lemma data_size_roundtrip:
  assumes "WriteDataSizeWidth sz width = Inr bs" and "sz < 2 ^ 56 - 1"
    and "pending s = bs @ rest"
  shows "ReadDataSize s = (Inr (sz, nat width), s\<lparr>pending := rest\<rparr>)"
proof -
  obtain w where w: "width = int w" "1 \<le> w" "w \<le> 8" "0 \<le> sz" "DataSizeLen sz \<le> w"
    and bs: "bs = be_enc w (word_of_int sz OR push_bit (w * 7) 1 :: u64)"
    using WriteDataSizeWidth_Inr [OF assms(1)] .
  have "sz < 2 ^ (7 * w) - 1" using DataSizeLen_least [of sz w] w assms(2) by simp
  then show ?thesis using ReadDataSize_enc [of w sz s rest] w bs assms(3) by simp
qed

lemma data_size_roundtrip_witness:
  "ReadDataSize \<lparr>pending = [0x40, 0x7F, 9], at_end = EOF, byte_reader = True\<rparr>
     = (Inr (127, nat 2), \<lparr>pending = [9], at_end = EOF, byte_reader = True\<rparr>)"
proof -
  have w: "WriteDataSizeWidth 127 2 = Inr [0x40, 0x7F]" by code_simp
  show ?thesis
    using data_size_roundtrip [OF w, of "\<lparr>pending = [0x40, 0x7F, 9], at_end = EOF, byte_reader = True\<rparr>" "[9]"]
    by simp
qed


lemma ReadDataSize_unknown:
  assumes "pending s = [0x01, 0xFF, 0xFF, 0xFF, 0xFF, 0xFF, 0xFF, 0xFF] @ rest"
  shows "ReadDataSize s = (Inr (-1, 8), s\<lparr>pending := rest\<rparr>)"
proof -
  have "vint_ok 8 0x01FFFFFFFFFFFFFF" by (simp add: vint_ok_def)
  moreover have "be_enc 8 (0x01FFFFFFFFFFFFFF :: u64) = [0x01, 0xFF, 0xFF, 0xFF, 0xFF, 0xFF, 0xFF, 0xFF]"
    by code_simp
  ultimately show ?thesis
    using ReadVINT_enc [of 8 "0x01FFFFFFFFFFFFFF" s rest] assms
    by (simp add: ReadDataSize_def Let_def)
qed

lemma ReadElementHeader_enc:
  assumes "valid_ID eid" and "-1 \<le> sz" and "sz < 2 ^ 56 - 1"
    and "WriteElementHeader eid sz = Inr bs" and "pending s = bs @ rest"
  shows "ReadElementHeader s
           = (Inr (\<lparr>hdr_ID = eid, hdr_Size = sz\<rparr>, ElementHeaderLen eid sz), s\<lparr>pending := rest\<rparr>)
         \<and> length bs = ElementHeaderLen eid sz"
proof -
  obtain d where d: "WriteDataSize sz = Inr d" and bs: "bs = WriteElementID eid @ d"
    using assms(4) by (auto simp add: WriteElementHeader_def split: sum.splits)
  let ?n = "ElementIDLen eid" and ?s = "s\<lparr>pending := d @ rest\<rparr>"
  have eid: "ReadElementID s = (Inr (eid, ?n), ?s)"
    using assms(1,5) bs ElementIDLen_bounds [of eid]
    by (intro ReadElementID_enc) (simp_all add: valid_ID_def WriteElementID_enc be_enc_ucast)
  show ?thesis
  proof (cases "sz < 0")
    case True
    then have "sz = -1" "d = [0x01, 0xFF, 0xFF, 0xFF, 0xFF, 0xFF, 0xFF, 0xFF]"
      using assms(2) d by (simp_all add: WriteDataSize_def)
    then show ?thesis
      using eid ReadDataSize_unknown [of ?s rest] bs
      by (simp add: ReadElementHeader_def ElementHeaderLen_def WriteElementID_enc)
  next
    case False
    let ?w = "DataSizeLen sz"
    have w: "1 \<le> ?w" "?w \<le> 8" using DataSizeLen_bounds [of sz] by simp_all
    have "d = be_enc ?w (word_of_int sz OR push_bit (?w * 7) 1 :: u64)"
      using d False WriteDataSizeWidth_enc [of sz ?w] w by (simp add: WriteDataSize_def)
    moreover have "sz < 2 ^ (7 * ?w) - 1"
      using DataSizeLen_least [of sz ?w] False assms(3) w by simp
    ultimately show ?thesis
      using eid ReadDataSize_enc [of ?w sz ?s rest] w False bs
      by (simp add: ReadElementHeader_def ElementHeaderLen_def WriteElementID_enc)
  qed
qed



text \<open>
  The allocation-free path taken on an \<^verbatim>\<open>io.ByteReader\<close> and the buffered path give the same
  result and leave the same reader, for VINTs and for unsigned integers, on every input: errors, the
  choice between \<open>EOF\<close> and \<open>UnexpectedEOF\<close>, and truncation included.
\<close>

lemma byte_reader_path_equivalent:
  "ReadVINT_bytes s = ReadVINT_full s \<and>
   fst (ReadUint (s\<lparr>byte_reader := True\<rparr>) sz) = fst (ReadUint (s\<lparr>byte_reader := False\<rparr>) sz) \<and>
   pending (snd (ReadUint (s\<lparr>byte_reader := True\<rparr>) sz)) = pending (snd (ReadUint (s\<lparr>byte_reader := False\<rparr>) sz))"
  by (simp add: ReadVINT_paths ReadUint_paths readBE_read_full read_full_def)

text \<open>
  \<open>DataSizeLen\<close> is the least VINT width whose range, the all-ones value excluded, holds the size;
  hence \<open>WriteDataSizeWidth\<close> accepts exactly the widths from it to 8.
\<close>

lemma data_size_len_minimal:
  assumes "0 \<le> sz" and "sz < 2 ^ 56 - 1"
  shows "sz < 2 ^ (7 * DataSizeLen sz) - 1 \<and>
         (\<forall>w. 1 \<le> w \<and> w < DataSizeLen sz \<longrightarrow> 2 ^ (7 * w) - 1 \<le> sz) \<and>
         ((\<exists>bs. WriteDataSizeWidth sz width = Inr bs) \<longleftrightarrow> int (DataSizeLen sz) \<le> width \<and> width \<le> 8)"
proof (intro conjI allI impI)
  have w: "1 \<le> DataSizeLen sz" "DataSizeLen sz \<le> 8" using DataSizeLen_bounds [of sz] by simp_all
  show "sz < 2 ^ (7 * DataSizeLen sz) - 1" using DataSizeLen_least [OF assms w] by simp
  show "2 ^ (7 * w) - 1 \<le> sz" if "1 \<le> w \<and> w < DataSizeLen sz" for w
    using DataSizeLen_least [OF assms, of w] that w by simp
  show "(\<exists>bs. WriteDataSizeWidth sz width = Inr bs) \<longleftrightarrow> int (DataSizeLen sz) \<le> width \<and> width \<le> 8"
    using assms by (auto simp add: WriteDataSizeWidth_def Let_def)
qed

lemma data_size_len_minimal_witness:
  "DataSizeLen 127 = 2 \<and> \<not> (\<exists>bs. WriteDataSizeWidth 127 1 = Inr bs)"
proof -
  have d: "DataSizeLen 127 = 2" by code_simp
  have "(\<exists>bs. WriteDataSizeWidth 127 1 = Inr bs) \<longleftrightarrow> int (DataSizeLen 127) \<le> 1 \<and> (1 :: int) \<le> 8"
    by (rule data_size_len_minimal [THEN conjunct2, THEN conjunct2]) simp_all
  with d show ?thesis by simp
qed

text \<open>
  \<open>WriteDataSizeWidth\<close> is documented to refuse a size its width cannot hold, but at eight bytes it
  accepts \<open>2 ^ 56 - 1\<close>, whose encoding is the reserved unknown size: it reads back as \<open>-1\<close>.
\<close>

lemma data_size_all_ones_lost:
  "WriteDataSizeWidth (2 ^ 56 - 1) 8 = Inr [0x01, 0xFF, 0xFF, 0xFF, 0xFF, 0xFF, 0xFF, 0xFF] \<and>
   ReadDataSize (s\<lparr>pending := [0x01, 0xFF, 0xFF, 0xFF, 0xFF, 0xFF, 0xFF, 0xFF]\<rparr>)
     = (Inr (-1, 8), s\<lparr>pending := []\<rparr>)"
proof
  show "WriteDataSizeWidth (2 ^ 56 - 1) 8 = Inr [0x01, 0xFF, 0xFF, 0xFF, 0xFF, 0xFF, 0xFF, 0xFF]"
    by code_simp
  show "ReadDataSize (s\<lparr>pending := [0x01, 0xFF, 0xFF, 0xFF, 0xFF, 0xFF, 0xFF, 0xFF]\<rparr>)
     = (Inr (-1, 8), s\<lparr>pending := []\<rparr>)"
    using ReadDataSize_unknown [of "s\<lparr>pending := [0x01, 0xFF, 0xFF, 0xFF, 0xFF, 0xFF, 0xFF, 0xFF]\<rparr>" "[]"]
    by simp
qed

text \<open>
  \<open>readExact\<close> on a size above its 1 MiB threshold returns (the model's fuel always suffices) the
  next \<open>size\<close> bytes, or \<open>UnexpectedEOF\<close> when the reader ends early.  The buffers it grows to are never
  more than eight times what the reader really supplied, and past 2 MiB all its allocations together
  stay under 1.5 times the declared size.
\<close>

lemma readExact_bounded:
  assumes "int maxUpfront < sz" and "sz \<le> MaxElementSize"
  shows "\<exists>allocs. readExact readExact_fuel s sz =
           (case exact_outcome (nat sz) [] s of (r, s') \<Rightarrow> Some (r, allocs, s')) \<and>
         (\<forall>a \<in> set allocs. a \<le> max maxUpfront (8 * length (pending s))) \<and>
         (sz > 2 ^ 21 \<longrightarrow> 2 * sum_list allocs < 3 * nat sz)"
proof -
  from readExact_big [OF assms, of s] obtain grown where
    eq: "readExact readExact_fuel s sz =
           (case exact_outcome (nat sz) [] s of (r, s') \<Rightarrow> Some (r, grown @ [maxUpfront], s'))"
    and total: "sum_list grown \<le> nat sz + (if sz < 2 ^ 22 then 0 else nat sz div 2 - 2 ^ 21)"
    and each: "\<forall>a \<in> set grown. a \<le> 8 * min (nat sz) (length (pending s))"
    by blast
  have "2 * sum_list (grown @ [maxUpfront]) < 3 * nat sz" if "sz > 2 ^ 21"
  proof (cases "sz < 2 ^ 22")
    case True
    with total that show ?thesis by (simp add: maxUpfront_def)
  next
    case False
    then have "2 ^ 21 \<le> nat sz div 2" by simp
    with total False show ?thesis by (simp add: maxUpfront_def)
  qed
  moreover have "\<forall>a \<in> set (grown @ [maxUpfront]). a \<le> max maxUpfront (8 * length (pending s))"
    using each by (auto simp add: le_max_iff_disj)
  ultimately show ?thesis using eq by (intro exI [of _ "grown @ [maxUpfront]"]) simp
qed

lemma readExact_bounded_witness:
  "\<exists>allocs. readExact readExact_fuel \<lparr>pending = [1, 2], at_end = EOF, byte_reader = False\<rparr> 3000000 =
           (case exact_outcome (nat 3000000) [] \<lparr>pending = [1, 2], at_end = EOF, byte_reader = False\<rparr> of
              (r, s') \<Rightarrow> Some (r, allocs, s')) \<and>
         (\<forall>a \<in> set allocs. a \<le> max maxUpfront (8 * length [1 :: byte, 2])) \<and>
         ((3000000 :: int) > 2 ^ 21 \<longrightarrow> 2 * sum_list allocs < 3 * nat 3000000)"
  using readExact_bounded [of 3000000 "\<lparr>pending = [1, 2], at_end = EOF, byte_reader = False\<rparr>"]
  by (simp add: maxUpfront_def MaxElementSize_def)

end
