(* ===== verification/MkvWriter.thy ===== *)
theory MkvWriter
  imports Ebml
begin

text \<open>
  \<^verbatim>\<open>mkv/writer/writer.go\<close>: primitive and master elements, Void padding, blocks, block groups,
  clusters, cues and the seek head.  A routine returns the bytes it writes, or the first error.  The
  buffer \<^verbatim>\<open>ew\<close>, which remembers its first error, is a record.
\<close>

section \<open>Element identifiers\<close>

definition IDVoid :: u32 where "IDVoid = 0xEC"
definition IDSeekHead :: u32 where "IDSeekHead = 0x114D9B74"
definition IDCues :: u32 where "IDCues = 0x1C53BB6B"
definition IDCluster :: u32 where "IDCluster = 0x1F43B675"
definition IDTimestamp :: u32 where "IDTimestamp = 0xE7"
definition IDSimpleBlock :: u32 where "IDSimpleBlock = 0xA3"
definition IDBlockGroup :: u32 where "IDBlockGroup = 0xA0"
definition IDBlock :: u32 where "IDBlock = 0xA1"
definition IDBlockDuration :: u32 where "IDBlockDuration = 0x9B"
definition IDReferenceBlock :: u32 where "IDReferenceBlock = 0xFB"
definition IDDiscardPadding :: u32 where "IDDiscardPadding = 0x75A2"
definition IDBlockAdditions :: u32 where "IDBlockAdditions = 0x75A1"
definition IDBlockMore :: u32 where "IDBlockMore = 0xA6"
definition IDBlockAddID :: u32 where "IDBlockAddID = 0xEE"
definition IDBlockAdditional :: u32 where "IDBlockAdditional = 0xA5"
definition IDCuePoint :: u32 where "IDCuePoint = 0xBB"
definition IDCueTime :: u32 where "IDCueTime = 0xB3"
definition IDCueTrackPositions :: u32 where "IDCueTrackPositions = 0xB7"
definition IDCueTrack :: u32 where "IDCueTrack = 0xF7"
definition IDCueClusterPos :: u32 where "IDCueClusterPos = 0xF1"
definition IDCueRelativePos :: u32 where "IDCueRelativePos = 0xF0"
definition IDSeek :: u32 where "IDSeek = 0x4DBB"
definition IDSeekID :: u32 where "IDSeekID = 0x53AB"
definition IDSeekPosition :: u32 where "IDSeekPosition = 0x53AC"

lemmas mkv_id_defs =
  IDVoid_def IDSeekHead_def IDCues_def IDCluster_def IDTimestamp_def IDSimpleBlock_def
  IDBlockGroup_def IDBlock_def IDBlockDuration_def IDReferenceBlock_def IDDiscardPadding_def
  IDBlockAdditions_def IDBlockMore_def IDBlockAddID_def IDBlockAdditional_def IDCuePoint_def
  IDCueTime_def IDCueTrackPositions_def IDCueTrack_def IDCueClusterPos_def IDCueRelativePos_def
  IDSeek_def IDSeekID_def IDSeekPosition_def

section \<open>Elements\<close>

definition WriteUintElement :: "u32 \<Rightarrow> u64 \<Rightarrow> bytes result" where
  "WriteUintElement eid val =
     (let n = UintLen val in seq_w [WriteElementHeader eid (int n), WriteUint val (int n)])"

definition WriteFloatElement :: "u32 \<Rightarrow> u64 \<Rightarrow> bytes result" where
  "WriteFloatElement eid val = seq_w [WriteElementHeader eid 8, Inr (WriteFloat val)]"

definition WriteBytesElement :: "u32 \<Rightarrow> bytes \<Rightarrow> bytes result" where
  "WriteBytesElement eid val = seq_w [WriteElementHeader eid (int (length val)), Inr val]"

definition WriteStringElement :: "u32 \<Rightarrow> bytes \<Rightarrow> bytes result" where
  "WriteStringElement eid val = seq_w [WriteElementHeader eid (int (length val)), Inr val]"

definition WriteMasterElement :: "u32 \<Rightarrow> bytes \<Rightarrow> bytes result" where
  "WriteMasterElement eid children = seq_w [WriteElementHeader eid (int (length children)), Inr children]"

text \<open>The buffer that keeps its first error.\<close>

record ew =
  ew_buf :: bytes
  ew_err :: "error option"

definition ew_new :: ew where "ew_new = \<lparr>ew_buf = [], ew_err = None\<rparr>"

definition ew_put :: "bytes result \<Rightarrow> ew \<Rightarrow> ew" where
  "ew_put r e =
     (case ew_err e of
        Some _ \<Rightarrow> e
      | None \<Rightarrow> (case r of Inl x \<Rightarrow> e\<lparr>ew_err := Some x\<rparr> | Inr b \<Rightarrow> e\<lparr>ew_buf := ew_buf e @ b\<rparr>))"

definition ew_uint :: "u32 \<Rightarrow> u64 \<Rightarrow> ew \<Rightarrow> ew" where
  "ew_uint eid val e = ew_put (WriteUintElement eid val) e"

definition ew_raw :: "u32 \<Rightarrow> bytes \<Rightarrow> ew \<Rightarrow> ew" where
  "ew_raw eid val e = ew_put (WriteBytesElement eid val) e"

definition ew_master :: "u32 \<Rightarrow> (ew \<Rightarrow> ew) \<Rightarrow> ew \<Rightarrow> ew" where
  "ew_master eid f e =
     (case ew_err e of
        Some _ \<Rightarrow> e
      | None \<Rightarrow> let child = f ew_new in
          (case ew_err child of
             Some x \<Rightarrow> e\<lparr>ew_err := Some x\<rparr>
           | None \<Rightarrow> ew_put (WriteMasterElement eid (ew_buf child)) e))"

definition ew_flush :: "u32 \<Rightarrow> ew \<Rightarrow> bytes result" where
  "ew_flush eid e = (case ew_err e of Some x \<Rightarrow> Inl x | None \<Rightarrow> WriteMasterElement eid (ew_buf e))"

section \<open>Void\<close>

text \<open>The loop over the widths, from \<open>width\<close> up, at most \<open>m\<close> of them.\<close>

fun VoidHeader_from :: "nat \<Rightarrow> int \<Rightarrow> int \<Rightarrow> bytes result" where
  "VoidHeader_from 0 width totalSize = Inl (Errf ''cannot encode a Void of exactly that many bytes'')"
| "VoidHeader_from (Suc m) width totalSize =
     (let payload = totalSize - 1 - width in
      if payload < 0 then Inl (Errf ''cannot encode a Void of exactly that many bytes'')
      else if int (DataSizeLen payload) > width then VoidHeader_from m (width + 1) totalSize
      else seq_w [Inr (WriteElementID IDVoid), WriteDataSizeWidth payload width])"

definition VoidHeader :: "int \<Rightarrow> bytes result" where
  "VoidHeader totalSize =
     (if totalSize < 2 then Inl (Errf ''a Void spans at least 2 bytes'')
      else VoidHeader_from 8 1 totalSize)"

definition WriteVoid :: "int \<Rightarrow> bytes result" where
  "WriteVoid totalSize =
     (if totalSize < 2 then Inr []
      else bind_r (VoidHeader totalSize)
             (\<lambda>hdr. Inr (hdr @ replicate (nat (totalSize - int (length hdr))) 0)))"

section \<open>Blocks\<close>

record BlockAddition =
  add_ID :: u64
  add_Data :: bytes

record Block =
  TrackNumber :: u64
  Timecode :: int
  Keyframe :: bool
  Data :: bytes
  Duration :: int
  DiscardPaddingNs :: int
  DataOffset :: int
  BlockTimecode :: int
  Laced :: bool
  Additions :: "BlockAddition list"
  BlockSize :: int

definition WriteSimpleBlock :: "u64 \<Rightarrow> 16 word \<Rightarrow> bool \<Rightarrow> bytes \<Rightarrow> bytes result" where
  "WriteSimpleBlock trackNum relTC keyframe data =
     (let trackVINT = DataSizeLen (sint trackNum);
          bodySize = int (trackVINT + 2 + 1 + length data)
      in seq_w [WriteElementHeader IDSimpleBlock bodySize, WriteDataSize (sint trackNum),
                Inr [ucast (drop_bit 8 relTC), ucast relTC],
                Inr [if keyframe then 0x80 else 0], Inr data])"

definition maxLaceFrames :: nat where "maxLaceFrames = 256"

text \<open>Whether a block may join the lace \<open>first\<close> opens.\<close>

definition lace_joins :: "Block \<Rightarrow> Block \<Rightarrow> bool" where
  "lace_joins first b \<longleftrightarrow>
     Laced b \<and> \<not> Duration b > 0 \<and> DiscardPaddingNs b = 0 \<and> Additions b = [] \<and>
     TrackNumber b = TrackNumber first \<and> Timecode b = Timecode first \<and> Keyframe b = Keyframe first"

definition lacedRun :: "Block list \<Rightarrow> nat" where
  "lacedRun blocks =
     (case blocks of
        [] \<Rightarrow> 1
      | first # rest \<Rightarrow>
          if \<not> Laced first \<or> Duration first > 0 \<or> DiscardPaddingNs first \<noteq> 0 \<or> Additions first \<noteq> []
          then 1
          else 1 + length (takeWhile (lace_joins first) (take (maxLaceFrames - 1) rest)))"

text \<open>A Xiph lace size: 255s closed by a smaller byte.\<close>

fun xiph_lace :: "nat \<Rightarrow> bytes" where
  "xiph_lace sz = (if sz \<ge> 255 then 255 # xiph_lace (sz - 255) else [word_of_nat sz])"

declare xiph_lace.simps [simp del]

definition writeLacedSimpleBlock :: "u64 \<Rightarrow> 16 word \<Rightarrow> bool \<Rightarrow> Block list \<Rightarrow> bytes result" where
  "writeLacedSimpleBlock trackNum relTC keyframe frames =
     (let fixed = list_all (\<lambda>f. length (Data f) = length (Data (hd frames))) frames;
          tot = sum_list (map (length \<circ> Data) frames);
          lace = [word_of_nat (length frames - 1)] @
                 (if fixed then [] else concat (map (xiph_lace \<circ> length \<circ> Data) (butlast frames)));
          flags = (if fixed then 0x04 else 0x02) OR (if keyframe then 0x80 else 0);
          trackVINT = DataSizeLen (sint trackNum);
          bodySize = int (trackVINT + 2 + 1 + length lace + tot)
      in seq_w ([WriteElementHeader IDSimpleBlock bodySize, WriteDataSize (sint trackNum),
                 Inr [ucast (drop_bit 8 relTC), ucast relTC, flags], Inr lace]
                @ map (Inr \<circ> Data) frames))"

text \<open>The fewest bytes, at most 8, whose signed range holds \<open>val\<close>.\<close>

fun sint_len_from :: "nat \<Rightarrow> nat \<Rightarrow> int \<Rightarrow> nat" where
  "sint_len_from 0 n val = n"
| "sint_len_from (Suc m) n val =
     (if n < 8 \<and> (val < - (2 ^ (8 * n - 1)) \<or> val \<ge> 2 ^ (8 * n - 1)) then sint_len_from m (Suc n) val else n)"

definition sint_len :: "int \<Rightarrow> nat" where "sint_len val = sint_len_from 7 1 val"

definition writeSintElement :: "u32 \<Rightarrow> int \<Rightarrow> bytes result" where
  "writeSintElement eid val =
     (let n = sint_len val in
      seq_w [WriteElementHeader eid (int n), Inr (be_enc n (word_of_int val :: u64))])"

definition write_BlockMore :: "BlockAddition \<Rightarrow> bytes result" where
  "write_BlockMore a =
     bind_r (seq_w [if add_ID a \<noteq> 1 then WriteUintElement IDBlockAddID (add_ID a) else Inr [],
                    WriteElementHeader IDBlockAdditional (int (length (add_Data a))),
                    Inr (add_Data a)])
       (WriteMasterElement IDBlockMore)"

definition writeBlockGroup ::
  "u64 \<Rightarrow> 16 word \<Rightarrow> bytes \<Rightarrow> u64 \<Rightarrow> int option \<Rightarrow> int \<Rightarrow> BlockAddition list \<Rightarrow> bytes result" where
  "writeBlockGroup trackNum relTC data rawDuration ref paddingNs additions =
     (let trackVINT = DataSizeLen (sint trackNum);
          bodySize = int (trackVINT + 2 + 1 + length data)
      in bind_r (seq_w [WriteElementHeader IDBlock bodySize, WriteDataSize (sint trackNum),
                        Inr [ucast (drop_bit 8 relTC), ucast relTC, 0]]) (\<lambda>head.
         bind_r (seq_w [
             if additions \<noteq> []
             then bind_r (seq_w (map write_BlockMore additions)) (WriteMasterElement IDBlockAdditions)
             else Inr [],
             if rawDuration > 0 \<or> (paddingNs = 0 \<and> additions = [])
             then WriteUintElement IDBlockDuration rawDuration else Inr [],
             case ref of Some d \<Rightarrow> writeSintElement IDReferenceBlock d | None \<Rightarrow> Inr [],
             if paddingNs \<noteq> 0 then writeSintElement IDDiscardPadding paddingNs else Inr []])
           (\<lambda>tail. seq_w [WriteElementHeader IDBlockGroup (int (length head + length data + length tail)),
                           Inr (head @ data @ tail)])))"

section \<open>Clusters, cues and the seek head\<close>

text \<open>
  The block loop of \<^verbatim>\<open>writeClusterOffsets\<close>: \<open>prevTC\<close> is each track's previous timecode, \<open>offs\<close> the
  offsets so far.
\<close>

definition raw_delta :: "int \<Rightarrow> int \<Rightarrow> int \<Rightarrow> int" where
  "raw_delta timecodeScale a b = go_div (wrap64 (wrap64 (a - b) * 1000000)) timecodeScale"

function cluster_loop ::
  "int \<Rightarrow> int \<Rightarrow> Block list \<Rightarrow> (u64 \<rightharpoonup> int) \<Rightarrow> ew \<Rightarrow> int list \<Rightarrow> (int list \<times> ew) result" where
  "cluster_loop clusterTS scale [] prevTC e offs = Inr (offs, e)"
| "cluster_loop clusterTS scale (b # bs) prevTC e offs =
     (let off = int (length (ew_buf e));
          delta = raw_delta scale (Timecode b) clusterTS;
          relTC = (word_of_int delta :: 16 word);
          prevTC' = prevTC(TrackNumber b \<mapsto> Timecode b)
      in if delta < - (2 ^ 15) \<or> delta > 2 ^ 15 - 1
         then Inl (Errf ''block timecode outside SimpleBlock's int16 range'')
         else if ew_err e \<noteq> None then Inr (offs @ [off], e)
         else if Duration b > 0 \<or> DiscardPaddingNs b \<noteq> 0 \<or> Additions b \<noteq> [] then
           let rawDur = word_of_int (go_div (wrap64 (Duration b * 1000000)) scale);
               ref = (if Keyframe b then None
                      else Some (case prevTC (TrackNumber b) of
                                   Some prev \<Rightarrow> if prev < Timecode b then raw_delta scale prev (Timecode b) else -1
                                 | None \<Rightarrow> -1))
           in cluster_loop clusterTS scale bs prevTC'
                (ew_put (writeBlockGroup (TrackNumber b) relTC (Data b) rawDur ref (DiscardPaddingNs b) (Additions b)) e)
                (offs @ [off])
         else let n = lacedRun (b # bs) in
           if n > 1 then
             cluster_loop clusterTS scale (drop (n - 1) bs) prevTC'
               (ew_put (writeLacedSimpleBlock (TrackNumber b) relTC (Keyframe b) (take n (b # bs))) e)
               (offs @ replicate n off)
           else
             cluster_loop clusterTS scale bs prevTC'
               (ew_put (WriteSimpleBlock (TrackNumber b) relTC (Keyframe b) (Data b)) e) (offs @ [off]))"
  by pat_completeness auto
termination
  by (relation "measure (\<lambda>(clusterTS, scale, bs, prevTC, e, offs). length bs)") auto

declare cluster_loop.simps(2) [simp del]

definition writeClusterOffsets :: "int \<Rightarrow> int \<Rightarrow> Block list \<Rightarrow> (bytes \<times> int list) result" where
  "writeClusterOffsets clusterTS timecodeScale blocks =
     (let scale = (if timecodeScale \<le> 0 then 1000000 else timecodeScale) in
      if clusterTS < 0 then Inl (Errf ''cluster timestamp is negative'')
      else let rawTS = word_of_int (go_div (wrap64 (clusterTS * 1000000)) scale) in
        bind_r (cluster_loop clusterTS scale blocks Map.empty (ew_uint IDTimestamp rawTS ew_new) [])
          (\<lambda>(offs, e). bind_r (ew_flush IDCluster e) (\<lambda>bs. Inr (bs, offs))))"

record CuePoint =
  cue_TimeMs :: int
  cue_Track :: u64
  cue_ClusterPos :: int
  cue_RelativePos :: int

definition WriteCues :: "CuePoint list \<Rightarrow> int \<Rightarrow> bytes result" where
  "WriteCues cues timecodeScale =
     (let scale = (if timecodeScale \<le> 0 then 1000000 else timecodeScale) in
      ew_flush IDCues
        (fold (\<lambda>cp e.
           let cueTime = (word_of_int (max (cue_TimeMs cp) 0) * 1000000) div (word_of_int scale :: u64) in
           ew_master IDCuePoint (\<lambda>ce.
             ew_master IDCueTrackPositions (\<lambda>tp.
               let tp1 = ew_uint IDCueClusterPos (word_of_int (cue_ClusterPos cp))
                           (ew_uint IDCueTrack (cue_Track cp) tp)
               in if cue_RelativePos cp > 0
                  then ew_uint IDCueRelativePos (word_of_int (cue_RelativePos cp)) tp1 else tp1)
             (ew_uint IDCueTime cueTime ce)) e)
         cues ew_new))"

record SeekEntry =
  se_ID :: u32
  se_Pos :: int

text \<open>\<^verbatim>\<open>EncodeElementID\<close> fills its buffer from the last byte, shifting the ID down.\<close>

fun EncodeElementID_loop :: "nat \<Rightarrow> u32 \<Rightarrow> bytes \<Rightarrow> bytes" where
  "EncodeElementID_loop 0 eid buf = buf"
| "EncodeElementID_loop (Suc i) eid buf = EncodeElementID_loop i (drop_bit 8 eid) (ucast eid # buf)"

definition EncodeElementID :: "u32 \<Rightarrow> bytes" where
  "EncodeElementID eid = EncodeElementID_loop (ElementIDLen eid) eid []"

definition WriteSeekHead :: "SeekEntry list \<Rightarrow> bytes result" where
  "WriteSeekHead entries =
     ew_flush IDSeekHead
       (fold (\<lambda>se e.
          ew_master IDSeek (\<lambda>s.
            ew_uint IDSeekPosition (word_of_int (se_Pos se)) (ew_raw IDSeekID (EncodeElementID (se_ID se)) s)) e)
        entries ew_new)"

section \<open>Void padding fills its gap exactly\<close>

lemma VoidHeader_from_width:
  assumes "1 \<le> w" "w + m = 9" "1 \<le> m" "0 \<le> n - 1 - int w" "n < 2 ^ 56"
  shows "\<exists>v. 1 \<le> v \<and> v \<le> 8 \<and> 0 \<le> n - 1 - int v \<and> DataSizeLen (n - 1 - int v) \<le> v \<and>
    VoidHeader_from m (int w) n = seq_w [Inr (WriteElementID IDVoid), WriteDataSizeWidth (n - 1 - int v) (int v)]"
  using assms
proof (induction m arbitrary: w)
  case (Suc m)
  let ?p = "n - 1 - int w"
  show ?case
  proof (cases "DataSizeLen ?p \<le> w")
    case True
    then show ?thesis using Suc.prems by (intro exI [of _ w]) (simp add: Let_def)
  next
    case False
    have w8: "w \<noteq> 8" using False DataSizeLen_bounds [of ?p] by auto
    then have w: "w \<le> 7" using Suc.prems by simp
    have "\<not> ?p < 2 ^ (7 * w) - 1" using False Suc.prems w DataSizeLen_least [of ?p w] by simp
    moreover have "(2 :: int) ^ 7 \<le> 2 ^ (7 * w)" using Suc.prems(1) by (intro power_increasing) simp_all
    ultimately have next_w: "0 \<le> n - 1 - int (Suc w)" by simp
    have "VoidHeader_from (Suc m) (int w) n = VoidHeader_from m (int (Suc w)) n"
      using False Suc.prems by (simp add: Let_def algebra_simps)
    then show ?thesis using Suc.IH [of "Suc w"] Suc.prems w next_w by simp
  qed
qed simp

lemma WriteVoid_fills:
  assumes "2 \<le> n" and "n < 2 ^ 56"
  shows "\<exists>bs h. WriteVoid n = Inr bs \<and> int (length bs) = n \<and> VoidHeader n = Inr h \<and>
    ReadElementHeader (s\<lparr>pending := bs @ rest\<rparr>)
      = (Inr (\<lparr>hdr_ID = IDVoid, hdr_Size = n - int (length h)\<rparr>, length h),
         s\<lparr>pending := replicate (nat (n - int (length h))) 0 @ rest\<rparr>)"
proof -
  obtain v where v: "1 \<le> v" "v \<le> 8" "0 \<le> n - 1 - int v" "DataSizeLen (n - 1 - int v) \<le> v"
    and e: "VoidHeader_from 8 (int 1) n = seq_w [Inr (WriteElementID IDVoid), WriteDataSizeWidth (n - 1 - int v) (int v)]"
    using VoidHeader_from_width [of 1 8 n] assms by auto
  let ?p = "n - 1 - int v"
  define d where "d = be_enc v (word_of_int ?p OR push_bit (v * 7) 1 :: u64)"
  have d: "WriteDataSizeWidth ?p (int v) = Inr d" using WriteDataSizeWidth_enc [of ?p v] v by (simp add: d_def)
  have i: "WriteElementID IDVoid = [0xEC]" by code_simp
  have hd: "VoidHeader n = Inr ([0xEC] @ d)" using e assms(1) by (simp add: VoidHeader_def d i)
  have ld: "length ([0xEC] @ d) = Suc v" by (simp add: d_def)
  have n: "n - int (length ([0xEC :: byte] @ d)) = ?p" using ld by simp
  have "sz < 2 ^ (7 * v) - 1" if "sz = ?p" for sz
    using DataSizeLen_least [of ?p v] v assms(2) that by simp
  then have rd: "ReadDataSize (t\<lparr>pending := d @ xs\<rparr>) = (Inr (?p, v), t\<lparr>pending := xs\<rparr>)" for t xs
    using ReadDataSize_enc [OF v(1,2,3), of "t\<lparr>pending := d @ xs\<rparr>" xs] by (simp add: d_def)
  have ri: "ReadElementID (s\<lparr>pending := 0xEC # xs\<rparr>) = (Inr (IDVoid, 1), s\<lparr>pending := xs\<rparr>)" for xs
    using ReadElementID_enc [of 1 IDVoid "s\<lparr>pending := 0xEC # xs\<rparr>" xs]
    by (simp add: vint_ok_def IDVoid_def)
  let ?bs = "[0xEC] @ d @ replicate (nat ?p) 0"
  have "WriteVoid n = Inr ?bs" using hd n assms(1) by (simp add: WriteVoid_def)
  moreover have "int (length ?bs) = n" using v(3) by (simp add: d_def)
  moreover have "ReadElementHeader (s\<lparr>pending := ?bs @ rest\<rparr>)
      = (Inr (\<lparr>hdr_ID = IDVoid, hdr_Size = ?p\<rparr>, Suc v), s\<lparr>pending := replicate (nat ?p) 0 @ rest\<rparr>)"
    using ri [of "d @ replicate (nat ?p) 0 @ rest"] rd [of "replicate (nat ?p) 0 @ rest" s]
    by (simp add: ReadElementHeader_def)
  ultimately show ?thesis using hd n ld by (intro exI [of _ ?bs] exI [of _ "[0xEC] @ d"]) simp
qed

text \<open>
  For every gap of 2 bytes or more below \<open>2 ^ 56\<close>, \<open>WriteVoid\<close> produces an element of exactly that
  many bytes, and its header reads back as a Void whose declared size is the rest of the gap.
\<close>

lemma void_fills_gap:
  assumes "2 \<le> n" and "n < 2 ^ 56"
  shows "\<exists>bs h. WriteVoid n = Inr bs \<and> int (length bs) = n \<and> VoidHeader n = Inr h \<and>
    ReadElementHeader (s\<lparr>pending := bs @ rest\<rparr>)
      = (Inr (\<lparr>hdr_ID = IDVoid, hdr_Size = n - int (length h)\<rparr>, length h),
         s\<lparr>pending := replicate (nat (n - int (length h))) 0 @ rest\<rparr>)"
  using assms by (rule WriteVoid_fills)

lemma void_fills_gap_witness:
  "\<exists>bs. WriteVoid 129 = Inr bs \<and> int (length bs) = 129"
  using void_fills_gap [of 129 "[]" "\<lparr>pending = [], at_end = EOF, byte_reader = True\<rparr>"] by auto

end
