(* ===== verification/Lacing.thy ===== *)
theory Lacing
  imports Ebml
begin

text \<open>
  \<^verbatim>\<open>mkv/reader/lacing.go\<close>: the frame sizes of a laced block, decoded from the whole payload
  (\<open>decodeLacingSizes\<close>) or from a lace header gathered byte by byte (\<open>readLaceHeader\<close>, the
  header-only walk).  Sizes are \<open>int64\<close> sums, so they wrap where they could; a frame count is at
  least 1, as its callers compute it from the count byte.
\<close>

definition lacingNone :: nat where "lacingNone = 0"
definition lacingXiph :: nat where "lacingXiph = 1"
definition lacingFixed :: nat where "lacingFixed = 2"
definition lacingEBML :: nat where "lacingEBML = 3"

text \<open>\<^verbatim>\<open>bits.LeadingZeros8\<close>.\<close>

definition leading_zeros8 :: "byte \<Rightarrow> nat" where
  "leading_zeros8 b = length (takeWhile (\<lambda>i. \<not> bit b i) [7, 6, 5, 4, 3, 2, 1, 0])"

text \<open>The VINT at the head of \<open>buf\<close>, marker kept; \<open>(0, 0)\<close> when there is none.\<close>

definition readVINTFromBuf :: "bytes \<Rightarrow> u64 \<times> nat" where
  "readVINTFromBuf buf =
     (case buf of
        [] \<Rightarrow> (0, 0)
      | b # bs \<Rightarrow>
          let width = leading_zeros8 b + 1 in
          if b = 0 \<or> width > length buf then (0, 0)
          else (be_acc (ucast b) (take (width - 1) bs), width))"

text \<open>One Xiph size: bytes of 255 closed by a smaller one, or by the end of the data.\<close>

fun xiph_size :: "bytes \<Rightarrow> nat \<Rightarrow> int \<Rightarrow> int \<times> nat \<times> bytes" where
  "xiph_size [] pos sz = (sz, pos, [])"
| "xiph_size (val # raw) pos sz =
     (if val < 255 then (sz + uint val, Suc pos, raw)
      else xiph_size raw (Suc pos) (sz + uint val))"

text \<open>
  The loop over the coded sizes, \<open>m\<close> of them to go: \<open>raw\<close> is \<^verbatim>\<open>raw[pos:]\<close>.  Gives the sizes, the
  final position and their total.
\<close>

fun xiph_sizes :: "nat \<Rightarrow> bytes \<Rightarrow> nat \<Rightarrow> int \<Rightarrow> int \<Rightarrow> (int list \<times> nat \<times> int) result" where
  "xiph_sizes 0 raw pos tot total64 = Inr ([], pos, tot)"
| "xiph_sizes (Suc m) raw pos tot total64 =
     (let (sz, pos', raw') = xiph_size raw pos 0; total' = tot + sz in
      if total' > total64 then Inl (Errf ''xiph lacing: frames run over the data'')
      else (case xiph_sizes m raw' pos' total' total64 of
              Inl e \<Rightarrow> Inl e
            | Inr (szs, p, t) \<Rightarrow> Inr (sz # szs, p, t)))"

text \<open>
  An EBML size is coded as its difference from the size before, biased by \<open>2 ^ (7 * w - 1) - 1\<close>.
\<close>

definition ebml_next_size :: "int \<Rightarrow> u64 \<Rightarrow> nat \<Rightarrow> int" where
  "ebml_next_size prev val w =
     (let dataBits = w * 7;
          bias = 2 ^ (dataBits - 1) - 1;
          stripped = sint (val AND NOT (push_bit dataBits 1));
          diff = stripped - bias
      in wrap64 (prev + diff))"

text \<open>The loop over the EBML size differences; \<open>prev\<close> is the size of the frame before.\<close>

fun ebml_sizes :: "nat \<Rightarrow> bytes \<Rightarrow> nat \<Rightarrow> int \<Rightarrow> int \<Rightarrow> int \<Rightarrow> (int list \<times> nat \<times> int) result" where
  "ebml_sizes 0 raw pos prev tot total64 = Inr ([], pos, tot)"
| "ebml_sizes (Suc m) raw pos prev tot total64 =
     (if pos > length raw then Inl (Errf ''ebml lacing: header truncated'')
      else let (val, w) = readVINTFromBuf (drop pos raw) in
        if w = 0 then Inl (Errf ''ebml lacing: invalid size vint'')
        else let sz = ebml_next_size prev val w;
                 total' = wrap64 (tot + sz)
          in if sz < 0 then Inl (Errf ''ebml lacing: negative frame size'')
             else if sz > total64 \<or> total' > total64
             then Inl (Errf ''ebml lacing: frames run over the data'')
             else (case ebml_sizes m raw (pos + w) sz total' total64 of
                     Inl e \<Rightarrow> Inl e
                   | Inr (szs, p, t) \<Rightarrow> Inr (sz # szs, p, t)))"

definition decodeLacingSizesLen :: "nat \<Rightarrow> bytes \<Rightarrow> nat \<Rightarrow> int \<Rightarrow> (int list \<times> nat) result" where
  "decodeLacingSizesLen lacing raw frameCount total64 =
     (if total64 < 0 \<or> total64 > int64_max
      then Inl (Errf ''laced block is larger than this platform addresses'')
      else if lacing = lacingXiph then
        (case xiph_sizes (frameCount - 1) raw 0 0 total64 of
           Inl e \<Rightarrow> Inl e
         | Inr (szs, pos, tot) \<Rightarrow>
             let l = total64 - int pos - tot in
             if l < 0 then Inl (Errf ''xiph lacing: total exceeds data'')
             else Inr (szs @ [l], pos))
      else if lacing = lacingFixed then
        (if go_mod total64 (int frameCount) \<noteq> 0
         then Inl (Errf ''fixed lacing: data bytes not divisible by frames'')
         else Inr (replicate frameCount (go_div total64 (int frameCount)), 0))
      else if lacing = lacingEBML then
        (if frameCount = 1 then Inr ([total64], 0)
         else let (first, width) = readVINTFromBuf raw in
           if width = 0 then Inl (Errf ''ebml lacing: invalid first-size vint'')
           else let firstSize = first AND NOT (push_bit (width * 7) 1) in
             if firstSize > word_of_int total64
             then Inl (Errf ''ebml lacing: first frame runs over the data'')
             else (case ebml_sizes (frameCount - 2) raw width (uint firstSize) (uint firstSize) total64 of
                     Inl e \<Rightarrow> Inl e
                   | Inr (szs, pos, tot) \<Rightarrow>
                       let l = total64 - int pos - tot in
                       if l < 0 then Inl (Errf ''ebml lacing: total exceeds data'')
                       else Inr (uint firstSize # szs @ [l], pos)))
      else Inl (Errf ''unknown lacing type''))"

definition decodeLacingSizes :: "nat \<Rightarrow> bytes \<Rightarrow> nat \<Rightarrow> (int list \<times> nat) result" where
  "decodeLacingSizes lacing raw frameCount =
     decodeLacingSizesLen lacing raw frameCount (int (length raw))"

section \<open>The header-only walk\<close>

text \<open>\<^verbatim>\<open>next\<close>: one more header byte, never past \<open>dataLen\<close> of them.\<close>

definition lace_next :: "int \<Rightarrow> bytes \<Rightarrow> source \<Rightarrow> bytes result \<times> source" where
  "lace_next dataLen hdr s =
     (if int (length hdr) \<ge> dataLen then (Inl (Errf ''lace header overruns its data bytes''), s)
      else (case read_byte s of
              (Inl e, s') \<Rightarrow> (Inl e, s')
            | (Inr b, s') \<Rightarrow> (Inr (hdr @ [b]), s')))"

lemma lace_next_Inr:
  "lace_next dataLen hdr s = (Inr hdr', s') \<Longrightarrow>
   \<exists>b. hdr' = hdr @ [b] \<and> pending s = b # pending s' \<and> s' = s\<lparr>pending := pending s'\<rparr> \<and>
       int (length hdr) < dataLen"
  by (auto simp add: lace_next_def read_byte_def split: if_splits list.splits)

function lace_xiph_run :: "int \<Rightarrow> bytes \<Rightarrow> source \<Rightarrow> bytes result \<times> source" where
  "lace_xiph_run dataLen hdr s =
     (case lace_next dataLen hdr s of
        (Inl e, s') \<Rightarrow> (Inl e, s')
      | (Inr hdr', s') \<Rightarrow>
          if last hdr' < 255 then (Inr hdr', s') else lace_xiph_run dataLen hdr' s')"
  by pat_completeness auto
termination
  by (relation "measure (\<lambda>(dataLen, hdr, s). nat (dataLen - int (length hdr)))")
     (auto dest!: sym [of "(Inr _, _)"] lace_next_Inr)

declare lace_xiph_run.simps [simp del]

fun lace_more :: "int \<Rightarrow> nat \<Rightarrow> bytes \<Rightarrow> source \<Rightarrow> bytes result \<times> source" where
  "lace_more dataLen 0 hdr s = (Inr hdr, s)"
| "lace_more dataLen (Suc w) hdr s =
     (case lace_next dataLen hdr s of
        (Inl e, s') \<Rightarrow> (Inl e, s')
      | (Inr hdr', s') \<Rightarrow> lace_more dataLen w hdr' s')"

definition lace_ebml_vint :: "int \<Rightarrow> bytes \<Rightarrow> source \<Rightarrow> bytes result \<times> source" where
  "lace_ebml_vint dataLen hdr s =
     (case lace_next dataLen hdr s of
        (Inl e, s') \<Rightarrow> (Inl e, s')
      | (Inr hdr', s') \<Rightarrow>
          let first = last hdr' in
          if first = 0 then (Inl (Errf ''ebml lacing: invalid size vint''), s')
          else lace_more dataLen (leading_zeros8 first) hdr' s')"

fun lace_header :: "nat \<Rightarrow> nat \<Rightarrow> int \<Rightarrow> bytes \<Rightarrow> source \<Rightarrow> bytes result \<times> source" where
  "lace_header 0 lacing dataLen hdr s = (Inr hdr, s)"
| "lace_header (Suc m) lacing dataLen hdr s =
     (if lacing = lacingXiph then
        (case lace_xiph_run dataLen hdr s of
           (Inl e, s') \<Rightarrow> (Inl e, s')
         | (Inr hdr', s') \<Rightarrow> lace_header m lacing dataLen hdr' s')
      else if lacing = lacingEBML then
        (case lace_ebml_vint dataLen hdr s of
           (Inl e, s') \<Rightarrow> (Inl e, s')
         | (Inr hdr', s') \<Rightarrow> lace_header m lacing dataLen hdr' s')
      else (Inl (Errf ''unknown lacing type''), s))"

definition readLaceHeader :: "source \<Rightarrow> nat \<Rightarrow> nat \<Rightarrow> int \<Rightarrow> (int list \<times> nat) result \<times> source" where
  "readLaceHeader s lacing frameCount dataLen =
     (if dataLen > int64_max
      then (Inl (Errf ''laced block is larger than this platform addresses''), s)
      else if lacing = lacingFixed then
        (if go_mod dataLen (int frameCount) \<noteq> 0
         then (Inl (Errf ''fixed lacing: data bytes not divisible by frames''), s)
         else (Inr (replicate frameCount (go_div dataLen (int frameCount)), 0), s))
      else (case lace_header (frameCount - 1) lacing dataLen [] s of
              (Inl e, s') \<Rightarrow> (Inl e, s')
            | (Inr hdr, s') \<Rightarrow> (decodeLacingSizesLen lacing hdr frameCount dataLen, s')))"

section \<open>The sizes account for the whole payload\<close>

lemma xiph_size_run: "xiph_size raw pos sz = (sz', pos', raw') \<Longrightarrow>
   sz \<le> sz' \<and> pos' + length raw' = pos + length raw"
proof (induction raw pos sz rule: xiph_size.induct)
  case (2 val raw pos sz)
  show ?case
  proof (cases "val < 255")
    case False
    with 2 have "sz + uint val \<le> sz'" "pos' + length raw' = pos + length (val # raw)" by simp_all
    then show ?thesis using uint_ge_0 [of val] by linarith
  qed (use 2 in auto)
qed simp

lemma xiph_sizes_total:
  "xiph_sizes m raw pos tot total64 = Inr (szs, p, t) \<Longrightarrow>
   length szs = m \<and> t = tot + sum_list szs \<and> (\<forall>x \<in> set szs. 0 \<le> x) \<and> p \<le> pos + length raw"
proof (induction m raw pos tot total64 arbitrary: szs p t rule: xiph_sizes.induct)
  case (2 m raw pos tot total64)
  obtain sz pos' raw' where sz: "xiph_size raw pos 0 = (sz, pos', raw')" by (metis prod_cases3)
  from xiph_size_run [OF this] 2 sz show ?case
    by (fastforce simp add: Let_def split: if_splits sum.splits)
qed simp

lemma vint_width_unfold:
  "vint_width b = (if bit b 7 then 1 else if bit b 6 then 2 else if bit b 5 then 3 else if bit b 4 then 4
     else if bit b 3 then 5 else if bit b 2 then 6 else if bit b 1 then 7 else if bit b 0 then 8 else 1)"
proof -
  have seven: "(7 :: nat) = Suc (Suc (Suc (Suc (Suc (Suc (Suc 0))))))" by simp
  have "vint_width_from (Suc i) b = (if bit b (Suc i) then 8 - Suc i else vint_width_from i b)" for i
    using and_push_bit_iff [of b "Suc i"] by simp
  moreover have "vint_width_from 0 b = (if bit b 0 then 8 else 1)"
    using and_push_bit_iff [of b 0] by simp
  ultimately show ?thesis
    unfolding vint_width_def seven by (simp add: numeral_eq_Suc del: vint_width_from.simps)
qed

lemma leading_zeros8_vint: "b \<noteq> 0 \<Longrightarrow> leading_zeros8 b + 1 = vint_width b"
proof -
  assume "b \<noteq> 0"
  then obtain i where i: "bit b i" by (auto simp add: bit_eq_iff)
  then have "i < 8" using bit_imp_le_length [of b i] by simp
  then have "i = 0 \<or> i = 1 \<or> i = 2 \<or> i = 3 \<or> i = 4 \<or> i = 5 \<or> i = 6 \<or> i = 7" by linarith
  with i show ?thesis by (auto simp add: leading_zeros8_def vint_width_unfold)
qed

lemma readVINTFromBuf_width: "readVINTFromBuf buf = (v, w) \<Longrightarrow> w \<le> length buf \<and> w \<le> 8"
  using leading_zeros8_vint vint_width_bounds
  by (fastforce simp add: readVINTFromBuf_def Let_def split: list.splits if_splits)

lemma ebml_sizes_total:
  assumes "ebml_sizes m raw pos prev tot total64 = Inr (szs, p, t)"
    and "pos \<le> length raw" and "0 \<le> tot" and "tot \<le> total64" and "total64 < 2 ^ 62"
  shows "length szs = m \<and> t = tot + sum_list szs \<and> (\<forall>x \<in> set szs. 0 \<le> x) \<and> p \<le> length raw"
  using assms
proof (induction m arbitrary: pos prev tot szs)
  case (Suc m)
  obtain val w where v: "readVINTFromBuf (drop pos raw) = (val, w)" by fastforce
  define sz where "sz = ebml_next_size prev val w"
  from Suc.prems(1) v obtain szs' where
    sz0: "0 \<le> sz" "sz \<le> total64" "wrap64 (tot + sz) \<le> total64"
    and rec: "ebml_sizes m raw (pos + w) sz (wrap64 (tot + sz)) total64 = Inr (szs', p, t)"
    and szs: "szs = sz # szs'"
    by (auto simp add: Let_def sz_def split: if_splits sum.splits)
  have "in_int64 (tot + sz)" using Suc.prems sz0 by (simp add: in_int64_def int64_min_def int64_max_def)
  then have wt: "wrap64 (tot + sz) = tot + sz" by simp
  have pos: "pos + w \<le> length raw" using readVINTFromBuf_width [OF v] Suc.prems(2) by auto
  from Suc.IH [OF rec pos] sz0 wt Suc.prems show ?case using szs by simp
qed simp

lemmas lacing_defs = lacingNone_def lacingXiph_def lacingFixed_def lacingEBML_def

lemma decode_known_lacing:
  "decodeLacingSizesLen lacing raw frameCount total64 = Inr r \<Longrightarrow>
   (lacing = lacingXiph \<or> lacing = lacingFixed \<or> lacing = lacingEBML) \<and> 0 \<le> total64"
  by (auto simp add: decodeLacingSizesLen_def split: if_splits)

lemma decode_xiph_Inr:
  "decodeLacingSizesLen lacingXiph raw frameCount total64 = Inr (szs, hl) \<longleftrightarrow>
   0 \<le> total64 \<and> total64 \<le> int64_max \<and>
   (\<exists>szs' tot. xiph_sizes (frameCount - 1) raw 0 0 total64 = Inr (szs', hl, tot) \<and>
      0 \<le> total64 - int hl - tot \<and> szs = szs' @ [total64 - int hl - tot])"
  by (auto simp add: decodeLacingSizesLen_def Let_def split: sum.splits)

lemma decode_fixed_Inr:
  "decodeLacingSizesLen lacingFixed raw frameCount total64 = Inr (szs, hl) \<longleftrightarrow>
   0 \<le> total64 \<and> total64 \<le> int64_max \<and> go_mod total64 (int frameCount) = 0 \<and> hl = 0 \<and>
   szs = replicate frameCount (go_div total64 (int frameCount))"
  by (auto simp add: decodeLacingSizesLen_def lacing_defs)

lemma decode_ebml_Inr:
  assumes "frameCount \<noteq> 1" and "readVINTFromBuf raw = (first, width)"
  shows "decodeLacingSizesLen lacingEBML raw frameCount total64 = Inr (szs, hl) \<longleftrightarrow>
   0 \<le> total64 \<and> total64 \<le> int64_max \<and> width \<noteq> 0 \<and>
   \<not> (first AND NOT (push_bit (width * 7) 1)) > word_of_int total64 \<and>
   (\<exists>szs' tot. ebml_sizes (frameCount - 2) raw width
        (uint (first AND NOT (push_bit (width * 7) 1))) (uint (first AND NOT (push_bit (width * 7) 1))) total64
        = Inr (szs', hl, tot) \<and>
      0 \<le> total64 - int hl - tot \<and>
      szs = uint (first AND NOT (push_bit (width * 7) 1)) # szs' @ [total64 - int hl - tot])"
  using assms
  by (auto simp add: decodeLacingSizesLen_def Let_def lacing_defs split: sum.splits)

lemma decode_xiph_total:
  assumes "decodeLacingSizesLen lacingXiph raw frameCount total64 = Inr (szs, hl)" and "1 \<le> frameCount"
  shows "length szs = frameCount \<and> (\<forall>x \<in> set szs. 0 \<le> x) \<and> hl \<le> length raw \<and>
         int hl + sum_list szs = total64"
proof -
  from assms(1) obtain szs' tot where
    x: "xiph_sizes (frameCount - 1) raw 0 0 total64 = Inr (szs', hl, tot)"
    and l: "0 \<le> total64 - int hl - tot" "szs = szs' @ [total64 - int hl - tot]"
    unfolding decode_xiph_Inr by blast
  from xiph_sizes_total [OF x] l assms(2) show ?thesis by auto
qed

lemma decode_fixed_total:
  assumes "decodeLacingSizesLen lacingFixed raw frameCount total64 = Inr (szs, hl)" and "1 \<le> frameCount"
  shows "length szs = frameCount \<and> (\<forall>x \<in> set szs. 0 \<le> x) \<and> hl \<le> length raw \<and>
         int hl + sum_list szs = total64"
proof -
  have "0 < int frameCount" using assms(2) by simp
  then have m: "total64 mod int frameCount = 0" and t: "0 \<le> total64"
    and szs: "szs = replicate frameCount (total64 div int frameCount)" "hl = 0"
    using assms(1) unfolding decode_fixed_Inr by auto
  have "int frameCount * (total64 div int frameCount) = total64"
    using m mult_div_mod_eq [of "int frameCount" total64] by simp
  then have "sum_list szs = total64" using szs(1) by (simp add: sum_list_replicate)
  moreover have "0 \<le> total64 div int frameCount" using t by (intro pos_imp_zdiv_nonneg_iff [THEN iffD2]) (use assms(2) in simp_all)
  ultimately show ?thesis using szs by simp
qed

lemma decode_ebml_total:
  assumes "decodeLacingSizesLen lacingEBML raw frameCount total64 = Inr (szs, hl)" and "1 \<le> frameCount"
    and "total64 < 2 ^ 62"
  shows "length szs = frameCount \<and> (\<forall>x \<in> set szs. 0 \<le> x) \<and> hl \<le> length raw \<and>
         int hl + sum_list szs = total64"
proof (cases "frameCount = 1")
  case True
  with assms(1) show ?thesis
    by (auto simp add: decodeLacingSizesLen_def lacing_defs split: if_splits)
next
  case False
  obtain first width where v: "readVINTFromBuf raw = (first, width)" by fastforce
  define fs where "fs = first AND NOT (push_bit (width * 7) 1)"
  from assms(1) obtain szs' tot where
    t: "0 \<le> total64" and le: "\<not> fs > word_of_int total64"
    and x: "ebml_sizes (frameCount - 2) raw width (uint fs) (uint fs) total64 = Inr (szs', hl, tot)"
    and l: "0 \<le> total64 - int hl - tot" "szs = uint fs # szs' @ [total64 - int hl - tot]"
    unfolding decode_ebml_Inr [OF False v] fs_def [symmetric] by blast
  have w: "width \<le> length raw" using readVINTFromBuf_width [OF v] by simp
  have "uint (word_of_int total64 :: u64) = total64" using t assms(3) by (simp add: uint_word_of_int)
  then have fs: "uint fs \<le> total64" using le by (simp add: word_le_def not_less)
  have "length szs' = frameCount - 2" "tot = uint fs + sum_list szs'" "\<forall>x \<in> set szs'. 0 \<le> x" "hl \<le> length raw"
    using ebml_sizes_total [OF x w uint_ge_0 fs assms(3)] by simp_all
  then show ?thesis using l False assms(2) by auto
qed

lemma decodeLacingSizesLen_total:
  assumes "decodeLacingSizesLen lacing raw frameCount total64 = Inr (szs, hl)"
    and "1 \<le> frameCount" and "total64 < 2 ^ 62"
  shows "length szs = frameCount \<and> (\<forall>x \<in> set szs. 0 \<le> x) \<and> hl \<le> length raw \<and>
         int hl + sum_list szs = total64"
  using decode_known_lacing [OF assms(1)] assms decode_xiph_total decode_fixed_total decode_ebml_total
  by blast


section \<open>The gathered header decodes as the payload does\<close>

text \<open>A complete Xiph size, and a complete VINT.\<close>

definition xiph_run :: "bytes \<Rightarrow> bool" where
  "xiph_run r \<longleftrightarrow> (\<exists>k b. r = replicate k 255 @ [b] \<and> b < 255)"

definition ebml_run :: "bytes \<Rightarrow> bool" where
  "ebml_run r \<longleftrightarrow> r \<noteq> [] \<and> hd r \<noteq> 0 \<and> length r = leading_zeros8 (hd r) + 1"

lemma xiph_run_Cons: "xiph_run r \<Longrightarrow> xiph_run (255 # r)"
proof -
  assume "xiph_run r"
  then obtain k b where "r = replicate k 255 @ [b]" "b < 255" unfolding xiph_run_def by blast
  then have "255 # r = replicate (Suc k) 255 @ [b]" by simp
  with \<open>b < 255\<close> show ?thesis unfolding xiph_run_def by blast
qed

lemma not_less_255: "\<not> b < 255 \<Longrightarrow> b = (255 :: byte)"
proof -
  assume "\<not> b < 255"
  moreover have "unat b < 256" using unsigned_less [of b, where ?'a = nat] by simp
  ultimately have "unat b = 255" by (simp add: word_less_nat_alt)
  then show ?thesis by (simp add: word_unat_eq_iff)
qed

lemma lace_xiph_run_spec:
  "lace_xiph_run dl hdr s = (Inr hdr', s') \<Longrightarrow>
   \<exists>r. xiph_run r \<and> hdr' = hdr @ r \<and> pending s = r @ pending s'"
proof (induction dl hdr s rule: lace_xiph_run.induct)
  case (1 dl hdr s)
  from "1.prems" obtain h1 s1 where n: "lace_next dl hdr s = (Inr h1, s1)"
    and r: "(if last h1 < 255 then (Inr h1, s1) else lace_xiph_run dl h1 s1) = (Inr hdr', s')"
    by (subst (asm) lace_xiph_run.simps) (auto split: prod.splits sum.splits)
  from lace_next_Inr [OF n] obtain b where b: "h1 = hdr @ [b]" "pending s = b # pending s1" by blast
  show ?case
  proof (cases "b < 255")
    case True
    with r b have "hdr' = hdr @ [b]" "s' = s1" by auto
    moreover have "xiph_run [b]" unfolding xiph_run_def
      using True by (intro exI [of _ 0] exI [of _ b]) simp
    ultimately show ?thesis using b by auto
  next
    case False
    then have "lace_xiph_run dl h1 s1 = (Inr hdr', s')" using r b by simp
    from "1.IH" [OF n [symmetric] refl _ this] False b obtain r where
      "xiph_run r" "hdr' = h1 @ r" "pending s1 = r @ pending s'" by auto
    then show ?thesis using b not_less_255 [OF False] xiph_run_Cons by (intro exI [of _ "b # r"]) auto
  qed
qed

lemma lace_more_spec:
  "lace_more dl w hdr s = (Inr hdr', s') \<Longrightarrow>
   \<exists>r. length r = w \<and> hdr' = hdr @ r \<and> pending s = r @ pending s'"
proof (induction dl w hdr s rule: lace_more.induct)
  case (2 dl w hdr s)
  from "2.prems" obtain h1 s1 where n: "lace_next dl hdr s = (Inr h1, s1)"
    and r: "lace_more dl w h1 s1 = (Inr hdr', s')"
    by (auto split: prod.splits sum.splits)
  from lace_next_Inr [OF n] obtain b where b: "h1 = hdr @ [b]" "pending s = b # pending s1" by blast
  from "2.IH" [OF n [symmetric] refl r] obtain r where
    "length r = w" "hdr' = h1 @ r" "pending s1 = r @ pending s'" by blast
  with b show ?case by (intro exI [of _ "b # r"]) simp
qed simp

lemma lace_ebml_vint_spec:
  assumes "lace_ebml_vint dl hdr s = (Inr hdr', s')"
  shows "\<exists>r. ebml_run r \<and> hdr' = hdr @ r \<and> pending s = r @ pending s'"
proof -
  from assms obtain h1 s1 where n: "lace_next dl hdr s = (Inr h1, s1)" and z: "last h1 \<noteq> 0"
    and m: "lace_more dl (leading_zeros8 (last h1)) h1 s1 = (Inr hdr', s')"
    by (auto simp add: lace_ebml_vint_def Let_def split: prod.splits sum.splits if_splits)
  from lace_next_Inr [OF n] obtain b where b: "h1 = hdr @ [b]" "pending s = b # pending s1" by blast
  from lace_more_spec [OF m] obtain r where
    "length r = leading_zeros8 (last h1)" "hdr' = h1 @ r" "pending s1 = r @ pending s'" by blast
  with b z show ?thesis by (intro exI [of _ "b # r"]) (simp add: ebml_run_def)
qed

lemma lace_header_xiph:
  "lace_header m lacingXiph dl hdr s = (Inr hdr', s') \<Longrightarrow>
   \<exists>rs. length rs = m \<and> list_all xiph_run rs \<and> hdr' = hdr @ concat rs \<and> pending s = concat rs @ pending s'"
proof (induction m arbitrary: hdr s)
  case (Suc m)
  from Suc.prems obtain h1 s1 where x: "lace_xiph_run dl hdr s = (Inr h1, s1)"
    and r: "lace_header m lacingXiph dl h1 s1 = (Inr hdr', s')"
    by (auto split: prod.splits sum.splits)
  from lace_xiph_run_spec [OF x] obtain r where
    "xiph_run r" "h1 = hdr @ r" "pending s = r @ pending s1" by blast
  moreover from Suc.IH [OF r] obtain rs where
    "length rs = m" "list_all xiph_run rs" "hdr' = h1 @ concat rs" "pending s1 = concat rs @ pending s'" by blast
  ultimately show ?case by (intro exI [of _ "r # rs"]) simp
qed simp

lemma lace_header_ebml:
  "lace_header m lacingEBML dl hdr s = (Inr hdr', s') \<Longrightarrow>
   \<exists>rs. length rs = m \<and> list_all ebml_run rs \<and> hdr' = hdr @ concat rs \<and> pending s = concat rs @ pending s'"
proof (induction m arbitrary: hdr s)
  case (Suc m)
  from Suc.prems obtain h1 s1 where x: "lace_ebml_vint dl hdr s = (Inr h1, s1)"
    and r: "lace_header m lacingEBML dl h1 s1 = (Inr hdr', s')"
    by (auto simp add: lacing_defs split: prod.splits sum.splits)
  from lace_ebml_vint_spec [OF x] obtain r where
    "ebml_run r" "h1 = hdr @ r" "pending s = r @ pending s1" by blast
  moreover from Suc.IH [OF r] obtain rs where
    "length rs = m" "list_all ebml_run rs" "hdr' = h1 @ concat rs" "pending s1 = concat rs @ pending s'" by blast
  ultimately show ?case by (intro exI [of _ "r # rs"]) simp
qed simp

lemma xiph_size_complete:
  assumes "xiph_run r"
  shows "xiph_size (r @ tail) pos sz = (fst (xiph_size r pos sz), pos + length r, tail)"
proof -
  obtain k b where r: "r = replicate k 255 @ [b]" "b < 255" using assms unfolding xiph_run_def by blast
  have "xiph_size ((replicate k 255 @ [b]) @ tail) pos sz =
          (fst (xiph_size (replicate k 255 @ [b]) pos sz), pos + Suc k, tail)"
    using r(2) by (induction k arbitrary: pos sz) simp_all
  with r show ?thesis by simp
qed

lemma xiph_sizes_complete:
  "list_all xiph_run rs \<Longrightarrow> length rs = m \<Longrightarrow>
   xiph_sizes m (concat rs @ tail) pos tot T = xiph_sizes m (concat rs) pos tot T \<and>
   (\<forall>szs p t. xiph_sizes m (concat rs) pos tot T = Inr (szs, p, t) \<longrightarrow> p = pos + length (concat rs))"
proof (induction rs arbitrary: m pos tot)
  case (Cons r rs)
  then obtain n where m: "m = Suc n" "length rs = n" by (cases m) auto
  have step: "xiph_size (r @ xs) pos 0 = (fst (xiph_size r pos 0), pos + length r, xs)" for xs
    using Cons.prems by (intro xiph_size_complete) simp
  show ?case
    using Cons.IH [of n "pos + length r" "tot + fst (xiph_size r pos 0)"] Cons.prems m
      step [of "concat rs @ tail"] step [of "concat rs"]
    by (auto simp add: Let_def split: sum.splits if_splits)
qed simp

lemma readVINTFromBuf_complete:
  "ebml_run r \<Longrightarrow> readVINTFromBuf (r @ tail) = (fst (readVINTFromBuf r), length r)"
  by (cases r) (auto simp add: ebml_run_def readVINTFromBuf_def Let_def)

lemma ebml_sizes_complete:
  "list_all ebml_run rs \<Longrightarrow> length rs = m \<Longrightarrow>
   ebml_sizes m (pre @ concat rs @ tail) (length pre) prev tot T
     = ebml_sizes m (pre @ concat rs) (length pre) prev tot T \<and>
   (\<forall>szs p t. ebml_sizes m (pre @ concat rs) (length pre) prev tot T = Inr (szs, p, t) \<longrightarrow>
      p = length pre + length (concat rs))"
proof (induction rs arbitrary: m pre prev tot)
  case (Cons r rs)
  then obtain n where m: "m = Suc n" "length rs = n" by (cases m) auto
  have step: "readVINTFromBuf (r @ xs) = (fst (readVINTFromBuf r), length r)" for xs
    using Cons.prems by (intro readVINTFromBuf_complete) simp
  have "length r \<noteq> 0" using Cons.prems by (auto simp add: ebml_run_def)
  then show ?case
    using Cons.IH [of n "pre @ r" "ebml_next_size prev (fst (readVINTFromBuf r)) (length r)"
        "wrap64 (tot + ebml_next_size prev (fst (readVINTFromBuf r)) (length r))"] Cons.prems m step [of "concat rs @ tail"] step [of "concat rs"]
    by (auto simp add: Let_def split: sum.splits if_splits)
qed simp

lemma decode_of_header:
  assumes "list_all run rs" "length rs = frameCount - 1" "1 \<le> frameCount"
    and "run = (if lacing = lacingXiph then xiph_run else ebml_run)"
    and "lacing = lacingXiph \<or> lacing = lacingEBML"
    and dec: "decodeLacingSizesLen lacing (concat rs) frameCount T = Inr (szs, hl)"
  shows "decodeLacingSizesLen lacing (concat rs @ tail) frameCount T = Inr (szs, hl) \<and> hl = length (concat rs)"
proof (cases "lacing = lacingXiph")
  case True
  then show ?thesis
    using xiph_sizes_complete [of rs "frameCount - 1" tail 0 0 T] assms(1,2,4) dec
    by (auto simp add: decode_xiph_Inr)
next
  case x: False
  then have l: "lacing = lacingEBML" and run: "run = ebml_run" using assms by simp_all
  show ?thesis
  proof (cases "frameCount = 1")
    case True
    then show ?thesis
      using assms(2) dec l by (auto simp add: decodeLacingSizesLen_def lacing_defs split: if_splits)
  next
    case False
    then obtain r rs' where rs: "rs = r # rs'" using assms(2,3) by (cases rs) auto
    have first: "readVINTFromBuf (r @ xs) = (fst (readVINTFromBuf r), length r)" for xs
      using assms(1) rs run by (intro readVINTFromBuf_complete) simp
    have len: "length rs' = frameCount - 2" and all: "list_all ebml_run rs'"
      using assms(1,2) rs run by simp_all
    define fs where "fs = uint (fst (readVINTFromBuf r) AND NOT (push_bit (length r * 7) 1))"
    show ?thesis
      using dec ebml_sizes_complete [OF all len, of r tail fs fs T]
      unfolding fs_def l rs concat.simps append_assoc
        decode_ebml_Inr [OF False first [of "concat rs' @ tail"]] decode_ebml_Inr [OF False first [of "concat rs'"]]
      by auto
  qed
qed

section \<open>Properties\<close>

text \<open>
  C27. A laced block whose header decodes accounts for every byte: as many sizes as frames, none
  negative, a header that lies inside the data, and header and frames together exactly the payload.
  The frame slices the reader then takes are therefore always in range.
\<close>

theorem lacing_sizes_account:
  assumes "decodeLacingSizesLen lacing raw frameCount total64 = Inr (szs, hl)"
    and "1 \<le> frameCount" and "total64 < 2 ^ 62"
  shows "length szs = frameCount \<and> (\<forall>x \<in> set szs. 0 \<le> x) \<and> hl \<le> length raw \<and>
         int hl + sum_list szs = total64"
  using assms by (rule decodeLacingSizesLen_total)

theorem lacing_sizes_account_witness:
  "decodeLacingSizesLen lacingEBML [0x82, 0xC0, 7, 7, 7, 7, 7, 7, 7] 3 9 = Inr ([2, 3, 2], 2) \<and>
   int 2 + sum_list [2, 3, 2] = (9 :: int)"
proof -
  have d: "decodeLacingSizesLen lacingEBML [0x82, 0xC0, 7, 7, 7, 7, 7, 7, 7] 3 9 = Inr ([2, 3, 2], 2)"
    by code_simp
  show ?thesis using lacing_sizes_account [OF d] d by simp
qed

text \<open>
  The header-only walk sees the same frames as the full read: whatever sizes \<open>readLaceHeader\<close>
  gathers byte by byte, \<open>decodeLacingSizes\<close> gives for the whole payload, and the walk is left on
  the first frame's first byte.
\<close>

lemma lace_header_walk_agrees:
  assumes "readLaceHeader s lacing frameCount (int (length payload)) = (Inr (szs, hl), s')"
    and "1 \<le> frameCount" and "int (length payload) < 2 ^ 62"
    and "pending s = payload @ rest"
  shows "decodeLacingSizes lacing payload frameCount = Inr (szs, hl) \<and>
         pending s' = drop hl (pending s)"
proof (cases "lacing = lacingFixed")
  case True
  have le: "int (length payload) \<le> int64_max" using assms(3) by (simp add: int64_max_def)
  show ?thesis
    using assms(1) True le by (auto simp add: readLaceHeader_def decodeLacingSizes_def decode_fixed_Inr split: if_splits)
next
  case False
  let ?T = "int (length payload)" and ?m = "frameCount - 1"
  from assms(1) False obtain hdr where
    h: "lace_header ?m lacing ?T [] s = (Inr hdr, s')"
    and d: "decodeLacingSizesLen lacing hdr frameCount ?T = Inr (szs, hl)"
    by (auto simp add: readLaceHeader_def split: if_splits prod.splits sum.splits)
  have l: "lacing = lacingXiph \<or> lacing = lacingEBML" using decode_known_lacing [OF d] False by blast
  define run where "run = (if lacing = lacingXiph then xiph_run else ebml_run)"
  obtain rs where rs: "length rs = ?m" "list_all run rs" "hdr = concat rs" "pending s = concat rs @ pending s'"
    using lace_header_xiph [of ?m ?T "[]" s hdr s'] lace_header_ebml [of ?m ?T "[]" s hdr s'] h l
    unfolding run_def by (cases "lacing = lacingXiph") (auto simp add: lacing_defs)
  have acc: "int hl + sum_list szs = ?T" "\<forall>x \<in> set szs. 0 \<le> x"
    using decodeLacingSizesLen_total [OF d assms(2,3)] by simp_all
  have hl: "hl = length (concat rs)" using decode_of_header [OF rs(2,1) assms(2) run_def l] d rs(3) by simp
  have "hl \<le> length payload" using acc sum_list_nonneg [of szs] by simp
  then have tail: "payload = concat rs @ drop hl payload"
    using rs(4) assms(4) hl by (metis append_eq_append_conv2 append_take_drop_id append_eq_conv_conj take_append take_all_iff diff_is_0_eq take_0 append_Nil2)
  have "decodeLacingSizesLen lacing (concat rs @ drop hl payload) frameCount ?T = Inr (szs, hl)"
    using decode_of_header [OF rs(2,1) assms(2) run_def l] d rs(3) by blast
  then show ?thesis using tail rs(4) hl by (simp add: decodeLacingSizes_def)
qed


lemma lace_header_walk_agrees_witness:
  "decodeLacingSizes lacingXiph [2, 1, 9, 9, 8, 7, 7] 3 = Inr ([2, 1, 2], 2)"
proof -
  let ?s = "\<lparr>pending = [2, 1, 9, 9, 8, 7, 7], at_end = EOF, byte_reader = True\<rparr>"
  have r: "readLaceHeader ?s lacingXiph 3 (int (length ([2, 1, 9, 9, 8, 7, 7] :: bytes)))
             = (Inr ([2, 1, 2], 2), ?s\<lparr>pending := [9, 9, 8, 7, 7]\<rparr>)"
    by code_simp
  show ?thesis using lace_header_walk_agrees [OF r, of "[]"] by simp
qed

text \<open>
  The two walks differ on a damaged lace: a payload that ends before its last sizes are coded.
  The full read takes the missing sizes for empty frames and delivers the block; the header-only walk
  refuses it.
\<close>

lemma lace_header_walk_stricter:
  "decodeLacingSizes lacingXiph [0] 3 = Inr ([0, 0, 0], 1) \<and>
   fst (readLaceHeader (s\<lparr>pending := [0]\<rparr>) lacingXiph 3 1)
     = Inl (Errf ''lace header overruns its data bytes'')"
  by (simp add: decodeLacingSizes_def decodeLacingSizesLen_def readLaceHeader_def lacing_defs int64_max_def
      numeral_2_eq_2 lace_xiph_run.simps lace_next_def read_byte_def)

end
