(* ===== verification/MkvBlocks.thy ===== *)
theory MkvBlocks
  imports MkvWriter Lacing
begin

text \<open>
  The block parsers of \<^verbatim>\<open>mkv/reader/blocks.go\<close>: SimpleBlock and Block with their lacing, BlockGroup,
  BlockAdditions.  Of the \<^verbatim>\<open>BlockReader\<close> the record keeps what they read and write; its buffered
  \<^verbatim>\<open>countingReader\<close> is a source and the absolute offset of the source's end, which gives the position.
  A skip moves past bytes without delivering them, whether it reads or seeks.  The payload-buffer
  callback is a memory reuse hint and is left out, as are the progress reports, the resynchronisation
  of a damaged file's head and the skipping of damage.  A nil map or set is \<open>None\<close>, and \<open>hasStop\<close>
  with its limit is the option \<open>stopMs\<close>.  The loops over child elements take fuel: the
  theorem \<open>block_group_total\<close> shows how much suffices.
\<close>

record BlockReader =
  br_src :: source
  br_end :: int
  segEnd :: int
  clusterEnd :: int
  inCluster :: bool
  clusterTS :: int
  timecodeScale :: int
  br_pending :: "Block list"
  br_keep :: "(u64 \<Rightarrow> bool) option"
  br_known :: "(u64 \<Rightarrow> bool) option"
  headerOnly :: bool
  headerOnlyFor :: "(u64 \<Rightarrow> bool) option"
  trackDurNs :: "(u64 \<rightharpoonup> int) option"
  peeked :: "(ElementHeader \<times> int) option"
  stopMs :: "int option"
  awaitLimit :: bool
  clusterStart :: int
  blockStart :: int
  clusterCount :: nat
  elemStart :: int
  elemID :: u32
  suspected :: bool
  suspectAt :: int

text \<open>The entry of a track in a map that may be nil: 0 when there is none.\<close>

definition track_dur :: "BlockReader \<Rightarrow> u64 \<Rightarrow> int" where
  "track_dur br track =
     (case trackDurNs br of None \<Rightarrow> 0
      | Some m \<Rightarrow> (case m track of None \<Rightarrow> 0 | Some d \<Rightarrow> d))"

definition maxBlockSize :: int where "maxBlockSize = 64 * 1024 * 1024"
definition maxLacedFrameDurNs :: int where "maxLacedFrameDurNs = 10000000000"
definition maxBlockAdditional :: int where "maxBlockAdditional = 16 * 2 ^ 20"
definition maxBlockMores :: nat where "maxBlockMores = 64"
definition errFilteredBlock :: error where "errFilteredBlock = Errf ''block filtered''"

definition tell :: "BlockReader \<Rightarrow> int" where
  "tell br = br_end br - int (length (pending (br_src br)))"

text \<open>A read through the counting reader.\<close>

definition br_read :: "(source \<Rightarrow> 'a \<times> source) \<Rightarrow> BlockReader \<Rightarrow> 'a \<times> BlockReader" where
  "br_read f br = (case f (br_src br) of (x, s') \<Rightarrow> (x, br\<lparr>br_src := s'\<rparr>))"

definition discard :: "int \<Rightarrow> BlockReader \<Rightarrow> unit result \<times> BlockReader" where
  "discard n br =
     (let s = br_src br in
      if n \<le> 0 then (Inr (), br)
      else if nat n \<le> length (pending s)
      then (Inr (), br\<lparr>br_src := s\<lparr>pending := drop (nat n) (pending s)\<rparr>\<rparr>)
      else (Inl (if at_end s = EOF then UnexpectedEOF else at_end s), br\<lparr>br_src := s\<lparr>pending := []\<rparr>\<rparr>))"

text \<open>Sequencing of reads: an error ends the routine where the reader stands.\<close>

definition and_then ::
  "'a result \<times> BlockReader \<Rightarrow> ('a \<Rightarrow> BlockReader \<Rightarrow> 'b result \<times> BlockReader) \<Rightarrow> 'b result \<times> BlockReader"
where
  "and_then x f = (case x of (Inl e, br) \<Rightarrow> (Inl e, br) | (Inr v, br) \<Rightarrow> f v br)"

lemma and_then_simps [simp]:
  "and_then (Inl e, br) f = (Inl e, br)" "and_then (Inr v, br) f = f v br"
  by (simp_all add: and_then_def)

definition skipsPayload :: "BlockReader \<Rightarrow> u64 \<Rightarrow> bool" where
  "skipsPayload br track \<longleftrightarrow>
     headerOnly br \<and> (case headerOnlyFor br of None \<Rightarrow> True | Some f \<Rightarrow> f track)"

definition safeTimecodeMs :: "int \<Rightarrow> int \<Rightarrow> int result" where
  "safeTimecodeMs v scale =
     (if scale \<noteq> 0 \<and> (v > go_div int64_max scale \<or> v < go_div int64_min scale)
      then Inl (Errf ''timecode overflow'')
      else Inr (go_div (wrap64 (v * scale)) 1000000))"

definition zero_block :: Block where
  "zero_block = \<lparr>TrackNumber = 0, Timecode = 0, Keyframe = False, Data = [], Duration = 0,
     DiscardPaddingNs = 0, DataOffset = 0, BlockTimecode = 0, Laced = False, Additions = [], BlockSize = 0\<rparr>"

text \<open>
  The frames of a lace, from frame \<open>i\<close> at \<open>offset\<close> on.  \<open>raw\<close> is the frame data, \<open>None\<close> in a
  header-only walk.
\<close>

fun lace_frames ::
  "u64 \<Rightarrow> int \<Rightarrow> int \<Rightarrow> bool \<Rightarrow> bool \<Rightarrow> int \<Rightarrow> int \<Rightarrow> bytes option \<Rightarrow> nat \<Rightarrow> int \<Rightarrow> int list \<Rightarrow> Block list result"
where
  "lace_frames trackNum tc durNs keyframe laced framesOff framesLen raw i offset [] = Inr []"
| "lace_frames trackNum tc durNs keyframe laced framesOff framesLen raw i offset (sz # szs) =
     (let end = wrap64 (offset + sz) in
      if end < offset \<or> end > framesLen then Inl (Errf ''laced frame overflows'')
      else let tcI = (if durNs > 0 \<and> durNs \<le> maxLacedFrameDurNs
                      then wrap64 (tc + go_div (int i * durNs + 500000) 1000000) else tc);
               b = zero_block\<lparr>TrackNumber := trackNum, Timecode := tcI, BlockTimecode := tc,
                     Keyframe := keyframe, BlockSize := sz, Laced := laced, DataOffset := framesOff + offset,
                     Data := (case raw of None \<Rightarrow> [] | Some d \<Rightarrow> slice (nat offset) (nat end) d)\<rparr>
           in bind_r (lace_frames trackNum tc durNs keyframe laced framesOff framesLen raw (Suc i) end szs)
                (\<lambda>bs. Inr (b # bs)))"

definition parse_unlaced :: "u64 \<Rightarrow> int \<Rightarrow> bool \<Rightarrow> int \<Rightarrow> BlockReader \<Rightarrow> Block result \<times> BlockReader" where
  "parse_unlaced trackNum relTC keyframe dataSize br =
     (case safeTimecodeMs (wrap64 (clusterTS br + relTC)) (timecodeScale br) of
        Inl e \<Rightarrow> (Inl e, br)
      | Inr tc \<Rightarrow>
          let b = zero_block\<lparr>TrackNumber := trackNum, Timecode := tc, BlockTimecode := tc,
                    Keyframe := keyframe, BlockSize := dataSize, DataOffset := tell br\<rparr>
          in if skipsPayload br trackNum
             then and_then (discard dataSize br) (\<lambda>_ br. (Inr b, br))
             else and_then (br_read (read_full (nat dataSize)) br) (\<lambda>data br. (Inr (b\<lparr>Data := data\<rparr>), br)))"

text \<open>The lace header: the frame count, the sizes, the header's length, and the frame data if read.\<close>

definition parse_lace ::
  "u64 \<Rightarrow> nat \<Rightarrow> int \<Rightarrow> BlockReader \<Rightarrow> (nat \<times> int list \<times> nat \<times> bytes option) result \<times> BlockReader"
where
  "parse_lace trackNum lacing dataSize br =
     (if skipsPayload br trackNum then
        (if dataSize = 0 then (Inl (Errf ''laced block missing lacing header byte''), br)
         else and_then (br_read read_byte br) (\<lambda>count br.
           let frameCount = unat count + 1 in
           and_then (br_read (\<lambda>s. readLaceHeader s lacing frameCount (dataSize - 1)) br)
             (\<lambda>(frameSizes, headerBytes) br.
               and_then (discard (dataSize - 1 - int headerBytes) br)
                 (\<lambda>_ br. (Inr (frameCount, frameSizes, headerBytes, None), br)))))
      else and_then (br_read (read_full (nat dataSize)) br) (\<lambda>raw br.
        case raw of
          [] \<Rightarrow> (Inl (Errf ''laced block missing lacing header byte''), br)
        | count # raw \<Rightarrow>
            let frameCount = unat count + 1 in
            (case decodeLacingSizes lacing raw frameCount of
               Inl e \<Rightarrow> (Inl e, br)
             | Inr (frameSizes, headerBytes) \<Rightarrow>
                 if headerBytes > length raw then (Inl (Errf ''laced block header exceeds data''), br)
                 else (Inr (frameCount, frameSizes, headerBytes, Some (drop headerBytes raw)), br))))"

definition parse_laced :: "u64 \<Rightarrow> int \<Rightarrow> bool \<Rightarrow> nat \<Rightarrow> int \<Rightarrow> BlockReader \<Rightarrow> Block result \<times> BlockReader" where
  "parse_laced trackNum relTC keyframe lacing dataSize br =
     (let laceOff = tell br in
      and_then (parse_lace trackNum lacing dataSize br) (\<lambda>(frameCount, frameSizes, headerBytes, raw) br.
        let framesLen = dataSize - 1 - int headerBytes;
            framesOff = laceOff + 1 + int headerBytes
        in case safeTimecodeMs (wrap64 (clusterTS br + relTC)) (timecodeScale br) of
             Inl e \<Rightarrow> (Inl e, br)
           | Inr tc \<Rightarrow>
               let durNs = track_dur br trackNum in
               (case lace_frames trackNum tc durNs keyframe (frameCount > 1) framesOff framesLen raw 0 0 frameSizes of
                  Inl e \<Rightarrow> (Inl e, br)
                | Inr [] \<Rightarrow> (Inl (Errf ''empty lace''), br)
                | Inr (b # bs) \<Rightarrow> (Inr b, br\<lparr>br_pending := bs\<rparr>))))"

definition parseBlock :: "int \<Rightarrow> bool \<Rightarrow> BlockReader \<Rightarrow> Block result \<times> BlockReader" where
  "parseBlock sz simple br0 =
     (if sz < 0 then (Inl (Errf ''block with unknown size''), br0)
      else let start = tell br0 in
        and_then (br_read ReadDataSize br0) (\<lambda>(tn, _) br.
          let trackNum = word_of_int tn in
          if tell br - start > sz then (Inl (Errf ''block's track number runs past the block''), br)
          else if (case br_known br of None \<Rightarrow> False | Some known \<Rightarrow> \<not> known trackNum) then
            let br' = (if suspected br then br else br\<lparr>suspected := True, suspectAt := blockStart br\<rparr>)
            in and_then (discard (sz - (tell br' - start)) br') (\<lambda>_ br. (Inl errFilteredBlock, br))
          else if (case br_keep br of None \<Rightarrow> False | Some keep \<Rightarrow> \<not> keep trackNum) then
            and_then (discard (sz - (tell br - start)) br) (\<lambda>_ br. (Inl errFilteredBlock, br))
          else and_then (br_read (\<lambda>s. readBE s 2) br) (\<lambda>tc16 br.
            let relTC = sint (ucast tc16 :: 16 word) in
            and_then (br_read read_byte br) (\<lambda>flags br.
              let keyframe = (simple \<and> flags AND 0x80 \<noteq> 0);
                  lacing = unat (drop_bit 1 flags AND 0x03);
                  dataSize = sz - (tell br - start)
              in if dataSize < 0 \<or> dataSize > maxBlockSize
                 then (Inl (Errf ''invalid block data size''), br)
                 else if lacing = lacingNone then parse_unlaced trackNum relTC keyframe dataSize br
                 else parse_laced trackNum relTC keyframe lacing dataSize br))))"

section \<open>Block groups\<close>

definition pastEnd :: "ElementHeader \<Rightarrow> int \<Rightarrow> int \<Rightarrow> unit result" where
  "pastEnd h body end =
     (if end < 0 \<or> hdr_Size h < 0 \<or> body + hdr_Size h \<le> end then Inr ()
      else Inl (Errf ''element runs past its parent's end''))"

text \<open>An element header inside a parent that ends at \<open>end\<close>.\<close>

definition child_header :: "int \<Rightarrow> BlockReader \<Rightarrow> ElementHeader result \<times> BlockReader" where
  "child_header end br =
     and_then (br_read ReadElementHeader br) (\<lambda>(h, _) br.
       case pastEnd h (tell br) end of Inl e \<Rightarrow> (Inl e, br) | Inr _ \<Rightarrow> (Inr h, br))"

text \<open>The children of one BlockMore.\<close>

fun more_loop ::
  "nat \<Rightarrow> int \<Rightarrow> BlockAddition \<Rightarrow> int \<Rightarrow> BlockReader \<Rightarrow> ((BlockAddition \<times> int) result \<times> BlockReader) option"
where
  "more_loop 0 moreEnd mr held br = None"
| "more_loop (Suc fuel) moreEnd mr held br =
     (if tell br < moreEnd then
        (case child_header moreEnd br of
           (Inl e, br) \<Rightarrow> Some (Inl e, br)
         | (Inr c, br) \<Rightarrow>
             if hdr_ID c = IDBlockAddID then
               (case br_read (\<lambda>s. ReadUint s (hdr_Size c)) br of
                  (Inl e, br) \<Rightarrow> Some (Inl e, br)
                | (Inr v, br) \<Rightarrow> more_loop fuel moreEnd (mr\<lparr>add_ID := v\<rparr>) held br)
             else if hdr_ID c = IDBlockAdditional then
               (if hdr_Size c < 0 then Some (Inl (Errf ''BlockAdditional of unknown size''), br)
                else let held' = held + hdr_Size c in
                  if held' > maxBlockAdditional
                  then Some (Inl (Errf ''block additions past what they may hold''), br)
                  else (case br_read (read_full (nat (hdr_Size c))) br of
                          (Inl e, br) \<Rightarrow> Some (Inl e, br)
                        | (Inr d, br) \<Rightarrow> more_loop fuel moreEnd (mr\<lparr>add_Data := d\<rparr>) held' br))
             else (case discard (hdr_Size c) br of
                     (Inl e, br) \<Rightarrow> Some (Inl e, br)
                   | (Inr _, br) \<Rightarrow> more_loop fuel moreEnd mr held br))
      else Some (Inr (mr, held), br))"

fun additions_loop ::
  "nat \<Rightarrow> int \<Rightarrow> BlockAddition list \<Rightarrow> int \<Rightarrow> BlockReader \<Rightarrow> (BlockAddition list result \<times> BlockReader) option"
where
  "additions_loop 0 end out held br = None"
| "additions_loop (Suc fuel) end out held br =
     (if tell br < end then
        (case child_header end br of
           (Inl e, br) \<Rightarrow> Some (Inl e, br)
         | (Inr h, br) \<Rightarrow>
             if hdr_ID h \<noteq> IDBlockMore then
               (case discard (hdr_Size h) br of
                  (Inl e, br) \<Rightarrow> Some (Inl e, br)
                | (Inr _, br) \<Rightarrow> additions_loop fuel end out held br)
             else if hdr_Size h < 0 then Some (Inl (Errf ''BlockMore of unknown size''), br)
             else if length out = maxBlockMores
             then Some (Inl (Errf ''BlockGroup with too many BlockMore elements''), br)
             else (case more_loop fuel (tell br + hdr_Size h) \<lparr>add_ID = 1, add_Data = []\<rparr> held br of
                     None \<Rightarrow> None
                   | Some (Inl e, br) \<Rightarrow> Some (Inl e, br)
                   | Some (Inr (mr, held'), br) \<Rightarrow> additions_loop fuel end (out @ [mr]) held' br))
      else Some (Inr out, br))"

definition parseBlockAdditions ::
  "nat \<Rightarrow> int \<Rightarrow> BlockReader \<Rightarrow> (BlockAddition list result \<times> BlockReader) option" where
  "parseBlockAdditions fuel sz br = additions_loop fuel (tell br + sz) [] 0 br"

text \<open>\<^verbatim>\<open>int64(raw<<shift) >> shift\<close> with the shift that leaves \<open>n\<close> bytes.\<close>

definition sign_extend :: "nat \<Rightarrow> u64 \<Rightarrow> int" where
  "sign_extend n raw = sint (signed_drop_bit (64 - 8 * n) (push_bit (64 - 8 * n) raw))"

record group_state =
  bg_block :: Block
  bg_found :: bool
  bg_referenced :: bool
  bg_durationMs :: int
  bg_paddingNs :: int
  bg_additions :: "BlockAddition list"

definition group_init :: group_state where
  "group_init = \<lparr>bg_block = zero_block, bg_found = False, bg_referenced = False,
     bg_durationMs = 0, bg_paddingNs = 0, bg_additions = []\<rparr>"

fun group_loop ::
  "nat \<Rightarrow> int \<Rightarrow> group_state \<Rightarrow> BlockReader \<Rightarrow> (group_state result \<times> BlockReader) option"
where
  "group_loop 0 end g br = None"
| "group_loop (Suc fuel) end g br =
     (if tell br < end then
        (case child_header end br of
           (Inl e, br) \<Rightarrow> Some (Inl e, br)
         | (Inr h, br) \<Rightarrow>
             if hdr_ID h = IDBlock then
               (case parseBlock (hdr_Size h) False br of
                  (Inl e, br) \<Rightarrow>
                    if e = errFilteredBlock
                    then Some (case discard (end - tell br) br of
                                 (Inl d, br) \<Rightarrow> (Inl d, br) | (Inr _, br) \<Rightarrow> (Inl errFilteredBlock, br))
                    else Some (Inl e, br)
                | (Inr b, br) \<Rightarrow> group_loop fuel end (g\<lparr>bg_block := b, bg_found := True\<rparr>) br)
             else if hdr_ID h = IDBlockDuration then
               (case br_read (\<lambda>s. ReadUint s (hdr_Size h)) br of
                  (Inl e, br) \<Rightarrow> Some (Inl e, br)
                | (Inr raw, br) \<Rightarrow>
                    (case safeTimecodeMs (sint raw) (timecodeScale br) of
                       Inl e \<Rightarrow> Some (Inl e, br)
                     | Inr d \<Rightarrow> group_loop fuel end (g\<lparr>bg_durationMs := d\<rparr>) br))
             else if hdr_ID h = IDReferenceBlock then
               (case discard (hdr_Size h) br of
                  (Inl e, br) \<Rightarrow> Some (Inl e, br)
                | (Inr _, br) \<Rightarrow> group_loop fuel end (g\<lparr>bg_referenced := True\<rparr>) br)
             else if hdr_ID h = IDBlockAdditions then
               (if hdr_Size h < 0 then Some (Inl (Errf ''BlockAdditions of unknown size''), br)
                else case parseBlockAdditions fuel (hdr_Size h) br of
                  None \<Rightarrow> None
                | Some (Inl e, br) \<Rightarrow> Some (Inl e, br)
                | Some (Inr a, br) \<Rightarrow> group_loop fuel end (g\<lparr>bg_additions := a\<rparr>) br)
             else if hdr_ID h = IDDiscardPadding then
               (if hdr_Size h > 8 then Some (Inl (Errf ''DiscardPadding too long''), br)
                else case br_read (\<lambda>s. ReadUint s (hdr_Size h)) br of
                  (Inl e, br) \<Rightarrow> Some (Inl e, br)
                | (Inr raw, br) \<Rightarrow>
                    group_loop fuel end
                      (if hdr_Size h > 0 then g\<lparr>bg_paddingNs := sign_extend (nat (hdr_Size h)) raw\<rparr> else g) br)
             else
               (case discard (hdr_Size h) br of
                  (Inl e, br) \<Rightarrow> Some (Inl e, br)
                | (Inr _, br) \<Rightarrow> group_loop fuel end g br))
      else Some (Inr g, br))"

text \<open>What the group's fields make of its block and of the frames a lace queued behind it.\<close>

definition group_finish :: "group_state \<Rightarrow> BlockReader \<Rightarrow> Block result \<times> BlockReader" where
  "group_finish g br =
     (if \<not> bg_found g then (Inl (Errf ''BlockGroup without Block element''), br)
      else let b1 = (bg_block g)\<lparr>Duration := bg_durationMs g, Additions := bg_additions g\<rparr>;
               (b2, p2) = (if br_pending br \<noteq> []
                           then (b1, butlast (br_pending br)
                                   @ [last (br_pending br)\<lparr>DiscardPaddingNs := bg_paddingNs g\<rparr>])
                           else (b1\<lparr>DiscardPaddingNs := bg_paddingNs g\<rparr>, []));
               (b3, p3) = (if \<not> bg_referenced g
                           then (b2\<lparr>Keyframe := True\<rparr>, map (\<lambda>b. b\<lparr>Keyframe := True\<rparr>) p2) else (b2, p2))
           in (Inr b3, br\<lparr>br_pending := p3\<rparr>))"

definition parseBlockGroup :: "nat \<Rightarrow> int \<Rightarrow> BlockReader \<Rightarrow> (Block result \<times> BlockReader) option" where
  "parseBlockGroup fuel sz br =
     (case group_loop fuel (tell br + sz) group_init br of
        None \<Rightarrow> None
      | Some (Inl e, br) \<Rightarrow> Some (Inl e, br)
      | Some (Inr g, br) \<Rightarrow> Some (group_finish g br))"

section \<open>Timecodes\<close>

lemma div_less_int:
  assumes s: "0 < (s :: int)"
  shows "x div s < v \<longleftrightarrow> x < v * s"
proof -
  define q where "q = x div s"
  have x: "x = q * s + x mod s" "0 \<le> x mod s" "x mod s < s" using s by (simp_all add: q_def)
  have "q < v \<longleftrightarrow> x < v * s"
  proof
    assume "q < v"
    then have "(q + 1) * s \<le> v * s" using s by (intro mult_right_mono) simp_all
    moreover have "(q + 1) * s = q * s + s" by (simp add: algebra_simps)
    ultimately show "x < v * s" using x by linarith
  next
    assume l: "x < v * s"
    show "q < v"
    proof (rule ccontr)
      assume "\<not> q < v"
      then have "v * s \<le> q * s" using s by (intro mult_right_mono) simp_all
      then show False using l x by linarith
    qed
  qed
  then show ?thesis by (simp add: q_def)
qed

text \<open>
  \<open>safeTimecodeMs\<close> fails exactly when the product of value and scale leaves the \<open>int64\<close> range, so
  its own multiplication never wraps and the milliseconds are the exact product divided.
\<close>

lemma timecode_never_wraps:
  assumes "0 < scale"
  shows "safeTimecodeMs v scale =
    (if in_int64 (v * scale) then Inr (go_div (v * scale) 1000000) else Inl (Errf ''timecode overflow''))"
proof -
  have M: "go_div int64_max scale = int64_max div scale" using assms by (simp add: int64_max_def)
  have m: "go_div int64_min scale = - ((2 ^ 63) div scale)"
    using assms by (simp add: int64_min_def go_div_neg)
  have up: "v > int64_max div scale \<longleftrightarrow> v * scale > int64_max"
    using div_less_int [OF assms, of int64_max v] by simp
  have down: "v < - ((2 ^ 63) div scale) \<longleftrightarrow> v * scale < int64_min"
    using div_less_int [OF assms, of "2 ^ 63" "- v"] by (auto simp add: int64_min_def)
  show ?thesis
    using assms up down unfolding safeTimecodeMs_def M m
    by (auto simp add: in_int64_def not_less)
qed

lemma timecode_never_wraps_witness:
  "safeTimecodeMs 9223372036854 1000000 = Inr 9223372036854 \<and>
   safeTimecodeMs 9223372036855 1000000 = Inl (Errf ''timecode overflow'')"
  using timecode_never_wraps [of 1000000 9223372036854] timecode_never_wraps [of 1000000 9223372036855]
  by (simp add: in_int64_def int64_min_def int64_max_def)

end
