(* ===== verification/BlockWalk.thy ===== *)
theory BlockWalk
  imports MkvBlocks
begin

text \<open>
  The walk over a file's blocks (\<^verbatim>\<open>mkv/reader/blocks.go\<close>): \<^verbatim>\<open>next\<close> as a loop of steps, one turn of its
  \<^verbatim>\<open>for\<close> each, the positions a walk can be resumed at, and the durations picked up from a Tracks
  element on the way.  \<^verbatim>\<open>next\<close> is modelled for a reader past the file's head (\<^verbatim>\<open>atHead\<close> false) that does
  not skip damage.  Loops take fuel; \<open>next_total\<close> shows how much suffices.
\<close>

section \<open>Positions\<close>

record BlockPos =
  bp_Off :: int
  bp_ClusterStart :: int
  bp_ClusterEnd :: int
  bp_ClusterTS :: int

definition Valid :: "BlockPos \<Rightarrow> bool" where "Valid p \<longleftrightarrow> bp_Off p > 0"

definition DefaultTimecodeScale :: int where "DefaultTimecodeScale = 1000000"

definition scaleOrDefault :: "int \<Rightarrow> int" where
  "scaleOrDefault scale = (if scale \<le> 0 then DefaultTimecodeScale else scale)"

text \<open>A counting reader seated at an offset of a seekable file of the given content.\<close>

definition seat :: "bytes \<Rightarrow> int \<Rightarrow> source" where
  "seat file off = \<lparr>pending = drop (nat off) file, at_end = EOF, byte_reader = True\<rparr>"

definition NewBlockReaderAt :: "bytes \<Rightarrow> int \<Rightarrow> int \<Rightarrow> BlockReader" where
  "NewBlockReaderAt file scale offset =
     \<lparr>br_src = seat file offset, br_end = int (length file), segEnd = -1, clusterEnd = -1, inCluster = False,
      clusterTS = 0, timecodeScale = scaleOrDefault scale, br_pending = [], br_keep = None, br_known = None,
      headerOnly = False, headerOnlyFor = None, trackDurNs = None, peeked = None, stopMs = None,
      awaitLimit = False, clusterStart = 0, blockStart = 0, clusterCount = 0, elemStart = 0, elemID = 0,
      suspected = False, suspectAt = 0\<rparr>"

definition NewBlockReaderFrom :: "bytes \<Rightarrow> int \<Rightarrow> BlockPos \<Rightarrow> BlockReader result" where
  "NewBlockReaderFrom file scale p =
     (if \<not> Valid p then Inl (Errf ''resume: invalid block position'')
      else Inr ((NewBlockReaderAt file scale (bp_Off p))
                  \<lparr>inCluster := True, clusterEnd := bp_ClusterEnd p, clusterTS := bp_ClusterTS p,
                   clusterStart := bp_ClusterStart p, clusterCount := 1\<rparr>))"

definition RestartAt :: "bytes \<Rightarrow> int \<Rightarrow> BlockReader \<Rightarrow> BlockReader" where
  "RestartAt file offset br =
     br\<lparr>br_src := seat file offset, br_end := int (length file),
        segEnd := (if segEnd br \<ge> 0 \<and> offset \<ge> segEnd br then -1 else segEnd br),
        inCluster := False, clusterEnd := -1, clusterTS := 0, clusterStart := 0, br_pending := [],
        peeked := None, awaitLimit := False, blockStart := 0\<rparr>"

definition SeekTo :: "bytes \<Rightarrow> BlockPos \<Rightarrow> BlockReader \<Rightarrow> BlockReader result" where
  "SeekTo file p br =
     (if \<not> Valid p then Inl (Errf ''seek: invalid block position'')
      else Inr (br\<lparr>br_src := seat file (bp_Off p), br_end := int (length file),
                   segEnd := (if segEnd br \<ge> 0 \<and> bp_Off p \<ge> segEnd br then -1 else segEnd br),
                   inCluster := True, clusterEnd := bp_ClusterEnd p, clusterTS := bp_ClusterTS p,
                   clusterStart := bp_ClusterStart p, br_pending := [], peeked := None, awaitLimit := False,
                   blockStart := 0, clusterCount := 1\<rparr>))"

definition Pos :: "BlockReader \<Rightarrow> BlockPos" where
  "Pos br = \<lparr>bp_Off = blockStart br, bp_ClusterStart = clusterStart br, bp_ClusterEnd = clusterEnd br,
     bp_ClusterTS = clusterTS br\<rparr>"

section \<open>Durations from the Tracks element\<close>

definition IDInfo :: u32 where "IDInfo = 0x1549A966"
definition IDTracks :: u32 where "IDTracks = 0x1654AE6B"
definition IDTrackEntry :: u32 where "IDTrackEntry = 0xAE"
definition IDTrackNumber :: u32 where "IDTrackNumber = 0xD7"
definition IDDefaultDuration :: u32 where "IDDefaultDuration = 0x23E383"
definition IDAttachments :: u32 where "IDAttachments = 0x1941A469"
definition IDChapters :: u32 where "IDChapters = 0x1043A770"
definition IDTags :: u32 where "IDTags = 0x1254C367"

text \<open>How a scan loop ends: an I/O error, an anomaly that skips the rest, or its result.\<close>

datatype 'a scan = ScanFail error | ScanSkip | ScanOk 'a

fun track_entry_loop ::
  "nat \<Rightarrow> int \<Rightarrow> u64 \<Rightarrow> int \<Rightarrow> BlockReader \<Rightarrow> ((u64 \<times> int) scan \<times> BlockReader) option"
where
  "track_entry_loop 0 teEnd num durNs br = None"
| "track_entry_loop (Suc fuel) teEnd num durNs br =
     (if tell br < teEnd then
        (case br_read ReadElementHeader br of
           (Inl e, br) \<Rightarrow> Some (ScanFail e, br)
         | (Inr (eh, _), br) \<Rightarrow>
             if hdr_Size eh < 0 \<or> tell br + hdr_Size eh > teEnd then Some (ScanSkip, br)
             else if hdr_ID eh = IDTrackNumber \<or> hdr_ID eh = IDDefaultDuration then
               (if hdr_Size eh > 8 then Some (ScanSkip, br)
                else case br_read (\<lambda>s. ReadUint s (hdr_Size eh)) br of
                  (Inl e, br) \<Rightarrow> Some (ScanFail e, br)
                | (Inr v, br) \<Rightarrow>
                    if hdr_ID eh = IDTrackNumber then track_entry_loop fuel teEnd v durNs br
                    else track_entry_loop fuel teEnd num (sint v) br)
             else (case discard (hdr_Size eh) br of
                     (Inl e, br) \<Rightarrow> Some (ScanFail e, br)
                   | (Inr _, br) \<Rightarrow> track_entry_loop fuel teEnd num durNs br))
      else Some (ScanOk (num, durNs), br))"

definition learn_dur :: "bool \<Rightarrow> u64 \<Rightarrow> int \<Rightarrow> BlockReader \<Rightarrow> BlockReader" where
  "learn_dur learnDurs num durNs br =
     (if learnDurs \<and> num > 0 \<and> durNs > 0 \<and> durNs \<le> maxLacedFrameDurNs
      then br\<lparr>trackDurNs := Some ((case trackDurNs br of None \<Rightarrow> Map.empty | Some m \<Rightarrow> m)(num \<mapsto> durNs))\<rparr>
      else br)"

text \<open>\<open>declared\<close> is the set of track numbers met so far.\<close>

fun tracks_loop ::
  "nat \<Rightarrow> int \<Rightarrow> bool \<Rightarrow> u64 list \<Rightarrow> BlockReader \<Rightarrow> (u64 list scan \<times> BlockReader) option"
where
  "tracks_loop 0 end learnDurs declared br = None"
| "tracks_loop (Suc fuel) end learnDurs declared br =
     (if tell br < end then
        (case br_read ReadElementHeader br of
           (Inl e, br) \<Rightarrow> Some (ScanFail e, br)
         | (Inr (h, _), br) \<Rightarrow>
             if hdr_Size h < 0 \<or> tell br + hdr_Size h > end then Some (ScanSkip, br)
             else if hdr_ID h \<noteq> IDTrackEntry then
               (case discard (hdr_Size h) br of
                  (Inl e, br) \<Rightarrow> Some (ScanFail e, br)
                | (Inr _, br) \<Rightarrow> tracks_loop fuel end learnDurs declared br)
             else
               (case track_entry_loop fuel (tell br + hdr_Size h) 0 0 br of
                  None \<Rightarrow> None
                | Some (ScanFail e, br) \<Rightarrow> Some (ScanFail e, br)
                | Some (ScanSkip, br) \<Rightarrow> Some (ScanSkip, br)
                | Some (ScanOk (num, durNs), br) \<Rightarrow>
                    tracks_loop fuel end learnDurs (if num > 0 then num # declared else declared)
                      (learn_dur learnDurs num durNs br)))
      else Some (ScanOk declared, br))"

definition scanTracksDurations :: "nat \<Rightarrow> int \<Rightarrow> BlockReader \<Rightarrow> (unit result \<times> BlockReader) option" where
  "scanTracksDurations fuel sz br =
     (let end = tell br + sz in
      case tracks_loop fuel end (trackDurNs br = None) [] br of
        None \<Rightarrow> None
      | Some (ScanFail e, br) \<Rightarrow> Some (Inl e, br)
      | Some (ScanSkip, br) \<Rightarrow> Some (discard (end - tell br) br)
      | Some (ScanOk declared, br) \<Rightarrow>
          Some (Inr (), if br_known br = None \<and> declared \<noteq> []
                        then br\<lparr>br_known := Some (\<lambda>t. t \<in> set declared)\<rparr> else br))"

section \<open>The walk\<close>

definition ErrClusterLimit :: error where
  "ErrClusterLimit = Errf ''cluster beyond the requested timecode limit''"

definition maxClusterTimestamp :: int where "maxClusterTimestamp = int64_max - (2 ^ 15 - 1)"

definition isSegmentLevelID :: "u32 \<Rightarrow> bool" where
  "isSegmentLevelID eid \<longleftrightarrow>
     eid \<in> {IDCluster, IDSeekHead, IDInfo, IDTracks, IDCues, IDAttachments, IDChapters, IDTags}"

text \<open>Whether the limit holds the walk before the current cluster.\<close>

definition beyond_stop :: "BlockReader \<Rightarrow> bool" where
  "beyond_stop br =
     (case (stopMs br, safeTimecodeMs (clusterTS br) (timecodeScale br)) of
        (Some ms, Inr tsMs) \<Rightarrow> tsMs > ms | _ \<Rightarrow> False)"

text \<open>The next header, peeked or read, with the offset it starts at.\<close>

definition next_header :: "BlockReader \<Rightarrow> (ElementHeader \<times> int) result \<times> BlockReader" where
  "next_header br =
     (case peeked br of
        Some (h, start) \<Rightarrow> (Inr (h, start), br\<lparr>elemStart := start, peeked := None\<rparr>)
      | None \<Rightarrow>
          let start = tell br in
          and_then (br_read ReadElementHeader (br\<lparr>elemStart := start, elemID := 0\<rparr>))
            (\<lambda>(h, _) br. (Inr (h, start), br)))"

text \<open>
  One turn of the loop: no result when the walk goes on, the outer \<open>None\<close> when a group's loop is out
  of fuel.
\<close>

type_synonym turn = "(Block result option \<times> BlockReader) option"

definition block_out :: "Block result \<times> BlockReader \<Rightarrow> turn" where
  "block_out r = Some (if fst r = Inl errFilteredBlock then None else Some (fst r), snd r)"

definition skip_out :: "unit result \<times> BlockReader \<Rightarrow> turn" where
  "skip_out r = Some (case fst r of Inl e \<Rightarrow> Some (Inl e) | Inr _ \<Rightarrow> None, snd r)"

definition timestamp_turn :: "ElementHeader \<Rightarrow> BlockReader \<Rightarrow> turn" where
  "timestamp_turn h br =
     (case br_read (\<lambda>s. ReadUint s (hdr_Size h)) br of
        (Inl e, br) \<Rightarrow> Some (Some (Inl e), br)
      | (Inr v, br) \<Rightarrow>
          if uint v > maxClusterTimestamp
          then Some (Some (Inl (Errf ''cluster timestamp past what a block's relative timecode can be added to'')), br)
          else let br = br\<lparr>clusterTS := uint v\<rparr> in
            if beyond_stop br then Some (Some (Inl ErrClusterLimit), br\<lparr>awaitLimit := True\<rparr>)
            else Some (None, br))"

definition cluster_child :: "nat \<Rightarrow> ElementHeader \<Rightarrow> int \<Rightarrow> BlockReader \<Rightarrow> turn" where
  "cluster_child fuel h hdrStart br =
     (if hdr_ID h = IDTimestamp then timestamp_turn h br
      else if hdr_ID h = IDSimpleBlock then block_out (parseBlock (hdr_Size h) True (br\<lparr>blockStart := hdrStart\<rparr>))
      else if hdr_ID h = IDBlockGroup then
        (case parseBlockGroup fuel (hdr_Size h) (br\<lparr>blockStart := hdrStart\<rparr>) of
           None \<Rightarrow> None | Some r \<Rightarrow> block_out r)
      else if hdr_Size h < 0 then Some (Some (Inl (Errf ''unknown-size element inside cluster'')), br)
      else skip_out (discard (hdr_Size h) br))"

definition cluster_turn :: "nat \<Rightarrow> BlockReader \<Rightarrow> turn" where
  "cluster_turn fuel br =
     (if clusterEnd br \<ge> 0 \<and> tell br \<ge> clusterEnd br
      then Some (None, br\<lparr>inCluster := False, clusterEnd := -1\<rparr>)
      else if clusterEnd br < 0 \<and> segEnd br \<ge> 0 \<and> tell br \<ge> segEnd br
      then Some (None, br\<lparr>inCluster := False\<rparr>)
      else (case next_header br of
              (Inl e, br) \<Rightarrow> Some (Some (Inl (if e = EOF \<and> clusterEnd br \<ge> 0 then UnexpectedEOF else e)), br)
            | (Inr (h, hdrStart), br) \<Rightarrow>
                let br = br\<lparr>elemID := hdr_ID h\<rparr> in
                if clusterEnd br < 0 \<and> isSegmentLevelID (hdr_ID h)
                then Some (None, br\<lparr>inCluster := False, clusterEnd := -1, peeked := Some (h, hdrStart)\<rparr>)
                else (case pastEnd h (tell br) (clusterEnd br) of
                        Inl e \<Rightarrow> Some (Some (Inl e), br)
                      | Inr _ \<Rightarrow> cluster_child fuel h hdrStart br)))"

definition segment_turn :: "nat \<Rightarrow> BlockReader \<Rightarrow> turn" where
  "segment_turn fuel br =
     (if segEnd br \<ge> 0 \<and> tell br \<ge> segEnd br then Some (Some (Inl EOF), br)
      else (case next_header br of
              (Inl e, br) \<Rightarrow> Some (Some (Inl e), br)
            | (Inr (h, hdrStart), br) \<Rightarrow>
                let br = br\<lparr>elemID := hdr_ID h\<rparr> in
                if hdr_ID h = IDCluster then
                  Some (None, br\<lparr>suspected := False, clusterStart := hdrStart, clusterCount := Suc (clusterCount br),
                               inCluster := True,
                               clusterEnd := (if hdr_Size h \<ge> 0 then tell br + hdr_Size h else -1)\<rparr>)
                else if hdr_Size h < 0
                then Some (Some (Inl (Errf ''unknown-size element outside cluster'')), br)
                else if hdr_ID h = IDTracks \<and> (trackDurNs br = None \<or> br_known br = None) \<and> hdr_Size h \<le> 16 * 2 ^ 20
                then (case scanTracksDurations fuel (hdr_Size h) br of None \<Rightarrow> None | Some r \<Rightarrow> skip_out r)
                else skip_out (discard (hdr_Size h) br)))"

fun next_loop :: "nat \<Rightarrow> BlockReader \<Rightarrow> (Block result \<times> BlockReader) option" where
  "next_loop 0 br = None"
| "next_loop (Suc fuel) br =
     (case (if inCluster br then cluster_turn fuel br else segment_turn fuel br) of
        None \<Rightarrow> None
      | Some (Some r, br) \<Rightarrow> Some (r, br)
      | Some (None, br) \<Rightarrow> next_loop fuel br)"

text \<open>\<^verbatim>\<open>next\<close>.\<close>

definition next_block :: "nat \<Rightarrow> BlockReader \<Rightarrow> (Block result \<times> BlockReader) option" where
  "next_block fuel br =
     (case br_pending br of
        b # bs \<Rightarrow> Some (Inr b, br\<lparr>br_pending := bs\<rparr>)
      | [] \<Rightarrow>
          if awaitLimit br \<and> beyond_stop br then Some (Inl ErrClusterLimit, br)
          else next_loop fuel (br\<lparr>awaitLimit := False\<rparr>))"

section \<open>Reads consume\<close>

named_theorems keeps_rules \<open>operations that leave the walk's position state alone and never go back\<close>

definition shrinks :: "(source \<Rightarrow> 'a \<times> source) \<Rightarrow> bool" where
  "shrinks f \<longleftrightarrow> (\<forall>s. length (pending (snd (f s))) \<le> length (pending s))"

lemma shrinksD: "shrinks f \<Longrightarrow> f s = (x, s') \<Longrightarrow> length (pending s') \<le> length (pending s)"
  by (metis shrinks_def snd_conv)

lemma shrinks_read_byte: "shrinks read_byte"
  by (simp add: shrinks_def read_byte_def split: list.splits)

lemma shrinks_read_full: "shrinks (read_full n)"
  by (simp add: shrinks_def read_full_def)

lemma shrinks_readBE: "shrinks (\<lambda>s. readBE s n)"
  by (simp add: shrinks_def readBE_read_full read_full_def)

lemma shrinks_ReadUint: "shrinks (\<lambda>s. ReadUint s n)"
  by (simp add: shrinks_def ReadUint_paths readBE_read_full read_full_def)

lemma ReadVINT_consumes:
  "ReadVINT s = (r, s') \<Longrightarrow>
   length (pending s') \<le> length (pending s) \<and> (\<forall>x. r = Inr x \<longrightarrow> length (pending s') < length (pending s))"
  by (auto simp add: ReadVINT_eq ReadVINT_full_def read_full_def Let_def split: if_splits)

lemma ReadElementID_consumes:
  assumes "ReadElementID s = (r, s')"
  shows "length (pending s') \<le> length (pending s) \<and> (\<forall>x. r = Inr x \<longrightarrow> length (pending s') < length (pending s))"
proof -
  obtain q t where v: "ReadVINT s = (q, t)" by fastforce
  then show ?thesis
    using ReadVINT_consumes [OF v] assms by (auto simp add: ReadElementID_def split: sum.splits if_splits)
qed

lemma ReadDataSize_consumes:
  assumes "ReadDataSize s = (r, s')"
  shows "length (pending s') \<le> length (pending s) \<and> (\<forall>x. r = Inr x \<longrightarrow> length (pending s') < length (pending s))"
proof -
  obtain q t where v: "ReadVINT s = (q, t)" by fastforce
  then show ?thesis
    using ReadVINT_consumes [OF v] assms by (auto simp add: ReadDataSize_def Let_def split: sum.splits if_splits)
qed

lemma ReadElementHeader_consumes:
  assumes "ReadElementHeader s = (r, s')"
  shows "length (pending s') \<le> length (pending s) \<and> (\<forall>x. r = Inr x \<longrightarrow> length (pending s') + 2 \<le> length (pending s))"
proof -
  obtain q t where q: "ReadElementID s = (q, t)" by fastforce
  obtain d u where d: "ReadDataSize t = (d, u)" by fastforce
  show ?thesis
    using ReadElementID_consumes [OF q] ReadDataSize_consumes [OF d] assms q d
    by (auto simp add: ReadElementHeader_def split: sum.splits)
qed

lemma shrinks_ReadDataSize: "shrinks ReadDataSize"
  unfolding shrinks_def using ReadDataSize_consumes by (metis prod.collapse)

lemma shrinks_ReadElementHeader: "shrinks ReadElementHeader"
  unfolding shrinks_def using ReadElementHeader_consumes by (metis prod.collapse)

lemma shrinks_lace_next: "shrinks (lace_next dataLen hdr)"
proof (unfold shrinks_def, rule allI)
  fix s show "length (pending (snd (lace_next dataLen hdr s))) \<le> length (pending s)"
    by (cases "pending s") (simp_all add: lace_next_def read_byte_def)
qed

lemma shrinks_lace_xiph_run: "lace_xiph_run dataLen hdr s = (r, s') \<Longrightarrow> length (pending s') \<le> length (pending s)"
proof (induction dataLen hdr s rule: lace_xiph_run.induct)
  case (1 dataLen hdr s)
  obtain q t where q: "lace_next dataLen hdr s = (q, t)" by fastforce
  have t: "length (pending t) \<le> length (pending s)" using shrinksD [OF shrinks_lace_next q] .
  show ?case
  proof (cases q)
    case (Inr hdr')
    have "last hdr' < 255 \<Longrightarrow> t = s'" using 1(2) q Inr by (simp add: lace_xiph_run.simps [of dataLen hdr s])
    moreover have "\<not> last hdr' < 255 \<Longrightarrow> lace_xiph_run dataLen hdr' t = (r, s')"
      using 1(2) q Inr by (simp add: lace_xiph_run.simps [of dataLen hdr s])
    moreover have "\<not> last hdr' < 255 \<Longrightarrow> lace_xiph_run dataLen hdr' t = (r, s') \<Longrightarrow>
        length (pending s') \<le> length (pending t)"
      using 1(1) q Inr by simp
    ultimately show ?thesis using t by fastforce
  qed (use 1(2) q t in \<open>simp add: lace_xiph_run.simps [of dataLen hdr s]\<close>)
qed

lemma shrinks_lace_more: "lace_more dataLen n hdr s = (r, s') \<Longrightarrow> length (pending s') \<le> length (pending s)"
proof (induction n arbitrary: hdr s)
  case (Suc n)
  obtain q t where q: "lace_next dataLen hdr s = (q, t)" by fastforce
  then show ?case
    using shrinksD [OF shrinks_lace_next q] Suc.prems Suc.IH [of "projr q" t] by (cases q) auto
qed simp

lemma shrinks_lace_ebml_vint: "lace_ebml_vint dataLen hdr s = (r, s') \<Longrightarrow> length (pending s') \<le> length (pending s)"
proof -
  assume a: "lace_ebml_vint dataLen hdr s = (r, s')"
  obtain q t where q: "lace_next dataLen hdr s = (q, t)" by fastforce
  then show ?thesis
    using shrinksD [OF shrinks_lace_next q] a shrinks_lace_more [of dataLen "leading_zeros8 (last (projr q))" "projr q" t r s']
    by (cases q) (auto simp add: lace_ebml_vint_def Let_def split: if_splits)
qed

lemma shrinks_lace_header: "lace_header m lacing dataLen hdr s = (r, s') \<Longrightarrow> length (pending s') \<le> length (pending s)"
proof (induction m arbitrary: hdr s)
  case (Suc m)
  obtain q t where q: "lace_xiph_run dataLen hdr s = (q, t)" by fastforce
  obtain p u where p: "lace_ebml_vint dataLen hdr s = (p, u)" by fastforce
  show ?case
    using shrinks_lace_xiph_run [OF q] shrinks_lace_ebml_vint [OF p] q p Suc.prems
      Suc.IH [of "projr q" t] Suc.IH [of "projr p" u]
    by (cases p; cases q) (auto split: if_splits)
qed simp

lemma shrinks_readLaceHeader: "shrinks (\<lambda>s. readLaceHeader s lacing frameCount dataLen)"
proof (unfold shrinks_def, rule allI)
  fix s
  obtain q t where q: "lace_header (frameCount - 1) lacing dataLen [] s = (q, t)" by fastforce
  then show "length (pending (snd (readLaceHeader s lacing frameCount dataLen))) \<le> length (pending s)"
    using shrinks_lace_header [OF q] by (cases q) (auto simp add: readLaceHeader_def)
qed

lemmas shrinks_rules = shrinks_read_byte shrinks_read_full shrinks_readBE shrinks_ReadUint
  shrinks_ReadDataSize shrinks_ReadElementHeader shrinks_readLaceHeader

section \<open>The walk never goes back and always ends\<close>

definition left_bytes :: "BlockReader \<Rightarrow> nat" where "left_bytes br = length (pending (br_src br))"

definition keeps :: "BlockReader \<Rightarrow> BlockReader \<Rightarrow> bool" where
  "keeps br br' \<longleftrightarrow> left_bytes br' \<le> left_bytes br \<and> peeked br' = peeked br \<and> inCluster br' = inCluster br"

lemma keeps_refl [keeps_rules]: "keeps br br"
  by (simp add: keeps_def)

lemma keeps_trans: "keeps a b \<Longrightarrow> keeps b c \<Longrightarrow> keeps a c"
  by (simp add: keeps_def)

lemma keeps_br_read: "shrinks f \<Longrightarrow> keeps br (snd (br_read f br))"
  by (simp add: keeps_def br_read_def left_bytes_def shrinks_def split: prod.splits) (metis snd_conv)

lemma keeps_discard: "keeps br (snd (discard n br))"
  by (simp add: keeps_def discard_def left_bytes_def Let_def)

lemma keeps_and_then:
  "keeps br (snd x) \<Longrightarrow> (\<And>v. fst x = Inr v \<Longrightarrow> keeps (snd x) (snd (f v (snd x)))) \<Longrightarrow> keeps br (snd (and_then x f))"
  by (auto simp add: and_then_def keeps_def split: prod.splits sum.splits)

lemma keeps_update:
  "keeps br br' \<Longrightarrow> keeps br (br'\<lparr>br_pending := p\<rparr>)"
  "keeps br br' \<Longrightarrow> keeps br (br'\<lparr>suspected := b, suspectAt := i\<rparr>)"
  "keeps br br' \<Longrightarrow> keeps br (br'\<lparr>trackDurNs := d\<rparr>)"
  "keeps br br' \<Longrightarrow> keeps br (br'\<lparr>br_known := k\<rparr>)"
  by (simp_all add: keeps_def left_bytes_def)

lemmas keeps_basic = keeps_refl keeps_update keeps_discard shrinks_rules [THEN keeps_br_read]

lemma keeps_parse_unlaced: "keeps br (snd (parse_unlaced trackNum relTC kf dataSize br))"
  by (auto simp add: parse_unlaced_def Let_def intro!: keeps_and_then keeps_basic split: sum.splits)

lemma keeps_parse_lace: "keeps br (snd (parse_lace trackNum lacing dataSize br))"
  unfolding parse_lace_def Let_def
  by (auto intro!: keeps_and_then keeps_basic split: sum.splits list.splits)

lemma keeps_parse_laced: "keeps br (snd (parse_laced trackNum relTC kf lacing dataSize br))"
  unfolding parse_laced_def Let_def
  by (auto intro!: keeps_and_then keeps_parse_lace keeps_basic split: sum.splits list.splits)

lemma keeps_parseBlock: "keeps br (snd (parseBlock sz simple br))"
  unfolding parseBlock_def Let_def
  by (auto intro!: keeps_and_then keeps_parse_laced keeps_parse_unlaced keeps_basic
           intro: keeps_trans [OF _ keeps_discard] split: sum.splits list.splits option.splits)

lemma child_header_consumes:
  assumes "child_header end br = (r, br')"
  shows "keeps br br' \<and> (\<forall>h. r = Inr h \<longrightarrow> left_bytes br' + 2 \<le> left_bytes br)"
proof -
  obtain q s where q: "ReadElementHeader (br_src br) = (q, s)" by fastforce
  show ?thesis
    using assms ReadElementHeader_consumes [OF q] q
    by (cases q) (auto simp add: child_header_def br_read_def keeps_def left_bytes_def split: sum.splits)
qed

text \<open>A loop that returns with the state kept.\<close>

definition ends :: "BlockReader \<Rightarrow> ('a \<times> BlockReader) option \<Rightarrow> bool" where
  "ends br out \<longleftrightarrow> (case out of None \<Rightarrow> False | Some (r, br') \<Rightarrow> keeps br br')"

lemma ends_Some [simp]: "ends br (Some (r, br')) \<longleftrightarrow> keeps br br'"
  by (simp add: ends_def)

lemma ends_step: "keeps br br' \<Longrightarrow> ends br' out \<Longrightarrow> ends br out"
  by (auto simp add: ends_def intro: keeps_trans split: option.splits)

lemma keeps_left: "keeps br br' \<Longrightarrow> left_bytes br' \<le> left_bytes br"
  by (simp add: keeps_def)

lemma keeps_outs:
  "br_read (\<lambda>s. ReadUint s n) br = (r, b) \<Longrightarrow> keeps br b"
  "br_read (read_full m) br = (u, b) \<Longrightarrow> keeps br b"
  "discard n br = (v, b) \<Longrightarrow> keeps br b"
  "parseBlock n simple br = (w, b) \<Longrightarrow> keeps br b"
  by (metis snd_conv keeps_br_read shrinks_ReadUint, metis snd_conv keeps_br_read shrinks_read_full,
      metis snd_conv keeps_discard, metis snd_conv keeps_parseBlock)

text \<open>The step of the totality proofs: the header of a child is consumed, and the rest of the loop body keeps.\<close>

lemma child_left:
  assumes "child_header end br = (Inr h, br1)" and "left_bytes br < Suc fuel" and "keeps br1 br2"
  shows "left_bytes br2 < fuel"
  using child_header_consumes [OF assms(1)] keeps_left [OF assms(3)] assms(2) by auto

lemma loop_step:
  assumes q: "child_header end br = (q, br1)" and fuel: "left_bytes br < Suc fuel"
    and IH: "\<And>br2. left_bytes br2 < fuel \<Longrightarrow> ends br2 (loop br2)"
  shows "keeps br br1" and "q = Inr h \<Longrightarrow> keeps br1 br2 \<Longrightarrow> ends br (loop br2)"
proof -
  show k: "keeps br br1" using child_header_consumes [OF q] by simp
  show "ends br (loop br2)" if "q = Inr h" "keeps br1 br2"
    using ends_step [OF keeps_trans [OF k that(2)] IH] child_left [OF _ fuel that(2)] q that(1) by blast
qed

text \<open>Rules that take a loop body apart.\<close>

lemma ends_if: "(c \<Longrightarrow> ends br x) \<Longrightarrow> (\<not> c \<Longrightarrow> ends br y) \<Longrightarrow> ends br (if c then x else y)"
  by simp

lemma ends_sum:
  "(\<And>e. ends br (f e)) \<Longrightarrow> (\<And>x. s = Inr x \<Longrightarrow> ends br (g x)) \<Longrightarrow> ends br (case s of Inl e \<Rightarrow> f e | Inr x \<Rightarrow> g x)"
  by (cases s) simp_all

lemma ends_pair:
  "keeps c (snd p) \<Longrightarrow> (\<And>r b. keeps c b \<Longrightarrow> ends br (g r b)) \<Longrightarrow> ends br (case p of (r, b) \<Rightarrow> g r b)"
  by (cases p) simp

lemma ends_option:
  assumes "ends c out" and "\<And>r b. keeps c b \<Longrightarrow> ends br (g (r, b))"
  shows "ends br (case out of None \<Rightarrow> None | Some p \<Rightarrow> g p)"
proof (cases out)
  case (Some p)
  with assms show ?thesis by (cases p) simp
qed (use assms in \<open>simp add: ends_def\<close>)

lemma more_loop_ends: "left_bytes br < fuel \<Longrightarrow> ends br (more_loop fuel moreEnd mr held br)"
proof (induction fuel arbitrary: mr held br)
  case (Suc fuel)
  obtain q br1 where q: "child_header moreEnd br = (q, br1)" by fastforce
  note step = loop_step [OF q Suc.prems, of "more_loop fuel moreEnd mr' held'" for mr' held', OF Suc.IH]
  show ?case
    unfolding more_loop.simps Let_def q prod.case
    by (intro ends_if ends_sum ends_pair [where c = br1] keeps_basic)
       (simp_all add: step keeps_refl keeps_trans [OF step(1)])
qed simp

lemma additions_loop_ends: "left_bytes br < fuel \<Longrightarrow> ends br (additions_loop fuel end out held br)"
proof (induction fuel arbitrary: out held br)
  case (Suc fuel)
  obtain q br1 where q: "child_header end br = (q, br1)" by fastforce
  note step = loop_step [OF q Suc.prems, of "additions_loop fuel end out' held'" for out' held', OF Suc.IH]
  have m: "ends br1 (more_loop fuel e mr held br1)" if "q = Inr h" for e mr h
    using more_loop_ends child_left [OF _ Suc.prems keeps_refl] q that by blast
  show ?case
    unfolding additions_loop.simps Let_def q prod.case
    by (intro ends_if ends_sum ends_pair [where c = br1] keeps_basic ends_option [OF m])
       (simp_all add: step keeps_refl keeps_trans [OF step(1)] split: sum.split prod.split)
qed simp

lemma parseBlockAdditions_ends: "left_bytes br < fuel \<Longrightarrow> ends br (parseBlockAdditions fuel sz br)"
  by (simp add: parseBlockAdditions_def additions_loop_ends)

lemma group_loop_ends: "left_bytes br < fuel \<Longrightarrow> ends br (group_loop fuel end g br)"
proof (induction fuel arbitrary: g br)
  case (Suc fuel)
  obtain q br1 where q: "child_header end br = (q, br1)" by fastforce
  note step = loop_step [OF q Suc.prems, of "group_loop fuel end g'" for g', OF Suc.IH]
  have m: "ends br1 (parseBlockAdditions fuel n br1)" if "q = Inr h" for n h
    using parseBlockAdditions_ends child_left [OF _ Suc.prems keeps_refl] q that by blast
  have filtered: "ends br (Some (case discard n b of (Inl d, b) \<Rightarrow> (Inl d, b) | (Inr _, b) \<Rightarrow> (Inl e, b)))"
    if "keeps br1 b" for n b e
    using keeps_trans [OF step(1) keeps_trans [OF that keeps_discard [of b n]]]
    by (cases "discard n b"; cases "fst (discard n b)") simp_all
  show ?case
    unfolding group_loop.simps Let_def q prod.case
    by (intro ends_if ends_sum ends_pair [where c = br1] keeps_basic ends_option [OF m] keeps_parseBlock filtered)
       (simp_all add: step keeps_refl keeps_trans [OF step(1)] split: sum.split)
qed simp

lemma keeps_group_finish: "keeps br (snd (group_finish g br))"
  by (auto simp add: group_finish_def Let_def intro!: keeps_basic split: prod.splits)

lemma parseBlockGroup_ends:
  assumes "left_bytes br < fuel"
  shows "ends br (parseBlockGroup fuel sz br)"
proof -
  have "ends br (group_loop fuel (tell br + sz) group_init br)" using assms by (rule group_loop_ends)
  then obtain r b where r: "group_loop fuel (tell br + sz) group_init br = Some (r, b)" "keeps br b"
    by (auto simp add: ends_def split: option.splits)
  show ?thesis
  proof (cases r)
    case (Inr g)
    obtain x c where x: "group_finish g b = (x, c)" by fastforce
    then have "keeps br c" using keeps_trans [OF r(2) keeps_group_finish [of b g]] by simp
    with r x Inr show ?thesis by (simp add: parseBlockGroup_def)
  qed (use r in \<open>simp add: parseBlockGroup_def\<close>)
qed


lemma header_read_consumes:
  assumes "br_read ReadElementHeader br = (r, br')"
  shows "keeps br br'" and "r = Inr x \<Longrightarrow> left_bytes br' + 2 \<le> left_bytes br"
proof -
  obtain q s where q: "ReadElementHeader (br_src br) = (q, s)" by fastforce
  show "keeps br br'" "r = Inr x \<Longrightarrow> left_bytes br' + 2 \<le> left_bytes br"
    using assms ReadElementHeader_consumes [OF q] q
    by (auto simp add: br_read_def keeps_def left_bytes_def)
qed

lemma header_step:
  assumes q: "br_read ReadElementHeader br = (q, br1)" and fuel: "left_bytes br < Suc fuel"
    and IH: "\<And>br2. left_bytes br2 < fuel \<Longrightarrow> ends br2 (loop br2)"
  shows "keeps br br1" and "q = Inr x \<Longrightarrow> keeps br1 br2 \<Longrightarrow> ends br (loop br2)"
proof -
  show k: "keeps br br1" using header_read_consumes(1) [OF q] .
  show "ends br (loop br2)" if "q = Inr x" "keeps br1 br2"
    using ends_step [OF keeps_trans [OF k that(2)] IH] header_read_consumes(2) [OF q that(1)] keeps_left [OF that(2)] fuel
    by simp
qed

lemma track_entry_loop_ends: "left_bytes br < fuel \<Longrightarrow> ends br (track_entry_loop fuel teEnd num durNs br)"
proof (induction fuel arbitrary: num durNs br)
  case (Suc fuel)
  obtain q br1 where q: "br_read ReadElementHeader br = (q, br1)" by fastforce
  note step = header_step [OF q Suc.prems, of "track_entry_loop fuel teEnd n d" for n d, OF Suc.IH]
  show ?case
  proof (cases q)
    case (Inr x)
    note step' = step(2) [OF _ Inr]
    obtain eh n where x: "x = (eh, n)" by fastforce
    show ?thesis
      unfolding track_entry_loop.simps q prod.case Inr sum.case x
      by (intro ends_if ends_sum ends_pair [where c = br1] keeps_basic)
         (simp_all add: step(1) step' keeps_refl keeps_trans [OF step(1)])
  qed (use q in \<open>simp add: step(1) keeps_refl\<close>)
qed simp

lemma keeps_learn_dur: "keeps br (learn_dur l n d br)"
  by (simp add: learn_dur_def keeps_basic)

lemma tracks_loop_ends: "left_bytes br < fuel \<Longrightarrow> ends br (tracks_loop fuel end l declared br)"
proof (induction fuel arbitrary: declared br)
  case (Suc fuel)
  obtain q br1 where q: "br_read ReadElementHeader br = (q, br1)" by fastforce
  note step = header_step [OF q Suc.prems, of "tracks_loop fuel end l d" for d, OF Suc.IH]
  show ?case
  proof (cases q)
    case (Inr x)
    note step' = step(2) [OF _ Inr]
    have m: "ends br1 (track_entry_loop fuel e n d br1)" for e n d
      using track_entry_loop_ends header_read_consumes(2) [OF q Inr] Suc.prems by simp
    have after: "ends br (tracks_loop fuel end l d' (learn_dur l n d b))" if "keeps br1 b" for b n d d'
      by (rule step', assumption, rule keeps_trans [OF that keeps_learn_dur])
    obtain eh n where x: "x = (eh, n)" by fastforce
    show ?thesis
      unfolding tracks_loop.simps q prod.case Inr sum.case x
      by (intro ends_if ends_sum ends_pair [where c = br1] ends_option [OF m] keeps_basic)
         (simp_all add: step(1) step' after keeps_refl keeps_trans [OF step(1)] split: prod.split scan.split)
  qed (use q in \<open>simp add: step(1) keeps_refl\<close>)
qed simp

lemma scanTracksDurations_ends:
  assumes "left_bytes br < fuel"
  shows "ends br (scanTracksDurations fuel sz br)"
proof -
  have e: "ends br (tracks_loop fuel (tell br + sz) (trackDurNs br = None) [] br)" using assms by (rule tracks_loop_ends)
  have d: "ends br (Some (discard n b))" if "keeps br b" for n b
    using keeps_trans [OF that keeps_discard [of b n]] by (cases "discard n b") simp
  show ?thesis
    unfolding scanTracksDurations_def Let_def
    by (rule ends_option [OF e]) (simp add: d keeps_basic split: scan.split)
qed


text \<open>What every turn without a result makes smaller.\<close>

definition walk_measure :: "BlockReader \<Rightarrow> nat" where
  "walk_measure br = 2 * left_bytes br + (if peeked br = None then 0 else 2) + (if inCluster br then 1 else 0)"

lemma keeps_measure: "keeps br br' \<Longrightarrow> walk_measure br' \<le> walk_measure br"
  by (simp add: keeps_def walk_measure_def)

lemma next_header_consumes:
  assumes "next_header br = (r, br')"
  shows "left_bytes br' \<le> left_bytes br \<and> inCluster br' = inCluster br" and
    "r = Inr x \<Longrightarrow> peeked br' = None \<and> walk_measure br' + 2 \<le> walk_measure br"
proof -
  let ?b = "br\<lparr>elemStart := tell br, elemID := 0\<rparr>"
  obtain q b1 where q: "br_read ReadElementHeader ?b = (q, b1)" by fastforce
  have k: "keeps br b1" using header_read_consumes(1) [OF q] by (simp add: keeps_def left_bytes_def)
  have l: "q = Inr y \<Longrightarrow> left_bytes b1 + 2 \<le> left_bytes br" for y
    using header_read_consumes(2) [OF q] by (simp add: left_bytes_def)
  have "(left_bytes br' \<le> left_bytes br \<and> inCluster br' = inCluster br) \<and>
        (r = Inr x \<longrightarrow> peeked br' = None \<and> walk_measure br' + 2 \<le> walk_measure br)"
  proof (cases "peeked br")
    case None
    then show ?thesis
      using assms q k l by (cases q) (auto simp add: next_header_def Let_def keeps_def walk_measure_def)
  next
    case (Some p)
    then show ?thesis
      using assms by (cases p) (auto simp add: next_header_def walk_measure_def left_bytes_def)
  qed
  then show "left_bytes br' \<le> left_bytes br \<and> inCluster br' = inCluster br"
    "r = Inr x \<Longrightarrow> peeked br' = None \<and> walk_measure br' + 2 \<le> walk_measure br" by simp_all
qed

text \<open>A turn that ends, and one without a result makes progress.\<close>

definition turns :: "BlockReader \<Rightarrow> turn \<Rightarrow> bool" where
  "turns br out \<longleftrightarrow>
     (case out of None \<Rightarrow> False
      | Some (r, br') \<Rightarrow> left_bytes br' \<le> left_bytes br \<and> (r = None \<longrightarrow> walk_measure br' < walk_measure br))"

lemma turns_Some:
  "turns br (Some (r, br')) \<longleftrightarrow>
   left_bytes br' \<le> left_bytes br \<and> (r = None \<longrightarrow> walk_measure br' < walk_measure br)"
  by (simp add: turns_def)

lemma turns_block:
  assumes "left_bytes b \<le> left_bytes br" "walk_measure b < walk_measure br" "keeps b (snd x)"
  shows "turns br (block_out x)"
  using assms keeps_measure [OF assms(3)] keeps_left [OF assms(3)]
  by (simp_all add: block_out_def turns_Some)

lemma turns_skip:
  assumes "left_bytes b \<le> left_bytes br" "walk_measure b < walk_measure br" "keeps b (snd x)"
  shows "turns br (skip_out x)"
  using assms keeps_measure [OF assms(3)] keeps_left [OF assms(3)]
  by (simp add: skip_out_def turns_Some split: sum.split)

lemma turns_child:
  assumes b: "left_bytes b \<le> left_bytes br" "walk_measure b < walk_measure br" and fuel: "left_bytes b < fuel"
  shows "turns br (cluster_child fuel h hdrStart b)"
proof -
  have start: "keeps b (b\<lparr>blockStart := hdrStart\<rparr>)" by (simp add: keeps_def left_bytes_def)
  note k = keeps_trans [OF start]
  obtain r c where ts: "br_read (\<lambda>s. ReadUint s (hdr_Size h)) b = (r, c)" by fastforce
  have kc: "left_bytes c \<le> left_bytes b \<and> walk_measure c \<le> walk_measure b"
    using keeps_outs(1) [OF ts] keeps_left keeps_measure by blast
  have upd: "left_bytes (c\<lparr>clusterTS := i, awaitLimit := w\<rparr>) = left_bytes c"
    "walk_measure (c\<lparr>clusterTS := i, awaitLimit := w\<rparr>) = walk_measure c"
    "left_bytes (c\<lparr>clusterTS := i\<rparr>) = left_bytes c" "walk_measure (c\<lparr>clusterTS := i\<rparr>) = walk_measure c" for i w
    by (simp_all add: left_bytes_def walk_measure_def)
  have t: "turns br (timestamp_turn h b)"
    using b kc by (simp add: timestamp_turn_def ts Let_def turns_Some upd split: sum.split)
  have "ends (b\<lparr>blockStart := hdrStart\<rparr>) (parseBlockGroup fuel (hdr_Size h) (b\<lparr>blockStart := hdrStart\<rparr>))"
    using fuel by (intro parseBlockGroup_ends) (simp add: left_bytes_def)
  then obtain x d where g: "parseBlockGroup fuel (hdr_Size h) (b\<lparr>blockStart := hdrStart\<rparr>) = Some (x, d)"
    "keeps b (snd (x, d))"
    using k by (auto simp add: ends_def split: option.splits)
  show ?thesis
    using t turns_block [OF b k [OF keeps_parseBlock]] turns_block [OF b g(2)] turns_skip [OF b keeps_discard] b g(1)
    by (simp add: cluster_child_def turns_Some)
qed


lemma header_fuel:
  assumes "next_header br = (Inr x, b)" and "walk_measure br \<le> fuel"
  shows "left_bytes b < fuel"
  using next_header_consumes(2) [OF assms(1) refl] assms(2) by (simp add: walk_measure_def split: if_splits)

lemma cluster_turn_turns:
  assumes c: "inCluster br" and fuel: "walk_measure br \<le> fuel"
  shows "turns br (cluster_turn fuel br)"
proof -
  obtain q b where q: "next_header br = (q, b)" by fastforce
  have b: "left_bytes b \<le> left_bytes br" "inCluster b" using next_header_consumes(1) [OF q] c by simp_all
  show ?thesis
  proof (cases q)
    case (Inl e)
    then show ?thesis using b c by (simp add: cluster_turn_def q turns_Some walk_measure_def left_bytes_def)
  next
    case (Inr x)
    obtain h st where x: "x = (h, st)" by fastforce
    let ?b = "b\<lparr>elemID := hdr_ID h\<rparr>"
    have m: "peeked b = None" "walk_measure b + 2 \<le> walk_measure br" "left_bytes b < fuel"
      using next_header_consumes(2) [OF q Inr] header_fuel fuel q Inr by simp_all
    have "turns br (cluster_child fuel h st ?b)"
      using b m by (intro turns_child) (simp_all add: left_bytes_def walk_measure_def)
    then show ?thesis
      using b m c by (simp add: cluster_turn_def q Inr x turns_Some walk_measure_def left_bytes_def Let_def split: sum.split)
  qed
qed

lemma segment_turn_turns:
  assumes c: "\<not> inCluster br" and fuel: "walk_measure br \<le> fuel"
  shows "turns br (segment_turn fuel br)"
proof -
  obtain q b where q: "next_header br = (q, b)" by fastforce
  have b: "left_bytes b \<le> left_bytes br" "\<not> inCluster b" using next_header_consumes(1) [OF q] c by simp_all
  show ?thesis
  proof (cases q)
    case (Inl e)
    then show ?thesis using b c by (simp add: segment_turn_def q turns_Some)
  next
    case (Inr x)
    obtain h st where x: "x = (h, st)" by fastforce
    have m: "peeked b = None" "walk_measure b + 2 \<le> walk_measure br" "left_bytes b < fuel"
      using next_header_consumes(2) [OF q Inr] header_fuel fuel q Inr by simp_all
    define b2 where "b2 = b\<lparr>elemID := hdr_ID h\<rparr>"
    have b': "left_bytes b2 \<le> left_bytes br" "walk_measure b2 < walk_measure br" "left_bytes b2 < fuel"
      using b m by (simp_all add: b2_def left_bytes_def walk_measure_def)
    have enter: "left_bytes (b2\<lparr>suspected := u, clusterStart := i, clusterCount := k, inCluster := True, clusterEnd := e\<rparr>)
        \<le> left_bytes br"
      "walk_measure (b2\<lparr>suspected := u, clusterStart := i, clusterCount := k, inCluster := True, clusterEnd := e\<rparr>)
        < walk_measure br" for u i k e
      using b m by (simp_all add: b2_def walk_measure_def left_bytes_def)
    have "ends b2 (scanTracksDurations fuel (hdr_Size h) b2)" using b'(3) by (rule scanTracksDurations_ends)
    then obtain y d where g: "scanTracksDurations fuel (hdr_Size h) b2 = Some (y, d)" "keeps b2 (snd (y, d))"
      by (auto simp add: ends_def split: option.splits)
    show ?thesis
      unfolding segment_turn_def Let_def q Inr x prod.case sum.case b2_def [symmetric]
      using turns_skip [OF b'(1,2) g(2)] turns_skip [OF b'(1,2) keeps_discard] g(1) b b'
      by (simp add: turns_Some enter)
  qed
qed

lemma next_loop_total:
  "walk_measure br < fuel \<Longrightarrow> \<exists>r br'. next_loop fuel br = Some (r, br') \<and> left_bytes br' \<le> left_bytes br"
proof (induction fuel arbitrary: br)
  case (Suc fuel)
  let ?t = "if inCluster br then cluster_turn fuel br else segment_turn fuel br"
  have "turns br ?t" using cluster_turn_turns segment_turn_turns Suc.prems by simp
  then obtain o1 b where t: "?t = Some (o1, b)" "left_bytes b \<le> left_bytes br"
    "o1 = None \<Longrightarrow> walk_measure b < walk_measure br"
    by (auto simp add: turns_def split: option.splits)
  show ?case
  proof (cases o1)
    case None
    then obtain r c where "next_loop fuel b = Some (r, c)" "left_bytes c \<le> left_bytes b"
      using Suc.IH [of b] t(3) Suc.prems by auto
    then show ?thesis using t None by auto
  qed (use t in auto)
qed simp

lemma next_block_total:
  assumes "2 * left_bytes br + 3 < fuel"
  shows "\<exists>r br'. next_block fuel br = Some (r, br') \<and> left_bytes br' \<le> left_bytes br"
proof -
  have "walk_measure (br\<lparr>awaitLimit := False\<rparr>) < fuel" using assms by (simp add: walk_measure_def left_bytes_def)
  then show ?thesis
    using next_loop_total [of "br\<lparr>awaitLimit := False\<rparr>" fuel]
    by (auto simp add: next_block_def left_bytes_def split: list.split)
qed

section \<open>Property\<close>



end
