(* ===== verification/BlockRoundtrip.thy ===== *)
theory BlockRoundtrip
  imports BlockWalk
begin

text \<open>
  What the writer of \<^verbatim>\<open>mkv/writer/writer.go\<close> writes, the block walk of \<^verbatim>\<open>mkv/reader/blocks.go\<close> reads
  back: blocks, laces, block groups and whole clusters.  The facts on single reads are stated on
  \<open>at br bs\<close>, the reader \<open>br\<close> with the bytes \<open>bs\<close> before it.
\<close>

section \<open>Reads at known bytes\<close>

definition at :: "BlockReader \<Rightarrow> bytes \<Rightarrow> BlockReader" where
  "at br bs = br\<lparr>br_src := (br_src br)\<lparr>pending := bs\<rparr>\<rparr>"

named_theorems at_simps \<open>reads of a reader whose next bytes are known\<close>

lemma at_fields [at_simps]:
  "br_src (at br bs) = (br_src br)\<lparr>pending := bs\<rparr>" "br_end (at br bs) = br_end br" "segEnd (at br bs) = segEnd br"
  "clusterEnd (at br bs) = clusterEnd br" "inCluster (at br bs) = inCluster br" "clusterTS (at br bs) = clusterTS br"
  "timecodeScale (at br bs) = timecodeScale br" "br_pending (at br bs) = br_pending br"
  "br_keep (at br bs) = br_keep br" "br_known (at br bs) = br_known br" "headerOnly (at br bs) = headerOnly br"
  "headerOnlyFor (at br bs) = headerOnlyFor br" "trackDurNs (at br bs) = trackDurNs br" "peeked (at br bs) = peeked br"
  "stopMs (at br bs) = stopMs br" "awaitLimit (at br bs) = awaitLimit br" "clusterStart (at br bs) = clusterStart br"
  "blockStart (at br bs) = blockStart br" "clusterCount (at br bs) = clusterCount br" "elemStart (at br bs) = elemStart br"
  "elemID (at br bs) = elemID br" "suspected (at br bs) = suspected br" "suspectAt (at br bs) = suspectAt br"
  by (simp_all add: at_def)

lemma at_updates [at_simps]:
  "at (at br xs) ys = at br ys"
  "(at br bs)\<lparr>br_pending := p\<rparr> = at (br\<lparr>br_pending := p\<rparr>) bs"
  "(at br bs)\<lparr>elemStart := i\<rparr> = at (br\<lparr>elemStart := i\<rparr>) bs"
  "(at br bs)\<lparr>elemID := e\<rparr> = at (br\<lparr>elemID := e\<rparr>) bs"
  "(at br bs)\<lparr>blockStart := i\<rparr> = at (br\<lparr>blockStart := i\<rparr>) bs"
  "(at br bs)\<lparr>clusterTS := i\<rparr> = at (br\<lparr>clusterTS := i\<rparr>) bs"
  "(at br bs)\<lparr>clusterStart := i\<rparr> = at (br\<lparr>clusterStart := i\<rparr>) bs"
  "(at br bs)\<lparr>clusterEnd := i\<rparr> = at (br\<lparr>clusterEnd := i\<rparr>) bs"
  "(at br bs)\<lparr>clusterCount := k\<rparr> = at (br\<lparr>clusterCount := k\<rparr>) bs"
  "(at br bs)\<lparr>inCluster := b\<rparr> = at (br\<lparr>inCluster := b\<rparr>) bs"
  "(at br bs)\<lparr>suspected := b\<rparr> = at (br\<lparr>suspected := b\<rparr>) bs"
  "(at br bs)\<lparr>peeked := q\<rparr> = at (br\<lparr>peeked := q\<rparr>) bs"
  "(at br bs)\<lparr>awaitLimit := b\<rparr> = at (br\<lparr>awaitLimit := b\<rparr>) bs"
  by (simp_all add: at_def)

lemma at_self: "pending (br_src br) = bs \<Longrightarrow> at br bs = br"
  by (simp add: at_def)

lemma br_pending_id: "br_pending br = p \<Longrightarrow> br\<lparr>br_pending := p\<rparr> = br"
  by (cases br) simp

lemma tell_at [at_simps]: "tell (at br bs) = br_end br - int (length bs)"
  by (simp add: tell_def at_simps)

lemma track_dur_at [at_simps]: "track_dur (at br bs) = track_dur br"
  by (rule ext) (simp add: track_dur_def at_simps)

lemma skipsPayload_at [at_simps]: "skipsPayload (at br bs) t = skipsPayload br t"
  by (simp add: skipsPayload_def at_simps)

lemma WriteDataSize_ok: "0 \<le> sz \<Longrightarrow> \<exists>d. WriteDataSize sz = Inr d \<and> length d = DataSizeLen sz"
  using WriteDataSizeWidth_enc [of sz "DataSizeLen sz"] DataSizeLen_bounds [of sz]
  by (auto simp add: WriteDataSize_def)

lemma WriteElementHeader_ok: "0 \<le> sz \<Longrightarrow> \<exists>h. WriteElementHeader eid sz = Inr h \<and> length h = ElementHeaderLen eid sz"
  using WriteDataSize_ok [of sz] by (auto simp add: WriteElementHeader_def WriteElementID_enc ElementHeaderLen_def)

lemma at_header:
  assumes "WriteElementHeader eid sz = Inr h" "valid_ID eid" "0 \<le> sz" "sz < 2 ^ 56 - 1"
  shows "br_read ReadElementHeader (at br (h @ rest))
           = (Inr (\<lparr>hdr_ID = eid, hdr_Size = sz\<rparr>, ElementHeaderLen eid sz), at br rest)"
  using ReadElementHeader_enc [OF assms(2) _ assms(4,1), of "(br_src br)\<lparr>pending := h @ rest\<rparr>" rest] assms(3)
  by (simp add: br_read_def at_def)

lemma at_data_size:
  assumes "WriteDataSize sz = Inr d" "0 \<le> sz" "sz < 2 ^ 56 - 1"
  shows "br_read ReadDataSize (at br (d @ rest)) = (Inr (sz, length d), at br rest)"
proof -
  let ?w = "DataSizeLen sz"
  have w: "1 \<le> ?w" "?w \<le> 8" using DataSizeLen_bounds [of sz] by simp_all
  have d: "d = be_enc ?w (word_of_int sz OR push_bit (?w * 7) 1 :: u64)"
    using assms WriteDataSizeWidth_enc [of sz ?w] w by (simp add: WriteDataSize_def)
  have "sz < 2 ^ (7 * ?w) - 1" using DataSizeLen_least [of sz ?w] assms w by simp
  then show ?thesis
    using ReadDataSize_enc [OF w assms(2), of "(br_src br)\<lparr>pending := d @ rest\<rparr>" rest] d
    by (simp add: br_read_def at_def)
qed

lemma at_byte [at_simps]: "br_read read_byte (at br (b # rest)) = (Inr b, at br rest)"
  by (simp add: br_read_def at_def)

lemma at_full: "length xs = n \<Longrightarrow> br_read (read_full n) (at br (xs @ rest)) = (Inr xs, at br rest)"
  by (simp add: br_read_def at_def read_full_append)

lemma at_uint:
  "n \<le> 8 \<Longrightarrow> br_read (\<lambda>s. ReadUint s (int n)) (at br (be_enc n v @ rest)) = (Inr (take_bit (8 * n) v), at br rest)"
  using ReadUint_enc [of n "(br_src br)\<lparr>pending := be_enc n v @ rest\<rparr>" v rest]
  by (simp add: br_read_def at_def)

lemma at_discard: "int (length xs) = n \<Longrightarrow> discard n (at br (xs @ rest)) = (Inr (), at br rest)"
  by (auto simp add: discard_def at_def Let_def)

lemma at_two: "br_read (\<lambda>s. readBE s 2) (at br (be_enc 2 (w :: 16 word) @ rest)) = (Inr (ucast w), at br rest)"
proof -
  have "be_acc 0 (be_enc 2 w) = (ucast w :: u64)"
    by (rule bit_eqI) (auto simp add: numeral_2_eq_2 bit_simps dest: bit_imp_le_length)
  then show ?thesis by (simp add: br_read_def at_def readBE_read_full read_full_append)
qed

section \<open>A block's body\<close>

text \<open>\<open>block_head tn relTC flags\<close>: track number, relative timecode and flags.\<close>

definition block_head :: "u64 \<Rightarrow> 16 word \<Rightarrow> byte \<Rightarrow> bytes" where
  "block_head tn relTC flags = projr (WriteDataSize (sint tn)) @ be_enc 2 relTC @ [flags]"

definition accepts :: "BlockReader \<Rightarrow> u64 \<Rightarrow> bool" where
  "accepts br tn \<longleftrightarrow> (case br_known br of None \<Rightarrow> True | Some known \<Rightarrow> known tn) \<and>
                    (case br_keep br of None \<Rightarrow> True | Some keep \<Rightarrow> keep tn)"

lemma length_block_head: "0 \<le> sint tn \<Longrightarrow> length (block_head tn relTC flags) = DataSizeLen (sint tn) + 3"
  using WriteDataSize_ok [of "sint tn"] by (auto simp add: block_head_def)

text \<open>The block that a parse of an unlaced body gives.\<close>

definition plain_block :: "u64 \<Rightarrow> int \<Rightarrow> bool \<Rightarrow> bytes option \<Rightarrow> int \<Rightarrow> int \<Rightarrow> Block" where
  "plain_block tn tc kf data n off = zero_block\<lparr>TrackNumber := tn, Timecode := tc, BlockTimecode := tc,
     Keyframe := kf, Data := (case data of None \<Rightarrow> [] | Some d \<Rightarrow> d), BlockSize := n, DataOffset := off\<rparr>"

lemma parseBlock_head:
  assumes "0 \<le> sint tn" "sint tn < 2 ^ 56 - 1" "accepts br tn" "int (length data) \<le> maxBlockSize"
  shows "parseBlock (int (length (block_head tn relTC flags) + length data)) simple
           (at br (block_head tn relTC flags @ data @ rest))
         = (let kf = simple \<and> flags AND 0x80 \<noteq> 0;
                lacing = unat (drop_bit 1 flags AND 0x03);
                n = int (length data)
            in if lacing = lacingNone then parse_unlaced tn (sint relTC) kf n (at br (data @ rest))
               else parse_laced tn (sint relTC) kf lacing n (at br (data @ rest)))"
proof -
  obtain d where d: "WriteDataSize (sint tn) = Inr d" "length d = DataSizeLen (sint tn)"
    using WriteDataSize_ok [OF assms(1)] by auto
  have h: "block_head tn relTC flags = d @ be_enc 2 relTC @ [flags]" by (simp add: block_head_def d)
  have w: "(word_of_int (sint tn) :: u64) = tn" by simp
  have u: "(ucast (ucast relTC :: u64) :: 16 word) = relTC"
    by (rule bit_eqI) (auto simp add: bit_simps dest: bit_imp_le_length)
  show ?thesis
    using at_data_size [OF d(1) assms(1,2), of br "be_enc 2 relTC @ flags # data @ rest"]
      at_two [of br relTC "flags # data @ rest"] assms(3,4)
    by (cases "br_known br"; cases "br_keep br")
       (simp_all add: parseBlock_def h at_simps w u Let_def accepts_def)
qed

lemma parse_unlaced_at:
  assumes "safeTimecodeMs (wrap64 (clusterTS br + relTC)) (timecodeScale br) = Inr tc"
  shows "parse_unlaced tn relTC kf (int (length data)) (at br (data @ rest))
         = (Inr (plain_block tn tc kf (if skipsPayload br tn then None else Some data) (int (length data))
                   (br_end br - int (length data + length rest))), at br rest)"
  using assms at_discard [OF refl, of data br rest] at_full [OF refl, of data br rest]
  by (simp add: parse_unlaced_def at_simps plain_block_def zero_block_def)


section \<open>Laces\<close>

lemma xiph_size_enc:
  "xiph_size (xiph_lace n @ rest) pos sz = (sz + int n, pos + length (xiph_lace n), rest)"
proof (induction n arbitrary: pos sz rule: xiph_lace.induct)
  case (1 n)
  show ?case
  proof (cases "n \<ge> 255")
    case True
    then show ?thesis using 1 [OF True, of "Suc pos" "sz + 255"] by (simp add: xiph_lace.simps [of n] of_nat_diff)
  next
    case False
    then have "uint (word_of_nat n :: byte) = int n" by (simp add: unsigned_of_nat take_bit_nat_eq_self)
    moreover from this have "(word_of_nat n :: byte) < 255" using False by (simp add: word_less_def)
    ultimately show ?thesis using False by (simp add: xiph_lace.simps [of n])
  qed
qed

lemma xiph_sizes_enc:
  "tot + int (sum_list ns) \<le> total64 \<Longrightarrow>
   xiph_sizes (length ns) (concat (map xiph_lace ns) @ rest) pos tot total64
     = Inr (map int ns, pos + length (concat (map xiph_lace ns)), tot + int (sum_list ns))"
  by (induction ns arbitrary: pos tot) (simp_all add: xiph_size_enc add.assoc)

lemma decode_xiph_enc:
  assumes "fs \<noteq> []" and "int (length raw) \<le> int64_max"
    and raw: "raw = concat (map (xiph_lace \<circ> length) (butlast fs)) @ concat fs"
  shows "decodeLacingSizes lacingXiph raw (length fs)
           = Inr (map (int \<circ> length) fs, length (concat (map (xiph_lace \<circ> length) (butlast fs))))"
proof -
  let ?b = "butlast fs" and ?l = "last fs"
  let ?ns = "map length ?b" and ?h = "concat (map (xiph_lace \<circ> length) ?b)"
  have fs: "fs = ?b @ [?l]" using assms(1) by simp
  have m: "map xiph_lace ?ns = map (xiph_lace \<circ> length) ?b" by simp
  have c: "length (concat fs) = sum_list ?ns + length ?l"
    by (subst fs) (simp add: length_concat)
  have raw': "raw = concat (map xiph_lace ?ns) @ concat fs" using raw by simp
  have len: "length raw = length ?h + sum_list ?ns + length ?l" using raw c by simp
  have "xiph_sizes (length ?ns) raw 0 0 (int (length raw)) = Inr (map int ?ns, length ?h, int (sum_list ?ns))"
    unfolding raw' using xiph_sizes_enc [of 0 ?ns "int (length raw)" "concat fs" 0] len raw' by simp
  moreover have "length ?ns = length fs - 1" by simp
  moreover have "map (int \<circ> length) fs = map int ?ns @ [int (length ?l)]" by (subst fs) simp
  ultimately show ?thesis
    using assms(2) len by (simp add: decodeLacingSizes_def decode_xiph_Inr)
qed

lemma decode_fixed_enc:
  assumes "fs \<noteq> []" and "int (length (concat fs)) \<le> int64_max" and "\<forall>f \<in> set fs. length f = n"
  shows "decodeLacingSizes lacingFixed (concat fs) (length fs) = Inr (map (int \<circ> length) fs, 0)"
proof -
  have len: "length (concat fs) = length fs * n"
    using assms(3) by (induction fs) simp_all
  have m: "map (int \<circ> length) fs = replicate (length fs) (int n)"
    using assms(3) by (induction fs) simp_all
  have p: "0 < int (length fs)" using assms(1) by simp
  show ?thesis
    using assms(2) p unfolding decodeLacingSizes_def decode_fixed_Inr m by (simp add: len)
qed

text \<open>The blocks that the frames \<open>fs\<close> of a lace are delivered as.\<close>

fun lace_blocks :: "u64 \<Rightarrow> int \<Rightarrow> int \<Rightarrow> bool \<Rightarrow> bool \<Rightarrow> int \<Rightarrow> nat \<Rightarrow> bytes list \<Rightarrow> Block list" where
  "lace_blocks tn tc durNs kf laced off i [] = []"
| "lace_blocks tn tc durNs kf laced off i (f # fs) =
     zero_block\<lparr>TrackNumber := tn,
        Timecode := (if durNs > 0 \<and> durNs \<le> maxLacedFrameDurNs
                     then wrap64 (tc + go_div (int i * durNs + 500000) 1000000) else tc),
        BlockTimecode := tc, Keyframe := kf, BlockSize := int (length f), Laced := laced,
        DataOffset := off, Data := f\<rparr>
     # lace_blocks tn tc durNs kf laced (off + int (length f)) (Suc i) fs"

lemma lace_frames_enc:
  assumes "framesLen = int (length pre + length (concat fs))" and "framesLen \<le> int64_max"
  shows "lace_frames tn tc durNs kf laced framesOff framesLen (Some (pre @ concat fs)) i (int (length pre))
           (map (int \<circ> length) fs)
         = Inr (lace_blocks tn tc durNs kf laced (framesOff + int (length pre)) i fs)"
  using assms
proof (induction fs arbitrary: pre i)
  case (Cons f fs)
  have e: "wrap64 (int (length pre) + int (length f)) = int (length pre) + int (length f)"
    using Cons.prems by (simp add: in_int64_def int64_min_def)
  have s: "slice (length pre) (length pre + length f) (pre @ f @ concat fs) = f" by (simp add: slice_def)
  have IH: "lace_frames tn tc durNs kf laced framesOff framesLen (Some ((pre @ f) @ concat fs)) (Suc i)
       (int (length (pre @ f))) (map (int \<circ> length) fs)
     = Inr (lace_blocks tn tc durNs kf laced (framesOff + int (length (pre @ f))) (Suc i) fs)"
    using Cons.prems by (intro Cons.IH) simp_all
  have b: "\<not> int (length pre) + int (length f) > framesLen" using Cons.prems by simp
  have n: "nat (int (length pre) + int (length f)) = length pre + length f" by simp
  show ?case
    using IH b s by (simp add: e n Let_def comp_def add.assoc)
qed simp


text \<open>The lacing the writer chooses for frames \<open>fs\<close>, and the lace header behind the frame count.\<close>

definition same_size :: "bytes list \<Rightarrow> bool" where
  "same_size fs \<longleftrightarrow> list_all (\<lambda>f. length f = length (hd fs)) fs"

definition lace_kind :: "bytes list \<Rightarrow> nat" where
  "lace_kind fs = (if same_size fs then lacingFixed else lacingXiph)"

definition lace_hdr :: "bytes list \<Rightarrow> bytes" where
  "lace_hdr fs = (if same_size fs then [] else concat (map (xiph_lace \<circ> length) (butlast fs)))"

definition lace_data :: "bytes list \<Rightarrow> bytes" where
  "lace_data fs = word_of_nat (length fs - 1) # lace_hdr fs @ concat fs"

lemma decode_lace:
  assumes "fs \<noteq> []" and "int (length (lace_hdr fs @ concat fs)) \<le> int64_max"
  shows "decodeLacingSizes (lace_kind fs) (lace_hdr fs @ concat fs) (length fs)
           = Inr (map (int \<circ> length) fs, length (lace_hdr fs))"
proof (cases "same_size fs")
  case True
  then have "\<forall>f \<in> set fs. length f = length (hd fs)" by (simp add: same_size_def list_all_iff)
  then show ?thesis
    using decode_fixed_enc [OF assms(1), of "length (hd fs)"] assms(2) True
    by (simp add: lace_kind_def lace_hdr_def)
next
  case False
  then show ?thesis
    using decode_xiph_enc [OF assms(1) _ refl] assms(2) by (simp add: lace_kind_def lace_hdr_def)
qed

lemma lace_blocks_length: "length (lace_blocks tn tc durNs kf laced off i fs) = length fs"
  by (induction fs arbitrary: off i) simp_all

lemma maxBlockSize_int64: "n \<le> maxBlockSize \<Longrightarrow> n \<le> int64_max"
  by (simp add: maxBlockSize_def int64_max_def)

lemma parse_laced_at:
  assumes fs: "fs \<noteq> []" "length fs \<le> 256" and sz: "int (length (lace_data fs)) \<le> maxBlockSize"
    and skip: "\<not> skipsPayload br tn"
    and tc: "safeTimecodeMs (wrap64 (clusterTS br + relTC)) (timecodeScale br) = Inr tc"
    and blocks: "lace_blocks tn tc (track_dur br tn) kf (length fs > 1)
                   (br_end br - int (length (concat fs) + length rest)) 0 fs = b # bs"
  shows "parse_laced tn relTC kf (lace_kind fs) (int (length (lace_data fs))) (at br (lace_data fs @ rest))
           = (Inr b, at (br\<lparr>br_pending := bs\<rparr>) rest)"
proof -
  let ?h = "lace_hdr fs" and ?d = "lace_data fs" and ?c = "word_of_nat (length fs - 1) :: byte"
  have cnt: "unat ?c + 1 = length fs"
  proof -
    have "length fs - 1 < 2 ^ 8" "1 \<le> length fs" using fs by (simp_all add: Suc_le_eq)
    moreover have "unat ?c = take_bit 8 (length fs - 1)" by (simp only: unsigned_of_nat) simp
    ultimately show ?thesis by (simp add: take_bit_nat_eq_self)
  qed
  have cnt': "Suc (unat (word_of_nat (length fs - Suc 0) :: byte)) = length fs"
    using cnt unfolding One_nat_def by (metis add_Suc_right add_0_right)
  have len: "length ?d = Suc (length ?h + length (concat fs))" by (simp add: lace_data_def)
  have dec: "decodeLacingSizes (lace_kind fs) (?h @ concat fs) (length fs) = Inr (map (int \<circ> length) fs, length ?h)"
    using fs sz len by (intro decode_lace maxBlockSize_int64) simp_all
  have read: "br_read (read_full (length ?d)) (at br (?d @ rest)) = (Inr ?d, at br rest)"
    by (rule at_full) simp
  have lace: "parse_lace tn (lace_kind fs) (int (length ?d)) (at br (?d @ rest))
      = (Inr (length fs, map (int \<circ> length) fs, length ?h, Some (concat fs)), at br rest)"
    using read skip dec
    by (simp add: parse_lace_def at_simps Let_def) (simp add: lace_data_def cnt')
  have frames: "lace_frames tn tc (track_dur br tn) kf (length fs > 1)
       (br_end br - int (length ?d + length rest) + 1 + int (length ?h)) (int (length ?d) - 1 - int (length ?h))
       (Some (concat fs)) 0 0 (map (int \<circ> length) fs) = Inr (b # bs)"
    using lace_frames_enc [of "int (length ?d) - 1 - int (length ?h)" "[]" fs tn tc "track_dur br tn" kf
        "length fs > 1" "br_end br - int (length ?d + length rest) + 1 + int (length ?h)" 0]
      maxBlockSize_int64 [OF sz] blocks len
    by (simp add: algebra_simps)
  show ?thesis
    using frames tc by (simp add: parse_laced_def lace at_simps Let_def)
qed

section \<open>Blocks as written\<close>

lemma be_enc_two: "be_enc 2 (w :: 16 word) = [ucast (drop_bit 8 w), ucast w]"
  by (simp add: numeral_2_eq_2)

lemma valid_block_IDs:
  "valid_ID IDSimpleBlock" "valid_ID IDBlockGroup" "valid_ID IDBlock" "valid_ID IDBlockDuration"
  "valid_ID IDReferenceBlock" "valid_ID IDDiscardPadding" "valid_ID IDBlockAdditions" "valid_ID IDBlockMore"
  "valid_ID IDBlockAddID" "valid_ID IDBlockAdditional" "valid_ID IDTimestamp" "valid_ID IDCluster" "valid_ID IDVoid"
  by (simp_all add: valid_ID_def vint_ok_def ElementIDLen_def mkv_id_defs)

lemma seq_w_Inr: "seq_w (map Inr bss) = Inr (concat bss)"
  by (induction bss) simp_all

lemma seq_w_append: "seq_w (xs @ ys) = bind_r (seq_w xs) (\<lambda>a. bind_r (seq_w ys) (\<lambda>b. Inr (a @ b)))"
proof (induction xs)
  case Nil
  then show ?case by (cases "seq_w ys") simp_all
next
  case (Cons x xs)
  then show ?case by (cases x; cases "seq_w xs"; cases "seq_w ys") simp_all
qed

lemma WriteSimpleBlock_bytes:
  assumes "0 \<le> sint tn"
  obtains h where "WriteElementHeader IDSimpleBlock (int (length (block_head tn relTC (if kf then 0x80 else 0)) + length data)) = Inr h"
    "WriteSimpleBlock tn relTC kf data = Inr (h @ block_head tn relTC (if kf then 0x80 else 0) @ data)"
proof -
  obtain d where d: "WriteDataSize (sint tn) = Inr d" "length d = DataSizeLen (sint tn)"
    using WriteDataSize_ok [OF assms] by auto
  obtain h where h: "WriteElementHeader IDSimpleBlock (int (length (block_head tn relTC (if kf then 0x80 else 0)) + length data)) = Inr h"
    using WriteElementHeader_ok [of "int (length (block_head tn relTC (if kf then 0x80 else 0)) + length data)"] by auto
  then have "WriteElementHeader IDSimpleBlock (int (DataSizeLen (sint tn) + 2 + 1 + length data)) = Inr h"
    using length_block_head [OF assms] by (simp add: add.commute add.left_commute)
  then show thesis using that [OF h] d by (simp add: WriteSimpleBlock_def Let_def block_head_def be_enc_two)
qed

lemma writeLacedSimpleBlock_bytes:
  fixes kf :: bool and tn :: u64
  assumes "0 \<le> sint tn" and "frames \<noteq> []"
  defines "fs \<equiv> map Data frames"
  defines "flags \<equiv> (if same_size fs then 0x04 else 0x02) OR (if kf then 0x80 else 0)"
  obtains h where "WriteElementHeader IDSimpleBlock (int (length (block_head tn relTC flags) + length (lace_data fs))) = Inr h"
    "writeLacedSimpleBlock tn relTC kf frames = Inr (h @ block_head tn relTC flags @ lace_data fs)"
proof -
  obtain d where d: "WriteDataSize (sint tn) = Inr d" "length d = DataSizeLen (sint tn)"
    using WriteDataSize_ok [OF assms(1)] by auto
  obtain h where h: "WriteElementHeader IDSimpleBlock (int (length (block_head tn relTC flags) + length (lace_data fs))) = Inr h"
    using WriteElementHeader_ok [of "int (length (block_head tn relTC flags) + length (lace_data fs))"] by auto
  have fixed: "list_all (\<lambda>f. length (Data f) = length (Data (hd frames))) frames = same_size fs"
    using assms(2) by (simp add: same_size_def fs_def list_all_iff hd_map)
  have tot: "sum_list (map (length \<circ> Data) frames) = length (concat fs)"
    by (simp add: fs_def length_concat comp_def)
  have hdr: "(if same_size fs then [] else concat (map (xiph_lace \<circ> length \<circ> Data) (butlast frames))) = lace_hdr fs"
    by (simp add: lace_hdr_def fs_def map_butlast comp_assoc [symmetric])
  have n: "length frames = length fs" by (simp add: fs_def)
  have m: "seq_w (map (Inr \<circ> Data) frames) = Inr (concat fs)"
    using seq_w_Inr [of fs] by (simp add: fs_def)
  have body: "DataSizeLen (sint tn) + 2 + 1 + length ([word_of_nat (length fs - 1)] @ lace_hdr fs) + length (concat fs)
      = length (block_head tn relTC flags) + length (lace_data fs)"
    using length_block_head [OF assms(1)] by (simp add: lace_data_def)
  show thesis
    using that [OF h] h
    by (simp add: writeLacedSimpleBlock_def Let_def fixed tot hdr n body [simplified] seq_w_append m d
        block_head_def be_enc_two lace_data_def flags_def [symmetric])
qed


section \<open>Elements as written\<close>

definition elem :: "u32 \<Rightarrow> bytes \<Rightarrow> bytes" where
  "elem eid body = projr (WriteElementHeader eid (int (length body))) @ body"

lemma elem_header: "\<exists>h. WriteElementHeader eid (int (length body)) = Inr h \<and> elem eid body = h @ body \<and> 2 \<le> length h"
  using WriteElementHeader_ok [of "int (length body)" eid] ElementIDLen_bounds [of eid] DataSizeLen_bounds [of "int (length body)"]
  by (auto simp add: elem_def ElementHeaderLen_def)

lemma length_elem: "length body + 2 \<le> length (elem eid body)"
  using elem_header [of eid body] by auto

lemma WriteMasterElement_elem: "WriteMasterElement eid c = Inr (elem eid c)"
  using elem_header [of eid c] by (auto simp add: WriteMasterElement_def)

lemma WriteBytesElement_elem: "WriteBytesElement eid c = Inr (elem eid c)"
  using elem_header [of eid c] by (auto simp add: WriteBytesElement_def)

lemma WriteUintElement_elem: "WriteUintElement eid v = Inr (elem eid (be_enc (UintLen v) v))"
  using elem_header [of eid "be_enc (UintLen v) v"] UintLen_bounds [of v]
  by (auto simp add: WriteUintElement_def Let_def WriteUint_enc)

lemma writeSintElement_elem: "writeSintElement eid v = Inr (elem eid (be_enc (sint_len v) (word_of_int v :: u64)))"
  using elem_header [of eid "be_enc (sint_len v) (word_of_int v :: u64)"]
  by (auto simp add: writeSintElement_def Let_def)

lemma at_elem:
  assumes "valid_ID eid" "int (length body) < 2 ^ 56 - 1" "br_end br - int (length rest) \<le> end \<or> end < 0"
  shows "child_header end (at br (elem eid body @ rest)) = (Inr \<lparr>hdr_ID = eid, hdr_Size = int (length body)\<rparr>, at br (body @ rest))"
proof -
  obtain h where h: "WriteElementHeader eid (int (length body)) = Inr h" "elem eid body = h @ body"
    using elem_header [of eid body] by auto
  have "pastEnd \<lparr>hdr_ID = eid, hdr_Size = int (length body)\<rparr> (tell (at br (body @ rest))) end = Inr ()"
    using assms(3) by (auto simp add: pastEnd_def at_simps)
  then show ?thesis
    using at_header [OF h(1) assms(1) _ assms(2), of br "body @ rest"] h(2) by (simp add: child_header_def)
qed

lemma tell_before_end:
  "br_end br - int (length rest) \<le> end \<Longrightarrow> tell (at br (elem eid body @ rest)) < end"
  using length_elem [of body eid] by (simp add: at_simps)

section \<open>Signed integers\<close>

lemma sint_len_from_spec:
  "1 \<le> n \<Longrightarrow> n \<le> 8 \<Longrightarrow> m = 8 - n \<Longrightarrow> in_int64 val \<Longrightarrow>
   n \<le> sint_len_from m n val \<and> sint_len_from m n val \<le> 8 \<and>
   - (2 ^ (8 * sint_len_from m n val - 1)) \<le> val \<and> val < 2 ^ (8 * sint_len_from m n val - 1) \<and>
   (n < sint_len_from m n val \<longrightarrow>
      val < - (2 ^ (8 * (sint_len_from m n val - 1) - 1)) \<or> val \<ge> 2 ^ (8 * (sint_len_from m n val - 1) - 1))"
proof (induction m arbitrary: n)
  case 0
  then show ?case by (auto simp add: in_int64_def int64_min_def int64_max_def)
next
  case (Suc m)
  show ?case
  proof (cases "val < - (2 ^ (8 * n - 1)) \<or> val \<ge> 2 ^ (8 * n - 1)")
    case True
    have "n < 8" using Suc.prems by simp
    then have IH: "Suc n \<le> sint_len_from m (Suc n) val \<and> sint_len_from m (Suc n) val \<le> 8 \<and>
      - (2 ^ (8 * sint_len_from m (Suc n) val - 1)) \<le> val \<and> val < 2 ^ (8 * sint_len_from m (Suc n) val - 1) \<and>
      (Suc n < sint_len_from m (Suc n) val \<longrightarrow>
        val < - (2 ^ (8 * (sint_len_from m (Suc n) val - 1) - 1)) \<or> val \<ge> 2 ^ (8 * (sint_len_from m (Suc n) val - 1) - 1))"
      using Suc.prems by (intro Suc.IH) simp_all
    have e: "sint_len_from (Suc m) n val = sint_len_from m (Suc n) val" using True \<open>n < 8\<close> by simp
    have "sint_len_from m (Suc n) val = Suc n \<or> Suc n < sint_len_from m (Suc n) val" using IH by linarith
    then show ?thesis unfolding e using IH True by auto
  next
    case False
    then have e: "sint_len_from (Suc m) n val = n" by simp
    show ?thesis unfolding e using Suc.prems False by auto
  qed
qed

lemma sint_len_spec:
  assumes "in_int64 val"
  shows "1 \<le> sint_len val" "sint_len val \<le> 8" "- (2 ^ (8 * sint_len val - 1)) \<le> val" "val < 2 ^ (8 * sint_len val - 1)"
    and "1 < sint_len val \<Longrightarrow> val < - (2 ^ (8 * (sint_len val - 1) - 1)) \<or> val \<ge> 2 ^ (8 * (sint_len val - 1) - 1)"
proof -
  note s = sint_len_from_spec [of 1 7 val, OF _ _ _ assms, folded sint_len_def]
  show "1 \<le> sint_len val" by (rule s [THEN conjunct1]) simp_all
  show "sint_len val \<le> 8" by (rule s [THEN conjunct2, THEN conjunct1]) simp_all
  show "- (2 ^ (8 * sint_len val - 1)) \<le> val" by (rule s [THEN conjunct2, THEN conjunct2, THEN conjunct1]) simp_all
  show "val < 2 ^ (8 * sint_len val - 1)"
    by (rule s [THEN conjunct2, THEN conjunct2, THEN conjunct2, THEN conjunct1]) simp_all
  show "1 < sint_len val \<Longrightarrow> val < - (2 ^ (8 * (sint_len val - 1) - 1)) \<or> val \<ge> 2 ^ (8 * (sint_len val - 1) - 1)"
    by (rule s [THEN conjunct2, THEN conjunct2, THEN conjunct2, THEN conjunct2, THEN mp]) simp_all
qed

lemma sign_extend_bits:
  assumes "1 \<le> n" "n \<le> 8" "- (2 ^ (8 * n - 1)) \<le> val" "val < 2 ^ (8 * n - 1)"
  shows "sign_extend n (take_bit (8 * n) (word_of_int val)) = val"
proof -
  have v: "signed_take_bit (8 * n - 1) val = val" using assms by (intro signed_take_bit_int_eq_self) simp_all
  have "sign_extend n (take_bit (8 * n) (word_of_int val)) = signed_take_bit (8 * n - 1) val"
  proof (rule bit_eqI)
    fix k
    show "bit (sign_extend n (take_bit (8 * n) (word_of_int val))) k \<longleftrightarrow> bit (signed_take_bit (8 * n - 1) val) k"
    proof (cases "k \<ge> 63")
      case True
      then show ?thesis using assms(1,2)
        by (cases "n = 8") (auto simp add: sign_extend_def bit_simps min_def)
    next
      case False
      then show ?thesis using assms(1,2)
        by (cases "k = 8 * n - 1") (auto simp add: sign_extend_def bit_simps min_def)
    qed
  qed
  then show ?thesis using v by simp
qed

section \<open>Block additions\<close>

definition more_body :: "BlockAddition \<Rightarrow> bytes" where
  "more_body a = (if add_ID a \<noteq> 1 then elem IDBlockAddID (be_enc (UintLen (add_ID a)) (add_ID a)) else [])
                 @ elem IDBlockAdditional (add_Data a)"

definition additions_body :: "BlockAddition list \<Rightarrow> bytes" where
  "additions_body as = concat (map (\<lambda>a. elem IDBlockMore (more_body a)) as)"

lemma write_BlockMore_elem: "write_BlockMore a = Inr (elem IDBlockMore (more_body a))"
  using elem_header [of IDBlockAdditional "add_Data a"]
  by (auto simp add: write_BlockMore_def more_body_def WriteUintElement_elem WriteMasterElement_elem)

lemma write_additions_elem: "seq_w (map write_BlockMore as) = Inr (additions_body as)"
  by (induction as) (simp_all add: write_BlockMore_elem additions_body_def)

lemma ids_distinct:
  "IDBlockAdditional \<noteq> IDBlockAddID" "IDBlockDuration \<noteq> IDBlock" "IDReferenceBlock \<noteq> IDBlock"
  "IDBlockAdditions \<noteq> IDBlock" "IDDiscardPadding \<noteq> IDBlock" "IDReferenceBlock \<noteq> IDBlockDuration"
  "IDBlockAdditions \<noteq> IDBlockDuration" "IDDiscardPadding \<noteq> IDBlockDuration" "IDBlockAdditions \<noteq> IDReferenceBlock"
  "IDDiscardPadding \<noteq> IDReferenceBlock" "IDDiscardPadding \<noteq> IDBlockAdditions"
  "IDSimpleBlock \<noteq> IDTimestamp" "IDBlockGroup \<noteq> IDTimestamp" "IDBlockGroup \<noteq> IDSimpleBlock"
  by (simp_all add: mkv_id_defs)

lemma more_loop_data:
  assumes e: "end = br_end br - int (length rest)" and "held + int (length d) \<le> maxBlockAdditional"
    and "0 \<le> held" and "length d < fuel"
  shows "more_loop (Suc fuel) end mr held (at br (elem IDBlockAdditional d @ rest))
           = Some (Inr (mr\<lparr>add_Data := d\<rparr>, held + int (length d)), at br rest)"
proof -
  obtain f where f: "fuel = Suc f" using assms(4) by (cases fuel) auto
  have "int (length d) < 2 ^ 56 - 1" using assms(2,3) by (simp add: maxBlockAdditional_def)
  then have c: "child_header end (at br (elem IDBlockAdditional d @ rest))
      = (Inr \<lparr>hdr_ID = IDBlockAdditional, hdr_Size = int (length d)\<rparr>, at br (d @ rest))"
    using e by (intro at_elem valid_block_IDs) simp_all
  have "tell (at br (elem IDBlockAdditional d @ rest)) < end" using e by (intro tell_before_end) simp
  moreover have "\<not> tell (at br rest) < end" using e by (simp add: at_simps)
  ultimately show ?thesis
    using c assms(2) at_full [OF refl, of d br rest] by (simp add: f ids_distinct Let_def)
qed

lemma more_loop_at:
  assumes e: "end = br_end br - int (length rest)" and "held + int (length (add_Data a)) \<le> maxBlockAdditional"
    and "0 \<le> held" and fuel: "length (more_body a) \<le> fuel"
  shows "more_loop fuel end \<lparr>add_ID = 1, add_Data = []\<rparr> held (at br (more_body a @ rest))
           = Some (Inr (a, held + int (length (add_Data a))), at br rest)"
proof (cases "add_ID a = 1")
  case True
  have "length (add_Data a) + 2 \<le> fuel" using fuel length_elem [of "add_Data a" IDBlockAdditional] True by (simp add: more_body_def)
  then obtain f where "fuel = Suc f" "length (add_Data a) < f" by (cases fuel) auto
  then show ?thesis using more_loop_data [OF e assms(2,3)] True by (simp add: more_body_def)
next
  case False
  let ?e = "be_enc (UintLen (add_ID a)) (add_ID a)" and ?r = "elem IDBlockAdditional (add_Data a) @ rest"
  have "length (add_Data a) + 2 + 3 \<le> fuel"
    using fuel length_elem [of "add_Data a" IDBlockAdditional] length_elem [of ?e IDBlockAddID] False UintLen_bounds [of "add_ID a"]
    by (simp add: more_body_def)
  then obtain f where f: "fuel = Suc (Suc f)" "length (add_Data a) < f" by (cases fuel; cases "fuel - 1") auto
  have c: "child_header end (at br (elem IDBlockAddID ?e @ ?r))
      = (Inr \<lparr>hdr_ID = IDBlockAddID, hdr_Size = int (UintLen (add_ID a))\<rparr>, at br (?e @ ?r))"
    using at_elem [of IDBlockAddID ?e br ?r "end"] e UintLen_bounds [of "add_ID a"] valid_block_IDs by simp
  have t: "tell (at br (elem IDBlockAddID ?e @ ?r)) < end" using e by (intro tell_before_end) simp
  have u: "br_read (\<lambda>s. ReadUint s (int (UintLen (add_ID a)))) (at br (?e @ ?r)) = (Inr (add_ID a), at br ?r)"
    using at_uint [of "UintLen (add_ID a)" br "add_ID a" ?r] UintLen_bounds [of "add_ID a"] UintLen_holds [of "add_ID a"] by simp
  show ?thesis
    using t c u more_loop_data [OF e assms(2,3) f(2), of "\<lparr>add_ID = add_ID a, add_Data = []\<rparr>"] False
    unfolding f(1) more_loop.simps(2) [of "Suc f"] by (simp add: more_body_def)
qed

lemma additions_loop_at:
  "end = br_end br - int (length rest) \<Longrightarrow> 0 \<le> held \<Longrightarrow>
   held + int (sum_list (map (length \<circ> add_Data) as)) \<le> maxBlockAdditional \<Longrightarrow>
   length out + length as \<le> maxBlockMores \<Longrightarrow> length (additions_body as) < fuel \<Longrightarrow>
   int (length (additions_body as)) < 2 ^ 56 - 1 \<Longrightarrow>
   additions_loop fuel end out held (at br (additions_body as @ rest)) = Some (Inr (out @ as), at br rest)"
proof (induction as arbitrary: out held fuel)
  case Nil
  then show ?case by (cases fuel) (simp_all add: additions_body_def at_simps)
next
  case (Cons a as)
  let ?m = "more_body a" and ?r = "additions_body as @ rest"
  have b: "additions_body (a # as) = elem IDBlockMore ?m @ additions_body as" by (simp add: additions_body_def)
  have l: "length ?m + 2 + length (additions_body as) \<le> length (additions_body (a # as))"
    using length_elem [of ?m IDBlockMore] by (simp add: b)
  then obtain f where f: "fuel = Suc f" "length ?m \<le> f" "length (additions_body as) < f" using Cons.prems(5) by (cases fuel) auto
  have c: "child_header end (at br (elem IDBlockMore ?m @ ?r))
      = (Inr \<lparr>hdr_ID = IDBlockMore, hdr_Size = int (length ?m)\<rparr>, at br (?m @ ?r))"
    using at_elem [of IDBlockMore ?m br ?r "end"] Cons.prems(1,6) l valid_block_IDs by simp
  have t: "tell (at br (elem IDBlockMore ?m @ ?r)) < end" using Cons.prems(1) by (intro tell_before_end) simp
  have m: "more_loop f (tell (at br (?m @ ?r)) + int (length ?m)) \<lparr>add_ID = 1, add_Data = []\<rparr> held (at br (?m @ ?r))
      = Some (Inr (a, held + int (length (add_Data a))), at br ?r)"
    using Cons.prems f(2) by (intro more_loop_at) (simp_all add: at_simps sum_list_nonneg)
  have IH: "additions_loop f end (out @ [a]) (held + int (length (add_Data a))) (at br ?r) = Some (Inr ((out @ [a]) @ as), at br rest)"
    using Cons.prems f(3) l by (intro Cons.IH) simp_all
  have "length out \<noteq> maxBlockMores" using Cons.prems(4) by simp
  then show ?case using t c m IH by (simp add: f(1) b)
qed

lemma parseBlockAdditions_at:
  assumes "int (sum_list (map (length \<circ> add_Data) as)) \<le> maxBlockAdditional" "length as \<le> maxBlockMores"
    "length (additions_body as) < fuel" "int (length (additions_body as)) < 2 ^ 56 - 1"
  shows "parseBlockAdditions fuel (int (length (additions_body as))) (at br (additions_body as @ rest))
           = Some (Inr as, at br rest)"
  unfolding parseBlockAdditions_def
  using additions_loop_at [of _ br rest 0 as "[]" fuel] assms by (simp add: at_simps)

section \<open>Block groups\<close>

definition group_tail :: "u64 \<Rightarrow> int option \<Rightarrow> int \<Rightarrow> BlockAddition list \<Rightarrow> bytes" where
  "group_tail rawDuration ref paddingNs additions =
     (if additions \<noteq> [] then elem IDBlockAdditions (additions_body additions) else [])
     @ (if rawDuration > 0 \<or> (paddingNs = 0 \<and> additions = [])
        then elem IDBlockDuration (be_enc (UintLen rawDuration) rawDuration) else [])
     @ (case ref of Some d \<Rightarrow> elem IDReferenceBlock (be_enc (sint_len d) (word_of_int d :: u64)) | None \<Rightarrow> [])
     @ (if paddingNs \<noteq> 0 then elem IDDiscardPadding (be_enc (sint_len paddingNs) (word_of_int paddingNs :: u64)) else [])"

definition group_body :: "u64 \<Rightarrow> 16 word \<Rightarrow> bytes \<Rightarrow> u64 \<Rightarrow> int option \<Rightarrow> int \<Rightarrow> BlockAddition list \<Rightarrow> bytes" where
  "group_body tn relTC data rawDuration ref paddingNs additions =
     elem IDBlock (block_head tn relTC 0 @ data) @ group_tail rawDuration ref paddingNs additions"

lemma writeBlockGroup_elem:
  assumes "0 \<le> sint tn"
  shows "writeBlockGroup tn relTC data rawDuration ref paddingNs additions
           = Inr (elem IDBlockGroup (group_body tn relTC data rawDuration ref paddingNs additions))"
proof -
  obtain d where d: "WriteDataSize (sint tn) = Inr d" "length d = DataSizeLen (sint tn)"
    using WriteDataSize_ok [OF assms] by auto
  let ?body = "block_head tn relTC 0 @ data"
  obtain h where h: "WriteElementHeader IDBlock (int (length ?body)) = Inr h" "elem IDBlock ?body = h @ ?body"
    using elem_header [of IDBlock ?body] by auto
  have n: "DataSizeLen (sint tn) + 2 + 1 + length data = length ?body"
    using length_block_head [OF assms] by simp
  have hd: "seq_w [WriteElementHeader IDBlock (int (length ?body)), WriteDataSize (sint tn),
      Inr [ucast (drop_bit 8 relTC), ucast relTC, 0]] = Inr (h @ block_head tn relTC 0)"
    by (simp only: h(1) d(1) seq_w.simps bind_r_simps) (simp add: block_head_def d be_enc_two)
  have tl: "seq_w [
      if additions \<noteq> []
      then bind_r (seq_w (map write_BlockMore additions)) (WriteMasterElement IDBlockAdditions) else Inr [],
      if rawDuration > 0 \<or> (paddingNs = 0 \<and> additions = []) then WriteUintElement IDBlockDuration rawDuration else Inr [],
      case ref of Some d \<Rightarrow> writeSintElement IDReferenceBlock d | None \<Rightarrow> Inr [],
      if paddingNs \<noteq> 0 then writeSintElement IDDiscardPadding paddingNs else Inr []]
    = Inr (group_tail rawDuration ref paddingNs additions)"
    by (simp add: group_tail_def write_additions_elem WriteMasterElement_elem WriteUintElement_elem
        writeSintElement_elem split: option.split)
  let ?g = "group_body tn relTC data rawDuration ref paddingNs additions"
  obtain k where k: "WriteElementHeader IDBlockGroup (int (length ?g)) = Inr k" "elem IDBlockGroup ?g = k @ ?g"
    using elem_header [of IDBlockGroup ?g] by auto
  have g: "?g = (h @ block_head tn relTC 0) @ data @ group_tail rawDuration ref paddingNs additions"
    by (simp add: group_body_def h(2))
  have l: "length (h @ block_head tn relTC 0) + length data + length (group_tail rawDuration ref paddingNs additions) = length ?g"
    unfolding g by simp
  show ?thesis
    unfolding writeBlockGroup_def Let_def n hd bind_r_simps tl l k
    by (simp only: seq_w.simps bind_r_simps g append_Nil2)
qed

text \<open>One child of the group each.\<close>

lemma group_child:
  assumes "valid_ID eid" "int (length body) < 2 ^ 56 - 1" "br_end br - int (length rest) \<le> end"
  shows "tell (at br (elem eid body @ rest)) < end"
    and "child_header end (at br (elem eid body @ rest))
           = (Inr \<lparr>hdr_ID = eid, hdr_Size = int (length body)\<rparr>, at br (body @ rest))"
  using at_elem [of eid body br rest "end"] tell_before_end [of br rest "end"] assms by simp_all

lemma group_loop_additions:
  assumes "br_end br - int (length rest) \<le> end" "int (length (additions_body as)) < 2 ^ 56 - 1"
    "int (sum_list (map (length \<circ> add_Data) as)) \<le> maxBlockAdditional" "length as \<le> maxBlockMores"
    "length (additions_body as) < fuel"
  shows "group_loop (Suc fuel) end g (at br (elem IDBlockAdditions (additions_body as) @ rest))
           = group_loop fuel end (g\<lparr>bg_additions := as\<rparr>) (at br rest)"
  using group_child [of IDBlockAdditions "additions_body as" br rest "end"] assms valid_block_IDs
    parseBlockAdditions_at [of as fuel br rest]
  by (simp add: ids_distinct)

lemma group_loop_duration:
  assumes "br_end br - int (length rest) \<le> end" "safeTimecodeMs (sint v) (timecodeScale br) = Inr d"
  shows "group_loop (Suc fuel) end g (at br (elem IDBlockDuration (be_enc (UintLen v) v) @ rest))
           = group_loop fuel end (g\<lparr>bg_durationMs := d\<rparr>) (at br rest)"
  using group_child [of IDBlockDuration "be_enc (UintLen v) v" br rest "end"] assms valid_block_IDs
    at_uint [of "UintLen v" br v rest] UintLen_bounds [of v] UintLen_holds [of v]
  by (simp add: ids_distinct at_simps)

lemma group_loop_reference:
  assumes "br_end br - int (length rest) \<le> end" "int (length body) < 2 ^ 56 - 1"
  shows "group_loop (Suc fuel) end g (at br (elem IDReferenceBlock body @ rest))
           = group_loop fuel end (g\<lparr>bg_referenced := True\<rparr>) (at br rest)"
  using group_child [of IDReferenceBlock body br rest "end"] assms valid_block_IDs at_discard [OF refl, of body br rest]
  by (simp add: ids_distinct)

lemma group_loop_padding:
  assumes "br_end br - int (length rest) \<le> end" "in_int64 v"
  shows "group_loop (Suc fuel) end g (at br (elem IDDiscardPadding (be_enc (sint_len v) (word_of_int v :: u64)) @ rest))
           = group_loop fuel end (g\<lparr>bg_paddingNs := v\<rparr>) (at br rest)"
  using group_child [of IDDiscardPadding "be_enc (sint_len v) (word_of_int v :: u64)" br rest "end"] assms valid_block_IDs
    at_uint [of "sint_len v" br "word_of_int v" rest] sint_len_spec [OF assms(2)]
    sign_extend_bits [OF sint_len_spec(1-4) [OF assms(2)]]
  by (simp add: ids_distinct at_simps)

lemma group_loop_end: "br_end br - int (length rest) = end \<Longrightarrow> group_loop (Suc fuel) end g (at br rest) = Some (Inr g, at br rest)"
  by (simp add: at_simps)

text \<open>The tail, from its last child back to its first.\<close>

lemma fuel_Suc:
  assumes "length (elem eid body) + n < fuel"
  obtains f where "fuel = Suc f" "n < f" "length body < f"
  using assms length_elem [of body eid] by (cases fuel) auto

lemma group_tail4:
  assumes e: "br_end br - int (length rest) = end" and "in_int64 p"
    and fuel: "length (if p \<noteq> 0 then elem IDDiscardPadding (be_enc (sint_len p) (word_of_int p :: u64)) else []) < fuel"
  shows "group_loop fuel end g (at br ((if p \<noteq> 0 then elem IDDiscardPadding (be_enc (sint_len p) (word_of_int p :: u64)) else []) @ rest))
           = Some (Inr (g\<lparr>bg_paddingNs := (if p \<noteq> 0 then p else bg_paddingNs g)\<rparr>), at br rest)"
proof (cases "p = 0")
  case True
  then obtain f where "fuel = Suc f" using fuel by (cases fuel) auto
  then show ?thesis using group_loop_end [OF e] True by (simp del: group_loop.simps)
next
  case False
  then obtain f where f: "fuel = Suc (Suc f)"
    using fuel length_elem [of "be_enc (sint_len p) (word_of_int p :: u64)" IDDiscardPadding]
    by (cases fuel; cases "fuel - 1") auto
  show ?thesis
    using group_loop_padding [of br rest "end" p "Suc f" g] assms(2) e group_loop_end [OF e] False
    by (simp add: f del: group_loop.simps)
qed

lemma group_tail3:
  fixes ref :: "int option" and p :: int
  defines "t4 \<equiv> (if p \<noteq> 0 then elem IDDiscardPadding (be_enc (sint_len p) (word_of_int p :: u64)) else [])"
  defines "t3 \<equiv> (case ref of Some d \<Rightarrow> elem IDReferenceBlock (be_enc (sint_len d) (word_of_int d :: u64)) | None \<Rightarrow> [])"
  assumes e: "br_end br - int (length rest) = end" and p: "in_int64 p"
    and r: "case ref of None \<Rightarrow> True | Some d \<Rightarrow> in_int64 d" and fuel: "length (t3 @ t4) < fuel"
  shows "group_loop fuel end g (at br (t3 @ t4 @ rest))
           = Some (Inr (g\<lparr>bg_referenced := bg_referenced g \<or> ref \<noteq> None,
                          bg_paddingNs := (if p \<noteq> 0 then p else bg_paddingNs g)\<rparr>), at br rest)"
proof (cases ref)
  case None
  then show ?thesis using group_tail4 [OF e p, of fuel g] fuel by (simp add: t3_def t4_def del: group_loop.simps)
next
  case (Some d)
  let ?b = "be_enc (sint_len d) (word_of_int d :: u64)"
  obtain f where f: "fuel = Suc f" "length t4 < f"
    using fuel by (auto simp add: t3_def Some elim: fuel_Suc)
  have "sint_len d \<le> 8" using r Some sint_len_spec(2) by simp
  then have "group_loop (Suc f) end g (at br (elem IDReferenceBlock ?b @ t4 @ rest))
      = group_loop f end (g\<lparr>bg_referenced := True\<rparr>) (at br (t4 @ rest))"
    using e by (intro group_loop_reference) simp_all
  then show ?thesis
    using group_tail4 [OF e p, of f "g\<lparr>bg_referenced := True\<rparr>"] f
    by (simp add: t3_def t4_def Some del: group_loop.simps)
qed

lemma group_tail_at:
  assumes e: "br_end br - int (length rest) = end" and p: "in_int64 p"
    and r: "case ref of None \<Rightarrow> True | Some d \<Rightarrow> in_int64 d"
    and d: "safeTimecodeMs (sint v) (timecodeScale br) = Inr d"
    and as: "int (length (additions_body as)) < 2 ^ 56 - 1" "int (sum_list (map (length \<circ> add_Data) as)) \<le> maxBlockAdditional"
      "length as \<le> maxBlockMores"
    and g: "bg_durationMs g = 0" "bg_additions g = []" "bg_paddingNs g = 0" "\<not> bg_referenced g"
    and fuel: "length (group_tail v ref p as) < fuel"
  shows "group_loop fuel end g (at br (group_tail v ref p as @ rest))
           = Some (Inr (g\<lparr>bg_additions := as, bg_durationMs := d, bg_referenced := ref \<noteq> None, bg_paddingNs := p\<rparr>), at br rest)"
proof -
  define t4 where "t4 = (if p \<noteq> 0 then elem IDDiscardPadding (be_enc (sint_len p) (word_of_int p :: u64)) else [])"
  define t3 where "t3 = (case ref of Some d \<Rightarrow> elem IDReferenceBlock (be_enc (sint_len d) (word_of_int d :: u64)) | None \<Rightarrow> [])"
  define w where "w \<longleftrightarrow> v > 0 \<or> (p = 0 \<and> as = [])"
  define t2 where "t2 = (if w then elem IDBlockDuration (be_enc (UintLen v) v) else [])"
  define t1 where "t1 = (if as \<noteq> [] then elem IDBlockAdditions (additions_body as) else [])"
  have t: "group_tail v ref p as = t1 @ t2 @ t3 @ t4"
    by (simp add: group_tail_def t1_def t2_def t3_def t4_def w_def)
  have d0: "d = 0" if "\<not> w" using d that by (simp add: w_def safeTimecodeMs_def word_gt_0 int64_min_def int64_max_def go_div_def in_int64_def split: if_splits)
  have tail2: "group_loop f end h (at br (t2 @ t3 @ t4 @ rest))
      = Some (Inr (h\<lparr>bg_durationMs := d, bg_referenced := ref \<noteq> None, bg_paddingNs := p\<rparr>), at br rest)"
    if h: "bg_durationMs h = 0" "bg_paddingNs h = 0" "\<not> bg_referenced h" and l: "length (t2 @ t3 @ t4) < f" for f h
  proof (cases w)
    case True
    then obtain k where k: "f = Suc k" "length (t3 @ t4) < k"
      using l by (auto simp add: t2_def elim: fuel_Suc)
    have "group_loop (Suc k) end h (at br (elem IDBlockDuration (be_enc (UintLen v) v) @ t3 @ t4 @ rest))
        = group_loop k end (h\<lparr>bg_durationMs := d\<rparr>) (at br (t3 @ t4 @ rest))"
      using e d by (intro group_loop_duration) simp_all
    then show ?thesis
      using group_tail3 [OF e p r, of k "h\<lparr>bg_durationMs := d\<rparr>"] k h True
      by (simp add: t2_def t3_def t4_def del: group_loop.simps)
  next
    case False
    then show ?thesis
      using group_tail3 [OF e p r, of f h] l h d0 by (simp add: t2_def t3_def t4_def del: group_loop.simps)
  qed
  show ?thesis
  proof (cases "as = []")
    case True
    then have gt: "group_tail v ref p as = t2 @ t3 @ t4" using t by (simp add: t1_def)
    have "g\<lparr>bg_additions := as\<rparr> = g" using g True by (cases g) simp
    then show ?thesis
      using tail2 [of "g\<lparr>bg_additions := as\<rparr>" fuel] g fuel unfolding gt by (simp del: group_loop.simps)
  next
    case False
    then obtain k where k: "fuel = Suc k" "length (t2 @ t3 @ t4) < k" "length (additions_body as) < k"
      using fuel by (auto simp add: t t1_def elim: fuel_Suc)
    have "group_loop (Suc k) end g (at br (elem IDBlockAdditions (additions_body as) @ t2 @ t3 @ t4 @ rest))
        = group_loop k end (g\<lparr>bg_additions := as\<rparr>) (at br (t2 @ t3 @ t4 @ rest))"
      using e as k by (intro group_loop_additions) simp_all
    then show ?thesis
      using tail2 [of "g\<lparr>bg_additions := as\<rparr>" k] k g False by (simp add: t t1_def del: group_loop.simps)
  qed
qed


text \<open>The block a group with these fields is delivered as.\<close>

lemma parseBlockGroup_at:
  assumes tn: "0 \<le> sint tn" "sint tn < 2 ^ 56 - 1" and acc: "accepts br tn"
    and data: "int (length data) \<le> maxBlockSize" and skip: "\<not> skipsPayload br tn" and pend: "br_pending br = []"
    and tc: "safeTimecodeMs (wrap64 (clusterTS br + sint relTC)) (timecodeScale br) = Inr tc"
    and p: "in_int64 p" and r: "case ref of None \<Rightarrow> True | Some d \<Rightarrow> in_int64 d"
    and d: "safeTimecodeMs (sint v) (timecodeScale br) = Inr d"
    and as: "int (sum_list (map (length \<circ> add_Data) as)) \<le> maxBlockAdditional" "length as \<le> maxBlockMores"
    and size: "int (length (group_body tn relTC data v ref p as)) < 2 ^ 56 - 1"
    and fuel: "length (group_body tn relTC data v ref p as) < fuel"
  shows "parseBlockGroup fuel (int (length (group_body tn relTC data v ref p as)))
           (at br (group_body tn relTC data v ref p as @ rest))
         = Some (Inr ((plain_block tn tc (ref = None) (Some data) (int (length data))
                         (br_end br - int (length data + length (group_tail v ref p as) + length rest)))
                       \<lparr>Duration := d, DiscardPaddingNs := p, Additions := as\<rparr>), at br rest)"
proof -
  let ?body = "block_head tn relTC 0 @ data" and ?tail = "group_tail v ref p as"
  define e where "e = br_end br - int (length rest)"
  define b where "b = plain_block tn tc False (Some data) (int (length data))
      (br_end br - int (length data + length ?tail + length rest))"
  obtain f where f: "fuel = Suc f" "length ?tail < f"
    using fuel unfolding group_body_def length_append by (rule fuel_Suc)
  have body: "int (length ?body) < 2 ^ 56 - 1"
    using size length_elem [of ?body IDBlock] by (simp add: group_body_def)
  have adds: "int (length (additions_body as)) < 2 ^ 56 - 1"
    using size length_elem [of "additions_body as" IDBlockAdditions]
    by (cases "as = []") (simp_all add: group_body_def group_tail_def additions_body_def [of "[]"])
  have c: "tell (at br (elem IDBlock ?body @ ?tail @ rest)) < e"
    "child_header e (at br (elem IDBlock ?body @ ?tail @ rest))
      = (Inr \<lparr>hdr_ID = IDBlock, hdr_Size = int (length ?body)\<rparr>, at br (?body @ ?tail @ rest))"
    using group_child [of IDBlock ?body br "?tail @ rest" e] body valid_block_IDs by (simp_all add: e_def)
  have blk: "parseBlock (int (length ?body)) False (at br (?body @ ?tail @ rest)) = (Inr b, at br (?tail @ rest))"
    using parseBlock_head [OF tn acc data, of relTC 0 False "?tail @ rest"]
      parse_unlaced_at [OF tc, of tn False data "?tail @ rest"] skip
    by (simp add: lacing_defs b_def add.assoc)
  have "group_loop fuel e group_init (at br (elem IDBlock ?body @ ?tail @ rest))
      = group_loop f e (group_init\<lparr>bg_block := b, bg_found := True\<rparr>) (at br (?tail @ rest))"
    using c blk by (simp add: f)
  also have "\<dots> = Some (Inr ((group_init\<lparr>bg_block := b, bg_found := True\<rparr>)
      \<lparr>bg_additions := as, bg_durationMs := d, bg_referenced := ref \<noteq> None, bg_paddingNs := p\<rparr>), at br rest)"
    using f by (intro group_tail_at p r d adds as) (simp_all add: group_init_def e_def)
  finally have l: "group_loop fuel e group_init (at br (group_body tn relTC data v ref p as @ rest))
      = Some (Inr \<lparr>bg_block = b, bg_found = True, bg_referenced = (ref \<noteq> None), bg_durationMs = d, bg_paddingNs = p,
                  bg_additions = as\<rparr>, at br rest)"
    by (simp add: group_body_def group_init_def)
  have "tell (at br (group_body tn relTC data v ref p as @ rest)) + int (length (group_body tn relTC data v ref p as)) = e"
    by (simp add: at_simps e_def)
  then show ?thesis
    using l pend
    by (cases "ref = None")
       (simp_all add: parseBlockGroup_def group_finish_def at_updates at_fields(8) br_pending_id Let_def b_def plain_block_def zero_block_def)
qed

section \<open>Clusters\<close>

text \<open>One call of \<^verbatim>\<open>next\<close> for each fuel of the list: the blocks with the position each was found at.\<close>

fun take_blocks :: "nat list \<Rightarrow> BlockReader \<Rightarrow> ((Block \<times> int) list \<times> BlockReader) option" where
  "take_blocks [] br = Some ([], br)"
| "take_blocks (fuel # fs) br =
     (case next_block fuel br of
        Some (Inr b, br1) \<Rightarrow>
          (case take_blocks fs br1 of
             None \<Rightarrow> None | Some (bs, br2) \<Rightarrow> Some ((b, blockStart br1) # bs, br2))
      | _ \<Rightarrow> None)"

lemma take_blocks_append:
  "take_blocks fs br = Some (xs, br1) \<Longrightarrow> take_blocks gs br1 = Some (ys, br2) \<Longrightarrow>
   take_blocks (fs @ gs) br = Some (xs @ ys, br2)"
  by (induction fs arbitrary: br xs) (auto split: option.splits prod.splits sum.splits)

lemma take_pending:
  "br_pending br = ps \<Longrightarrow> length fs = length ps \<Longrightarrow>
   take_blocks fs br = Some (map (\<lambda>b. (b, blockStart br)) ps, br\<lparr>br_pending := []\<rparr>)"
proof (induction ps arbitrary: br fs)
  case Nil
  then show ?case by (simp add: br_pending_id)
next
  case (Cons b ps)
  obtain f gs where fs: "fs = f # gs" "length gs = length ps" using Cons.prems(2) by (cases fs) auto
  then have "take_blocks gs (br\<lparr>br_pending := ps\<rparr>)
      = Some (map (\<lambda>c. (c, blockStart br)) ps, br\<lparr>br_pending := []\<rparr>)"
    using Cons.IH [of "br\<lparr>br_pending := ps\<rparr>" gs] by simp
  then show ?case using Cons.prems fs by (simp add: next_block_def)
qed

text \<open>A reader inside a cluster with timestamp \<open>ts\<close> that ends at \<open>E\<close>, unfiltered, on the millisecond scale.\<close>

definition ready :: "int \<Rightarrow> int \<Rightarrow> BlockReader \<Rightarrow> bool" where
  "ready ts E br \<longleftrightarrow>
     inCluster br \<and> clusterTS br = ts \<and> clusterEnd br = E \<and> timecodeScale br = DefaultTimecodeScale \<and>
     br_pending br = [] \<and> br_keep br = None \<and> br_known br = None \<and> \<not> headerOnly br \<and> trackDurNs br = None \<and>
     peeked br = None \<and> stopMs br = None \<and> awaitLimit br = False"

definition seen :: "int \<Rightarrow> u32 \<Rightarrow> BlockReader \<Rightarrow> BlockReader" where
  "seen st eid br = br\<lparr>elemStart := st, elemID := eid\<rparr>"

lemma ready_seen: "ready ts E br \<Longrightarrow> ready ts E ((seen st eid br)\<lparr>blockStart := st'\<rparr>)"
  by (simp add: ready_def seen_def)

lemma ready_at [simp]: "ready ts E (at br bs) = ready ts E br"
  by (simp add: ready_def at_simps)

lemma awaitLimit_id: "awaitLimit br = b \<Longrightarrow> br\<lparr>awaitLimit := b\<rparr> = br"
  by (cases br) simp

lemma cluster_turn_elem:
  assumes r: "ready ts E br" and "0 \<le> E" and "br_end br - int (length rest) \<le> E"
    and v: "valid_ID eid" "int (length body) < 2 ^ 56 - 1" and st: "st = br_end br - int (length (elem eid body @ rest))"
  shows "cluster_turn fuel (at br (elem eid body @ rest))
           = cluster_child fuel \<lparr>hdr_ID = eid, hdr_Size = int (length body)\<rparr> st (at (seen st eid br) (body @ rest))"
proof -
  obtain h where h: "WriteElementHeader eid (int (length body)) = Inr h" "elem eid body = h @ body"
    using elem_header [of eid body] by auto
  have p: "pastEnd \<lparr>hdr_ID = eid, hdr_Size = int (length body)\<rparr> (br_end br - (int (length body) + int (length rest))) E = Inr ()"
    using assms(2,3) by (simp add: pastEnd_def)
  have "tell (at br (elem eid body @ rest)) < E" using assms(3) by (rule tell_before_end)
  moreover have "next_header (at br (elem eid body @ rest))
      = (Inr (\<lparr>hdr_ID = eid, hdr_Size = int (length body)\<rparr>, st), at (br\<lparr>elemStart := st, elemID := 0\<rparr>) (body @ rest))"
    using at_header [OF h(1) v(1) _ v(2), of "br\<lparr>elemStart := st, elemID := 0\<rparr>" "body @ rest"] r h(2) st
    by (simp add: next_header_def at_simps ready_def Let_def)
  ultimately show ?thesis
    using r p assms(2) by (simp add: cluster_turn_def at_simps ready_def Let_def seen_def)
qed

lemma next_block_elem:
  assumes "ready ts E br" and "0 \<le> E" and "br_end br - int (length rest) \<le> E"
    and "valid_ID eid" "int (length body) < 2 ^ 56 - 1" and "st = br_end br - int (length (elem eid body @ rest))"
    and "cluster_child fuel \<lparr>hdr_ID = eid, hdr_Size = int (length body)\<rparr> st (at (seen st eid br) (body @ rest)) = out"
  shows "next_block (Suc fuel) (at br (elem eid body @ rest))
           = (case out of None \<Rightarrow> None | Some (Some r, b) \<Rightarrow> Some (r, b) | Some (None, b) \<Rightarrow> next_loop fuel b)"
  using cluster_turn_elem [OF assms(1-6), of fuel] assms(1,7)
  by (simp add: next_block_def at_simps ready_def awaitLimit_id)

lemma block_out_Inr: "block_out (Inr b, br) = Some (Some (Inr b), br)"
  by (simp add: block_out_def)

lemma ready_accepts: "ready ts E br \<Longrightarrow> accepts br tn" "ready ts E br \<Longrightarrow> \<not> skipsPayload br tn"
  "ready ts E br \<Longrightarrow> track_dur br tn = 0"
  by (simp_all add: ready_def accepts_def skipsPayload_def track_dur_def)

definition media :: "Block \<Rightarrow> u64 \<times> int \<times> bool \<times> bytes \<times> int \<times> int \<times> BlockAddition list" where
  "media b = (TrackNumber b, Timecode b, Keyframe b, Data b, Duration b, DiscardPaddingNs b, Additions b)"

lemma flags_plain: "unat (drop_bit 1 (if kf then 0x80 else 0 :: byte) AND 0x03) = lacingNone"
  "((if kf then 0x80 else 0 :: byte) AND 0x80 \<noteq> 0) = kf"
  by (simp_all add: lacing_defs)

lemma read_simple:
  assumes r: "ready ts E br" and E: "0 \<le> E" "br_end br - int (length rest) \<le> E"
    and tn: "0 \<le> sint tn" "sint tn < 2 ^ 56 - 1" and sz: "int (length data) \<le> maxBlockSize"
    and tc: "safeTimecodeMs (wrap64 (ts + sint relTC)) DefaultTimecodeScale = Inr tc"
    and st: "st = br_end br - int (length (elem IDSimpleBlock (block_head tn relTC (if kf then 0x80 else 0) @ data) @ rest))"
  shows "\<exists>b. take_blocks [Suc fuel] (at br (elem IDSimpleBlock (block_head tn relTC (if kf then 0x80 else 0) @ data) @ rest))
           = Some ([(b, st)], at ((seen st IDSimpleBlock br)\<lparr>blockStart := st\<rparr>) rest) \<and>
         media b = (tn, tc, kf, data, 0, 0, [])"
proof -
  let ?br = "(seen st IDSimpleBlock br)\<lparr>blockStart := st\<rparr>" and ?h = "block_head tn relTC (if kf then 0x80 else 0)"
  note rb = ready_seen [OF r, of st st IDSimpleBlock]
  have tc': "safeTimecodeMs (wrap64 (clusterTS ?br + sint relTC)) (timecodeScale ?br) = Inr tc"
    using rb tc by (simp add: ready_def)
  have len: "int (length (?h @ data)) < 2 ^ 56 - 1"
    using length_block_head [OF tn(1), of relTC "if kf then 0x80 else 0"] sz DataSizeLen_bounds [of "sint tn"]
    by (simp add: maxBlockSize_def)
  obtain b where b: "parseBlock (int (length (?h @ data))) True (at ?br (?h @ data @ rest)) = (Inr b, at ?br rest)"
    "media b = (tn, tc, kf, data, 0, 0, [])"
    using parseBlock_head [OF tn ready_accepts(1) [OF rb] sz, of relTC "if kf then 0x80 else 0" True rest]
      parse_unlaced_at [OF tc', of tn kf data rest] ready_accepts(2) [OF rb] flags_plain [of kf]
    by (simp add: media_def plain_block_def zero_block_def Let_def)
  have "cluster_child fuel \<lparr>hdr_ID = IDSimpleBlock, hdr_Size = int (length (?h @ data))\<rparr> st
      (at (seen st IDSimpleBlock br) ((?h @ data) @ rest)) = Some (Some (Inr b), at ?br rest)"
    using b(1) by (simp add: cluster_child_def ids_distinct at_simps block_out_Inr)
  from next_block_elem [OF r E valid_block_IDs(1) len st this]
  have n: "next_block (Suc fuel) (at br (elem IDSimpleBlock (?h @ data) @ rest)) = Some (Inr b, at ?br rest)" by simp
  show ?thesis using n b(2) by (intro exI [of _ b]) (simp add: at_simps)
qed

lemma media_lace_blocks: "map media (lace_blocks tn tc 0 kf laced off i fs) = map (\<lambda>f. (tn, tc, kf, f, 0, 0, [])) fs"
  by (induction fs arbitrary: off i) (simp_all add: media_def zero_block_def)

lemma flags_laced:
  "unat (drop_bit 1 ((if s then 0x04 else 0x02) OR (if kf then 0x80 else 0) :: byte) AND 0x03)
     = (if s then lacingFixed else lacingXiph)"
  "(((if s then 0x04 else 0x02) OR (if kf then 0x80 else 0) :: byte) AND 0x80 \<noteq> 0) = kf"
  by (simp_all add: lacing_defs)

lemma read_lace:
  fixes kf :: bool and fs :: "bytes list"
  defines "flags \<equiv> (if same_size fs then 0x04 else 0x02) OR (if kf then 0x80 else 0)"
  assumes r: "ready ts E br" and E: "0 \<le> E" "br_end br - int (length rest) \<le> E"
    and tn: "0 \<le> sint tn" "sint tn < 2 ^ 56 - 1" and fs: "fs \<noteq> []" "length fs \<le> 256"
    and sz: "int (length (lace_data fs)) \<le> maxBlockSize"
    and tc: "safeTimecodeMs (wrap64 (ts + sint relTC)) DefaultTimecodeScale = Inr tc"
    and fuels: "Suc (length fuels) = length fs"
    and st: "st = br_end br - int (length (elem IDSimpleBlock (block_head tn relTC flags @ lace_data fs) @ rest))"
  shows "\<exists>bs. take_blocks (Suc fuel # fuels) (at br (elem IDSimpleBlock (block_head tn relTC flags @ lace_data fs) @ rest))
           = Some (map (\<lambda>b. (b, st)) bs, at ((seen st IDSimpleBlock br)\<lparr>blockStart := st\<rparr>) rest) \<and>
         map media bs = map (\<lambda>f. (tn, tc, kf, f, 0, 0, [])) fs"
proof -
  let ?br = "(seen st IDSimpleBlock br)\<lparr>blockStart := st\<rparr>" and ?h = "block_head tn relTC flags" and ?d = "lace_data fs"
  note rb = ready_seen [OF r, of st st IDSimpleBlock]
  have tc': "safeTimecodeMs (wrap64 (clusterTS ?br + sint relTC)) (timecodeScale ?br) = Inr tc"
    using rb tc by (simp add: ready_def)
  have len: "int (length (?h @ ?d)) < 2 ^ 56 - 1"
    using length_block_head [OF tn(1), of relTC flags] sz DataSizeLen_bounds [of "sint tn"]
    by (simp add: maxBlockSize_def)
  obtain b bs where bs: "lace_blocks tn tc (track_dur ?br tn) kf (length fs > 1)
      (br_end ?br - int (length (concat fs) + length rest)) 0 fs = b # bs"
    using fs(1) by (cases fs) simp_all
  then have m: "map media (b # bs) = map (\<lambda>f. (tn, tc, kf, f, 0, 0, [])) fs"
    using media_lace_blocks [of tn tc kf] ready_accepts(3) [OF rb] by (metis bs)
  have p: "parseBlock (int (length (?h @ ?d))) True (at ?br (?h @ ?d @ rest)) = (Inr b, at (?br\<lparr>br_pending := bs\<rparr>) rest)"
    using parseBlock_head [OF tn ready_accepts(1) [OF rb] sz, of relTC flags True rest]
      parse_laced_at [OF fs sz ready_accepts(2) [OF rb] tc' bs] flags_laced [of "same_size fs" kf]
    by (simp add: flags_def lacing_defs lace_kind_def Let_def)
  have "cluster_child fuel \<lparr>hdr_ID = IDSimpleBlock, hdr_Size = int (length (?h @ ?d))\<rparr> st
      (at (seen st IDSimpleBlock br) ((?h @ ?d) @ rest)) = Some (Some (Inr b), at (?br\<lparr>br_pending := bs\<rparr>) rest)"
    using p by (simp add: cluster_child_def ids_distinct at_simps block_out_Inr)
  from next_block_elem [OF r E valid_block_IDs(1) len st this]
  have n: "next_block (Suc fuel) (at br (elem IDSimpleBlock (?h @ ?d) @ rest)) = Some (Inr b, at (?br\<lparr>br_pending := bs\<rparr>) rest)"
    by simp
  have len_bs: "length fs = Suc (length bs)" using arg_cong [OF m, of length] by simp
  have "?br\<lparr>br_pending := []\<rparr> = ?br" using rb by (simp add: br_pending_id ready_def)
  then have t: "take_blocks fuels (at (?br\<lparr>br_pending := bs\<rparr>) rest) = Some (map (\<lambda>b. (b, st)) bs, at ?br rest)"
    using take_pending [of "at (?br\<lparr>br_pending := bs\<rparr>) rest" bs fuels] fuels len_bs by (simp add: at_simps)
  then show ?thesis using n t m by (intro exI [of _ "b # bs"]) (simp add: at_simps)
qed

lemma read_group:
  assumes r: "ready ts E br" and E: "0 \<le> E" "br_end br - int (length rest) \<le> E"
    and tn: "0 \<le> sint tn" "sint tn < 2 ^ 56 - 1" and sz: "int (length data) \<le> maxBlockSize"
    and tc: "safeTimecodeMs (wrap64 (ts + sint relTC)) DefaultTimecodeScale = Inr tc"
    and p: "in_int64 p" and ref: "case ref of None \<Rightarrow> True | Some d \<Rightarrow> in_int64 d"
    and d: "safeTimecodeMs (sint v) DefaultTimecodeScale = Inr d"
    and as: "int (sum_list (map (length \<circ> add_Data) as)) \<le> maxBlockAdditional" "length as \<le> maxBlockMores"
    and len: "int (length (group_body tn relTC data v ref p as)) < 2 ^ 56 - 1"
    and fuel: "length (group_body tn relTC data v ref p as) < fuel"
    and st: "st = br_end br - int (length (elem IDBlockGroup (group_body tn relTC data v ref p as) @ rest))"
  shows "\<exists>b. take_blocks [Suc fuel] (at br (elem IDBlockGroup (group_body tn relTC data v ref p as) @ rest))
           = Some ([(b, st)], at ((seen st IDBlockGroup br)\<lparr>blockStart := st\<rparr>) rest) \<and>
         media b = (tn, tc, ref = None, data, d, p, as)"
proof -
  let ?br = "(seen st IDBlockGroup br)\<lparr>blockStart := st\<rparr>" and ?g = "group_body tn relTC data v ref p as"
  note rb = ready_seen [OF r, of st st IDBlockGroup]
  have rf: "timecodeScale ?br = DefaultTimecodeScale" "clusterTS ?br = ts" "br_pending ?br = []" using rb by (simp_all add: ready_def)
  obtain b where b: "parseBlockGroup fuel (int (length ?g)) (at ?br (?g @ rest)) = Some (Inr b, at ?br rest)"
    "media b = (tn, tc, ref = None, data, d, p, as)"
    using parseBlockGroup_at [OF tn ready_accepts(1) [OF rb] sz ready_accepts(2) [OF rb] rf(3) _ p ref _ as len fuel, of tc d rest]
      tc d rf by (simp add: media_def plain_block_def zero_block_def)
  have "cluster_child fuel \<lparr>hdr_ID = IDBlockGroup, hdr_Size = int (length ?g)\<rparr> st
      (at (seen st IDBlockGroup br) (?g @ rest)) = Some (Some (Inr b), at ?br rest)"
    using b(1) by (simp add: cluster_child_def ids_distinct at_simps block_out_Inr)
  from next_block_elem [OF r E valid_block_IDs(2) len st this]
  have n: "next_block (Suc fuel) (at br (elem IDBlockGroup ?g @ rest)) = Some (Inr b, at ?br rest)" by simp
  show ?thesis using n b(2) by (intro exI [of _ b]) (simp add: at_simps)
qed

text \<open>
  \<open>reads_back ts body bs os\<close>: a reader before \<open>body\<close> in a cluster of timestamp \<open>ts\<close> delivers the
  blocks \<open>bs\<close>, found at the offsets \<open>os\<close> of the body, and is left behind it.
\<close>

definition reads_back :: "int \<Rightarrow> bytes \<Rightarrow> Block list \<Rightarrow> int list \<Rightarrow> bool" where
  "reads_back ts body bs os \<longleftrightarrow> length os = length bs \<and>
     (\<forall>E br rest fuels. ready ts E br \<and> 0 \<le> E \<and> br_end br - int (length rest) \<le> E \<and>
        int (length body) \<le> maxBlockSize \<and> length fuels = length bs \<and> (\<forall>f \<in> set fuels. Suc (length body) < f) \<longrightarrow>
        (\<exists>rs br'. take_blocks fuels (at br (body @ rest)) = Some (rs, at br' rest) \<and> br_end br' = br_end br \<and>
           ready ts E br' \<and> map (media \<circ> fst) rs = map media bs \<and>
           map snd rs = map (\<lambda>o1. br_end br - int (length (body @ rest)) + o1) os))"

lemma reads_backD:
  assumes "reads_back ts body bs os" "ready ts E br" "0 \<le> E" "br_end br - int (length rest) \<le> E"
    "int (length body) \<le> maxBlockSize" "length fuels = length bs" "\<And>f. f \<in> set fuels \<Longrightarrow> Suc (length body) < f"
  obtains rs br' where "take_blocks fuels (at br (body @ rest)) = Some (rs, at br' rest)" "br_end br' = br_end br"
    "ready ts E br'" "map (media \<circ> fst) rs = map media bs"
    "map snd rs = map (\<lambda>o1. br_end br - int (length (body @ rest)) + o1) os"
  using assms unfolding reads_back_def by blast

lemma reads_back_Nil: "reads_back ts [] [] []"
  by (auto simp add: reads_back_def intro!: exI)

lemma reads_back_append:
  assumes x: "reads_back ts x as os1" and y: "reads_back ts y bs os2"
  shows "reads_back ts (x @ y) (as @ bs) (os1 @ map (\<lambda>o1. int (length x) + o1) os2)"
  unfolding reads_back_def
proof (intro conjI allI impI)
  show "length (os1 @ map (\<lambda>o1. int (length x) + o1) os2) = length (as @ bs)"
    using x y by (simp add: reads_back_def)
  fix E br fuels and rest :: bytes
  assume a: "ready ts E br \<and> 0 \<le> E \<and> br_end br - int (length rest) \<le> E \<and> int (length (x @ y)) \<le> maxBlockSize \<and>
    length fuels = length (as @ bs) \<and> (\<forall>f \<in> set fuels. Suc (length (x @ y)) < f)"
  define f1 f2 where "f1 = take (length as) fuels" and "f2 = drop (length as) fuels"
  have f: "fuels = f1 @ f2" "length f1 = length as" "length f2 = length bs" using a by (simp_all add: f1_def f2_def)
  have p1: "br_end br - int (length (y @ rest)) \<le> E" "int (length x) \<le> maxBlockSize" and p2: "int (length y) \<le> maxBlockSize"
    using a by simp_all
  have lt: "Suc (length (x @ y)) < g" if "g \<in> set fuels" for g using a that by blast
  have g1: "Suc (length x) < g" if "g \<in> set f1" for g using lt [of g] that f(1) by simp
  have g2: "Suc (length y) < g" if "g \<in> set f2" for g using lt [of g] that f(1) by simp
  obtain rs1 b1 where r1: "take_blocks f1 (at br (x @ y @ rest)) = Some (rs1, at b1 (y @ rest))" "br_end b1 = br_end br"
    "ready ts E b1" "map (media \<circ> fst) rs1 = map media as"
    "map snd rs1 = map (\<lambda>o1. br_end br - int (length (x @ y @ rest)) + o1) os1"
    using reads_backD [OF x _ _ p1 f(2) g1] a by blast
  have e1: "br_end b1 - int (length rest) \<le> E" using a r1(2) by simp
  obtain rs2 b2 where r2: "take_blocks f2 (at b1 (y @ rest)) = Some (rs2, at b2 rest)" "br_end b2 = br_end b1"
    "ready ts E b2" "map (media \<circ> fst) rs2 = map media bs"
    "map snd rs2 = map (\<lambda>o1. br_end b1 - int (length (y @ rest)) + o1) os2"
    using reads_backD [OF y r1(3) _ e1 p2 f(3) g2] a by blast
  have "take_blocks fuels (at br ((x @ y) @ rest)) = Some (rs1 @ rs2, at b2 rest)"
    using take_blocks_append [OF r1(1) r2(1)] f(1) by simp
  then show "\<exists>rs br'. take_blocks fuels (at br ((x @ y) @ rest)) = Some (rs, at br' rest) \<and> br_end br' = br_end br \<and>
      ready ts E br' \<and> map (media \<circ> fst) rs = map media (as @ bs) \<and>
      map snd rs = map (\<lambda>o1. br_end br - int (length ((x @ y) @ rest)) + o1) (os1 @ map (\<lambda>o1. int (length x) + o1) os2)"
    using r1 r2 by (intro exI [of _ "rs1 @ rs2"] exI [of _ b2]) simp
qed

lemma reads_backI:
  assumes "length os = length bs"
    and "\<And>E br rest f fuels. ready ts E br \<Longrightarrow> 0 \<le> E \<Longrightarrow> br_end br - int (length rest) \<le> E \<Longrightarrow>
      int (length body) \<le> maxBlockSize \<Longrightarrow> Suc (length fuels) = length bs \<Longrightarrow> length body < f \<Longrightarrow>
      \<exists>rs eid. take_blocks (Suc f # fuels) (at br (body @ rest))
        = Some (rs, at ((seen (br_end br - int (length (body @ rest))) eid br)
                          \<lparr>blockStart := br_end br - int (length (body @ rest))\<rparr>) rest) \<and>
        map (media \<circ> fst) rs = map media bs \<and> map snd rs = map (\<lambda>o1. br_end br - int (length (body @ rest)) + o1) os"
    and "bs \<noteq> []"
  shows "reads_back ts body bs os"
  unfolding reads_back_def
proof (intro conjI allI impI)
  show "length os = length bs" by (rule assms(1))
  fix E br fuels and rest :: bytes
  assume a: "ready ts E br \<and> 0 \<le> E \<and> br_end br - int (length rest) \<le> E \<and> int (length body) \<le> maxBlockSize \<and>
    length fuels = length bs \<and> (\<forall>f \<in> set fuels. Suc (length body) < f)"
  then obtain f0 gs where "fuels = f0 # gs" "Suc (length gs) = length bs" using assms(3) by (cases fuels) auto
  then obtain f gs where f: "fuels = Suc f # gs" "Suc (length gs) = length bs" "length body < f" using a by (cases f0) auto
  let ?p = "br_end br - int (length (body @ rest))"
  obtain rs eid where r: "take_blocks fuels (at br (body @ rest)) = Some (rs, at ((seen ?p eid br)\<lparr>blockStart := ?p\<rparr>) rest)"
    "map (media \<circ> fst) rs = map media bs" "map snd rs = map (\<lambda>o1. ?p + o1) os"
    using assms(2) [of E br rest gs f] a f by auto
  have "ready ts E ((seen ?p eid br)\<lparr>blockStart := ?p\<rparr>)" using a by (intro ready_seen) simp
  then show "\<exists>rs br'. take_blocks fuels (at br (body @ rest)) = Some (rs, at br' rest) \<and> br_end br' = br_end br \<and>
      ready ts E br' \<and> map (media \<circ> fst) rs = map media bs \<and> map snd rs = map (\<lambda>o1. ?p + o1) os"
    using r by (intro exI [of _ rs] exI [of _ "(seen ?p eid br)\<lparr>blockStart := ?p\<rparr>"]) (simp add: seen_def)
qed

section \<open>Timecodes on the millisecond scale\<close>

definition block_ok :: "Block \<Rightarrow> bool" where
  "block_ok b \<longleftrightarrow> 0 \<le> sint (TrackNumber b) \<and> sint (TrackNumber b) < 2 ^ 56 - 1 \<and> \<bar>Timecode b\<bar> \<le> 2 ^ 41 \<and>
     0 \<le> Duration b \<and> Duration b \<le> 2 ^ 41 \<and> in_int64 (DiscardPaddingNs b) \<and>
     int (sum_list (map (length \<circ> add_Data) (Additions b))) \<le> maxBlockAdditional \<and>
     length (Additions b) \<le> maxBlockMores"

lemma in_int64_abs: "\<bar>x\<bar> \<le> 2 ^ 62 \<Longrightarrow> in_int64 x"
  by (simp add: in_int64_def int64_min_def int64_max_def abs_le_iff)

lemma go_div_mult: "0 < k \<Longrightarrow> go_div (x * k) k = x"
  by (simp add: go_div_def abs_mult sgn_mult mult_sgn_abs)

lemma ms_scale:
  assumes "\<bar>x\<bar> \<le> 2 ^ 42"
  shows "wrap64 x = x" "go_div (wrap64 (x * 1000000)) 1000000 = x" "safeTimecodeMs x 1000000 = Inr x"
proof -
  have "\<bar>x * 1000000\<bar> \<le> 2 ^ 62" using assms by (simp add: abs_mult)
  then have w: "wrap64 (x * 1000000) = x * 1000000" by (intro wrap64_id in_int64_abs)
  show "wrap64 x = x" using assms by (intro wrap64_id in_int64_abs) simp
  show d: "go_div (wrap64 (x * 1000000)) 1000000 = x" unfolding w by (simp add: go_div_mult)
  have "go_div int64_max 1000000 = 9223372036854" "go_div int64_min 1000000 = - 9223372036854"
    by (simp_all add: int64_max_def int64_min_def go_div_def)
  then show "safeTimecodeMs x 1000000 = Inr x" using assms d by (simp add: safeTimecodeMs_def abs_le_iff)
qed

lemma raw_delta_ms: "\<bar>a\<bar> \<le> 2 ^ 41 \<Longrightarrow> \<bar>b\<bar> \<le> 2 ^ 41 \<Longrightarrow> raw_delta 1000000 a b = a - b"
  using ms_scale [of "a - b"] by (simp add: raw_delta_def abs_le_iff)

lemma sint16: "- (2 ^ 15) \<le> x \<Longrightarrow> x \<le> 2 ^ 15 - 1 \<Longrightarrow> sint (word_of_int x :: 16 word) = x"
  by (simp add: signed_of_int signed_take_bit_int_eq_self)

lemma rel_timecode:
  assumes "\<bar>tc\<bar> \<le> 2 ^ 41" "\<bar>ts\<bar> \<le> 2 ^ 41" "- (2 ^ 15) \<le> tc - ts" "tc - ts \<le> 2 ^ 15 - 1"
  shows "safeTimecodeMs (wrap64 (ts + sint (word_of_int (tc - ts) :: 16 word))) DefaultTimecodeScale = Inr tc"
proof -
  have "sint (word_of_int (tc - ts) :: 16 word) = tc - ts"
    using assms(3,4) by (rule sint16)
  then show ?thesis using assms(1) ms_scale [of tc] by (simp add: DefaultTimecodeScale_def)
qed

section \<open>The blocks of a cluster, one element at a time\<close>

lemma elem_body_le: "length body \<le> length (elem eid body)"
  using length_elem [of body eid] by simp

lemma small: "n \<le> maxBlockSize \<Longrightarrow> n < 2 ^ 56 - 1"
  by (simp add: maxBlockSize_def)

lemma simple_reads_back:
  assumes b: "block_ok b" and ts: "\<bar>ts\<bar> \<le> 2 ^ 41" "- (2 ^ 15) \<le> Timecode b - ts" "Timecode b - ts \<le> 2 ^ 15 - 1"
    and plain: "\<not> Duration b > 0" "DiscardPaddingNs b = 0" "Additions b = []"
  shows "reads_back ts
    (elem IDSimpleBlock (block_head (TrackNumber b) (word_of_int (Timecode b - ts)) (if Keyframe b then 0x80 else 0) @ Data b))
    [b] [0]"
proof (rule reads_backI)
  let ?h = "block_head (TrackNumber b) (word_of_int (Timecode b - ts)) (if Keyframe b then 0x80 else 0)"
  fix E br f and rest :: bytes and fuels :: "nat list"
  assume r: "ready ts E br" "0 \<le> E" "br_end br - int (length rest) \<le> E"
    and sz: "int (length (elem IDSimpleBlock (?h @ Data b))) \<le> maxBlockSize" and fs: "Suc (length fuels) = length [b]"
  let ?p = "br_end br - int (length (elem IDSimpleBlock (?h @ Data b) @ rest))"
  have tn: "0 \<le> sint (TrackNumber b)" "sint (TrackNumber b) < 2 ^ 56 - 1" and tc: "\<bar>Timecode b\<bar> \<le> 2 ^ 41" "0 \<le> Duration b"
    using b by (simp_all add: block_ok_def)
  have d: "int (length (Data b)) \<le> maxBlockSize"
    using sz elem_body_le [of "?h @ Data b" IDSimpleBlock] by simp
  obtain c where c: "take_blocks [Suc f] (at br (elem IDSimpleBlock (?h @ Data b) @ rest))
      = Some ([(c, ?p)], at ((seen ?p IDSimpleBlock br)\<lparr>blockStart := ?p\<rparr>) rest)"
    "media c = (TrackNumber b, Timecode b, Keyframe b, Data b, 0, 0, [])"
    using read_simple [OF r tn d rel_timecode [OF tc(1) ts] refl] by blast
  have "media c = media b" using c(2) plain tc(2) by (simp add: media_def)
  moreover have "fuels = []" using fs by simp
  ultimately show "\<exists>rs eid. take_blocks (Suc f # fuels) (at br (elem IDSimpleBlock (?h @ Data b) @ rest))
        = Some (rs, at ((seen ?p eid br)\<lparr>blockStart := ?p\<rparr>) rest) \<and>
        map (media \<circ> fst) rs = map media [b] \<and> map snd rs = map (\<lambda>o1. ?p + o1) [0]"
    using c(1) by (intro exI [of _ "[(c, ?p)]"] exI [of _ IDSimpleBlock]) simp
qed simp_all

lemma laced_reads_back:
  assumes b: "block_ok b" and ts: "\<bar>ts\<bar> \<le> 2 ^ 41" "- (2 ^ 15) \<le> Timecode b - ts" "Timecode b - ts \<le> 2 ^ 15 - 1"
    and run: "run \<noteq> []" "length run \<le> 256"
      "\<And>c. c \<in> set run \<Longrightarrow> media c = (TrackNumber b, Timecode b, Keyframe b, Data c, 0, 0, [])"
  defines "fs \<equiv> map Data run"
  defines "flags \<equiv> (if same_size fs then 0x04 else 0x02) OR (if Keyframe b then 0x80 else 0)"
  shows "reads_back ts
    (elem IDSimpleBlock (block_head (TrackNumber b) (word_of_int (Timecode b - ts)) flags @ lace_data fs))
    run (replicate (length run) 0)"
proof (rule reads_backI)
  let ?h = "block_head (TrackNumber b) (word_of_int (Timecode b - ts)) flags"
  fix E br f and rest :: bytes and fuels :: "nat list"
  assume r: "ready ts E br" "0 \<le> E" "br_end br - int (length rest) \<le> E"
    and sz: "int (length (elem IDSimpleBlock (?h @ lace_data fs))) \<le> maxBlockSize" and fuels: "Suc (length fuels) = length run"
  let ?p = "br_end br - int (length (elem IDSimpleBlock (?h @ lace_data fs) @ rest))"
  have tn: "0 \<le> sint (TrackNumber b)" "sint (TrackNumber b) < 2 ^ 56 - 1" and tc: "\<bar>Timecode b\<bar> \<le> 2 ^ 41"
    using b by (simp_all add: block_ok_def)
  have d: "int (length (lace_data fs)) \<le> maxBlockSize"
    using sz elem_body_le [of "?h @ lace_data fs" IDSimpleBlock] by simp
  have fs: "fs \<noteq> []" "length fs \<le> 256" "Suc (length fuels) = length fs" using run fuels by (simp_all add: fs_def)
  obtain bs where bs: "take_blocks (Suc f # fuels) (at br (elem IDSimpleBlock (?h @ lace_data fs) @ rest))
      = Some (map (\<lambda>b. (b, ?p)) bs, at ((seen ?p IDSimpleBlock br)\<lparr>blockStart := ?p\<rparr>) rest)"
    "map media bs = map (\<lambda>f. (TrackNumber b, Timecode b, Keyframe b, f, 0, 0, [])) fs"
    using read_lace [where fs = fs and kf = "Keyframe b", folded flags_def, OF r tn fs(1,2) d rel_timecode [OF tc ts] fs(3) refl]
    by blast
  have m: "map media bs = map media run" unfolding bs(2) fs_def using run(3) by simp
  have "length bs = length run" using arg_cong [OF m, of length] by simp
  then show "\<exists>rs eid. take_blocks (Suc f # fuels) (at br (elem IDSimpleBlock (?h @ lace_data fs) @ rest))
        = Some (rs, at ((seen ?p eid br)\<lparr>blockStart := ?p\<rparr>) rest) \<and>
        map (media \<circ> fst) rs = map media run \<and> map snd rs = map (\<lambda>o1. ?p + o1) (replicate (length run) 0)"
    using bs(1) m by (intro exI [of _ "map (\<lambda>b. (b, ?p)) bs"] exI [of _ IDSimpleBlock]) (simp add: comp_def map_replicate_const)
qed (simp_all add: run)

lemma group_reads_back:
  assumes b: "block_ok b" and ts: "\<bar>ts\<bar> \<le> 2 ^ 41" "- (2 ^ 15) \<le> Timecode b - ts" "Timecode b - ts \<le> 2 ^ 15 - 1"
    and ref: "case ref of None \<Rightarrow> True | Some d \<Rightarrow> in_int64 d" "(ref = None) = Keyframe b"
  shows "reads_back ts
    (elem IDBlockGroup (group_body (TrackNumber b) (word_of_int (Timecode b - ts)) (Data b) (word_of_int (Duration b)) ref
       (DiscardPaddingNs b) (Additions b)))
    [b] [0]"
proof (rule reads_backI)
  let ?g = "group_body (TrackNumber b) (word_of_int (Timecode b - ts)) (Data b) (word_of_int (Duration b)) ref
    (DiscardPaddingNs b) (Additions b)"
  fix E br f and rest :: bytes and fuels :: "nat list"
  assume r: "ready ts E br" "0 \<le> E" "br_end br - int (length rest) \<le> E"
    and sz: "int (length (elem IDBlockGroup ?g)) \<le> maxBlockSize" and fs: "Suc (length fuels) = length [b]"
    and fuel: "length (elem IDBlockGroup ?g) < f"
  let ?p = "br_end br - int (length (elem IDBlockGroup ?g @ rest))"
  have tn: "0 \<le> sint (TrackNumber b)" "sint (TrackNumber b) < 2 ^ 56 - 1" and tc: "\<bar>Timecode b\<bar> \<le> 2 ^ 41"
    and du: "0 \<le> Duration b" "Duration b \<le> 2 ^ 41" and pd: "in_int64 (DiscardPaddingNs b)"
    and ad: "int (sum_list (map (length \<circ> add_Data) (Additions b))) \<le> maxBlockAdditional" "length (Additions b) \<le> maxBlockMores"
    using b by (simp_all add: block_ok_def)
  have g: "int (length ?g) \<le> maxBlockSize" "length ?g < f" using sz fuel elem_body_le [of ?g IDBlockGroup] by simp_all
  have d: "int (length (Data b)) \<le> maxBlockSize"
    using g(1) elem_body_le [of "block_head (TrackNumber b) (word_of_int (Timecode b - ts)) 0 @ Data b" IDBlock]
    by (simp add: group_body_def)
  have "sint (word_of_int (Duration b) :: u64) = Duration b" using du by (intro sint_word_of_int_small) simp_all
  then have dur: "safeTimecodeMs (sint (word_of_int (Duration b) :: u64)) DefaultTimecodeScale = Inr (Duration b)"
    using ms_scale(3) [of "Duration b"] du by (simp add: DefaultTimecodeScale_def)
  obtain c where c: "take_blocks [Suc f] (at br (elem IDBlockGroup ?g @ rest))
      = Some ([(c, ?p)], at ((seen ?p IDBlockGroup br)\<lparr>blockStart := ?p\<rparr>) rest)"
    "media c = (TrackNumber b, Timecode b, ref = None, Data b, Duration b, DiscardPaddingNs b, Additions b)"
    using read_group [OF r tn d rel_timecode [OF tc ts] pd ref(1) dur ad small [OF g(1)] g(2) refl] by blast
  have "media c = media b" using c(2) ref(2) by (simp add: media_def)
  moreover have "fuels = []" using fs by simp
  ultimately show "\<exists>rs eid. take_blocks (Suc f # fuels) (at br (elem IDBlockGroup ?g @ rest))
        = Some (rs, at ((seen ?p eid br)\<lparr>blockStart := ?p\<rparr>) rest) \<and>
        map (media \<circ> fst) rs = map media [b] \<and> map snd rs = map (\<lambda>o1. ?p + o1) [0]"
    using c(1) by (intro exI [of _ "[(c, ?p)]"] exI [of _ IDBlockGroup]) simp
qed simp_all

lemma WriteSimpleBlock_elem:
  assumes "0 \<le> sint tn"
  shows "WriteSimpleBlock tn relTC kf data = Inr (elem IDSimpleBlock (block_head tn relTC (if kf then 0x80 else 0) @ data))"
proof -
  obtain h where "WriteElementHeader IDSimpleBlock (int (length (block_head tn relTC (if kf then 0x80 else 0)) + length data)) = Inr h"
    "WriteSimpleBlock tn relTC kf data = Inr (h @ block_head tn relTC (if kf then 0x80 else 0) @ data)"
    using WriteSimpleBlock_bytes [OF assms] .
  then show ?thesis by (simp add: elem_def)
qed

lemma writeLacedSimpleBlock_elem:
  fixes kf :: bool and tn :: u64
  assumes "0 \<le> sint tn" and "frames \<noteq> []"
  defines "fs \<equiv> map Data frames"
  defines "flags \<equiv> (if same_size fs then 0x04 else 0x02) OR (if kf then 0x80 else 0)"
  shows "writeLacedSimpleBlock tn relTC kf frames = Inr (elem IDSimpleBlock (block_head tn relTC flags @ lace_data fs))"
proof -
  obtain h where "WriteElementHeader IDSimpleBlock (int (length (block_head tn relTC flags) + length (lace_data fs))) = Inr h"
    "writeLacedSimpleBlock tn relTC kf frames = Inr (h @ block_head tn relTC flags @ lace_data fs)"
    using writeLacedSimpleBlock_bytes [OF assms(1,2), where kf = kf, folded fs_def, folded flags_def] by blast
  then show ?thesis by (simp add: elem_def)
qed

lemma lacedRun_facts:
  assumes "1 < lacedRun (b # bs)"
  shows "lacedRun (b # bs) \<le> length (b # bs)" "lacedRun (b # bs) \<le> 256"
    and "c \<in> set (take (lacedRun (b # bs)) (b # bs)) \<Longrightarrow>
      \<not> Duration c > 0 \<and> DiscardPaddingNs c = 0 \<and> Additions c = [] \<and> TrackNumber c = TrackNumber b \<and>
      Timecode c = Timecode b \<and> Keyframe c = Keyframe b"
proof -
  let ?r = "take (maxLaceFrames - 1) bs"
  let ?w = "takeWhile (lace_joins b) ?r"
  have n: "lacedRun (b # bs) = Suc (length ?w)" and first: "\<not> Duration b > 0" "DiscardPaddingNs b = 0" "Additions b = []"
    using assms by (auto simp add: lacedRun_def split: if_splits)
  have l: "length ?w \<le> length ?r" by (rule length_takeWhile_le)
  show "lacedRun (b # bs) \<le> length (b # bs)" "lacedRun (b # bs) \<le> 256"
    using n l by (simp_all add: maxLaceFrames_def)
  assume "c \<in> set (take (lacedRun (b # bs)) (b # bs))"
  moreover have "take (length ?w) bs = ?w"
  proof -
    have "take (length ?w) ?r = ?w" by (metis append_eq_conv_conj takeWhile_dropWhile_id)
    moreover have "length ?w \<le> maxLaceFrames - 1" using l by simp
    then have "take (length ?w) ?r = take (length ?w) bs" by (simp only: take_take min_absorb1)
    ultimately show ?thesis by simp
  qed
  ultimately have "c = b \<or> c \<in> set ?w" using n by simp
  moreover have "c \<in> set ?w \<Longrightarrow> lace_joins b c" by (auto dest: set_takeWhileD)
  ultimately show "\<not> Duration c > 0 \<and> DiscardPaddingNs c = 0 \<and> Additions c = [] \<and> TrackNumber c = TrackNumber b \<and>
      Timecode c = Timecode b \<and> Keyframe c = Keyframe b"
    using first by (auto simp add: lace_joins_def)
qed

lemma in_int64_small: "\<bar>x\<bar> \<le> 2 ^ 42 \<Longrightarrow> in_int64 x"
  by (rule in_int64_abs) simp

lemma ew_put_Inr: "ew_err e = None \<Longrightarrow> ew_put (Inr x) e = e\<lparr>ew_buf := ew_buf e @ x\<rparr>"
  by (simp add: ew_put_def)

lemma cluster_loop_reads_back:
  assumes "cluster_loop ts 1000000 bs prev e offs = Inr (offs', e')" "ew_err e = None" "list_all block_ok bs"
    "\<bar>ts\<bar> \<le> 2 ^ 41" "\<And>tn p. prev tn = Some p \<Longrightarrow> \<bar>p\<bar> \<le> 2 ^ 41"
  shows "\<exists>body os. ew_err e' = None \<and> ew_buf e' = ew_buf e @ body \<and>
    offs' = offs @ map (\<lambda>o1. int (length (ew_buf e)) + o1) os \<and> reads_back ts body bs os"
  using assms
proof (induction "length bs" arbitrary: bs prev e offs rule: less_induct)
  case less
  show ?case
  proof (cases bs)
    case Nil
    with less.prems(1,2) show ?thesis by (auto intro!: exI [of _ "[]"] reads_back_Nil)
  next
    case (Cons b bs1)
    define rel where "rel = Timecode b - ts"
    have ok: "block_ok b" "list_all block_ok bs1" using less.prems(3) Cons by simp_all
    then have tn: "0 \<le> sint (TrackNumber b)" and tc: "\<bar>Timecode b\<bar> \<le> 2 ^ 41" and du: "0 \<le> Duration b" "Duration b \<le> 2 ^ 41"
      by (simp_all add: block_ok_def)
    have rd: "raw_delta 1000000 (Timecode b) ts = rel" using raw_delta_ms tc less.prems(4) by (simp add: rel_def)
    let ?prev = "prev(TrackNumber b \<mapsto> Timecode b)"
    have prev: "\<And>tn p. ?prev tn = Some p \<Longrightarrow> \<bar>p\<bar> \<le> 2 ^ 41" using less.prems(5) tc by (auto split: if_splits)
    note eq = less.prems(1) [unfolded Cons cluster_loop.simps(2) Let_def rd]
    have range: "- (2 ^ 15) \<le> rel" "rel \<le> 2 ^ 15 - 1" using eq by (auto split: if_splits)
    text \<open>One element, then the rest of the blocks.\<close>
    have step: ?thesis
      if run: "cluster_loop ts 1000000 rest ?prev (ew_put (Inr x) e) (offs @ replicate n (int (length (ew_buf e)))) = Inr (offs', e')"
        and bs: "bs = front @ rest" "length front = n" "front \<noteq> []"
        and x: "reads_back ts x front (replicate n 0)" for x front rest n
    proof -
      let ?e = "e\<lparr>ew_buf := ew_buf e @ x\<rparr>"
      have p: "ew_put (Inr x) e = ?e" using less.prems(2) by (rule ew_put_Inr)
      have "list_all block_ok rest" using less.prems(3) bs(1) by simp
      moreover have "length rest < length bs" using bs by (cases front) auto
      ultimately have "\<exists>body os. ew_err e' = None \<and> ew_buf e' = ew_buf ?e @ body \<and>
          offs' = (offs @ replicate n (int (length (ew_buf e)))) @ map (\<lambda>o1. int (length (ew_buf ?e)) + o1) os \<and>
          reads_back ts body rest os"
        by (intro less.hyps [OF _ run [unfolded p] _ _ less.prems(4)] prev) (use less.prems(2) bs in simp_all)
      then obtain body os where r: "ew_err e' = None" "ew_buf e' = ew_buf ?e @ body"
        "offs' = (offs @ replicate n (int (length (ew_buf e)))) @ map (\<lambda>o1. int (length (ew_buf ?e)) + o1) os"
        "reads_back ts body rest os"
        by blast
      let ?os = "replicate n 0 @ map (\<lambda>o1. int (length x) + o1) os"
      have "reads_back ts (x @ body) bs ?os" using reads_back_append [OF x r(4)] bs(1) by simp
      moreover have "offs' = offs @ map (\<lambda>o1. int (length (ew_buf e)) + o1) ?os"
        using r(3) by (simp add: comp_def add.assoc map_replicate_const)
      ultimately show ?thesis using r(1,2) by (intro exI [of _ "x @ body"] exI [of _ ?os]) simp
    qed
    have s1: "replicate 1 (int (length (ew_buf e))) = [int (length (ew_buf e))]" "replicate 1 (0 :: int) = [0]" by simp_all
    show ?thesis
    proof (cases "Duration b > 0 \<or> DiscardPaddingNs b \<noteq> 0 \<or> Additions b \<noteq> []")
      case True
      define ref where "ref = (if Keyframe b then None
          else Some (case prev (TrackNumber b) of
             Some prev \<Rightarrow> if prev < Timecode b then raw_delta 1000000 prev (Timecode b) else -1 | None \<Rightarrow> -1))"
      let ?g = "group_body (TrackNumber b) (word_of_int rel) (Data b) (word_of_int (Duration b)) ref (DiscardPaddingNs b) (Additions b)"
      have in_ref: "in_int64 (raw_delta 1000000 p (Timecode b))" if "prev (TrackNumber b) = Some p" for p
        using raw_delta_ms [of p "Timecode b"] less.prems(5) [OF that] tc by (intro in_int64_small) simp
      have "case ref of None \<Rightarrow> True | Some d \<Rightarrow> in_int64 d"
        using in_ref by (auto simp add: ref_def in_int64_def int64_min_def int64_max_def split: option.split)
      then have x: "reads_back ts (elem IDBlockGroup ?g) [b] (replicate 1 0)"
        using group_reads_back [OF ok(1) less.prems(4)] range unfolding rel_def s1 by (simp add: ref_def)
      have dur: "go_div (wrap64 (Duration b * 1000000)) 1000000 = Duration b" using du by (intro ms_scale) simp
      have "cluster_loop ts 1000000 bs1 ?prev (ew_put (Inr (elem IDBlockGroup ?g)) e) (offs @ replicate 1 (int (length (ew_buf e))))
          = Inr (offs', e')"
        using eq True less.prems(2) range unfolding dur ref_def [symmetric] writeBlockGroup_elem [OF tn] s1 by simp
      then show ?thesis by (rule step [OF _ _ _ _ x]) (simp_all add: Cons)
    next
      case False
      define n where "n = lacedRun (b # bs1)"
      show ?thesis
      proof (cases "1 < n")
        case True
        note L = lacedRun_facts [of b bs1, folded n_def, OF True]
        let ?run = "take n (b # bs1)"
        have all_ok: "list_all block_ok ?run" unfolding list_all_iff
          by (metis Cons in_set_takeD less.prems(3) list_all_iff)
        have m: "media c = (TrackNumber b, Timecode b, Keyframe b, Data c, 0, 0, [])" if "c \<in> set ?run" for c
          using L(3) [OF that] all_ok that by (auto simp add: media_def list_all_iff block_ok_def)
        have ne: "?run \<noteq> []" "length ?run = n" using L(1) True by auto
        let ?fs = "map Data ?run"
        let ?x = "elem IDSimpleBlock (block_head (TrackNumber b) (word_of_int rel)
            ((if same_size ?fs then 0x04 else 0x02) OR (if Keyframe b then 0x80 else 0)) @ lace_data ?fs)"
        have x: "reads_back ts ?x ?run (replicate n 0)"
          using laced_reads_back [OF ok(1) less.prems(4) _ _ ne(1) _ m] range L(2) ne(2) unfolding rel_def by simp
        have "cluster_loop ts 1000000 (drop (n - 1) bs1) ?prev (ew_put (Inr ?x) e) (offs @ replicate n (int (length (ew_buf e))))
            = Inr (offs', e')"
          using eq False True less.prems(2) range writeLacedSimpleBlock_elem [OF tn ne(1), of "word_of_int rel" "Keyframe b"]
          unfolding n_def [symmetric] by simp
        moreover have "bs = ?run @ drop (n - 1) bs1" using True by (cases n) (simp_all add: Cons)
        ultimately show ?thesis using ne by (intro step [OF _ _ _ _ x]) simp_all
      next
        case single: False
        let ?x = "elem IDSimpleBlock (block_head (TrackNumber b) (word_of_int rel) (if Keyframe b then 0x80 else 0) @ Data b)"
        have x: "reads_back ts ?x [b] (replicate 1 0)"
          using simple_reads_back [OF ok(1) less.prems(4)] range False unfolding rel_def s1 by simp
        have "cluster_loop ts 1000000 bs1 ?prev (ew_put (Inr ?x) e) (offs @ replicate 1 (int (length (ew_buf e)))) = Inr (offs', e')"
          using eq False single less.prems(2) range
          unfolding n_def [symmetric] WriteSimpleBlock_elem [OF tn] s1 by simp
        then show ?thesis by (rule step [OF _ _ _ _ x]) (simp_all add: Cons)
      qed
    qed
  qed
qed

section \<open>A whole cluster\<close>

lemma length_elem_eq: "length (elem eid body) = ElementHeaderLen eid (int (length body)) + length body"
  using WriteElementHeader_ok [of "int (length body)" eid] by (auto simp add: elem_def)

lemma next_block_start:
  assumes "br_pending br = []" "awaitLimit br = False"
  shows "next_block fuel br = next_loop fuel br"
  using assms by (simp add: next_block_def awaitLimit_id)

lemma enter_cluster:
  fixes ts :: int and blocks_bytes pre post :: bytes
  defines "t \<equiv> elem IDTimestamp (be_enc (UintLen (word_of_int ts)) (word_of_int ts :: u64))"
  defines "bs \<equiv> elem IDCluster (t @ blocks_bytes)"
  assumes ts: "0 \<le> ts" "ts \<le> 2 ^ 41" and sz: "int (length bs) \<le> maxBlockSize"
  obtains br E where "ready ts E br" "0 \<le> E" "br_end br - int (length post) = E" "br_end br = int (length (pre @ bs @ post))"
    "\<And>f. next_block (Suc (Suc f)) (NewBlockReaderAt (pre @ bs @ post) 1000000 (int (length pre)))
            = next_block f (at br (blocks_bytes @ post))"
proof -
  define B where "B = NewBlockReaderAt (pre @ bs @ post) 1000000 (int (length pre))"
  have B: "br_end B = int (length (pre @ bs @ post))" "segEnd B = -1" "\<not> inCluster B" "peeked B = None" "br_pending B = []"
    "awaitLimit B = False" "timecodeScale B = DefaultTimecodeScale" "clusterTS B = 0" "br_keep B = None" "br_known B = None"
    "\<not> headerOnly B" "trackDurNs B = None" "stopMs B = None" "clusterCount B = 0"
    by (simp_all add: B_def NewBlockReaderAt_def scaleOrDefault_def DefaultTimecodeScale_def)
  let ?v = "word_of_int ts :: u64"
  let ?body = "t @ blocks_bytes"
  define E where "E = int (length (pre @ bs))"
  have br0: "B = at B (bs @ post)" by (simp add: B_def NewBlockReaderAt_def seat_def at_def)
  have tell0: "tell (at B (bs @ post)) = int (length pre)" using B(1) by (simp add: at_simps)
  have body: "int (length ?body) < 2 ^ 56 - 1" using sz elem_body_le [of ?body IDCluster] by (intro small) (simp add: bs_def)
  obtain h where h: "WriteElementHeader IDCluster (int (length ?body)) = Inr h" "bs = h @ ?body"
    using elem_header [of IDCluster ?body] by (auto simp add: bs_def)
  define br1 where "br1 = B\<lparr>elemStart := int (length pre), elemID := IDCluster, suspected := False,
      clusterStart := int (length pre), clusterCount := 1, inCluster := True, clusterEnd := E\<rparr>"
  have r1: "ready 0 E br1"
    using B by (simp add: ready_def br1_def)
  have hdr: "next_header (at B (bs @ post))
      = (Inr (\<lparr>hdr_ID = IDCluster, hdr_Size = int (length ?body)\<rparr>, int (length pre)),
         at (B\<lparr>elemStart := int (length pre), elemID := 0\<rparr>) (?body @ post))"
    using at_header [OF h(1) valid_block_IDs(12) _ body, of "B\<lparr>elemStart := int (length pre), elemID := 0\<rparr>" "?body @ post"]
    unfolding next_header_def Let_def tell0 using B(4) by (simp add: at_simps h(2))
  have turn1: "segment_turn f (at B (bs @ post)) = Some (None, at br1 (?body @ post))" for f
    using B(2,14) by (simp add: segment_turn_def hdr at_simps Let_def) (simp add: br1_def E_def h(2) B)
  let ?r2 = "seen (int (length (pre @ bs)) - int (length ?body)) IDTimestamp br1"
  define br2 where "br2 = ?r2\<lparr>clusterTS := ts\<rparr>"
  have end1: "br_end br1 = int (length (pre @ bs @ post))" using B(1) by (simp add: br1_def)
  have n: "UintLen ?v \<le> 8" using UintLen_bounds [of ?v] by simp
  have v: "uint ?v = ts" using ts by (simp add: uint_word_of_int)
  have rd: "br_read (\<lambda>s. ReadUint s (int (UintLen ?v))) (at ?r2 (be_enc (UintLen ?v) ?v @ blocks_bytes @ post))
      = (Inr ?v, at ?r2 (blocks_bytes @ post))"
    using at_uint [OF n, of ?r2 ?v "blocks_bytes @ post"] UintLen_holds [of ?v] by simp
  have "\<not> ts > maxClusterTimestamp" using ts by (simp add: maxClusterTimestamp_def int64_max_def)
  then have child: "cluster_child f \<lparr>hdr_ID = IDTimestamp, hdr_Size = int (length (be_enc (UintLen ?v) ?v))\<rparr> st
      (at ?r2 (be_enc (UintLen ?v) ?v @ blocks_bytes @ post)) = Some (None, at br2 (blocks_bytes @ post))" for f st
    using rd r1 by (simp add: cluster_child_def timestamp_turn_def v at_simps beyond_stop_def ready_def seen_def br2_def Let_def)
  have turn2: "cluster_turn f (at br1 (?body @ post)) = Some (None, at br2 (blocks_bytes @ post))" for f
    using cluster_turn_elem [OF r1, of "blocks_bytes @ post" IDTimestamp "be_enc (UintLen ?v) ?v"
        "int (length (pre @ bs)) - int (length ?body)" f] child [of f] end1 n valid_block_IDs(11)
    by (simp add: E_def t_def)
  have r2: "ready ts E br2" using r1 by (simp add: ready_def br2_def seen_def)
  have in1: "\<not> inCluster (at B (bs @ post))" "inCluster (at br1 (?body @ post))"
    using B(3) by (simp_all add: at_simps br1_def)
  have nb: "next_block f (at br2 (blocks_bytes @ post)) = next_loop f (at br2 (blocks_bytes @ post))" for f
    using r2 by (intro next_block_start) (simp_all add: at_simps ready_def)
  have "next_block (Suc (Suc f)) B = next_block f (at br2 (blocks_bytes @ post))" for f
  proof -
    have "next_block (Suc (Suc f)) B = next_loop (Suc (Suc f)) (at B (bs @ post))"
      using B(5,6) by (subst br0, intro next_block_start) (simp_all add: at_simps)
    also have "\<dots> = next_loop f (at br2 (blocks_bytes @ post))"
      using in1 turn1 turn2 by simp
    finally show ?thesis by (simp add: nb)
  qed
  with r2 show thesis
    by (intro that [of E br2]) (simp_all add: B_def [symmetric] E_def br2_def seen_def end1)
qed

text \<open>
  C2. A cluster written by \<open>writeClusterOffsets\<close> on the default millisecond scale reads back as the
  blocks that were written: track, timecode, keyframe flag, data, duration, discard padding and
  additions, whatever mixture of SimpleBlocks, laces and BlockGroups the writer chose; each is found at
  the offset the writer returned for it, and the reader is left behind the cluster.
\<close>

theorem cluster_roundtrip:
  assumes "writeClusterOffsets ts 1000000 blocks = Inr (bs, offs)" and "ts \<le> 2 ^ 41"
    and "list_all block_ok blocks" and "blocks \<noteq> []" and "int (length bs) \<le> maxBlockSize"
    and "length fuels = length blocks" and "\<forall>f \<in> set fuels. length bs + 3 < f"
  shows "\<exists>rs br' n.
    take_blocks fuels (NewBlockReaderAt (pre @ bs @ post) 1000000 (int (length pre))) = Some (rs, br') \<and>
    map (media \<circ> fst) rs = map media blocks \<and> pending (br_src br') = post \<and>
    length bs = ElementHeaderLen IDCluster (int n) + n \<and>
    map snd rs = map (\<lambda>o1. int (length pre + ElementHeaderLen IDCluster (int n)) + o1) offs"
proof -
  let ?v = "word_of_int ts :: u64"
  define t where "t = elem IDTimestamp (be_enc (UintLen ?v) ?v)"
  have ts: "0 \<le> ts" "\<bar>ts\<bar> \<le> 2 ^ 41" using assms(1,2) by (auto simp add: writeClusterOffsets_def Let_def split: if_splits)
  have rawts: "go_div (wrap64 (ts * 1000000)) 1000000 = ts" using ts by (intro ms_scale) simp
  have e0: "ew_uint IDTimestamp ?v ew_new = \<lparr>ew_buf = t, ew_err = None\<rparr>"
    by (simp add: ew_uint_def ew_put_def ew_new_def WriteUintElement_elem t_def)
  obtain e' where c: "cluster_loop ts 1000000 blocks Map.empty \<lparr>ew_buf = t, ew_err = None\<rparr> [] = Inr (offs, e')"
    and f: "ew_flush IDCluster e' = Inr bs"
    using assms(1) ts rawts by (auto simp add: writeClusterOffsets_def e0 Let_def bind_r_Inr)
  obtain body os where w: "ew_err e' = None" "ew_buf e' = t @ body" "offs = map (\<lambda>o1. int (length t) + o1) os"
    "reads_back ts body blocks os"
    using cluster_loop_reads_back [OF c _ assms(3) ts(2)] by auto
  have bs: "bs = elem IDCluster (t @ body)" using f w(1,2) by (simp add: ew_flush_def WriteMasterElement_elem)
  obtain br E where r: "ready ts E br" "0 \<le> E" "br_end br - int (length post) = E" "br_end br = int (length (pre @ bs @ post))"
    "\<And>f. next_block (Suc (Suc f)) (NewBlockReaderAt (pre @ bs @ post) 1000000 (int (length pre))) = next_block f (at br (body @ post))"
    by (rule enter_cluster [OF ts(1) assms(2), of body post pre, folded t_def, folded bs, OF assms(5)]) (rule that)
  obtain f0 gs where g: "fuels = f0 # gs" using assms(4,6) by (cases fuels) auto
  then obtain f1 where f1: "f0 = Suc (Suc f1)" "length bs + 1 < f1" using assms(7) by (cases f0; cases "f0 - 1") auto
  have lb: "length body \<le> length bs" using elem_body_le [of "t @ body" IDCluster] by (simp add: bs)
  have sb: "int (length body) \<le> maxBlockSize" using assms(5) lb by simp
  have fuel: "Suc (length body) < f" if "f \<in> set (f1 # gs)" for f using that assms(7) f1(2) lb g by auto
  have e: "br_end br - int (length post) \<le> E" using r(3) by simp
  have lf: "length (f1 # gs) = length blocks" using assms(6) g by simp
  obtain rs b2 where rs: "take_blocks (f1 # gs) (at br (body @ post)) = Some (rs, at b2 post)"
    "map (media \<circ> fst) rs = map media blocks"
    "map snd rs = map (\<lambda>o1. br_end br - int (length (body @ post)) + o1) os"
    using reads_backD [OF w(4) r(1,2) e sb lf fuel] by blast
  have "take_blocks fuels (NewBlockReaderAt (pre @ bs @ post) 1000000 (int (length pre))) = Some (rs, at b2 post)"
    using rs(1) r(5) [of f1] g f1(1) by simp
  moreover have "map snd rs = map (\<lambda>o1. int (length pre + ElementHeaderLen IDCluster (int (length (t @ body)))) + o1) offs"
    unfolding rs(3) w(3) r(4) using length_elem_eq [of IDCluster "t @ body", folded bs] by simp
  ultimately show ?thesis
    using rs(2) length_elem_eq [of IDCluster "t @ body", folded bs]
    by (intro exI [of _ rs] exI [of _ "at b2 post"] exI [of _ "length (t @ body)"]) (simp add: at_simps)
qed

definition sample_block :: "u64 \<Rightarrow> int \<Rightarrow> bool \<Rightarrow> bytes \<Rightarrow> int \<Rightarrow> bool \<Rightarrow> Block" where
  "sample_block tn tc kf d du lace = zero_block\<lparr>TrackNumber := tn, Timecode := tc, Keyframe := kf, Data := d,
     Duration := du, Laced := lace\<rparr>"

theorem cluster_roundtrip_witness:
  "\<exists>rs br'. take_blocks [100, 100, 100]
      (NewBlockReaderAt ([9] @ [31, 67, 182, 117, 159, 231, 130, 3, 232, 163, 137, 129, 0, 5, 130, 1, 1, 7, 8, 9,
         160, 142, 161, 134, 130, 255, 246, 0, 1, 2, 155, 129, 40, 251, 129, 255] @ [5, 5]) 1000000 1) = Some (rs, br') \<and>
    map (media \<circ> fst) rs =
      [(1, 1005, True, [7], 0, 0, []), (1, 1005, True, [8, 9], 0, 0, []), (2, 990, False, [1, 2], 40, 0, [])]"
proof -
  let ?bs = "[sample_block 1 1005 True [7] 0 True, sample_block 1 1005 True [8, 9] 0 True, sample_block 2 990 False [1, 2] 40 False]"
  have w: "writeClusterOffsets 1000 1000000 ?bs = Inr ([31, 67, 182, 117, 159, 231, 130, 3, 232, 163, 137, 129, 0, 5, 130, 1,
      1, 7, 8, 9, 160, 142, 161, 134, 130, 255, 246, 0, 1, 2, 155, 129, 40, 251, 129, 255], [4, 4, 15])"
    by code_simp
  have ok: "list_all block_ok ?bs"
    by (simp add: block_ok_def sample_block_def zero_block_def in_int64_def int64_min_def int64_max_def
        maxBlockAdditional_def maxBlockMores_def)
  have m: "map media ?bs = [(1, 1005, True, [7], 0, 0, []), (1, 1005, True, [8, 9], 0, 0, []), (2, 990, False, [1, 2], 40, 0, [])]"
    by (simp add: media_def sample_block_def zero_block_def)
  have p: "int (length ([9] :: bytes)) = 1" by simp
  show ?thesis
    using cluster_roundtrip [OF w _ ok, of "[100, 100, 100]" "[9]" "[5, 5]", unfolded m p]
    by (auto simp add: maxBlockSize_def simp del: take_blocks.simps append_Cons append_Nil)
qed

text \<open>
  A block of a track that is not wanted, or not declared by the file, is passed over exactly: the
  walk is left on the byte behind it, whatever its payload holds.
\<close>

lemma filtered_block_skipped:
  assumes "0 \<le> sint tn" and "sint tn < 2 ^ 56 - 1" and "\<not> accepts br tn"
    and "pending (br_src br) = block_head tn relTC flags @ data @ rest"
  shows "\<exists>br'. parseBlock (int (length (block_head tn relTC flags) + length data)) simple br = (Inl errFilteredBlock, br') \<and>
    pending (br_src br') = rest"
proof -
  obtain d where d: "WriteDataSize (sint tn) = Inr d" "length d = DataSizeLen (sint tn)"
    using WriteDataSize_ok [OF assms(1)] by auto
  let ?tail = "be_enc 2 relTC @ flags # data" 
  have h: "block_head tn relTC flags @ data @ rest = d @ ?tail @ rest"
    "length (block_head tn relTC flags) + length data = length d + length ?tail"
    by (simp_all add: block_head_def d)
  have br: "br = at br (d @ ?tail @ rest)" using assms(4) h(1) by (simp add: at_self)
  define b1 where "b1 = at br (?tail @ rest)"
  have rd: "br_read ReadDataSize br = (Inr (sint tn, length d), b1)"
    using at_data_size [OF d(1) assms(1,2), of br "?tail @ rest"] br by (simp add: b1_def)
  have t: "tell (at br (?tail @ rest)) - tell br = int (length d)"
    using arg_cong [OF br, of tell] by (simp add: at_simps)
  have sk: "discard (int (length ?tail)) (at b (?tail @ rest)) = (Inr (), at b rest)" for b
    by (rule at_discard) simp
  have left: "int (length d + length ?tail) - int (length d) = int (length ?tail)" by simp
  have w: "(word_of_int (sint tn) :: u64) = tn" by simp
  have p: "pending (br_src (at b rest)) = rest" for b by (simp add: at_simps)
  define s1 where "s1 = (if suspected b1 then b1 else b1\<lparr>suspected := True, suspectAt := blockStart b1\<rparr>)"
  have keep1: "br_known b1 = br_known br" "br_keep b1 = br_keep br" by (simp_all add: b1_def at_simps)
  have s1: "s1 = at s1 (?tail @ rest)" "tell s1 = tell b1"
    by (simp_all add: s1_def b1_def at_def tell_def)
  have k1: "discard (int (length ?tail)) s1 = (Inr (), at s1 rest)" using sk [of s1] s1(1) by simp
  have k2: "discard (int (length ?tail)) b1 = (Inr (), at br rest)" using sk [of br] by (simp add: b1_def)
  have start: "parseBlock (int (length d + length ?tail)) simple br =
     (if (case br_known br of None \<Rightarrow> False | Some known \<Rightarrow> \<not> known tn)
      then and_then (discard (int (length ?tail)) s1) (\<lambda>_ br. (Inl errFilteredBlock, br))
      else and_then (discard (int (length ?tail)) b1) (\<lambda>_ br. (Inl errFilteredBlock, br)))"
    using assms(3) t [folded b1_def] s1(2) keep1
    by (cases "br_known br"; cases "br_keep br")
       (simp_all add: parseBlock_def rd s1_def [symmetric] w Let_def accepts_def)
  show ?thesis unfolding h(2) start k1 k2 by (auto simp add: p)
qed

lemma filtered_block_skipped_witness:
  "\<exists>br'. parseBlock 6 True ((NewBlockReaderAt [0x82, 0, 0, 0x80, 1, 2, 9] 1000000 0)\<lparr>br_keep := Some (\<lambda>t. t = 1)\<rparr>)
     = (Inl errFilteredBlock, br') \<and> pending (br_src br') = [9]"
proof -
  let ?br = "(NewBlockReaderAt [0x82, 0, 0, 0x80, 1, 2, 9] 1000000 0)\<lparr>br_keep := Some (\<lambda>t. t = 1)\<rparr>"
  have h: "block_head 2 0 0x80 = [0x82, 0, 0, 0x80]" by code_simp
  have "sint (2 :: u64) = 2" "\<not> accepts ?br 2" "pending (br_src ?br) = block_head 2 0 0x80 @ [1, 2] @ [9]"
    by (simp_all add: accepts_def NewBlockReaderAt_def seat_def h)
  then show ?thesis using filtered_block_skipped [of 2 ?br 0 "0x80" "[1, 2]" "[9]" True] by (simp add: h)
qed

end
