(* ===== verification/Mp4Box.thy ===== *)
theory Mp4Box
  imports Prelude
begin

text \<open>
  ISO base media boxes (\<^verbatim>\<open>mp4/box.go\<close>, \<^verbatim>\<open>iterBoxes\<close> of \<^verbatim>\<open>mp4/parse.go\<close>), the MPEG-4 descriptors of
  an \<^verbatim>\<open>esds\<close> box (\<^verbatim>\<open>mp4/codec.go\<close>, \<^verbatim>\<open>mp4/sampleentry.go\<close>) and the packed language of \<^verbatim>\<open>mdhd\<close>
  (\<^verbatim>\<open>mp4/trakheaders.go\<close>).  A builder \<^verbatim>\<open>bw\<close> only appends, so it is the list of the bytes written; a box
  type is its four bytes.  A Go panic (an index out of range) is the value \<open>None\<close>.
\<close>

section \<open>Building\<close>

definition u32_be :: "u32 \<Rightarrow> bytes" where "u32_be v = be_enc 4 v"
definition u64_be :: "u64 \<Rightarrow> bytes" where "u64_be v = be_enc 8 v"
definition u24_be :: "u32 \<Rightarrow> bytes" where "u24_be v = [ucast (drop_bit 16 v), ucast (drop_bit 8 v), ucast v]"

definition box :: "bytes \<Rightarrow> bytes \<Rightarrow> bytes" where
  "box typ payload =
     (let tot = (word_of_nat (8 + length payload) :: u64) in
      if tot \<le> 0xFFFFFFFF then u32_be (ucast tot) @ take 4 typ @ payload
      else u32_be 1 @ take 4 typ @ u64_be (tot + 8) @ payload)"

definition fullBox :: "bytes \<Rightarrow> byte \<Rightarrow> u32 \<Rightarrow> bytes \<Rightarrow> bytes" where
  "fullBox typ version flags body = box typ (version # u24_be flags @ body)"

definition container :: "bytes \<Rightarrow> bytes list \<Rightarrow> bytes" where
  "container typ children = box typ (concat children)"

definition fixed16_16 :: "u32 \<Rightarrow> u32" where "fixed16_16 v = push_bit 16 v"

section \<open>Reading\<close>

record memBox =
  mb_typ :: bytes
  mb_payload :: bytes

function iterBoxes :: "bytes \<Rightarrow> memBox list result" where
  "iterBoxes buf =
     (if length buf < 8 then Inr []
      else let size32 = be_dec (take 4 buf) :: u32;
               typ = slice 4 8 buf
      in if size32 = 1 \<and> 16 > length buf then Inl (Errf ''truncated 64-bit box'')
         else let (sz, hdr) =
                    (if size32 = 1 then (sint (be_dec (slice 8 16 buf) :: u64), 16)
                     else if size32 = 0 then (int (length buf), 8) else (uint size32, 8))
              in if sz < int hdr \<or> sz > int (length buf) then Inl (Errf ''box has invalid size'')
                 else bind_r (iterBoxes (drop (nat sz) buf))
                        (\<lambda>bs. Inr (\<lparr>mb_typ = typ, mb_payload = slice hdr (nat sz) buf\<rparr> # bs)))"
  by pat_completeness auto
termination
  by (relation "measure length") (auto split: if_splits simp flip: nat_uint_eq)

declare iterBoxes.simps [simp del]

definition findMemBox :: "memBox list \<Rightarrow> bytes \<Rightarrow> memBox option" where
  "findMemBox boxes typ = find (\<lambda>b. mb_typ b = typ) boxes"

section \<open>Descriptors\<close>

text \<open>
  \<^verbatim>\<open>descLen\<close> fills a four-byte array from its end: a length of more than 28 bits runs out of the array,
  and the program panics.
\<close>

fun descLen_loop :: "nat \<Rightarrow> nat \<Rightarrow> bytes \<Rightarrow> bytes option" where
  "descLen_loop 0 n tmp = None"
| "descLen_loop (Suc i) n tmp =
     (let tmp' = word_of_nat (n mod 128) # tmp in
      if n div 128 = 0 then Some tmp' else descLen_loop i (n div 128) tmp')"

definition descLen :: "int \<Rightarrow> bytes option" where
  "descLen n = map_option (\<lambda>tmp. map (\<lambda>b. b OR 0x80) (butlast tmp) @ [last tmp]) (descLen_loop 4 (nat n) [])"

definition descriptor :: "byte \<Rightarrow> bytes \<Rightarrow> bytes option" where
  "descriptor tag payload = map_option (\<lambda>l. tag # l @ payload) (descLen (int (length payload)))"

text \<open>\<^verbatim>\<open>descReader\<close>: the bytes it has left, its buffer from its position on.\<close>

definition desc_skip :: "nat \<Rightarrow> bytes \<Rightarrow> bytes result" where
  "desc_skip n d = (if n > length d then Inl (Errf ''descriptor: skip past end'') else Inr (drop n d))"

fun desc_size :: "nat \<Rightarrow> nat \<Rightarrow> bytes \<Rightarrow> (nat \<times> bytes) result" where
  "desc_size 0 sz d = Inr (sz, d)"
| "desc_size (Suc i) sz [] = Inl (Errf ''descriptor: truncated length'')"
| "desc_size (Suc i) sz (b # d) =
     (let sz' = sz * 128 + unat (b AND 0x7F) in
      if b AND 0x80 = 0 then Inr (sz', d) else desc_size i sz' d)"

definition desc_next :: "bytes \<Rightarrow> (byte \<times> bytes \<times> bytes) result" where
  "desc_next d =
     (case d of
        [] \<Rightarrow> Inl (Errf ''descriptor: end of data'')
      | tag # d \<Rightarrow> bind_r (desc_size 4 0 d) (\<lambda>(sz, d).
          if sz > length d then Inl (Errf ''descriptor: body length exceeds data'')
          else Inr (tag, take sz d, drop sz d)))"

definition esds_typ :: bytes where "esds_typ = [0x65, 0x73, 0x64, 0x73]"

definition esdsBox :: "byte \<Rightarrow> bytes \<Rightarrow> bytes option" where
  "esdsBox objType asc =
     Option.bind (if asc \<noteq> [] then descriptor 0x05 asc else Some []) (\<lambda>dsi.
     Option.bind (descriptor 0x04 ([objType, 0x15] @ u24_be 0 @ u32_be 0 @ u32_be 0 @ dsi)) (\<lambda>decConfig.
     Option.bind (descriptor 0x06 [0x02]) (\<lambda>sl.
     map_option (fullBox esds_typ 0 0) (descriptor 0x03 ([0, 0, 0] @ decConfig @ sl)))))"

definition esds_optional :: "byte \<Rightarrow> bytes \<Rightarrow> bytes result" where
  "esds_optional flags es =
     bind_r (if flags AND 0x80 \<noteq> 0 then desc_skip 2 es else Inr es) (\<lambda>es.
     bind_r (if flags AND 0x40 \<noteq> 0
             then (case es of [] \<Rightarrow> Inl (Errf ''esds: truncated URL length'') | u # _ \<Rightarrow> desc_skip (1 + unat u) es)
             else Inr es) (\<lambda>es.
     if flags AND 0x20 \<noteq> 0 then desc_skip 2 es else Inr es))"

definition parseESDS :: "bytes \<Rightarrow> (byte \<times> bytes option \<times> u32) result" where
  "parseESDS esds =
     (if length esds < 4 then Inl (Errf ''esds too short'')
      else case desc_next (drop 4 esds) of
        Inl _ \<Rightarrow> Inl (Errf ''esds: expected ES_Descriptor'')
      | Inr (tag, body, _) \<Rightarrow>
          if tag \<noteq> 0x03 then Inl (Errf ''esds: expected ES_Descriptor'')
          else bind_r (desc_skip 3 body) (\<lambda>es.
            bind_r (esds_optional (body ! 2) es) (\<lambda>es.
              case desc_next es of
                Inl _ \<Rightarrow> Inl (Errf ''esds: expected DecoderConfigDescriptor'')
              | Inr (tag, dcfg, _) \<Rightarrow>
                  if tag \<noteq> 0x04 then Inl (Errf ''esds: expected DecoderConfigDescriptor'')
                  else (case dcfg of
                     [] \<Rightarrow> Inl (Errf ''esds: empty DecoderConfigDescriptor'')
                   | objType # _ \<Rightarrow>
                       let avg = (if length dcfg \<ge> 13 then be_dec (slice 9 13 dcfg) else 0) in
                       (case bind_r (desc_skip 13 dcfg) desc_next of
                          Inl _ \<Rightarrow> Inr (objType, None, avg)
                        | Inr (tag, dsi, _) \<Rightarrow>
                            if tag \<noteq> 0x05 then Inr (objType, None, avg)
                            else Inr (objType, (if dsi = [] then None else Some dsi), avg))))))"

section \<open>Languages\<close>

definition isLowerAlpha :: "bytes \<Rightarrow> bool" where
  "isLowerAlpha s = list_all (\<lambda>c. 0x61 \<le> c \<and> c \<le> 0x7A) s"

definition und :: bytes where "und = [0x75, 0x6E, 0x64]"

definition pack3 :: "bytes \<Rightarrow> u16" where
  "pack3 l = push_bit 10 (ucast (l ! 0 - 0x60)) OR push_bit 5 (ucast (l ! 1 - 0x60)) OR ucast (l ! 2 - 0x60)"

definition packLanguage :: "bytes \<Rightarrow> u16" where
  "packLanguage lang = pack3 (if length lang \<noteq> 3 \<or> \<not> isLowerAlpha lang then und else lang)"

definition macLanguageCodes :: "(nat \<times> bytes) list" where
  "macLanguageCodes = [
   (0, [0x65, 0x6E, 0x67]), (1, [0x66, 0x72, 0x61]), (2, [0x64, 0x65, 0x75]),
   (3, [0x69, 0x74, 0x61]), (4, [0x6E, 0x6C, 0x64]), (5, [0x73, 0x77, 0x65]),
   (6, [0x73, 0x70, 0x61]), (7, [0x64, 0x61, 0x6E]), (8, [0x70, 0x6F, 0x72]),
   (9, [0x6E, 0x6F, 0x72]), (10, [0x68, 0x65, 0x62]), (11, [0x6A, 0x70, 0x6E]),
   (12, [0x61, 0x72, 0x61]), (13, [0x66, 0x69, 0x6E]), (14, [0x65, 0x6C, 0x6C]),
   (15, [0x69, 0x73, 0x6C]), (16, [0x6D, 0x6C, 0x74]), (17, [0x74, 0x75, 0x72]),
   (18, [0x68, 0x72, 0x76]), (19, [0x7A, 0x68, 0x6F]), (20, [0x75, 0x72, 0x64]),
   (21, [0x68, 0x69, 0x6E]), (22, [0x74, 0x68, 0x61]), (23, [0x6B, 0x6F, 0x72]),
   (24, [0x6C, 0x69, 0x74]), (25, [0x70, 0x6F, 0x6C]), (26, [0x68, 0x75, 0x6E]),
   (27, [0x65, 0x73, 0x74]), (28, [0x6C, 0x61, 0x76]), (30, [0x66, 0x61, 0x6F]),
   (31, [0x66, 0x61, 0x73]), (32, [0x72, 0x75, 0x73]), (33, [0x7A, 0x68, 0x6F]),
   (35, [0x67, 0x6C, 0x65]), (36, [0x73, 0x71, 0x69]), (37, [0x72, 0x6F, 0x6E]),
   (38, [0x63, 0x65, 0x73]), (39, [0x73, 0x6C, 0x6B]), (40, [0x73, 0x6C, 0x76]),
   (41, [0x79, 0x69, 0x64]), (42, [0x73, 0x72, 0x70]), (43, [0x6D, 0x6B, 0x64]),
   (44, [0x62, 0x75, 0x6C]), (45, [0x75, 0x6B, 0x72]), (46, [0x62, 0x65, 0x6C]),
   (48, [0x6B, 0x61, 0x7A]), (49, [0x61, 0x7A, 0x65]), (51, [0x68, 0x79, 0x65]),
   (52, [0x6B, 0x61, 0x74]), (80, [0x76, 0x69, 0x65]), (81, [0x69, 0x6E, 0x64])]"

definition macLanguageToISO :: "u16 \<Rightarrow> bytes" where
  "macLanguageToISO code = (case map_of macLanguageCodes (unat code) of None \<Rightarrow> [] | Some s \<Rightarrow> s)"

definition decodeMdhdLanguage :: "u16 \<Rightarrow> bytes" where
  "decodeMdhdLanguage packed =
     (if packed < 0x400 then macLanguageToISO packed
      else let c = [ucast (drop_bit 10 packed AND 0x1f) + 0x60, ucast (drop_bit 5 packed AND 0x1f) + 0x60,
                    ucast (packed AND 0x1f) + 0x60]
           in if \<not> list_all (\<lambda>ch. \<not> (ch < 0x61 \<or> ch > 0x7A)) c then [] else if c \<noteq> und then c else [])"

section \<open>Boxes read back\<close>

lemma u32_be_dec: "be_dec (u32_be v) = v" "length (u32_be v) = 4"
  by (simp_all add: u32_be_def)

lemma u64_be_dec: "be_dec (u64_be v) = v" "length (u64_be v) = 8"
  by (simp_all add: u64_be_def)

lemma take_drop_append: "length xs = n \<Longrightarrow> take n (xs @ ys) = xs" "length xs = n \<Longrightarrow> drop n (xs @ ys) = ys"
  by simp_all

lemma iterBoxes_step:
  assumes "length typ = 4" and "int (length hdr + length payload) = sz" and "length (h32 @ typ) = 8"
    and "hdr = h32 @ typ @ ext" and "\<not> (be_dec h32 = (1 :: u32) \<and> length hdr < 16)"
    and "(sz, length hdr) = (if be_dec h32 = (1 :: u32) then (sint (be_dec (take 8 ext) :: u64), 16) else (uint (be_dec h32 :: u32), 8))"
    and "be_dec h32 \<noteq> (0 :: u32)"
  shows "iterBoxes (hdr @ payload @ rest)
           = bind_r (iterBoxes rest) (\<lambda>bs. Inr (\<lparr>mb_typ = typ, mb_payload = payload\<rparr> # bs))"
proof -
  define buf where "buf = hdr @ payload @ rest"
  have h: "length h32 = 4" using assms(1,3) by simp
  have t4: "take 4 buf = h32" "slice 4 8 buf = typ" using assms(1,4) h by (simp_all add: slice_def buf_def)
  have e: "be_dec h32 = (1 :: u32) \<Longrightarrow> slice 8 16 buf = take 8 ext"
    using assms(1,4,6) h by (simp add: slice_def buf_def)
  have n: "nat sz = length hdr + length payload" using assms(2) by simp
  have le: "\<not> length buf < 8" "\<not> (be_dec h32 = (1 :: u32) \<and> 16 > length buf)"
    using assms(4,5) h assms(1) by (auto simp add: buf_def)
  have p: "slice (length hdr) (nat sz) buf = payload" "drop (nat sz) buf = rest" by (simp_all add: n slice_def buf_def)
  have s: "\<not> (sz < int (length hdr) \<or> sz > int (length buf))" using assms(2) by (auto simp add: buf_def)
  show ?thesis
  proof (cases "be_dec h32 = (1 :: u32)")
    case True
    then have "sint (be_dec (take 8 ext) :: u64) = sz" "length hdr = 16" using assms(6) by simp_all
    then show ?thesis
      using True le s p unfolding buf_def [symmetric] by (simp add: iterBoxes.simps [of buf] t4 e Let_def)
  next
    case False
    then have "uint (be_dec h32 :: u32) = sz" "length hdr = 8" using assms(6) by simp_all
    then show ?thesis
      using False assms(7) le s p unfolding buf_def [symmetric] by (simp add: iterBoxes.simps [of buf] t4 Let_def)
  qed
qed

lemma iterBoxes_box:
  assumes "length typ = 4" and "int (length payload) < 2 ^ 62"
  shows "iterBoxes (box typ payload @ rest)
           = bind_r (iterBoxes rest) (\<lambda>bs. Inr (\<lparr>mb_typ = typ, mb_payload = payload\<rparr> # bs))"
proof -
  let ?t = "word_of_nat (8 + length payload) :: u64"
  have l: "8 + length payload < 2 ^ 64" using assms(2) by simp
  then have u: "uint ?t = 8 + int (length payload)"
    by (simp add: unsigned_of_nat take_bit_nat_eq_self del: of_nat_add)
  show ?thesis
  proof (cases "?t \<le> 0xFFFFFFFF")
    case True
    then have lt: "8 + int (length payload) < 2 ^ 32" using u by (simp add: word_le_def)
    have v: "uint (ucast ?t :: u32) = 8 + int (length payload)"
      using lt u by (simp add: unsigned_ucast_eq take_bit_int_eq_self)
    have ne: "(ucast ?t :: u32) \<noteq> 0" "(ucast ?t :: u32) \<noteq> 1" using v by (auto dest: arg_cong [of _ _ uint])
    have b: "box typ payload = (u32_be (ucast ?t) @ typ) @ payload"
      using True assms(1) by (simp only: box_def Let_def if_True) simp
    show ?thesis unfolding b append_assoc
      using iterBoxes_step [of "typ" "u32_be (ucast ?t) @ typ" payload "8 + int (length payload)" "u32_be (ucast ?t)" "[]" rest]
        assms(1) v ne by (simp add: u32_be_dec)
  next
    case False
    have b: "box typ payload = (u32_be 1 @ typ @ u64_be (?t + 8)) @ payload"
      using False assms(1) by (simp only: box_def Let_def if_False) simp
    have "(word_of_nat (16 + length payload) :: u64) = ?t + 8" by simp
    moreover have "sint (word_of_nat (16 + length payload) :: u64) = 16 + int (length payload)"
      using assms(2) by (simp add: signed_of_nat signed_take_bit_int_eq_self del: of_nat_add)
    ultimately have v: "sint (?t + 8) = 16 + int (length payload)" by simp
    show ?thesis unfolding b append_assoc
      using iterBoxes_step [of "typ" "u32_be 1 @ typ @ u64_be (?t + 8)" payload "16 + int (length payload)" "u32_be 1" "u64_be (?t + 8)" rest]
        assms(1) v by (simp add: u32_be_dec u64_be_dec)
  qed
qed

lemma iterBoxes_concat:
  "\<forall>b \<in> set bs. length (mb_typ b) = 4 \<and> int (length (mb_payload b)) < 2 ^ 62 \<Longrightarrow>
   iterBoxes (concat (map (\<lambda>b. box (mb_typ b) (mb_payload b)) bs)) = Inr bs"
  by (induction bs) (simp_all add: iterBoxes_box, simp add: iterBoxes.simps)

section \<open>Descriptors read back\<close>

fun digits :: "nat \<Rightarrow> nat list" where
  "digits n = (if n < 128 then [n] else digits (n div 128) @ [n mod 128])"

declare digits.simps [simp del]

lemma digits_bound: "d \<in> set (digits n) \<Longrightarrow> d < 128"
proof (induction n rule: digits.induct)
  case (1 n)
  then show ?case unfolding digits.simps [of n] by (auto split: if_splits)
qed

lemma digits_value: "foldl (\<lambda>a d. a * 128 + d) 0 (digits n) = n"
proof (induction n rule: digits.induct)
  case (1 n)
  then show ?case unfolding digits.simps [of n] by (simp add: div_mult_mod_eq)
qed

lemma digits_nonempty: "digits n \<noteq> []"
  by (subst digits.simps) simp

lemma digits_length: "n < 128 ^ Suc i \<Longrightarrow> length (digits n) \<le> Suc i"
proof (induction i arbitrary: n)
  case 0
  then show ?case by (simp add: digits.simps [of n])
next
  case (Suc i)
  have "n div 128 < 128 ^ Suc i" using Suc.prems by (simp add: less_mult_imp_div_less mult.commute)
  then have "length (digits (n div 128)) \<le> Suc i" by (rule Suc.IH)
  then show ?case by (subst digits.simps) simp
qed

lemma descLen_loop_digits:
  "descLen_loop i n tmp = (if n < 128 ^ i \<and> 0 < i then Some (map word_of_nat (digits n) @ tmp) else None)"
proof (induction i arbitrary: n tmp)
  case (Suc i)
  have d: "n div 128 = 0 \<longleftrightarrow> n < 128" by (simp add: div_eq_0_iff)
  show ?case
  proof (cases "n < 128")
    case True
    moreover have "n < 128 ^ Suc i" using True less_le_trans [of n 128 "128 ^ Suc i"] by simp
    ultimately show ?thesis by (simp add: d digits.simps [of n])
  next
    case False
    have "n div 128 < 128 ^ i \<longleftrightarrow> n < 128 ^ Suc i" by (simp add: div_less_iff_less_mult mult.commute)
    moreover have "0 < i" if "n < 128 ^ Suc i" using that False by (cases i) simp_all
    ultimately show ?thesis using False Suc by (auto simp add: d digits.simps [of n])
  qed
qed simp

lemma digit_byte:
  assumes "d < 128"
  shows "unat ((word_of_nat d :: byte) AND 0x7F) = d" "unat (((word_of_nat d :: byte) OR 0x80) AND 0x7F) = d"
    "(word_of_nat d :: byte) AND 0x80 = 0" "((word_of_nat d :: byte) OR 0x80) AND 0x80 \<noteq> 0"
proof -
  define w where "w = (word_of_nat d :: byte)"
  have u: "unat w = d" using assms by (simp add: w_def unsigned_of_nat take_bit_nat_eq_self)
  have t: "take_bit 7 w = w" using u assms by (simp add: word_unat_eq_iff unsigned_take_bit_eq take_bit_nat_eq_self)
  have m: "(0x7F :: byte) = mask 7" by (simp add: mask_eq_exp_minus_1)
  have b: "\<not> bit w k" if "7 \<le> k" for k using that t by (metis bit_take_bit_iff not_le)
  have a: "w AND 0x7F = w" unfolding m using t by (simp add: take_bit_eq_mask [symmetric])
  then show "unat ((word_of_nat d :: byte) AND 0x7F) = d" using u by (simp add: w_def)
  have "(0x80 :: byte) = 2 ^ 7" by simp
  then have x80: "bit (0x80 :: byte) k \<longleftrightarrow> k = 7" for k by (simp only: bit_exp_iff) auto
  have b': "k < 7" if "bit w k" for k using b that by (metis not_le)
  have "(w OR 0x80) AND 0x7F = w"
    unfolding m
  proof (rule bit_eqI)
    fix k
    show "bit ((w OR 0x80) AND mask 7) k = bit w k"
      unfolding bit_and_iff bit_or_iff bit_mask_iff x80 using b' [of k] by auto
  qed
  then show "unat (((word_of_nat d :: byte) OR 0x80) AND 0x7F) = d" using u by (simp add: w_def)
  show "(word_of_nat d :: byte) AND 0x80 = 0"
    unfolding w_def [symmetric]
  proof (rule bit_eqI)
    fix k
    show "bit (w AND 0x80) k = bit 0 k" unfolding bit_and_iff x80 using b [of k] by auto
  qed
  have "bit ((w OR 0x80) AND 0x80) 7" by (simp only: bit_and_iff bit_or_iff x80) simp
  then show "((word_of_nat d :: byte) OR 0x80) AND 0x80 \<noteq> 0"
    unfolding w_def [symmetric] by (metis bit_0_eq bot_apply bot_bool_def)
qed

lemma desc_size_digits:
  "\<forall>d \<in> set (ds @ [l]). d < 128 \<Longrightarrow> length ds < i \<Longrightarrow>
   desc_size i sz (map (\<lambda>b. b OR 0x80) (map word_of_nat ds) @ word_of_nat l # rest)
     = Inr (foldl (\<lambda>a d. a * 128 + d) sz (ds @ [l]), rest)"
proof (induction ds arbitrary: i sz)
  case Nil
  then show ?case by (cases i) (simp_all add: digit_byte)
next
  case (Cons d ds)
  then obtain j where "i = Suc j" "length ds < j" by (cases i) auto
  then show ?case using Cons by (simp add: digit_byte)
qed

lemma descriptor_next:
  assumes "length payload < 2 ^ 28"
  shows "\<exists>l. descriptor tag payload = Some (tag # l @ payload) \<and> length l \<le> 4 \<and>
    desc_next (tag # l @ payload @ rest) = Inr (tag, payload, rest)"
proof -
  let ?n = "length payload"
  define ds l where "ds = butlast (digits ?n)" and "l = last (digits ?n)"
  have d: "digits ?n = ds @ [l]" using digits_nonempty by (simp add: ds_def l_def)
  have "?n < 128 ^ Suc 3" using assms by simp
  then have len: "length ds < 4" using digits_length [of ?n 3] d by simp
  let ?l = "map (\<lambda>b. b OR 0x80) (map word_of_nat ds) @ [word_of_nat l]"
  have "descLen (int ?n) = Some ?l" using assms by (simp add: descLen_def descLen_loop_digits d)
  moreover have "desc_size 4 0 (?l @ payload @ rest) = Inr (?n, payload @ rest)"
    using desc_size_digits [of ds l 4 0 "payload @ rest"] len digits_bound [of _ ?n] digits_value [of ?n] by (simp add: d)
  ultimately show ?thesis using len by (intro exI [of _ ?l]) (simp add: descriptor_def desc_next_def)
qed

lemma descriptor_some:
  assumes "length payload < 2 ^ 28"
  obtains l where "descriptor tag payload = Some (tag # l @ payload)" "length l \<le> 4"
    "\<And>rest. desc_next (tag # l @ payload @ rest) = Inr (tag, payload, rest)"
proof -
  obtain l where l: "descriptor tag payload = Some (tag # l @ payload)" "length l \<le> 4"
    using descriptor_next [OF assms, of tag "[]"] by auto
  have "desc_next (tag # l @ payload @ rest) = Inr (tag, payload, rest)" for rest
    using descriptor_next [OF assms, of tag rest] l(1) by auto
  with l that show thesis by blast
qed

lemma u24_zero: "u24_be 0 = [0, 0, 0]" "u32_be 0 = [0, 0, 0, 0]"
  by (simp_all add: u24_be_def u32_be_def eval_nat_numeral)

lemma esds_config:
  fixes objType :: byte and asc :: bytes
  assumes "length asc < 2 ^ 27"
  defines "dcfg \<equiv> \<lambda>dsi. [objType, 0x15] @ u24_be 0 @ u32_be 0 @ u32_be 0 @ dsi"
  obtains dsi where "(if asc \<noteq> [] then descriptor 0x05 asc else Some []) = Some dsi" "length dsi \<le> length asc + 5"
    "(case bind_r (desc_skip 13 (dcfg dsi)) desc_next of
        Inl _ \<Rightarrow> Inr (objType, None, 0)
      | Inr (tag, d, _) \<Rightarrow>
          if tag \<noteq> 0x05 then Inr (objType, None, 0)
          else Inr (objType, (if d = [] then None else Some d), 0 :: u32))
      = (Inr (objType, (if asc = [] then None else Some asc), 0) :: (byte \<times> bytes option \<times> u32) result)"
proof (cases "asc = []")
  case True
  then show thesis by (intro that [of "[]"]) (simp_all add: dcfg_def u24_zero desc_skip_def desc_next_def)
next
  case False
  have "length asc < 2 ^ 28" using assms(1) by simp
  from descriptor_some [OF this] obtain l where l: "descriptor 0x05 asc = Some (0x05 # l @ asc)" "length l \<le> 4"
    "\<And>rest. desc_next (0x05 # l @ asc @ rest) = Inr (0x05, asc, rest)" by metis
  then show thesis
    using False l(3) [of "[]"] by (intro that [of "0x05 # l @ asc"]) (simp_all add: dcfg_def u24_zero desc_skip_def)
qed

section \<open>Properties\<close>

text \<open>
  Boxes written one after the other are read back as they were, by the 32-bit or the 64-bit size
  form according to their length.
\<close>

lemma boxes_roundtrip:
  assumes "\<forall>b \<in> set bs. length (mb_typ b) = 4 \<and> int (length (mb_payload b)) < 2 ^ 62"
  shows "iterBoxes (concat (map (\<lambda>b. box (mb_typ b) (mb_payload b)) bs)) = Inr bs"
  using assms by (rule iterBoxes_concat)

lemma boxes_roundtrip_witness:
  "iterBoxes [0, 0, 0, 10, 0x66, 0x72, 0x65, 0x65, 7, 9] = Inr [\<lparr>mb_typ = [0x66, 0x72, 0x65, 0x65], mb_payload = [7, 9]\<rparr>]"
proof -
  have b: "box [0x66, 0x72, 0x65, 0x65] [7, 9] = [0, 0, 0, 10, 0x66, 0x72, 0x65, 0x65, 7, 9]" by code_simp
  show ?thesis
    using boxes_roundtrip [of "[\<lparr>mb_typ = [0x66, 0x72, 0x65, 0x65], mb_payload = [7, 9]\<rparr>]"] by (simp add: b)
qed

text \<open>
  An MPEG-4 descriptor of a payload below \<open>2 ^ 28\<close> bytes reads back as its tag and payload, the
  reader left behind it; from \<open>2 ^ 28\<close> bytes on, the length no longer fits the four-byte array and the
  builder panics.
\<close>

lemma descriptor_roundtrip:
  "(length payload < 2 ^ 28 \<longrightarrow>
     (\<exists>d. descriptor tag payload = Some d \<and> desc_next (d @ rest) = Inr (tag, payload, rest))) \<and>
   (length payload \<ge> 2 ^ 28 \<longrightarrow> descriptor tag payload = None)"
proof (intro conjI impI)
  assume "length payload < 2 ^ 28"
  then show "\<exists>d. descriptor tag payload = Some d \<and> desc_next (d @ rest) = Inr (tag, payload, rest)"
    using descriptor_next [of payload tag rest] by auto
next
  assume "length payload \<ge> 2 ^ 28"
  then show "descriptor tag payload = None" by (simp add: descriptor_def descLen_def descLen_loop_digits)
qed

lemma descriptor_roundtrip_witness:
  "\<exists>d. descriptor 5 [0x11, 0x90] = Some d \<and> desc_next (d @ [7]) = Inr (5, [0x11, 0x90], [7])"
  using descriptor_roundtrip [of "[0x11, 0x90]" 5 "[7]"] by simp

text \<open>
  The \<^verbatim>\<open>esds\<close> box written for an object type and an AudioSpecificConfig parses back to them, with
  no bitrate.
\<close>

lemma esds_roundtrip:
  assumes "length asc < 2 ^ 27"
  shows "\<exists>p. esdsBox objType asc = Some (box esds_typ p) \<and>
    iterBoxes (box esds_typ p) = Inr [\<lparr>mb_typ = esds_typ, mb_payload = p\<rparr>] \<and>
    parseESDS p = Inr (objType, if asc = [] then None else Some asc, 0)"
proof -
  let ?dcfg = "\<lambda>dsi. [objType, 0x15] @ u24_be 0 @ u32_be 0 @ u32_be 0 @ dsi"
  obtain dsi where dsi: "(if asc \<noteq> [] then descriptor 0x05 asc else Some []) = Some dsi" "length dsi \<le> length asc + 5"
    and last: "(case bind_r (desc_skip 13 (?dcfg dsi)) desc_next of
        Inl _ \<Rightarrow> Inr (objType, None, 0)
      | Inr (tag, d, _) \<Rightarrow>
          if tag \<noteq> 0x05 then Inr (objType, None, 0)
          else Inr (objType, (if d = [] then None else Some d), 0 :: u32))
      = (Inr (objType, (if asc = [] then None else Some asc), 0) :: (byte \<times> bytes option \<times> u32) result)"
    by (rule esds_config [OF assms])
  let ?d = "?dcfg dsi"
  have ld: "length ?d < 2 ^ 28" using dsi(2) assms by (simp add: u24_zero)
  obtain l4 where l4: "descriptor 0x04 ?d = Some (0x04 # l4 @ ?d)" "length l4 \<le> 4"
    "\<And>rest. desc_next (0x04 # l4 @ ?d @ rest) = Inr (0x04, ?d, rest)"
    by (rule descriptor_some [OF ld, of "0x04"]) (rule that)
  obtain l6 where l6: "descriptor 0x06 [0x02] = Some (0x06 # l6 @ [0x02])" "length l6 \<le> 4"
    by (rule descriptor_some [of "[0x02]" "0x06"]) simp_all
  let ?es = "[0, 0, 0] @ (0x04 # l4 @ ?d) @ (0x06 # l6 @ [0x02])"
  have le: "length ?es < 2 ^ 28" using ld dsi(2) assms l4(2) l6(2) by (simp add: u24_zero)
  obtain l3 where l3: "descriptor 0x03 ?es = Some (0x03 # l3 @ ?es)" "length l3 \<le> 4"
    "\<And>rest. desc_next (0x03 # l3 @ ?es @ rest) = Inr (0x03, ?es, rest)"
    by (rule descriptor_some [OF le, of "0x03"]) (rule that)
  let ?p = "[0, 0, 0, 0] @ (0x03 # l3 @ ?es)"
  have "esdsBox objType asc = Some (box esds_typ ?p)"
    using dsi(1) l4(1) l6(1) l3(1) by (simp add: esdsBox_def fullBox_def u24_zero)
  moreover have "int (length ?p) < 2 ^ 62" using le l3(2) by simp
  then have "iterBoxes (box esds_typ ?p) = Inr [\<lparr>mb_typ = esds_typ, mb_payload = ?p\<rparr>]"
    using iterBoxes_box [of esds_typ ?p "[]"] by (simp add: esds_typ_def iterBoxes.simps [of "[]"])
  moreover have "parseESDS ?p = Inr (objType, if asc = [] then None else Some asc, 0)"
  proof -
    have avg: "be_dec (slice 9 13 ?d) = (0 :: u32)" by (simp add: u24_zero slice_def be_dec_def)
    have n13: "length ?d \<ge> 13" by (simp add: u24_zero)
    have s3: "desc_skip 3 ?es = Inr (0x04 # l4 @ ?d @ 0x06 # l6 @ [0x02])" "?es ! 2 = 0"
      by (simp_all add: desc_skip_def)
    have n3: "desc_next (drop 4 ?p) = Inr (0x03, ?es, [])" using l3(3) [of "[]"] by simp
    have dc: "?d = objType # tl ?d" by simp
    show ?thesis
      unfolding parseESDS_def n3 using s3 l4(3) [of "0x06 # l6 @ [0x02]"] last avg n13
      by (subst dc) (simp add: esds_optional_def)
  qed
  ultimately show ?thesis by blast
qed
lemma esds_roundtrip_witness:
  "\<exists>p. esdsBox 0x40 [0x11, 0x90] = Some (box esds_typ p) \<and>
    iterBoxes (box esds_typ p) = Inr [\<lparr>mb_typ = esds_typ, mb_payload = p\<rparr>] \<and>
    parseESDS p = Inr (0x40, Some [0x11, 0x90], 0)"
  using esds_roundtrip [where objType = "0x40" and asc = "[0x11, 0x90]"] by simp

lemma letter_bits:
  fixes c :: byte
  assumes "0x61 \<le> c" "c \<le> 0x7A"
  shows "take_bit 5 (c - 0x60) = c - 0x60" "c - 0x60 \<noteq> 0" "uint (c - 0x60) = uint c - 0x60"
proof -
  have u: "0x61 \<le> uint c" "uint c \<le> 0x7A" using assms by (simp_all add: word_le_def)
  then show s: "uint (c - 0x60) = uint c - 0x60" by (simp add: uint_sub_if')
  show "take_bit 5 (c - 0x60) = c - 0x60"
    using s u by (simp add: word_uint_eq_iff unsigned_take_bit_eq take_bit_int_eq_self)
  show "c - 0x60 \<noteq> 0" using s u by (auto simp add: word_uint_eq_iff)
qed

lemma unpack3:
  fixes a b c :: byte
  assumes "take_bit 5 a = a" "take_bit 5 b = b" "take_bit 5 c = c"
  defines "p \<equiv> (push_bit 10 (ucast a) OR push_bit 5 (ucast b) OR ucast c :: u16)"
  shows "ucast (drop_bit 10 p AND 0x1f) = a" "ucast (drop_bit 5 p AND 0x1f) = b" "ucast (p AND 0x1f) = c"
    "drop_bit 10 p = ucast a"
proof -
  have m: "(0x1f :: u16) = mask 5" by (simp add: mask_eq_exp_minus_1)
  have k: "bit x n \<Longrightarrow> n < 5" if "take_bit 5 x = x" for x :: byte and n
    using that by (metis bit_take_bit_iff)
  note ks = k [OF assms(1)] k [OF assms(2)] k [OF assms(3)]
  show "ucast (drop_bit 10 p AND 0x1f) = a" unfolding m p_def
    by (rule bit_eqI) (auto simp add: bit_simps dest: ks)
  show "ucast (drop_bit 5 p AND 0x1f) = b" unfolding m p_def
    by (rule bit_eqI) (auto simp add: bit_simps dest: ks)
  show "ucast (p AND 0x1f) = c" unfolding m p_def
    by (rule bit_eqI) (auto simp add: bit_simps dest: ks)
  show "drop_bit 10 p = ucast a" unfolding p_def
    by (rule bit_eqI) (auto simp add: bit_simps dest: ks)
qed

text \<open>
  A three-letter lower-case language other than \<open>und\<close> survives the packed form of \<^verbatim>\<open>mdhd\<close>; anything
  else is written as \<open>und\<close> and reads back as no language.
\<close>

lemma language_roundtrip:
  "decodeMdhdLanguage (packLanguage lang) = (if length lang = 3 \<and> isLowerAlpha lang \<and> lang \<noteq> und then lang else [])"
proof -
  have u: "decodeMdhdLanguage (packLanguage und) = []" by code_simp
  show ?thesis
  proof (cases "length lang = 3 \<and> isLowerAlpha lang")
    case True
    then obtain a b c where l: "lang = [a, b, c]" by (auto simp add: length_Suc_conv eval_nat_numeral)
    from True l have r: "0x61 \<le> a" "a \<le> 0x7A" "0x61 \<le> b" "b \<le> 0x7A" "0x61 \<le> c" "c \<le> 0x7A"
      by (simp_all add: isLowerAlpha_def)
    note un = unpack3 [OF letter_bits(1) [OF r(1,2)] letter_bits(1) [OF r(3,4)] letter_bits(1) [OF r(5,6)]]
    define p where "p = pack3 [a, b, c]"
    have pd: "p = push_bit 10 (ucast (a - 0x60)) OR push_bit 5 (ucast (b - 0x60)) OR ucast (c - 0x60)"
      by (simp add: p_def pack3_def eval_nat_numeral)
    note un = un [folded pd]
    have nl: "\<not> p < 0x400"
    proof
      assume "p < 0x400"
      then have "drop_bit 10 p = 0" 
        by (simp add: word_uint_eq_iff word_less_def drop_bit_eq_div uint_div_distrib)
      then have "(ucast (a - 0x60) :: u16) = 0" using un(4) by simp
      then have "uint (ucast (a - 0x60) :: u16) = 0" by simp
      moreover have "uint (ucast (a - 0x60) :: u16) = uint (a - 0x60)"
        by (rule uint_up_ucast) (simp add: is_up)
      ultimately have "uint (a - 0x60) = 0" by simp
      then show False using letter_bits(2) [OF r(1,2)] by (simp add: word_uint_eq_iff)
    qed
    have "decodeMdhdLanguage p = (if lang \<noteq> und then lang else [])"
      using r unfolding decodeMdhdLanguage_def if_not_P [OF nl] by (simp add: Let_def un(1-3) l not_less)
    moreover have "packLanguage lang = p" using True by (simp add: packLanguage_def p_def l)
    ultimately show ?thesis using True by simp
  next
    case False
    then have "packLanguage lang = packLanguage und" by (auto simp add: packLanguage_def isLowerAlpha_def und_def)
    with u False show ?thesis by auto
  qed
qed

end
