(* ===== verification/CencIV.thy ===== *)
theory CencIV
  imports Mp4Box
begin

text \<open>
  The options of Common Encryption and the initialization vectors of mp4/cenc.go.  Under 'cenc' a
  sample's IV is the base IV plus where the sample's bytes sit in the source, plus the domain of its
  track, the base of a variant moved by the variant's number.  The lemmas show that no AES-CTR counter
  block is used twice under a key.
\<close>

section \<open>Options\<close>

record CENCOptions =
  c_Scheme :: string
  c_Key :: bytes
  c_KeyID :: bytes
  c_IV :: bytes
  c_KeyURI :: string
  c_InlineKey :: bool
  c_PSSH :: "bytes list"

definition scheme_cenc :: string where "scheme_cenc = ''cenc''"
definition scheme_cbcs :: string where "scheme_cbcs = ''cbcs''"

definition validate :: "CENCOptions \<Rightarrow> unit result" where
  "validate c =
     (if c_Scheme c \<noteq> scheme_cenc \<and> c_Scheme c \<noteq> scheme_cbcs then Inl (Errf ''CENC scheme must be cenc or cbcs'')
      else if length (c_Key c) \<noteq> 16 then Inl (Errf ''CENC key must be 16 bytes'')
      else if length (c_KeyID c) \<noteq> 16 then Inl (Errf ''CENC key ID must be 16 bytes'')
      else if c_KeyURI c = '''' \<and> \<not> c_InlineKey c then Inl (Errf ''CENC needs a KeyURI'')
      else if c_Scheme c = scheme_cenc then
        (if length (c_IV c) \<noteq> 8 \<and> length (c_IV c) \<noteq> 16 then Inl (Errf ''cenc IV must be 8 or 16 bytes'')
         else if length (c_IV c) = 16 \<and> (be_dec (drop 8 (c_IV c)) :: u64) > 0xFFFFFFFFFFFFFFFF - push_bit 32 1 + 1
         then Inl (Errf ''cenc 16-byte IV: its last 8 bytes leave the block counter too little room'')
         else Inr ())
      else if length (c_IV c) \<noteq> 16 then Inl (Errf ''cbcs IV must be 16 bytes'')
      else Inr ())"

section \<open>Initialization vectors\<close>

text \<open>
  The loop of \<^verbatim>\<open>addUint64BE\<close> over the bytes from the last to the first, here over the reversed bytes:
  \<^verbatim>\<open>carry\<close> is what is still to be added.
\<close>

fun add_carry :: "u64 \<Rightarrow> bytes \<Rightarrow> bytes" where
  "add_carry carry [] = []"
| "add_carry carry (b # bs) =
     (if carry = 0 then b # bs
      else let s = ucast b + (carry AND 0xFF) in
        ucast s # add_carry (drop_bit 8 carry + drop_bit 8 s) bs)"

definition addUint64BE :: "bytes \<Rightarrow> u64 \<Rightarrow> bytes" where
  "addUint64BE b v = rev (add_carry v (rev b))"

definition cencSampleIV :: "bytes \<Rightarrow> int \<Rightarrow> u64 \<Rightarrow> bytes" where
  "cencSampleIV base srcOff domain = addUint64BE (take 8 base) (word_of_int srcOff + domain) @ drop 8 base"

definition maxCENCVariants :: nat where "maxCENCVariants = 256"

definition cencVariantsFit :: "CENCOptions option \<Rightarrow> nat \<Rightarrow> unit result" where
  "cencVariantsFit c n =
     (case c of None \<Rightarrow> Inr ()
      | Some c \<Rightarrow> if c_Scheme c \<noteq> scheme_cenc \<or> n \<le> maxCENCVariants then Inr ()
                 else Inl (Errf ''too many variants share a cenc key''))"

definition cencForVariant :: "CENCOptions \<Rightarrow> nat \<Rightarrow> CENCOptions" where
  "cencForVariant c i =
     (if c_Scheme c \<noteq> scheme_cenc \<or> i = 0 then c
      else c\<lparr>c_IV := addUint64BE (take 8 (c_IV c)) (push_bit 48 (word_of_nat i)) @ drop 8 (c_IV c)\<rparr>)"

definition cencIVDomain :: "bool \<Rightarrow> u64 \<Rightarrow> u64" where
  "cencIVDomain isVideo trackID = (if isVideo then 0 else push_bit 56 (trackID mod 255 + 1))"

definition cencCounterBlock :: "bytes \<Rightarrow> bytes" where
  "cencCounterBlock sampleIV = (if length sampleIV = 16 then sampleIV else take 16 (sampleIV @ replicate 16 0))"

text \<open>
  The check of \<^verbatim>\<open>cencPreflight\<close> that no two tracks, given by kind and number, share their sample IVs.
\<close>

fun domains_apart :: "(bool \<times> u64) list \<Rightarrow> u64 list \<Rightarrow> unit result" where
  "domains_apart [] owned = Inr ()"
| "domains_apart ((isVideo, tid) # ts) owned =
     (let d = cencIVDomain isVideo tid in
      if d \<in> set owned then Inl (Errf ''two tracks would share their sample IVs under the key'')
      else domains_apart ts (d # owned))"

definition cencSupportsCodec :: "string \<Rightarrow> bool" where
  "cencSupportsCodec codec = (codec \<in> set [''h264'', ''hevc'', ''av1'', ''vp9''])"

text \<open>\<open>videoCodec\<close> is empty for an audio-only presentation.\<close>

definition cencPreflight :: "CENCOptions option \<Rightarrow> bool \<Rightarrow> bool \<Rightarrow> string \<Rightarrow> (bool \<times> u64) list \<Rightarrow> unit result" where
  "cencPreflight cenc encrypts singleFile videoCodec media =
     (case cenc of None \<Rightarrow> Inr ()
      | Some c \<Rightarrow>
          if encrypts then Inl (Errf ''Options.CENC and Options.Encrypt cannot be combined'')
          else if singleFile then Inl (Errf ''Options.CENC and Options.SingleFile cannot be combined'')
          else bind_r (validate c) (\<lambda>_.
            if videoCodec \<noteq> '''' \<and> \<not> cencSupportsCodec videoCodec then Inl (Errf ''Options.CENC: no subsample encryption rule'')
            else if c_Scheme c = scheme_cenc then domains_apart media [] else Inr ()))"

section \<open>Adding to a big-endian number\<close>

lemma add_carry_length [simp]: "length (add_carry c bs) = length bs"
  by (induction bs arbitrary: c) (simp_all add: Let_def)

lemma length_addUint64BE [simp]: "length (addUint64BE b v) = length b"
  by (simp add: addUint64BE_def)

text \<open>The number little-endian bytes stand for.\<close>

fun le_nat :: "bytes \<Rightarrow> nat" where
  "le_nat [] = 0"
| "le_nat (b # bs) = unat b + 256 * le_nat bs"

lemma le_nat_less: "le_nat bs < 256 ^ length bs"
proof (induction bs)
  case (Cons b bs)
  have "unat b < 256" using unsigned_less [of b] by simp
  then show ?case using Cons by simp
qed simp

lemma le_nat_inject: "length bs = length cs \<Longrightarrow> le_nat bs = le_nat cs \<Longrightarrow> bs = cs"
proof (induction bs arbitrary: cs)
  case (Cons b bs)
  then obtain c cs' where cs: "cs = c # cs'" by (cases cs) auto
  have "unat b < 256" "unat c < 256" using unsigned_less [of b] unsigned_less [of c] by simp_all
  moreover have eq: "unat b + 256 * le_nat bs = unat c + 256 * le_nat cs'" using Cons.prems cs by simp
  moreover have "x = y" if "x + 256 * m = y + 256 * n" "x < 256" "y < 256" for x y m n :: nat
    using that by (metis mod_less mod_mult_self2)
  ultimately have "unat b = unat c" by blast
  with eq have "le_nat bs = le_nat cs'" by simp
  note \<open>unat b = unat c\<close> this
  with Cons cs show ?case by (simp add: word_unat_eq_iff)
qed simp

lemma add_carry_nat: "le_nat (add_carry c bs) = (le_nat bs + unat c) mod 256 ^ length bs"
proof (induction bs arbitrary: c)
  case (Cons b bs)
  show ?case
  proof (cases "c = 0")
    case True
    then show ?thesis using le_nat_less [of "b # bs"] by simp
  next
    case False
    define s where "s = ucast b + (c AND 0xFF)"
    have b: "unat b < 256" using unsigned_less [of b] by simp
    have "c AND 0xFF = take_bit 8 c" by (simp add: take_bit_eq_mask mask_eq_exp_minus_1)
    moreover have "unat (take_bit 8 c) = unat c mod 256" unfolding unsigned_take_bit_eq by (simp add: take_bit_eq_mod)
    ultimately have m: "unat (c AND 0xFF) = unat c mod 256" by simp
    have s: "unat s = unat b + unat c mod 256"
      using b by (simp add: s_def unat_word_ariths m unsigned_ucast_eq take_bit_nat_eq_self)
    have d: "unat (drop_bit 8 s) = unat s div 256" "unat (drop_bit 8 c) = unat c div 256"
      unfolding unat_drop_bit_eq by (simp_all add: drop_bit_eq_div)
    have "unat c < 2 ^ 64" using unsigned_less [of c] by simp
    then have carry: "unat (drop_bit 8 c + drop_bit 8 s) = unat c div 256 + unat s div 256"
      using b s by (simp add: unat_word_ariths d)
    have low: "unat (ucast s :: byte) = unat s mod 256"
      by (simp add: unsigned_ucast_eq take_bit_eq_mod)
    have "le_nat (add_carry c (b # bs)) = unat s mod 256 + 256 * ((le_nat bs + (unat c div 256 + unat s div 256)) mod 256 ^ length bs)"
      using False by (simp add: Let_def low Cons carry flip: s_def)
    also have "\<dots> = (unat s mod 256 + 256 * (le_nat bs + (unat c div 256 + unat s div 256))) mod 256 ^ length (b # bs)"
    proof -
      have "x + 256 * (y mod n) = (x + 256 * y) mod (256 * n)" if "x < 256" "0 < n" for x y n :: nat
        using that mod_mult2_eq [of "x + 256 * y" 256 n] by simp
      from this [of "unat s mod 256" "256 ^ length bs"] show ?thesis by simp
    qed
    also have "unat s mod 256 + 256 * (le_nat bs + (unat c div 256 + unat s div 256)) = le_nat (b # bs) + unat c"
    proof -
      have "unat s mod 256 + 256 * (unat s div 256) = unat s" "unat c mod 256 + 256 * (unat c div 256) = unat c"
        by simp_all
      then show ?thesis using s by (simp add: algebra_simps)
    qed
    finally show ?thesis .
  qed
qed simp
definition be_nat :: "bytes \<Rightarrow> nat" where
  "be_nat bs = le_nat (rev bs)"

lemma le_nat_append: "le_nat (xs @ ys) = le_nat xs + 256 ^ length xs * le_nat ys"
  by (induction xs) (simp_all add: algebra_simps)

lemma be_nat_append: "be_nat (xs @ ys) = 256 ^ length ys * be_nat xs + be_nat ys"
  by (simp add: be_nat_def le_nat_append)

lemma be_nat_less: "be_nat bs < 256 ^ length bs"
  using le_nat_less [of "rev bs"] by (simp add: be_nat_def)

lemma be_nat_inject: "length bs = length cs \<Longrightarrow> be_nat bs = be_nat cs \<Longrightarrow> bs = cs"
  using le_nat_inject [of "rev bs" "rev cs"] by (simp add: be_nat_def)

lemma addUint64BE_nat: "be_nat (addUint64BE b v) = (be_nat b + unat v) mod 256 ^ length b"
  by (simp add: be_nat_def addUint64BE_def add_carry_nat)

lemma push_or_add: "push_bit 8 v OR ucast (b :: byte) = v * 256 + (ucast b :: 'a::len word)"
proof -
  have "push_bit 8 v OR ucast b = push_bit 8 v + (ucast b :: 'a word)"
    by (rule disjunctive_add [symmetric]) (auto simp: bit_simps dest: bit_imp_le_length)
  then show ?thesis by (simp add: push_bit_eq_mult)
qed

lemma be_acc_nat: "be_acc v bs = v * 256 ^ length bs + (of_nat (be_nat bs) :: 'a::len word)"
proof (induction bs arbitrary: v)
  case (Cons b bs)
  have "of_nat (unat b) = (ucast b :: 'a word)" by simp
  moreover have "be_nat (b # bs) = 256 ^ length bs * unat b + be_nat bs"
    using be_nat_append [of "[b]" bs] by (simp add: be_nat_def)
  ultimately show ?case by (simp add: Cons push_or_add algebra_simps)
qed (simp add: be_nat_def)

lemma be_dec_nat: "be_dec bs = (of_nat (be_nat bs) :: 'a::len word)"
  by (simp add: be_dec_def be_acc_nat)

lemma unat_be_dec: "8 * length bs \<le> LENGTH('a) \<Longrightarrow> unat (be_dec bs :: 'a::len word) = be_nat bs"
proof -
  assume "8 * length bs \<le> LENGTH('a)"
  then have "(2 :: nat) ^ (8 * length bs) \<le> 2 ^ LENGTH('a)" by (rule power_increasing) simp
  moreover have "(256 :: nat) ^ length bs = 2 ^ (8 * length bs)" by (simp add: power_mult)
  ultimately have "(256 :: nat) ^ length bs \<le> 2 ^ LENGTH('a)" by simp
  then have "be_nat bs < 2 ^ LENGTH('a)" using less_le_trans [OF be_nat_less [of bs]] by metis
  then show ?thesis by (simp add: be_dec_nat unat_of_nat)
qed

section \<open>No counter block twice\<close>

text \<open>The \<open>j\<close>-th counter block of AES-CTR from a first one.\<close>

definition ctr_block :: "bytes \<Rightarrow> nat \<Rightarrow> bytes" where
  "ctr_block first j = be_enc 16 (be_dec first + of_nat j :: 128 word)"

text \<open>What the high eight bytes of an IV get on top of the base's.\<close>

definition nonce :: "nat \<Rightarrow> bool \<Rightarrow> u64 \<Rightarrow> int \<Rightarrow> nat" where
  "nonce i isVideo trackID srcOff = i * 2 ^ 48 + unat (cencIVDomain isVideo trackID) + nat srcOff"

lemma domain_value: "\<exists>k < 256. unat (cencIVDomain isVideo trackID) = k * 2 ^ 56"
proof (cases isVideo)
  case False
  have "unat (trackID mod 255) < 255" using unat_mod_distrib [of trackID 255] by simp
  then have t: "unat (trackID mod 255 + 1) = unat (trackID mod 255) + 1"
    by (simp add: unat_word_ariths)
  have push: "unat (push_bit 56 x) = unat x * 2 ^ 56 mod 2 ^ 64" for x :: u64
    by (simp add: push_bit_eq_mult unat_word_ariths)
  have "unat (push_bit 56 (trackID mod 255 + 1)) = (unat (trackID mod 255) + 1) * 2 ^ 56"
    unfolding push t using \<open>unat (trackID mod 255) < 255\<close> by simp
  then show ?thesis using False \<open>unat (trackID mod 255) < 255\<close>
    by (intro exI [of _ "unat (trackID mod 255) + 1"]) (simp add: cencIVDomain_def)
qed (simp add: cencIVDomain_def)

lemma base_unique: "a * m + x = b * m + y \<Longrightarrow> x < m \<Longrightarrow> y < m \<Longrightarrow> a = b \<and> x = (y :: nat)"
  by (metis div_mult_self3 add.commute add_right_cancel div_less add_cancel_right_left less_nat_zero_code)

lemma nonce_inject:
  assumes eq: "nonce i v t off = nonce i' v' t' off'" and "i < 256" "i' < 256"
    and "0 \<le> off" "off < 2 ^ 48" "0 \<le> off'" "off' < 2 ^ 48"
  shows "i = i' \<and> cencIVDomain v t = cencIVDomain v' t' \<and> off = off'"
proof -
  obtain k where k: "k < 256" "unat (cencIVDomain v t) = k * 2 ^ 56" using domain_value by blast
  obtain k' where k': "k' < 256" "unat (cencIVDomain v' t') = k' * 2 ^ 56" using domain_value by blast
  have "nat off < 2 ^ 48" "nat off' < 2 ^ 48" using assms by simp_all
  moreover have "(k * 256 + i) * 2 ^ 48 + nat off = (k' * 256 + i') * 2 ^ 48 + nat off'"
    using eq k k' by (simp add: nonce_def algebra_simps)
  ultimately have "k * 256 + i = k' * 256 + i'" "nat off = nat off'" using base_unique by blast+
  moreover from this(1) have "k = k' \<and> i = i'" using assms(2,3) base_unique by blast
  ultimately show ?thesis using assms k k' by (simp add: word_unat_eq_iff)
qed

lemma nonce_less:
  assumes "i < 256" "0 \<le> off" "off < 2 ^ 48"
  shows "nonce i v t off < 2 ^ 64"
proof -
  obtain k where k: "k < 256" "unat (cencIVDomain v t) = k * 2 ^ 56" using domain_value by blast
  have "nat off < 2 ^ 48" using assms by simp
  then show ?thesis using k assms(1) by (simp add: nonce_def)
qed
text \<open>The high eight bytes of a sample's IV, and the low ones, which the block counter starts from.\<close>

lemma length_sampleIV [simp]: "8 \<le> length base \<Longrightarrow> length (cencSampleIV base off d) = length base"
  by (simp add: cencSampleIV_def)

lemma variantIV:
  assumes "8 \<le> length (c_IV c)" "i < 256" "c_Scheme c = scheme_cenc"
  shows "be_nat (take 8 (c_IV (cencForVariant c i))) = (be_nat (take 8 (c_IV c)) + i * 2 ^ 48) mod 2 ^ 64"
    "drop 8 (c_IV (cencForVariant c i)) = drop 8 (c_IV c)" "length (c_IV (cencForVariant c i)) = length (c_IV c)"
proof -
  have less: "be_nat (take 8 (c_IV c)) < 2 ^ 64" using be_nat_less [of "take 8 (c_IV c)"] assms by simp
  have "unat (push_bit 48 (word_of_nat i :: u64)) = unat (word_of_nat i :: u64) * 2 ^ 48 mod 2 ^ 64"
    by (simp add: push_bit_eq_mult unat_word_ariths)
  also have "unat (word_of_nat i :: u64) = i" using assms(2) by (simp add: unat_of_nat)
  finally have i: "unat (push_bit 48 (word_of_nat i :: u64)) = i * 2 ^ 48" using assms(2) by simp
  show "be_nat (take 8 (c_IV (cencForVariant c i))) = (be_nat (take 8 (c_IV c)) + i * 2 ^ 48) mod 2 ^ 64"
    using assms less by (simp add: cencForVariant_def addUint64BE_nat i)
  show "drop 8 (c_IV (cencForVariant c i)) = drop 8 (c_IV c)" "length (c_IV (cencForVariant c i)) = length (c_IV c)"
    using assms by (simp_all add: cencForVariant_def)
qed

lemma sampleIV_high:
  assumes "8 \<le> length base" "0 \<le> off" "off < 2 ^ 48"
  shows "be_nat (take 8 (cencSampleIV base off d)) = (be_nat (take 8 base) + (nat off + unat d)) mod 2 ^ 64"
    "drop 8 (cencSampleIV base off d) = drop 8 base"
proof -
  have "unat (word_of_int off :: u64) = nat off"
    using assms by (simp add: unat_eq_nat_uint uint_word_of_int)
  then have "unat (word_of_int off + d) = (nat off + unat d) mod 2 ^ 64" by (simp add: unat_word_ariths)
  then show "be_nat (take 8 (cencSampleIV base off d)) = (be_nat (take 8 base) + (nat off + unat d)) mod 2 ^ 64"
    using assms by (simp add: cencSampleIV_def addUint64BE_nat mod_simps)
  show "drop 8 (cencSampleIV base off d) = drop 8 base" using assms by (simp add: cencSampleIV_def)
qed

lemma sample_nonce:
  assumes "8 \<le> length (c_IV c)" "i < 256" "c_Scheme c = scheme_cenc" "0 \<le> off" "off < 2 ^ 48"
  shows "be_nat (take 8 (cencSampleIV (c_IV (cencForVariant c i)) off (cencIVDomain v t)))
       = (be_nat (take 8 (c_IV c)) + nonce i v t off) mod 2 ^ 64"
proof -
  have "8 \<le> length (c_IV (cencForVariant c i))" using variantIV(3) [OF assms(1-3)] assms(1) by simp
  from sampleIV_high(1) [OF this assms(4,5), of "cencIVDomain v t"]
  have "be_nat (take 8 (cencSampleIV (c_IV (cencForVariant c i)) off (cencIVDomain v t)))
      = ((be_nat (take 8 (c_IV c)) + i * 2 ^ 48) mod 2 ^ 64 + (nat off + unat (cencIVDomain v t))) mod 2 ^ 64"
    unfolding variantIV(1) [OF assms(1-3)] .
  also have "\<dots> = ((be_nat (take 8 (c_IV c)) + i * 2 ^ 48) + (nat off + unat (cencIVDomain v t))) mod 2 ^ 64"
    by (rule mod_add_left_eq)
  finally show ?thesis by (simp add: nonce_def ac_simps)
qed

lemma counterBlock_value:
  assumes "length iv = 8 \<or> length iv = 16"
  shows "be_nat (cencCounterBlock iv) = 2 ^ 64 * be_nat (take 8 iv) + be_nat (drop 8 iv) \<and> length (cencCounterBlock iv) = 16"
proof (cases "length iv = 16")
  case True
  then show ?thesis using be_nat_append [of "take 8 iv" "drop 8 iv"] by (simp add: cencCounterBlock_def)
next
  case False
  then have "length iv = 8" using assms by simp
  moreover have "be_nat (replicate 8 0) = 0" by (simp add: be_nat_def numeral_eq_Suc)
  ultimately show ?thesis using be_nat_append [of iv "replicate 8 0"] by (simp add: cencCounterBlock_def be_nat_def)
qed

lemma validate_cenc:
  assumes "validate c = Inr ()" "c_Scheme c = scheme_cenc"
  shows "length (c_IV c) = 8 \<or> length (c_IV c) = 16" "be_nat (drop 8 (c_IV c)) \<le> 2 ^ 64 - 2 ^ 32"
proof -
  show len: "length (c_IV c) = 8 \<or> length (c_IV c) = 16"
    using assms by (auto simp: validate_def scheme_cenc_def split: if_splits)
  show "be_nat (drop 8 (c_IV c)) \<le> 2 ^ 64 - 2 ^ 32"
  proof (cases "length (c_IV c) = 16")
    case True
    then have "\<not> (be_dec (drop 8 (c_IV c)) :: u64) > 0xFFFFFFFFFFFFFFFF - push_bit 32 1 + 1"
      using assms by (auto simp: validate_def scheme_cenc_def split: if_splits)
    moreover have "(0xFFFFFFFFFFFFFFFF - push_bit 32 1 + 1 :: u64) = 0xFFFFFFFF00000000" by simp
    ultimately have "be_dec (drop 8 (c_IV c)) \<le> (0xFFFFFFFF00000000 :: u64)" by (simp only: not_less)
    then have "unat (be_dec (drop 8 (c_IV c)) :: u64) \<le> 0xFFFFFFFF00000000" by (simp add: word_le_nat_alt)
    then show ?thesis using True unat_be_dec [of "drop 8 (c_IV c)", where 'a = 64] by simp
  next
    case False
    then show ?thesis using len by (simp add: be_nat_def)
  qed
qed

lemma ctr_block_inject:
  assumes "length a = 16" "length b = 16" "be_nat a + i < 2 ^ 128" "be_nat b + j < 2 ^ 128" "ctr_block a i = ctr_block b j"
  shows "be_nat a + i = be_nat b + j"
proof -
  have "(be_dec a + of_nat i :: 128 word) = be_dec b + of_nat j"
    using arg_cong [OF assms(5), of "be_dec :: bytes \<Rightarrow> 128 word"] by (simp add: ctr_block_def)
  then have "(of_nat (be_nat a + i) :: 128 word) = of_nat (be_nat b + j)" by (simp add: be_dec_nat)
  then have "unat (of_nat (be_nat a + i) :: 128 word) = unat (of_nat (be_nat b + j) :: 128 word)" by (rule arg_cong)
  moreover have "unat (of_nat n :: 128 word) = n" if "n < 2 ^ 128" for n using that by (simp add: unat_of_nat)
  ultimately show ?thesis using assms(3,4) by metis
qed

lemma mod_shift_inject: "(h + x) mod m = (h + y) mod m \<Longrightarrow> x < m \<Longrightarrow> y < m \<Longrightarrow> x = (y :: nat)"
proof -
  assume eq: "(h + x) mod m = (h + y) mod m" and "x < m" "y < m"
  have "int m dvd (int h + int x) - (int h + int y)"
    using arg_cong [OF eq, of int] by (simp add: mod_eq_dvd_iff zmod_int)
  then have "int m dvd int x - int y" by simp
  moreover have "\<bar>int x - int y\<bar> < int m" using \<open>x < m\<close> \<open>y < m\<close> by linarith
  ultimately have "int x - int y = 0" by (metis dvd_imp_le_int zdvd_not_zless abs_of_nat not_le)
  then show "x = y" by simp
qed

lemma counters_distinct:
  assumes c: "validate c = Inr ()" "c_Scheme c = scheme_cenc"
    and i: "i < 256" "i' < 256" and off: "0 \<le> off" "off < 2 ^ 48" "0 \<le> off'" "off' < 2 ^ 48" and j: "j < 2 ^ 32" "j' < 2 ^ 32"
    and eq: "ctr_block (cencCounterBlock (cencSampleIV (c_IV (cencForVariant c i)) off (cencIVDomain v t))) j
           = ctr_block (cencCounterBlock (cencSampleIV (c_IV (cencForVariant c i')) off' (cencIVDomain v' t'))) j'"
  shows "i = i' \<and> cencIVDomain v t = cencIVDomain v' t' \<and> off = off' \<and> j = j'"
proof -
  note val = validate_cenc [OF c]
  then have len: "8 \<le> length (c_IV c)" by auto
  define H L where "H = be_nat (take 8 (c_IV c))" and "L = be_nat (drop 8 (c_IV c))"
  define N where "N k v t x = (H + nonce k v t x) mod 2 ^ 64" for k v t x
  have block: "be_nat (cencCounterBlock (cencSampleIV (c_IV (cencForVariant c k)) x (cencIVDomain v t))) = 2 ^ 64 * N k v t x + L \<and>
      length (cencCounterBlock (cencSampleIV (c_IV (cencForVariant c k)) x (cencIVDomain v t))) = 16"
    if "k < 256" "0 \<le> x" "x < 2 ^ 48" for k x v t
    using counterBlock_value [of "cencSampleIV (c_IV (cencForVariant c k)) x (cencIVDomain v t)"] val(1)
      variantIV [OF len that(1) c(2)] sample_nonce [OF len that(1) c(2) that(2,3), of v t]
      sampleIV_high(2) [OF _ that(2,3), of "c_IV (cencForVariant c k)" "cencIVDomain v t"] len
    by (simp add: H_def L_def N_def)
  have N: "N k v t x < 2 ^ 64" for k v t x by (simp add: N_def)
  have L: "L + n < 2 ^ 64" if "n < 2 ^ 32" for n using val(2) that by (simp add: L_def)
  have top: "2 ^ 64 * N k v t x + L + n < 2 ^ 128" if "n < 2 ^ 32" for k v t x n
    using N [of k v t x] L [OF that] by simp
  have "be_nat (cencCounterBlock (cencSampleIV (c_IV (cencForVariant c i)) off (cencIVDomain v t))) + j
      = be_nat (cencCounterBlock (cencSampleIV (c_IV (cencForVariant c i')) off' (cencIVDomain v' t'))) + j'"
  proof (rule ctr_block_inject [OF _ _ _ _ eq])
    show "length (cencCounterBlock (cencSampleIV (c_IV (cencForVariant c i)) off (cencIVDomain v t))) = 16"
      using block [OF i(1) off(1,2)] by blast
    show "length (cencCounterBlock (cencSampleIV (c_IV (cencForVariant c i')) off' (cencIVDomain v' t'))) = 16"
      using block [OF i(2) off(3,4)] by blast
    show "be_nat (cencCounterBlock (cencSampleIV (c_IV (cencForVariant c i)) off (cencIVDomain v t))) + j < 2 ^ 128"
      using block [OF i(1) off(1,2), of v t] top [OF j(1), of i v t off] by presburger
    show "be_nat (cencCounterBlock (cencSampleIV (c_IV (cencForVariant c i')) off' (cencIVDomain v' t'))) + j' < 2 ^ 128"
      using block [OF i(2) off(3,4), of v' t'] top [OF j(2), of i' v' t' off'] by presburger
  qed
  then have "2 ^ 64 * N i v t off + L + j = 2 ^ 64 * N i' v' t' off' + L + j'"
    unfolding block [OF i(1) off(1,2), of v t, THEN conjunct1] block [OF i(2) off(3,4), of v' t', THEN conjunct1] .
  then have "N i v t off * 2 ^ 64 + (L + j) = N i' v' t' off' * 2 ^ 64 + (L + j')"
    unfolding mult.commute [of "2 ^ 64 :: nat"] add.assoc .
  then have nj: "N i v t off = N i' v' t' off'" "L + j = L + j'"
    using base_unique [OF _ L [OF j(1)] L [OF j(2)]] by blast+
  have "nonce i v t off = nonce i' v' t' off'"
    using mod_shift_inject [OF _ nonce_less [OF i(1) off(1,2)] nonce_less [OF i(2) off(3,4)]] nj(1) unfolding N_def by blast
  from nonce_inject [OF this i off] nj(2) show ?thesis by simp
qed

lemma domains_apart_distinct:
  "domains_apart ts owned = Inr () \<Longrightarrow>
     distinct (map (\<lambda>(v, t). cencIVDomain v t) ts) \<and> set (map (\<lambda>(v, t). cencIVDomain v t) ts) \<inter> set owned = {}"
  by (induction ts owned rule: domains_apart.induct) (auto simp: Let_def split: if_splits)

lemma cencPreflight_cenc:
  assumes "cencPreflight (Some c) encrypts single codec media = Inr ()" "c_Scheme c = scheme_cenc"
  shows "validate c = Inr ()" "distinct (map (\<lambda>(v, t). cencIVDomain v t) media)"
proof -
  obtain "validate c = Inr ()" "domains_apart media [] = Inr ()"
    using assms by (auto simp: cencPreflight_def bind_r_def split: if_splits sum.splits)
  then show "validate c = Inr ()" "distinct (map (\<lambda>(v, t). cencIVDomain v t) media)"
    using domains_apart_distinct [of media "[]"] by simp_all
qed

lemma validate_variant: "validate (cencForVariant c i) = validate c"
proof (cases "c_Scheme c \<noteq> scheme_cenc \<or> i = 0")
  case False
  let ?iv = "addUint64BE (take 8 (c_IV c)) (push_bit 48 (word_of_nat i)) @ drop 8 (c_IV c)"
  have "length ?iv = length (c_IV c)" "drop 8 ?iv = drop 8 (c_IV c)"
    by (simp, cases "8 \<le> length (c_IV c)") simp_all
  then show ?thesis using False by (simp add: validate_def cencForVariant_def)
qed (auto simp: cencForVariant_def)

lemma nth_track_unique:
  assumes "distinct (map f ts)" "m < length ts" "m' < length ts" "f (ts ! m) = f (ts ! m')"
  shows "m = m'"
  using assms nth_eq_iff_index_eq [of "map f ts" m m'] by simp

text \<open>C12. Under 'cenc', once \<^verbatim>\<open>cencVariantsFit\<close> and the variants' \<^verbatim>\<open>cencPreflight\<close> passed, no AES counter
  block is used twice under the key: two counter blocks that are equal belong to the same variant, the same
  track of it, the sample at the same place and the same block of that sample, for the places \<^verbatim>\<open>entry\<close> accepts
  (up to 2^48) and samples of up to 2^32 blocks.\<close>

theorem cenc_counters_never_reused:
  assumes scheme: "c_Scheme c = scheme_cenc" and fit: "cencVariantsFit (Some c) n = Inr ()" and i: "i < n" "i' < n"
    and pre: "cencPreflight (Some (cencForVariant c i)) encrypts single codec (media i) = Inr ()"
    and m: "m < length (media i)" "media i ! m = (v, t)" "m' < length (media i')" "media i' ! m' = (v', t')"
    and off: "0 \<le> off" "off < 2 ^ 48" "0 \<le> off'" "off' < 2 ^ 48" and j: "j < 2 ^ 32" "j' < 2 ^ 32"
    and eq: "ctr_block (cencCounterBlock (cencSampleIV (c_IV (cencForVariant c i)) off (cencIVDomain v t))) j
           = ctr_block (cencCounterBlock (cencSampleIV (c_IV (cencForVariant c i')) off' (cencIVDomain v' t'))) j'"
  shows "i = i' \<and> m = m' \<and> off = off' \<and> j = j'"
proof -
  have "c_Scheme (cencForVariant c i) = scheme_cenc" using scheme by (simp add: cencForVariant_def)
  note pre = cencPreflight_cenc [OF pre this]
  have "validate c = Inr ()" using pre(1) by (simp add: validate_variant)
  moreover have "i < 256" "i' < 256" using fit i scheme by (auto simp: cencVariantsFit_def maxCENCVariants_def split: if_splits)
  ultimately have same: "i = i'" "cencIVDomain v t = cencIVDomain v' t'" "off = off'" "j = j'"
    using counters_distinct [OF _ scheme _ _ off j eq] by blast+
  then have "m = m'" using nth_track_unique [OF pre(2), of m m'] m by simp
  with same show ?thesis by blast
qed

text \<open>Two tracks and two variants, each hypothesis at a concrete input.\<close>

definition ex_cenc :: CENCOptions where
  "ex_cenc = \<lparr>c_Scheme = scheme_cenc, c_Key = replicate 16 7, c_KeyID = replicate 16 1, c_IV = [1, 2, 3, 4, 5, 6, 7, 0xFF],
     c_KeyURI = ''https://keys.example/1'', c_InlineKey = False, c_PSSH = []\<rparr>"

theorem cenc_counters_never_reused_witness:
  "cencVariantsFit (Some ex_cenc) 2 = Inr () \<and>
   cencPreflight (Some (cencForVariant ex_cenc 1)) False False ''h264'' [(True, 1), (False, 2)] = Inr () \<and>
   (ctr_block (cencCounterBlock (cencSampleIV (c_IV (cencForVariant ex_cenc 1)) 4096 (cencIVDomain True 1))) 3
  \<noteq> ctr_block (cencCounterBlock (cencSampleIV (c_IV (cencForVariant ex_cenc 1)) 4096 (cencIVDomain False 2))) 3)"
proof -
  have fit: "cencVariantsFit (Some ex_cenc) 2 = Inr ()" by code_simp
  have pre: "cencPreflight (Some (cencForVariant ex_cenc 1)) False False ''h264'' [(True, 1), (False, 2)] = Inr ()" by code_simp
  have "ctr_block (cencCounterBlock (cencSampleIV (c_IV (cencForVariant ex_cenc 1)) 4096 (cencIVDomain True 1))) 3
     \<noteq> ctr_block (cencCounterBlock (cencSampleIV (c_IV (cencForVariant ex_cenc 1)) 4096 (cencIVDomain False 2))) 3"
  proof
    assume "ctr_block (cencCounterBlock (cencSampleIV (c_IV (cencForVariant ex_cenc 1)) 4096 (cencIVDomain True 1))) 3
          = ctr_block (cencCounterBlock (cencSampleIV (c_IV (cencForVariant ex_cenc 1)) 4096 (cencIVDomain False 2))) 3"
    from cenc_counters_never_reused [where media = "\<lambda>_. [(True, 1), (False, 2)]" and m = 0 and m' = 1,
        OF _ fit _ _ pre _ _ _ _ _ _ _ _ _ _ this]
    show False by (simp add: ex_cenc_def)
  qed
  then show ?thesis using fit pre by blast
qed

end
