(* ===== verification/BitSource.thy ===== *)
theory BitSource
  imports Prelude "HOL-Library.State_Monad"
begin

text \<open>
  Reading a codec's headers bit by bit.  The program has several bit readers (the NAL reader of
  mp4/cenc_slice.go, which steps over emulation prevention bytes, and \<^verbatim>\<open>expGolomb\<close> of
  mkv/ops/keyframe_access.go over an already unescaped payload).  This theory holds what they promise
  alike: the locale of a source of bits, the one of the Exp-Golomb codes read from it, and the bit
  strings of the codes.
\<close>

section \<open>Bit strings\<close>

definition bits_of :: "nat \<Rightarrow> 'a::len word \<Rightarrow> bool list" where
  "bits_of n v = map (bit v) (rev [0..<n])"

definition word_of_bits :: "bool list \<Rightarrow> u32" where
  "word_of_bits bs = fold (\<lambda>b v. push_bit 1 v OR of_bool b) bs 0"

definition byte_bits :: "byte \<Rightarrow> bool list" where
  "byte_bits = bits_of 8"

lemma length_bits_of [simp]: "length (bits_of n v) = n"
  by (simp add: bits_of_def)

lemma bits_of_0 [simp]: "bits_of 0 v = []"
  by (simp add: bits_of_def)

lemma bits_of_Suc: "bits_of (Suc n) v = bit v n # bits_of n v"
  by (simp add: bits_of_def)

lemma length_byte_bits [simp]: "length (byte_bits b) = 8"
  by (simp add: byte_bits_def)

lemma fold_bits_split:
  "fold (\<lambda>b v. push_bit 1 v OR of_bool b) bs (w :: u32) = push_bit (length bs) w OR word_of_bits bs"
proof (induction bs arbitrary: w)
  case (Cons b bs)
  have "fold (\<lambda>b v. push_bit 1 v OR of_bool b) (b # bs) w
      = push_bit (length bs) (push_bit 1 w OR of_bool b) OR word_of_bits bs"
    using Cons [of "push_bit 1 w OR of_bool b"] by simp
  also have "\<dots> = push_bit (length (b # bs)) w OR (push_bit (length bs) (of_bool b) OR word_of_bits bs)"
    by (simp add: push_bit_or or.assoc add.commute)
  also have "push_bit (length bs) (of_bool b) OR word_of_bits bs = (word_of_bits (b # bs) :: u32)"
    using Cons [of "of_bool b"] by (simp add: word_of_bits_def)
  finally show ?case .
qed (simp add: word_of_bits_def)

lemma word_of_bits_Nil [simp]: "word_of_bits [] = 0"
  by (simp add: word_of_bits_def)

lemma word_of_bits_Cons: "word_of_bits (b # bs) = push_bit (length bs) (of_bool b) OR word_of_bits bs"
  using fold_bits_split [of bs "of_bool b"] by (simp add: word_of_bits_def)

lemma word_of_bits_snoc: "word_of_bits (bs @ [b]) = push_bit 1 (word_of_bits bs) OR of_bool b"
  by (simp add: word_of_bits_def)

lemma take_bit_Suc_top: "take_bit (Suc n) (v :: 'a::len word) = push_bit n (of_bool (bit v n)) OR take_bit n v"
  by (rule bit_eqI) (auto simp: bit_simps less_Suc_eq)

lemma word_of_bits_of [simp]: "word_of_bits (bits_of n v) = take_bit n (v :: u32)"
  by (induction n) (simp_all add: bits_of_Suc word_of_bits_Cons take_bit_Suc_top)

lemma bit_word_of_bits_less: "bit (word_of_bits bs) n \<Longrightarrow> n < length bs"
  by (induction bs) (auto simp: word_of_bits_Cons bit_simps)

lemma unat_word_of_bits: "unat (word_of_bits bs) < 2 ^ length bs"
proof -
  have "word_of_bits bs = take_bit (length bs) (word_of_bits bs)"
    by (rule bit_eqI) (auto simp: bit_simps dest: bit_word_of_bits_less)
  then have "unat (word_of_bits bs) = take_bit (length bs) (unat (word_of_bits bs))"
    by (metis unsigned_take_bit_eq)
  then show ?thesis by (metis take_bit_nat_less_exp)
qed

section \<open>A source of bits\<close>

text \<open>
  \<open>next\<close> reads one bit, \<open>rest\<close> is what is left to read, \<open>failed\<close> the flag that is set once a read ran
  past the end and \<open>ok\<close> the invariant of the reader's state.
\<close>

locale bit_source =
  fixes read_bit :: "('s, u32) state" and rest :: "'s \<Rightarrow> bool list" and failed :: "'s \<Rightarrow> bool" and ok :: "'s \<Rightarrow> bool"
  assumes read_Cons: "ok s \<Longrightarrow> rest s = b # bs \<Longrightarrow>
      \<exists>s'. run_state read_bit s = (of_bool b, s') \<and> ok s' \<and> rest s' = bs \<and> failed s' = failed s"
    and read_Nil: "ok s \<Longrightarrow> rest s = [] \<Longrightarrow>
      \<exists>s'. run_state read_bit s = (0, s') \<and> ok s' \<and> rest s' = [] \<and> failed s'"
begin

lemma read_ok: "ok s \<Longrightarrow> ok (snd (run_state read_bit s))"
  using read_Cons [of s] read_Nil [of s] by (cases "rest s") (metis snd_conv)+

lemma read_failed: "ok s \<Longrightarrow> failed s \<Longrightarrow> failed (snd (run_state read_bit s))"
  using read_Cons [of s] read_Nil [of s] by (cases "rest s") (metis snd_conv)+

text \<open>What an operation promises: it reads the bits \<open>bs\<close> and answers \<open>v\<close>.\<close>

definition takes :: "('s, 'a) state \<Rightarrow> bool list \<Rightarrow> 'a \<Rightarrow> bool" where
  "takes m bs v \<longleftrightarrow> (\<forall>s r. ok s \<longrightarrow> \<not> failed s \<longrightarrow> rest s = bs @ r \<longrightarrow>
     (\<exists>s'. run_state m s = (v, s') \<and> ok s' \<and> rest s' = r \<and> \<not> failed s'))"

lemma takesI:
  "(\<And>s r. ok s \<Longrightarrow> \<not> failed s \<Longrightarrow> rest s = bs @ r \<Longrightarrow>
     \<exists>s'. run_state m s = (v, s') \<and> ok s' \<and> rest s' = r \<and> \<not> failed s') \<Longrightarrow> takes m bs v"
  by (simp add: takes_def)

lemma takesD:
  "takes m bs v \<Longrightarrow> ok s \<Longrightarrow> \<not> failed s \<Longrightarrow> rest s = bs @ r \<Longrightarrow>
   \<exists>s'. run_state m s = (v, s') \<and> ok s' \<and> rest s' = r \<and> \<not> failed s'"
  by (simp add: takes_def)

lemma takes_bit: "takes read_bit [b] (of_bool b)"
proof (rule takesI)
  fix s r
  assume "ok s" "\<not> failed s" "rest s = [b] @ r"
  then show "\<exists>s'. run_state read_bit s = (of_bool b, s') \<and> ok s' \<and> rest s' = r \<and> \<not> failed s'"
    using read_Cons [of s b r] by auto
qed

lemma takes_return: "takes (State_Monad.return v) [] v"
  by (simp add: takes_def)

lemma takes_bind:
  assumes m: "takes m bs v" and f: "takes (f v) cs w"
  shows "takes (m \<bind> f) (bs @ cs) w"
proof (rule takesI)
  fix s r
  assume "ok s" "\<not> failed s" "rest s = (bs @ cs) @ r"
  then obtain s1 where s1: "run_state m s = (v, s1)" "ok s1" "\<not> failed s1" "rest s1 = cs @ r"
    using takesD [OF m, of s "cs @ r"] by auto
  obtain s2 where "run_state (f v) s1 = (w, s2)" "ok s2" "rest s2 = r" "\<not> failed s2"
    using takesD [OF f s1(2-4)] by auto
  with s1 show "\<exists>s'. run_state (m \<bind> f) s = (w, s') \<and> ok s' \<and> rest s' = r \<and> \<not> failed s'"
    by simp
qed

lemma takes_bind_return: "takes m bs v \<Longrightarrow> takes (m \<bind> (\<lambda>x. State_Monad.return (f x))) bs (f v)"
  using takes_bind [of m bs v "\<lambda>x. State_Monad.return (f x)" "[]" "f v"] takes_return [of "f v"] by simp

end

section \<open>Exp-Golomb codes\<close>

text \<open>\<^verbatim>\<open>bits.Len32\<close>: the bits a number needs.\<close>

fun bit_len :: "nat \<Rightarrow> nat" where
  "bit_len n = (if n = 0 then 0 else Suc (bit_len (n div 2)))"

declare bit_len.simps [simp del]

lemma bit_len_0 [simp]: "bit_len 0 = 0"
  by (simp add: bit_len.simps)

lemma bit_len_bounds: "0 < n \<Longrightarrow> 0 < bit_len n \<and> 2 ^ (bit_len n - 1) \<le> n \<and> n < 2 ^ bit_len n"
proof (induction n rule: bit_len.induct)
  case (1 n)
  have eq: "bit_len n = Suc (bit_len (n div 2))" using 1 by (subst bit_len.simps) simp
  show ?case
  proof (cases "n div 2 = 0")
    case True
    with 1 have "n = 1" by (simp add: div_eq_0_iff)
    with True eq show ?thesis by simp
  next
    case False
    then have "0 < bit_len (n div 2)" "2 ^ (bit_len (n div 2) - 1) \<le> n div 2" "n div 2 < 2 ^ bit_len (n div 2)"
      using 1 by auto
    then have "2 * 2 ^ (bit_len (n div 2) - 1) \<le> n" "n < 2 * 2 ^ bit_len (n div 2)" by linarith+
    then show ?thesis using \<open>0 < bit_len (n div 2)\<close> by (simp add: eq flip: power_Suc)
  qed
qed

lemma bit_len_le: "n < 2 ^ k \<Longrightarrow> bit_len n \<le> k"
proof (cases "n = 0")
  case False
  assume n: "n < 2 ^ k"
  have "2 ^ (bit_len n - 1) \<le> n" "0 < bit_len n" using bit_len_bounds [of n] False by auto
  then have "(2 :: nat) ^ (bit_len n - 1) < 2 ^ k" using n by linarith
  then have "bit_len n - 1 < k" by (rule power_less_imp_less_exp [rotated]) simp
  then show ?thesis by simp
qed simp

text \<open>The code of a number below \<open>2 ^ 32 - 1\<close>, and of a signed number.\<close>

definition ue_bits :: "u32 \<Rightarrow> bool list" where
  "ue_bits v = (let n = bit_len (unat v + 1) - 1 in replicate n False @ bits_of (n + 1) (v + 1))"

definition se_value :: "u32 \<Rightarrow> int" where
  "se_value v = (if v AND 1 = 1 then sint (v div 2 + 1) else - sint (v div 2))"

definition se_code :: "int \<Rightarrow> u32" where
  "se_code x = (if x > 0 then word_of_int (2 * x - 1) else word_of_int (- 2 * x))"

definition se_bits :: "int \<Rightarrow> bool list" where
  "se_bits x = ue_bits (se_code x)"

lemma ue_value:
  assumes v: "v \<noteq> (- 1 :: u32)" and n: "n = bit_len (unat v + 1) - 1"
  shows "n \<le> 31" "bits_of (n + 1) (v + 1) = True # bits_of n (v + 1)"
    "push_bit n 1 - 1 + take_bit n (v + 1) = v"
proof -
  have "1 + v \<noteq> 0" using v by (metis add.commute add_eq_0_iff)
  then have un: "unat (v + 1) = unat v + 1" using unatSuc [of v] by (simp add: add.commute)
  have b: "2 ^ n \<le> unat (v + 1)" "unat (v + 1) < 2 ^ Suc n"
    using bit_len_bounds [of "unat v + 1"] by (simp_all add: n un)
  have "unat (v + 1) < 2 ^ 32" using unsigned_less [of "v + 1"] by simp
  with b have "(2 :: nat) ^ n < 2 ^ 32" by linarith
  then have "n < 32" by (rule power_less_imp_less_exp [rotated]) simp
  then show le: "n \<le> 31" by simp
  have "unat (v + 1) div 2 ^ n = 1" using b by (intro div_nat_eqI) simp_all
  then have "bit (unat (v + 1)) n" by (simp add: bit_iff_odd)
  then have bit: "bit (v + 1) n" by (simp add: bit_unsigned_iff)
  then show "bits_of (n + 1) (v + 1) = True # bits_of n (v + 1)" by (simp add: bits_of_Suc)
  have "take_bit (Suc n) (v + 1) = v + 1" using b(2)
    by (metis take_bit_nat_eq_self unsigned_take_bit_eq word_unat_eq_iff)
  then have "v + 1 = push_bit n 1 OR take_bit n (v + 1)" using bit by (simp add: take_bit_Suc_top)
  also have "\<dots> = push_bit n 1 + take_bit n (v + 1)"
    by (rule disjunctive_add [symmetric]) (auto simp: bit_simps)
  finally show "push_bit n 1 - 1 + take_bit n (v + 1) = v" by (simp add: algebra_simps)
qed

lemma se_code_pos: "0 < x \<Longrightarrow> x < 2 ^ 31 \<Longrightarrow> uint (se_code x) = 2 * x - 1"
  and se_code_neg: "x \<le> 0 \<Longrightarrow> - (2 ^ 31) < x \<Longrightarrow> uint (se_code x) = - 2 * x"
  by (simp_all add: se_code_def uint_word_of_int del: of_int_diff of_int_mult of_int_minus)

lemma se_code_not_max:
  assumes "\<bar>x\<bar> < 2 ^ 31"
  shows "se_code x \<noteq> - 1"
proof
  assume "se_code x = - 1"
  then have "uint (se_code x) = 2 ^ 32 - 1" by (simp add: unsigned_minus_1_eq_mask mask_eq_exp_minus_1)
  then show False using se_code_pos [of x] se_code_neg [of x] assms by (cases "0 < x") auto
qed

lemma odd_uint: "w AND 1 = (1 :: u32) \<longleftrightarrow> odd (uint w)"
  by (simp add: and_one_eq word_uint_eq_iff uint_mod_distrib odd_iff_mod_2_eq_one)

lemma se_value_code:
  assumes x: "\<bar>x\<bar> < 2 ^ 31"
  shows "se_value (se_code x) = x"
proof (cases "0 < x")
  case True
  then have u: "uint (se_code x) = 2 * x - 1" using se_code_pos [of x] x by simp
  moreover have "uint (se_code x div 2 + 1) = x"
    using u x True by (simp add: uint_div_distrib uint_word_ariths mod_pos_pos_trivial)
  ultimately show ?thesis using x True by (simp add: se_value_def odd_uint sint_uint signed_take_bit_int_eq_self)
next
  case False
  then have u: "uint (se_code x) = - 2 * x" using se_code_neg [of x] x by simp
  moreover have "uint (se_code x div 2) = - x" using u by (simp add: uint_div_distrib)
  ultimately show ?thesis using x False by (simp add: se_value_def odd_uint sint_uint signed_take_bit_int_eq_self)
qed

text \<open>
  A reader with the codes: \<open>u n\<close> reads a number of \<open>n\<close> bits, \<open>ue_from zeros\<close> is the loop that reads a
  code's leading zeros, then the code's value.
\<close>

locale exp_golomb = bit_source read_bit rest failed ok
  for read_bit :: "('s, u32) state" and rest :: "'s \<Rightarrow> bool list" and failed :: "'s \<Rightarrow> bool" and ok :: "'s \<Rightarrow> bool" +
  fixes u :: "nat \<Rightarrow> ('s, u32) state" and fail :: "'s \<Rightarrow> 's" and ue_from :: "nat \<Rightarrow> 's \<Rightarrow> u32 \<times> 's"
  assumes u_takes: "length bs \<le> 32 \<Longrightarrow> takes (u (length bs)) bs (word_of_bits bs)"
    and ue_from: "ue_from k s = (let (b, s) = run_state read_bit s in
        if b = 0 then (if k \<ge> 31 \<or> failed s then (0, fail s) else ue_from (k + 1) s)
        else (let (v, s) = run_state (u k) s in (push_bit k 1 - 1 + v, s)))"
begin

lemma ue_from_takes:
  "n \<le> 31 \<Longrightarrow> k \<le> n \<Longrightarrow> length bs = n \<Longrightarrow> ok s \<Longrightarrow> \<not> failed s \<Longrightarrow>
   rest s = replicate (n - k) False @ True # bs @ r \<Longrightarrow>
   \<exists>s'. ue_from k s = (push_bit n 1 - 1 + word_of_bits bs, s') \<and> ok s' \<and> rest s' = r \<and> \<not> failed s'"
proof (induction "n - k" arbitrary: k s)
  case 0
  then have k: "k = n" by simp
  with 0 obtain s1 where s1: "run_state read_bit s = (1, s1)" "ok s1" "rest s1 = bs @ r" "failed s1 = failed s"
    using read_Cons [of s True "bs @ r"] by auto
  obtain s2 where "run_state (u n) s1 = (word_of_bits bs, s2)" "ok s2" "rest s2 = r" "\<not> failed s2"
    using takesD [OF u_takes [of bs] s1(2) _ s1(3)] 0 s1(4) by auto
  with s1 k show ?case by (subst (1) ue_from) simp
next
  case (Suc m)
  then obtain s1 where s1: "run_state read_bit s = (0, s1)" "ok s1"
      "rest s1 = replicate m False @ True # bs @ r" "failed s1 = failed s"
    using read_Cons [of s False "replicate m False @ True # bs @ r"]
    by (metis (no_types, lifting) append_Cons of_bool_eq(1) replicate_Suc)
  have "m = n - (k + 1)" "k + 1 \<le> n" using Suc by simp_all
  then obtain s' where "ue_from (k + 1) s1 = (push_bit n 1 - 1 + word_of_bits bs, s')" "ok s'" "rest s' = r"
      "\<not> failed s'"
    using Suc.hyps(1) [of "k + 1" s1] Suc.prems s1 by auto
  moreover have "ue_from k s = ue_from (k + 1) s1"
    using Suc.prems s1 \<open>k + 1 \<le> n\<close> by (subst ue_from) simp
  ultimately show ?case by simp
qed

theorem ue_takes:
  assumes v: "v \<noteq> - 1"
  shows "takes (State (ue_from 0)) (ue_bits v) v"
proof (rule takesI)
  fix s r
  define n where "n = bit_len (unat v + 1) - 1"
  note val = ue_value [OF v n_def]
  assume s: "ok s" "\<not> failed s" "rest s = ue_bits v @ r"
  have "rest s = replicate (n - 0) False @ True # bits_of n (v + 1) @ r"
    using s(3) val(2) by (simp add: ue_bits_def Let_def n_def)
  then show "\<exists>s'. run_state (State (ue_from 0)) s = (v, s') \<and> ok s' \<and> rest s' = r \<and> \<not> failed s'"
    using ue_from_takes [OF val(1) _ _ s(1,2), of 0 "bits_of n (v + 1)" r] val(3) by simp
qed

theorem se_takes:
  assumes "\<bar>x\<bar> < 2 ^ 31"
  shows "takes (State (ue_from 0) \<bind> (\<lambda>v. State_Monad.return (se_value v))) (se_bits x) x"
  using takes_bind_return [OF ue_takes, of "se_code x" se_value] se_value_code [OF assms] se_code_not_max [OF assms]
  by (simp add: se_bits_def)

end
end
