(* ===== verification/NalReader.thy ===== *)
theory NalReader
  imports BitSource
begin

text \<open>
  \<^verbatim>\<open>nalReader\<close> of mp4/cenc_slice.go: the payload of a NAL unit read bit by bit, past its emulation
  prevention bytes (a 3 behind two zero bytes), so that the position counts escaped bytes.  Every
  method is an operation of the state monad over the reader.  \<open>unescape\<close> is the payload without the
  prevention bytes: the reader is shown to be a source of its bits (the interpretation \<open>nal\<close>), and
  every operation to stay inside the payload (\<open>advances\<close>).
\<close>

section \<open>The reader\<close>

record nalReader =
  nr_data :: bytes
  nr_pos :: nat
  nr_zeros :: nat
  nr_cur :: byte
  nr_left :: nat
  nr_err :: bool

type_synonym 'a nal = "(nalReader, 'a) state"

abbreviation ret :: "'a \<Rightarrow> ('s, 'a) state" where
  "ret \<equiv> State_Monad.return"

definition when_r :: "bool \<Rightarrow> ('s, 'a) state \<Rightarrow> ('s, unit) state" where
  "when_r b m = (if b then m \<bind> (\<lambda>_. ret ()) else ret ())"

primrec repeat_r :: "nat \<Rightarrow> ('s, 'a) state \<Rightarrow> ('s, unit) state" where
  "repeat_r 0 m = ret ()"
| "repeat_r (Suc n) m = m \<bind> (\<lambda>_. repeat_r n m)"

definition failed_r :: "bool nal" where
  "failed_r = State (\<lambda>r. (nr_err r, r))"

definition newNALReader :: "bytes \<Rightarrow> nalReader" where
  "newNALReader d = \<lparr>nr_data = d, nr_pos = 0, nr_zeros = 0, nr_cur = 0, nr_left = 0, nr_err = False\<rparr>"

definition skip_prevention :: "nalReader \<Rightarrow> nalReader" where
  "skip_prevention r =
     (if nr_zeros r \<ge> 2 \<and> nr_pos r < length (nr_data r) \<and> nr_data r ! nr_pos r = 3
      then r\<lparr>nr_pos := nr_pos r + 1, nr_zeros := 0\<rparr> else r)"

definition last_bit :: "nalReader \<Rightarrow> u32 \<times> nalReader" where
  "last_bit r = (let r = r\<lparr>nr_left := nr_left r - 1\<rparr> in (ucast (drop_bit (nr_left r) (nr_cur r)) AND 1, r))"

definition r_bit :: "u32 nal" where
  "r_bit = State (\<lambda>r.
     if nr_left r = 0 then
       (let r = skip_prevention r in
        if nr_pos r \<ge> length (nr_data r) then (0, r\<lparr>nr_err := True\<rparr>)
        else let c = nr_data r ! nr_pos r in
          last_bit (r\<lparr>nr_cur := c, nr_pos := nr_pos r + 1, nr_left := 8,
                      nr_zeros := if c = 0 then nr_zeros r + 1 else 0\<rparr>))
     else last_bit r)"

fun u_loop :: "nat \<Rightarrow> u32 \<Rightarrow> u32 nal" where
  "u_loop 0 v = ret v"
| "u_loop (Suc n) v = do { b \<leftarrow> r_bit; u_loop n (push_bit 1 v OR b) }"

definition r_u :: "nat \<Rightarrow> u32 nal" where
  "r_u n = u_loop n 0"

definition r_flag :: "bool nal" where
  "r_flag = do { b \<leftarrow> r_bit; ret (b = 1) }"

fun r_skip :: "nat \<Rightarrow> unit nal" where
  "r_skip 0 = ret ()"
| "r_skip (Suc n) = do { e \<leftarrow> failed_r; if e then ret () else do { r_bit; r_skip n } }"

definition mark_failed :: "nalReader \<Rightarrow> nalReader" where
  "mark_failed r = r\<lparr>nr_err := True\<rparr>"

function ue_from :: "nat \<Rightarrow> nalReader \<Rightarrow> u32 \<times> nalReader" where
  "ue_from zeros r =
     (let (b, r) = run_state r_bit r in
      if b = 0 then (if zeros \<ge> 31 \<or> nr_err r then (0, mark_failed r) else ue_from (zeros + 1) r)
      else (let (v, r) = run_state (r_u zeros) r in (push_bit zeros 1 - 1 + v, r)))"
  by pat_completeness auto
termination by (relation "measure (\<lambda>(zeros, _). 32 - zeros)") auto

declare ue_from.simps [simp del]

definition r_ue :: "u32 nal" where
  "r_ue = State (ue_from 0)"

definition r_ueMax :: "u32 \<Rightarrow> u32 nal" where
  "r_ueMax mx = do { v \<leftarrow> r_ue; if v > mx then do { State_Monad.update mark_failed; ret 0 } else ret v }"

definition r_se :: "int nal" where
  "r_se = do { v \<leftarrow> r_ue; ret (se_value v) }"

definition headerLen :: "nalReader \<Rightarrow> nat result" where
  "headerLen r = (if nr_err r then Inl (Errf ''the slice header cannot be read'') else Inr (nr_pos r))"

definition ceilLog2 :: "nat \<Rightarrow> nat" where
  "ceilLog2 n = (if n \<le> 1 then 0 else bit_len (n - 1))"

text \<open>An \<^verbatim>\<open>int32\<close> after an addition.\<close>

definition wrap32 :: "int \<Rightarrow> int" where
  "wrap32 x = signed_take_bit 31 x"

section \<open>The unescaped payload\<close>

fun unescape :: "nat \<Rightarrow> bytes \<Rightarrow> bytes" where
  "unescape z [] = []"
| "unescape z (b # bs) =
     (if z \<ge> 2 \<and> b = 3 then unescape 0 bs else b # unescape (if b = 0 then z + 1 else 0) bs)"

text \<open>The zero bytes a prevention byte would follow, behind the bytes read so far.\<close>

fun zeros_after :: "nat \<Rightarrow> bytes \<Rightarrow> nat" where
  "zeros_after z [] = z"
| "zeros_after z (b # bs) = (if z \<ge> 2 \<and> b = 3 then zeros_after 0 bs else zeros_after (if b = 0 then z + 1 else 0) bs)"

lemma unescape_append: "unescape z (xs @ ys) = unescape z xs @ unescape (zeros_after z xs) ys"
  by (induction z xs rule: unescape.induct) simp_all

lemma zeros_after_append: "zeros_after z (xs @ ys) = zeros_after (zeros_after z xs) ys"
  by (induction z xs rule: zeros_after.induct) simp_all

lemma zeros_after_take_Suc:
  "i < length d \<Longrightarrow> zeros_after z (take (Suc i) d) = zeros_after (zeros_after z (take i d)) [d ! i]"
  by (simp add: take_Suc_conv_app_nth zeros_after_append)

definition nal_ok :: "nalReader \<Rightarrow> bool" where
  "nal_ok r \<longleftrightarrow> nr_left r < 8 \<and> nr_pos r \<le> length (nr_data r) \<and>
     nr_zeros r = zeros_after 0 (take (nr_pos r) (nr_data r))"

definition nal_rest :: "nalReader \<Rightarrow> bool list" where
  "nal_rest r = bits_of (nr_left r) (nr_cur r) @ concat (map byte_bits (unescape (nr_zeros r) (drop (nr_pos r) (nr_data r))))"

lemma nal_ok_new [simp]: "nal_ok (newNALReader d)"
  by (simp add: nal_ok_def newNALReader_def)

lemma nr_err_new: "\<not> nr_err (newNALReader d)"
  by (simp add: newNALReader_def)

lemma nal_rest_new: "nal_rest (newNALReader d) = concat (map byte_bits (unescape 0 d))"
  by (simp add: nal_rest_def newNALReader_def)

lemma shifted_bit: "ucast (drop_bit n (c :: byte)) AND (1 :: u32) = of_bool (bit c n)"
  by (rule bit_eqI) (auto simp: bit_simps)

lemma last_bit_eq: "nr_left r = Suc n \<Longrightarrow> last_bit r = (of_bool (bit (nr_cur r) n), r\<lparr>nr_left := n\<rparr>)"
  by (simp add: last_bit_def shifted_bit)

lemma skip_prevention_rest:
  "nr_left r = 0 \<Longrightarrow> nal_ok r \<Longrightarrow>
   nal_ok (skip_prevention r) \<and> nr_err (skip_prevention r) = nr_err r \<and> nr_left (skip_prevention r) = 0 \<and>
   nal_rest (skip_prevention r) = nal_rest r \<and>
   \<not> (nr_zeros (skip_prevention r) \<ge> 2 \<and> nr_pos (skip_prevention r) < length (nr_data r) \<and>
      nr_data r ! nr_pos (skip_prevention r) = 3) \<and> nr_data (skip_prevention r) = nr_data r"
  by (auto simp: skip_prevention_def nal_ok_def nal_rest_def Cons_nth_drop_Suc [symmetric] zeros_after_take_Suc)

lemma r_bit_rest:
  assumes ok: "nal_ok r"
  shows "case nal_rest r of
      [] \<Rightarrow> \<exists>r'. run_state r_bit r = (0, r') \<and> nal_ok r' \<and> nal_rest r' = [] \<and> nr_err r'
    | b # bs \<Rightarrow> \<exists>r'. run_state r_bit r = (of_bool b, r') \<and> nal_ok r' \<and> nal_rest r' = bs \<and> nr_err r' = nr_err r"
proof (cases "nr_left r")
  case (Suc n)
  then show ?thesis using ok
    by (simp add: r_bit_def last_bit_eq nal_rest_def bits_of_Suc nal_ok_def)
next
  case 0
  define q where "q = skip_prevention r"
  have q: "nal_ok q" "nr_err q = nr_err r" "nr_left q = 0" "nal_rest q = nal_rest r"
      "\<not> (nr_zeros q \<ge> 2 \<and> nr_pos q < length (nr_data q) \<and> nr_data q ! nr_pos q = 3)"
    using skip_prevention_rest [OF 0 ok] by (auto simp: q_def)
  show ?thesis
  proof (cases "nr_pos q < length (nr_data q)")
    case False
    then have "nal_rest q = []" using q by (simp add: nal_rest_def)
    moreover have "run_state r_bit r = (0, q\<lparr>nr_err := True\<rparr>)" using 0 False by (simp add: r_bit_def q_def Let_def)
    moreover have "nal_rest (q\<lparr>nr_err := True\<rparr>) = nal_rest q" by (simp add: nal_rest_def)
    ultimately show ?thesis using q(1) by (simp add: q(4) [symmetric] nal_ok_def)
  next
    case True
    define c where "c = nr_data q ! nr_pos q"
    define s where "s = q\<lparr>nr_cur := c, nr_pos := nr_pos q + 1, nr_left := 8, nr_zeros := if c = 0 then nr_zeros q + 1 else 0\<rparr>"
    have "run_state r_bit r = last_bit s" using 0 True by (simp add: r_bit_def q_def s_def c_def Let_def)
    moreover have "nr_left s = Suc 7" by (simp add: s_def)
    ultimately have run: "run_state r_bit r = (of_bool (bit c 7), s\<lparr>nr_left := 7\<rparr>)"
      using last_bit_eq [of s 7] by (simp add: s_def)
    have "nal_rest q = byte_bits c @ concat (map byte_bits (unescape (nr_zeros s) (drop (nr_pos s) (nr_data s))))"
      using q True by (auto simp: nal_rest_def s_def c_def Cons_nth_drop_Suc [symmetric])
    also have "byte_bits c = bit c 7 # bits_of 7 c" by (simp add: byte_bits_def bits_of_Suc [of 7, simplified])
    finally have "nal_rest r = bit c 7 # nal_rest (s\<lparr>nr_left := 7\<rparr>)"
      using q by (simp add: nal_rest_def s_def)
    then show ?thesis using run q True by (simp add: nal_ok_def s_def c_def zeros_after_take_Suc)
  qed
qed

lemma u_loop_takes:
  assumes src: "bit_source r_bit nal_rest nr_err nal_ok"
  shows "bit_source.takes nal_rest nr_err nal_ok (u_loop (length bs) v) bs (fold (\<lambda>b v. push_bit 1 v OR of_bool b) bs v)"
proof (induction bs arbitrary: v)
  case Nil
  then show ?case using bit_source.takes_return [OF src] by simp
next
  case (Cons b bs)
  have "bit_source.takes nal_rest nr_err nal_ok (r_bit \<bind> (\<lambda>b. u_loop (length bs) (push_bit 1 v OR b))) ([b] @ bs)
      (fold (\<lambda>b v. push_bit 1 v OR of_bool b) bs (push_bit 1 v OR of_bool b))"
    by (rule bit_source.takes_bind [OF src bit_source.takes_bit [OF src] Cons])
  then show ?case by simp
qed

interpretation nal: exp_golomb r_bit nal_rest nr_err nal_ok r_u mark_failed ue_from
proof -
  have src: "bit_source r_bit nal_rest nr_err nal_ok"
  proof
    fix s b bs
    assume "nal_ok s" "nal_rest s = b # bs"
    then show "\<exists>s'. run_state r_bit s = (of_bool b, s') \<and> nal_ok s' \<and> nal_rest s' = bs \<and> nr_err s' = nr_err s"
      using r_bit_rest [of s] by simp
  next
    fix s
    assume "nal_ok s" "nal_rest s = []"
    then show "\<exists>s'. run_state r_bit s = (0, s') \<and> nal_ok s' \<and> nal_rest s' = [] \<and> nr_err s'"
      using r_bit_rest [of s] by simp
  qed
  show "exp_golomb r_bit nal_rest nr_err nal_ok r_u mark_failed ue_from"
  proof (rule exp_golomb.intro [OF src], unfold_locales)
    show "bit_source.takes nal_rest nr_err nal_ok (r_u (length bs)) bs (word_of_bits bs)" for bs
      unfolding r_u_def word_of_bits_def by (rule u_loop_takes [OF src])
  qed (rule ue_from.simps)
qed
section \<open>Staying inside the payload\<close>

definition moves :: "nalReader \<Rightarrow> nalReader \<Rightarrow> bool" where
  "moves r r' \<longleftrightarrow> nr_data r' = nr_data r \<and> nr_pos r \<le> nr_pos r' \<and> (nal_ok r \<longrightarrow> nal_ok r') \<and> (nr_err r \<longrightarrow> nr_err r')"

abbreviation advances :: "'a nal \<Rightarrow> bool" where
  "advances \<equiv> state_io_rel moves"

named_theorems adv \<open>operations that stay inside the payload\<close>

lemma moves_refl [simp]: "moves r r"
  by (simp add: moves_def)

lemma moves_trans: "moves r s \<Longrightarrow> moves s t \<Longrightarrow> moves r t"
  by (auto simp: moves_def)

lemma advancesI: "(\<And>r. moves r (snd (run_state m r))) \<Longrightarrow> advances m"
  by (simp add: state_io_rel_def)

lemma advancesD: "advances m \<Longrightarrow> moves r (snd (run_state m r))"
  by (simp add: state_io_rel_def)

lemma advances_bind [adv]: "advances m \<Longrightarrow> (\<And>x. advances (f x)) \<Longrightarrow> advances (m \<bind> f)"
  unfolding state_io_rel_def by (auto intro: moves_trans split: prod.splits)

lemma advances_return [adv]: "advances (ret x)"
  by (simp add: state_io_rel_def)

lemma advances_if [adv]: "(b \<Longrightarrow> advances m) \<Longrightarrow> (\<not> b \<Longrightarrow> advances n) \<Longrightarrow> advances (if b then m else n)"
  by simp

lemma advances_when [adv]: "(b \<Longrightarrow> advances m) \<Longrightarrow> advances (when_r b m)"
  by (simp add: when_r_def adv)

lemma advances_prod [adv]: "(\<And>a b. advances (f a b)) \<Longrightarrow> advances (case p of (a, b) \<Rightarrow> f a b)"
  by (cases p) simp

lemma advances_option [adv]:
  "advances m \<Longrightarrow> (\<And>x. advances (f x)) \<Longrightarrow> advances (case v of None \<Rightarrow> m | Some x \<Rightarrow> f x)"
  by (cases v) simp_all

lemma advances_sum [adv]:
  "(\<And>x. advances (f x)) \<Longrightarrow> (\<And>x. advances (g x)) \<Longrightarrow> advances (case v of Inl x \<Rightarrow> f x | Inr x \<Rightarrow> g x)"
  by (cases v) simp_all

lemma advances_repeat [adv]: "advances m \<Longrightarrow> advances (repeat_r n m)"
  by (induction n) (simp_all add: adv)

lemma advances_failed [adv]: "advances failed_r"
  by (simp add: failed_r_def state_io_rel_def)

lemma advances_mark [adv]: "advances (State_Monad.update mark_failed)"
  by (simp add: State_Monad.update_def state_io_rel_def moves_def mark_failed_def nal_ok_def)

lemma moves_skip_prevention: "moves r (skip_prevention r)"
  by (auto simp: moves_def skip_prevention_def nal_ok_def zeros_after_take_Suc)

lemma moves_last_bit: "moves r (snd (last_bit r))"
  by (auto simp: moves_def last_bit_def Let_def nal_ok_def)

lemma advances_bit [adv]: "advances r_bit"
proof (rule advancesI)
  fix r
  show "moves r (snd (run_state r_bit r))"
  proof (cases "nr_left r = 0")
    case False
    then show ?thesis by (simp add: r_bit_def moves_last_bit)
  next
    case True
    define q where "q = skip_prevention r"
    have "moves r q" by (simp add: q_def moves_skip_prevention)
    moreover have "moves q (snd (run_state r_bit r))"
    proof -
      have "\<not> (nr_zeros q \<ge> 2 \<and> nr_pos q < length (nr_data q) \<and> nr_data q ! nr_pos q = 3)" if "nal_ok r"
        using skip_prevention_rest [OF True that] by (simp add: q_def)
      then show ?thesis
        using True calculation
        by (auto simp: r_bit_def Let_def moves_def last_bit_def nal_ok_def zeros_after_take_Suc simp flip: q_def)
    qed
    ultimately show ?thesis by (rule moves_trans)
  qed
qed

lemma advances_u_loop [adv]: "advances (u_loop n v)"
  by (induction n arbitrary: v) (simp_all add: adv)

lemma advances_u [adv]: "advances (r_u n)"
  by (simp add: r_u_def adv)

lemma advances_flag [adv]: "advances r_flag"
  by (simp add: r_flag_def adv)

lemma advances_skip [adv]: "advances (r_skip n)"
  by (induction n) (simp_all add: adv)

lemma moves_ue_from: "moves r (snd (ue_from zeros r))"
proof (induction zeros r rule: ue_from.induct)
  case (1 zeros r)
  obtain b s where s: "run_state r_bit r = (b, s)" by fastforce
  obtain v t where t: "run_state (r_u zeros) s = (v, t)" by fastforce
  have "moves r s" "moves s t"
    using advancesD [OF advances_bit, of r] advancesD [OF advances_u, of s zeros] s t by simp_all
  moreover have "moves s (mark_failed s)" by (simp add: moves_def mark_failed_def nal_ok_def)
  moreover have "b = 0 \<Longrightarrow> \<not> (31 \<le> zeros \<or> nr_err s) \<Longrightarrow> moves s (snd (ue_from (zeros + 1) s))"
    using 1 [OF s [symmetric]] by simp
  ultimately show ?case
    by (subst ue_from.simps) (auto simp: s t Let_def intro: moves_trans)
qed

lemma advances_ue [adv]: "advances r_ue"
  by (simp add: r_ue_def state_io_rel_def moves_ue_from)

lemma advances_ueMax [adv]: "advances (r_ueMax m)"
  by (simp add: r_ueMax_def adv)

lemma advances_se [adv]: "advances r_se"
  by (simp add: r_se_def adv)

lemma headerLen_bound: "moves (newNALReader d) r \<Longrightarrow> headerLen r = Inr n \<Longrightarrow> n \<le> length d"
  by (auto simp: headerLen_def moves_def newNALReader_def nal_ok_def split: if_splits)

lemma run_advances: "advances m \<Longrightarrow> run_state m r = (x, r') \<Longrightarrow> moves r r'"
  using advancesD [of m r] by simp

section \<open>Answers\<close>

text \<open>What an operation answers, whatever state it starts in.\<close>

definition answers :: "('s, 'a) state \<Rightarrow> ('a \<Rightarrow> bool) \<Rightarrow> bool" where
  "answers m P \<longleftrightarrow> (\<forall>r. P (fst (run_state m r)))"

named_theorems ans \<open>what operations answer\<close>

lemma answersD: "answers m P \<Longrightarrow> run_state m r = (x, r') \<Longrightarrow> P x"
  by (metis answers_def fst_conv)

lemma answers_mono: "answers m P \<Longrightarrow> (\<And>x. P x \<Longrightarrow> Q x) \<Longrightarrow> answers m Q"
  by (simp add: answers_def)

lemma answers_True: "answers m (\<lambda>_. True)"
  by (simp add: answers_def)

lemma answers_bind: "answers m P \<Longrightarrow> (\<And>x. P x \<Longrightarrow> answers (f x) Q) \<Longrightarrow> answers (m \<bind> f) Q"
  by (auto simp: answers_def split: prod.splits) (metis fst_conv)

lemma answers_any [ans]: "(\<And>x. answers (f x) Q) \<Longrightarrow> answers (m \<bind> f) Q"
  by (rule answers_bind [OF answers_True])

lemma answers_return [ans]: "P x \<Longrightarrow> answers (ret x) P"
  by (simp add: answers_def)

lemma answers_if [ans]: "(b \<Longrightarrow> answers m P) \<Longrightarrow> (\<not> b \<Longrightarrow> answers n P) \<Longrightarrow> answers (if b then m else n) P"
  by simp

lemma answers_prod [ans]: "(\<And>a b. answers (f a b) P) \<Longrightarrow> answers (case x of (a, b) \<Rightarrow> f a b) P"
  by (cases x) simp

lemma answers_option [ans]:
  "answers m P \<Longrightarrow> (\<And>y. answers (f y) P) \<Longrightarrow> answers (case x of None \<Rightarrow> m | Some y \<Rightarrow> f y) P"
  by (cases x) simp_all

lemma answers_let [ans]: "answers (f x) P \<Longrightarrow> answers (let y = x in f y) P"
  by simp

lemma answers_bit: "answers r_bit (\<lambda>v. take_bit 1 v = v)"
  by (auto simp: answers_def r_bit_def last_bit_def Let_def shifted_bit)

lemma bits_below: "take_bit k v = v \<longleftrightarrow> (\<forall>n. bit v n \<longrightarrow> n < k)" for v :: "'a::len word"
  by (auto simp: bit_eq_iff bit_simps dest: bit_imp_le_length)

lemma answers_u_loop: "take_bit k v = v \<Longrightarrow> answers (u_loop n v) (\<lambda>v. take_bit (k + n) v = v)"
proof (induction n arbitrary: k v)
  case (Suc n)
  have "take_bit (Suc k) (push_bit 1 v OR b) = push_bit 1 v OR b" if "take_bit 1 b = b" for b
    unfolding bits_below
  proof (intro allI impI)
    fix n
    assume "bit (push_bit 1 v OR b) n"
    then have "1 \<le> n \<and> bit v (n - 1) \<or> bit b n" by (auto simp add: bit_or_iff bit_push_bit_iff simp del: One_nat_def)
    moreover have "bit v (n - 1) \<Longrightarrow> n - 1 < k" "bit b n \<Longrightarrow> n < 1"
      using Suc.prems that unfolding bits_below by simp_all
    ultimately show "n < Suc k" by auto
  qed
  then have "answers (u_loop n (push_bit 1 v OR b)) (\<lambda>v. take_bit (k + Suc n) v = v)" if "take_bit 1 b = b" for b
    using Suc.IH [of "Suc k"] that by simp
  then show ?case
    unfolding u_loop.simps by (rule answers_bind [OF answers_bit])
qed (simp add: answers_return)

lemma answers_u: "answers (r_u n) (\<lambda>v. unat v < 2 ^ n)"
  unfolding r_u_def
  by (rule answers_mono [OF answers_u_loop [of 0]]) (simp, metis add_0 take_bit_nat_less_exp unsigned_take_bit_eq)

lemma ueMax_le: "answers (r_ueMax m) (\<lambda>v. v \<le> m)"
  unfolding r_ueMax_def by (intro ans) (simp_all add: not_less)
definition quiet :: "'a result \<Rightarrow> bool" where
  "quiet v \<longleftrightarrow> v \<noteq> Inl Panic"

lemma quiet_simps [simp]: "quiet (Inr x)" "quiet (Inl (Errf m))"
  by (simp_all add: quiet_def)

lemma answers_quiet_bind:
  "answers m quiet \<Longrightarrow> (\<And>x. answers (f x) quiet) \<Longrightarrow>
   answers (m \<bind> (\<lambda>v. case v of Inl e \<Rightarrow> ret (Inl e) | Inr x \<Rightarrow> f x)) quiet"
  by (rule answers_bind [where P = quiet]) (auto simp: quiet_def intro: answers_return split: sum.split)

section \<open>Reading a known header\<close>

text \<open>
  What the operations take off the bits of a payload.  The rules below follow the syntax of an
  operation, so that a header written as a concatenation of codes is read by \<open>intro takes\<close>.
\<close>

abbreviation takes :: "'a nal \<Rightarrow> bool list \<Rightarrow> 'a \<Rightarrow> bool" where
  "takes \<equiv> bit_source.takes nal_rest nr_err nal_ok"

named_theorems takes \<open>bits the operations take\<close>

lemmas takes_then [takes] = nal.takes_bind
lemmas takes_ret [takes] = nal.takes_return

lemma takes_let [takes]: "takes (f x) bs v \<Longrightarrow> takes (let y = x in f y) bs v"
  by simp

lemma takes_u: "take_bit n v = v \<Longrightarrow> takes (r_u n) (bits_of n v) v"
  using u_loop_takes [OF nal.bit_source_axioms, of "bits_of n v" 0] word_of_bits_of [of n v]
  by (simp add: r_u_def word_of_bits_def)

lemma takes_flag [takes]: "takes r_flag [b] b"
proof -
  have "takes (r_bit \<bind> (\<lambda>x. ret (x = 1))) ([b] @ []) (of_bool b = (1 :: u32))"
    by (rule takes_then [OF nal.takes_bit takes_ret])
  then show ?thesis by (simp add: r_flag_def)
qed

lemma takes_failed [takes]: "takes failed_r [] False"
  by (rule nal.takesI) (simp add: failed_r_def)

lemma takes_bind_flag: "takes (f b) bs w \<Longrightarrow> takes (r_flag \<bind> f) (b # bs) w"
  using takes_then [OF takes_flag] by fastforce

lemma takes_ue [takes]: "v \<noteq> - 1 \<Longrightarrow> takes r_ue (ue_bits v) v"
  unfolding r_ue_def by (rule nal.ue_takes)

lemma takes_se [takes]: "\<bar>x\<bar> < 2 ^ 31 \<Longrightarrow> takes r_se (se_bits x) x"
  unfolding r_se_def r_ue_def by (rule nal.se_takes)

lemma takes_ueMax [takes]: "v \<le> mx \<Longrightarrow> v \<noteq> - 1 \<Longrightarrow> takes (r_ueMax mx) (ue_bits v) v"
proof -
  assume v: "v \<le> mx" "v \<noteq> - 1"
  have "takes (r_ueMax mx) (ue_bits v @ []) v"
    unfolding r_ueMax_def by (rule takes_then [OF takes_ue [OF v(2)]]) (subst if_not_P, use v(1) in simp, rule takes_ret)
  then show ?thesis by simp
qed

lemma takes_skip: "takes (r_skip (length bs)) bs ()"
proof (induction bs)
  case Nil
  show ?case by (simp add: takes_ret)
next
  case (Cons b bs)
  have "takes (r_bit \<bind> (\<lambda>_. r_skip (length bs))) ([b] @ bs) ()"
    by (rule takes_then [OF nal.takes_bit Cons])
  then have "takes (failed_r \<bind> (\<lambda>e. if e then ret () else r_bit \<bind> (\<lambda>_. r_skip (length bs)))) ([] @ b # bs) ()"
    by (intro takes_then [OF takes_failed]) simp
  then show ?case by simp
qed

lemma takes_skip_n [takes]: "length bs = n \<Longrightarrow> takes (r_skip n) bs ()"
  using takes_skip [of bs] by simp

lemma takes_when [takes]: "(b \<Longrightarrow> takes m bs v) \<Longrightarrow> takes (when_r b m) (if b then bs else []) ()"
  using nal.takes_bind_return [of m bs v "\<lambda>_. ()"] by (simp add: when_r_def takes_ret)

text \<open>
  The bytes of a payload that hold its first \<open>k\<close> bits: \<open>n\<close> of them do, and the last of these is
  needed.
\<close>

definition holds_bits :: "bytes \<Rightarrow> nat \<Rightarrow> nat \<Rightarrow> bool" where
  "holds_bits d n k \<longleftrightarrow> n \<le> length d \<and> k \<le> 8 * length (unescape 0 (take n d)) \<and> 8 * length (unescape 0 (take n d)) < k + 8"

lemma length_concat_byte_bits [simp]: "length (concat (map byte_bits bs)) = 8 * length bs"
  by (induction bs) simp_all

lemma position_holds_bits:
  assumes "nal_ok r" "nr_data r = d" "8 * length (unescape 0 d) = k + length (nal_rest r)"
  shows "holds_bits d (nr_pos r) k"
proof -
  have "unescape 0 d = unescape 0 (take (nr_pos r) d) @ unescape (nr_zeros r) (drop (nr_pos r) d)"
    using unescape_append [of 0 "take (nr_pos r) d" "drop (nr_pos r) d"] assms(1,2) by (simp add: nal_ok_def)
  then have "length (unescape 0 d) = length (unescape 0 (take (nr_pos r) d)) + length (unescape (nr_zeros r) (drop (nr_pos r) d))"
    by (metis length_append)
  then show ?thesis using assms by (simp add: holds_bits_def nal_rest_def nal_ok_def)
qed

lemma headerLen_takes:
  assumes m: "takes m hb v" and adv: "advances m"
    and d: "concat (map byte_bits (unescape 0 d)) = hb @ rest"
  shows "\<exists>r n. run_state m (newNALReader d) = (v, r) \<and> \<not> nr_err r \<and> headerLen r = Inr n \<and> holds_bits d n (length hb)"
proof -
  obtain r where r: "run_state m (newNALReader d) = (v, r)" "nal_ok r" "nal_rest r = rest" "\<not> nr_err r"
    using nal.takesD [OF m nal_ok_new, of d rest] d by (auto simp: nal_rest_new nr_err_new)
  have "nr_data r = d" using run_advances [OF adv r(1)] by (simp add: moves_def newNALReader_def)
  moreover have "8 * length (unescape 0 d) = length hb + length rest"
    by (metis d length_append length_concat_byte_bits)
  ultimately have "holds_bits d (nr_pos r) (length hb)"
    using position_holds_bits [OF r(2)] r(3) by simp
  then show ?thesis using r by (simp add: headerLen_def)
qed

end
