(* ===== verification/AvcSlice.thy ===== *)
theory AvcSlice
  imports NalReader
begin

text \<open>
  The H.264 headers mp4/cenc_slice.go reads: sequence and picture parameter sets, and the slice header,
  whose escaped length it needs.  Lemmas: what the parsers accept is in range, and every parser stays
  inside the payload.
\<close>

section \<open>Parameter sets\<close>

record avcSPS =
  a_chromaArrayType :: u32
  a_separateColourPlane :: bool
  a_log2MaxFrameNum :: nat
  a_pocType :: u32
  a_log2MaxPocLsb :: nat
  a_deltaPicOrderAlwaysZero :: bool
  a_frameMbsOnly :: bool

record avcPPS =
  a_spsID :: u32
  a_cabac :: bool
  a_bottomFieldPicOrder :: bool
  a_sliceGroups :: bool
  a_numRefIdxL0 :: u32
  a_numRefIdxL1 :: u32
  a_weightedPred :: bool
  a_weightedBipredIdc :: u32
  a_deblockingFilterControl :: bool
  a_redundantPicCntPresent :: bool

fun skipScalingList :: "nat \<Rightarrow> int \<Rightarrow> int \<Rightarrow> unit nal" where
  "skipScalingList 0 lst nxt = ret ()"
| "skipScalingList (Suc n) lst nxt = do {
     e \<leftarrow> failed_r;
     if e then ret () else do {
       nxt \<leftarrow> (if nxt \<noteq> 0 then do { d \<leftarrow> r_se; ret (go_mod (wrap32 (lst + d + 256)) 256) } else ret nxt);
       skipScalingList n (if nxt \<noteq> 0 then nxt else lst) nxt } }"

fun scaling_lists :: "nat \<Rightarrow> nat \<Rightarrow> unit nal" where
  "scaling_lists 0 i = ret ()"
| "scaling_lists (Suc n) i = do {
     present \<leftarrow> r_flag;
     when_r present (skipScalingList (if i \<ge> 6 then 64 else 16) 8 8);
     scaling_lists n (i + 1) }"

definition high_profile :: "u32 \<Rightarrow> bool" where
  "high_profile p = (p \<in> set [100, 110, 122, 244, 44, 83, 86, 118, 128, 138, 139, 134, 135])"

text \<open>The chroma fields of the high profiles: the array type and whether the planes are coded apart.\<close>

definition avc_chroma_fields :: "(u32 \<times> bool) nal" where
  "avc_chroma_fields = do {
     chroma \<leftarrow> r_ue;
     separate \<leftarrow> (if chroma = 3 then r_flag else ret False);
     r_ue;
     r_ue;
     r_skip 1;
     matrix \<leftarrow> r_flag;
     when_r matrix (scaling_lists (if chroma = 3 then 12 else 8) 0);
     ret (if separate then 0 else chroma, separate) }"

text \<open>The picture order fields: the width of the LSB and \<^verbatim>\<open>delta_pic_order_always_zero_flag\<close>.\<close>

definition avc_poc_fields :: "u32 \<Rightarrow> (nat \<times> bool) option nal" where
  "avc_poc_fields poc =
     (if poc = 0 then do { lsb \<leftarrow> r_ueMax 12; ret (Some (unat lsb + 4, False)) }
      else if poc = 1 then do {
        always \<leftarrow> r_flag;
        r_se;
        r_se;
        n \<leftarrow> r_ue;
        if n > 255 then ret None else do { repeat_r (unat n) r_se; ret (Some (0, always)) } }
      else ret (Some (0, False)))"

definition parseAVCSPS :: "(u32 \<times> avcSPS) option nal" where
  "parseAVCSPS = do {
     profile \<leftarrow> r_u 8;
     r_skip 16;
     sid \<leftarrow> r_ue;
     (chromaArray, separate) \<leftarrow> (if high_profile profile then avc_chroma_fields else ret (1, False));
     frameNum \<leftarrow> r_ueMax 12;
     poc \<leftarrow> r_ue;
     fields \<leftarrow> avc_poc_fields poc;
     case fields of
       None \<Rightarrow> ret None
     | Some (lsb, always) \<Rightarrow> do {
         r_ue;
         r_skip 1;
         r_ue;
         r_ue;
         mbsOnly \<leftarrow> r_flag;
         e \<leftarrow> failed_r;
         if e \<or> sid > 31 \<or> unat frameNum + 4 > 16 \<or> poc > 2 \<or> lsb > 16 \<or> chromaArray > 3 then ret None
         else ret (Some (sid, \<lparr>a_chromaArrayType = chromaArray, a_separateColourPlane = separate,
                               a_log2MaxFrameNum = unat frameNum + 4, a_pocType = poc, a_log2MaxPocLsb = lsb,
                               a_deltaPicOrderAlwaysZero = always, a_frameMbsOnly = mbsOnly\<rparr>)) } }"

definition parseAVCPPS :: "(u32 \<times> avcPPS) option nal" where
  "parseAVCPPS = do {
     pid \<leftarrow> r_ue;
     sid \<leftarrow> r_ue;
     cabac \<leftarrow> r_flag;
     bottom \<leftarrow> r_flag;
     groups \<leftarrow> r_ue;
     if groups > 0 then do {
       e \<leftarrow> failed_r;
       if \<not> e \<and> pid \<le> 255
       then ret (Some (pid, \<lparr>a_spsID = sid, a_cabac = cabac, a_bottomFieldPicOrder = bottom, a_sliceGroups = True,
                             a_numRefIdxL0 = 0, a_numRefIdxL1 = 0, a_weightedPred = False, a_weightedBipredIdc = 0,
                             a_deblockingFilterControl = False, a_redundantPicCntPresent = False\<rparr>))
       else ret None }
     else do {
       l0 \<leftarrow> r_ue;
       l1 \<leftarrow> r_ue;
       wp \<leftarrow> r_flag;
       wb \<leftarrow> r_u 2;
       r_se;
       r_se;
       r_se;
       deblocking \<leftarrow> r_flag;
       r_skip 1;
       redundant \<leftarrow> r_flag;
       e \<leftarrow> failed_r;
       if e \<or> pid > 255 \<or> sid > 31 \<or> l0 > 31 \<or> l1 > 31 then ret None
       else ret (Some (pid, \<lparr>a_spsID = sid, a_cabac = cabac, a_bottomFieldPicOrder = bottom, a_sliceGroups = False,
                             a_numRefIdxL0 = l0, a_numRefIdxL1 = l1, a_weightedPred = wp, a_weightedBipredIdc = wb,
                             a_deblockingFilterControl = deblocking, a_redundantPicCntPresent = redundant\<rparr>)) } }"

section \<open>The slice header\<close>

type_synonym avc_sets = "(u32 \<rightharpoonup> avcSPS) \<times> (u32 \<rightharpoonup> avcPPS)"

text \<open>The slice types, after \<^verbatim>\<open>% 5\<close>.\<close>

definition sliceP :: u32 where "sliceP = 0"
definition sliceB :: u32 where "sliceB = 1"
definition sliceI :: u32 where "sliceI = 2"
definition sliceSP :: u32 where "sliceSP = 3"
definition sliceSI :: u32 where "sliceSI = 4"

lemmas slice_types = sliceP_def sliceB_def sliceI_def sliceSP_def sliceSI_def

text \<open>From the frame number to the direct prediction flag.\<close>

definition avc_picture_fields :: "avcSPS \<Rightarrow> avcPPS \<Rightarrow> byte \<Rightarrow> u32 \<Rightarrow> unit nal" where
  "avc_picture_fields sps pps nalType sliceType = do {
     when_r (a_separateColourPlane sps) (r_skip 2);
     r_skip (a_log2MaxFrameNum sps);
     field \<leftarrow> (if a_frameMbsOnly sps then ret False else r_flag);
     when_r field (r_skip 1);
     when_r (nalType = 5) r_ue;
     (if a_pocType sps = 0 then do {
        r_skip (a_log2MaxPocLsb sps);
        when_r (a_bottomFieldPicOrder pps \<and> \<not> field) r_se }
      else if a_pocType sps = 1 \<and> \<not> a_deltaPicOrderAlwaysZero sps then do {
        r_se;
        when_r (a_bottomFieldPicOrder pps \<and> \<not> field) r_se }
      else ret ());
     when_r (a_redundantPicCntPresent pps) r_ue;
     when_r (sliceType = sliceB) (r_skip 1) }"

text \<open>The reference counts: those of the picture parameter set, or the slice's own.\<close>

definition avc_ref_counts :: "avcPPS \<Rightarrow> u32 \<Rightarrow> (u32 \<times> u32) nal" where
  "avc_ref_counts pps sliceType =
     (if sliceType = sliceP \<or> sliceType = sliceSP \<or> sliceType = sliceB then do {
        override \<leftarrow> r_flag;
        if override then do {
          l0 \<leftarrow> r_ue;
          l1 \<leftarrow> (if sliceType = sliceB then r_ue else ret (a_numRefIdxL1 pps));
          ret (l0, l1) }
        else ret (a_numRefIdxL0 pps, a_numRefIdxL1 pps) }
      else ret (a_numRefIdxL0 pps, a_numRefIdxL1 pps))"

text \<open>One list's modifications: at most \<open>k\<close> more of them.\<close>

primrec avc_list_mods :: "nat \<Rightarrow> unit result nal" where
  "avc_list_mods 0 = do {
     idc \<leftarrow> r_ue;
     e \<leftarrow> failed_r;
     if idc = 3 \<or> e then ret (Inr ()) else ret (Inl (Errf ''a reference list modification it cannot read'')) }"
| "avc_list_mods (Suc k) = do {
     idc \<leftarrow> r_ue;
     e \<leftarrow> failed_r;
     if idc = 3 \<or> e then ret (Inr ())
     else if idc > 2 then ret (Inl (Errf ''a reference list modification it cannot read''))
     else do { r_ue; avc_list_mods k } }"

fun avc_ref_lists :: "nat \<Rightarrow> unit result nal" where
  "avc_ref_lists 0 = ret (Inr ())"
| "avc_ref_lists (Suc n) = do {
     present \<leftarrow> r_flag;
     if \<not> present then avc_ref_lists n
     else do {
       r \<leftarrow> avc_list_mods 65;
       case r of Inl e \<Rightarrow> ret (Inl e) | Inr _ \<Rightarrow> avc_ref_lists n } }"

text \<open>The prediction weights of a list's \<open>k\<close> references left.\<close>

fun avc_weights :: "bool \<Rightarrow> nat \<Rightarrow> unit nal" where
  "avc_weights chroma 0 = ret ()"
| "avc_weights chroma (Suc k) = do {
     e \<leftarrow> failed_r;
     if e then ret () else do {
       luma \<leftarrow> r_flag;
       when_r luma (do { r_se; r_se });
       chromaW \<leftarrow> (if chroma then r_flag else ret False);
       when_r chromaW (do { r_se; r_se; r_se; r_se });
       avc_weights chroma k } }"

definition avc_pred_weights :: "avcSPS \<Rightarrow> avcPPS \<Rightarrow> u32 \<Rightarrow> u32 \<Rightarrow> u32 \<Rightarrow> unit nal" where
  "avc_pred_weights sps pps sliceType l0 l1 =
     when_r (a_weightedPred pps \<and> (sliceType = sliceP \<or> sliceType = sliceSP) \<or>
             a_weightedBipredIdc pps = 1 \<and> sliceType = sliceB) (do {
       r_ue;
       when_r (a_chromaArrayType sps \<noteq> 0) r_ue;
       avc_weights (a_chromaArrayType sps \<noteq> 0) (unat l0 + 1);
       when_r (sliceType = sliceB) (avc_weights (a_chromaArrayType sps \<noteq> 0) (unat l1 + 1)) })"

text \<open>The memory management operations: at most \<open>k\<close> more of them.\<close>

definition mmco_operands :: "u32 \<Rightarrow> unit nal" where
  "mmco_operands op = do {
     when_r (op = 1 \<or> op = 3) r_ue;
     when_r (op = 2) r_ue;
     when_r (op = 3 \<or> op = 6) r_ue;
     when_r (op = 4) r_ue }"

primrec avc_markings :: "nat \<Rightarrow> unit result nal" where
  "avc_markings 0 = do {
     op \<leftarrow> r_ue;
     e \<leftarrow> failed_r;
     if op = 0 \<or> e then ret (Inr ()) else ret (Inl (Errf ''a reference picture marking it cannot read'')) }"
| "avc_markings (Suc k) = do {
     op \<leftarrow> r_ue;
     e \<leftarrow> failed_r;
     if op = 0 \<or> e then ret (Inr ())
     else if op > 6 then ret (Inl (Errf ''a reference picture marking it cannot read''))
     else do { mmco_operands op; avc_markings k } }"

definition avc_ref_marking :: "byte \<Rightarrow> byte \<Rightarrow> unit result nal" where
  "avc_ref_marking nalType refIdc =
     (if refIdc = 0 then ret (Inr ())
      else if nalType = 5 then do { r_skip 2; ret (Inr ()) }
      else do { adaptive \<leftarrow> r_flag; if adaptive then avc_markings 65 else ret (Inr ()) })"

text \<open>The tail of the header, from the CABAC table on.\<close>

definition avc_slice_tail :: "avcPPS \<Rightarrow> u32 \<Rightarrow> unit nal" where
  "avc_slice_tail pps sliceType = do {
     when_r (a_cabac pps \<and> sliceType \<noteq> sliceI \<and> sliceType \<noteq> sliceSI) r_ue;
     r_se;
     when_r (sliceType = sliceSP \<or> sliceType = sliceSI) (do {
       when_r (sliceType = sliceSP) (r_skip 1);
       r_se });
     when_r (a_deblockingFilterControl pps) (do {
       idc \<leftarrow> r_ue;
       when_r (idc \<noteq> 1) (do { r_se; r_se }) }) }"

text \<open>The header behind the parameter set's number.\<close>

definition avc_slice_body :: "avcSPS \<Rightarrow> avcPPS \<Rightarrow> byte \<Rightarrow> byte \<Rightarrow> u32 \<Rightarrow> unit result nal" where
  "avc_slice_body sps pps nalType refIdc sliceType = do {
     avc_picture_fields sps pps nalType sliceType;
     (l0, l1) \<leftarrow> avc_ref_counts pps sliceType;
     if l0 > 31 \<or> l1 > 31 then ret (Inl (Errf ''a slice with too many reference indexes''))
     else do {
       lists \<leftarrow> (if sliceType \<noteq> sliceI \<and> sliceType \<noteq> sliceSI
                 then avc_ref_lists (if sliceType = sliceB then 2 else 1) else ret (Inr ()));
       case lists of Inl e \<Rightarrow> ret (Inl e) | Inr _ \<Rightarrow> do {
         avc_pred_weights sps pps sliceType l0 l1;
         marking \<leftarrow> avc_ref_marking nalType refIdc;
         case marking of Inl e \<Rightarrow> ret (Inl e) | Inr _ \<Rightarrow> do {
           avc_slice_tail pps sliceType;
           ret (Inr ()) } } } }"

definition avcSliceHeaderLen :: "avc_sets \<Rightarrow> bytes \<Rightarrow> byte \<Rightarrow> byte \<Rightarrow> nat result" where
  "avcSliceHeaderLen sets payload nalType refIdc =
     (let ((sliceType, ppsID), r) = run_state (do {
            r_ue;
            t \<leftarrow> r_ue;
            p \<leftarrow> r_ue;
            ret (t mod 5, p) }) (newNALReader payload)
      in if nr_err r then headerLen r
         else case snd sets ppsID of
           None \<Rightarrow> Inl (Errf ''a slice refers to a picture parameter set the stream does not carry'')
         | Some pps \<Rightarrow>
             if a_sliceGroups pps then Inl (Errf ''slice groups (FMO) are not supported'')
             else case fst sets (a_spsID pps) of
               None \<Rightarrow> Inl (Errf ''a slice refers to a sequence parameter set the stream does not carry'')
             | Some sps \<Rightarrow>
                 (case run_state (avc_slice_body sps pps nalType refIdc sliceType) r of
                    (Inl e, _) \<Rightarrow> Inl e
                  | (Inr _, r) \<Rightarrow> headerLen r))"
section \<open>Ranges\<close>

definition avcSPS_ok :: "avcSPS \<Rightarrow> bool" where
  "avcSPS_ok s \<longleftrightarrow> 4 \<le> a_log2MaxFrameNum s \<and> a_log2MaxFrameNum s \<le> 16 \<and> a_log2MaxPocLsb s \<le> 16 \<and> a_pocType s \<le> 2 \<and>
     a_chromaArrayType s \<le> 3"

definition avcPPS_ok :: "avcPPS \<Rightarrow> bool" where
  "avcPPS_ok p \<longleftrightarrow> a_numRefIdxL0 p \<le> 31 \<and> a_numRefIdxL1 p \<le> 31 \<and> (a_sliceGroups p \<or> a_spsID p \<le> 31)"

definition avc_sets_ok :: "avc_sets \<Rightarrow> bool" where
  "avc_sets_ok sets \<longleftrightarrow>
     (\<forall>i s. fst sets i = Some s \<longrightarrow> i \<le> 31 \<and> avcSPS_ok s) \<and> (\<forall>i p. snd sets i = Some p \<longrightarrow> i \<le> 255 \<and> avcPPS_ok p)"

lemma parseAVCSPS_ok: "run_state parseAVCSPS r = (Some (i, s), r') \<Longrightarrow> i \<le> 31 \<and> avcSPS_ok s"
  by (auto simp: parseAVCSPS_def avcSPS_ok_def not_less split: prod.splits if_splits option.splits)

lemma parseAVCPPS_ok: "run_state parseAVCPPS r = (Some (i, p), r') \<Longrightarrow> i \<le> 255 \<and> avcPPS_ok p"
  by (auto simp: parseAVCPPS_def avcPPS_ok_def not_less split: prod.splits if_splits)

section \<open>Bounds\<close>

lemma advances_skipScalingList [adv]: "advances (skipScalingList n l x)"
  by (induction n arbitrary: l x) (auto intro!: adv)

lemma advances_scaling_lists [adv]: "advances (scaling_lists n i)"
  by (induction n arbitrary: i) (auto intro!: adv)

lemma advances_avc_list_mods [adv]: "advances (avc_list_mods k)"
  by (induction k) (auto intro!: adv)

lemma advances_avc_ref_lists [adv]: "advances (avc_ref_lists k)"
  by (induction k) (auto intro!: adv)

lemma advances_avc_weights [adv]: "advances (avc_weights c k)"
  by (induction k) (auto intro!: adv)

lemma advances_avc_markings [adv]: "advances (avc_markings k)"
  by (induction k) (auto simp: mmco_operands_def intro!: adv)

lemma advances_avc_slice_body [adv]: "advances (avc_slice_body sps pps t i s)"
  unfolding avc_slice_body_def avc_picture_fields_def avc_ref_counts_def avc_pred_weights_def avc_ref_marking_def
    avc_slice_tail_def
  by (intro adv)

lemma avcSliceHeaderLen_bound:
  assumes "avcSliceHeaderLen sets payload t i = Inr n"
  shows "n \<le> length payload"
proof -
  let ?start = "do { r_ue; t \<leftarrow> r_ue; p \<leftarrow> r_ue; ret (t mod 5, p) }"
  obtain st p r where r: "run_state ?start (newNALReader payload) = ((st, p), r)"
    by (metis surj_pair)
  have "advances ?start" by (intro adv)
  then have start: "moves (newNALReader payload) r" using r by (rule run_advances)
  show ?thesis
  proof (cases "nr_err r")
    case True
    then show ?thesis using assms r by (simp add: avcSliceHeaderLen_def headerLen_def Let_def)
  next
    case False
    then obtain sps pps s' x where "run_state (avc_slice_body sps pps t i st) r = (x, s')" "headerLen s' = Inr n"
      using assms r by (auto simp: avcSliceHeaderLen_def split: option.splits if_splits prod.splits sum.splits)
    then show ?thesis
      using headerLen_bound [OF moves_trans [OF start]] run_advances [OF advances_avc_slice_body] by blast
  qed
qed

lemma avc_list_mods_quiet: "answers (avc_list_mods k) quiet"
  by (induction k) (auto intro!: answers_any answers_if answers_return)

lemma avc_ref_lists_quiet: "answers (avc_ref_lists k) quiet"
proof (induction k)
  case (Suc k)
  then show ?case
    unfolding avc_ref_lists.simps
    by (intro answers_any answers_if answers_quiet_bind avc_list_mods_quiet)
qed (simp add: answers_return)

lemma avc_markings_quiet: "answers (avc_markings k) quiet"
  by (induction k) (auto intro!: answers_any answers_if answers_return)

lemma avc_slice_body_quiet: "answers (avc_slice_body sps pps t i s) quiet"
  unfolding avc_slice_body_def
proof (rule answers_any, rule answers_any, rule answers_prod, rule answers_if, simp add: answers_return,
    rule answers_quiet_bind)
  show "answers (if s \<noteq> sliceI \<and> s \<noteq> sliceSI then avc_ref_lists (if s = sliceB then 2 else 1) else ret (Inr ())) quiet"
    by (simp add: avc_ref_lists_quiet answers_return)
next
  fix l0 l1 x
  show "answers (do {
         avc_pred_weights sps pps s l0 l1;
         marking \<leftarrow> avc_ref_marking t i;
         case marking of Inl e \<Rightarrow> ret (Inl e) | Inr _ \<Rightarrow> do { avc_slice_tail pps s; ret (Inr ()) } }) quiet"
  proof (rule answers_any, rule answers_quiet_bind)
    show "answers (avc_ref_marking t i) quiet"
      by (auto simp: avc_ref_marking_def intro!: answers_any answers_return avc_markings_quiet)
  qed (intro answers_any answers_return, simp)
qed

lemma avcSliceHeaderLen_no_panic: "avcSliceHeaderLen sets payload t i \<noteq> Inl Panic"
proof -
  have "fst (run_state (avc_slice_body sps pps t i s) r) \<noteq> Inl Panic" for sps pps s r
    using avc_slice_body_quiet by (simp add: answers_def quiet_def)
  then show ?thesis
    by (auto simp: avcSliceHeaderLen_def headerLen_def split: prod.splits option.splits sum.splits) (metis fst_conv)+
qed

end
