(* ===== verification/AvcHeader.thy ===== *)
theory AvcHeader
  imports AvcSlice
begin

text \<open>
  The H.264 slice header as its syntax writes it (ITU-T H.264 7.3.3): its values as a record, the bits
  they are coded in.  The parser of AvcSlice reads exactly these bits, so that the length it answers is
  the number of bytes of the escaped payload that hold the header.
\<close>

section \<open>The values\<close>

type_synonym avc_weight = "(int \<times> int) option \<times> (int \<times> int \<times> int \<times> int) option"

record avc_header =
  ah_first_mb :: u32
  ah_slice_type :: u32
  ah_pps :: u32
  ah_colour_plane :: "bool list"
  ah_frame_num :: "bool list"
  ah_field :: bool
  ah_bottom :: bool
  ah_idr_id :: u32
  ah_poc_lsb :: "bool list"
  ah_delta_bottom :: int
  ah_delta0 :: int
  ah_delta1 :: int
  ah_redundant :: u32
  ah_direct :: bool
  ah_override :: "(u32 \<times> u32) option"
  ah_mods0 :: "(u32 \<times> u32) list option"
  ah_mods1 :: "(u32 \<times> u32) list option"
  ah_luma_denom :: u32
  ah_chroma_denom :: u32
  ah_weights0 :: "avc_weight list"
  ah_weights1 :: "avc_weight list"
  ah_idr_marking :: "bool list"
  ah_marking :: "(u32 \<times> u32 list) list option"
  ah_cabac_init :: u32
  ah_qp_delta :: int
  ah_sp_switch :: bool
  ah_qs_delta :: int
  ah_deblocking :: u32
  ah_alpha :: int
  ah_beta :: int

definition ue_ok :: "u32 \<Rightarrow> bool" where "ue_ok v \<longleftrightarrow> v \<noteq> - 1"
definition se_ok :: "int \<Rightarrow> bool" where "se_ok x \<longleftrightarrow> \<bar>x\<bar> < 2 ^ 31"

lemmas code_ok = ue_ok_def se_ok_def

section \<open>The bits\<close>

text \<open>\<open>bottom_delta\<close> says whether a picture order difference of the bottom field is coded.\<close>

definition is_field :: "avcSPS \<Rightarrow> avc_header \<Rightarrow> bool" where
  "is_field sps h \<longleftrightarrow> \<not> a_frameMbsOnly sps \<and> ah_field h"

definition bottom_delta :: "avcSPS \<Rightarrow> avcPPS \<Rightarrow> avc_header \<Rightarrow> bool" where
  "bottom_delta sps pps h \<longleftrightarrow> a_bottomFieldPicOrder pps \<and> \<not> is_field sps h"

definition poc_bits :: "avcSPS \<Rightarrow> avcPPS \<Rightarrow> avc_header \<Rightarrow> bool list" where
  "poc_bits sps pps h =
     (if a_pocType sps = 0 then ah_poc_lsb h @ (if bottom_delta sps pps h then se_bits (ah_delta_bottom h) else [])
      else if a_pocType sps = 1 \<and> \<not> a_deltaPicOrderAlwaysZero sps
      then se_bits (ah_delta0 h) @ (if bottom_delta sps pps h then se_bits (ah_delta1 h) else [])
      else [])"

definition picture_bits :: "avcSPS \<Rightarrow> avcPPS \<Rightarrow> byte \<Rightarrow> u32 \<Rightarrow> avc_header \<Rightarrow> bool list" where
  "picture_bits sps pps nalType t h = concat [
     if a_separateColourPlane sps then ah_colour_plane h else [],
     ah_frame_num h,
     if a_frameMbsOnly sps then [] else [ah_field h],
     if is_field sps h then [ah_bottom h] else [],
     if nalType = 5 then ue_bits (ah_idr_id h) else [],
     poc_bits sps pps h,
     if a_redundantPicCntPresent pps then ue_bits (ah_redundant h) else [],
     if t = sliceB then [ah_direct h] else []]"

definition counts_bits :: "u32 \<Rightarrow> avc_header \<Rightarrow> bool list" where
  "counts_bits t h =
     (if t = sliceP \<or> t = sliceSP \<or> t = sliceB then
        (case ah_override h of
           None \<Rightarrow> [False]
         | Some (l0, l1) \<Rightarrow> True # ue_bits l0 @ (if t = sliceB then ue_bits l1 else []))
      else [])"

definition counts_of :: "avcPPS \<Rightarrow> u32 \<Rightarrow> avc_header \<Rightarrow> u32 \<times> u32" where
  "counts_of pps t h =
     (if t = sliceP \<or> t = sliceSP \<or> t = sliceB then
        (case ah_override h of
           None \<Rightarrow> (a_numRefIdxL0 pps, a_numRefIdxL1 pps)
         | Some (l0, l1) \<Rightarrow> (l0, if t = sliceB then l1 else a_numRefIdxL1 pps))
      else (a_numRefIdxL0 pps, a_numRefIdxL1 pps))"

fun mods_list_bits :: "(u32 \<times> u32) list \<Rightarrow> bool list" where
  "mods_list_bits [] = ue_bits 3"
| "mods_list_bits ((idc, v) # ms) = ue_bits idc @ ue_bits v @ mods_list_bits ms"

definition mods_bits :: "(u32 \<times> u32) list option \<Rightarrow> bool list" where
  "mods_bits m = (case m of None \<Rightarrow> [False] | Some ms \<Rightarrow> True # mods_list_bits ms)"

definition lists_bits :: "u32 \<Rightarrow> avc_header \<Rightarrow> bool list" where
  "lists_bits t h =
     (if t \<noteq> sliceI \<and> t \<noteq> sliceSI then mods_bits (ah_mods0 h) @ (if t = sliceB then mods_bits (ah_mods1 h) else []) else [])"

fun weight_bits :: "bool \<Rightarrow> avc_weight list \<Rightarrow> bool list" where
  "weight_bits chroma [] = []"
| "weight_bits chroma ((l, c) # ws) =
     (case l of None \<Rightarrow> [False] | Some (w, off) \<Rightarrow> True # se_bits w @ se_bits off) @
     (if chroma then (case c of None \<Rightarrow> [False]
        | Some (w0, o0, w1, o1) \<Rightarrow> True # se_bits w0 @ se_bits o0 @ se_bits w1 @ se_bits o1) else []) @
     weight_bits chroma ws"

definition weighted :: "avcPPS \<Rightarrow> u32 \<Rightarrow> bool" where
  "weighted pps t \<longleftrightarrow> a_weightedPred pps \<and> (t = sliceP \<or> t = sliceSP) \<or> a_weightedBipredIdc pps = 1 \<and> t = sliceB"

definition weights_bits :: "avcSPS \<Rightarrow> avcPPS \<Rightarrow> u32 \<Rightarrow> avc_header \<Rightarrow> bool list" where
  "weights_bits sps pps t h =
     (if weighted pps t then concat [
        ue_bits (ah_luma_denom h),
        if a_chromaArrayType sps \<noteq> 0 then ue_bits (ah_chroma_denom h) else [],
        weight_bits (a_chromaArrayType sps \<noteq> 0) (ah_weights0 h),
        if t = sliceB then weight_bits (a_chromaArrayType sps \<noteq> 0) (ah_weights1 h) else []]
      else [])"

fun marking_ops_bits :: "(u32 \<times> u32 list) list \<Rightarrow> bool list" where
  "marking_ops_bits [] = ue_bits 0"
| "marking_ops_bits ((op, xs) # ops) = ue_bits op @ concat (map ue_bits xs) @ marking_ops_bits ops"

text \<open>The operands of a memory management operation.\<close>

definition arity :: "u32 \<Rightarrow> nat" where
  "arity op = (if op = 3 then 2 else if op = 5 then 0 else 1)"

definition marking_bits :: "byte \<Rightarrow> byte \<Rightarrow> avc_header \<Rightarrow> bool list" where
  "marking_bits nalType refIdc h =
     (if refIdc = 0 then []
      else if nalType = 5 then ah_idr_marking h
      else case ah_marking h of None \<Rightarrow> [False] | Some ops \<Rightarrow> True # marking_ops_bits ops)"

definition tail_bits :: "avcPPS \<Rightarrow> u32 \<Rightarrow> avc_header \<Rightarrow> bool list" where
  "tail_bits pps t h = concat [
     if a_cabac pps \<and> t \<noteq> sliceI \<and> t \<noteq> sliceSI then ue_bits (ah_cabac_init h) else [],
     se_bits (ah_qp_delta h),
     if t = sliceSP then [ah_sp_switch h] else [],
     if t = sliceSP \<or> t = sliceSI then se_bits (ah_qs_delta h) else [],
     if a_deblockingFilterControl pps then ue_bits (ah_deblocking h) else [],
     if a_deblockingFilterControl pps \<and> ah_deblocking h \<noteq> 1 then se_bits (ah_alpha h) @ se_bits (ah_beta h) else []]"

definition avc_header_bits :: "avcSPS \<Rightarrow> avcPPS \<Rightarrow> byte \<Rightarrow> byte \<Rightarrow> avc_header \<Rightarrow> bool list" where
  "avc_header_bits sps pps nalType refIdc h = (let t = ah_slice_type h mod 5 in concat [
     ue_bits (ah_first_mb h), ue_bits (ah_slice_type h), ue_bits (ah_pps h),
     picture_bits sps pps nalType t h, counts_bits t h, lists_bits t h, weights_bits sps pps t h,
     marking_bits nalType refIdc h, tail_bits pps t h])"

section \<open>Values in range\<close>

definition mods_ok :: "(u32 \<times> u32) list option \<Rightarrow> bool" where
  "mods_ok m = (case m of None \<Rightarrow> True | Some ms \<Rightarrow> length ms \<le> 65 \<and> list_all (\<lambda>(idc, v). idc \<le> 2 \<and> ue_ok v) ms)"

fun weight_ok :: "avc_weight \<Rightarrow> bool" where
  "weight_ok (l, c) \<longleftrightarrow>
     (case l of None \<Rightarrow> True | Some (w, off) \<Rightarrow> se_ok w \<and> se_ok off) \<and>
     (case c of None \<Rightarrow> True | Some (w0, o0, w1, o1) \<Rightarrow> se_ok w0 \<and> se_ok o0 \<and> se_ok w1 \<and> se_ok o1)"

definition marking_ok :: "(u32 \<times> u32 list) list option \<Rightarrow> bool" where
  "marking_ok m = (case m of None \<Rightarrow> True
     | Some ops \<Rightarrow> length ops \<le> 65 \<and> list_all (\<lambda>(op, xs). 1 \<le> op \<and> op \<le> 6 \<and> length xs = arity op \<and> list_all ue_ok xs) ops)"

definition avc_header_ok :: "avcSPS \<Rightarrow> avcPPS \<Rightarrow> avc_header \<Rightarrow> bool" where
  "avc_header_ok sps pps h \<longleftrightarrow>
     list_all ue_ok [ah_first_mb h, ah_slice_type h, ah_pps h, ah_idr_id h, ah_redundant h, ah_luma_denom h,
       ah_chroma_denom h, ah_cabac_init h, ah_deblocking h] \<and>
     list_all se_ok [ah_delta_bottom h, ah_delta0 h, ah_delta1 h, ah_qp_delta h, ah_qs_delta h, ah_alpha h, ah_beta h] \<and>
     length (ah_colour_plane h) = 2 \<and> length (ah_frame_num h) = a_log2MaxFrameNum sps \<and>
     length (ah_poc_lsb h) = a_log2MaxPocLsb sps \<and> length (ah_idr_marking h) = 2 \<and>
     (let (l0, l1) = counts_of pps (ah_slice_type h mod 5) h in
        l0 \<le> 31 \<and> l1 \<le> 31 \<and> length (ah_weights0 h) = unat l0 + 1 \<and> length (ah_weights1 h) = unat l1 + 1) \<and>
     (case ah_override h of None \<Rightarrow> True | Some (l0, l1) \<Rightarrow> ue_ok l0 \<and> ue_ok l1) \<and>
     mods_ok (ah_mods0 h) \<and> mods_ok (ah_mods1 h) \<and> list_all weight_ok (ah_weights0 h) \<and> list_all weight_ok (ah_weights1 h) \<and>
     marking_ok (ah_marking h)"
lemma avc_header_okD:
  assumes "avc_header_ok sps pps h"
  shows "ah_first_mb h \<noteq> - 1" "ah_slice_type h \<noteq> - 1" "ah_pps h \<noteq> - 1" "ah_idr_id h \<noteq> - 1" "ah_redundant h \<noteq> - 1"
    "ah_luma_denom h \<noteq> - 1" "ah_chroma_denom h \<noteq> - 1" "ah_cabac_init h \<noteq> - 1" "ah_deblocking h \<noteq> - 1"
    "\<bar>ah_delta_bottom h\<bar> < 2 ^ 31" "\<bar>ah_delta0 h\<bar> < 2 ^ 31" "\<bar>ah_delta1 h\<bar> < 2 ^ 31" "\<bar>ah_qp_delta h\<bar> < 2 ^ 31"
    "\<bar>ah_qs_delta h\<bar> < 2 ^ 31" "\<bar>ah_alpha h\<bar> < 2 ^ 31" "\<bar>ah_beta h\<bar> < 2 ^ 31"
    "length (ah_colour_plane h) = 2" "length (ah_frame_num h) = a_log2MaxFrameNum sps"
    "length (ah_poc_lsb h) = a_log2MaxPocLsb sps" "length (ah_idr_marking h) = 2"
    "ah_override h = Some (l0, l1) \<Longrightarrow> l0 \<noteq> - 1 \<and> l1 \<noteq> - 1"
    "mods_ok (ah_mods0 h)" "mods_ok (ah_mods1 h)" "list_all weight_ok (ah_weights0 h)" "list_all weight_ok (ah_weights1 h)"
    "marking_ok (ah_marking h)"
    "counts_of pps (ah_slice_type h mod 5) h = (l0, l1) \<Longrightarrow>
       l0 \<le> 31 \<and> l1 \<le> 31 \<and> length (ah_weights0 h) = unat l0 + 1 \<and> length (ah_weights1 h) = unat l1 + 1"
  using assms by (simp_all add: avc_header_ok_def code_ok)

section \<open>The parser reads the bits\<close>

lemma takes_if: "(b \<Longrightarrow> takes m xs v) \<Longrightarrow> (\<not> b \<Longrightarrow> takes n ys v) \<Longrightarrow> takes (if b then m else n) (if b then xs else ys) v"
  by simp

lemma takes_unless_flag: "takes (if b then ret False else r_flag) (if b then [] else [f]) (\<not> b \<and> f)"
  by (simp add: takes_ret takes_flag)

lemma takes_skip_flag: "takes (r_skip 1) [b] ()"
  by (rule takes_skip_n) simp

lemma takes_poc:
  assumes h: "avc_header_ok sps pps h"
  shows "takes (if a_pocType sps = 0 then do {
        r_skip (a_log2MaxPocLsb sps);
        when_r (a_bottomFieldPicOrder pps \<and> \<not> is_field sps h) r_se }
      else if a_pocType sps = 1 \<and> \<not> a_deltaPicOrderAlwaysZero sps then do {
        r_se;
        when_r (a_bottomFieldPicOrder pps \<and> \<not> is_field sps h) r_se }
      else ret ()) (poc_bits sps pps h) ()"
proof -
  define b where "b \<longleftrightarrow> a_bottomFieldPicOrder pps \<and> \<not> is_field sps h"
  have lsb: "takes (r_skip (a_log2MaxPocLsb sps) \<bind> (\<lambda>_. when_r b r_se))
      (ah_poc_lsb h @ (if b then se_bits (ah_delta_bottom h) else [])) ()"
    by (rule takes_then [OF takes_skip_n takes_when [OF takes_se], OF avc_header_okD(19,10) [OF h]])
  have deltas: "takes (r_se \<bind> (\<lambda>_. when_r b r_se)) (se_bits (ah_delta0 h) @ (if b then se_bits (ah_delta1 h) else [])) ()"
    by (rule takes_then [OF takes_se takes_when [OF takes_se], OF avc_header_okD(11,12) [OF h]])
  show ?thesis
    unfolding poc_bits_def bottom_delta_def b_def [symmetric]
    by (rule takes_if, rule lsb, rule takes_if, rule deltas, rule takes_ret)
qed

lemma takes_picture:
  assumes h: "avc_header_ok sps pps h"
  shows "takes (avc_picture_fields sps pps nalType t) (picture_bits sps pps nalType t h) ()"
  unfolding avc_picture_fields_def picture_bits_def concat.simps append_Nil2 is_field_def [symmetric]
  by (rule takes_then [OF takes_when [OF takes_skip_n [OF avc_header_okD(17) [OF h]]]],
      rule takes_then [OF takes_skip_n [OF avc_header_okD(18) [OF h]]],
      rule takes_then [OF takes_unless_flag [of _ "ah_field h"]], unfold is_field_def [symmetric],
      rule takes_then [OF takes_when [OF takes_skip_flag]],
      rule takes_then [OF takes_when [OF takes_ue [OF avc_header_okD(4) [OF h]]]],
      rule takes_then [OF takes_poc [OF h]],
      rule takes_then [OF takes_when [OF takes_ue [OF avc_header_okD(5) [OF h]]]],
      rule takes_when [OF takes_skip_flag])

lemma takes_ref_counts:
  assumes h: "avc_header_ok sps pps h"
  shows "takes (avc_ref_counts pps t) (counts_bits t h) (counts_of pps t h)"
proof (cases "t = sliceP \<or> t = sliceSP \<or> t = sliceB")
  case False
  then show ?thesis by (simp add: avc_ref_counts_def counts_bits_def counts_of_def takes_ret)
next
  case True
  show ?thesis
  proof (cases "ah_override h")
    case None
    with True have "takes (avc_ref_counts pps t) [False] (a_numRefIdxL0 pps, a_numRefIdxL1 pps)"
      unfolding avc_ref_counts_def if_P [OF True] by (intro takes_bind_flag) (simp add: takes_ret)
    then show ?thesis using True None by (simp add: counts_bits_def counts_of_def)
  next
    case (Some p)
    obtain l0 l1 where p: "p = (l0, l1)" by fastforce
    have ok: "l0 \<noteq> - 1" "l1 \<noteq> - 1" using avc_header_okD(21) [OF h] Some p by auto
    have "takes (if t = sliceB then r_ue else ret (a_numRefIdxL1 pps)) (if t = sliceB then ue_bits l1 else [])
        (if t = sliceB then l1 else a_numRefIdxL1 pps)"
      using ok by (simp add: takes_ue takes_ret)
    then have "takes (do { x \<leftarrow> r_ue; y \<leftarrow> (if t = sliceB then r_ue else ret (a_numRefIdxL1 pps)); ret (x, y) })
        (ue_bits l0 @ (if t = sliceB then ue_bits l1 else []) @ [])
        (l0, if t = sliceB then l1 else a_numRefIdxL1 pps)"
      by (intro takes_then [OF takes_ue [OF ok(1)]]) (rule takes_then, assumption, rule takes_ret)
    then have "takes (avc_ref_counts pps t) (True # ue_bits l0 @ (if t = sliceB then ue_bits l1 else []))
        (l0, if t = sliceB then l1 else a_numRefIdxL1 pps)"
      unfolding avc_ref_counts_def if_P [OF True] by (intro takes_bind_flag) simp
    then show ?thesis using True Some p by (simp add: counts_bits_def counts_of_def)
  qed
qed
lemma takes_bind_failed: "takes (f False) bs w \<Longrightarrow> takes (failed_r \<bind> f) bs w"
  using takes_then [OF takes_failed] by fastforce

lemma takes_bind_last: "takes m bs v \<Longrightarrow> takes (f v) [] w \<Longrightarrow> takes (m \<bind> f) bs w"
  using takes_then [of m bs v f "[]" w] by simp

lemma small_ue: "v \<le> 31 \<Longrightarrow> v \<noteq> (- 1 :: u32)"
  by (auto simp: word_le_def unsigned_minus_1_eq_mask mask_eq_exp_minus_1)

lemma takes_list_mods:
  "length ms \<le> k \<Longrightarrow> list_all (\<lambda>(idc, v). idc \<le> 2 \<and> ue_ok v) ms \<Longrightarrow> takes (avc_list_mods k) (mods_list_bits ms) (Inr ())"
proof (induction ms arbitrary: k)
  case Nil
  have "takes (r_ue \<bind> (\<lambda>idc. failed_r \<bind> (\<lambda>e. if idc = 3 \<or> e then ret (Inr ()) else m idc))) (ue_bits 3) (Inr ())" for m
    by (rule takes_bind_last [OF takes_ue], simp, rule takes_bind_failed) (simp add: takes_ret)
  then show ?case by (cases k) simp_all
next
  case (Cons x ms)
  obtain idc v where x: "x = (idc, v)" by fastforce
  obtain k' where k: "k = Suc k'" using Cons.prems by (cases k) auto
  have le: "idc \<le> 2" and v: "v \<noteq> - 1" using Cons.prems x by (simp_all add: ue_ok_def)
  have "idc \<le> 31" using le by (rule order.trans) simp
  then have idc: "idc \<noteq> - 1" "idc \<noteq> 3" "\<not> idc > 2" using le small_ue by (auto simp: not_less)
  have "takes (r_ue \<bind> (\<lambda>_. avc_list_mods k')) (ue_bits v @ mods_list_bits ms) (Inr ())"
    by (rule takes_then [OF takes_ue [OF v]], rule Cons.IH) (use Cons.prems x k in simp_all)
  then show ?case
    unfolding x k mods_list_bits.simps avc_list_mods.simps
    by (intro takes_then [OF takes_ue [OF idc(1)]] takes_bind_failed) (simp add: idc)
qed

lemma takes_ref_lists_one:
  assumes "mods_ok m" "takes (avc_ref_lists n) bs (Inr ())"
  shows "takes (avc_ref_lists (Suc n)) (mods_bits m @ bs) (Inr ())"
proof (cases m)
  case None
  then show ?thesis using assms(2) by (simp add: mods_bits_def) (intro takes_bind_flag, simp)
next
  case (Some ms)
  then have ms: "length ms \<le> 65" "list_all (\<lambda>(idc, v). idc \<le> 2 \<and> ue_ok v) ms"
    using assms(1) by (simp_all add: mods_ok_def)
  show ?thesis
    unfolding Some mods_bits_def option.case append_Cons avc_ref_lists.simps
    by (rule takes_bind_flag, simp only: if_False not_True_eq_False, rule takes_then [OF takes_list_mods [OF ms]])
      (simp add: assms(2))
qed

lemma takes_ref_lists:
  assumes h: "avc_header_ok sps pps h"
  shows "takes (if t \<noteq> sliceI \<and> t \<noteq> sliceSI then avc_ref_lists (if t = sliceB then 2 else 1) else ret (Inr ()))
     (lists_bits t h) (Inr ())"
proof -
  have "takes (avc_ref_lists 0) [] (Inr ())" by (simp add: takes_ret)
  then have one: "takes (avc_ref_lists 1) (mods_bits m) (Inr ())" if "mods_ok m" for m
    using takes_ref_lists_one [OF that, of 0 "[]"] by simp
  have "takes (avc_ref_lists 2) (mods_bits (ah_mods0 h) @ mods_bits (ah_mods1 h)) (Inr ())"
    using takes_ref_lists_one [OF _ one, of "ah_mods0 h" "ah_mods1 h"] avc_header_okD(22,23) [OF h]
    by (simp add: numeral_2_eq_2)
  then show ?thesis
    using one avc_header_okD(22) [OF h] by (simp add: lists_bits_def takes_ret)
qed

lemma takes_weights: "list_all weight_ok ws \<Longrightarrow> takes (avc_weights chroma (length ws)) (weight_bits chroma ws) ()"
proof (induction ws)
  case (Cons x ws)
  obtain l c where x: "x = (l, c)" by fastforce
  have rest: "takes (avc_weights chroma (length ws)) (weight_bits chroma ws) ()" using Cons by simp
  have c: "takes ((if chroma then r_flag else ret False) \<bind>
        (\<lambda>cw. when_r cw (do { r_se; r_se; r_se; r_se }) \<bind> (\<lambda>_. avc_weights chroma (length ws))))
      ((if chroma then (case c of None \<Rightarrow> [False]
        | Some (w0, o0, w1, o1) \<Rightarrow> True # se_bits w0 @ se_bits o0 @ se_bits w1 @ se_bits o1) else []) @ weight_bits chroma ws) ()"
  proof (cases chroma)
    case False
    then show ?thesis using rest by (simp add: when_r_def)
  next
    case True
    show ?thesis
    proof (cases c)
      case None
      then show ?thesis using True rest by (simp add: when_r_def) (intro takes_bind_flag, simp)
    next
      case (Some q)
      obtain w0 o0 w1 o1 where q: "q = (w0, o0, w1, o1)" by (metis prod_cases4)
      have ok: "\<bar>w0\<bar> < 2 ^ 31" "\<bar>o0\<bar> < 2 ^ 31" "\<bar>w1\<bar> < 2 ^ 31" "\<bar>o1\<bar> < 2 ^ 31"
        using Cons.prems x Some q by (simp_all add: se_ok_def)
      have "takes (do { r_se; r_se; r_se; r_se }) (se_bits w0 @ se_bits o0 @ se_bits w1 @ se_bits o1) o1"
        by (intro takes_then [OF takes_se] takes_se ok)
      then have "takes (when_r True (do { r_se; r_se; r_se; r_se })) (se_bits w0 @ se_bits o0 @ se_bits w1 @ se_bits o1) ()"
        using takes_when [of True] by simp
      from takes_then [OF this rest] True Some q show ?thesis
        by (simp, intro takes_bind_flag, simp)
    qed
  qed
  have "takes (r_flag \<bind> (\<lambda>luma. when_r luma (do { r_se; r_se }) \<bind> (\<lambda>_.
        (if chroma then r_flag else ret False) \<bind>
        (\<lambda>cw. when_r cw (do { r_se; r_se; r_se; r_se }) \<bind> (\<lambda>_. avc_weights chroma (length ws))))))
      ((case l of None \<Rightarrow> [False] | Some (w, off) \<Rightarrow> True # se_bits w @ se_bits off) @
       (if chroma then (case c of None \<Rightarrow> [False]
        | Some (w0, o0, w1, o1) \<Rightarrow> True # se_bits w0 @ se_bits o0 @ se_bits w1 @ se_bits o1) else []) @ weight_bits chroma ws) ()"
  proof (cases l)
    case None
    then show ?thesis using c by (simp only: option.case append_Cons append_Nil) (rule takes_bind_flag, simp add: when_r_def)
  next
    case (Some q)
    obtain w off where q: "q = (w, off)" by fastforce
    have ok: "\<bar>w\<bar> < 2 ^ 31" "\<bar>off\<bar> < 2 ^ 31" using Cons.prems x Some q by (simp_all add: se_ok_def)
    have "takes (when_r True (do { r_se; r_se })) (se_bits w @ se_bits off) ()"
      using takes_when [of True, OF takes_then [OF takes_se [OF ok(1)] takes_se [OF ok(2)]]] by simp
    from takes_then [OF this c] Some q show ?thesis
      by (simp only: option.case prod.case append_Cons append_assoc) (rule takes_bind_flag)
  qed
  then show ?case
    by (simp only: x list.size weight_bits.simps avc_weights.simps add_0_right add_Suc_right) (rule takes_bind_failed, simp)
qed (simp add: takes_ret)
lemma takes_weights_n: "length ws = n \<Longrightarrow> list_all weight_ok ws \<Longrightarrow> takes (avc_weights chroma n) (weight_bits chroma ws) ()"
  using takes_weights by blast

lemma takes_pred_weights:
  assumes h: "avc_header_ok sps pps h" and t: "t = ah_slice_type h mod 5" and c: "counts_of pps t h = (l0, l1)"
  shows "takes (avc_pred_weights sps pps t l0 l1) (weights_bits sps pps t h) ()"
proof -
  have n: "length (ah_weights0 h) = unat l0 + 1" "length (ah_weights1 h) = unat l1 + 1"
    using avc_header_okD(27) [OF h] c t by simp_all
  show ?thesis
    unfolding avc_pred_weights_def weights_bits_def weighted_def concat.simps append_Nil2
    by (rule takes_when, rule takes_then [OF takes_ue [OF avc_header_okD(6) [OF h]]],
        rule takes_then [OF takes_when [OF takes_ue [OF avc_header_okD(7) [OF h]]]],
        rule takes_then [OF takes_weights_n [OF n(1) avc_header_okD(24) [OF h]]],
        rule takes_when [OF takes_weights_n [OF n(2) avc_header_okD(25) [OF h]]])
qed

lemma takes_operands:
  assumes "1 \<le> op" "op \<le> 6" "length xs = arity op" "list_all ue_ok xs"
  shows "takes (mmco_operands op) (concat (map ue_bits xs)) ()"
proof -
  have "op = 1 \<or> op = 2 \<or> op = 3 \<or> op = 4 \<or> op = 5 \<or> op = 6"
  proof -
    have "unat op \<in> {1..6}" using assms(1,2) by (simp add: word_le_nat_alt)
    then have "unat op = 1 \<or> unat op = 2 \<or> unat op = 3 \<or> unat op = 4 \<or> unat op = 5 \<or> unat op = 6" by auto
    then show ?thesis by (simp add: word_unat_eq_iff)
  qed
  moreover have "takes (when_r True r_ue) (ue_bits v) ()" if "ue_ok v" for v
    using takes_when [of True, OF takes_ue, of v] that by (simp add: ue_ok_def)
  note one = this
  have two: "takes (when_r True r_ue \<bind> (\<lambda>_. when_r True r_ue)) (ue_bits v @ ue_bits w) ()" if "ue_ok v" "ue_ok w" for v w
    by (rule takes_then [OF one [OF that(1)] one [OF that(2)]])
  obtain x y zs where "xs = [] \<or> xs = [x] \<or> xs = [x, y] \<or> length xs > 2"
    by (cases xs; cases "tl xs"; cases "tl (tl xs)") auto
  moreover have "when_r False m = ret ()" for m :: "u32 nal" by (simp add: when_r_def)
  ultimately show ?thesis
    using assms(3,4) one two by (auto simp: mmco_operands_def arity_def takes_ret split: if_splits)
qed

lemma takes_marking_ops:
  "length ops \<le> k \<Longrightarrow>
   list_all (\<lambda>(op, xs). 1 \<le> op \<and> op \<le> 6 \<and> length xs = arity op \<and> list_all ue_ok xs) ops \<Longrightarrow>
   takes (avc_markings k) (marking_ops_bits ops) (Inr ())"
proof (induction ops arbitrary: k)
  case Nil
  have "takes (r_ue \<bind> (\<lambda>op. failed_r \<bind> (\<lambda>e. if op = 0 \<or> e then ret (Inr ()) else m op))) (ue_bits 0) (Inr ())" for m
    by (rule takes_bind_last [OF takes_ue], simp, rule takes_bind_failed) (simp add: takes_ret)
  then show ?case by (cases k) simp_all
next
  case (Cons x ops)
  obtain op xs where x: "x = (op, xs)" by fastforce
  obtain k' where k: "k = Suc k'" using Cons.prems by (cases k) auto
  have op: "1 \<le> op" "op \<le> 6" and xs: "length xs = arity op" "list_all ue_ok xs" using Cons.prems x by simp_all
  have "op \<le> 31" using op(2) by (rule order.trans) simp
  then have ops: "op \<noteq> - 1" "op \<noteq> 0" "\<not> op > 6" using op small_ue by (auto simp: not_less)
  have "takes (mmco_operands op \<bind> (\<lambda>_. avc_markings k')) (concat (map ue_bits xs) @ marking_ops_bits ops) (Inr ())"
    by (rule takes_then [OF takes_operands [OF op xs]], rule Cons.IH) (use Cons.prems x k in simp_all)
  then show ?case
    unfolding x k marking_ops_bits.simps avc_markings.simps
    by (intro takes_then [OF takes_ue [OF ops(1)]] takes_bind_failed) (simp add: ops)
qed

lemma takes_marking:
  assumes h: "avc_header_ok sps pps h"
  shows "takes (avc_ref_marking nalType refIdc) (marking_bits nalType refIdc h) (Inr ())"
proof -
  have idr: "takes (r_skip 2 \<bind> (\<lambda>_. ret (Inr ()))) (ah_idr_marking h) (Inr ())"
    by (rule takes_bind_last [OF takes_skip_n [OF avc_header_okD(20) [OF h]] takes_ret])
  have "takes (r_flag \<bind> (\<lambda>a. if a then avc_markings 65 else ret (Inr ())))
      (case ah_marking h of None \<Rightarrow> [False] | Some ops \<Rightarrow> True # marking_ops_bits ops) (Inr ())"
  proof (cases "ah_marking h")
    case None
    then show ?thesis by (simp only: option.case) (rule takes_bind_flag, simp add: takes_ret)
  next
    case (Some ops)
    then have "takes (avc_markings 65) (marking_ops_bits ops) (Inr ())"
      using avc_header_okD(26) [OF h] by (intro takes_marking_ops) (simp_all add: marking_ok_def)
    then show ?thesis using Some by (simp only: option.case) (rule takes_bind_flag, simp)
  qed
  then show ?thesis
    unfolding avc_ref_marking_def marking_bits_def
    by (intro takes_if) (simp_all add: takes_ret idr)
qed

lemma takes_tail:
  assumes h: "avc_header_ok sps pps h"
  shows "takes (avc_slice_tail pps t) (tail_bits pps t h) ()"
proof -
  have sp: "takes (when_r (t = sliceSP \<or> t = sliceSI) (when_r (t = sliceSP) (r_skip 1) \<bind> (\<lambda>_. r_se)))
      ((if t = sliceSP then [ah_sp_switch h] else []) @ (if t = sliceSP \<or> t = sliceSI then se_bits (ah_qs_delta h) else [])) ()"
    using takes_when [of "t = sliceSP \<or> t = sliceSI",
        OF takes_then [OF takes_when [of "t = sliceSP", OF takes_skip_flag [of "ah_sp_switch h"]] takes_se [OF avc_header_okD(14) [OF h]]]]
    by (auto simp: slice_types split: if_splits)
  have filter: "takes (when_r (a_deblockingFilterControl pps) (r_ue \<bind> (\<lambda>idc. when_r (idc \<noteq> 1) (r_se \<bind> (\<lambda>_. r_se)))))
      ((if a_deblockingFilterControl pps then ue_bits (ah_deblocking h) else []) @
       (if a_deblockingFilterControl pps \<and> ah_deblocking h \<noteq> 1 then se_bits (ah_alpha h) @ se_bits (ah_beta h) else [])) ()"
  proof -
    have "takes (r_ue \<bind> (\<lambda>idc. when_r (idc \<noteq> 1) (r_se \<bind> (\<lambda>_. r_se))))
        (ue_bits (ah_deblocking h) @ (if ah_deblocking h \<noteq> 1 then se_bits (ah_alpha h) @ se_bits (ah_beta h) else [])) ()"
      by (rule takes_then [OF takes_ue [OF avc_header_okD(9) [OF h]]], rule takes_when,
          rule takes_then [OF takes_se [OF avc_header_okD(15) [OF h]] takes_se [OF avc_header_okD(16) [OF h]]])
    from takes_when [of "a_deblockingFilterControl pps", OF this] show ?thesis by (auto split: if_splits)
  qed
  show ?thesis
    using takes_then [OF takes_when [OF takes_ue [OF avc_header_okD(8) [OF h]]]
        takes_then [OF takes_se [OF avc_header_okD(13) [OF h]] takes_then [OF sp filter]]]
    unfolding avc_slice_tail_def tail_bits_def concat.simps append_Nil2 append.assoc .
qed
lemma takes_slice_body:
  assumes h: "avc_header_ok sps pps h" and t: "t = ah_slice_type h mod 5"
  shows "takes (avc_slice_body sps pps nalType refIdc t)
     (picture_bits sps pps nalType t h @ counts_bits t h @ lists_bits t h @ weights_bits sps pps t h @
      marking_bits nalType refIdc h @ tail_bits pps t h) (Inr ())"
proof -
  obtain l0 l1 where c: "counts_of pps t h = (l0, l1)" by fastforce
  have l: "\<not> (l0 > 31 \<or> l1 > 31)" using avc_header_okD(27) [OF h] c t by (auto simp: not_less)
  note counts = takes_ref_counts [OF h, of t, unfolded c]
  have tail: "takes (avc_slice_tail pps t \<bind> (\<lambda>_. ret (Inr ()))) (tail_bits pps t h) (Inr () :: error + unit)"
    by (rule takes_bind_last [OF takes_tail [OF h] takes_ret])
  show ?thesis
    unfolding avc_slice_body_def
    by (rule takes_then [OF takes_picture [OF h]], rule takes_then [OF counts], simp only: prod.case if_not_P [OF l],
        rule takes_then [OF takes_ref_lists [OF h]], simp only: sum.case,
        rule takes_then [OF takes_pred_weights [OF h t c]],
        rule takes_then [OF takes_marking [OF h]], simp only: sum.case, rule tail)
qed

lemma avc_header_length:
  assumes sets: "snd sets (ah_pps h) = Some pps" "\<not> a_sliceGroups pps" "fst sets (a_spsID pps) = Some sps"
    and h: "avc_header_ok sps pps h"
    and d: "concat (map byte_bits (unescape 0 d)) = avc_header_bits sps pps nalType refIdc h @ rest"
  shows "\<exists>n. avcSliceHeaderLen sets d nalType refIdc = Inr n \<and>
             holds_bits d n (length (avc_header_bits sps pps nalType refIdc h))"
proof -
  define t where "t = ah_slice_type h mod 5"
  define body where "body = picture_bits sps pps nalType t h @ counts_bits t h @ lists_bits t h @
      weights_bits sps pps t h @ marking_bits nalType refIdc h @ tail_bits pps t h"
  define start where "start = ue_bits (ah_first_mb h) @ ue_bits (ah_slice_type h) @ ue_bits (ah_pps h)"
  let ?start = "do { r_ue; t \<leftarrow> r_ue; p \<leftarrow> r_ue; ret (t mod 5, p) }"
  have bits: "avc_header_bits sps pps nalType refIdc h = start @ body"
    by (simp add: avc_header_bits_def Let_def start_def body_def t_def)
  have "takes ?start (ue_bits (ah_first_mb h) @ ue_bits (ah_slice_type h) @ ue_bits (ah_pps h) @ []) (t, ah_pps h)"
    unfolding t_def by (intro takes_then [OF takes_ue] takes_ret avc_header_okD(1-3) [OF h])
  then have s: "takes ?start start (t, ah_pps h)" by (simp add: start_def)
  obtain r1 where r1: "run_state ?start (newNALReader d) = ((t, ah_pps h), r1)" "nal_ok r1" "\<not> nr_err r1"
      "nal_rest r1 = body @ rest"
    using nal.takesD [OF s nal_ok_new, of d "body @ rest"] d by (auto simp: nal_rest_new nr_err_new bits)
  have b: "takes (avc_slice_body sps pps nalType refIdc t) body (Inr ())"
    unfolding body_def by (rule takes_slice_body [OF h t_def])
  obtain r2 where r2: "run_state (avc_slice_body sps pps nalType refIdc t) r1 = (Inr (), r2)" "nal_ok r2" "\<not> nr_err r2"
      "nal_rest r2 = rest"
    using nal.takesD [OF b r1(2-4)] by auto
  have "advances ?start" by (intro adv)
  from run_advances [OF this r1(1)] run_advances [OF advances_avc_slice_body r2(1)]
  have "nr_data r2 = d" by (simp add: moves_def newNALReader_def)
  moreover have "8 * length (unescape 0 d) = length (avc_header_bits sps pps nalType refIdc h) + length rest"
    by (metis d length_append length_concat_byte_bits)
  ultimately have "holds_bits d (nr_pos r2) (length (avc_header_bits sps pps nalType refIdc h))"
    using position_holds_bits [OF r2(2)] r2(4) by simp
  moreover have "avcSliceHeaderLen sets d nalType refIdc = Inr (nr_pos r2)"
    using r1(1,3) r2(1,3) sets by (simp add: avcSliceHeaderLen_def Let_def headerLen_def)
  ultimately show ?thesis by simp
qed
section \<open>The length of a header\<close>

text \<open>C9.
  The slice header parser finds where a H.264 slice header ends: on a payload whose bits, without the
  emulation prevention bytes, start with a header of the slice's parameter sets (any slice type, with
  its picture order, reference list, weight, marking and filter fields in range), it answers the number
  of bytes of the escaped payload that hold the header's bits, the last of them needed.
\<close>

theorem avc_header_exact:
  assumes "snd sets (ah_pps h) = Some pps" "\<not> a_sliceGroups pps" "fst sets (a_spsID pps) = Some sps"
    and "avc_header_ok sps pps h"
    and "concat (map byte_bits (unescape 0 d)) = avc_header_bits sps pps nalType refIdc h @ rest"
  shows "\<exists>n. avcSliceHeaderLen sets d nalType refIdc = Inr n \<and>
             holds_bits d n (length (avc_header_bits sps pps nalType refIdc h))"
  using assms by (rule avc_header_length)

definition ex_sps :: avcSPS where
  "ex_sps = \<lparr>a_chromaArrayType = 1, a_separateColourPlane = False, a_log2MaxFrameNum = 4, a_pocType = 2,
     a_log2MaxPocLsb = 0, a_deltaPicOrderAlwaysZero = False, a_frameMbsOnly = True\<rparr>"

definition ex_pps :: avcPPS where
  "ex_pps = \<lparr>a_spsID = 0, a_cabac = False, a_bottomFieldPicOrder = False, a_sliceGroups = False, a_numRefIdxL0 = 0,
     a_numRefIdxL1 = 0, a_weightedPred = False, a_weightedBipredIdc = 0, a_deblockingFilterControl = False,
     a_redundantPicCntPresent = False\<rparr>"

definition ex_header :: avc_header where
  "ex_header = \<lparr>ah_first_mb = 0, ah_slice_type = 7, ah_pps = 0, ah_colour_plane = [False, False],
     ah_frame_num = [False, False, False, False], ah_field = False, ah_bottom = False, ah_idr_id = 0, ah_poc_lsb = [],
     ah_delta_bottom = 0, ah_delta0 = 0, ah_delta1 = 0, ah_redundant = 0, ah_direct = False, ah_override = None,
     ah_mods0 = None, ah_mods1 = None, ah_luma_denom = 0, ah_chroma_denom = 0, ah_weights0 = [(None, None)],
     ah_weights1 = [(None, None)], ah_idr_marking = [False, False], ah_marking = None, ah_cabac_init = 0,
     ah_qp_delta = - 3, ah_sp_switch = False, ah_qs_delta = 0, ah_deblocking = 0, ah_alpha = 0, ah_beta = 0\<rparr>"

lemmas ex_defs = ex_sps_def ex_pps_def ex_header_def

lemmas bits_eval = bits_of_def byte_bits_def ue_bits_def se_bits_def se_code_def bit_len.simps upt_rec Let_def

lemmas header_eval = avc_header_bits_def picture_bits_def counts_bits_def lists_bits_def weights_bits_def weighted_def
  marking_bits_def tail_bits_def slice_types poc_bits_def is_field_def bits_eval

text \<open>A payload of an intra slice, with a prevention byte behind its header.\<close>

definition ex_payload :: bytes where
  "ex_payload = [136, 132, 56, 0, 0, 3, 1]"

definition ex_rest :: "bool list" where
  "ex_rest = [False, False, False,
     False, False, False, False, False, False, False, False, False, False, False, False, False, False, False, False,
     False, False, False, False, False, False, False, True]"

lemma ex_header_bits: "avc_header_bits ex_sps ex_pps 5 3 ex_header =
   [True, False, False, False, True, False, False, False, True, False, False, False, False, True, False, False,
    False, False, True, True, True]"
  by (simp add: ex_defs header_eval)

lemma ex_payload_bits:
  "concat (map byte_bits (unescape 0 ex_payload)) = avc_header_bits ex_sps ex_pps 5 3 ex_header @ ex_rest"
  unfolding ex_header_bits by (simp add: ex_payload_def ex_rest_def bits_eval)

lemma ex_header_ok: "avc_header_ok ex_sps ex_pps ex_header"
  by (simp add: avc_header_ok_def ex_defs code_ok counts_of_def slice_types mods_ok_def marking_ok_def)

theorem avc_header_exact_witness:
  "\<exists>n. avcSliceHeaderLen ([0 \<mapsto> ex_sps], [0 \<mapsto> ex_pps]) ex_payload 5 3 = Inr n \<and>
       holds_bits ex_payload n (length (avc_header_bits ex_sps ex_pps 5 3 ex_header))"
  by (rule avc_header_exact [OF _ _ _ ex_header_ok ex_payload_bits]) (simp_all add: ex_defs)

lemma ex_payload_len: "avcSliceHeaderLen ([0 \<mapsto> ex_sps], [0 \<mapsto> ex_pps]) ex_payload 5 3 = Inr 3"
proof -
  have "\<exists>n. avcSliceHeaderLen ([0 \<mapsto> ex_sps], [0 \<mapsto> ex_pps]) ex_payload 5 3 = Inr n \<and>
      holds_bits ex_payload n (length (avc_header_bits ex_sps ex_pps 5 3 ex_header))"
    by (rule avc_header_length [OF _ _ _ ex_header_ok ex_payload_bits]) (simp_all add: ex_defs)
  moreover have "length (avc_header_bits ex_sps ex_pps 5 3 ex_header) = 21" by (simp add: ex_header_bits)
  ultimately obtain n where n: "avcSliceHeaderLen ([0 \<mapsto> ex_sps], [0 \<mapsto> ex_pps]) ex_payload 5 3 = Inr n"
      "holds_bits ex_payload n 21" by auto
  have "n = 0 \<or> n = 1 \<or> n = 2 \<or> n = 3 \<or> n = 4 \<or> n = 5 \<or> n = 6 \<or> n = 7"
    using n(2) by (auto simp: holds_bits_def ex_payload_def)
  then have "n = 3" using n(2) by (elim disjE) (simp_all add: holds_bits_def ex_payload_def)
  then show ?thesis using n(1) by simp
qed

end
