(* ===== verification/HevcSlice.thy ===== *)
theory HevcSlice
  imports NalReader
begin

text \<open>
  The HEVC headers mp4/cenc_slice.go reads: sequence and picture parameter sets with their short-term
  reference picture sets, and the slice segment header.  Lemmas: what the parsers accept is in range,
  no index leaves its slice, and every parser stays inside the payload.
\<close>

section \<open>Parameter sets\<close>

record stRPS =
  rs_s0 :: "int list"
  rs_s1 :: "int list"
  rs_used0 :: "bool list"
  rs_used1 :: "bool list"

definition empty_rps :: stRPS where
  "empty_rps = \<lparr>rs_s0 = [], rs_s1 = [], rs_used0 = [], rs_used1 = []\<rparr>"

definition numDeltaPocs :: "stRPS \<Rightarrow> nat" where
  "numDeltaPocs r = length (rs_s0 r) + length (rs_s1 r)"

definition countTrue :: "bool list \<Rightarrow> nat" where
  "countTrue v = length (filter (\<lambda>b. b) v)"

record hevcSPS =
  h_chromaArrayType :: u32
  h_separateColourPlane :: bool
  h_log2MaxPocLsb :: nat
  h_picSizeInCtbs :: u32
  h_rps :: "stRPS list"
  h_longTermRefs :: bool
  h_ltUsed :: "bool list"
  h_temporalMVP :: bool
  h_sao :: bool

record hevcPPS =
  h_spsID :: u32
  h_dependentSliceSegments :: bool
  h_outputFlagPresent :: bool
  h_extraSliceHeaderBits :: nat
  h_cabacInitPresent :: bool
  h_numRefIdxL0 :: u32
  h_numRefIdxL1 :: u32
  h_sliceChromaQPOffsets :: bool
  h_weightedPred :: bool
  h_weightedBipred :: bool
  h_tilesOrEntropySync :: bool
  h_loopFilterAcrossSlices :: bool
  h_deblockingOverride :: bool
  h_deblockingDisabled :: bool
  h_listsModification :: bool
  h_headerExtension :: bool
  h_chromaQPOffsetList :: bool

fun read_list :: "nat \<Rightarrow> 'a nal \<Rightarrow> 'a list nal" where
  "read_list 0 m = ret []"
| "read_list (Suc n) m = do { x \<leftarrow> m; xs \<leftarrow> read_list n m; ret (x # xs) }"

text \<open>\<^verbatim>\<open>profile_tier_level\<close>: the flags of the sub-layers, then what they announce.\<close>

fun skip_sub_layers :: "(bool \<times> bool) list \<Rightarrow> unit nal" where
  "skip_sub_layers [] = ret ()"
| "skip_sub_layers ((profile, level) # ps) = do {
     when_r profile (r_skip 88);
     when_r level (r_skip 8);
     skip_sub_layers ps }"

definition skipProfileTierLevel :: "nat \<Rightarrow> bool nal" where
  "skipProfileTierLevel n = do {
     r_skip 3;
     profile \<leftarrow> r_u 5;
     compat \<leftarrow> r_u 32;
     r_skip (4 + 43 + 1 + 8);
     if profile = 9 \<or> compat AND push_bit (31 - 9) 1 \<noteq> 0 then ret False
     else do {
       present \<leftarrow> read_list n (do { p \<leftarrow> r_flag; l \<leftarrow> r_flag; ret (p, l) });
       when_r (n > 0) (r_skip (2 * (8 - n)));
       skip_sub_layers present;
       e \<leftarrow> failed_r;
       ret (\<not> e) } }"

text \<open>A list of at most \<open>n\<close> codes that stops at a failure.\<close>

fun skip_codes :: "nat \<Rightarrow> unit nal" where
  "skip_codes 0 = ret ()"
| "skip_codes (Suc n) = do { e \<leftarrow> failed_r; if e then ret () else do { r_se; skip_codes n } }"

definition scaling_matrix :: "nat \<Rightarrow> unit nal" where
  "scaling_matrix sz = do {
     coded \<leftarrow> r_flag;
     if \<not> coded then do { r_ue; ret () }
     else do {
       when_r (sz > 1) r_se;
       skip_codes (min 64 (2 ^ (4 + 2 * sz))) } }"

definition skipScalingListData :: "unit nal" where
  "skipScalingListData = do {
     repeat_r 6 (scaling_matrix 0);
     repeat_r 6 (scaling_matrix 1);
     repeat_r 6 (scaling_matrix 2);
     repeat_r 2 (scaling_matrix 3) }"

text \<open>
  The deltas of a set coded against the set \<open>ref\<close>: \<open>d1\<close> and \<open>d0\<close> walk \<open>ref\<close>'s two lists moved by
  \<open>deltaRps\<close>, keeping those on the wanted side that are in use.
\<close>

definition moved :: "(int \<Rightarrow> bool) \<Rightarrow> int \<Rightarrow> (bool \<times> bool) list \<Rightarrow> nat \<Rightarrow> int list \<Rightarrow> nat list \<Rightarrow> (int \<times> bool) list" where
  "moved side deltaRps flags base ds js =
     List.map_filter (\<lambda>j. let d = wrap32 (ds ! j + deltaRps); (used, use) = flags ! (base + j) in
                          if side d \<and> use then Some (d, used) else None) js"

definition inter_rps :: "stRPS \<Rightarrow> int \<Rightarrow> (bool \<times> bool) list \<Rightarrow> stRPS" where
  "inter_rps ref deltaRps flags =
     (let n0 = length (rs_s0 ref); n1 = length (rs_s1 ref); n = n0 + n1;
          own = (\<lambda>side. if side deltaRps \<and> snd (flags ! n) then [(deltaRps, fst (flags ! n))] else []);
          neg = (\<lambda>d. d < 0); pos = (\<lambda>d. d > 0);
          s0 = moved neg deltaRps flags n0 (rs_s1 ref) (rev [0..<n1]) @ own neg
               @ moved neg deltaRps flags 0 (rs_s0 ref) [0..<n0];
          s1 = moved pos deltaRps flags 0 (rs_s0 ref) (rev [0..<n0]) @ own pos
               @ moved pos deltaRps flags n0 (rs_s1 ref) [0..<n1]
      in \<lparr>rs_s0 = map fst s0, rs_s1 = map fst s1, rs_used0 = map snd s0, rs_used1 = map snd s1\<rparr>)"

definition use_flags :: "(bool \<times> bool) nal" where
  "use_flags = do { used \<leftarrow> r_flag; use \<leftarrow> (if used then ret True else r_flag); ret (used, use) }"

text \<open>The deltas of a set coded on its own, going by \<open>dir\<close> from \<open>poc\<close>.\<close>

fun explicit_deltas :: "int \<Rightarrow> nat \<Rightarrow> int \<Rightarrow> (int \<times> bool) list nal" where
  "explicit_deltas dir 0 poc = ret []"
| "explicit_deltas dir (Suc n) poc = do {
     d \<leftarrow> r_ueMax (2 ^ 15 - 1);
     (let poc = wrap32 (poc + dir * (sint d + 1)) in do {
        used \<leftarrow> r_flag;
        rest \<leftarrow> explicit_deltas dir n poc;
        ret ((poc, used) # rest) }) }"

definition parseSTRPS_inter :: "stRPS list \<Rightarrow> nat \<Rightarrow> nat \<Rightarrow> stRPS option result nal" where
  "parseSTRPS_inter sets idx num = do {
     d \<leftarrow> (if idx = num then r_ue else ret 0);
     if idx = num \<and> unat d \<ge> idx then ret (Inr None)
     else let delta = unat d + 1 in
       if idx - delta \<ge> length sets then ret (Inl Panic)
       else let ref = sets ! (idx - delta) in do {
         sgn \<leftarrow> r_bit;
         a \<leftarrow> r_ueMax (2 ^ 15 - 1);
         e \<leftarrow> failed_r;
         let abs = sint a + 1 in
         if e \<or> abs > 2 ^ 15 then ret (Inr None)
         else do {
           flags \<leftarrow> read_list (numDeltaPocs ref + 1) use_flags;
           e \<leftarrow> failed_r;
           let out = inter_rps ref (if sgn = 1 then - abs else abs) flags in
           ret (Inr (if \<not> e \<and> numDeltaPocs out \<le> 32 then Some out else None)) } } }"

definition parseSTRPS_explicit :: "stRPS option nal" where
  "parseSTRPS_explicit = do {
     neg \<leftarrow> r_ue;
     pos \<leftarrow> r_ue;
     if neg > 16 \<or> pos > 16 then ret None
     else do {
       s0 \<leftarrow> explicit_deltas (- 1) (unat neg) 0;
       s1 \<leftarrow> explicit_deltas 1 (unat pos) 0;
       e \<leftarrow> failed_r;
       ret (if e then None
            else Some \<lparr>rs_s0 = map fst s0, rs_s1 = map fst s1, rs_used0 = map snd s0, rs_used1 = map snd s1\<rparr>) } }"

definition parseSTRPS :: "stRPS list \<Rightarrow> nat \<Rightarrow> nat \<Rightarrow> stRPS option result nal" where
  "parseSTRPS sets idx num = do {
     inter \<leftarrow> (if idx \<noteq> 0 then r_flag else ret False);
     if inter then parseSTRPS_inter sets idx num
     else do { s \<leftarrow> parseSTRPS_explicit; ret (Inr s) } }"

text \<open>The sets of a sequence parameter set: \<open>k\<close> of \<open>num\<close> left.\<close>

fun rps_list :: "nat \<Rightarrow> nat \<Rightarrow> stRPS list \<Rightarrow> stRPS list option result nal" where
  "rps_list num 0 sets = ret (Inr (Some sets))"
| "rps_list num (Suc k) sets = do {
     r \<leftarrow> parseSTRPS sets (num - Suc k) num;
     case r of
       Inl e \<Rightarrow> ret (Inl e)
     | Inr v \<Rightarrow> (case v of None \<Rightarrow> ret (Inr None) | Some s \<Rightarrow> rps_list num k (sets @ [s])) }"
text \<open>The size of a picture in coding tree blocks, none when the sizes are refused.\<close>

definition picSizeInCtbs :: "u32 \<Rightarrow> u32 \<Rightarrow> u32 \<Rightarrow> u32" where
  "picSizeInCtbs log2Ctb width height =
     (let ctb = push_bit (unat log2Ctb) 1 in ((width + ctb - 1) div ctb) * ((height + ctb - 1) div ctb))"

text \<open>Up to the sizes: the set's number, its chroma format, planes, width, height, LSB width, block size and SAO flag.\<close>

definition hevc_sps_head :: "nat \<Rightarrow> (u32 \<times> u32 \<times> bool \<times> u32 \<times> u32 \<times> nat \<times> u32 \<times> bool) nal" where
  "hevc_sps_head maxSubLayersMinus1 = do {
     sid \<leftarrow> r_ue;
     chroma \<leftarrow> r_ue;
     separate \<leftarrow> (if chroma = 3 then r_flag else ret False);
     width \<leftarrow> r_ue;
     height \<leftarrow> r_ue;
     window \<leftarrow> r_flag;
     when_r window (repeat_r 4 r_ue);
     r_ue;
     r_ue;
     lsb \<leftarrow> r_ueMax 12;
     ordering \<leftarrow> r_flag;
     repeat_r (if ordering then maxSubLayersMinus1 + 1 else 1) (repeat_r 3 r_ue);
     minCb \<leftarrow> r_ue;
     diffCtb \<leftarrow> r_ue;
     repeat_r 4 r_ue;
     scaling \<leftarrow> r_flag;
     sdata \<leftarrow> (if scaling then r_flag else ret False);
     when_r sdata skipScalingListData;
     r_skip 1;
     sao \<leftarrow> r_flag;
     pcm \<leftarrow> r_flag;
     when_r pcm (do { r_skip 8; r_ue; r_ue; r_skip 1 });
     ret (sid, chroma, separate, width, height, unat lsb + 4, minCb + 3 + diffCtb, sao) }"

text \<open>The long-term pictures: whether there are any, and which are used.\<close>

definition hevc_long_terms :: "nat \<Rightarrow> (bool \<times> bool list) option nal" where
  "hevc_long_terms lsb = do {
     present \<leftarrow> r_flag;
     if \<not> present then ret (Some (False, []))
     else do {
       lt \<leftarrow> r_ue;
       if lt > 32 then ret None
       else do { used \<leftarrow> read_list (unat lt) (do { r_skip lsb; r_flag }); ret (Some (True, used)) } } }"

definition hevc_sps_tail :: "u32 \<Rightarrow> bool \<Rightarrow> nat \<Rightarrow> u32 \<Rightarrow> bool \<Rightarrow> hevcSPS option result nal" where
  "hevc_sps_tail chromaArray separate lsb ctbs sao = do {
     n \<leftarrow> r_ue;
     if n > 64 then ret (Inr None)
     else do {
       sets \<leftarrow> rps_list (unat n) (unat n) [];
       case sets of Inl e \<Rightarrow> ret (Inl e) | Inr v \<Rightarrow> (case v of None \<Rightarrow> ret (Inr None) | Some sets \<Rightarrow> do {
         lts \<leftarrow> hevc_long_terms lsb;
         case lts of None \<Rightarrow> ret (Inr None) | Some (longTerm, ltUsed) \<Rightarrow> do {
           mvp \<leftarrow> r_flag;
           e \<leftarrow> failed_r;
           ret (Inr (if e then None
                     else Some \<lparr>h_chromaArrayType = chromaArray, h_separateColourPlane = separate,
                                h_log2MaxPocLsb = lsb, h_picSizeInCtbs = ctbs, h_rps = sets, h_longTermRefs = longTerm,
                                h_ltUsed = ltUsed, h_temporalMVP = mvp, h_sao = sao\<rparr>)) } }) } }"

definition parseHEVCSPS :: "(u32 \<times> hevcSPS) option result nal" where
  "parseHEVCSPS = do {
     r_skip 4;
     subLayers \<leftarrow> r_u 3;
     r_skip 1;
     plain \<leftarrow> skipProfileTierLevel (unat subLayers);
     if \<not> plain then ret (Inr None)
     else do {
       (sid, chroma, separate, width, height, lsb, log2Ctb, sao) \<leftarrow> hevc_sps_head (unat subLayers);
       e \<leftarrow> failed_r;
       if e \<or> sid > 15 \<or> lsb > 16 \<or> chroma > 3 \<or> log2Ctb < 4 \<or> log2Ctb > 6 \<or> width = 0 \<or> height = 0
          \<or> width > 2 ^ 16 \<or> height > 2 ^ 16
       then ret (Inr None)
       else do {
         sps \<leftarrow> hevc_sps_tail (if separate then 0 else chroma) separate lsb (picSizeInCtbs log2Ctb width height) sao;
         ret (bind_r sps (\<lambda>v. Inr (map_option (Pair sid) v))) } } }"

text \<open>The tiles of a picture parameter set: refused when there are too many.\<close>

definition hevc_tiles :: "bool nal" where
  "hevc_tiles = do {
     cols \<leftarrow> r_ue;
     rows \<leftarrow> r_ue;
     if cols > 63 \<or> rows > 63 then ret False
     else do {
       uniform \<leftarrow> r_flag;
       when_r (\<not> uniform) (repeat_r (unat (cols + rows)) r_ue);
       r_skip 1;
       ret True } }"

text \<open>The deblocking fields: whether a slice may override them, and whether the filter is off.\<close>

definition hevc_deblocking :: "(bool \<times> bool) nal" where
  "hevc_deblocking = do {
     present \<leftarrow> r_flag;
     if \<not> present then ret (False, False)
     else do {
       override \<leftarrow> r_flag;
       disabled \<leftarrow> r_flag;
       when_r (\<not> disabled) (do { r_se; r_se });
       ret (override, disabled) } }"

text \<open>The extensions: the chroma QP offset flag, none for the 3D and screen content ones.\<close>

definition hevc_pps_extension :: "bool \<Rightarrow> bool option nal" where
  "hevc_pps_extension transformSkip = do {
     present \<leftarrow> r_flag;
     if \<not> present then ret (Some False)
     else do {
       rangeExt \<leftarrow> r_flag;
       r_flag;
       ext3D \<leftarrow> r_flag;
       scc \<leftarrow> r_flag;
       r_skip 4;
       if ext3D \<or> scc then ret None
       else if rangeExt then do {
         when_r transformSkip r_ue;
         r_skip 1;
         offsets \<leftarrow> r_flag;
         ret (Some offsets) }
       else ret (Some False) } }"

definition parseHEVCPPS :: "(u32 \<times> hevcPPS) option nal" where
  "parseHEVCPPS = do {
     pid \<leftarrow> r_ue;
     sid \<leftarrow> r_ue;
     dependent \<leftarrow> r_flag;
     output_flag \<leftarrow> r_flag;
     extra \<leftarrow> r_u 3;
     r_skip 1;
     cabacInit \<leftarrow> r_flag;
     l0 \<leftarrow> r_ue;
     l1 \<leftarrow> r_ue;
     r_se;
     r_skip 1;
     transformSkip \<leftarrow> r_flag;
     qpDelta \<leftarrow> r_flag;
     when_r qpDelta r_ue;
     r_se;
     r_se;
     chromaOffsets \<leftarrow> r_flag;
     wp \<leftarrow> r_flag;
     wb \<leftarrow> r_flag;
     r_skip 1;
     tiles \<leftarrow> r_flag;
     sync \<leftarrow> r_flag;
     tiles_ok \<leftarrow> (if tiles then hevc_tiles else ret True);
     if \<not> tiles_ok then ret None
     else do {
       loopFilter \<leftarrow> r_flag;
       (override, disabled) \<leftarrow> hevc_deblocking;
       scaling \<leftarrow> r_flag;
       when_r scaling skipScalingListData;
       lists \<leftarrow> r_flag;
       r_ue;
       header_ext \<leftarrow> r_flag;
       ext \<leftarrow> hevc_pps_extension transformSkip;
       case ext of None \<Rightarrow> ret None | Some offsets \<Rightarrow> do {
         e \<leftarrow> failed_r;
         if e \<or> pid > 63 \<or> sid > 15 \<or> l0 > 14 \<or> l1 > 14 then ret None
         else ret (Some (pid, \<lparr>h_spsID = sid, h_dependentSliceSegments = dependent, h_outputFlagPresent = output_flag,
             h_extraSliceHeaderBits = unat extra, h_cabacInitPresent = cabacInit, h_numRefIdxL0 = l0,
             h_numRefIdxL1 = l1, h_sliceChromaQPOffsets = chromaOffsets, h_weightedPred = wp, h_weightedBipred = wb,
             h_tilesOrEntropySync = (tiles \<or> sync), h_loopFilterAcrossSlices = loopFilter,
             h_deblockingOverride = override, h_deblockingDisabled = disabled, h_listsModification = lists,
             h_headerExtension = header_ext, h_chromaQPOffsetList = offsets\<rparr>)) } } }"

section \<open>The slice segment header\<close>

type_synonym hevc_sets = "(u32 \<rightharpoonup> hevcSPS) \<times> (u32 \<rightharpoonup> hevcPPS)"

text \<open>The short-term set of a slice: its own, or one of the sequence parameter set.\<close>

definition hevc_short_term :: "hevcSPS \<Rightarrow> stRPS result nal" where
  "hevc_short_term sps = do {
     from_sps \<leftarrow> r_flag;
     if \<not> from_sps then do {
       r \<leftarrow> parseSTRPS (h_rps sps) (length (h_rps sps)) (length (h_rps sps));
       ret (bind_r r (\<lambda>v. case v of None \<Rightarrow> Inl (Errf ''a short-term reference picture set it cannot read'') | Some s \<Rightarrow> Inr s)) }
     else do {
       idx \<leftarrow> (if length (h_rps sps) > 1 then r_u (ceilLog2 (length (h_rps sps))) else ret 0);
       if unat idx \<ge> length (h_rps sps) then ret (Inl (Errf ''a slice refers to a missing short-term reference picture set''))
       else ret (Inr (h_rps sps ! unat idx)) } }"

text \<open>The long-term pictures of a slice: \<open>n\<close> left, the \<open>fromSPS\<close> first of them named by index; \<open>used\<close> counts.\<close>

fun hevc_lt_pictures :: "hevcSPS \<Rightarrow> nat \<Rightarrow> nat \<Rightarrow> nat \<Rightarrow> nat result nal" where
  "hevc_lt_pictures sps fromSPS 0 used = ret (Inr used)"
| "hevc_lt_pictures sps fromSPS (Suc n) used = do {
     e \<leftarrow> failed_r;
     if e then ret (Inr used)
     else do {
       u \<leftarrow> (if fromSPS > 0 then do {
               idx \<leftarrow> (if length (h_ltUsed sps) > 1 then r_u (ceilLog2 (length (h_ltUsed sps))) else ret 0);
               if unat idx \<ge> length (h_ltUsed sps)
               then ret (Inl (Errf ''a slice refers to a missing long-term reference picture''))
               else ret (Inr (h_ltUsed sps ! unat idx)) }
             else do { r_skip (h_log2MaxPocLsb sps); b \<leftarrow> r_flag; ret (Inr b) });
       case u of Inl e \<Rightarrow> ret (Inl e) | Inr u \<Rightarrow> do {
         msb \<leftarrow> r_flag;
         when_r msb r_ue;
         hevc_lt_pictures sps (fromSPS - 1) n (if u then used + 1 else used) } } }"

definition hevc_long_term :: "hevcSPS \<Rightarrow> nat result nal" where
  "hevc_long_term sps = do {
     fromSPS \<leftarrow> (if length (h_ltUsed sps) > 0 then r_ue else ret 0);
     pics \<leftarrow> r_ue;
     if unat fromSPS > length (h_ltUsed sps) \<or> pics > 32
     then ret (Inl (Errf ''a slice with too many long-term reference pictures''))
     else hevc_lt_pictures sps (unat fromSPS) (unat (fromSPS + pics)) 0 }"

text \<open>The references of a picture that is no IDR: its short-term set, the long-term pictures used, temporal MVP.\<close>

definition hevc_references :: "hevcSPS \<Rightarrow> (stRPS \<times> nat \<times> bool) result nal" where
  "hevc_references sps = do {
     r_skip (h_log2MaxPocLsb sps);
     cur \<leftarrow> hevc_short_term sps;
     case cur of Inl e \<Rightarrow> ret (Inl e) | Inr cur \<Rightarrow> do {
       lt \<leftarrow> (if h_longTermRefs sps then hevc_long_term sps else ret (Inr 0));
       case lt of Inl e \<Rightarrow> ret (Inl e) | Inr lt \<Rightarrow> do {
         mvp \<leftarrow> (if h_temporalMVP sps then r_flag else ret False);
         ret (Inr (cur, lt, mvp)) } } }"
text \<open>The weights of one list: the luma and chroma flags of its \<open>n\<close> references, then the weights flagged.\<close>

fun hevc_weights :: "(bool \<times> bool) list \<Rightarrow> unit nal" where
  "hevc_weights [] = ret ()"
| "hevc_weights ((luma, chroma) # ws) = do {
     e \<leftarrow> failed_r;
     if e then ret () else do {
       when_r luma (do { r_se; r_se });
       when_r chroma (do { r_se; r_se; r_se; r_se });
       hevc_weights ws } }"

definition hevc_list_weights :: "bool \<Rightarrow> nat \<Rightarrow> unit nal" where
  "hevc_list_weights chroma n = do {
     luma \<leftarrow> read_list n r_flag;
     chromaW \<leftarrow> (if chroma then read_list n r_flag else ret (replicate n False));
     hevc_weights (zip luma chromaW) }"

definition hevc_pred_weights :: "hevcSPS \<Rightarrow> u32 \<Rightarrow> u32 \<Rightarrow> u32 \<Rightarrow> unit nal" where
  "hevc_pred_weights sps sliceType l0 l1 = do {
     r_ue;
     when_r (h_chromaArrayType sps \<noteq> 0) r_se;
     hevc_list_weights (h_chromaArrayType sps \<noteq> 0) (unat l0 + 1);
     when_r (sliceType = 0) (hevc_list_weights (h_chromaArrayType sps \<noteq> 0) (unat l1 + 1)) }"

text \<open>The fields of a P (1) or B (0) slice; \<open>refs\<close> is the number of pictures it may refer to.\<close>

definition hevc_inter_fields :: "hevcSPS \<Rightarrow> hevcPPS \<Rightarrow> u32 \<Rightarrow> nat \<Rightarrow> bool \<Rightarrow> unit result nal" where
  "hevc_inter_fields sps pps sliceType refs temporalMVP = do {
     override \<leftarrow> r_flag;
     l0 \<leftarrow> (if override then r_ue else ret (h_numRefIdxL0 pps));
     l1 \<leftarrow> (if override \<and> sliceType = 0 then r_ue else ret (h_numRefIdxL1 pps));
     if l0 > 14 \<or> l1 > 14 then ret (Inl (Errf ''a slice with too many reference indexes''))
     else do {
       when_r (h_listsModification pps \<and> refs > 1) (do {
         m0 \<leftarrow> r_flag;
         when_r m0 (r_skip (ceilLog2 refs * (unat l0 + 1)));
         m1 \<leftarrow> (if sliceType = 0 then r_flag else ret False);
         when_r m1 (r_skip (ceilLog2 refs * (unat l1 + 1))) });
       when_r (sliceType = 0) (r_skip 1);
       when_r (h_cabacInitPresent pps) (r_skip 1);
       when_r temporalMVP (do {
         fromL0 \<leftarrow> (if sliceType = 0 then r_flag else ret True);
         when_r (fromL0 \<and> l0 > 0 \<or> \<not> fromL0 \<and> l1 > 0) r_ue });
       when_r (h_weightedPred pps \<and> sliceType = 1 \<or> h_weightedBipred pps \<and> sliceType = 0)
         (hevc_pred_weights sps sliceType l0 l1);
       r_ue;
       ret (Inr ()) } }"

text \<open>The quantisation and filter fields behind them; \<open>sao\<close> says whether the slice turned SAO on.\<close>

definition hevc_filter_fields :: "hevcPPS \<Rightarrow> bool \<Rightarrow> unit nal" where
  "hevc_filter_fields pps sao = do {
     r_se;
     when_r (h_sliceChromaQPOffsets pps) (do { r_se; r_se });
     when_r (h_chromaQPOffsetList pps) (r_skip 1);
     override \<leftarrow> (if h_deblockingOverride pps then r_flag else ret False);
     disabled \<leftarrow> (if override then do {
                      d \<leftarrow> r_flag;
                      when_r (\<not> d) (do { r_se; r_se });
                      ret d }
                   else ret (h_deblockingDisabled pps));
     when_r (h_loopFilterAcrossSlices pps \<and> (sao \<or> \<not> disabled)) (r_skip 1) }"

text \<open>Everything a dependent slice segment leaves out.\<close>

definition hevc_independent_fields :: "hevcSPS \<Rightarrow> hevcPPS \<Rightarrow> byte \<Rightarrow> unit result nal" where
  "hevc_independent_fields sps pps nalType = do {
     r_skip (h_extraSliceHeaderBits pps);
     sliceType \<leftarrow> r_ue;
     when_r (h_outputFlagPresent pps) (r_skip 1);
     when_r (h_separateColourPlane sps) (r_skip 2);
     refs \<leftarrow> (if nalType \<noteq> 19 \<and> nalType \<noteq> 20 then hevc_references sps else ret (Inr (empty_rps, 0, False)));
     case refs of Inl e \<Rightarrow> ret (Inl e) | Inr (cur, ltUsed, mvp) \<Rightarrow> do {
       saoLuma \<leftarrow> (if h_sao sps then r_flag else ret False);
       saoChroma \<leftarrow> (if h_sao sps \<and> h_chromaArrayType sps \<noteq> 0 then r_flag else ret False);
       inter \<leftarrow> (if sliceType = 1 \<or> sliceType = 0
                 then hevc_inter_fields sps pps sliceType
                        (ltUsed + countTrue (rs_used0 cur) + countTrue (rs_used1 cur)) mvp
                 else if sliceType \<noteq> 2 then ret (Inl (Errf ''slice type'')) else ret (Inr ()));
       case inter of Inl e \<Rightarrow> ret (Inl e) | Inr _ \<Rightarrow> do {
         hevc_filter_fields pps (saoLuma \<or> saoChroma);
         ret (Inr ()) } } }"

definition hevc_entry_points :: "unit result nal" where
  "hevc_entry_points = do {
     n \<leftarrow> r_ue;
     if n > 0 then do {
       w \<leftarrow> r_ueMax 31;
       if unat w + 1 > 32 \<or> n > 2 ^ 16 then ret (Inl (Errf ''too many entry points''))
       else do { r_skip ((unat w + 1) * unat n); ret (Inr ()) } }
     else ret (Inr ()) }"

text \<open>\<^verbatim>\<open>byte_alignment()\<close>: a one, then zeros up to the end of the byte.\<close>

fun zeros_left :: "nat \<Rightarrow> unit result nal" where
  "zeros_left 0 = ret (Inr ())"
| "zeros_left (Suc n) = do {
     b \<leftarrow> r_bit;
     if b \<noteq> 0 then ret (Inl (Errf ''the slice header does not end where its syntax says'')) else zeros_left n }"

definition byte_alignment :: "unit result nal" where
  "byte_alignment = do {
     one \<leftarrow> r_flag;
     if \<not> one then ret (Inl (Errf ''the slice header does not end where its syntax says''))
     else do { r \<leftarrow> State_Monad.get; zeros_left (nr_left r) } }"

definition hevc_slice_body :: "hevcSPS \<Rightarrow> hevcPPS \<Rightarrow> byte \<Rightarrow> bool \<Rightarrow> unit result nal" where
  "hevc_slice_body sps pps nalType firstInPic = do {
     dependent \<leftarrow> (if \<not> firstInPic \<and> h_dependentSliceSegments pps then r_flag else ret False);
     when_r (\<not> firstInPic) (r_skip (ceilLog2 (unat (h_picSizeInCtbs sps))));
     fields \<leftarrow> (if \<not> dependent then hevc_independent_fields sps pps nalType else ret (Inr ()));
     case fields of Inl e \<Rightarrow> ret (Inl e) | Inr _ \<Rightarrow> do {
       points \<leftarrow> (if h_tilesOrEntropySync pps then hevc_entry_points else ret (Inr ()));
       case points of Inl e \<Rightarrow> ret (Inl e) | Inr _ \<Rightarrow> do {
         when_r (h_headerExtension pps) (do { n \<leftarrow> r_ue; r_skip (8 * unat (min n 256)) });
         byte_alignment } } }"

definition hevcSliceHeaderLen :: "hevc_sets \<Rightarrow> bytes \<Rightarrow> byte \<Rightarrow> nat result" where
  "hevcSliceHeaderLen sets payload nalType =
     (let ((firstInPic, ppsID), r) = run_state (do {
            first \<leftarrow> r_flag;
            when_r (16 \<le> nalType \<and> nalType \<le> 23) (r_skip 1);
            p \<leftarrow> r_ue;
            ret (first, p) }) (newNALReader payload)
      in if nr_err r then headerLen r
         else case snd sets ppsID of
           None \<Rightarrow> Inl (Errf ''a slice refers to a picture parameter set the stream does not carry'')
         | Some pps \<Rightarrow>
             (case fst sets (h_spsID pps) of
                None \<Rightarrow> Inl (Errf ''a slice refers to a sequence parameter set the stream does not carry'')
              | Some sps \<Rightarrow>
                  (case run_state (hevc_slice_body sps pps nalType firstInPic) r of
                     (Inl e, _) \<Rightarrow> Inl e
                   | (Inr _, r) \<Rightarrow> headerLen r)))"

section \<open>Bounds\<close>

lemma advances_repeat_codes [adv]: "advances (read_list n m)" if "advances m" for m
  using that by (induction n) (auto intro!: adv)

lemma advances_skip_sub_layers [adv]: "advances (skip_sub_layers ps)"
  by (induction ps) (auto intro!: adv)

lemma advances_skip_codes [adv]: "advances (skip_codes n)"
  by (induction n) (auto intro!: adv)

lemma advances_explicit_deltas [adv]: "advances (explicit_deltas dir n poc)"
  by (induction n arbitrary: poc) (auto simp: Let_def intro!: adv)

lemma advances_parseSTRPS [adv]: "advances (parseSTRPS sets i n)"
  unfolding parseSTRPS_def parseSTRPS_inter_def parseSTRPS_explicit_def use_flags_def Let_def
  by (intro adv)

lemma advances_hevc_lt_pictures [adv]: "advances (hevc_lt_pictures sps f n u)"
  by (induction n arbitrary: f u) (auto intro!: adv)

lemma advances_hevc_references [adv]: "advances (hevc_references sps)"
  unfolding hevc_references_def hevc_short_term_def hevc_long_term_def by (intro adv)

lemma advances_hevc_weights [adv]: "advances (hevc_weights ws)"
  by (induction ws) (auto intro!: adv)

lemma advances_hevc_inter_fields [adv]: "advances (hevc_inter_fields sps pps t n m)"
  unfolding hevc_inter_fields_def hevc_pred_weights_def hevc_list_weights_def by (intro adv)

lemma advances_hevc_independent_fields [adv]: "advances (hevc_independent_fields sps pps t)"
  unfolding hevc_independent_fields_def hevc_filter_fields_def by (intro adv)

lemma advances_get [adv]: "advances State_Monad.get"
  by (simp add: state_io_rel_def)

lemma advances_zeros_left [adv]: "advances (zeros_left n)"
  by (induction n) (auto intro!: adv)

lemma advances_hevc_slice_body [adv]: "advances (hevc_slice_body sps pps t f)"
  unfolding hevc_slice_body_def hevc_entry_points_def byte_alignment_def by (intro adv)
lemma hevcSliceHeaderLen_bound:
  assumes "hevcSliceHeaderLen sets payload t = Inr n"
  shows "n \<le> length payload"
proof -
  let ?start = "do { f \<leftarrow> r_flag; when_r (16 \<le> t \<and> t \<le> 23) (r_skip 1); p \<leftarrow> r_ue; ret (f, p) }"
  obtain f p r where r: "run_state ?start (newNALReader payload) = ((f, p), r)"
    by (metis surj_pair)
  have "advances ?start" by (intro adv)
  then have start: "moves (newNALReader payload) r" using r by (rule run_advances)
  show ?thesis
  proof (cases "nr_err r")
    case True
    then show ?thesis using assms r by (simp add: hevcSliceHeaderLen_def headerLen_def Let_def)
  next
    case False
    then obtain sps pps s' x where "run_state (hevc_slice_body sps pps t f) r = (x, s')" "headerLen s' = Inr n"
      using assms r by (auto simp: hevcSliceHeaderLen_def split: option.splits if_splits prod.splits sum.splits)
    then show ?thesis
      using headerLen_bound [OF moves_trans [OF start]] run_advances [OF advances_hevc_slice_body] by blast
  qed
qed

section \<open>Ranges\<close>

text \<open>
  A set of at most 32 deltas, each with its flag, the first list before the picture and the second
  behind it.
\<close>

definition stRPS_ok :: "stRPS \<Rightarrow> bool" where
  "stRPS_ok s \<longleftrightarrow> length (rs_used0 s) = length (rs_s0 s) \<and> length (rs_used1 s) = length (rs_s1 s) \<and>
     numDeltaPocs s \<le> 32 \<and> list_all (\<lambda>d. d < 0) (rs_s0 s) \<and> list_all (\<lambda>d. d > 0) (rs_s1 s)"

definition hevcSPS_ok :: "hevcSPS \<Rightarrow> bool" where
  "hevcSPS_ok s \<longleftrightarrow> 4 \<le> h_log2MaxPocLsb s \<and> h_log2MaxPocLsb s \<le> 16 \<and> h_chromaArrayType s \<le> 3 \<and>
     length (h_rps s) \<le> 64 \<and> list_all stRPS_ok (h_rps s) \<and> length (h_ltUsed s) \<le> 32"

definition hevcPPS_ok :: "hevcPPS \<Rightarrow> bool" where
  "hevcPPS_ok p \<longleftrightarrow> h_spsID p \<le> 15 \<and> h_numRefIdxL0 p \<le> 14 \<and> h_numRefIdxL1 p \<le> 14 \<and> h_extraSliceHeaderBits p < 8"

lemma answers_read_list: "answers (read_list n m) (\<lambda>xs. length xs = n)"
proof (induction n)
  case (Suc n)
  then have "answers (read_list n m \<bind> (\<lambda>xs. ret (x # xs))) (\<lambda>xs. length xs = Suc n)" for x
    by (rule answers_bind) (simp add: answers_return)
  then show ?case by (simp add: answers_any)
qed (simp add: answers_return)

lemma wrap32_id: "- (2 ^ 31) \<le> x \<Longrightarrow> x < 2 ^ 31 \<Longrightarrow> wrap32 x = x"
  by (simp add: wrap32_def signed_take_bit_int_eq_self)

lemma mem_map_filter: "y \<in> set (List.map_filter f xs) \<longleftrightarrow> (\<exists>x\<in>set xs. f x = Some y)"
  by (force simp: List.map_filter_def)

lemma moved_side:
  assumes "(d, u) \<in> set (moved side delta flags base ds js)"
  shows "side d"
proof -
  obtain j where "(let d = wrap32 (ds ! j + delta); (used, use) = flags ! (base + j)
                   in if side d \<and> use then Some (d, used) else None) = Some (d, u)"
    using assms by (auto simp: moved_def mem_map_filter)
  then show ?thesis by (cases "flags ! (base + j)") (auto simp: Let_def split: if_splits)
qed

lemma inter_rps_ok: "numDeltaPocs (inter_rps ref delta flags) \<le> 32 \<Longrightarrow> stRPS_ok (inter_rps ref delta flags)"
  by (auto simp: stRPS_ok_def inter_rps_def Let_def list_all_iff dest: moved_side)

lemma explicit_deltas_ok:
  "dir = 1 \<or> dir = - 1 \<Longrightarrow> 0 \<le> dir * poc \<Longrightarrow> dir * poc + int n * 2 ^ 15 < 2 ^ 31 \<Longrightarrow>
   answers (explicit_deltas dir n poc) (\<lambda>ds. length ds = n \<and> list_all (\<lambda>(d, _). dir * d > 0) ds)"
proof (induction n arbitrary: poc)
  case (Suc n)
  have step: "answers (explicit_deltas dir n (wrap32 (poc + dir * (sint d + 1))))
       (\<lambda>ds. length ds = n \<and> list_all (\<lambda>(d, _). dir * d > 0) ds) \<and> dir * wrap32 (poc + dir * (sint d + 1)) > 0"
    if d: "d \<le> 2 ^ 15 - 1" for d :: u32
  proof -
    have "uint d < 2 ^ 15" using d by (simp add: word_le_def)
    then have "sint d = uint d"
      by (simp add: sint_uint signed_take_bit_int_eq_self order_trans [OF _ uint_ge_0 [of d]])
    then have s: "0 \<le> sint d" "sint d < 2 ^ 15" using \<open>uint d < 2 ^ 15\<close> by simp_all
    have eq: "dir * (poc + dir * (sint d + 1)) = dir * poc + sint d + 1"
      using Suc.prems(1) by (auto simp: algebra_simps)
    have "\<bar>poc + dir * (sint d + 1)\<bar> = \<bar>dir * (poc + dir * (sint d + 1))\<bar>"
      using Suc.prems(1) by auto
    then have "wrap32 (poc + dir * (sint d + 1)) = poc + dir * (sint d + 1)"
      using s Suc.prems unfolding eq by (intro wrap32_id) auto
    then show ?thesis using Suc.IH [of "poc + dir * (sint d + 1)"] Suc.prems s unfolding eq by (simp add: eq)
  qed
  show ?case
    unfolding explicit_deltas.simps Let_def
  proof (rule answers_bind [OF ueMax_le], rule answers_any, goal_cases)
    case (1 d used)
    note st = step [OF 1]
    show ?case
      by (rule answers_bind [OF conjunct1 [OF st]]) (use conjunct2 [OF st] in \<open>simp add: answers_return\<close>)
  qed
qed (simp add: answers_return)

lemma list_all_zip_map: "list_all (\<lambda>(d, _). P d) ds \<longleftrightarrow> list_all P (map fst ds)"
  by (auto simp: list_all_iff)

lemma parseSTRPS_explicit_ok: "answers parseSTRPS_explicit (\<lambda>v. \<forall>s. v = Some s \<longrightarrow> stRPS_ok s)"
  unfolding parseSTRPS_explicit_def
proof (rule answers_any, rule answers_any, rule answers_if, simp add: answers_return, goal_cases)
  case (1 neg pos)
  then have n: "unat neg \<le> 16" "unat pos \<le> 16" by (simp_all add: word_le_nat_alt not_less)
  have "n \<le> 16 \<Longrightarrow> c * 0 + int n * 2 ^ 15 < 2 ^ 31" for c n by simp
  note b = this [OF n(1)] this [OF n(2)]
  show ?case
  proof (rule answers_bind [OF explicit_deltas_ok [OF _ _ b(1)]], simp, simp)
    fix s0 :: "(int \<times> bool) list" assume s0: "length s0 = unat neg \<and> list_all (\<lambda>(d, _). - 1 * d > 0) s0"
    show "answers (explicit_deltas 1 (unat pos) 0 \<bind> (\<lambda>s1. failed_r \<bind> (\<lambda>e. ret (if e then None
        else Some \<lparr>rs_s0 = map fst s0, rs_s1 = map fst s1, rs_used0 = map snd s0, rs_used1 = map snd s1\<rparr>))))
        (\<lambda>v. \<forall>s. v = Some s \<longrightarrow> stRPS_ok s)"
    proof (rule answers_bind [OF explicit_deltas_ok [OF _ _ b(2)]], simp, simp, rule answers_any, rule answers_return, goal_cases)
      case (1 s1)
      then show ?case using s0 n
        by (auto simp: stRPS_ok_def numDeltaPocs_def list_all_zip_map [of "\<lambda>d. d < 0", simplified] list_all_iff)
    qed
  qed
qed

lemma parseSTRPS_inter_ok:
  assumes "idx \<le> length sets" "idx \<noteq> 0"
  shows "answers (parseSTRPS_inter sets idx num) (\<lambda>v. \<exists>w. v = Inr w \<and> (\<forall>s. w = Some s \<longrightarrow> stRPS_ok s))"
  unfolding parseSTRPS_inter_def Let_def
  by (intro ans) (use assms in \<open>auto intro: inter_rps_ok\<close>)

lemma parseSTRPS_ok:
  "idx \<le> length sets \<Longrightarrow> answers (parseSTRPS sets idx num) (\<lambda>v. \<exists>w. v = Inr w \<and> (\<forall>s. w = Some s \<longrightarrow> stRPS_ok s))"
  unfolding parseSTRPS_def
proof (rule answers_bind [where P = "\<lambda>inter. inter \<longrightarrow> idx \<noteq> 0"], goal_cases)
  case 1
  show ?case by (simp add: answers_True answers_return)
next
  case (2 inter)
  then show ?case
    by (auto intro: parseSTRPS_inter_ok answers_bind [OF parseSTRPS_explicit_ok] answers_return)
qed
lemma rps_list_ok:
  "length sets + k = num \<Longrightarrow> list_all stRPS_ok sets \<Longrightarrow>
   answers (rps_list num k sets) (\<lambda>v. \<exists>w. v = Inr w \<and> (\<forall>ss. w = Some ss \<longrightarrow> list_all stRPS_ok ss \<and> length ss = num))"
proof (induction k arbitrary: sets)
  case (Suc k)
  have "num - Suc k \<le> length sets" using Suc.prems by simp
  then show ?case
    unfolding rps_list.simps
  proof (rule answers_bind [OF parseSTRPS_ok], goal_cases)
    case (1 v)
    then obtain w where w: "v = Inr w" "\<forall>s. w = Some s \<longrightarrow> stRPS_ok s" by blast
    show ?case
      using w Suc.IH [of "sets @ [the w]"] Suc.prems by (cases w) (simp_all add: answers_return)
  qed
qed (simp add: answers_return)

lemma hevc_long_terms_ok: "answers (hevc_long_terms lsb) (\<lambda>v. \<forall>p us. v = Some (p, us) \<longrightarrow> length us \<le> 32)"
  unfolding hevc_long_terms_def
proof (rule answers_any, rule answers_if, simp add: answers_return, rule answers_any, rule answers_if,
    simp add: answers_return, rule answers_bind [OF answers_read_list], rule answers_return, goal_cases)
  case (1 p lt us)
  then show ?case by (simp add: not_less word_le_nat_alt)
qed

lemma hevc_sps_tail_ok:
  assumes "chroma \<le> 3" "4 \<le> lsb" "lsb \<le> 16"
  shows "answers (hevc_sps_tail chroma separate lsb ctbs sao) (\<lambda>v. \<exists>w. v = Inr w \<and> (\<forall>s. w = Some s \<longrightarrow> hevcSPS_ok s))"
  unfolding hevc_sps_tail_def
proof (rule answers_any, rule answers_if, simp add: answers_return, goal_cases)
  case (1 n)
  then have n: "unat n \<le> 64" by (simp add: not_less word_le_nat_alt)
  show ?case
  proof (rule answers_bind [OF rps_list_ok], simp, simp, goal_cases)
    case (1 v)
    then obtain w where v: "v = Inr w" "\<forall>ss. w = Some ss \<longrightarrow> list_all stRPS_ok ss \<and> length ss = unat n" by blast
    show ?case
    proof (cases w)
      case None
      then show ?thesis by (simp add: v answers_return)
    next
      case (Some ss)
      show ?thesis
        unfolding v(1) Some sum.case option.case
      proof (rule answers_bind [OF hevc_long_terms_ok], goal_cases)
        case (1 lts)
        then show ?case
          using v(2) n assms Some
          by (cases lts) (auto intro!: answers_any answers_return simp: hevcSPS_ok_def)
      qed
    qed
  qed
qed

lemma ueMax_12: "answers (r_ueMax 12) (\<lambda>v. unat v \<le> 12)"
  by (rule answers_mono [OF ueMax_le]) (simp add: word_le_nat_alt)

lemma parseHEVCSPS_ok:
  "answers parseHEVCSPS (\<lambda>v. \<exists>w. v = Inr w \<and> (\<forall>i s. w = Some (i, s) \<longrightarrow> i \<le> 15 \<and> hevcSPS_ok s))"
  unfolding parseHEVCSPS_def
proof (rule answers_any, rule answers_any, rule answers_any, rule answers_any, rule answers_if, simp add: answers_return,
    goal_cases)
  case (1 _ subLayers)
  have head: "answers (hevc_sps_head (unat subLayers)) (\<lambda>(sid, chroma, separate, width, height, lsb, log2Ctb, sao). 4 \<le> lsb)"
    unfolding hevc_sps_head_def by (intro ans) simp
  show ?case
  proof (rule answers_bind [OF head], goal_cases)
    case (1 x)
    then obtain sid chroma separate width height lsb log2Ctb sao
      where x: "x = (sid, chroma, separate, width, height, lsb, log2Ctb, sao)" "4 \<le> lsb" by (cases x) auto
    show ?case
      unfolding x prod.case
    proof (rule answers_any, rule answers_if, simp add: answers_return,
        rule answers_bind [OF hevc_sps_tail_ok], simp_all add: x not_less, goal_cases)
      case (1 _ v)
      then show ?case by (auto intro!: answers_return)
    qed
  qed
qed

lemma parseHEVCPPS_ok: "answers parseHEVCPPS (\<lambda>v. \<forall>i p. v = Some (i, p) \<longrightarrow> i \<le> 63 \<and> hevcPPS_ok p)"
  unfolding parseHEVCPPS_def
proof (rule answers_any, rule answers_any, rule answers_any, rule answers_any,
    rule answers_bind [where P = "\<lambda>extra. unat extra < 8"], goal_cases)
  case 1
  show ?case
    using answers_u [of 3] by simp
next
  case (2 pid sid d out extra)
  then show ?case
    by (intro ans) (simp_all add: hevcPPS_ok_def not_less)
qed
section \<open>No index out of range\<close>

lemma hevc_short_term_quiet: "answers (hevc_short_term sps) quiet"
  unfolding hevc_short_term_def
proof (rule answers_any, rule answers_if, rule answers_bind [OF parseSTRPS_ok], simp, goal_cases)
  case (1 _ v)
  then show ?case by (auto intro!: answers_return split: option.split)
qed (simp add: answers_any answers_return answers_if)

lemma hevc_lt_pictures_quiet: "answers (hevc_lt_pictures sps f n u) quiet"
proof (induction n arbitrary: f u)
  case (Suc n)
  show ?case
    unfolding hevc_lt_pictures.simps
    by (intro answers_any answers_if answers_return quiet_simps answers_quiet_bind Suc)
qed (simp add: answers_return)

lemma hevc_references_quiet: "answers (hevc_references sps) quiet"
  unfolding hevc_references_def hevc_long_term_def
  by (rule answers_any, rule answers_quiet_bind [OF hevc_short_term_quiet], rule answers_quiet_bind)
    (auto intro!: answers_any answers_if answers_return hevc_lt_pictures_quiet)

lemma hevc_inter_fields_quiet: "answers (hevc_inter_fields sps pps t n m) quiet"
  unfolding hevc_inter_fields_def by (intro ans) simp_all

lemma hevc_independent_fields_quiet: "answers (hevc_independent_fields sps pps t) quiet"
  unfolding hevc_independent_fields_def
proof (rule answers_any, rule answers_any, rule answers_any, rule answers_any, rule answers_quiet_bind, goal_cases)
  case 1
  show ?case by (simp add: hevc_references_quiet answers_return)
next
  case (2 _ _ _ _ x)
  show ?case
    by (cases x, simp only: prod.case, rule answers_any, rule answers_any, rule answers_quiet_bind)
      (auto intro!: answers_any answers_return hevc_inter_fields_quiet)
qed

lemma zeros_left_quiet: "answers (zeros_left n) quiet"
  by (induction n) (auto intro!: answers_any answers_return answers_if)

lemma hevc_slice_body_quiet: "answers (hevc_slice_body sps pps t f) quiet"
  unfolding hevc_slice_body_def
proof (rule answers_any, rule answers_any, rule answers_quiet_bind, goal_cases)
  case 1
  show ?case by (simp add: hevc_independent_fields_quiet answers_return)
next
  case 2
  show ?case
  proof (rule answers_quiet_bind, goal_cases)
    case 1
    show ?case by (auto simp: hevc_entry_points_def intro!: ans)
  next
    case 2
    show ?case unfolding byte_alignment_def by (rule answers_any, intro ans zeros_left_quiet) simp_all
  qed
qed

lemma hevcSliceHeaderLen_no_panic: "hevcSliceHeaderLen sets payload t \<noteq> Inl Panic"
proof -
  have "fst (run_state (hevc_slice_body sps pps t f) r) \<noteq> Inl Panic" for sps pps f r
    using hevc_slice_body_quiet by (simp add: answers_def quiet_def)
  then show ?thesis
    by (auto simp: hevcSliceHeaderLen_def headerLen_def split: prod.splits option.splits sum.splits) (metis fst_conv)+
qed

end
