(* ===== verification/CencSplit.thy ===== *)
theory CencSplit
  imports AvcHeader HevcSlice
begin

text \<open>
  The subsample layout of mp4/cenc_slice.go: which bytes of an H.264 or HEVC sample stay clear and
  which are protected.  \<open>mask\<close> is the layout byte by byte; the lemmas show that the list of subsamples
  the builder makes is, for every sample, the layout of the sample's NAL units one after another, that
  its fields fit their widths, and that the splitter keeps only parameter sets in range.
\<close>

section \<open>Subsamples\<close>

record cencSubsample =
  sub_clear :: u16
  sub_protected :: u32

record subsampleBuilder =
  sb_align :: bool
  sb_acc :: nat
  sb_subs :: "cencSubsample list"

text \<open>The clear bytes that have to be told in a subsample of their own, and what is left of them.\<close>

function full_runs :: "nat \<Rightarrow> cencSubsample list \<times> nat" where
  "full_runs acc =
     (if acc > 0xFFFF then (let (subs, acc) = full_runs (acc - 0xFFFF) in (\<lparr>sub_clear = 0xFFFF, sub_protected = 0\<rparr> # subs, acc))
      else ([], acc))"
  by pat_completeness auto
termination by (relation "measure id") auto

declare full_runs.simps [simp del]

definition push_sub :: "nat \<Rightarrow> subsampleBuilder \<Rightarrow> subsampleBuilder" where
  "push_sub protected b =
     (let (runs, acc) = full_runs (sb_acc b) in
      b\<lparr>sb_subs := sb_subs b @ runs @ [\<lparr>sub_clear = word_of_nat acc, sub_protected = word_of_nat protected\<rparr>], sb_acc := 0\<rparr>)"

definition add_sub :: "nat \<Rightarrow> nat \<Rightarrow> subsampleBuilder \<Rightarrow> subsampleBuilder" where
  "add_sub clear protected b =
     (let (clear, protected) = (if sb_align b then (clear + protected mod 16, protected - protected mod 16) else (clear, protected));
          b = b\<lparr>sb_acc := sb_acc b + clear\<rparr>
      in if protected > 0 then push_sub protected b else b)"

definition done_subs :: "subsampleBuilder \<Rightarrow> cencSubsample list" where
  "done_subs b = sb_subs (if sb_acc b > 0 \<or> sb_subs b = [] then push_sub 0 b else b)"

section \<open>The splitter\<close>

record h26xSplitter =
  sp_hevc :: bool
  sp_lenSize :: nat
  sp_align :: bool
  sp_avc :: avc_sets
  sp_hevcs :: hevc_sets

definition next_unit :: "bytes \<Rightarrow> (bytes \<times> bytes) option" where
  "next_unit p =
     (if length p < 2 then None
      else let n = unat (p ! 0) * 256 + unat (p ! 1) in
        if length p < 2 + n then None else Some (slice 2 (2 + n) p, drop (2 + n) p))"

text \<open>Up to \<open>n\<close> parameter sets; no rest when the record ends early.\<close>

fun take_units :: "nat \<Rightarrow> bytes \<Rightarrow> bytes list \<times> bytes option" where
  "take_units 0 p = ([], Some p)"
| "take_units (Suc n) p =
     (case next_unit p of
        None \<Rightarrow> ([], None)
      | Some (nal, p) \<Rightarrow> (let (nals, r) = take_units n p in (nal # nals, r)))"

fun hvcC_arrays :: "nat \<Rightarrow> bytes \<Rightarrow> bytes list" where
  "hvcC_arrays 0 p = []"
| "hvcC_arrays (Suc a) p =
     (if length p < 3 then []
      else case take_units (unat (p ! 1) * 256 + unat (p ! 2)) (drop 3 p) of
             (nals, None) \<Rightarrow> nals
           | (nals, Some p) \<Rightarrow> nals @ hvcC_arrays a p)"

fun avcC_arrays :: "byte list \<Rightarrow> bytes \<Rightarrow> bytes list" where
  "avcC_arrays [] p = []"
| "avcC_arrays (m # ms) p =
     (if length p < 1 then []
      else case take_units (unat (p ! 0 AND m)) (drop 1 p) of
             (nals, None) \<Rightarrow> nals
           | (nals, Some p) \<Rightarrow> nals @ avcC_arrays ms p)"

definition configParameterSets :: "bool \<Rightarrow> bytes \<Rightarrow> (bytes list \<times> nat) option" where
  "configParameterSets hevc private =
     (if hevc then
        (if length private < 23 then None
         else Some (hvcC_arrays (unat (private ! 22)) (drop 23 private), unat (private ! 21 AND 3) + 1))
      else if length private < 7 \<or> private ! 0 \<noteq> 1 then None
      else Some (avcC_arrays [0x1F, 0xFF] (drop 5 private), unat (private ! 4 AND 3) + 1))"

text \<open>A parameter set is kept under its number; one that cannot be read is left out.\<close>

definition learn_hevc :: "bytes \<Rightarrow> hevc_sets \<Rightarrow> hevc_sets result" where
  "learn_hevc nal sets =
     (if length nal < 2 \<or> nal ! 0 AND 1 \<noteq> 0 \<or> drop_bit 3 (nal ! 1) \<noteq> 0 then Inr sets
      else let r = newNALReader (drop 2 nal); typ = drop_bit 1 (nal ! 0) AND 0x3F in
        if typ = 33 then
          bind_r (fst (run_state parseHEVCSPS r)) (\<lambda>v.
            case v of None \<Rightarrow> Inr sets | Some (i, s) \<Rightarrow> Inr ((fst sets)(i \<mapsto> s), snd sets))
        else if typ = 34 then
          (case fst (run_state parseHEVCPPS r) of None \<Rightarrow> Inr sets | Some (i, p) \<Rightarrow> Inr (fst sets, (snd sets)(i \<mapsto> p)))
        else Inr sets)"

definition learn_avc :: "bytes \<Rightarrow> avc_sets \<Rightarrow> avc_sets" where
  "learn_avc nal sets =
     (if length nal < 1 then sets
      else let r = newNALReader (drop 1 nal); typ = nal ! 0 AND 0x1F in
        if typ = 7 then (case fst (run_state parseAVCSPS r) of None \<Rightarrow> sets | Some (i, s) \<Rightarrow> ((fst sets)(i \<mapsto> s), snd sets))
        else if typ = 8 then (case fst (run_state parseAVCPPS r) of None \<Rightarrow> sets | Some (i, p) \<Rightarrow> (fst sets, (snd sets)(i \<mapsto> p)))
        else sets)"

definition learn :: "bytes \<Rightarrow> h26xSplitter \<Rightarrow> h26xSplitter result" where
  "learn nal s =
     (if sp_hevc s then bind_r (learn_hevc nal (sp_hevcs s)) (\<lambda>sets. Inr (s\<lparr>sp_hevcs := sets\<rparr>))
      else Inr (s\<lparr>sp_avc := learn_avc nal (sp_avc s)\<rparr>))"

fun learn_all :: "bytes list \<Rightarrow> h26xSplitter \<Rightarrow> h26xSplitter result" where
  "learn_all [] s = Inr s"
| "learn_all (nal # nals) s = bind_r (learn nal s) (learn_all nals)"

definition newH26xSplitter :: "string \<Rightarrow> bytes \<Rightarrow> string \<Rightarrow> h26xSplitter result" where
  "newH26xSplitter codec private scheme =
     (let s = \<lparr>sp_hevc = (codec = ''hevc''), sp_lenSize = 4, sp_align = (scheme = ''cenc''),
               sp_avc = (\<lambda>_. None, \<lambda>_. None), sp_hevcs = (\<lambda>_. None, \<lambda>_. None)\<rparr> in
      case configParameterSets (sp_hevc s) private of
        None \<Rightarrow> Inr s
      | Some (sets, lenSize) \<Rightarrow>
          if lenSize = 3 then Inl (Errf ''cenc: the track declares 3-byte NAL lengths'')
          else learn_all sets (s\<lparr>sp_lenSize := lenSize\<rparr>))"

text \<open>How many leading bytes of a NAL unit stay clear.\<close>

definition clearLen :: "bytes \<Rightarrow> h26xSplitter \<Rightarrow> (nat \<times> h26xSplitter) result" where
  "clearLen nal s =
     (if sp_hevc s then
        (if length nal < 2 then Inr (length nal, s)
         else let typ = drop_bit 1 (nal ! 0) AND 0x3F; layer = push_bit 5 (nal ! 0 AND 1) OR drop_bit 3 (nal ! 1) in
           if typ \<ge> 32 then bind_r (learn nal s) (\<lambda>s. Inr (length nal, s))
           else if layer \<noteq> 0 then Inl (Errf ''cenc: a HEVC slice of another layer'')
           else if typ \<ge> 22 then Inl (Errf ''cenc: a HEVC slice of reserved NAL unit type'')
           else bind_r (hevcSliceHeaderLen (sp_hevcs s) (drop 2 nal) typ) (\<lambda>hdr. Inr (2 + hdr, s)))
      else if length nal < 1 then Inr (0, s)
      else let typ = nal ! 0 AND 0x1F in
        if typ = 1 \<or> typ = 5 then
          bind_r (avcSliceHeaderLen (sp_avc s) (drop 1 nal) typ (drop_bit 5 (nal ! 0) AND 3)) (\<lambda>hdr. Inr (1 + hdr, s))
        else bind_r (learn nal s) (\<lambda>s. Inr (length nal, s)))"

text \<open>
  One NAL unit off the front of a sample: its bytes and the rest.  A NAL unit takes at least its length
  field, so \<open>length sample\<close> rounds are enough (\<open>split_total\<close>).
\<close>

definition next_nal :: "nat \<Rightarrow> bytes \<Rightarrow> (bytes \<times> bytes) result" where
  "next_nal lenSize sample =
     (if length sample < lenSize then Inl (Errf ''cenc: truncated NAL length prefix in sample'')
      else let n = unat (be_dec (take lenSize sample) :: u64) in
        if n > length sample - lenSize then Inl (Errf ''cenc: NAL length exceeds sample bounds'')
        else Inr (slice lenSize (lenSize + n) sample, drop (lenSize + n) sample))"

fun split_loop :: "nat \<Rightarrow> bytes \<Rightarrow> h26xSplitter \<Rightarrow> subsampleBuilder \<Rightarrow> (subsampleBuilder \<times> h26xSplitter) result option" where
  "split_loop fuel [] s b = Some (Inr (b, s))"
| "split_loop 0 sample s b = None"
| "split_loop (Suc fuel) sample s b =
     (case next_nal (sp_lenSize s) sample of
        Inl e \<Rightarrow> Some (Inl e)
      | Inr (nal, rest) \<Rightarrow>
          (case clearLen nal s of
             Inl e \<Rightarrow> Some (Inl e)
           | Inr (clear, s) \<Rightarrow> split_loop fuel rest s (add_sub (sp_lenSize s + clear) (length nal - clear) b)))"

definition split_h26x :: "bytes \<Rightarrow> h26xSplitter \<Rightarrow> (cencSubsample list \<times> h26xSplitter) result option" where
  "split_h26x sample s =
     map_option (\<lambda>r. bind_r r (\<lambda>(b, s). Inr (done_subs b, s)))
       (split_loop (length sample) sample s \<lparr>sb_align = sp_align s, sb_acc = 0, sb_subs = []\<rparr>)"
section \<open>Byte by byte\<close>

text \<open>The layout a list of subsamples tells: \<open>True\<close> for a clear byte, \<open>False\<close> for a protected one.\<close>

definition sub_mask :: "cencSubsample \<Rightarrow> bool list" where
  "sub_mask s = replicate (unat (sub_clear s)) True @ replicate (unat (sub_protected s)) False"

definition subs_mask :: "cencSubsample list \<Rightarrow> bool list" where
  "subs_mask subs = concat (map sub_mask subs)"

definition builder_mask :: "subsampleBuilder \<Rightarrow> bool list" where
  "builder_mask b = subs_mask (sb_subs b) @ replicate (sb_acc b) True"

text \<open>
  The layout of one NAL unit: its clear bytes, with the bytes that do not fill a 16-byte block when
  blocks have to be whole, then the protected ones.
\<close>

definition unit_mask :: "bool \<Rightarrow> nat \<Rightarrow> nat \<Rightarrow> bool list" where
  "unit_mask whole clear protected =
     (if whole then replicate (clear + protected mod 16) True @ replicate (protected - protected mod 16) False
      else replicate clear True @ replicate protected False)"

lemma subs_mask_simps [simp]: "subs_mask [] = []" "subs_mask (s # ss) = sub_mask s @ subs_mask ss"
  "subs_mask (xs @ ys) = subs_mask xs @ subs_mask ys"
  by (simp_all add: subs_mask_def)

lemma length_unit_mask [simp]: "length (unit_mask whole c p) = c + p"
  by (simp add: unit_mask_def)

lemma full_runs_mask:
  "full_runs acc = (subs, r) \<Longrightarrow> r \<le> 0xFFFF \<and> subs_mask subs @ replicate r True = replicate acc True"
proof (induction acc arbitrary: subs r rule: full_runs.induct)
  case (1 acc)
  show ?case
  proof (cases "acc > 0xFFFF")
    case True
    obtain subs' r' where rec: "full_runs (acc - 0xFFFF) = (subs', r')" by fastforce
    with 1 True have eq: "subs = \<lparr>sub_clear = 0xFFFF, sub_protected = 0\<rparr> # subs'" "r = r'"
      by (auto simp: full_runs.simps [of acc])
    have IH: "r' \<le> 0xFFFF \<and> subs_mask subs' @ replicate r' True = replicate (acc - 0xFFFF) True"
      by (rule 1(1) [OF True rec])
    have "replicate acc True = replicate (0xFFFF + (acc - 0xFFFF)) True" using True by simp
    also have "\<dots> = replicate 0xFFFF True @ replicate (acc - 0xFFFF) True" by (rule replicate_add)
    finally show ?thesis using IH eq by (simp add: sub_mask_def)
  next
    case False
    with 1 show ?thesis by (auto simp: full_runs.simps [of acc])
  qed
qed

lemma push_sub_mask:
  "protected < 2 ^ 32 \<Longrightarrow> builder_mask (push_sub protected b) = builder_mask b @ replicate protected False"
proof -
  assume p: "protected < 2 ^ 32"
  obtain subs r where r: "full_runs (sb_acc b) = (subs, r)" by fastforce
  note m = full_runs_mask [OF r]
  have "unat (word_of_nat protected :: u32) = protected" "unat (word_of_nat r :: u16) = r"
    using p m by (simp_all add: unat_of_nat)
  then show ?thesis
    by (simp add: push_sub_def r builder_mask_def sub_mask_def conjunct2 [OF m, symmetric])
qed

lemma push_sub_simps [simp]: "sb_acc (push_sub p b) = 0" "sb_align (push_sub p b) = sb_align b" "sb_subs (push_sub p b) \<noteq> []"
  by (simp_all add: push_sub_def split: prod.split)

lemma add_sub_mask:
  "protected < 2 ^ 32 \<Longrightarrow> builder_mask (add_sub clear protected b) = builder_mask b @ unit_mask (sb_align b) clear protected"
proof -
  have grow: "builder_mask (b\<lparr>sb_acc := sb_acc b + c\<rparr>) = builder_mask b @ replicate c True" for c
    by (simp add: builder_mask_def replicate_add)
  have "builder_mask (let b = b\<lparr>sb_acc := sb_acc b + c\<rparr> in if p > 0 then push_sub p b else b)
      = builder_mask b @ replicate c True @ replicate p False" if "p < 2 ^ 32" for c p
    using that by (simp add: Let_def push_sub_mask grow)
  note step = this [of protected clear] this [of "protected - protected mod 16" "clear + protected mod 16"]
  assume "protected < 2 ^ 32"
  with step show ?thesis by (simp add: add_sub_def unit_mask_def)
qed

lemma sb_align_add [simp]: "sb_align (add_sub c p b) = sb_align b"
  by (simp add: add_sub_def Let_def split: prod.split)

lemma done_subs_mask: "subs_mask (done_subs b) = builder_mask b"
  using push_sub_mask [of 0 b] by (auto simp: done_subs_def builder_mask_def)

lemma done_subs_not_Nil: "done_subs b \<noteq> []"
  by (auto simp: done_subs_def)

text \<open>Every subsample protects whole blocks.\<close>

definition blocks_ok :: "bool \<Rightarrow> cencSubsample list \<Rightarrow> bool" where
  "blocks_ok whole subs \<longleftrightarrow> (whole \<longrightarrow> list_all (\<lambda>s. unat (sub_protected s) mod 16 = 0) subs)"

lemma full_runs_blocks: "full_runs acc = (subs, r) \<Longrightarrow> list_all (\<lambda>s. sub_protected s = 0) subs"
proof (induction acc arbitrary: subs r rule: full_runs.induct)
  case (1 acc)
  then show ?case by (subst (asm) (2) full_runs.simps) (auto split: if_splits prod.splits)
qed

lemma push_sub_blocks:
  "blocks_ok w (sb_subs b) \<Longrightarrow> protected < 2 ^ 32 \<Longrightarrow> (w \<longrightarrow> protected mod 16 = 0) \<Longrightarrow> blocks_ok w (sb_subs (push_sub protected b))"
proof -
  assume a: "blocks_ok w (sb_subs b)" "protected < 2 ^ 32" "w \<longrightarrow> protected mod 16 = 0"
  obtain subs r where r: "full_runs (sb_acc b) = (subs, r)" by fastforce
  have "unat (word_of_nat protected :: u32) = protected" using a(2) by (simp add: unat_of_nat)
  moreover have "list_all (\<lambda>s. unat (sub_protected s) mod 16 = 0) subs"
    using full_runs_blocks [OF r] by (simp add: list_all_iff)
  ultimately show ?thesis using a by (simp add: push_sub_def r blocks_ok_def)
qed

lemma add_sub_blocks:
  "blocks_ok (sb_align b) (sb_subs b) \<Longrightarrow> protected < 2 ^ 32 \<Longrightarrow> blocks_ok (sb_align b) (sb_subs (add_sub clear protected b))"
  using push_sub_blocks [of "sb_align b" "b\<lparr>sb_acc := sb_acc b + c\<rparr>" p for c p]
  by (auto simp: add_sub_def Let_def minus_mod_eq_mult_div)

lemma done_subs_blocks: "blocks_ok w (sb_subs b) \<Longrightarrow> blocks_ok w (done_subs b)"
  using push_sub_blocks [of w b 0] by (auto simp: done_subs_def)

section \<open>The layout of a sample\<close>

text \<open>
  What the layout of a sample has to be: its NAL units in order, each with its length field and the
  bytes \<open>clearLen\<close> names in the clear.
\<close>

inductive sample_layout :: "bytes \<Rightarrow> h26xSplitter \<Rightarrow> bool list \<Rightarrow> h26xSplitter \<Rightarrow> bool" where
  empty: "sample_layout [] s [] s"
| unit: "next_nal (sp_lenSize s) sample = Inr (nal, rest) \<Longrightarrow> clearLen nal s = Inr (clear, s') \<Longrightarrow>
    sample_layout rest s' m s'' \<Longrightarrow> sample \<noteq> [] \<Longrightarrow>
    sample_layout sample s (unit_mask (sp_align s) (sp_lenSize s + clear) (length nal - clear) @ m) s''"

lemma next_nal_sizes:
  "next_nal lenSize sample = Inr (nal, rest) \<Longrightarrow> length sample = lenSize + length nal + length rest"
  by (auto simp: next_nal_def Let_def slice_def split: if_splits)

lemma learn_fields: "learn nal s = Inr s' \<Longrightarrow> sp_lenSize s' = sp_lenSize s \<and> sp_align s' = sp_align s \<and> sp_hevc s' = sp_hevc s"
  by (auto simp: learn_def bind_r_Inr split: if_splits)

lemma avcSliceHeaderLen_drop: "avcSliceHeaderLen sets (drop (Suc 0) nal) t i = Inr n \<Longrightarrow> nal \<noteq> [] \<Longrightarrow> Suc n \<le> length nal"
  by (cases nal) (auto dest: avcSliceHeaderLen_bound)

lemma hevcSliceHeaderLen_drop: "hevcSliceHeaderLen sets (drop 2 nal) t = Inr n \<Longrightarrow> \<not> length nal < 2 \<Longrightarrow> Suc (Suc n) \<le> length nal"
  by (auto dest: hevcSliceHeaderLen_bound)

lemma clearLen_fields:
  assumes "clearLen nal s = Inr (clear, s')"
  shows "sp_lenSize s' = sp_lenSize s" "sp_align s' = sp_align s" "sp_hevc s' = sp_hevc s" "clear \<le> length nal"
  using assms
  by (auto simp: clearLen_def Let_def bind_r_Inr split: if_splits
      dest: learn_fields avcSliceHeaderLen_drop hevcSliceHeaderLen_drop)

lemma split_loop_layout:
  "split_loop fuel sample s b = Some (Inr (b', s')) \<Longrightarrow> length sample < 2 ^ 32 \<Longrightarrow> sb_align b = sp_align s \<Longrightarrow>
   blocks_ok (sb_align b) (sb_subs b) \<Longrightarrow>
   \<exists>m. sample_layout sample s m s' \<and> builder_mask b' = builder_mask b @ m \<and> length m = length sample \<and>
       blocks_ok (sp_align s) (sb_subs b')"
proof (induction fuel sample s b rule: split_loop.induct)
  case (1 fuel s b)
  then show ?case by (intro exI [of _ "[]"]) (simp add: sample_layout.empty)
next
  case (2 v va s b)
  then show ?case by simp
next
  case (3 fuel v va s b)
  obtain nal rest clear s1 where nal: "next_nal (sp_lenSize s) (v # va) = Inr (nal, rest)"
    and clear: "clearLen nal s = Inr (clear, s1)"
    and rec: "split_loop fuel rest s1 (add_sub (sp_lenSize s1 + clear) (length nal - clear) b) = Some (Inr (b', s'))"
    using "3.prems"(1) by (auto split: sum.splits)
  note sizes = next_nal_sizes [OF nal] and fields = clearLen_fields [OF clear]
  have p: "length nal - clear < 2 ^ 32" using sizes "3.prems"(2) by simp
  have "\<exists>m. sample_layout rest s1 m s' \<and>
      builder_mask b' = builder_mask (add_sub (sp_lenSize s1 + clear) (length nal - clear) b) @ m \<and>
      length m = length rest \<and> blocks_ok (sp_align s1) (sb_subs b')"
  proof (rule "3.IH" [OF nal refl clear refl rec])
    show "length rest < 2 ^ 32" using sizes "3.prems"(2) by simp
    show "sb_align (add_sub (sp_lenSize s1 + clear) (length nal - clear) b) = sp_align s1"
      using fields "3.prems"(3) by simp
    show "blocks_ok (sb_align (add_sub (sp_lenSize s1 + clear) (length nal - clear) b))
       (sb_subs (add_sub (sp_lenSize s1 + clear) (length nal - clear) b))"
      unfolding sb_align_add by (rule add_sub_blocks [OF "3.prems"(4) p])
  qed
  then obtain m where "sample_layout rest s1 m s'" "length m = length rest" "blocks_ok (sp_align s1) (sb_subs b')"
    "builder_mask b' = builder_mask (add_sub (sp_lenSize s1 + clear) (length nal - clear) b) @ m" by blast
  note m = this
  show ?case
  proof (intro exI conjI)
    show "sample_layout (v # va) s (unit_mask (sp_align s) (sp_lenSize s + clear) (length nal - clear) @ m) s'"
      by (rule sample_layout.unit [OF nal clear m(1)]) simp
    show "builder_mask b' = builder_mask b @ unit_mask (sp_align s) (sp_lenSize s + clear) (length nal - clear) @ m"
      unfolding m(4) add_sub_mask [OF p] using fields(1) "3.prems"(3) by simp
    show "length (unit_mask (sp_align s) (sp_lenSize s + clear) (length nal - clear) @ m) = length (v # va)"
      using sizes fields(4) m(2) by simp
    show "blocks_ok (sp_align s) (sb_subs b')" using m(3) fields(2) by simp
  qed
qed

lemma split_loop_total: "0 < sp_lenSize s \<Longrightarrow> length sample \<le> fuel \<Longrightarrow> split_loop fuel sample s b \<noteq> None"
proof (induction fuel sample s b rule: split_loop.induct)
  case (3 fuel v va s b)
  show ?case
  proof (cases "\<exists>nal rest clear s1. next_nal (sp_lenSize s) (v # va) = Inr (nal, rest) \<and> clearLen nal s = Inr (clear, s1)")
    case True
    then obtain nal rest clear s1 where nal: "next_nal (sp_lenSize s) (v # va) = Inr (nal, rest)"
      and clear: "clearLen nal s = Inr (clear, s1)" by blast
    have "split_loop fuel rest s1 (add_sub (sp_lenSize s1 + clear) (length nal - clear) b) \<noteq> None"
    proof (rule "3.IH" [OF nal refl clear refl])
      show "0 < sp_lenSize s1" using "3.prems"(1) clearLen_fields(1) [OF clear] by simp
      show "length rest \<le> fuel" using "3.prems" next_nal_sizes [OF nal] by simp
    qed
    then show ?thesis by (simp add: nal clear)
  next
    case False
    then show ?thesis by (auto split: sum.split)
  qed
qed auto
lemma split_h26x_layout:
  assumes "split_h26x sample s = Some (Inr (subs, s'))" "length sample < 2 ^ 32"
  shows "sample_layout sample s (subs_mask subs) s' \<and> length (subs_mask subs) = length sample \<and>
         blocks_ok (sp_align s) subs \<and> subs \<noteq> []"
proof -
  let ?b = "\<lparr>sb_align = sp_align s, sb_acc = 0, sb_subs = []\<rparr>"
  obtain b where b: "split_loop (length sample) sample s ?b = Some (Inr (b, s'))" "subs = done_subs b"
    using assms(1) by (auto simp: split_h26x_def bind_r_Inr)
  have "blocks_ok (sp_align s) []" by (simp add: blocks_ok_def)
  then obtain m where "sample_layout sample s m s'" "builder_mask b = builder_mask ?b @ m" "length m = length sample"
      "blocks_ok (sp_align s) (sb_subs b)"
    using split_loop_layout [OF b(1) assms(2)] by auto
  then show ?thesis
    using done_subs_mask [of b] done_subs_blocks [of "sp_align s" b] done_subs_not_Nil [of b] b(2)
    by (simp add: builder_mask_def)
qed

section \<open>The splitter's state\<close>

definition hevc_sets_ok :: "hevc_sets \<Rightarrow> bool" where
  "hevc_sets_ok sets \<longleftrightarrow>
     (\<forall>i s. fst sets i = Some s \<longrightarrow> i \<le> 15 \<and> hevcSPS_ok s) \<and> (\<forall>i p. snd sets i = Some p \<longrightarrow> i \<le> 63 \<and> hevcPPS_ok p)"

definition splitter_ok :: "h26xSplitter \<Rightarrow> bool" where
  "splitter_ok s \<longleftrightarrow> sp_lenSize s \<in> {1, 2, 4} \<and> avc_sets_ok (sp_avc s) \<and> hevc_sets_ok (sp_hevcs s)"

lemma learn_avc_ok: "avc_sets_ok sets \<Longrightarrow> avc_sets_ok (learn_avc nal sets)"
  using parseAVCSPS_ok parseAVCPPS_ok
  by (auto simp: learn_avc_def Let_def avc_sets_ok_def split: option.splits prod.splits) (metis prod.collapse)+

lemma learn_hevc_ok: "hevc_sets_ok sets \<Longrightarrow> \<exists>sets'. learn_hevc nal sets = Inr sets' \<and> hevc_sets_ok sets'"
proof -
  assume ok: "hevc_sets_ok sets"
  obtain w where w: "fst (run_state parseHEVCSPS (newNALReader (drop 2 nal))) = Inr w"
      "\<forall>i s. w = Some (i, s) \<longrightarrow> i \<le> 15 \<and> hevcSPS_ok s"
    using spec [OF parseHEVCSPS_ok [unfolded answers_def], of "newNALReader (drop 2 nal)"] by blast
  have p: "\<forall>i p. fst (run_state parseHEVCPPS (newNALReader (drop 2 nal))) = Some (i, p) \<longrightarrow> i \<le> 63 \<and> hevcPPS_ok p"
    using parseHEVCPPS_ok by (auto simp: answers_def)
  obtain f g where sets: "sets = (f, g)" by fastforce
  show ?thesis
    using ok w p unfolding sets
    by (cases w) (auto simp: learn_hevc_def Let_def hevc_sets_ok_def split: option.split)
qed

lemma learn_ok: "splitter_ok s \<Longrightarrow> \<exists>s'. learn nal s = Inr s' \<and> splitter_ok s'"
  using learn_avc_ok [of "sp_avc s" nal] learn_hevc_ok [of "sp_hevcs s" nal]
  by (auto simp: learn_def splitter_ok_def)

lemma learn_all_ok: "splitter_ok s \<Longrightarrow> \<exists>s'. learn_all nals s = Inr s' \<and> splitter_ok s'"
proof (induction nals arbitrary: s)
  case (Cons nal nals)
  then show ?case using learn_ok [of s nal] by fastforce
qed simp

lemma config_lenSize: "configParameterSets hevc private = Some (sets, n) \<Longrightarrow> 1 \<le> n \<and> n \<le> 4"
proof -
  have "unat (b AND 3) < 4" for b :: byte
  proof -
    have "b AND 3 \<le> 3" by (rule word_and_le1)
    then have "unat (b AND 3) \<le> 3" by (simp add: word_le_nat_alt)
    then show ?thesis by linarith
  qed
  then show "configParameterSets hevc private = Some (sets, n) \<Longrightarrow> 1 \<le> n \<and> n \<le> 4"
    by (auto simp: configParameterSets_def Suc_le_eq split: if_splits)
qed

lemma newH26xSplitter_ok: "newH26xSplitter codec private scheme = Inr s \<Longrightarrow> splitter_ok s"
proof -
  define s0 where "s0 = \<lparr>sp_hevc = (codec = ''hevc''), sp_lenSize = 4, sp_align = (scheme = ''cenc''),
               sp_avc = (\<lambda>_. None, \<lambda>_. None), sp_hevcs = (\<lambda>_. None, \<lambda>_. None)\<rparr>"
  assume new: "newH26xSplitter codec private scheme = Inr s"
  have s0: "splitter_ok s0" by (simp add: s0_def splitter_ok_def avc_sets_ok_def hevc_sets_ok_def)
  show ?thesis
  proof (cases "configParameterSets (sp_hevc s0) private")
    case None
    then show ?thesis using new s0 by (simp add: newH26xSplitter_def Let_def flip: s0_def)
  next
    case (Some c)
    obtain sets n where c: "c = (sets, n)" by fastforce
    with new Some have n: "n \<noteq> 3" and l: "learn_all sets (s0\<lparr>sp_lenSize := n\<rparr>) = Inr s"
      by (auto simp: newH26xSplitter_def Let_def simp flip: s0_def split: if_splits)
    have "1 \<le> n \<and> n \<le> 4" using config_lenSize Some c by blast
    with n have "n = 1 \<or> n = 2 \<or> n = 4" by linarith
    then have "n \<in> {1, 2, 4}" by simp
    then have "splitter_ok (s0\<lparr>sp_lenSize := n\<rparr>)" using s0 by (simp add: splitter_ok_def)
    from learn_all_ok [OF this, of sets] l show ?thesis by auto
  qed
qed

lemma clearLen_ok: "splitter_ok s \<Longrightarrow> clearLen nal s = Inr (c, s') \<Longrightarrow> splitter_ok s'"
  using learn_ok [of s nal] by (auto simp: clearLen_def Let_def bind_r_Inr split: if_splits)

lemma sample_layout_ok: "sample_layout sample s m s' \<Longrightarrow> splitter_ok s \<Longrightarrow> splitter_ok s'"
  by (induction rule: sample_layout.induct) (auto dest: clearLen_ok)

lemma clearLen_quiet: "splitter_ok s \<Longrightarrow> clearLen nal s \<noteq> Inl Panic"
proof -
  assume "splitter_ok s"
  then obtain s' where "learn nal s = Inr s'" using learn_ok by blast
  moreover have "bind_r (avcSliceHeaderLen sets p t i) f \<noteq> Inl Panic" if "\<And>x. f x \<noteq> Inl Panic" for sets p t i and f :: "nat \<Rightarrow> (nat \<times> h26xSplitter) result"
    using that avcSliceHeaderLen_no_panic [of sets p t i] by (cases "avcSliceHeaderLen sets p t i") auto
  moreover have "bind_r (hevcSliceHeaderLen sets p t) f \<noteq> Inl Panic" if "\<And>x. f x \<noteq> Inl Panic" for sets p t and f :: "nat \<Rightarrow> (nat \<times> h26xSplitter) result"
    using that hevcSliceHeaderLen_no_panic [of sets p t] by (cases "hevcSliceHeaderLen sets p t") auto
  ultimately show ?thesis by (simp add: clearLen_def Let_def)
qed

lemma split_loop_quiet: "splitter_ok s \<Longrightarrow> split_loop fuel sample s b \<noteq> Some (Inl Panic)"
proof (induction fuel sample s b rule: split_loop.induct)
  case (3 fuel v va s b)
  have "next_nal (sp_lenSize s) (v # va) \<noteq> Inl Panic" by (auto simp: next_nal_def Let_def)
  moreover have "clearLen nal s \<noteq> Inl Panic" for nal using clearLen_quiet [OF "3.prems"] .
  ultimately show ?case
    using 3 clearLen_ok [OF "3.prems"] by (auto split: sum.split prod.split)
qed simp_all
section \<open>Properties\<close>

text \<open>C16.
  The subsamples of a H.264 or HEVC sample (below 4 GiB) are, byte for byte, the layout of its NAL
  units: each unit's length field and the bytes \<open>clearLen\<close> names clear, the rest protected.  They cover
  the sample exactly, so that none of their 16 and 32-bit fields lost a bit, and under 'cenc' each
  protects whole blocks of 16 bytes.
\<close>

theorem split_exact:
  assumes "split_h26x sample s = Some (Inr (subs, s'))" "length sample < 2 ^ 32"
  shows "sample_layout sample s (subs_mask subs) s' \<and> length (subs_mask subs) = length sample \<and>
         blocks_ok (sp_align s) subs \<and> subs \<noteq> []"
  using assms by (rule split_h26x_layout)

text \<open>An access unit delimiter, then the intra slice of AvcHeader with 18 bytes of slice data.\<close>

definition ex_splitter :: h26xSplitter where
  "ex_splitter = \<lparr>sp_hevc = False, sp_lenSize = 1, sp_align = True, sp_avc = ([0 \<mapsto> ex_sps], [0 \<mapsto> ex_pps]),
     sp_hevcs = (\<lambda>_. None, \<lambda>_. None)\<rparr>"

definition ex_sample :: bytes where
  "ex_sample = [2, 9, 16, 26, 0x65, 136, 132, 56, 0, 0, 3, 1, 1, 2, 3, 4, 5, 6, 7, 8, 9, 10, 11, 12, 13, 14, 15, 16, 17, 18]"

text \<open>What the header's length depends on is only the start of the payload.\<close>

lemma ex_slice_len: "avcSliceHeaderLen ([0 \<mapsto> ex_sps], [0 \<mapsto> ex_pps]) (ex_payload @ data) 5 3 = Inr 3"
proof -
  have "unescape 0 (ex_payload @ data) = unescape 0 ex_payload @ unescape (zeros_after 0 ex_payload) data"
    by (rule unescape_append)
  then have bits: "concat (map byte_bits (unescape 0 (ex_payload @ data))) = avc_header_bits ex_sps ex_pps 5 3 ex_header @
      (ex_rest @ concat (map byte_bits (unescape (zeros_after 0 ex_payload) data)))"
    using ex_payload_bits by simp
  have "\<exists>n. avcSliceHeaderLen ([0 \<mapsto> ex_sps], [0 \<mapsto> ex_pps]) (ex_payload @ data) 5 3 = Inr n \<and>
      holds_bits (ex_payload @ data) n (length (avc_header_bits ex_sps ex_pps 5 3 ex_header))"
    by (rule avc_header_length [OF _ _ _ ex_header_ok bits]) (simp_all add: ex_defs)
  moreover have "length (avc_header_bits ex_sps ex_pps 5 3 ex_header) = 21" by (simp add: ex_header_bits)
  ultimately obtain n where n: "avcSliceHeaderLen ([0 \<mapsto> ex_sps], [0 \<mapsto> ex_pps]) (ex_payload @ data) 5 3 = Inr n"
      "holds_bits (ex_payload @ data) n 21" by auto
  have "n = 3"
  proof (cases "n < 4")
    case True
    then have "n = 0 \<or> n = 1 \<or> n = 2 \<or> n = 3" by auto
    then show ?thesis using n(2) by (elim disjE) (simp_all add: holds_bits_def ex_payload_def)
  next
    case False
    then obtain k where "n = 4 + k" by (metis le_Suc_ex not_less)
    then have "n = Suc (Suc (Suc (Suc k)))" by simp
    then have "32 \<le> 8 * length (unescape 0 (take n (ex_payload @ data)))"
      by (simp add: ex_payload_def)
    then show ?thesis using n(2) by (simp add: holds_bits_def)
  qed
  then show ?thesis using n(1) by simp
qed

lemma ex_split: "split_h26x ex_sample ex_splitter = Some (Inr ([\<lparr>sub_clear = 14, sub_protected = 16\<rparr>], ex_splitter))"
proof -
  have "clearLen (0x65 # ex_payload @ data) ex_splitter = Inr (4, ex_splitter)" for data
    using ex_slice_len [of data] by (simp add: clearLen_def ex_splitter_def Let_def)
  from this [of "[1, 2, 3, 4, 5, 6, 7, 8, 9, 10, 11, 12, 13, 14, 15, 16, 17, 18]"]
  have slice: "clearLen [0x65, 136, 132, 56, 0, 0, 3, 1, 1, 2, 3, 4, 5, 6, 7, 8, 9, 10, 11, 12, 13, 14, 15, 16, 17, 18] ex_splitter
      = Inr (4, ex_splitter)"
    by (simp add: ex_payload_def)
  have aud: "clearLen [9, 16] ex_splitter = Inr (2, ex_splitter)"
    by (simp add: clearLen_def ex_splitter_def Let_def learn_def learn_avc_def)
  have sizes: "sp_lenSize ex_splitter = 1" "sp_align ex_splitter"
    by (simp_all add: ex_splitter_def)
  define unit2 :: bytes where
    "unit2 = [0x65, 136, 132, 56, 0, 0, 3, 1, 1, 2, 3, 4, 5, 6, 7, 8, 9, 10, 11, 12, 13, 14, 15, 16, 17, 18]"
  have one: "next_nal 1 ex_sample = Inr ([9, 16], 26 # unit2)" and two: "next_nal 1 (26 # unit2) = Inr (unit2, [])"
    by (simp_all add: next_nal_def ex_sample_def be_dec_def slice_def unit2_def)
  have sample: "ex_sample = 2 # [9, 16] @ 26 # unit2" and len: "length unit2 = 26" by (simp_all add: ex_sample_def unit2_def)
  have loop: "split_loop (Suc (Suc 28)) ex_sample ex_splitter b
      = Some (Inr (add_sub (1 + 4) (26 - 4) (add_sub (1 + 2) (2 - 2) b), ex_splitter))" for b
    unfolding sample split_loop.simps sizes one [unfolded sample] sum.case prod.case aud two slice [folded unit2_def] len
    by simp
  have subs: "done_subs (add_sub (1 + 4) (26 - 4) (add_sub (1 + 2) (2 - 2) \<lparr>sb_align = True, sb_acc = 0, sb_subs = []\<rparr>))
      = [\<lparr>sub_clear = 14, sub_protected = 16\<rparr>]"
    by (simp add: add_sub_def push_sub_def done_subs_def full_runs.simps)
  have "length ex_sample = Suc (Suc 28)" and "sp_align ex_splitter = True" by (simp_all add: ex_sample_def sizes)
  then show ?thesis
    unfolding split_h26x_def by (simp only: loop option.map bind_r_simps prod.case subs)
qed

theorem split_exact_witness:
  "sample_layout ex_sample ex_splitter (replicate 14 True @ replicate 16 False) ex_splitter"
  using split_exact [OF ex_split] by (simp add: ex_sample_def sub_mask_def)


end
