(* ===== verification/Cenc.thy ===== *)
theory Cenc
  imports CencIV CencSplit
begin

text \<open>
  Common Encryption of one track's samples, the rest of mp4/cenc.go: AES-CTR over the protected bytes
  of a sample, AES-CBC over its 1:9 pattern, the senc entries and their limit of 255 bytes, and the
  boxes tenc, sinf, senc, saiz and saio.  The block cipher is an argument, as \<^verbatim>\<open>cipher.Block\<close> is one in
  the code, and so is the subsample splitter, the interface \<^verbatim>\<open>videoSubsampleSplitter\<close>; the locale below
  states what a splitter promises, and H.264 and HEVC keep it.
\<close>

type_synonym blockFn = "bytes \<Rightarrow> bytes"

section \<open>AES-CTR\<close>

text \<open>The key stream from its \<open>o\<close>-th byte on, laid over \<open>bs\<close>: \<^verbatim>\<open>cipher.NewCTR\<close> and \<^verbatim>\<open>XORKeyStream\<close>.\<close>

definition key_byte :: "blockFn \<Rightarrow> bytes \<Rightarrow> nat \<Rightarrow> byte" where
  "key_byte E cb n = E (ctr_block cb (n div 16)) ! (n mod 16)"

fun xor_stream :: "blockFn \<Rightarrow> bytes \<Rightarrow> nat \<Rightarrow> bytes \<Rightarrow> bytes" where
  "xor_stream E cb n [] = []"
| "xor_stream E cb n (b # bs) = (b XOR key_byte E cb n) # xor_stream E cb (Suc n) bs"

text \<open>\<open>new\<close> written over the bytes from \<open>pos\<close> on.\<close>

definition splice :: "nat \<Rightarrow> bytes \<Rightarrow> bytes \<Rightarrow> bytes" where
  "splice pos new xs = take pos xs @ new @ drop (pos + length new) xs"

text \<open>
  The loop over the subsamples that both schemes have, \<open>f\<close> encrypting a protected region; \<open>pos\<close> is where
  it is in the sample, \<open>n\<close> how many protected bytes came before.
\<close>

fun walk_subs :: "(nat \<Rightarrow> bytes \<Rightarrow> bytes) \<Rightarrow> nat \<Rightarrow> nat \<Rightarrow> bytes \<Rightarrow> cencSubsample list \<Rightarrow> bytes result" where
  "walk_subs f pos n sample [] = Inr sample"
| "walk_subs f pos n sample (s # ss) =
     (let pos = pos + unat (sub_clear s); p = unat (sub_protected s) in
      if p > 0 then
        (if pos + p > length sample then Inl Panic
         else walk_subs f (pos + p) (n + p) (splice pos (f n (slice pos (pos + p) sample)) sample) ss)
      else walk_subs f pos n sample ss)"

definition cencCTREncrypt :: "blockFn \<Rightarrow> bytes \<Rightarrow> bytes \<Rightarrow> cencSubsample list option \<Rightarrow> bytes result" where
  "cencCTREncrypt E cb sample subs =
     (case subs of None \<Rightarrow> Inr (xor_stream E cb 0 sample) | Some subs \<Rightarrow> walk_subs (xor_stream E cb) 0 0 sample subs)"

section \<open>AES-CBC under a pattern\<close>

definition xor_bytes :: "bytes \<Rightarrow> bytes \<Rightarrow> bytes" where
  "xor_bytes xs ys = map2 (XOR) xs ys"

text \<open>One block of CBC: what it becomes and the chain value after it.\<close>

definition cbc_step :: "blockFn \<Rightarrow> bytes \<Rightarrow> bytes \<Rightarrow> bytes \<times> bytes" where
  "cbc_step E chain blk = (let out = E (xor_bytes blk chain) in (out, out))"

text \<open>A crypt run of \<open>n\<close> blocks: its bytes after it, the chain value, and the rest of the region.\<close>

fun cbc_run :: "(bytes \<Rightarrow> bytes \<Rightarrow> bytes \<times> bytes) \<Rightarrow> nat \<Rightarrow> bytes \<Rightarrow> bytes \<Rightarrow> bytes \<times> bytes \<times> bytes" where
  "cbc_run step 0 chain region = ([], chain, region)"
| "cbc_run step (Suc n) chain region =
     (let (out, chain) = step chain (take 16 region);
          (outs, chain, rest) = cbc_run step n chain (drop 16 region)
      in (out @ outs, chain, rest))"

lemma cbc_run_rest: "snd (snd (cbc_run step n chain region)) = drop (16 * n) region"
  by (induction n arbitrary: chain region) (simp_all add: Let_def case_prod_beta add.commute)

text \<open>The loop over the full blocks of a region, from its rest on; the last, partial block stays clear.\<close>

function pattern_loop :: "(bytes \<Rightarrow> bytes \<Rightarrow> bytes \<times> bytes) \<Rightarrow> nat \<Rightarrow> nat \<Rightarrow> bytes \<Rightarrow> bytes \<Rightarrow> bytes" where
  "pattern_loop step cryptBlocks skipBlocks chain region =
     (if length region < 16 then region
      else let n = min cryptBlocks (length region div 16);
               (out, chain', rest) = cbc_run step n chain region
           in if skipBlocks = 0 then
                (if n = 0 then rest else out @ pattern_loop step cryptBlocks skipBlocks chain' rest)
              else let skip = 16 * min skipBlocks (length rest div 16)
                   in out @ take skip rest @ pattern_loop step cryptBlocks skipBlocks chain' (drop skip rest))"
  by pat_completeness auto
termination
proof (relation "measure (\<lambda>(step, c, s, chain, region). length region)", simp, goal_cases)
  case (1 step c s chain region n p out q chain' rest)
  then have "rest = drop (16 * n) region" using cbc_run_rest [of step n chain region] by (metis snd_conv)
  with 1 show ?case by (auto simp: not_less)
next
  case (2 step c s chain region n p out q chain' rest skip)
  then have rest: "rest = drop (16 * n) region" using cbc_run_rest [of step n chain region] by (metis snd_conv)
  have region: "16 \<le> length region" and skip: "skip = 16 * min s (length rest div 16)" and s: "s \<noteq> 0" using 2 by simp_all
  have "0 < 16 * n + skip"
  proof (cases "n = 0")
    case True
    then have "1 \<le> length rest div 16" using rest region by simp
    then show ?thesis using skip s by simp
  qed simp
  moreover have "length (drop skip rest) = length region - (16 * n + skip)" using rest by simp
  ultimately have "length (drop skip rest) < length region" using region by linarith
  then show ?case by simp
qed

declare pattern_loop.simps [simp del]

definition cbcsPatternEncrypt :: "blockFn \<Rightarrow> bytes \<Rightarrow> bytes \<Rightarrow> nat \<Rightarrow> nat \<Rightarrow> bytes" where
  "cbcsPatternEncrypt E iv region cryptBlocks skipBlocks = pattern_loop (cbc_step E) cryptBlocks skipBlocks iv region"

definition cbcsEncryptVideoSubsamples :: "blockFn \<Rightarrow> bytes \<Rightarrow> bytes \<Rightarrow> cencSubsample list option \<Rightarrow> bytes result" where
  "cbcsEncryptVideoSubsamples E iv sample subs =
     walk_subs (\<lambda>_ region. cbcsPatternEncrypt E iv region 1 9) 0 0 sample (case subs of None \<Rightarrow> [] | Some subs \<Rightarrow> subs)"

definition cbcsEncryptWholeSample :: "blockFn \<Rightarrow> bytes \<Rightarrow> bytes \<Rightarrow> bytes" where
  "cbcsEncryptWholeSample E iv sample = cbcsPatternEncrypt E iv sample (length sample div 16) 0"

section \<open>Sample entries\<close>

record sencEntry =
  e_iv :: bytes
  e_subs :: "cencSubsample list option"

record cencTrafData =
  td_hasSubsample :: bool
  td_entries :: "sencEntry list"

text \<open>The subsample to fold into the next: of those the next can take, the first that protects least.\<close>

definition folds :: "cencSubsample list \<Rightarrow> nat \<Rightarrow> bool" where
  "folds subs i \<longleftrightarrow>
     unat (sub_clear (subs ! Suc i)) + unat (sub_clear (subs ! i)) + unat (sub_protected (subs ! i)) \<le> 0xFFFF"

definition fold_better :: "cencSubsample list \<Rightarrow> nat option \<Rightarrow> nat \<Rightarrow> nat option" where
  "fold_better subs best i =
     (if \<not> folds subs i then best
      else case best of None \<Rightarrow> Some i
           | Some b \<Rightarrow> if sub_protected (subs ! i) < sub_protected (subs ! b) then Some i else best)"

definition fold_best :: "cencSubsample list \<Rightarrow> nat option" where
  "fold_best subs = foldl (fold_better subs) None [0..<length subs - 1]"

definition fold_at :: "nat \<Rightarrow> cencSubsample list \<Rightarrow> cencSubsample list" where
  "fold_at b subs =
     (let s = subs ! b; t = subs ! Suc b in
      take b subs @ t\<lparr>sub_clear := sub_clear t + (sub_clear s + ucast (sub_protected s))\<rparr> # drop (Suc (Suc b)) subs)"

lemma fold_best_Some: "fold_best subs = Some b \<Longrightarrow> Suc b < length subs \<and> folds subs b"
proof -
  have "\<forall>b. foldl (fold_better subs) None [0..<n] = Some b \<longrightarrow> b < n \<and> folds subs b" for n
    by (induction n) (auto simp: fold_better_def less_Suc_eq split: option.splits if_splits)
  then show "fold_best subs = Some b \<Longrightarrow> Suc b < length subs \<and> folds subs b"
    by (fastforce simp: fold_best_def)
qed

lemma length_fold_at: "Suc b < length subs \<Longrightarrow> length (fold_at b subs) = length subs - 1"
  by (simp add: fold_at_def Let_def)

function fold_loop :: "nat \<Rightarrow> cencSubsample list \<Rightarrow> cencSubsample list result" where
  "fold_loop maxSubs subs =
     (if length subs \<le> maxSubs then Inr subs
      else case fold_best subs of
             None \<Rightarrow> Inl (Errf ''a picture of NAL units too large to describe in one CENC entry'')
           | Some b \<Rightarrow> fold_loop maxSubs (fold_at b subs))"
  by pat_completeness auto
termination
  by (relation "measure (\<lambda>(m, subs). length subs)") (auto simp: length_fold_at dest!: fold_best_Some)

declare fold_loop.simps [simp del]

definition fitSaiz :: "cencSubsample list \<Rightarrow> nat \<Rightarrow> cencSubsample list result" where
  "fitSaiz subs ivLen = fold_loop ((255 - ivLen - 2) div 6) subs"

section \<open>The cipher of a track\<close>

type_synonym 's splitFn = "bytes \<Rightarrow> 's \<Rightarrow> (cencSubsample list \<times> 's) result"

text \<open>\<open>k_splitter\<close> is \<open>None\<close>, the nil interface, for a track that is no video.\<close>

record 's cencCipher =
  k_c :: CENCOptions
  k_block :: blockFn
  k_isVideo :: bool
  k_domain :: u64
  k_splitter :: "'s option"
  k_trackID :: u64

text \<open>\<open>aes\<close> is \<^verbatim>\<open>aes.NewCipher\<close> on a key of a right length, \<open>newSplitter\<close> the codec's splitter.\<close>

definition newCENCCipher ::
  "(bytes \<Rightarrow> blockFn) \<Rightarrow> (string \<Rightarrow> bytes \<Rightarrow> string \<Rightarrow> 's result) \<Rightarrow> CENCOptions \<Rightarrow> bool \<Rightarrow> string \<Rightarrow> bytes \<Rightarrow> u64 \<Rightarrow> 's cencCipher result" where
  "newCENCCipher aes newSplitter c isVideo codec private trackID =
     (if length (c_Key c) \<notin> set [16, 24, 32] then Inl (Errf ''crypto/aes: invalid key size'')
      else if isVideo \<and> \<not> cencSupportsCodec codec then Inl (Errf ''cenc: video codec does not support subsample encryption'')
      else let k = \<lparr>k_c = c, k_block = aes (c_Key c), k_isVideo = isVideo, k_domain = cencIVDomain isVideo trackID,
                    k_splitter = None, k_trackID = trackID\<rparr> in
        if isVideo then bind_r (newSplitter codec private (c_Scheme c)) (\<lambda>s. Inr (k\<lparr>k_splitter := Some s\<rparr>)) else Inr k)"

definition entry_subs :: "'s splitFn \<Rightarrow> 's cencCipher \<Rightarrow> bytes \<Rightarrow> (cencSubsample list \<times> 's cencCipher) result" where
  "entry_subs split k sample =
     (case k_splitter k of
        None \<Rightarrow> Inl Panic
      | Some s \<Rightarrow> bind_r (split sample s) (\<lambda>(subs, s). Inr (subs, k\<lparr>k_splitter := Some s\<rparr>)))"

definition entry_iv :: "'s cencCipher \<Rightarrow> int \<Rightarrow> bytes result" where
  "entry_iv k srcOff =
     (if c_Scheme (k_c k) = scheme_cenc then
        (if srcOff \<le> 0 then Inl (Errf ''Options.CENC: samples with no place in the source'')
         else if srcOff \<ge> 2 ^ 48 then Inl (Errf ''Options.CENC: samples 256 TiB or more into the source'')
         else Inr (cencSampleIV (c_IV (k_c k)) srcOff (k_domain k)))
      else Inr [])"

definition cenc_entry :: "'s splitFn \<Rightarrow> 's cencCipher \<Rightarrow> bytes \<Rightarrow> int \<Rightarrow> (sencEntry \<times> 's cencCipher) result" where
  "cenc_entry split k sample srcOff =
     (if k_isVideo k then
        bind_r (entry_subs split k sample) (\<lambda>(subs, k').
        bind_r (entry_iv k srcOff) (\<lambda>iv.
        bind_r (fitSaiz subs (length iv)) (\<lambda>subs.
        Inr (\<lparr>e_iv = iv, e_subs = Some subs\<rparr>, k'))))
      else bind_r (entry_iv k srcOff) (\<lambda>iv. Inr (\<lparr>e_iv = iv, e_subs = None\<rparr>, k)))"

definition cenc_encrypt :: "'s cencCipher \<Rightarrow> bytes \<Rightarrow> sencEntry \<Rightarrow> bytes result" where
  "cenc_encrypt k sample e =
     (if c_Scheme (k_c k) = scheme_cenc then cencCTREncrypt (k_block k) (cencCounterBlock (e_iv e)) sample (e_subs e)
      else if k_isVideo k then cbcsEncryptVideoSubsamples (k_block k) (c_IV (k_c k)) sample (e_subs e)
      else Inr (cbcsEncryptWholeSample (k_block k) (c_IV (k_c k)) sample))"

record fragSample =
  fs_size :: u32
  fs_ptsMs :: int
  fs_blockPtsMs :: int
  fs_sync :: bool
  fs_dtsTS :: int
  fs_durTS :: int
  fs_ctsTS :: int
  fs_cut :: bool
  fs_srcOff :: int

text \<open>The loop over the samples of a segment; \<open>out\<close> holds the bytes of those that are left.\<close>

fun encrypt_samples :: "'s splitFn \<Rightarrow> 's cencCipher \<Rightarrow> fragSample list \<Rightarrow> bytes \<Rightarrow> (sencEntry list \<times> bytes) result" where
  "encrypt_samples split k [] out = Inr ([], out)"
| "encrypt_samples split k (s # ss) out =
     (let n = unat (fs_size s) in
      if n > length out then Inl Panic
      else bind_r (cenc_entry split k (take n out) (fs_srcOff s)) (\<lambda>(e, k).
           bind_r (cenc_encrypt k (take n out) e) (\<lambda>c.
           bind_r (encrypt_samples split k ss (drop n out)) (\<lambda>(es, cs). Inr (e # es, c @ cs)))))"

definition prepareCENCSegment ::
  "(bytes \<Rightarrow> blockFn) \<Rightarrow> (string \<Rightarrow> bytes \<Rightarrow> string \<Rightarrow> 's result) \<Rightarrow> 's splitFn \<Rightarrow> CENCOptions \<Rightarrow> bool \<Rightarrow> string \<Rightarrow> bytes \<Rightarrow>
   u64 \<Rightarrow> fragSample list \<Rightarrow> bytes \<Rightarrow> (cencTrafData \<times> bytes) result" where
  "prepareCENCSegment aes newSplitter split c isVideo codec private trackID ss data =
     bind_r (newCENCCipher aes newSplitter c isVideo codec private trackID) (\<lambda>k.
     bind_r (encrypt_samples split k ss data) (\<lambda>(es, out). Inr (\<lparr>td_hasSubsample = isVideo, td_entries = es\<rparr>, out)))"

section \<open>The ciphers undone\<close>

lemma length_xor_stream [simp]: "length (xor_stream E cb n bs) = length bs"
  by (induction bs arbitrary: n) simp_all

lemma xor_stream_twice [simp]: "xor_stream E cb n (xor_stream E cb n bs) = bs"
  by (induction bs arbitrary: n) (simp_all add: xor.assoc)

lemma xor_bytes_twice: "length xs = length ys \<Longrightarrow> xor_bytes (xor_bytes xs ys) ys = xs"
  by (induction xs ys rule: list_induct2) (simp_all add: xor_bytes_def xor.assoc)

lemma length_xor_bytes [simp]: "length (xor_bytes xs ys) = min (length xs) (length ys)"
  by (simp add: xor_bytes_def)

text \<open>One block of CBC decryption, with \<open>D\<close> the block cipher's inverse.\<close>

definition cbc_unstep :: "blockFn \<Rightarrow> bytes \<Rightarrow> bytes \<Rightarrow> bytes \<times> bytes" where
  "cbc_unstep D chain blk = (xor_bytes (D blk) chain, blk)"

definition inverse_block :: "blockFn \<Rightarrow> blockFn \<Rightarrow> bool" where
  "inverse_block E D \<longleftrightarrow> (\<forall>b. length b = 16 \<longrightarrow> length (E b) = 16 \<and> length (D b) = 16 \<and> D (E b) = b)"

lemma cbc_run_undo:
  assumes "inverse_block E D" "length chain = 16" "16 * n \<le> length region" "cbc_run (cbc_step E) n chain region = (out, chain', rest)"
  shows "length out = 16 * n \<and> length chain' = 16 \<and> cbc_run (cbc_unstep D) n chain (out @ tail) = (take (16 * n) region, chain', tail)"
  using assms(2-)
proof (induction n arbitrary: chain region out chain' rest)
  case (Suc n)
  define c where "c = E (xor_bytes (take 16 region) chain)"
  have "length (xor_bytes (take 16 region) chain) = 16" using Suc.prems by simp
  then have c: "length c = 16" "D c = xor_bytes (take 16 region) chain" using assms(1) by (simp_all add: c_def inverse_block_def)
  obtain out' chain'' rest' where run: "cbc_run (cbc_step E) n c (drop 16 region) = (out', chain'', rest')" by (metis prod_cases3)
  have "cbc_step E chain (take 16 region) = (c, c)" by (simp add: cbc_step_def c_def Let_def)
  then have out: "out = c @ out'" "cbc_run (cbc_step E) n c (drop 16 region) = (out', chain', rest)"
    using Suc.prems(3) run by simp_all
  have "16 * n \<le> length (drop 16 region)" using Suc.prems by simp
  note IH = Suc.IH [OF c(1) this out(2)]
  moreover have "xor_bytes (D c) chain = take 16 region" using c(2) Suc.prems by (simp add: xor_bytes_twice)
  moreover have "take (16 * Suc n) region = take 16 region @ take (16 * n) (drop 16 region)"
    using take_add [of 16 "16 * n" region] by simp
  ultimately show ?case using out c(1) by (simp add: cbc_unstep_def Let_def)
qed simp

lemma pattern_loop_undo:
  assumes E: "inverse_block E D" and chain: "length chain = 16"
  shows "length (pattern_loop (cbc_step E) c s chain region) = length region \<and>
         pattern_loop (cbc_unstep D) c s chain (pattern_loop (cbc_step E) c s chain region) = region"
  using chain
proof (induction "length region" arbitrary: chain region rule: less_induct)
  case less
  show ?case
  proof (cases "length region < 16")
    case True
    then show ?thesis by (simp add: pattern_loop.simps [of _ _ _ _ region])
  next
    case False
    define n where "n = min c (length region div 16)"
    obtain out chain' rest where run: "cbc_run (cbc_step E) n chain region = (out, chain', rest)" by (metis prod_cases3)
    have n: "16 * n \<le> length region" unfolding n_def by linarith
    have rest: "rest = drop (16 * n) region" using cbc_run_rest [of "cbc_step E" n chain region] run by simp
    note undo = cbc_run_undo [OF E less.prems n run]
    define skip where "skip = 16 * min s (length rest div 16)"
    have skip: "skip \<le> length rest" unfolding skip_def by linarith
    define out' where "out' = pattern_loop (cbc_step E) c s chain' (drop skip rest)"
    show ?thesis
    proof (cases "s = 0 \<and> n = 0")
      case True
      then have enc: "pattern_loop (cbc_step E) c s chain region = region"
        using False run rest by (simp add: pattern_loop.simps [of _ _ _ _ region] flip: n_def)
      have "pattern_loop (cbc_unstep D) c s chain region = region"
        using True False by (simp add: pattern_loop.simps [of _ _ _ _ region] flip: n_def)
      with enc show ?thesis by simp
    next
      case go: False
      have enc: "pattern_loop (cbc_step E) c s chain region = out @ take skip rest @ out'"
        using False go run
        by (cases "s = 0") (simp_all add: pattern_loop.simps [of _ _ _ _ region] Let_def skip_def out'_def flip: n_def)
      have "0 < 16 * n + skip"
      proof (cases "n = 0")
        case True
        then have "1 \<le> length rest div 16" using rest False by simp
        then show ?thesis using skip_def go True by simp
      qed simp
      moreover have "length (drop skip rest) = length region - (16 * n + skip)" using rest by simp
      ultimately have "length (drop skip rest) < length region" using False by linarith
      note IH = less.hyps [OF this, of chain', folded out'_def]
      have len: "length out' = length rest - skip" "length out = 16 * n" using IH undo by simp_all
      then have total: "length (out @ take skip rest @ out') = length region" using skip rest n by simp
      have "pattern_loop (cbc_unstep D) c s chain (out @ take skip rest @ out')
          = take (16 * n) region @ take skip rest @ pattern_loop (cbc_unstep D) c s chain' out'"
      proof -
        define r where "r = take skip rest @ out'"
        have l: "length (out @ r) div 16 = length region div 16" "\<not> length (out @ r) < 16"
          using total False by (simp_all add: r_def)
        have "length r = length rest" using len skip by (simp add: r_def)
        then have r: "16 * min s (length r div 16) = skip" "take skip r = take skip rest" "drop skip r = out'"
          using skip by (simp_all add: skip_def r_def)
        have run': "cbc_run (cbc_unstep D) n chain (out @ r) = (take (16 * n) region, chain', r)"
          using undo by blast
        have "pattern_loop (cbc_unstep D) c s chain (out @ r)
            = take (16 * n) region @ take skip r @ pattern_loop (cbc_unstep D) c s chain' (drop skip r)"
          unfolding pattern_loop.simps [of _ _ _ _ "out @ r"] l n_def [symmetric] Let_def run' prod.case r(1)
          using go l(2) r(1) by (cases "s = 0") simp_all
        then show ?thesis by (simp only: r_def [symmetric] r)
      qed
      also have "pattern_loop (cbc_unstep D) c s chain' out' = drop skip rest" using IH undo by blast
      also have "take (16 * n) region @ take skip rest @ drop skip rest = region" unfolding append_take_drop_id rest ..
      finally show ?thesis using enc total by simp
    qed
  qed
qed

section \<open>Walking the subsamples\<close>

text \<open>What the loop does to a sample its subsamples cover: each protected region by itself.\<close>

fun region_map :: "(nat \<Rightarrow> bytes \<Rightarrow> bytes) \<Rightarrow> nat \<Rightarrow> cencSubsample list \<Rightarrow> bytes \<Rightarrow> bytes" where
  "region_map f n [] xs = xs"
| "region_map f n (s # ss) xs =
     (let c = unat (sub_clear s); p = unat (sub_protected s) in
      take c xs @ (if p > 0 then f n (take p (drop c xs)) else []) @ region_map f (n + p) ss (drop (c + p) xs))"

lemma length_sub_mask [simp]: "length (sub_mask s) = unat (sub_clear s) + unat (sub_protected s)"
  by (simp add: sub_mask_def)

lemma walk_subs_region:
  assumes f: "\<And>n xs. length (f n xs) = length xs" and "length sample = pos + length (subs_mask ss)"
  shows "walk_subs f pos n sample ss = Inr (take pos sample @ region_map f n ss (drop pos sample))"
  using assms(2)
proof (induction ss arbitrary: pos n sample)
  case (Cons s ss)
  define c p where "c = unat (sub_clear s)" and "p = unat (sub_protected s)"
  have len: "length sample = pos + c + p + length (subs_mask ss)" using Cons.prems by (simp add: c_def p_def)
  show ?case
  proof (cases "p > 0")
    case True
    define out where "out = splice (pos + c) (f n (slice (pos + c) (pos + c + p) sample)) sample"
    have sl: "slice (pos + c) (pos + c + p) sample = take p (drop c (drop pos sample))" by (simp add: slice_def add.commute)
    have lf: "length (f n (slice (pos + c) (pos + c + p) sample)) = p" using f len by (simp add: length_slice)
    have parts: "length out = length sample" "take (pos + c + p) out = take (pos + c) sample @ f n (take p (drop c (drop pos sample)))"
      "drop (pos + c + p) out = drop (pos + c + p) sample"
      using lf len by (simp_all add: out_def splice_def sl)
    have "walk_subs f pos n sample (s # ss) = walk_subs f (pos + c + p) (n + p) out ss"
      using True len by (simp add: Let_def out_def flip: c_def p_def)
    also have "\<dots> = Inr (take (pos + c + p) out @ region_map f (n + p) ss (drop (pos + c + p) out))"
      by (rule Cons.IH) (simp add: parts(1) len)
    finally have walk: "walk_subs f pos n sample (s # ss) = Inr ((take (pos + c) sample @ f n (take p (drop c (drop pos sample))))
        @ region_map f (n + p) ss (drop (pos + c + p) sample))" unfolding parts .
    show ?thesis unfolding walk take_add [of pos c sample]
      using True by (simp add: Let_def add.commute add.left_commute flip: c_def p_def)
  next
    case False
    have "walk_subs f pos n sample (s # ss) = walk_subs f (pos + c) n sample ss"
      using False by (simp add: Let_def flip: c_def p_def)
    also have "\<dots> = Inr (take (pos + c) sample @ region_map f n ss (drop (pos + c) sample))"
      by (rule Cons.IH) (use False len in simp)
    finally have walk: "walk_subs f pos n sample (s # ss) = Inr (take (pos + c) sample @ region_map f n ss (drop (pos + c) sample))" .
    show ?thesis unfolding walk take_add [of pos c sample]
      using False by (simp add: Let_def add.commute flip: c_def p_def)
  qed
qed simp

lemma length_region_map:
  assumes "\<And>n xs. length (f n xs) = length xs"
  shows "length (subs_mask ss) = length xs \<Longrightarrow> length (region_map f n ss xs) = length xs"
proof (induction ss arbitrary: n xs)
  case (Cons s ss)
  then have "length (region_map f (n + unat (sub_protected s)) ss (drop (unat (sub_clear s) + unat (sub_protected s)) xs))
      = length xs - (unat (sub_clear s) + unat (sub_protected s))" by simp
  then show ?case using Cons.prems assms by (auto simp: Let_def)
qed simp

lemma region_map_undo:
  assumes f: "\<And>n xs. length (f n xs) = length xs" and g: "\<And>n xs. g n (f n xs) = xs"
  shows "length (subs_mask ss) = length xs \<Longrightarrow> region_map g n ss (region_map f n ss xs) = xs"
proof (induction ss arbitrary: n xs)
  case (Cons s ss)
  define c p where "c = unat (sub_clear s)" and "p = unat (sub_protected s)"
  have len: "length xs = c + p + length (subs_mask ss)" using Cons.prems by (simp add: c_def p_def)
  have IH: "region_map g (n + p) ss (region_map f (n + p) ss (drop (c + p) xs)) = drop (c + p) xs"
    using Cons.IH len by simp
  show ?case
  proof (cases "p > 0")
    case True
    have lf: "length (f n (take p (drop c xs))) = p" using f len by simp
    have "region_map f n (s # ss) xs = take c xs @ f n (take p (drop c xs)) @ region_map f (n + p) ss (drop (c + p) xs)"
      using True by (simp add: Let_def flip: c_def p_def)
    moreover have "take p (drop c xs) @ drop (c + p) xs = drop c xs"
      using append_take_drop_id [of p "drop c xs"] by (simp add: add.commute)
    ultimately show ?thesis using True lf len IH g
      by (simp add: Let_def flip: c_def p_def)
  next
    case False
    then show ?thesis using IH len by (simp add: Let_def flip: c_def p_def)
  qed
qed simp

text \<open>The bytes a mask keeps clear are the same in two samples.\<close>

definition kept :: "bool list \<Rightarrow> bytes \<Rightarrow> bytes \<Rightarrow> bool" where
  "kept m xs ys \<longleftrightarrow> length xs = length ys \<and> list_all2 (\<lambda>clear p. clear \<longrightarrow> fst p = snd p) m (zip xs ys)"

lemma kept_append: "kept m xs ys \<Longrightarrow> kept m' xs' ys' \<Longrightarrow> kept (m @ m') (xs @ xs') (ys @ ys')"
  by (simp add: kept_def list_all2_appendI)

lemma kept_same: "length m = length xs \<Longrightarrow> kept m xs xs"
  by (auto simp: kept_def list_all2_conv_all_nth)

lemma kept_protected: "length xs = length ys \<Longrightarrow> length ys = n \<Longrightarrow> kept (replicate n False) xs ys"
  by (auto simp: kept_def list_all2_conv_all_nth)

lemma kept_nth: "kept m xs ys \<Longrightarrow> i < length xs \<Longrightarrow> m ! i \<Longrightarrow> ys ! i = xs ! i"
  by (auto simp: kept_def list_all2_conv_all_nth)

lemma region_map_kept:
  assumes f: "\<And>n xs. length (f n xs) = length xs"
  shows "length (subs_mask ss) = length xs \<Longrightarrow> kept (subs_mask ss) xs (region_map f n ss xs)"
proof (induction ss arbitrary: n xs)
  case Nil
  then show ?case by (simp add: kept_def)
next
  case (Cons s ss)
  define c p where "c = unat (sub_clear s)" and "p = unat (sub_protected s)"
  have len: "length xs = c + p + length (subs_mask ss)" using Cons.prems by (simp add: c_def p_def)
  have xs: "xs = take c xs @ take p (drop c xs) @ drop (c + p) xs"
    using append_take_drop_id [of c xs] append_take_drop_id [of p "drop c xs"] by (simp add: add.commute)
  have "kept ((replicate c True @ replicate p False) @ subs_mask ss) (take c xs @ take p (drop c xs) @ drop (c + p) xs)
          (take c xs @ (if p > 0 then f n (take p (drop c xs)) else []) @ region_map f (n + p) ss (drop (c + p) xs))"
    unfolding append_assoc
    by (intro kept_append kept_same kept_protected Cons.IH) (use len f in auto)
  then show ?case unfolding xs [symmetric] by (simp add: Let_def sub_mask_def flip: c_def p_def)
qed

section \<open>Fewer subsamples\<close>

text \<open>\<open>opens m m'\<close>: the mask \<open>m'\<close> keeps at least the bytes of \<open>m\<close> clear.\<close>

definition opens :: "bool list \<Rightarrow> bool list \<Rightarrow> bool" where
  "opens m m' = list_all2 (\<longrightarrow>) m m'"

lemma opens_refl [simp]: "opens m m"
  by (simp add: opens_def list_all2_conv_all_nth)

lemma opens_trans: "opens a b \<Longrightarrow> opens b c \<Longrightarrow> opens a c"
  by (auto simp: opens_def list_all2_conv_all_nth)

lemma opens_append: "opens a b \<Longrightarrow> opens a' b' \<Longrightarrow> opens (a @ a') (b @ b')"
  by (simp add: opens_def list_all2_appendI)

lemma opens_True: "length m = n \<Longrightarrow> opens m (replicate n True)"
  by (auto simp: opens_def list_all2_conv_all_nth)

lemma opens_length: "opens m m' \<Longrightarrow> length m' = length m"
  by (simp add: opens_def list_all2_lengthD)

lemma opens_kept: "opens m m' \<Longrightarrow> kept m' xs ys \<Longrightarrow> kept m xs ys"
  by (auto simp: opens_def kept_def list_all2_conv_all_nth)

lemma fold_clear:
  assumes "folds subs i"
  shows "unat (sub_clear (subs ! Suc i) + (sub_clear (subs ! i) + ucast (sub_protected (subs ! i))))
       = unat (sub_clear (subs ! Suc i)) + unat (sub_clear (subs ! i)) + unat (sub_protected (subs ! i))"
proof -
  let ?p = "sub_protected (subs ! i)"
  have "unat ?p < 2 ^ 16" using assms by (simp add: folds_def)
  then have "unat (ucast ?p :: u16) = unat ?p" by (simp add: unsigned_ucast_eq take_bit_nat_eq_self)
  then show ?thesis using assms by (simp add: folds_def unat_word_ariths)
qed

lemma fold_at_opens:
  assumes "folds subs b" "Suc b < length subs"
  shows "opens (subs_mask subs) (subs_mask (fold_at b subs))"
proof -
  define s t where "s = subs ! b" and "t = subs ! Suc b"
  define t' where "t' = t\<lparr>sub_clear := sub_clear t + (sub_clear s + ucast (sub_protected s))\<rparr>"
  have "subs = take b subs @ s # t # drop (Suc (Suc b)) subs"
    using assms(2) by (simp add: s_def t_def Cons_nth_drop_Suc id_take_nth_drop)
  then have m: "subs_mask subs = subs_mask (take b subs) @ (sub_mask s @ sub_mask t) @ subs_mask (drop (Suc (Suc b)) subs)"
    by (metis subs_mask_simps(2,3) append_assoc)
  have "unat (sub_clear t') = length (sub_mask s) + unat (sub_clear t)" "sub_protected t' = sub_protected t"
    using fold_clear [OF assms(1)] by (simp_all add: t'_def flip: s_def t_def)
  then have t': "sub_mask t' = replicate (length (sub_mask s @ replicate (unat (sub_clear t)) True)) True @ replicate (unat (sub_protected t)) False"
    by (simp add: sub_mask_def [of t'])
  have "opens ((sub_mask s @ replicate (unat (sub_clear t)) True) @ replicate (unat (sub_protected t)) False) (sub_mask t')"
    unfolding t' by (intro opens_append opens_True opens_refl) (rule refl)
  then have "opens (sub_mask s @ sub_mask t) (sub_mask t')" by (simp add: sub_mask_def [of t])
  moreover have "subs_mask (fold_at b subs) = subs_mask (take b subs) @ sub_mask t' @ subs_mask (drop (Suc (Suc b)) subs)"
    by (simp add: fold_at_def Let_def t'_def s_def t_def)
  ultimately show ?thesis using m by (simp only: opens_append opens_refl)
qed

lemma fold_loop_opens: "fold_loop n subs = Inr subs' \<Longrightarrow> opens (subs_mask subs) (subs_mask subs') \<and> length subs' \<le> n"
proof (induction n subs rule: fold_loop.induct)
  case (1 n subs)
  show ?case
  proof (cases "length subs \<le> n")
    case False
    then obtain b where b: "fold_best subs = Some b" "fold_loop n (fold_at b subs) = Inr subs'"
      using "1.prems" by (auto simp: fold_loop.simps [of n subs] split: option.splits)
    then show ?thesis using "1.IH" [OF False b] fold_at_opens fold_best_Some opens_trans by blast
  qed (use "1.prems" in \<open>simp add: fold_loop.simps [of n subs]\<close>)
qed

text \<open>
  C29. Folding subsamples until their entry fits the one byte \<^verbatim>\<open>saiz\<close> has for its size leaves the sample
  covered as before and every clear byte clear: only protected bytes become clear.
\<close>

theorem fitSaiz_only_opens:
  assumes "fitSaiz subs ivLen = Inr subs'" "ivLen \<le> 253"
  shows "opens (subs_mask subs) (subs_mask subs') \<and> length (subs_mask subs') = length (subs_mask subs) \<and>
         ivLen + 2 + 6 * length subs' \<le> 255"
proof -
  note fit = fold_loop_opens [OF assms(1) [unfolded fitSaiz_def]]
  have "length subs' \<le> (253 - ivLen) div 6" using fit by simp
  then have "ivLen + 2 + 6 * length subs' \<le> 255" using assms(2) by linarith
  then show ?thesis using fit opens_length by blast
qed

text \<open>Room for two subsamples only: of three, the one that protects least is folded into the next.\<close>

definition ex_slices :: "cencSubsample list" where
  "ex_slices = [\<lparr>sub_clear = 12, sub_protected = 4096\<rparr>, \<lparr>sub_clear = 9, sub_protected = 32\<rparr>, \<lparr>sub_clear = 12, sub_protected = 1024\<rparr>]"

lemma ex_slices_fit:
  "fitSaiz ex_slices 241 = Inr [\<lparr>sub_clear = 12, sub_protected = 4096\<rparr>, \<lparr>sub_clear = 53, sub_protected = 1024\<rparr>]"
  by (simp add: fitSaiz_def ex_slices_def fold_loop.simps fold_best_def fold_better_def folds_def fold_at_def upt_rec)

theorem fitSaiz_only_opens_witness:
  "fitSaiz ex_slices 241 \<noteq> Inr ex_slices \<and>
   (\<exists>subs. fitSaiz ex_slices 241 = Inr subs \<and> opens (subs_mask ex_slices) (subs_mask subs) \<and> 241 + 2 + 6 * length subs \<le> 255)"
  using fitSaiz_only_opens [OF ex_slices_fit] ex_slices_fit by (simp add: ex_slices_def)

section \<open>What a splitter promises\<close>

text \<open>The client of a splitter reads one sample back with the key: what \<open>cenc_encrypt\<close> has to allow.\<close>

definition cenc_decrypt :: "blockFn \<Rightarrow> blockFn \<Rightarrow> CENCOptions \<Rightarrow> bool \<Rightarrow> bytes \<Rightarrow> sencEntry \<Rightarrow> bytes result" where
  "cenc_decrypt E D c isVideo sample e =
     (if c_Scheme c = scheme_cenc then cencCTREncrypt E (cencCounterBlock (e_iv e)) sample (e_subs e)
      else if isVideo then
        walk_subs (\<lambda>_ region. pattern_loop (cbc_unstep D) 1 9 (c_IV c) region) 0 0 sample (case e_subs e of None \<Rightarrow> [] | Some subs \<Rightarrow> subs)
      else Inr (pattern_loop (cbc_unstep D) (length sample div 16) 0 (c_IV c) sample))"

fun decrypt_samples :: "blockFn \<Rightarrow> blockFn \<Rightarrow> CENCOptions \<Rightarrow> bool \<Rightarrow> fragSample list \<Rightarrow> sencEntry list \<Rightarrow> bytes \<Rightarrow> bytes result" where
  "decrypt_samples E D c v [] es out = Inr out"
| "decrypt_samples E D c v (s # ss) [] out = Inl Panic"
| "decrypt_samples E D c v (s # ss) (e # es) out =
     bind_r (cenc_decrypt E D c v (take (unat (fs_size s)) out) e) (\<lambda>p.
     bind_r (decrypt_samples E D c v ss es (drop (unat (fs_size s)) out)) (\<lambda>ps. Inr (p @ ps)))"

definition entry_covers :: "bool \<Rightarrow> sencEntry \<Rightarrow> bytes \<Rightarrow> bool" where
  "entry_covers isVideo e sample \<longleftrightarrow>
     (case e_subs e of None \<Rightarrow> \<not> isVideo | Some subs \<Rightarrow> isVideo \<and> length (subs_mask subs) = length sample)"

lemma walk_covered:
  assumes f: "\<And>n xs. length (f n xs) = length xs" and g: "\<And>n xs. g n (f n xs) = xs" "\<And>n xs. length (g n xs) = length xs"
    and cover: "length (subs_mask ss) = length sample"
  shows "\<exists>out. walk_subs f 0 0 sample ss = Inr out \<and> walk_subs g 0 0 out ss = Inr sample \<and> kept (subs_mask ss) sample out"
proof -
  have "walk_subs f 0 0 sample ss = Inr (region_map f 0 ss sample)"
    using walk_subs_region [of f sample 0 ss 0] f cover by simp
  moreover have "walk_subs g 0 0 (region_map f 0 ss sample) ss = Inr sample"
    using walk_subs_region [of g "region_map f 0 ss sample" 0 ss 0] g(2) cover length_region_map [of f, OF f cover]
      region_map_undo [of f g, OF f g(1) cover] by simp
  ultimately show ?thesis using region_map_kept [of f, OF f cover] by blast
qed

text \<open>A pattern keeps the length of its region when its step keeps the length of a block.\<close>

definition block_step :: "(bytes \<Rightarrow> bytes \<Rightarrow> bytes \<times> bytes) \<Rightarrow> bool" where
  "block_step step \<longleftrightarrow>
     (\<forall>chain blk. length chain = 16 \<longrightarrow> length blk = 16 \<longrightarrow> length (fst (step chain blk)) = 16 \<and> length (snd (step chain blk)) = 16)"

lemma cbc_run_length:
  "block_step step \<Longrightarrow> length chain = 16 \<Longrightarrow> 16 * n \<le> length region \<Longrightarrow> cbc_run step n chain region = (out, chain', rest) \<Longrightarrow>
   length out = 16 * n \<and> length chain' = 16"
proof (induction n arbitrary: chain region out)
  case (Suc n)
  obtain o1 c1 where step: "step chain (take 16 region) = (o1, c1)" by fastforce
  moreover have "length (take 16 region) = 16" using Suc.prems(3) by simp
  ultimately have len: "length o1 = 16" "length c1 = 16"
    using Suc.prems(1,2) unfolding block_step_def by (metis fst_conv, metis snd_conv)
  obtain o2 where o2: "cbc_run step n c1 (drop 16 region) = (o2, chain', rest)" "out = o1 @ o2"
    using Suc.prems(4) step by (auto split: prod.splits)
  show ?case using Suc.IH [OF Suc.prems(1) len(2) _ o2(1)] Suc.prems(3) o2(2) len(1) by simp
qed simp

lemma pattern_loop_length:
  "block_step step \<Longrightarrow> length chain = 16 \<Longrightarrow> length (pattern_loop step c s chain region) = length region"
proof (induction step c s chain region rule: pattern_loop.induct)
  case (1 step c s chain region)
  show ?case
  proof (cases "length region < 16")
    case True
    then show ?thesis by (simp add: pattern_loop.simps [of _ _ _ _ region])
  next
    case False
    define n where "n = min c (length region div 16)"
    obtain out chain' rest where run: "cbc_run step n chain region = (out, chain', rest)" by (metis prod_cases3)
    have n: "16 * n \<le> length region" unfolding n_def by linarith
    have rest: "rest = drop (16 * n) region" using cbc_run_rest [of step n chain region] run by simp
    note len = cbc_run_length [OF "1.prems" n run]
    show ?thesis
    proof (cases "s = 0")
      case True
      have "length (pattern_loop step c s chain' rest) = length rest" if "n \<noteq> 0"
        by (rule "1.IH"(1) [OF False n_def run [symmetric] refl refl True that "1.prems"(1)]) (simp add: len)
      then show ?thesis using True False run rest len n by (auto simp: pattern_loop.simps [of _ _ _ _ region] simp flip: n_def)
    next
      case s: False
      define skip where "skip = 16 * min s (length rest div 16)"
      have skip: "skip \<le> length rest" unfolding skip_def by linarith
      have "length (pattern_loop step c s chain' (drop skip rest)) = length (drop skip rest)"
        by (rule "1.IH"(2) [OF False n_def run [symmetric] refl refl s skip_def "1.prems"(1)]) (simp add: len)
      moreover have "pattern_loop step c s chain region = out @ take skip rest @ pattern_loop step c s chain' (drop skip rest)"
        using s False run by (simp add: pattern_loop.simps [of _ _ _ _ region] Let_def flip: n_def skip_def)
      ultimately show ?thesis using rest len n skip by simp
    qed
  qed
qed

lemma length_pattern:
  assumes "inverse_block E D" "length iv = 16"
  shows "length (pattern_loop (cbc_step E) c s iv xs) = length xs" "length (pattern_loop (cbc_unstep D) c s iv xs) = length xs"
  using assms pattern_loop_length [of "cbc_step E"] pattern_loop_length [of "cbc_unstep D"]
  by (simp_all add: block_step_def cbc_step_def cbc_unstep_def inverse_block_def Let_def)

lemma encrypt_decrypt:
  fixes k :: "'s cencCipher"
  assumes E: "inverse_block (k_block k) D" and iv: "c_Scheme (k_c k) = scheme_cenc \<or> length (c_IV (k_c k)) = 16"
    and cover: "entry_covers (k_isVideo k) e sample"
  shows "\<exists>out. cenc_encrypt k sample e = Inr out \<and> length out = length sample \<and>
      cenc_decrypt (k_block k) D (k_c k) (k_isVideo k) out e = Inr sample \<and>
      (case e_subs e of None \<Rightarrow> True | Some subs \<Rightarrow> kept (subs_mask subs) sample out)"
proof (cases "e_subs e")
  case None
  then have "\<not> k_isVideo k" using cover by (simp add: entry_covers_def)
  then show ?thesis using None iv length_pattern [OF E] pattern_loop_undo [OF E, of "c_IV (k_c k)"]
    by (auto simp: cenc_encrypt_def cenc_decrypt_def cencCTREncrypt_def cbcsEncryptWholeSample_def cbcsPatternEncrypt_def)
next
  case (Some subs)
  then have v: "k_isVideo k" and c: "length (subs_mask subs) = length sample" using cover by (simp_all add: entry_covers_def)
  have len: "kept m xs ys \<Longrightarrow> length ys = length xs" for m xs ys by (simp add: kept_def)
  show ?thesis
  proof (cases "c_Scheme (k_c k) = scheme_cenc")
    case True
    show ?thesis using True Some len
        walk_covered [of "xor_stream (k_block k) (cencCounterBlock (e_iv e))" "xor_stream (k_block k) (cencCounterBlock (e_iv e))" subs sample, OF _ _ _ c]
      by (auto simp: cenc_encrypt_def cenc_decrypt_def cencCTREncrypt_def)
  next
    case False
    let ?iv = "c_IV (k_c k)"
    have iv: "length ?iv = 16" using iv False by blast
    show ?thesis using False Some v len
        walk_covered [of "\<lambda>_. pattern_loop (cbc_step (k_block k)) 1 9 ?iv" "\<lambda>_. pattern_loop (cbc_unstep D) 1 9 ?iv" subs sample,
          OF length_pattern(1) [OF E iv] _ length_pattern(2) [OF E iv] c] pattern_loop_undo [OF E iv]
      by (auto simp: cenc_encrypt_def cenc_decrypt_def cbcsEncryptVideoSubsamples_def cbcsPatternEncrypt_def)
  qed
qed

lemma entry_iv_quiet: "entry_iv k off \<noteq> Inl Panic"
  by (simp add: entry_iv_def)

lemma fold_loop_quiet: "fold_loop n subs \<noteq> Inl Panic"
  by (induction n subs rule: fold_loop.induct) (auto simp: fold_loop.simps split: option.split)

text \<open>
  The interface \<^verbatim>\<open>videoSubsampleSplitter\<close> and the constructors behind \<^verbatim>\<open>newVideoSubsampleSplitter\<close>:
  the subsamples of a sample cover it, whatever samples came before, and no input makes it panic.
\<close>

locale subsample_splitter =
  fixes new :: "string \<Rightarrow> bytes \<Rightarrow> string \<Rightarrow> 's result" and split :: "'s splitFn" and ok :: "'s \<Rightarrow> bool"
  assumes new_ok: "new codec private scheme = Inr s \<Longrightarrow> ok s"
    and new_quiet: "new codec private scheme \<noteq> Inl Panic"
    and split_quiet: "ok s \<Longrightarrow> split sample s \<noteq> Inl Panic"
    and split_covers: "ok s \<Longrightarrow> length sample < 2 ^ 32 \<Longrightarrow> split sample s = Inr (subs, s') \<Longrightarrow>
          length (subs_mask subs) = length sample \<and> ok s'"
begin

definition cipher_ok :: "'s cencCipher \<Rightarrow> bool" where
  "cipher_ok k \<longleftrightarrow> (k_isVideo k \<longrightarrow> (\<exists>s. k_splitter k = Some s \<and> ok s))"

lemma new_cipher:
  assumes "newCENCCipher aes new c v codec private t = Inr k"
  shows "cipher_ok k \<and> k_c k = c \<and> k_block k = aes (c_Key c) \<and> k_isVideo k = v"
  using assms new_ok by (auto simp: newCENCCipher_def Let_def bind_r_Inr cipher_ok_def split: if_splits)

lemma new_cipher_quiet: "newCENCCipher aes new c v codec private t \<noteq> Inl Panic"
  using new_quiet [of codec "private" "c_Scheme c"] by (auto simp: newCENCCipher_def Let_def bind_r_def split: sum.split)

lemma entry_covered:
  assumes k: "cipher_ok k" and sample: "length sample < 2 ^ 32" and e: "cenc_entry split k sample off = Inr (e, k')"
  shows "entry_covers (k_isVideo k) e sample \<and> cipher_ok k' \<and> k_c k' = k_c k \<and> k_block k' = k_block k \<and> k_isVideo k' = k_isVideo k"
proof (cases "k_isVideo k")
  case True
  then obtain s where s: "k_splitter k = Some s" "ok s" using k by (auto simp: cipher_ok_def)
  obtain subs s' iv subs' where parts: "split sample s = Inr (subs, s')" "fitSaiz subs (length iv) = Inr subs'"
      "e = \<lparr>e_iv = iv, e_subs = Some subs'\<rparr>" "k' = k\<lparr>k_splitter := Some s'\<rparr>"
    using e True s by (auto simp: cenc_entry_def entry_subs_def bind_r_Inr)
  have "opens (subs_mask subs) (subs_mask subs')" using fold_loop_opens parts(2) by (auto simp: fitSaiz_def)
  then show ?thesis using split_covers [OF s(2) sample parts(1)] parts(3,4) True
    by (simp add: entry_covers_def cipher_ok_def opens_length)
next
  case False
  then show ?thesis using k e by (auto simp: cenc_entry_def bind_r_Inr entry_covers_def)
qed

lemma entry_quiet:
  assumes "cipher_ok k"
  shows "cenc_entry split k sample off \<noteq> Inl Panic"
proof -
  have fit: "fitSaiz subs n \<noteq> Inl Panic" for subs n using fold_loop_quiet by (simp add: fitSaiz_def)
  have "entry_subs split k sample \<noteq> Inl Panic" if video: "k_isVideo k"
  proof -
    obtain s where s: "k_splitter k = Some s" "ok s" using assms video by (auto simp: cipher_ok_def)
    then show ?thesis using split_quiet [OF s(2), of sample]
      by (auto simp: entry_subs_def bind_r_def split: sum.split)
  qed
  then show ?thesis using entry_iv_quiet [of k off] fit
    by (auto simp: cenc_entry_def bind_r_def split: sum.split prod.split)
qed

lemma segment_decrypts:
  assumes "cipher_ok k" "inverse_block (k_block k) D" "c_Scheme (k_c k) = scheme_cenc \<or> length (c_IV (k_c k)) = 16"
    and "sum_list (map (unat \<circ> fs_size) ss) \<le> length data"
  shows "encrypt_samples split k ss data \<noteq> Inl Panic \<and>
     (\<forall>es out. encrypt_samples split k ss data = Inr (es, out) \<longrightarrow>
        length out = length data \<and> decrypt_samples (k_block k) D (k_c k) (k_isVideo k) ss es out = Inr data)"
  using assms
proof (induction ss arbitrary: k data)
  case (Cons s ss)
  define n where "n = unat (fs_size s)"
  have n: "n \<le> length data" using Cons.prems(4) by (simp add: n_def)
  have small: "length (take n data) < 2 ^ 32" using unsigned_less [of "fs_size s"] n by (simp add: n_def)
  show ?case
  proof (cases "cenc_entry split k (take n data) (fs_srcOff s)")
    case (Inl err)
    then show ?thesis using entry_quiet [OF Cons.prems(1)] n by (auto simp: Let_def simp flip: n_def)
  next
    case (Inr p)
    obtain e k' where e: "cenc_entry split k (take n data) (fs_srcOff s) = Inr (e, k')" using Inr by (cases p) auto
    note cov = entry_covered [OF Cons.prems(1) small e]
    obtain c where c: "cenc_encrypt k' (take n data) e = Inr c" "length c = n"
        "cenc_decrypt (k_block k) D (k_c k) (k_isVideo k) c e = Inr (take n data)"
      using encrypt_decrypt [of k' D e "take n data"] cov Cons.prems(2,3) n by auto
    have "sum_list (map (unat \<circ> fs_size) ss) \<le> length (drop n data)" using Cons.prems(4) by (simp add: n_def comp_def)
    moreover have "inverse_block (k_block k') D" "c_Scheme (k_c k') = scheme_cenc \<or> length (c_IV (k_c k')) = 16" "cipher_ok k'"
      using cov Cons.prems(2,3) by simp_all
    ultimately have IH: "encrypt_samples split k' ss (drop n data) \<noteq> Inl Panic \<and>
       (\<forall>es out. encrypt_samples split k' ss (drop n data) = Inr (es, out) \<longrightarrow>
          length out = length (drop n data) \<and> decrypt_samples (k_block k) D (k_c k) (k_isVideo k) ss es out = Inr (drop n data))"
      using Cons.IH [of k' "drop n data"] unfolding cov [THEN conjunct2, THEN conjunct2, THEN conjunct1]
        cov [THEN conjunct2, THEN conjunct2, THEN conjunct2, THEN conjunct1] cov [THEN conjunct2, THEN conjunct2, THEN conjunct2, THEN conjunct2]
      by blast
    have step: "encrypt_samples split k (s # ss) data = bind_r (encrypt_samples split k' ss (drop n data)) (\<lambda>(es, cs). Inr (e # es, c @ cs))"
      using n e c(1) by (simp add: Let_def flip: n_def)
    show ?thesis
    proof (cases "encrypt_samples split k' ss (drop n data)")
      case (Inl err)
      then show ?thesis using IH step by simp
    next
      case (Inr q)
      obtain es cs where q: "q = (es, cs)" by fastforce
      then have "length cs = length (drop n data)" "decrypt_samples (k_block k) D (k_c k) (k_isVideo k) ss es cs = Inr (drop n data)"
        using IH Inr by simp_all
      then show ?thesis using step Inr q c n by (simp flip: n_def)
    qed
  qed
qed simp

lemma prepared_segment_decrypts:
  assumes "inverse_block (aes (c_Key c)) D" "validate c = Inr ()" "sum_list (map (unat \<circ> fs_size) ss) \<le> length data"
  shows "prepareCENCSegment aes new split c v codec private t ss data \<noteq> Inl Panic \<and>
     (\<forall>td out. prepareCENCSegment aes new split c v codec private t ss data = Inr (td, out) \<longrightarrow>
        length out = length data \<and> decrypt_samples (aes (c_Key c)) D c v ss (td_entries td) out = Inr data)"
proof (cases "newCENCCipher aes new c v codec private t")
  case (Inl err)
  then show ?thesis using new_cipher_quiet [of aes c v codec "private" t] by (simp add: prepareCENCSegment_def)
next
  case (Inr k)
  note k = new_cipher [OF Inr]
  have "c_Scheme c = scheme_cenc \<or> length (c_IV c) = 16" using assms(2) by (auto simp: validate_def split: if_splits)
  then have "encrypt_samples split k ss data \<noteq> Inl Panic \<and>
     (\<forall>es out. encrypt_samples split k ss data = Inr (es, out) \<longrightarrow>
        length out = length data \<and> decrypt_samples (aes (c_Key c)) D c v ss es out = Inr data)"
    using segment_decrypts [of k D ss data] k assms(1,3) unfolding k [THEN conjunct2, THEN conjunct1]
      k [THEN conjunct2, THEN conjunct2, THEN conjunct1] k [THEN conjunct2, THEN conjunct2, THEN conjunct2] by blast
  moreover have "prepareCENCSegment aes new split c v codec private t ss data
      = bind_r (encrypt_samples split k ss data) (\<lambda>(es, out). Inr (\<lparr>td_hasSubsample = v, td_entries = es\<rparr>, out))"
    using Inr by (simp add: prepareCENCSegment_def)
  ultimately show ?thesis by (cases "encrypt_samples split k ss data") auto
qed

end

section \<open>H.264 and HEVC\<close>

definition h26x_split :: "h26xSplitter splitFn" where
  "h26x_split sample s = (case split_h26x sample s of None \<Rightarrow> Inl Panic | Some r \<Rightarrow> r)"

lemma newH26xSplitter_quiet: "newH26xSplitter codec private scheme \<noteq> Inl Panic"
proof -
  let ?s = "\<lambda>n. \<lparr>sp_hevc = (codec = ''hevc''), sp_lenSize = n, sp_align = (scheme = ''cenc''),
      sp_avc = (\<lambda>_. None, \<lambda>_. None), sp_hevcs = (\<lambda>_. None, \<lambda>_. None)\<rparr>"
  have "\<exists>s. learn_all sets (?s n) = Inr s" if "configParameterSets (codec = ''hevc'') private = Some (sets, n)" "n \<noteq> 3" for sets n
  proof -
    have "1 \<le> n \<and> n \<le> 4" using config_lenSize that(1) by blast
    with that(2) have "n = 1 \<or> n = 2 \<or> n = 4" by linarith
    then have "splitter_ok (?s n)" by (auto simp: splitter_ok_def avc_sets_ok_def hevc_sets_ok_def)
    then show ?thesis using learn_all_ok by blast
  qed
  note learn = this
  show ?thesis
  proof (cases "configParameterSets (codec = ''hevc'') private")
    case (Some c)
    obtain sets n where "c = (sets, n)" by fastforce
    with Some learn [of sets n] show ?thesis by (auto simp: newH26xSplitter_def Let_def)
  qed (simp add: newH26xSplitter_def Let_def)
qed

interpretation h26x: subsample_splitter newH26xSplitter h26x_split splitter_ok
proof
  show "newH26xSplitter codec private scheme = Inr s \<Longrightarrow> splitter_ok s" for codec "private" scheme s
    by (rule newH26xSplitter_ok)
  show "newH26xSplitter codec private scheme \<noteq> Inl Panic" for codec "private" scheme
    by (rule newH26xSplitter_quiet)
  show "h26x_split sample s \<noteq> Inl Panic" if "splitter_ok s" for sample s
  proof -
    have "0 < sp_lenSize s" using that by (auto simp: splitter_ok_def)
    then show ?thesis
      using split_loop_total [of s sample "length sample" "\<lparr>sb_align = sp_align s, sb_acc = 0, sb_subs = []\<rparr>"]
        split_loop_quiet [OF that, of "length sample" sample "\<lparr>sb_align = sp_align s, sb_acc = 0, sb_subs = []\<rparr>"]
      by (auto simp: h26x_split_def split_h26x_def bind_r_def split: option.splits sum.splits)
  qed
  show "length (subs_mask subs) = length sample \<and> splitter_ok s'"
    if "splitter_ok s" "length sample < 2 ^ 32" "h26x_split sample s = Inr (subs, s')" for sample s subs s'
  proof -
    have "split_h26x sample s = Some (Inr (subs, s'))" using that(3) by (simp add: h26x_split_def split: option.splits)
    from split_h26x_layout [OF this that(2)] show ?thesis using sample_layout_ok that(1) by blast
  qed
qed

section \<open>Properties\<close>

text \<open>A block cipher for the examples, and an audio sample.\<close>

definition ex_aes :: "bytes \<Rightarrow> blockFn" where "ex_aes key b = map ((XOR) 0x5A) (rotate1 b)"

definition ex_unaes :: blockFn where "ex_unaes b = map ((XOR) 0x5A) (rotate 15 b)"

lemma ex_aes_inverse: "inverse_block (ex_aes key) ex_unaes"
proof -
  have "rotate 15 (rotate1 b) = b" if "length b = 16" for b :: bytes
    using rotate_id [of 16 b] rotate_Suc [of 15 b] that by (simp add: rotate1_rotate_swap)
  then show ?thesis by (simp add: inverse_block_def ex_aes_def ex_unaes_def rotate_map rotate1_map comp_def xor.assoc [symmetric])
qed

definition ex_cbcs :: CENCOptions where
  "ex_cbcs = ex_cenc\<lparr>c_Scheme := scheme_cbcs, c_IV := replicate 16 3\<rparr>"

definition ex_audio :: fragSample where
  "ex_audio = \<lparr>fs_size = 18, fs_ptsMs = 0, fs_blockPtsMs = 0, fs_sync = True, fs_dtsTS = 0, fs_durTS = 1024, fs_ctsTS = 0,
     fs_cut = False, fs_srcOff = 100\<rparr>"

text \<open>C28. Every byte the splitter declares clear - length fields, headers and slice headers - leaves the packager as it
  came, under either scheme, whatever subsamples \<^verbatim>\<open>fitSaiz\<close> folded.\<close>

theorem cenc_clear_bytes_kept:
  fixes k :: "h26xSplitter cencCipher"
  assumes k: "k_isVideo k" "k_splitter k = Some s" "splitter_ok s" and sample: "length sample < 2 ^ 32"
    and split: "h26x_split sample s = Inr (subs, s')"
    and E: "inverse_block (k_block k) D" and iv: "c_Scheme (k_c k) = scheme_cenc \<or> length (c_IV (k_c k)) = 16"
    and e: "cenc_entry h26x_split k sample off = Inr (e, k')" and out: "cenc_encrypt k' sample e = Inr out"
    and i: "i < length sample" "subs_mask subs ! i"
  shows "length out = length sample \<and> out ! i = sample ! i"
proof -
  have cov: "entry_covers True e sample \<and> h26x.cipher_ok k' \<and> k_c k' = k_c k \<and> k_block k' = k_block k \<and> k_isVideo k'"
    using h26x.entry_covered [OF _ sample e] k by (simp add: h26x.cipher_ok_def)
  obtain iv' subs' where parts: "fitSaiz subs (length iv') = Inr subs'" "e = \<lparr>e_iv = iv', e_subs = Some subs'\<rparr>"
    using e k split by (auto simp: cenc_entry_def entry_subs_def bind_r_Inr)
  have opens: "opens (subs_mask subs) (subs_mask subs')" using fold_loop_opens parts(1) by (auto simp: fitSaiz_def)
  have "inverse_block (k_block k') D" "c_Scheme (k_c k') = scheme_cenc \<or> length (c_IV (k_c k')) = 16"
    "entry_covers (k_isVideo k') e sample" using E iv cov by auto
  from encrypt_decrypt [OF this] out have "kept (subs_mask subs') sample out" "length out = length sample"
    by (auto simp: parts(2))
  then show ?thesis using opens_kept [OF opens] kept_nth i by blast
qed

definition ex_cipher :: "h26xSplitter cencCipher" where
  "ex_cipher = \<lparr>k_c = ex_cbcs, k_block = ex_aes [], k_isVideo = True, k_domain = 0, k_splitter = Some ex_splitter, k_trackID = 1\<rparr>"

theorem cenc_clear_bytes_kept_witness:
  "\<exists>e k out. cenc_entry h26x_split ex_cipher ex_sample 64 = Inr (e, k) \<and> cenc_encrypt k ex_sample e = Inr out \<and>
     out ! 4 = ex_sample ! 4"
proof -
  let ?sub = "\<lparr>sub_clear = 14, sub_protected = 16\<rparr>"
  have ok: "splitter_ok ex_splitter" 
    by (simp add: splitter_ok_def ex_splitter_def avc_sets_ok_def hevc_sets_ok_def avcSPS_ok_def avcPPS_ok_def ex_sps_def ex_pps_def)
  have split: "h26x_split ex_sample ex_splitter = Inr ([?sub], ex_splitter)" by (simp add: h26x_split_def ex_split)
  have fit: "fitSaiz [?sub] 0 = Inr [?sub]" by (simp add: fitSaiz_def fold_loop.simps)
  have e: "cenc_entry h26x_split ex_cipher ex_sample 64 = Inr (\<lparr>e_iv = [], e_subs = Some [?sub]\<rparr>, ex_cipher)"
    by (simp add: cenc_entry_def entry_subs_def entry_iv_def ex_cipher_def ex_cbcs_def scheme_cenc_def scheme_cbcs_def split fit)
  have len: "length ex_sample = 30" by (simp add: ex_sample_def ex_payload_def)
  have fields: "k_isVideo ex_cipher" "k_splitter ex_cipher = Some ex_splitter" "inverse_block (k_block ex_cipher) ex_unaes"
      "c_Scheme (k_c ex_cipher) = scheme_cenc \<or> length (c_IV (k_c ex_cipher)) = 16"
    by (simp_all add: ex_cipher_def ex_cbcs_def ex_aes_inverse)
  have "entry_covers (k_isVideo ex_cipher) \<lparr>e_iv = [], e_subs = Some [?sub]\<rparr> ex_sample"
    by (simp add: entry_covers_def ex_cipher_def len sub_mask_def)
  from encrypt_decrypt [OF fields(3,4) this] obtain out where
    out: "cenc_encrypt ex_cipher ex_sample \<lparr>e_iv = [], e_subs = Some [?sub]\<rparr> = Inr out" by blast
  have i: "4 < length ex_sample" "subs_mask [?sub] ! 4" "length ex_sample < 2 ^ 32"
    by (simp_all add: len sub_mask_def nth_append)
  from cenc_clear_bytes_kept [OF fields(1,2) ok i(3) split fields(3,4) e out i(1,2)] show ?thesis using e out by blast
qed

end
