(* ===== verification/SampleTiming.thy ===== *)
theory SampleTiming
  imports Prelude
begin

text \<open>
  Decode times and composition offsets of the samples a track is written with: \<^verbatim>\<open>mp4/sample.go\<close> and
  the spread of unconfirmed laces in \<^verbatim>\<open>mp4/framesize.go\<close>.  Matroska keeps one presentation time per
  block; the sample table wants decode durations and composition offsets.

  Times are integers.  The product of a time and a timescale wraps as the code's \<^verbatim>\<open>int64\<close> does; sums
  and differences are exact, since they could only wrap for times beyond \<open>2 ^ 62\<close>.
\<close>

section \<open>Samples and timings\<close>

record sample =
  s_size :: u32
  pts :: int
  blockPts :: int
  sync :: bool
  dur :: int

record chunk =
  offset :: u64
  count :: int

record trackSamples =
  samples :: "sample list"
  chunks :: "chunk list"

definition addDur :: "u32 \<Rightarrow> int \<Rightarrow> int \<Rightarrow> int \<Rightarrow> bool \<Rightarrow> trackSamples \<Rightarrow> trackSamples" where
  "addDur sz p bp d sy ts =
     ts\<lparr>samples := samples ts @ [\<lparr>s_size = sz, pts = p, blockPts = bp, sync = sy, dur = d\<rparr>]\<rparr>"

definition addChunk :: "u64 \<Rightarrow> int \<Rightarrow> trackSamples \<Rightarrow> trackSamples" where
  "addChunk off n ts = (if n > 0 then ts\<lparr>chunks := chunks ts @ [\<lparr>offset = off, count = n\<rparr>]\<rparr> else ts)"

record timing =
  durations :: "int list"
  ctts :: "int list"
  hasCTTS :: bool
  total_dur :: int

definition movieTimescale :: u32 where "movieTimescale = 1000"

definition tsScale :: "u32 \<Rightarrow> int \<Rightarrow> int" where
  "tsScale mts ms = (if mts = movieTimescale then ms else go_div (wrap64 (ms * uint mts)) (uint movieTimescale))"

section \<open>The grid of a constant-rate track\<close>

definition noGridTS :: int where "noGridTS = -1"

definition gridSpread :: int where "gridSpread = -2"

definition audioGridTS :: "bool \<Rightarrow> int \<Rightarrow> u32 \<Rightarrow> int" where
  "audioGridTS audio defaultDurationNs mts =
     (if \<not> audio then noGridTS
      else if defaultDurationNs \<le> 0 then 0
      else go_div (wrap64 (wrap64 (defaultDurationNs * uint mts) + 500000000)) 1000000000)"

definition gridIndex :: "int \<Rightarrow> int \<Rightarrow> int" where
  "gridIndex rel gridTS = (if rel \<le> 0 then 0 else go_div (rel + go_div gridTS 2) gridTS)"

definition first_run :: "int list \<Rightarrow> nat" where
  "first_run bs = length (takeWhile (\<lambda>b. b = hd bs) bs)"

definition deriveGridTS :: "int list \<Rightarrow> u32 \<Rightarrow> int" where
  "deriveGridTS bs mts =
     (if length bs < 2 then 0
      else let n = first_run bs in
        if n < 2 \<or> n \<ge> length bs then 0
        else let span = tsScale mts (bs ! n) - tsScale mts (hd bs) in
          if span \<le> 0 then 0 else go_div (span + int (n div 2)) (int n))"

text \<open>The slot of the next frame, and the loop: \<open>pb\<close> is the block time of the frame before, \<open>k\<close> its slot.\<close>

definition next_slot :: "int \<Rightarrow> u32 \<Rightarrow> int \<Rightarrow> int \<Rightarrow> int \<Rightarrow> int \<Rightarrow> int" where
  "next_slot g mts anchor pb k b =
     (if b \<noteq> pb then let nk = gridIndex (tsScale mts b - anchor) g in if nk \<le> k then k + 1 else nk
      else k + 1)"

fun grid_durations :: "int \<Rightarrow> u32 \<Rightarrow> int \<Rightarrow> int \<Rightarrow> int \<Rightarrow> int list \<Rightarrow> int list" where
  "grid_durations g mts anchor pb k [] = [g]"
| "grid_durations g mts anchor pb k (b # bs) =
     (let k' = next_slot g mts anchor pb k b in
      (k' * g - k * g) # grid_durations g mts anchor b k' bs)"

section \<open>Laces spread over their blocks\<close>

definition lastBlockSpan :: "int \<Rightarrow> int \<Rightarrow> int \<Rightarrow> int" where
  "lastBlockSpan firstSpan firstFrames frames =
     (if firstFrames \<le> 0 \<or> firstSpan \<le> 0 then frames else go_div (wrap64 (firstSpan * frames)) firstFrames)"

definition firstLace :: "int list \<Rightarrow> u32 \<Rightarrow> int \<times> int" where
  "firstLace bs mts =
     (let m = first_run bs in
      if m \<ge> length bs then (0, int m)
      else (tsScale mts (bs ! m) - tsScale mts (hd bs), int m))"

definition spread_block :: "int \<Rightarrow> int \<Rightarrow> nat \<Rightarrow> (int \<times> int) list" where
  "spread_block start e m =
     map (\<lambda>i. let dts = start + go_div (int i * (e - start)) (int m);
                  nxt = start + go_div ((int i + 1) * (e - start)) (int m)
              in (dts, nxt - dts)) [0..<m]"

function spread_loop :: "u32 \<Rightarrow> int \<Rightarrow> int \<Rightarrow> (int \<Rightarrow> int) \<Rightarrow> int list \<Rightarrow> (int \<times> int) list" where
  "spread_loop mts base nextMs lastSpan [] = []"
| "spread_loop mts base nextMs lastSpan (b # bs) =
     (let m = 1 + length (takeWhile (\<lambda>x. x = b) bs);
          rest = dropWhile (\<lambda>x. x = b) bs;
          start = tsScale mts b - base;
          e = (case rest of
                 b' # _ \<Rightarrow> tsScale mts b' - base
               | [] \<Rightarrow> if nextMs \<ge> 0 then tsScale mts nextMs - base else start + lastSpan (int m));
          e = (if e < start + int m then start + int m else e)
      in spread_block start e m @ spread_loop mts base nextMs lastSpan rest)"
  by pat_completeness auto
termination
  by (relation "measure (\<lambda>(_, _, _, _, bs). length bs)") (auto simp: le_imp_less_Suc length_dropWhile_le)

definition spreadLaced :: "int list \<Rightarrow> u32 \<Rightarrow> int \<Rightarrow> (int \<Rightarrow> int) \<Rightarrow> (int \<times> int) list" where
  "spreadLaced bs mts nextMs lastSpan = spread_loop mts (tsScale mts (hd bs)) nextMs lastSpan bs"

section \<open>Reconstruction\<close>

definition textTiming :: "sample list \<Rightarrow> timing" where
  "textTiming ss =
     (let ds = map (\<lambda>s. if dur s \<le> 0 then 1 else dur s) ss in
      \<lparr>durations = ds, ctts = map (\<lambda>_. 0) ss, hasCTTS = False, total_dur = sum_list ds\<rparr>)"

fun diffs :: "int list \<Rightarrow> int list" where
  "diffs (x # y # zs) = (y - x) # diffs (y # zs)"
| "diffs _ = []"

definition to_int32 :: "int \<Rightarrow> int" where
  "to_int32 x = sint (word_of_int x :: u32)"

definition last_duration :: "u32 \<Rightarrow> int \<Rightarrow> int list \<Rightarrow> int" where
  "last_duration mts lastDurMs ds =
     (if lastDurMs > 0 then tsScale mts lastDurMs else if ds \<noteq> [] then last ds else 1)"

definition reconstructTiming :: "sample list \<Rightarrow> int \<Rightarrow> u32 \<Rightarrow> int \<Rightarrow> timing" where
  "reconstructTiming ss lastDurMs mts gridTS =
     (if ss = [] then \<lparr>durations = [], ctts = [], hasCTTS = False, total_dur = 0\<rparr>
      else
       let bs = map blockPts ss;
           zeros = map (\<lambda>_. 0) ss;
           gridTS = (if gridTS = 0 then deriveGridTS bs mts else gridTS)
       in if gridTS > 0 then
            let ds = grid_durations gridTS mts (tsScale mts (hd bs)) (hd bs) 0 (tl bs)
            in \<lparr>durations = ds, ctts = zeros, hasCTTS = False, total_dur = sum_list ds\<rparr>
          else if gridTS = gridSpread then
            let (span, frames) = firstLace bs mts;
                ds = map snd (spreadLaced bs mts (-1) (lastBlockSpan span frames))
            in \<lparr>durations = ds, ctts = zeros, hasCTTS = False, total_dur = sum_list ds\<rparr>
          else
            let dts = sort (map (\<lambda>s. tsScale mts (pts s)) ss);
                ds = diffs dts;
                ds = ds @ [last_duration mts lastDurMs ds];
                offs = map (\<lambda>(s, d). tsScale mts (pts s) - d) (zip ss dts)
            in \<lparr>durations = ds, ctts = map to_int32 offs, hasCTTS = list_ex (\<lambda>x. x \<noteq> 0) offs,
                total_dur = sum_list ds\<rparr>)"
section \<open>Lemmas on the loops\<close>

lemma length_grid_durations [simp]: "length (grid_durations g mts anchor pb k bs) = Suc (length bs)"
  by (induction g mts anchor pb k bs rule: grid_durations.induct) (simp_all add: Let_def)

text \<open>The slots of the frames after one in slot \<open>k\<close>, and the decode times they add up to.\<close>

fun slots :: "int \<Rightarrow> u32 \<Rightarrow> int \<Rightarrow> int \<Rightarrow> int \<Rightarrow> int list \<Rightarrow> int list" where
  "slots g mts anchor pb k [] = []"
| "slots g mts anchor pb k (b # bs) =
     (let k' = next_slot g mts anchor pb k b in k' # slots g mts anchor b k' bs)"

lemma length_slots [simp]: "length (slots g mts anchor pb k bs) = length bs"
  by (induction bs arbitrary: pb k) (simp_all add: Let_def)

lemma next_slot_gt: "k < next_slot g mts anchor pb k b"
  by (simp add: next_slot_def Let_def)

lemma grid_durations_slots:
  "i \<le> length bs \<Longrightarrow>
   sum_list (take i (grid_durations g mts anchor pb k bs)) = g * ((k # slots g mts anchor pb k bs) ! i - k)"
proof (induction bs arbitrary: i pb k)
  case (Cons b bs)
  show ?case
  proof (cases i)
    case (Suc j)
    let ?k = "next_slot g mts anchor pb k b"
    have "sum_list (take j (grid_durations g mts anchor b ?k bs)) = g * ((?k # slots g mts anchor b ?k bs) ! j - ?k)"
      using Cons Suc by simp
    with Suc show ?thesis by (simp add: Let_def algebra_simps)
  qed simp
qed simp

lemma grid_durations_positive:
  assumes "0 < g"
  shows "d \<in> set (grid_durations g mts anchor pb k bs) \<Longrightarrow> g \<le> d \<and> g dvd d"
proof (induction bs arbitrary: pb k)
  case (Cons b bs)
  let ?k = "next_slot g mts anchor pb k b"
  have "1 \<le> ?k - k" using next_slot_gt [of k g mts anchor pb b] by simp
  then have "g * 1 \<le> g * (?k - k)" using assms by (intro mult_left_mono) simp_all
  then have "g \<le> ?k * g - k * g" by (simp add: algebra_simps)
  moreover have "g dvd ?k * g - k * g" by simp
  ultimately show ?case using Cons by (auto simp add: Let_def)
qed simp

lemma slots_step:
  "i < length bs \<Longrightarrow>
   slots g mts anchor pb k bs ! i
     = next_slot g mts anchor ((pb # bs) ! i) ((k # slots g mts anchor pb k bs) ! i) (bs ! i)"
proof (induction bs arbitrary: i pb k)
  case (Cons b bs)
  then show ?case by (cases i) (simp_all add: Let_def)
qed simp

lemma slots_ge: "i < length bs \<Longrightarrow> k < slots g mts anchor pb k bs ! i"
proof (induction bs arbitrary: i pb k)
  case (Cons b bs)
  let ?k = "next_slot g mts anchor pb k b"
  show ?case
  proof (cases i)
    case 0
    then show ?thesis by (simp add: Let_def next_slot_gt)
  next
    case (Suc j)
    then have "?k < slots g mts anchor b ?k bs ! j" using Cons by simp
    with Suc next_slot_gt [of k g mts anchor pb b] show ?thesis by (simp add: Let_def)
  qed
qed simp

lemma gridIndex_nearest:
  assumes "0 < g" and "0 \<le> rel"
  shows "2 * \<bar>gridIndex rel g * g - rel\<bar> \<le> g"
proof (cases "rel = 0")
  case True
  with assms show ?thesis by (simp add: gridIndex_def)
next
  case False
  let ?n = "rel + g div 2"
  have i: "gridIndex rel g = ?n div g" using assms False by (simp add: gridIndex_def)
  define h r q where "h = g div 2" and "r = (rel + h) mod g" and "q = (rel + h) div g * g"
  have "q = rel + h - r" by (simp add: q_def r_def minus_mod_eq_div_mult)
  moreover have "0 \<le> r" "r < g" using assms by (simp_all add: r_def)
  moreover have "2 * h \<le> g" "g < 2 * h + 2" by (simp_all add: h_def)
  ultimately show ?thesis unfolding i q_def [symmetric] h_def [symmetric] by arith
qed

lemma spread_step:
  fixes sp :: int
  assumes "0 < m" "int m \<le> sp"
  shows "int i * sp div int m + 1 \<le> (int i + 1) * sp div int m"
proof -
  have "int i * sp div int m + 1 = (int i * sp + int m) div int m"
    using div_add_self2 [of "int m" "int i * sp"] assms(1) by simp
  also have "\<dots> \<le> (int i * sp + sp) div int m" using assms by (intro zdiv_mono1) simp_all
  finally show ?thesis by (simp add: algebra_simps)
qed

lemma spread_block_nth:
  assumes "i < m" and "int m \<le> e - start"
  shows "spread_block start e m ! i
           = (start + int i * (e - start) div int m,
              (int i + 1) * (e - start) div int m - int i * (e - start) div int m)"
  using assms by (simp add: spread_block_def Let_def)

lemma spread_block_positive:
  assumes "int m \<le> e - start" and "x \<in> set (spread_block start e m)"
  shows "1 \<le> snd x"
proof -
  obtain i where i: "i < m" "x = spread_block start e m ! i"
    using assms(2) by (auto simp add: in_set_conv_nth spread_block_def)
  show ?thesis using spread_step [of m "e - start" i] i assms(1) by (simp add: spread_block_nth)
qed

lemma spread_block_sum:
  assumes "int m \<le> e - start" and "0 < m"
  shows "sum_list (map snd (spread_block start e m)) = e - start"
proof -
  have "(\<Sum>i\<leftarrow>[0..<n]. snd (spread_block start e m ! i)) = int n * (e - start) div int m" if "n \<le> m" for n
    using that
  proof (induction n)
    case (Suc n)
    have "[0..<Suc n] = [0..<n] @ [n]" by simp
    then show ?case using Suc assms spread_block_nth [of n m e start] by (simp add: algebra_simps)
  qed simp
  from this [of m] have s: "(\<Sum>i\<leftarrow>[0..<m]. snd (spread_block start e m ! i)) = e - start" using assms by simp
  have "length (spread_block start e m) = m" by (simp add: spread_block_def)
  then have "map snd (spread_block start e m) = map (\<lambda>i. snd (spread_block start e m ! i)) [0..<m]"
    by (intro nth_equalityI) simp_all
  with s show ?thesis by simp
qed
section \<open>Blocks and their first frames\<close>

definition starts :: "int list \<Rightarrow> nat \<Rightarrow> bool" where
  "starts bs i \<longleftrightarrow> i < length bs \<and> (i = 0 \<or> bs ! (i - 1) \<noteq> bs ! i)"

text \<open>Every block leaves a tick or more per frame before each later block.\<close>

definition roomy :: "u32 \<Rightarrow> int list \<Rightarrow> bool" where
  "roomy mts bs \<longleftrightarrow> (\<forall>i j. starts bs i \<longrightarrow> starts bs j \<longrightarrow> i < j \<longrightarrow>
     int (j - i) \<le> tsScale mts (bs ! j) - tsScale mts (bs ! i))"

lemma run_split:
  fixes b :: int and bs :: "int list"
  defines "m \<equiv> 1 + length (takeWhile (\<lambda>x. x = b) bs)" and "rest \<equiv> dropWhile (\<lambda>x. x = b) bs"
  shows "b # bs = replicate m b @ rest" "0 < m" "rest \<noteq> [] \<Longrightarrow> hd rest \<noteq> b"
proof -
  have "takeWhile (\<lambda>x. x = b) bs = replicate (m - 1) b"
    by (rule replicate_eqI) (simp_all add: m_def, meson set_takeWhileD)
  then have "bs = replicate (m - 1) b @ rest" unfolding rest_def by (metis takeWhile_dropWhile_id)
  then show "b # bs = replicate m b @ rest" by (simp add: m_def)
  show "rest \<noteq> [] \<Longrightarrow> hd rest \<noteq> b" unfolding rest_def by (rule hd_dropWhile)
qed (simp add: m_def)

lemma starts_in_run:
  "0 < m \<Longrightarrow> i < m \<Longrightarrow> starts (replicate m b @ rest) i \<longleftrightarrow> i = 0"
  by (auto simp add: starts_def nth_append)

lemma starts_after_run:
  assumes "0 < m" "rest \<noteq> [] \<Longrightarrow> hd rest \<noteq> b" "m \<le> i"
  shows "starts (replicate m b @ rest) i \<longleftrightarrow> starts rest (i - m)"
proof (cases "i = m")
  case True
  have "rest ! 0 \<noteq> b" if "rest \<noteq> []" using assms(2) [OF that] that by (simp add: hd_conv_nth)
  then show ?thesis using True assms(1) by (auto simp add: starts_def nth_append)
next
  case False
  then have "i - 1 - m = i - m - 1" "\<not> i - 1 < m" "\<not> i < m" using assms(3) by auto
  then show ?thesis using False assms(3) by (auto simp add: starts_def nth_append)
qed

lemma roomy_run:
  assumes "roomy mts (replicate m b @ rest)" "0 < m" "rest \<noteq> [] \<Longrightarrow> hd rest \<noteq> b"
  shows "roomy mts rest" "rest \<noteq> [] \<Longrightarrow> int m \<le> tsScale mts (hd rest) - tsScale mts b"
proof -
  have s: "starts (replicate m b @ rest) (m + i) \<longleftrightarrow> starts rest i" for i
    using starts_after_run [OF assms(2,3), of "m + i"] by simp
  have n: "(replicate m b @ rest) ! (m + i) = rest ! i" for i by (simp add: nth_append)
  show "roomy mts rest"
    unfolding roomy_def
  proof (intro allI impI)
    fix i j
    assume "starts rest i" "starts rest j" "i < j"
    then show "int (j - i) \<le> tsScale mts (rest ! j) - tsScale mts (rest ! i)"
      using assms(1) s [of i] s [of j] n [of i] n [of j] unfolding roomy_def
      by (metis add_diff_cancel_left add_less_cancel_left)
  qed
  assume ne: "rest \<noteq> []"
  have "starts (replicate m b @ rest) 0" using starts_in_run [OF assms(2), of 0] assms(2) by simp
  moreover have "starts (replicate m b @ rest) m" using s [of 0] ne by (simp add: starts_def)
  ultimately have "int (m - 0) \<le> tsScale mts ((replicate m b @ rest) ! m) - tsScale mts ((replicate m b @ rest) ! 0)"
    using assms(1,2) unfolding roomy_def by blast
  then show "int m \<le> tsScale mts (hd rest) - tsScale mts b"
    using ne assms(2) by (simp add: nth_append hd_conv_nth)
qed

lemma length_spread_block [simp]: "length (spread_block start e m) = m"
  by (simp add: spread_block_def)

lemma spread_loop_Cons:
  fixes b :: int and bs :: "int list"
  defines "m \<equiv> 1 + length (takeWhile (\<lambda>x. x = b) bs)" and "rest \<equiv> dropWhile (\<lambda>x. x = b) bs"
  obtains e where "int m \<le> e - (tsScale mts b - base)"
    and "spread_loop mts base nextMs lastSpan (b # bs)
           = spread_block (tsScale mts b - base) e m @ spread_loop mts base nextMs lastSpan rest"
    and "rest \<noteq> [] \<Longrightarrow> int m \<le> tsScale mts (hd rest) - tsScale mts b \<Longrightarrow> e = tsScale mts (hd rest) - base"
proof -
  define start where "start = tsScale mts b - base"
  define e0 where "e0 = (case rest of
                 b' # _ \<Rightarrow> tsScale mts b' - base
               | [] \<Rightarrow> if nextMs \<ge> 0 then tsScale mts nextMs - base else start + lastSpan (int m))"
  define e where "e = (if e0 < start + int m then start + int m else e0)"
  show thesis
  proof (rule that [of e])
    show "int m \<le> e - (tsScale mts b - base)" by (simp add: e_def start_def)
    show "spread_loop mts base nextMs lastSpan (b # bs)
           = spread_block (tsScale mts b - base) e m @ spread_loop mts base nextMs lastSpan rest"
      unfolding spread_loop.simps(2) Let_def m_def [symmetric] rest_def [symmetric] start_def [symmetric]
        e0_def [symmetric] e_def [symmetric] by (rule refl)
    show "e = tsScale mts (hd rest) - base" if "rest \<noteq> []" "int m \<le> tsScale mts (hd rest) - tsScale mts b"
      using that by (cases rest) (simp_all add: e_def e0_def start_def)
  qed
qed

declare spread_loop.simps(2) [simp del]

lemma spread_loop_length: "length (spread_loop mts base nextMs lastSpan bs) = length bs"
proof (induction mts base nextMs lastSpan bs rule: spread_loop.induct)
  case (2 mts base nextMs lastSpan b bs)
  obtain e where e: "spread_loop mts base nextMs lastSpan (b # bs)
      = spread_block (tsScale mts b - base) e (1 + length (takeWhile (\<lambda>x. x = b) bs))
        @ spread_loop mts base nextMs lastSpan (dropWhile (\<lambda>x. x = b) bs)"
    by (rule spread_loop_Cons)
  have "length bs = length (takeWhile (\<lambda>x. x = b) bs) + length (dropWhile (\<lambda>x. x = b) bs)"
    by (metis length_append takeWhile_dropWhile_id)
  with e "2.IH" show ?case by simp
qed simp

lemma spread_loop_positive: "x \<in> set (spread_loop mts base nextMs lastSpan bs) \<Longrightarrow> 1 \<le> snd x"
proof (induction mts base nextMs lastSpan bs rule: spread_loop.induct)
  case (2 mts base nextMs lastSpan b bs)
  obtain e where e: "int (1 + length (takeWhile (\<lambda>x. x = b) bs)) \<le> e - (tsScale mts b - base)"
    "spread_loop mts base nextMs lastSpan (b # bs)
      = spread_block (tsScale mts b - base) e (1 + length (takeWhile (\<lambda>x. x = b) bs))
        @ spread_loop mts base nextMs lastSpan (dropWhile (\<lambda>x. x = b) bs)"
    by (rule spread_loop_Cons)
  show ?case
    using "2.prems" unfolding e(2) set_append
    by (elim UnE) (rule spread_block_positive [OF e(1)], assumption, rule "2.IH" [OF refl refl refl refl refl])
qed simp

lemma spread_loop_on_time:
  "roomy mts bs \<Longrightarrow> starts bs i \<Longrightarrow>
   sum_list (map snd (take i (spread_loop mts base nextMs lastSpan bs))) = tsScale mts (bs ! i) - tsScale mts (hd bs)"
proof (induction mts base nextMs lastSpan bs arbitrary: i rule: spread_loop.induct)
  case (1 mts base nextMs lastSpan)
  then show ?case by (simp add: starts_def)
next
  case (2 mts base nextMs lastSpan b bs)
  define m rest where "m = 1 + length (takeWhile (\<lambda>x. x = b) bs)" and "rest = dropWhile (\<lambda>x. x = b) bs"
  note r = run_split [where b = b and bs = bs, folded m_def rest_def]
  note room = roomy_run [OF "2.prems"(1) [unfolded r(1)] r(2,3)]
  obtain e where e: "int m \<le> e - (tsScale mts b - base)"
    "spread_loop mts base nextMs lastSpan (b # bs)
      = spread_block (tsScale mts b - base) e m @ spread_loop mts base nextMs lastSpan rest"
    "rest \<noteq> [] \<Longrightarrow> int m \<le> tsScale mts (hd rest) - tsScale mts b \<Longrightarrow> e = tsScale mts (hd rest) - base"
    by (rule spread_loop_Cons [where b = b and bs = bs and mts = mts and base = base and nextMs = nextMs
          and lastSpan = lastSpan, folded m_def rest_def]) (rule that)
  show ?case
  proof (cases "i < m")
    case True
    then have "i = 0" using "2.prems"(2) starts_in_run [OF r(2) True] unfolding r(1) by simp
    then show ?thesis by simp
  next
    case False
    then have s: "starts rest (i - m)" using "2.prems"(2) starts_after_run [OF r(2,3), of i] unfolding r(1) by simp
    then have ne: "rest \<noteq> []" by (auto simp add: starts_def)
    have IH: "sum_list (map snd (take (i - m) (spread_loop mts base nextMs lastSpan rest)))
        = tsScale mts (rest ! (i - m)) - tsScale mts (hd rest)"
      using "2.IH" [OF m_def rest_def refl refl refl room(1) s] .
    have "sum_list (map snd (spread_block (tsScale mts b - base) e m)) = tsScale mts (hd rest) - tsScale mts b"
      using spread_block_sum [OF e(1) r(2)] e(3) [OF ne room(2) [OF ne]] ne by simp
    moreover have "(b # bs) ! i = rest ! (i - m)" unfolding r(1) using False by (simp add: nth_append)
    ultimately show ?thesis using False IH unfolding e(2) by simp
  qed
qed
section \<open>Reconstruction from presentation times\<close>

lemma length_diffs [simp]: "length (diffs xs) = length xs - 1"
  by (induction xs rule: diffs.induct) simp_all

lemma sum_diffs: "i < length xs \<Longrightarrow> sum_list (take i (diffs xs)) = xs ! i - xs ! 0"
proof (induction xs arbitrary: i rule: diffs.induct)
  case (1 x y zs)
  show ?case
  proof (cases i)
    case (Suc j)
    then have "sum_list (take j (diffs (y # zs))) = (y # zs) ! j - y" using 1 by simp
    with Suc show ?thesis by simp
  qed simp
qed simp_all

lemma diffs_sorted: "sorted xs \<Longrightarrow> d \<in> set (diffs xs) \<Longrightarrow> 0 \<le> d"
  by (induction xs rule: diffs.induct) auto

lemma to_int32_id: "- (2 ^ 31) \<le> x \<Longrightarrow> x < 2 ^ 31 \<Longrightarrow> to_int32 x = x"
  by (simp add: to_int32_def signed_of_int signed_take_bit_int_eq_self)

abbreviation dts_of :: "sample list \<Rightarrow> u32 \<Rightarrow> int list" where
  "dts_of ss mts \<equiv> sort (map (\<lambda>s. tsScale mts (pts s)) ss)"

lemma reconstruct_reordered:
  assumes "ss \<noteq> []" "g < 0" "g \<noteq> gridSpread"
  shows "durations (reconstructTiming ss lastDurMs mts g)
           = diffs (dts_of ss mts) @ [last_duration mts lastDurMs (diffs (dts_of ss mts))]"
    and "ctts (reconstructTiming ss lastDurMs mts g)
           = map to_int32 (map (\<lambda>(s, d). tsScale mts (pts s) - d) (zip ss (dts_of ss mts)))"
    and "hasCTTS (reconstructTiming ss lastDurMs mts g)
           = list_ex (\<lambda>x. x \<noteq> 0) (map (\<lambda>(s, d). tsScale mts (pts s) - d) (zip ss (dts_of ss mts)))"
  using assms by (simp_all add: reconstructTiming_def Let_def)

lemma reconstruct_sample:
  fixes lastDurMs :: int
  assumes "i < length ss" and "g < 0" and "g \<noteq> gridSpread"
    and "\<bar>tsScale mts (pts (ss ! i)) - dts_of ss mts ! i\<bar> < 2 ^ 31"
  defines "t \<equiv> reconstructTiming ss lastDurMs mts g"
  shows "dts_of ss mts ! 0 + sum_list (take i (durations t)) + ctts t ! i = tsScale mts (pts (ss ! i))"
    and "i + 1 < length ss \<Longrightarrow> 0 \<le> durations t ! i"
    and "\<not> hasCTTS t \<Longrightarrow> ctts t ! i = 0"
proof -
  have ne: "ss \<noteq> []" using assms(1) by auto
  note r = reconstruct_reordered [OF ne assms(2,3), where mts = mts and lastDurMs = lastDurMs, folded t_def]
  have l: "i < length (dts_of ss mts)" using assms(1) by simp
  have "take i (durations t) = take i (diffs (dts_of ss mts))" using assms(1) by (simp add: r(1))
  then have s: "sum_list (take i (durations t)) = dts_of ss mts ! i - dts_of ss mts ! 0" using sum_diffs [OF l] by simp
  have c: "ctts t ! i = tsScale mts (pts (ss ! i)) - dts_of ss mts ! i"
    using assms(1,4) by (simp add: r(2) to_int32_id)
  show "dts_of ss mts ! 0 + sum_list (take i (durations t)) + ctts t ! i = tsScale mts (pts (ss ! i))"
    using s c by simp
  show "0 \<le> durations t ! i" if "i + 1 < length ss"
  proof -
    have "durations t ! i = diffs (dts_of ss mts) ! i" using that by (simp add: r(1) nth_append less_diff_conv)
    moreover have "diffs (dts_of ss mts) ! i \<in> set (diffs (dts_of ss mts))" using that by (intro nth_mem) simp
    moreover have "sorted (dts_of ss mts)" by simp
    ultimately show ?thesis using diffs_sorted by metis
  qed
  show "ctts t ! i = 0" if "\<not> hasCTTS t"
  proof -
    let ?f = "\<lambda>(s, d). tsScale mts (pts s) - d"
    have "\<forall>x \<in> set (zip ss (dts_of ss mts)). ?f x = 0" using that unfolding r(3) list_ex_iff by auto
    moreover have "(ss ! i, dts_of ss mts ! i) \<in> set (zip ss (dts_of ss mts))"
      using assms(1) by (auto simp add: in_set_zip)
    ultimately show ?thesis using c by fastforce
  qed
qed

section \<open>Properties\<close>

text \<open>
  C33. Reordered video: adding the decode durations up to a sample and its composition offset to the
  first decode time gives back the presentation time of the sample, none of the durations before the
  last is negative, and the offsets are left out only when every one of them is zero.
\<close>

theorem reconstruct_presents:
  assumes "i < length ss" and "g < 0" and "g \<noteq> gridSpread"
    and "\<bar>tsScale mts (pts (ss ! i)) - dts_of ss mts ! i\<bar> < 2 ^ 31"
  shows "let t = reconstructTiming ss lastDurMs mts g in
      dts_of ss mts ! 0 + sum_list (take i (durations t)) + ctts t ! i = tsScale mts (pts (ss ! i)) \<and>
      (i + 1 < length ss \<longrightarrow> 0 \<le> durations t ! i) \<and> (hasCTTS t \<or> ctts t ! i = 0)"
  using reconstruct_sample [OF assms, of lastDurMs] unfolding Let_def by blast

theorem reconstruct_presents_witness:
  "let t = reconstructTiming (map (\<lambda>p. \<lparr>s_size = 9, pts = p, blockPts = p, sync = p = 0, dur = 0\<rparr>) [0, 80, 40]) 40 1000 (-1)
   in 0 + sum_list (take 1 (durations t)) + ctts t ! 1 = 80 \<and> 0 \<le> durations t ! 1 \<and> (hasCTTS t \<or> ctts t ! 1 = 0)"
  using reconstruct_presents
    [of 1 "map (\<lambda>p. \<lparr>s_size = 9, pts = p, blockPts = p, sync = p = 0, dur = 0\<rparr>) [0, 80, 40]" "-1" 1000 40]
  by (simp add: tsScale_def movieTimescale_def gridSpread_def Let_def)

text \<open>
  C34. Constant-rate audio: a track timed on a grid of stride \<open>g\<close> has one duration per frame, each a
  positive multiple of \<open>g\<close>; a frame that opens a block decodes at the later of the grid slot nearest to
  its block time, which is off by at most half a stride, and the slot after the frame before it.
\<close>

theorem grid_timing:
  assumes "0 < g" and "0 < i" "i < length ss" and "blockPts (ss ! i) \<noteq> blockPts (ss ! (i - 1))"
  shows "let ds = durations (reconstructTiming ss lastDurMs mts g);
             rel = tsScale mts (blockPts (ss ! i)) - tsScale mts (blockPts (ss ! 0))
         in length ds = length ss \<and> (\<forall>d \<in> set ds. g \<le> d \<and> g dvd d) \<and>
            sum_list (take i ds) = max (g * gridIndex rel g) (sum_list (take (i - 1) ds) + g) \<and>
            (0 \<le> rel \<longrightarrow> 2 * \<bar>g * gridIndex rel g - rel\<bar> \<le> g)"
proof -
  obtain s rest where ss: "ss = s # rest" using assms(3) by (cases ss) auto
  obtain j where j: "i = Suc j" "j < length rest" using assms(2,3) ss by (cases i) auto
  let ?a = "tsScale mts (blockPts s)" and ?bs = "map blockPts rest"
  define ds where "ds = grid_durations g mts ?a (blockPts s) 0 ?bs"
  define ks where "ks = slots g mts ?a (blockPts s) 0 ?bs"
  define rel where "rel = tsScale mts (blockPts (rest ! j)) - ?a"
  have d: "durations (reconstructTiming ss lastDurMs mts g) = ds"
    using assms(1) by (simp add: reconstructTiming_def ss Let_def ds_def)
  have s: "sum_list (take k ds) = g * (0 # ks) ! k" if "k \<le> length rest" for k
    using grid_durations_slots [of k ?bs g mts ?a "blockPts s" 0] that by (simp add: ds_def ks_def)
  have pb: "(blockPts s # ?bs) ! j \<noteq> ?bs ! j" using assms(4) j ss by (cases j) simp_all
  have "ks ! j = next_slot g mts ?a ((blockPts s # ?bs) ! j) ((0 # ks) ! j) (?bs ! j)"
    using slots_step [of j ?bs g mts ?a "blockPts s" 0] j by (simp add: ks_def)
  also have "\<dots> = max (gridIndex rel g) ((0 # ks) ! j + 1)"
    using pb j by (auto simp add: next_slot_def Let_def rel_def max_def)
  finally have "g * ks ! j = max (g * gridIndex rel g) (g * ((0 # ks) ! j + 1))"
    using assms(1) by (simp add: max_mult_distrib_left)
  then have m: "sum_list (take i ds) = max (g * gridIndex rel g) (sum_list (take (i - 1) ds) + g)"
    using s [of i] s [of j] j by (simp add: algebra_simps)
  have "length ds = length ss" by (simp add: ds_def ss)
  moreover have "\<forall>x \<in> set ds. g \<le> x \<and> g dvd x"
    using grid_durations_positive [OF assms(1)] unfolding ds_def by blast
  moreover have "2 * \<bar>g * gridIndex rel g - rel\<bar> \<le> g" if "0 \<le> rel"
    using gridIndex_nearest [OF assms(1) that] by (simp add: mult.commute)
  moreover have "tsScale mts (blockPts (ss ! i)) - tsScale mts (blockPts (ss ! 0)) = rel" by (simp add: rel_def ss j)
  ultimately show ?thesis using d m by (simp add: Let_def)
qed
theorem grid_timing_witness:
  "sum_list (take 2 (durations (reconstructTiming
      (map (\<lambda>b. \<lparr>s_size = 9, pts = b, blockPts = b, sync = True, dur = 0\<rparr>) [0, 0, 43]) 0 48000 1024)))
     = max (1024 * gridIndex 2064 1024) (1024 + 1024)"
  using grid_timing [where g = 1024 and i = 2 and mts = 48000 and lastDurMs = 0
      and ss = "map (\<lambda>b. \<lparr>s_size = 9, pts = b, blockPts = b, sync = True, dur = 0\<rparr>) [0, 0, 43]"]
  by (simp add: Let_def tsScale_def movieTimescale_def reconstructTiming_def next_slot_def gridIndex_def wrap64_def)


lemma spread_timing_example: "roomy 1000 [0, 0, 0, 10]"
  unfolding roomy_def
proof (intro allI impI)
  fix i j :: nat
  assume "starts [0, 0, 0, 10] i" "starts [0, 0, 0, 10 :: int] j" "i < j"
  then have "i = 0" "j = 3" unfolding starts_def by (auto simp add: less_Suc_eq numeral_eq_Suc)
  then show "int (j - i) \<le> tsScale 1000 ([0, 0, 0, 10] ! j) - tsScale 1000 ([0, 0, 0, 10] ! i)"
    by (simp add: tsScale_def movieTimescale_def)
qed


text \<open>
  The decode times that \<^verbatim>\<open>spreadLaced\<close> reports are not strictly increasing in general: with laces of
  three frames a millisecond apart, the second block starts over inside the first.
\<close>

lemma spread_decode_times_overlap:
  "map fst (spreadLaced [0, 0, 0, 1, 1, 1] 1000 (-1) (\<lambda>m. m)) = [0, 1, 2, 1, 2, 3]"
  by (simp add: spreadLaced_def spread_loop.simps tsScale_def movieTimescale_def spread_block_def upt_rec)

end
