(* ===== verification/SampleTable.thy ===== *)
theory SampleTable
  imports Mp4Box SampleTiming
begin

text \<open>
  The sample table of an MP4 track: the boxes \<^verbatim>\<open>mp4/sample.go\<close> writes and the ones
  \<^verbatim>\<open>mp4/sampletable.go\<close> reads, the resolution of chunks into sample positions, and the conversion of
  ticks.  A box is written as its bytes; a parser gets the payload of a found box.  Every count is
  checked against the bytes that hold it before an entry is read, as in the code, so the entries of a
  table are a list of slices of its payload.
\<close>

section \<open>Fixed-width entries\<close>

definition tableFits :: "bytes \<Rightarrow> nat \<Rightarrow> u32 \<Rightarrow> nat \<Rightarrow> bool" where
  "tableFits payload hdr n width \<longleftrightarrow>
     length payload \<ge> hdr \<and> unat n \<le> (length payload - hdr) div width"

definition entries :: "nat \<Rightarrow> (bytes \<Rightarrow> 'a) \<Rightarrow> nat \<Rightarrow> nat \<Rightarrow> bytes \<Rightarrow> 'a list" where
  "entries width dec hdr n payload = map (\<lambda>i. dec (slice (hdr + i * width) (hdr + i * width + width) payload)) [0..<n]"

definition table_count :: "bytes \<Rightarrow> u32" where "table_count payload = be_dec (slice 4 8 payload)"

definition dec_u32 :: "bytes \<Rightarrow> u32" where "dec_u32 b = be_dec (take 4 b)"

definition dec_pair :: "bytes \<Rightarrow> u32 \<times> u32" where
  "dec_pair b = (be_dec (slice 0 4 b), be_dec (slice 4 8 b))"

definition enc_pair :: "u32 \<times> u32 \<Rightarrow> bytes" where "enc_pair p = u32_be (fst p) @ u32_be (snd p)"

record stscEntry =
  firstChunk :: u32
  perChunk :: u32

definition dec_stsc :: "bytes \<Rightarrow> stscEntry" where
  "dec_stsc b = \<lparr>firstChunk = be_dec (slice 0 4 b), perChunk = be_dec (slice 4 8 b)\<rparr>"

definition enc_stsc :: "stscEntry \<Rightarrow> bytes" where
  "enc_stsc e = u32_be (firstChunk e) @ u32_be (perChunk e) @ u32_be 1"

section \<open>Writing\<close>

definition stts_typ :: bytes where "stts_typ = [0x73, 0x74, 0x74, 0x73]"
definition stss_typ :: bytes where "stss_typ = [0x73, 0x74, 0x73, 0x73]"
definition ctts_typ :: bytes where "ctts_typ = [0x63, 0x74, 0x74, 0x73]"
definition stsc_typ :: bytes where "stsc_typ = [0x73, 0x74, 0x73, 0x63]"
definition stsz_typ :: bytes where "stsz_typ = [0x73, 0x74, 0x73, 0x7A]"
definition stz2_typ :: bytes where "stz2_typ = [0x73, 0x74, 0x7A, 0x32]"
definition stco_typ :: bytes where "stco_typ = [0x73, 0x74, 0x63, 0x6F]"
definition co64_typ :: bytes where "co64_typ = [0x63, 0x6F, 0x36, 0x34]"

text \<open>The run-length loop of \<^verbatim>\<open>buildSTTS\<close> and \<^verbatim>\<open>buildCTTS\<close>: the last run grows or a new one starts.\<close>

definition rle_step :: "(u32 \<times> 'a) list \<Rightarrow> 'a \<Rightarrow> (u32 \<times> 'a) list" where
  "rle_step runs d =
     (if runs \<noteq> [] \<and> snd (last runs) = d then butlast runs @ [(fst (last runs) + 1, d)]
      else runs @ [(1, d)])"

definition rle :: "'a list \<Rightarrow> (u32 \<times> 'a) list" where "rle ds = foldl rle_step [] ds"

definition counted :: "bytes list \<Rightarrow> bytes" where
  "counted es = u32_be (word_of_nat (length es)) @ concat es"

definition buildSTTS :: "int list \<Rightarrow> bytes" where
  "buildSTTS ds = fullBox stts_typ 0 0 (counted (map enc_pair (rle (map word_of_int ds))))"

definition sync_numbers :: "sample list \<Rightarrow> u32 list" where
  "sync_numbers ss = map (\<lambda>(i, s). word_of_nat (i + 1)) (filter (\<lambda>(i, s). sync s) (enumerate 0 ss))"

definition buildSTSS :: "sample list \<Rightarrow> bytes option" where
  "buildSTSS ss =
     (let nums = sync_numbers ss in
      if length nums = length ss then None else Some (fullBox stss_typ 0 0 (counted (map u32_be nums))))"

definition buildCTTS :: "timing \<Rightarrow> bytes option" where
  "buildCTTS t =
     (if \<not> hasCTTS t then None
      else Some (fullBox ctts_typ 1 0 (counted (map enc_pair (rle (map word_of_int (ctts t)))))))"

fun stsc_runs :: "nat \<Rightarrow> u32 option \<Rightarrow> chunk list \<Rightarrow> stscEntry list" where
  "stsc_runs i prev [] = []"
| "stsc_runs i prev (c # cs) =
     (let spc = word_of_int (count c) in
      if prev = Some spc then stsc_runs (i + 1) prev cs
      else \<lparr>firstChunk = word_of_nat (i + 1), perChunk = spc\<rparr> # stsc_runs (i + 1) (Some spc) cs)"

definition buildSTSC :: "chunk list \<Rightarrow> bytes" where
  "buildSTSC cs = fullBox stsc_typ 0 0 (counted (map enc_stsc (stsc_runs 0 None cs)))"

definition buildSTSZ :: "sample list \<Rightarrow> bytes" where
  "buildSTSZ ss = fullBox stsz_typ 0 0 (u32_be 0 @ counted (map (\<lambda>s. u32_be (s_size s)) ss))"

definition buildChunkOffsets :: "chunk list \<Rightarrow> int \<Rightarrow> bool \<Rightarrow> bytes" where
  "buildChunkOffsets cs base co64 =
     (if co64 then fullBox co64_typ 0 0 (counted (map (\<lambda>c. u64_be (word_of_int base + offset c)) cs))
      else fullBox stco_typ 0 0 (counted (map (\<lambda>c. u32_be (ucast (word_of_int base + offset c))) cs)))"

section \<open>Reading\<close>

definition maxSamples :: int where "maxSamples = 2 ^ 24"

definition maxInt32 :: u32 where "maxInt32 = 0x7FFFFFFF"

definition mustFind :: "memBox list \<Rightarrow> bytes \<Rightarrow> bytes" where
  "mustFind boxes t = (case findMemBox boxes t of None \<Rightarrow> [] | Some b \<Rightarrow> mb_payload b)"

definition parseStsz :: "bytes \<Rightarrow> int \<Rightarrow> u32 list result" where
  "parseStsz payload fileSize =
     (if length payload < 12 then Inl (Errf ''stsz too short'')
      else let sampleSize = be_dec (slice 4 8 payload) :: u32;
               n = be_dec (slice 8 12 payload) :: u32
      in if uint n > maxSamples then Inl (Errf ''stsz sample_count exceeds limit'')
         else if sampleSize \<noteq> 0 then
           (if fileSize > 0 \<and> uint n * uint sampleSize > fileSize
            then Inl (Errf ''stsz constant-size table exceeds file size'')
            else Inr (replicate (unat n) sampleSize))
         else if \<not> tableFits payload 12 n 4 then Inl (Errf ''stsz is too short'')
         else Inr (entries 4 dec_u32 12 (unat n) payload))"

definition parseChunkOffsets :: "memBox list \<Rightarrow> int list result" where
  "parseChunkOffsets boxes =
     (case findMemBox boxes stco_typ of
        Some stco \<Rightarrow>
          let p = mb_payload stco; n = table_count p in
          if length p < 8 then Inl (Errf ''stco too short'')
          else if \<not> tableFits p 8 n 4 then Inl (Errf ''stco is too short'')
          else Inr (map uint (entries 4 dec_u32 8 (unat n) p))
      | None \<Rightarrow>
         (case findMemBox boxes co64_typ of
            Some co64 \<Rightarrow>
              let p = mb_payload co64; n = table_count p in
              if length p < 8 then Inl (Errf ''co64 too short'')
              else if \<not> tableFits p 8 n 8 then Inl (Errf ''co64 is too short'')
              else Inr (map sint (entries 8 (be_dec :: bytes \<Rightarrow> u64) 8 (unat n) p))
          | None \<Rightarrow> Inl (Errf ''stbl without stco/co64'')))"

definition parseStsc :: "bytes \<Rightarrow> stscEntry list result" where
  "parseStsc p =
     (if length p < 8 then Inl (Errf ''stsc too short'')
      else if \<not> tableFits p 8 (table_count p) 12 then Inl (Errf ''stsc is too short'')
      else Inr (entries 12 dec_stsc 8 (unat (table_count p)) p))"

text \<open>The samples per chunk of a chunk: by a scan of the entries, and by the cursor that only moves on.\<close>

fun spc_scan :: "u32 \<Rightarrow> u32 \<Rightarrow> stscEntry list \<Rightarrow> u32" where
  "spc_scan c spc [] = spc"
| "spc_scan c spc (e # es) = (if c \<ge> firstChunk e then spc_scan c (perChunk e) es else spc)"

definition samplesForChunk :: "u32 \<Rightarrow> stscEntry list \<Rightarrow> u32" where
  "samplesForChunk c es = spc_scan c 0 es"

fun advance :: "u32 \<Rightarrow> stscEntry list \<Rightarrow> stscEntry list" where
  "advance c (e # e' # es) = (if firstChunk e' \<le> c then advance c (e' # es) else e # e' # es)"
| "advance c es = es"

definition cursor_spc :: "u32 \<Rightarrow> stscEntry list \<Rightarrow> u32" where
  "cursor_spc c cur = (case cur of [] \<Rightarrow> 0 | e # _ \<Rightarrow> if c \<ge> firstChunk e then perChunk e else 0)"

text \<open>
  \<^verbatim>\<open>parseStts\<close> and \<^verbatim>\<open>parseCtts\<close> expand their runs up to the number of samples; what the table leaves out
  stays zero.
\<close>

fun expand_runs :: "nat \<Rightarrow> (u32 \<times> 'a) list \<Rightarrow> 'a list" where
  "expand_runs n [] = []"
| "expand_runs n ((c, x) # rs) =
     (if n = 0 then [] else let k = min (unat c) n in replicate k x @ expand_runs (n - k) rs)"

definition pad_to :: "nat \<Rightarrow> 'a \<Rightarrow> 'a list \<Rightarrow> 'a list" where
  "pad_to n z xs = xs @ replicate (n - length xs) z"

definition clip_delta :: "u32 \<times> u32 \<Rightarrow> u32 \<times> u32" where
  "clip_delta p = (fst p, if snd p > maxInt32 then 1 else snd p)"

definition parseStts :: "bytes \<Rightarrow> nat \<Rightarrow> u32 list result" where
  "parseStts p n =
     (if length p < 8 then (if n = 0 then Inr [] else Inl (Errf ''stts missing or too short''))
      else if \<not> tableFits p 8 (table_count p) 8 then Inl (Errf ''stts is too short'')
      else Inr (pad_to n 0 (expand_runs n (map clip_delta (entries 8 dec_pair 8 (unat (table_count p)) p)))))"

definition sttsHasNegativeDelta :: "memBox list \<Rightarrow> bool" where
  "sttsHasNegativeDelta boxes =
     (case findMemBox boxes stts_typ of
        None \<Rightarrow> False
      | Some stts \<Rightarrow>
          let p = mb_payload stts in
          if length p < 8 then False
          else list_ex (\<lambda>e. snd e > maxInt32)
                 (entries 8 dec_pair 8 (min (unat (table_count p)) ((length p - 8) div 8)) p))"

definition parseCtts :: "memBox list \<Rightarrow> nat \<Rightarrow> int list" where
  "parseCtts boxes n =
     (case findMemBox boxes ctts_typ of
        None \<Rightarrow> replicate n 0
      | Some b \<Rightarrow>
          let p = mb_payload b in
          if length p < 8 then replicate n 0
          else if \<not> tableFits p 8 (table_count p) 8 then replicate n 0
          else pad_to n 0 (map sint (expand_runs n (entries 8 dec_pair 8 (unat (table_count p)) p))))"

text \<open>The sync samples as a set of numbers; \<open>None\<close> stands for every sample.\<close>

definition parseStssN :: "memBox list \<Rightarrow> nat \<Rightarrow> nat list option" where
  "parseStssN boxes n =
     (case findMemBox boxes stss_typ of
        None \<Rightarrow> None
      | Some b \<Rightarrow>
          let p = mb_payload b in
          if length p < 8 then None
          else Some (filter (\<lambda>v. 1 \<le> v \<and> v \<le> n)
                 (map unat (entries 4 dec_u32 8 (min (unat (table_count p)) ((length p - 8) div 4)) p))))"

definition is_sync :: "nat list option \<Rightarrow> nat \<Rightarrow> bool" where
  "is_sync s i \<longleftrightarrow> (case s of None \<Rightarrow> True | Some vs \<Rightarrow> i \<in> set vs)"

definition headerFrameCount :: "memBox list \<Rightarrow> int" where
  "headerFrameCount boxes =
     (let count_of = (\<lambda>t. case findMemBox boxes t of
              Some b \<Rightarrow> if length (mb_payload b) \<ge> 12 then Some (uint (be_dec (slice 8 12 (mb_payload b)) :: u32)) else None
            | None \<Rightarrow> None)
      in case count_of stsz_typ of
           Some n \<Rightarrow> n
         | None \<Rightarrow> (case count_of stz2_typ of Some n \<Rightarrow> n | None \<Rightarrow> 0))"

section \<open>Ticks\<close>

definition scaleTicks :: "int \<Rightarrow> u32 \<Rightarrow> int \<Rightarrow> int" where
  "scaleTicks ticks timescale unit =
     (let ts = uint timescale; q = go_div ticks ts; r = go_mod ticks ts in
      if q > go_div int64_max unit then int64_max
      else if q < go_div int64_min unit then int64_min
      else wrap64 (wrap64 (q * unit) + go_div (wrap64 (r * unit)) ts))"

definition ticksToMs :: "int \<Rightarrow> u32 \<Rightarrow> int" where
  "ticksToMs ticks timescale =
     (if timescale = 0 then ticks
      else if ticks > go_div int64_max 1000 \<or> ticks < go_div int64_min 1000 then scaleTicks ticks timescale 1000
      else go_div (wrap64 (ticks * 1000)) (uint timescale))"

definition ticksToNs :: "int \<Rightarrow> u32 \<Rightarrow> int" where
  "ticksToNs ticks timescale =
     (if timescale = 0 then ticks
      else if ticks > go_div int64_max 1000000000 \<or> ticks < go_div int64_min 1000000000
      then scaleTicks ticks timescale 1000000000
      else go_div (wrap64 (wrap64 (ticks * 1000000000) + go_div (uint timescale) 2)) (uint timescale))"

section \<open>Resolving the table\<close>

record inSample =
  i_offset :: int
  dtsMs :: int
  ctsMs :: int
  durMs :: int
  ctsTicks :: int
  i_size :: u32
  i_sync :: bool
  i_run :: bool

record inTrack =
  timescale :: u32
  editShiftMs :: int
  cutEnd :: int
  i_samples :: "inSample list"

record placed =
  p_offset :: int
  p_size :: u32
  p_run :: bool

text \<open>
  The samples of one chunk (\<open>k\<close> of them still to come, \<open>si\<close> placed so far in all chunks): done, cut at the
  end of the file (where the sample would end), or an error, with \<^verbatim>\<open>cutEnd\<close> when it was set.
\<close>

datatype placement =
    Placed "placed list" "u32 list"
  | Cut "placed list" int
  | Outside "int option"

fun prepend :: "placed \<Rightarrow> placement \<Rightarrow> placement" where
  "prepend p (Placed ps sizes) = Placed (p # ps) sizes"
| "prepend p (Cut ps e) = Cut (p # ps) e"
| "prepend p (Outside c) = Outside c"

fun place_chunk :: "int \<Rightarrow> nat \<Rightarrow> nat \<Rightarrow> bool \<Rightarrow> int \<Rightarrow> u32 list \<Rightarrow> placement" where
  "place_chunk fileSize si 0 first pos sizes = Placed [] sizes"
| "place_chunk fileSize si (Suc k) first pos [] = Placed [] []"
| "place_chunk fileSize si (Suc k) first pos (sz # sizes) =
     (let e = wrap64 (pos + uint sz) in
      if pos < 0 \<or> e < pos then Outside None
      else if e > fileSize then (if si > 0 then Cut [] e else Outside (Some e))
      else prepend \<lparr>p_offset = pos, p_size = sz, p_run = first\<rparr>
             (place_chunk fileSize (Suc si) k False e sizes))"

fun prepend_all :: "placed list \<Rightarrow> placement \<Rightarrow> placement" where
  "prepend_all [] r = r"
| "prepend_all (p # ps) r = prepend p (prepend_all ps r)"

text \<open>The chunks in order: \<open>ci\<close> is the index of the next one, the cursor the entries from \<^verbatim>\<open>ei\<close> on.\<close>

fun place_chunks :: "int \<Rightarrow> nat \<Rightarrow> nat \<Rightarrow> stscEntry list \<Rightarrow> int list \<Rightarrow> u32 list \<Rightarrow> placement" where
  "place_chunks fileSize si ci cur [] sizes = Placed [] sizes"
| "place_chunks fileSize si ci cur (off # offs) sizes =
     (let c = word_of_nat (ci + 1); cur = advance c cur in
      case place_chunk fileSize si (unat (cursor_spc c cur)) True off sizes of
        Placed ps sizes \<Rightarrow> prepend_all ps (place_chunks fileSize (si + length ps) (ci + 1) cur offs sizes)
      | r \<Rightarrow> r)"

text \<open>The presentation time in milliseconds with the edit-list shift, none before the edit starts.\<close>

definition clamped_cts :: "u32 \<Rightarrow> int \<Rightarrow> int \<Rightarrow> int" where
  "clamped_cts ts shift ticks =
     (let cts = wrap64 (ticksToMs ticks ts + shift) in if cts < 0 then 0 else cts)"

fun resolve_times :: "u32 \<Rightarrow> int \<Rightarrow> nat list option \<Rightarrow> nat \<Rightarrow> int \<Rightarrow> placed list \<Rightarrow> int list \<Rightarrow> u32 list \<Rightarrow> inSample list" where
  "resolve_times ts shift sy i dts (p # ps) (off # offs) (d # ds) =
     (let cts = clamped_cts ts shift (dts + off)
      in \<lparr>i_offset = p_offset p, dtsMs = ticksToMs dts ts, ctsMs = cts, durMs = ticksToMs (uint d) ts,
          ctsTicks = dts + off, i_size = p_size p, i_sync = is_sync sy (i + 1), i_run = p_run p\<rparr>
         # resolve_times ts shift sy (i + 1) (dts + uint d) ps offs ds)"
| "resolve_times ts shift sy i dts _ _ _ = []"

definition buildSampleTable :: "inTrack \<Rightarrow> memBox list \<Rightarrow> int \<Rightarrow> unit result \<times> inTrack" where
  "buildSampleTable tr boxes fileSize =
     (case findMemBox boxes stsz_typ of
        None \<Rightarrow> (Inl (Errf ''stbl without stsz''), tr)
      | Some stsz \<Rightarrow>
     (case parseStsz (mb_payload stsz) fileSize of
        Inl e \<Rightarrow> (Inl e, tr)
      | Inr sizes \<Rightarrow>
     (case parseChunkOffsets boxes of
        Inl e \<Rightarrow> (Inl e, tr)
      | Inr offs \<Rightarrow>
     (case findMemBox boxes stsc_typ of
        None \<Rightarrow> (Inl (Errf ''stbl without stsc''), tr)
      | Some stsc \<Rightarrow>
     (case parseStsc (mb_payload stsc) of
        Inl e \<Rightarrow> (Inl e, tr)
      | Inr es \<Rightarrow>
     (case parseStts (mustFind boxes stts_typ) (length sizes) of
        Inl e \<Rightarrow> (Inl e, tr)
      | Inr ds \<Rightarrow>
        let offsets = parseCtts boxes (length sizes);
            sy = parseStssN boxes (length sizes);
            tms = (\<lambda>ps. resolve_times (timescale tr) (editShiftMs tr) sy 0 0 ps offsets ds)
        in (case place_chunks fileSize 0 0 es offs sizes of
              Outside c \<Rightarrow> (Inl (Errf ''sample is outside the file''),
                            case c of None \<Rightarrow> tr | Some e \<Rightarrow> tr\<lparr>cutEnd := e\<rparr>)
            | Cut ps e \<Rightarrow> (Inr (), tr\<lparr>cutEnd := e, i_samples := tms ps\<rparr>)
            | Placed ps rest \<Rightarrow>
                if rest \<noteq> [] then (Inl (Errf ''chunk table does not cover the samples''), tr)
                else (Inr (), tr\<lparr>i_samples := tms ps\<rparr>))))))))"

section \<open>Key frames\<close>

fun drop_repeats :: "int \<Rightarrow> int list \<Rightarrow> int list" where
  "drop_repeats lst [] = []"
| "drop_repeats lst (v # vs) = (if v \<noteq> lst then v # drop_repeats v vs else drop_repeats lst vs)"

definition sortDedupTimes :: "int list \<Rightarrow> int list" where
  "sortDedupTimes tms = (case sort tms of [] \<Rightarrow> [] | v # vs \<Rightarrow> v # drop_repeats v vs)"

fun keyframe_loop :: "u32 \<Rightarrow> int \<Rightarrow> nat list option \<Rightarrow> nat \<Rightarrow> int \<Rightarrow> int list \<Rightarrow> u32 list \<Rightarrow> int \<Rightarrow> int list \<times> int" where
  "keyframe_loop ts shift sy i dts (off # offs) (d # ds) endMs =
     (let cts = clamped_cts ts shift (dts + off);
          (tms, e) = keyframe_loop ts shift sy (i + 1) (dts + uint d) offs ds cts
      in (if is_sync sy (i + 1) then cts # tms else tms, e))"
| "keyframe_loop ts shift sy i dts _ _ endMs = ([], endMs)"

definition buildKeyframeTimes :: "memBox list \<Rightarrow> u32 \<Rightarrow> int \<Rightarrow> bool \<Rightarrow> int \<Rightarrow> (int list \<times> int) result" where
  "buildKeyframeTimes boxes ts shift collectSync fileSize =
     (let fc = headerFrameCount boxes in
      if fc \<le> 0 then Inr ([], 0)
      else if fc > maxSamples then Inl (Errf ''stsz sample_count exceeds limit'')
      else if fileSize > 0 \<and> fc > fileSize then Inl (Errf ''stsz lists more samples than the file holds'')
      else (case findMemBox boxes stts_typ of
         None \<Rightarrow> Inr ([], 0)
       | Some stts \<Rightarrow>
           (case parseStts (mb_payload stts) (nat fc) of
              Inl e \<Rightarrow> Inl e
            | Inr ds \<Rightarrow>
                let sy = (if collectSync then parseStssN boxes (nat fc) else None);
                    (tms, e) = keyframe_loop ts shift sy 0 0 (parseCtts boxes (nat fc)) ds 0
                in Inr (if collectSync then sortDedupTimes tms else [], e))))"
section \<open>Tables of fixed-width entries\<close>

text \<open>
  What the writer of an entry and its reader agree on.  Everything the tables below need of an entry
  follows from the width and the round trip of one entry.
\<close>

definition full_payload :: "byte \<Rightarrow> u32 \<Rightarrow> bytes \<Rightarrow> bytes" where
  "full_payload version flags body = version # u24_be flags @ body"

lemma fullBox_payload: "fullBox t v f body = box t (full_payload v f body)"
  by (simp add: fullBox_def full_payload_def)

lemma length_full_payload [simp]: "length (full_payload v f body) = 4 + length body"
  by (simp add: full_payload_def u24_be_def)

locale entry_codec =
  fixes enc :: "'a \<Rightarrow> bytes" and dec :: "bytes \<Rightarrow> 'a" and width :: nat
  assumes width_pos: "0 < width"
    and length_enc: "length (enc x) = width"
    and dec_enc: "dec (enc x) = x"
begin

lemma length_concat_enc: "length (concat (map enc xs)) = length xs * width"
  by (induction xs) (simp_all add: length_enc)

lemma slice_nth:
  "i < length xs \<Longrightarrow> slice (i * width) (i * width + width) (concat (map enc xs) @ rest) = enc (xs ! i)"
proof (induction xs arbitrary: i)
  case (Cons x xs)
  show ?case
  proof (cases i)
    case 0
    then show ?thesis by (simp add: slice_def length_enc)
  next
    case (Suc j)
    have "slice (i * width) (i * width + width) (concat (map enc (x # xs)) @ rest)
        = slice (j * width) (j * width + width) (concat (map enc xs) @ rest)"
      using Suc by (simp add: slice_def length_enc)
    with Suc Cons show ?thesis by simp
  qed
qed simp

lemma entries_enc:
  assumes "length h = hdr"
  shows "entries width dec hdr (length xs) (h @ concat (map enc xs) @ rest) = xs"
proof (rule nth_equalityI)
  fix i
  assume "i < length (entries width dec hdr (length xs) (h @ concat (map enc xs) @ rest))"
  then have i: "i < length xs" by (simp add: entries_def)
  have "slice (hdr + i * width) (hdr + i * width + width) (h @ concat (map enc xs) @ rest) = enc (xs ! i)"
    using slice_append_right [of h "hdr + i * width" "hdr + i * width + width"] slice_nth [OF i] assms by simp
  with i show "entries width dec hdr (length xs) (h @ concat (map enc xs) @ rest) ! i = xs ! i"
    by (simp add: entries_def dec_enc)
qed (simp add: entries_def)

lemma fits_enc:
  assumes "length h = hdr" "length xs < 2 ^ 32"
  shows "tableFits (h @ concat (map enc xs)) hdr (word_of_nat (length xs)) width"
  using assms width_pos by (simp add: tableFits_def length_concat_enc unsigned_of_nat take_bit_nat_eq_self)

text \<open>A full box with a counted table: the count, the check of the size, and the entries.\<close>

lemma counted_table:
  fixes v :: byte and f :: u32
  assumes "length xs < 2 ^ 32" and "length h = hdr - 8" and "8 \<le> hdr"
  defines "p \<equiv> full_payload v f (h @ counted (map enc xs))"
  shows "slice (hdr - 4) hdr p = u32_be (word_of_nat (length xs))"
    and "tableFits p hdr (word_of_nat (length xs)) width"
    and "entries width dec hdr (unat (word_of_nat (length xs) :: u32)) p = xs"
proof -
  define h' where "h' = v # u24_be f @ h @ u32_be (word_of_nat (length xs))"
  have p: "p = h' @ concat (map enc xs) @ []" by (simp add: p_def h'_def full_payload_def counted_def)
  have h': "length h' = hdr" using assms(2,3) by (simp add: h'_def u24_be_def u32_be_dec)
  have n: "unat (word_of_nat (length xs) :: u32) = length xs"
    using assms(1) by (simp add: unsigned_of_nat take_bit_nat_eq_self)
  show "tableFits p hdr (word_of_nat (length xs)) width" using fits_enc [OF h' assms(1)] by (simp add: p)
  show "entries width dec hdr (unat (word_of_nat (length xs) :: u32)) p = xs"
    unfolding n p by (rule entries_enc [OF h'])
  have "slice (hdr - 4) hdr p = slice (hdr - 4) hdr h'" unfolding p using h' by (intro slice_append_left) simp
  also have "h' = (v # u24_be f @ h) @ u32_be (word_of_nat (length xs))" by (simp add: h'_def)
  also have "slice (hdr - 4) hdr \<dots> = u32_be (word_of_nat (length xs))"
  proof -
    have "length (v # u24_be f @ h) = hdr - 4" using assms(2,3) by (simp add: u24_be_def)
    then show ?thesis using assms(3) by (simp add: slice_append_right slice_def u32_be_dec del: append_Cons)
  qed
  finally show "slice (hdr - 4) hdr p = u32_be (word_of_nat (length xs))" .
qed

lemma plain_table:
  fixes v :: byte and f :: u32
  assumes "length xs < 2 ^ 32"
  defines "p \<equiv> full_payload v f (counted (map enc xs))"
  shows "table_count p = word_of_nat (length xs)" and "tableFits p 8 (word_of_nat (length xs)) width"
    and "entries width dec 8 (unat (word_of_nat (length xs) :: u32)) p = xs" and "\<not> length p < 8"
  using counted_table [of xs "[]" 8 v f] assms(1)
  by (simp_all add: p_def table_count_def u32_be_dec) (simp add: counted_def u32_be_dec)

end

lemma slice_u32 [slice_simps]: "slice 0 4 (u32_be a @ r) = u32_be a" "slice 4 8 (u32_be a @ u32_be b @ r) = u32_be b"
  "slice 4 8 (u32_be a @ u32_be b) = u32_be b"
  by (simp_all add: slice_def u32_be_dec)

interpretation u32s: entry_codec u32_be dec_u32 4
  by unfold_locales (simp_all add: u32_be_dec dec_u32_def)

interpretation u64s: entry_codec u64_be be_dec 8
  by unfold_locales (simp_all add: u64_be_dec)

interpretation pairs: entry_codec enc_pair dec_pair 8
  by unfold_locales (simp_all add: enc_pair_def dec_pair_def u32_be_dec slice_simps)

interpretation stscs: entry_codec enc_stsc dec_stsc 12
  by unfold_locales (simp_all add: enc_stsc_def dec_stsc_def u32_be_dec slice_simps)

section \<open>Runs\<close>

definition unrle :: "(u32 \<times> 'a) list \<Rightarrow> 'a list" where
  "unrle rs = concat (map (\<lambda>(c, x). replicate (unat c) x) rs)"

lemma unrle_append [simp]: "unrle (xs @ ys) = unrle xs @ unrle ys" "unrle [] = []" "unrle [(c, x)] = replicate (unat c) x"
  by (simp_all add: unrle_def)

lemma unrle_Cons [simp]: "unrle ((c, x) # rs) = replicate (unat c) x @ unrle rs"
  by (simp add: unrle_def)

lemma expand_runs_take: "expand_runs n rs = take n (unrle rs)"
  by (induction n rs rule: expand_runs.induct) (simp_all add: min_def Let_def)

lemma unrle_step:
  assumes "length (unrle rs) < 2 ^ 32 - 1"
  shows "unrle (rle_step rs d) = unrle rs @ [d]"
proof (cases "rs \<noteq> [] \<and> snd (last rs) = d")
  case True
  then obtain rs' c where rs: "rs = rs' @ [(c, d)]" by (metis append_butlast_last_id prod.collapse)
  have "unat c < 2 ^ 32 - 1" using assms by (simp add: rs)
  then have "unat (c + 1) = Suc (unat c)" by (simp add: unat_add_lem [THEN iffD1])
  then show ?thesis by (simp add: rle_step_def rs replicate_append_same)
next
  case False
  then show ?thesis unfolding rle_step_def if_not_P [OF False] by simp
qed

lemma unrle_foldl:
  "length (unrle rs) + length ds < 2 ^ 32 \<Longrightarrow> unrle (foldl rle_step rs ds) = unrle rs @ ds"
proof (induction ds arbitrary: rs)
  case (Cons d ds)
  then have "unrle (rle_step rs d) = unrle rs @ [d]" by (intro unrle_step) simp
  with Cons show ?case by simp
qed simp

lemma unrle_rle: "length ds < 2 ^ 32 \<Longrightarrow> unrle (rle ds) = ds"
  using unrle_foldl [of "[]" ds] by (simp add: rle_def)

lemma rle_step_props:
  "length (rle_step rs d) \<le> Suc (length rs)" "snd ` set (rle_step rs d) \<subseteq> insert d (snd ` set rs)"
  by (auto simp add: rle_step_def in_set_butlastD dest: in_set_butlastD)

lemma rle_foldl_props:
  "length (foldl rle_step rs ds) \<le> length rs + length ds"
  "snd ` set (foldl rle_step rs ds) \<subseteq> snd ` set rs \<union> set ds"
proof (induction ds arbitrary: rs)
  case (Cons d ds)
  { case 1 show ?case using Cons(1) [of "rle_step rs d"] rle_step_props(1) [of rs d] by simp }
  { case 2 show ?case using Cons(2) [of "rle_step rs d"] rle_step_props(2) [of rs d] by auto }
qed simp_all

lemma length_rle: "length (rle ds) \<le> length ds"
  using rle_foldl_props(1) [of "[]" ds] by (simp add: rle_def)

lemma snd_rle: "snd ` set (rle ds) \<subseteq> set ds"
  using rle_foldl_props(2) [of "[]" ds] by (simp add: rle_def)
section \<open>Lengths\<close>

lemma length_expand_runs: "length (expand_runs n rs) \<le> n"
  by (simp add: expand_runs_take)

lemma length_pad_to [simp]: "length xs \<le> n \<Longrightarrow> length (pad_to n z xs) = n"
  by (simp add: pad_to_def)

lemma length_parseStts: "parseStts p n = Inr ds \<Longrightarrow> length ds = n"
  by (auto simp add: parseStts_def length_expand_runs split: if_splits)

lemma length_parseCtts [simp]: "length (parseCtts boxes n) = n"
  by (auto simp add: parseCtts_def length_expand_runs Let_def split: option.splits)

lemma length_entries [simp]: "length (entries w d h n p) = n"
  by (simp add: entries_def)

lemma length_parseStsz:
  "parseStsz p fileSize = Inr sizes \<Longrightarrow>
   length p \<ge> 12 \<and> length sizes = unat (be_dec (slice 8 12 p) :: u32) \<and> int (length sizes) \<le> maxSamples"
  by (auto simp add: parseStsz_def Let_def split: if_splits)

section \<open>Samples stay in the file\<close>

fun placed_of :: "placement \<Rightarrow> placed list" where
  "placed_of (Placed ps _) = ps"
| "placed_of (Cut ps _) = ps"
| "placed_of (Outside _) = []"

definition in_file :: "int \<Rightarrow> placed \<Rightarrow> bool" where
  "in_file fileSize p \<longleftrightarrow> 0 \<le> p_offset p \<and> p_offset p + uint (p_size p) \<le> fileSize"
lemma wrap64_forward:
  assumes "0 \<le> pos" "pos \<le> int64_max" "pos \<le> wrap64 (pos + uint (sz :: u32))"
  shows "wrap64 (pos + uint sz) = pos + uint sz" "pos + uint sz \<le> int64_max"
proof -
  have u: "0 \<le> uint sz" "uint sz < 2 ^ 32" using uint_lt2p [of sz] by simp_all
  have le: "pos + uint sz \<le> int64_max"
  proof (rule ccontr)
    assume "\<not> pos + uint sz \<le> int64_max"
    define a where "a = pos + uint sz + 2 ^ 63 - 2 ^ 64"
    have "0 \<le> a" "a < 2 ^ 64" using \<open>\<not> pos + uint sz \<le> int64_max\<close> assms(1,2) u by (simp_all add: a_def int64_max_def)
    then have m: "(a + 2 ^ 64) mod 2 ^ 64 = a" by simp
    have e: "pos + uint sz + 2 ^ 63 = a + 2 ^ 64" by (simp add: a_def)
    have "wrap64 (pos + uint sz) = a - 2 ^ 63" unfolding wrap64_def e m by (rule refl)
    then show False using assms u by (simp add: a_def)
  qed
  then show "pos + uint sz \<le> int64_max" .
  moreover have "0 \<le> pos + uint sz" using assms(1) u(1) by (rule add_nonneg_nonneg)
  then have "int64_min \<le> pos + uint sz" by (rule order_trans [rotated]) (simp add: int64_min_def)
  ultimately show "wrap64 (pos + uint sz) = pos + uint sz" by (intro wrap64_id) (simp add: in_int64_def)
qed
text \<open>What a placement may hold: samples in the file, in the order and with the sizes of the table.\<close>

fun placement_ok :: "int \<Rightarrow> u32 list \<Rightarrow> placement \<Rightarrow> bool" where
  "placement_ok fileSize sizes (Placed ps rest) \<longleftrightarrow> list_all (in_file fileSize) ps \<and> sizes = map p_size ps @ rest"
| "placement_ok fileSize sizes (Cut ps e) \<longleftrightarrow>
     list_all (in_file fileSize) ps \<and> e > fileSize \<and> (\<exists>rest. sizes = map p_size ps @ rest \<and> rest \<noteq> [])"
| "placement_ok fileSize sizes (Outside c) \<longleftrightarrow> True"

lemma placement_ok_prepend:
  "in_file fileSize p \<Longrightarrow> placement_ok fileSize sizes r \<Longrightarrow> placement_ok fileSize (p_size p # sizes) (prepend p r)"
  by (cases r) auto

lemma placement_ok_prepend_all:
  "list_all (in_file fileSize) ps \<Longrightarrow> placement_ok fileSize sizes r \<Longrightarrow>
   placement_ok fileSize (map p_size ps @ sizes) (prepend_all ps r)"
  by (induction ps) (simp_all add: placement_ok_prepend)

lemma place_chunk_ok:
  "pos \<le> int64_max \<Longrightarrow> placement_ok fileSize sizes (place_chunk fileSize si k first pos sizes)"
proof (induction fileSize si k first pos sizes rule: place_chunk.induct)
  case (3 fileSize si k first pos sz sizes)
  define e where "e = wrap64 (pos + uint sz)"
  show ?case
  proof (cases "pos < 0 \<or> e < pos")
    case False
    then have e: "e = pos + uint sz" "e \<le> int64_max"
      using wrap64_forward [of pos sz] 3(2) by (simp_all add: e_def)
    show ?thesis
    proof (cases "e > fileSize")
      case False
      have "in_file fileSize \<lparr>p_offset = pos, p_size = sz, p_run = first\<rparr>"
        using False \<open>\<not> (pos < 0 \<or> e < pos)\<close> e by (simp add: in_file_def)
      moreover have "placement_ok fileSize sizes (place_chunk fileSize (Suc si) k False e sizes)"
        using 3(1) [of e] False \<open>\<not> (pos < 0 \<or> e < pos)\<close> e by (simp add: e_def)
      ultimately show ?thesis
        using placement_ok_prepend [of fileSize "\<lparr>p_offset = pos, p_size = sz, p_run = first\<rparr>" sizes] False
          \<open>\<not> (pos < 0 \<or> e < pos)\<close> by (simp add: Let_def flip: e_def)
    qed (use False in \<open>simp add: Let_def flip: e_def\<close>)
  qed (simp add: Let_def flip: e_def)
qed simp_all

lemma place_chunks_ok:
  "list_all (\<lambda>off. off \<le> int64_max) offs \<Longrightarrow> placement_ok fileSize sizes (place_chunks fileSize si ci cur offs sizes)"
proof (induction offs arbitrary: si ci cur sizes)
  case (Cons off offs)
  let ?cur = "advance (word_of_nat (ci + 1)) cur"
  let ?r = "place_chunk fileSize si (unat (cursor_spc (word_of_nat (ci + 1)) ?cur)) True off sizes"
  have ok: "placement_ok fileSize sizes ?r" using Cons.prems by (intro place_chunk_ok) simp
  show ?case
  proof (cases ?r)
    case (Placed ps rest)
    then have "list_all (in_file fileSize) ps" "sizes = map p_size ps @ rest" using ok by simp_all
    then show ?thesis
      using placement_ok_prepend_all Cons.IH [of rest "si + length ps" "ci + 1" ?cur] Cons.prems Placed by (simp add: Let_def)
  qed (use ok in \<open>simp_all add: Let_def\<close>)
qed simp

lemma parseChunkOffsets_bound: "parseChunkOffsets boxes = Inr offs \<Longrightarrow> list_all (\<lambda>off. off \<le> int64_max) offs"
proof -
  have u: "uint (w :: u32) \<le> int64_max" for w
    using uint_lt2p [of w] by (simp add: int64_max_def)
  have s: "sint (w :: u64) \<le> int64_max" for w
    using sint_lt [of w] by (simp add: int64_max_def)
  show "list_all (\<lambda>off. off \<le> int64_max) offs" if "parseChunkOffsets boxes = Inr offs"
    using that u s by (auto simp add: parseChunkOffsets_def Let_def list_all_iff split: option.splits if_splits)
qed

lemma resolve_times_nth:
  "length ps \<le> length offs \<Longrightarrow> length ps \<le> length ds \<Longrightarrow>
   length (resolve_times ts shift sy i dts ps offs ds) = length ps \<and>
   (\<forall>k < length ps. let s = resolve_times ts shift sy i dts ps offs ds ! k in
      i_offset s = p_offset (ps ! k) \<and> i_size s = p_size (ps ! k) \<and> i_run s = p_run (ps ! k) \<and>
      i_sync s = is_sync sy (i + k + 1) \<and>
      ctsTicks s = dts + sum_list (map uint (take k ds)) + offs ! k)"
proof (induction ps arbitrary: i dts offs ds)
  case (Cons p ps)
  obtain off offs' d ds' where o: "offs = off # offs'" "ds = d # ds'" using Cons.prems by (cases offs; cases ds) auto
  note IH = Cons.IH [of offs' ds' "i + 1" "dts + uint d"]
  show ?case
  proof (intro conjI allI impI)
    show "length (resolve_times ts shift sy i dts (p # ps) offs ds) = length (p # ps)"
      using IH Cons.prems by (simp add: o Let_def)
    fix k
    assume "k < length (p # ps)"
    then show "let s = resolve_times ts shift sy i dts (p # ps) offs ds ! k in
      i_offset s = p_offset ((p # ps) ! k) \<and> i_size s = p_size ((p # ps) ! k) \<and> i_run s = p_run ((p # ps) ! k) \<and>
      i_sync s = is_sync sy (i + k + 1) \<and>
      ctsTicks s = dts + sum_list (map uint (take k ds)) + offs ! k"
      using IH Cons.prems by (cases k) (simp_all add: o Let_def add.assoc)
  qed
qed simp
section \<open>The cursor\<close>

definition stsc_regular :: "stscEntry list \<Rightarrow> bool" where
  "stsc_regular es \<longleftrightarrow> es = [] \<or> firstChunk (hd es) \<le> 1 \<or> sorted (map firstChunk es)"

text \<open>The placement with a scan per chunk in place of the cursor.\<close>

fun place_chunks_scan :: "int \<Rightarrow> nat \<Rightarrow> nat \<Rightarrow> stscEntry list \<Rightarrow> int list \<Rightarrow> u32 list \<Rightarrow> placement" where
  "place_chunks_scan fileSize si ci es [] sizes = Placed [] sizes"
| "place_chunks_scan fileSize si ci es (off # offs) sizes =
     (case place_chunk fileSize si (unat (samplesForChunk (word_of_nat (ci + 1)) es)) True off sizes of
        Placed ps sizes \<Rightarrow> prepend_all ps (place_chunks_scan fileSize (si + length ps) (ci + 1) es offs sizes)
      | r \<Rightarrow> r)"

lemma spc_scan_prefix:
  "list_all (\<lambda>e. firstChunk e \<le> c) pre \<Longrightarrow> \<exists>s. spc_scan c spc (pre @ cur) = spc_scan c s cur"
  by (induction pre arbitrary: spc) auto

lemma advance_scan:
  "firstChunk e \<le> c \<Longrightarrow> cursor_spc c (advance c (e # es)) = spc_scan c spc (e # es)"
proof (induction es arbitrary: e spc)
  case (Cons x es)
  then show ?case by (cases "firstChunk x \<le> c") (simp_all add: cursor_spc_def)
qed (simp add: cursor_spc_def)

lemma advance_suffix:
  "firstChunk e \<le> c \<Longrightarrow> \<exists>pre e' es'. e # es = pre @ e' # es' \<and> advance c (e # es) = e' # es' \<and>
     list_all (\<lambda>x. firstChunk x \<le> c) (pre @ [e'])"
proof (induction es arbitrary: e)
  case Nil
  then show ?case by (intro exI [of _ "[]"]) simp
next
  case (Cons x es)
  show ?case
  proof (cases "firstChunk x \<le> c")
    case True
    then obtain pre e' es' where p: "x # es = pre @ e' # es'" "advance c (x # es) = e' # es'"
      "list_all (\<lambda>x. firstChunk x \<le> c) (pre @ [e'])" using Cons.IH by blast
    have "e # x # es = (e # pre) @ e' # es'" using p(1) by simp
    moreover have "advance c (e # x # es) = e' # es'" using p(2) True by simp
    moreover have "list_all (\<lambda>x. firstChunk x \<le> c) ((e # pre) @ [e'])" using p(3) Cons.prems by simp
    ultimately show ?thesis by blast
  next
    case False
    then show ?thesis using Cons.prems by (intro exI [of _ "[]"]) simp
  qed
qed

text \<open>
  Where the cursor stands at a chunk: on the first entry, which starts later; or on an entry that starts
  no later, as do all it has passed.
\<close>

definition cursor_at :: "u32 \<Rightarrow> stscEntry list \<Rightarrow> stscEntry list \<Rightarrow> bool" where
  "cursor_at c es cur \<longleftrightarrow> cur = es \<or>
     (\<exists>pre e es'. es = pre @ e # es' \<and> cur = e # es' \<and> list_all (\<lambda>x. firstChunk x \<le> c) (pre @ [e]))"

lemma cursor_step:
  assumes "stsc_regular es" "1 \<le> c" "cursor_at c es cur"
  shows "cursor_spc c (advance c cur) = samplesForChunk c es" "cursor_at c es (advance c cur)"
proof -
  consider (nil) "es = []" | (early) "cur = es" "es \<noteq> []" "\<not> firstChunk (hd es) \<le> c"
    | (on) pre e es' where "es = pre @ e # es'" "cur = e # es'" "list_all (\<lambda>x. firstChunk x \<le> c) (pre @ [e])"
    using assms(3) unfolding cursor_at_def by (cases es) force+
  then have "cursor_spc c (advance c cur) = samplesForChunk c es \<and> cursor_at c es (advance c cur)"
  proof cases
    case nil
    then have "cur = []" using assms(3) by (auto simp add: cursor_at_def)
    with nil show ?thesis by (simp add: cursor_at_def cursor_spc_def samplesForChunk_def)
  next
    case early
    then obtain e es' where es: "es = e # es'" by (cases es) auto
    have "sorted (map firstChunk es)" using assms(1,2) early unfolding stsc_regular_def by (meson order_trans)
    then have "advance c es = es" using early by (cases es') (auto simp add: es)
    then show ?thesis using early by (simp add: cursor_at_def cursor_spc_def samplesForChunk_def es)
  next
    case on
    then obtain s where "samplesForChunk c es = spc_scan c s (e # es')"
      using spc_scan_prefix [of c pre 0 "e # es'"] by (auto simp add: samplesForChunk_def)
    then have "cursor_spc c (advance c cur) = samplesForChunk c es" using advance_scan [of e c es' s] on by simp
    moreover obtain pre' e' es'' where a: "e # es' = pre' @ e' # es''" "advance c (e # es') = e' # es''"
      "list_all (\<lambda>x. firstChunk x \<le> c) (pre' @ [e'])" using advance_suffix [of e c es'] on(3) by auto
    then have "es = (pre @ pre') @ e' # es'' \<and> list_all (\<lambda>x. firstChunk x \<le> c) ((pre @ pre') @ [e'])" using on by simp
    then have "cursor_at c es (advance c cur)" unfolding cursor_at_def using on(2) a(2) by blast
    ultimately show ?thesis by blast
  qed
  then show "cursor_spc c (advance c cur) = samplesForChunk c es" "cursor_at c es (advance c cur)" by blast+
qed

lemma cursor_at_later:
  assumes "cursor_at c es cur" "c \<le> c'"
  shows "cursor_at c' es cur"
proof -
  have "list_all (\<lambda>x. firstChunk x \<le> c') xs" if "list_all (\<lambda>x. firstChunk x \<le> c) xs" for xs
    using that assms(2) unfolding list_all_iff by (meson order_trans)
  then show ?thesis using assms(1) unfolding cursor_at_def by blast
qed

lemma chunk_number_le: "ci + 1 + length offs < 2 ^ 32 \<Longrightarrow> (word_of_nat (ci + 1) :: u32) \<le> word_of_nat (ci + 1 + 1) \<or> offs = []"
  by (cases offs) (simp_all add: word_le_nat_alt unsigned_of_nat take_bit_nat_eq_self del: of_nat_add of_nat_Suc)

lemma place_chunks_scan:
  assumes "stsc_regular es"
  shows "ci + length offs < 2 ^ 32 \<Longrightarrow> cursor_at (word_of_nat (ci + 1)) es cur \<or> offs = [] \<Longrightarrow>
    place_chunks fileSize si ci cur offs sizes = place_chunks_scan fileSize si ci es offs sizes"
proof (induction offs arbitrary: si ci cur sizes)
  case (Cons off offs)
  let ?c = "word_of_nat (ci + 1) :: u32"
  have "unat ?c = ci + 1" using Cons.prems(1)
    by (simp add: unsigned_of_nat take_bit_nat_eq_self del: of_nat_add of_nat_Suc)
  then have c1: "1 \<le> ?c" by (simp add: word_le_nat_alt)
  have at: "cursor_at ?c es cur" using Cons.prems(2) by simp
  note step = cursor_step [OF assms c1 at]
  have "cursor_at (word_of_nat (ci + 1 + 1)) es (advance ?c cur) \<or> offs = []"
    using chunk_number_le [of ci offs] cursor_at_later [OF step(2)] Cons.prems(1) by auto
  then have IH: "place_chunks fileSize si' (ci + 1) (advance ?c cur) offs sizes'
      = place_chunks_scan fileSize si' (ci + 1) es offs sizes'" for si' sizes'
    using Cons.IH [of "ci + 1" "advance ?c cur" si' sizes'] Cons.prems(1) by simp
  show ?case unfolding place_chunks.simps place_chunks_scan.simps Let_def step(1) IH by (rule refl)
qed simp

section \<open>Ticks\<close>

lemma go_div_split:
  assumes "0 < b"
  shows "go_div (a * u) b = go_div a b * u + go_div (go_mod a b * u) b \<or> u < 0"
proof (cases "0 \<le> u")
  case True
  have pos: "go_div (a * u) b = go_div a b * u + go_div (go_mod a b * u) b" if "0 \<le> a" for a :: int
  proof -
    have "a * u = (a div b * u) * b + a mod b * u"
      by (metis (no_types, lifting) distrib_right div_mult_mod_eq mult.assoc mult.commute)
    then have "a * u div b = a div b * u + (a mod b * u) div b" using assms by simp
    then show ?thesis using that assms True by simp
  qed
  show ?thesis
  proof (cases "0 \<le> a")
    case False
    have n: "go_div (- x) b = - go_div x b" for x by (simp add: go_div_def)
    have m: "go_mod (- x) b = - go_mod x b" for x by (simp add: go_mod_def n)
    from pos [of "- a"] False have "go_div (- (a * u)) b = go_div (- a) b * u + go_div (go_mod (- a) b * u) b" by simp
    then show ?thesis by (simp add: n m)
  qed (simp add: pos)
qed simp
lemma go_div_signs:
  assumes "0 < b"
  shows "0 \<le> a \<Longrightarrow> 0 \<le> go_div a b \<and> 0 \<le> go_mod a b" "a \<le> 0 \<Longrightarrow> go_div a b \<le> 0 \<and> go_mod a b \<le> 0"
proof -
  show p: "0 \<le> go_div a b \<and> 0 \<le> go_mod a b" if "0 \<le> a" for a
    using that assms by (simp add: pos_imp_zdiv_nonneg_iff)
  have n: "go_div (- x) b = - go_div x b" "go_mod (- x) b = - go_mod x b" for x by (simp_all add: go_div_def go_mod_def)
  show "go_div a b \<le> 0 \<and> go_mod a b \<le> 0" if "a \<le> 0" using p [of "- a"] that by (simp add: n)
qed

lemma go_div_int64: "go_div int64_max 1000 = 9223372036854775" "go_div int64_min 1000 = - 9223372036854775"
  by (simp_all add: int64_max_def int64_min_def go_div_def)

lemma scaleTicks_exact:
  assumes "ts \<noteq> 0" and "in_int64 (go_div (ticks * 1000) (uint ts))"
  shows "scaleTicks ticks ts 1000 = go_div (ticks * 1000) (uint ts)"
proof -
  define b q r where "b = uint ts" and "q = go_div ticks b" and "r = go_mod ticks b"
  define s where "s = go_div (r * 1000) b"
  have b: "0 < b" "b < 2 ^ 32" using assms(1) uint_lt2p [of ts] by (simp_all add: b_def word_neq_0_conv flip: uint_0_iff) (metis uint_0_iff uint_ge_0 order_le_less)
  have res: "go_div (ticks * 1000) b = q * 1000 + s" using go_div_split [OF b(1), of ticks 1000] by (simp add: q_def r_def s_def)
  have rb: "\<bar>r\<bar> < b" using go_mod_bound [OF b(1)] by (simp add: r_def)
  have w: "wrap64 (r * 1000) = r * 1000" using rb b(2) by (intro wrap64_id) (auto simp add: in_int64_def int64_min_def int64_max_def abs_less_iff)
  have sg: "(0 \<le> q \<and> 0 \<le> s) \<or> (q \<le> 0 \<and> s \<le> 0)"
  proof (cases "0 \<le> ticks")
    case True
    then have "0 \<le> q" "0 \<le> r" using go_div_signs(1) [OF b(1)] by (simp_all add: q_def r_def)
    moreover have "0 \<le> s" using go_div_signs(1) [OF b(1), of "r * 1000"] \<open>0 \<le> r\<close> by (simp add: s_def)
    ultimately show ?thesis by simp
  next
    case False
    then have "q \<le> 0" "r \<le> 0" using go_div_signs(2) [OF b(1), of ticks] by (simp_all add: q_def r_def)
    moreover have "s \<le> 0" using go_div_signs(2) [OF b(1), of "r * 1000"] \<open>r \<le> 0\<close> by (simp add: s_def)
    ultimately show ?thesis by simp
  qed
  have in64: "in_int64 (q * 1000 + s)" using assms(2) res by (simp add: b_def)
  then have qb: "- 9223372036854775 \<le> q" "q \<le> 9223372036854775" and q64: "in_int64 (q * 1000)"
    using sg unfolding in_int64_def int64_min_def int64_max_def by auto
  have "scaleTicks ticks ts 1000 = wrap64 (wrap64 (q * 1000) + go_div (wrap64 (r * 1000)) b)"
    using qb by (simp add: scaleTicks_def Let_def go_div_int64 b_def [symmetric] q_def [symmetric] r_def [symmetric] not_less)
  also have "\<dots> = q * 1000 + s" using q64 in64 by (simp add: w s_def [symmetric])
  finally show ?thesis using res by (simp add: b_def)
qed

lemma ticksToMs_plain:
  assumes "ts \<noteq> 0" and "- 9223372036854775 \<le> ticks" "ticks \<le> 9223372036854775"
  shows "ticksToMs ticks ts = go_div (ticks * 1000) (uint ts)"
proof -
  have "wrap64 (ticks * 1000) = ticks * 1000"
    using assms(2,3) by (intro wrap64_id) (simp add: in_int64_def int64_min_def int64_max_def)
  then show ?thesis using assms by (simp add: ticksToMs_def go_div_int64 not_less)
qed

section \<open>Key frames from either table\<close>

lemma keyframe_loop_resolve:
  "length ps = length offs \<Longrightarrow> length offs = length ds \<Longrightarrow>
   keyframe_loop ts shift sy i dts offs ds endMs
     = (map ctsMs (filter i_sync (resolve_times ts shift sy i dts ps offs ds)),
        if ps = [] then endMs else ctsMs (last (resolve_times ts shift sy i dts ps offs ds)))"
proof (induction ps arbitrary: i dts offs ds endMs)
  case (Cons p ps)
  obtain off offs' d ds' where o: "offs = off # offs'" "ds = d # ds'" using Cons.prems by (cases offs; cases ds) auto
  define cts where "cts = clamped_cts ts shift (dts + off)"
  have ne: "ps \<noteq> [] \<Longrightarrow> resolve_times ts shift sy (i + 1) (dts + uint d) ps offs' ds' \<noteq> []"
    using Cons.prems o resolve_times_nth [of ps offs' ds' ts shift sy "i + 1" "dts + uint d"] by auto
  have IH: "keyframe_loop ts shift sy (i + 1) (dts + uint d) offs' ds' cts
     = (map ctsMs (filter i_sync (resolve_times ts shift sy (i + 1) (dts + uint d) ps offs' ds')),
        if ps = [] then cts else ctsMs (last (resolve_times ts shift sy (i + 1) (dts + uint d) ps offs' ds')))"
    using Cons o by simp
  show ?case
    using IH ne Cons.prems unfolding o keyframe_loop.simps resolve_times.simps
    by (cases "ps = []") (simp_all add: Let_def cts_def)
qed simp

lemma drop_repeats_set: "insert v (set (drop_repeats v vs)) = insert v (set vs)"
  by (induction v vs rule: drop_repeats.induct) auto

lemma drop_repeats_sorted: "sorted (v # vs) \<Longrightarrow> sorted_wrt (<) (v # drop_repeats v vs)"
proof (induction v vs rule: drop_repeats.induct)
  case (2 lst v vs)
  show ?case
  proof (cases "v = lst")
    case False
    then have "lst < v" using "2.prems" by simp
    moreover have s: "sorted_wrt (<) (v # drop_repeats v vs)" using "2.IH"(1) False "2.prems" by simp
    ultimately have "\<forall>x \<in> set (v # drop_repeats v vs). lst < x" by auto
    with s False show ?thesis by simp
  qed (use "2.IH"(2) "2.prems" in simp)
qed simp
section \<open>Properties\<close>

text \<open>
  C13. Every sample of a table that builds lies inside the file, its size is the one the table states, and
  either every sample of \<^verbatim>\<open>stsz\<close> is there or the track records where the first missing one would end,
  which is past the end of the file.
\<close>

theorem sample_table_in_file:
  assumes "buildSampleTable tr boxes fileSize = (Inr (), tr')"
  shows "\<exists>sizes. parseStsz (mustFind boxes stsz_typ) fileSize = Inr sizes \<and>
    list_all (\<lambda>s. 0 \<le> i_offset s \<and> i_offset s + uint (i_size s) \<le> fileSize) (i_samples tr') \<and>
    map i_size (i_samples tr') = take (length (i_samples tr')) sizes \<and>
    (length (i_samples tr') = length sizes \<or> cutEnd tr' > fileSize)"
proof -
  obtain stsz sizes offs stsc es ds where b: "findMemBox boxes stsz_typ = Some stsz"
    "parseStsz (mb_payload stsz) fileSize = Inr sizes" "parseChunkOffsets boxes = Inr offs"
    "findMemBox boxes stsc_typ = Some stsc" "parseStsc (mb_payload stsc) = Inr es"
    "parseStts (mustFind boxes stts_typ) (length sizes) = Inr ds"
    using assms unfolding buildSampleTable_def by (auto split: option.splits sum.splits)
  define r where "r = place_chunks fileSize 0 0 es offs sizes"
  define ss where "ss = resolve_times (timescale tr) (editShiftMs tr) (parseStssN boxes (length sizes)) 0 0
    (placed_of r) (parseCtts boxes (length sizes)) ds"
  have ok: "placement_ok fileSize sizes r"
    unfolding r_def by (rule place_chunks_ok [OF parseChunkOffsets_bound [OF b(3)]])
  have run: "buildSampleTable tr boxes fileSize = (case r of
       Outside c \<Rightarrow> (Inl (Errf ''sample is outside the file''), case c of None \<Rightarrow> tr | Some e \<Rightarrow> tr\<lparr>cutEnd := e\<rparr>)
     | Cut ps e \<Rightarrow> (Inr (), tr\<lparr>cutEnd := e, i_samples := ss\<rparr>)
     | Placed ps rest \<Rightarrow> if rest \<noteq> [] then (Inl (Errf ''chunk table does not cover the samples''), tr)
         else (Inr (), tr\<lparr>i_samples := ss\<rparr>))"
    unfolding buildSampleTable_def by (cases r) (simp_all add: b r_def [symmetric] ss_def)
  have c: "list_all (in_file fileSize) (placed_of r)" "\<exists>rest. sizes = map p_size (placed_of r) @ rest"
    "i_samples tr' = ss" "length (placed_of r) = length sizes \<or> cutEnd tr' > fileSize"
    using ok assms unfolding run by (cases r; auto split: if_splits)+
  then obtain rest where rest: "sizes = map p_size (placed_of r) @ rest" by blast
  note nth = resolve_times_nth [of "placed_of r" "parseCtts boxes (length sizes)" ds "timescale tr" "editShiftMs tr"
      "parseStssN boxes (length sizes)" 0 0, folded ss_def]
  have ls: "length ss = length (placed_of r)" and off: "\<And>k. k < length (placed_of r) \<Longrightarrow>
      i_offset (ss ! k) = p_offset (placed_of r ! k) \<and> i_size (ss ! k) = p_size (placed_of r ! k)"
    using nth length_parseStts [OF b(6)] rest by (simp_all add: Let_def)
  have "map i_size ss = map p_size (placed_of r)" using ls off by (intro nth_equalityI) simp_all
  then have "map i_size ss = take (length ss) sizes" using ls rest by simp
  moreover have "list_all (\<lambda>s. 0 \<le> i_offset s \<and> i_offset s + uint (i_size s) \<le> fileSize) ss"
    using c(1) ls off unfolding list_all_length in_file_def by simp
  ultimately show ?thesis using b(1,2) c(3,4) ls by (simp add: mustFind_def)
qed

text \<open>The boxes of a track of two samples in one chunk, as a file states them.\<close>

definition two_samples :: "memBox list" where
  "two_samples = [
     \<lparr>mb_typ = stts_typ, mb_payload = [0, 0, 0, 0, 0, 0, 0, 1, 0, 0, 0, 2, 0, 0, 0, 40]\<rparr>,
     \<lparr>mb_typ = stsc_typ, mb_payload = [0, 0, 0, 0, 0, 0, 0, 1, 0, 0, 0, 1, 0, 0, 0, 2, 0, 0, 0, 1]\<rparr>,
     \<lparr>mb_typ = stsz_typ, mb_payload = [0, 0, 0, 0, 0, 0, 0, 0, 0, 0, 0, 2, 0, 0, 0, 9, 0, 0, 0, 5]\<rparr>,
     \<lparr>mb_typ = stco_typ, mb_payload = [0, 0, 0, 0, 0, 0, 0, 1, 0, 0, 0, 48]\<rparr>]"

definition two_samples_track :: inTrack where
  "two_samples_track = \<lparr>timescale = 1000, editShiftMs = 0, cutEnd = 0, i_samples = []\<rparr>"

definition two_samples_built :: inTrack where
  "two_samples_built = two_samples_track\<lparr>i_samples := [
     \<lparr>i_offset = 48, dtsMs = 0, ctsMs = 0, durMs = 40, ctsTicks = 0, i_size = 9, i_sync = True, i_run = True\<rparr>,
     \<lparr>i_offset = 57, dtsMs = 40, ctsMs = 40, durMs = 40, ctsTicks = 40, i_size = 5, i_sync = True, i_run = False\<rparr>]\<rparr>"

lemma two_samples_build: "buildSampleTable two_samples_track two_samples 62 = (Inr (), two_samples_built)"
  by code_simp

theorem sample_table_in_file_witness:
  "\<exists>sizes. parseStsz (mustFind two_samples stsz_typ) 62 = Inr sizes \<and>
    list_all (\<lambda>s. 0 \<le> i_offset s \<and> i_offset s + uint (i_size s) \<le> 62) (i_samples two_samples_built) \<and>
    map i_size (i_samples two_samples_built) = take (length (i_samples two_samples_built)) sizes \<and>
    (length (i_samples two_samples_built) = length sizes \<or> cutEnd two_samples_built > 62)"
  by (rule sample_table_in_file [OF two_samples_build])

text \<open>
  C32. The cursor that only moves on places the samples as a scan of \<^verbatim>\<open>stsc\<close> per chunk would, for every
  table whose first entry is for the first chunk and every sorted table.
\<close>

theorem chunk_cursor_equivalent:
  assumes "stsc_regular es" and "length offs < 2 ^ 32"
  shows "place_chunks fileSize 0 0 es offs sizes = place_chunks_scan fileSize 0 0 es offs sizes"
  using assms by (intro place_chunks_scan) (simp_all add: cursor_at_def)

theorem chunk_cursor_equivalent_witness:
  "place_chunks 100 0 0 [\<lparr>firstChunk = 1, perChunk = 2\<rparr>, \<lparr>firstChunk = 2, perChunk = 1\<rparr>] [0, 20] [9, 5, 7]
     = place_chunks_scan 100 0 0 [\<lparr>firstChunk = 1, perChunk = 2\<rparr>, \<lparr>firstChunk = 2, perChunk = 1\<rparr>] [0, 20] [9, 5, 7]"
  by (rule chunk_cursor_equivalent) (simp_all add: stsc_regular_def)

text \<open>
  \<^verbatim>\<open>ticksToMs\<close> is the exact quotient, rounded towards zero, whenever that is an \<^verbatim>\<open>int64\<close>, although the
  product of ticks and unit may not be.
\<close>

lemma ticks_exact:
  assumes "ts \<noteq> 0" and "in_int64 (go_div (ticks * 1000) (uint ts))"
  shows "ticksToMs ticks ts = go_div (ticks * 1000) (uint ts)"
proof (cases "ticks > go_div int64_max 1000 \<or> ticks < go_div int64_min 1000")
  case True
  then show ?thesis using assms(1) scaleTicks_exact [OF assms] by (simp add: ticksToMs_def)
next
  case False
  then show ?thesis using ticksToMs_plain [OF assms(1)] by (simp add: go_div_int64 not_less)
qed

lemma ticks_exact_witness: "ticksToMs 9223372036854775807 90000 = 102481911520608620"
  using ticks_exact [of 90000 9223372036854775807] by (simp add: in_int64_def int64_min_def int64_max_def)


text \<open>
  C31. The key-frame index computed without offsets is the one of the full table: the same times, strictly
  increasing, for a track whose samples are all in the file.
\<close>

theorem keyframe_index_agrees:
  assumes "buildSampleTable tr boxes fileSize = (Inr (), tr')"
    and "headerFrameCount boxes = int (length (i_samples tr'))"
    and "buildKeyframeTimes boxes (timescale tr) (editShiftMs tr) True fileSize = Inr (kf, endMs)"
  shows "kf = sortDedupTimes (map ctsMs (filter i_sync (i_samples tr'))) \<and>
    sorted_wrt (<) kf \<and> set kf = ctsMs ` set (filter i_sync (i_samples tr')) \<and>
    endMs = (if i_samples tr' = [] then 0 else ctsMs (last (i_samples tr')))"
proof -
  obtain stsz sizes offs stsc es ds where b: "findMemBox boxes stsz_typ = Some stsz"
    "parseStsz (mb_payload stsz) fileSize = Inr sizes" "parseChunkOffsets boxes = Inr offs"
    "findMemBox boxes stsc_typ = Some stsc" "parseStsc (mb_payload stsc) = Inr es"
    "parseStts (mustFind boxes stts_typ) (length sizes) = Inr ds"
    using assms(1) unfolding buildSampleTable_def by (auto split: option.splits sum.splits)
  define r where "r = place_chunks fileSize 0 0 es offs sizes"
  have ok: "placement_ok fileSize sizes r"
    unfolding r_def by (rule place_chunks_ok [OF parseChunkOffsets_bound [OF b(3)]])
  have ss: "i_samples tr' = resolve_times (timescale tr) (editShiftMs tr) (parseStssN boxes (length sizes)) 0 0
    (placed_of r) (parseCtts boxes (length sizes)) ds"
    using assms(1) unfolding buildSampleTable_def
    by (cases r) (auto simp add: b Let_def r_def [symmetric] split: if_splits)
  have fc: "headerFrameCount boxes = int (length sizes)"
    using length_parseStsz [OF b(2)] b(1) by (simp add: headerFrameCount_def Let_def)
  have le: "length (placed_of r) \<le> length sizes" using ok by (cases r) auto
  have lds: "length ds = length sizes" by (rule length_parseStts [OF b(6)])
  have "length (i_samples tr') = length (placed_of r)" using ss resolve_times_nth le lds by simp
  moreover from this have e: "i_samples tr' = [] \<longleftrightarrow> placed_of r = []" by (metis length_0_conv)
  ultimately have lp: "length (placed_of r) = length sizes" using fc assms(2) by simp
  let ?loop = "keyframe_loop (timescale tr) (editShiftMs tr) (parseStssN boxes (length sizes)) 0 0
    (parseCtts boxes (length sizes)) ds 0"
  have loop: "?loop = (map ctsMs (filter i_sync (i_samples tr')),
      if i_samples tr' = [] then 0 else ctsMs (last (i_samples tr')))"
    unfolding e unfolding ss using keyframe_loop_resolve [of "placed_of r"] lp lds by simp
  have k: "kf = sortDedupTimes (map ctsMs (filter i_sync (i_samples tr'))) \<and>
      endMs = (if i_samples tr' = [] then 0 else ctsMs (last (i_samples tr')))"
  proof (cases "length sizes = 0")
    case True
    then have "i_samples tr' = []" using fc assms(2) by simp
    then show ?thesis using assms(3) fc True by (simp add: buildKeyframeTimes_def sortDedupTimes_def)
  next
    case False
    then obtain stts where "findMemBox boxes stts_typ = Some stts"
      using b(6) by (cases "findMemBox boxes stts_typ") (simp_all add: parseStts_def mustFind_def)
    then show ?thesis using assms(3) fc False b(6) loop
      by (auto simp add: buildKeyframeTimes_def Let_def mustFind_def split: if_splits)
  qed
  define ts where "ts = map ctsMs (filter i_sync (i_samples tr'))"
  have "set (sortDedupTimes ts) = set ts \<and> sorted_wrt (<) (sortDedupTimes ts)"
  proof (cases "sort ts")
    case Nil
    then have "ts = []" by (metis set_empty set_sort)
    then show ?thesis by (simp add: sortDedupTimes_def)
  next
    case (Cons v vs)
    then have "sorted (v # vs)" by (metis sorted_sort)
    moreover have "set ts = insert v (set vs)" by (metis Cons list.simps(15) set_sort)
    ultimately show ?thesis using drop_repeats_set [of v vs] drop_repeats_sorted [of v vs]
      by (simp add: sortDedupTimes_def Cons)
  qed
  with k show ?thesis by (simp add: ts_def)
qed

theorem keyframe_index_agrees_witness:
  "[0, 40] = sortDedupTimes (map ctsMs (filter i_sync (i_samples two_samples_built))) \<and> sorted_wrt (<) [0 :: int, 40] \<and>
   set [0, 40] = ctsMs ` set (filter i_sync (i_samples two_samples_built)) \<and>
   (40 :: int) = (if i_samples two_samples_built = [] then 0 else ctsMs (last (i_samples two_samples_built)))"
  by (rule keyframe_index_agrees [OF two_samples_build]; code_simp)

end
