(* ===== verification/GridWindow.thy ===== *)
theory GridWindow
  imports Fragment
begin

text \<open>
  Grid-timed audio, one segment window at a time (mp4/gridwindow.go): the frames of a window are
  numbered on the grid from where the window opens, and a delay the numbering builds up is given back
  inside the window.  A block's time is what \<^verbatim>\<open>blockPts\<close> tells of its frame, a window is the list of
  them, and \<open>slot\<close> is the index a block's time has on the grid.  The lemmas show that every frame lasts a
  tick or more, that a window with room fills exactly the span from where it opens to where the next one
  does, and that the decode times of a whole track follow each other without a gap.
\<close>

section \<open>Numbering\<close>

text \<open>The loop of \<^verbatim>\<open>gridFrames\<close> past the first frame: the index and the own slot of every frame.\<close>

fun grid_frames :: "(int \<Rightarrow> int) \<Rightarrow> int \<Rightarrow> int \<Rightarrow> int \<Rightarrow> int list \<Rightarrow> (int \<times> int) list" where
  "grid_frames slot pb raw k [] = []"
| "grid_frames slot pb raw k (b # bs) =
     (let raw = (if b \<noteq> pb then slot b else raw + 1);
          k = (if b \<noteq> pb then max raw (k + 1) else k + 1)
      in (k, raw) # grid_frames slot b raw k bs)"

text \<open>The indexes, the one past the last frame, and the first frame held later than its own slot.\<close>

definition gridFrames :: "(int \<Rightarrow> int) \<Rightarrow> int \<Rightarrow> int list \<Rightarrow> int list \<times> int \<times> nat" where
  "gridFrames slot open bs =
     (case bs of [] \<Rightarrow> ([], 1, 0)
      | b # bs' \<Rightarrow>
        let raw = slot b; k = (if open \<ge> 0 then open else raw); fs = (k, raw) # grid_frames slot b raw k bs'
        in (map fst fs, fst (last fs) + 1, length (takeWhile (\<lambda>(k, raw). k \<le> raw) fs)))"

definition gridColdEnd :: "(int \<Rightarrow> int) \<Rightarrow> int list \<Rightarrow> int" where
  "gridColdEnd slot bs = fst (snd (gridFrames slot (-1) bs))"

fun leaves_grid :: "(int \<Rightarrow> int) \<Rightarrow> int \<Rightarrow> int \<Rightarrow> int list \<Rightarrow> bool" where
  "leaves_grid slot pb k [] \<longleftrightarrow> False"
| "leaves_grid slot pb k (b # bs) \<longleftrightarrow>
     (if b \<noteq> pb then slot b \<noteq> k + 1 \<or> leaves_grid slot b (slot b) bs else leaves_grid slot b (k + 1) bs)"

definition gridJitter :: "(int \<Rightarrow> int) \<Rightarrow> int list \<Rightarrow> bool" where
  "gridJitter slot bs \<longleftrightarrow> (case bs of [] \<Rightarrow> False | b # bs \<Rightarrow> leaves_grid slot b (slot b) bs)"

definition gridOpen :: "(int \<Rightarrow> int) \<Rightarrow> int list \<Rightarrow> int \<Rightarrow> int" where
  "gridOpen slot bs prevEnd =
     (let open = slot (hd bs) in if prevEnd > open \<and> gridJitter slot bs then prevEnd else open)"

definition gridTrackEnd :: "(int \<Rightarrow> int) \<Rightarrow> int list \<Rightarrow> int" where
  "gridTrackEnd slot bs = slot (last bs) + int (length (takeWhile (\<lambda>b. b = last bs) (rev bs)))"

section \<open>Timing a window\<close>

definition fits :: "int list \<Rightarrow> int \<Rightarrow> int \<Rightarrow> int \<Rightarrow> nat \<Rightarrow> bool" where
  "fits ks natural e g j \<longleftrightarrow> e > ks ! j \<and> (e - ks ! j) * g \<ge> natural - ks ! j"

fun step_back :: "(nat \<Rightarrow> bool) \<Rightarrow> nat \<Rightarrow> nat" where
  "step_back P 0 = 0"
| "step_back P (Suc j) = (if P (Suc j) then Suc j else step_back P j)"

text \<open>A decode time scaled into what is left between the frame in slot \<open>k0\<close> and the end.\<close>

definition squeezed :: "int \<Rightarrow> int \<Rightarrow> int \<Rightarrow> int \<Rightarrow> int \<Rightarrow> int" where
  "squeezed g k0 e natural k = k0 * g + go_div (wrap64 (wrap64 ((k - k0) * g) * (e - k0))) (natural - k0)"

definition grid_dts :: "int list \<Rightarrow> int \<Rightarrow> nat \<Rightarrow> int \<Rightarrow> int \<Rightarrow> int list" where
  "grid_dts ks natural late e g =
     (let dts = map (\<lambda>k. k * g) ks in
      if natural > e then
        let j = step_back (fits ks natural e g) (min late (length ks - 1)) in
        if fits ks natural e g j then take j dts @ map (squeezed g (ks ! j) e natural) (drop j ks) else dts
      else dts)"

definition gridTime :: "(int \<Rightarrow> int) \<Rightarrow> int \<Rightarrow> int \<Rightarrow> int \<Rightarrow> int list \<Rightarrow> (int \<times> int) list" where
  "gridTime slot g open e bs =
     (let (ks, natural, late) = gridFrames slot open bs;
          e = (if e < 0 then gridTrackEnd slot bs else e);
          dts = grid_dts ks natural late e g
      in zip dts (diffs dts @ [max (e * g - last dts) 1]))"

section \<open>A whole track\<close>

fun cut_windows :: "int list \<Rightarrow> fragSample list \<Rightarrow> fragSample list list" where
  "cut_windows [] ss = []"
| "cut_windows (b # bs) ss =
     (let inside = (\<lambda>s. fs_blockPtsMs s < (case bs of [] \<Rightarrow> int64_max | e # _ \<Rightarrow> e))
      in takeWhile inside ss # cut_windows bs (dropWhile inside ss))"

text \<open>Where the windows open; \<open>prev\<close> is the window before the first.\<close>

fun window_opens :: "(int \<Rightarrow> int) \<Rightarrow> int list \<Rightarrow> int list list \<Rightarrow> int list" where
  "window_opens slot prev [] = []"
| "window_opens slot prev (w # ws) =
     (if w = [] then 0 else gridOpen slot w (if prev = [] then -1 else gridColdEnd slot prev)) # window_opens slot w ws"

text \<open>The times of the windows, from the last to the first, and where the first of them with a frame opens.\<close>

fun window_times :: "(int \<Rightarrow> int) \<Rightarrow> int \<Rightarrow> (int list \<times> int) list \<Rightarrow> (int \<times> int) list list \<times> int" where
  "window_times slot g [] = ([], -1)"
| "window_times slot g ((w, open) # ws) =
     (let (ts, e) = window_times slot g ws
      in if w = [] then ([] # ts, e) else (gridTime slot g open e w # ts, open))"

definition set_time :: "fragSample \<Rightarrow> int \<times> int \<Rightarrow> fragSample" where
  "set_time s t = s\<lparr>fs_dtsTS := fst t, fs_durTS := snd t, fs_ctsTS := 0\<rparr>"

definition gridTimeWindows :: "fragSample list \<Rightarrow> int list \<Rightarrow> u32 \<Rightarrow> int \<Rightarrow> fragSample list" where
  "gridTimeWindows ss bounds mts g =
     (let anchor = tsScale mts (fs_blockPtsMs (hd ss));
          slot = (\<lambda>ms. gridIndex (tsScale mts ms - anchor) g);
          ws = map (map fs_blockPtsMs) (cut_windows bounds ss);
          ts = concat (fst (window_times slot g (zip ws (window_opens slot [] ws))))
      in map2 set_time ss ts @ drop (length ts) ss)"
section \<open>Times without a gap\<close>

text \<open>Decode times and durations: every duration is a tick or more, and each time is where the frame before ends.\<close>

fun gapless :: "(int \<times> int) list \<Rightarrow> bool" where
  "gapless [] \<longleftrightarrow> True"
| "gapless [t] \<longleftrightarrow> 1 \<le> snd t"
| "gapless (t # t' # ts) \<longleftrightarrow> 1 \<le> snd t \<and> fst t' = fst t + snd t \<and> gapless (t' # ts)"

definition time_end :: "(int \<times> int) list \<Rightarrow> int" where
  "time_end ts = fst (last ts) + snd (last ts)"

lemma gapless_append:
  "gapless xs \<Longrightarrow> gapless ys \<Longrightarrow> (xs \<noteq> [] \<Longrightarrow> ys \<noteq> [] \<Longrightarrow> fst (hd ys) = time_end xs) \<Longrightarrow> gapless (xs @ ys)"
proof (induction xs rule: gapless.induct)
  case (2 t)
  then show ?case by (cases ys) (simp_all add: time_end_def)
next
  case (3 t t' ts)
  then show ?case by (simp add: time_end_def)
qed simp

lemma gapless_sum: "gapless ts \<Longrightarrow> ts \<noteq> [] \<Longrightarrow> sum_list (map snd ts) = time_end ts - fst (hd ts)"
  by (induction ts rule: gapless.induct) (simp_all add: time_end_def)

lemma gapless_long: "gapless ts \<Longrightarrow> t \<in> set ts \<Longrightarrow> 1 \<le> snd t"
  by (induction ts rule: gapless.induct) auto

lemma gapless_next: "gapless ts \<Longrightarrow> Suc i < length ts \<Longrightarrow> fst (ts ! Suc i) = fst (ts ! i) + snd (ts ! i)"
proof (induction ts arbitrary: i rule: gapless.induct)
  case (3 t t' ts)
  then show ?case by (cases i) simp_all
qed simp_all

lemma gapless_diffs:
  "sorted_wrt (<) xs \<Longrightarrow> 1 \<le> u \<Longrightarrow> gapless (zip xs (diffs xs @ [u]))"
proof (induction xs rule: diffs.induct)
  case (1 x y zs)
  then show ?case by (cases zs) simp_all
qed simp_all
section \<open>The numbering\<close>

lemma length_grid_frames [simp]: "length (grid_frames slot pb raw k bs) = length bs"
  by (induction bs arbitrary: pb raw k) (simp_all add: Let_def)

lemma grid_frames_increasing: "sorted_wrt (<) (k # map fst (grid_frames slot pb raw k bs))"
proof (induction bs arbitrary: pb raw k)
  case (Cons b bs)
  define raw' where "raw' = (if b \<noteq> pb then slot b else raw + 1)"
  define k' where "k' = (if b \<noteq> pb then max raw' (k + 1) else k + 1)"
  have "k < k'" by (auto simp: k'_def)
  moreover have "sorted_wrt (<) (k' # map fst (grid_frames slot b raw' k' bs))" by (rule Cons.IH)
  moreover have "map fst (grid_frames slot pb raw k (b # bs)) = k' # map fst (grid_frames slot b raw' k' bs)"
    by (simp add: Let_def raw'_def k'_def)
  ultimately show ?case by fastforce
qed simp

definition opens_at :: "(int \<Rightarrow> int) \<Rightarrow> int \<Rightarrow> int list \<Rightarrow> int" where
  "opens_at slot open bs = (if open \<ge> 0 then open else slot (hd bs))"

lemma gridFrames_indexes:
  assumes "bs \<noteq> []" "gridFrames slot open bs = (ks, natural, late)"
  shows "length ks = length bs" "sorted_wrt (<) ks" "hd ks = opens_at slot open bs" "natural = last ks + 1" "late \<le> length ks"
proof -
  obtain b bs' where bs: "bs = b # bs'" using assms(1) by (cases bs) auto
  define k where "k = opens_at slot open bs"
  let ?fs = "(k, slot b) # grid_frames slot b (slot b) k bs'"
  have "gridFrames slot open bs = (map fst ?fs, fst (last ?fs) + 1, length (takeWhile (\<lambda>(k, raw). k \<le> raw) ?fs))"
    by (simp add: gridFrames_def bs Let_def k_def opens_at_def)
  then have fs: "ks = map fst ?fs" "natural = fst (last ?fs) + 1" "late = length (takeWhile (\<lambda>(k, raw). k \<le> raw) ?fs)"
    using assms(2) by simp_all
  show "length ks = length bs" by (simp add: fs bs)
  show "sorted_wrt (<) ks" using grid_frames_increasing [of k slot b "slot b" bs'] by (simp add: fs)
  show "hd ks = opens_at slot open bs" by (simp add: fs k_def)
  show "natural = last ks + 1" by (simp only: fs last_map list.distinct not_False_eq_True)
  show "late \<le> length ks" unfolding fs(1,3) length_map by (rule length_takeWhile_le)
qed

section \<open>Squeezing\<close>

lemma step_back_le: "step_back P j \<le> j"
  by (induction P j rule: step_back.induct) auto

lemma step_back_holds: "P 0 \<Longrightarrow> P (step_back P j)"
  by (induction P j rule: step_back.induct) auto

lemma squeeze_step:
  fixes N G x y :: int
  assumes "0 < N" "N \<le> G" "x < y"
  shows "x * G div N < y * G div N"
proof -
  have "x * G + N \<le> y * G"
  proof -
    have "x * G + G \<le> y * G" using assms mult_right_mono [of "x + 1" y G] by (simp add: algebra_simps)
    then show ?thesis using assms(2) by simp
  qed
  then have "(x * G + N) div N \<le> y * G div N" using assms(1) by (rule zdiv_mono1)
  moreover have "(x * G + N) div N = x * G div N + 1" using assms(1) by (intro div_add_self2) simp
  ultimately show ?thesis by simp
qed

lemma squeezed_exact:
  assumes "0 < g" "k0 \<le> k" "k < natural" "k0 < e" "k0 \<le> natural" "(natural - k0) * g * (e - k0) \<le> int64_max"
  shows "squeezed g k0 e natural k = k0 * g + (k - k0) * (g * (e - k0)) div (natural - k0)"
proof -
  have "0 \<le> (k - k0) * g" using assms by simp
  moreover have "(k - k0) * g * 1 \<le> (k - k0) * g * (e - k0)" using assms by (intro mult_left_mono) simp_all
  moreover have "(k - k0) * g * (e - k0) \<le> (natural - k0) * g * (e - k0)" using assms by (intro mult_right_mono) simp_all
  moreover have "0 \<le> (k - k0) * g * (e - k0)" using assms by simp
  ultimately have "in_int64 ((k - k0) * g)" "in_int64 ((k - k0) * g * (e - k0))"
    using assms(6) by (simp_all add: in_int64_def int64_min_def)
  moreover have "go_div ((k - k0) * g * (e - k0)) (natural - k0) = (k - k0) * g * (e - k0) div (natural - k0)"
    using assms \<open>0 \<le> (k - k0) * g * (e - k0)\<close> by (simp add: go_div_nonneg)
  ultimately show ?thesis by (simp add: squeezed_def mult.assoc)
qed
text \<open>The product in \<^verbatim>\<open>gridTime\<close> does not leave \<^verbatim>\<open>int64\<close>: a window's frames and ticks are far below it.\<close>

definition small_window :: "int \<Rightarrow> int \<Rightarrow> int \<Rightarrow> int \<Rightarrow> bool" where
  "small_window g k0 natural e \<longleftrightarrow> (natural - k0) * g * (e - k0) \<le> int64_max"

lemma small_window_later:
  assumes "small_window g k0 natural e" "0 < g" "k0 \<le> k" "k < e" "k < natural"
  shows "small_window g k natural e"
proof -
  have "(natural - k) * g * (e - k) \<le> (natural - k0) * g * (e - k0)"
    using assms by (intro mult_mono mult_right_mono) simp_all
  then show ?thesis using assms(1) by (simp add: small_window_def)
qed

lemma increasing_drop_ge:
  fixes ks :: "int list"
  assumes "sorted_wrt (<) ks" "j < length ks" "k \<in> set (drop j ks)"
  shows "ks ! j \<le> k"
  using sorted_wrt_drop [OF assms(1), of j] assms(2,3) by (auto simp: Cons_nth_drop_Suc [symmetric] less_imp_le)

lemma grid_dts_ok:
  assumes ks: "ks \<noteq> []" "sorted_wrt (<) ks" "natural = last ks + 1" and g: "0 < g"
    and small: "small_window g (hd ks) natural e"
  shows "length (grid_dts ks natural late e g) = length ks" "sorted_wrt (<) (grid_dts ks natural late e g)"
    "hd (grid_dts ks natural late e g) = hd ks * g"
    "natural \<le> e \<or> fits ks natural e g 0 \<Longrightarrow> last (grid_dts ks natural late e g) < e * g"
proof -
  let ?dts = "map (\<lambda>k. k * g) ks"
  define j where "j = step_back (fits ks natural e g) (min late (length ks - 1))"
  let ?k0 = "ks ! j" and ?sq = "squeezed g (ks ! j) e natural"
  have plain: "sorted_wrt (<) ?dts" using ks(2) g by (auto simp: sorted_wrt_map elim: sorted_wrt_mono_rel [rotated])
  have j: "j < length ks" using step_back_le [of "fits ks natural e g" "min late (length ks - 1)"] ks(1)
    by (cases ks) (auto simp: j_def)
  have below: "k \<le> last ks" if "k \<in> set ks" for k
    using ks that by (metis append_butlast_last_id less_imp_le sorted_wrt_append list.set_intros(1) in_set_conv_decomp order_refl
      Un_iff set_append empty_iff set_ConsD empty_set)
  have hd: "hd ks \<le> ?k0" using ks(1) j sorted_wrt_nth_less [OF ks(2), of 0 j] by (cases j) (simp_all add: hd_conv_nth)
  have use: "grid_dts ks natural late e g = (if natural > e \<and> fits ks natural e g j then take j ?dts @ map ?sq (drop j ks) else ?dts)"
    by (simp add: grid_dts_def j_def Let_def)
  consider (plain) "\<not> (natural > e \<and> fits ks natural e g j)" | (squeezed) "natural > e" "fits ks natural e g j" by blast
  then have "length (grid_dts ks natural late e g) = length ks \<and> sorted_wrt (<) (grid_dts ks natural late e g) \<and>
    hd (grid_dts ks natural late e g) = hd ks * g \<and>
    (natural \<le> e \<or> fits ks natural e g 0 \<longrightarrow> last (grid_dts ks natural late e g) < e * g)"
  proof cases
    case plain
    have "last ?dts < e * g" if "natural \<le> e \<or> fits ks natural e g 0"
    proof -
      have "natural \<le> e" using that plain step_back_holds [of "fits ks natural e g"] by (auto simp: j_def)
      then show ?thesis using ks g by (simp add: last_map)
    qed
    moreover have "grid_dts ks natural late e g = ?dts" unfolding use by (rule if_not_P) (use plain in blast)
    ultimately show ?thesis using \<open>sorted_wrt (<) ?dts\<close> ks(1) by (simp add: hd_map)
  next
    case squeezed
    define N G where "N = natural - ?k0" and "G = g * (e - ?k0)"
    have f: "?k0 < e" "N \<le> G" using squeezed(2) by (auto simp: fits_def N_def G_def mult.commute)
    have N: "0 < N" using f squeezed(1) by (simp add: N_def)
    have sq: "?sq k = ?k0 * g + (k - ?k0) * G div N" if "k \<in> set (drop j ks)" for k
    proof -
      have "k \<in> set ks" using that by (rule in_set_dropD)
      then have "k < natural" using below ks(3) by fastforce
      moreover have "?k0 \<le> k" using that by (rule increasing_drop_ge [OF ks(2) j])
      moreover have "small_window g ?k0 natural e"
        using small_window_later [OF small g hd f(1)] squeezed(1) f(1) by simp
      ultimately show ?thesis using squeezed_exact [OF g _ _ f(1), of k natural] f(1) squeezed(1)
        unfolding N_def G_def small_window_def by linarith
    qed
    have grid: "grid_dts ks natural late e g = take j ?dts @ map ?sq (drop j ks)" unfolding use using squeezed by simp
    have tail: "sorted_wrt (<) (map ?sq (drop j ks))"
    proof -
      have "sorted_wrt (<) (drop j ks)" using ks(2) by (rule sorted_wrt_drop)
      then have "sorted_wrt (\<lambda>x y. ?sq x < ?sq y) (drop j ks)"
        by (rule sorted_wrt_mono_rel [rotated]) (simp add: sq squeeze_step N f)
      then show ?thesis by (simp add: sorted_wrt_map)
    qed
    have cross: "x < y" if x: "x \<in> set (take j ?dts)" and y: "y \<in> set (map ?sq (drop j ks))" for x y
    proof -
      obtain i where i: "i < j" "x = ks ! i * g" using x j by (auto simp: in_set_conv_nth)
      then have "x < ?k0 * g" using sorted_wrt_nth_less [OF ks(2) i(1) j] g by simp
      also have "\<dots> \<le> y"
      proof -
        obtain k where k: "k \<in> set (drop j ks)" "y = ?sq k" using y by auto
        have "?k0 \<le> k" by (rule increasing_drop_ge [OF ks(2) j k(1)])
        then have "0 \<le> (k - ?k0) * G div N" using N f by (simp add: pos_imp_zdiv_nonneg_iff)
        then show ?thesis using sq [OF k(1)] k(2) by simp
      qed
      finally show ?thesis .
    qed
    have "sorted_wrt (<) (take j ?dts)" using plain by (rule sorted_wrt_take)
    then have sorted: "sorted_wrt (<) (grid_dts ks natural late e g)" using tail cross by (auto simp: grid sorted_wrt_append)
    have first: "?sq ?k0 = ?k0 * g" using sq [of ?k0] j by (simp add: Cons_nth_drop_Suc [symmetric])
    have "hd (grid_dts ks natural late e g) = hd ks * g"
    proof (cases j)
      case 0
      then show ?thesis using first ks(1) by (simp add: grid hd_map hd_conv_nth)
    qed (use ks(1) in \<open>simp add: grid hd_map hd_append\<close>)
    moreover have "last (grid_dts ks natural late e g) < e * g"
    proof -
      have ne: "drop j ks \<noteq> []" using j by simp
      then have l: "last (grid_dts ks natural late e g) = ?sq (last ks)" by (simp add: grid last_map last_drop j)
      have "last ks \<in> set (drop j ks)" using last_in_set [OF ne] by (simp add: last_drop j)
      then have "?sq (last ks) = ?k0 * g + (N - 1) * G div N" using sq [of "last ks"] ks(3) by (simp add: N_def algebra_simps)
      also have "(N - 1) * G div N < N * G div N" using squeeze_step [OF N f(2), of "N - 1" N] by simp
      also have "N * G div N = G" using N by simp
      finally show ?thesis unfolding l by (simp add: G_def algebra_simps)
    qed
    moreover have "length (grid_dts ks natural late e g) = length ks" using j by (simp add: grid)
    ultimately show ?thesis using sorted by simp
  qed
  then show "length (grid_dts ks natural late e g) = length ks" "sorted_wrt (<) (grid_dts ks natural late e g)"
    "hd (grid_dts ks natural late e g) = hd ks * g"
    "natural \<le> e \<or> fits ks natural e g 0 \<Longrightarrow> last (grid_dts ks natural late e g) < e * g" by blast+
qed
section \<open>A window timed\<close>

definition natural_end :: "(int \<Rightarrow> int) \<Rightarrow> int \<Rightarrow> int list \<Rightarrow> int" where
  "natural_end slot open bs = fst (snd (gridFrames slot open bs))"

definition window_end :: "(int \<Rightarrow> int) \<Rightarrow> int \<Rightarrow> int list \<Rightarrow> int" where
  "window_end slot e bs = (if e < 0 then gridTrackEnd slot bs else e)"

text \<open>A window that holds no more frames than ticks, counted from where it opens.\<close>

definition has_room :: "(int \<Rightarrow> int) \<Rightarrow> int \<Rightarrow> int \<Rightarrow> int \<Rightarrow> int list \<Rightarrow> bool" where
  "has_room slot g open e bs \<longleftrightarrow>
     natural_end slot open bs \<le> e \<or>
     opens_at slot open bs < e \<and> natural_end slot open bs - opens_at slot open bs \<le> (e - opens_at slot open bs) * g"

lemma gridTime_ok:
  assumes bs: "bs \<noteq> []" and g: "0 < g"
    and small: "small_window g (opens_at slot open bs) (natural_end slot open bs) (window_end slot e bs)"
  shows "length (gridTime slot g open e bs) = length bs" "gapless (gridTime slot g open e bs)"
    "fst (hd (gridTime slot g open e bs)) = opens_at slot open bs * g"
    "has_room slot g open (window_end slot e bs) bs \<Longrightarrow> time_end (gridTime slot g open e bs) = window_end slot e bs * g"
proof -
  obtain ks natural late where fr: "gridFrames slot open bs = (ks, natural, late)" by (metis prod_cases3)
  define e' where "e' = window_end slot e bs"
  define dts where "dts = grid_dts ks natural late e' g"
  have natural: "natural_end slot open bs = natural" by (simp add: natural_end_def fr)
  note ks = gridFrames_indexes [OF bs fr]
  have ne: "ks \<noteq> []" using ks(1) bs by auto
  have "small_window g (hd ks) natural e'" using small by (simp add: ks(3) natural e'_def)
  note ok = grid_dts_ok [OF ne ks(2,4) g this, of late, folded dts_def]
  have gt: "gridTime slot g open e bs = zip dts (diffs dts @ [max (e' * g - last dts) 1])"
    by (simp add: gridTime_def fr Let_def window_end_def e'_def dts_def)
  have len: "length dts = length bs" "dts \<noteq> []" using ok(1) ks(1) bs by auto
  then show "length (gridTime slot g open e bs) = length bs" by (simp add: gt)
  show "gapless (gridTime slot g open e bs)" unfolding gt by (rule gapless_diffs [OF ok(2)]) simp
  show "fst (hd (gridTime slot g open e bs)) = opens_at slot open bs * g"
    using len(2) ok(3) ks(3) by (simp add: gt hd_zip)
  show "time_end (gridTime slot g open e bs) = window_end slot e bs * g" if "has_room slot g open (window_end slot e bs) bs"
  proof -
    have "natural \<le> e' \<or> fits ks natural e' g 0"
      using that ne ks(3) by (auto simp: has_room_def natural e'_def fits_def hd_conv_nth)
    then have "last dts < e' * g" by (rule ok(4))
    moreover have "last (zip dts (diffs dts @ [u])) = (last dts, u)" for u
      using len(2) by (simp add: last_zip)
    ultimately show ?thesis by (simp add: time_end_def gt e'_def)
  qed
qed
section \<open>The windows of a track\<close>

fun windows_fit :: "(int \<Rightarrow> int) \<Rightarrow> int \<Rightarrow> (int list \<times> int) list \<Rightarrow> bool" where
  "windows_fit slot g [] \<longleftrightarrow> True"
| "windows_fit slot g ((w, open) # ws) \<longleftrightarrow>
     windows_fit slot g ws \<and>
     (w = [] \<or>
      (let e = window_end slot (snd (window_times slot g ws)) w in
       0 \<le> open \<and> small_window g open (natural_end slot open w) e \<and> has_room slot g open e w))"

lemma window_times_ok:
  assumes g: "0 < g"
  shows "windows_fit slot g ws \<Longrightarrow>
     map length (fst (window_times slot g ws)) = map (length \<circ> fst) ws \<and>
     gapless (concat (fst (window_times slot g ws))) \<and>
     (concat (fst (window_times slot g ws)) = [] \<longrightarrow> snd (window_times slot g ws) = -1) \<and>
     (concat (fst (window_times slot g ws)) \<noteq> [] \<longrightarrow>
        0 \<le> snd (window_times slot g ws) \<and> fst (hd (concat (fst (window_times slot g ws)))) = snd (window_times slot g ws) * g)"
proof (induction ws)
  case (Cons x ws)
  obtain w op where x: "x = (w, op)" by (cases x)
  obtain ts e where ts: "window_times slot g ws = (ts, e)" by (cases "window_times slot g ws")
  have IH: "map length ts = map (length \<circ> fst) ws" "gapless (concat ts)" "concat ts = [] \<Longrightarrow> e = -1"
    "concat ts \<noteq> [] \<Longrightarrow> 0 \<le> e \<and> fst (hd (concat ts)) = e * g"
    using Cons by (simp_all add: x ts)
  show ?case
  proof (cases "w = []")
    case True
    then show ?thesis using IH by (simp add: x ts)
  next
    case False
    then have fit: "0 \<le> op" "small_window g op (natural_end slot op w) (window_end slot e w)"
      "has_room slot g op (window_end slot e w) w" using Cons.prems by (simp_all add: x ts Let_def)
    have op: "opens_at slot op w = op" using fit(1) by (simp add: opens_at_def)
    note t = gridTime_ok [OF False g, of slot op e, unfolded op, OF fit(2)]
    have ne: "gridTime slot g op e w \<noteq> []" using t(1) False by auto
    have "gapless (gridTime slot g op e w @ concat ts)"
    proof (rule gapless_append [OF t(2) IH(2)])
      assume "concat ts \<noteq> []"
      then show "fst (hd (concat ts)) = time_end (gridTime slot g op e w)"
        using IH(4) t(4) [OF fit(3)] by (simp add: window_end_def)
    qed
    then show ?thesis using t(1,3) ne IH(1) fit(1) False by (simp add: x ts)
  qed
qed simp

lemma cut_windows_all:
  "bounds \<noteq> [] \<Longrightarrow> list_all (\<lambda>s. fs_blockPtsMs s < int64_max) ss \<Longrightarrow> concat (cut_windows bounds ss) = ss"
proof (induction bounds arbitrary: ss)
  case (Cons b bs)
  show ?case
  proof (cases bs)
    case Nil
    then show ?thesis using Cons.prems by (simp add: takeWhile_eq_all_conv list_all_iff)
  next
    case (Cons e es)
    let ?in = "\<lambda>s. fs_blockPtsMs s < e"
    have "list_all (\<lambda>s. fs_blockPtsMs s < int64_max) (dropWhile ?in ss)"
      using Cons.prems by (auto simp: list_all_iff dest: set_dropWhileD)
    then have "concat (cut_windows bs (dropWhile ?in ss)) = dropWhile ?in ss" using Cons by (intro Cons.IH) simp_all
    moreover have "cut_windows (b # bs) ss = takeWhile ?in ss # cut_windows bs (dropWhile ?in ss)"
      using Cons by (simp only: cut_windows.simps(2) Let_def list.case)
    ultimately show ?thesis by simp
  qed
qed simp

lemma length_cut_windows [simp]: "length (cut_windows bounds ss) = length bounds"
  by (induction bounds arbitrary: ss) (simp_all add: Let_def)

lemma length_window_opens [simp]: "length (window_opens slot prev ws) = length ws"
  by (induction ws arbitrary: prev) simp_all

definition times_of :: "fragSample list \<Rightarrow> (int \<times> int) list" where
  "times_of ss = map (\<lambda>s. (fs_dtsTS s, fs_durTS s)) ss"

lemma times_of_set: "length ts = length ss \<Longrightarrow> times_of (map2 set_time ss ts) = ts"
proof (induction ts arbitrary: ss)
  case (Cons t ts)
  then show ?case by (cases ss) (simp_all add: times_of_def set_time_def)
qed (simp add: times_of_def)

text \<open>What \<^verbatim>\<open>gridTimeWindows\<close> works on, its windows and where they open.\<close>

definition track_slot :: "fragSample list \<Rightarrow> u32 \<Rightarrow> int \<Rightarrow> int \<Rightarrow> int" where
  "track_slot ss mts g ms = gridIndex (tsScale mts ms - tsScale mts (fs_blockPtsMs (hd ss))) g"

definition track_windows :: "fragSample list \<Rightarrow> int list \<Rightarrow> int list list" where
  "track_windows ss bounds = map (map fs_blockPtsMs) (cut_windows bounds ss)"

definition opened_windows :: "fragSample list \<Rightarrow> int list \<Rightarrow> u32 \<Rightarrow> int \<Rightarrow> (int list \<times> int) list" where
  "opened_windows ss bounds mts g =
     zip (track_windows ss bounds) (window_opens (track_slot ss mts g) [] (track_windows ss bounds))"

lemma gridTimeWindows_ok:
  assumes g: "0 < g" and fit: "windows_fit (track_slot ss mts g) g (opened_windows ss bounds mts g)"
    and all: "bounds \<noteq> []" "list_all (\<lambda>s. fs_blockPtsMs s < int64_max) ss"
  shows "length (gridTimeWindows ss bounds mts g) = length ss \<and> gapless (times_of (gridTimeWindows ss bounds mts g))"
proof -
  define ts where "ts = fst (window_times (track_slot ss mts g) g (opened_windows ss bounds mts g))"
  have eq: "gridTimeWindows ss bounds mts g = map2 set_time ss (concat ts) @ drop (length (concat ts)) ss"
    unfolding gridTimeWindows_def Let_def ts_def opened_windows_def track_windows_def track_slot_def [abs_def] ..
  note ok = window_times_ok [OF g fit, folded ts_def]
  have "map length ts = map length (track_windows ss bounds)"
  proof -
    have "map length ts = map (length \<circ> fst) (opened_windows ss bounds mts g)" using ok by blast
    also have "\<dots> = map length (map fst (opened_windows ss bounds mts g))" by simp
    also have "map fst (opened_windows ss bounds mts g) = track_windows ss bounds" by (simp add: opened_windows_def)
    finally show ?thesis .
  qed
  then have "length (concat ts) = length (concat (track_windows ss bounds))" by (simp add: length_concat)
  also have "\<dots> = length ss" using cut_windows_all [OF all] by (simp add: track_windows_def map_concat [symmetric])
  finally have len: "length (concat ts) = length ss" .
  then show ?thesis using ok by (simp add: eq times_of_set)
qed

end
