(* ===== verification/FragTiming.thy ===== *)
theory FragTiming
  imports GridWindow
begin

text \<open>
  The times of a fragmented track: \<^verbatim>\<open>fillFragTimingTS\<close> of mp4/fragment.go, which gives every sample its
  decode time, duration and composition offset, and \<^verbatim>\<open>segmentBoundaries\<close> and \<^verbatim>\<open>segmentWindow\<close> of
  mp4/hls.go, which cut the track into segments.  The lemmas show that decode times follow each other
  without a gap, that every sample presents at its own time, and that the segments of a track hold its
  samples in order, each segment decoding where the one before ends.
\<close>

section \<open>The composition shift\<close>

definition compositionPrefix :: nat where "compositionPrefix = 24"

definition compositionPrefixLen :: "bool list \<Rightarrow> nat" where
  "compositionPrefixLen syncs =
     (let n = min (length syncs) compositionPrefix in
      case filter (\<lambda>i. syncs ! i) [1..<n] of [] \<Rightarrow> n | i # _ \<Rightarrow> i)"

definition compositionShiftTS :: "int list \<Rightarrow> bool list \<Rightarrow> int" where
  "compositionShiftTS ptsTS syncs =
     (let n = min (compositionPrefixLen syncs) (length ptsTS) in
      if n < 2 then 0
      else let ps = take n ptsTS in foldl max 0 (map2 (-) (sort ps) ps))"

fun push_apart :: "int \<Rightarrow> int list \<Rightarrow> int list" where
  "push_apart prev [] = []"
| "push_apart prev (d # ds) = (let d = (if d \<le> prev then prev + 1 else d) in d # push_apart d ds)"

definition strictlyIncreasing :: "int list \<Rightarrow> int list" where
  "strictlyIncreasing dts = (case dts of [] \<Rightarrow> [] | d # ds \<Rightarrow> d # push_apart d ds)"

section \<open>A track timed\<close>

definition cts_offset :: "int \<Rightarrow> int \<Rightarrow> int \<Rightarrow> int" where
  "cts_offset shift p d = (let off = p - d + shift in if off < 0 then 0 else off)"

definition timed :: "fragSample \<Rightarrow> int \<Rightarrow> int \<Rightarrow> int \<Rightarrow> fragSample" where
  "timed s d u c = s\<lparr>fs_dtsTS := d, fs_durTS := u, fs_ctsTS := to_int32 c\<rparr>"

text \<open>The timings on a grid without windows, of spread laces, and of everything else.\<close>

definition grid_timed :: "fragSample list \<Rightarrow> u32 \<Rightarrow> int \<Rightarrow> fragSample list" where
  "grid_timed ss mts g =
     (let bs = map fs_blockPtsMs ss;
          ks = 0 # slots g mts (tsScale mts (hd bs)) (hd bs) 0 (tl bs);
          dts = map (\<lambda>k. k * g) ks
      in map2 set_time ss (zip dts (diffs dts @ [g])))"

definition spread_timed :: "fragSample list \<Rightarrow> u32 \<Rightarrow> fragSample list" where
  "spread_timed ss mts =
     (let bs = map fs_blockPtsMs ss; (span, frames) = firstLace bs mts
      in map2 set_time ss (spreadLaced bs mts (-1) (lastBlockSpan span frames)))"

definition plain_timed :: "fragSample list \<Rightarrow> int list \<Rightarrow> int \<Rightarrow> u32 \<Rightarrow> fragSample list \<times> bool \<times> int" where
  "plain_timed ss ps lastDurMs mts =
     (let dts = strictlyIncreasing (sort ps);
          base = hd dts;
          shift = compositionShiftTS (take compositionPrefix ps) (map fs_sync (take compositionPrefix ss));
          durs = diffs dts @ [last_duration mts lastDurMs (diffs dts)];
          offs = map2 (cts_offset shift) ps dts
      in (map (\<lambda>(s, d, u, c). timed s (d - base) u c) (zip ss (zip dts (zip durs offs))), list_ex (\<lambda>c. c \<noteq> 0) offs, shift))"

text \<open>The samples, the presentation offset, whether one has a composition offset, the track's length and the shift.\<close>

definition fillFragTimingTS ::
  "fragSample list \<Rightarrow> int list option \<Rightarrow> int \<Rightarrow> u32 \<Rightarrow> int \<Rightarrow> int list option \<Rightarrow> fragSample list \<times> int \<times> bool \<times> int \<times> int" where
  "fillFragTimingTS ss ptsTS lastDurMs mts gridTS bounds =
     (if ss = [] then ([], 0, False, 0, 0)
      else
       let lastDurMs = (if ptsTS \<noteq> None then 0 else lastDurMs);
           gridTS = (if gridTS = 0 then deriveGridTS (map fs_blockPtsMs ss) mts else gridTS);
           offsetMs = foldl min (fs_ptsMs (hd ss)) (map fs_ptsMs ss)
       in if gridTS > 0 then
            let out = (case bounds of Some bs \<Rightarrow> gridTimeWindows ss bs mts gridTS | None \<Rightarrow> grid_timed ss mts gridTS)
            in (out, offsetMs, False, sum_list (map fs_durTS out), 0)
          else if gridTS = gridSpread then
            let out = spread_timed ss mts in (out, offsetMs, False, sum_list (map fs_durTS out), 0)
          else
            let ps = (case ptsTS of Some p \<Rightarrow> p | None \<Rightarrow> map (\<lambda>s. tsScale mts (fs_ptsMs s)) ss);
                (out, hasCTS, shift) = plain_timed ss ps lastDurMs mts
            in (out, offsetMs, hasCTS, sum_list (map fs_durTS out), shift))"

definition fillFragTiming :: "fragSample list \<Rightarrow> int \<Rightarrow> u32 \<Rightarrow> int \<Rightarrow> fragSample list \<times> int \<times> bool \<times> int \<times> int" where
  "fillFragTiming ss lastDurMs mts gridTS = fillFragTimingTS ss None lastDurMs mts gridTS None"

section \<open>Segments of a track\<close>

fun boundaries_from :: "int \<Rightarrow> int \<Rightarrow> fragSample list \<Rightarrow> int list" where
  "boundaries_from target prev [] = []"
| "boundaries_from target prev (s # ss) =
     (if fs_sync s \<and> fs_blockPtsMs s \<ge> prev + target then fs_blockPtsMs s # boundaries_from target (fs_blockPtsMs s) ss
      else boundaries_from target prev ss)"

definition segmentBoundaries :: "fragSample list \<Rightarrow> int \<Rightarrow> int list" where
  "segmentBoundaries video targetMs = 0 # boundaries_from targetMs 0 video"

record fragTrack =
  ft_mp4ID :: u32
  ft_timescale :: u32
  ft_samples :: "fragSample list"
  ft_durMediaTS :: int

definition windowHasCTS :: "fragSample list \<Rightarrow> bool" where
  "windowHasCTS ss \<longleftrightarrow> list_ex (\<lambda>s. fs_ctsTS s \<noteq> 0) ss"

definition emptyWindowTS :: "u32 \<Rightarrow> int \<Rightarrow> int \<Rightarrow> int \<Rightarrow> int" where
  "emptyWindowTS ts originMs segStartMs endTS = min (max (tsScale ts segStartMs - tsScale ts originMs) 0) endTS"

text \<open>One segment, and the cursor behind it.\<close>

definition segmentWindow :: "fragTrack \<Rightarrow> nat \<Rightarrow> int \<Rightarrow> int \<Rightarrow> trackSegment \<times> nat" where
  "segmentWindow ft cursor segStart segEnd =
     (let ss = takeWhile (\<lambda>s. fs_blockPtsMs s < segEnd) (drop cursor (ft_samples ft));
          empty = (if ft_samples ft = [] then ft_durMediaTS ft
                   else emptyWindowTS (ft_timescale ft) (fs_ptsMs (hd (ft_samples ft))) segStart (ft_durMediaTS ft))
      in (\<lparr>seg_trackID = ft_mp4ID ft, seg_baseDecodeTS = (if ss \<noteq> [] then fs_dtsTS (hd ss) else empty), seg_samples = ss,
           seg_hasCTS = windowHasCTS ss, seg_dataLen = sum_list (map (uint \<circ> fs_size) ss), seg_cenc = None\<rparr>,
          cursor + length ss))"

text \<open>The loop of \<^verbatim>\<open>writeSegments\<close> over the boundaries, for one track.\<close>

fun segments :: "fragTrack \<Rightarrow> nat \<Rightarrow> int list \<Rightarrow> trackSegment list" where
  "segments ft cursor [] = []"
| "segments ft cursor (b # bs) =
     (let (seg, cursor) = segmentWindow ft cursor b (case bs of [] \<Rightarrow> int64_max | e # _ \<Rightarrow> e)
      in seg # segments ft cursor bs)"

definition iframeSegment :: "trackSegment \<Rightarrow> trackSegment" where
  "iframeSegment seg =
     (let one = take 1 (seg_samples seg) in
      seg\<lparr>seg_samples := one, seg_dataLen := uint (fs_size (hd (seg_samples seg))), seg_hasCTS := windowHasCTS one\<rparr>)"

section \<open>Lemmas on the shift\<close>

lemma push_apart_increasing: "sorted_wrt (<) (prev # push_apart prev ds)"
proof (induction ds arbitrary: prev)
  case (Cons d ds)
  define d' where "d' = (if d \<le> prev then prev + 1 else d)"
  have "prev < d'" by (simp add: d'_def)
  moreover have "push_apart prev (d # ds) = d' # push_apart d' ds" by (simp add: Let_def d'_def)
  ultimately show ?case using Cons.IH [of d'] by fastforce
qed simp

lemma length_push_apart [simp]: "length (push_apart prev ds) = length ds"
  by (induction ds arbitrary: prev) (simp_all add: Let_def)

lemma push_apart_distinct: "sorted_wrt (<) (prev # ds) \<Longrightarrow> push_apart prev ds = ds"
  by (induction ds arbitrary: prev) auto

lemma strictlyIncreasing_ok:
  "sorted_wrt (<) (strictlyIncreasing ds)" "length (strictlyIncreasing ds) = length ds"
  "ds \<noteq> [] \<Longrightarrow> hd (strictlyIncreasing ds) = hd ds"
  using push_apart_increasing by (auto simp: strictlyIncreasing_def split: list.splits)

lemma strictlyIncreasing_id: "sorted_wrt (<) ds \<Longrightarrow> strictlyIncreasing ds = ds"
  by (cases ds) (simp_all add: strictlyIncreasing_def push_apart_distinct)

lemma foldl_max_ge: "(a :: int) \<le> foldl max a xs \<and> (x \<in> set xs \<longrightarrow> x \<le> foldl max a xs)"
proof (induction xs arbitrary: a)
  case (Cons y ys)
  have "max a y \<le> foldl max (max a y) ys" using Cons by blast
  moreover have "x \<in> set ys \<Longrightarrow> x \<le> foldl max (max a y) ys" using Cons by blast
  ultimately show ?case by auto
qed simp

lemma compositionShift_nonneg: "0 \<le> compositionShiftTS ps syncs"
  using foldl_max_ge by (simp add: compositionShiftTS_def Let_def)
lemma sorted_nth_le:
  fixes xs :: "int list"
  assumes "sorted xs" "i < length (filter (\<lambda>y. y \<le> x) xs)"
  shows "xs ! i \<le> x"
proof (rule ccontr)
  assume "\<not> xs ! i \<le> x"
  have i: "i < length xs" using assms(2) length_filter_le [of "\<lambda>y. y \<le> x" xs] by linarith
  have "filter (\<lambda>y. y \<le> x) (drop i xs) = []"
  proof (rule filter_False, rule ballI)
    fix y assume "y \<in> set (drop i xs)"
    then obtain k where "k < length (drop i xs)" "y = drop i xs ! k" by (metis in_set_conv_nth)
    then have "xs ! i \<le> y" using assms(1) i by (simp add: sorted_nth_mono)
    then show "\<not> y \<le> x" using \<open>\<not> xs ! i \<le> x\<close> by simp
  qed
  moreover have "filter (\<lambda>y. y \<le> x) xs = filter (\<lambda>y. y \<le> x) (take i xs) @ filter (\<lambda>y. y \<le> x) (drop i xs)"
    by (metis append_take_drop_id filter_append)
  moreover have "length (filter (\<lambda>y. y \<le> x) (take i xs)) \<le> i"
    using length_filter_le [of "\<lambda>y. y \<le> x" "take i xs"] by simp
  ultimately show False using assms(2) by simp
qed

lemma length_filter_sort: "length (filter P (sort xs)) = length (filter P (xs :: int list))"
  by (simp add: filter_sort)

text \<open>The times of a prefix, sorted on their own, come no earlier than they do among all.\<close>

lemma sort_prefix_later:
  fixes xs :: "int list"
  assumes "i < n" "n \<le> length xs"
  shows "sort xs ! i \<le> sort (take n xs) ! i"
proof (rule sorted_nth_le)
  let ?x = "sort (take n xs) ! i"
  have "Suc i \<le> length (filter (\<lambda>y. y \<le> ?x) (sort (take n xs)))"
  proof -
    have "list_all (\<lambda>y. y \<le> ?x) (take (Suc i) (sort (take n xs)))"
      using assms by (auto simp: list_all_length intro: sorted_nth_mono)
    then have "filter (\<lambda>y. y \<le> ?x) (take (Suc i) (sort (take n xs))) = take (Suc i) (sort (take n xs))"
      by (simp add: list_all_iff filter_id_conv)
    moreover have "filter (\<lambda>y. y \<le> ?x) (sort (take n xs)) =
        filter (\<lambda>y. y \<le> ?x) (take (Suc i) (sort (take n xs))) @ filter (\<lambda>y. y \<le> ?x) (drop (Suc i) (sort (take n xs)))"
      by (metis append_take_drop_id filter_append)
    ultimately show ?thesis using assms by simp
  qed
  also have "\<dots> = length (filter (\<lambda>y. y \<le> ?x) (take n xs))" by (rule length_filter_sort)
  also have "\<dots> \<le> length (filter (\<lambda>y. y \<le> ?x) xs)"
    by (metis append_take_drop_id filter_append length_append le_add1)
  also have "\<dots> = length (filter (\<lambda>y. y \<le> ?x) (sort xs))" by (rule length_filter_sort [symmetric])
  finally show "i < length (filter (\<lambda>y. y \<le> ?x) (sort xs))" by simp
qed simp

lemma compositionShift_covers:
  assumes "i < min (compositionPrefixLen syncs) (length ps)"
  shows "sort (take (min (compositionPrefixLen syncs) (length ps)) ps) ! i - ps ! i \<le> compositionShiftTS ps syncs"
proof (cases "min (compositionPrefixLen syncs) (length ps) < 2")
  case True
  then have "i = 0" "min (compositionPrefixLen syncs) (length ps) = 1" using assms by linarith+
  moreover have "ps \<noteq> []" using assms by auto
  ultimately show ?thesis using compositionShift_nonneg [of ps syncs] by (cases ps) simp_all
next
  case False
  let ?n = "min (compositionPrefixLen syncs) (length ps)"
  have "map2 (-) (sort (take ?n ps)) (take ?n ps) ! i = sort (take ?n ps) ! i - ps ! i" using assms by simp
  moreover have "map2 (-) (sort (take ?n ps)) (take ?n ps) ! i \<in> set (map2 (-) (sort (take ?n ps)) (take ?n ps))"
    using assms by (intro nth_mem) simp
  moreover have "compositionShiftTS ps syncs = foldl max 0 (map2 (-) (sort (take ?n ps)) (take ?n ps))"
    unfolding compositionShiftTS_def Let_def using False by (rule if_not_P)
  ultimately show ?thesis using foldl_max_ge by metis
qed
section \<open>A track timed by its presentation times\<close>

lemma plain_timed_nth:
  assumes "plain_timed ss ps lastDurMs mts = (out, h, shift)" "length ps = length ss" "i < length ss"
  shows "out ! i = timed (ss ! i) (strictlyIncreasing (sort ps) ! i - hd (strictlyIncreasing (sort ps)))
       ((diffs (strictlyIncreasing (sort ps)) @ [last_duration mts lastDurMs (diffs (strictlyIncreasing (sort ps)))]) ! i)
       (cts_offset shift (ps ! i) (strictlyIncreasing (sort ps) ! i))"
  using assms strictlyIncreasing_ok(2) [of "sort ps"] by (auto simp: plain_timed_def Let_def)

lemma plain_timed_length:
  assumes "plain_timed ss ps lastDurMs mts = (out, h, shift)" "length ps = length ss" "ss \<noteq> []"
  shows "length out = length ss"
  using assms strictlyIncreasing_ok(2) [of "sort ps"] by (cases ss) (auto simp: plain_timed_def Let_def)

lemma gapless_shift: "gapless (map (\<lambda>(d, u). (d - b, u)) ts) = gapless ts"
proof (induction ts rule: gapless.induct)
  case (3 t t' ts)
  then show ?case by (cases t, cases t') auto
qed auto

lemma plain_timed_gapless:
  assumes out: "plain_timed ss ps lastDurMs mts = (out, h, shift)" "length ps = length ss" "ss \<noteq> []"
    and d: "1 \<le> last_duration mts lastDurMs (diffs (strictlyIncreasing (sort ps)))"
  shows "gapless (times_of out)" "fst (hd (times_of out)) = 0"
proof -
  define dts u where "dts = strictlyIncreasing (sort ps)" and "u = last_duration mts lastDurMs (diffs dts)"
  have len: "length dts = length ss" "length out = length ss"
    using strictlyIncreasing_ok(2) [of "sort ps"] plain_timed_length [OF out] out(2) by (simp_all add: dts_def)
  have eq: "times_of out = map (\<lambda>(d, u). (d - hd dts, u)) (zip dts (diffs dts @ [u]))"
  proof (rule nth_equalityI)
    show "length (times_of out) = length (map (\<lambda>(d, u). (d - hd dts, u)) (zip dts (diffs dts @ [u])))"
      using len out(3) by (cases ss) (simp_all add: times_of_def)
  next
    fix i assume "i < length (times_of out)"
    then have i: "i < length ss" by (simp add: times_of_def len)
    show "times_of out ! i = map (\<lambda>(d, u). (d - hd dts, u)) (zip dts (diffs dts @ [u])) ! i"
      using plain_timed_nth [OF out(1,2) i] i len by (simp add: times_of_def timed_def dts_def u_def)
  qed
  have "gapless (zip dts (diffs dts @ [u]))"
    using gapless_diffs strictlyIncreasing_ok(1) d by (simp add: dts_def u_def)
  then show "gapless (times_of out)" by (simp only: eq gapless_shift)
  show "fst (hd (times_of out)) = 0" using len out(3) by (cases dts; cases "diffs dts @ [u]") (auto simp: eq)
qed

text \<open>Where a sample presents, for offsets that fit 32 bits.\<close>

definition presentable :: "int list \<Rightarrow> int \<Rightarrow> bool" where
  "presentable ps shift \<longleftrightarrow> list_all (\<lambda>p. p - hd (sort ps) + shift < 2 ^ 31) ps"

lemma strictlyIncreasing_ge: "i < length ds \<Longrightarrow> sorted ds \<Longrightarrow> hd ds \<le> strictlyIncreasing ds ! i"
proof -
  assume i: "i < length ds" "sorted ds"
  then have ne: "ds \<noteq> []" by auto
  note inc = strictlyIncreasing_ok [of ds]
  have "strictlyIncreasing ds ! 0 = hd ds" using inc(2,3) ne by (cases "strictlyIncreasing ds") auto
  then show ?thesis using sorted_wrt_nth_less [OF inc(1), of 0 i] i inc(2) by (cases i) auto
qed

lemma plain_timed_presents:
  assumes out: "plain_timed ss ps lastDurMs mts = (out, h, shift)" "length ps = length ss" "i < length ss"
    and small: "presentable ps shift"
  shows "fs_dtsTS (out ! i) + fs_ctsTS (out ! i) = max (ps ! i - hd (sort ps) + shift) (fs_dtsTS (out ! i)) \<and> 0 \<le> fs_ctsTS (out ! i)"
proof -
  define dts where "dts = strictlyIncreasing (sort ps)"
  have ne: "sort ps \<noteq> []" using out(2,3) by (metis length_sort list.size(3) less_nat_zero_code)
  have hd: "hd dts = hd (sort ps)" using strictlyIncreasing_ok(3) ne by (simp add: dts_def)
  have ge: "hd (sort ps) \<le> dts ! i" using strictlyIncreasing_ge [of i "sort ps"] out(2,3) by (simp add: dts_def)
  have "ps ! i - hd (sort ps) + shift < 2 ^ 31" using small out(2,3) by (simp add: presentable_def list_all_length)
  then have off: "ps ! i - dts ! i + shift < 2 ^ 31" using ge by simp
  then have "to_int32 (cts_offset shift (ps ! i) (dts ! i)) = max (ps ! i - dts ! i + shift) 0"
    by (subst to_int32_id) (auto simp: cts_offset_def Let_def)
  then show ?thesis using plain_timed_nth [OF out] by (simp add: timed_def dts_def [symmetric] hd)
qed

lemma compositionPrefixLen_le: "compositionPrefixLen syncs \<le> length syncs"
proof (cases "filter (\<lambda>i. syncs ! i) [1..<min (length syncs) compositionPrefix]")
  case (Cons j js)
  then have "j \<in> set (filter (\<lambda>i. syncs ! i) [1..<min (length syncs) compositionPrefix])" by simp
  then have "j < length syncs" by simp
  then show ?thesis using Cons by (simp add: compositionPrefixLen_def Let_def)
qed (simp add: compositionPrefixLen_def Let_def)

lemma plain_timed_covered:
  assumes out: "plain_timed ss ps lastDurMs mts = (out, h, shift)" "length ps = length ss"
    and "distinct ps" "i < compositionPrefixLen (map fs_sync (take compositionPrefix ss))"
  shows "fs_dtsTS (out ! i) \<le> ps ! i - hd (sort ps) + shift"
proof -
  let ?syncs = "map fs_sync (take compositionPrefix ss)" and ?ps = "take compositionPrefix ps"
  have le: "compositionPrefixLen ?syncs \<le> length ?syncs" by (rule compositionPrefixLen_le)
  then have n: "min (compositionPrefixLen ?syncs) (length ?ps) = compositionPrefixLen ?syncs" using out(2) by simp
  have i: "i < length ss" "i < compositionPrefix" using assms(4) le by simp_all
  have "sort (take (compositionPrefixLen ?syncs) ?ps) ! i - ?ps ! i \<le> compositionShiftTS ?ps ?syncs"
    using compositionShift_covers [of i ?syncs ?ps] assms(4) by (simp only: n)
  moreover have "take (compositionPrefixLen ?syncs) ?ps = take (compositionPrefixLen ?syncs) ps" using le by (simp add: min_absorb1)
  moreover have "compositionShiftTS ?ps ?syncs = shift" using out(1) by (auto simp: plain_timed_def Let_def)
  moreover have "sort ps ! i \<le> sort (take (compositionPrefixLen ?syncs) ps) ! i"
    using sort_prefix_later [of i "compositionPrefixLen ?syncs" ps] assms(4) le out(2) by simp
  ultimately have "sort ps ! i - ps ! i \<le> shift" using i by simp
  moreover have "strictlyIncreasing (sort ps) = sort ps"
    using strictlyIncreasing_id assms(3) by (simp add: strict_sorted_iff)
  ultimately show ?thesis using plain_timed_nth [OF out i(1)] by (simp add: timed_def)
qed
section \<open>Segments\<close>

lemma segments_windows: "map seg_samples (segments ft c bs) = cut_windows bs (drop c (ft_samples ft))"
proof (induction bs arbitrary: c)
  case (Cons b bs)
  let ?e = "case bs of [] \<Rightarrow> int64_max | e # _ \<Rightarrow> e"
  let ?in = "\<lambda>s. fs_blockPtsMs s < ?e" and ?ss = "drop c (ft_samples ft)"
  have "drop (length (takeWhile ?in ?ss)) ?ss = dropWhile ?in ?ss" by (simp add: dropWhile_eq_drop)
  then have "drop (c + length (takeWhile ?in ?ss)) (ft_samples ft) = dropWhile ?in ?ss" by (simp add: add.commute)
  then show ?case using Cons.IH by (simp add: segmentWindow_def Let_def)
qed simp

lemma segments_tile:
  assumes "bounds \<noteq> []" "list_all (\<lambda>s. fs_blockPtsMs s < int64_max) (ft_samples ft)"
  shows "concat (map seg_samples (segments ft 0 bounds)) = ft_samples ft"
  using cut_windows_all [OF assms] by (simp add: segments_windows)

lemma segments_fields:
  "seg \<in> set (segments ft c bs) \<Longrightarrow>
   seg_trackID seg = ft_mp4ID ft \<and> seg_hasCTS seg = windowHasCTS (seg_samples seg) \<and> seg_cenc seg = None \<and>
   seg_dataLen seg = sum_list (map (uint \<circ> fs_size) (seg_samples seg)) \<and>
   (seg_samples seg \<noteq> [] \<longrightarrow> seg_baseDecodeTS seg = fs_dtsTS (hd (seg_samples seg)))"
proof (induction bs arbitrary: c)
  case (Cons b bs)
  show ?case
  proof (cases "seg = fst (segmentWindow ft c b (case bs of [] \<Rightarrow> int64_max | e # _ \<Rightarrow> e))")
    case True
    then show ?thesis by (simp add: segmentWindow_def Let_def comp_def)
  next
    case False
    then show ?thesis using Cons by (auto simp: case_prod_beta)
  qed
qed simp

lemma gapless_split:
  assumes "gapless (times_of (xs @ s # ys))"
  shows "fs_dtsTS s = fs_dtsTS (hd (xs @ s # ys)) + sum_list (map fs_durTS xs)"
  using assms
proof (induction xs)
  case (Cons x xs)
  note IH = Cons.IH and gap = Cons.prems
  show ?case
  proof (cases xs)
    case Nil
    then show ?thesis using gap by (simp add: times_of_def)
  next
    case (Cons y zs)
    have "gapless ((fs_dtsTS x, fs_durTS x) # (fs_dtsTS y, fs_durTS y) # times_of (zs @ s # ys))"
      using gap by (simp only: Cons times_of_def append_Cons list.map)
    then have "fs_dtsTS y = fs_dtsTS x + fs_durTS x" "gapless ((fs_dtsTS y, fs_durTS y) # times_of (zs @ s # ys))"
      unfolding gapless.simps(3) fst_conv snd_conv by blast+
    moreover have "(fs_dtsTS y, fs_durTS y) # times_of (zs @ s # ys) = times_of (xs @ s # ys)"
      by (simp add: Cons times_of_def)
    ultimately have "fs_dtsTS y = fs_dtsTS x + fs_durTS x" "gapless (times_of (xs @ s # ys))" by (simp_all only:)
    with IH show ?thesis by (simp add: Cons)
  qed
qed simp

lemma segments_base:
  assumes "bounds \<noteq> []" "list_all (\<lambda>s. fs_blockPtsMs s < int64_max) (ft_samples ft)" "gapless (times_of (ft_samples ft))"
    and split: "segments ft 0 bounds = before @ seg # behind" and ne: "seg_samples seg \<noteq> []"
  shows "seg_baseDecodeTS seg = fs_dtsTS (hd (ft_samples ft)) + sum_list (map fs_durTS (concat (map seg_samples before)))"
proof -
  obtain s ss where s: "seg_samples seg = s # ss" using ne by (cases "seg_samples seg") auto
  define pre post where "pre = concat (map seg_samples before)" and "post = ss @ concat (map seg_samples behind)"
  have all: "ft_samples ft = pre @ s # post"
    using segments_tile [OF assms(1,2)] by (simp add: split s pre_def post_def)
  have "seg_baseDecodeTS seg = fs_dtsTS s" using segments_fields [of seg ft 0 bounds] split s by simp
  then show ?thesis using gapless_split [of pre s post] assms(3) by (simp add: all pre_def)
qed

text \<open>A segment that starts later than its target: the boundaries never go back.\<close>

lemma boundaries_increasing:
  "0 < target \<Longrightarrow> sorted_wrt (<) (prev # boundaries_from target prev ss)"
proof (induction target prev ss rule: boundaries_from.induct)
  case (2 target prev s ss)
  show ?case
  proof (cases "fs_sync s \<and> fs_blockPtsMs s \<ge> prev + target")
    case True
    then have "sorted_wrt (<) (fs_blockPtsMs s # boundaries_from target (fs_blockPtsMs s) ss)" using 2 by simp
    then show ?thesis using True "2.prems" by fastforce
  next
    case False
    have "boundaries_from target prev (s # ss) = boundaries_from target prev ss"
      unfolding boundaries_from.simps(2) by (rule if_not_P [OF False])
    moreover have "sorted_wrt (<) (prev # boundaries_from target prev ss)" using 2 False by blast
    ultimately show ?thesis by (simp only:)
  qed
qed simp
section \<open>Correctness\<close>

text \<open>The presentation times of a track: its own ticks when it has them, else its milliseconds scaled.\<close>

definition presentation :: "fragSample list \<Rightarrow> int list option \<Rightarrow> u32 \<Rightarrow> int list" where
  "presentation ss ptsTS mts = (case ptsTS of Some p \<Rightarrow> p | None \<Rightarrow> map (\<lambda>s. tsScale mts (fs_ptsMs s)) ss)"

lemma last_duration_pos:
  assumes "sorted_wrt (<) dts" "lastDurMs \<le> 0 \<or> 1 \<le> tsScale mts lastDurMs"
  shows "1 \<le> last_duration mts lastDurMs (diffs dts)"
proof -
  have "1 \<le> last (diffs dts)" if "diffs dts \<noteq> []"
    using assms(1) that
  proof (induction dts rule: diffs.induct)
    case (1 x y zs)
    then show ?case by (cases "diffs (y # zs) = []") simp_all
  qed simp_all
  then show ?thesis using assms(2) by (auto simp: last_duration_def)
qed

lemma sum_durations: "sum_list (map fs_durTS out) = sum_list (map snd (times_of out))"
  by (induction out) (simp_all add: times_of_def)

text \<open>C7.
  A video track timed for fragments (\<^verbatim>\<open>fillFragTimingTS\<close> off the grid), its blocks in any order and with
  equal stamps: decode times start at 0 and follow each other without a gap, every frame lasting a tick or
  more, and add up to the track's length.  No composition offset is negative; every sample presents at
  its own time, moved by the track's one shift, or at its decode time where that is later, which no
  sample of the opening prefix is when the presentation times differ.
\<close>

theorem fragment_times:
  assumes fill: "fillFragTimingTS ss ptsTS lastDurMs mts gridTS bounds = (out, off, hasCTS, len, shift)"
    and ss: "ss \<noteq> []" "length (presentation ss ptsTS mts) = length ss" and grid: "gridTS < 0" "gridTS \<noteq> gridSpread"
    and lst: "ptsTS \<noteq> None \<or> lastDurMs \<le> 0 \<or> 1 \<le> tsScale mts lastDurMs" and small: "presentable (presentation ss ptsTS mts) shift"
  shows "length out = length ss \<and> gapless (times_of out) \<and> fst (hd (times_of out)) = 0 \<and> len = time_end (times_of out) \<and> 0 \<le> shift \<and>
     (\<forall>i < length ss. 0 \<le> fs_ctsTS (out ! i) \<and>
        fs_dtsTS (out ! i) + fs_ctsTS (out ! i) =
          max (presentation ss ptsTS mts ! i - hd (sort (presentation ss ptsTS mts)) + shift) (fs_dtsTS (out ! i))) \<and>
     (distinct (presentation ss ptsTS mts) \<longrightarrow> (\<forall>i < compositionPrefixLen (map fs_sync (take compositionPrefix ss)).
        fs_dtsTS (out ! i) + fs_ctsTS (out ! i) = presentation ss ptsTS mts ! i - hd (sort (presentation ss ptsTS mts)) + shift))"
proof -
  let ?ps = "presentation ss ptsTS mts" and ?last = "if ptsTS \<noteq> None then 0 else lastDurMs"
  have plain: "plain_timed ss ?ps ?last mts = (out, hasCTS, shift)" and len: "len = sum_list (map fs_durTS out)"
    using fill ss(1) grid by (auto simp: fillFragTimingTS_def Let_def presentation_def split: prod.splits)
  have "1 \<le> last_duration mts ?last (diffs (strictlyIncreasing (sort ?ps)))"
    by (rule last_duration_pos [OF strictlyIncreasing_ok(1)]) (use lst in auto)
  note gap = plain_timed_gapless [OF plain ss(2,1) this]
  have n: "length out = length ss" by (rule plain_timed_length [OF plain ss(2,1)])
  then have "times_of out \<noteq> []" using ss(1) by (auto simp: times_of_def)
  then have "len = time_end (times_of out)" using gapless_sum [OF gap(1)] gap(2) by (simp add: len sum_durations)
  moreover have "0 \<le> shift" using plain compositionShift_nonneg by (auto simp: plain_timed_def Let_def)
  moreover have pres: "fs_dtsTS (out ! i) + fs_ctsTS (out ! i) = max (?ps ! i - hd (sort ?ps) + shift) (fs_dtsTS (out ! i)) \<and>
      0 \<le> fs_ctsTS (out ! i)" if "i < length ss" for i
    by (rule plain_timed_presents [OF plain ss(2) that small])
  moreover have "fs_dtsTS (out ! i) + fs_ctsTS (out ! i) = ?ps ! i - hd (sort ?ps) + shift"
    if "distinct ?ps" "i < compositionPrefixLen (map fs_sync (take compositionPrefix ss))" for i
  proof -
    have "i < length ss" using that(2) compositionPrefixLen_le [of "map fs_sync (take compositionPrefix ss)"] by simp
    then show ?thesis using pres plain_timed_covered [OF plain ss(2) that] by simp
  qed
  ultimately show ?thesis using gap n by (intro conjI allI impI) simp_all
qed

text \<open>Three frames, the last presented between the first two.\<close>

definition ex_frame :: "int \<Rightarrow> bool \<Rightarrow> fragSample" where
  "ex_frame t k = \<lparr>fs_size = 10, fs_ptsMs = t, fs_blockPtsMs = t, fs_sync = k, fs_dtsTS = 0, fs_durTS = 0, fs_ctsTS = 0, fs_cut = False, fs_srcOff = 0\<rparr>"

definition ex_gop :: "fragSample list" where
  "ex_gop = [ex_frame 0 True, ex_frame 80 False, ex_frame 40 False]"

lemma ex_gop_timed:
  "fillFragTimingTS ex_gop None 40 1000 (-1) None =
     ([timed (ex_frame 0 True) 0 40 40, timed (ex_frame 80 False) 40 40 80, timed (ex_frame 40 False) 80 40 0], 0, True, 120, 40)"
  by code_simp

theorem fragment_times_witness:
  "\<exists>out shift. fillFragTimingTS ex_gop None 40 1000 (-1) None = (out, 0, True, 120, shift) \<and> shift = 40 \<and>
     gapless (times_of out) \<and> fs_dtsTS (out ! 1) + fs_ctsTS (out ! 1) = 120"
proof -
  have p: "presentation ex_gop None 1000 = [0, 80, 40]" by code_simp
  have "length (presentation ex_gop None 1000) = length ex_gop" "presentable (presentation ex_gop None 1000) 40"
    "distinct (presentation ex_gop None 1000)" "compositionPrefixLen (map fs_sync (take compositionPrefix ex_gop)) = 3"
    by code_simp+
  moreover have "ex_gop \<noteq> []" by (simp add: ex_gop_def)
  moreover have "hd (sort [0, 80, 40 :: int]) = 0" by code_simp
  ultimately have "gapless (times_of [timed (ex_frame 0 True) 0 40 40, timed (ex_frame 80 False) 40 40 80, timed (ex_frame 40 False) 80 40 0])"
    using fragment_times [OF ex_gop_timed] by (simp add: gridSpread_def tsScale_def movieTimescale_def)
  moreover have "fs_dtsTS ([timed (ex_frame 0 True) 0 40 40, timed (ex_frame 80 False) 40 40 80, timed (ex_frame 40 False) 80 40 0] ! 1) +
      fs_ctsTS ([timed (ex_frame 0 True) 0 40 40, timed (ex_frame 80 False) 40 40 80, timed (ex_frame 40 False) 80 40 0] ! 1) = 120"
    by code_simp
  ultimately show ?thesis using ex_gop_timed by blast
qed

end
