(* ===== verification/FragParse.thy ===== *)
theory FragParse
  imports Fragment
begin

text \<open>
  Fragmented MP4 input (mp4/fragparse.go): the \<^verbatim>\<open>moof\<close> boxes of a file and the samples their \<^verbatim>\<open>trun\<close>s
  declare, placed in the file and timed in their track's scale.  The file is its bytes.  A parse that
  fails aborts the remux, so that an error is the only result then.  \<open>SampleTable.inTrack\<close> is extended by
  the fields only a fragmented track uses.
\<close>

section \<open>Movies\<close>

record trexDefault =
  x_duration :: u32
  x_size :: u32
  x_flags :: u32

record moofTrack = inTrack +
  t_trackID :: u32
  t_fragDecodeEnd :: int
  t_frameCount :: int
  t_durationMs :: int

record movie =
  m_tracks :: "moofTrack list"
  m_fragHeld :: int
  m_durationMs :: int

type_synonym trexMap = "u32 \<rightharpoonup> trexDefault"

definition sampleNonSync :: u32 where "sampleNonSync = 0x00010000"
definition trunFirstSampleFlag :: u32 where "trunFirstSampleFlag = 0x000004"
definition tfhdBaseDataOffset :: u32 where "tfhdBaseDataOffset = 0x000001"
definition tfhdSampleDescIndex :: u32 where "tfhdSampleDescIndex = 0x000002"
definition tfhdDefaultDuration :: u32 where "tfhdDefaultDuration = 0x000008"
definition tfhdDefaultSize :: u32 where "tfhdDefaultSize = 0x000010"
definition tfhdDefaultFlags :: u32 where "tfhdDefaultFlags = 0x000020"

definition maxFragMoofBytes :: int where "maxFragMoofBytes = 64 * 2 ^ 20"

definition add_trex :: "trexMap \<Rightarrow> memBox \<Rightarrow> trexMap" where
  "add_trex m b =
     (if mb_typ b = trex_typ \<and> length (mb_payload b) \<ge> 24 then
        let p = mb_payload b in
        m(be_dec (slice 4 8 p) \<mapsto> \<lparr>x_duration = be_dec (slice 12 16 p), x_size = be_dec (slice 16 20 p), x_flags = be_dec (slice 20 24 p)\<rparr>)
      else m)"

definition parseTrexDefaults :: "memBox list \<Rightarrow> trexMap" where
  "parseTrexDefaults moovBoxes =
     (case findMemBox moovBoxes mvex_typ of
        None \<Rightarrow> (\<lambda>_. None)
      | Some mvex \<Rightarrow> (case iterBoxes (mb_payload mvex) of Inl _ \<Rightarrow> (\<lambda>_. None) | Inr boxes \<Rightarrow> foldl add_trex (\<lambda>_. None) boxes))"

text \<open>The first track with a number: what \<^verbatim>\<open>trackIdx\<close> holds.\<close>

fun track_index :: "u32 \<Rightarrow> moofTrack list \<Rightarrow> nat option" where
  "track_index i [] = None"
| "track_index i (t # ts) = (if t_trackID t = i then Some 0 else map_option Suc (track_index i ts))"

section \<open>Track fragment headers\<close>

record tfhd =
  h_trackID :: u32
  h_baseDataOffset :: int
  h_haveBaseOffset :: bool
  h_defaultBaseIsMoof :: bool
  h_dur :: "u32 option"
  h_size :: "u32 option"
  h_flags :: "u32 option"

text \<open>
  \<^verbatim>\<open>read4\<close>: four bytes when they are there, and nothing consumed otherwise.  A default is its value
  and its \<^verbatim>\<open>have\<close> bit as an option.
\<close>

definition read4 :: "bytes \<Rightarrow> u32 option \<times> bytes" where
  "read4 p = (if length p < 4 then (None, p) else (Some (be_dec (take 4 p)), drop 4 p))"

definition read4_if :: "bool \<Rightarrow> bytes \<Rightarrow> u32 option \<times> bytes" where
  "read4_if b p = (if b then read4 p else (None, p))"

definition parseTfhd :: "bytes \<Rightarrow> tfhd result" where
  "parseTfhd p =
     (if length p < 8 then Inl (Errf ''tfhd too short'')
      else let flags = be_dec (take 4 p) AND 0xFFFFFF :: u32; tid = be_dec (slice 4 8 p); q = drop 8 p;
               stated = flags AND tfhdBaseDataOffset \<noteq> 0
      in if stated \<and> length q < 8 then Inl (Errf ''tfhd truncated base_data_offset'')
         else let base = (if stated then sint (be_dec (take 8 q) :: u64) else 0);
                  q = (if stated then drop 8 q else q);
                  (_, q) = read4_if (flags AND tfhdSampleDescIndex \<noteq> 0) q;
                  (dur, q) = read4_if (flags AND tfhdDefaultDuration \<noteq> 0) q;
                  (sz, q) = read4_if (flags AND tfhdDefaultSize \<noteq> 0) q;
                  (fl, q) = read4_if (flags AND tfhdDefaultFlags \<noteq> 0) q
              in Inr \<lparr>h_trackID = tid, h_baseDataOffset = base, h_haveBaseOffset = stated,
                      h_defaultBaseIsMoof = (flags AND tfhdDefaultBaseIsMoof \<noteq> 0), h_dur = dur, h_size = sz, h_flags = fl\<rparr>)"

definition parseTfdt :: "bytes \<Rightarrow> int" where
  "parseTfdt p =
     (if length p < 8 then 0
      else if p ! 0 = 1 \<and> length p \<ge> 12 then sint (be_dec (slice 4 12 p) :: u64)
      else uint (be_dec (slice 4 8 p) :: u32))"

section \<open>Runs of samples\<close>

definition trun_field :: "bool \<Rightarrow> u32 \<Rightarrow> string \<Rightarrow> bytes \<Rightarrow> (u32 \<times> bytes) result" where
  "trun_field present dv msg p =
     (if \<not> present then Inr (dv, p)
      else if length p < 4 then Inl (Errf msg)
      else Inr (be_dec (take 4 p), drop 4 p))"

record defaults =
  d_dur :: u32
  d_size :: u32
  d_flags :: u32

text \<open>The loop over the samples of a \<^verbatim>\<open>trun\<close>: \<open>i\<close> of them done, \<open>p\<close> the bytes not read yet.\<close>

fun trun_samples ::
  "u32 \<Rightarrow> u32 option \<Rightarrow> defaults \<Rightarrow> u32 \<Rightarrow> int \<Rightarrow> bool \<Rightarrow> nat \<Rightarrow> bytes \<Rightarrow> int \<Rightarrow> int \<Rightarrow> (inSample list \<times> int \<times> int) result" where
  "trun_samples flags firstFlags d ts shift run 0 p sampleOff dts = Inr ([], sampleOff, dts)"
| "trun_samples flags firstFlags d ts shift run (Suc n) p sampleOff dts =
     bind_r (trun_field (flags AND trunSampleDuration \<noteq> 0) (d_dur d) ''trun truncated sample_duration'' p) (\<lambda>(dur, p).
     bind_r (trun_field (flags AND trunSampleSize \<noteq> 0) (d_size d) ''trun truncated sample_size'' p) (\<lambda>(sz, p).
     bind_r (trun_field (flags AND trunSampleFlags \<noteq> 0) (d_flags d) ''trun truncated sample_flags'' p) (\<lambda>(sflags, p).
     bind_r (trun_field (flags AND trunSampleCTS \<noteq> 0) 0 ''trun truncated composition_offset'' p) (\<lambda>(cts, p).
     let sflags = (case firstFlags of Some f \<Rightarrow> if run then f else sflags | None \<Rightarrow> sflags);
         ticks = wrap64 (dts + sint cts)
     in bind_r (trun_samples flags firstFlags d ts shift False n p (wrap64 (sampleOff + uint sz)) (wrap64 (dts + uint dur)))
          (\<lambda>(ss, off, e).
            Inr (\<lparr>i_offset = sampleOff, dtsMs = ticksToMs dts ts, ctsMs = clamped_cts ts shift ticks, durMs = ticksToMs (uint dur) ts,
                  ctsTicks = ticks, i_size = sz, i_sync = (sflags AND sampleNonSync = 0), i_run = run\<rparr> # ss, off, e))))))"

definition appendTrunSamples ::
  "bytes \<Rightarrow> u32 \<Rightarrow> int \<Rightarrow> int \<Rightarrow> int \<Rightarrow> int \<Rightarrow> defaults \<Rightarrow> (inSample list \<times> int \<times> int) result" where
  "appendTrunSamples p ts shift base dataCursor dts d =
     (if length p < 8 then Inl (Errf ''trun too short'')
      else let flags = be_dec (take 4 p) AND 0xFFFFFF :: u32; n = unat (be_dec (slice 4 8 p) :: u32) in
        bind_r (trun_field (flags AND trunDataOffset \<noteq> 0) 0 ''trun truncated data_offset'' (drop 8 p)) (\<lambda>(off, q).
        bind_r (trun_field (flags AND trunFirstSampleFlag \<noteq> 0) 0 ''trun truncated first_sample_flags'' q) (\<lambda>(first, q).
          trun_samples flags (if flags AND trunFirstSampleFlag \<noteq> 0 then Some first else None) d ts shift True n q
            (if flags AND trunDataOffset \<noteq> 0 then wrap64 (base + sint off) else dataCursor) dts)))"

fun place_truns ::
  "memBox list \<Rightarrow> u32 \<Rightarrow> int \<Rightarrow> int \<Rightarrow> int \<Rightarrow> int \<Rightarrow> defaults \<Rightarrow> (inSample list \<times> int \<times> int) result" where
  "place_truns [] ts shift base cursor dts d = Inr ([], cursor, dts)"
| "place_truns (b # bs) ts shift base cursor dts d =
     (if mb_typ b \<noteq> trun_typ then place_truns bs ts shift base cursor dts d
      else bind_r (appendTrunSamples (mb_payload b) ts shift base cursor dts d) (\<lambda>(ss, cursor, dts).
           bind_r (place_truns bs ts shift base cursor dts d) (\<lambda>(ss', cursor, dts). Inr (ss @ ss', cursor, dts))))"

definition placeTrafSamples ::
  "memBox list \<Rightarrow> moofTrack \<Rightarrow> int \<Rightarrow> int \<Rightarrow> defaults \<Rightarrow> (inSample list \<times> int \<times> int) result" where
  "placeTrafSamples boxes t base dts d = place_truns boxes (timescale t) (editShiftMs t) base base dts d"

section \<open>Fragments\<close>

definition trun_count :: "memBox \<Rightarrow> int" where
  "trun_count b = (if mb_typ b = trun_typ \<and> length (mb_payload b) \<ge> 8 then uint (be_dec (slice 4 8 (mb_payload b)) :: u32) else 0)"

definition trafSampleCount :: "memBox list \<Rightarrow> int" where
  "trafSampleCount boxes = sum_list (map trun_count boxes)"

definition perSampleFlags :: u32 where
  "perSampleFlags = trunSampleDuration OR trunSampleSize OR trunSampleFlags OR trunSampleCTS"

definition trun_unfit :: "u32 \<Rightarrow> int \<Rightarrow> memBox \<Rightarrow> bool" where
  "trun_unfit defSize span b \<longleftrightarrow>
     mb_typ b = trun_typ \<and> length (mb_payload b) \<ge> 8 \<and> (be_dec (take 4 (mb_payload b)) :: u32) AND perSampleFlags = 0 \<and>
     wrap64 (uint (be_dec (slice 4 8 (mb_payload b)) :: u32) * uint (max defSize 1)) > max span 0"

definition trunsFitData :: "memBox list \<Rightarrow> u32 \<Rightarrow> int \<Rightarrow> unit result" where
  "trunsFitData boxes defSize span =
     (if list_ex (trun_unfit defSize span) boxes then Inl (Errf ''a trun declares more samples than the fragment holds data'') else Inr ())"

definition sampleBefore :: "inSample list \<Rightarrow> int \<Rightarrow> bool" where
  "sampleBefore ss off \<longleftrightarrow> list_ex (\<lambda>s. i_offset s < off) ss"

text \<open>The last \<^verbatim>\<open>tfhd\<close> of a \<^verbatim>\<open>traf\<close>; the last \<^verbatim>\<open>tfdt\<close>, or else the end of the fragment before.\<close>

fun last_tfhd :: "tfhd option \<Rightarrow> memBox list \<Rightarrow> tfhd option result" where
  "last_tfhd h [] = Inr h"
| "last_tfhd h (b # bs) =
     (if mb_typ b \<noteq> tfhd_typ \<or> length (mb_payload b) < 8 then last_tfhd h bs
      else bind_r (parseTfhd (mb_payload b)) (\<lambda>h. last_tfhd (Some h) bs))"

fun last_tfdt :: "int \<Rightarrow> memBox list \<Rightarrow> int" where
  "last_tfdt t [] = t"
| "last_tfdt t (b # bs) = last_tfdt (if mb_typ b = tfdt_typ then parseTfdt (mb_payload b) else t) bs"

definition traf_defaults :: "tfhd \<Rightarrow> trexDefault option \<Rightarrow> defaults" where
  "traf_defaults h x =
     (let x = (case x of None \<Rightarrow> \<lparr>x_duration = 0, x_size = 0, x_flags = 0\<rparr> | Some x \<Rightarrow> x) in
      \<lparr>d_dur = (case h_dur h of None \<Rightarrow> x_duration x | Some v \<Rightarrow> v),
       d_size = (case h_size h of None \<Rightarrow> x_size x | Some v \<Rightarrow> v),
       d_flags = (case h_flags h of None \<Rightarrow> x_flags x | Some v \<Rightarrow> v)\<rparr>)"

definition traf_anchor :: "tfhd \<Rightarrow> int \<Rightarrow> int \<Rightarrow> int \<times> bool" where
  "traf_anchor h moofStart prevEnd =
     (if h_haveBaseOffset h then (h_baseDataOffset h, False)
      else if \<not> h_defaultBaseIsMoof h \<and> prevEnd > 0 then (prevEnd, True)
      else (moofStart, False))"

definition placed_traf ::
  "memBox list \<Rightarrow> moofTrack \<Rightarrow> tfhd \<Rightarrow> int \<Rightarrow> int \<Rightarrow> int \<Rightarrow> int \<Rightarrow> defaults \<Rightarrow> (inSample list \<times> int \<times> int) result" where
  "placed_traf boxes t h moofStart prevEnd limit start d =
     (let (base, chained) = traf_anchor h moofStart prevEnd in
      bind_r (placeTrafSamples boxes t base start d) (\<lambda>(ss, dataEnd, dts).
        if chained \<and> (dataEnd > limit \<or> sampleBefore ss prevEnd) then placeTrafSamples boxes t moofStart start d
        else Inr (ss, dataEnd, dts)))"

definition parseTrafSamples :: "bytes \<Rightarrow> int \<Rightarrow> int \<Rightarrow> int \<Rightarrow> trexMap \<Rightarrow> movie \<Rightarrow> (int \<times> movie) result" where
  "parseTrafSamples traf moofStart prevEnd limit trex mv =
     bind_r (iterBoxes traf) (\<lambda>boxes.
     bind_r (last_tfhd None boxes) (\<lambda>h.
       case h of None \<Rightarrow> Inr (0, mv)
       | Some h \<Rightarrow>
         (case track_index (h_trackID h) (m_tracks mv) of None \<Rightarrow> Inr (0, mv)
          | Some k \<Rightarrow>
            let t = m_tracks mv ! k; d = traf_defaults h (trex (h_trackID h)) in
            if timescale t = 0 then Inr (0, mv)
            else if trafSampleCount boxes > maxSamples - m_fragHeld mv then Inl (Errf ''a fragment declares more samples than a movie may hold'')
            else bind_r (trunsFitData boxes (d_size d) (limit - moofStart)) (\<lambda>_.
                 bind_r (placed_traf boxes t h moofStart prevEnd limit (last_tfdt (t_fragDecodeEnd t) boxes) d) (\<lambda>(ss, dataEnd, dts).
                   Inr (dataEnd,
                        mv\<lparr>m_tracks := (m_tracks mv)[k := t\<lparr>i_samples := i_samples t @ ss, t_fragDecodeEnd := dts\<rparr>],
                           m_fragHeld := m_fragHeld mv + int (length ss)\<rparr>))))))"

fun moof_trafs_loop :: "memBox list \<Rightarrow> int \<Rightarrow> int \<Rightarrow> int \<Rightarrow> trexMap \<Rightarrow> movie \<Rightarrow> movie result" where
  "moof_trafs_loop [] moofStart prevEnd limit trex mv = Inr mv"
| "moof_trafs_loop (b # bs) moofStart prevEnd limit trex mv =
     (if mb_typ b \<noteq> traf_typ then moof_trafs_loop bs moofStart prevEnd limit trex mv
      else bind_r (parseTrafSamples (mb_payload b) moofStart prevEnd limit trex mv) (\<lambda>(e, mv).
           moof_trafs_loop bs moofStart (if e > 0 then e else prevEnd) limit trex mv))"

definition parseMoofSamples :: "bytes \<Rightarrow> int \<Rightarrow> trexMap \<Rightarrow> movie \<Rightarrow> int \<Rightarrow> movie result" where
  "parseMoofSamples moof moofStart trex mv limit =
     bind_r (iterBoxes moof) (\<lambda>boxes. moof_trafs_loop boxes moofStart (-1) limit trex mv)"

section \<open>Files\<close>

text \<open>\<^verbatim>\<open>Seek\<close> and \<^verbatim>\<open>io.ReadFull\<close> on a file held in memory.\<close>

definition read_at :: "bytes \<Rightarrow> int \<Rightarrow> nat \<Rightarrow> bytes result" where
  "read_at file off n =
     (if off < 0 \<or> off > int64_max then Inl (Errf ''negative position'')
      else let b = take n (drop (nat off) file) in
        if length b = n then Inr b else if b = [] then Inl EOF else Inl UnexpectedEOF)"

definition mdatEnd :: "bytes \<Rightarrow> int \<Rightarrow> int \<Rightarrow> int" where
  "mdatEnd file off fsz =
     (case read_at file off 8 of
        Inl _ \<Rightarrow> fsz
      | Inr h \<Rightarrow>
        if drop 4 h \<noteq> mdat_typ then fsz
        else let size32 = be_dec (take 4 h) :: u32 in
          if size32 = 1 then
            (case read_at file (off + 8) 8 of Inl _ \<Rightarrow> fsz | Inr l \<Rightarrow> min (wrap64 (off + sint (be_dec l :: u64))) fsz)
          else if size32 = 0 then fsz
          else min (off + uint size32) fsz)"

text \<open>The size of a top-level box and of its header.\<close>

definition top_box :: "bytes \<Rightarrow> int \<Rightarrow> int \<Rightarrow> (int \<times> int \<times> bytes) result" where
  "top_box file off fsz =
     bind_r (read_at file off 8) (\<lambda>h.
       let size32 = be_dec (take 4 h) :: u32 in
       if size32 = 1 then bind_r (read_at file (off + 8) 8) (\<lambda>l. Inr (sint (be_dec l :: u64), 16, drop 4 h))
       else if size32 = 0 then Inr (wrap64 (fsz - off), 8, drop 4 h)
       else Inr (uint size32, 8, drop 4 h))"

definition moof_at :: "bytes \<Rightarrow> int \<Rightarrow> int \<Rightarrow> int \<Rightarrow> int \<Rightarrow> trexMap \<Rightarrow> movie \<Rightarrow> movie result" where
  "moof_at file fsz off boxSize hdr trex mv =
     (if boxSize - hdr > maxFragMoofBytes then Inl (Errf ''moof exceeds limit'')
      else bind_r (read_at file (off + hdr) (nat (boxSize - hdr))) (\<lambda>payload.
        parseMoofSamples payload off trex mv (mdatEnd file (wrap64 (off + boxSize)) fsz)))"

lemma top_box_bounds:
  assumes "top_box file off fsz = Inr (boxSize, hdr, typ)"
  shows "0 \<le> off \<and> off \<le> int64_max \<and> boxSize \<le> int64_max \<and> 8 \<le> hdr"
proof -
  have "sint (w :: u64) \<le> int64_max" for w using sint_lt [of w] by (simp add: int64_max_def)
  moreover have "uint (w :: u32) \<le> int64_max" for w using uint_bounded [of w] by (simp add: int64_max_def)
  moreover have "wrap64 x \<le> int64_max" for x using wrap64_range [of x] by (simp add: in_int64_def)
  ultimately show ?thesis
    using assms by (auto simp: top_box_def read_at_def bind_r_Inr Let_def split: if_splits)
qed

lemma wrap64_past: "int64_max < x \<Longrightarrow> x \<le> 2 * int64_max \<Longrightarrow> wrap64 x < 0"
proof -
  assume x: "int64_max < x" "x \<le> 2 * int64_max"
  have "(x + 2 ^ 63) mod 2 ^ 64 = (x + 2 ^ 63 - 2 ^ 64) mod 2 ^ 64"
    by (rule minus_mod_self2 [symmetric])
  also have "\<dots> = x + 2 ^ 63 - 2 ^ 64" using x by (intro mod_pos_pos_trivial) (simp_all add: int64_max_def)
  finally show ?thesis using x by (simp add: wrap64_def int64_max_def)
qed

text \<open>
  The walk over the top-level boxes.  A largesize near 2^63 makes \<^verbatim>\<open>off+boxSize\<close> negative, which the
  check against the file's size lets through: the next seek then fails.
\<close>

function fragment_loop :: "bytes \<Rightarrow> int \<Rightarrow> trexMap \<Rightarrow> int \<Rightarrow> movie \<Rightarrow> movie result" where
  "fragment_loop file fsz trex off mv =
     (if off + 8 > fsz then Inr mv
      else bind_r (top_box file off fsz) (\<lambda>(boxSize, hdr, typ).
        if boxSize < hdr \<or> wrap64 (off + boxSize) > fsz then Inr mv
        else bind_r (if typ = moof_typ then moof_at file fsz off boxSize hdr trex mv else Inr mv) (\<lambda>mv.
          fragment_loop file fsz trex (wrap64 (off + boxSize)) mv)))"
  by pat_completeness auto
termination
proof (relation "measure (\<lambda>(file, fsz, trex, off, mv). if off < 0 then 0 else Suc (nat (fsz - off)))", simp, goal_cases)
  case (1 f fsz trex off mv p boxSize y hdr ty m)
  then have box: "top_box f off fsz = Inr (boxSize, hdr, ty)" by simp
  have pos: "0 < boxSize" using 1 top_box_bounds [OF box] by auto
  have bounds: "0 \<le> off" "off \<le> int64_max" "boxSize \<le> int64_max" using top_box_bounds [OF box] by blast+
  show ?case
  proof (cases "off + boxSize \<le> int64_max")
    case True
    then have "in_int64 (off + boxSize)" using pos bounds by (simp add: in_int64_def int64_min_def)
    then show ?thesis using pos bounds 1(1) by simp
  next
    case False
    then have "wrap64 (off + boxSize) < 0" using bounds by (intro wrap64_past) simp_all
    then show ?thesis using bounds by simp
  qed
qed

declare fragment_loop.simps [simp del]

definition closing :: "moofTrack \<Rightarrow> moofTrack" where
  "closing t =
     (if i_samples t = [] then t
      else let l = last (i_samples t) in
        t\<lparr>t_frameCount := int (length (i_samples t)), t_durationMs := max (t_durationMs t) (wrap64 (ctsMs l + durMs l))\<rparr>)"

definition track_end :: "moofTrack \<Rightarrow> int list" where
  "track_end t = (if i_samples t = [] then [] else [wrap64 (ctsMs (last (i_samples t)) + durMs (last (i_samples t)))])"

definition close_movie :: "movie \<Rightarrow> movie" where
  "close_movie mv =
     mv\<lparr>m_tracks := map closing (m_tracks mv),
        m_durationMs := foldl max (m_durationMs mv) (concat (map track_end (m_tracks mv)))\<rparr>"

definition readFragmentSamples :: "bytes \<Rightarrow> int \<Rightarrow> movie \<Rightarrow> memBox list \<Rightarrow> movie result" where
  "readFragmentSamples file fsz mv moovBoxes =
     (let held = sum_list (map (\<lambda>t. int (length (i_samples t))) (m_tracks mv)) in
      bind_r (fragment_loop file fsz (parseTrexDefaults moovBoxes) 0 (mv\<lparr>m_fragHeld := held\<rparr>)) (\<lambda>mv. Inr (close_movie mv)))"

end
