(* ===== verification/StblRoundtrip.thy ===== *)
theory StblRoundtrip
  imports SampleTable
begin

text \<open>
  The sample table a track is written with (\<^verbatim>\<open>buildStbl\<close> of \<^verbatim>\<open>mp4/moov.go\<close>) read back by
  \<^verbatim>\<open>buildSampleTable\<close>: the round trip of the seven tables together.
\<close>

section \<open>The box\<close>

definition stsd_typ :: bytes where "stsd_typ = [0x73, 0x74, 0x73, 0x64]"
definition stbl_typ :: bytes where "stbl_typ = [0x73, 0x74, 0x62, 0x6C]"

definition stbl_children :: "bytes \<Rightarrow> trackSamples \<Rightarrow> timing \<Rightarrow> int \<Rightarrow> bool \<Rightarrow> bytes list" where
  "stbl_children sampleEntry ts tim mdatBase co64 =
     [fullBox stsd_typ 0 0 (u32_be 1 @ sampleEntry), buildSTTS (durations tim)]
     @ (case buildSTSS (samples ts) of Some stss \<Rightarrow> [stss] | None \<Rightarrow> [])
     @ (case buildCTTS tim of Some c \<Rightarrow> [c] | None \<Rightarrow> [])
     @ [buildSTSC (chunks ts), buildSTSZ (samples ts), buildChunkOffsets (chunks ts) mdatBase co64]"

definition buildStbl :: "bytes \<Rightarrow> trackSamples \<Rightarrow> timing \<Rightarrow> int \<Rightarrow> bool \<Rightarrow> bytes" where
  "buildStbl sampleEntry ts tim mdatBase co64 =
     container stbl_typ (stbl_children sampleEntry ts tim mdatBase co64)"

section \<open>Where the samples lie\<close>

fun offsets_from :: "int \<Rightarrow> u32 list \<Rightarrow> int list" where
  "offsets_from pos [] = []"
| "offsets_from pos (s # ss) = pos # offsets_from (pos + uint s) ss"

fun layout :: "(int \<times> nat) list \<Rightarrow> u32 list \<Rightarrow> int list" where
  "layout [] sizes = []"
| "layout ((off, k) # cs) sizes = offsets_from off (take k sizes) @ layout cs (drop k sizes)"

fun fits_file :: "int \<Rightarrow> (int \<times> nat) list \<Rightarrow> u32 list \<Rightarrow> bool" where
  "fits_file fileSize [] sizes \<longleftrightarrow> sizes = []"
| "fits_file fileSize ((off, k) # cs) sizes \<longleftrightarrow>
     0 \<le> off \<and> k \<le> length sizes \<and> off + sum_list (map uint (take k sizes)) \<le> fileSize \<and>
     fits_file fileSize cs (drop k sizes)"

lemma length_offsets_from [simp]: "length (offsets_from pos ss) = length ss"
  by (induction ss arbitrary: pos) simp_all

fun positions :: "int \<Rightarrow> bool \<Rightarrow> u32 list \<Rightarrow> placed list" where
  "positions pos first [] = []"
| "positions pos first (s # ss) = \<lparr>p_offset = pos, p_size = s, p_run = first\<rparr> # positions (pos + uint s) False ss"

lemma positions_fields:
  "map p_offset (positions pos first ss) = offsets_from pos ss" "map p_size (positions pos first ss) = ss"
  by (induction ss arbitrary: pos first) simp_all

lemma length_positions [simp]: "length (positions pos first ss) = length ss"
  by (induction ss arbitrary: pos first) simp_all

lemma sum_uint_nonneg: "0 \<le> sum_list (map uint (ss :: 'a::len word list))"
  by (induction ss) simp_all

lemma place_chunk_whole:
  "0 \<le> pos \<Longrightarrow> k \<le> length sizes \<Longrightarrow> pos + sum_list (map uint (take k sizes)) \<le> fileSize \<Longrightarrow> fileSize \<le> int64_max \<Longrightarrow>
   place_chunk fileSize si k first pos sizes = Placed (positions pos first (take k sizes)) (drop k sizes)"
proof (induction k arbitrary: si first pos sizes)
  case (Suc k)
  then obtain s rest where s: "sizes = s # rest" by (cases sizes) auto
  have sum: "pos + uint s + sum_list (map uint (take k rest)) \<le> fileSize" using Suc.prems s by simp
  then have le: "pos + uint s \<le> fileSize" using sum_uint_nonneg [of "take k rest"] by linarith
  have nn: "0 \<le> pos + uint s" using Suc.prems(1) by simp
  have w: "wrap64 (pos + uint s) = pos + uint s"
    using nn le Suc.prems(4) by (intro wrap64_id) (simp add: in_int64_def int64_min_def)
  have "place_chunk fileSize (Suc si) k False (pos + uint s) rest
      = Placed (positions (pos + uint s) False (take k rest)) (drop k rest)"
    using Suc.IH [OF nn _ sum Suc.prems(4)] Suc.prems(2) s by simp
  then show ?case using Suc.prems(1) le w by (simp add: s Let_def not_less)
qed simp

lemma prepend_all_Placed: "prepend_all ps (Placed qs sizes) = Placed (ps @ qs) sizes"
  by (induction ps) simp_all

text \<open>The scan over the written \<^verbatim>\<open>stsc\<close> finds the count of each chunk.\<close>

lemma spc_scan_late:
  "list_all (\<lambda>e. c < firstChunk e) es \<Longrightarrow> spc_scan c s es = s"
  by (cases es) (auto dest: leD)

lemma stsc_runs_late:
  "k + length cs < 2 ^ 32 \<Longrightarrow> j < k + 1 \<Longrightarrow> list_all (\<lambda>e. (word_of_nat j :: u32) < firstChunk e) (stsc_runs k prev cs)"
proof (induction cs arbitrary: k prev)
  case (Cons c cs)
  have "(word_of_nat j :: u32) < word_of_nat (k + 1)"
    using Cons.prems by (simp add: word_less_nat_alt unsigned_of_nat take_bit_nat_eq_self del: of_nat_add of_nat_Suc)
  moreover have "list_all (\<lambda>e. (word_of_nat j :: u32) < firstChunk e) (stsc_runs (k + 1) p cs)" for p
    using Cons by simp
  ultimately show ?case by (simp add: Let_def del: of_nat_add of_nat_Suc)
qed simp

lemma stsc_runs_scan:
  "k + length cs < 2 ^ 32 \<Longrightarrow> i < length cs \<Longrightarrow> prev = None \<or> prev = Some s \<Longrightarrow>
   spc_scan (word_of_nat (k + i + 1)) s (stsc_runs k prev cs) = word_of_int (count (cs ! i))"
proof (induction cs arbitrary: k prev i s)
  case (Cons c cs)
  let ?spc = "word_of_int (count c) :: u32" and ?c = "word_of_nat (k + i + 1) :: u32"
  have head: "(word_of_nat (k + 1) :: u32) \<le> ?c"
    using Cons.prems by (simp add: word_le_nat_alt unsigned_of_nat take_bit_nat_eq_self del: of_nat_add of_nat_Suc)
  have step: "spc_scan ?c ?spc (stsc_runs (k + 1) (Some ?spc) cs) = word_of_int (count ((c # cs) ! i))"
  proof (cases i)
    case 0
    then show ?thesis
      using spc_scan_late [OF stsc_runs_late, of "k + 1" cs "k + 1"] Cons.prems by (simp del: of_nat_add of_nat_Suc)
  next
    case (Suc j)
    then have "spc_scan (word_of_nat (k + 1 + j + 1)) ?spc (stsc_runs (k + 1) (Some ?spc) cs) = word_of_int (count (cs ! j))"
      using Cons.prems by (intro Cons.IH) simp_all
    then show ?thesis using Suc by (simp del: of_nat_add of_nat_Suc)
  qed
  show ?case
  proof (cases "prev = Some ?spc")
    case True
    then have "s = ?spc" using Cons.prems(3) by simp
    then show ?thesis using step True by (simp add: Let_def del: of_nat_add of_nat_Suc)
  next
    case False
    then show ?thesis using step head by (simp add: Let_def del: of_nat_add of_nat_Suc)
  qed
qed simp

lemma stsc_runs_regular: "length cs < 2 ^ 32 \<Longrightarrow> stsc_regular (stsc_runs 0 None cs)"
  by (cases cs) (simp_all add: stsc_regular_def Let_def)
lemma place_chunks_whole:
  "length offs = length ks \<Longrightarrow> fits_file fileSize (zip offs ks) sizes \<Longrightarrow> fileSize \<le> int64_max \<Longrightarrow>
   (\<forall>i < length ks. unat (samplesForChunk (word_of_nat (ci + i + 1)) es) = ks ! i) \<Longrightarrow>
   \<exists>ps. place_chunks_scan fileSize si ci es offs sizes = Placed ps [] \<and>
     map p_offset ps = layout (zip offs ks) sizes \<and> map p_size ps = sizes"
proof (induction offs arbitrary: ks si ci sizes)
  case (Cons off offs)
  obtain k ks' where ks: "ks = k # ks'" using Cons.prems(1) by (cases ks) auto
  have f: "0 \<le> off" "k \<le> length sizes" "off + sum_list (map uint (take k sizes)) \<le> fileSize"
    "fits_file fileSize (zip offs ks') (drop k sizes)" using Cons.prems(2) by (simp_all add: ks)
  have n: "unat (samplesForChunk (word_of_nat (ci + 1)) es) = k" using Cons.prems(4) by (auto simp add: ks)
  have rest: "\<forall>i < length ks'. unat (samplesForChunk (word_of_nat (ci + 1 + i + 1)) es) = ks' ! i"
  proof (intro allI impI)
    fix i
    assume "i < length ks'"
    then have "unat (samplesForChunk (word_of_nat (ci + Suc i + 1)) es) = ks ! Suc i"
      using Cons.prems(4) ks by (metis Suc_less_eq length_Cons)
    then show "unat (samplesForChunk (word_of_nat (ci + 1 + i + 1)) es) = ks' ! i"
      by (simp add: ks del: of_nat_add of_nat_Suc)
  qed
  define ps where "ps = positions off True (take k sizes)"
  have lps: "length ks' = length offs" using Cons.prems(1) by (simp add: ks)
  obtain qs where qs: "place_chunks_scan fileSize (si + length ps) (ci + 1) es offs (drop k sizes) = Placed qs []"
    "map p_offset qs = layout (zip offs ks') (drop k sizes)" "map p_size qs = drop k sizes"
    using Cons.IH [OF _ f(4) Cons.prems(3) rest, of "si + length ps"] lps by auto
  have pl: "place_chunk fileSize si k True off sizes = Placed ps (drop k sizes)"
    unfolding ps_def by (rule place_chunk_whole [OF f(1-3) Cons.prems(3)])
  have "place_chunks_scan fileSize si ci es (off # offs) sizes = Placed (ps @ qs) []"
    unfolding place_chunks_scan.simps n pl using qs(1) by (simp add: prepend_all_Placed)
  moreover have "map p_offset (ps @ qs) = layout (zip (off # offs) ks) sizes"
    using qs(2) positions_fields(1) [of off True "take k sizes"] by (simp add: ks ps_def)
  moreover have "map p_size (ps @ qs) = sizes"
    using qs(3) positions_fields(2) [of off True "take k sizes"] by (simp add: ps_def)
  ultimately show ?case by blast
qed simp

section \<open>The tables one by one\<close>

lemma length_counted: "length (counted es) = 4 + length (concat es)"
  by (simp add: counted_def u32_be_dec)

lemma stsz_roundtrip:
  assumes "int (length ss) \<le> maxSamples"
  shows "parseStsz (full_payload 0 0 (u32_be 0 @ counted (map (\<lambda>s. u32_be (s_size s)) ss))) fileSize = Inr (map s_size ss)"
proof -
  define p where "p = full_payload 0 0 (u32_be 0 @ counted (map u32_be (map s_size ss)))"
  have lt: "length (map s_size ss) < 2 ^ 32" using assms by (simp add: maxSamples_def)
  have lu: "length (u32_be 0) = 12 - 8" by (simp add: u32_be_dec)
  note t = u32s.counted_table [OF lt lu, of 0 0, folded p_def]
  have c: "be_dec (slice 8 12 p) = (word_of_nat (length ss) :: u32)" using t(1) by (simp add: u32_be_dec)
  have z: "be_dec (slice 4 8 p) = (0 :: u32)"
    by (simp add: p_def full_payload_def slice_def u24_be_def u32_be_dec)
  have l: "\<not> length p < 12" by (simp add: p_def length_counted u32_be_dec)
  have m: "\<not> uint (word_of_nat (length ss) :: u32) > maxSamples"
  proof -
    have "uint (word_of_nat (length ss) :: u32) = int (length ss)"
      using lt by (simp add: unsigned_of_nat take_bit_nat_eq_self)
    then show ?thesis using assms by simp
  qed
  have "parseStsz p fileSize = Inr (map s_size ss)"
    using t(2,3) l m by (simp add: parseStsz_def c z Let_def)
  then show ?thesis by (simp add: p_def comp_def)
qed

lemma stts_roundtrip:
  assumes "length ds < 2 ^ 32" and "list_all (\<lambda>d. 0 \<le> d \<and> d < 2 ^ 31) ds"
  shows "parseStts (full_payload 0 0 (counted (map enc_pair (rle (map word_of_int ds))))) (length ds) = Inr (map word_of_int ds)"
proof -
  let ?ws = "map word_of_int ds :: u32 list"
  define p where "p = full_payload 0 0 (counted (map enc_pair (rle ?ws)))"
  have lt: "length (rle ?ws) < 2 ^ 32" using assms(1) length_rle [of ?ws] by simp
  note t = pairs.plain_table [OF lt, of 0 0, folded p_def]
  have "w \<le> maxInt32" if "w \<in> set ?ws" for w
  proof -
    have "w \<in> word_of_int ` set ds" using that by simp
    then obtain d where d: "w = word_of_int d" "d \<in> set ds" by (rule imageE)
    then have "0 \<le> d" "d < 2 ^ 31" using assms(2) by (auto simp add: list_all_iff)
    then have "uint w = d" using d(1) by (simp add: unsigned_of_int take_bit_int_eq_self)
    then show ?thesis using \<open>d < 2 ^ 31\<close> by (simp add: word_le_def maxInt32_def)
  qed
  then have "clip_delta e = e" if "e \<in> set (rle ?ws)" for e
    using that snd_rle [of ?ws] by (cases e) (force simp add: clip_delta_def)
  then have c: "map clip_delta (rle ?ws) = rle ?ws" by (rule map_idI)
  have "unrle (rle ?ws) = ?ws" using assms(1) by (intro unrle_rle) simp
  then have "expand_runs (length ds) (rle ?ws) = ?ws" by (simp add: expand_runs_take)
  then show ?thesis
    unfolding p_def [symmetric] using t by (simp add: parseStts_def c pad_to_def)
qed

lemma ctts_roundtrip:
  assumes "length offs < 2 ^ 32" and "list_all (\<lambda>d. - (2 ^ 31) \<le> d \<and> d < 2 ^ 31) offs"
    and "findMemBox boxes ctts_typ = Some b"
    and "mb_payload b = full_payload 1 0 (counted (map enc_pair (rle (map word_of_int offs))))"
  shows "parseCtts boxes (length offs) = offs"
proof -
  let ?ws = "map word_of_int offs :: u32 list"
  define p where "p = full_payload 1 0 (counted (map enc_pair (rle ?ws)))"
  have lt: "length (rle ?ws) < 2 ^ 32" using assms(1) length_rle [of ?ws] by simp
  note t = pairs.plain_table [OF lt, of 1 0, folded p_def]
  have "unrle (rle ?ws) = ?ws" using assms(1) by (intro unrle_rle) simp
  then have e: "expand_runs (length offs) (rle ?ws) = ?ws" by (simp add: expand_runs_take)
  have "sint (word_of_int d :: u32) = d" if "d \<in> set offs" for d
    using assms(2) that by (auto simp add: list_all_iff signed_of_int signed_take_bit_int_eq_self)
  then have "map sint ?ws = offs" by (simp add: map_idI)
  then show ?thesis
    using t assms(3,4) unfolding p_def [symmetric] by (simp add: parseCtts_def e pad_to_def)
qed

lemma stsc_roundtrip:
  assumes "length cs < 2 ^ 32"
  shows "parseStsc (full_payload 0 0 (counted (map enc_stsc (stsc_runs 0 None cs)))) = Inr (stsc_runs 0 None cs)"
proof -
  have "length (stsc_runs k prev cs) \<le> length cs" for k prev
    by (induction cs arbitrary: k prev) (simp_all add: Let_def le_SucI)
  then have lt: "length (stsc_runs 0 None cs) < 2 ^ 32" using assms le_less_trans by blast
  note t = stscs.plain_table [OF lt, of 0 0]
  show ?thesis using t by (simp add: parseStsc_def)
qed

lemma chunk_offsets_roundtrip:
  assumes "length cs < 2 ^ 32"
    and "\<forall>c \<in> set cs. 0 \<le> base + uint (offset c) \<and> base + uint (offset c) < (if wide then 2 ^ 63 else 2 ^ 32)"
    and "findMemBox boxes (if wide then co64_typ else stco_typ) = Some b" and "wide \<Longrightarrow> findMemBox boxes stco_typ = None"
    and "mb_payload b = full_payload 0 0 (if wide then counted (map (\<lambda>c. u64_be (word_of_int base + offset c)) cs)
      else counted (map (\<lambda>c. u32_be (ucast (word_of_int base + offset c))) cs))"
  shows "parseChunkOffsets boxes = Inr (map (\<lambda>c. base + uint (offset c)) cs)"
proof -
  have w: "word_of_int base + offset c = word_of_int (base + uint (offset c))" for c by simp
  show ?thesis
  proof (cases wide)
    case True
    let ?ws = "map (\<lambda>c. word_of_int base + offset c) cs"
    have lt: "length ?ws < 2 ^ 32" using assms(1) by simp
    note t = u64s.plain_table [OF lt, of 0 0]
    have "sint (word_of_int base + offset c) = base + uint (offset c)" if "c \<in> set cs" for c
    proof -
      have "- (2 ^ 63) \<le> base + uint (offset c)" "base + uint (offset c) < 2 ^ 63" using assms(2) that True by force+
      then show ?thesis unfolding w signed_of_int by (simp add: signed_take_bit_int_eq_self del: of_int_add)
    qed
    then show ?thesis using t True assms(3,4,5) by (simp add: parseChunkOffsets_def Let_def comp_def)
  next
    case False
    let ?ws = "map (\<lambda>c. ucast (word_of_int base + offset c) :: u32) cs"
    have lt: "length ?ws < 2 ^ 32" using assms(1) by simp
    note t = u32s.plain_table [OF lt, of 0 0]
    have "uint (ucast (word_of_int base + offset c) :: u32) = base + uint (offset c)" if "c \<in> set cs" for c
    proof -
      have "0 \<le> base + uint (offset c)" "base + uint (offset c) < 2 ^ 32" using assms(2) that False by force+
      then show ?thesis unfolding w by (simp add: unsigned_ucast_eq unsigned_of_int take_bit_int_eq_self del: of_int_add)
    qed
    then show ?thesis using t False assms(3,5) by (simp add: parseChunkOffsets_def Let_def comp_def)
  qed
qed
lemma sync_numbers_set:
  assumes "length ss < 2 ^ 32 - 1"
  shows "unat ` set (sync_numbers ss) = {i + 1 | i. i < length ss \<and> sync (ss ! i)}"
proof -
  have u: "unat (word_of_nat (i + 1) :: u32) = i + 1" if "i < length ss" for i
    using that assms by (simp add: unsigned_of_nat take_bit_nat_eq_self del: of_nat_add of_nat_Suc)
  have "set (sync_numbers ss) = (\<lambda>i. word_of_nat (i + 1)) ` {i. i < length ss \<and> sync (ss ! i)}"
    unfolding sync_numbers_def by (force simp add: in_set_enumerate_eq)
  then have "unat ` set (sync_numbers ss) = (\<lambda>i. unat (word_of_nat (i + 1) :: u32)) ` {i. i < length ss \<and> sync (ss ! i)}"
    by (simp add: image_image)
  also have "\<dots> = (\<lambda>i. i + 1) ` {i. i < length ss \<and> sync (ss ! i)}"
    by (rule image_cong [OF refl]) (use u in blast)
  finally show ?thesis by auto
qed

lemma length_sync_numbers: "length (sync_numbers ss) = length (filter sync ss)"
proof -
  have "length (filter (\<lambda>(i, s). sync s) (enumerate n ss)) = length (filter sync ss)" for n
    by (induction ss arbitrary: n) auto
  then show ?thesis by (simp add: sync_numbers_def)
qed

lemma all_sync: "buildSTSS ss = None \<Longrightarrow> i < length ss \<Longrightarrow> sync (ss ! i)"
proof -
  assume "buildSTSS ss = None" "i < length ss"
  then have "length (filter sync ss) = length ss"
    by (simp add: buildSTSS_def Let_def length_sync_numbers split: if_splits)
  then have "filter sync ss = ss" by (metis filter_True length_filter_less less_irrefl)
  then show "sync (ss ! i)" using \<open>i < length ss\<close> by (metis filter_eq_ConsD filter_id_conv nth_mem)
qed

lemma stss_roundtrip:
  assumes "length ss < 2 ^ 32 - 1" and "findMemBox boxes stss_typ = Some b"
    and "mb_payload b = full_payload 0 0 (counted (map u32_be (sync_numbers ss)))" and "i < length ss"
  shows "is_sync (parseStssN boxes (length ss)) (i + 1) \<longleftrightarrow> sync (ss ! i)"
proof -
  let ?p = "full_payload 0 0 (counted (map u32_be (sync_numbers ss)))"
  have lt: "length (sync_numbers ss) < 2 ^ 32"
    using assms(1) le_less_trans [OF length_filter_le [of sync ss], of "2 ^ 32"] by (simp add: length_sync_numbers)
  note t = u32s.plain_table [OF lt, of 0 0]
  have "unat (word_of_nat (length (sync_numbers ss)) :: u32) = length (sync_numbers ss)"
    using lt by (simp add: unsigned_of_nat take_bit_nat_eq_self)
  moreover have "length ?p - 8 = length (sync_numbers ss) * 4"
    using u32s.length_concat_enc [of "sync_numbers ss"] by (simp add: length_counted)
  ultimately have m: "min (unat (table_count ?p)) ((length ?p - 8) div 4) = unat (word_of_nat (length (sync_numbers ss)) :: u32)"
    using t(1) by simp
  have "parseStssN boxes (length ss) = Some (filter (\<lambda>v. 1 \<le> v \<and> v \<le> length ss) (map unat (sync_numbers ss)))"
    using assms(2,3) t(4) unfolding parseStssN_def by (simp add: m t(3) Let_def del: length_full_payload)
  then have "is_sync (parseStssN boxes (length ss)) (i + 1) \<longleftrightarrow> i + 1 \<in> unat ` set (sync_numbers ss)"
    using assms(4) by (simp add: is_sync_def)
  also have "\<dots> \<longleftrightarrow> sync (ss ! i)" unfolding sync_numbers_set [OF assms(1)] using assms(4) by auto
  finally show ?thesis .
qed

section \<open>The boxes of a written table\<close>

abbreviation mbox :: "bytes \<Rightarrow> bytes \<Rightarrow> memBox" where
  "mbox t p \<equiv> \<lparr>mb_typ = t, mb_payload = p\<rparr>"

lemmas typ_defs = stsd_typ_def stts_typ_def stss_typ_def ctts_typ_def stsc_typ_def stsz_typ_def stz2_typ_def
  stco_typ_def co64_typ_def

definition stss_boxes :: "sample list \<Rightarrow> memBox list" where
  "stss_boxes ss = (if buildSTSS ss = None then []
     else [mbox stss_typ (full_payload 0 0 (counted (map u32_be (sync_numbers ss))))])"

definition ctts_boxes :: "timing \<Rightarrow> memBox list" where
  "ctts_boxes tim = (if hasCTTS tim
     then [mbox ctts_typ (full_payload 1 0 (counted (map enc_pair (rle (map word_of_int (ctts tim))))))] else [])"

definition chunk_box :: "chunk list \<Rightarrow> int \<Rightarrow> bool \<Rightarrow> memBox" where
  "chunk_box cs base wide = mbox (if wide then co64_typ else stco_typ)
     (full_payload 0 0 (if wide then counted (map (\<lambda>c. u64_be (word_of_int base + offset c)) cs)
        else counted (map (\<lambda>c. u32_be (ucast (word_of_int base + offset c))) cs)))"

definition stbl_boxes :: "bytes \<Rightarrow> trackSamples \<Rightarrow> timing \<Rightarrow> int \<Rightarrow> bool \<Rightarrow> memBox list" where
  "stbl_boxes sampleEntry ts tim base wide =
     [mbox stsd_typ (full_payload 0 0 (u32_be 1 @ sampleEntry)),
      mbox stts_typ (full_payload 0 0 (counted (map enc_pair (rle (map word_of_int (durations tim))))))]
     @ stss_boxes (samples ts) @ ctts_boxes tim
     @ [mbox stsc_typ (full_payload 0 0 (counted (map enc_stsc (stsc_runs 0 None (chunks ts))))),
        mbox stsz_typ (full_payload 0 0 (u32_be 0 @ counted (map (\<lambda>s. u32_be (s_size s)) (samples ts)))),
        chunk_box (chunks ts) base wide]"

lemma stbl_children_boxes:
  "stbl_children sampleEntry ts tim base wide
     = map (\<lambda>b. box (mb_typ b) (mb_payload b)) (stbl_boxes sampleEntry ts tim base wide)"
  by (simp add: stbl_children_def stbl_boxes_def stss_boxes_def ctts_boxes_def chunk_box_def buildSTSS_def buildCTTS_def
      buildSTTS_def buildSTSC_def buildSTSZ_def buildChunkOffsets_def fullBox_payload Let_def)

lemma find_append: "find P (xs @ ys) = (case find P xs of None \<Rightarrow> find P ys | Some x \<Rightarrow> Some x)"
  by (induction xs) auto

lemma stbl_boxes_find:
  fixes sampleEntry ts tim base wide
  defines "bs \<equiv> stbl_boxes sampleEntry ts tim base wide"
  shows "findMemBox bs stts_typ = Some (mbox stts_typ (full_payload 0 0 (counted (map enc_pair (rle (map word_of_int (durations tim)))))))"
    and "findMemBox bs stsc_typ = Some (mbox stsc_typ (full_payload 0 0 (counted (map enc_stsc (stsc_runs 0 None (chunks ts))))))"
    and "findMemBox bs stsz_typ = Some (mbox stsz_typ (full_payload 0 0 (u32_be 0 @ counted (map (\<lambda>s. u32_be (s_size s)) (samples ts)))))"
    and "findMemBox bs (if wide then co64_typ else stco_typ) = Some (chunk_box (chunks ts) base wide)"
    and "wide \<Longrightarrow> findMemBox bs stco_typ = None"
    and "findMemBox bs stss_typ = (if buildSTSS (samples ts) = None then None
           else Some (mbox stss_typ (full_payload 0 0 (counted (map u32_be (sync_numbers (samples ts)))))))"
    and "findMemBox bs ctts_typ = (if hasCTTS tim
           then Some (mbox ctts_typ (full_payload 1 0 (counted (map enc_pair (rle (map word_of_int (ctts tim))))))) else None)"
  unfolding bs_def stbl_boxes_def stss_boxes_def ctts_boxes_def chunk_box_def findMemBox_def
  by (simp_all add: find_append typ_defs)
lemma stbl_boxes_small:
  assumes "length sampleEntry < 2 ^ 32" "length (samples ts) < 2 ^ 32" "length (chunks ts) < 2 ^ 32"
    "length (durations tim) < 2 ^ 32" "length (ctts tim) < 2 ^ 32"
  shows "\<forall>b \<in> set (stbl_boxes sampleEntry ts tim base wide). length (mb_typ b) = 4 \<and> int (length (mb_payload b)) < 2 ^ 62"
proof -
  have r: "length (rle (map word_of_int ds :: u32 list)) \<le> length ds" for ds
    using length_rle [of "map word_of_int ds :: u32 list"] by simp
  have s: "length (stsc_runs k prev cs) \<le> length cs" for k prev cs
    by (induction cs arbitrary: k prev) (simp_all add: Let_def le_SucI)
  have y: "length (sync_numbers ss) \<le> length ss" for ss by (simp add: length_sync_numbers)
  have p: "length (concat (map enc_pair xs)) = length xs * 8" for xs by (rule pairs.length_concat_enc)
  have u: "length (concat (map (\<lambda>x. u32_be (f x)) xs)) = length xs * 4" for f :: "'x \<Rightarrow> u32" and xs
    using u32s.length_concat_enc [of "map f xs"] by (simp add: comp_def)
  have q: "length (concat (map (\<lambda>x. u64_be (f x)) xs)) = length xs * 8" for f :: "'x \<Rightarrow> u64" and xs
    using u64s.length_concat_enc [of "map f xs"] by (simp add: comp_def)
  have t: "length (concat (map enc_stsc xs)) = length xs * 12" for xs by (rule stscs.length_concat_enc)
  note len = length_counted u32_be_dec p u [of "\<lambda>x. x"] u q t
  have "length (rle (map word_of_int (durations tim) :: u32 list)) < 2 ^ 32"
    "length (rle (map word_of_int (ctts tim) :: u32 list)) < 2 ^ 32"
    "length (stsc_runs 0 None (chunks ts)) < 2 ^ 32" "length (sync_numbers (samples ts)) < 2 ^ 32"
    using r s y assms le_less_trans by blast+
  then show ?thesis
    using assms unfolding stbl_boxes_def stss_boxes_def ctts_boxes_def chunk_box_def
    by (simp add: len typ_defs comp_def split: if_splits)
qed

section \<open>The whole table\<close>

definition chunk_places :: "chunk list \<Rightarrow> int \<Rightarrow> (int \<times> nat) list" where
  "chunk_places cs base = map (\<lambda>c. (base + uint (offset c), nat (count c))) cs"

text \<open>
  A track the writer can express: no more samples than the reader takes, the timing of as many, durations
  and offsets in the range of their fields, chunks that cover the samples and lie in the file.
\<close>

definition writable :: "trackSamples \<Rightarrow> timing \<Rightarrow> int \<Rightarrow> bool \<Rightarrow> int \<Rightarrow> bool" where
  "writable ts tim base wide fileSize \<longleftrightarrow>
     int (length (samples ts)) \<le> maxSamples \<and> length (chunks ts) < 2 ^ 32 \<and>
     length (durations tim) = length (samples ts) \<and> length (ctts tim) = length (samples ts) \<and>
     list_all (\<lambda>d. 0 \<le> d \<and> d < 2 ^ 31) (durations tim) \<and>
     list_all (\<lambda>d. - (2 ^ 31) \<le> d \<and> d < 2 ^ 31) (ctts tim) \<and> (hasCTTS tim \<or> list_all (\<lambda>d. d = 0) (ctts tim)) \<and>
     list_all (\<lambda>c. 0 \<le> count c \<and> count c < 2 ^ 32 \<and>
       0 \<le> base + uint (offset c) \<and> base + uint (offset c) < (if wide then 2 ^ 63 else 2 ^ 32)) (chunks ts) \<and>
     fits_file fileSize (chunk_places (chunks ts) base) (map s_size (samples ts)) \<and> fileSize \<le> int64_max"

lemma written_chunks:
  assumes "writable ts tim base wide fileSize"
  shows "\<exists>ps. place_chunks fileSize 0 0 (stsc_runs 0 None (chunks ts)) (map (\<lambda>c. base + uint (offset c)) (chunks ts))
      (map s_size (samples ts)) = Placed ps [] \<and>
    map p_offset ps = layout (chunk_places (chunks ts) base) (map s_size (samples ts)) \<and> map p_size ps = map s_size (samples ts)"
proof -
  let ?offs = "map (\<lambda>c. base + uint (offset c)) (chunks ts)" and ?ks = "map (\<lambda>c. nat (count c)) (chunks ts)"
  let ?es = "stsc_runs 0 None (chunks ts)"
  have n: "length (chunks ts) < 2 ^ 32" using assms by (simp add: writable_def)
  have z: "zip ?offs ?ks = chunk_places (chunks ts) base" by (simp add: chunk_places_def zip_map_map zip_same_conv_map)
  have f: "fits_file fileSize (zip ?offs ?ks) (map s_size (samples ts))" "fileSize \<le> int64_max"
    unfolding z using assms by (simp_all add: writable_def)
  have "unat (samplesForChunk (word_of_nat (0 + i + 1)) ?es) = ?ks ! i" if "i < length ?ks" for i
  proof -
    have i: "i < length (chunks ts)" using that by simp
    have "samplesForChunk (word_of_nat (0 + i + 1)) ?es = word_of_int (count (chunks ts ! i))"
      unfolding samplesForChunk_def using n i by (intro stsc_runs_scan) simp_all
    moreover have "0 \<le> count (chunks ts ! i)" "count (chunks ts ! i) < 2 ^ 32"
      using assms i by (simp_all add: writable_def list_all_length)
    then have "unat (word_of_int (count (chunks ts ! i)) :: u32) = nat (count (chunks ts ! i))"
      by (simp add: unsigned_of_int take_bit_int_eq_self)
    ultimately show ?thesis using i by simp
  qed
  then have "\<exists>ps. place_chunks_scan fileSize 0 0 ?es ?offs (map s_size (samples ts)) = Placed ps [] \<and>
     map p_offset ps = layout (zip ?offs ?ks) (map s_size (samples ts)) \<and> map p_size ps = map s_size (samples ts)"
    using f by (intro place_chunks_whole) simp_all
  moreover have "place_chunks fileSize 0 0 ?es ?offs (map s_size (samples ts))
      = place_chunks_scan fileSize 0 0 ?es ?offs (map s_size (samples ts))"
    using n by (intro place_chunks_scan stsc_runs_regular) (simp_all add: cursor_at_def)
  ultimately show ?thesis unfolding z by simp
qed

section \<open>Properties\<close>

text \<open>
  C3. A sample table that the writer can express reads back: the boxes are found again, the table builds,
  and every sample has its place in its chunk, its size, its sync flag and its composition time (the sum
  of the durations before it and its offset).
\<close>

theorem stbl_roundtrip:
  assumes "writable ts tim base wide fileSize" and "length sampleEntry < 2 ^ 32"
  shows "\<exists>boxes ss. iterBoxes (concat (stbl_children sampleEntry ts tim base wide)) = Inr boxes \<and>
    buildSampleTable tr boxes fileSize = (Inr (), tr\<lparr>i_samples := ss\<rparr>) \<and>
    map i_offset ss = layout (chunk_places (chunks ts) base) (map s_size (samples ts)) \<and>
    map i_size ss = map s_size (samples ts) \<and> map i_sync ss = map sync (samples ts) \<and>
    map ctsTicks ss = map (\<lambda>k. sum_list (take k (durations tim)) + ctts tim ! k) [0..<length (samples ts)]"
proof -
  define bs where "bs = stbl_boxes sampleEntry ts tim base wide"
  define n where "n = length (samples ts)"
  note w = assms(1) [unfolded writable_def]
  have n32: "n < 2 ^ 32 - 1" "n < 2 ^ 32" using w by (simp_all add: n_def maxSamples_def)
  have iter: "iterBoxes (concat (stbl_children sampleEntry ts tim base wide)) = Inr bs"
    unfolding stbl_children_boxes bs_def
    by (intro iterBoxes_concat stbl_boxes_small) (use w assms(2) n32 in \<open>simp_all add: n_def\<close>)
  note fnd = stbl_boxes_find [where sampleEntry = sampleEntry and ts = ts and tim = tim and base = base and wide = wide,
      folded bs_def]
  have sz: "parseStsz (full_payload 0 0 (u32_be 0 @ counted (map (\<lambda>s. u32_be (s_size s)) (samples ts)))) fileSize
      = Inr (map s_size (samples ts))" using w by (intro stsz_roundtrip) simp
  have co: "parseChunkOffsets bs = Inr (map (\<lambda>c. base + uint (offset c)) (chunks ts))"
    using w by (intro chunk_offsets_roundtrip [OF _ _ fnd(4) fnd(5)]) (simp_all add: chunk_box_def list_all_iff)
  have sc: "parseStsc (full_payload 0 0 (counted (map enc_stsc (stsc_runs 0 None (chunks ts))))) = Inr (stsc_runs 0 None (chunks ts))"
    using w by (intro stsc_roundtrip) simp
  have tt: "parseStts (full_payload 0 0 (counted (map enc_pair (rle (map word_of_int (durations tim)))))) n
      = Inr (map word_of_int (durations tim))"
    using stts_roundtrip [of "durations tim"] w n32 by (simp add: n_def)
  have ct: "parseCtts bs n = ctts tim"
  proof (cases "hasCTTS tim")
    case True
    then show ?thesis using ctts_roundtrip [of "ctts tim" bs, OF _ _ fnd(7) [unfolded if_P [OF True]]] w n32 by (simp add: n_def)
  next
    case False
    then have "ctts tim = replicate n 0" using w by (auto simp add: n_def list_all_iff intro: replicate_eqI)
    then show ?thesis using fnd(7) False by (simp add: parseCtts_def)
  qed
  have sy: "is_sync (parseStssN bs n) (k + 1) = sync (samples ts ! k)" if "k < n" for k
  proof (cases "buildSTSS (samples ts) = None")
    case True
    then have "parseStssN bs n = None" using fnd(6) by (simp add: parseStssN_def)
    then show ?thesis using all_sync [OF True, of k] that by (simp add: is_sync_def n_def)
  next
    case False
    show ?thesis unfolding n_def
      by (rule stss_roundtrip [OF _ fnd(6) [unfolded if_not_P [OF False]]]) (use that n32 in \<open>simp_all add: n_def\<close>)
  qed
  obtain ps where ps: "place_chunks fileSize 0 0 (stsc_runs 0 None (chunks ts)) (map (\<lambda>c. base + uint (offset c)) (chunks ts))
      (map s_size (samples ts)) = Placed ps []"
    "map p_offset ps = layout (chunk_places (chunks ts) base) (map s_size (samples ts))"
    "map p_size ps = map s_size (samples ts)"
    using written_chunks [OF assms(1)] by blast
  define ss where "ss = resolve_times (timescale tr) (editShiftMs tr) (parseStssN bs n) 0 0 ps (ctts tim)
    (map word_of_int (durations tim))"
  have run: "buildSampleTable tr bs fileSize = (Inr (), tr\<lparr>i_samples := ss\<rparr>)"
    unfolding buildSampleTable_def
    by (simp add: fnd(1,2,3) mustFind_def sz co sc tt [unfolded n_def] ct [unfolded n_def] ps(1) ss_def n_def)
  have lps: "length ps = n" using ps(3) by (metis length_map n_def)
  have lc: "length (ctts tim) = n" "length (durations tim) = n" using w by (simp_all add: n_def)
  note nth = resolve_times_nth [of ps "ctts tim" "map word_of_int (durations tim)" "timescale tr" "editShiftMs tr"
      "parseStssN bs n" 0 0, folded ss_def]
  have lss: "length ss = n" using nth lps lc by simp
  have at: "i_offset (ss ! k) = p_offset (ps ! k)" "i_size (ss ! k) = p_size (ps ! k)" "i_sync (ss ! k) = sync (samples ts ! k)"
    "ctsTicks (ss ! k) = sum_list (map uint (take k (map word_of_int (durations tim) :: u32 list))) + ctts tim ! k" if "k < n" for k
    using nth lps lc that sy [OF that] by (simp_all add: Let_def)
  have "map uint (take k (map word_of_int (durations tim) :: u32 list)) = take k (durations tim)" for k
  proof -
    have "uint (word_of_int d :: u32) = d" if "d \<in> set (durations tim)" for d
      using w that by (auto simp add: list_all_iff unsigned_of_int take_bit_int_eq_self)
    then have "map uint (map word_of_int (durations tim) :: u32 list) = durations tim" by (simp add: map_idI)
    then show ?thesis by (metis take_map)
  qed
  then have "map ctsTicks ss = map (\<lambda>k. sum_list (take k (durations tim)) + ctts tim ! k) [0..<n]"
    using lss at(4) by (intro nth_equalityI) simp_all
  moreover have "map i_offset ss = map p_offset ps" "map i_size ss = map p_size ps" "map i_sync ss = map sync (samples ts)"
    using lss lps at by (intro nth_equalityI; simp add: n_def)+
  ultimately show ?thesis
    by (intro exI [of _ bs] exI [of _ ss] conjI iter run) (simp_all add: ps(2,3) n_def)
qed

theorem stbl_roundtrip_witness:
  "\<exists>boxes ss. iterBoxes (concat (stbl_children [] \<lparr>samples = [\<lparr>s_size = 9, pts = 0, blockPts = 0, sync = True, dur = 0\<rparr>],
        chunks = [\<lparr>offset = 8, count = 1\<rparr>]\<rparr> \<lparr>durations = [40], ctts = [0], hasCTTS = False, total_dur = 40\<rparr> 40 False)) = Inr boxes \<and>
    buildSampleTable two_samples_track boxes 57 = (Inr (), two_samples_track\<lparr>i_samples := ss\<rparr>) \<and>
    map i_offset ss = [48] \<and> map i_size ss = [9] \<and> map i_sync ss = [True] \<and> map ctsTicks ss = [0]"
  using stbl_roundtrip [of "\<lparr>samples = [\<lparr>s_size = 9, pts = 0, blockPts = 0, sync = True, dur = 0\<rparr>],
      chunks = [\<lparr>offset = 8, count = 1\<rparr>]\<rparr>" "\<lparr>durations = [40], ctts = [0], hasCTTS = False, total_dur = 40\<rparr>" 40 False 57 "[]" two_samples_track]
  by (simp add: writable_def chunk_places_def maxSamples_def int64_max_def)

end
