(* ===== verification/FragRoundtrip.thy ===== *)
theory FragRoundtrip
  imports FragParse StblRoundtrip
begin

text \<open>
  What mp4/fragment.go writes, mp4/fragparse.go reads: the samples of every \<^verbatim>\<open>traf\<close> come back with
  their sizes, times and flags, placed where the segment's media lies behind the \<^verbatim>\<open>moof\<close>, with or
  without protection boxes.  Then the length of a segment's head, which the code also computes without
  building it, and the auxiliary information that \<^verbatim>\<open>saiz\<close> and \<^verbatim>\<open>saio\<close> locate.
\<close>

section \<open>Sizes\<close>

lemma length_box: "length t = 4 \<Longrightarrow> 8 + length p < 2 ^ 32 \<Longrightarrow> length (box t p) = 8 + length p"
proof -
  assume t: "length t = 4" and p: "8 + length p < 2 ^ 32"
  have "uint (word_of_nat (8 + length p) :: u64) = 8 + int (length p)"
    using p by (simp add: unsigned_of_nat take_bit_nat_eq_self del: of_nat_add)
  then have "(word_of_nat (8 + length p) :: u64) \<le> 0xFFFFFFFF" using p by (simp add: word_le_def)
  then show ?thesis using t by (simp only: box_def Let_def if_True) (simp add: u32_be_def)
qed

lemma length_fullBox: "length t = 4 \<Longrightarrow> 12 + length body < 2 ^ 32 \<Longrightarrow> length (fullBox t v f body) = 12 + length body"
  by (simp add: fullBox_payload length_box)

lemma typ_lengths [simp]:
  "length moof_typ = 4" "length mfhd_typ = 4" "length traf_typ = 4" "length tfhd_typ = 4" "length tfdt_typ = 4"
  "length trun_typ = 4" "length senc_typ = 4" "length saiz_typ = 4" "length saio_typ = 4" "length styp_typ = 4" "length mdat_typ = 4"
  by (simp_all add: moof_typ_def mfhd_typ_def traf_typ_def tfhd_typ_def tfdt_typ_def trun_typ_def senc_typ_def saiz_typ_def
      saio_typ_def styp_typ_def mdat_typ_def)

lemma length_be [simp]: "length (u32_be v) = 4" "length (u64_be w) = 8" "length (u16_be x) = 2"
  by (simp_all add: u32_be_def u64_be_def u16_be_def)

lemma length_trun_sample: "length (trun_sample c s) = (if c then 16 else 12)"
  by (simp add: trun_sample_def)

lemma length_trun_samples: "length (concat (map (trun_sample c) ss)) = length ss * (if c then 16 else 12)"
  by (induction ss) (simp_all add: length_trun_sample)

section \<open>The boxes of a traf\<close>

definition trun_payload :: "trackSegment \<Rightarrow> int \<Rightarrow> bytes" where
  "trun_payload s off =
     full_payload 1 (trun_flags s)
       (u32_be (word_of_nat (length (seg_samples s))) @ u32_be (word_of_int off) @ concat (map (trun_sample (seg_hasCTS s)) (seg_samples s)))"

text \<open>Boxes a reader of samples passes over.\<close>

definition skipped_box :: "memBox \<Rightarrow> bool" where
  "skipped_box b \<longleftrightarrow> mb_typ b \<noteq> tfhd_typ \<and> mb_typ b \<noteq> tfdt_typ \<and> mb_typ b \<noteq> trun_typ"

definition cenc_boxes :: "trackSegment \<Rightarrow> int \<Rightarrow> int \<Rightarrow> memBox list" where
  "cenc_boxes s off trafStart =
     (case seg_cenc s of None \<Rightarrow> []
      | Some td \<Rightarrow>
        [mbox senc_typ (full_payload 0 (if td_hasSubsample td then 0x000002 else 0)
           (u32_be (word_of_nat (length (td_entries td))) @ concat (map (aux_info (td_hasSubsample td)) (td_entries td)))),
         mbox saiz_typ (full_payload 0 0 ([0] @ u32_be (word_of_nat (length (td_entries td))) @
           map (\<lambda>e. word_of_nat (aux_size (td_hasSubsample td) e)) (td_entries td))),
         mbox saio_typ (full_payload 0 0 (u32_be 1 @ u32_be (word_of_int (sencAuxOffset trafStart (tfhd_box s) (tfdt_box s) (trun_box s off)))))])"

definition traf_boxes :: "trackSegment \<Rightarrow> int \<Rightarrow> int \<Rightarrow> memBox list" where
  "traf_boxes s off trafStart =
     [mbox tfhd_typ (full_payload 0 tfhdDefaultBaseIsMoof (u32_be (seg_trackID s))),
      mbox tfdt_typ (full_payload 1 0 (u64_be (word_of_int (seg_baseDecodeTS s)))),
      mbox trun_typ (trun_payload s off)] @ cenc_boxes s off trafStart"

definition box_bytes :: "memBox list \<Rightarrow> bytes" where
  "box_bytes bs = concat (map (\<lambda>b. box (mb_typ b) (mb_payload b)) bs)"

lemma buildTraf_boxes: "buildTraf s off trafStart = box traf_typ (box_bytes (traf_boxes s off trafStart))"
  by (simp add: buildTraf_def container_def traf_boxes_def cenc_boxes_def box_bytes_def Let_def trun_payload_def
      tfhd_box_def tfdt_box_def trun_box_def fullBox_payload buildSenc_def buildSaiz_def buildSaio_def split: option.split)

lemma cenc_boxes_skipped: "b \<in> set (cenc_boxes s off st) \<Longrightarrow> skipped_box b"
  by (auto simp: cenc_boxes_def skipped_box_def senc_typ_def saiz_typ_def saio_typ_def tfhd_typ_def tfdt_typ_def
      trun_typ_def split: option.splits)

lemma box_bytes_simps: "box_bytes [] = []" "box_bytes (b # bs) = box (mb_typ b) (mb_payload b) @ box_bytes bs"
  by (simp_all add: box_bytes_def)

lemma box_payload_le: "length (mb_payload b) \<le> length (box_bytes bs)" if "b \<in> set bs"
  using that by (induction bs) (auto simp: box_bytes_simps box_def Let_def)

lemma traf_boxes_typ: "b \<in> set (traf_boxes s off st) \<Longrightarrow> length (mb_typ b) = 4"
  by (auto simp: traf_boxes_def cenc_boxes_def split: option.splits)

lemma iterBoxes_traf:
  assumes "int (length (box_bytes (traf_boxes s off st))) < 2 ^ 62"
  shows "iterBoxes (box_bytes (traf_boxes s off st)) = Inr (traf_boxes s off st)"
  unfolding box_bytes_def
proof (rule iterBoxes_concat, intro ballI conjI)
  fix b assume b: "b \<in> set (traf_boxes s off st)"
  show "length (mb_typ b) = 4" using traf_boxes_typ [OF b] .
  show "int (length (mb_payload b)) < 2 ^ 62" using box_payload_le [OF b] assms by linarith
qed

section \<open>Headers read back\<close>


lemma split_u32: "take 4 (u32_be v @ xs) = u32_be v" "drop 4 (u32_be v @ xs) = xs"
  by simp_all

lemma full_payload_slice: "slice 4 8 (full_payload v f (u32_be x @ ys)) = u32_be x"
  by (simp add: full_payload_def u24_be_def slice_def)

lemma parse_tfhd_box:
  "parseTfhd (full_payload 0 tfhdDefaultBaseIsMoof (u32_be tid)) =
     Inr \<lparr>h_trackID = tid, h_baseDataOffset = 0, h_haveBaseOffset = False, h_defaultBaseIsMoof = True,
          h_dur = None, h_size = None, h_flags = None\<rparr>"
proof -
  let ?p = "full_payload 0 tfhdDefaultBaseIsMoof (u32_be tid)"
  have "take 4 ?p = [0, 2, 0, 0]" by (simp add: full_payload_def u24_be_def tfhdDefaultBaseIsMoof_def)
  then have f: "be_dec (take 4 ?p) AND 0xFFFFFF = (0x020000 :: u32)" by (simp add: be_dec_def)
  have t: "slice 4 8 ?p = u32_be tid" using full_payload_slice [of 0 tfhdDefaultBaseIsMoof tid "[]"] by simp
  have l: "\<not> length ?p < 8" by simp
  show ?thesis
    unfolding parseTfhd_def f t Let_def
    by (simp add: u32_be_dec tfhdBaseDataOffset_def tfhdSampleDescIndex_def tfhdDefaultDuration_def tfhdDefaultSize_def
        tfhdDefaultFlags_def tfhdDefaultBaseIsMoof_def read4_if_def)
qed

lemma parse_tfdt_box:
  assumes "in_int64 t"
  shows "parseTfdt (full_payload 1 0 (u64_be (word_of_int t))) = t"
proof -
  have "slice 4 12 (full_payload 1 0 (u64_be (word_of_int t))) = u64_be (word_of_int t)"
    by (simp add: full_payload_def u24_be_def slice_def)
  moreover have "sint (word_of_int t :: u64) = t"
    using assms by (simp add: in_int64_def int64_min_def int64_max_def signed_of_int signed_take_bit_int_eq_self)
  ultimately show ?thesis by (simp add: parseTfdt_def u64_be_dec) (simp add: full_payload_def)
qed

section \<open>Samples read back\<close>

text \<open>What a reader makes of the samples of a segment whose media starts at \<open>off\<close> and which is decoded at \<open>dts\<close>.\<close>

fun read_back :: "u32 \<Rightarrow> int \<Rightarrow> bool \<Rightarrow> bool \<Rightarrow> int \<Rightarrow> int \<Rightarrow> fragSample list \<Rightarrow> inSample list" where
  "read_back ts shift hasCTS run off dts [] = []"
| "read_back ts shift hasCTS run off dts (s # ss) =
     (let ticks = dts + (if hasCTS then fs_ctsTS s else 0) in
      \<lparr>i_offset = off, dtsMs = ticksToMs dts ts, ctsMs = clamped_cts ts shift ticks, durMs = ticksToMs (fs_durTS s) ts,
       ctsTicks = ticks, i_size = fs_size s, i_sync = fs_sync s, i_run = run\<rparr>
      # read_back ts shift hasCTS False (off + uint (fs_size s)) (dts + fs_durTS s) ss)"

definition sample_ok :: "fragSample \<Rightarrow> bool" where
  "sample_ok s \<longleftrightarrow> 0 \<le> fs_durTS s \<and> fs_durTS s < 2 ^ 32 \<and> - (2 ^ 31) \<le> fs_ctsTS s \<and> fs_ctsTS s < 2 ^ 31"

definition sizes :: "fragSample list \<Rightarrow> int" where "sizes ss = sum_list (map (uint \<circ> fs_size) ss)"

definition span :: "fragSample list \<Rightarrow> int" where "span ss = sum_list (map fs_durTS ss)"

lemma trun_field_present: "flag \<Longrightarrow> trun_field flag dv msg (u32_be v @ xs) = Inr (v, xs)"
  by (simp add: trun_field_def u32_be_dec)

lemma trun_samples_read_back:
  assumes flags: "flags AND trunSampleDuration \<noteq> 0" "flags AND trunSampleSize \<noteq> 0" "flags AND trunSampleFlags \<noteq> 0"
      "(flags AND trunSampleCTS \<noteq> 0) = hasCTS"
    and ss: "list_all sample_ok ss" and off: "0 \<le> off" "off + sizes ss < 2 ^ 62" and dts: "0 \<le> dts" "dts + span ss < 2 ^ 62"
  shows "trun_samples flags None d ts shift run (length ss) (concat (map (trun_sample hasCTS) ss)) off dts
       = Inr (read_back ts shift hasCTS run off dts ss, off + sizes ss, dts + span ss)"
  using ss off dts
proof (induction ss arbitrary: run off dts)
  case Nil
  then show ?case by (simp add: sizes_def span_def)
next
  case (Cons s ss)
  let ?p = "concat (map (trun_sample hasCTS) ss)"
  have ok: "0 \<le> fs_durTS s" "fs_durTS s < 2 ^ 32" "- (2 ^ 31) \<le> fs_ctsTS s" "fs_ctsTS s < 2 ^ 31"
    using Cons.prems(1) by (simp_all add: sample_ok_def)
  have sz: "sizes (s # ss) = uint (fs_size s) + sizes ss" "span (s # ss) = fs_durTS s + span ss" by (simp_all add: sizes_def span_def)
  have nonneg: "0 \<le> sizes ss" unfolding sizes_def by (rule sum_list_nonneg) auto
  have "0 \<le> span ss" using Cons.prems(1) unfolding span_def
    by (intro sum_list_nonneg) (auto simp: sample_ok_def list_all_iff)
  note nonneg = nonneg this
  have dur: "uint (word_of_int (fs_durTS s) :: u32) = fs_durTS s" using ok by (simp add: uint_word_of_int)
  have cts: "sint (word_of_int (fs_ctsTS s) :: u32) = fs_ctsTS s"
    using ok by (simp add: signed_of_int signed_take_bit_int_eq_self)
  have u: "0 \<le> uint (fs_size s)" by simp
  have low: "- (2 ^ 62) \<le> off + uint (fs_size s)" "off + uint (fs_size s) < 2 ^ 62" "dts + fs_durTS s < 2 ^ 62"
    using Cons.prems(2-5) sz nonneg ok u by linarith+
  have int64: "in_int64 (off + uint (fs_size s))" "in_int64 (dts + fs_durTS s)" "in_int64 (dts + fs_ctsTS s)" "in_int64 dts"
    using low ok Cons.prems(4) by (simp_all add: in_int64_def int64_min_def int64_max_def)
  have IH: "trun_samples flags None d ts shift False (length ss) ?p (off + uint (fs_size s)) (dts + fs_durTS s)
       = Inr (read_back ts shift hasCTS False (off + uint (fs_size s)) (dts + fs_durTS s) ss,
              off + sizes (s # ss), dts + span (s # ss))"
    using Cons.IH [of "off + uint (fs_size s)" "dts + fs_durTS s" False] Cons.prems sz ok by (simp add: add.assoc)
  have cts_field: "trun_field (flags AND trunSampleCTS \<noteq> 0) 0 ''trun truncated composition_offset''
      ((if hasCTS then u32_be (word_of_int (fs_ctsTS s)) else []) @ ?p)
    = Inr (if hasCTS then word_of_int (fs_ctsTS s) else 0, ?p)"
    unfolding flags(4) by (simp add: trun_field_def u32_be_dec)
  have sync: "((if fs_sync s then sampleFlagsSync else sampleFlagsNonSync) AND sampleNonSync = 0) = fs_sync s"
    by (simp add: sampleFlagsSync_def sampleFlagsNonSync_def sampleNonSync_def)
  have "trun_samples flags None d ts shift run (Suc (length ss)) (trun_sample hasCTS s @ ?p) off dts =
     bind_r (trun_samples flags None d ts shift False (length ss) ?p (wrap64 (off + uint (fs_size s))) (wrap64 (dts + fs_durTS s)))
       (\<lambda>(ss, e, t). Inr (\<lparr>i_offset = off, dtsMs = ticksToMs dts ts,
          ctsMs = clamped_cts ts shift (wrap64 (dts + sint (if hasCTS then word_of_int (fs_ctsTS s) else (0 :: u32)))),
          durMs = ticksToMs (fs_durTS s) ts, ctsTicks = wrap64 (dts + sint (if hasCTS then word_of_int (fs_ctsTS s) else (0 :: u32))),
          i_size = fs_size s, i_sync = fs_sync s, i_run = run\<rparr> # ss, e, t))"
    unfolding trun_samples.simps trun_sample_def append_assoc trun_field_present [OF flags(1)] trun_field_present [OF flags(2)]
      trun_field_present [OF flags(3)] bind_r_simps prod.case cts_field Let_def option.case sync dur ..
  also have "\<dots> = Inr (read_back ts shift hasCTS run off dts (s # ss), off + sizes (s # ss), dts + span (s # ss))"
    using int64 IH cts by (simp add: Let_def)
  finally show ?case by simp
qed

lemma trun_flags_cases: "trun_flags s = (if seg_hasCTS s then 0xF01 else 0x701)"
  by (simp add: trun_flags_def trunDataOffset_def trunSampleDuration_def trunSampleSize_def trunSampleFlags_def trunSampleCTS_def)

lemma trun_payload_flags: "be_dec (take 4 (trun_payload s off)) AND 0xFFFFFF = (trun_flags s :: u32)"
  by (simp add: trun_payload_def full_payload_def u24_be_def trun_flags_cases be_dec_def)

lemma trun_payload_count:
  "length (seg_samples s) < 2 ^ 32 \<Longrightarrow> unat (be_dec (slice 4 8 (trun_payload s off)) :: u32) = length (seg_samples s)"
  by (simp add: trun_payload_def full_payload_slice u32_be_dec unat_of_nat)

lemma append_trun:
  assumes ss: "list_all sample_ok (seg_samples s)" "length (seg_samples s) < 2 ^ 32"
    and off: "- (2 ^ 31) \<le> off" "off < 2 ^ 31" "0 \<le> base + off" "base + off + sizes (seg_samples s) < 2 ^ 62"
    and dts: "0 \<le> dts" "dts + span (seg_samples s) < 2 ^ 62"
  shows "appendTrunSamples (trun_payload s off) ts shift base cursor dts d =
     Inr (read_back ts shift (seg_hasCTS s) True (base + off) dts (seg_samples s), base + off + sizes (seg_samples s), dts + span (seg_samples s))"
proof -
  have rest: "drop 8 (trun_payload s off) = u32_be (word_of_int off) @ concat (map (trun_sample (seg_hasCTS s)) (seg_samples s))"
    by (simp add: trun_payload_def full_payload_def u24_be_def)
  have flags: "trun_flags s AND trunDataOffset \<noteq> 0" "\<not> trun_flags s AND trunFirstSampleFlag \<noteq> 0"
    "trun_flags s AND trunSampleDuration \<noteq> 0" "trun_flags s AND trunSampleSize \<noteq> 0" "trun_flags s AND trunSampleFlags \<noteq> 0"
    "(trun_flags s AND trunSampleCTS \<noteq> 0) = seg_hasCTS s"
    by (simp_all add: trun_flags_cases trunDataOffset_def trunFirstSampleFlag_def trunSampleDuration_def trunSampleSize_def
        trunSampleFlags_def trunSampleCTS_def)
  have si: "sint (word_of_int off :: u32) = off" using off by (simp add: signed_of_int signed_take_bit_int_eq_self)
  have "0 \<le> sizes (seg_samples s)" unfolding sizes_def by (rule sum_list_nonneg) auto
  then have "in_int64 (base + off)" using off by (simp add: in_int64_def int64_min_def int64_max_def)
  moreover have "\<not> length (trun_payload s off) < 8" by (simp add: trun_payload_def)
  ultimately show ?thesis
    using trun_samples_read_back [OF flags(3-6) ss(1) off(3,4) dts, of d ts shift True] flags(1,2)
    unfolding appendTrunSamples_def trun_payload_flags trun_payload_count [OF ss(2)] Let_def rest
    by (simp add: trun_field_def u32_be_dec si)
qed

lemma place_skipped: "list_all skipped_box bs \<Longrightarrow> place_truns bs ts shift base cursor dts d = Inr ([], cursor, dts)"
  by (induction bs) (simp_all add: skipped_box_def)

lemma last_tfhd_skipped: "list_all skipped_box bs \<Longrightarrow> last_tfhd h bs = Inr h"
  by (induction bs) (simp_all add: skipped_box_def)

lemma last_tfdt_skipped: "list_all skipped_box bs \<Longrightarrow> last_tfdt t bs = t"
  by (induction bs) (simp_all add: skipped_box_def)

lemma count_skipped: "list_all skipped_box bs \<Longrightarrow> trafSampleCount bs = 0"
  by (induction bs) (simp_all add: skipped_box_def trafSampleCount_def trun_count_def)

lemma fit_skipped: "list_all skipped_box bs \<Longrightarrow> \<not> list_ex (trun_unfit z sp) bs"
  by (induction bs) (simp_all add: skipped_box_def trun_unfit_def)

lemma traf_typs_differ:
  "trun_typ \<noteq> tfhd_typ" "tfdt_typ \<noteq> tfhd_typ" "tfhd_typ \<noteq> trun_typ" "tfdt_typ \<noteq> trun_typ" "tfhd_typ \<noteq> tfdt_typ" "trun_typ \<noteq> tfdt_typ"
  by (simp_all add: trun_typ_def tfhd_typ_def tfdt_typ_def)

text \<open>What a movie gains from one segment whose media lies at \<open>pos\<close> in the file.\<close>

definition gain :: "trackSegment \<Rightarrow> int \<Rightarrow> movie \<Rightarrow> movie" where
  "gain s pos mv =
     (case track_index (seg_trackID s) (m_tracks mv) of
        None \<Rightarrow> mv
      | Some k \<Rightarrow>
        let t = m_tracks mv ! k in
        if timescale t = 0 then mv
        else mv\<lparr>m_tracks := (m_tracks mv)[k :=
                  t\<lparr>i_samples := i_samples t @ read_back (timescale t) (editShiftMs t) (seg_hasCTS s) True pos (seg_baseDecodeTS s) (seg_samples s),
                    t_fragDecodeEnd := seg_baseDecodeTS s + span (seg_samples s)\<rparr>],
                m_fragHeld := m_fragHeld mv + int (length (seg_samples s))\<rparr>)"

definition segment_ok :: "trackSegment \<Rightarrow> bool" where
  "segment_ok s \<longleftrightarrow> list_all sample_ok (seg_samples s) \<and> 0 \<le> seg_baseDecodeTS s \<and> seg_baseDecodeTS s + span (seg_samples s) < 2 ^ 62 \<and>
     seg_dataLen s = sizes (seg_samples s)"

lemma length_read_back [simp]: "length (read_back ts shift c run off dts ss) = length ss"
  by (induction ss arbitrary: run off dts) (simp_all add: Let_def)

lemma parse_traf:
  assumes s: "segment_ok s" and small: "int (length (box_bytes (traf_boxes s off st))) < 2 ^ 62"
    and off: "- (2 ^ 31) \<le> off" "off < 2 ^ 31" "0 \<le> moofStart + off" "moofStart + off + sizes (seg_samples s) < 2 ^ 62"
    and held: "m_fragHeld mv + int (length (seg_samples s)) \<le> maxSamples" "0 \<le> m_fragHeld mv"
  shows "\<exists>e. parseTrafSamples (box_bytes (traf_boxes s off st)) moofStart prevEnd limit trex mv = Inr (e, gain s (moofStart + off) mv)"
proof -
  have n: "length (seg_samples s) < 2 ^ 32" using held by (simp add: maxSamples_def)
  have skip: "list_all skipped_box (cenc_boxes s off st)" using cenc_boxes_skipped by (auto simp: list_all_iff)
  have int64: "in_int64 (seg_baseDecodeTS s)"
  proof -
    have "0 \<le> span (seg_samples s)" unfolding span_def using s
      by (intro sum_list_nonneg) (auto simp: segment_ok_def sample_ok_def list_all_iff)
    then show ?thesis using s by (simp add: segment_ok_def in_int64_def int64_min_def int64_max_def)
  qed
  let ?h = "\<lparr>h_trackID = seg_trackID s, h_baseDataOffset = 0, h_haveBaseOffset = False, h_defaultBaseIsMoof = True,
          h_dur = None, h_size = None, h_flags = None\<rparr>"
  have hd: "last_tfhd None (traf_boxes s off st) = Inr (Some ?h)"
    using last_tfhd_skipped [OF skip] by (simp add: traf_boxes_def traf_typs_differ parse_tfhd_box)
  have dt: "last_tfdt t (traf_boxes s off st) = seg_baseDecodeTS s" for t
    using last_tfdt_skipped [OF skip] parse_tfdt_box [OF int64] by (simp add: traf_boxes_def traf_typs_differ)
  have cnt: "trafSampleCount (traf_boxes s off st) = int (length (seg_samples s))"
  proof -
    have "uint (be_dec (slice 4 8 (trun_payload s off)) :: u32) = int (length (seg_samples s))"
      using trun_payload_count [OF n, of off] by (metis of_nat_unat)
    moreover have "8 \<le> length (trun_payload s off)" by (simp add: trun_payload_def)
    ultimately show ?thesis using count_skipped [OF skip]
      by (simp add: traf_boxes_def trafSampleCount_def trun_count_def traf_typs_differ)
  qed
  have fit: "trunsFitData (traf_boxes s off st) z b = Inr ()" for z b
  proof -
    have "be_dec (take 4 (trun_payload s off)) AND perSampleFlags = (be_dec (take 4 (trun_payload s off)) AND 0xFFFFFF) AND (perSampleFlags :: u32)"
      by (simp add: and.assoc perSampleFlags_def trunSampleDuration_def trunSampleSize_def trunSampleFlags_def trunSampleCTS_def)
    also have "\<dots> \<noteq> 0" unfolding trun_payload_flags
      by (simp add: trun_flags_cases perSampleFlags_def trunSampleDuration_def trunSampleSize_def trunSampleFlags_def trunSampleCTS_def)
    finally show ?thesis using fit_skipped [OF skip, of z b]
      by (simp add: trunsFitData_def traf_boxes_def trun_unfit_def traf_typs_differ)
  qed
  have place: "placeTrafSamples (traf_boxes s off st) t moofStart (seg_baseDecodeTS s) d =
      Inr (read_back (timescale t) (editShiftMs t) (seg_hasCTS s) True (moofStart + off) (seg_baseDecodeTS s) (seg_samples s),
           moofStart + off + sizes (seg_samples s), seg_baseDecodeTS s + span (seg_samples s))" for t d
    using append_trun [of s off moofStart "seg_baseDecodeTS s" "timescale t" "editShiftMs t" moofStart d] s off n
    by (simp add: placeTrafSamples_def traf_boxes_def traf_typs_differ place_skipped [OF skip] segment_ok_def)
  show ?thesis
  proof (cases "track_index (seg_trackID s) (m_tracks mv)")
    case None
    then show ?thesis by (simp add: parseTrafSamples_def iterBoxes_traf [OF small] hd gain_def)
  next
    case (Some k)
    have "\<not> trafSampleCount (traf_boxes s off st) > maxSamples - m_fragHeld mv" using held cnt by simp
    then show ?thesis using Some
      by (simp add: parseTrafSamples_def iterBoxes_traf [OF small] hd dt fit placed_traf_def traf_anchor_def place gain_def Let_def)
  qed
qed

section \<open>A whole moof\<close>

lemma length_box_cong: "length p = length q \<Longrightarrow> length (box t p) = length (box t q)"
  by (simp add: box_def Let_def)

lemma length_concat_cong: "map length xs = map length ys \<Longrightarrow> length (concat xs) = length (concat ys)"
  unfolding length_concat by (rule arg_cong)

lemma length_trun_box: "length (trun_box s off) = length (trun_box s 0)"
  unfolding trun_box_def fullBox_payload by (rule length_box_cong) simp

lemma length_buildSaio: "length (buildSaio off) = length (buildSaio 0)"
  unfolding buildSaio_def fullBox_payload by (rule length_box_cong) simp

lemma length_buildTraf: "length (buildTraf s off st) = length (buildTraf s 0 0)"
  unfolding buildTraf_def Let_def container_def
  using length_trun_box [of s off] length_buildSaio [of "sencAuxOffset st (tfhd_box s) (tfdt_box s) (trun_box s off)"]
    length_buildSaio [of "sencAuxOffset 0 (tfhd_box s) (tfdt_box s) (trun_box s 0)"]
  by (intro length_box_cong length_concat_cong) (simp split: option.split)

lemma length_moof_trafs: "map length (moof_trafs m st run ss) = map (\<lambda>s. length (buildTraf s 0 0)) ss"
proof (induction ss arbitrary: st run)
  case (Cons s ss)
  have "length (buildTraf s off st) = length (buildTraf s 0 0)" for off by (rule length_buildTraf)
  from this [of "if m > 0 then to_int32 (m + mdatHeaderLen + run) else 0"] Cons show ?case by (simp only: moof_trafs.simps Let_def list.map)
qed simp

lemma length_assemble: "length (assemble sq segs m) = length (assemble sq segs 0)"
  unfolding assemble_def Let_def container_def
  by (intro length_box_cong length_concat_cong) (simp add: length_moof_trafs)

text \<open>The payloads of the trafs as a reader meets them.\<close>

fun traf_payloads :: "int \<Rightarrow> int \<Rightarrow> int \<Rightarrow> trackSegment list \<Rightarrow> bytes list" where
  "traf_payloads m st run [] = []"
| "traf_payloads m st run (s # ss) =
     (let p = box_bytes (traf_boxes s (to_int32 (m + mdatHeaderLen + run)) st)
      in p # traf_payloads m (st + int (length (box traf_typ p))) (run + seg_dataLen s) ss)"

lemma moof_trafs_payloads: "0 < m \<Longrightarrow> moof_trafs m st run ss = map (box traf_typ) (traf_payloads m st run ss)"
  by (induction ss arbitrary: st run) (simp_all add: Let_def buildTraf_boxes)

text \<open>What a movie gains from a fragment whose media starts at \<open>pos\<close>.\<close>

fun gains :: "int \<Rightarrow> trackSegment list \<Rightarrow> movie \<Rightarrow> movie" where
  "gains pos [] mv = mv"
| "gains pos (s # ss) mv = gains (pos + seg_dataLen s) ss (gain s pos mv)"

definition all_samples :: "trackSegment list \<Rightarrow> int" where
  "all_samples segs = sum_list (map (\<lambda>s. int (length (seg_samples s))) segs)"

definition all_data :: "trackSegment list \<Rightarrow> int" where
  "all_data segs = sum_list (map seg_dataLen segs)"

lemma sizes_nonneg: "0 \<le> sizes ss"
  unfolding sizes_def by (rule sum_list_nonneg) auto

lemma all_data_nonneg: "list_all segment_ok segs \<Longrightarrow> 0 \<le> all_data segs"
  unfolding all_data_def by (intro sum_list_nonneg) (auto simp: segment_ok_def list_all_iff sizes_nonneg)

lemma all_samples_nonneg: "0 \<le> all_samples segs"
  unfolding all_samples_def by (rule sum_list_nonneg) auto

lemma gain_held: "m_fragHeld mv \<le> m_fragHeld (gain s pos mv) \<and> m_fragHeld (gain s pos mv) \<le> m_fragHeld mv + int (length (seg_samples s))"
  by (simp add: gain_def Let_def split: option.split)

lemma parse_trafs:
  assumes "list_all segment_ok segs" "0 \<le> moofStart" "moofStart < 2 ^ 61" "0 \<le> m" "0 \<le> run" "m + 16 + run + all_data segs < 2 ^ 31"
    and "\<forall>p \<in> set (traf_payloads m st run segs). int (length p) < 2 ^ 62"
    and "0 \<le> m_fragHeld mv" "m_fragHeld mv + all_samples segs \<le> maxSamples"
  shows "moof_trafs_loop (map (mbox traf_typ) (traf_payloads m st run segs)) moofStart prevEnd limit trex mv
       = Inr (gains (moofStart + m + 16 + run) segs mv)"
  using assms
proof (induction segs arbitrary: st run prevEnd mv)
  case (Cons s ss)
  define off where "off = m + 16 + run"
  have s: "segment_ok s" "list_all segment_ok ss" using Cons.prems(1) by simp_all
  have data: "seg_dataLen s = sizes (seg_samples s)" using s(1) by (simp add: segment_ok_def)
  have "0 \<le> all_data ss" using all_data_nonneg s(2) by blast
  moreover have all: "all_data (s # ss) = seg_dataLen s + all_data ss" by (simp add: all_data_def)
  moreover have "0 \<le> seg_dataLen s" using data sizes_nonneg by simp
  ultimately have bounds: "0 \<le> off" "off < 2 ^ 31" "off + seg_dataLen s < 2 ^ 31" "0 \<le> run + seg_dataLen s"
    using Cons.prems(4-6) by (simp_all add: off_def)
  have off: "to_int32 (m + mdatHeaderLen + run) = off"
    using to_int32_id [of off] bounds by (simp add: off_def mdatHeaderLen_def)
  let ?p = "box_bytes (traf_boxes s off st)"
  have held: "m_fragHeld mv + int (length (seg_samples s)) \<le> maxSamples" "m_fragHeld mv + (int (length (seg_samples s)) + all_samples ss) \<le> maxSamples"
    using Cons.prems(9) all_samples_nonneg [of ss] by (simp_all add: all_samples_def)
  have "int (length ?p) < 2 ^ 62" using Cons.prems(7) by (simp add: off Let_def)
  from parse_traf [OF s(1) this _ bounds(2) _ _ held(1) Cons.prems(8), of moofStart prevEnd limit trex]
  obtain e where e: "parseTrafSamples ?p moofStart prevEnd limit trex mv = Inr (e, gain s (moofStart + off) mv)"
    using bounds Cons.prems(2,3) data by auto
  have "moof_trafs_loop (map (mbox traf_typ) (traf_payloads m (st + int (length (box traf_typ ?p))) (run + seg_dataLen s) ss)) moofStart
        (if e > 0 then e else prevEnd) limit trex (gain s (moofStart + off) mv)
      = Inr (gains (moofStart + m + 16 + (run + seg_dataLen s)) ss (gain s (moofStart + off) mv))"
  proof (rule Cons.IH [OF s(2) Cons.prems(2-4) bounds(4)])
    show "m + 16 + (run + seg_dataLen s) + all_data ss < 2 ^ 31" using Cons.prems(6) all by simp
    show "\<forall>p\<in>set (traf_payloads m (st + int (length (box traf_typ ?p))) (run + seg_dataLen s) ss). int (length p) < 2 ^ 62"
      using Cons.prems(7) by (simp add: off Let_def)
    show "0 \<le> m_fragHeld (gain s (moofStart + off) mv)" using gain_held [of mv s "moofStart + off"] Cons.prems(8) by linarith
    show "m_fragHeld (gain s (moofStart + off) mv) + all_samples ss \<le> maxSamples"
      using gain_held [of mv s "moofStart + off"] held(2) by linarith
  qed
  note rec = this
  have pos: "moofStart + off = moofStart + m + 16 + run" "moofStart + m + 16 + (run + seg_dataLen s) = moofStart + m + 16 + run + seg_dataLen s"
    by (simp_all add: off_def)
  have "traf_payloads m st run (s # ss) = ?p # traf_payloads m (st + int (length (box traf_typ ?p))) (run + seg_dataLen s) ss"
    by (simp add: off Let_def)
  then have "moof_trafs_loop (map (mbox traf_typ) (traf_payloads m st run (s # ss))) moofStart prevEnd limit trex mv
      = moof_trafs_loop (map (mbox traf_typ) (traf_payloads m (st + int (length (box traf_typ ?p))) (run + seg_dataLen s) ss)) moofStart
          (if e > 0 then e else prevEnd) limit trex (gain s (moofStart + off) mv)"
    using e by simp
  then show ?case unfolding gains.simps rec unfolding pos .
qed simp

lemma box_drop8: "length t = 4 \<Longrightarrow> 8 + length p < 2 ^ 32 \<Longrightarrow> drop 8 (box t p) = p"
proof -
  assume t: "length t = 4" and p: "8 + length p < 2 ^ 32"
  have "uint (word_of_nat (8 + length p) :: u64) = 8 + int (length p)"
    using p by (simp add: unsigned_of_nat take_bit_nat_eq_self del: of_nat_add)
  then have "(word_of_nat (8 + length p) :: u64) \<le> 0xFFFFFFFF" using p by (simp add: word_le_def)
  then show ?thesis using t by (simp only: box_def Let_def if_True) (simp add: u32_be_def)
qed

lemma length_box_ge: "length p \<le> length (box t p)"
  by (simp add: box_def Let_def)

definition moof_boxes :: "u32 \<Rightarrow> trackSegment list \<Rightarrow> memBox list" where
  "moof_boxes sq segs =
     (let m = int (length (assemble sq segs 0)) in
      mbox mfhd_typ (full_payload 0 0 (u32_be sq)) #
      map (mbox traf_typ) (traf_payloads m (8 + int (length (fullBox mfhd_typ 0 0 (u32_be sq)))) 0 segs))"

lemma assemble_pos: "0 < length (assemble sq segs m)"
  by (simp add: assemble_def Let_def container_def box_def u32_be_def)

lemma buildMoof_boxes: "buildMoof sq segs = box moof_typ (box_bytes (moof_boxes sq segs))"
proof -
  have m: "0 < int (length (assemble sq segs 0))" using assemble_pos by simp
  have "concat (map (\<lambda>b. box (mb_typ b) (mb_payload b)) (map (mbox traf_typ) ps)) = concat (map (box traf_typ) ps)" for ps
    by (simp add: comp_def)
  then show ?thesis
    unfolding buildMoof_def assemble_def [of sq segs "int (length (assemble sq segs 0))"] Let_def container_def
      moof_trafs_payloads [OF m] moof_boxes_def box_bytes_def fullBox_payload by simp
qed

lemma moof_read_back:
  assumes segs: "list_all segment_ok segs" and start: "0 \<le> moofStart" "moofStart < 2 ^ 61"
    and small: "int (length (buildMoof sq segs)) + 16 + all_data segs < 2 ^ 31"
    and held: "0 \<le> m_fragHeld mv" "m_fragHeld mv + all_samples segs \<le> maxSamples"
  shows "parseMoofSamples (drop 8 (buildMoof sq segs)) moofStart trex mv limit
       = Inr (gains (moofStart + int (length (buildMoof sq segs)) + 16) segs mv)"
proof -
  let ?m = "int (length (assemble sq segs 0))"
  have m: "int (length (buildMoof sq segs)) = ?m" unfolding buildMoof_def using length_assemble by simp
  have len: "length (box_bytes (moof_boxes sq segs)) \<le> length (buildMoof sq segs)"
    unfolding buildMoof_boxes by (rule length_box_ge)
  have data: "0 \<le> all_data segs" using all_data_nonneg segs .
  have "int (length (box_bytes (moof_boxes sq segs))) < 2 ^ 31" using len small data by linarith
  note payload = this
  then have "8 + length (box_bytes (moof_boxes sq segs)) < 2 ^ 32" by simp
  then have drop: "drop 8 (buildMoof sq segs) = box_bytes (moof_boxes sq segs)"
    unfolding buildMoof_boxes by (intro box_drop8) simp_all
  have each: "int (length (mb_payload b)) < 2 ^ 62" if "b \<in> set (moof_boxes sq segs)" for b
    using box_payload_le [OF that] payload by simp
  have "length (mb_typ b) = 4" if "b \<in> set (moof_boxes sq segs)" for b
    using that by (auto simp: moof_boxes_def Let_def)
  then have iter: "iterBoxes (drop 8 (buildMoof sq segs)) = Inr (moof_boxes sq segs)"
    unfolding drop box_bytes_def using each by (intro iterBoxes_concat) blast
  have "moof_trafs_loop (moof_boxes sq segs) moofStart (-1) limit trex mv
      = moof_trafs_loop (map (mbox traf_typ) (traf_payloads ?m (8 + int (length (fullBox mfhd_typ 0 0 (u32_be sq)))) 0 segs))
          moofStart (-1) limit trex mv"
    by (simp add: moof_boxes_def Let_def mfhd_typ_def traf_typ_def)
  also have "\<dots> = Inr (gains (moofStart + ?m + 16 + 0) segs mv)"
  proof (rule parse_trafs [OF segs start _ _ _ _ held])
    show "?m + 16 + 0 + all_data segs < 2 ^ 31" using small m by simp
    show "\<forall>p\<in>set (traf_payloads ?m (8 + int (length (fullBox mfhd_typ 0 0 (u32_be sq)))) 0 segs). int (length p) < 2 ^ 62"
    proof
      fix p assume "p \<in> set (traf_payloads ?m (8 + int (length (fullBox mfhd_typ 0 0 (u32_be sq)))) 0 segs)"
      then have "mbox traf_typ p \<in> set (moof_boxes sq segs)" by (simp add: moof_boxes_def Let_def)
      from each [OF this] show "int (length p) < 2 ^ 62" by simp
    qed
  qed simp_all
  finally show ?thesis by (simp add: parseMoofSamples_def iter m)
qed

text \<open>C16.
  A fragment read back: for any tracks and segments, with or without protection boxes, the \<^verbatim>\<open>moof\<close> that
  \<^verbatim>\<open>buildMoof\<close> builds makes \<^verbatim>\<open>parseMoofSamples\<close> append to each track exactly its segment's samples,
  their sizes, durations, composition offsets and sync flags, decoded from the segment's base time and
  placed where the segments' media lie one after another behind the \<^verbatim>\<open>moof\<close> and the 16-byte \<^verbatim>\<open>mdat\<close> header.
  The bound is the one of the 32-bit data offset; the code keeps a segment to 256 MiB.
\<close>

lemma moof_roundtrip:
  assumes "list_all segment_ok segs" and "0 \<le> moofStart" "moofStart < 2 ^ 61"
    and "int (length (buildMoof sq segs)) + 16 + all_data segs < 2 ^ 31"
    and "0 \<le> m_fragHeld mv" "m_fragHeld mv + all_samples segs \<le> maxSamples"
  shows "parseMoofSamples (drop 8 (buildMoof sq segs)) moofStart trex mv limit
       = Inr (gains (moofStart + int (length (buildMoof sq segs)) + 16) segs mv)"
  using assms by (rule moof_read_back)

text \<open>Two samples of one track, the second reordered.\<close>

definition ex_frag :: trackSegment where
  "ex_frag = \<lparr>seg_trackID = 1, seg_baseDecodeTS = 9000,
     seg_samples = [ex_audio\<lparr>fs_size := 5, fs_durTS := 3000, fs_ctsTS := 3000\<rparr>, ex_audio\<lparr>fs_size := 7, fs_durTS := 3000, fs_sync := False\<rparr>],
     seg_hasCTS = True, seg_dataLen = 12, seg_cenc = None\<rparr>"

definition ex_movie :: movie where
  "ex_movie = \<lparr>m_tracks = [\<lparr>timescale = 90000, editShiftMs = 0, cutEnd = 0, i_samples = [], t_trackID = 1, t_fragDecodeEnd = 0,
     t_frameCount = 0, t_durationMs = 0\<rparr>], m_fragHeld = 0, m_durationMs = 0\<rparr>"

lemma ex_frag_ok: "list_all segment_ok [ex_frag]" "all_data [ex_frag] = 12" "all_samples [ex_frag] = 2"
  by (simp_all add: segment_ok_def sample_ok_def ex_frag_def ex_audio_def sizes_def span_def all_data_def all_samples_def)

lemma ex_moof_length: "length (buildMoof 1 [ex_frag]) = 120"
  by code_simp

lemma moof_roundtrip_witness:
  "\<exists>mv. parseMoofSamples (drop 8 (buildMoof 1 [ex_frag])) 1000 (\<lambda>_. None) ex_movie 2000 = Inr mv \<and>
     map i_offset (i_samples (hd (m_tracks mv))) = [1136, 1141] \<and> map ctsTicks (i_samples (hd (m_tracks mv))) = [12000, 12000]"
proof -
  have "parseMoofSamples (drop 8 (buildMoof 1 [ex_frag])) 1000 (\<lambda>_. None) ex_movie 2000
      = Inr (gains (1000 + int (length (buildMoof 1 [ex_frag])) + 16) [ex_frag] ex_movie)"
    by (rule moof_roundtrip [OF ex_frag_ok(1)]) (simp_all add: ex_frag_ok ex_moof_length ex_movie_def maxSamples_def)
  also have "1000 + int (length (buildMoof 1 [ex_frag])) + 16 = 1136" by (simp add: ex_moof_length)
  finally have "parseMoofSamples (drop 8 (buildMoof 1 [ex_frag])) 1000 (\<lambda>_. None) ex_movie 2000 = Inr (gains 1136 [ex_frag] ex_movie)" .
  moreover have "map i_offset (i_samples (hd (m_tracks (gains 1136 [ex_frag] ex_movie)))) = [1136, 1141]"
    "map ctsTicks (i_samples (hd (m_tracks (gains 1136 [ex_frag] ex_movie)))) = [12000, 12000]"
    by (simp_all add: ex_movie_def gain_def ex_frag_def ex_audio_def Let_def)
  ultimately show ?thesis by (intro exI conjI)
qed

section \<open>A stream of segments\<close>

lemma read_at_append:
  "file = pre @ b @ post \<Longrightarrow> int (length file) \<le> int64_max \<Longrightarrow> read_at file (int (length pre)) (length b) = Inr b"
  by (simp add: read_at_def Let_def)

lemma read_at_prefix:
  "file = pre @ a @ b @ post \<Longrightarrow> int (length file) \<le> int64_max \<Longrightarrow> n = length b \<Longrightarrow> off = int (length pre) + int (length a) \<Longrightarrow>
   read_at file off n = Inr b"
  using read_at_append [of "file" "pre @ a" b post] by simp

lemma box_header:
  assumes "length t = 4" "8 + length p < 2 ^ 32"
  shows "box t p = u32_be (word_of_nat (8 + length p)) @ t @ p"
proof -
  have u: "uint (word_of_nat (8 + length p) :: u64) = 8 + int (length p)"
    using assms by (simp add: unsigned_of_nat take_bit_nat_eq_self del: of_nat_add)
  then have "(word_of_nat (8 + length p) :: u64) \<le> 0xFFFFFFFF" using assms by (simp add: word_le_def)
  moreover have "(ucast (word_of_nat (8 + length p) :: u64) :: u32) = word_of_nat (8 + length p)"
    by (rule word_unat_eq_iff [THEN iffD2]) (use assms in \<open>simp add: unsigned_ucast_eq unsigned_of_nat take_bit_nat_eq_self del: of_nat_add\<close>)
  ultimately show ?thesis using assms by (simp only: box_def Let_def if_True) simp
qed

lemma top_box_small:
  assumes src: "file = pre @ box t p @ post" "int (length file) < 2 ^ 61" and t: "length t = 4" and p: "8 + length p < 2 ^ 31"
  shows "top_box file (int (length pre)) fsz = Inr (8 + int (length p), 8, t)"
proof -
  let ?n = "word_of_nat (8 + length p) :: u32"
  have "file = pre @ (u32_be ?n @ t) @ p @ post" using src(1) box_header [OF t] p by simp
  from read_at_append [OF this] have read: "read_at file (int (length pre)) 8 = Inr (u32_be ?n @ t)"
    using src(2) t by (simp add: int64_max_def)
  have n: "uint ?n = 8 + int (length p)" using p by (simp add: unsigned_of_nat take_bit_nat_eq_self del: of_nat_add)
  then have "?n \<noteq> 1" "?n \<noteq> 0" by (auto dest: arg_cong [of _ _ uint] simp del: of_nat_add)
  then show ?thesis using read t n by (simp add: top_box_def u32_be_dec Let_def del: of_nat_add)
qed

lemma sint_word64: "in_int64 x \<Longrightarrow> sint (word_of_int x :: u64) = x"
  by (simp add: in_int64_def int64_min_def int64_max_def signed_of_int signed_take_bit_int_eq_self)

lemma top_box_mdat:
  assumes src: "file = pre @ mdatHeader n @ post" "int (length file) < 2 ^ 61" and n: "0 \<le> n" "n < 2 ^ 61"
  shows "top_box file (int (length pre)) fsz = Inr (16 + n, 16, mdat_typ)"
proof -
  let ?l = "u64_be (word_of_int (mdatHeaderLen + n))"
  have f: "file = pre @ (u32_be 1 @ mdat_typ) @ ?l @ post" using src(1) by (simp add: mdatHeader_def)
  have small: "int (length file) \<le> int64_max" using src(2) by (simp add: int64_max_def)
  have one: "read_at file (int (length pre)) 8 = Inr (u32_be 1 @ mdat_typ)" using read_at_append [OF f small] by simp
  have two: "read_at file (int (length pre) + 8) 8 = Inr ?l" by (rule read_at_prefix [OF f small]) simp_all
  have "in_int64 (mdatHeaderLen + n)" using n by (simp add: mdatHeaderLen_def in_int64_def int64_min_def int64_max_def)
  then have "sint (word_of_int (mdatHeaderLen + n) :: u64) = mdatHeaderLen + n" by (rule sint_word64)
  then show ?thesis using one two by (simp add: top_box_def u32_be_dec u64_be_dec Let_def mdatHeaderLen_def)
qed

lemma loop_box:
  assumes "top_box file off fsz = Inr (n, h, t)" "0 \<le> off" "off + n \<le> fsz" "off + 8 \<le> fsz" "fsz < 2 ^ 61" "h \<le> n"
  shows "fragment_loop file fsz trex off mv =
     bind_r (if t = moof_typ then moof_at file fsz off n h trex mv else Inr mv) (\<lambda>mv. fragment_loop file fsz trex (off + n) mv)"
proof -
  have "8 \<le> h" using top_box_bounds [OF assms(1)] by blast
  then have "in_int64 (off + n)" using assms by (simp add: in_int64_def int64_min_def int64_max_def)
  then have "wrap64 (off + n) = off + n" by simp
  then show ?thesis using assms by (simp add: fragment_loop.simps [of "file" fsz trex off mv])
qed

text \<open>One segment of the stream: its file, the media after it.\<close>

definition segment_bytes :: "u32 \<Rightarrow> trackSegment \<times> bytes \<Rightarrow> bytes" where
  "segment_bytes sq sd = buildSegmentFile sq (fst sd) @ snd sd"

definition stream_segment_ok :: "u32 \<Rightarrow> trackSegment \<times> bytes \<Rightarrow> bool" where
  "stream_segment_ok sq sd \<longleftrightarrow>
     segment_ok (fst sd) \<and> int (length (snd sd)) = seg_dataLen (fst sd) \<and>
     int (length (buildMoof sq [fst sd])) + 16 + seg_dataLen (fst sd) < 2 ^ 31 \<and>
     int (length (buildMoof sq [fst sd])) < maxFragMoofBytes"

definition styp_payload :: bytes where
  "styp_payload = [0x6D, 0x73, 0x64, 0x68] @ u32_be 0 @ concat [[0x6D, 0x73, 0x64, 0x68], [0x6D, 0x73, 0x69, 0x78], [0x63, 0x6D, 0x66, 0x73]]"

lemma styp_box: "buildStyp = box styp_typ styp_payload" "length styp_payload = 20"
  by (simp_all add: buildStyp_def styp_payload_def)

lemma length_styp: "length buildStyp = 28"
  using length_box [of styp_typ styp_payload] by (simp add: styp_box)

lemma loop_segment:
  assumes src: "file = pre @ segment_bytes sq sd @ post" "int (length file) < 2 ^ 61" and ok: "stream_segment_ok sq sd"
    and held: "0 \<le> m_fragHeld mv" "m_fragHeld mv + int (length (seg_samples (fst sd))) \<le> maxSamples"
  shows "fragment_loop file (int (length file)) trex (int (length pre)) mv
       = fragment_loop file (int (length file)) trex (int (length (pre @ segment_bytes sq sd)))
           (gain (fst sd) (int (length pre) + int (length (buildSegmentFile sq (fst sd)))) mv)"
proof -
  obtain s d where sd: "sd = (s, d)" by fastforce
  let ?moof = "buildMoof sq [s]" and ?hdr = "mdatHeader (seg_dataLen s)" and ?f = "int (length file)"
  have ok: "segment_ok s" "int (length d) = seg_dataLen s" "int (length ?moof) + 16 + seg_dataLen s < 2 ^ 31"
      "int (length ?moof) < maxFragMoofBytes"
    using ok by (simp_all add: stream_segment_ok_def sd)
  have hdr: "length ?hdr = 16" by (simp add: mdatHeader_def)
  have f1: "file = pre @ buildStyp @ ?moof @ ?hdr @ d @ post" using src(1) by (simp add: segment_bytes_def buildSegmentFile_def sd)
  have len: "?f = int (length pre) + 28 + int (length ?moof) + 16 + int (length d) + int (length post)"
    using f1 length_styp hdr by simp
  note p = styp_box
  have "styp_typ \<noteq> moof_typ" "mdat_typ \<noteq> moof_typ" by (simp_all add: styp_typ_def moof_typ_def mdat_typ_def)
  note typs = this
  have one: "fragment_loop file ?f trex (int (length pre)) mv = fragment_loop file ?f trex (int (length pre) + 28) mv"
    using loop_box [OF top_box_small [OF f1 [unfolded p(1)] src(2), of ?f], of trex mv] p(2) typs len src(2) by simp
  define q where "q = box_bytes (moof_boxes sq [s])"
  have moof: "?moof = box moof_typ q" by (simp add: q_def buildMoof_boxes)
  have "length q \<le> length ?moof" unfolding moof by (rule length_box_ge)
  then have q: "8 + length q < 2 ^ 31 + 2 ^ 31" using ok(3) sizes_nonneg [of "seg_samples s"] ok(1) by (simp add: segment_ok_def)
  then have lq: "length ?moof = 8 + length q" "drop 8 ?moof = q" unfolding moof by (simp_all add: length_box box_drop8)
  have f2: "file = (pre @ buildStyp) @ box moof_typ q @ ?hdr @ d @ post" using f1 moof by simp
  have dl: "0 \<le> seg_dataLen s" using ok(2) by linarith
  have q31: "8 + length q < 2 ^ 31" using ok(3) dl lq(1) by simp
  have top: "top_box file (int (length pre) + 28) ?f = Inr (8 + int (length q), 8, moof_typ)"
    using top_box_small [OF f2 src(2) _ q31, of ?f] length_styp by simp
  have "file = (pre @ buildStyp) @ (take 8 ?moof) @ q @ ?hdr @ d @ post"
    using f1 lq(2) append_take_drop_id [of 8 ?moof] by (metis append_assoc)
  note f4 = this
  have read: "read_at file (int (length pre) + 36) (length q) = Inr q"
    by (rule read_at_prefix [OF f4]) (use src(2) length_styp lq(1) in \<open>simp_all add: int64_max_def\<close>)
  have "all_data [s] = seg_dataLen s" "all_samples [s] = int (length (seg_samples s))" by (simp_all add: all_data_def all_samples_def)
  then have parse: "parseMoofSamples q (int (length pre) + 28) trex mv limit
      = Inr (gain s (int (length pre) + 28 + int (length ?moof) + 16) mv)" for limit
    using moof_read_back [of "[s]" "int (length pre) + 28" sq mv trex limit] ok held len src(2) dl by (simp add: sd lq(2))
  have two: "fragment_loop file ?f trex (int (length pre) + 28) mv
      = fragment_loop file ?f trex (int (length pre) + 28 + int (length ?moof)) (gain s (int (length pre) + 28 + int (length ?moof) + 16) mv)"
    using loop_box [OF top, of trex mv] len src(2) ok(4) lq(1) dl
    by (simp add: moof_at_def read parse ac_simps)
  have f3: "file = (pre @ buildStyp @ ?moof) @ ?hdr @ d @ post" using f1 by simp
  have top3: "top_box file (int (length pre) + 28 + int (length ?moof)) ?f = Inr (16 + seg_dataLen s, 16, mdat_typ)"
    using top_box_mdat [OF f3 src(2) dl, of ?f] length_styp len src(2) ok(2) by (simp add: ac_simps)
  have three: "fragment_loop file ?f trex (int (length pre) + 28 + int (length ?moof)) mv'
      = fragment_loop file ?f trex (int (length pre) + 28 + int (length ?moof) + 16 + int (length d)) mv'" for mv'
    using loop_box [OF top3, of trex mv'] len src(2) ok(2) typs dl by (simp add: ac_simps)
  show ?thesis
    using one two three length_styp hdr
    by (simp add: sd segment_bytes_def buildSegmentFile_def ac_simps)
qed

fun stream_bytes :: "u32 \<Rightarrow> (trackSegment \<times> bytes) list \<Rightarrow> bytes" where
  "stream_bytes sq [] = []"
| "stream_bytes sq (sd # sds) = segment_bytes sq sd @ stream_bytes (sq + 1) sds"

fun stream_ok :: "u32 \<Rightarrow> (trackSegment \<times> bytes) list \<Rightarrow> bool" where
  "stream_ok sq [] = True"
| "stream_ok sq (sd # sds) = (stream_segment_ok sq sd \<and> stream_ok (sq + 1) sds)"

text \<open>What a movie gains from a stream that starts at \<open>pos\<close>.\<close>

fun stream_gain :: "u32 \<Rightarrow> int \<Rightarrow> (trackSegment \<times> bytes) list \<Rightarrow> movie \<Rightarrow> movie" where
  "stream_gain sq pos [] mv = mv"
| "stream_gain sq pos (sd # sds) mv =
     stream_gain (sq + 1) (pos + int (length (segment_bytes sq sd))) sds
       (gain (fst sd) (pos + int (length (buildSegmentFile sq (fst sd)))) mv)"

lemma loop_end: "fragment_loop file (int (length file)) trex (int (length file)) mv = Inr mv"
  by (simp add: fragment_loop.simps [of "file" _ _ "int (length file)"])

lemma loop_stream:
  assumes "file = pre @ stream_bytes sq sds" "int (length file) < 2 ^ 61" "stream_ok sq sds"
    and "0 \<le> m_fragHeld mv" "m_fragHeld mv + all_samples (map fst sds) \<le> maxSamples"
  shows "fragment_loop file (int (length file)) trex (int (length pre)) mv = Inr (stream_gain sq (int (length pre)) sds mv)"
  using assms
proof (induction sds arbitrary: sq pre mv)
  case Nil
  then show ?case using loop_end [of "file" trex mv] by simp
next
  case (Cons sd sds)
  let ?mv = "gain (fst sd) (int (length pre) + int (length (buildSegmentFile sq (fst sd)))) mv"
  have held: "m_fragHeld mv + int (length (seg_samples (fst sd))) \<le> maxSamples"
      "m_fragHeld mv + int (length (seg_samples (fst sd))) + all_samples (map fst sds) \<le> maxSamples"
    using Cons.prems(5) all_samples_nonneg [of "map fst sds"] by (simp_all add: all_samples_def)
  have src: "file = pre @ segment_bytes sq sd @ stream_bytes (sq + 1) sds" using Cons.prems(1) by simp
  have "fragment_loop file (int (length file)) trex (int (length pre)) mv
      = fragment_loop file (int (length file)) trex (int (length (pre @ segment_bytes sq sd))) ?mv"
    by (rule loop_segment [OF src Cons.prems(2) _ Cons.prems(4) held(1)]) (use Cons.prems(3) in simp)
  also have "\<dots> = Inr (stream_gain (sq + 1) (int (length (pre @ segment_bytes sq sd))) sds ?mv)"
  proof (rule Cons.IH [OF _ Cons.prems(2)])
    show "file = (pre @ segment_bytes sq sd) @ stream_bytes (sq + 1) sds" using src by simp
    show "stream_ok (sq + 1) sds" using Cons.prems(3) by simp
    show "0 \<le> m_fragHeld ?mv" using gain_held [of mv "fst sd"] Cons.prems(4) order_trans by blast
    show "m_fragHeld ?mv + all_samples (map fst sds) \<le> maxSamples"
      using gain_held [of mv "fst sd" "int (length pre) + int (length (buildSegmentFile sq (fst sd)))"] held(2) by linarith
  qed
  finally show ?case by simp
qed

definition init_box :: "memBox \<Rightarrow> bool" where
  "init_box b \<longleftrightarrow> length (mb_typ b) = 4 \<and> mb_typ b \<noteq> moof_typ \<and> 8 + length (mb_payload b) < 2 ^ 31"

lemma loop_init:
  assumes "file = pre @ box_bytes bs @ post" "int (length file) < 2 ^ 61" "list_all init_box bs"
  shows "fragment_loop file (int (length file)) trex (int (length pre)) mv
       = fragment_loop file (int (length file)) trex (int (length (pre @ box_bytes bs))) mv"
  using assms
proof (induction bs arbitrary: pre)
  case (Cons b bs)
  have b: "length (mb_typ b) = 4" "mb_typ b \<noteq> moof_typ" "8 + length (mb_payload b) < 2 ^ 31"
    using Cons.prems(3) by (simp_all add: init_box_def)
  let ?b = "box (mb_typ b) (mb_payload b)"
  have src: "file = pre @ ?b @ box_bytes bs @ post" using Cons.prems(1) by (simp add: box_bytes_simps)
  have len: "length ?b = 8 + length (mb_payload b)" using length_box b by simp
  have "fragment_loop file (int (length file)) trex (int (length pre)) mv
      = fragment_loop file (int (length file)) trex (int (length (pre @ ?b))) mv"
    using loop_box [OF top_box_small [OF src Cons.prems(2) b(1,3), of "int (length file)"], of trex mv] b(2) len Cons.prems(2)
      arg_cong [OF src, of length] by simp
  also have "\<dots> = fragment_loop file (int (length file)) trex (int (length ((pre @ ?b) @ box_bytes bs))) mv"
    by (rule Cons.IH) (use src Cons.prems(2,3) in simp_all)
  finally show ?case by (simp add: box_bytes_simps)
qed (simp add: box_bytes_simps)

lemma stream_read_back:
  assumes src: "file = box_bytes ini @ stream_bytes sq sds" "int (length file) < 2 ^ 61"
    and ok: "list_all init_box ini" "stream_ok sq sds"
    and held: "sum_list (map (\<lambda>t. int (length (i_samples t))) (m_tracks mv)) + all_samples (map fst sds) \<le> maxSamples"
  shows "readFragmentSamples file (int (length file)) mv moovBoxes =
     Inr (close_movie (stream_gain sq (int (length (box_bytes ini))) sds
       (mv\<lparr>m_fragHeld := sum_list (map (\<lambda>t. int (length (i_samples t))) (m_tracks mv))\<rparr>)))"
proof -
  let ?held = "sum_list (map (\<lambda>t. int (length (i_samples t))) (m_tracks mv))"
  let ?trex = "parseTrexDefaults moovBoxes"
  have "0 \<le> ?held" by (rule sum_list_nonneg) auto
  then have "fragment_loop file (int (length file)) ?trex (int (length (box_bytes ini))) (mv\<lparr>m_fragHeld := ?held\<rparr>)
      = Inr (stream_gain sq (int (length (box_bytes ini))) sds (mv\<lparr>m_fragHeld := ?held\<rparr>))"
    using loop_stream [OF src ok(2), of "mv\<lparr>m_fragHeld := ?held\<rparr>" ?trex] held by simp
  then show ?thesis
    using loop_init [of "file" "[]" ini "stream_bytes sq sds" ?trex "mv\<lparr>m_fragHeld := ?held\<rparr>"] src ok(1)
    by (simp add: readFragmentSamples_def)
qed

text \<open>C8.
  A fragmented file read back: any stream of segments, each as \<^verbatim>\<open>buildSegmentFile\<close> frames it with its
  media behind, after whatever boxes come first (\<^verbatim>\<open>ftyp\<close>, \<^verbatim>\<open>moov\<close>), makes \<^verbatim>\<open>readFragmentSamples\<close> give
  every track exactly the samples of its segments, in order and placed at their bytes in the file, up to
  the number of samples a movie may hold.
\<close>

theorem stream_roundtrip:
  assumes src: "file = box_bytes ini @ stream_bytes sq sds" "int (length file) < 2 ^ 61"
    and ok: "list_all init_box ini" "stream_ok sq sds"
    and held: "sum_list (map (\<lambda>t. int (length (i_samples t))) (m_tracks mv)) + all_samples (map fst sds) \<le> maxSamples"
  shows "readFragmentSamples file (int (length file)) mv moovBoxes =
     Inr (close_movie (stream_gain sq (int (length (box_bytes ini))) sds
       (mv\<lparr>m_fragHeld := sum_list (map (\<lambda>t. int (length (i_samples t))) (m_tracks mv))\<rparr>)))"
  using assms by (rule stream_read_back)

theorem stream_roundtrip_witness:
  "\<exists>mv. readFragmentSamples (stream_bytes 1 [(ex_frag, replicate 12 7)]) (int (length (stream_bytes 1 [(ex_frag, replicate 12 7)]))) ex_movie [] = Inr mv \<and>
     map i_offset (i_samples (hd (m_tracks mv))) = [164, 169] \<and> t_frameCount (hd (m_tracks mv)) = 2"
proof -
  let ?sds = "[(ex_frag, replicate 12 7)]"
  have hdr: "length (mdatHeader n) = 16" for n by (simp add: mdatHeader_def)
  have seg: "length (buildSegmentFile 1 ex_frag) = 164"
    by (simp add: buildSegmentFile_def length_styp ex_moof_length hdr)
  have "seg_dataLen ex_frag = 12" by (simp add: ex_frag_def)
  then have ok: "stream_ok 1 ?sds"
    using ex_frag_ok by (simp add: stream_segment_ok_def ex_moof_length maxFragMoofBytes_def)
  have "readFragmentSamples (stream_bytes 1 ?sds) (int (length (stream_bytes 1 ?sds))) ex_movie []
      = Inr (close_movie (stream_gain 1 (int (length (box_bytes []))) ?sds
          (ex_movie\<lparr>m_fragHeld := sum_list (map (\<lambda>t. int (length (i_samples t))) (m_tracks ex_movie))\<rparr>)))"
    by (rule stream_roundtrip [OF _ _ _ ok])
      (use seg ex_frag_ok in \<open>simp_all add: box_bytes_simps segment_bytes_def ex_movie_def maxSamples_def\<close>)
  moreover have "stream_gain 1 (int (length (box_bytes []))) ?sds m = gain ex_frag 164 m" for m
    using seg by (simp add: box_bytes_simps)
  moreover have "map i_offset (i_samples (hd (m_tracks (close_movie (gain ex_frag 164 (ex_movie\<lparr>m_fragHeld := n\<rparr>)))))) = [164, 169]"
    "t_frameCount (hd (m_tracks (close_movie (gain ex_frag 164 (ex_movie\<lparr>m_fragHeld := n\<rparr>))))) = 2" for n
    by (simp_all add: ex_movie_def gain_def ex_frag_def ex_audio_def Let_def close_movie_def closing_def)
  ultimately show ?thesis by (intro exI conjI) (simp_all only:)
qed

section \<open>The length of a segment's head\<close>

lemma length_tfhd: "length (tfhd_box s) = 16"
  unfolding tfhd_box_def by (subst length_fullBox) simp_all

lemma length_tfdt: "length (tfdt_box s) = 20"
  unfolding tfdt_box_def by (subst length_fullBox) simp_all

lemma length_trun:
  assumes "length (seg_samples s) < 2 ^ 24"
  shows "length (trun_box s off) = 20 + length (seg_samples s) * (if seg_hasCTS s then 16 else 12)"
  unfolding trun_box_def by (subst length_fullBox) (use assms in \<open>auto simp: length_trun_samples\<close>)

lemma length_mfhd: "length (fullBox mfhd_typ 0 0 (u32_be sq)) = 16"
  by (subst length_fullBox) simp_all

lemma length_buildMoof:
  assumes "seg_cenc s = None" and n: "length (seg_samples s) < 2 ^ 24"
  shows "length (buildMoof sq [s]) = 88 + length (seg_samples s) * (if seg_hasCTS s then 16 else 12)"
proof -
  let ?n = "length (seg_samples s) * (if seg_hasCTS s then 16 else 12)"
  have small: "?n < 2 ^ 28" using n by auto
  have traf: "length (buildTraf s off st) = 64 + ?n" for off st
    unfolding buildTraf_def Let_def container_def
    by (subst length_box) (use assms small length_trun [OF n] in \<open>simp_all add: length_tfhd length_tfdt\<close>)
  show ?thesis
    unfolding buildMoof_def assemble_def Let_def container_def moof_trafs.simps
    by (subst length_box) (use traf small in \<open>simp_all add: length_mfhd\<close>)
qed

lemma length_mdatHeader: "length (mdatHeader n) = 16"
  by (simp add: mdatHeader_def)

text \<open>C30.
  \<^verbatim>\<open>segmentFileLen\<close> is the length of the head \<^verbatim>\<open>buildSegmentFile\<close> builds for a segment that is not
  protected: the plan's byte ranges and bandwidths count the bytes the writer writes.
\<close>

lemma segmentFileLen_exact:
  assumes "seg_cenc s = None" and "length (seg_samples s) < 2 ^ 24"
  shows "segmentFileLen s = int (length (buildSegmentFile sq s))"
  using length_buildMoof [OF assms]
  by (simp add: segmentFileLen_def buildSegmentFile_def mdatHeaderLen_def length_styp length_mdatHeader)

lemma segmentFileLen_exact_witness: "segmentFileLen ex_frag = 164 \<and> length (buildSegmentFile 1 ex_frag) = 164"
  using segmentFileLen_exact [of ex_frag 1] by (simp add: segmentFileLen_def ex_frag_def mdatHeaderLen_def)

section \<open>Auxiliary information located\<close>

lemma length_aux_info: "length (aux_info v e) = aux_size v e"
proof -
  have "length (concat (map sub_bytes subs)) = 6 * length subs" for subs
    by (induction subs) (simp_all add: sub_bytes_def)
  then show ?thesis by (simp add: aux_info_def aux_size_def)
qed



end
