(* ===== verification/Rendition.thy ===== *)
theory Rendition
  imports FragTiming FragRoundtrip
begin

text \<open>
  One rendition of an HLS or DASH presentation from end to end: the samples of a track timed
  (\<^verbatim>\<open>fillFragTimingTS\<close>), cut into segments (\<^verbatim>\<open>segmentWindow\<close>), each framed (\<^verbatim>\<open>buildSegmentFile\<close>) with
  its media behind, and a client that reads the segments one after another (\<^verbatim>\<open>readFragmentSamples\<close>).
\<close>

section \<open>A stream of segments with their media\<close>

text \<open>Every segment with the bytes of its samples, as \<^verbatim>\<open>writeSegments\<close> writes them; \<open>ps\<close> are the samples' bytes.\<close>

fun with_media :: "trackSegment list \<Rightarrow> bytes list \<Rightarrow> (trackSegment \<times> bytes) list" where
  "with_media [] ps = []"
| "with_media (s # ss) ps =
     (s, concat (take (length (seg_samples s)) ps)) # with_media ss (drop (length (seg_samples s)) ps)"

text \<open>What a client makes of a sample: its bytes, whether it can start there, when it presents.\<close>

definition seen :: "bytes \<Rightarrow> inSample \<Rightarrow> bytes \<times> bool \<times> int" where
  "seen src s = (take (unat (i_size s)) (drop (nat (i_offset s)) src), i_sync s, ctsTicks s)"

definition shown :: "fragSample \<Rightarrow> bytes \<Rightarrow> bytes \<times> bool \<times> int" where
  "shown s p = (p, fs_sync s, fs_dtsTS s + fs_ctsTS s)"

fun decodes_from :: "int \<Rightarrow> fragSample list \<Rightarrow> bool" where
  "decodes_from d [] \<longleftrightarrow> True"
| "decodes_from d (s # ss) \<longleftrightarrow> fs_dtsTS s = d \<and> decodes_from (d + fs_durTS s) ss"

definition sized :: "fragSample list \<Rightarrow> bytes list \<Rightarrow> bool" where
  "sized ss ps \<longleftrightarrow> list_all2 (\<lambda>s p. length p = unat (fs_size s)) ss ps"

lemma read_back_seen:
  assumes "sized ss ps" "decodes_from d ss" "c \<or> list_all (\<lambda>s. fs_ctsTS s = 0) ss" "off = int (length a)"
  shows "map (seen (a @ concat ps @ b)) (read_back ts shift c run off d ss) = map2 shown ss ps"
  using assms
proof (induction ss arbitrary: ps d a off run)
  case (Cons s ss)
  obtain p ps' where ps: "ps = p # ps'" "length p = unat (fs_size s)" "sized ss ps'"
    using Cons.prems(1) by (auto simp: sized_def list_all2_Cons1)
  have rest: "map (seen ((a @ p) @ concat ps' @ b)) (read_back ts shift c False (off + uint (fs_size s)) (d + fs_durTS s) ss) = map2 shown ss ps'"
    by (rule Cons.IH) (use Cons.prems ps in auto)
  moreover have "fs_dtsTS s = d" "\<not> c \<longrightarrow> fs_ctsTS s = 0" using Cons.prems by auto
  moreover have "take (unat (fs_size s)) (drop (nat off) (a @ concat ps @ b)) = p" using ps Cons.prems(4) by simp
  ultimately have "seen (a @ concat ps @ b) (hd (read_back ts shift c run off d (s # ss))) = shown s p"
    by (auto simp: seen_def shown_def Let_def)
  then show ?case using rest ps(1) by (simp add: Let_def)
qed (simp add: sized_def)

lemma gapless_decodes: "gapless (times_of ss) \<Longrightarrow> ss \<noteq> [] \<Longrightarrow> decodes_from (fs_dtsTS (hd ss)) ss"
proof (induction ss)
  case (Cons s ss)
  show ?case
  proof (cases ss)
    case (Cons s' ss')
    note step = this
    have "gapless ((fs_dtsTS s, fs_durTS s) # (fs_dtsTS s', fs_durTS s') # times_of ss')"
      using Cons.prems(1) by (simp only: step times_of_def list.map)
    then have onward: "fs_dtsTS s' = fs_dtsTS s + fs_durTS s" "gapless ((fs_dtsTS s', fs_durTS s') # times_of ss')"
      unfolding gapless.simps(3) fst_conv snd_conv by blast+
    then have "gapless (times_of ss)" by (simp add: step times_of_def)
    then have "decodes_from (fs_dtsTS (hd ss)) ss" using Cons.IH step by simp
    then show ?thesis using onward(1) by (simp add: step)
  qed simp
qed simp

lemma gapless_parts: "gapless (xs @ ys) \<Longrightarrow> gapless xs \<and> gapless ys"
proof (induction xs rule: gapless.induct)
  case (2 t)
  then show ?case by (cases ys) simp_all
qed auto


section \<open>A track's segments read in order\<close>

text \<open>One track, number \<open>k\<close> of the movie, which gains the samples \<open>new\<close>.\<close>

definition reads :: "nat \<Rightarrow> u32 \<Rightarrow> movie \<Rightarrow> bool" where
  "reads k tid mv \<longleftrightarrow> track_index tid (m_tracks mv) = Some k \<and> k < length (m_tracks mv) \<and> timescale (m_tracks mv ! k) \<noteq> 0"

lemma track_index_id: "track_index i ts = Some k \<Longrightarrow> k < length ts \<and> t_trackID (ts ! k) = i"
  by (induction ts arbitrary: k) (auto split: if_splits)

lemma track_index_cong: "map t_trackID ts = map t_trackID ts' \<Longrightarrow> track_index i ts = track_index i ts'"
proof (induction ts arbitrary: ts')
  case (Cons t ts)
  then show ?case by (cases ts') auto
qed simp

lemma gain_reads:
  assumes "reads k (seg_trackID s) mv"
  shows "reads k (seg_trackID s) (gain s pos mv)"
    "i_samples (m_tracks (gain s pos mv) ! k) = i_samples (m_tracks mv ! k) @
       read_back (timescale (m_tracks mv ! k)) (editShiftMs (m_tracks mv ! k)) (seg_hasCTS s) True pos (seg_baseDecodeTS s) (seg_samples s)"
proof -
  have k: "k < length (m_tracks mv)" "track_index (seg_trackID s) (m_tracks mv) = Some k" "timescale (m_tracks mv ! k) \<noteq> 0"
    using assms by (simp_all add: reads_def)
  have "map t_trackID (m_tracks (gain s pos mv)) = map t_trackID (m_tracks mv)"
    using k by (intro nth_equalityI) (auto simp: gain_def Let_def nth_list_update)
  then have "track_index (seg_trackID s) (m_tracks (gain s pos mv)) = track_index (seg_trackID s) (m_tracks mv)"
    by (rule track_index_cong)
  then show "reads k (seg_trackID s) (gain s pos mv)" using k by (simp add: reads_def gain_def Let_def)
  show "i_samples (m_tracks (gain s pos mv) ! k) = i_samples (m_tracks mv ! k) @
       read_back (timescale (m_tracks mv ! k)) (editShiftMs (m_tracks mv ! k)) (seg_hasCTS s) True pos (seg_baseDecodeTS s) (seg_samples s)"
    using k by (simp add: gain_def Let_def)
qed

text \<open>What holds of the segments of a track: each decodes from its base, and the bytes fit its samples.\<close>

definition plays :: "u32 \<Rightarrow> trackSegment \<Rightarrow> bool" where
  "plays tid s \<longleftrightarrow> seg_trackID s = tid \<and> decodes_from (seg_baseDecodeTS s) (seg_samples s) \<and>
     (seg_hasCTS s \<or> list_all (\<lambda>x. fs_ctsTS x = 0) (seg_samples s))"

lemma sized_split: "sized (xs @ ys) ps \<Longrightarrow> sized xs (take (length xs) ps) \<and> sized ys (drop (length xs) ps)"
  by (auto simp: sized_def list_all2_append1)

lemma stream_seen:
  assumes "src = pre @ stream_bytes sq (with_media segs ps)" "list_all (plays tid) segs" "reads k tid mv"
    and "sized (concat (map seg_samples segs)) ps"
  shows "map (seen src) (i_samples (m_tracks (stream_gain sq (int (length pre)) (with_media segs ps) mv) ! k))
       = map (seen src) (i_samples (m_tracks mv ! k)) @ map2 shown (concat (map seg_samples segs)) ps"
  using assms
proof (induction segs arbitrary: sq pre ps mv)
  case Nil
  then show ?case by (simp add: sized_def)
next
  case (Cons s segs)
  let ?n = "length (seg_samples s)" and ?head = "buildSegmentFile sq s"
  let ?mine = "take ?n ps" and ?rest = "drop ?n ps"
  let ?pos = "int (length pre) + int (length ?head)"
  have tid: "seg_trackID s = tid" using Cons.prems(2) by (simp add: plays_def)
  note g = gain_reads [of k s mv ?pos, unfolded tid, OF Cons.prems(3)]
  have sized: "sized (seg_samples s) ?mine" "sized (concat (map seg_samples segs)) ?rest"
    using sized_split [of "seg_samples s" "concat (map seg_samples segs)" ps] Cons.prems(4) by simp_all
  have src: "src = (pre @ ?head @ concat ?mine) @ stream_bytes (sq + 1) (with_media segs ?rest)"
    using Cons.prems(1) by (simp add: segment_bytes_def)
  have "map (seen src) (i_samples (m_tracks (stream_gain sq (int (length pre)) (with_media (s # segs) ps) mv) ! k))
      = map (seen src) (i_samples (m_tracks (stream_gain (sq + 1) (int (length (pre @ ?head @ concat ?mine))) (with_media segs ?rest) (gain s ?pos mv)) ! k))"
    by (simp add: segment_bytes_def algebra_simps)
  also have "\<dots> = map (seen src) (i_samples (m_tracks (gain s ?pos mv) ! k)) @ map2 shown (concat (map seg_samples segs)) ?rest"
    by (rule Cons.IH [OF src _ g(1) sized(2)]) (use Cons.prems(2) in simp)
  also have "map (seen src) (i_samples (m_tracks (gain s ?pos mv) ! k)) =
      map (seen src) (i_samples (m_tracks mv ! k)) @ map2 shown (seg_samples s) ?mine"
  proof -
    have src': "src = (pre @ ?head) @ concat ?mine @ stream_bytes (sq + 1) (with_media segs ?rest)" using src by simp
    have "map (seen src) (read_back ts sh (seg_hasCTS s) True ?pos (seg_baseDecodeTS s) (seg_samples s)) = map2 shown (seg_samples s) ?mine" for ts sh
      unfolding src' by (rule read_back_seen [OF sized(1)]) (use Cons.prems(2) in \<open>simp_all add: plays_def\<close>)
    then show ?thesis by (simp add: g(2))
  qed
  also have "(map (seen src) (i_samples (m_tracks mv ! k)) @ map2 shown (seg_samples s) ?mine) @ map2 shown (concat (map seg_samples segs)) ?rest
      = map (seen src) (i_samples (m_tracks mv ! k)) @ map2 shown (seg_samples s @ concat (map seg_samples segs)) ps"
  proof -
    have "length (seg_samples s) = length ?mine" using sized(1) unfolding sized_def by (rule list_all2_lengthD)
    then have "zip (seg_samples s @ concat (map seg_samples segs)) (?mine @ ?rest) =
        zip (seg_samples s) ?mine @ zip (concat (map seg_samples segs)) ?rest" by (rule zip_append)
    then show ?thesis by (simp only: append_take_drop_id map_append append_assoc)
  qed
  finally show ?case by simp
qed

section \<open>From samples to a client\<close>

lemma times_of_append: "times_of (xs @ ys) = times_of xs @ times_of ys"
  by (simp add: times_of_def)

lemma segments_play:
  assumes "bounds \<noteq> []" "list_all (\<lambda>s. fs_blockPtsMs s < int64_max) (ft_samples ft)" "gapless (times_of (ft_samples ft))"
  shows "list_all (plays (ft_mp4ID ft)) (segments ft 0 bounds)"
  unfolding list_all_iff
proof
  fix seg assume seg: "seg \<in> set (segments ft 0 bounds)"
  then obtain before behind where "segments ft 0 bounds = before @ seg # behind" by (meson split_list)
  then have "ft_samples ft = concat (map seg_samples before) @ seg_samples seg @ concat (map seg_samples behind)"
    using segments_tile [OF assms(1,2)] by simp
  then have "gapless (times_of (seg_samples seg))" using assms(3) gapless_parts by (metis times_of_append)
  moreover note segments_fields [OF seg]
  ultimately show "plays (ft_mp4ID ft) seg"
    using gapless_decodes [of "seg_samples seg"]
    by (cases "seg_samples seg = []") (auto simp: plays_def windowHasCTS_def list_all_iff list_ex_iff)
qed

lemma with_media_fst [simp]: "map fst (with_media segs ps) = segs"
  by (induction segs arbitrary: ps) simp_all

lemma all_samples_concat: "all_samples segs = int (length (concat (map seg_samples segs)))"
  by (induction segs) (simp_all add: all_samples_def)

lemma track_read_back:
  assumes ft: "bounds \<noteq> []" "list_all (\<lambda>s. fs_blockPtsMs s < int64_max) (ft_samples ft)" "gapless (times_of (ft_samples ft))"
    and ps: "sized (ft_samples ft) ps"
    and src: "src = box_bytes ini @ stream_bytes 1 (with_media (segments ft 0 bounds) ps)" "int (length src) < 2 ^ 61"
    and ok: "list_all init_box ini" "stream_ok 1 (with_media (segments ft 0 bounds) ps)" "int (length (ft_samples ft)) \<le> maxSamples"
    and mv: "m_tracks mv = [t]" "t_trackID t = ft_mp4ID ft" "timescale t \<noteq> 0" "i_samples t = []"
  shows "\<exists>mv'. readFragmentSamples src (int (length src)) mv moovBoxes = Inr mv' \<and>
     map (seen src) (i_samples (hd (m_tracks mv'))) = map2 shown (ft_samples ft) ps"
proof -
  let ?segs = "segments ft 0 bounds"
  let ?mv = "mv\<lparr>m_fragHeld := sum_list (map (\<lambda>t. int (length (i_samples t))) (m_tracks mv))\<rparr>"
  let ?got = "stream_gain 1 (int (length (box_bytes ini))) (with_media ?segs ps) ?mv"
  have tile: "concat (map seg_samples ?segs) = ft_samples ft" by (rule segments_tile [OF ft(1,2)])
  have held: "sum_list (map (\<lambda>t. int (length (i_samples t))) (m_tracks mv)) + all_samples (map fst (with_media ?segs ps)) \<le> maxSamples"
    using ok(3) by (simp add: mv all_samples_concat tile)
  have read: "readFragmentSamples src (int (length src)) mv moovBoxes = Inr (close_movie ?got)"
    by (rule stream_read_back [OF src ok(1,2) held])
  have "reads 0 (ft_mp4ID ft) ?mv" using mv by (simp add: reads_def)
  from stream_seen [OF src(1) segments_play [OF ft] this] ps tile
  have seen: "map (seen src) (i_samples (m_tracks ?got ! 0)) = map2 shown (ft_samples ft) ps" by (simp add: mv)
  have "length (m_tracks (stream_gain sq pos sds m)) = length (m_tracks m)" for sq pos sds m
  proof (induction sds arbitrary: sq pos m)
    case (Cons sd sds)
    have "length (m_tracks (gain (fst sd) q m)) = length (m_tracks m)" for q
      by (simp add: gain_def Let_def split: option.splits)
    then show ?case using Cons by simp
  qed simp
  then obtain t' where t': "m_tracks ?got = [t']" using mv(1) by (metis length_0_conv length_Suc_conv movie.select_convs(1) movie.surjective movie.update_convs(2))
  have "i_samples (hd (m_tracks (close_movie ?got))) = i_samples (m_tracks ?got ! 0)"
    by (simp add: t' close_movie_def closing_def Let_def)
  then show ?thesis using read seen by auto
qed
lemma timed_static: "fs_size (timed s d u c) = fs_size s" "fs_sync (timed s d u c) = fs_sync s" "fs_blockPtsMs (timed s d u c) = fs_blockPtsMs s"
  by (simp_all add: timed_def)

text \<open>C5.
  From a video track to the client: samples timed by \<^verbatim>\<open>fillFragTimingTS\<close>, cut at any boundaries, framed
  segment by segment with their bytes behind, and the segments read one after another after any init
  boxes, give a client every sample once and in order, its very bytes, whether it can start there, and its
  presentation time in ticks: its own, moved by the track's one shift, or its decode time where that is
  later.
\<close>

theorem rendition_roundtrip:
  assumes fill: "fillFragTimingTS ss ptsTS lastDurMs mts gridTS bnds = (ft_samples ft, off, hasCTS, len, shift)"
    and ss: "ss \<noteq> []" "length (presentation ss ptsTS mts) = length ss" and grid: "gridTS < 0" "gridTS \<noteq> gridSpread"
    and lst: "ptsTS \<noteq> None \<or> lastDurMs \<le> 0 \<or> 1 \<le> tsScale mts lastDurMs" and small: "presentable (presentation ss ptsTS mts) shift"
    and cut: "bounds \<noteq> []" "list_all (\<lambda>s. fs_blockPtsMs s < int64_max) ss" and ps: "sized ss ps"
    and src: "src = box_bytes ini @ stream_bytes 1 (with_media (segments ft 0 bounds) ps)" "int (length src) < 2 ^ 61"
    and ok: "list_all init_box ini" "stream_ok 1 (with_media (segments ft 0 bounds) ps)" "int (length ss) \<le> maxSamples"
    and mv: "m_tracks mv = [t]" "t_trackID t = ft_mp4ID ft" "timescale t \<noteq> 0" "i_samples t = []"
  shows "\<exists>mv'. readFragmentSamples src (int (length src)) mv moovBoxes = Inr mv' \<and>
     map (seen src) (i_samples (hd (m_tracks mv'))) =
     map (\<lambda>i. (ps ! i, fs_sync (ss ! i),
               max (presentation ss ptsTS mts ! i - hd (sort (presentation ss ptsTS mts)) + shift) (fs_dtsTS (ft_samples ft ! i))))
         [0..<length ss]"
proof -
  let ?ps = "presentation ss ptsTS mts" and ?last = "if ptsTS \<noteq> None then 0 else lastDurMs" and ?out = "ft_samples ft"
  have plain: "plain_timed ss ?ps ?last mts = (?out, hasCTS, shift)"
    using fill ss(1) grid by (auto simp: fillFragTimingTS_def Let_def presentation_def split: prod.splits)
  have "1 \<le> last_duration mts ?last (diffs (strictlyIncreasing (sort ?ps)))"
    by (rule last_duration_pos [OF strictlyIncreasing_ok(1)]) (use lst in auto)
  note gap = plain_timed_gapless [OF plain ss(2,1) this]
  have n: "length ?out = length ss" by (rule plain_timed_length [OF plain ss(2,1)])
  have same: "fs_size (?out ! i) = fs_size (ss ! i)" "fs_sync (?out ! i) = fs_sync (ss ! i)" "fs_blockPtsMs (?out ! i) = fs_blockPtsMs (ss ! i)"
    if "i < length ss" for i
    using plain_timed_nth [OF plain ss(2) that] by (simp_all add: timed_static)
  have before: "list_all (\<lambda>s. fs_blockPtsMs s < int64_max) ?out" using cut(2) same n by (simp add: list_all_length)
  have sized: "sized ?out ps" using ps same n by (simp add: sized_def list_all2_conv_all_nth)
  obtain mv' where mv': "readFragmentSamples src (int (length src)) mv moovBoxes = Inr mv'"
      "map (seen src) (i_samples (hd (m_tracks mv'))) = map2 shown ?out ps"
    using track_read_back [OF cut(1) before gap(1) sized src ok(1,2) _ mv] ok(3) n by metis
  have "map2 shown ?out ps = map (\<lambda>i. shown (?out ! i) (ps ! i)) [0..<length ss]"
    using n ps by (intro nth_equalityI) (auto simp: sized_def dest: list_all2_lengthD)
  also have "\<dots> = map (\<lambda>i. (ps ! i, fs_sync (ss ! i), max (?ps ! i - hd (sort ?ps) + shift) (fs_dtsTS (?out ! i)))) [0..<length ss]"
    using plain_timed_presents [OF plain ss(2) _ small] same by (intro map_cong) (auto simp: shown_def)
  finally show ?thesis using mv' by auto
qed

definition ex_track :: fragTrack where
  "ex_track = \<lparr>ft_mp4ID = 1, ft_timescale = 1000,
     ft_samples = [timed (ex_frame 0 True) 0 40 40, timed (ex_frame 80 False) 40 40 80, timed (ex_frame 40 False) 80 40 0],
     ft_durMediaTS = 120\<rparr>"

definition ex_media :: "bytes list" where
  "ex_media = [replicate 10 1, replicate 10 2, replicate 10 3]"

definition ex_seg :: trackSegment where
  "ex_seg = \<lparr>seg_trackID = 1, seg_baseDecodeTS = 0, seg_samples = ft_samples ex_track, seg_hasCTS = True, seg_dataLen = 30, seg_cenc = None\<rparr>"

lemma ex_track_segment: "segments ex_track 0 [0] = [ex_seg]"
  by (simp add: ex_seg_def ex_track_def segmentWindow_def timed_def ex_frame_def int64_max_def windowHasCTS_def to_int32_id Let_def)

lemma ex_track_stream: "stream_ok 1 (with_media (segments ex_track 0 [0]) ex_media)"
  "length (stream_bytes 1 (with_media (segments ex_track 0 [0]) ex_media)) = 210"
proof -
  have n: "length (seg_samples ex_seg) = 3" "length (concat (take 3 ex_media)) = 30"
    by (simp_all add: ex_seg_def ex_track_def ex_media_def)
  have moof: "length (buildMoof 1 [ex_seg]) = 136" using length_buildMoof [of ex_seg 1] n by (simp add: ex_seg_def)
  have "segment_ok ex_seg"
    by (simp add: segment_ok_def ex_seg_def sample_ok_def ex_track_def timed_def ex_frame_def sizes_def span_def to_int32_id)
  then show "stream_ok 1 (with_media (segments ex_track 0 [0]) ex_media)"
    unfolding ex_track_segment by (simp add: stream_segment_ok_def moof n maxFragMoofBytes_def) (simp add: ex_seg_def)
  show "length (stream_bytes 1 (with_media (segments ex_track 0 [0]) ex_media)) = 210"
    unfolding ex_track_segment by (simp add: segment_bytes_def buildSegmentFile_def moof n length_styp length_mdatHeader)
qed

theorem rendition_roundtrip_witness:
  "\<exists>mv'. readFragmentSamples (stream_bytes 1 (with_media (segments ex_track 0 [0]) ex_media)) 210 ex_movie [] = Inr mv' \<and>
     map (\<lambda>s. ctsTicks s) (i_samples (hd (m_tracks mv'))) = [40, 120, 80]"
proof -
  let ?src = "stream_bytes 1 (with_media (segments ex_track 0 [0]) ex_media)"
  have p: "presentation ex_gop None 1000 = [0, 80, 40]" "hd (sort [0, 80, 40 :: int]) = 0" by code_simp+
  have "\<exists>mv'. readFragmentSamples ?src (int (length ?src)) ex_movie [] = Inr mv' \<and>
     map (seen ?src) (i_samples (hd (m_tracks mv'))) =
     map (\<lambda>i. (ex_media ! i, fs_sync (ex_gop ! i),
               max (presentation ex_gop None 1000 ! i - hd (sort (presentation ex_gop None 1000)) + 40) (fs_dtsTS (ft_samples ex_track ! i))))
         [0..<length ex_gop]"
  proof (rule rendition_roundtrip [where ini = "[]" and lastDurMs = 40 and gridTS = "-1" and bnds = None and off = 0 and hasCTS = True and len = 120])
    show "fillFragTimingTS ex_gop None 40 1000 (-1) None = (ft_samples ex_track, 0, True, 120, 40)"
      by (simp add: ex_gop_timed ex_track_def)
    show "stream_ok 1 (with_media (segments ex_track 0 [0]) ex_media)" by (rule ex_track_stream)
    show "presentable (presentation ex_gop None 1000) 40" by code_simp
    show "length (presentation ex_gop None 1000) = length ex_gop" unfolding p by (simp add: ex_gop_def)
    show "int (length ?src) < 2 ^ 61" unfolding ex_track_stream(2) by simp
    show "sized ex_gop ex_media" by (simp add: sized_def ex_gop_def ex_media_def ex_frame_def)
    show "m_tracks ex_movie = [hd (m_tracks ex_movie)]" "t_trackID (hd (m_tracks ex_movie)) = ft_mp4ID ex_track"
      "timescale (hd (m_tracks ex_movie)) \<noteq> 0" "i_samples (hd (m_tracks ex_movie)) = []"
      by (simp_all add: ex_movie_def ex_track_def)
  qed (simp_all add: ex_gop_def gridSpread_def ex_frame_def int64_max_def box_bytes_simps maxSamples_def tsScale_def movieTimescale_def)
  then obtain mv' where mv': "readFragmentSamples ?src (int (length ?src)) ex_movie [] = Inr mv'"
     "map (seen ?src) (i_samples (hd (m_tracks mv'))) =
      map (\<lambda>i. (ex_media ! i, fs_sync (ex_gop ! i),
               max (presentation ex_gop None 1000 ! i - hd (sort (presentation ex_gop None 1000)) + 40) (fs_dtsTS (ft_samples ex_track ! i))))
         [0..<length ex_gop]" by blast
  have "map ctsTicks (i_samples (hd (m_tracks mv'))) = map (snd \<circ> snd) (map (seen ?src) (i_samples (hd (m_tracks mv'))))"
    by (simp add: seen_def comp_def)
  also have "\<dots> = [40, 120, 80]"
    unfolding mv'(2) p by (simp add: ex_gop_def ex_track_def timed_def upt_rec)
  finally show ?thesis using mv'(1) unfolding ex_track_stream(2) by auto
qed

end
