(* ===== verification/GridPlan.thy ===== *)
theory GridPlan
  imports FragTiming
begin

text \<open>
  The on-demand plan's times (mp4/hlsplan_timing.go): \<^verbatim>\<open>timeSegmentWindow\<close> times one window of a track
  alone, and \<^verbatim>\<open>gridSpanFor\<close> finds where a grid-timed window opens and ends from the windows next to it,
  keeping what it learns.  The full pass of FragTiming times the whole track at once.  The lemmas show
  that the plan serves the full pass's segments, whichever windows are asked for in whichever order,
  and whichever reads fail in between.

  \<^verbatim>\<open>walkWindow\<close>, which reads the source, is an argument \<open>walk\<close>: the samples of a window and the time of the
  block that comes after it (-1 when none does), or an error.  \<open>lace\<close> is \<^verbatim>\<open>laceGridTS\<close> of the track.
\<close>

section \<open>One window timed\<close>

record planTrack =
  pt_timescale :: u32
  pt_audio :: bool
  pt_mp4ID :: u32
  pt_firstPtsMs :: int
  pt_lastDurTS :: int
  pt_laceSecondMs :: int
  pt_laceFirstFrames :: int
  pt_gridTS :: int
  pt_durMediaTS :: int
  pt_ctsShiftTS :: int

definition keepLastForward :: "int \<Rightarrow> int" where
  "keepLastForward u = (if u \<le> 0 then 1 else u)"

text \<open>The durations of a window off the grid, but its last: a sample cut short by damage lasts a frame.\<close>

definition plain_durations :: "int \<Rightarrow> bool list \<Rightarrow> int list \<Rightarrow> int list" where
  "plain_durations lastDurTS cuts dts = map2 (\<lambda>d c. if c then lastDurTS else d) (diffs dts) cuts"

definition plan_slot :: "planTrack \<Rightarrow> int \<Rightarrow> int \<Rightarrow> int" where
  "plan_slot pt g ms = gridIndex (tsScale (pt_timescale pt) ms - tsScale (pt_timescale pt) (pt_firstPtsMs pt)) g"

definition timeSegmentWindow ::
  "(int list \<Rightarrow> int) \<Rightarrow> fragSample list \<Rightarrow> planTrack \<Rightarrow> int \<Rightarrow> int \<times> int \<Rightarrow> fragSample list \<times> int \<times> bool" where
  "timeSegmentWindow lace w pt nextPts span =
     (if w = [] then ([], pt_durMediaTS pt, False)
      else
       let bs = map fs_blockPtsMs w;
           scale = tsScale (pt_timescale pt);
           gridTS = (if pt_gridTS pt = 0 \<and> pt_audio pt then lace bs else pt_gridTS pt)
       in if gridTS = gridSpread then
            let anchor = scale (pt_firstPtsMs pt) - scale (hd bs);
                lastSpan = lastBlockSpan (scale (pt_laceSecondMs pt) - scale (pt_firstPtsMs pt)) (pt_laceFirstFrames pt);
                out = map2 set_time w (map (\<lambda>(d, u). (d - anchor, u)) (spreadLaced bs (pt_timescale pt) nextPts lastSpan))
            in (out, fs_dtsTS (hd out), False)
          else if gridTS > 0 then
            let slot = plan_slot pt gridTS;
                e = (if snd span < 0 \<and> nextPts \<ge> 0 then slot nextPts else snd span);
                out = map2 set_time w (gridTime slot gridTS (fst span) e bs);
                out = map (\<lambda>s. if fs_cut s then s\<lparr>fs_durTS := gridTS\<rparr> else s) out
            in (out, fs_dtsTS (hd out), False)
          else
            let base = scale (pt_firstPtsMs pt);
                ps = map (\<lambda>s. scale (fs_ptsMs s)) w;
                dts = strictlyIncreasing (sort ps);
                final = (if nextPts \<ge> 0 \<and> \<not> fs_cut (last w) then keepLastForward (scale nextPts - last dts) else pt_lastDurTS pt);
                durs = plain_durations (pt_lastDurTS pt) (map fs_cut w) dts @ [final];
                offs = map2 (cts_offset (pt_ctsShiftTS pt)) ps dts;
                out = map (\<lambda>(s, d, u, c). timed s (d - base) u c) (zip w (zip dts (zip durs offs)))
            in (out, hd dts - base, windowHasCTS out))"

section \<open>Where a window opens\<close>

text \<open>What the plan has learned of one track's windows, \<open>gridStart\<close>.\<close>

type_synonym gridStarts = "nat \<rightharpoonup> int"

definition gridStartAt :: "gridStarts \<Rightarrow> nat \<Rightarrow> int" where
  "gridStartAt gs n = (case gs n of None \<Rightarrow> -1 | Some k \<Rightarrow> k)"

definition learnGridStart :: "nat \<Rightarrow> nat \<Rightarrow> int \<Rightarrow> gridStarts \<Rightarrow> gridStarts" where
  "learnGridStart segCount n k gs = (if k < 0 \<or> n \<ge> segCount then gs else if gs n = None then gs(n \<mapsto> k) else gs)"

type_synonym walkFn = "nat \<Rightarrow> (fragSample list \<times> int) result"

definition gridNeighbour :: "walkFn \<Rightarrow> nat \<Rightarrow> int list result" where
  "gridNeighbour walk m = bind_r (walk m) (\<lambda>(w, _). Inr (map fs_blockPtsMs w))"

text \<open>Where window \<open>n\<close> opens, learned on the way.\<close>

definition grid_open_at ::
  "(int \<Rightarrow> int) \<Rightarrow> nat \<Rightarrow> walkFn \<Rightarrow> nat \<Rightarrow> int list \<Rightarrow> gridStarts \<Rightarrow> (int \<times> gridStarts) result" where
  "grid_open_at slot segCount walk n w gs =
     (if gridStartAt gs n \<ge> 0 then Inr (gridStartAt gs n, gs)
      else bind_r (if n > 0 \<and> gridJitter slot w
                   then bind_r (gridNeighbour walk (n - 1)) (\<lambda>prev. Inr (if prev \<noteq> [] then gridColdEnd slot prev else -1))
                   else Inr (-1)) (\<lambda>prevEnd.
           let gs = learnGridStart segCount n (gridOpen slot w prevEnd) gs in Inr (gridStartAt gs n, gs)))"

text \<open>Where the window after it does.\<close>

definition grid_end_at ::
  "(int \<Rightarrow> int) \<Rightarrow> int list \<Rightarrow> walkFn \<Rightarrow> nat \<Rightarrow> int list \<Rightarrow> int \<Rightarrow> gridStarts \<Rightarrow> (int \<times> gridStarts) result" where
  "grid_end_at slot bounds walk n w nextPts gs =
     (if nextPts < 0 then Inr (-1, gs)
      else if gridStartAt gs (n + 1) \<ge> 0 then Inr (gridStartAt gs (n + 1), gs)
      else if n + 2 < length bounds \<and> nextPts \<ge> bounds ! (n + 2) then Inr (slot nextPts, gs)
      else bind_r (if gridColdEnd slot w > slot nextPts
                   then bind_r (gridNeighbour walk (n + 1)) (\<lambda>nxt.
                     Inr (if nxt \<noteq> [] then gridOpen slot nxt (gridColdEnd slot w) else slot nextPts))
                   else Inr (slot nextPts)) (\<lambda>e.
           Inr (e, learnGridStart (length bounds) (n + 1) e gs)))"

text \<open>What is learned before a read fails stays learned.\<close>

definition gridSpanFor ::
  "planTrack \<Rightarrow> int list \<Rightarrow> walkFn \<Rightarrow> nat \<Rightarrow> int list \<Rightarrow> int \<Rightarrow> gridStarts \<Rightarrow> (int \<times> int) result \<times> gridStarts" where
  "gridSpanFor pt bounds walk n w nextPts gs =
     (if pt_gridTS pt \<le> 0 \<or> w = [] then (Inr (-1, -1), gs)
      else let slot = plan_slot pt (pt_gridTS pt) in
        case grid_open_at slot (length bounds) walk n w gs of
          Inl e \<Rightarrow> (Inl e, gs)
        | Inr (open, gs) \<Rightarrow>
            (case grid_end_at slot bounds walk n w nextPts gs of
               Inl e \<Rightarrow> (Inl e, gs)
             | Inr (e, gs) \<Rightarrow> (Inr (open, e), gs)))"

definition timeWindow ::
  "(int list \<Rightarrow> int) \<Rightarrow> planTrack \<Rightarrow> int list \<Rightarrow> nat \<Rightarrow> fragSample list \<Rightarrow> int \<Rightarrow> int \<times> int \<Rightarrow> trackSegment" where
  "timeWindow lace pt bounds n w nextPts span =
     (let (out, base, hasCTS) = timeSegmentWindow lace w pt nextPts span in
      \<lparr>seg_trackID = pt_mp4ID pt,
       seg_baseDecodeTS = (if w = [] then emptyWindowTS (pt_timescale pt) (pt_firstPtsMs pt) (bounds ! n) (pt_durMediaTS pt) else base),
       seg_samples = out, seg_hasCTS = hasCTS, seg_dataLen = sum_list (map (uint \<circ> fs_size) w), seg_cenc = None\<rparr>)"

section \<open>A plan that serves requests\<close>

text \<open>One request for window \<open>n\<close>: the window read, its span found, its samples timed.\<close>

definition serve ::
  "(int list \<Rightarrow> int) \<Rightarrow> planTrack \<Rightarrow> int list \<Rightarrow> nat \<times> walkFn \<Rightarrow> gridStarts \<Rightarrow> trackSegment result \<times> gridStarts" where
  "serve lace pt bounds req gs =
     (let (n, walk) = req in
      case walk n of
        Inl e \<Rightarrow> (Inl e, gs)
      | Inr (w, nextPts) \<Rightarrow>
          (case gridSpanFor pt bounds walk n (map fs_blockPtsMs w) nextPts gs of
             (Inl e, gs) \<Rightarrow> (Inl e, gs)
           | (Inr span, gs) \<Rightarrow> (Inr (timeWindow lace pt bounds n w nextPts span), gs)))"

fun serve_all :: "(int list \<Rightarrow> int) \<Rightarrow> planTrack \<Rightarrow> int list \<Rightarrow> (nat \<times> walkFn) list \<Rightarrow> gridStarts \<Rightarrow> trackSegment result list" where
  "serve_all lace pt bounds [] gs = []"
| "serve_all lace pt bounds (r # rs) gs =
     (let (ans, gs) = serve lace pt bounds r gs in ans # serve_all lace pt bounds rs gs)"
section \<open>Lemmas on the full pass\<close>

lemma length_grid_dts: "ks \<noteq> [] \<Longrightarrow> length (grid_dts ks natural late e g) = length ks"
proof -
  assume "ks \<noteq> []"
  then have "step_back P (min late (length ks - 1)) < length ks" for P
    using step_back_le [of P "min late (length ks - 1)"] by (cases ks) auto
  then show ?thesis by (simp add: grid_dts_def Let_def less_imp_le)
qed

lemma length_gridTime: "bs \<noteq> [] \<Longrightarrow> length (gridTime slot g open e bs) = length bs"
proof -
  assume bs: "bs \<noteq> []"
  obtain ks natural late where fr: "gridFrames slot open bs = (ks, natural, late)" by (metis prod_cases3)
  have len: "length ks = length bs" "ks \<noteq> []" using gridFrames_indexes(1) [OF bs fr] bs by auto
  then have "length (grid_dts ks natural late x g) = length bs" for x using length_grid_dts by simp
  moreover have "Suc (length bs - Suc 0) = length bs" using bs by simp
  ultimately show ?thesis by (simp add: gridTime_def fr Let_def)
qed

lemma length_window_times: "map length (fst (window_times slot g ws)) = map (length \<circ> fst) ws"
proof (induction ws)
  case (Cons x ws)
  then show ?case by (cases x, cases "window_times slot g ws") (simp add: length_gridTime)
qed simp

text \<open>Where the first of some windows that holds a frame opens.\<close>

definition first_open :: "(int list \<times> int) list \<Rightarrow> int" where
  "first_open ws = (case filter (\<lambda>x. fst x \<noteq> []) ws of [] \<Rightarrow> -1 | x # _ \<Rightarrow> snd x)"

lemma window_times_end: "snd (window_times slot g ws) = first_open ws"
proof (induction ws)
  case (Cons x ws)
  then show ?case by (cases x, cases "window_times slot g ws") (simp add: first_open_def)
qed (simp add: first_open_def)

lemma window_times_nth:
  "n < length ws \<Longrightarrow> fst (window_times slot g ws) ! n =
     (if fst (ws ! n) = [] then [] else gridTime slot g (snd (ws ! n)) (first_open (drop (Suc n) ws)) (fst (ws ! n)))"
proof (induction ws arbitrary: n)
  case (Cons x ws)
  then show ?case
    using window_times_end [of slot g ws]
    by (cases x, cases "window_times slot g ws", cases n) simp_all
qed simp

lemma window_opens_nth:
  "n < length ws \<Longrightarrow> window_opens slot prev ws ! n =
     (if ws ! n = [] then 0
      else gridOpen slot (ws ! n) (if (prev # ws) ! n = [] then -1 else gridColdEnd slot ((prev # ws) ! n)))"
proof (induction ws arbitrary: prev n)
  case (Cons w ws)
  then show ?case by (cases n) simp_all
qed simp

lemma while_append: "list_all P xs \<Longrightarrow> us = [] \<or> \<not> P (hd us) \<Longrightarrow> takeWhile P (xs @ us) = xs \<and> dropWhile P (xs @ us) = us"
proof (induction xs)
  case Nil
  then show ?case by (cases us) simp_all
qed simp

lemma cut_windows_timed:
  "map length ts = map length (cut_windows bounds ss) \<Longrightarrow>
   cut_windows bounds (map2 set_time ss (concat ts) @ drop (length (concat ts)) ss) = map2 (map2 set_time) (cut_windows bounds ss) ts"
proof (induction bounds arbitrary: ss ts)
  case (Cons b bs)
  let ?in = "\<lambda>s. fs_blockPtsMs s < (case bs of [] \<Rightarrow> int64_max | e # _ \<Rightarrow> e)"
  let ?w = "takeWhile ?in ss" and ?rest = "dropWhile ?in ss"
  obtain t ts' where ts: "ts = t # ts'" "length t = length ?w" "map length ts' = map length (cut_windows bs ?rest)"
    using Cons.prems by (cases ts) (simp_all add: Let_def)
  have "map2 set_time ss (concat ts) = map2 set_time (?w @ ?rest) (t @ concat ts')" by (simp add: ts)
  also have "\<dots> = map2 set_time ?w t @ map2 set_time ?rest (concat ts')" using ts(2) by (simp del: takeWhile_dropWhile_id)
  finally have split: "map2 set_time ss (concat ts) @ drop (length (concat ts)) ss
      = map2 set_time ?w t @ (map2 set_time ?rest (concat ts') @ drop (length (concat ts')) ?rest)"
    using ts by (simp add: dropWhile_eq_drop add.commute)
  have blk: "fs_blockPtsMs (set_time s u) = fs_blockPtsMs s" for s u by (simp add: set_time_def)
  have all: "list_all ?in (map2 set_time ?w t)"
    using ts(2) by (auto simp: list_all_length blk) (metis nth_mem set_takeWhileD)
  have stop: "us = [] \<or> \<not> ?in (hd us)" if us: "us = map2 set_time rest (concat ts') @ drop (length (concat ts')) rest" "rest = ?rest" for us rest
  proof (cases rest)
    case Nil
    then show ?thesis using us(1) by simp
  next
    case (Cons r rs)
    then have "\<not> ?in r" using hd_dropWhile [of ?in ss] us(2) by simp
    then show ?thesis using us(1) Cons by (cases "concat ts'") (simp_all add: blk)
  qed
  define us where "us = map2 set_time ?rest (concat ts') @ drop (length (concat ts')) ?rest"
  have "takeWhile ?in (map2 set_time ?w t @ us) = map2 set_time ?w t" "dropWhile ?in (map2 set_time ?w t @ us) = us"
    using while_append [OF all stop [OF us_def refl]] by blast+
  then have "cut_windows (b # bs) (map2 set_time ?w t @ us) = map2 set_time ?w t # cut_windows bs us"
    by (simp only: cut_windows.simps(2) Let_def)
  moreover have "cut_windows bs us = map2 (map2 set_time) (cut_windows bs ?rest) ts'"
    unfolding us_def by (rule Cons.IH [OF ts(3)])
  moreover have "cut_windows (b # bs) ss = ?w # cut_windows bs ?rest" by (simp only: cut_windows.simps(2) Let_def)
  ultimately show ?case unfolding split us_def [symmetric] by (simp add: ts(1))
qed simp

lemma segments_nth:
  "n < length bs \<Longrightarrow> segments ft c bs ! n =
     (let w = cut_windows bs (drop c (ft_samples ft)) ! n in
      \<lparr>seg_trackID = ft_mp4ID ft,
       seg_baseDecodeTS = (if w \<noteq> [] then fs_dtsTS (hd w) else if ft_samples ft = [] then ft_durMediaTS ft
                           else emptyWindowTS (ft_timescale ft) (fs_ptsMs (hd (ft_samples ft))) (bs ! n) (ft_durMediaTS ft)),
       seg_samples = w, seg_hasCTS = windowHasCTS w, seg_dataLen = sum_list (map (uint \<circ> fs_size) w), seg_cenc = None\<rparr>)"
proof (induction bs arbitrary: c n)
  case (Cons b bs)
  let ?in = "\<lambda>s. fs_blockPtsMs s < (case bs of [] \<Rightarrow> int64_max | e # _ \<Rightarrow> e)"
  have "drop (c + length (takeWhile ?in (drop c (ft_samples ft)))) (ft_samples ft) = dropWhile ?in (drop c (ft_samples ft))"
    by (simp add: dropWhile_eq_drop add.commute)
  then show ?case using Cons by (cases n) (simp_all add: segmentWindow_def Let_def comp_def)
qed simp
section \<open>The windows a request meets\<close>

lemma cut_windows_drop:
  "n \<le> length bounds \<Longrightarrow> drop n (cut_windows bounds ss) = cut_windows (drop n bounds) (drop (length (concat (take n (cut_windows bounds ss)))) ss)"
proof (induction bounds arbitrary: ss n)
  case (Cons b bs)
  let ?in = "\<lambda>s. fs_blockPtsMs s < (case bs of [] \<Rightarrow> int64_max | e # _ \<Rightarrow> e)"
  have cut: "cut_windows (b # bs) ss = takeWhile ?in ss # cut_windows bs (dropWhile ?in ss)"
    by (simp only: cut_windows.simps(2) Let_def)
  show ?case
  proof (cases n)
    case (Suc m)
    then have "drop m (cut_windows bs (dropWhile ?in ss)) =
        cut_windows (drop m bs) (drop (length (concat (take m (cut_windows bs (dropWhile ?in ss))))) (dropWhile ?in ss))"
      using Cons by simp
    also have "drop (length (concat (take m (cut_windows bs (dropWhile ?in ss))))) (dropWhile ?in ss)
        = drop (length (concat (take n (cut_windows (b # bs) ss)))) ss"
      unfolding cut Suc by (simp add: dropWhile_eq_drop add.commute)
    finally show ?thesis unfolding cut Suc by (simp only: drop_Suc_Cons)
  qed simp
qed simp

text \<open>The next block lies in the next window, or past its end and the window is empty.\<close>

lemma next_window:
  assumes n: "Suc n < length bounds" and all: "list_all (\<lambda>s. fs_blockPtsMs s < int64_max) ss"
  shows "cut_windows bounds ss ! Suc n = [] \<longleftrightarrow>
     concat (drop (Suc n) (cut_windows bounds ss)) = [] \<or>
     Suc (Suc n) < length bounds \<and> bounds ! Suc (Suc n) \<le> fs_blockPtsMs (hd (concat (drop (Suc n) (cut_windows bounds ss))))"
proof -
  define rest where "rest = drop (length (concat (take (Suc n) (cut_windows bounds ss)))) ss"
  obtain b bs where bs: "drop (Suc n) bounds = b # bs" using Cons_nth_drop_Suc [OF n, symmetric] by blast
  have drop: "drop (Suc n) (cut_windows bounds ss) = cut_windows (b # bs) rest"
    using cut_windows_drop [of "Suc n" bounds ss] n by (simp add: rest_def bs [symmetric])
  let ?in = "\<lambda>s. fs_blockPtsMs s < (case bs of [] \<Rightarrow> int64_max | e # _ \<Rightarrow> e)"
  have "list_all (\<lambda>s. fs_blockPtsMs s < int64_max) rest" using all by (auto simp: rest_def list_all_iff dest: in_set_dropD)
  then have concat: "concat (drop (Suc n) (cut_windows bounds ss)) = rest" and below: "list_all (\<lambda>s. fs_blockPtsMs s < int64_max) rest"
    using cut_windows_all [of "b # bs" rest] by (simp_all add: drop)
  have "cut_windows bounds ss ! Suc n = hd (drop (Suc n) (cut_windows bounds ss))"
    using n by (simp add: hd_drop_conv_nth)
  then have nth: "cut_windows bounds ss ! Suc n = takeWhile ?in rest" unfolding drop by (simp add: Let_def)
  have e: "bs = [] \<longleftrightarrow> \<not> Suc (Suc n) < length bounds" "bs \<noteq> [] \<Longrightarrow> hd bs = bounds ! Suc (Suc n)"
  proof -
    have "bs = drop (Suc (Suc n)) bounds" using bs by (metis drop_Suc list.sel(3) tl_drop)
    then show "bs = [] \<longleftrightarrow> \<not> Suc (Suc n) < length bounds" "bs \<noteq> [] \<Longrightarrow> hd bs = bounds ! Suc (Suc n)"
      by (auto simp: hd_drop_conv_nth)
  qed
  show ?thesis
  proof (cases rest)
    case (Cons r rs)
    then have "takeWhile ?in rest = [] \<longleftrightarrow> \<not> ?in r" by simp
    moreover have "fs_blockPtsMs r < int64_max" using below Cons by simp
    ultimately show ?thesis unfolding nth concat using e Cons by (cases bs) auto
  qed (simp add: nth concat)
qed

section \<open>What the plan learns\<close>

text \<open>The full pass over a grid-timed track, and the plan of the same source.\<close>

definition opens_of :: "(int \<Rightarrow> int) \<Rightarrow> int list list \<Rightarrow> int list" where
  "opens_of slot ws = window_opens slot [] ws"

text \<open>Every opening kept is the full pass's.\<close>

definition learned :: "(int \<Rightarrow> int) \<Rightarrow> int list list \<Rightarrow> gridStarts \<Rightarrow> bool" where
  "learned slot ws gs \<longleftrightarrow> (\<forall>n k. gs n = Some k \<longrightarrow> n < length ws \<and> ws ! n \<noteq> [] \<and> k = opens_of slot ws ! n)"

text \<open>The time of the first block behind window \<open>n\<close>, -1 when there is none.\<close>

definition next_block :: "int list list \<Rightarrow> nat \<Rightarrow> int" where
  "next_block ws n = (case concat (drop (Suc n) ws) of [] \<Rightarrow> -1 | b # _ \<Rightarrow> b)"

lemma gridIndex_nonneg: "0 < g \<Longrightarrow> 0 \<le> gridIndex rel g"
proof -
  assume g: "0 < g"
  then have "0 \<le> g div 2" by simp
  then have "0 \<le> (rel + g div 2) div g" if "\<not> rel \<le> 0" using g that by (simp add: pos_imp_zdiv_nonneg_iff)
  then show ?thesis using g by (simp add: gridIndex_def)
qed

lemma gridOpen_cold: "(\<And>x. 0 \<le> slot x) \<Longrightarrow> gridOpen slot w (-1) = slot (hd w)"
  by (simp add: gridOpen_def Let_def) (smt (verit))

lemma gridOpen_early: "prevEnd \<le> slot (hd w) \<Longrightarrow> gridOpen slot w prevEnd = slot (hd w)"
  by (simp add: gridOpen_def Let_def)

lemma gridOpen_calm: "\<not> gridJitter slot w \<Longrightarrow> gridOpen slot w prevEnd = slot (hd w)"
  by (simp add: gridOpen_def Let_def)

lemma opens_of_nth:
  assumes "n < length ws" "ws ! n \<noteq> []"
  shows "opens_of slot ws ! n =
     gridOpen slot (ws ! n) (if n = 0 \<or> ws ! (n - 1) = [] then -1 else gridColdEnd slot (ws ! (n - 1)))"
  using window_opens_nth [OF assms(1), of slot "[]"] assms by (cases n) (simp_all add: opens_of_def)

lemma opens_of_nonneg:
  assumes "\<And>x. 0 \<le> slot x" "n < length ws" "ws ! n \<noteq> []"
  shows "0 \<le> opens_of slot ws ! n"
proof -
  have "0 \<le> gridOpen slot w p" for w p using assms(1) [of "hd w"] by (simp add: gridOpen_def Let_def)
  then show ?thesis by (simp add: opens_of_nth [OF assms(2,3)])
qed

lemma length_opens_of [simp]: "length (opens_of slot ws) = length ws"
  by (simp add: opens_of_def)

lemma learn_keeps:
  assumes "learned slot ws gs" "n < length ws \<Longrightarrow> ws ! n \<noteq> [] \<and> k = opens_of slot ws ! n"
  shows "learned slot ws (learnGridStart (length ws) n k gs)"
  using assms by (auto simp: learned_def learnGridStart_def)
section \<open>The spans of a request\<close>

text \<open>What a walk finds: the windows of the source and the block behind each, or an error.\<close>

definition right_walk :: "fragSample list list \<Rightarrow> walkFn \<Rightarrow> bool" where
  "right_walk ws walk \<longleftrightarrow> (\<forall>m < length ws. case walk m of Inl _ \<Rightarrow> True
     | Inr (w, b) \<Rightarrow> w = ws ! m \<and> b = next_block (map (map fs_blockPtsMs) ws) m)"

lemma right_walkD: "right_walk ws walk \<Longrightarrow> m < length ws \<Longrightarrow> walk m = Inr (w, b) \<Longrightarrow>
   w = ws ! m \<and> b = next_block (map (map fs_blockPtsMs) ws) m"
  by (auto simp: right_walk_def split: sum.splits dest: spec [of _ m])

lemma neighbour_right:
  "right_walk ws walk \<Longrightarrow> m < length ws \<Longrightarrow>
   gridNeighbour walk m = Inr (map (map fs_blockPtsMs) ws ! m) \<or> (\<exists>e. gridNeighbour walk m = Inl e \<and> walk m = Inl e)"
  by (cases "walk m") (auto simp: gridNeighbour_def dest: right_walkD)

lemma grid_open_right:
  assumes walk: "right_walk ws walk" and n: "n < length ws" "ws ! n \<noteq> []" and slot: "\<And>x. 0 \<le> slot x"
    and gs: "learned slot (map (map fs_blockPtsMs) ws) gs"
  defines "bs \<equiv> map (map fs_blockPtsMs) ws"
  shows "(\<exists>gs'. grid_open_at slot (length ws) walk n (bs ! n) gs = Inr (opens_of slot bs ! n, gs') \<and> learned slot bs gs') \<or>
         (\<exists>m e. grid_open_at slot (length ws) walk n (bs ! n) gs = Inl e \<and> walk m = Inl e)"
proof (cases "gs n")
  case (Some k)
  then have "k = opens_of slot bs ! n" using gs by (simp add: learned_def bs_def)
  moreover have "0 \<le> opens_of slot bs ! n" by (rule opens_of_nonneg [OF slot]) (use n in \<open>simp_all add: bs_def\<close>)
  ultimately show ?thesis using Some gs by (auto simp: grid_open_at_def gridStartAt_def bs_def)
next
  case None
  have bn: "n < length bs" "bs ! n \<noteq> []" using n by (simp_all add: bs_def)
  have pos: "0 \<le> opens_of slot bs ! n" by (rule opens_of_nonneg [OF slot bn])
  let ?learn = "learnGridStart (length ws) n (opens_of slot bs ! n) gs"
  have fin: "gridStartAt ?learn n = opens_of slot bs ! n" "learned slot bs ?learn"
    using pos n(1) None learn_keeps [of slot bs gs n "opens_of slot bs ! n"] gs bn(2)
    by (simp_all add: gridStartAt_def learnGridStart_def bs_def)
  show ?thesis
  proof (cases "n > 0 \<and> gridJitter slot (bs ! n)")
    case True
    then have "n - 1 < length ws" using n by simp
    from neighbour_right [OF walk this] show ?thesis
    proof
      assume "gridNeighbour walk (n - 1) = Inr (map (map fs_blockPtsMs) ws ! (n - 1))"
      then have nb: "gridNeighbour walk (n - 1) = Inr (bs ! (n - 1))" by (simp add: bs_def)
      have "gridOpen slot (bs ! n) (if bs ! (n - 1) \<noteq> [] then gridColdEnd slot (bs ! (n - 1)) else -1) = opens_of slot bs ! n"
        using opens_of_nth [OF bn] True by simp
      then have "bind_r (gridNeighbour walk (n - 1)) (\<lambda>prev. Inr (if prev \<noteq> [] then gridColdEnd slot prev else -1))
          = Inr (if bs ! (n - 1) \<noteq> [] then gridColdEnd slot (bs ! (n - 1)) else -1)"
        by (simp only: nb bind_r_simps)
      then have "grid_open_at slot (length ws) walk n (bs ! n) gs = Inr (gridStartAt ?learn n, ?learn)"
        using True None \<open>gridOpen slot (bs ! n) _ = _\<close> unfolding grid_open_at_def
        by (simp only: gridStartAt_def bind_r_simps Let_def if_True option.case simp_thms) simp
      then show ?thesis using fin by auto
    next
      assume "\<exists>e. gridNeighbour walk (n - 1) = Inl e \<and> walk (n - 1) = Inl e"
      then show ?thesis using True None by (auto simp: grid_open_at_def gridStartAt_def)
    qed
  next
    case False
    have "gridOpen slot (bs ! n) (-1) = opens_of slot bs ! n"
    proof (cases "n = 0")
      case True
      then show ?thesis using opens_of_nth [OF bn] by simp
    next
      case nz: False
      then have "\<not> gridJitter slot (bs ! n)" using False by simp
      then show ?thesis using opens_of_nth [OF bn, of slot] by (simp add: gridOpen_calm)
    qed
    then have "grid_open_at slot (length ws) walk n (bs ! n) gs = Inr (gridStartAt ?learn n, ?learn)"
      using False None by (cases "n = 0") (simp_all add: grid_open_at_def gridStartAt_def Let_def)
    then show ?thesis using fin by auto
  qed
qed

lemma first_open_zip:
  "length os = length ws \<Longrightarrow> first_open (zip ws os) = -1 \<and> concat ws = [] \<or>
   (\<exists>m < length ws. concat (take m ws) = [] \<and> ws ! m \<noteq> [] \<and> first_open (zip ws os) = os ! m)"
proof (induction ws arbitrary: os)
  case (Cons w ws)
  then obtain k os' where os: "os = k # os'" "length os' = length ws" by (cases os) auto
  show ?case
  proof (cases "w = []")
    case True
    then have skip: "first_open (zip (w # ws) os) = first_open (zip ws os')" by (simp add: first_open_def os)
    from Cons.IH [OF os(2)] show ?thesis
    proof (elim disjE exE conjE)
      fix m assume "m < length ws" "concat (take m ws) = []" "ws ! m \<noteq> []" "first_open (zip ws os') = os' ! m"
      then have "Suc m < length (w # ws) \<and> concat (take (Suc m) (w # ws)) = [] \<and> (w # ws) ! Suc m \<noteq> [] \<and>
          first_open (zip (w # ws) os) = os ! Suc m"
        using True skip by (simp add: os)
      then show ?thesis by blast
    qed (use True skip in simp)
  next
    case False
    then show ?thesis by (auto simp: first_open_def os intro!: exI [of _ 0])
  qed
qed (simp add: first_open_def)

lemma next_block_first:
  "concat (take m us) = [] \<Longrightarrow> m < length us \<Longrightarrow> us ! m \<noteq> [] \<Longrightarrow> concat us = us ! m @ concat (drop (Suc m) us)"
proof (induction us arbitrary: m)
  case (Cons u us)
  then show ?case by (cases m) simp_all
qed simp

lemma grid_end_right:
  assumes walk: "right_walk ws walk" and n: "n < length ws" "ws ! n \<noteq> []" and slot: "\<And>x. 0 \<le> slot x"
    and gs: "learned slot (map (map fs_blockPtsMs) ws) gs"
    and lens: "length ws = length bounds"
    and after: "\<And>n. Suc n < length bounds \<Longrightarrow> ws ! Suc n = [] \<longleftrightarrow>
       next_block (map (map fs_blockPtsMs) ws) n < 0 \<or> Suc (Suc n) < length bounds \<and> bounds ! Suc (Suc n) \<le> next_block (map (map fs_blockPtsMs) ws) n"
    and blocks: "\<forall>w \<in> set ws. \<forall>s \<in> set w. 0 \<le> fs_blockPtsMs s"
  defines "bs \<equiv> map (map fs_blockPtsMs) ws"
  defines "e \<equiv> first_open (drop (Suc n) (zip bs (opens_of slot bs)))"
  shows "(\<exists>gs'. grid_end_at slot bounds walk n (bs ! n) (next_block bs n) gs = Inr (e, gs') \<and> learned slot bs gs') \<or>
         (\<exists>m e. grid_end_at slot bounds walk n (bs ! n) (next_block bs n) gs = Inl e \<and> walk m = Inl e)"
proof -
  let ?us = "drop (Suc n) bs" and ?nb = "next_block bs n"
  have e: "e = first_open (zip ?us (drop (Suc n) (opens_of slot bs)))" by (simp add: e_def drop_zip)
  have lenb: "length bs = length bounds" by (simp add: bs_def lens)
  from first_open_zip [of "drop (Suc n) (opens_of slot bs)" ?us] consider
      "e = -1" "concat ?us = []"
    | m where "m < length ?us" "concat (take m ?us) = []" "?us ! m \<noteq> []" "e = drop (Suc n) (opens_of slot bs) ! m"
    by (auto simp: e)
  then show ?thesis
  proof cases
    case 1
    then have "?nb = -1" by (simp only: next_block_def list.case)
    then show ?thesis using 1 gs by (simp add: grid_end_at_def bs_def)
  next
    case 2
    let ?w = "bs ! (Suc n + m)"
    have m: "Suc n + m < length bs" "?w \<noteq> []" "e = opens_of slot bs ! (Suc n + m)" using 2 by simp_all
    have "concat ?us = ?w @ concat (drop (Suc m) ?us)" using next_block_first [OF 2(2,1,3)] 2(1) by simp
    then have nb: "?nb = hd ?w" using m(2) by (cases ?w) (simp_all add: next_block_def)
    have "?w \<in> set bs" using m(1) by simp
    then have "0 \<le> hd ?w" using m(2) blocks unfolding bs_def by (metis (no_types, lifting) hd_in_set imageE list.set_map)
    then have pos: "\<not> ?nb < 0" by (simp add: nb)
    have wn: "ws ! Suc n = [] \<longleftrightarrow> bs ! Suc n = []" using m(1) by (simp add: bs_def)
    have sn: "Suc n < length bounds" using m(1) lenb by simp
    note nx = after [OF sn, folded bs_def, unfolded wn]
    show ?thesis
    proof (cases "bs ! Suc n = []")
      case True
      then have late: "n + 2 < length bounds \<and> bounds ! (n + 2) \<le> ?nb" using nx pos by simp
      have "m \<noteq> 0" using True m(2) by (cases m) simp_all
      then obtain m' where m': "m = Suc m'" by (cases m) simp_all
      have "?us ! m' \<in> set (take m ?us)" using 2(1) m' by (auto simp: in_set_conv_nth intro!: exI [of _ m'])
      then have "bs ! (Suc n + m') = []" using 2(1,2) m' by simp
      then have "e = slot ?nb" using opens_of_nth [of "Suc n + m" bs slot] m by (simp add: m' nb gridOpen_cold slot)
      moreover have "gridStartAt gs (n + 1) < 0"
        using gs True by (auto simp: gridStartAt_def learned_def bs_def split: option.split)
      ultimately show ?thesis using late pos gs by (simp add: grid_end_at_def bs_def)
    next
      case False
      have "m = 0"
      proof (rule ccontr)
        assume "m \<noteq> 0"
        then have "?us ! 0 \<in> set (take m ?us)" using 2(1) by (auto simp: in_set_conv_nth intro!: exI [of _ 0])
        then show False using 2(2) False sn lenb by simp
      qed
      then have eo: "e = opens_of slot bs ! (Suc n)" and nb: "?nb = hd (bs ! Suc n)" using m nb by simp_all
      have open_eq: "e = gridOpen slot (bs ! Suc n) (gridColdEnd slot (bs ! n))"
        using opens_of_nth [of "Suc n" bs slot] False sn lenb n eo by (simp add: bs_def)
      have near: "\<not> (n + 2 < length bounds \<and> bounds ! (n + 2) \<le> ?nb)" using nx False pos by simp
      have "0 \<le> e" unfolding eo by (rule opens_of_nonneg [OF slot]) (use False sn lenb in simp_all)
      have learn: "learned slot bs (learnGridStart (length bounds) (n + 1) e gs)"
        unfolding lenb [symmetric] by (rule learn_keeps) (use gs [folded bs_def] False eo in simp_all)
      show ?thesis
      proof (cases "gs (n + 1)")
        case (Some k)
        then have "k = e" using gs eo by (auto simp: learned_def bs_def)
        then show ?thesis using Some pos gs \<open>0 \<le> e\<close> by (auto simp: grid_end_at_def gridStartAt_def bs_def)
      next
        case None
        have step: "grid_end_at slot bounds walk n (bs ! n) ?nb gs =
            bind_r (if gridColdEnd slot (bs ! n) > slot ?nb
                    then bind_r (gridNeighbour walk (n + 1)) (\<lambda>nxt.
                      Inr (if nxt \<noteq> [] then gridOpen slot nxt (gridColdEnd slot (bs ! n)) else slot ?nb))
                    else Inr (slot ?nb)) (\<lambda>e. Inr (e, learnGridStart (length bounds) (n + 1) e gs))"
          using None pos near by (auto simp: grid_end_at_def gridStartAt_def)
        show ?thesis
        proof (cases "gridColdEnd slot (bs ! n) > slot ?nb")
          case True
          have "n + 1 < length ws" using sn lens by simp
          from neighbour_right [OF walk this] show ?thesis
          proof (elim disjE exE conjE)
            assume "gridNeighbour walk (n + 1) = Inr (map (map fs_blockPtsMs) ws ! (n + 1))"
            then have "gridNeighbour walk (n + 1) = Inr (bs ! Suc n)" by (simp add: bs_def)
            then show ?thesis unfolding step using True False open_eq learn by simp
          next
            fix x assume "gridNeighbour walk (n + 1) = Inl x" "walk (n + 1) = Inl x"
            then show ?thesis unfolding step using True by auto
          qed
        next
          case False
          then have "e = slot ?nb" unfolding open_eq nb by (intro gridOpen_early) simp
          then show ?thesis unfolding step using False learn by simp
        qed
      qed
    qed
  qed
qed

section \<open>The plan serves the full pass's segments\<close>

text \<open>A grid-timed source \<open>ss\<close>, undamaged, as the full pass and as the plan hold it.\<close>

definition planned :: "fragTrack \<Rightarrow> planTrack \<Rightarrow> fragSample list \<Rightarrow> int list \<Rightarrow> bool" where
  "planned ft pt ss bounds \<longleftrightarrow> ss \<noteq> [] \<and> bounds \<noteq> [] \<and> 0 < pt_gridTS pt \<and>
     list_all (\<lambda>s. 0 \<le> fs_blockPtsMs s \<and> fs_blockPtsMs s < int64_max \<and> \<not> fs_cut s) ss \<and>
     pt_firstPtsMs pt = fs_blockPtsMs (hd ss) \<and> pt_firstPtsMs pt = fs_ptsMs (hd ss) \<and>
     pt_mp4ID pt = ft_mp4ID ft \<and> pt_timescale pt = ft_timescale ft \<and> pt_durMediaTS pt = ft_durMediaTS ft \<and>
     ft_samples ft = gridTimeWindows ss bounds (ft_timescale ft) (pt_gridTS pt)"

lemma set_time_simps [simp]:
  "fs_blockPtsMs (set_time s u) = fs_blockPtsMs s" "fs_ptsMs (set_time s u) = fs_ptsMs s"
  "fs_cut (set_time s u) = fs_cut s" "fs_size (set_time s u) = fs_size s" "fs_ctsTS (set_time s u) = 0"
  by (simp_all add: set_time_def)

lemma map_set_time: "length us = length ss \<Longrightarrow> map fs_size (map2 set_time ss us) = map fs_size ss"
  by (induction ss us rule: list_induct2') simp_all

lemma timed_no_cts: "\<not> windowHasCTS (map2 set_time ss us)"
  by (auto simp: windowHasCTS_def list_ex_iff)

lemma next_block_negative:
  assumes "\<forall>w \<in> set ws. \<forall>s \<in> set w. 0 \<le> fs_blockPtsMs s"
  shows "next_block (map (map fs_blockPtsMs) ws) n < 0 \<longleftrightarrow> concat (drop (Suc n) ws) = []"
    and "concat (drop (Suc n) ws) \<noteq> [] \<Longrightarrow> next_block (map (map fs_blockPtsMs) ws) n = fs_blockPtsMs (hd (concat (drop (Suc n) ws)))"
proof -
  define r where "r = concat (drop (Suc n) ws)"
  have nb: "next_block (map (map fs_blockPtsMs) ws) n = (case map fs_blockPtsMs r of [] \<Rightarrow> -1 | b # _ \<Rightarrow> b)"
    by (simp add: next_block_def r_def drop_map map_concat)
  have "\<forall>s \<in> set r. 0 \<le> fs_blockPtsMs s" using assms by (auto simp: r_def dest: in_set_dropD)
  then have "next_block (map (map fs_blockPtsMs) ws) n < 0 \<longleftrightarrow> r = []" unfolding nb by (cases r) (simp_all add: not_less)
  then show "next_block (map (map fs_blockPtsMs) ws) n < 0 \<longleftrightarrow> concat (drop (Suc n) ws) = []" by (simp only: r_def)
  show "next_block (map (map fs_blockPtsMs) ws) n = fs_blockPtsMs (hd (concat (drop (Suc n) ws)))"
    if "concat (drop (Suc n) ws) \<noteq> []"
    using that unfolding nb r_def [symmetric] by (cases r) simp_all
qed

lemma span_right:
  assumes pl: "planned ft pt ss bounds" and walk: "right_walk (cut_windows bounds ss) walk" and n: "n < length bounds"
    and w: "w = cut_windows bounds ss ! n" "w \<noteq> []"
    and gs: "learned (plan_slot pt (pt_gridTS pt)) (map (map fs_blockPtsMs) (cut_windows bounds ss)) gs"
  defines "slot \<equiv> plan_slot pt (pt_gridTS pt)"
  defines "bs \<equiv> map (map fs_blockPtsMs) (cut_windows bounds ss)"
  shows "\<exists>gs'. learned slot bs gs' \<and>
     (gridSpanFor pt bounds walk n (map fs_blockPtsMs w) (next_block bs n) gs =
        (Inr (opens_of slot bs ! n, first_open (drop (Suc n) (zip bs (opens_of slot bs)))), gs') \<or>
      (\<exists>m e. gridSpanFor pt bounds walk n (map fs_blockPtsMs w) (next_block bs n) gs = (Inl e, gs') \<and> walk m = Inl e))"
proof -
  let ?ws = "cut_windows bounds ss"
  have len: "length ?ws = length bounds" by simp
  have pos: "0 \<le> slot x" for x using pl by (simp add: slot_def plan_slot_def gridIndex_nonneg planned_def)
  have all: "concat ?ws = ss" "list_all (\<lambda>s. fs_blockPtsMs s < int64_max) ss"
    using pl cut_windows_all [of bounds ss] by (simp_all add: planned_def list_all_iff)
  have "\<forall>s \<in> set (concat ?ws). 0 \<le> fs_blockPtsMs s" unfolding all(1) using pl by (simp add: planned_def list_all_iff)
  then have nonneg: "\<forall>w \<in> set ?ws. \<forall>s \<in> set w. 0 \<le> fs_blockPtsMs s" by simp
  have nxt: "?ws ! Suc m = [] \<longleftrightarrow> next_block (map (map fs_blockPtsMs) ?ws) m < 0 \<or>
      Suc (Suc m) < length bounds \<and> bounds ! Suc (Suc m) \<le> next_block (map (map fs_blockPtsMs) ?ws) m"
    if "Suc m < length bounds" for m
  proof (cases "concat (drop (Suc m) ?ws) = []")
    case True
    then show ?thesis using next_window [OF that all(2)] next_block_negative(1) [OF nonneg, of m] by blast
  next
    case False
    note eq = next_block_negative(2) [OF nonneg False]
    show ?thesis unfolding next_window [OF that all(2)] eq using next_block_negative(1) [OF nonneg, of m] unfolding eq by blast
  qed
  have n': "n < length ?ws" "?ws ! n \<noteq> []" using n w by simp_all
  have bn: "map fs_blockPtsMs w = bs ! n" using n w by (simp add: bs_def)
  have head: "\<not> (pt_gridTS pt \<le> 0 \<or> map fs_blockPtsMs w = [])" using pl w by (simp add: planned_def)
  from grid_open_right [OF walk n' pos gs [folded slot_def]] show ?thesis
    unfolding bs_def [symmetric]
  proof (elim disjE exE conjE)
    fix gs' assume op: "grid_open_at slot (length ?ws) walk n (bs ! n) gs = Inr (opens_of slot bs ! n, gs')" "learned slot bs gs'"
    from grid_end_right [OF walk n' pos op(2) [unfolded bs_def] len nxt nonneg] show ?thesis
      unfolding bs_def [symmetric]
      using head op by (auto simp: gridSpanFor_def Let_def slot_def [symmetric] bn)
  next
    fix m e assume "grid_open_at slot (length ?ws) walk n (bs ! n) gs = Inl e" "walk m = Inl e"
    then show ?thesis using head gs by (auto simp: gridSpanFor_def Let_def slot_def [symmetric] bn bs_def)
  qed
qed

text \<open>A window of the full pass, timed.\<close>

lemma full_window:
  assumes pl: "planned ft pt ss bounds" and n: "n < length bounds"
  defines "slot \<equiv> plan_slot pt (pt_gridTS pt)"
  defines "bs \<equiv> map (map fs_blockPtsMs) (cut_windows bounds ss)"
  shows "cut_windows bounds (ft_samples ft) ! n =
     map2 set_time (cut_windows bounds ss ! n)
       (if bs ! n = [] then [] else
        gridTime slot (pt_gridTS pt) (opens_of slot bs ! n) (first_open (drop (Suc n) (zip bs (opens_of slot bs)))) (bs ! n))"
proof -
  define ts where "ts = fst (window_times slot (pt_gridTS pt) (zip bs (opens_of slot bs)))"
  have len: "length bs = length bounds" by (simp add: bs_def)
  have "ft_samples ft = gridTimeWindows ss bounds (pt_timescale pt) (pt_gridTS pt)" using pl by (simp add: planned_def)
  moreover have "slot = (\<lambda>ms. gridIndex (tsScale (pt_timescale pt) ms - tsScale (pt_timescale pt) (fs_blockPtsMs (hd ss))) (pt_gridTS pt))"
    using pl by (simp add: slot_def plan_slot_def planned_def fun_eq_iff)
  ultimately have samples: "ft_samples ft = map2 set_time ss (concat ts) @ drop (length (concat ts)) ss"
    by (simp add: gridTimeWindows_def Let_def ts_def bs_def opens_of_def)
  have "map length ts = map length (map fst (zip bs (opens_of slot bs)))"
    unfolding ts_def length_window_times map_map ..
  also have "\<dots> = map length (cut_windows bounds ss)" by (simp add: bs_def)
  finally have lens: "map length ts = map length (cut_windows bounds ss)" .
  then have "length ts = length bounds" by (metis length_map length_cut_windows)
  then have "cut_windows bounds (ft_samples ft) ! n = map2 set_time (cut_windows bounds ss ! n) (ts ! n)"
    using n unfolding samples cut_windows_timed [OF lens] by simp
  moreover have "ts ! n = (if bs ! n = [] then [] else
      gridTime slot (pt_gridTS pt) (opens_of slot bs ! n) (first_open (drop (Suc n) (zip bs (opens_of slot bs)))) (bs ! n))"
    using window_times_nth [of n "zip bs (opens_of slot bs)" slot "pt_gridTS pt"] n len by (simp add: ts_def)
  ultimately show ?thesis by simp
qed

lemma window_served:
  assumes pl: "planned ft pt ss bounds" and n: "n < length bounds" and w: "w = cut_windows bounds ss ! n"
  defines "slot \<equiv> plan_slot pt (pt_gridTS pt)"
  defines "bs \<equiv> map (map fs_blockPtsMs) (cut_windows bounds ss)"
  assumes sp: "w \<noteq> [] \<Longrightarrow> sp = (opens_of slot bs ! n, first_open (drop (Suc n) (zip bs (opens_of slot bs))))"
    and nxt: "w \<noteq> [] \<Longrightarrow> nextPts \<ge> 0 \<Longrightarrow> 0 \<le> snd sp"
  shows "timeWindow lace pt bounds n w nextPts sp = segments ft 0 bounds ! n"
proof -
  have bn: "bs ! n = map fs_blockPtsMs w" using n w by (simp add: bs_def)
  note full = full_window [OF pl n, folded slot_def bs_def, folded w]
  have hd_ft: "ft_samples ft \<noteq> [] \<and> fs_ptsMs (hd (ft_samples ft)) = pt_firstPtsMs pt"
  proof -
    have "gridTimeWindows ss bounds mts g \<noteq> [] \<and> fs_ptsMs (hd (gridTimeWindows ss bounds mts g)) = fs_ptsMs (hd ss)" if "ss \<noteq> []" for mts g
    proof -
      have "map2 set_time ss ts @ drop (length ts) ss \<noteq> [] \<and> fs_ptsMs (hd (map2 set_time ss ts @ drop (length ts) ss)) = fs_ptsMs (hd ss)" for ts
        using that by (cases ss; cases ts) simp_all
      then show ?thesis unfolding gridTimeWindows_def Let_def by blast
    qed
    then show ?thesis using pl by (simp add: planned_def)
  qed
  show ?thesis
  proof (cases "w = []")
    case True
    then show ?thesis using full hd_ft pl
      by (simp add: segments_nth [OF n] timeWindow_def timeSegmentWindow_def Let_def bn planned_def windowHasCTS_def)
  next
    case False
    define ts where "ts = gridTime slot (pt_gridTS pt) (fst sp) (snd sp) (bs ! n)"
    define out where "out = map2 set_time w ts"
    have fw: "cut_windows bounds (ft_samples ft) ! n = out" using full sp [OF False] False by (simp add: bn out_def ts_def)
    have len: "length ts = length w" using False by (simp add: ts_def bn length_gridTime)
    have "\<forall>s \<in> set w. \<not> fs_cut s"
    proof -
      have "\<forall>s \<in> set (concat (cut_windows bounds ss)). \<not> fs_cut s"
        using pl cut_windows_all [of bounds ss] by (simp add: planned_def list_all_iff)
      then show ?thesis using w n by (metis UN_I length_cut_windows nth_mem set_concat)
    qed
    then have nocut: "map (\<lambda>s. if fs_cut s then s\<lparr>fs_durTS := pt_gridTS pt\<rparr> else s) out = out"
      using len by (auto simp: out_def intro!: map_idI dest: set_zip_leftD)
    have g: "0 < pt_gridTS pt" using pl by (simp add: planned_def)
    then have "pt_gridTS pt \<noteq> gridSpread" by (simp add: gridSpread_def)
    then have frame: "(if pt_gridTS pt = 0 \<and> pt_audio pt then lace (bs ! n) else pt_gridTS pt) = pt_gridTS pt"
      and kind: "pt_gridTS pt \<noteq> gridSpread" "0 < pt_gridTS pt"
      using g by simp_all
    have e: "(if snd sp < 0 \<and> nextPts \<ge> 0 then slot nextPts else snd sp) = snd sp" using nxt [OF False] by auto
    have "timeSegmentWindow lace w pt nextPts sp = (out, fs_dtsTS (hd out), False)"
      unfolding timeSegmentWindow_def Let_def bn [symmetric] frame
      unfolding slot_def [symmetric] e ts_def [symmetric]
      unfolding out_def [symmetric] nocut
      using False kind by (simp only: if_False if_True)
    moreover have "sum_list (map (uint \<circ> fs_size) out) = sum_list (map (uint \<circ> fs_size) w)"
      using map_set_time [OF len] by (simp add: out_def flip: map_map)
    moreover have "out \<noteq> []" using len False by (auto simp: out_def)
    moreover have "\<not> windowHasCTS out" unfolding out_def by (rule timed_no_cts)
    moreover have "pt_mp4ID pt = ft_mp4ID ft" using pl by (simp add: planned_def)
    ultimately show ?thesis using False by (simp add: segments_nth [OF n] fw timeWindow_def Let_def)
  qed
qed

lemma next_block_opens:
  assumes "\<And>x. 0 \<le> slot x" "next_block bs n \<ge> 0"
  shows "0 \<le> first_open (drop (Suc n) (zip bs (opens_of slot bs)))"
proof -
  have "first_open (zip (drop (Suc n) bs) (drop (Suc n) (opens_of slot bs))) = -1 \<and> concat (drop (Suc n) bs) = [] \<or>
    (\<exists>m < length (drop (Suc n) bs). concat (take m (drop (Suc n) bs)) = [] \<and> drop (Suc n) bs ! m \<noteq> [] \<and>
      first_open (zip (drop (Suc n) bs) (drop (Suc n) (opens_of slot bs))) = drop (Suc n) (opens_of slot bs) ! m)"
    by (rule first_open_zip) simp
  then show ?thesis
  proof (elim disjE exE conjE)
    assume "concat (drop (Suc n) bs) = []"
    then have "next_block bs n = -1" by (simp only: next_block_def list.case)
    then show ?thesis using assms(2) by simp
  next
    fix m assume m: "m < length (drop (Suc n) bs)" "drop (Suc n) bs ! m \<noteq> []"
      and first: "first_open (zip (drop (Suc n) bs) (drop (Suc n) (opens_of slot bs))) = drop (Suc n) (opens_of slot bs) ! m"
    have "0 \<le> opens_of slot bs ! (Suc n + m)" by (rule opens_of_nonneg) (use assms(1) m in simp_all)
    then show ?thesis using m by (simp add: drop_zip first)
  qed
qed

lemma serve_right:
  assumes pl: "planned ft pt ss bounds" and walk: "right_walk (cut_windows bounds ss) walk" and n: "n < length bounds"
    and gs: "learned (plan_slot pt (pt_gridTS pt)) (map (map fs_blockPtsMs) (cut_windows bounds ss)) gs"
  shows "\<exists>ans gs'. serve lace pt bounds (n, walk) gs = (ans, gs') \<and>
     learned (plan_slot pt (pt_gridTS pt)) (map (map fs_blockPtsMs) (cut_windows bounds ss)) gs' \<and>
     (ans = Inr (segments ft 0 bounds ! n) \<or> (\<exists>m e. ans = Inl e \<and> walk m = Inl e))"
proof (cases "walk n")
  case (Inl e)
  then show ?thesis using gs by (auto simp: serve_def)
next
  case (Inr r)
  let ?slot = "plan_slot pt (pt_gridTS pt)" and ?bs = "map (map fs_blockPtsMs) (cut_windows bounds ss)"
  obtain w b where wb: "walk n = Inr (w, b)" using Inr by (cases r) auto
  have w: "w = cut_windows bounds ss ! n" and b: "b = next_block ?bs n"
    using right_walkD [OF walk _ wb] n by simp_all
  note wn = wb [unfolded b]
  have pos: "0 \<le> ?slot x" for x using pl by (simp add: plan_slot_def gridIndex_nonneg planned_def)
  show ?thesis
  proof (cases "w = []")
    case True
    then have "gridSpanFor pt bounds walk n (map fs_blockPtsMs w) (next_block ?bs n) gs = (Inr (-1, -1), gs)"
      by (simp add: gridSpanFor_def)
    moreover have "timeWindow lace pt bounds n w (next_block ?bs n) (-1, -1) = segments ft 0 bounds ! n"
      by (rule window_served [OF pl n w]) (use True in simp_all)
    ultimately show ?thesis using gs wn by (simp add: serve_def)
  next
    case False
    from span_right [OF pl walk n w False gs] obtain gs' where gs': "learned ?slot ?bs gs'"
      and sp: "gridSpanFor pt bounds walk n (map fs_blockPtsMs w) (next_block ?bs n) gs =
          (Inr (opens_of ?slot ?bs ! n, first_open (drop (Suc n) (zip ?bs (opens_of ?slot ?bs)))), gs') \<or>
        (\<exists>m e. gridSpanFor pt bounds walk n (map fs_blockPtsMs w) (next_block ?bs n) gs = (Inl e, gs') \<and> walk m = Inl e)"
      by blast
    have "timeWindow lace pt bounds n w (next_block ?bs n) (opens_of ?slot ?bs ! n, first_open (drop (Suc n) (zip ?bs (opens_of ?slot ?bs))))
        = segments ft 0 bounds ! n"
      by (rule window_served [OF pl n w]) (use next_block_opens [OF pos] in simp_all)
    then show ?thesis using sp gs' wn by (auto simp: serve_def)
  qed
qed

text \<open>C6.
  The on-demand plan serves what the full pass writes.  Over a grid-timed, undamaged track, whatever windows
  are asked for, in whatever order and however often, and whichever reads of the source fail: each answer is the
  very segment \<^verbatim>\<open>writeSegments\<close> cuts from the track timed as a whole, or the error of a failed read.  The
  openings kept between requests, learned from a neighbour read or not, never change an answer.\<close>
theorem on_demand_segments:
  assumes "planned ft pt ss bounds"
    and "list_all (\<lambda>(n, walk). n < length bounds \<and> right_walk (cut_windows bounds ss) walk) reqs"
  shows "list_all2 (\<lambda>(n, walk) ans. ans = Inr (segments ft 0 bounds ! n) \<or> (\<exists>m e. ans = Inl e \<and> walk m = Inl e))
    reqs (serve_all lace pt bounds reqs Map.empty)"
proof -
  have "list_all2 (\<lambda>(n, walk) ans. ans = Inr (segments ft 0 bounds ! n) \<or> (\<exists>m e. ans = Inl e \<and> walk m = Inl e))
      reqs (serve_all lace pt bounds reqs gs)"
    if "learned (plan_slot pt (pt_gridTS pt)) (map (map fs_blockPtsMs) (cut_windows bounds ss)) gs" for gs
    using assms(2) that
  proof (induction reqs arbitrary: gs)
    case (Cons r reqs)
    obtain n walk where r: "r = (n, walk)" by (cases r)
    have "right_walk (cut_windows bounds ss) walk" "n < length bounds" using Cons.prems r by simp_all
    from serve_right [OF assms(1) this Cons.prems(2)] obtain ans gs' where ans: "serve lace pt bounds (n, walk) gs = (ans, gs')"
      "learned (plan_slot pt (pt_gridTS pt)) (map (map fs_blockPtsMs) (cut_windows bounds ss)) gs'"
      "ans = Inr (segments ft 0 bounds ! n) \<or> (\<exists>m e. ans = Inl e \<and> walk m = Inl e)" by blast
    then show ?case using Cons.IH [OF _ ans(2)] Cons.prems(1) by (simp add: r Let_def)
  qed simp
  then show ?thesis by (simp add: learned_def)
qed

text \<open>Five frames whose second window is stored a slot early: asked for first, it opens where the first ends.\<close>

definition ex_laced :: "fragSample list" where
  "ex_laced = map (\<lambda>(b, sz). \<lparr>fs_size = sz, fs_ptsMs = b, fs_blockPtsMs = b, fs_sync = True,
     fs_dtsTS = 0, fs_durTS = 0, fs_ctsTS = 0, fs_cut = False, fs_srcOff = 0\<rparr>) [(0, 7), (0, 8), (0, 9), (10, 5), (41, 6)]"

definition ex_laced_track :: fragTrack where
  "ex_laced_track = \<lparr>ft_mp4ID = 1, ft_timescale = 1000, ft_samples = gridTimeWindows ex_laced [0, 10] 1000 10, ft_durMediaTS = 50\<rparr>"

definition ex_laced_plan :: planTrack where
  "ex_laced_plan = \<lparr>pt_timescale = 1000, pt_audio = True, pt_mp4ID = 1, pt_firstPtsMs = 0, pt_lastDurTS = 10, pt_laceSecondMs = 0,
     pt_laceFirstFrames = 0, pt_gridTS = 10, pt_durMediaTS = 50, pt_ctsShiftTS = 0\<rparr>"

definition ex_walk :: walkFn where
  "ex_walk m = (if m = 0 then Inr (take 3 ex_laced, 10) else Inr (drop 3 ex_laced, -1))"

theorem on_demand_segments_witness:
  "serve_all (\<lambda>_. 0) ex_laced_plan [0, 10] [(1, ex_walk), (0, ex_walk)] Map.empty =
     [Inr (segments ex_laced_track 0 [0, 10] ! 1), Inr (segments ex_laced_track 0 [0, 10] ! 0)]
   \<and> map (\<lambda>s. (seg_baseDecodeTS s, map fs_durTS (seg_samples s))) (segments ex_laced_track 0 [0, 10]) = [(0, [10, 10, 10]), (30, [10, 10])]"
proof
  have pl: "planned ex_laced_track ex_laced_plan ex_laced [0, 10]"
    by (simp add: planned_def ex_laced_track_def ex_laced_plan_def ex_laced_def int64_max_def)
  have cut: "cut_windows [0, 10] ex_laced = [take 3 ex_laced, drop 3 ex_laced]"
    by (simp add: ex_laced_def int64_max_def)
  have walk: "right_walk (cut_windows [0, 10] ex_laced) ex_walk"
    unfolding cut right_walk_def by (simp add: ex_walk_def next_block_def ex_laced_def less_Suc_eq)
  have "list_all2 (\<lambda>(n, walk) ans. ans = Inr (segments ex_laced_track 0 [0, 10] ! n) \<or> (\<exists>m e. ans = Inl e \<and> walk m = Inl e))
    [(1, ex_walk), (0, ex_walk)] (serve_all (\<lambda>_. 0) ex_laced_plan [0, 10] [(1, ex_walk), (0, ex_walk)] Map.empty)"
    by (rule on_demand_segments [OF pl]) (use walk in simp)
  moreover have "ex_walk m \<noteq> Inl e" for m e by (simp add: ex_walk_def)
  ultimately show "serve_all (\<lambda>_. 0) ex_laced_plan [0, 10] [(1, ex_walk), (0, ex_walk)] Map.empty =
     [Inr (segments ex_laced_track 0 [0, 10] ! 1), Inr (segments ex_laced_track 0 [0, 10] ! 0)]"
    by (auto simp: list_all2_Cons1)
  show "map (\<lambda>s. (seg_baseDecodeTS s, map fs_durTS (seg_samples s))) (segments ex_laced_track 0 [0, 10]) = [(0, [10, 10, 10]), (30, [10, 10])]"
    by code_simp
qed

end
