(* ===== verification/Varint.thy ===== *)
theory Varint
  imports Prelude
begin

text \<open>
  The variable-length integers of \<^verbatim>\<open>encoding/binary\<close> and the zigzag form, as \<^verbatim>\<open>mp4/tablecodec.go\<close> and
  \<^verbatim>\<open>mp4/mp4plantable.go\<close> use them to pack sample tables, with the interface between the writer of a
  value and its reader.  A signed integer is the word of its two's complement; a Go panic is \<open>None\<close>.
\<close>

type_synonym i64 = "64 word"
type_synonym i32 = "32 word"

section \<open>The interface of a packed value\<close>

text \<open>
  A writer appends the bytes of a value; its reader takes them off the front of a buffer and leaves the
  rest.  The length of what was written may depend on the value, so the reader has to find the end.
\<close>

fun read_many :: "(bytes \<Rightarrow> ('a \<times> bytes) option) \<Rightarrow> nat \<Rightarrow> bytes \<Rightarrow> ('a list \<times> bytes) option" where
  "read_many dec 0 b = Some ([], b)"
| "read_many dec (Suc n) b =
     Option.bind (dec b) (\<lambda>(x, b). map_option (\<lambda>(xs, b). (x # xs, b)) (read_many dec n b))"

locale stream_codec =
  fixes enc :: "'a \<Rightarrow> bytes" and dec :: "bytes \<Rightarrow> ('a \<times> bytes) option" and valid :: "'a \<Rightarrow> bool"
  assumes dec_enc: "valid x \<Longrightarrow> dec (enc x @ rest) = Some (x, rest)"
begin

lemma read_many_enc:
  "list_all valid xs \<Longrightarrow> read_many dec (length xs) (concat (map enc xs) @ rest) = Some (xs, rest)"
  by (induction xs) (simp_all add: dec_enc)

lemma enc_inject: "valid x \<Longrightarrow> valid y \<Longrightarrow> enc x = enc y \<Longrightarrow> x = y"
  using dec_enc [of x "[]"] dec_enc [of y "[]"] by simp

end

section \<open>Unsigned\<close>

lemma drop_bit_smaller: "\<not> (v :: u64) < 0x80 \<Longrightarrow> unat (drop_bit 7 v) < unat v"
  by (simp add: word_less_nat_alt drop_bit_eq_div unat_div_distrib)

function AppendUvarint :: "u64 \<Rightarrow> bytes" where
  "AppendUvarint v = (if v < 0x80 then [ucast v] else (ucast v OR 0x80) # AppendUvarint (drop_bit 7 v))"
  by pat_completeness auto

termination by (relation "measure unat") (simp_all add: drop_bit_smaller)

declare AppendUvarint.simps [simp del]

datatype uvarint_result = Got u64 bytes | Short | Overflow

fun uvarint_loop :: "nat \<Rightarrow> u64 \<Rightarrow> nat \<Rightarrow> bytes \<Rightarrow> uvarint_result" where
  "uvarint_loop i x s [] = Short"
| "uvarint_loop i x s (b # bs) =
     (if i = 10 then Overflow
      else if b < 0x80 then (if i = 9 \<and> b > 1 then Overflow else Got (x OR push_bit s (ucast b)) bs)
      else uvarint_loop (i + 1) (x OR push_bit s (ucast (b AND 0x7F))) (s + 7) bs)"

text \<open>
  \<^verbatim>\<open>v, n := binary.Uvarint(b); b = b[n:]\<close>: nothing is consumed when the buffer is too short, and an
  overflow makes \<^verbatim>\<open>n\<close> negative, which panics.
\<close>

definition uvarint :: "bytes \<Rightarrow> (u64 \<times> bytes) option" where
  "uvarint b = (case uvarint_loop 0 0 0 b of Got v r \<Rightarrow> Some (v, r) | Short \<Rightarrow> Some (0, b) | Overflow \<Rightarrow> None)"

lemma bit_0x80: "bit (0x80 :: byte) n \<longleftrightarrow> n = 7" and mask_0x7F: "(0x7F :: byte) = mask 7"
proof -
  have "(0x80 :: byte) = 2 ^ 7" by simp
  then show "bit (0x80 :: byte) n \<longleftrightarrow> n = 7" by (simp only: bit_exp_iff) auto
qed (simp add: mask_eq_exp_minus_1)

lemma bit_0x80_u64: "bit (0x80 :: u64) n \<longleftrightarrow> n = 7"
proof -
  have "(0x80 :: u64) = 2 ^ 7" by simp
  then show ?thesis by (simp only: bit_exp_iff) auto
qed

lemma small_take_bit: "(v :: u64) < 0x80 \<longleftrightarrow> take_bit 7 v = v"
  by (simp add: word_less_nat_alt word_unat_eq_iff unsigned_take_bit_eq take_bit_nat_eq_self_iff)

lemma small_byte: "(b :: byte) < 0x80 \<longleftrightarrow> take_bit 7 b = b"
  by (simp add: word_less_nat_alt word_unat_eq_iff unsigned_take_bit_eq take_bit_nat_eq_self_iff)

lemma uvarint_loop_Append:
  "s = 7 * i \<Longrightarrow> i \<le> 9 \<Longrightarrow> take_bit (64 - s) v = v \<Longrightarrow>
   uvarint_loop i x s (AppendUvarint v @ rest) = Got (x OR push_bit s v) rest"
proof (induction v arbitrary: i x s rule: AppendUvarint.induct)
  case (1 v)
  have hi: "n < 64 - s" if "bit v n" for n using that "1.prems"(3) by (metis bit_take_bit_iff)
  show ?case
  proof (cases "v < 0x80")
    case True
    then have b7: "n < 7" if "bit v n" for n using that small_take_bit by (metis bit_take_bit_iff)
    have lt: "(ucast v :: byte) < 0x80"
      using True by (simp add: word_less_nat_alt unsigned_ucast_eq take_bit_nat_eq_self)
    have u: "push_bit s (ucast (ucast v :: byte)) = (push_bit s v :: u64)"
      by (rule bit_eqI) (auto simp add: bit_simps dest: b7)
    have "\<not> (1 :: byte) < ucast v" if "i = 9"
    proof -
      have "take_bit 1 v = v" using that "1.prems" by simp
      then have "unat v < 2" by (metis take_bit_nat_less_exp unsigned_take_bit_eq power_one_right)
      then show ?thesis by (simp add: word_less_nat_alt unsigned_ucast_eq take_bit_nat_eq_self)
    qed
    with True lt u "1.prems" show ?thesis by (simp add: AppendUvarint.simps [of v])
  next
    case False
    have b: "\<not> (ucast v OR 0x80 :: byte) < 0x80"
    proof
      assume "(ucast v OR 0x80 :: byte) < 0x80"
      then have "take_bit 7 (ucast v OR 0x80 :: byte) = ucast v OR 0x80" using small_byte by blast
      then show False by (metis bit_0x80 bit_or_iff bit_take_bit_iff less_irrefl)
    qed
    have i: "i < 9"
    proof (rule ccontr)
      assume "\<not> i < 9"
      then have "take_bit 1 v = v" using "1.prems" by simp
      then have "unat v < 2" by (metis take_bit_nat_less_exp unsigned_take_bit_eq power_one_right)
      with False show False by (simp add: word_less_nat_alt)
    qed
    have t: "take_bit (64 - (s + 7)) (drop_bit 7 v) = drop_bit 7 v"
      by (rule bit_eqI) (auto simp add: bit_simps dest: hi)
    have u: "x OR push_bit s (ucast ((ucast v OR 0x80 :: byte) AND 0x7F)) OR push_bit (s + 7) (drop_bit 7 v) = x OR push_bit s v"
    proof (rule bit_eqI)
      fix n
      assume "possible_bit TYPE(u64) n"
      have low: "bit (ucast ((ucast v OR 0x80 :: byte) AND mask 7) :: u64) k \<longleftrightarrow> k < 7 \<and> bit v k" for k
        by (auto simp only: bit_ucast_iff bit_and_iff bit_or_iff bit_mask_iff bit_0x80 possible_bit_word len_num0 len_bit0 len_num1)
      show "bit (x OR push_bit s (ucast ((ucast v OR 0x80 :: byte) AND 0x7F)) OR push_bit (s + 7) (drop_bit 7 v)) n
          = bit (x OR push_bit s v) n"
        unfolding mask_0x7F bit_or_iff bit_push_bit_iff low bit_drop_bit_eq comp_def
        by (cases "n < s + 7") (auto simp add: \<open>possible_bit TYPE(u64) n\<close> add.commute)
    qed
    have "uvarint_loop (i + 1) (x OR push_bit s (ucast ((ucast v OR 0x80 :: byte) AND 0x7F))) (s + 7)
        (AppendUvarint (drop_bit 7 v) @ rest)
      = Got ((x OR push_bit s (ucast ((ucast v OR 0x80 :: byte) AND 0x7F))) OR push_bit (s + 7) (drop_bit 7 v)) rest"
      using i "1.prems"(1) t by (intro "1.IH" [OF False]) simp_all
    with False b i u show ?thesis by (simp add: AppendUvarint.simps [of v] or.assoc)
  qed
qed

lemma uvarint_Append: "uvarint (AppendUvarint v @ rest) = Some (v, rest)"
  using uvarint_loop_Append [of 0 0 v 0 rest] by (simp add: uvarint_def take_bit_word_eq_self)

interpretation uvarints: stream_codec AppendUvarint uvarint "\<lambda>_. True"
  by unfold_locales (rule uvarint_Append)

section \<open>Signed\<close>

definition AppendVarint :: "i64 \<Rightarrow> bytes" where
  "AppendVarint x = AppendUvarint (let ux = push_bit 1 x in if bit x 63 then NOT ux else ux)"

definition varint :: "bytes \<Rightarrow> (i64 \<times> bytes) option" where
  "varint b = map_option (\<lambda>(ux, r). (let x = drop_bit 1 ux in if ux AND 1 \<noteq> 0 then NOT x else x, r)) (uvarint b)"

definition zigzag :: "i64 \<Rightarrow> u64" where "zigzag v = push_bit 1 v XOR signed_drop_bit 63 v"

definition unzigzag :: "u64 \<Rightarrow> i64" where "unzigzag u = drop_bit 1 u XOR - (u AND 1)"

lemma bit_double: "bit (push_bit 1 (v :: u64)) n \<longleftrightarrow> 1 \<le> n \<and> n < 64 \<and> bit v (n - 1)"
  by (simp only: bit_simps) auto

lemma sign_mask: "signed_drop_bit 63 (v :: i64) = (if bit v 63 then - 1 else 0)"
proof (rule bit_eqI)
  fix n
  show "bit (signed_drop_bit 63 v) n = bit (if bit v 63 then - 1 else 0 :: i64) n" if "possible_bit TYPE(i64) n"
    using that by (cases n) (simp_all add: bit_signed_drop_bit_iff)
qed

lemma zigzag_bits: "zigzag v = (if bit v 63 then NOT (push_bit 1 v) else push_bit 1 v)"
  unfolding zigzag_def sign_mask by simp

lemma unzigzag_bits: "unzigzag u = (if bit u 0 then NOT (drop_bit 1 u) else drop_bit 1 u)"
proof -
  have "u AND 1 = of_bool (bit u 0)" by (simp add: and_one_eq odd_iff_mod_2_eq_one bit_0)
  then show ?thesis by (simp add: unzigzag_def)
qed

lemma zigzag_inverse [simp]: "unzigzag (zigzag v) = v"
proof -
  define p where "p = push_bit 1 v"
  have p: "bit p n \<longleftrightarrow> 1 \<le> n \<and> n < 64 \<and> bit v (n - 1)" for n unfolding p_def by (rule bit_double)
  have d: "bit (drop_bit 1 u) n \<longleftrightarrow> bit u (Suc n)" for u :: u64 and n
    by (simp only: bit_drop_bit_eq comp_def plus_1_eq_Suc)
  show ?thesis
  proof (cases "bit v 63")
    case True
    then have z: "zigzag v = NOT p" unfolding zigzag_bits p_def by simp
    have "bit (NOT p) 0" using p [of 0] by (simp add: bit_not_iff)
    then have "unzigzag (zigzag v) = NOT (drop_bit 1 (NOT p))" unfolding z unzigzag_bits by simp
    also have "\<dots> = v"
    proof (rule bit_eqI)
      fix n
      assume "possible_bit TYPE(i64) n"
      then have "n < 64" by simp
      then show "bit (NOT (drop_bit 1 (NOT p))) n = bit v n"
        using True p [of "Suc n"] by (cases "n = 63") (simp_all only: bit_not_iff d, simp_all)
    qed
    finally show ?thesis .
  next
    case False
    then have z: "zigzag v = p" unfolding zigzag_bits p_def by simp
    have "\<not> bit p 0" using p [of 0] by simp
    then have "unzigzag (zigzag v) = drop_bit 1 p" unfolding z unzigzag_bits by simp
    also have "\<dots> = v"
    proof (rule bit_eqI)
      fix n
      assume "possible_bit TYPE(i64) n"
      then have "n < 64" by simp
      then show "bit (drop_bit 1 p) n = bit v n"
        using False p [of "Suc n"] by (cases "n = 63") (simp_all only: d, simp_all)
    qed
    finally show ?thesis .
  qed
qed

lemma varint_Append: "varint (AppendVarint x @ rest) = Some (x, rest)"
proof -
  have a: "AppendVarint x = AppendUvarint (zigzag x)" by (simp add: AppendVarint_def zigzag_bits Let_def)
  have "(let y = drop_bit 1 (zigzag x) in if zigzag x AND 1 \<noteq> 0 then NOT y else y) = unzigzag (zigzag x)"
    by (simp add: unzigzag_bits and_one_eq odd_iff_mod_2_eq_one bit_0 Let_def)
  then show ?thesis by (simp add: a varint_def uvarint_Append)
qed

interpretation varints: stream_codec AppendVarint varint "\<lambda>_. True"
  by unfold_locales (rule varint_Append)

end
