(* ===== verification/PlanTable.thy ===== *)
theory PlanTable
  imports Varint "HOL-Library.Monad_Syntax"
begin

text \<open>
  The packed sample tables a streaming plan keeps: one track of a window (\<^verbatim>\<open>mp4/tablecodec.go\<close>) and the
  table of an MP4 source (\<^verbatim>\<open>mp4/mp4plantable.go\<close>), both lossless.  Signed numbers are the words of
  their two's complement, so that nothing is assumed of their range.  A read past the end of the buffer,
  where Go panics, is \<open>None\<close>.
\<close>

section \<open>Samples and segments\<close>

record planSample =
  f_size :: u32
  f_sync :: bool
  f_dts :: i64
  f_dur :: i64
  f_cts :: i32
  f_srcOff :: i64

record planSegment =
  trackID :: u32
  baseDecodeTS :: i64
  hasCTS :: bool
  dataLen :: i64
  seg_samples :: "planSample list"

section \<open>One track of a window\<close>

fun pack_samples :: "i64 \<Rightarrow> i64 \<Rightarrow> planSample list \<Rightarrow> i64 list \<Rightarrow> bytes" where
  "pack_samples prevDts prevOff (s # ss) (off # offs) =
     AppendUvarint (push_bit 1 (ucast (f_size s)) OR (if f_sync s then 1 else 0))
     @ AppendVarint (f_dts s - prevDts) @ AppendVarint (f_dur s) @ AppendVarint (scast (f_cts s))
     @ AppendVarint (off - prevOff) @ pack_samples (f_dts s) off ss offs"
| "pack_samples prevDts prevOff _ _ = []"

definition packTrack :: "planSegment \<Rightarrow> i64 list \<Rightarrow> bytes" where
  "packTrack seg offs =
     AppendUvarint (ucast (trackID seg)) @ AppendVarint (baseDecodeTS seg)
     @ AppendUvarint (if hasCTS seg then 1 else 0) @ AppendUvarint (dataLen seg)
     @ AppendUvarint (word_of_nat (length (seg_samples seg)))
     @ pack_samples (baseDecodeTS seg) 0 (seg_samples seg) offs"

fun unpack_samples :: "nat \<Rightarrow> i64 \<Rightarrow> i64 \<Rightarrow> bytes \<Rightarrow> planSample list option" where
  "unpack_samples 0 dts off b = Some []"
| "unpack_samples (Suc n) dts off b = do {
     (v, b) \<leftarrow> uvarint b;
     (d, b) \<leftarrow> varint b;
     (du, b) \<leftarrow> varint b;
     (c, b) \<leftarrow> varint b;
     (g, b) \<leftarrow> varint b;
     ss \<leftarrow> unpack_samples n (dts + d) (off + g) b;
     Some (\<lparr>f_size = ucast (drop_bit 1 v), f_sync = (v AND 1 = 1), f_dts = dts + d, f_dur = du,
            f_cts = ucast c, f_srcOff = off + g\<rparr> # ss) }"

definition unpackTrack :: "bytes \<Rightarrow> (planSegment \<times> i64 list) option" where
  "unpackTrack b = do {
     (tid, b) \<leftarrow> uvarint b;
     (base, b) \<leftarrow> varint b;
     (hc, b) \<leftarrow> uvarint b;
     (dl, b) \<leftarrow> uvarint b;
     (n, b) \<leftarrow> uvarint b;
     let seg = \<lparr>trackID = ucast tid, baseDecodeTS = base, hasCTS = (hc = 1), dataLen = dl, seg_samples = []\<rparr>;
     if n = 0 then Some (seg, [])
     else do {
       ss \<leftarrow> unpack_samples (unat n) base 0 b;
       Some (seg\<lparr>seg_samples := ss\<rparr>, map f_srcOff ss) } }"

section \<open>Columns\<close>

definition colConst :: byte where "colConst = 0"
definition colList :: byte where "colList = 1"
definition colDict1 :: byte where "colDict1 = 2"
definition colDict2 :: byte where "colDict2 = 3"
definition colDict4 :: byte where "colDict4 = 4"

function uvarintLen :: "u64 \<Rightarrow> nat" where
  "uvarintLen v = (if v < 0x80 then 1 else 1 + uvarintLen (drop_bit 7 v))"
  by pat_completeness auto
termination by (relation "measure unat") (simp_all add: drop_bit_smaller)

declare uvarintLen.simps [simp del]

definition col_dict :: "u64 list \<Rightarrow> u64 list" where
  "col_dict vs = foldl (\<lambda>dict v. if length dict \<le> 16 \<and> v \<notin> set dict then dict @ [v] else dict) [] vs"

definition index_of :: "u64 \<Rightarrow> u64 list \<Rightarrow> nat" where
  "index_of v dict = length (takeWhile (\<lambda>x. x \<noteq> v) dict)"

text \<open>The index column: value \<open>i\<close> takes \<open>w\<close> bits (1, 2 or 4) of byte \<open>i * w div 8\<close>.\<close>

definition set_bits :: "nat \<Rightarrow> bytes \<Rightarrow> nat \<times> nat \<Rightarrow> bytes" where
  "set_bits w idx = (\<lambda>(i, v). idx[i * w div 8 := idx ! (i * w div 8) OR push_bit (i * w mod 8) (word_of_nat v)])"

definition pack_indexes :: "nat \<Rightarrow> nat list \<Rightarrow> bytes" where
  "pack_indexes w ks = foldl (set_bits w) (replicate ((length ks * w + 7) div 8) 0) (enumerate 0 ks)"

definition packColumn :: "u64 list \<Rightarrow> bytes" where
  "packColumn vs =
     (let dict = col_dict vs;
          listLen = sum_list (map uvarintLen vs)
      in if length dict = 1 then colConst # AppendUvarint (hd dict)
         else
         let (mode, w) = (if length dict \<le> 2 then (colDict1, 1) else if length dict \<le> 4 then (colDict2, 2) else (colDict4, 4));
             dictLen = 1 + (length vs * w + 7) div 8 + sum_list (map uvarintLen dict)
         in if length dict > 16 \<or> dictLen \<ge> listLen then colList # concat (map AppendUvarint vs)
            else mode # AppendUvarint (word_of_nat (length dict)) @ concat (map AppendUvarint dict)
                 @ pack_indexes w (map (\<lambda>v. index_of v dict) vs))"

definition read_indexes :: "nat \<Rightarrow> nat \<Rightarrow> u64 list \<Rightarrow> bytes \<Rightarrow> u64 list option" where
  "read_indexes n w dict b =
     those (map (\<lambda>i. if i * w div 8 < length b
                      then let k = unat (drop_bit (i * w mod 8) (b ! (i * w div 8)) AND mask w)
                           in if k < length dict then Some (dict ! k) else None
                      else None) [0..<n])"

definition read_column :: "nat \<Rightarrow> bytes \<Rightarrow> (u64 list \<times> bytes) option" where
  "read_column n b =
     (case b of
        [] \<Rightarrow> None
      | m # b \<Rightarrow>
          if m = colConst then do { (v, b) \<leftarrow> uvarint b; Some (replicate n v, b) }
          else if m = colList then read_many uvarint n b
          else do {
            let w = (if m = colDict1 then 1 else if m = colDict2 then 2 else if m = colDict4 then 4 else 0);
            (k, b) \<leftarrow> uvarint b;
            (dict, b) \<leftarrow> read_many uvarint (unat k) b;
            vs \<leftarrow> read_indexes n w dict b;
            if (n * w + 7) div 8 \<le> length b then Some (vs, drop ((n * w + 7) div 8) b) else None })"

section \<open>Sync flags\<close>

definition syncFirst :: byte where "syncFirst = 0"
definition syncAll :: byte where "syncAll = 1"
definition syncNone :: byte where "syncNone = 2"
definition syncBits :: byte where "syncBits = 3"

definition pack_flags :: "bool list \<Rightarrow> bytes" where
  "pack_flags fs =
     foldl (\<lambda>bits (i, s). if s then bits[i div 8 := bits ! (i div 8) OR push_bit (i mod 8) 1] else bits)
       (replicate ((length fs + 7) div 8) 0) (enumerate 0 fs)"

definition pack_sync :: "bool list \<Rightarrow> bytes" where
  "pack_sync fs =
     (let synced = length (filter (\<lambda>s. s) fs) in
      if synced = length fs then [syncAll]
      else if synced = 0 then [syncNone]
      else if synced = 1 \<and> fs ! 0 then [syncFirst]
      else syncBits # pack_flags fs)"

definition read_sync :: "nat \<Rightarrow> bytes \<Rightarrow> (bool list \<times> bytes) option" where
  "read_sync n b =
     (case b of
        [] \<Rightarrow> None
      | m # b \<Rightarrow>
          if m = syncAll then Some (replicate n True, b)
          else if m = syncFirst then (if n = 0 then None else Some (True # replicate (n - 1) False, b))
          else if m = syncBits then
            (if (n + 7) div 8 \<le> length b
             then Some (map (\<lambda>i. b ! (i div 8) AND push_bit (i mod 8) 1 \<noteq> 0) [0..<n], drop ((n + 7) div 8) b)
             else None)
          else Some (replicate n False, b))"

section \<open>File offsets\<close>

text \<open>
  The samples that do not follow the one before: index and distance.  \<open>next\<close> is where the sample would
  sit; the first sample always sits at \<open>offs[0]\<close>.
\<close>

fun find_breaks :: "nat \<Rightarrow> i64 \<Rightarrow> planSample list \<Rightarrow> i64 list \<Rightarrow> (nat \<times> i64) list" where
  "find_breaks i nxt (s # ss) (off # offs) =
     (if off \<noteq> nxt then [(i, off - nxt)] else []) @ find_breaks (i + 1) (off + ucast (f_size s)) ss offs"
| "find_breaks i nxt _ _ = []"

fun pack_breaks :: "nat \<Rightarrow> (nat \<times> i64) list \<Rightarrow> bytes" where
  "pack_breaks lst [] = []"
| "pack_breaks lst ((i, g) # bs) =
     AppendUvarint (word_of_nat (i - lst)) @ AppendUvarint (zigzag g) @ pack_breaks i bs"

definition packWindow :: "planSample list \<Rightarrow> i64 list \<Rightarrow> bytes" where
  "packWindow ss offs =
     AppendUvarint (word_of_nat (length ss))
     @ packColumn (map (\<lambda>s. ucast (f_size s)) ss)
     @ packColumn (map f_dur ss)
     @ packColumn (map (\<lambda>s. zigzag (scast (f_cts s))) ss)
     @ pack_sync (map f_sync ss)
     @ AppendUvarint (hd offs)
     @ (let breaks = find_breaks 0 (hd offs) ss offs
        in AppendUvarint (word_of_nat (length breaks)) @ pack_breaks 0 breaks)"

text \<open>The reader: the break it waits for (none when the table has no more), its gap and the breaks left.\<close>

definition next_break :: "nat \<Rightarrow> nat \<Rightarrow> bytes \<Rightarrow> (nat option \<times> i64 \<times> nat \<times> bytes) option" where
  "next_break i breaks b =
     (if breaks > 0
      then do { (k, b) \<leftarrow> uvarint b; (g, b) \<leftarrow> uvarint b; Some (Some (i + unat k), unzigzag g, breaks - 1, b) }
      else Some (None, 0, 0, b))"

fun restore :: "nat \<Rightarrow> nat option \<Rightarrow> i64 \<Rightarrow> nat \<Rightarrow> bytes \<Rightarrow> i64 \<Rightarrow> i64 \<Rightarrow> (u64 \<times> u64 \<times> u64 \<times> bool) list \<Rightarrow> planSample list option" where
  "restore i nb gap breaks b off dts [] = Some []"
| "restore i nb gap breaks b off dts ((sz, du, ct, sy) # xs) = do {
     (off, nb, gap, breaks, b) \<leftarrow>
       (if nb = Some i
        then do { (nb, gap', breaks, b) \<leftarrow> next_break i breaks b; Some (off + gap, nb, gap', breaks, b) }
        else Some (off, nb, gap, breaks, b));
     ss \<leftarrow> restore (i + 1) nb gap breaks b (off + ucast (ucast sz :: u32)) (dts + du) xs;
     Some (\<lparr>f_size = ucast sz, f_sync = sy, f_dts = dts, f_dur = du, f_cts = ucast (unzigzag ct), f_srcOff = off\<rparr> # ss) }"

definition read_window :: "i64 \<Rightarrow> bytes \<Rightarrow> (planSample list \<times> i64 list) option" where
  "read_window dts b =
     (if b = [] then Some ([], [])
      else do {
        (n, b) \<leftarrow> uvarint b;
        (sizes, b) \<leftarrow> read_column (unat n) b;
        (durs, b) \<leftarrow> read_column (unat n) b;
        (ctss, b) \<leftarrow> read_column (unat n) b;
        (syncs, b) \<leftarrow> read_sync (unat n) b;
        (off, b) \<leftarrow> uvarint b;
        (breaks, b) \<leftarrow> uvarint b;
        (nb, gap, breaks, b) \<leftarrow> next_break 0 (unat breaks) b;
        ss \<leftarrow> restore 0 nb gap breaks b off dts (zip sizes (zip durs (zip ctss syncs)));
        Some (ss, map f_srcOff ss) })"

section \<open>The table\<close>

record mp4PlanTable =
  blob :: bytes
  segPos :: "u32 list"
  segDTS :: "i64 list"

fun add_segments :: "planSample list \<Rightarrow> i64 list \<Rightarrow> nat list \<Rightarrow> mp4PlanTable \<Rightarrow> mp4PlanTable" where
  "add_segments ss offs [] t = t"
| "add_segments ss offs (start # starts) t =
     (let e = (case starts of [] \<Rightarrow> length ss | s # _ \<Rightarrow> s);
          t = t\<lparr>segPos := segPos t @ [word_of_nat (length (blob t))]\<rparr>
      in add_segments ss offs starts
           (if e \<le> start then t\<lparr>segDTS := segDTS t @ [0]\<rparr>
            else t\<lparr>segDTS := segDTS t @ [f_dts (ss ! start)],
                   blob := blob t @ packWindow (slice start e ss) (slice start e offs)\<rparr>))"

definition newMP4PlanTable :: "planSample list \<Rightarrow> i64 list \<Rightarrow> nat list \<Rightarrow> mp4PlanTable" where
  "newMP4PlanTable ss offs segStart =
     (let t = add_segments ss offs segStart \<lparr>blob = [], segPos = [], segDTS = []\<rparr>
      in t\<lparr>segPos := segPos t @ [word_of_nat (length (blob t))]\<rparr>)"

definition window :: "mp4PlanTable \<Rightarrow> nat \<Rightarrow> (planSample list \<times> i64 list) option" where
  "window t n = read_window (segDTS t ! n) (slice (unat (segPos t ! n)) (unat (segPos t ! (n + 1))) (blob t))"
section \<open>Samples of a window read back\<close>

definition placed_at :: "planSample list \<Rightarrow> i64 list \<Rightarrow> planSample list" where
  "placed_at ss offs = map (\<lambda>(s, off). s\<lparr>f_srcOff := off\<rparr>) (zip ss offs)"

lemma placed_at_Cons [simp]: "placed_at (s # ss) (off # offs) = s\<lparr>f_srcOff := off\<rparr> # placed_at ss offs" "placed_at [] offs = []"
  by (simp_all add: placed_at_def)

lemma srcOff_placed_at: "length offs = length ss \<Longrightarrow> map f_srcOff (placed_at ss offs) = offs"
  by (induction ss arbitrary: offs) (auto simp add: length_Suc_conv)

lemma size_sync_word:
  fixes sz :: u32 and sy :: bool
  defines "v \<equiv> push_bit 1 (ucast sz) OR (if sy then 1 else 0) :: u64"
  shows "ucast (drop_bit 1 v) = sz" "v AND 1 = 1 \<longleftrightarrow> sy"
proof -
  have p: "bit (push_bit 1 (ucast sz :: u64)) n \<longleftrightarrow> 1 \<le> n \<and> n < 64 \<and> bit sz (n - 1)" for n
    unfolding bit_double by (auto simp add: bit_ucast_iff dest: bit_imp_le_length)
  have b: "bit v n \<longleftrightarrow> (1 \<le> n \<and> n < 64 \<and> bit sz (n - 1)) \<or> (sy \<and> n = 0)" for n
    unfolding v_def bit_or_iff p by (auto simp add: bit_1_iff)
  show "ucast (drop_bit 1 v) = sz"
    by (rule bit_eqI) (auto simp add: bit_ucast_iff bit_drop_bit_eq comp_def b dest: bit_imp_le_length)
  have "v AND 1 = of_bool (bit v 0)" by (simp add: and_one_eq odd_iff_mod_2_eq_one bit_0)
  then show "v AND 1 = 1 \<longleftrightarrow> sy" using b [of 0] by simp
qed

lemma scast_back: "ucast (scast (c :: i32) :: i64) = c"
  by (rule bit_eqI) (auto simp add: bit_simps)

lemma unpack_samples_pack:
  "length offs = length ss \<Longrightarrow>
   unpack_samples (length ss) pd po (pack_samples pd po ss offs @ rest) = Some (placed_at ss offs)"
proof (induction ss arbitrary: offs pd po)
  case (Cons s ss)
  then obtain off offs' where o: "offs = off # offs'" by (cases offs) auto
  then have IH: "unpack_samples (length ss) (f_dts s) off (pack_samples (f_dts s) off ss offs' @ rest) = Some (placed_at ss offs')"
    using Cons by simp
  show ?case unfolding o
    using IH size_sync_word [of "f_size s" "f_sync s"]
    by (simp add: uvarint_Append varint_Append scast_back)
qed simp

section \<open>Columns read back\<close>

lemma uvarintLen_length: "uvarintLen v = length (AppendUvarint v)"
  by (induction v rule: uvarintLen.induct) (simp add: uvarintLen.simps AppendUvarint.simps)

lemma col_dict_step:
  fixes d vs :: "u64 list"
  defines "f \<equiv> \<lambda>dict (v :: u64). if length dict \<le> 16 \<and> v \<notin> set dict then dict @ [v] else dict"
  shows "length d \<le> length (foldl f d vs)"
    and "length (foldl f d vs) \<le> 16 \<Longrightarrow> set (foldl f d vs) = set d \<union> set vs"
proof (induction vs arbitrary: d)
  case (Cons v vs)
  { case 1
    have "length d \<le> length (f d v)" by (simp add: f_def)
    also have "\<dots> \<le> length (foldl f (f d v) vs)" by (rule Cons(1))
    finally show ?case by simp }
  { case 2
    then have l: "length (foldl f (f d v) vs) \<le> 16" by simp
    then have "length (f d v) \<le> 16" using Cons(1) [of "f d v"] by simp
    then have "set (f d v) = insert v (set d)" by (auto simp add: f_def split: if_splits)
    then show ?case using Cons(2) [OF l] by simp }
qed simp_all

lemma col_dict_set: "length (col_dict vs) \<le> 16 \<Longrightarrow> set (col_dict vs) = set vs"
  using col_dict_step(2) [of "[]" vs] by (simp add: col_dict_def)

lemma index_of_nth: "v \<in> set dict \<Longrightarrow> index_of v dict < length dict \<and> dict ! index_of v dict = v"
  by (induction dict) (auto simp add: index_of_def)

text \<open>Bit \<open>b\<close> of byte \<open>j\<close> of an index column belongs to value \<open>(8 * j + b) div w\<close>.\<close>

definition holds_indexes :: "nat \<Rightarrow> nat list \<Rightarrow> bytes \<Rightarrow> bool" where
  "holds_indexes w ks idx \<longleftrightarrow> (\<forall>j < length idx. \<forall>b < 8.
     bit (idx ! j) b \<longleftrightarrow> (8 * j + b) div w < length ks \<and> bit (ks ! ((8 * j + b) div w)) ((8 * j + b) mod w))"

lemma index_place:
  assumes "w \<in> {1, 2, 4}" "b < (8 :: nat)"
  shows "(m * w div 8 = j \<and> m * w mod 8 \<le> b \<and> b - m * w mod 8 < w) \<longleftrightarrow> (8 * j + b) div w = m"
    and "m * w div 8 = j \<Longrightarrow> m * w mod 8 \<le> b \<Longrightarrow> b - m * w mod 8 < w \<Longrightarrow> b - m * w mod 8 = (8 * j + b) mod w"
proof -
  obtain q where q: "8 = q * w" "0 < q" "0 < w" using assms(1) by (auto intro: that [of 8] that [of 4] that [of 2])
  define c where "c = m mod q"
  have d: "m * w div 8 = m div q" "m * w mod 8 = c * w"
    unfolding q(1) using q(3) by (simp_all add: c_def mult_mod_left)
  have m: "m = q * (m div q) + c" "c < q" using q(2) by (simp_all add: c_def)
  have e: "8 * j + b = q * j * w + b" using q(1) by simp
  have i: "(8 * j + b) div w = q * j + b div w" "(8 * j + b) mod w = b mod w"
    unfolding e using q(3) by simp_all
  have bq: "b div w < q" using assms(2) q by (simp add: div_less_iff_less_mult)
  have b: "b div w = c \<longleftrightarrow> c * w \<le> b \<and> b - c * w < w"
  proof
    assume "b div w = c"
    then have "b = c * w + b mod w" by (metis div_mult_mod_eq)
    moreover have "b mod w < w" using q(3) by simp
    ultimately show "c * w \<le> b \<and> b - c * w < w" by linarith
  next
    assume "c * w \<le> b \<and> b - c * w < w"
    then show "b div w = c" by (intro div_nat_eqI) (auto simp add: mult.commute)
  qed
  have "q * j + b div w = m \<longleftrightarrow> m div q = j \<and> b div w = c"
  proof
    assume a: "q * j + b div w = m"
    then have "m div q = j" using bq q(2) by auto
    moreover have "m mod q = b div w" using a bq by auto
    ultimately show "m div q = j \<and> b div w = c" by (simp add: c_def)
  next
    assume "m div q = j \<and> b div w = c"
    then show "q * j + b div w = m" using m(1) by simp
  qed
  then show "(m * w div 8 = j \<and> m * w mod 8 \<le> b \<and> b - m * w mod 8 < w) \<longleftrightarrow> (8 * j + b) div w = m"
    unfolding d i b by blast
  show "b - m * w mod 8 = (8 * j + b) mod w" if "m * w div 8 = j" "m * w mod 8 \<le> b" "b - m * w mod 8 < w"
  proof -
    have "b div w = c" using that b d by simp
    then show ?thesis unfolding d i by (metis minus_div_mult_eq_mod)
  qed
qed

lemma bit_small_nat: "k < 2 ^ w \<Longrightarrow> bit k c \<Longrightarrow> c < w" for k :: nat
  by (metis bit_take_bit_iff take_bit_nat_eq_self)

lemma set_bits_holds:
  assumes w: "w \<in> {1, 2, 4}" and k: "k < 2 ^ w" and h: "holds_indexes w ks idx"
    and l: "length ks * w div 8 < length idx"
  shows "holds_indexes w (ks @ [k]) (set_bits w idx (length ks, k))"
  unfolding holds_indexes_def
proof (intro allI impI)
  fix j b
  assume j: "j < length (set_bits w idx (length ks, k))" and b: "b < (8 :: nat)"
  let ?m = "length ks" let ?i = "(8 * j + b) div w" let ?c = "(8 * j + b) mod w"
  let ?r = "?m * w mod 8"
  have j': "j < length idx" using j by (simp add: set_bits_def)
  have old: "bit (idx ! j) b \<longleftrightarrow> ?i < ?m \<and> bit (ks ! ?i) ?c" using h j' b by (simp add: holds_indexes_def)
  have new: "bit (push_bit ?r (word_of_nat k :: byte)) b \<longleftrightarrow> ?r \<le> b \<and> bit k (b - ?r)"
    using b by (auto simp add: bit_push_bit_iff bit_of_nat_iff_bit bit_of_nat_iff)
  have "bit (set_bits w idx (?m, k) ! j) b \<longleftrightarrow> bit (idx ! j) b \<or> (?m * w div 8 = j \<and> ?r \<le> b \<and> bit k (b - ?r))"
    using j' l new by (cases "?m * w div 8 = j") (simp_all add: set_bits_def bit_or_iff)
  also have "(?m * w div 8 = j \<and> ?r \<le> b \<and> bit k (b - ?r)) \<longleftrightarrow> ?i = ?m \<and> bit k ?c"
    using index_place [OF w b, of ?m j] bit_small_nat [OF k, of "b - ?r"] by metis
  finally show "bit (set_bits w idx (?m, k) ! j) b \<longleftrightarrow> ?i < length (ks @ [k]) \<and> bit ((ks @ [k]) ! ?i) ?c"
    using old by (auto simp add: nth_append less_Suc_eq)
qed

lemma length_set_bits [simp]: "length (set_bits w idx p) = length idx"
  by (simp add: set_bits_def split: prod.split)

lemma fold_indexes:
  assumes "w \<in> {1, 2, 4}"
  shows "list_all (\<lambda>k. k < 2 ^ w) ks \<Longrightarrow> (length ks * w + 7) div 8 \<le> L \<Longrightarrow>
    holds_indexes w ks (foldl (set_bits w) (replicate L 0) (enumerate 0 ks)) \<and>
    length (foldl (set_bits w) (replicate L 0) (enumerate 0 ks)) = L"
proof (induction ks rule: rev_induct)
  case Nil
  then show ?case by (simp add: holds_indexes_def)
next
  case (snoc k ks)
  have "length ks * w div 8 < L" "(length ks * w + 7) div 8 \<le> L" using snoc.prems(2) assms by auto
  then show ?case
    using snoc set_bits_holds [OF assms, of k ks "foldl (set_bits w) (replicate L 0) (enumerate 0 ks)"]
    by (simp add: enumerate_append_eq)
qed

lemma pack_indexes_holds:
  assumes "w \<in> {1, 2, 4}" "list_all (\<lambda>k. k < 2 ^ w) ks"
  shows "holds_indexes w ks (pack_indexes w ks)" "length (pack_indexes w ks) = (length ks * w + 7) div 8"
  using fold_indexes [OF assms order_refl] by (simp_all add: pack_indexes_def)

lemma read_one_index:
  assumes "w \<in> {1, 2, 4}" "holds_indexes w ks idx" "length idx = (length ks * w + 7) div 8" "i < length ks"
    and "ks ! i < 2 ^ w"
  shows "i * w div 8 < length idx" "unat (drop_bit (i * w mod 8) (idx ! (i * w div 8)) AND mask w) = ks ! i"
proof -
  have "i * w + w \<le> length ks * w" using assms(4) by (metis Suc_leI mult_Suc mult_le_mono1 add.commute)
  then show l: "i * w div 8 < length idx" using assms(1,3) by auto
  have b: "bit (drop_bit (i * w mod 8) (idx ! (i * w div 8)) AND mask w) c \<longleftrightarrow> bit (ks ! i) c" if "c < 8" for c
  proof (cases "c < w")
    case True
    then have c8: "i * w mod 8 + c < 8" using assms(1) by auto presburger+
    have "(8 * (i * w div 8) + (i * w mod 8 + c)) div w = i"
      using index_place(1) [OF assms(1) c8, of i "i * w div 8"] True by simp
    moreover have "c = (8 * (i * w div 8) + (i * w mod 8 + c)) mod w"
      using index_place(2) [OF assms(1) c8, of i "i * w div 8"] True by simp
    ultimately have "bit (idx ! (i * w div 8)) (i * w mod 8 + c) \<longleftrightarrow> bit (ks ! i) c"
      using assms(2,4) l c8 unfolding holds_indexes_def by metis
    then show ?thesis using True that by (simp add: bit_simps)
  next
    case False
    then show ?thesis using bit_small_nat [OF assms(5), of c] by (auto simp add: bit_simps)
  qed
  show "unat (drop_bit (i * w mod 8) (idx ! (i * w div 8)) AND mask w) = ks ! i"
  proof (rule bit_eqI)
    fix c
    have "w \<le> 8" using assms(1) by auto
    then have "\<not> bit (ks ! i) c" if "\<not> c < 8" using that bit_small_nat [OF assms(5), of c] by auto
    then show "bit (unat (drop_bit (i * w mod 8) (idx ! (i * w div 8)) AND mask w)) c = bit (ks ! i) c"
      using b [of c] by (cases "c < 8") (auto simp add: bit_unsigned_iff dest: bit_imp_le_length)
  qed
qed
lemma col_width: "dict \<noteq> [] \<Longrightarrow> length dict \<le> 16 \<Longrightarrow>
   (m, w) = (if length dict \<le> 2 then (colDict1, 1) else if length dict \<le> 4 then (colDict2, 2) else (colDict4, 4 :: nat)) \<Longrightarrow>
   w \<in> {1, 2, 4} \<and> length dict \<le> 2 ^ w \<and> m \<noteq> colConst \<and> m \<noteq> colList \<and>
   (if m = colDict1 then 1 else if m = colDict2 then 2 else if m = colDict4 then 4 else 0) = w"
  by (auto simp add: colDict1_def colDict2_def colDict4_def colConst_def colList_def split: if_splits)

lemma those_map_Some: "\<forall>i \<in> set xs. f i = Some (g i) \<Longrightarrow> those (map f xs) = Some (map g xs)"
  by (induction xs) auto

lemma read_indexes_pack:
  assumes w: "w \<in> {1, 2, 4}" and d: "length dict \<le> 2 ^ w" "set vs \<subseteq> set dict"
  shows "read_indexes (length vs) w dict (pack_indexes w (map (\<lambda>v. index_of v dict) vs) @ rest) = Some vs"
proof -
  define ks where "ks = map (\<lambda>v. index_of v dict) vs"
  have lt: "ks ! i < length dict \<and> dict ! (ks ! i) = vs ! i" if "i < length vs" for i
    using index_of_nth [of "vs ! i" dict] subsetD [OF d(2) nth_mem [OF that]] that by (simp add: ks_def)
  have "list_all (\<lambda>k. k < 2 ^ w) ks"
    using lt d(1) by (auto simp add: list_all_length ks_def intro: less_le_trans)
  note p = pack_indexes_holds [OF w this]
  have "(if i * w div 8 < length (pack_indexes w ks @ rest)
         then let k = unat (drop_bit (i * w mod 8) ((pack_indexes w ks @ rest) ! (i * w div 8)) AND mask w)
              in if k < length dict then Some (dict ! k) else None else None) = Some (vs ! i)" if "i < length vs" for i
  proof -
    have i: "i < length ks" "ks ! i < 2 ^ w" using that lt [OF that] d(1) by (simp_all add: ks_def)
    note r = read_one_index [OF w p(1) p(2) i]
    have "(pack_indexes w ks @ rest) ! (i * w div 8) = pack_indexes w ks ! (i * w div 8)"
      using r(1) by (simp add: nth_append)
    then show ?thesis using r lt [OF that] by simp
  qed
  then have "read_indexes (length vs) w dict (pack_indexes w ks @ rest) = Some (map (\<lambda>i. vs ! i) [0..<length vs])"
    unfolding read_indexes_def by (intro those_map_Some) simp
  then show ?thesis by (simp add: ks_def map_nth)
qed

lemma read_column_pack:
  assumes "vs \<noteq> []"
  shows "read_column (length vs) (packColumn vs @ rest) = Some (vs, rest)"
proof -
  define dict where "dict = col_dict vs"
  have ne: "dict \<noteq> []"
  proof
    assume "dict = []"
    then have "set vs = {}" using col_dict_set [of vs] by (simp add: dict_def)
    with assms show False by simp
  qed
  show ?thesis
  proof (cases "length dict = 1")
    case True
    then obtain v where v: "dict = [v]" by (auto simp add: length_Suc_conv)
    then have "set vs = {v}" using col_dict_set [of vs] True by (simp add: dict_def)
    then have "vs = replicate (length vs) v" by (intro replicate_eqI) auto
    moreover have "packColumn vs = colConst # AppendUvarint v" using v by (simp add: packColumn_def dict_def [symmetric])
    ultimately show ?thesis by (simp add: read_column_def uvarint_Append)
  next
    case False
    define m w where "m = fst (if length dict \<le> 2 then (colDict1, 1) else if length dict \<le> 4 then (colDict2, 2) else (colDict4, 4 :: nat))"
      and "w = snd (if length dict \<le> 2 then (colDict1, 1) else if length dict \<le> 4 then (colDict2, 2) else (colDict4, 4 :: nat))"
    have mw: "(if length dict \<le> 2 then (colDict1, 1) else if length dict \<le> 4 then (colDict2, 2) else (colDict4, 4 :: nat)) = (m, w)"
      by (simp add: m_def w_def)
    define plain where "plain \<longleftrightarrow> length dict > 16 \<or> 1 + (length vs * w + 7) div 8 + sum_list (map uvarintLen dict) \<ge> sum_list (map uvarintLen vs)"
    have pk: "packColumn vs = (if plain then colList # concat (map AppendUvarint vs)
        else m # AppendUvarint (word_of_nat (length dict)) @ concat (map AppendUvarint dict)
          @ pack_indexes w (map (\<lambda>v. index_of v dict) vs))"
      using False unfolding packColumn_def dict_def [symmetric] Let_def mw plain_def by simp
    show ?thesis
    proof (cases plain)
      case True
      then show ?thesis
        using uvarints.read_many_enc [of vs rest] by (simp add: pk read_column_def colList_def colConst_def list_all_iff)
    next
      case False
      then have l16: "length dict \<le> 16" by (simp add: plain_def)
      note cw = col_width [OF ne l16 mw [symmetric]]
      have sd: "set vs \<subseteq> set dict" using col_dict_set [of vs] l16 by (simp add: dict_def)
      have ri: "read_indexes (length vs) w dict (pack_indexes w (map (\<lambda>v. index_of v dict) vs) @ rest) = Some vs"
        using read_indexes_pack cw sd by blast
      have "list_all (\<lambda>k. k < 2 ^ w) (map (\<lambda>v. index_of v dict) vs)"
        using sd index_of_nth cw by (auto simp add: list_all_iff intro: less_le_trans)
      then have lp: "length (pack_indexes w (map (\<lambda>v. index_of v dict) vs)) = (length vs * w + 7) div 8"
        using pack_indexes_holds(2) cw by simp
      have n: "unat (word_of_nat (length dict) :: u64) = length dict"
        using l16 by (simp add: unsigned_of_nat take_bit_nat_eq_self)
      have rd: "read_many uvarint (length dict) (concat (map AppendUvarint dict)
          @ pack_indexes w (map (\<lambda>v. index_of v dict) vs) @ rest)
          = Some (dict, pack_indexes w (map (\<lambda>v. index_of v dict) vs) @ rest)"
        by (rule uvarints.read_many_enc) (simp add: list_all_iff)
      have "read_column (length vs) (packColumn vs @ rest)
          = do { vs' \<leftarrow> read_indexes (length vs) w dict (pack_indexes w (map (\<lambda>v. index_of v dict) vs) @ rest);
                 Some (vs', drop ((length vs * w + 7) div 8) (pack_indexes w (map (\<lambda>v. index_of v dict) vs) @ rest)) }"
        using cw lp unfolding pk if_not_P [OF False] read_column_def
        by (simp add: uvarint_Append n rd Let_def)
      then show ?thesis using lp by (simp add: ri)
    qed
  qed
qed

section \<open>Flags read back\<close>

lemma pack_flags_indexes: "pack_flags fs = pack_indexes 1 (map of_bool fs)"
proof -
  have "foldl (\<lambda>bits (i, s). if s then bits[i div 8 := bits ! (i div 8) OR push_bit (i mod 8) 1] else bits) acc (enumerate k fs)
      = foldl (set_bits 1) acc (enumerate k (map of_bool fs))" for acc k
    by (induction fs arbitrary: acc k) (simp_all add: set_bits_def)
  then show ?thesis by (simp add: pack_flags_def pack_indexes_def)
qed

lemma read_sync_pack:
  assumes "fs \<noteq> []"
  shows "read_sync (length fs) (pack_sync fs @ rest) = Some (fs, rest)"
proof -
  define synced where "synced = length (filter (\<lambda>s. s) fs)"
  consider (all) "synced = length fs" | (none) "synced \<noteq> length fs" "synced = 0"
    | (first) "synced \<noteq> length fs" "synced \<noteq> 0" "synced = 1" "fs ! 0"
    | (bits) "synced \<noteq> length fs" "synced \<noteq> 0" "\<not> (synced = 1 \<and> fs ! 0)" by blast
  then show ?thesis
  proof cases
    case all
    then have "filter (\<lambda>s. s) fs = fs" unfolding synced_def by (metis filter_True length_filter_less less_irrefl)
    then have "fs = replicate (length fs) True" by (intro replicate_eqI) (auto simp add: filter_id_conv)
    then show ?thesis using all by (simp add: pack_sync_def synced_def [symmetric] read_sync_def)
  next
    case none
    then have "\<forall>s \<in> set fs. \<not> s" by (simp add: synced_def filter_empty_conv)
    then have "fs = replicate (length fs) False" by (intro replicate_eqI) auto
    then show ?thesis using none
      by (simp add: pack_sync_def synced_def [symmetric] read_sync_def syncNone_def syncAll_def syncFirst_def syncBits_def)
  next
    case first
    obtain s r where fs: "fs = s # r" using assms by (cases fs) auto
    then have "s" "filter (\<lambda>s. s) r = []" using first by (simp_all add: synced_def)
    then have "r = replicate (length r) False" by (intro replicate_eqI) (auto simp add: filter_empty_conv)
    then have "fs = True # replicate (length fs - 1) False" using fs \<open>s\<close> by simp
    then show ?thesis using first assms
      by (simp add: pack_sync_def synced_def [symmetric] read_sync_def syncAll_def syncFirst_def)
  next
    case bits
    let ?p = "pack_indexes 1 (map of_bool fs)"
    have p: "holds_indexes 1 (map of_bool fs) ?p" "length ?p = (length fs + 7) div 8"
      using pack_indexes_holds [of 1 "map of_bool fs"] by (auto simp add: list_all_iff)
    have "((?p @ rest) ! (i div 8) AND push_bit (i mod 8) 1 \<noteq> 0) = fs ! i" if "i < length fs" for i
    proof -
      have l: "i div 8 < length ?p" using that p(2) by auto
      have "bit (?p ! (i div 8)) (i mod 8) \<longleftrightarrow> fs ! i"
        using p(1) l that unfolding holds_indexes_def by (auto simp add: bit_0)
      moreover have "(?p @ rest) ! (i div 8) = ?p ! (i div 8)" using l by (simp add: nth_append)
      ultimately show ?thesis by (simp add: bit_iff_and_push_bit_not_eq_0)
    qed
    then have "map (\<lambda>i. (?p @ rest) ! (i div 8) AND push_bit (i mod 8) 1 \<noteq> 0) [0..<length fs] = fs"
      by (intro nth_equalityI) simp_all
    moreover have "pack_sync fs = syncBits # ?p"
      unfolding pack_sync_def synced_def [symmetric] Let_def if_not_P [OF bits(1)] if_not_P [OF bits(2)] if_not_P [OF bits(3)]
        pack_flags_indexes by (rule refl)
    ultimately show ?thesis using p(2) by (simp add: read_sync_def syncAll_def syncFirst_def syncBits_def)
  qed
qed
section \<open>Offsets read back\<close>

lemma find_breaks_range: "(k, g) \<in> set (find_breaks i nxt ss offs) \<Longrightarrow> i \<le> k \<and> k < i + length ss"
proof (induction ss arbitrary: i nxt offs)
  case (Cons s ss)
  then show ?case by (cases offs) (fastforce split: if_splits)+
qed simp

lemma find_breaks_length: "length (find_breaks i nxt ss offs) \<le> length ss"
proof (induction ss arbitrary: i nxt offs)
  case (Cons s ss)
  then show ?case by (cases offs) (auto simp add: le_SucI)
qed simp

text \<open>The state of the reader when the breaks \<open>brs\<close> are still to come, the last one read at \<open>lst\<close>.\<close>

fun waiting :: "(nat \<times> i64) list \<Rightarrow> nat option \<times> i64 \<times> nat \<times> bytes \<Rightarrow> bool" where
  "waiting [] (nb, gap, breaks, b) \<longleftrightarrow> nb = None"
| "waiting ((k, g) # brs) (nb, gap, breaks, b) \<longleftrightarrow>
     nb = Some k \<and> gap = g \<and> breaks = length brs \<and> (\<exists>rest. b = pack_breaks k brs @ rest)"

lemma next_break_pack:
  assumes "\<forall>(k, g) \<in> set brs. lst \<le> k \<and> k < 2 ^ 32"
  obtains st where "next_break lst (length brs) (pack_breaks lst brs @ rest) = Some st" "waiting brs st"
proof (cases brs)
  case Nil
  show ?thesis using that [of "(None, 0, 0, rest)"] by (simp add: Nil next_break_def)
next
  case (Cons p brs')
  obtain k g where p: "p = (k, g)" by (cases p)
  have k: "lst \<le> k" "k < 2 ^ 32" using assms by (simp_all add: Cons p)
  then have u: "unat (word_of_nat (k - lst) :: u64) = k - lst" "lst \<le> k"
    by (simp_all add: unsigned_of_nat take_bit_nat_eq_self del: of_nat_diff)
  show ?thesis
    using that [of "(Some k, g, length brs', pack_breaks k brs' @ rest)"] u
    by (simp add: Cons p next_break_def uvarint_Append del: of_nat_diff)
qed

fun chained :: "i64 \<Rightarrow> planSample list \<Rightarrow> bool" where
  "chained dts [] \<longleftrightarrow> True"
| "chained dts (s # ss) \<longleftrightarrow> f_dts s = dts \<and> chained (dts + f_dur s) ss"

definition columns :: "planSample list \<Rightarrow> (u64 \<times> u64 \<times> u64 \<times> bool) list" where
  "columns ss = map (\<lambda>s. (ucast (f_size s), f_dur s, zigzag (scast (f_cts s)), f_sync s)) ss"

lemma ucast_size [simp]: "ucast (ucast (sz :: u32) :: u64) = sz"
  by (rule bit_eqI) (auto simp add: bit_simps)

lemma restore_pack:
  "length offs = length ss \<Longrightarrow> i + length ss < 2 ^ 32 \<Longrightarrow> chained dts ss \<Longrightarrow>
   waiting (find_breaks i off ss offs) (nb, gap, breaks, b) \<Longrightarrow>
   restore i nb gap breaks b off dts (columns ss) = Some (placed_at ss offs)"
proof (induction ss arbitrary: i nb gap breaks b off dts offs)
  case (Cons s ss)
  obtain o1 offs' where o: "offs = o1 # offs'" using Cons.prems(1) by (cases offs) auto
  define brs where "brs = find_breaks (i + 1) (o1 + ucast (f_size s)) ss offs'"
  have rng: "\<forall>(k, g) \<in> set brs. i + 1 \<le> k \<and> k < 2 ^ 32"
    using Cons.prems(2) find_breaks_range [of _ _ "i + 1" "o1 + ucast (f_size s)" ss offs'] by (fastforce simp add: brs_def)
  obtain nb' gap' breaks' b' where st: "waiting brs (nb', gap', breaks', b')"
    "(if nb = Some i
      then do { (nb, gap', breaks, b) \<leftarrow> next_break i breaks b; Some (off + gap, nb, gap', breaks, b) }
      else Some (off, nb, gap, breaks, b)) = Some (o1, nb', gap', breaks', b')"
  proof (cases "o1 = off")
    case True
    then have "find_breaks i off (s # ss) offs = brs" by (simp add: o brs_def)
    then have w: "waiting brs (nb, gap, breaks, b)" using Cons.prems(4) by simp
    have "nb \<noteq> Some i" using w rng by (cases brs) auto
    then show ?thesis using that w True by simp
  next
    case False
    then have f: "find_breaks i off (s # ss) offs = (i, o1 - off) # brs" by (simp add: o brs_def)
    then obtain rest where w: "nb = Some i" "gap = o1 - off" "breaks = length brs" "b = pack_breaks i brs @ rest"
      using Cons.prems(4) by auto
    have "\<forall>(k, g) \<in> set brs. i \<le> k \<and> k < 2 ^ 32" using rng by auto
    then obtain st where "next_break i (length brs) (pack_breaks i brs @ rest) = Some st" "waiting brs st"
      by (rule next_break_pack)
    then show ?thesis using that w by (cases st) simp
  qed
  have "restore (i + 1) nb' gap' breaks' b' (o1 + ucast (f_size s)) (dts + f_dur s) (columns ss) = Some (placed_at ss offs')"
    using Cons.prems o st(1) unfolding brs_def by (intro Cons.IH) simp_all
  then show ?case
    using Cons.prems(3) st(2) unfolding o columns_def list.map restore.simps
    by (simp add: columns_def scast_back)
qed (simp add: columns_def)

section \<open>Properties\<close>

text \<open>
  A track packed for a window unpacks to the same segment and offsets, each sample carrying its file
  offset; no range is assumed of times, sizes or offsets.
\<close>

lemma track_roundtrip:
  assumes "length offs = length (seg_samples seg)" and "length offs < 2 ^ 64"
  shows "unpackTrack (packTrack seg offs) = Some (seg\<lparr>seg_samples := placed_at (seg_samples seg) offs\<rparr>, offs)"
proof -
  have n: "unat (word_of_nat (length (seg_samples seg)) :: u64) = length (seg_samples seg)"
    using assms by (simp add: unsigned_of_nat take_bit_nat_eq_self)
  have z: "(word_of_nat (length (seg_samples seg)) :: u64) = 0 \<longleftrightarrow> seg_samples seg = []"
    unfolding word_unat_eq_iff n by simp
  have u: "unpack_samples (length (seg_samples seg)) (baseDecodeTS seg) 0 (pack_samples (baseDecodeTS seg) 0 (seg_samples seg) offs)
      = Some (placed_at (seg_samples seg) offs)"
    using unpack_samples_pack [OF assms(1), of "baseDecodeTS seg" 0 "[]"] by simp
  define s0 where "s0 = seg\<lparr>seg_samples := []\<rparr>"
  have s0: "\<lparr>trackID = trackID seg, baseDecodeTS = baseDecodeTS seg, hasCTS = ((if hasCTS seg then 1 else 0) = (1 :: u64)),
      dataLen = dataLen seg, seg_samples = []\<rparr> = s0" by (cases seg) (simp add: s0_def)
  have "unpackTrack (packTrack seg offs)
      = (if seg_samples seg = [] then Some (s0, []) else do {
           ss \<leftarrow> unpack_samples (length (seg_samples seg)) (baseDecodeTS seg) 0 (pack_samples (baseDecodeTS seg) 0 (seg_samples seg) offs);
           Some (s0\<lparr>seg_samples := ss\<rparr>, map f_srcOff ss) })"
    unfolding packTrack_def unpackTrack_def append_assoc uvarint_Append varint_Append bind.bind_lunit prod.case Let_def s0 z n
      ucast_size by (rule refl)
  also have "\<dots> = Some (s0\<lparr>seg_samples := placed_at (seg_samples seg) offs\<rparr>, offs)"
  proof (cases "seg_samples seg = []")
    case True
    then have "offs = []" using assms(1) by simp
    with True show ?thesis by (simp add: s0_def placed_at_def)
  next
    case False
    then show ?thesis using srcOff_placed_at [OF assms(1)] by (simp add: u)
  qed
  also have "s0\<lparr>seg_samples := placed_at (seg_samples seg) offs\<rparr> = seg\<lparr>seg_samples := placed_at (seg_samples seg) offs\<rparr>"
    by (simp add: s0_def)
  finally show ?thesis .
qed

lemma track_roundtrip_witness:
  "unpackTrack (packTrack \<lparr>trackID = 1, baseDecodeTS = 90, hasCTS = True, dataLen = 7,
      seg_samples = [\<lparr>f_size = 7, f_sync = True, f_dts = 90, f_dur = 3, f_cts = -1, f_srcOff = 0\<rparr>]\<rparr> [4096])
   = Some (\<lparr>trackID = 1, baseDecodeTS = 90, hasCTS = True, dataLen = 7,
      seg_samples = [\<lparr>f_size = 7, f_sync = True, f_dts = 90, f_dur = 3, f_cts = -1, f_srcOff = 4096\<rparr>]\<rparr>, [4096])"
  using track_roundtrip [of "[4096]" "\<lparr>trackID = 1, baseDecodeTS = 90, hasCTS = True, dataLen = 7,
      seg_samples = [\<lparr>f_size = 7, f_sync = True, f_dts = 90, f_dur = 3, f_cts = -1, f_srcOff = 0\<rparr>]\<rparr>"] by simp
section \<open>Windows of the table\<close>

lemma length_find_breaks_word: "length (find_breaks i nxt ss offs) < 2 ^ 64" if "length ss < 2 ^ 32"
  using that find_breaks_length [of i nxt ss offs] by simp

lemma read_window_pack:
  assumes "ss \<noteq> []" "length offs = length ss" "length ss < 2 ^ 32" "chained (f_dts (hd ss)) ss"
  shows "read_window (f_dts (hd ss)) (packWindow ss offs) = Some (placed_at ss offs, offs)"
proof -
  define brs where "brs = find_breaks 0 (hd offs) ss offs"
  define dts where "dts = f_dts (hd ss)"
  have n: "unat (word_of_nat (length ss) :: u64) = length ss"
    using assms(3) by (simp add: unsigned_of_nat take_bit_nat_eq_self)
  have nb: "unat (word_of_nat (length brs) :: u64) = length brs"
    using length_find_breaks_word [OF assms(3)] unfolding brs_def by (simp add: unsigned_of_nat take_bit_nat_eq_self)
  have col: "read_column (length ss) (packColumn (map f ss) @ rest) = Some (map f ss, rest)" for f rest
    using read_column_pack [of "map f ss" rest] assms(1) by simp
  have syn: "read_sync (length ss) (pack_sync (map f_sync ss) @ rest) = Some (map f_sync ss, rest)" for rest
    using read_sync_pack [of "map f_sync ss" rest] assms(1) by simp
  have "\<forall>(k, g) \<in> set brs. 0 \<le> k \<and> k < 2 ^ 32"
    using assms(3) find_breaks_range [of _ _ 0 "hd offs" ss offs] unfolding brs_def by fastforce
  then obtain st0 where st0: "next_break 0 (length brs) (pack_breaks 0 brs @ []) = Some st0" "waiting brs st0"
    by (rule next_break_pack)
  obtain b1 gap breaks b' where "st0 = (b1, gap, breaks, b')" by (cases st0)
  note st = st0 [unfolded this]
  have cols: "zip (map (\<lambda>s. ucast (f_size s)) ss) (zip (map f_dur ss) (zip (map (\<lambda>s. zigzag (scast (f_cts s))) ss) (map f_sync ss)))
      = columns ss" by (simp add: columns_def zip_map_map zip_same_conv_map)
  have res: "restore 0 b1 gap breaks b' (hd offs) dts (columns ss) = Some (placed_at ss offs)"
    using assms(2-4) st(2) unfolding brs_def dts_def by (intro restore_pack) simp_all
  have ne: "packWindow ss offs \<noteq> []" by (simp add: packWindow_def AppendUvarint.simps [of "word_of_nat (length ss)"])
  have "read_window dts (packWindow ss offs) = do {
      (nb, gap, breaks, b) \<leftarrow> next_break 0 (length brs) (pack_breaks 0 brs @ []);
      ss' \<leftarrow> restore 0 nb gap breaks b (hd offs) dts (columns ss);
      Some (ss', map f_srcOff ss') }"
    unfolding read_window_def if_not_P [OF ne] unfolding packWindow_def Let_def brs_def [symmetric] append_assoc uvarint_Append
      bind.bind_lunit prod.case n col syn nb cols append_Nil2 by (rule refl)
  then show ?thesis unfolding dts_def [symmetric]
    by (simp add: st(1) [simplified] res srcOff_placed_at [OF assms(2)])
qed

definition spans :: "nat list \<Rightarrow> nat \<Rightarrow> (nat \<times> nat) list" where
  "spans starts n = zip starts (tl starts @ [n])"

definition window_bytes :: "planSample list \<Rightarrow> i64 list \<Rightarrow> nat \<times> nat \<Rightarrow> bytes" where
  "window_bytes ss offs = (\<lambda>(s, e). if e \<le> s then [] else packWindow (slice s e ss) (slice s e offs))"

definition window_dts :: "planSample list \<Rightarrow> nat \<times> nat \<Rightarrow> i64" where
  "window_dts ss = (\<lambda>(s, e). if e \<le> s then 0 else f_dts (ss ! s))"

lemma spans_Cons: "spans (s # starts) n = (s, case starts of [] \<Rightarrow> n | e # _ \<Rightarrow> e) # spans starts n"
  by (cases starts) (simp_all add: spans_def)

lemma add_segments_table:
  "add_segments ss offs starts t =
     t\<lparr>blob := blob t @ concat (map (window_bytes ss offs) (spans starts (length ss))),
       segPos := segPos t @ map (\<lambda>k. word_of_nat (length (blob t)
         + length (concat (map (window_bytes ss offs) (take k (spans starts (length ss))))))) [0..<length starts],
       segDTS := segDTS t @ map (window_dts ss) (spans starts (length ss))\<rparr>"
proof (induction starts arbitrary: t)
  case Nil
  then show ?case by (simp add: spans_def)
next
  case (Cons s starts)
  define e where "e = (case starts of [] \<Rightarrow> length ss | e # _ \<Rightarrow> e)"
  define t' where "t' = t\<lparr>blob := blob t @ window_bytes ss offs (s, e),
    segPos := segPos t @ [word_of_nat (length (blob t))], segDTS := segDTS t @ [window_dts ss (s, e)]\<rparr>"
  have "add_segments ss offs (s # starts) t = add_segments ss offs starts t'"
    by (cases t) (simp add: Let_def e_def [symmetric] t'_def window_bytes_def window_dts_def)
  also note Cons
  also have "[0..<length (s # starts)] = 0 # map Suc [0..<length starts]"
    by (simp add: upt_conv_Cons map_Suc_upt del: upt_Suc)
  ultimately show ?case
    by (simp add: spans_Cons e_def [symmetric] t'_def comp_def add.assoc)
qed

lemma length_spans [simp]: "length (spans starts n) = length starts"
  by (cases starts) (simp_all add: spans_def)

lemma slice_concat:
  "n < length xs \<Longrightarrow>
   slice (length (concat (map f (take n xs)))) (length (concat (map f (take (Suc n) xs)))) (concat (map f xs)) = f (xs ! n)"
proof -
  assume n: "n < length xs"
  have "concat (map f xs) = concat (map f (take n xs)) @ f (xs ! n) @ concat (map f (drop (Suc n) xs))"
    using n by (metis append_take_drop_id Cons_nth_drop_Suc concat.simps(2) concat_append list.simps(9) map_append)
  moreover have "concat (map f (take (Suc n) xs)) = concat (map f (take n xs)) @ f (xs ! n)"
    using n by (simp add: take_Suc_conv_app_nth)
  ultimately show ?thesis by (simp add: slice_def)
qed

lemma length_concat_take: "length (concat (map f (take n xs))) \<le> length (concat (map f xs))"
  by (metis append_take_drop_id concat_append length_append le_add1 map_append)

text \<open>
  C23. Every window of a plan table comes back with the samples and offsets it was built from: the table
  loses nothing but the source offset field, which it sets, provided the decode times run on within a
  window and the packed table stays below 4 GiB.
\<close>

theorem plan_table_lossless:
  assumes "n < length segStart" and "length offs = length ss" and "length ss < 2 ^ 32"
    and "length (blob (newMP4PlanTable ss offs segStart)) < 2 ^ 32"
    and "segStart ! n \<le> length ss" "n + 1 < length segStart \<Longrightarrow> segStart ! (n + 1) \<le> length ss"
  defines "e \<equiv> if n + 1 < length segStart then segStart ! (n + 1) else length ss"
  defines "ws \<equiv> slice (segStart ! n) e ss" and "wo \<equiv> slice (segStart ! n) e offs"
  assumes "ws = [] \<or> chained (f_dts (hd ws)) ws"
  shows "window (newMP4PlanTable ss offs segStart) n = Some (placed_at ws wo, wo)"
proof -
  define s where "s = segStart ! n"
  define sp where "sp = spans segStart (length ss)"
  define t where "t = newMP4PlanTable ss offs segStart"
  let ?wb = "window_bytes ss offs"
  have t: "blob t = concat (map ?wb sp)" "segDTS t = map (window_dts ss) sp"
    "segPos t = map (\<lambda>k. word_of_nat (length (concat (map ?wb (take k sp))))) [0..<Suc (length segStart)]"
    by (simp_all add: t_def newMP4PlanTable_def add_segments_table sp_def Let_def)
  have spn: "sp ! n = (s, e)" using assms(1) by (auto simp add: sp_def spans_def s_def e_def nth_tl nth_append)
  have n: "n < length sp" using assms(1) by (simp add: sp_def)
  have pos: "unat (segPos t ! k) = length (concat (map ?wb (take k sp)))" if "k \<le> length segStart" for k
  proof -
    have "length (concat (map ?wb (take k sp))) < 2 ^ 32"
      using length_concat_take [of ?wb k sp] assms(4) unfolding t_def [symmetric] t(1) by linarith
    then show ?thesis using that by (simp add: t(3) unsigned_of_nat take_bit_nat_eq_self del: upt_Suc)
  qed
  have sl: "slice (unat (segPos t ! n)) (unat (segPos t ! (n + 1))) (blob t) = ?wb (s, e)"
    using slice_concat [OF n, of ?wb] pos [of n] pos [of "n + 1"] assms(1) by (simp add: t(1) spn)
  have d: "segDTS t ! n = window_dts ss (s, e)" using n by (simp add: t(2) spn)
  have le: "e \<le> length ss" using assms(6) by (simp add: e_def)
  show ?thesis
  proof (cases "e \<le> s")
    case True
    then have "ws = []" "wo = []" by (simp_all add: ws_def wo_def s_def slice_def)
    then show ?thesis using True unfolding t_def [symmetric] window_def sl d
      by (simp add: window_bytes_def read_window_def placed_at_def)
  next
    case False
    have lw: "length ws = e - s" "length wo = e - s"
      using le assms(2) by (simp_all add: ws_def wo_def s_def length_slice)
    then have ne: "ws \<noteq> []" using False by auto
    have "hd ws = ss ! s" using ne False le by (simp add: ws_def slice_def s_def hd_drop_conv_nth hd_take)
    then have "read_window (f_dts (ss ! s)) (packWindow ws wo) = Some (placed_at ws wo, wo)"
      using read_window_pack [OF ne, of wo] lw le assms(3,10) ne by simp
    then show ?thesis using False unfolding t_def [symmetric] window_def sl d
      by (simp add: window_bytes_def window_dts_def ws_def wo_def s_def)
  qed
qed
text \<open>A source of two samples, the second away from the first, in one segment.\<close>

definition two_frames :: "planSample list" where
  "two_frames = [\<lparr>f_size = 7, f_sync = True, f_dts = 0, f_dur = 40, f_cts = 3, f_srcOff = 0\<rparr>,
                 \<lparr>f_size = 9, f_sync = False, f_dts = 40, f_dur = 40, f_cts = -1, f_srcOff = 0\<rparr>]"

lemma two_frames_size: "length (blob (newMP4PlanTable two_frames [4096, 9000] [0])) < 100"
  by code_simp

theorem plan_table_lossless_witness:
  "window (newMP4PlanTable two_frames [4096, 9000] [0]) 0 = Some (placed_at two_frames [4096, 9000], [4096, 9000])"
  using plan_table_lossless [of 0 "[0]" "[4096, 9000]" two_frames] two_frames_size
  by (simp add: slice_def) (simp add: two_frames_def)

end
