(* ===== verification/RandomFile.thy ===== *)
theory RandomFile
  imports Prelude
begin

text \<open>
  The interface between the operations that edit a file in place and whatever holds the file: positioned
  writes and a resize, with their effect on the bytes.  The clients (\<open>Journal\<close>, \<open>InPlacePatch\<close>) are
  proved against it; \<open>MemFS\<close> provides it.
\<close>

section \<open>Bytes of a file under writes\<close>

definition resized :: "nat \<Rightarrow> bytes \<Rightarrow> bytes" where
  "resized n c = take n c @ replicate (n - length c) 0"

definition overwrite :: "nat \<Rightarrow> bytes \<Rightarrow> bytes \<Rightarrow> bytes" where
  "overwrite off p c =
     (let c = resized (max (off + length p) (length c)) c in take off c @ p @ drop (off + length p) c)"

named_theorems file_simps \<open>facts on the bytes of a file under writes\<close>

lemma length_resized [simp]: "length (resized n c) = n"
  by (simp add: resized_def)

lemma resized_take [file_simps]: "n \<le> length c \<Longrightarrow> resized n c = take n c"
  by (simp add: resized_def)

lemma resized_self [simp]: "resized (length c) c = c"
  by (simp add: resized_def)

lemma nth_resized: "i < n \<Longrightarrow> resized n c ! i = (if i < length c then c ! i else 0)"
  by (simp add: resized_def nth_append)

lemma length_overwrite [simp]: "length (overwrite off p c) = max (off + length p) (length c)"
  by (simp add: overwrite_def Let_def)

lemma nth_overwrite:
  assumes "i < max (off + length p) (length c)"
  shows "overwrite off p c ! i =
    (if off \<le> i \<and> i < off + length p then p ! (i - off) else if i < length c then c ! i else 0)"
proof -
  let ?c = "resized (max (off + length p) (length c)) c"
  have l: "off \<le> length ?c" "off + length p \<le> length ?c" by simp_all
  have i: "?c ! i = (if i < length c then c ! i else 0)" using nth_resized [OF assms] .
  consider "i < off" | "off \<le> i" "i < off + length p" | "off + length p \<le> i" by linarith
  then show ?thesis
  proof cases
    case 3
    then have n: "\<not> i < off" "\<not> i - off < length p" "off + length p + (i - off - length p) = i" by linarith+
    have "overwrite off p c ! i = drop (off + length p) ?c ! (i - off - length p)"
      using n(1,2) l(1) unfolding overwrite_def Let_def nth_append length_take by (simp only: min.absorb2 if_False)
    also have "\<dots> = ?c ! i" using n(3) l(2) by (simp only: nth_drop)
    finally show ?thesis using 3 i by simp
  qed (use l i in \<open>auto simp add: overwrite_def Let_def nth_append\<close>)
qed

lemma overwrite_inside [file_simps]:
  "off + length p \<le> length c \<Longrightarrow> overwrite off p c = take off c @ p @ drop (off + length p) c"
  by (simp add: overwrite_def max_def)

lemma overwrite_append [simp]: "overwrite (length c) p c = c @ p"
  by (simp add: overwrite_def resized_def)

lemma overwrite_Nil: "off \<le> length c \<Longrightarrow> overwrite off [] c = c"
  by (simp add: overwrite_inside)

lemma overwrite_append_left [file_simps]:
  "off + length p \<le> length c \<Longrightarrow> overwrite off p (c @ d) = overwrite off p c @ d"
  by (simp add: overwrite_inside)

text \<open>Two files that differ only inside a set of positions.\<close>

definition agree_outside :: "(nat \<Rightarrow> bool) \<Rightarrow> bytes \<Rightarrow> bytes \<Rightarrow> bool" where
  "agree_outside Z c d \<longleftrightarrow> length c = length d \<and> (\<forall>i < length c. \<not> Z i \<longrightarrow> c ! i = d ! i)"

lemma agree_refl [simp]: "agree_outside Z c c"
  by (simp add: agree_outside_def)

lemma agree_sym: "agree_outside Z c d \<Longrightarrow> agree_outside Z d c"
  by (simp add: agree_outside_def)

lemma agree_trans: "agree_outside Z c d \<Longrightarrow> agree_outside Z d e \<Longrightarrow> agree_outside Z c e"
  by (simp add: agree_outside_def)

lemma agree_mono: "agree_outside Z c d \<Longrightarrow> (\<And>i. Z i \<Longrightarrow> Y i) \<Longrightarrow> agree_outside Y c d"
  by (auto simp add: agree_outside_def)

lemma agree_nowhere: "agree_outside (\<lambda>i. False) c d \<longleftrightarrow> c = d"
  by (auto simp add: agree_outside_def list_eq_iff_nth_eq)

lemma agree_overwrite:
  "off + length p \<le> length c \<Longrightarrow> (\<And>i. off \<le> i \<Longrightarrow> i < off + length p \<Longrightarrow> Z i) \<Longrightarrow> agree_outside Z (overwrite off p c) c"
  by (auto simp add: agree_outside_def nth_overwrite max_def)

lemma agree_append: "agree_outside Z c d \<Longrightarrow> agree_outside Z (c @ e) (d @ e)"
  by (auto simp add: agree_outside_def nth_append)

lemma agree_take: "agree_outside Z c d \<Longrightarrow> agree_outside Z (take n c) (take n d)"
  by (auto simp add: agree_outside_def)

lemma agree_drop: "agree_outside Z c d \<Longrightarrow> (\<And>i. n \<le> i \<Longrightarrow> \<not> Z i) \<Longrightarrow> drop n c = drop n d"
  by (auto simp add: agree_outside_def list_eq_iff_nth_eq)

text \<open>A write of the bytes that belong there removes its range from the differences.\<close>

lemma restore_zone:
  assumes "agree_outside Z c d" "off + length p \<le> length c" "\<And>i. i < length p \<Longrightarrow> p ! i = d ! (off + i)"
  shows "agree_outside (\<lambda>i. Z i \<and> \<not> (off \<le> i \<and> i < off + length p)) (overwrite off p c) d"
  using assms by (auto simp add: agree_outside_def nth_overwrite max_def)

section \<open>The interface\<close>

locale random_file =
  fixes content :: "'f \<Rightarrow> bytes" and inv :: "'f \<Rightarrow> bool"
    and wr :: "nat \<Rightarrow> bytes \<Rightarrow> 'f \<Rightarrow> 'f" and tr :: "nat \<Rightarrow> 'f \<Rightarrow> 'f"
  assumes inv_wr: "inv f \<Longrightarrow> inv (wr off p f)"
    and inv_tr: "inv f \<Longrightarrow> inv (tr n f)"
    and content_wr: "inv f \<Longrightarrow> content (wr off p f) = overwrite off p (content f)"
    and content_tr: "inv f \<Longrightarrow> content (tr n f) = resized n (content f)"

text \<open>The calls an in-place edit makes on the file, and what they leave.\<close>

datatype file_call = Write nat bytes | Truncate nat | Sync

fun perform :: "(nat \<Rightarrow> bytes \<Rightarrow> 'f \<Rightarrow> 'f) \<Rightarrow> (nat \<Rightarrow> 'f \<Rightarrow> 'f) \<Rightarrow> file_call \<Rightarrow> 'f \<Rightarrow> 'f" where
  "perform wr tr (Write off p) f = wr off p f"
| "perform wr tr (Truncate n) f = tr n f"
| "perform wr tr Sync f = f"

abbreviation on_bytes :: "file_call \<Rightarrow> bytes \<Rightarrow> bytes" where
  "on_bytes \<equiv> perform overwrite resized"

context random_file
begin

lemma content_perform:
  "inv f \<Longrightarrow> inv (perform wr tr c f) \<and> content (perform wr tr c f) = on_bytes c (content f)"
  by (cases c) (simp_all add: inv_wr inv_tr content_wr content_tr)

lemma content_run:
  "inv f \<Longrightarrow> inv (fold (perform wr tr) cs f) \<and> content (fold (perform wr tr) cs f) = fold on_bytes cs (content f)"
  by (induction cs arbitrary: f) (simp_all add: content_perform)

end

text \<open>The bytes themselves are such a file: the specification of every other.\<close>

interpretation plain: random_file "\<lambda>c. c" "\<lambda>_. True" overwrite resized
  by unfold_locales simp_all

end
