(* ===== verification/Crc32.thy ===== *)
theory Crc32
  imports Prelude
begin

text \<open>
  The checksums of \<^verbatim>\<open>hash/crc32\<close> the journals use, bit by bit over the reflected polynomials: IEEE for
  the in-place journal, Castagnoli for the intent record and the rollback delta.
\<close>

definition crc_bit :: "u32 \<Rightarrow> u32 \<Rightarrow> u32" where
  "crc_bit poly c = (if bit c 0 then drop_bit 1 c XOR poly else drop_bit 1 c)"

definition crc_byte :: "u32 \<Rightarrow> byte \<Rightarrow> u32 \<Rightarrow> u32" where
  "crc_byte poly b c = (crc_bit poly ^^ 8) (c XOR ucast b)"

definition crc_update :: "u32 \<Rightarrow> u32 \<Rightarrow> bytes \<Rightarrow> u32" where
  "crc_update poly c bs = NOT (fold (crc_byte poly) bs (NOT c))"

definition crc_ieee :: "bytes \<Rightarrow> u32" where "crc_ieee bs = crc_update 0xEDB88320 0 bs"

definition crc_castagnoli :: "bytes \<Rightarrow> u32" where "crc_castagnoli bs = crc_update 0x82F63B78 0 bs"

lemma crc_update_append: "crc_update poly c (xs @ ys) = crc_update poly (crc_update poly c xs) ys"
  by (simp add: crc_update_def)

text \<open>Evaluation on concrete bytes by the simplifier.\<close>

lemma crc_byte_unroll:
  "crc_byte poly b c = crc_bit poly (crc_bit poly (crc_bit poly (crc_bit poly (crc_bit poly (crc_bit poly (crc_bit poly (crc_bit poly (c XOR ucast b))))))))"
  by (simp add: crc_byte_def eval_nat_numeral)

lemma crc_bit_odd: "crc_bit poly c = (if odd c then c div 2 XOR poly else c div 2)"
  by (simp add: crc_bit_def bit_0 drop_bit_eq_div)

lemmas crc_eval = crc_ieee_def crc_castagnoli_def crc_update_def crc_byte_unroll crc_bit_odd

text \<open>The check values of the two polynomials: the checksums of the nine digits.\<close>

lemma crc_check_values:
  "crc_ieee [0x31, 0x32, 0x33, 0x34, 0x35, 0x36, 0x37, 0x38, 0x39] = 0xCBF43926"
  "crc_castagnoli [0x31, 0x32, 0x33, 0x34, 0x35, 0x36, 0x37, 0x38, 0x39] = 0xE3069283"
  by (simp_all add: crc_eval)

end
