(* ===== verification/Journal.thy ===== *)
theory Journal
  imports RandomFile Crc32 MkvWriter BlockWalk
begin

text \<open>
  The crash-safety journal of the in-place operations (\<^verbatim>\<open>mkv/ops/reindex_inplace.go\<close>): the journal
  appended to the file with the bytes a patch overwrites, the intent record in a head Void that tells
  where the file ended, and the recovery from either.  Reads are functions of the bytes of the file; what
  an operation writes is the list of its calls on the file (\<open>RandomFile\<close>).
\<close>

section \<open>The journal\<close>

definition maxInplaceJournal :: int where "maxInplaceJournal = 16777216"

definition inplaceTrailerLen :: nat where "inplaceTrailerLen = 24"

definition inplaceJournalMagic :: bytes where
  "inplaceJournalMagic = [0x6D, 0x6B, 0x76, 0x67, 0x6F, 0x2E, 0x6A, 0x72, 0x6E, 0x6C, 0x2E, 0x76, 0x31, 0, 0, 0]"

record inplaceZone =
  z_off :: int
  z_orig :: bytes

record inplaceJournal =
  origSize :: int
  zones :: "inplaceZone list"

definition appendUint64 :: "int \<Rightarrow> bytes" where "appendUint64 v = be_enc 8 (word_of_int v :: u64)"

definition appendUint32 :: "nat \<Rightarrow> bytes" where "appendUint32 v = be_enc 4 (word_of_nat v :: u32)"

definition journal_payload :: "int \<Rightarrow> inplaceZone list \<Rightarrow> bytes" where
  "journal_payload origsize zs =
     appendUint64 origsize @ appendUint32 (length zs)
     @ concat (map (\<lambda>z. appendUint64 (z_off z) @ appendUint32 (length (z_orig z)) @ z_orig z) zs)"

text \<open>What \<^verbatim>\<open>writeInPlaceJournal\<close> writes in its one call.\<close>

definition writeInPlaceJournal :: "bytes \<Rightarrow> int \<Rightarrow> inplaceZone list \<Rightarrow> bytes result" where
  "writeInPlaceJournal lead origsize zs =
     (let payload = journal_payload origsize zs in
      if int (length payload) > maxInplaceJournal then Inl (Errf ''journal payload exceeds cap'')
      else Inr (lead @ payload @ appendUint32 (length payload) @ be_enc 4 (crc_ieee payload) @ inplaceJournalMagic))"

fun parse_zones :: "nat \<Rightarrow> bytes \<Rightarrow> inplaceZone list result" where
  "parse_zones 0 b = Inr []"
| "parse_zones (Suc n) b =
     (if length b < 12 then Inl (Errf ''truncated zone header'')
      else let zoff = sint (be_dec (take 8 b) :: u64);
               zlen = unat (be_dec (slice 8 12 b) :: u32);
               b = drop 12 b
           in if zlen > length b then Inl (Errf ''truncated zone data'')
              else bind_r (parse_zones n (drop zlen b)) (\<lambda>zs. Inr (\<lparr>z_off = zoff, z_orig = take zlen b\<rparr> # zs)))"

definition parseInplaceJournalPayload :: "bytes \<Rightarrow> inplaceJournal result" where
  "parseInplaceJournalPayload payload =
     (if length payload < 12 then Inl (Errf ''payload too short'')
      else let osize = sint (be_dec (take 8 payload) :: u64);
               zoneCount = be_dec (slice 8 12 payload) :: u32
           in if zoneCount > word_of_nat ((length payload - 12) div 12)
              then Inl (Errf ''journal declares more zones than fit'')
              else bind_r (parse_zones (unat zoneCount) (drop 12 payload))
                     (\<lambda>zs. Inr \<lparr>origSize = osize, zones = zs\<rparr>))"

definition readInPlaceJournal :: "bytes \<Rightarrow> inplaceJournal option result" where
  "readInPlaceJournal c =
     (if length c < inplaceTrailerLen then Inr None
      else let fileSize = length c;
               trailer = drop (fileSize - inplaceTrailerLen) c
           in if slice 8 24 trailer \<noteq> inplaceJournalMagic then Inr None
              else let payloadLen = uint (be_dec (take 4 trailer) :: u32);
                       wantCRC = be_dec (slice 4 8 trailer) :: u32
                   in if payloadLen > maxInplaceJournal \<or> payloadLen > int (fileSize - inplaceTrailerLen) then Inr None
                      else let payloadOff = fileSize - inplaceTrailerLen - nat payloadLen;
                               payload = slice payloadOff (fileSize - inplaceTrailerLen) c
                           in if crc_ieee payload \<noteq> wantCRC then Inl (Errf ''journal CRC mismatch'')
                              else bind_r (parseInplaceJournalPayload payload) (\<lambda>j.
                                if origSize j < 0 \<or> origSize j > int fileSize
                                then Inl (Errf ''journal origSize out of range'')
                                else if list_ex (\<lambda>z. z_off z < 0 \<or> wrap64 (z_off z + int (length (z_orig z))) > origSize j) (zones j)
                                then Inl (Errf ''journal zone falls outside origSize'')
                                else Inr (Some j)))"

text \<open>The calls of a rollback, for a handle that can or cannot truncate and sync.\<close>

definition rollbackInPlaceJournal :: "bool \<Rightarrow> bool \<Rightarrow> inplaceJournal \<Rightarrow> file_call list result" where
  "rollbackInPlaceJournal can_trunc can_sync j =
     (if \<not> can_trunc then Inl (Errf ''rollback: handle does not support Truncate'')
      else if \<not> can_sync then Inl (Errf ''rollback: handle does not support Sync'')
      else Inr (map (\<lambda>z. Write (nat (z_off z)) (z_orig z)) (zones j) @ [Truncate (nat (origSize j)), Sync]))"

section \<open>The intent record\<close>

definition intentLen :: nat where "intentLen = 64"

definition intentMagic :: bytes where "intentMagic = [0x8A, 0x4D, 0x4B, 0x56, 0x47, 0x4F, 0x49, 0x31]"

definition intentHeadScan :: nat where "intentHeadScan = 1048576"

definition intent_body :: "int \<Rightarrow> bytes" where
  "intent_body osize = intentMagic @ appendUint64 osize @ replicate 44 0"

definition intentBytes :: "int \<Rightarrow> bytes" where
  "intentBytes osize = intent_body osize @ be_enc 4 (crc_castagnoli (intent_body osize))"

definition writeIntent :: "nat \<Rightarrow> int \<Rightarrow> file_call list" where
  "writeIntent off osize = [Write off (intentBytes osize)]"

definition clearIntent :: "nat \<Rightarrow> file_call list" where
  "clearIntent off = [Write off (replicate intentLen 0)]"

definition trimmed :: "bytes \<Rightarrow> bytes" where "trimmed b = rev (dropWhile (\<lambda>x. x = 0) (rev b))"

definition tornIntent :: "bytes \<Rightarrow> bool" where
  "tornIntent r =
     (let k = length (trimmed r) in
      if k = 0 \<or> k = length r then False
      else take (min k (length intentMagic)) r = take (min k (length intentMagic)) intentMagic)"

definition IDEBMLHeader :: u32 where "IDEBMLHeader = 0x1A45DFA3"
definition IDSegment :: u32 where "IDSegment = 0x18538067"

text \<open>
  The children of the Segment passed over before the first Cluster: ID, where the payload starts, where
  it ends.  \<^verbatim>\<open>headVoidEnds\<close> keeps the ends of the Voids.  Every turn takes a header off the head, so as
  much fuel as it has bytes is enough.
\<close>

fun head_children :: "nat \<Rightarrow> nat \<Rightarrow> source \<Rightarrow> (u32 \<times> nat \<times> nat) list" where
  "head_children 0 total_len s = []"
| "head_children (Suc fuel) total_len s =
     (if pending s = [] then []
      else case ReadElementHeader s of
        (Inl _, _) \<Rightarrow> []
      | (Inr (e, _), s) \<Rightarrow>
          if hdr_ID e = IDCluster \<or> hdr_Size e < 0 \<or> hdr_Size e > int (length (pending s)) then []
          else let start = total_len - length (pending s);
                   s = s\<lparr>pending := drop (nat (hdr_Size e)) (pending s)\<rparr>
               in (hdr_ID e, start, start + nat (hdr_Size e)) # head_children fuel total_len s)"

definition children_of_head :: "bytes \<Rightarrow> (u32 \<times> nat \<times> nat) list" where
  "children_of_head head =
     (case ReadElementHeader \<lparr>pending = head, at_end = EOF, byte_reader = True\<rparr> of
        (Inl _, _) \<Rightarrow> []
      | (Inr (h, _), s) \<Rightarrow>
          if hdr_ID h \<noteq> IDEBMLHeader \<or> hdr_Size h < 0 \<or> hdr_Size h > int (length (pending s)) then []
          else (case ReadElementHeader (s\<lparr>pending := drop (nat (hdr_Size h)) (pending s)\<rparr>) of
                  (Inl _, _) \<Rightarrow> []
                | (Inr (seg, _), s) \<Rightarrow>
                    if hdr_ID seg \<noteq> IDSegment then [] else head_children (length head) (length head) s))"

definition headVoidEnds :: "bytes \<Rightarrow> nat list" where
  "headVoidEnds head = map (\<lambda>(_, _, e). e) (filter (\<lambda>(i, _, _). i = IDVoid) (children_of_head head))"

fun find_record :: "bytes \<Rightarrow> nat \<Rightarrow> nat list \<Rightarrow> (nat \<times> int) option" where
  "find_record head fsize [] = None"
| "find_record head fsize (e # es) =
     (if e < intentLen then find_record head fsize es
      else let at = e - intentLen; r = slice at e head in
        if be_dec (drop 60 r) = crc_castagnoli (take 60 r) \<and> take 8 r = intentMagic
        then let orig = sint (be_dec (slice 8 16 r) :: u64)
             in if orig < int e \<or> orig > int fsize then find_record head fsize es else Some (at, orig)
        else if tornIntent r then Some (at, -1)
        else find_record head fsize es)"

definition findIntent :: "bytes \<Rightarrow> (nat \<times> int) option" where
  "findIntent c = (let head = take (min (length c) intentHeadScan) c in find_record head (length c) (headVoidEnds head))"

text \<open>Whether there was a record, and the calls that undo what it stands for.\<close>

definition recoverIntent :: "bytes \<Rightarrow> bool \<times> file_call list" where
  "recoverIntent c =
     (case findIntent c of
        None \<Rightarrow> (False, [])
      | Some (at, orig) \<Rightarrow>
          (True, (if 0 \<le> orig \<and> orig < int (length c) then [Truncate (nat orig)] else []) @ clearIntent at))"

definition pendingInPlacePatch :: "bytes \<Rightarrow> bool result" where
  "pendingInPlacePatch c =
     bind_r (readInPlaceJournal c) (\<lambda>j. Inr (j \<noteq> None \<or> findIntent c \<noteq> None))"

section \<open>Recovery\<close>

text \<open>
  What \<^verbatim>\<open>RecoverInPlace\<close> and the prologue of an in-place operation do to a file: roll back a journal,
  else act on an intent record.  The flag tells whether there was anything to recover.
\<close>

definition RecoverInPlace :: "bool \<Rightarrow> bool \<Rightarrow> bytes \<Rightarrow> (bool \<times> file_call list) result" where
  "RecoverInPlace can_trunc can_sync c =
     (if \<not> can_trunc then Inl (Errf ''recover inplace: file handle does not support Truncate'')
      else bind_r (readInPlaceJournal c) (\<lambda>j. case j of
        None \<Rightarrow> (let (cut, calls) = recoverIntent c
                 in Inr (cut, if cut \<and> can_sync then calls @ [Sync] else calls))
      | Some j \<Rightarrow> bind_r (rollbackInPlaceJournal can_trunc can_sync j) (\<lambda>calls. Inr (True, calls))))"

definition beginInPlacePatch :: "bool \<Rightarrow> bool \<Rightarrow> bytes \<Rightarrow> file_call list result" where
  "beginInPlacePatch can_trunc can_sync c =
     (if \<not> can_trunc then Inl (Errf ''file handle does not support Truncate, cannot patch in place'')
      else if \<not> can_sync then Inl (Errf ''file handle does not support Sync, cannot make the in-place journal crash-safe'')
      else bind_r (readInPlaceJournal c) (\<lambda>j. case j of
        None \<Rightarrow> (let (cut, calls) = recoverIntent c in Inr (if cut then calls @ [Sync] else calls))
      | Some j \<Rightarrow> rollbackInPlaceJournal can_trunc can_sync j))"
section \<open>The journal read back\<close>

definition zone_ok :: "int \<Rightarrow> inplaceZone \<Rightarrow> bool" where
  "zone_ok n z \<longleftrightarrow> 0 \<le> z_off z \<and> z_off z + int (length (z_orig z)) \<le> n"

lemma appendUint64_len [simp]: "length (appendUint64 v) = 8" and appendUint32_len [simp]: "length (appendUint32 n) = 4"
  by (simp_all add: appendUint64_def appendUint32_def)

lemma dec_appendUint64: "in_int64 v \<Longrightarrow> sint (be_dec (appendUint64 v) :: u64) = v"
  by (simp add: appendUint64_def signed_of_int signed_take_bit_int_eq_self in_int64_def int64_min_def int64_max_def)

lemma dec_appendUint32: "n < 2 ^ 32 \<Longrightarrow> unat (be_dec (appendUint32 n) :: u32) = n"
  by (simp add: appendUint32_def unsigned_of_nat take_bit_nat_eq_self)

text \<open>What the range check of the reader lets through.\<close>

definition zone_passes :: "int \<Rightarrow> inplaceZone \<Rightarrow> bool" where
  "zone_passes n z \<longleftrightarrow> in_int64 (z_off z) \<and> 0 \<le> z_off z \<and> wrap64 (z_off z + int (length (z_orig z))) \<le> n"

lemma zone_ok_passes: "zone_ok n z \<Longrightarrow> n < 2 ^ 63 \<Longrightarrow> zone_passes n z"
  by (simp add: zone_passes_def zone_ok_def in_int64_def int64_min_def int64_max_def)

definition zone_bytes :: "inplaceZone \<Rightarrow> bytes" where
  "zone_bytes z = appendUint64 (z_off z) @ appendUint32 (length (z_orig z)) @ z_orig z"

lemma parse_zones_written:
  assumes "list_all (\<lambda>z. in_int64 (z_off z) \<and> length (z_orig z) < 2 ^ 32) zs"
  shows "parse_zones (length zs) (concat (map zone_bytes zs) @ rest) = Inr zs"
  using assms
proof (induction zs)
  case (Cons z zs)
  let ?b = "concat (map zone_bytes zs) @ rest"
  have b: "concat (map zone_bytes (z # zs)) @ rest = appendUint64 (z_off z) @ appendUint32 (length (z_orig z)) @ z_orig z @ ?b"
    by (simp add: zone_bytes_def)
  have "slice 8 12 (appendUint64 (z_off z) @ appendUint32 (length (z_orig z)) @ z_orig z @ ?b) = appendUint32 (length (z_orig z))"
    by (simp add: slice_def)
  with Cons show ?case unfolding b
    by (simp add: Let_def dec_appendUint64 dec_appendUint32)
qed simp

lemma length_zone_bytes: "12 * length zs \<le> length (concat (map zone_bytes zs))"
  by (induction zs) (simp_all add: zone_bytes_def)

lemma zone_in_payload: "z \<in> set zs \<Longrightarrow> length (z_orig z) \<le> length (concat (map zone_bytes zs))"
  by (induction zs) (auto simp add: zone_bytes_def)

lemma journal_payload_eq: "journal_payload n zs = appendUint64 n @ appendUint32 (length zs) @ concat (map zone_bytes zs)"
  by (simp add: journal_payload_def zone_bytes_def [abs_def])

lemma parse_payload_written:
  assumes n: "0 \<le> n" "n < 2 ^ 63" and z: "list_all (zone_passes n) zs" and l: "int (length (journal_payload n zs)) \<le> maxInplaceJournal"
  shows "parseInplaceJournalPayload (journal_payload n zs) = Inr \<lparr>origSize = n, zones = zs\<rparr>"
proof -
  have l': "length (concat (map zone_bytes zs)) < 2 ^ 24" using l by (simp add: journal_payload_eq maxInplaceJournal_def)
  have k: "length zs < 2 ^ 24" using length_zone_bytes [of zs] l' by simp
  have q: "length zs \<le> length (concat (map zone_bytes zs)) div 12" using length_zone_bytes [of zs] by simp
  have q': "length (concat (map zone_bytes zs)) div 12 < 2 ^ 32" using l' by simp
  have zc: "\<not> (word_of_nat (length zs) :: u32) > word_of_nat (length (concat (map zone_bytes zs)) div 12)"
    using q q' k by (simp add: word_less_nat_alt unsigned_of_nat take_bit_nat_eq_self)
  have zs: "list_all (\<lambda>z. in_int64 (z_off z) \<and> length (z_orig z) < 2 ^ 32) zs"
    using z l' zone_in_payload [of _ zs] by (fastforce simp add: list_all_iff zone_passes_def)
  have d: "be_dec (appendUint32 (length zs)) = (word_of_nat (length zs) :: u32)" by (simp add: appendUint32_def)
  have u: "unat (word_of_nat (length zs) :: u32) = length zs" using k by (simp add: unsigned_of_nat take_bit_nat_eq_self)
  have i: "in_int64 n" using n by (simp add: in_int64_def int64_min_def int64_max_def)
  have s: "slice 8 12 (journal_payload n zs) = appendUint32 (length zs)"
    and t: "take 8 (journal_payload n zs) = appendUint64 n" and r: "drop 12 (journal_payload n zs) = concat (map zone_bytes zs) @ []"
    and len: "length (journal_payload n zs) = 12 + length (concat (map zone_bytes zs))"
    by (simp_all add: journal_payload_eq slice_def)
  show ?thesis
    using parse_zones_written [OF zs, of "[]"] zc
    unfolding parseInplaceJournalPayload_def Let_def s t r len d u dec_appendUint64 [OF i] by simp
qed

lemma readInPlaceJournal_written:
  assumes n: "0 \<le> n" "n < 2 ^ 63" "n \<le> int (length pre)" and z: "list_all (zone_passes n) zs"
    and w: "writeInPlaceJournal lead n zs = Inr tail"
  shows "readInPlaceJournal (pre @ tail) = Inr (Some \<lparr>origSize = n, zones = zs\<rparr>)"
proof -
  define pl where "pl = journal_payload n zs"
  define tr where "tr = appendUint32 (length pl) @ be_enc 4 (crc_ieee pl) @ inplaceJournalMagic"
  have l: "int (length pl) \<le> maxInplaceJournal" and tail: "tail = lead @ pl @ tr"
    using w by (auto simp add: writeInPlaceJournal_def Let_def pl_def tr_def split: if_splits)
  have ltr: "length tr = 24" by (simp add: tr_def inplaceJournalMagic_def)
  define c where "c = pre @ tail"
  have lc: "length c = length pre + length lead + length pl + 24" by (simp add: c_def tail ltr)
  have trl: "drop (length c - inplaceTrailerLen) c = tr" by (simp add: lc c_def tail inplaceTrailerLen_def ltr)
  have m: "slice 8 24 tr = inplaceJournalMagic" by (simp add: tr_def slice_def inplaceJournalMagic_def)
  have p32: "length pl < 2 ^ 32" using l by (simp add: maxInplaceJournal_def)
  have pn: "uint (be_dec (take 4 tr) :: u32) = int (length pl)"
    using dec_appendUint32 [OF p32] by (simp add: tr_def uint_nat)
  have cr: "be_dec (slice 4 8 tr) = crc_ieee pl" by (simp add: tr_def slice_def)
  have pay: "slice (length c - inplaceTrailerLen - length pl) (length c - inplaceTrailerLen) c = pl"
    by (simp add: lc c_def tail inplaceTrailerLen_def ltr slice_def)
  have osz: "\<not> n > int (length c)" using n(3) lc by simp
  have chk: "\<not> list_ex (\<lambda>z. z_off z < 0 \<or> wrap64 (z_off z + int (length (z_orig z))) > n) zs"
    using z by (force simp add: list_ex_iff list_all_iff zone_passes_def)
  have ps: "parseInplaceJournalPayload pl = Inr \<lparr>origSize = n, zones = zs\<rparr>"
    using parse_payload_written [OF n(1,2) z] l by (simp add: pl_def)
  have "\<not> length c < inplaceTrailerLen" "\<not> int (length pl) > int (length c - inplaceTrailerLen)" "\<not> int (length pl) > maxInplaceJournal"
    using lc l by (simp_all add: inplaceTrailerLen_def)
  then show ?thesis
    using osz chk n(1) ps
    unfolding c_def [symmetric] readInPlaceJournal_def Let_def trl m pn cr nat_int pay by simp
qed
section \<open>Rolling back\<close>

definition in_zones :: "inplaceZone list \<Rightarrow> nat \<Rightarrow> bool" where
  "in_zones zs i \<longleftrightarrow> list_ex (\<lambda>z. nat (z_off z) \<le> i \<and> i < nat (z_off z) + length (z_orig z)) zs"

text \<open>The zones hold the bytes of the original file.\<close>

definition captured :: "bytes \<Rightarrow> inplaceZone \<Rightarrow> bool" where
  "captured orig z \<longleftrightarrow> zone_ok (int (length orig)) z \<and> z_orig z = slice (nat (z_off z)) (nat (z_off z) + length (z_orig z)) orig"

lemma captured_zone:
  assumes "captured orig z"
  shows "nat (z_off z) + length (z_orig z) \<le> length orig"
    and "i < length (z_orig z) \<Longrightarrow> z_orig z ! i = orig ! (nat (z_off z) + i)"
proof -
  show l: "nat (z_off z) + length (z_orig z) \<le> length orig" using assms by (auto simp add: captured_def zone_ok_def)
  assume i: "i < length (z_orig z)"
  have "z_orig z ! i = slice (nat (z_off z)) (nat (z_off z) + length (z_orig z)) orig ! i"
    using assms unfolding captured_def by metis
  also have "\<dots> = orig ! (nat (z_off z) + i)" using i l by (simp add: slice_def nth_append)
  finally show "z_orig z ! i = orig ! (nat (z_off z) + i)" .
qed

lemma restore_zones:
  assumes "list_all (captured orig) zs" "agree_outside (in_zones zs) c (orig @ rest)"
  shows "fold on_bytes (map (\<lambda>z. Write (nat (z_off z)) (z_orig z)) zs) c = orig @ rest"
  using assms
proof (induction zs arbitrary: c)
  case Nil
  then show ?case by (simp add: in_zones_def [abs_def] agree_nowhere)
next
  case (Cons z zs)
  let ?o = "nat (z_off z)" and ?p = "z_orig z"
  have cz: "captured orig z" using Cons.prems(1) by simp
  have lc: "length c = length orig + length rest" using Cons.prems(2) by (simp add: agree_outside_def)
  have "agree_outside (\<lambda>i. in_zones (z # zs) i \<and> \<not> (?o \<le> i \<and> i < ?o + length ?p)) (overwrite ?o ?p c) (orig @ rest)"
    using captured_zone [OF cz] lc by (intro restore_zone [OF Cons.prems(2)]) (auto simp add: nth_append)
  then have "agree_outside (in_zones zs) (overwrite ?o ?p c) (orig @ rest)"
    by (rule agree_mono) (auto simp add: in_zones_def)
  with Cons show ?case by simp
qed

context random_file
begin

text \<open>Whatever the zones hold, the calls of a rollback leave the original file.\<close>

lemma rollback_restores:
  assumes "inv f" "list_all (captured orig) zs" "agree_outside (in_zones zs) (content f) (orig @ rest)"
    and "rollbackInPlaceJournal True True \<lparr>origSize = int (length orig), zones = zs\<rparr> = Inr calls"
  shows "content (fold (perform wr tr) calls f) = orig"
proof -
  have calls: "calls = map (\<lambda>z. Write (nat (z_off z)) (z_orig z)) zs @ [Truncate (length orig), Sync]"
    using assms(4) by (simp add: rollbackInPlaceJournal_def)
  have "content (fold (perform wr tr) calls f) = fold on_bytes calls (content f)"
    using content_run [OF assms(1)] by simp
  also have "\<dots> = resized (length orig) (orig @ rest)"
    using restore_zones [OF assms(2,3)] by (simp add: calls)
  finally show ?thesis by (simp add: resized_def)
qed

end

section \<open>Headers read from their own bytes only\<close>

text \<open>
  A successful read depends on no more than the bytes it takes: whatever follows them can be replaced.
\<close>

definition local_read :: "(source \<Rightarrow> 'a result \<times> source) \<Rightarrow> bool" where
  "local_read f \<longleftrightarrow> (\<forall>s x s'. f s = (Inr x, s') \<longrightarrow>
     (\<exists>h. pending s = h @ pending s' \<and> s' = s\<lparr>pending := pending s'\<rparr> \<and>
          (\<forall>t. f (s\<lparr>pending := h @ t\<rparr>) = (Inr x, s\<lparr>pending := t\<rparr>))))"

lemma local_readD:
  assumes "local_read f" "f s = (Inr x, s')"
  obtains h where "pending s = h @ pending s'" "s' = s\<lparr>pending := pending s'\<rparr>"
    "\<And>t. f (s\<lparr>pending := h @ t\<rparr>) = (Inr x, s\<lparr>pending := t\<rparr>)"
  using assms unfolding local_read_def by blast

lemma local_readI:
  assumes "\<And>s x s'. f s = (Inr x, s') \<Longrightarrow>
     \<exists>h. pending s = h @ pending s' \<and> s' = s\<lparr>pending := pending s'\<rparr> \<and> (\<forall>t. f (s\<lparr>pending := h @ t\<rparr>) = (Inr x, s\<lparr>pending := t\<rparr>))"
  shows "local_read f"
  unfolding local_read_def using assms by blast

lemma local_read_bind:
  assumes f: "local_read f" and g: "\<And>x. local_read (g x)"
  shows "local_read (\<lambda>s. case f s of (Inl e, s) \<Rightarrow> (Inl e, s) | (Inr x, s) \<Rightarrow> g x s)"
proof (rule local_readI)
  fix s y s''
  assume a: "(case f s of (Inl e, s) \<Rightarrow> (Inl e, s) | (Inr x, s) \<Rightarrow> g x s) = (Inr y, s'')"
  then obtain x s' where x: "f s = (Inr x, s')" "g x s' = (Inr y, s'')" by (auto split: prod.splits sum.splits)
  obtain h where h: "pending s = h @ pending s'" "s' = s\<lparr>pending := pending s'\<rparr>"
    "\<And>t. f (s\<lparr>pending := h @ t\<rparr>) = (Inr x, s\<lparr>pending := t\<rparr>)"
    using local_readD [OF f x(1)] by metis
  obtain k where k: "pending s' = k @ pending s''" "s'' = s'\<lparr>pending := pending s''\<rparr>"
    "\<And>t. g x (s'\<lparr>pending := k @ t\<rparr>) = (Inr y, s'\<lparr>pending := t\<rparr>)"
    using local_readD [OF g x(2)] by metis
  have s': "s'\<lparr>pending := u\<rparr> = s\<lparr>pending := u\<rparr>" for u by (subst h(2)) simp
  have "pending s = (h @ k) @ pending s''" using h(1) k(1) by simp
  moreover have "s'' = s\<lparr>pending := pending s''\<rparr>" using k(2) s' by metis
  moreover have "f (s\<lparr>pending := (h @ k) @ t\<rparr>) = (Inr x, s\<lparr>pending := k @ t\<rparr>)" for t using h(3) by simp
  ultimately show "\<exists>h. pending s = h @ pending s'' \<and> s'' = s\<lparr>pending := pending s''\<rparr> \<and>
      (\<forall>t. (case f (s\<lparr>pending := h @ t\<rparr>) of (Inl e, s) \<Rightarrow> (Inl e, s) | (Inr x, s) \<Rightarrow> g x s) = (Inr y, s\<lparr>pending := t\<rparr>))"
    using k(3) unfolding s' by (intro exI [of _ "h @ k"]) simp
qed

lemma local_read_return: "local_read (\<lambda>s. (r, s))"
  by (rule local_readI) (auto intro!: exI [of _ "[]"])

lemma local_read_full: "local_read (read_full n)"
proof (rule local_readI)
  fix s x s' assume "read_full n s = (Inr x, s')"
  then show "\<exists>h. pending s = h @ pending s' \<and> s' = s\<lparr>pending := pending s'\<rparr> \<and>
      (\<forall>t. read_full n (s\<lparr>pending := h @ t\<rparr>) = (Inr x, s\<lparr>pending := t\<rparr>))"
    by (intro exI [of _ "take n (pending s)"]) (auto simp add: read_full_def split: if_splits)
qed

lemma local_read_if: "local_read f \<Longrightarrow> local_read g \<Longrightarrow> local_read (\<lambda>s. if b then f s else g s)"
  by (cases b) simp_all

lemma local_ReadVINT: "local_read ReadVINT"
proof -
  have "local_read (\<lambda>s. case read_full 1 s of (Inl e, s1) \<Rightarrow> (Inl e, s1)
      | (Inr first, s1) \<Rightarrow>
          (if first ! 0 = 0 then (Inl (Errf ''invalid VINT: leading zero byte''), s1)
          else if vint_width (first ! 0) > 1 then
              (case read_full (vint_width (first ! 0) - 1) s1 of
                 (Inl e, s2) \<Rightarrow> (Inl e, s2)
               | (Inr rest, s2) \<Rightarrow> (Inr (be_acc (ucast (first ! 0)) rest, vint_width (first ! 0)), s2))
            else (Inr (ucast (first ! 0), vint_width (first ! 0)), s1)))"
    by (intro local_read_bind local_read_full local_read_if local_read_return)
  then show ?thesis unfolding ReadVINT_eq [abs_def] ReadVINT_full_def [abs_def] Let_def .
qed

lemma local_read_pair: "(\<And>a b. local_read (g a b)) \<Longrightarrow> local_read (\<lambda>s. case p of (a, b) \<Rightarrow> g a b s)"
  by (cases p) simp

lemmas local_reads = local_read_bind local_read_pair local_read_if local_read_return

lemma local_ReadElementID: "local_read ReadElementID"
  unfolding ReadElementID_def [abs_def] by (intro local_reads local_ReadVINT)

lemma local_ReadDataSize: "local_read ReadDataSize"
  unfolding ReadDataSize_def [abs_def] Let_def by (intro local_reads local_ReadVINT)

lemma local_ReadElementHeader: "local_read ReadElementHeader"
  unfolding ReadElementHeader_def [abs_def] by (intro local_reads local_ReadElementID local_ReadDataSize)
section \<open>The intent record found again\<close>

lemma head_children_positions:
  assumes "head_children fuel T s = es" "length (pending s) \<le> T" "(i, p, e) \<in> set es"
  shows "T - length (pending s) \<le> p \<and> p \<le> e \<and> e \<le> T"
  using assms
proof (induction fuel arbitrary: s es)
  case (Suc fuel)
  obtain r s1 where h: "ReadElementHeader s = (r, s1)" by fastforce
  then obtain hd n where r: "r = Inr (hd, n)" using Suc.prems by (cases r) (auto split: if_splits)
  have l: "length (pending s1) \<le> length (pending s)" using ReadElementHeader_consumes [OF h] by simp
  let ?s2 = "s1\<lparr>pending := drop (nat (hdr_Size hd)) (pending s1)\<rparr>"
  have c: "0 \<le> hdr_Size hd" "hdr_Size hd \<le> int (length (pending s1))"
    and es: "es = (hdr_ID hd, T - length (pending s1), T - length (pending s1) + nat (hdr_Size hd)) # head_children fuel T ?s2"
    using Suc.prems(1,3) h r by (auto simp add: Let_def split: if_splits)
  from Suc.prems(3) es consider "p = T - length (pending s1)" "e = T - length (pending s1) + nat (hdr_Size hd)"
    | "(i, p, e) \<in> set (head_children fuel T ?s2)" by auto
  then show ?case
  proof cases
    case 1
    then show ?thesis using c l Suc.prems(2) by auto
  next
    case 2
    have "T - length (pending s) \<le> T - length (pending ?s2)" using l by (intro diff_le_mono2) simp
    moreover have "length (pending ?s2) \<le> T" using l Suc.prems(2) by simp
    ultimately show ?thesis using Suc.IH [OF refl _ 2] by (meson le_trans)
  qed
qed auto

text \<open>A header read at a position of a file is read from the bytes up to where it ends.\<close>

lemma header_in_file:
  assumes "ReadElementHeader (s\<lparr>pending := drop q c\<rparr>) = (Inr x, s1)"
  obtains st where "q < st" "st \<le> length c" "s1 = s\<lparr>pending := drop st c\<rparr>"
    "\<And>d. take st d = take st c \<Longrightarrow> ReadElementHeader (s\<lparr>pending := drop q d\<rparr>) = (Inr x, s\<lparr>pending := drop st d\<rparr>)"
proof -
  let ?s = "s\<lparr>pending := drop q c\<rparr>"
  obtain hb where hb: "pending ?s = hb @ pending s1" "s1 = ?s\<lparr>pending := pending s1\<rparr>"
    "\<And>t. ReadElementHeader (?s\<lparr>pending := hb @ t\<rparr>) = (Inr x, ?s\<lparr>pending := t\<rparr>)"
    using local_readD [OF local_ReadElementHeader assms] by metis
  define st where "st = q + length hb"
  have p1: "pending s1 = drop st c"
  proof -
    have "drop (length hb) (hb @ pending s1) = drop (length hb) (drop q c)" using hb(1) by simp
    then show ?thesis by (simp add: st_def add.commute)
  qed
  have hb0: "hb \<noteq> []" using ReadElementHeader_consumes [OF assms] hb(1) by auto
  have "length c - q = length hb + (length c - st)" using arg_cong [of _ _ length, OF hb(1)] p1 by simp
  moreover have "length hb \<noteq> 0" using hb0 by simp
  ultimately have stc: "st \<le> length c" unfolding st_def by linarith
  have read: "ReadElementHeader (s\<lparr>pending := drop q d\<rparr>) = (Inr x, s\<lparr>pending := drop st d\<rparr>)" if "take st d = take st c" for d
  proof -
    have "drop q d = take (length hb) (drop q d) @ drop st d"
      by (metis append_take_drop_id drop_drop st_def add.commute)
    also have "take (length hb) (drop q d) = drop q (take st d)" by (simp add: st_def drop_take)
    also have "\<dots> = take (length hb) (drop q c)" by (simp add: that) (simp add: st_def drop_take)
    also have "\<dots> = hb" using hb(1) by simp
    finally have "drop q d = hb @ drop st d" .
    then show ?thesis using hb(3) [of "drop st d"] by simp
  qed
  show thesis using hb0 stc hb(2) p1 read by (intro that [of st]) (simp_all add: st_def)
qed

text \<open>
  A child stays in the list when the bytes from its payload on change, in a head no shorter than before.
\<close>

lemma head_children_change:
  assumes "head_children fuel (length c) (s\<lparr>pending := drop q c\<rparr>) = xs @ (i, p, e) # ys"
    and "length c \<le> length d" "take p d = take p c" "fuel \<le> fuel'"
  shows "q \<le> p \<and> (\<exists>ys'. head_children fuel' (length d) (s\<lparr>pending := drop q d\<rparr>) = xs @ (i, p, e) # ys')"
  using assms
proof (induction fuel arbitrary: fuel' q xs)
  case (Suc fuel)
  obtain f' where f': "fuel' = Suc f'" "fuel \<le> f'" using Suc.prems(4) by (cases fuel') auto
  obtain r s1 where h: "ReadElementHeader (s\<lparr>pending := drop q c\<rparr>) = (r, s1)" by fastforce
  then obtain hd n where r: "r = Inr (hd, n)" using Suc.prems(1) by (cases r) (auto split: if_splits)
  obtain st where st: "q < st" "st \<le> length c" "s1 = s\<lparr>pending := drop st c\<rparr>"
    "take st d = take st c \<Longrightarrow> ReadElementHeader (s\<lparr>pending := drop q d\<rparr>) = (Inr (hd, n), s\<lparr>pending := drop st d\<rparr>)"
    using header_in_file [OF h [unfolded r]] by metis
  let ?e = "st + nat (hdr_Size hd)"
  have c: "hdr_ID hd \<noteq> IDCluster" "0 \<le> hdr_Size hd" "hdr_Size hd \<le> int (length c - st)"
    and es: "xs @ (i, p, e) # ys = (hdr_ID hd, st, ?e) # head_children fuel (length c) (s\<lparr>pending := drop ?e c\<rparr>)"
    using Suc.prems(1) h r st(2) by (auto simp add: Let_def st(3) add.commute split: if_splits)
  have IH: "?e \<le> p \<and> (\<exists>ys'. head_children f' (length d) (s\<lparr>pending := drop ?e d\<rparr>) = xs' @ (i, p, e) # ys')"
    if "xs = x # xs'" for x xs'
    using Suc.IH [OF _ Suc.prems(2,3) f'(2), of ?e xs'] es that by simp
  have stp: "st \<le> p" using es IH by (cases xs) force+
  then have "take st d = take st c" using Suc.prems(3) by (metis min.absorb1 take_take)
  note hd' = st(4) [OF this]
  have "hdr_Size hd \<le> int (length d - st)" "st \<le> length d" "drop q d \<noteq> []" using c(3) Suc.prems(2) st(1,2) by auto
  then have es': "head_children fuel' (length d) (s\<lparr>pending := drop q d\<rparr>)
      = (hdr_ID hd, st, ?e) # head_children f' (length d) (s\<lparr>pending := drop ?e d\<rparr>)"
    using c by (simp add: f' hd' Let_def add.commute)
  show ?case using es es' IH stp st(1) by (cases xs) fastforce+
qed simp

lemma children_of_head_change:
  assumes "children_of_head c = xs @ (i, p, e) # ys" and "length c \<le> length d" "take p d = take p c"
  shows "\<exists>ys'. children_of_head d = xs @ (i, p, e) # ys'"
proof -
  let ?s = "\<lambda>x. \<lparr>pending = x, at_end = EOF, byte_reader = True\<rparr>"
  obtain r s1 where h: "ReadElementHeader (?s c) = (r, s1)" by fastforce
  then obtain h1 n where r: "r = Inr (h1, n)" using assms(1) by (cases r) (auto simp add: children_of_head_def)
  obtain a where a: "a \<le> length c" "s1 = ?s (drop a c)"
    "take a d = take a c \<Longrightarrow> ReadElementHeader (?s d) = (Inr (h1, n), ?s (drop a d))"
    using header_in_file [of 0 c "?s c" "(h1, n)" s1] h r by (metis drop0 pending_update_id source.select_convs(1) source.update_convs(1))
  have c1: "hdr_ID h1 = IDEBMLHeader" "0 \<le> hdr_Size h1" "hdr_Size h1 \<le> int (length c - a)"
    using assms(1) h r a(2) by (auto simp add: children_of_head_def split: if_splits)
  let ?b = "a + nat (hdr_Size h1)"
  obtain r2 s2 where h2: "ReadElementHeader (?s (drop ?b c)) = (r2, s2)" by fastforce
  then obtain h3 m where r2: "r2 = Inr (h3, m)"
    using assms(1) h r a(2) c1 by (cases r2) (auto simp add: children_of_head_def add.commute)
  obtain z where z: "?b < z" "z \<le> length c" "s2 = ?s (drop z c)"
    "take z d = take z c \<Longrightarrow> ReadElementHeader (?s (drop ?b d)) = (Inr (h3, m), ?s (drop z d))"
    using header_in_file [of ?b c "?s c" "(h3, m)" s2] h2 r2 by (metis source.update_convs(1))
  have c2: "hdr_ID h3 = IDSegment" "head_children (length c) (length c) (?s (drop z c)) = xs @ (i, p, e) # ys"
    using assms(1) h r a(2) c1 h2 r2 z(3) by (auto simp add: children_of_head_def add.commute split: if_splits)
  have hc: "z \<le> p \<and> (\<exists>ys'. head_children (length d) (length d) (?s (drop z d)) = xs @ (i, p, e) # ys')"
    using head_children_change [of "length c" c z "?s c" xs i p e ys d "length d"] c2(2) assms(2,3) by simp
  then have t: "take z d = take z c" "take a d = take a c"
    using assms(3) z(1) by (metis min.absorb1 take_take, metis min.absorb1 take_take le_add1 le_trans less_imp_le)
  have "hdr_Size h1 \<le> int (length d - a)" using c1(3) assms(2) by simp
  then show ?thesis
    using hc c1(1,2) c2(1) a(3) [OF t(2)] z(4) [OF t(1)] by (simp add: children_of_head_def add.commute)
qed
text \<open>
  A Void tail that holds neither an intent record nor the start of one, and an intent record of which
  the first \<open>k\<close> bytes landed on zeros.  A record cut inside the size it names must not carry a valid
  checksum, which is then the zeros behind it.
\<close>

definition no_record :: "bytes \<Rightarrow> nat \<Rightarrow> bool" where
  "no_record head e \<longleftrightarrow> e < intentLen \<or>
     (let r = slice (e - intentLen) e head in
      \<not> (be_dec (drop 60 r) = crc_castagnoli (take 60 r) \<and> take 8 r = intentMagic) \<and> \<not> tornIntent r)"

definition torn_record :: "nat \<Rightarrow> int \<Rightarrow> bytes" where
  "torn_record k osize = take k (intentBytes osize) @ replicate (64 - k) 0"

definition tears_show :: "int \<Rightarrow> bool" where
  "tears_show osize \<longleftrightarrow> list_all (\<lambda>k. crc_castagnoli (take k (intent_body osize) @ replicate (60 - k) 0) \<noteq> 0) [8..<16]"

lemma length_intent [simp]: "length intentMagic = 8" "length (intent_body n) = 60" "length (intentBytes n) = 64"
  by (simp_all add: intentMagic_def intent_body_def intentBytes_def)

lemma length_torn [simp]: "k \<le> 64 \<Longrightarrow> length (torn_record k n) = 64"
  by (simp add: torn_record_def)

lemma take_torn: "j \<le> k \<Longrightarrow> k \<le> 64 \<Longrightarrow> take j (torn_record k n) = take j (intentBytes n)"
  by (simp add: torn_record_def)

lemma torn_head: "k \<le> 60 \<Longrightarrow> take 60 (torn_record k n) = take k (intent_body n) @ replicate (60 - k) 0"
  by (simp add: torn_record_def intentBytes_def)

lemma torn_body: "16 \<le> k \<Longrightarrow> k \<le> 64 \<Longrightarrow> take 60 (torn_record k n) = intent_body n"
proof (cases "k \<le> 60")
  case True
  assume k: "16 \<le> k"
  have m: "intent_body n = (intentMagic @ appendUint64 n) @ replicate 44 0" by (simp add: intent_body_def)
  obtain j where j: "k = 16 + j" using k le_Suc_ex by blast
  then have "j \<le> 44" using True by simp
  show ?thesis unfolding torn_head [OF True] m using j \<open>j \<le> 44\<close> by (simp flip: replicate_add)
next
  case False
  assume "k \<le> 64"
  with False show ?thesis using take_torn [of 60 k n] by (simp add: intentBytes_def)
qed

lemma dec_zeros: "be_dec (replicate n 0) = (0 :: 'a::len word)"
  by (induction n) (simp_all add: be_dec_def)

lemma trimmed_length: "length (trimmed b) \<le> length b"
  unfolding trimmed_def by (metis length_dropWhile_le length_rev)

lemma trimmed_zeros: "trimmed (b @ replicate n 0) = trimmed b"
  unfolding trimmed_def rev_append rev_replicate by (subst dropWhile_append2) auto

lemma trimmed_Nil: "trimmed b = [] \<longleftrightarrow> set b \<subseteq> {0}"
  by (auto simp add: trimmed_def dropWhile_eq_Nil_conv)

lemma torn_is_torn:
  assumes "0 < k" "k < 64"
  shows "tornIntent (torn_record k n)"
proof -
  let ?m = "length (trimmed (torn_record k n))"
  have t: "trimmed (torn_record k n) = trimmed (take k (intentBytes n))" by (simp add: torn_record_def trimmed_zeros)
  have "0x8A \<in> set (take k (intentBytes n))"
    using assms(1) by (cases k) (simp_all add: intentBytes_def intent_body_def intentMagic_def)
  then have "\<not> set (take k (intentBytes n)) \<subseteq> {0}" by force
  then have m0: "?m \<noteq> 0" unfolding t length_0_conv trimmed_Nil .
  have mk: "?m \<le> k" using trimmed_length [of "take k (intentBytes n)"] assms(2) by (simp add: t)
  have "take (min ?m 8) (torn_record k n) = take (min ?m 8) (intentBytes n)"
    using mk assms(2) by (intro take_torn) auto
  also have "\<dots> = take (min ?m 8) intentMagic" by (simp add: intentBytes_def intent_body_def)
  finally show ?thesis using m0 mk assms(2) by (simp add: tornIntent_def Let_def)
qed

lemma intact_record:
  "be_dec (drop 60 (intentBytes n)) = crc_castagnoli (take 60 (intentBytes n))" "take 8 (intentBytes n) = intentMagic"
  "in_int64 n \<Longrightarrow> sint (be_dec (slice 8 16 (intentBytes n)) :: u64) = n"
  by (simp_all add: intentBytes_def intent_body_def slice_def dec_appendUint64)

text \<open>A record cut short either fails the test of a whole one or is the whole one.\<close>

lemma torn_or_whole:
  assumes "tears_show n" "k \<le> 64" "take 8 (torn_record k n) = intentMagic"
    and "be_dec (drop 60 (torn_record k n)) = crc_castagnoli (take 60 (torn_record k n))"
  shows "torn_record k n = intentBytes n"
proof -
  consider "k < 8" | "8 \<le> k" "k < 16" | "16 \<le> k" by linarith
  then show ?thesis
  proof cases
    case 1
    have "last intentMagic = (0x31 :: byte)" by (simp add: intentMagic_def)
    moreover have "take 8 (torn_record k n) = take k (intentBytes n) @ replicate (8 - k) 0" using 1 by (simp add: torn_record_def)
    then have "last (take 8 (torn_record k n)) = 0" using 1 by (simp add: last_append)
    ultimately show ?thesis using assms(3) by simp
  next
    case 2
    have "drop 60 (torn_record k n) = replicate 4 0" using 2 by (simp add: torn_record_def)
    then have "crc_castagnoli (take 60 (torn_record k n)) = 0" using assms(4) by (simp only: dec_zeros)
    then have "crc_castagnoli (take k (intent_body n) @ replicate (60 - k) 0) = 0" using 2 torn_head [of k n] by simp
    moreover have "k \<in> set [8..<16]" using 2 by (simp only: set_upt atLeastLessThan_iff)
    ultimately show ?thesis using assms(1) unfolding tears_show_def list_all_iff by blast
  next
    case 3
    have l: "length (drop 60 (torn_record k n)) = 4" using assms(2) by simp
    have "drop 60 (torn_record k n) = be_enc 4 (be_dec (drop 60 (torn_record k n)) :: u32)"
      using be_enc_dec [of "drop 60 (torn_record k n)", where 'a = 32] l by simp
    also have "\<dots> = be_enc 4 (crc_castagnoli (intent_body n))" unfolding assms(4) torn_body [OF 3 assms(2)] ..
    finally have "drop 60 (torn_record k n) = be_enc 4 (crc_castagnoli (intent_body n))" .
    then have "take 60 (torn_record k n) @ drop 60 (torn_record k n) = intentBytes n"
      unfolding torn_body [OF 3 assms(2)] by (simp add: intentBytes_def)
    then show ?thesis by simp
  qed
qed

lemma record_found:
  assumes "slice at (at + 64) head = torn_record k n" "0 < k" "k \<le> 64" "tears_show n"
    and "0 \<le> n" "n < 2 ^ 63" "int (at + 64) \<le> n" "n \<le> int fsize"
  shows "find_record head fsize ((at + 64) # es) = Some (at, n) \<or> k < 64 \<and> find_record head fsize ((at + 64) # es) = Some (at, -1)"
proof -
  let ?r = "torn_record k n"
  have i: "in_int64 n" using assms(5,6) by (simp add: in_int64_def int64_min_def int64_max_def)
  have s: "slice (at + 64 - 64) (at + 64) head = ?r" using assms(1) by simp
  show ?thesis
  proof (cases "be_dec (drop 60 ?r) = crc_castagnoli (take 60 ?r) \<and> take 8 ?r = intentMagic")
    case True
    then have w: "?r = intentBytes n" using torn_or_whole assms(3,4) by blast
    show ?thesis using intact_record(3) [OF i] assms(7,8) True unfolding find_record.simps Let_def intentLen_def s w by simp
  next
    case False
    then have "k \<noteq> 64" using intact_record(1,2) [of n] by (auto simp add: torn_record_def)
    then have k: "k < 64" using assms(3) by simp
    have e: "\<not> at + 64 < 64" by simp
    show ?thesis
      unfolding find_record.simps Let_def intentLen_def s if_not_P [OF e] if_not_P [OF False] if_P [OF torn_is_torn [OF assms(2) k]]
      using k by simp
  qed
qed
lemma find_record_skip: "list_all (no_record head) es \<Longrightarrow> find_record head n (es @ fs) = find_record head n fs"
proof (induction es)
  case (Cons e es)
  have "find_record head n ((e # es) @ fs) = find_record head n (es @ fs)"
  proof (cases "e < intentLen")
    case False
    then show ?thesis using Cons.prems by (auto simp add: no_record_def Let_def)
  qed simp
  with Cons show ?case by simp
qed simp

lemma slice_change: "take p d = take p c \<Longrightarrow> j \<le> p \<Longrightarrow> slice i j d = slice i j c"
proof -
  assume a: "take p d = take p c" "j \<le> p"
  have "slice i j x = drop i (take j (take p x))" for x :: "'a list" using a(2) by (simp add: slice_def drop_take)
  then show ?thesis using a(1) by metis
qed

lemma no_record_change: "take p d = take p c \<Longrightarrow> e \<le> p \<Longrightarrow> no_record d e = no_record c e"
  using slice_change [of p d c e "e - intentLen"] by (simp add: no_record_def)

definition head_of :: "bytes \<Rightarrow> bytes" where
  "head_of c = take (min (length c) intentHeadScan) c"

text \<open>The children come one behind the other, inside the head.\<close>

lemma head_children_ordered:
  assumes "head_children fuel T s = xs @ (i, p, e) # ys" "length (pending s) \<le> T" "(j, a, b) \<in> set xs"
  shows "b \<le> p"
  using assms
proof (induction fuel arbitrary: s xs)
  case (Suc fuel)
  obtain x xs' where xs: "xs = x # xs'" using Suc.prems(3) by (cases xs) auto
  obtain r s1 where h: "ReadElementHeader s = (r, s1)" by fastforce
  then obtain hd n where r: "r = Inr (hd, n)" using Suc.prems(1) by (cases r) (auto split: if_splits)
  have l: "length (pending s1) \<le> length (pending s)" using ReadElementHeader_consumes [OF h] by simp
  let ?s2 = "s1\<lparr>pending := drop (nat (hdr_Size hd)) (pending s1)\<rparr>"
  have c: "0 \<le> hdr_Size hd" "hdr_Size hd \<le> int (length (pending s1))"
    and es: "x = (hdr_ID hd, T - length (pending s1), T - length (pending s1) + nat (hdr_Size hd))"
      "head_children fuel T ?s2 = xs' @ (i, p, e) # ys"
    using Suc.prems(1) h r xs by (auto simp add: Let_def split: if_splits)
  have l2: "length (pending ?s2) \<le> T" using l Suc.prems(2) by simp
  show ?case
  proof (cases "(j, a, b) = x")
    case True
    have "T - length (pending ?s2) \<le> p" using head_children_positions [OF es(2) l2, of i p e] by simp
    then show ?thesis using True es(1) c l Suc.prems(2) by auto
  next
    case False
    then show ?thesis using Suc.IH [OF es(2) l2] Suc.prems(3) xs by auto
  qed
qed simp

lemma children_ordered:
  assumes "children_of_head c = xs @ (i, p, e) # ys"
  shows "p \<le> e" "e \<le> length c" and "(j, a, b) \<in> set xs \<Longrightarrow> b \<le> p"
proof -
  obtain s where s: "head_children (length c) (length c) s = xs @ (i, p, e) # ys" "length (pending s) \<le> length c"
  proof -
    let ?s = "\<lparr>pending = c, at_end = EOF, byte_reader = True\<rparr>"
    obtain r s1 where h: "ReadElementHeader ?s = (r, s1)" by fastforce
    then obtain h1 n where r: "r = Inr (h1, n)" using assms by (cases r) (auto simp add: children_of_head_def)
    let ?s2 = "s1\<lparr>pending := drop (nat (hdr_Size h1)) (pending s1)\<rparr>"
    obtain r2 s3 where h2: "ReadElementHeader ?s2 = (r2, s3)" by fastforce
    then obtain h3 m where r2: "r2 = Inr (h3, m)" using assms h r by (cases r2) (auto simp add: children_of_head_def split: if_splits)
    have "head_children (length c) (length c) s3 = xs @ (i, p, e) # ys"
      using assms h r h2 r2 by (auto simp add: children_of_head_def split: if_splits)
    moreover have "length (pending s3) \<le> length c"
    proof -
      have "length (pending s3) \<le> length (pending ?s2)" using ReadElementHeader_consumes [OF h2] by blast
      also have "\<dots> \<le> length (pending s1)" by simp
      also have "\<dots> \<le> length c" using ReadElementHeader_consumes [OF h] by simp
      finally show ?thesis .
    qed
    ultimately show thesis by (rule that)
  qed
  show "p \<le> e" "e \<le> length c" using head_children_positions [OF s, of i p e] by simp_all
  show "b \<le> p" if "(j, a, b) \<in> set xs" using head_children_ordered [OF s that] .
qed

text \<open>Where an intent record may go: the zeros at the end of a Void of a head that holds no record.\<close>

definition intent_place :: "bytes \<Rightarrow> nat \<Rightarrow> bool" where
  "intent_place c at \<longleftrightarrow>
     list_ex (\<lambda>(i, p, e). i = IDVoid \<and> p \<le> at \<and> e = at + 64) (children_of_head (head_of c))
     \<and> list_all (no_record (head_of c)) (headVoidEnds (head_of c))
     \<and> slice at (at + 64) c = replicate 64 0"

lemma findIntent_torn:
  assumes at: "intent_place c at" and k: "0 < k" "k \<le> 64" "k = 64 \<or> t = []"
    and c: "tears_show (int (length c))" "length c < 2 ^ 63"
  defines "d \<equiv> overwrite at (take k (intentBytes (int (length c)))) c @ t"
  shows "findIntent d = Some (at, int (length c)) \<or> t = [] \<and> findIntent d = Some (at, -1)"
proof -
  let ?n = "int (length c)"
  obtain p where p: "(IDVoid, p, at + 64) \<in> set (children_of_head (head_of c))" "p \<le> at"
    using at by (auto simp add: intent_place_def list_ex_iff)
  then obtain xs ys where ch: "children_of_head (head_of c) = xs @ (IDVoid, p, at + 64) # ys" by (meson split_list)
  have e: "at + 64 \<le> length (head_of c)" using children_ordered(2) [OF ch] .
  then have ec: "at + 64 \<le> length c" by (simp add: head_of_def)
  have d: "d = take at c @ take k (intentBytes ?n) @ drop (at + k) c @ t"
    using ec k(2) unfolding d_def by (simp add: overwrite_inside min_def)
  have ld: "length d = length c + length t" using ec k(2) by (simp add: d_def max_def min_def)
  have lh: "length (head_of c) \<le> length (head_of d)" by (simp add: head_of_def ld)
  have hp: "take q (head_of x) = take q x" if "q \<le> length (head_of x)" for q x
    using that by (simp add: head_of_def min.absorb1)
  have "take p d = take p c" using p(2) ec by (simp add: d min.absorb1)
  then have tp: "take p (head_of d) = take p (head_of c)" using hp [of p d] hp [of p c] p(2) e lh by simp
  obtain ys' where ch': "children_of_head (head_of d) = xs @ (IDVoid, p, at + 64) # ys'"
    using children_of_head_change [OF ch lh tp] by blast
  define es where "es = map (\<lambda>(_, _, e). e) (filter (\<lambda>(i, _, _). i = IDVoid) xs)"
  obtain fs where ve: "headVoidEnds (head_of d) = es @ (at + 64) # fs" by (simp add: headVoidEnds_def ch' es_def)
  have "list_all (no_record (head_of c)) es" using at by (simp add: intent_place_def headVoidEnds_def ch es_def)
  moreover have "x \<le> p" if "x \<in> set es" for x using that children_ordered(3) [OF ch] by (auto simp add: es_def)
  ultimately have nr: "list_all (no_record (head_of d)) es"
    using no_record_change [OF tp] by (simp add: list_all_iff)
  have rec: "slice at (at + 64) (head_of d) = torn_record k ?n"
  proof -
    have "slice at (at + 64) (head_of d) = slice at (at + 64) d"
      using e lh by (intro slice_change [OF hp]) simp_all
    also have "\<dots> = take k (intentBytes ?n) @ take (64 - k) (drop (at + k) c @ t)"
      using ec k(2) by (simp add: d slice_def)
    also have "take (64 - k) (drop (at + k) c @ t) = drop k (slice at (at + 64) c)"
      using ec k(2) by (simp add: slice_def drop_take add.commute)
    also have "\<dots> = replicate (64 - k) 0" using at by (simp add: intent_place_def)
    finally show ?thesis by (simp add: torn_record_def)
  qed
  have f: "findIntent d = find_record (head_of d) (length d) ((at + 64) # fs)"
    using find_record_skip [OF nr] ve by (simp add: findIntent_def Let_def flip: head_of_def)
  have "find_record (head_of d) (length d) ((at + 64) # fs) = Some (at, ?n)
      \<or> k < 64 \<and> find_record (head_of d) (length d) ((at + 64) # fs) = Some (at, -1)"
    by (rule record_found [OF rec k(1,2) c(1)]) (use c(2) ec ld in simp_all)
  then show ?thesis using f k(3) by auto
qed

text \<open>Recovery of a file whose intent record landed, wholly or in part.\<close>

lemma recoverIntent_torn:
  assumes at: "intent_place c at" and k: "0 < k" "k \<le> 64" "k = 64 \<or> t = []"
    and c: "tears_show (int (length c))" "length c < 2 ^ 63"
  defines "d \<equiv> overwrite at (take k (intentBytes (int (length c)))) c @ t"
  shows "fst (recoverIntent d)" "fold on_bytes (snd (recoverIntent d)) d = c"
proof -
  let ?n = "int (length c)"
  obtain p where "(IDVoid, p, at + 64) \<in> set (children_of_head (head_of c))"
    using at by (auto simp add: intent_place_def list_ex_iff)
  then obtain xs ys where "children_of_head (head_of c) = xs @ (IDVoid, p, at + 64) # ys" by (meson split_list)
  then have ec: "at + 64 \<le> length c" using children_ordered(2) by (fastforce simp add: head_of_def)
  define d0 where "d0 = overwrite at (take k (intentBytes ?n)) c"
  have l0: "length d0 = length c" using ec k(2) by (simp add: d0_def max_def min_def)
  have z: "overwrite at (replicate intentLen 0) d0 = c"
  proof -
    have "overwrite at (replicate 64 0) d0 = take at c @ slice at (at + 64) c @ drop (at + 64) c"
      using at ec k(2) l0 by (simp add: overwrite_inside d0_def intent_place_def add.commute)
    also have "\<dots> = c" by (simp add: slice_def) (metis append_take_drop_id drop_drop add.commute)
    finally show ?thesis by (simp add: intentLen_def)
  qed
  have f: "findIntent d = Some (at, ?n) \<or> t = [] \<and> findIntent d = Some (at, -1)"
    unfolding d_def by (rule findIntent_torn [OF at k c])
  then show "fst (recoverIntent d)" by (auto simp add: recoverIntent_def)
  have dd: "d = d0 @ t" by (simp add: d_def d0_def)
  have ct: "resized (length c) (d0 @ t) = d0" by (simp add: resized_def l0)
  show "fold on_bytes (snd (recoverIntent d)) d = c"
    using f
  proof
    assume "findIntent d = Some (at, ?n)"
    then have "snd (recoverIntent d) = (if length c < length d then [Truncate (length c)] else []) @ clearIntent at"
      by (simp add: recoverIntent_def)
    moreover have "d = d0" if "\<not> length c < length d" using that dd l0 by simp
    ultimately show ?thesis using z ct by (cases "length c < length d") (simp_all add: clearIntent_def dd)
  next
    assume "t = [] \<and> findIntent d = Some (at, -1)"
    then have f1: "findIntent d = Some (at, -1)" and "t = []" by simp_all
    then have "d = d0" using dd by simp
    moreover have "snd (recoverIntent d) = clearIntent at" using f1 by (simp add: recoverIntent_def)
    ultimately show ?thesis using z by (simp add: clearIntent_def)
  qed
qed

section \<open>Properties\<close>

text \<open>
  C22. The journal landed behind a file reads back: whatever the file holds before it and whatever the
  operation appends for good in front of it, the reader finds the size and the zones that were written.
\<close>

theorem journal_roundtrip:
  assumes "0 \<le> n" and "n < 2 ^ 63" and "n \<le> int (length file)" and "list_all (zone_ok n) zs"
    and "writeInPlaceJournal lead n zs = Inr tail"
  shows "readInPlaceJournal (file @ tail) = Inr (Some \<lparr>origSize = n, zones = zs\<rparr>)"
  using assms(4) zone_ok_passes [OF _ assms(2)]
  by (intro readInPlaceJournal_written [OF assms(1-3) _ assms(5)]) (auto simp add: list_all_iff)

theorem journal_roundtrip_witness:
  "\<exists>tail. writeInPlaceJournal [9] 4 [\<lparr>z_off = 1, z_orig = [2, 3]\<rparr>] = Inr tail \<and>
     readInPlaceJournal ([1, 2, 3, 4] @ tail) = Inr (Some \<lparr>origSize = 4, zones = [\<lparr>z_off = 1, z_orig = [2, 3]\<rparr>]\<rparr>)"
  using journal_roundtrip [of 4 "[1, 2, 3, 4]" "[\<lparr>z_off = 1, z_orig = [2, 3]\<rparr>]" "[9]"]
  by (auto simp add: zone_ok_def writeInPlaceJournal_def Let_def journal_payload_def maxInplaceJournal_def)

text \<open>
  C36. The range check of the reader adds offset and length in 64 bits: a zone whose end passes
  \<open>2 ^ 63\<close> is let through, although it lies far outside the file the journal describes.
\<close>

theorem journal_zone_check_wraps:
  assumes "0 \<le> n" and "n < 2 ^ 63" and "n \<le> int (length file)"
    and "0 \<le> off" and "off < 2 ^ 63" and "2 ^ 63 \<le> off + int (length orig)" and "length orig < 2 ^ 32"
    and "writeInPlaceJournal lead n [\<lparr>z_off = off, z_orig = orig\<rparr>] = Inr tail"
  shows "readInPlaceJournal (file @ tail) = Inr (Some \<lparr>origSize = n, zones = [\<lparr>z_off = off, z_orig = orig\<rparr>]\<rparr>)
    \<and> \<not> zone_ok n \<lparr>z_off = off, z_orig = orig\<rparr>"
proof -
  have "wrap64 (off + int (length orig)) = off + int (length orig) - 2 ^ 64"
  proof -
    have "(off + int (length orig) + 2 ^ 63) mod 2 ^ 64 = off + int (length orig) - 2 ^ 63"
      by (rule int_mod_pos_eq [where q = 1]) (use assms(5-7) in simp_all)
    then show ?thesis by (simp add: wrap64_def)
  qed
  then have "zone_passes n \<lparr>z_off = off, z_orig = orig\<rparr>"
    using assms(1,4,5,7) by (simp add: zone_passes_def in_int64_def int64_min_def int64_max_def)
  then show ?thesis
    using readInPlaceJournal_written [OF assms(1-3) _ assms(8)] assms(2,6) by (simp add: zone_ok_def)
qed

theorem journal_zone_check_wraps_witness:
  "\<exists>tail. writeInPlaceJournal [] 1 [\<lparr>z_off = 2 ^ 63 - 1, z_orig = [7]\<rparr>] = Inr tail \<and>
     readInPlaceJournal ([0] @ tail) = Inr (Some \<lparr>origSize = 1, zones = [\<lparr>z_off = 2 ^ 63 - 1, z_orig = [7]\<rparr>]\<rparr>)"
  using journal_zone_check_wraps [of 1 "[0]" "2 ^ 63 - 1" "[7]" "[]"]
  by (auto simp add: writeInPlaceJournal_def Let_def journal_payload_def maxInplaceJournal_def)

end
