(* ===== verification/MemFS.thy ===== *)
theory MemFS
  imports RandomFile "HOL-Library.AList" "HOL-Library.List_Lexorder" "HOL-Library.Char_ord"
begin

text \<open>
  The in-memory file system of \<^verbatim>\<open>mkv/memfs.go\<close>: files as slices with a capacity behind them, the map of
  paths, the reserved capacities, and the handles that write, seek, read and truncate.  It is refined to
  a file system of plain byte strings, and it provides the interface \<open>random_file\<close>.

  Files live in a heap and paths map to their index, since a handle keeps its file through a \<^verbatim>\<open>Rename\<close> or
  a \<^verbatim>\<open>Remove\<close>.  Lengths and positions are numbers that fit an \<^verbatim>\<open>int64\<close>: a write that would not fit
  memory panics in Go and has no counterpart here.  The reader \<^verbatim>\<open>Open\<close> returns is the content at that
  moment; that it shares the array with later writes to the file is not modelled.
\<close>

section \<open>A file: a slice and the array behind it\<close>

record memFile =
  buf :: bytes
  used :: nat

definition data :: "memFile \<Rightarrow> bytes" where "data f = take (used f) (buf f)"

definition wf_file :: "memFile \<Rightarrow> bool" where "wf_file f \<longleftrightarrow> used f \<le> length (buf f)"

definition resize :: "nat \<Rightarrow> memFile \<Rightarrow> memFile" where
  "resize n f =
     (if n \<le> used f then f\<lparr>used := n\<rparr>
      else if n > length (buf f)
      then \<lparr>buf = data f @ replicate (max n (2 * length (buf f)) - used f) 0, used = n\<rparr>
      else f\<lparr>buf := data f @ replicate (n - used f) 0 @ drop n (buf f), used := n\<rparr>)"

definition writeAt :: "nat \<Rightarrow> bytes \<Rightarrow> memFile \<Rightarrow> memFile" where
  "writeAt off p f =
     (let e = off + length p; f = resize (max e (used f)) f
      in f\<lparr>buf := take off (buf f) @ p @ drop e (buf f)\<rparr>)"

lemma length_data: "wf_file f \<Longrightarrow> length (data f) = used f"
  by (simp add: data_def wf_file_def)

lemma wf_resize: "wf_file f \<Longrightarrow> wf_file (resize n f)"
  by (auto simp add: wf_file_def resize_def data_def)

lemma used_resize [simp]: "used (resize n f) = n"
  by (simp add: resize_def)

lemma data_resize: "wf_file f \<Longrightarrow> data (resize n f) = resized n (data f)"
  by (auto simp add: wf_file_def resize_def data_def resized_def min_def)

lemma wf_writeAt: "wf_file f \<Longrightarrow> wf_file (writeAt off p f)"
  using wf_resize [of f "max (off + length p) (used f)"] by (auto simp add: writeAt_def wf_file_def Let_def)

lemma data_writeAt: "wf_file f \<Longrightarrow> data (writeAt off p f) = overwrite off p (data f)"
proof -
  assume wf: "wf_file f"
  define n where "n = max (off + length p) (used f)"
  define g where "g = resize n f"
  have g: "data g = resized n (data f)" "n \<le> length (buf g)" "used g = n"
    using data_resize [OF wf] wf_resize [OF wf, of n] by (simp_all add: g_def wf_file_def)
  have n: "off \<le> n" "off + length p \<le> n" by (simp_all add: n_def)
  have "data (writeAt off p f) = take n (take off (buf g) @ p @ drop (off + length p) (buf g))"
    using g(3) by (simp add: writeAt_def data_def Let_def g_def [symmetric] n_def [symmetric])
  also have "\<dots> = take off (data g) @ p @ drop (off + length p) (data g)"
  proof -
    obtain r where r: "n = off + length p + r" using n(2) le_Suc_ex by blast
    show ?thesis using g(2,3) by (simp add: data_def r take_drop add.commute add.left_commute)
  qed
  also have "\<dots> = overwrite off p (data f)"
    using length_data [OF wf] by (simp add: overwrite_def Let_def g(1) n_def)
  finally show ?thesis .
qed

interpretation memfile: random_file data wf_file writeAt resize
  by unfold_locales (simp_all add: wf_writeAt wf_resize data_writeAt data_resize)

section \<open>The file system\<close>

record handle =
  h_file :: nat
  h_pos :: nat
  h_rw :: bool

record MemFS =
  files :: "(string \<times> nat) list"
  heap :: "memFile list"
  reserve :: "(string \<times> nat) list"
  handles :: "handle list"

definition NewMemFS :: MemFS where
  "NewMemFS = \<lparr>files = [], heap = [], reserve = [], handles = []\<rparr>"

definition memKey :: "string \<Rightarrow> string" where
  "memKey p = map (\<lambda>c. if c = CHR 0x5C then CHR ''/'' else c) p"

datatype outcome = Done | Content bytes | Absent | Names "string list" | Handle nat | Number nat | Failed error

definition not_exist :: "string \<Rightarrow> outcome" where
  "not_exist opn = Failed (Errf (opn @ '': file does not exist''))"

definition alloc :: "string \<Rightarrow> memFile \<Rightarrow> MemFS \<Rightarrow> MemFS" where
  "alloc path f m = m\<lparr>files := AList.update (memKey path) (length (heap m)) (files m), heap := heap m @ [f]\<rparr>"

text \<open>
  \<open>slack\<close> is what the array \<^verbatim>\<open>append\<close> allocates holds beyond the bytes copied: its size is the allocator's
  business.
\<close>

definition Put :: "bytes \<Rightarrow> string \<Rightarrow> bytes \<Rightarrow> MemFS \<Rightarrow> outcome \<times> MemFS" where
  "Put slack path d m = (Done, alloc path \<lparr>buf = d @ slack, used = length d\<rparr> m)"

definition Reserve :: "string \<Rightarrow> nat \<Rightarrow> MemFS \<Rightarrow> outcome \<times> MemFS" where
  "Reserve path n m = (Done, m\<lparr>reserve := AList.update (memKey path) n (reserve m)\<rparr>)"

definition Get :: "string \<Rightarrow> MemFS \<Rightarrow> outcome \<times> MemFS" where
  "Get path m = (case map_of (files m) (memKey path) of
     Some i \<Rightarrow> (Content (data (heap m ! i)), m) | None \<Rightarrow> (Absent, m))"

definition Paths :: "MemFS \<Rightarrow> outcome \<times> MemFS" where
  "Paths m = (Names (sort (map fst (files m))), m)"

definition Open :: "string \<Rightarrow> MemFS \<Rightarrow> outcome \<times> MemFS" where
  "Open path m = (case map_of (files m) (memKey path) of
     None \<Rightarrow> (not_exist ''open'', m) | Some i \<Rightarrow> (Content (data (heap m ! i)), m))"

definition hand_out :: "nat \<Rightarrow> bool \<Rightarrow> MemFS \<Rightarrow> outcome \<times> MemFS" where
  "hand_out i rw m = (Handle (length (handles m)), m\<lparr>handles := handles m @ [\<lparr>h_file = i, h_pos = 0, h_rw = rw\<rparr>]\<rparr>)"

definition Create :: "string \<Rightarrow> MemFS \<Rightarrow> outcome \<times> MemFS" where
  "Create path m =
     (let (f, m) = (case map_of (reserve m) (memKey path) of
            Some n \<Rightarrow> (\<lparr>buf = replicate n 0, used = 0\<rparr>, m\<lparr>reserve := AList.delete (memKey path) (reserve m)\<rparr>)
          | None \<Rightarrow> (\<lparr>buf = [], used = 0\<rparr>, m))
      in hand_out (length (heap m)) False (alloc path f m))"

definition OpenFile :: "string \<Rightarrow> bool \<Rightarrow> MemFS \<Rightarrow> outcome \<times> MemFS" where
  "OpenFile path create m =
     (case map_of (files m) (memKey path) of
        Some i \<Rightarrow> hand_out i True m
      | None \<Rightarrow> if \<not> create then (not_exist ''open'', m)
                else hand_out (length (heap m)) True (alloc path \<lparr>buf = [], used = 0\<rparr> m))"

definition Stat :: "string \<Rightarrow> MemFS \<Rightarrow> outcome \<times> MemFS" where
  "Stat path m = (case map_of (files m) (memKey path) of
     None \<Rightarrow> (not_exist ''stat'', m) | Some i \<Rightarrow> (Number (length (data (heap m ! i))), m))"

definition WriteFile :: "bytes \<Rightarrow> string \<Rightarrow> bytes \<Rightarrow> MemFS \<Rightarrow> outcome \<times> MemFS" where
  "WriteFile slack path d m = Put slack path d m"

definition Remove :: "string \<Rightarrow> MemFS \<Rightarrow> outcome \<times> MemFS" where
  "Remove path m = (case map_of (files m) (memKey path) of
     None \<Rightarrow> (not_exist ''remove'', m) | Some _ \<Rightarrow> (Done, m\<lparr>files := AList.delete (memKey path) (files m)\<rparr>))"

definition Rename :: "string \<Rightarrow> string \<Rightarrow> MemFS \<Rightarrow> outcome \<times> MemFS" where
  "Rename oldpath newpath m = (case map_of (files m) (memKey oldpath) of
     None \<Rightarrow> (not_exist ''rename'', m)
   | Some i \<Rightarrow> (Done, m\<lparr>files := AList.delete (memKey oldpath) (AList.update (memKey newpath) i (files m))\<rparr>))"

section \<open>Handles\<close>

definition mem_write :: "nat \<Rightarrow> bytes \<Rightarrow> MemFS \<Rightarrow> outcome \<times> MemFS" where
  "mem_write k p m =
     (let h = handles m ! k in
      (Number (length p),
       m\<lparr>heap := (heap m)[h_file h := writeAt (h_pos h) p (heap m ! h_file h)],
         handles := (handles m)[k := h\<lparr>h_pos := h_pos h + length p\<rparr>]\<rparr>))"

definition seek_target :: "int \<Rightarrow> int \<Rightarrow> nat \<Rightarrow> nat \<Rightarrow> int option" where
  "seek_target offset whence pos flen =
     (if whence = 0 then Some offset
      else if whence = 1 then Some (int pos + offset)
      else if whence = 2 then Some (int flen + offset)
      else None)"

definition mem_seek :: "nat \<Rightarrow> int \<Rightarrow> int \<Rightarrow> MemFS \<Rightarrow> outcome \<times> MemFS" where
  "mem_seek k offset whence m =
     (let h = handles m ! k in
      case seek_target offset whence (h_pos h) (length (data (heap m ! h_file h))) of
        None \<Rightarrow> (Failed (Errf ''memfs: bad whence''), m)
      | Some next \<Rightarrow>
          if next < 0 then (Failed (Errf ''memfs: negative seek''), m)
          else (Number (nat next), m\<lparr>handles := (handles m)[k := h\<lparr>h_pos := nat next\<rparr>]\<rparr>))"

definition mem_read :: "nat \<Rightarrow> nat \<Rightarrow> MemFS \<Rightarrow> outcome \<times> MemFS" where
  "mem_read k n m =
     (let h = handles m ! k; d = data (heap m ! h_file h) in
      if h_pos h \<ge> length d then (Failed EOF, m)
      else let b = take n (drop (h_pos h) d)
           in (Content b, m\<lparr>handles := (handles m)[k := h\<lparr>h_pos := h_pos h + length b\<rparr>]\<rparr>))"

definition mem_truncate :: "nat \<Rightarrow> int \<Rightarrow> MemFS \<Rightarrow> outcome \<times> MemFS" where
  "mem_truncate k n m =
     (let h = handles m ! k in
      if n < 0 then (Failed (Errf ''memfs: negative truncate''), m)
      else (Done, m\<lparr>heap := (heap m)[h_file h := resize (nat n) (heap m ! h_file h)]\<rparr>))"
section \<open>Calls on the file system\<close>

text \<open>
  A call of the port or of a handle; \<open>Create\<close> hands out a writer that neither reads nor truncates, which
  is what the interface tests of the in-place operations find out.
\<close>

datatype fs_call =
    CPut bytes string bytes | CReserve string nat | CGet string | CPaths | COpen string | CCreate string
  | COpenFile string bool | CStat string | CWriteFile bytes string bytes | CRemove string | CRename string string
  | CWrite nat bytes | CSeek nat int int | CRead nat nat | CTruncate nat int

definition unsupported :: outcome where "unsupported = Failed (Errf ''not supported by the handle'')"

fun exec :: "fs_call \<Rightarrow> MemFS \<Rightarrow> outcome \<times> MemFS" where
  "exec (CPut slack path d) m = Put slack path d m"
| "exec (CReserve path n) m = Reserve path n m"
| "exec (CGet path) m = Get path m"
| "exec CPaths m = Paths m"
| "exec (COpen path) m = Open path m"
| "exec (CCreate path) m = Create path m"
| "exec (COpenFile path create) m = OpenFile path create m"
| "exec (CStat path) m = Stat path m"
| "exec (CWriteFile slack path d) m = WriteFile slack path d m"
| "exec (CRemove path) m = Remove path m"
| "exec (CRename p q) m = Rename p q m"
| "exec (CWrite k p) m = (if k < length (handles m) then mem_write k p m else (unsupported, m))"
| "exec (CSeek k off whence) m = (if k < length (handles m) then mem_seek k off whence m else (unsupported, m))"
| "exec (CRead k n) m =
     (if k < length (handles m) \<and> h_rw (handles m ! k) then mem_read k n m else (unsupported, m))"
| "exec (CTruncate k n) m =
     (if k < length (handles m) \<and> h_rw (handles m ! k) then mem_truncate k n m else (unsupported, m))"

fun exec_all :: "fs_call list \<Rightarrow> MemFS \<Rightarrow> outcome list \<times> MemFS" where
  "exec_all [] m = ([], m)"
| "exec_all (c # cs) m = (let (r, m) = exec c m; (rs, m) = exec_all cs m in (r # rs, m))"

section \<open>The invariant\<close>

text \<open>
  Slices lie inside their arrays, every path and every handle refers to a file, paths are normalised and
  distinct, and no two paths share a file.
\<close>

definition wf_fs :: "MemFS \<Rightarrow> bool" where
  "wf_fs m \<longleftrightarrow> list_all wf_file (heap m) \<and> distinct (map fst (files m)) \<and> distinct (map snd (files m))
     \<and> list_all (\<lambda>(p, i). memKey p = p \<and> i < length (heap m)) (files m)
     \<and> list_all (\<lambda>h. h_file h < length (heap m)) (handles m)"

inductive reachable :: "MemFS \<Rightarrow> bool" where
  fresh: "reachable NewMemFS"
| call: "reachable m \<Longrightarrow> exec c m = (r, m') \<Longrightarrow> reachable m'"

lemma memKey_idem [simp]: "memKey (memKey p) = memKey p"
  by (simp add: memKey_def)

lemma wf_fsD:
  assumes "wf_fs m"
  shows "map_of (files m) p = Some i \<Longrightarrow> i < length (heap m)"
    and "k < length (handles m) \<Longrightarrow> h_file (handles m ! k) < length (heap m)"
    and "i < length (heap m) \<Longrightarrow> wf_file (heap m ! i)"
  using assms by (auto simp add: wf_fs_def list_all_iff dest: map_of_SomeD)

lemma update_new_snd:
  "distinct (map snd al) \<Longrightarrow> v \<notin> snd ` set al \<Longrightarrow> distinct (map snd (AList.update k v al))"
proof (induction al)
  case (Cons p al)
  obtain a b where p: "p = (a, b)" by (cases p)
  have "b \<notin> snd ` set (AList.update k v al)"
  proof
    assume "b \<in> snd ` set (AList.update k v al)"
    then obtain c where "(c, b) \<in> set (AList.update k v al)" by auto
    then have "(c, b) = (k, v) \<or> (c, b) \<in> set al" by (induction al) (auto split: if_splits)
    with Cons.prems show False by (auto simp add: p image_iff)
  qed
  with Cons show ?case by (auto simp add: p)
qed simp

lemma set_update: "set (AList.update k v al) \<subseteq> insert (k, v) (set al)"
  by (induction al) auto

lemma update_all: "list_all P al \<Longrightarrow> P (k, v) \<Longrightarrow> list_all P (AList.update k v al)"
  using set_update [of k v al] by (auto simp add: list_all_iff)

lemma delete_all: "list_all P al \<Longrightarrow> list_all P (AList.delete k al)"
  by (auto simp add: list_all_iff AList.delete_eq)

lemma delete_distinct:
  "distinct (map f al) \<Longrightarrow> distinct (map f (AList.delete k al))"
  by (simp add: AList.delete_eq distinct_map_filter)

lemma wf_alloc: "wf_fs m \<Longrightarrow> wf_file f \<Longrightarrow> wf_fs (alloc path f m)"
proof -
  assume m: "wf_fs m" and f: "wf_file f"
  have "length (heap m) \<notin> snd ` set (files m)" using m by (force simp add: wf_fs_def list_all_iff)
  then have "distinct (map snd (AList.update (memKey path) (length (heap m)) (files m)))"
    using m by (intro update_new_snd) (auto simp add: wf_fs_def)
  moreover have "list_all (\<lambda>(p, i). memKey p = p \<and> i < Suc (length (heap m))) (AList.update (memKey path) (length (heap m)) (files m))"
    using m by (intro update_all) (auto simp add: wf_fs_def list_all_iff)
  moreover have "list_all (\<lambda>h. h_file h < Suc (length (heap m))) (handles m)"
    using m by (auto simp add: wf_fs_def list_all_iff)
  ultimately show ?thesis using m f by (simp add: wf_fs_def alloc_def distinct_update)
qed

lemma wf_hand_out: "wf_fs m \<Longrightarrow> i < length (heap m) \<Longrightarrow> wf_fs (snd (hand_out i rw m))"
  by (simp add: wf_fs_def hand_out_def)

lemma wf_reserve [simp]: "wf_fs (m\<lparr>reserve := r\<rparr>) = wf_fs m"
  by (simp add: wf_fs_def)

lemma length_heap_alloc [simp]: "length (heap (alloc path f m)) = Suc (length (heap m))"
  by (simp add: alloc_def)

lemma wf_rename:
  assumes m: "wf_fs m" and i: "map_of (files m) (memKey p) = Some i"
  shows "wf_fs (m\<lparr>files := AList.delete (memKey p) (AList.update (memKey q) i (files m))\<rparr>)"
proof -
  let ?d = "AList.delete (memKey p) (AList.update (memKey q) i (files m))"
  have "distinct (map snd ?d)"
  proof (cases "memKey p = memKey q")
    case True
    then have "?d = AList.delete (memKey p) (files m)" by (simp add: AList.delete_update_same)
    then show ?thesis using m by (simp add: wf_fs_def delete_distinct)
  next
    case False
    then have "?d = AList.update (memKey q) i (AList.delete (memKey p) (files m))" by (simp add: AList.delete_update)
    moreover have "i \<notin> snd ` set (AList.delete (memKey p) (files m))"
    proof
      assume "i \<in> snd ` set (AList.delete (memKey p) (files m))"
      then obtain r where r: "(r, i) \<in> set (files m)" "r \<noteq> memKey p" by (auto simp add: AList.delete_eq)
      have "(memKey p, i) \<in> set (files m)" using i by (rule map_of_SomeD)
      moreover have "inj_on snd (set (files m))" using m by (simp add: wf_fs_def distinct_map)
      ultimately have "(r, i) = (memKey p, i)" using r(1) by (intro inj_onD [of snd]) simp_all
      with r(2) show False by simp
    qed
    ultimately show ?thesis using m by (simp add: wf_fs_def update_new_snd delete_distinct)
  qed
  moreover have "i < length (heap m)" using wf_fsD(1) [OF m i] .
  ultimately show ?thesis using m by (simp add: wf_fs_def distinct_update delete_distinct delete_all update_all)
qed

lemma wf_exec: "wf_fs m \<Longrightarrow> wf_fs (snd (exec c m))"
proof (cases c)
  case (CRename p q)
  assume "wf_fs m"
  then show ?thesis using CRename wf_rename [of m p _ q] by (auto simp add: Rename_def split: option.split)
next
  case (CWrite k p)
  assume m: "wf_fs m"
  then show ?thesis using CWrite wf_fsD(2,3) [OF m]
    by (auto simp add: mem_write_def Let_def wf_fs_def list_all_length nth_list_update wf_writeAt)
next
  case (CTruncate k n)
  assume m: "wf_fs m"
  then show ?thesis using CTruncate wf_fsD(2,3) [OF m]
    by (auto simp add: mem_truncate_def Let_def wf_fs_def list_all_length nth_list_update wf_resize)
next
  case (CSeek k off whence)
  assume "wf_fs m"
  then show ?thesis using CSeek
    by (auto simp add: mem_seek_def Let_def wf_fs_def list_all_length nth_list_update split: option.split)
next
  case (CRead k n)
  assume "wf_fs m"
  then show ?thesis using CRead by (auto simp add: mem_read_def Let_def wf_fs_def list_all_length nth_list_update)
next
  case (CRemove p)
  assume "wf_fs m"
  then show ?thesis using CRemove by (auto simp add: Remove_def wf_fs_def delete_distinct delete_all split: option.split)
next
  case (CCreate p)
  assume "wf_fs m"
  then show ?thesis using CCreate
    by (auto simp add: Create_def wf_file_def intro!: wf_hand_out wf_alloc split: option.split)
next
  case (COpenFile p create)
  assume m: "wf_fs m"
  then show ?thesis using COpenFile wf_fsD(1) [OF m]
    by (auto simp add: OpenFile_def wf_file_def intro!: wf_hand_out wf_alloc split: option.split)
qed (auto simp add: Put_def Reserve_def Get_def Paths_def Open_def Stat_def WriteFile_def wf_file_def
       intro!: wf_alloc split: option.split)

lemma reachable_wf: "reachable m \<Longrightarrow> wf_fs m"
proof (induction rule: reachable.induct)
  case fresh
  show ?case by (simp add: wf_fs_def NewMemFS_def)
next
  case (call m c r m')
  then show ?case using wf_exec [of m c] by simp
qed
section \<open>The specification: a file system of byte strings\<close>

text \<open>
  No capacities and no arrays: a path is a name for a file, a file is its bytes, a write overwrites and
  extends with zeros, a truncate cuts or extends with zeros.
\<close>

record plain_fs =
  p_names :: "string \<Rightarrow> nat option"
  p_store :: "bytes list"
  p_handles :: "handle list"

definition abs_fs :: "MemFS \<Rightarrow> plain_fs" where
  "abs_fs m = \<lparr>p_names = map_of (files m), p_store = map data (heap m), p_handles = handles m\<rparr>"

definition p_new :: "string \<Rightarrow> bytes \<Rightarrow> plain_fs \<Rightarrow> plain_fs" where
  "p_new path d s = s\<lparr>p_names := (p_names s)(memKey path \<mapsto> length (p_store s)), p_store := p_store s @ [d]\<rparr>"

definition p_open :: "nat \<Rightarrow> bool \<Rightarrow> plain_fs \<Rightarrow> outcome \<times> plain_fs" where
  "p_open i rw s =
     (Handle (length (p_handles s)), s\<lparr>p_handles := p_handles s @ [\<lparr>h_file = i, h_pos = 0, h_rw = rw\<rparr>]\<rparr>)"

definition p_at :: "nat \<Rightarrow> nat \<Rightarrow> plain_fs \<Rightarrow> plain_fs" where
  "p_at k pos s = s\<lparr>p_handles := (p_handles s)[k := (p_handles s ! k)\<lparr>h_pos := pos\<rparr>]\<rparr>"

definition p_bytes :: "nat \<Rightarrow> plain_fs \<Rightarrow> bytes" where
  "p_bytes k s = p_store s ! h_file (p_handles s ! k)"

definition p_set :: "nat \<Rightarrow> bytes \<Rightarrow> plain_fs \<Rightarrow> plain_fs" where
  "p_set k d s = s\<lparr>p_store := (p_store s)[h_file (p_handles s ! k) := d]\<rparr>"

fun spec :: "fs_call \<Rightarrow> plain_fs \<Rightarrow> outcome \<times> plain_fs" where
  "spec (CPut slack path d) s = (Done, p_new path d s)"
| "spec (CReserve path n) s = (Done, s)"
| "spec (CGet path) s = (case p_names s (memKey path) of None \<Rightarrow> (Absent, s) | Some i \<Rightarrow> (Content (p_store s ! i), s))"
| "spec CPaths s = (Names (sorted_list_of_set (dom (p_names s))), s)"
| "spec (COpen path) s =
     (case p_names s (memKey path) of None \<Rightarrow> (not_exist ''open'', s) | Some i \<Rightarrow> (Content (p_store s ! i), s))"
| "spec (CCreate path) s = p_open (length (p_store s)) False (p_new path [] s)"
| "spec (COpenFile path create) s =
     (case p_names s (memKey path) of
        Some i \<Rightarrow> p_open i True s
      | None \<Rightarrow> if create then p_open (length (p_store s)) True (p_new path [] s) else (not_exist ''open'', s))"
| "spec (CStat path) s =
     (case p_names s (memKey path) of None \<Rightarrow> (not_exist ''stat'', s) | Some i \<Rightarrow> (Number (length (p_store s ! i)), s))"
| "spec (CWriteFile slack path d) s = (Done, p_new path d s)"
| "spec (CRemove path) s =
     (case p_names s (memKey path) of
        None \<Rightarrow> (not_exist ''remove'', s) | Some _ \<Rightarrow> (Done, s\<lparr>p_names := (p_names s)(memKey path := None)\<rparr>))"
| "spec (CRename p q) s =
     (case p_names s (memKey p) of
        None \<Rightarrow> (not_exist ''rename'', s)
      | Some i \<Rightarrow> (Done, s\<lparr>p_names := (p_names s)(memKey q \<mapsto> i, memKey p := None)\<rparr>))"
| "spec (CWrite k p) s =
     (if k < length (p_handles s)
      then let pos = h_pos (p_handles s ! k)
           in (Number (length p), p_at k (pos + length p) (p_set k (overwrite pos p (p_bytes k s)) s))
      else (unsupported, s))"
| "spec (CSeek k off whence) s =
     (if k < length (p_handles s)
      then case seek_target off whence (h_pos (p_handles s ! k)) (length (p_bytes k s)) of
             None \<Rightarrow> (Failed (Errf ''memfs: bad whence''), s)
           | Some pos \<Rightarrow> if pos < 0 then (Failed (Errf ''memfs: negative seek''), s)
                         else (Number (nat pos), p_at k (nat pos) s)
      else (unsupported, s))"
| "spec (CRead k n) s =
     (if k < length (p_handles s) \<and> h_rw (p_handles s ! k)
      then let pos = h_pos (p_handles s ! k); d = p_bytes k s
           in if pos \<ge> length d then (Failed EOF, s)
              else (Content (slice pos (pos + n) d), p_at k (min (pos + n) (length d)) s)
      else (unsupported, s))"
| "spec (CTruncate k n) s =
     (if k < length (p_handles s) \<and> h_rw (p_handles s ! k)
      then if n < 0 then (Failed (Errf ''memfs: negative truncate''), s)
           else (Done, p_set k (resized (nat n) (p_bytes k s)) s)
      else (unsupported, s))"

fun spec_all :: "fs_call list \<Rightarrow> plain_fs \<Rightarrow> outcome list \<times> plain_fs" where
  "spec_all [] s = ([], s)"
| "spec_all (c # cs) s = (let (r, s) = spec c s; (rs, s) = spec_all cs s in (r # rs, s))"

section \<open>Refinement\<close>

lemma abs_alloc: "wf_file f \<Longrightarrow> abs_fs (alloc path f m) = p_new path (data f) (abs_fs m)"
  by (simp add: abs_fs_def alloc_def p_new_def AList.update_conv')

lemma abs_hand_out: "p_open i rw (abs_fs m) = map_prod id abs_fs (hand_out i rw m)"
  by (simp add: p_open_def hand_out_def abs_fs_def)

lemma abs_lookup: "p_names (abs_fs m) p = map_of (files m) p"
  by (simp add: abs_fs_def)

lemma abs_store: "i < length (heap m) \<Longrightarrow> p_store (abs_fs m) ! i = data (heap m ! i)"
  by (simp add: abs_fs_def)

lemma length_abs_store [simp]: "length (p_store (abs_fs m)) = length (heap m)"
  by (simp add: abs_fs_def)

lemma abs_handles [simp]: "p_handles (abs_fs m) = handles m"
  by (simp add: abs_fs_def)

lemma abs_reserve [simp]: "abs_fs (m\<lparr>reserve := r\<rparr>) = abs_fs m"
  by (simp add: abs_fs_def)

lemma abs_Paths: "wf_fs m \<Longrightarrow> sort (map fst (files m)) = sorted_list_of_set (dom (p_names (abs_fs m)))"
  by (simp add: abs_lookup [abs_def] abs_fs_def dom_map_of_conv_image_fst wf_fs_def
      sorted_list_of_set_sort_remdups distinct_remdups_id flip: set_map)

lemma p_bytes_abs: "wf_fs m \<Longrightarrow> k < length (handles m) \<Longrightarrow> p_bytes k (abs_fs m) = data (heap m ! h_file (handles m ! k))"
  using wf_fsD(2) [of m k] by (simp add: p_bytes_def abs_store)

lemmas abs_simps = abs_alloc abs_lookup abs_store p_bytes_abs

text \<open>A file whose bytes a handle changes.\<close>

lemma abs_heap_update:
  assumes "wf_fs m" "k < length (handles m)"
  shows "abs_fs (m\<lparr>heap := (heap m)[h_file (handles m ! k) := f]\<rparr>) = p_set k (data f) (abs_fs m)"
  using assms by (simp add: abs_fs_def p_set_def map_update)

lemma abs_pos_update: "abs_fs (m\<lparr>handles := (handles m)[k := (handles m ! k)\<lparr>h_pos := pos\<rparr>]\<rparr>) = p_at k pos (abs_fs m)"
  by (simp add: abs_fs_def p_at_def)

lemma exec_refines_lookup:
  assumes m: "wf_fs m"
  shows "spec (CGet p) (abs_fs m) = map_prod id abs_fs (exec (CGet p) m)"
    and "spec (COpen p) (abs_fs m) = map_prod id abs_fs (exec (COpen p) m)"
    and "spec (CStat p) (abs_fs m) = map_prod id abs_fs (exec (CStat p) m)"
    and "spec CPaths (abs_fs m) = map_prod id abs_fs (exec CPaths m)"
  using wf_fsD(1) [OF m]
  by (simp_all add: Get_def Open_def Stat_def Paths_def abs_lookup abs_store abs_Paths [OF m] split: option.split)

lemma exec_refines_names:
  assumes m: "wf_fs m"
  shows "spec (CPut slack p d) (abs_fs m) = map_prod id abs_fs (exec (CPut slack p d) m)"
    and "spec (CReserve p n) (abs_fs m) = map_prod id abs_fs (exec (CReserve p n) m)"
    and "spec (CWriteFile slack p d) (abs_fs m) = map_prod id abs_fs (exec (CWriteFile slack p d) m)"
    and "spec (CRemove p) (abs_fs m) = map_prod id abs_fs (exec (CRemove p) m)"
    and "spec (CRename p q) (abs_fs m) = map_prod id abs_fs (exec (CRename p q) m)"
  by (simp_all add: Put_def Reserve_def WriteFile_def Remove_def Rename_def abs_alloc wf_file_def abs_lookup split: option.split)
     (simp_all add: data_def abs_fs_def AList.delete_conv' AList.update_conv')

lemma exec_refines_open:
  assumes m: "wf_fs m"
  shows "spec (CCreate p) (abs_fs m) = map_prod id abs_fs (exec (CCreate p) m)"
    and "spec (COpenFile p create) (abs_fs m) = map_prod id abs_fs (exec (COpenFile p create) m)"
  using abs_alloc [of "\<lparr>buf = b, used = 0\<rparr>" p m for b, symmetric]
  by (simp_all add: Create_def OpenFile_def abs_lookup abs_alloc wf_file_def data_def abs_hand_out [symmetric] split: option.split)

lemma exec_refines_handle:
  assumes m: "wf_fs m"
  shows "spec (CWrite k p) (abs_fs m) = map_prod id abs_fs (exec (CWrite k p) m)"
    and "spec (CSeek k off whence) (abs_fs m) = map_prod id abs_fs (exec (CSeek k off whence) m)"
    and "spec (CRead k n) (abs_fs m) = map_prod id abs_fs (exec (CRead k n) m)"
    and "spec (CTruncate k z) (abs_fs m) = map_prod id abs_fs (exec (CTruncate k z) m)"
proof -
  have wf: "wf_file (heap m ! h_file (handles m ! k))" if "k < length (handles m)"
    using wf_fsD(2,3) [OF m] that by simp
  show "spec (CSeek k off whence) (abs_fs m) = map_prod id abs_fs (exec (CSeek k off whence) m)"
    by (simp add: mem_seek_def Let_def p_bytes_abs [OF m] abs_pos_update split: option.split)
  show "spec (CRead k n) (abs_fs m) = map_prod id abs_fs (exec (CRead k n) m)"
    by (auto simp add: mem_read_def Let_def p_bytes_abs [OF m] abs_pos_update slice_def min_def
        intro!: arg_cong [where f = "\<lambda>x. p_at k x (abs_fs m)"])
  show "spec (CTruncate k z) (abs_fs m) = map_prod id abs_fs (exec (CTruncate k z) m)"
    using wf by (simp add: mem_truncate_def Let_def p_bytes_abs [OF m] abs_heap_update [OF m] data_resize)
  show "spec (CWrite k p) (abs_fs m) = map_prod id abs_fs (exec (CWrite k p) m)"
  proof (cases "k < length (handles m)")
    case True
    let ?h = "handles m ! k"
    let ?f = "writeAt (h_pos ?h) p (heap m ! h_file ?h)"
    let ?m = "m\<lparr>heap := (heap m)[h_file ?h := ?f]\<rparr>"
    have "abs_fs (?m\<lparr>handles := (handles ?m)[k := (handles ?m ! k)\<lparr>h_pos := h_pos ?h + length p\<rparr>]\<rparr>)
        = p_at k (h_pos ?h + length p) (p_set k (data ?f) (abs_fs m))"
      unfolding abs_pos_update abs_heap_update [OF m True] ..
    with True wf show ?thesis by (simp add: mem_write_def Let_def p_bytes_abs [OF m] data_writeAt)
  qed simp
qed

lemma exec_refines: "wf_fs m \<Longrightarrow> spec c (abs_fs m) = map_prod id abs_fs (exec c m)"
  by (cases c) (simp_all only: exec_refines_lookup exec_refines_names exec_refines_open exec_refines_handle)

lemma exec_all_refines: "wf_fs m \<Longrightarrow> spec_all cs (abs_fs m) = map_prod id abs_fs (exec_all cs m)"
proof (induction cs arbitrary: m)
  case (Cons c cs)
  obtain r m1 where e: "exec c m = (r, m1)" by (cases "exec c m")
  have "wf_fs m1" using wf_exec [OF Cons.prems, of c] e by simp
  moreover obtain rs m2 where a: "exec_all cs m1 = (rs, m2)" by (cases "exec_all cs m1")
  ultimately have "spec_all cs (abs_fs m1) = (rs, abs_fs m2)" using Cons.IH by simp
  then show ?case using exec_refines [OF Cons.prems, of c] e a by simp
qed simp

section \<open>Properties\<close>


text \<open>
  C26. Whatever calls were made, every slice lies inside its array, the paths are normalised and
  distinct, and no two of them share a file, so that a write through one path never shows under another.
\<close>

theorem memfs_invariant:
  assumes "reachable m"
  shows "list_all wf_file (heap m) \<and> distinct (map fst (files m)) \<and> distinct (map snd (files m))
    \<and> list_all (\<lambda>(p, i). CHR 0x5C \<notin> set p \<and> i < length (heap m)) (files m)"
proof -
  have "wf_fs m" using assms by (rule reachable_wf)
  moreover have "CHR 0x5C \<notin> set p" if "memKey p = p" for p
  proof
    assume "CHR 0x5C \<in> set p"
    then have "CHR 0x5C \<in> set (memKey p)" using that by simp
    then show False by (auto simp add: memKey_def)
  qed
  ultimately show ?thesis unfolding wf_fs_def list_all_iff by (simp add: case_prod_beta)
qed

lemma reachable_exec_all: "reachable m \<Longrightarrow> reachable (snd (exec_all cs m))"
proof (induction cs arbitrary: m)
  case (Cons c cs)
  have "reachable (snd (exec c m))" using call [OF Cons.prems, of c "fst (exec c m)" "snd (exec c m)"] by simp
  from Cons.IH [OF this] show ?case by (simp add: case_prod_beta)
qed simp

theorem memfs_invariant_witness:
  "distinct (map snd (files (snd (exec_all [CPut [] ''a'' [1], CCreate ''b'', CRename ''a'' ''b''] NewMemFS))))"
  using memfs_invariant [OF reachable_exec_all [OF fresh, of "[CPut [] ''a'' [1], CCreate ''b'', CRename ''a'' ''b'']"]] by simp

text \<open>
  C37. A rename of a file onto itself, also under another spelling of its path, loses it: the call
  succeeds and the path is absent afterwards.  Renaming to a different path keeps the content.
\<close>

theorem rename_content:
  assumes "map_of (files m) (memKey p) = Some i"
  shows "fst (Rename p q m) = Done \<and>
    fst (Get q (snd (Rename p q m))) = (if memKey q = memKey p then Absent else Content (data (heap m ! i)))"
  using assms by (simp add: Rename_def Get_def AList.delete_conv' AList.update_conv')

theorem rename_content_witness:
  "fst (Get ''d/f'' (snd (Rename ''d/f'' [CHR ''d'', CHR 0x5C, CHR ''f''] (snd (Put [] ''d/f'' [7] NewMemFS))))) = Absent"
  using rename_content [of "snd (Put [] ''d/f'' [7] NewMemFS)" "''d/f''" 0 "''d/f''"]
    rename_content [of "snd (Put [] ''d/f'' [7] NewMemFS)" "''d/f''" 0 "[CHR ''d'', CHR 0x5C, CHR ''f'']"]
  by (simp add: Put_def alloc_def NewMemFS_def memKey_def Rename_def Get_def)

end
