(* ===== verification/InPlacePatch.thy ===== *)
theory InPlacePatch
  imports Journal MemFS
begin

text \<open>
  \<^verbatim>\<open>ReindexInPlace\<close> (\<^verbatim>\<open>mkv/ops/reindex_inplace.go\<close>): the edits computed from a scan of the file, the calls
  that apply them under the protection of the journal, and what a crash at any point leaves.  The scan
  itself and the verification of the patched file only read; the outcome of the latter is an argument.
\<close>

section \<open>The edits\<close>

record inplaceSpan =
  sp_off :: int
  sp_len :: int

record inplaceScan =
  segSizeOff :: int
  segSizeLen :: int
  segDataStart :: int
  scan_cues :: "CuePoint list"
  seekHeadSlot :: "inplaceSpan option"
  seekEntries :: "SeekEntry list"
  voidCandidates :: "inplaceSpan list"
  oldCues :: "inplaceSpan list"

record inplacePatch =
  cuesBytes :: bytes
  segSizePatch :: bytes
  slotOff :: int
  slotPatch :: bytes
  slotLen :: int
  oldCuesHdrs :: "bytes list"

definition encodeDataSizeFixed :: "int \<Rightarrow> int \<Rightarrow> bytes result" where
  "encodeDataSizeFixed sz width =
     (if width < 1 \<or> width > 8 then Inl (Errf ''encodeDataSizeFixed: invalid width'')
      else let mx = 2 ^ nat (7 * width) - 2 in
        if sz < 0 \<or> sz > mx then Inl (Errf ''size does not fit a VINT of that width'')
        else Inr (be_enc (nat width) (word_of_int sz OR push_bit (nat (7 * width)) 1 :: u64)))"

definition voidHeaderBytes :: "int \<Rightarrow> bytes result" where
  "voidHeaderBytes totalSize =
     (if totalSize < 2 then Inl (Errf ''void slot too small'') else VoidHeader totalSize)"

definition stale_entry :: "inplaceScan \<Rightarrow> int \<Rightarrow> SeekEntry \<Rightarrow> bool" where
  "stale_entry scan newSegSize e \<longleftrightarrow>
     se_ID e = IDCues
     \<or> (let at = wrap64 (segDataStart scan + se_Pos e)
        in list_ex (\<lambda>oc. sp_off oc \<le> at \<and> at < sp_off oc + sp_len oc) (oldCues scan))
     \<or> se_Pos e < 0 \<or> se_Pos e \<ge> newSegSize"

definition fits_slot :: "int \<Rightarrow> bytes \<Rightarrow> bool" where
  "fits_slot slot_len sh \<longleftrightarrow> (let r = slot_len - int (length sh) in r = 0 \<or> r \<ge> 2)"

definition choose_slot :: "inplaceScan \<Rightarrow> bytes \<Rightarrow> inplaceSpan result" where
  "choose_slot scan sh =
     (case seekHeadSlot scan of
        Some slot \<Rightarrow> if fits_slot (sp_len slot) sh then Inr slot
                     else Inl (Errf ''head SeekHead too small for the Cues entry'')
      | None \<Rightarrow> (case find (\<lambda>cand. fits_slot (sp_len cand) sh) (voidCandidates scan) of
          Some slot \<Rightarrow> Inr slot
        | None \<Rightarrow> Inl (Errf ''no head SeekHead or Void space'')))"

fun all_r :: "'a result list \<Rightarrow> 'a list result" where
  "all_r [] = Inr []"
| "all_r (r # rs) = bind_r r (\<lambda>x. bind_r (all_r rs) (\<lambda>xs. Inr (x # xs)))"

definition buildInPlacePatch :: "inplaceScan \<Rightarrow> int \<Rightarrow> int \<Rightarrow> inplacePatch result" where
  "buildInPlacePatch scan sz scale =
     bind_r (WriteCues (scan_cues scan) scale) (\<lambda>cues.
       let newCuesPosRel = sz - segDataStart scan;
           newSegSize = sz + int (length cues) - segDataStart scan in
       bind_r (encodeDataSizeFixed newSegSize (segSizeLen scan)) (\<lambda>segSize.
         let newEntries = filter (\<lambda>e. \<not> stale_entry scan newSegSize e) (seekEntries scan)
                            @ [\<lparr>se_ID = IDCues, se_Pos = newCuesPosRel\<rparr>] in
         bind_r (WriteSeekHead newEntries) (\<lambda>sh.
           bind_r (choose_slot scan sh) (\<lambda>slot.
             let remainder = sp_len slot - int (length sh) in
             bind_r (if remainder \<ge> 2 then voidHeaderBytes remainder else Inr []) (\<lambda>voidHdr.
               bind_r (all_r (map (\<lambda>oc. voidHeaderBytes (sp_len oc)) (oldCues scan))) (\<lambda>hdrs.
                 Inr \<lparr>cuesBytes = cues, segSizePatch = segSize, slotOff = sp_off slot, slotPatch = sh @ voidHdr,
                      slotLen = sp_len slot, oldCuesHdrs = hdrs\<rparr>))))))"

section \<open>The calls on the file\<close>

text \<open>The edits as pairs of an offset and the bytes written there, in the order they are applied.\<close>

definition patches_of :: "inplaceScan \<Rightarrow> inplacePatch \<Rightarrow> (nat \<times> bytes) list" where
  "patches_of scan p =
     (nat (segSizeOff scan), segSizePatch p) # (nat (slotOff p), slotPatch p)
     # zip (map (\<lambda>oc. nat (sp_off oc)) (oldCues scan)) (oldCuesHdrs p)"

definition captured_zone_at :: "bytes \<Rightarrow> nat \<Rightarrow> nat \<Rightarrow> inplaceZone" where
  "captured_zone_at c off n = \<lparr>z_off = int off, z_orig = slice off (off + n) c\<rparr>"

definition zones_of :: "bytes \<Rightarrow> (nat \<times> bytes) list \<Rightarrow> nat option \<Rightarrow> inplaceZone list" where
  "zones_of c ps at =
     map (\<lambda>(off, d). captured_zone_at c off (length d)) ps
     @ (case at of None \<Rightarrow> [] | Some a \<Rightarrow> [captured_zone_at c a intentLen])"

text \<open>Where the intent record goes, if there is room for it.\<close>

definition intent_offset :: "bytes \<Rightarrow> inplacePatch \<Rightarrow> nat option" where
  "intent_offset c p =
     (let slack = slotLen p - int (length (slotPatch p)); at = nat (slotOff p + slotLen p - int intentLen) in
      if slack \<ge> int intentLen \<and> at + intentLen \<le> length c \<and> slice at (at + intentLen) c = replicate intentLen 0
      then Some at else None)"

text \<open>
  The write phase: intent record, journal, edits, then either the original put back or the record
  cleared and the journal cut off.  The second component is the error the operation ends with.
\<close>

definition in_place_calls :: "bool \<Rightarrow> nat option \<Rightarrow> bytes \<Rightarrow> bytes \<Rightarrow> (nat \<times> bytes) list \<Rightarrow> file_call list \<times> error option" where
  "in_place_calls verified at c lead ps =
     (let n = length c;
          zs = zones_of c ps at;
          intent = (case at of None \<Rightarrow> [] | Some a \<Rightarrow> writeIntent a (int n) @ [Sync]);
          clear = (case at of None \<Rightarrow> [] | Some a \<Rightarrow> clearIntent a @ [Sync]);
          undo = (case rollbackInPlaceJournal True True \<lparr>origSize = int n, zones = zs\<rparr> of Inl _ \<Rightarrow> [] | Inr cs \<Rightarrow> cs)
      in case writeInPlaceJournal lead (int n) zs of
           Inl e \<Rightarrow> (intent @ undo, Some e)
         | Inr tail \<Rightarrow>
             let begun = intent @ [Write n tail, Sync] @ map (\<lambda>(off, d). Write off d) ps @ [Sync]
             in if \<not> verified then (begun @ undo, Some (Errf ''verify failed (original file restored)''))
                else (begun @ clear @ [Truncate (n + length lead), Sync], None))"

definition ReindexInPlace :: "bool \<Rightarrow> inplaceScan \<Rightarrow> int \<Rightarrow> bytes \<Rightarrow> (file_call list \<times> error option) result" where
  "ReindexInPlace verified scan scale c =
     (if scan_cues scan = [] then Inl (Errf ''no cueable keyframes found'')
      else bind_r (buildInPlacePatch scan (int (length c)) scale) (\<lambda>p.
        let ps = patches_of scan p in
        if list_ex (\<lambda>(off, d). off + length d > length c) ps then Inl UnexpectedEOF
        else Inr (in_place_calls verified (intent_offset c p) c (cuesBytes p) ps)))"
section \<open>Crashes\<close>

text \<open>
  What the file may hold when the process dies while it makes a list of calls: every call before the
  one it dies in has taken effect, and of a write only a first part may have landed.
\<close>

inductive crash :: "file_call list \<Rightarrow> bytes \<Rightarrow> bytes \<Rightarrow> bool" where
  here: "crash cs c c"
| torn: "crash (Write off p # cs) c (overwrite off (take k p) c)"
| later: "crash cs (on_bytes x c) d \<Longrightarrow> crash (x # cs) c d"

inductive_simps crash_Nil: "crash [] c d"
inductive_simps crash_Cons: "crash (x # xs) c d"

lemma crash_append: "crash (xs @ ys) c d \<Longrightarrow> crash xs c d \<or> crash ys (fold on_bytes xs c) d"
  by (induction xs arbitrary: c) (auto simp add: crash_Cons)

lemma crash_write_sync:
  assumes "crash [Write off p, Sync] c d" "off \<le> length c"
  shows "\<exists>k \<le> length p. d = overwrite off (take k p) c"
proof -
  from assms(1) consider "d = c" | k where "d = overwrite off (take k p) c" | "d = overwrite off p c"
    by (auto simp add: crash_Cons crash_Nil)
  then show ?thesis
  proof cases
    case 1
    then show ?thesis using overwrite_Nil [OF assms(2)] by (intro exI [of _ 0]) simp
  next
    case (2 k)
    then show ?thesis by (intro exI [of _ "min k (length p)"]) (cases "k \<le> length p", simp_all)
  qed (auto intro!: exI [of _ "length p"])
qed

text \<open>Writes inside the zones, complete or not, leave everything else as it was.\<close>

definition within :: "(nat \<Rightarrow> bool) \<Rightarrow> nat \<Rightarrow> file_call \<Rightarrow> bool" where
  "within Z n x \<longleftrightarrow> (case x of Write off p \<Rightarrow> off + length p \<le> n \<and> (\<forall>i. off \<le> i \<and> i < off + length p \<longrightarrow> Z i) | Truncate _ \<Rightarrow> False | Sync \<Rightarrow> True)"

lemma within_run:
  assumes "list_all (within Z (length b)) cs" "agree_outside Z c b"
  shows "agree_outside Z (fold on_bytes cs c) b" and "crash cs c d \<Longrightarrow> agree_outside Z d b"
proof -
  have w: "agree_outside Z (overwrite off (take k p) c) b"
    if "within Z (length b) (Write off p)" "agree_outside Z c b" for off p k c
  proof -
    have "length c = length b" using that(2) by (simp add: agree_outside_def)
    then have "agree_outside Z (overwrite off (take k p) c) c"
      using that(1) by (intro agree_overwrite) (auto simp add: within_def)
    then show ?thesis using that(2) agree_trans by blast
  qed
  have step: "agree_outside Z (on_bytes x c) b" if "within Z (length b) x" "agree_outside Z c b" for x c
  proof (cases x)
    case (Write off p)
    then show ?thesis using w [of off p c "length p"] that by simp
  qed (use that in \<open>simp_all add: within_def\<close>)
  show "agree_outside Z (fold on_bytes cs c) b" using assms by (induction cs arbitrary: c) (simp_all add: step)
  show "agree_outside Z d b" if "crash cs c d"
    using that assms by (induction rule: crash.induct) (simp_all add: w step)
qed

section \<open>The phases of an operation\<close>

lemma zones_captured:
  assumes "list_all (\<lambda>(off, d). off + length d \<le> length c) ps" "\<And>a. at = Some a \<Longrightarrow> a + intentLen \<le> length c"
  shows "list_all (captured c) (zones_of c ps at)"
proof -
  have "captured c (captured_zone_at c off n)" if "off + n \<le> length c" for off n
    using that by (simp add: captured_def captured_zone_at_def zone_ok_def length_slice)
  then show ?thesis using assms by (auto simp add: zones_of_def list_all_iff split: option.split)
qed

lemma patches_within:
  assumes "list_all (\<lambda>(off, d). off + length d \<le> length c) ps"
  shows "list_all (within (in_zones (zones_of c ps at)) (length c)) (map (\<lambda>(off, d). Write off d) ps)"
proof -
  have "in_zones (zones_of c ps at) i" if "(off, d) \<in> set ps" "off \<le> i" "i < off + length d" for off d i
  proof -
    have "off + length d \<le> length c" using assms that(1) by (auto simp add: list_all_iff)
    then show ?thesis using that by (force simp add: in_zones_def zones_of_def list_ex_iff captured_zone_at_def length_slice)
  qed
  then show ?thesis using assms by (auto simp add: list_all_iff within_def)
qed

lemma intent_within:
  assumes "a + intentLen \<le> length c" "length p = intentLen"
  shows "within (in_zones (zones_of c ps (Some a))) (length c) (Write a p)"
  using assms by (auto simp add: within_def in_zones_def zones_of_def captured_zone_at_def length_slice)

text \<open>With the journal behind the file, whatever the zones hold, recovery puts the original back.\<close>

lemma journal_recovers:
  assumes "list_all (captured c) zs" "length c < 2 ^ 63" "writeInPlaceJournal lead (int (length c)) zs = Inr tail"
    and "agree_outside (in_zones zs) d (c @ tail)"
  shows "\<exists>calls. RecoverInPlace True True d = Inr (True, calls) \<and> fold on_bytes calls d = c"
proof -
  have out: "\<not> in_zones zs i" if "length c \<le> i" for i
    using that assms(1) captured_zone(1) [of c] by (force simp add: in_zones_def list_ex_iff list_all_iff)
  have "drop (length c) d = tail" using agree_drop [OF assms(4), of "length c"] out by simp
  then have d: "d = take (length c) d @ tail" by (metis append_take_drop_id)
  have l: "length d = length c + length tail" using assms(4) by (simp add: agree_outside_def)
  have "list_all (zone_passes (int (length c))) zs"
    using assms(1,2) zone_ok_passes by (auto simp add: list_all_iff captured_def)
  then have "readInPlaceJournal (take (length c) d @ tail) = Inr (Some \<lparr>origSize = int (length c), zones = zs\<rparr>)"
    using assms(2,3) l by (intro readInPlaceJournal_written) simp_all
  then have r: "readInPlaceJournal d = Inr (Some \<lparr>origSize = int (length c), zones = zs\<rparr>)" using d by simp
  obtain calls where calls: "rollbackInPlaceJournal True True \<lparr>origSize = int (length c), zones = zs\<rparr> = Inr calls"
    by (simp add: rollbackInPlaceJournal_def)
  have "fold on_bytes calls d = c" using plain.rollback_restores [OF _ assms(1,4) calls] by simp
  then show ?thesis by (simp add: RecoverInPlace_def r calls)
qed
text \<open>
  No proper part of the tail, behind the file, ends like a journal: it takes the whole tail for the
  reader to find one.
\<close>

definition no_early_journal :: "bytes \<Rightarrow> bytes \<Rightarrow> bool" where
  "no_early_journal c tail \<longleftrightarrow>
     list_all (\<lambda>k. drop (length c + k - 16) (c @ take k tail) \<noteq> inplaceJournalMagic) [0..<length tail]"

lemma no_magic_no_journal:
  assumes "drop (length d - 16) d \<noteq> inplaceJournalMagic"
  shows "readInPlaceJournal d = Inr None"
proof (cases "length d < inplaceTrailerLen")
  case False
  then have "slice 8 24 (drop (length d - inplaceTrailerLen) d) = drop (length d - 16) d"
    by (simp add: slice_def inplaceTrailerLen_def)
  then show ?thesis using assms by (simp add: readInPlaceJournal_def Let_def)
qed (simp add: readInPlaceJournal_def)

lemma no_journal_yet:
  assumes "no_early_journal c tail" "k < length tail" "length c' = length c" "drop (length c - 16) c' = drop (length c - 16) c"
  shows "readInPlaceJournal (c' @ take k tail) = Inr None"
proof -
  have "drop (length (c' @ take k tail) - 16) (c' @ take k tail) = drop (length c + k - 16) (c @ take k tail)"
  proof (cases "k \<le> 16")
    case True
    then have "drop (length c + k - 16) c' = drop (length c + k - 16) c"
    proof -
      have "length c + k - 16 = k - (16 - length c) + (length c - 16)" by linarith
      then show ?thesis by (metis assms(4) drop_drop)
    qed
    then show ?thesis using assms(2,3) True by simp
  qed (use assms(2,3) in simp)
  moreover have "drop (length c + k - 16) (c @ take k tail) \<noteq> inplaceJournalMagic"
    using assms(1,2) by (auto simp add: no_early_journal_def list_all_iff)
  ultimately show ?thesis by (intro no_magic_no_journal) simp
qed

lemma findIntent_none: "list_all (no_record (head_of c)) (headVoidEnds (head_of c)) \<Longrightarrow> findIntent c = None"
  using find_record_skip [of "head_of c" "headVoidEnds (head_of c)" "length c" "[]"]
  by (simp add: findIntent_def Let_def flip: head_of_def)

text \<open>Before the journal is whole, the intent record takes the file back.\<close>

lemma intent_recovers:
  assumes at: "intent_place c a" "tears_show (int (length c))" "a + 80 \<le> length c" "length c < 2 ^ 63"
    and e: "no_early_journal c tail" "tail \<noteq> []" and k: "k \<le> 64" "j < length tail" "k = 64 \<or> j = 0"
  defines "d \<equiv> overwrite a (take k (intentBytes (int (length c)))) c @ take j tail"
  shows "\<exists>b calls. RecoverInPlace True True d = Inr (b, calls) \<and> fold on_bytes calls d = c"
proof -
  let ?c1 = "overwrite a (take k (intentBytes (int (length c)))) c"
  have c1: "?c1 = take a c @ take k (intentBytes (int (length c))) @ drop (a + k) c"
    using at(3) k(1) by (simp add: overwrite_inside)
  have l: "length ?c1 = length c" using at(3) k(1) by simp
  have "drop (length c - 16) ?c1 = drop (length c - 16) c" unfolding c1 using at(3) k(1) by simp
  then have r: "readInPlaceJournal d = Inr None" unfolding d_def using no_journal_yet [OF e(1) k(2) l] by simp
  show ?thesis
  proof (cases "k = 0")
    case True
    have "a + 0 \<le> length c" using at(3) by simp
    then have d: "d = c" using True k(3) by (simp add: d_def overwrite_inside)
    have "recoverIntent c = (False, [])"
      using findIntent_none [of c] at(1) by (simp add: recoverIntent_def intent_place_def)
    then show ?thesis using r by (intro exI [of _ False] exI [of _ "[]"]) (simp add: RecoverInPlace_def d)
  next
    case False
    have kt: "k = 64 \<or> take j tail = []" using k(3) by auto
    note rt = recoverIntent_torn [OF at(1) _ k(1) kt at(2,4), folded d_def]
    obtain b calls where rc: "recoverIntent d = (b, calls)" by fastforce
    then have "b" "fold on_bytes calls d = c" using rt False by simp_all
    then show ?thesis using r rc by (intro exI [of _ True] exI [of _ "calls @ [Sync]"]) (simp add: RecoverInPlace_def)
  qed
qed
text \<open>The edits and what closes an operation, all inside the zones but the last truncate.\<close>

lemma closing_calls:
  assumes "list_all (\<lambda>(off, d). off + length d \<le> length c) ps" "\<And>a. at = Some a \<Longrightarrow> a + intentLen \<le> length c"
    and "writeInPlaceJournal lead (int (length c)) (zones_of c ps at) = Inr tail"
  obtains xs m where
    "fst (in_place_calls verified at c lead ps)
      = (case at of None \<Rightarrow> [] | Some a \<Rightarrow> [Write a (intentBytes (int (length c))), Sync])
        @ [Write (length c) tail, Sync] @ xs @ [Truncate m, Sync]"
    "list_all (within (in_zones (zones_of c ps at)) (length c)) xs" "verified \<longrightarrow> m = length c + length lead"
proof -
  let ?zs = "zones_of c ps at"
  have z: "list_all (captured c) ?zs" by (rule zones_captured [OF assms(1,2)])
  define pw where "pw = map (\<lambda>(off, d). Write off d) ps @ [Sync]"
  define cl where "cl = (case at of None \<Rightarrow> [] | Some a \<Rightarrow> clearIntent a @ [Sync])"
  define un where "un = map (\<lambda>z. Write (nat (z_off z)) (z_orig z)) ?zs"
  have "list_all (within (in_zones ?zs) (length c)) pw"
    using patches_within [OF assms(1)] by (simp add: pw_def within_def)
  moreover have "list_all (within (in_zones ?zs) (length c)) cl"
    using assms(2) intent_within [of _ c "replicate intentLen 0" ps]
    by (auto simp add: cl_def clearIntent_def within_def split: option.split)
  moreover have "list_all (within (in_zones ?zs) (length c)) un"
    using z captured_zone(1) [of c] by (fastforce simp add: un_def list_all_iff within_def in_zones_def list_ex_iff)
  moreover have "fst (in_place_calls verified at c lead ps)
      = (case at of None \<Rightarrow> [] | Some a \<Rightarrow> [Write a (intentBytes (int (length c))), Sync])
        @ [Write (length c) tail, Sync]
        @ (if verified then (pw @ cl) @ [Truncate (length c + length lead), Sync] else (pw @ un) @ [Truncate (length c), Sync])"
    unfolding in_place_calls_def Let_def assms(3) by (cases at) (simp_all add: rollbackInPlaceJournal_def pw_def cl_def un_def writeIntent_def)
  ultimately show thesis
    by (cases verified) (intro that [of "pw @ cl" "length c + length lead"], simp, simp, simp, intro that [of "pw @ un" "length c"], simp_all)
qed

lemma within_longer: "within Z n x \<Longrightarrow> n \<le> m \<Longrightarrow> within Z m x"
  by (auto simp add: within_def split: file_call.split)

text \<open>Once the journal is whole: any crash before the last truncate is rolled back.\<close>

lemma crash_after_journal:
  assumes z: "list_all (captured c) zs" and n: "length c < 2 ^ 63"
    and w: "writeInPlaceJournal lead (int (length c)) zs = Inr tail"
    and xs: "list_all (within (in_zones zs) (length c)) xs" and c2: "agree_outside (in_zones zs) c2 (c @ tail)"
    and cr: "crash (xs @ [Truncate m, Sync]) c2 d"
  shows "d = fold on_bytes (xs @ [Truncate m, Sync]) c2
    \<or> (\<exists>b calls. RecoverInPlace True True d = Inr (b, calls) \<and> fold on_bytes calls d = c)"
proof -
  have xs': "list_all (within (in_zones zs) (length (c @ tail))) xs"
    using xs within_longer [of "in_zones zs" "length c" _ "length (c @ tail)"] by (auto simp add: list_all_iff)
  have rec: "\<exists>b calls. RecoverInPlace True True e = Inr (b, calls) \<and> fold on_bytes calls e = c"
    if "agree_outside (in_zones zs) e (c @ tail)" for e
    using journal_recovers [OF z n w that] by blast
  from crash_append [OF cr] show ?thesis
  proof
    assume "crash xs c2 d"
    then show ?thesis using within_run(2) [OF xs' c2] rec by blast
  next
    assume "crash [Truncate m, Sync] (fold on_bytes xs c2) d"
    then show ?thesis using within_run(1) [OF xs' c2] rec by (auto simp add: crash_Cons crash_Nil)
  qed
qed

lemma crash_outcome:
  assumes ps: "list_all (\<lambda>(off, d). off + length d \<le> length c) ps" and n: "length c < 2 ^ 63"
    and w: "writeInPlaceJournal lead (int (length c)) (zones_of c ps at) = Inr tail"
    and e: "no_early_journal c tail"
    and at: "\<And>a. at = Some a \<Longrightarrow> intent_place c a \<and> tears_show (int (length c)) \<and> a + 80 \<le> length c"
    and cr: "crash (fst (in_place_calls verified at c lead ps)) c d"
  shows "d = fold on_bytes (fst (in_place_calls verified at c lead ps)) c
    \<or> (\<exists>b calls. RecoverInPlace True True d = Inr (b, calls) \<and> fold on_bytes calls d = c)
    \<or> at = None \<and> (\<exists>k < length tail. d = c @ take k tail)"
proof -
  let ?zs = "zones_of c ps at"
  have at64: "\<And>a. at = Some a \<Longrightarrow> a + intentLen \<le> length c" using at by (fastforce simp add: intentLen_def)
  have z: "list_all (captured c) ?zs" by (rule zones_captured [OF ps at64])
  have tne: "tail \<noteq> []" using w by (auto simp add: writeInPlaceJournal_def Let_def inplaceJournalMagic_def split: if_splits)
  obtain xs m where calls: "fst (in_place_calls verified at c lead ps)
      = (case at of None \<Rightarrow> [] | Some a \<Rightarrow> [Write a (intentBytes (int (length c))), Sync])
        @ [Write (length c) tail, Sync] @ xs @ [Truncate m, Sync]" (is "_ = ?I @ ?W @ ?X")
    and xs: "list_all (within (in_zones ?zs) (length c)) xs"
    by (rule closing_calls [OF ps at64 w])
  define c1 where "c1 = fold on_bytes ?I c"
  have c1: "length c1 = length c" "agree_outside (in_zones ?zs) c1 c"
  proof -
    have "list_all (within (in_zones ?zs) (length c)) ?I"
      using at64 intent_within [of _ c "intentBytes (int (length c))" ps] by (auto simp add: within_def intentLen_def split: option.split)
    then show "agree_outside (in_zones ?zs) c1 c" unfolding c1_def by (rule within_run(1)) simp
    then show "length c1 = length c" by (simp add: agree_outside_def)
  qed
  have w1: "fold on_bytes ?W c1 = c1 @ tail" using overwrite_append [of c1 tail] by (simp add: c1(1))
  have cr: "crash (?I @ ?W @ ?X) c d" using cr by (simp add: calls)
  then consider "crash ?I c d" | "crash ?W c1 d" | "crash ?X (c1 @ tail) d"
    using crash_append [of ?I "?W @ ?X" c d] crash_append [of ?W ?X c1 d] w1 by (auto simp add: c1_def)
  then show ?thesis
  proof cases
    case 1
    show ?thesis
    proof (cases at)
      case None
      then have "d = c @ take 0 tail" using 1 by (simp add: crash_Nil)
      then show ?thesis using None tne by blast
    next
      case (Some a)
      then have "a \<le> length c" using at by fastforce
      moreover have "crash [Write a (intentBytes (int (length c))), Sync] c d" using 1 Some by simp
      ultimately obtain k where k: "k \<le> 64" "d = overwrite a (take k (intentBytes (int (length c)))) c"
        using crash_write_sync by fastforce
      show ?thesis
        using intent_recovers [of c a tail k 0] at [OF Some] n e tne k by simp
    qed
  next
    case 2
    obtain k where k: "k \<le> length tail" "d = c1 @ take k tail"
      using crash_write_sync [OF 2] overwrite_append [of c1] c1(1) by auto
    show ?thesis
    proof (cases "k = length tail")
      case True
      then have "agree_outside (in_zones ?zs) d (c @ tail)" using k c1(2) by (simp add: agree_append)
      then show ?thesis using journal_recovers [OF z n w] by blast
    next
      case False
      then have k: "k < length tail" "d = c1 @ take k tail" using k by simp_all
      show ?thesis
      proof (cases at)
        case None
        then show ?thesis using k by (auto simp add: c1_def)
      next
        case (Some a)
        then show ?thesis
          using intent_recovers [of c a tail 64 k] at [OF Some] n e tne k by (simp add: c1_def)
      qed
    qed
  next
    case 3
    have eq: "fold on_bytes (?I @ ?W @ ?X) c = fold on_bytes ?X (c1 @ tail)"
      using w1 unfolding fold_append comp_def c1_def by simp
    show ?thesis
      using crash_after_journal [OF z n w xs agree_append [OF c1(2)] 3] unfolding calls eq by blast
  qed
qed
section \<open>The finished file\<close>

definition apply_patches :: "(nat \<times> bytes) list \<Rightarrow> bytes \<Rightarrow> bytes" where
  "apply_patches ps c = fold (\<lambda>(off, d). overwrite off d) ps c"

lemma agree_write:
  "agree_outside Z c d \<Longrightarrow> off + length p \<le> length c \<Longrightarrow> agree_outside Z (overwrite off p c) (overwrite off p d)"
  by (auto simp add: agree_outside_def nth_overwrite max_def)

lemma apply_patches_agree:
  "list_all (\<lambda>(off, d). off + length d \<le> length c) ps \<Longrightarrow> agree_outside Z c e \<Longrightarrow>
   agree_outside Z (apply_patches ps c) (apply_patches ps e)"
proof (induction ps arbitrary: c e)
  case (Cons q ps)
  obtain off d where q: "q = (off, d)" by (cases q)
  have "length (overwrite off d c) = length c" using Cons.prems(1) by (simp add: q)
  then show ?case
    using Cons.IH [of "overwrite off d c" "overwrite off d e"] Cons.prems agree_write [OF Cons.prems(2), of off d]
    by (simp add: apply_patches_def q)
qed (simp add: apply_patches_def)

lemma apply_patches_append:
  "list_all (\<lambda>(off, d). off + length d \<le> length c) ps \<Longrightarrow>
   apply_patches ps (c @ e) = apply_patches ps c @ e \<and> length (apply_patches ps c) = length c"
proof (induction ps arbitrary: c)
  case (Cons q ps)
  obtain off d where q: "q = (off, d)" by (cases q)
  have l: "length (overwrite off d c) = length c" "off + length d \<le> length c" using Cons.prems by (simp_all add: q)
  then show ?case
    using Cons.IH [of "overwrite off d c"] Cons.prems overwrite_append_left [OF l(2)] by (simp add: apply_patches_def q)
qed (simp add: apply_patches_def)

lemma apply_patches_elsewhere:
  assumes "list_all (\<lambda>(off, d). off + length d \<le> length c) ps"
    and "list_all (\<lambda>(off, d). off + length d \<le> a \<or> a + n \<le> off) ps"
  shows "agree_outside (\<lambda>i. \<not> (a \<le> i \<and> i < a + n)) (apply_patches ps c) c"
  using assms
proof (induction ps arbitrary: c)
  case (Cons q ps)
  obtain off d where q: "q = (off, d)" by (cases q)
  have l: "length (overwrite off d c) = length c" using Cons.prems by (simp add: q)
  have "agree_outside (\<lambda>i. \<not> (a \<le> i \<and> i < a + n)) (overwrite off d c) c"
    using Cons.prems by (intro agree_overwrite) (auto simp add: q)
  moreover have "agree_outside (\<lambda>i. \<not> (a \<le> i \<and> i < a + n)) (apply_patches ps (overwrite off d c)) (overwrite off d c)"
    using Cons l by (intro Cons.IH) simp_all
  ultimately show ?case using agree_trans by (fastforce simp add: apply_patches_def q)
qed (simp add: apply_patches_def)

lemma patches_run: "fold on_bytes (map (\<lambda>(off, d). Write off d) ps) c = apply_patches ps c"
  by (induction ps arbitrary: c) (auto simp add: apply_patches_def)

text \<open>The record, the edits around it, the zeros again: only the edits remain.\<close>

lemma record_cleared:
  assumes "list_all (\<lambda>(off, d). off + length d \<le> length c) ps"
    and "list_all (\<lambda>(off, d). off + length d \<le> a \<or> a + 64 \<le> off) ps"
    and "slice a (a + 64) c = replicate 64 0" "a + 64 \<le> length c" "length r = 64"
  shows "overwrite a (replicate 64 0) (apply_patches ps (overwrite a r c)) = apply_patches ps c"
proof -
  let ?Z = "\<lambda>i. a \<le> i \<and> i < a + 64"
  have "agree_outside ?Z (overwrite a r c) c" using assms(4,5) by (intro agree_overwrite) simp_all
  then have ag: "agree_outside ?Z (apply_patches ps (overwrite a r c)) (apply_patches ps c)"
    using assms(1,4,5) by (intro apply_patches_agree) simp_all
  have l: "length (apply_patches ps c) = length c" using apply_patches_append [OF assms(1)] by simp
  have zero: "apply_patches ps c ! (a + i) = 0" if "i < 64" for i
  proof -
    have "apply_patches ps c ! (a + i) = c ! (a + i)"
      using apply_patches_elsewhere [OF assms(1,2)] that assms(4) l by (simp add: agree_outside_def)
    also have "\<dots> = slice a (a + 64) c ! i" using that assms(4) by (simp add: slice_def)
    finally show ?thesis using assms(3) that by simp
  qed
  have l': "length (apply_patches ps (overwrite a r c)) = length c" using ag l by (simp add: agree_outside_def)
  have "agree_outside (\<lambda>i. ?Z i \<and> \<not> (a \<le> i \<and> i < a + length (replicate 64 (0 :: byte))))
      (overwrite a (replicate 64 0) (apply_patches ps (overwrite a r c))) (apply_patches ps c)"
    using assms(4) l' by (intro restore_zone [OF ag]) (simp_all add: zero)
  then have "agree_outside (\<lambda>i. False) (overwrite a (replicate 64 0) (apply_patches ps (overwrite a r c))) (apply_patches ps c)"
    by (rule agree_mono) auto
  then show ?thesis by (simp add: agree_nowhere)
qed

lemma finished_file:
  assumes ps: "list_all (\<lambda>(off, d). off + length d \<le> length c) ps"
    and at: "\<And>a. at = Some a \<Longrightarrow> slice a (a + 64) c = replicate 64 0 \<and> a + 64 \<le> length c
      \<and> list_all (\<lambda>(off, d). off + length d \<le> a \<or> a + 64 \<le> off) ps"
    and w: "writeInPlaceJournal lead (int (length c)) (zones_of c ps at) = Inr tail"
  shows "fold on_bytes (fst (in_place_calls True at c lead ps)) c = apply_patches ps c @ lead"
proof -
  obtain rest where tail: "tail = lead @ rest"
    using w by (auto simp add: writeInPlaceJournal_def Let_def split: if_splits)
  define n where "n = length c"
  show ?thesis
  proof (cases at)
    case None
    have "fold on_bytes (fst (in_place_calls True at c lead ps)) c = resized (n + length lead) (apply_patches ps (c @ tail))"
      unfolding in_place_calls_def Let_def w unfolding None by (simp add: patches_run n_def)
    also have "\<dots> = apply_patches ps c @ lead"
      using apply_patches_append [OF ps, of tail] by (simp add: resized_def tail n_def)
    finally show ?thesis .
  next
    case (Some a)
    let ?r = "intentBytes (int n)"
    let ?c1 = "overwrite a ?r c"
    have a: "a + 64 \<le> length c" using at [OF Some] by simp
    have l1: "length ?c1 = n" using a by (simp add: n_def)
    have ps1: "list_all (\<lambda>(off, d). off + length d \<le> length ?c1) ps" using ps l1 by (simp add: n_def)
    have "fold on_bytes (fst (in_place_calls True at c lead ps)) c
        = resized (n + length lead) (overwrite a (replicate 64 0) (apply_patches ps (overwrite n tail ?c1)))"
      unfolding in_place_calls_def Let_def w unfolding Some by (simp add: patches_run n_def writeIntent_def clearIntent_def intentLen_def)
    also have "overwrite n tail ?c1 = ?c1 @ tail" using overwrite_append [of ?c1 tail] l1 by simp
    also have "apply_patches ps (?c1 @ tail) = apply_patches ps ?c1 @ tail" using apply_patches_append [OF ps1] by simp
    also have "overwrite a (replicate 64 0) (apply_patches ps ?c1 @ tail) = overwrite a (replicate 64 0) (apply_patches ps ?c1) @ tail"
      using apply_patches_append [OF ps1] l1 a by (intro overwrite_append_left) (simp add: n_def)
    also have "overwrite a (replicate 64 0) (apply_patches ps ?c1) = apply_patches ps c"
      using at [OF Some] by (intro record_cleared [OF ps]) simp_all
    also have "resized (n + length lead) (apply_patches ps c @ tail) = apply_patches ps c @ lead"
      using apply_patches_append [OF ps] by (simp add: resized_def tail n_def)
    finally show ?thesis .
  qed
qed

lemma undone_file:
  assumes ps: "list_all (\<lambda>(off, d). off + length d \<le> length c) ps"
    and at: "\<And>a. at = Some a \<Longrightarrow> a + intentLen \<le> length c"
    and w: "writeInPlaceJournal lead (int (length c)) (zones_of c ps at) = Inr tail"
  shows "fold on_bytes (fst (in_place_calls False at c lead ps)) c = c"
proof -
  let ?zs = "zones_of c ps at" and ?Z = "in_zones (zones_of c ps at)"
  define I where "I = (case at of None \<Rightarrow> [] | Some a \<Rightarrow> writeIntent a (int (length c)) @ [Sync])"
  define c1 where "c1 = fold on_bytes I c"
  have "list_all (within ?Z (length c)) I"
    using at intent_within [of _ c "intentBytes (int (length c))" ps]
    by (auto simp add: I_def writeIntent_def within_def intentLen_def split: option.split)
  then have c1: "agree_outside ?Z c1 c" unfolding c1_def by (rule within_run(1)) simp
  have l1: "length c1 = length c" using c1 by (simp add: agree_outside_def)
  have "agree_outside ?Z (apply_patches ps (c1 @ tail)) (c @ tail)"
    unfolding patches_run [symmetric]
  proof (rule within_run(1))
    show "list_all (within ?Z (length (c @ tail))) (map (\<lambda>(off, d). Write off d) ps)"
      using patches_within [OF ps, of at] within_longer [of ?Z "length c" _ "length (c @ tail)"] by (auto simp add: list_all_iff)
    show "agree_outside ?Z (c1 @ tail) (c @ tail)" using c1 by (rule agree_append)
  qed
  then have "fold on_bytes (map (\<lambda>z. Write (nat (z_off z)) (z_orig z)) ?zs) (apply_patches ps (c1 @ tail)) = c @ tail"
    using restore_zones [OF zones_captured [OF ps at]] by simp
  moreover have "fst (in_place_calls False at c lead ps) = I @ [Write (length c) tail, Sync] @ map (\<lambda>(off, d). Write off d) ps
      @ [Sync] @ map (\<lambda>z. Write (nat (z_off z)) (z_orig z)) ?zs @ [Truncate (length c), Sync]"
    unfolding in_place_calls_def Let_def w by (simp add: rollbackInPlaceJournal_def I_def)
  moreover have "overwrite (length c) tail c1 = c1 @ tail" using overwrite_append [of c1 tail] l1 by simp
  ultimately show ?thesis by (simp add: patches_run c1_def [symmetric] resized_def)
qed

section \<open>Properties\<close>


text \<open>
  C19. An in-place reindex that completes leaves the original file with its edits applied and the new
  Cues behind it, no trace of journal or intent record; one whose verification fails leaves the original.
\<close>

theorem in_place_outcome:
  assumes "list_all (\<lambda>(off, d). off + length d \<le> length c) ps" and "length c < 2 ^ 63"
    and "\<And>a. at = Some a \<Longrightarrow> slice a (a + 64) c = replicate 64 0 \<and> a + 64 \<le> length c
      \<and> list_all (\<lambda>(off, d). off + length d \<le> a \<or> a + 64 \<le> off) ps"
    and "writeInPlaceJournal lead (int (length c)) (zones_of c ps at) = Inr tail" and "wf_file f" and "data f = c"
  shows "data (fold (perform writeAt resize) (fst (in_place_calls verified at c lead ps)) f)
    = (if verified then apply_patches ps c @ lead else c)"
proof -
  have "fold on_bytes (fst (in_place_calls verified at c lead ps)) c = (if verified then apply_patches ps c @ lead else c)"
    using finished_file [OF assms(1,3,4)] undone_file [OF assms(1) _ assms(4)] assms(3)
    by (cases verified) (simp_all add: intentLen_def)
  then show ?thesis using memfile.content_run [OF assms(5)] assms(6) by simp
qed

section \<open>A small file\<close>

text \<open>
  An EBML header, a Segment with a Void of 64 zeros and a Cluster; the Segment size is patched and two
  bytes are appended.
\<close>

definition small_file :: bytes where
  "small_file = [0x1A, 0x45, 0xDF, 0xA3, 0x80, 0x18, 0x53, 0x80, 0x67, 0xD3, 0xEC, 0xC0] @ replicate 64 0
     @ [0x1F, 0x43, 0xB6, 0x75, 0x8C, 1, 1, 1, 1, 1, 1, 1, 1, 1, 1, 1, 1]"

lemma small_children: "children_of_head small_file = [(IDVoid, 12, 76)]"
  by code_simp

lemma small_head: "head_of small_file = small_file"
  by (simp add: head_of_def intentHeadScan_def small_file_def)

lemma small_intent_place: "intent_place small_file 12"
proof -
  have "slice 12 76 small_file = replicate 64 0" by (simp add: slice_def small_file_def)
  moreover have "no_record small_file 76"
  proof -
    have "take 8 (replicate 64 0 :: bytes) \<noteq> intentMagic" by code_simp
    moreover have "trimmed (replicate 64 0) = []" by (simp add: trimmed_Nil set_replicate_conv_if)
    ultimately show ?thesis using \<open>slice 12 76 small_file = replicate 64 0\<close>
      by (simp add: no_record_def intentLen_def tornIntent_def)
  qed
  ultimately show ?thesis
    by (simp add: intent_place_def small_head small_children headVoidEnds_def)
qed

lemma small_tears: "tears_show (int (length small_file))"
proof -
  have b: "intent_body 93 = intentMagic @ replicate 7 0 @ [0x5D] @ replicate 44 0"
    by code_simp
  have "take k (intent_body 93) @ replicate (60 - k) 0 = intentMagic @ replicate 52 0" if "k \<in> set [8..<16]" for k
  proof -
    have k: "8 \<le> k" "k < 16" using that by (simp_all only: set_upt atLeastLessThan_iff)
    obtain j where j: "k = 8 + j" using k(1) le_Suc_ex by blast
    then have "j \<le> 7" using k(2) by simp
    moreover from this have "replicate j (0 :: byte) @ replicate (52 - j) 0 = replicate 52 0"
      using replicate_add [of j "52 - j" "0 :: byte"] by simp
    ultimately show ?thesis unfolding b j by simp
  qed
  moreover have "crc_castagnoli (intentMagic @ replicate 52 0) \<noteq> 0"
  proof -
    have "replicate 52 (0 :: byte) =
      [0, 0, 0, 0, 0, 0, 0, 0, 0, 0, 0, 0, 0, 0, 0, 0, 0, 0, 0, 0, 0, 0, 0, 0, 0, 0, 0, 0, 0, 0, 0, 0, 0, 0, 0, 0, 0, 0, 0, 0, 0, 0, 0, 0, 0, 0, 0, 0, 0, 0, 0, 0]" by code_simp
    then show ?thesis by (simp add: crc_eval intentMagic_def)
  qed
  moreover have "int (length small_file) = 93" by (simp add: small_file_def)
  ultimately show ?thesis unfolding tears_show_def list_all_iff by simp
qed
lemma no_early_journalI:
  assumes "tail = body @ inplaceJournalMagic" "0x6D \<notin> set (drop (length c - 16) c @ body)"
  shows "no_early_journal c tail"
  unfolding no_early_journal_def list_all_iff
proof
  fix k assume "k \<in> set [0..<length tail]"
  moreover have "length tail = length body + 16" by (simp add: assms(1) inplaceJournalMagic_def)
  ultimately have k: "k < length body + 16" by (simp only: set_upt atLeastLessThan_iff)
  show "drop (length c + k - 16) (c @ take k tail) \<noteq> inplaceJournalMagic"
  proof
    assume m: "drop (length c + k - 16) (c @ take k tail) = inplaceJournalMagic"
    have lt: "length (take k tail) = k" using k by (simp add: assms(1) inplaceJournalMagic_def)
    have "length c + k - (length c + k - 16) = 16"
      using arg_cong [of _ _ length, OF m] lt by (simp add: inplaceJournalMagic_def)
    then have l: "16 \<le> length c + k" by linarith
    let ?s = "length c + k - 16"
    have "hd (drop ?s (c @ take k tail)) = (c @ take k tail) ! ?s" using l lt by (intro hd_drop_conv_nth) simp
    then have "(c @ take k tail) ! ?s = 0x6D" unfolding m by (simp add: inplaceJournalMagic_def)
    moreover have "(c @ take k tail) ! ?s \<in> set (drop (length c - 16) c @ body)"
    proof (cases "?s < length c")
      case True
      then have "c ! ?s = drop (length c - 16) c ! (?s - (length c - 16))" using l by simp
      moreover have "?s - (length c - 16) < length (drop (length c - 16) c)" using True l by simp
      ultimately have "c ! ?s \<in> set (drop (length c - 16) c)" by (metis nth_mem)
      then show ?thesis using True by (simp add: nth_append)
    next
      case False
      then have "?s - length c < k" "?s - length c < length body" using k l by linarith+
      then have "(c @ take k tail) ! ?s = body ! (?s - length c)" using False by (simp add: nth_append assms(1))
      then show ?thesis using \<open>?s - length c < length body\<close> by simp
    qed
    ultimately show False using assms(2) by simp
  qed
qed

definition small_patches :: "(nat \<times> bytes) list" where "small_patches = [(9, [0xD5])]"

definition small_lead :: bytes where "small_lead = [0xEC, 0x80]"

definition small_body :: bytes where
  "small_body = small_lead @ journal_payload 93 [\<lparr>z_off = 9, z_orig = [0xD3]\<rparr>, \<lparr>z_off = 12, z_orig = replicate 64 0\<rparr>]
     @ appendUint32 101 @ [0x43, 0xDD, 0xE0, 0xD3]"

lemma small_zones: "zones_of small_file small_patches (Some 12) = [\<lparr>z_off = 9, z_orig = [0xD3]\<rparr>, \<lparr>z_off = 12, z_orig = replicate 64 0\<rparr>]"
  by (simp add: zones_of_def small_patches_def captured_zone_at_def small_file_def slice_def intentLen_def)

lemma small_payload:
  "journal_payload 93 [\<lparr>z_off = 9, z_orig = [0xD3]\<rparr>, \<lparr>z_off = 12, z_orig = replicate 64 0\<rparr>]
   = [0, 0, 0, 0, 0, 0, 0, 0x5D, 0, 0, 0, 2, 0, 0, 0, 0, 0, 0, 0, 9, 0, 0, 0, 1, 0xD3, 0, 0, 0, 0, 0, 0, 0, 12, 0, 0, 0, 64,
      0, 0, 0, 0, 0, 0, 0, 0, 0, 0, 0, 0, 0, 0, 0, 0, 0, 0, 0, 0, 0, 0, 0, 0, 0, 0, 0, 0, 0, 0, 0, 0, 0, 0, 0, 0, 0, 0, 0, 0, 0, 0, 0, 0, 0, 0, 0, 0, 0, 0, 0, 0, 0, 0, 0, 0, 0, 0, 0, 0, 0, 0, 0, 0]"
  by code_simp

lemma small_journal:
  "writeInPlaceJournal small_lead 93 (zones_of small_file small_patches (Some 12)) = Inr (small_body @ inplaceJournalMagic)"
proof -
  have "crc_ieee (journal_payload 93 [\<lparr>z_off = 9, z_orig = [0xD3]\<rparr>, \<lparr>z_off = 12, z_orig = replicate 64 0\<rparr>]) = 0x43DDE0D3"
    unfolding small_payload by (simp add: crc_eval)
  moreover have "be_enc 4 (0x43DDE0D3 :: u32) = [0x43, 0xDD, 0xE0, 0xD3]" by code_simp
  moreover have "length (journal_payload 93 [\<lparr>z_off = 9, z_orig = [0xD3]\<rparr>, \<lparr>z_off = 12, z_orig = replicate 64 0\<rparr>]) = 101"
    by (simp add: small_payload)
  ultimately show ?thesis by (simp add: writeInPlaceJournal_def Let_def small_zones maxInplaceJournal_def small_body_def)
qed

lemma small_no_early: "no_early_journal small_file (small_body @ inplaceJournalMagic)"
proof (rule no_early_journalI)
  have "appendUint32 101 = [0, 0, 0, 101]" by code_simp
  then show "0x6D \<notin> set (drop (length small_file - 16) small_file @ small_body)"
    by (simp add: small_file_def small_body_def small_payload small_lead_def)
qed simp

text \<open>The process dies when the record and the first byte behind the file have landed.\<close>

definition small_crashed :: bytes where
  "small_crashed = overwrite 12 (intentBytes 93) small_file @ [0xEC]"

lemma small_length: "length small_file = 93"
  by (simp add: small_file_def)

lemma small_crash: "crash (fst (in_place_calls True (Some 12) small_file small_lead small_patches)) small_file small_crashed"
proof -
  have "overwrite 93 (take 1 (small_body @ inplaceJournalMagic)) (overwrite 12 (intentBytes 93) small_file) = small_crashed"
    using overwrite_append [of "overwrite 12 (intentBytes 93) small_file" "[0xEC]"]
    by (simp add: small_crashed_def small_body_def small_lead_def small_length)
  then have "crash (Write 93 (small_body @ inplaceJournalMagic) # cs) (overwrite 12 (intentBytes 93) small_file) small_crashed" for cs
    by (metis crash.torn)
  then show ?thesis
    unfolding in_place_calls_def Let_def small_length of_nat_numeral small_journal
    by (simp add: writeIntent_def) (rule crash.later, simp, rule crash.later, simp)
qed


theorem in_place_outcome_witness:
  "data (fold (perform writeAt resize) (fst (in_place_calls True (Some 12) small_file small_lead small_patches))
     \<lparr>buf = small_file, used = 93\<rparr>) = apply_patches [(9, [0xD5])] small_file @ [0xEC, 0x80]"
  using in_place_outcome [of small_file small_patches "Some 12" small_lead "small_body @ inplaceJournalMagic"
      "\<lparr>buf = small_file, used = 93\<rparr>" True] small_journal small_intent_place
  by (simp add: small_length data_def wf_file_def small_patches_def small_lead_def intent_place_def)
section \<open>The edits keep the layout\<close>

lemma void_header_reads:
  assumes "VoidHeader n = Inr h" "n < 2 ^ 56"
  shows "ReadElementHeader (s\<lparr>pending := h @ rest\<rparr>)
    = (Inr (\<lparr>hdr_ID = IDVoid, hdr_Size = n - int (length h)\<rparr>, length h), s\<lparr>pending := rest\<rparr>)"
proof -
  have n: "2 \<le> n" using assms(1) by (auto simp add: VoidHeader_def split: if_splits)
  define z where "z = replicate (nat (n - int (length h))) (0 :: byte) @ rest"
  obtain bs where bs: "WriteVoid n = Inr bs"
    and rd: "ReadElementHeader (s\<lparr>pending := bs @ rest\<rparr>)
      = (Inr (\<lparr>hdr_ID = IDVoid, hdr_Size = n - int (length h)\<rparr>, length h), s\<lparr>pending := z\<rparr>)"
    using WriteVoid_fills [OF n assms(2), of rest s] assms(1) by (auto simp add: z_def)
  have "bs @ rest = h @ z" using bs n assms(1) by (simp add: WriteVoid_def z_def)
  obtain hb where "pending (s\<lparr>pending := bs @ rest\<rparr>) = hb @ pending (s\<lparr>pending := z\<rparr>)"
    and read: "\<And>t. ReadElementHeader (s\<lparr>pending := bs @ rest\<rparr>\<lparr>pending := hb @ t\<rparr>)
      = (Inr (\<lparr>hdr_ID = IDVoid, hdr_Size = n - int (length h)\<rparr>, length h), s\<lparr>pending := bs @ rest\<rparr>\<lparr>pending := t\<rparr>)"
    using local_readD [OF local_ReadElementHeader rd] by metis
  then have "hb = h" using \<open>bs @ rest = h @ z\<close> by simp
  then show ?thesis using read [of rest] by simp
qed

lemma fixed_size_reads:
  assumes "encodeDataSizeFixed sz width = Inr b"
  shows "length b = nat width" "ReadDataSize (s\<lparr>pending := b @ rest\<rparr>) = (Inr (sz, nat width), s\<lparr>pending := rest\<rparr>)"
proof -
  have w: "1 \<le> width" "width \<le> 8" and sz: "0 \<le> sz" "sz \<le> 2 ^ nat (7 * width) - 2"
    and b: "b = be_enc (nat width) (word_of_int sz OR push_bit (nat (7 * width)) 1 :: u64)"
    using assms by (auto simp add: encodeDataSizeFixed_def Let_def split: if_splits)
  have nw: "nat (7 * width) = 7 * nat width" using w by (simp add: nat_mult_distrib)
  show "length b = nat width" by (simp add: b)
  show "ReadDataSize (s\<lparr>pending := b @ rest\<rparr>) = (Inr (sz, nat width), s\<lparr>pending := rest\<rparr>)"
  proof -
    have b': "b = be_enc (nat width) (word_of_int sz OR push_bit (nat width * 7) 1 :: u64)" using b unfolding nw by (simp only: mult.commute)
    have "sz < 2 ^ (7 * nat width) - 1" using sz(2) unfolding nw by linarith
    then show ?thesis using ReadDataSize_enc [of "nat width" sz "s\<lparr>pending := b @ rest\<rparr>" rest] w sz(1) b' by simp
  qed
qed

lemma all_r_Inr: "all_r (map f xs) = Inr ys \<longleftrightarrow> list_all2 (\<lambda>x y. f x = Inr y) xs ys"
  by (induction xs arbitrary: ys) (auto simp add: bind_r_Inr list_all2_Cons1)

text \<open>
  The edits fit where they go: the Segment size keeps its width and reads back as the size that ends
  with the appended Cues; the rebuilt SeekHead fills its slot exactly or is followed by the header of a
  Void that ends where the slot ends; every stale Cues becomes a Void of the very same span.
\<close>

lemma patch_keeps_layout:
  assumes "buildInPlacePatch scan n scale = Inr p" and "slotLen p < 2 ^ 56" and "list_all (\<lambda>oc. sp_len oc < 2 ^ 56) (oldCues scan)"
  shows "length (segSizePatch p) = nat (segSizeLen scan)
    \<and> ReadDataSize (s\<lparr>pending := segSizePatch p @ rest\<rparr>)
        = (Inr (n + int (length (cuesBytes p)) - segDataStart scan, nat (segSizeLen scan)), s\<lparr>pending := rest\<rparr>)
    \<and> (\<exists>entries sh h. WriteSeekHead (entries @ [\<lparr>se_ID = IDCues, se_Pos = n - segDataStart scan\<rparr>]) = Inr sh \<and> slotPatch p = sh @ h
        \<and> (h = [] \<and> int (length sh) = slotLen p
           \<or> ReadElementHeader (s\<lparr>pending := h @ rest\<rparr>)
               = (Inr (\<lparr>hdr_ID = IDVoid, hdr_Size = slotLen p - int (length (slotPatch p))\<rparr>, length h), s\<lparr>pending := rest\<rparr>)))
    \<and> list_all2 (\<lambda>oc h. ReadElementHeader (s\<lparr>pending := h @ rest\<rparr>)
        = (Inr (\<lparr>hdr_ID = IDVoid, hdr_Size = sp_len oc - int (length h)\<rparr>, length h), s\<lparr>pending := rest\<rparr>)) (oldCues scan) (oldCuesHdrs p)"
proof -
  define entries where "entries = (\<lambda>sz. filter (\<lambda>e. \<not> stale_entry scan sz e) (seekEntries scan))"
  obtain cues segSize sh slot vh hdrs where
    e: "encodeDataSizeFixed (n + int (length cues) - segDataStart scan) (segSizeLen scan) = Inr segSize"
    and sh: "WriteSeekHead (entries (n + int (length cues) - segDataStart scan) @ [\<lparr>se_ID = IDCues, se_Pos = n - segDataStart scan\<rparr>]) = Inr sh"
    and slot: "choose_slot scan sh = Inr slot"
    and vh: "(if sp_len slot - int (length sh) \<ge> 2 then voidHeaderBytes (sp_len slot - int (length sh)) else Inr []) = Inr vh"
    and hdrs: "all_r (map (\<lambda>oc. voidHeaderBytes (sp_len oc)) (oldCues scan)) = Inr hdrs"
    and p: "p = \<lparr>cuesBytes = cues, segSizePatch = segSize, slotOff = sp_off slot, slotPatch = sh @ vh,
                 slotLen = sp_len slot, oldCuesHdrs = hdrs\<rparr>"
    using assms(1) unfolding buildInPlacePatch_def Let_def bind_r_Inr entries_def by blast
  have fit: "sp_len slot - int (length sh) = 0 \<or> sp_len slot - int (length sh) \<ge> 2"
    using slot by (auto simp add: choose_slot_def fits_slot_def Let_def find_Some_iff split: option.splits if_splits)
  have slotv: "vh = [] \<and> int (length sh) = sp_len slot
      \<or> ReadElementHeader (s\<lparr>pending := vh @ rest\<rparr>)
          = (Inr (\<lparr>hdr_ID = IDVoid, hdr_Size = sp_len slot - int (length (sh @ vh))\<rparr>, length vh), s\<lparr>pending := rest\<rparr>)"
  proof (cases "sp_len slot - int (length sh) \<ge> 2")
    case True
    then have "VoidHeader (sp_len slot - int (length sh)) = Inr vh" using vh by (simp add: voidHeaderBytes_def)
    from void_header_reads [OF this, of rest s] assms(2) show ?thesis by (simp add: p algebra_simps)
  qed (use fit vh in auto)
  have "list_all2 (\<lambda>oc h. ReadElementHeader (s\<lparr>pending := h @ rest\<rparr>)
      = (Inr (\<lparr>hdr_ID = IDVoid, hdr_Size = sp_len oc - int (length h)\<rparr>, length h), s\<lparr>pending := rest\<rparr>)) (oldCues scan) hdrs"
    using hdrs assms(3) unfolding all_r_Inr
    by (auto simp add: list_all2_conv_all_nth list_all_length voidHeaderBytes_def intro!: void_header_reads split: if_splits)
  then show ?thesis
    using fixed_size_reads(1) [OF e] fixed_size_reads(2) [OF e, of rest s] slotv sh unfolding p inplacePatch.simps by blast
qed

text \<open>A file of 93 bytes: a Void of 66 bytes at 10 for the SeekHead, a stale Cues of 10 bytes at 80.\<close>

definition small_scan :: inplaceScan where
  "small_scan = \<lparr>segSizeOff = 9, segSizeLen = 1, segDataStart = 10,
     scan_cues = [\<lparr>cue_TimeMs = 0, cue_Track = 1, cue_ClusterPos = 66, cue_RelativePos = 0\<rparr>],
     seekHeadSlot = None, seekEntries = [\<lparr>se_ID = IDCues, se_Pos = 70\<rparr>],
     voidCandidates = [\<lparr>sp_off = 10, sp_len = 66\<rparr>], oldCues = [\<lparr>sp_off = 80, sp_len = 10\<rparr>]\<rparr>"
lemma small_built: "case buildInPlacePatch small_scan 93 1000000 of Inr p \<Rightarrow> slotLen p = 66 | Inl _ \<Rightarrow> False"
  by code_simp

lemma patch_keeps_layout_witness:
  "\<exists>p. buildInPlacePatch small_scan 93 1000000 = Inr p \<and> slotLen p = 66 \<and>
     ReadDataSize \<lparr>pending = segSizePatch p, at_end = EOF, byte_reader = True\<rparr>
       = (Inr (83 + int (length (cuesBytes p)), 1), \<lparr>pending = [], at_end = EOF, byte_reader = True\<rparr>)"
proof -
  obtain p where p: "buildInPlacePatch small_scan 93 1000000 = Inr p" "slotLen p = 66"
    using small_built by (auto split: sum.splits)
  then show ?thesis
    using patch_keeps_layout [OF p(1), of "[]" "\<lparr>pending = [], at_end = EOF, byte_reader = True\<rparr>"]
    by (simp add: small_scan_def add.commute)
qed

text \<open>
  C21. A reindex that succeeds touches nothing but its zones: the finished file is the original, changed at
  most at the Segment size, the slot of the SeekHead, the stale Cues headers and the record's zeros, with
  the new Cues behind it.  No cluster byte moves.
\<close>

theorem reindex_touches_zones_only:
  assumes "ReindexInPlace verified scan scale c = Inr (calls, None)"
    and "buildInPlacePatch scan (int (length c)) scale = Inr p"
  shows "\<exists>d. fold on_bytes calls c = d @ cuesBytes p
    \<and> agree_outside (in_zones (zones_of c (patches_of scan p) (intent_offset c p))) d c"
proof -
  let ?ps = "patches_of scan p" and ?at = "intent_offset c p"
  let ?Z = "in_zones (zones_of c ?ps ?at)"
  have run: "in_place_calls verified ?at c (cuesBytes p) ?ps = (calls, None)"
    and ps: "list_all (\<lambda>(off, d). off + length d \<le> length c) ?ps"
    using assms by (auto simp add: ReindexInPlace_def Let_def list_all_iff list_ex_iff split: if_splits)
  have at: "a + intentLen \<le> length c" if "?at = Some a" for a
    using that by (auto simp add: intent_offset_def Let_def split: if_splits)
  have "verified" and "\<exists>tail. writeInPlaceJournal (cuesBytes p) (int (length c)) (zones_of c ?ps ?at) = Inr tail"
    using run unfolding in_place_calls_def Let_def by (auto split: sum.splits if_splits)
  then obtain tail where v: "verified" and w: "writeInPlaceJournal (cuesBytes p) (int (length c)) (zones_of c ?ps ?at) = Inr tail"
    by blast
  obtain xs m where calls: "fst (in_place_calls verified ?at c (cuesBytes p) ?ps)
      = (case ?at of None \<Rightarrow> [] | Some a \<Rightarrow> [Write a (intentBytes (int (length c))), Sync])
        @ [Write (length c) tail, Sync] @ xs @ [Truncate m, Sync]" (is "_ = ?I @ ?W @ ?X")
    and xs: "list_all (within ?Z (length c)) xs" and m: "m = length c + length (cuesBytes p)"
    using closing_calls [OF ps at w] v by metis
  define c1 where "c1 = fold on_bytes ?I c"
  have "list_all (within ?Z (length c)) ?I"
    using at intent_within [of _ c "intentBytes (int (length c))" ?ps] by (auto simp add: within_def intentLen_def split: option.split)
  then have c1: "agree_outside ?Z c1 c" unfolding c1_def by (rule within_run(1)) simp
  then have l1: "length c1 = length c" by (simp add: agree_outside_def)
  define e where "e = fold on_bytes xs (c1 @ tail)"
  have e: "agree_outside ?Z e (c @ tail)" unfolding e_def
    using within_run(1) [of ?Z "c @ tail" xs] xs within_longer [of ?Z "length c" _ "length (c @ tail)"] agree_append [OF c1]
    by (auto simp add: list_all_iff)
  have out: "\<not> ?Z i" if "length c \<le> i" for i
    using that zones_captured [OF ps at] captured_zone(1) [of c] by (force simp add: in_zones_def list_ex_iff list_all_iff)
  have "drop (length c) e = tail" using agree_drop [OF e, of "length c"] out by simp
  then have et: "e = take (length c) e @ tail" by (metis append_take_drop_id)
  obtain rest where tail: "tail = cuesBytes p @ rest"
    using w by (auto simp add: writeInPlaceJournal_def Let_def split: if_splits)
  have lt: "length (take (length c) e) = length c" using e by (simp add: agree_outside_def)
  have w1: "fold on_bytes ?W c1 = c1 @ tail" using overwrite_append [of c1 tail] by (simp add: l1)
  have "fold on_bytes calls c = resized m e"
    using run calls w1 by (simp add: c1_def [symmetric] e_def)
  also have "\<dots> = take (length c) e @ cuesBytes p"
    using lt by (subst et) (simp add: resized_def m tail)
  finally show ?thesis using agree_take [OF e, of "length c"] by (intro exI [of _ "take (length c) e"]) simp
qed
lemma small_runs:
  "case buildInPlacePatch small_scan 93 1000000 of
     Inr p \<Rightarrow> list_all (\<lambda>(off, d). off + length d \<le> 93) (patches_of small_scan p)
       \<and> length (journal_payload 93 (zones_of small_file (patches_of small_scan p) (intent_offset small_file p))) < 1000
   | Inl _ \<Rightarrow> False"
  by code_simp

theorem reindex_touches_zones_only_witness:
  "\<exists>calls (p :: inplacePatch) d. ReindexInPlace True small_scan 1000000 small_file = Inr (calls, None)
     \<and> fold on_bytes calls small_file = d @ cuesBytes p \<and> length d = 93"
proof -
  obtain p where p: "buildInPlacePatch small_scan 93 1000000 = Inr p"
    and fit: "list_all (\<lambda>(off, d). off + length d \<le> 93) (patches_of small_scan p)"
    and len: "length (journal_payload 93 (zones_of small_file (patches_of small_scan p) (intent_offset small_file p))) < 1000"
    using small_runs by (auto split: sum.splits)
  have "snd (in_place_calls True (intent_offset small_file p) small_file (cuesBytes p) (patches_of small_scan p)) = None"
    using len by (simp add: in_place_calls_def Let_def writeInPlaceJournal_def maxInplaceJournal_def small_length)
  then obtain calls where "in_place_calls True (intent_offset small_file p) small_file (cuesBytes p) (patches_of small_scan p) = (calls, None)"
    by (metis prod.collapse)
  then have run: "ReindexInPlace True small_scan 1000000 small_file = Inr (calls, None)"
    using p fit by (simp add: ReindexInPlace_def Let_def small_length small_scan_def list_all_iff list_ex_iff case_prod_beta not_less)
  from reindex_touches_zones_only [OF run, of p] p obtain d where
    "fold on_bytes calls small_file = d @ cuesBytes p" "length d = 93"
    by (auto simp add: small_length agree_outside_def)
  with run show ?thesis by blast
qed

end
