(* ===== verification/Rollback.thy ===== *)
theory Rollback
  imports Journal Sha256
begin

text \<open>
  The inverse repair delta (\<^verbatim>\<open>mkv/ops/rollback.go\<close>): the builder that records how the original file lies
  in the repaired one, the entry it frames, the delta of an in-place reindex, and the reconstruction of
  the original.  The delta and the files are byte strings; a device that fails is not modelled.  The hash
  the builder keeps is the bytes fed to it.
\<close>

section \<open>The builder\<close>

definition rollbackMagic :: bytes where "rollbackMagic = [0x4D, 0x4B, 0x56, 0x47, 0x52, 0x42, 0x31, 0]"
definition rollbackOpCopy :: byte where "rollbackOpCopy = 1"
definition rollbackOpLit :: byte where "rollbackOpLit = 2"
definition rollbackOpTrunc :: byte where "rollbackOpTrunc = 3"
definition rollbackMaxBuffer :: int where "rollbackMaxBuffer = 268435456"
definition rollbackSpillThreshold :: int where "rollbackSpillThreshold = 8388608"

definition errRollbackTooBig :: error where "errRollbackTooBig = Errf ''rollback delta exceeds the buffer cap''"

record rollbackBuilder =
  ops :: bytes
  spool :: "bytes option"
  spooling :: bool
  nOps :: u32
  hashed :: bytes
  tiled :: int
  rb_err :: "error option"
  opsLen :: int

definition newRollbackBuilder :: rollbackBuilder where
  "newRollbackBuilder = \<lparr>ops = [], spool = None, spooling = False, nOps = 0, hashed = [], tiled = 0, rb_err = None, opsLen = 0\<rparr>"

definition newSpoolingRollbackBuilder :: rollbackBuilder where
  "newSpoolingRollbackBuilder = newRollbackBuilder\<lparr>spooling := True\<rparr>"

definition fail :: "error \<Rightarrow> rollbackBuilder \<Rightarrow> rollbackBuilder" where
  "fail e b = (if rb_err b = None then b\<lparr>rb_err := Some e\<rparr> else b)"

definition writeOps :: "bytes \<Rightarrow> rollbackBuilder \<Rightarrow> rollbackBuilder" where
  "writeOps p b =
     (if rb_err b \<noteq> None then b
      else let b = (if spool b = None \<and> spooling b \<and> int (length (ops b)) + int (length p) > rollbackSpillThreshold
                    then b\<lparr>spool := Some (ops b), ops := []\<rparr> else b);
               b = (case spool b of Some sp \<Rightarrow> b\<lparr>spool := Some (sp @ p)\<rparr> | None \<Rightarrow> b\<lparr>ops := ops b @ p\<rparr>)
           in b\<lparr>opsLen := opsLen b + int (length p)\<rparr>)"

text \<open>Whether the op is over the cap, and the builder that remembers it.\<close>

definition overCap :: "int \<Rightarrow> rollbackBuilder \<Rightarrow> bool \<times> rollbackBuilder" where
  "overCap add b =
     (if spooling b then (False, b)
      else if opsLen b + add > rollbackMaxBuffer then (True, fail errRollbackTooBig b)
      else (False, b))"

definition guarded :: "int \<Rightarrow> (rollbackBuilder \<Rightarrow> rollbackBuilder) \<Rightarrow> rollbackBuilder \<Rightarrow> rollbackBuilder" where
  "guarded add f b =
     (if rb_err b \<noteq> None then b else (case overCap add b of (True, b) \<Rightarrow> b | (False, b) \<Rightarrow> f b))"

definition copyRun :: "int \<Rightarrow> bytes \<Rightarrow> rollbackBuilder \<Rightarrow> rollbackBuilder" where
  "copyRun dstOff d = guarded 17 (\<lambda>b.
     let b = writeOps (rollbackOpCopy # be_enc 8 (word_of_int dstOff :: u64) @ be_enc 8 (word_of_nat (length d) :: u64)) b
     in b\<lparr>hashed := hashed b @ d, tiled := tiled b + int (length d), nOps := nOps b + 1\<rparr>)"

text \<open>\<open>d\<close> is what the caller streams through the writer it gets.\<close>

definition copyRunStreamed :: "int \<Rightarrow> int \<Rightarrow> bytes \<Rightarrow> rollbackBuilder \<Rightarrow> rollbackBuilder" where
  "copyRunStreamed dstOff n d = guarded 17 (\<lambda>b.
     let b = writeOps (rollbackOpCopy # be_enc 8 (word_of_int dstOff :: u64) @ be_enc 8 (word_of_int n :: u64)) b
     in b\<lparr>tiled := tiled b + n, nOps := nOps b + 1, hashed := hashed b @ d\<rparr>)"

definition literal :: "bytes \<Rightarrow> rollbackBuilder \<Rightarrow> rollbackBuilder" where
  "literal d = guarded (9 + int (length d)) (\<lambda>b.
     let b = writeOps d (writeOps (rollbackOpLit # be_enc 8 (word_of_nat (length d) :: u64)) b)
     in b\<lparr>hashed := hashed b @ d, tiled := tiled b + int (length d), nOps := nOps b + 1\<rparr>)"

text \<open>\<open>literalFrom\<close> reads \<open>n\<close> bytes at \<open>off\<close> of a file; the bytes come in chunks, all of which reach the ops.\<close>

definition literalFrom :: "bytes \<Rightarrow> nat \<Rightarrow> nat \<Rightarrow> rollbackBuilder \<Rightarrow> rollbackBuilder" where
  "literalFrom file off n = guarded (9 + int n) (\<lambda>b.
     let b = writeOps (rollbackOpLit # be_enc 8 (word_of_nat n :: u64)) b;
         d = take n (drop off file);
         b = (writeOps d b)\<lparr>hashed := hashed b @ d\<rparr>
     in if length d < n then fail (Errf ''rollback: read literal source'') b
        else b\<lparr>tiled := tiled b + int n, nOps := nOps b + 1\<rparr>)"

text \<open>The streamed literal: \<open>d\<close> is what the caller passes through the writer, before the counters settle.\<close>

definition literalWriter :: "int \<Rightarrow> bytes \<Rightarrow> rollbackBuilder \<Rightarrow> rollbackBuilder" where
  "literalWriter n d = guarded (9 + n) (\<lambda>b.
     let b = writeOps (rollbackOpLit # be_enc 8 (word_of_int n :: u64)) b;
         b = b\<lparr>tiled := tiled b + n, nOps := nOps b + 1\<rparr>
     in (writeOps d b)\<lparr>hashed := hashed b @ d\<rparr>)"

definition trunc :: "int \<Rightarrow> rollbackBuilder \<Rightarrow> rollbackBuilder" where
  "trunc n = guarded 9 (\<lambda>b.
     let b = writeOps (rollbackOpTrunc # be_enc 8 (word_of_int n :: u64)) b in b\<lparr>nOps := nOps b + 1\<rparr>)"

function uint_len :: "u64 \<Rightarrow> nat" where
  "uint_len x = (if x = 0 then 1 else 1 + uint_len (drop_bit 8 x))"
  by pat_completeness auto
termination by (relation "measure unat") (simp_all add: unat_drop_bit_8_less word_neq_0_conv)

declare uint_len.simps [simp del]

definition encodeUintBE :: "u64 \<Rightarrow> bytes" where
  "encodeUintBE v = be_enc (uint_len (drop_bit 8 v)) v"

text \<open>An EBML size of exactly \<open>width\<close> bytes.\<close>

definition vintEncode :: "int \<Rightarrow> int \<Rightarrow> bytes result" where
  "vintEncode v width =
     (if width < 1 \<or> width > 8 then Inl (Errf ''VINT width out of range'')
      else let w = nat width; marker = drop_bit (w - 1) (0x80 :: byte) in
        if v < 0 then Inr ((marker OR (marker - 1)) # replicate (w - 1) 0xFF)
        else if v > 2 ^ (7 * w) - 2 then Inl (Errf ''value does not fit a VINT of that width'')
        else Inr ((ucast (drop_bit (8 * (w - 1)) (word_of_int v :: u64)) OR marker) # be_enc (w - 1) (word_of_int v :: u64)))"

definition literalHeader :: "ElementHeader \<Rightarrow> int \<Rightarrow> rollbackBuilder \<Rightarrow> rollbackBuilder" where
  "literalHeader h hdrBytes b =
     (if rb_err b \<noteq> None then b
      else let idBytes = encodeUintBE (ucast (hdr_ID h)) in
        case vintEncode (hdr_Size h) (hdrBytes - int (length idBytes)) of
          Inl e \<Rightarrow> fail (Errf ''rollback: synthesize header'') b
        | Inr raw \<Rightarrow> literal (idBytes @ raw) b)"

section \<open>The entry\<close>

record RollbackInfo =
  ri_Bytes :: int
  SrcSHA256 :: bytes
  DstSHA256 :: bytes

definition entry_header :: "bytes \<Rightarrow> bytes \<Rightarrow> int \<Rightarrow> u32 \<Rightarrow> bytes" where
  "entry_header srcSHA repairedSHA originalSize n =
     rollbackMagic @ be_enc 4 (0 :: u32) @ srcSHA @ repairedSHA @ be_enc 8 (word_of_int originalSize :: u64) @ be_enc 4 n"

definition finalize :: "int \<Rightarrow> bytes \<Rightarrow> rollbackBuilder \<Rightarrow> (bytes \<times> RollbackInfo) result" where
  "finalize originalSize repairedSHA b =
     (case rb_err b of
        Some e \<Rightarrow> Inl e
      | None \<Rightarrow>
          if tiled b \<noteq> originalSize then Inl (Errf ''rollback: refusing to emit an incomplete delta'')
          else let srcSHA = sha256 (hashed b);
                   header = entry_header srcSHA repairedSHA originalSize (nOps b);
                   opsSrc = (case spool b of None \<Rightarrow> ops b | Some sp \<Rightarrow> take (nat (opsLen b)) sp)
               in Inr (header @ opsSrc @ be_enc 4 (crc_castagnoli (header @ opsSrc)),
                       \<lparr>ri_Bytes = int (length header) + opsLen b + 4, SrcSHA256 = srcSHA, DstSHA256 = repairedSHA\<rparr>))"

section \<open>The delta of an in-place reindex\<close>

text \<open>
  One pass over the file: the state is the cursor and the builder.  The file holds at least \<open>finalSize\<close>
  bytes, else the stream ends early.
\<close>

fun emit_zones :: "bytes \<Rightarrow> int \<Rightarrow> int \<Rightarrow> inplaceZone list \<Rightarrow> rollbackBuilder \<Rightarrow> (int \<times> rollbackBuilder) result" where
  "emit_zones f osize cursor [] b = Inr (cursor, b)"
| "emit_zones f osize cursor (z # zs) b =
     (let zLen = int (length (z_orig z)) in
      if z_off z < cursor \<or> wrap64 (z_off z + zLen) > osize then Inl (Errf ''rollback: journal zone out of order or range'')
      else let b = (if z_off z > cursor
                    then copyRunStreamed cursor (z_off z - cursor) (slice (nat cursor) (nat (z_off z)) f) b else b)
           in emit_zones f osize (z_off z + zLen) zs (literal (z_orig z) b))"

definition emitInPlaceRollback :: "bytes \<Rightarrow> int \<Rightarrow> int \<Rightarrow> inplaceZone list \<Rightarrow> (bytes \<times> RollbackInfo) result" where
  "emitInPlaceRollback f osize finalSize zs =
     bind_r (emit_zones f osize 0 (sort_key z_off zs) newRollbackBuilder) (\<lambda>(cursor, b).
       let b = (if cursor < osize then copyRunStreamed cursor (osize - cursor) (slice (nat cursor) (nat osize) f) b else b);
           b = (if finalSize > osize then trunc (finalSize - osize) b else b)
       in if int (length f) < finalSize then Inl EOF
          else finalize osize (sha256 (take (nat finalSize) f)) b)"

section \<open>The reconstruction\<close>

definition read_u64 :: "bytes \<Rightarrow> int" where "read_u64 b = sint (be_dec (take 8 b) :: u64)"

record rebuilt =
  out :: bytes
  written :: int
  crc_in :: bytes
  delta :: bytes

text \<open>One op; the result carries the bytes delivered so far, their count, what the checksum saw, the rest.\<close>

definition apply_op :: "bytes \<Rightarrow> int \<Rightarrow> rebuilt \<Rightarrow> rebuilt result" where
  "apply_op repaired originalSize st =
     (case delta st of
        [] \<Rightarrow> Inl (Errf ''rollback: truncated delta'')
      | tag # d \<Rightarrow>
          if tag = rollbackOpCopy then
            (if length d < 16 then Inl (Errf ''rollback: truncated COPY'')
             else let dstOff = read_u64 d; n = read_u64 (drop 8 d) in
               if dstOff < 0 \<or> n < 0 \<or> wrap64 (dstOff + n) > int (length repaired) then Inl (Errf ''rollback: COPY outside the repaired file'')
               else if wrap64 (written st + n) > originalSize then Inl (Errf ''rollback: ops overrun the original size'')
               else Inr \<lparr>out = out st @ take (nat n) (drop (nat dstOff) repaired), written = wrap64 (written st + n),
                         crc_in = crc_in st @ tag # take 16 d, delta = drop 16 d\<rparr>)
          else if tag = rollbackOpLit then
            (if length d < 8 then Inl (Errf ''rollback: truncated LIT'')
             else let n = read_u64 d in
               if n < 0 \<or> wrap64 (written st + n) > originalSize then Inl (Errf ''rollback: literal overruns the original size'')
               else Inr \<lparr>out = out st @ take (nat n) (drop 8 d), written = wrap64 (written st + n),
                         crc_in = crc_in st @ tag # take 8 d @ take (nat n) (drop 8 d), delta = drop (nat n) (drop 8 d)\<rparr>)
          else if tag = rollbackOpTrunc then
            (if length d < 8 then Inl (Errf ''rollback: truncated TRUNC'')
             else Inr (st\<lparr>crc_in := crc_in st @ tag # take 8 d, delta := drop 8 d\<rparr>))
          else Inl (Errf ''rollback: unknown op''))"

fun apply_ops :: "bytes \<Rightarrow> int \<Rightarrow> nat \<Rightarrow> rebuilt \<Rightarrow> rebuilt result" where
  "apply_ops repaired osize 0 st = Inr st"
| "apply_ops repaired osize (Suc n) st = bind_r (apply_op repaired osize st) (apply_ops repaired osize n)"

text \<open>The file that is delivered, or why none is.\<close>

definition ApplyRollback :: "bytes \<Rightarrow> bytes \<Rightarrow> bytes result" where
  "ApplyRollback repaired entry =
     (if length entry < 88 then Inl (Errf ''rollback: read entry header'')
      else let header = take 88 entry in
        if take 8 header \<noteq> rollbackMagic then Inl (Errf ''rollback: not a rollback delta entry (bad magic)'')
        else let wantSrc = slice 12 44 header; wantDst = slice 44 76 header;
                 originalSize = read_u64 (drop 76 header); n = be_dec (drop 84 header) :: u32
             in if originalSize < 0 then Inl (Errf ''rollback: negative original size'')
                else if sha256 repaired \<noteq> wantDst then Inl (Errf ''rollback: does not match the delta entry'')
                else bind_r (apply_ops repaired originalSize (unat n)
                       \<lparr>out = [], written = 0, crc_in = header, delta = drop 88 entry\<rparr>) (\<lambda>st.
                  if length (delta st) < 4 then Inl (Errf ''rollback: read entry crc'')
                  else if crc_castagnoli (crc_in st) \<noteq> be_dec (take 4 (delta st)) then Inl (Errf ''rollback: entry crc mismatch'')
                  else if written st \<noteq> originalSize then Inl (Errf ''rollback: reconstruction size'')
                  else if sha256 (out st) \<noteq> wantSrc then Inl (Errf ''rollback: does not hash to the original sha256'')
                  else Inr (out st)))"
section \<open>What a builder holds\<close>

text \<open>An op as the caller sees it: original bytes found at an offset of the repaired file, bytes only the original had, a tail to cut.\<close>

datatype part = Kept int bytes | Lost bytes | Cut int

fun record_part :: "part \<Rightarrow> rollbackBuilder \<Rightarrow> rollbackBuilder" where
  "record_part (Kept off d) b = copyRun off d b"
| "record_part (Lost d) b = literal d b"
| "record_part (Cut n) b = trunc n b"

fun part_bytes :: "part \<Rightarrow> bytes" where
  "part_bytes (Kept off d) = d"
| "part_bytes (Lost d) = d"
| "part_bytes (Cut n) = []"

fun enc_part :: "part \<Rightarrow> bytes" where
  "enc_part (Kept off d) = rollbackOpCopy # be_enc 8 (word_of_int off :: u64) @ be_enc 8 (word_of_nat (length d) :: u64)"
| "enc_part (Lost d) = rollbackOpLit # be_enc 8 (word_of_nat (length d) :: u64) @ d"
| "enc_part (Cut n) = rollbackOpTrunc # be_enc 8 (word_of_int n :: u64)"

definition op_bytes :: "rollbackBuilder \<Rightarrow> bytes" where
  "op_bytes b = (case spool b of None \<Rightarrow> ops b | Some sp \<Rightarrow> sp)"

text \<open>The builder after a list of parts, whether it spilled or not; no claim after a failure.\<close>

definition holds :: "part list \<Rightarrow> rollbackBuilder \<Rightarrow> bool" where
  "holds ps b \<longleftrightarrow> rb_err b = None \<longrightarrow>
     op_bytes b = concat (map enc_part ps) \<and> opsLen b = int (length (op_bytes b))
     \<and> hashed b = concat (map part_bytes ps) \<and> tiled b = int (length (hashed b)) \<and> nOps b = word_of_nat (length ps)"

lemma writeOps_effect:
  assumes "rb_err b = None"
  shows "rb_err (writeOps p b) = None" "op_bytes (writeOps p b) = op_bytes b @ p"
    "opsLen (writeOps p b) = opsLen b + int (length p)"
    "hashed (writeOps p b) = hashed b" "tiled (writeOps p b) = tiled b" "nOps (writeOps p b) = nOps b"
  using assms by (auto simp add: writeOps_def Let_def op_bytes_def split: option.splits)

lemma op_bytes_more [simp]:
  "op_bytes (b\<lparr>hashed := h\<rparr>) = op_bytes b" "op_bytes (b\<lparr>tiled := t\<rparr>) = op_bytes b" "op_bytes (b\<lparr>nOps := n\<rparr>) = op_bytes b"
  by (simp_all add: op_bytes_def split: option.split)

lemma guarded_cases:
  obtains "rb_err (guarded add f b) \<noteq> None" | "rb_err b = None" "guarded add f b = f b"
proof (cases "rb_err b")
  case None
  show ?thesis
  proof (cases "\<not> spooling b \<and> opsLen b + add > rollbackMaxBuffer")
    case True
    then show ?thesis using None by (intro that(1)) (simp add: guarded_def overCap_def fail_def)
  next
    case False
    then show ?thesis using None by (intro that(2)) (auto simp add: guarded_def overCap_def)
  qed
next
  case (Some e)
  then show ?thesis using that(1) by (simp add: guarded_def)
qed

lemma holds_new: "holds [] newRollbackBuilder" "holds [] newSpoolingRollbackBuilder"
  by (simp_all add: holds_def newSpoolingRollbackBuilder_def newRollbackBuilder_def op_bytes_def)

lemma holds_guarded:
  assumes "holds ps b"
    and "rb_err b = None \<Longrightarrow> holds ps b \<Longrightarrow> holds (ps @ [p]) (f b)"
  shows "holds (ps @ [p]) (guarded add f b)"
proof (cases rule: guarded_cases [of add f b])
  case 1
  then show ?thesis by (auto simp add: holds_def)
next
  case 2
  then show ?thesis using assms by simp
qed

lemma holds_record: "holds ps b \<Longrightarrow> holds (ps @ [p]) (record_part p b)"
proof (cases p)
  case (Kept off d)
  assume h: "holds ps b"
  show ?thesis unfolding Kept record_part.simps copyRun_def
    by (rule holds_guarded [OF h]) (simp add: holds_def writeOps_effect)
next
  case (Lost d)
  assume h: "holds ps b"
  show ?thesis unfolding Lost record_part.simps literal_def
    by (rule holds_guarded [OF h]) (simp add: holds_def writeOps_effect)
next
  case (Cut n)
  assume h: "holds ps b"
  show ?thesis unfolding Cut record_part.simps trunc_def
    by (rule holds_guarded [OF h]) (simp add: holds_def writeOps_effect)
qed

lemma holds_records: "holds ps b \<Longrightarrow> holds (ps @ qs) (fold record_part qs b)"
proof (induction qs arbitrary: ps b)
  case (Cons q qs)
  show ?case using Cons.IH [OF holds_record [OF Cons.prems, of q]] by simp
qed simp

lemma copyRunStreamed_copyRun: "n = int (length d) \<Longrightarrow> copyRunStreamed off n d = copyRun off d"
proof -
  assume n: "n = int (length d)"
  have upd: "r\<lparr>tiled := t, nOps := k, hashed := h\<rparr> = r\<lparr>hashed := h, tiled := t, nOps := k\<rparr>" for r :: rollbackBuilder and t k h
    by (cases r) simp
  show ?thesis unfolding copyRunStreamed_def copyRun_def Let_def n upd of_int_of_nat_eq by (rule refl)
qed

section \<open>The ops applied\<close>

text \<open>A part that is where it says: kept bytes at their offset of the repaired file.\<close>

fun in_place_in :: "bytes \<Rightarrow> part \<Rightarrow> bool" where
  "in_place_in repaired (Kept off d) \<longleftrightarrow>
     0 \<le> off \<and> off + int (length d) \<le> int (length repaired) \<and> slice (nat off) (nat off + length d) repaired = d"
| "in_place_in repaired (Lost d) \<longleftrightarrow> True"
| "in_place_in repaired (Cut n) \<longleftrightarrow> True"

lemma read_u64_enc:
  "in_int64 v \<Longrightarrow> read_u64 (be_enc 8 (word_of_int v :: u64) @ rest) = v"
  "n < 2 ^ 63 \<Longrightarrow> read_u64 (be_enc 8 (word_of_nat n :: u64) @ rest) = int n"
proof -
  show v: "in_int64 v \<Longrightarrow> read_u64 (be_enc 8 (word_of_int v :: u64) @ rest) = v" for v
    by (simp add: read_u64_def signed_of_int signed_take_bit_int_eq_self in_int64_def int64_min_def int64_max_def)
  show "n < 2 ^ 63 \<Longrightarrow> read_u64 (be_enc 8 (word_of_nat n :: u64) @ rest) = int n"
    using v [of "int n"] by (simp add: in_int64_def int64_min_def int64_max_def)
qed

lemma apply_part:
  assumes "in_place_in repaired p" "length repaired < 2 ^ 63" "osize < 2 ^ 63"
    and "written st = int (length (out st))" "int (length (out st) + length (part_bytes p)) \<le> osize"
    and "delta st = enc_part p @ rest"
  shows "apply_op repaired osize st
    = Inr \<lparr>out = out st @ part_bytes p, written = int (length (out st @ part_bytes p)), crc_in = crc_in st @ enc_part p, delta = rest\<rparr>"
proof (cases p)
  case (Kept off d)
  have off: "0 \<le> off" "off + int (length d) \<le> int (length repaired)" "slice (nat off) (nat off + length d) repaired = d"
    using assms(1) Kept by simp_all
  have i: "in_int64 off" "length d < 2 ^ 63" "in_int64 (off + int (length d))" "in_int64 (int (length (out st)) + int (length d))"
    using off assms(2,3,5) Kept by (simp_all add: in_int64_def int64_min_def int64_max_def)
  let ?a = "be_enc 8 (word_of_int off :: u64)" and ?n = "be_enc 8 (word_of_nat (length d) :: u64)"
  have dl: "delta st = rollbackOpCopy # ?a @ ?n @ rest" using assms(6) Kept by simp
  have dd: "take (length d) (drop (nat off) repaired) = d" using off(3) by (simp add: slice_def)
  have r: "read_u64 (?a @ ?n @ rest) = off" "read_u64 (drop 8 (?a @ ?n @ rest)) = int (length d)"
    using read_u64_enc(1) [OF i(1)] read_u64_enc(2) [OF i(2)] by simp_all
  show ?thesis
    using off assms(4,5) i dd unfolding apply_op_def dl list.case Let_def r Kept by (simp add: rollbackOpCopy_def)
next
  case (Lost d)
  have i: "length d < 2 ^ 63" "in_int64 (int (length (out st)) + int (length d))"
    using assms(3,5) Lost by (simp_all add: in_int64_def int64_min_def int64_max_def)
  let ?n = "be_enc 8 (word_of_nat (length d) :: u64)"
  have dl: "delta st = rollbackOpLit # ?n @ d @ rest" using assms(6) Lost by simp
  have r: "read_u64 (?n @ d @ rest) = int (length d)" using read_u64_enc(2) [OF i(1)] .
  show ?thesis
    using assms(4,5) i unfolding apply_op_def dl list.case Let_def r Lost by (simp add: rollbackOpLit_def rollbackOpCopy_def)
next
  case (Cut n)
  have dl: "delta st = rollbackOpTrunc # be_enc 8 (word_of_int n :: u64) @ rest" using assms(6) Cut by simp
  show ?thesis
    using assms(4) unfolding apply_op_def dl list.case Cut
    by (cases st) (simp add: rollbackOpLit_def rollbackOpCopy_def rollbackOpTrunc_def)
qed

lemma apply_parts:
  assumes "list_all (in_place_in repaired) ps" "length repaired < 2 ^ 63" "osize < 2 ^ 63"
    and "written st = int (length (out st))" "int (length (out st) + length (concat (map part_bytes ps))) \<le> osize"
    and "delta st = concat (map enc_part ps) @ rest"
  shows "apply_ops repaired osize (length ps) st
    = Inr \<lparr>out = out st @ concat (map part_bytes ps), written = int (length (out st @ concat (map part_bytes ps))),
           crc_in = crc_in st @ concat (map enc_part ps), delta = rest\<rparr>"
  using assms
proof (induction ps arbitrary: st)
  case (Cons p ps)
  let ?st = "\<lparr>out = out st @ part_bytes p, written = int (length (out st @ part_bytes p)), crc_in = crc_in st @ enc_part p,
    delta = concat (map enc_part ps) @ rest\<rparr>"
  have s: "apply_op repaired osize st = Inr ?st"
    using Cons.prems by (intro apply_part) simp_all
  have "apply_ops repaired osize (length ps) ?st
    = Inr \<lparr>out = out ?st @ concat (map part_bytes ps), written = int (length (out ?st @ concat (map part_bytes ps))),
           crc_in = crc_in ?st @ concat (map enc_part ps), delta = rest\<rparr>"
    using Cons.prems by (intro Cons.IH) simp_all
  with s show ?case by simp
qed (cases st, simp)
section \<open>The entry applied\<close>

lemma entry_header_fields:
  assumes "length src = 32" "length dst = 32" "in_int64 osize"
  shows "length (entry_header src dst osize n) = 88" "take 8 (entry_header src dst osize n) = rollbackMagic"
    "slice 12 44 (entry_header src dst osize n) = src" "slice 44 76 (entry_header src dst osize n) = dst"
    "read_u64 (drop 76 (entry_header src dst osize n)) = osize" "be_dec (drop 84 (entry_header src dst osize n)) = n"
  using assms read_u64_enc(1) [of osize "be_enc 4 n"]
  by (simp_all add: entry_header_def rollbackMagic_def slice_def)

lemma finalize_applies:
  assumes h: "holds ps b" and fin: "finalize (int (length orig)) (sha256 repaired) b = Inr (entry, info)"
    and ps: "list_all (in_place_in repaired) ps" "concat (map part_bytes ps) = orig" "length ps < 2 ^ 32"
    and n: "length repaired < 2 ^ 63" "length orig < 2 ^ 63"
  shows "ApplyRollback repaired entry = Inr orig \<and> ri_Bytes info = int (length entry) \<and> SrcSHA256 info = sha256 orig"
proof -
  have e: "rb_err b = None" using fin by (auto simp add: finalize_def split: option.splits)
  define hd where "hd = entry_header (sha256 orig) (sha256 repaired) (int (length orig)) (word_of_nat (length ps))"
  define os where "os = concat (map enc_part ps)"
  have b: "op_bytes b = os" "opsLen b = int (length os)" "hashed b = orig" "nOps b = word_of_nat (length ps)"
    using h e ps(2) by (simp_all add: holds_def os_def)
  have src: "(case spool b of None \<Rightarrow> ops b | Some sp \<Rightarrow> take (nat (int (length os))) sp) = os"
    using b(1) by (auto simp add: op_bytes_def split: option.splits)
  have entry: "entry = hd @ os @ be_enc 4 (crc_castagnoli (hd @ os))"
    and info: "info = \<lparr>ri_Bytes = int (length hd) + int (length os) + 4, SrcSHA256 = sha256 orig, DstSHA256 = sha256 repaired\<rparr>"
    using fin unfolding finalize_def e option.case Let_def src b hd_def [symmetric] by (auto split: if_splits)
  have i: "in_int64 (int (length orig))" using n(2) by (simp add: in_int64_def int64_min_def int64_max_def)
  note f = entry_header_fields [OF length_sha256 length_sha256 i, of orig repaired "word_of_nat (length ps)", folded hd_def]
  have u: "unat (word_of_nat (length ps) :: u32) = length ps" using ps(3) by (simp add: unsigned_of_nat take_bit_nat_eq_self)
  have th: "take 88 entry = hd" "drop 88 entry = os @ be_enc 4 (crc_castagnoli (hd @ os))" using f(1) by (simp_all add: entry)
  have "apply_ops repaired (int (length orig)) (length ps) \<lparr>out = [], written = 0, crc_in = hd, delta = os @ be_enc 4 (crc_castagnoli (hd @ os))\<rparr>
      = Inr \<lparr>out = orig, written = int (length orig), crc_in = hd @ os, delta = be_enc 4 (crc_castagnoli (hd @ os))\<rparr>"
    using apply_parts [OF ps(1) n(1), of "int (length orig)" "\<lparr>out = [], written = 0, crc_in = hd, delta = os @ be_enc 4 (crc_castagnoli (hd @ os))\<rparr>"
        "be_enc 4 (crc_castagnoli (hd @ os))"] ps(2) n(2) by (simp add: os_def)
  moreover have "\<not> length entry < 88" using f(1) by (simp add: entry)
  ultimately have "ApplyRollback repaired entry = Inr orig"
    using f(2-6) u unfolding ApplyRollback_def Let_def th by simp
  then show ?thesis by (simp add: entry info)
qed

section \<open>The delta of an in-place patch\<close>

lemma holds_copyRun: "holds ps b \<Longrightarrow> holds (ps @ [Kept off d]) (copyRun off d b)"
  using holds_record [of ps b "Kept off d"] by simp

lemma holds_literal: "holds ps b \<Longrightarrow> holds (ps @ [Lost d]) (literal d b)"
  using holds_record [of ps b "Lost d"] by simp

lemma holds_trunc: "holds ps b \<Longrightarrow> holds (ps @ [Cut n]) (trunc n b)"
  using holds_record [of ps b "Cut n"] by simp

text \<open>The file and the original agree from \<open>cur\<close> on, outside the zones still to come.\<close>

definition same_from :: "nat \<Rightarrow> (nat \<Rightarrow> bool) \<Rightarrow> bytes \<Rightarrow> bytes \<Rightarrow> bool" where
  "same_from cur Z f c \<longleftrightarrow> length c \<le> length f \<and> (\<forall>i. cur \<le> i \<and> i < length c \<and> \<not> Z i \<longrightarrow> f ! i = c ! i)"

text \<open>What the pass over the file has recorded up to the cursor.\<close>

definition recorded :: "bytes \<Rightarrow> bytes \<Rightarrow> nat \<Rightarrow> part list \<Rightarrow> rollbackBuilder \<Rightarrow> bool" where
  "recorded f c cur ps b \<longleftrightarrow> holds ps b \<and> cur \<le> length c \<and> concat (map part_bytes ps) = take cur c \<and> list_all (in_place_in f) ps"

lemma take_slice: "i \<le> j \<Longrightarrow> take i c @ slice i j c = take j c"
  by (simp add: slice_def take_add [symmetric])

lemma same_slice:
  assumes "same_from i Z f c" "i \<le> j" "j \<le> length c" "\<And>k. i \<le> k \<Longrightarrow> k < j \<Longrightarrow> \<not> Z k"
  shows "slice i j f = slice i j c"
  using assms by (intro nth_equalityI) (auto simp add: same_from_def slice_def)

lemma recorded_copy:
  assumes "recorded f c i ps b" "same_from i Z f c" "i \<le> j" "j \<le> length c" "\<And>k. i \<le> k \<Longrightarrow> k < j \<Longrightarrow> \<not> Z k"
    and "length f \<le> length F" "take (length f) F = f"
  shows "recorded f c j (ps @ [Kept (int i) (slice i j F)]) (copyRunStreamed (int i) (int j - int i) (slice i j F) b)"
proof -
  have jf: "j \<le> length f" using assms(2,4) by (simp add: same_from_def)
  have "slice i j F = slice i j f" using slice_change [of "length f" F f j i] assms(7) jf by simp
  moreover have s: "slice i j f = slice i j c" by (rule same_slice [OF assms(2-5)])
  moreover have l: "length (slice i j f) = j - i" using jf by (simp add: length_slice)
  ultimately show ?thesis
    using assms(1,3,4) jf take_slice [OF assms(3), of c] holds_copyRun
    by (simp add: recorded_def copyRunStreamed_copyRun)
qed

lemma recorded_literal:
  assumes "recorded f c i ps b" "captured c z" "int i = z_off z"
  shows "recorded f c (i + length (z_orig z)) (ps @ [Lost (z_orig z)]) (literal (z_orig z) b)"
proof -
  have l: "i + length (z_orig z) \<le> length c" using captured_zone(1) [OF assms(2)] assms(3) by auto
  have "z_orig z = slice i (i + length (z_orig z)) c" using assms(2,3) unfolding captured_def by (metis nat_int)
  then have "take i c @ z_orig z = take (i + length (z_orig z)) c" using take_slice [of i "i + length (z_orig z)" c] by simp
  then show ?thesis using assms(1) l holds_literal by (simp add: recorded_def)
qed

lemma emit_zones_recorded:
  assumes "emit_zones F (int (length c)) (int cur) zs b = Inr (cur', b')"
    and "sorted (map z_off zs)" "list_all (captured c) zs" "recorded f c cur ps b" "same_from cur (in_zones zs) f c"
    and "length f \<le> length F" "take (length f) F = f"
  shows "\<exists>k ps'. cur' = int k \<and> recorded f c k ps' b' \<and> same_from k (\<lambda>i. False) f c \<and> length ps' \<le> length ps + 2 * length zs"
  using assms(1-5)
proof (induction zs arbitrary: cur ps b)
  case Nil
  then show ?case by (intro exI [of _ cur] exI [of _ ps]) (simp add: in_zones_def [abs_def])
next
  case (Cons z zs)
  have cz: "captured c z" using Cons.prems(3) by simp
  define off where "off = nat (z_off z)"
  have zo: "z_off z = int off" using cz by (simp add: off_def captured_def zone_ok_def)
  have le: "cur \<le> off" using Cons.prems(1) zo by (auto simp add: Let_def split: if_splits)
  have lc: "off \<le> length c" using captured_zone(1) [OF cz] by (simp add: zo)
  have before: "\<not> in_zones (z # zs) k" if "k < off" for k
    using that Cons.prems(2) by (auto simp add: in_zones_def list_ex_iff zo)
  define b1 where "b1 = (if off > cur then copyRunStreamed (int cur) (int off - int cur) (slice cur off F) b else b)"
  have "emit_zones F (int (length c)) (int (off + length (z_orig z))) zs (literal (z_orig z) b1) = Inr (cur', b')"
    using Cons.prems(1) by (auto simp add: Let_def zo b1_def split: if_splits)
  moreover obtain ps1 where r: "recorded f c off ps1 b1" "length ps1 \<le> length ps + 1"
  proof (cases "off > cur")
    case True
    then show ?thesis
      using recorded_copy [OF Cons.prems(4,5) le lc _ assms(6,7)] before
      by (intro that [of "ps @ [Kept (int cur) (slice cur off F)]"]) (simp_all add: b1_def)
  next
    case False
    then show ?thesis using Cons.prems(4) le by (intro that [of ps]) (simp_all add: b1_def)
  qed
  moreover have "recorded f c (off + length (z_orig z)) (ps1 @ [Lost (z_orig z)]) (literal (z_orig z) b1)"
    using recorded_literal [OF r(1) cz] zo by simp
  moreover have "same_from (off + length (z_orig z)) (in_zones zs) f c"
    using Cons.prems(5) le by (auto simp add: same_from_def in_zones_def zo)
  ultimately have "\<exists>k ps'. cur' = int k \<and> recorded f c k ps' b' \<and> same_from k (\<lambda>i. False) f c
      \<and> length ps' \<le> length (ps1 @ [Lost (z_orig z)]) + 2 * length zs"
    using Cons.prems(2,3) by (intro Cons.IH) simp_all
  then show ?case using r(2) by fastforce
qed
lemma in_zones_sort [simp]: "in_zones (sort_key f zs) = in_zones zs"
  by (rule ext) (simp add: in_zones_def list_ex_iff)

lemma in_place_delta_applies:
  assumes "emitInPlaceRollback (f @ rest) (int (length c)) (int (length f)) zs = Inr (entry, info)"
    and "list_all (captured c) zs" "length c \<le> length f" "agree_outside (in_zones zs) (take (length c) f) c"
    and "length f < 2 ^ 63" "2 * length zs + 3 < 2 ^ 32"
  shows "ApplyRollback f entry = Inr c"
proof -
  let ?F = "f @ rest" and ?zs = "sort_key z_off zs"
  obtain cur b where z: "emit_zones ?F (int (length c)) (int 0) ?zs newRollbackBuilder = Inr (cur, b)"
    and fin: "finalize (int (length c)) (sha256 (take (length f) ?F))
      (let b = (if cur < int (length c) then copyRunStreamed cur (int (length c) - cur) (slice (nat cur) (length c) ?F) b else b)
       in if int (length f) > int (length c) then trunc (int (length f) - int (length c)) b else b) = Inr (entry, info)"
    using assms(1) by (auto simp add: emitInPlaceRollback_def Let_def bind_r_Inr split: if_splits)
  have "list_all (captured c) ?zs" using assms(2) by (simp add: list_all_iff)
  moreover have "recorded f c 0 [] newRollbackBuilder" using holds_new by (simp add: recorded_def)
  moreover have "same_from 0 (in_zones ?zs) f c"
    using assms(3,4) by (auto simp add: same_from_def agree_outside_def)
  ultimately obtain k ps where k: "cur = int k" "recorded f c k ps b" "same_from k (\<lambda>i. False) f c" "length ps \<le> 2 * length zs"
    using emit_zones_recorded [OF z, of f "[]"] by auto
  have kc: "k \<le> length c" using k(2) by (simp add: recorded_def)
  define b1 where "b1 = (if k < length c then copyRunStreamed (int k) (int (length c) - int k) (slice k (length c) ?F) b else b)"
  obtain ps1 where r1: "recorded f c (length c) ps1 b1" "length ps1 \<le> length ps + 1"
  proof (cases "k < length c")
    case True
    then show ?thesis
      using recorded_copy [OF k(2,3) kc order_refl, of ?F]
      by (intro that [of "ps @ [Kept (int k) (slice k (length c) ?F)]"]) (simp_all add: b1_def)
  next
    case False
    then show ?thesis using k(2) kc by (intro that [of ps]) (simp_all add: b1_def)
  qed
  define b2 where "b2 = (if length f > length c then trunc (int (length f) - int (length c)) b1 else b1)"
  obtain ps2 where r2: "holds ps2 b2" "concat (map part_bytes ps2) = c" "list_all (in_place_in f) ps2" "length ps2 \<le> length ps1 + 1"
  proof (cases "length f > length c")
    case True
    then show ?thesis using r1(1) holds_trunc
      by (intro that [of "ps1 @ [Cut (int (length f) - int (length c))]"]) (simp_all add: b2_def recorded_def)
  next
    case False
    then show ?thesis using r1(1) by (intro that [of ps1]) (simp_all add: b2_def recorded_def)
  qed
  have "finalize (int (length c)) (sha256 f) b2 = Inr (entry, info)"
    using fin by (simp add: k(1) b2_def b1_def Let_def split: if_splits)
  moreover have "length ps2 < 2 ^ 32" using r2(4) r1(2) k(4) assms(6) by linarith
  ultimately show ?thesis
    using finalize_applies [OF r2(1), of c f entry info] r2(2,3) assms(3,5) by simp
qed

section \<open>Properties\<close>

text \<open>
  C14. The delta is the inverse of the repair: whatever runs a repair recorded, kept bytes at their offset
  in the repaired file and literals for the rest, the entry it emits reconstructs the original file from
  the repaired one, and reports its own size and the hash of the original.
\<close>

theorem rollback_reconstructs:
  assumes "b0 = newRollbackBuilder \<or> b0 = newSpoolingRollbackBuilder"
    and "finalize (int (length orig)) (sha256 repaired) (fold record_part ps b0) = Inr (entry, info)"
    and "list_all (in_place_in repaired) ps" and "concat (map part_bytes ps) = orig"
    and "length ps < 2 ^ 32" and "length repaired < 2 ^ 63" and "length orig < 2 ^ 63"
  shows "ApplyRollback repaired entry = Inr orig \<and> ri_Bytes info = int (length entry) \<and> SrcSHA256 info = sha256 orig"
proof -
  have "holds ([] @ ps) (fold record_part ps b0)" using assms(1) holds_new by (intro holds_records) auto
  then show ?thesis using finalize_applies [OF _ assms(2-)] by simp
qed

theorem rollback_reconstructs_witness:
  "\<exists>entry info. finalize 5 (sha256 [9, 2, 3, 7]) (fold record_part [Lost [1], Kept 1 [2, 3], Lost [4, 5], Cut 1] newRollbackBuilder) = Inr (entry, info)
     \<and> ApplyRollback [9, 2, 3, 7] entry = Inr [1, 2, 3, 4, 5]"
proof -
  let ?b = "fold record_part [Lost [1], Kept 1 [2, 3], Lost [4, 5], Cut 1] newRollbackBuilder"
  have "rb_err ?b = None \<and> tiled ?b = 5"
    by (simp add: newRollbackBuilder_def literal_def copyRun_def trunc_def guarded_def overCap_def rollbackMaxBuffer_def writeOps_def Let_def)
  then obtain entry info where "finalize 5 (sha256 [9, 2, 3, 7]) ?b = Inr (entry, info)"
    by (simp add: finalize_def Let_def)
  then show ?thesis
    using rollback_reconstructs [of newRollbackBuilder "[1, 2, 3, 4, 5]" "[9, 2, 3, 7]" "[Lost [1], Kept 1 [2, 3], Lost [4, 5], Cut 1]" entry info]
    by (auto simp add: slice_def)
qed

text \<open>
  C18. The delta emitted by an in-place reindex, taken while the journal still follows the finished file,
  undoes it: applied to the finished file it gives back the original, whatever the zones were overwritten
  with.
\<close>

theorem in_place_delta_inverts:
  assumes "emitInPlaceRollback (finished @ journal) (int (length c)) (int (length finished)) zs = Inr (entry, info)"
    and "list_all (captured c) zs" and "length c \<le> length finished" and "agree_outside (in_zones zs) (take (length c) finished) c"
    and "length finished < 2 ^ 63" and "2 * length zs + 3 < 2 ^ 32"
  shows "ApplyRollback finished entry = Inr c"
  using assms by (rule in_place_delta_applies)

theorem in_place_delta_inverts_witness:
  "\<exists>entry info. emitInPlaceRollback ([1, 8, 3, 7] @ [0, 0]) 3 4 [\<lparr>z_off = 1, z_orig = [2]\<rparr>] = Inr (entry, info)
     \<and> ApplyRollback [1, 8, 3, 7] entry = Inr [1, 2, 3]"
proof -
  have "\<exists>entry info. emitInPlaceRollback ([1, 8, 3, 7] @ [0, 0]) 3 4 [\<lparr>z_off = 1, z_orig = [2]\<rparr>] = Inr (entry, info)"
    by (simp add: emitInPlaceRollback_def Let_def newRollbackBuilder_def literal_def copyRunStreamed_def trunc_def guarded_def overCap_def
        rollbackMaxBuffer_def writeOps_def finalize_def in_int64_def int64_min_def int64_max_def)
  then obtain entry info where "emitInPlaceRollback ([1, 8, 3, 7] @ [0, 0]) 3 4 [\<lparr>z_off = 1, z_orig = [2]\<rparr>] = Inr (entry, info)" by blast
  then show ?thesis
    using in_place_delta_inverts [of "[1, 8, 3, 7]" "[0, 0]" "[1, 2, 3]" "[\<lparr>z_off = 1, z_orig = [2]\<rparr>]" entry info]
    by (auto simp add: captured_def zone_ok_def slice_def in_zones_def agree_outside_def nth_Cons')
qed

end
