(* ===== verification/HeaderBytes.thy ===== *)
theory HeaderBytes
  imports Rollback
begin

text \<open>
  The bytes of an element header from its parsed form (\<^verbatim>\<open>literalHeader\<close> of \<^verbatim>\<open>mkv/ops/rollback.go\<close>): what
  the synthesis has to give back is exactly what the header was read from.
\<close>

section \<open>A VINT and its bytes\<close>

lemma vint_width_bits:
  assumes "b \<noteq> (0 :: byte)"
  shows "bit b (8 - vint_width b)" "8 - vint_width b < k \<Longrightarrow> \<not> bit b k"
proof -
  define j where "j = Max {i. bit b i}"
  have f: "finite {i. bit b i}" using bit_imp_le_length [of b] by (auto intro: finite_subset [of _ "{..<8}"])
  have ne: "{i. bit b i} \<noteq> {}" using assms by (metis Collect_empty_eq bit_eqI bit_0_eq bot_apply bot_bool_def)
  have j: "bit b j" using Max_in [OF f ne] by (simp add: j_def)
  have hi: "\<not> bit b i" if "j < i" for i
  proof
    assume "bit b i"
    then have "i \<le> j" unfolding j_def by (intro Max_ge [OF f]) simp
    with that show False by simp
  qed
  have "j < 8" using bit_imp_le_length [OF j] by simp
  moreover have "vint_width b = 8 - j"
    using \<open>j < 8\<close> j hi by (intro vint_width_top) simp_all
  ultimately show "bit b (8 - vint_width b)" "8 - vint_width b < k \<Longrightarrow> \<not> bit b k" using j hi by simp_all
qed

lemma ReadVINT_bytes_of:
  assumes "ReadVINT s = (Inr (val, w), s')"
  shows "\<exists>hb. pending s = hb @ pending s' \<and> s' = s\<lparr>pending := pending s'\<rparr> \<and> length hb = w \<and> be_enc w val = hb \<and> vint_ok w val"
proof -
  obtain b p where p: "pending s = b # p" "b \<noteq> 0"
    using assms by (cases "pending s") (auto simp add: ReadVINT_eq ReadVINT_full_def read_full_def Let_def split: if_splits)
  have w: "w = vint_width b" "w - 1 \<le> length p" "val = be_acc (ucast b) (take (w - 1) p)" "s' = s\<lparr>pending := drop (w - 1) p\<rparr>"
    using assms p vint_width_bounds [of b]
    by (auto simp add: ReadVINT_eq ReadVINT_full_def read_full_def Let_def split: if_splits)
  let ?hb = "b # take (w - 1) p"
  have b8: "1 \<le> w" "w \<le> 8" using vint_width_bounds [of b] w(1) by simp_all
  have l: "length ?hb = w" using w(2) b8 by simp
  have v: "val = be_dec ?hb" using w(3) by (simp add: be_dec_def)
  have "be_enc (length ?hb) (be_dec ?hb :: u64) = ?hb" by (rule be_enc_dec) (use l b8(2) in simp)
  then have e: "be_enc w val = ?hb" unfolding l v .
  have bits: "bit val i \<longleftrightarrow> i < 8 * w \<and> bit (?hb ! (w - 1 - i div 8)) (i mod 8)" if "i < 64" for i
    using bit_be_acc [of ?hb i "0 :: u64"] l b8(2) that by (auto simp add: v be_dec_def)
  have idx: "(8 * (w - 1) + r) div 8 = w - 1" "(8 * (w - 1) + r) mod 8 = r" if "r < 8" for r using that by simp_all
  have top: "bit val (7 * w)"
  proof -
    have "7 * w = 8 * (w - 1) + (8 - w)" using b8 by simp
    moreover have "8 - w < 8" using b8 by simp
    ultimately show ?thesis
      using bits [of "7 * w"] idx [of "8 - w"] vint_width_bits(1) [OF p(2)] b8 w(1) by simp
  qed
  have high: "\<not> bit val i" if "7 * w < i" for i
  proof
    assume a: "bit val i"
    then have i: "i < 64" using bit_imp_le_length by fastforce
    then have "i < 8 * w" "bit (?hb ! (w - 1 - i div 8)) (i mod 8)" using a bits by auto
    moreover define r where "r = i - 8 * (w - 1)"
    ultimately have r: "i = 8 * (w - 1) + r" "r < 8" "8 - w < r" using that b8 by auto
    then have "bit b r" using \<open>bit (?hb ! (w - 1 - i div 8)) (i mod 8)\<close> idx [of r] by simp
    then show False using vint_width_bits(2) [OF p(2), of r] r(3) w(1) by simp
  qed
  have "drop_bit (7 * w + 1) val = 0" by (rule bit_eqI) (simp add: bit_simps high)
  then have "vint_ok w val" using b8 top by (simp add: vint_ok_def)
  then show ?thesis using p(1) w(2,4) l e by (intro exI [of _ ?hb]) simp
qed

section \<open>The ID\<close>

lemma uint_len_top:
  "bit x n \<Longrightarrow> (\<And>k. n < k \<Longrightarrow> \<not> bit x k) \<Longrightarrow> uint_len x = n div 8 + 2"
proof (induction n arbitrary: x rule: less_induct)
  case (less n)
  have x: "x \<noteq> 0" using less.prems(1) by auto
  show ?case
  proof (cases "n < 8")
    case True
    have "drop_bit 8 x = 0" by (rule bit_eqI) (use less.prems(2) True in \<open>simp add: bit_simps\<close>)
    then show ?thesis using x True by (simp add: uint_len.simps)
  next
    case False
    have "uint_len (drop_bit 8 x) = (n - 8) div 8 + 2"
      using False less.prems by (intro less.IH) (auto simp add: bit_simps)
    then show ?thesis using x False by (subst uint_len.simps) (simp add: div_if)
  qed
qed

lemma uint_len_vint: "vint_ok w val \<Longrightarrow> uint_len (drop_bit 8 val) = w"
proof -
  assume ok: "vint_ok w val"
  then have w: "1 \<le> w" "w \<le> 8" "bit val (7 * w)" by (simp_all add: vint_ok_def)
  show ?thesis
  proof (cases "w = 1")
    case True
    have "drop_bit 8 val = 0" by (rule bit_eqI) (use vint_ok_high [OF ok] True in \<open>simp add: bit_simps\<close>)
    then show ?thesis using True by (simp add: uint_len.simps)
  next
    case False
    then have "uint_len (drop_bit 8 val) = (7 * w - 8) div 8 + 2"
      using w vint_ok_high [OF ok] by (intro uint_len_top) (auto simp add: bit_simps)
    moreover have "7 * w - 8 = 8 * (w - 2) + (8 - w)" "8 - w < 8" using False w by auto
    ultimately show ?thesis using False w(1) by simp
  qed
qed

lemma encodeUintBE_vint:
  assumes "vint_ok w val" "w \<le> 4"
  shows "encodeUintBE (ucast (ucast val :: u32)) = be_enc w val"
proof -
  have "(ucast (ucast val :: u32) :: u64) = val"
  proof (rule bit_eqI)
    fix k
    show "bit (ucast (ucast val :: u32) :: u64) k = bit val k"
    proof (cases "k < 32")
      case False
      then have "7 * w < k" using assms(2) by simp
      then show ?thesis using vint_ok_high [OF assms(1)] False by (auto simp add: bit_simps dest: bit_imp_le_length)
    qed (simp add: bit_simps)
  qed
  then show ?thesis using uint_len_vint [OF assms(1)] by (simp add: encodeUintBE_def)
qed

section \<open>The size\<close>

lemma marker_bit: "1 \<le> w \<Longrightarrow> w \<le> 8 \<Longrightarrow> bit (drop_bit (w - 1) (0x80 :: byte)) k \<longleftrightarrow> k = 8 - w"
proof -
  assume w: "1 \<le> w" "w \<le> 8"
  have "(0x80 :: byte) = 2 ^ 7" by simp
  then have b: "bit (0x80 :: byte) j \<longleftrightarrow> j = 7" for j by (simp only: bit_exp_iff) auto
  show ?thesis unfolding bit_drop_bit_eq comp_def b using w by linarith
qed

lemma vintEncode_enc:
  assumes "1 \<le> w" "w \<le> 8" "0 \<le> sz" "sz \<le> 2 ^ (7 * w) - 2"
  shows "vintEncode sz (int w) = Inr (be_enc w (word_of_int sz OR push_bit (w * 7) 1 :: u64))"
proof -
  obtain m where m: "w = Suc m" using assms(1) by (cases w) auto
  let ?x = "word_of_int sz :: u64"
  have hd: "ucast (drop_bit (8 * m) ?x) OR drop_bit m (0x80 :: byte) = (ucast (drop_bit (8 * m) (?x OR push_bit (w * 7) 1)) :: byte)"
  proof (rule bit_eqI)
    fix k
    show "bit (ucast (drop_bit (8 * m) ?x) OR drop_bit m (0x80 :: byte)) k
        = bit (ucast (drop_bit (8 * m) (?x OR push_bit (w * 7) 1)) :: byte) k"
      using marker_bit [of w k] assms(1,2) m by (auto simp add: bit_simps)
  qed
  have tl: "be_enc m (?x OR push_bit (w * 7) 1) = be_enc m ?x"
  proof -
    have "take_bit (8 * m) (?x OR push_bit (w * 7) 1) = take_bit (8 * m) ?x"
      by (rule bit_eqI) (use assms(1,2) m in \<open>auto simp add: bit_simps\<close>)
    then show ?thesis by (metis be_enc_cong_take_bit)
  qed
  have c: "\<not> (int w < 1 \<or> int w > 8)" "\<not> sz < 0" "\<not> sz > 2 ^ (7 * w) - 2" using assms by simp_all
  have "be_enc w (?x OR push_bit (w * 7) 1) = (ucast (drop_bit (8 * m) ?x) OR drop_bit m (0x80 :: byte)) # be_enc m ?x"
    unfolding hd using tl by (simp add: m)
  then show ?thesis
    unfolding vintEncode_def Let_def nat_int if_not_P [OF c(1)] if_not_P [OF c(2)] if_not_P [OF c(3)] by (simp add: m)
qed

lemma vintEncode_unknown:
  assumes "1 \<le> w" "w \<le> 8"
  shows "vintEncode (-1) (int w) = Inr (be_enc w (push_bit (w * 7) 1 OR (push_bit (w * 7) 1 - 1) :: u64))"
proof -
  have "w \<in> {1, 2, 3, 4, 5, 6, 7, 8}" using assms by auto
  then show ?thesis by (elim insertE emptyE) (simp_all, code_simp+)
qed
lemma ReadDataSize_bytes_of:
  assumes "ReadDataSize s = (Inr (sz, w), s')"
  shows "\<exists>hb. pending s = hb @ pending s' \<and> length hb = w \<and> vintEncode sz (int w) = Inr hb"
proof -
  obtain val where v: "ReadVINT s = (Inr (val, w), s')"
    and sz: "sz = (if val = push_bit (w * 7) 1 OR (push_bit (w * 7) 1 - 1) then -1 else sint (val AND NOT (push_bit (w * 7) 1 :: u64)))"
    using assms by (auto simp add: ReadDataSize_def Let_def split: sum.splits prod.splits if_splits)
  obtain hb where hb: "pending s = hb @ pending s'" "length hb = w" "be_enc w val = hb" and ok: "vint_ok w val"
    using ReadVINT_bytes_of [OF v] by blast
  have w: "1 \<le> w" "w \<le> 8" using ok by (simp_all add: vint_ok_def)
  have "vintEncode sz (int w) = Inr (be_enc w val)"
  proof (cases "val = push_bit (w * 7) 1 OR (push_bit (w * 7) 1 - 1)")
    case True
    then show ?thesis using vintEncode_unknown [OF w] sz by simp
  next
    case False
    let ?m = "push_bit (w * 7) 1 :: u64"
    define x where "x = val AND NOT ?m"
    have val: "val = x OR ?m"
    proof (rule bit_eqI)
      fix k
      show "bit val k = bit (x OR ?m) k"
        using ok w bit_imp_le_length [of val k] by (cases "k = w * 7") (auto simp add: x_def vint_ok_def bit_simps mult.commute)
    qed
    have hi: "\<not> bit x k" if "7 * w \<le> k" for k
      using vint_ok_high [OF ok, of k] that by (cases "k = 7 * w") (auto simp add: x_def bit_simps mult.commute)
    have "take_bit (7 * w) x = x" by (rule bit_eqI) (use hi linorder_not_less in \<open>auto simp add: bit_simps\<close>)
    then have u: "uint x < 2 ^ (7 * w)" by (metis take_bit_int_less_exp unsigned_take_bit_eq)
    have p: "(2 :: int) ^ (7 * w) \<le> 2 ^ 56" using w by (intro power_increasing) simp_all
    have s: "sint x = uint x" using sint_word_of_int_small [of "uint x"] u p by simp
    have xw: "x = word_of_int (uint x)" by simp
    have szu: "sz = uint x" using sz False s by (simp add: x_def)
    have nm: "uint x \<noteq> 2 ^ (7 * w) - 1"
    proof
      assume "uint x = 2 ^ (7 * w) - 1"
      then have "val = ?m OR (?m - 1)" using val xw by (metis mask_word_of_int mult.commute or.commute)
      then show False using False by simp
    qed
    have r: "0 \<le> sz" "sz \<le> 2 ^ (7 * w) - 2" using u nm by (simp_all add: szu)
    have x: "word_of_int sz = x" by (simp add: szu)
    show ?thesis using vintEncode_enc [OF w r] by (simp only: x val [symmetric])
  qed
  then show ?thesis using hb by (intro exI [of _ hb]) simp
qed

section \<open>Properties\<close>

text \<open>
  The literal recorded for an element header is exactly the bytes the header was read from, whatever
  the widths its ID and its size were written with, an unknown size included.
\<close>

lemma literal_header_exact:
  assumes "ReadElementHeader s = (Inr (h, n), s')" and "rb_err b = None"
  shows "literalHeader h (int n) b = literal (take n (pending s)) b"
proof -
  obtain eid n1 s1 sz n2 where i: "ReadElementID s = (Inr (eid, n1), s1)" and d: "ReadDataSize s1 = (Inr (sz, n2), s')"
    and h: "h = \<lparr>hdr_ID = eid, hdr_Size = sz\<rparr>" "n = n1 + n2"
    using assms(1) by (auto simp add: ReadElementHeader_def split: sum.splits prod.splits)
  obtain val where v: "ReadVINT s = (Inr (val, n1), s1)" "n1 \<le> 4" "eid = ucast val"
    using i by (auto simp add: ReadElementID_def split: sum.splits prod.splits if_splits)
  obtain ib where ib: "pending s = ib @ pending s1" "length ib = n1" "be_enc n1 val = ib" "vint_ok n1 val"
    using ReadVINT_bytes_of [OF v(1)] by blast
  obtain sb where sb: "pending s1 = sb @ pending s'" "length sb = n2" "vintEncode sz (int n2) = Inr sb"
    using ReadDataSize_bytes_of [OF d] by blast
  have e: "encodeUintBE (ucast (hdr_ID h)) = ib" using encodeUintBE_vint [OF ib(4) v(2)] ib(3) v(3) by (simp add: h)
  have "int n - int (length ib) = int n2" using ib(2) by (simp add: h)
  moreover have "take n (pending s) = ib @ sb" using ib(1,2) sb(1,2) by (simp add: h)
  ultimately show ?thesis using assms(2) e sb(3) by (simp add: literalHeader_def h)
qed

lemma literal_header_exact_witness:
  "literalHeader \<lparr>hdr_ID = 0x1F43B675, hdr_Size = 5\<rparr> 12 newRollbackBuilder
   = literal [0x1F, 0x43, 0xB6, 0x75, 1, 0, 0, 0, 0, 0, 0, 5] newRollbackBuilder"
proof -
  let ?s = "\<lparr>pending = [0x1F, 0x43, 0xB6, 0x75, 1, 0, 0, 0, 0, 0, 0, 5, 9], at_end = EOF, byte_reader = True\<rparr>"
  have "ReadElementHeader ?s = (Inr (\<lparr>hdr_ID = 0x1F43B675, hdr_Size = 5\<rparr>, 12), ?s\<lparr>pending := [9]\<rparr>)" by code_simp
  from literal_header_exact [OF this, of newRollbackBuilder] show ?thesis by (simp add: newRollbackBuilder_def)
qed

end
