(* ===== verification/CryptOrder.thy ===== *)
theory CryptOrder
  imports Prelude
begin

text \<open>
  The gate of mp4/cryptslots.go that lets a bounded number of segments encrypt at once, the oldest
  request first.  A request is named by the sequence number \<^verbatim>\<open>cryptSeq\<close> gave it.  Every critical section
  of the mutex is one event; between them a request waits (\<open>g_waiting\<close>), has been handed a slot it has not
  taken up yet (\<open>g_ready\<close>, its channel closed), or encrypts (\<open>g_held\<close>).  The heap of \<^verbatim>\<open>container/heap\<close>
  is the list of its waiters, of which \<^verbatim>\<open>heap.Pop\<close> takes the one with the least number.
\<close>

section \<open>The gate\<close>

record cryptWaiter =
  w_seq :: int
  w_gone :: bool

record cryptOrder =
  g_free :: nat
  g_waiting :: "cryptWaiter list"
  g_ready :: "int list"
  g_held :: "int list"

definition newCryptOrder :: "int \<Rightarrow> cryptOrder" where
  "newCryptOrder n = \<lparr>g_free = nat (max n 1), g_waiting = [], g_ready = [], g_held = []\<rparr>"

definition oldest :: "cryptWaiter list \<Rightarrow> cryptWaiter" where
  "oldest ws = fold (\<lambda>w best. if w_seq w < w_seq best then w else best) (tl ws) (hd ws)"

lemma oldest_in: "ws \<noteq> [] \<Longrightarrow> oldest ws \<in> set ws"
proof -
  have "fold (\<lambda>w best. if w_seq w < w_seq best then w else best) vs v \<in> insert v (set vs)" for vs v
  proof (induction vs arbitrary: v)
    case (Cons x vs)
    from Cons [of "if w_seq x < w_seq v then x else v"] show ?case by (auto split: if_splits)
  qed simp
  then show "ws \<noteq> [] \<Longrightarrow> oldest ws \<in> set ws" by (cases ws) (simp_all add: oldest_def)
qed

lemma oldest_least: "w \<in> set ws \<Longrightarrow> w_seq (oldest ws) \<le> w_seq w"
proof -
  have "\<forall>u \<in> insert v (set vs). w_seq (fold (\<lambda>w best. if w_seq w < w_seq best then w else best) vs v) \<le> w_seq u" for vs v
  proof (induction vs arbitrary: v)
    case (Cons x vs)
    from Cons [of "if w_seq x < w_seq v then x else v"] show ?case by (auto split: if_splits)
  qed simp
  then show "w \<in> set ws \<Longrightarrow> w_seq (oldest ws) \<le> w_seq w" by (cases ws) (auto simp: oldest_def)
qed

text \<open>\<open>heap.Pop\<close> in the loop of \<^verbatim>\<open>handOff\<close>: waiters that gave up are dropped on the way.\<close>

function hand_off :: "cryptOrder \<Rightarrow> cryptOrder" where
  "hand_off g =
     (if g_waiting g = [] then g\<lparr>g_free := g_free g + 1\<rparr>
      else let w = oldest (g_waiting g); g = g\<lparr>g_waiting := remove1 w (g_waiting g)\<rparr> in
        if w_gone w then hand_off g else g\<lparr>g_ready := w_seq w # g_ready g\<rparr>)"
  by pat_completeness auto
termination
  by (relation "measure (length \<circ> g_waiting)") (auto simp: length_remove1 dest: oldest_in)

declare hand_off.simps [simp del]

datatype event =
    Acquire int
  | Wake int
  | GiveUp int
  | Release int

definition known :: "cryptOrder \<Rightarrow> int \<Rightarrow> bool" where
  "known g r \<longleftrightarrow> r \<in> set (map w_seq (g_waiting g)) \<or> r \<in> set (g_ready g) \<or> r \<in> set (g_held g)"

definition live :: "cryptOrder \<Rightarrow> int \<Rightarrow> bool" where
  "live g r \<longleftrightarrow> (\<exists>w \<in> set (g_waiting g). w_seq w = r \<and> \<not> w_gone w)"

definition give_up :: "int \<Rightarrow> cryptWaiter \<Rightarrow> cryptWaiter" where
  "give_up r w = (if w_seq w = r then w\<lparr>w_gone := True\<rparr> else w)"

text \<open>
  \<open>Acquire\<close> is \<^verbatim>\<open>acquire\<close> up to its \<^verbatim>\<open>select\<close>, \<open>Wake\<close> and \<open>GiveUp\<close> the branches of it, \<open>Release\<close> is \<^verbatim>\<open>release\<close>.
  \<open>None\<close>: no request is where the event could happen.
\<close>

fun crypt_step :: "event \<Rightarrow> cryptOrder \<Rightarrow> cryptOrder option" where
  "crypt_step (Acquire r) g =
     (if known g r then None
      else if g_free g > 0 then Some (g\<lparr>g_free := g_free g - 1, g_held := r # g_held g\<rparr>)
      else Some (g\<lparr>g_waiting := g_waiting g @ [\<lparr>w_seq = r, w_gone = False\<rparr>]\<rparr>))"
| "crypt_step (Wake r) g =
     (if r \<in> set (g_ready g) then Some (g\<lparr>g_ready := remove1 r (g_ready g), g_held := r # g_held g\<rparr>) else None)"
| "crypt_step (GiveUp r) g =
     (if r \<in> set (g_ready g) then Some (hand_off (g\<lparr>g_ready := remove1 r (g_ready g)\<rparr>))
      else if live g r then Some (g\<lparr>g_waiting := map (give_up r) (g_waiting g)\<rparr>)
      else None)"
| "crypt_step (Release r) g =
     (if r \<in> set (g_held g) then Some (hand_off (g\<lparr>g_held := remove1 r (g_held g)\<rparr>)) else None)"

fun crypt_steps :: "event list \<Rightarrow> cryptOrder \<Rightarrow> cryptOrder option" where
  "crypt_steps [] g = Some g"
| "crypt_steps (e # es) g = Option.bind (crypt_step e g) (crypt_steps es)"

inductive crypt_reach :: "int \<Rightarrow> cryptOrder \<Rightarrow> bool" for n where
  start: "crypt_reach n (newCryptOrder n)"
| step: "crypt_reach n g \<Longrightarrow> crypt_step e g = Some g' \<Longrightarrow> crypt_reach n g'"

section \<open>The slots\<close>

text \<open>No slot is lost or made, a request is in one place, and nobody waits while a slot is free.\<close>

definition gate_ok :: "int \<Rightarrow> cryptOrder \<Rightarrow> bool" where
  "gate_ok n g \<longleftrightarrow>
     g_free g + length (g_ready g) + length (g_held g) = nat (max n 1) \<and>
     (g_free g > 0 \<longrightarrow> g_waiting g = []) \<and>
     distinct (map w_seq (g_waiting g) @ g_ready g @ g_held g)"

text \<open>The gate between taking a slot from its holder and handing it on.\<close>

definition one_short :: "int \<Rightarrow> cryptOrder \<Rightarrow> bool" where
  "one_short n g \<longleftrightarrow>
     g_free g + length (g_ready g) + length (g_held g) + 1 = nat (max n 1) \<and>
     (g_free g > 0 \<longrightarrow> g_waiting g = []) \<and>
     distinct (map w_seq (g_waiting g) @ g_ready g @ g_held g)"

lemma hand_off_ok: "one_short n g \<Longrightarrow> gate_ok n (hand_off g)"
proof (induction g rule: hand_off.induct)
  case (1 g)
  show ?case
  proof (cases "g_waiting g = []")
    case True
    then show ?thesis using "1.prems" by (simp add: hand_off.simps [of g] gate_ok_def one_short_def)
  next
    case False
    define w where "w = oldest (g_waiting g)"
    define g' where "g' = g\<lparr>g_waiting := remove1 w (g_waiting g)\<rparr>"
    have w: "w \<in> set (g_waiting g)" using oldest_in [OF False] by (simp add: w_def)
    then obtain us vs where uv: "g_waiting g = us @ w # vs" "remove1 w (g_waiting g) = us @ vs"
      using split_list_first [OF w] by (auto simp: remove1_append)
    have "one_short n g'" using "1.prems" False uv by (auto simp: one_short_def g'_def)
    moreover have "distinct (map w_seq (g_waiting g') @ (w_seq w # g_ready g') @ g_held g')"
      using "1.prems" uv by (auto simp: one_short_def g'_def)
    moreover have "g_free g' = 0" using "1.prems" False by (auto simp: one_short_def g'_def)
    moreover have "hand_off g = (if w_gone w then hand_off g' else g'\<lparr>g_ready := w_seq w # g_ready g'\<rparr>)"
      using False by (simp add: hand_off.simps [of g] w_def g'_def Let_def)
    ultimately show ?thesis using "1.IH" [OF False w_def g'_def]
      by (cases "w_gone w") (auto simp: gate_ok_def one_short_def)
  qed
qed

lemma gate_ok_step: "gate_ok n g \<Longrightarrow> crypt_step e g = Some g' \<Longrightarrow> gate_ok n g'"
proof (cases e)
  case (Acquire r)
  assume "gate_ok n g" "crypt_step e g = Some g'"
  then show ?thesis using Acquire by (fastforce simp: gate_ok_def known_def split: if_splits)
next
  case (Wake r)
  assume ok: "gate_ok n g" and st: "crypt_step e g = Some g'"
  then obtain us vs where "g_ready g = us @ r # vs" "remove1 r (g_ready g) = us @ vs"
    using Wake split_list_first [of r "g_ready g"] by (auto simp: remove1_append split: if_splits)
  then show ?thesis using ok st Wake by (fastforce simp: gate_ok_def split: if_splits)
next
  case (GiveUp r)
  assume ok: "gate_ok n g" and st: "crypt_step e g = Some g'"
  show ?thesis
  proof (cases "r \<in> set (g_ready g)")
    case True
    then obtain us vs where "g_ready g = us @ r # vs" "remove1 r (g_ready g) = us @ vs"
      using split_list_first [of r "g_ready g"] by (auto simp: remove1_append)
    then have "one_short n (g\<lparr>g_ready := remove1 r (g_ready g)\<rparr>)" using ok by (auto simp: gate_ok_def one_short_def)
    then show ?thesis using hand_off_ok st GiveUp True by auto
  next
    case False
    have "w_seq \<circ> give_up r = w_seq" by (rule ext) (simp add: give_up_def)
    moreover from this have "w_seq ` give_up r ` ws = w_seq ` ws" for ws by (metis image_comp)
    moreover have "g' = g\<lparr>g_waiting := map (give_up r) (g_waiting g)\<rparr>" using False st GiveUp by (auto split: if_splits)
    ultimately show ?thesis using ok by (simp add: gate_ok_def)
  qed
next
  case (Release r)
  assume ok: "gate_ok n g" and st: "crypt_step e g = Some g'"
  then have "r \<in> set (g_held g)" using Release by (auto split: if_splits)
  then obtain us vs where "g_held g = us @ r # vs" "remove1 r (g_held g) = us @ vs"
    using split_list_first [of r "g_held g"] by (auto simp: remove1_append)
  then have "one_short n (g\<lparr>g_held := remove1 r (g_held g)\<rparr>)" using ok by (auto simp: gate_ok_def one_short_def)
  then show ?thesis using hand_off_ok st Release by (auto split: if_splits)
qed

lemma gate_ok_reach: "crypt_reach n g \<Longrightarrow> gate_ok n g"
proof (induction rule: crypt_reach.induct)
  case start
  show ?case by (simp add: gate_ok_def newCryptOrder_def)
next
  case (step g e g')
  then show ?case using gate_ok_step by blast
qed


text \<open>One slot, three requests; the one handed the slot gives up, and the third gets it.\<close>

definition ex_events :: "event list" where
  "ex_events = [Acquire 5, Acquire 8, Acquire 7, Release 5, GiveUp 7]"

definition ex_gate :: cryptOrder where
  "ex_gate = \<lparr>g_free = 0, g_waiting = [], g_ready = [8], g_held = []\<rparr>"

lemma crypt_reach_steps: "crypt_reach n g \<Longrightarrow> crypt_steps es g = Some g' \<Longrightarrow> crypt_reach n g'"
  by (induction es arbitrary: g) (auto split: Option.bind_splits intro: crypt_reach.step)

lemma ex_gate_reach: "crypt_reach 1 ex_gate"
proof (rule crypt_reach_steps [OF crypt_reach.start])
  show "crypt_steps ex_events (newCryptOrder 1) = Some ex_gate" by code_simp
qed


section \<open>The order\<close>

text \<open>The requests that go before \<open>r\<close>.\<close>

definition ahead :: "cryptOrder \<Rightarrow> int \<Rightarrow> nat" where
  "ahead g r = length (filter (\<lambda>w. \<not> w_gone w \<and> w_seq w < r) (g_waiting g))"

lemma hand_off_serves:
  "distinct (map w_seq (g_waiting g)) \<Longrightarrow> live g r \<Longrightarrow>
   r \<in> set (g_ready (hand_off g)) \<or> live (hand_off g) r \<and> ahead (hand_off g) r < ahead g r"
proof (induction g rule: hand_off.induct)
  case (1 g)
  have ne: "g_waiting g \<noteq> []" using "1.prems"(2) by (auto simp: live_def)
  define w where "w = oldest (g_waiting g)"
  define g' where "g' = g\<lparr>g_waiting := remove1 w (g_waiting g)\<rparr>"
  have w: "w \<in> set (g_waiting g)" using oldest_in [OF ne] by (simp add: w_def)
  then obtain us vs where uv: "g_waiting g = us @ w # vs" "remove1 w (g_waiting g) = us @ vs"
    using split_list_first [OF w] by (auto simp: remove1_append)
  have off: "hand_off g = (if w_gone w then hand_off g' else g'\<lparr>g_ready := w_seq w # g_ready g'\<rparr>)"
    using ne by (simp add: hand_off.simps [of g] w_def g'_def Let_def)
  show ?case
  proof (cases "w_gone w")
    case True
    have "distinct (map w_seq (g_waiting g'))" "live g' r" "ahead g' r = ahead g r"
      using "1.prems" uv True by (auto simp: g'_def live_def ahead_def)
    then show ?thesis using "1.IH" [OF ne w_def g'_def True] off True by simp
  next
    case False
    show ?thesis
    proof (cases "w_seq w = r")
      case True
      then show ?thesis using off False by simp
    next
      case other: False
      then have "live g' r" using "1.prems"(2) uv by (auto simp: g'_def live_def)
      moreover obtain v where "v \<in> set (g_waiting g)" "w_seq v = r" using "1.prems"(2) by (auto simp: live_def)
      then have "w_seq w < r" using oldest_least [of v "g_waiting g"] other by (auto simp: w_def)
      then have "ahead g' r < ahead g r" using False uv by (simp add: ahead_def g'_def)
      ultimately show ?thesis using off False by (simp add: live_def ahead_def)
    qed
  qed
qed

definition passes :: "int \<Rightarrow> event \<Rightarrow> bool" where
  "passes r e \<longleftrightarrow> (case e of Acquire q \<Rightarrow> q < r | GiveUp q \<Rightarrow> q = r | _ \<Rightarrow> False)"

definition releases :: "event \<Rightarrow> bool" where
  "releases e \<longleftrightarrow> (case e of Release q \<Rightarrow> True | _ \<Rightarrow> False)"

lemma crypt_step_serves:
  assumes ok: "gate_ok n g" and r: "live g r" and e: "\<not> passes r e" and st: "crypt_step e g = Some g'"
  shows "r \<in> set (g_ready g') \<or> live g' r \<and> ahead g' r + (if releases e then 1 else 0) \<le> ahead g r"
proof (cases e)
  case (Acquire q)
  have "g_free g = 0" using ok r by (auto simp: gate_ok_def live_def)
  then show ?thesis using Acquire st e r by (auto simp: passes_def releases_def live_def ahead_def split: if_splits)
next
  case (Wake q)
  then show ?thesis using st r by (auto simp: releases_def live_def ahead_def split: if_splits)
next
  case (GiveUp q)
  show ?thesis
  proof (cases "q \<in> set (g_ready g)")
    case True
    define h where "h = g\<lparr>g_ready := remove1 q (g_ready g)\<rparr>"
    have "distinct (map w_seq (g_waiting h))" "live h r" "ahead h r = ahead g r"
      using ok r by (simp_all add: h_def gate_ok_def live_def ahead_def)
    then show ?thesis using hand_off_serves [of h r] st GiveUp True by (auto simp: h_def releases_def)
  next
    case False
    then have g': "g' = g\<lparr>g_waiting := map (give_up q) (g_waiting g)\<rparr>" using st GiveUp by (auto split: if_splits)
    have "q \<noteq> r" using e GiveUp by (simp add: passes_def)
    then have "live g' r" using r by (force simp: g' live_def give_up_def)
    moreover have "length (filter P (map (give_up q) ws)) \<le> length (filter P ws)"
      if "P = (\<lambda>w. \<not> w_gone w \<and> w_seq w < r)" for P ws
      using that by (induction ws) (auto simp: give_up_def)
    ultimately show ?thesis using GiveUp by (simp add: g' ahead_def releases_def)
  qed
next
  case (Release q)
  define h where "h = g\<lparr>g_held := remove1 q (g_held g)\<rparr>"
  have "distinct (map w_seq (g_waiting h))" "live h r" "ahead h r = ahead g r"
    using ok r by (simp_all add: h_def gate_ok_def live_def ahead_def)
  then show ?thesis using hand_off_serves [of h r] st Release by (auto simp: h_def releases_def split: if_splits)
qed

lemma crypt_steps_serve:
  assumes "gate_ok n g" "live g r" "list_all (\<lambda>e. \<not> passes r e) es" "crypt_steps es g = Some g'"
    and "ahead g r < length (filter releases es)"
  shows "\<exists>done todo h. es = done @ todo \<and> crypt_steps done g = Some h \<and> r \<in> set (g_ready h)"
  using assms
proof (induction es arbitrary: g)
  case (Cons e es)
  obtain h where h: "crypt_step e g = Some h" "crypt_steps es h = Some g'"
    using Cons.prems(4) by (auto split: Option.bind_splits)
  have e: "\<not> passes r e" using Cons.prems(3) by simp
  show ?case
  proof (cases "r \<in> set (g_ready h)")
    case True
    then have "e # es = [e] @ es \<and> crypt_steps [e] g = Some h \<and> r \<in> set (g_ready h)" using h by simp
    then show ?thesis by blast
  next
    case False
    then have "live h r" "ahead h r + (if releases e then 1 else 0) \<le> ahead g r"
      using crypt_step_serves [OF Cons.prems(1,2) e h(1)] by blast+
    moreover from this(2) have "ahead h r < length (filter releases es)" using Cons.prems(5) by (auto split: if_splits)
    ultimately obtain dn todo k where "es = dn @ todo" "crypt_steps dn h = Some k" "r \<in> set (g_ready k)"
      using Cons.IH [OF gate_ok_step [OF Cons.prems(1) h(1)] _ _ h(2)] Cons.prems(3) by auto
    then have "e # es = (e # dn) @ todo \<and> crypt_steps (e # dn) g = Some k \<and> r \<in> set (g_ready k)" using h(1) by simp
    then show ?thesis by blast
  qed
qed simp

text \<open>C17.
  The oldest request first, and no request forgotten: while a request waits some other one holds a slot
  or has been handed one, and in any run from there that brings no older request and in which it does
  not give up, it is handed a slot after at most one release more than there are older requests waiting.
\<close>

theorem crypt_request_served:
  assumes "crypt_reach n g" "live g r" "list_all (\<lambda>e. \<not> passes r e) es" "crypt_steps es g = Some g'"
    and "ahead g r < length (filter releases es)"
  shows "(\<exists>q. q \<in> set (g_ready g) \<or> q \<in> set (g_held g)) \<and>
     (\<exists>before after h. es = before @ after \<and> crypt_steps before g = Some h \<and> r \<in> set (g_ready h))"
proof
  note ok = gate_ok_reach [OF assms(1)]
  have "g_free g = 0" using ok assms(2) by (auto simp: gate_ok_def live_def)
  then have "g_ready g \<noteq> [] \<or> g_held g \<noteq> []" using ok by (auto simp: gate_ok_def)
  then show "\<exists>q. q \<in> set (g_ready g) \<or> q \<in> set (g_held g)" by (auto simp: neq_Nil_conv)
  show "\<exists>before after h. es = before @ after \<and> crypt_steps before g = Some h \<and> r \<in> set (g_ready h)"
    using crypt_steps_serve [OF ok assms(2-5)] .
qed

definition ex_queue :: cryptOrder where
  "ex_queue = \<lparr>g_free = 0, g_waiting = [\<lparr>w_seq = 9, w_gone = False\<rparr>, \<lparr>w_seq = 7, w_gone = False\<rparr>], g_ready = [], g_held = [5]\<rparr>"

theorem crypt_request_served_witness:
  "\<exists>before after h. [Release 5, Wake 7, Acquire 12, Release 7] = before @ after \<and> crypt_steps before ex_queue = Some h \<and> 9 \<in> set (g_ready h)"
proof -
  have "crypt_reach 1 ex_queue"
  proof (rule crypt_reach_steps [OF crypt_reach.start])
    show "crypt_steps [Acquire 5, Acquire 9, Acquire 7] (newCryptOrder 1) = Some ex_queue" by code_simp
  qed
  moreover have "live ex_queue 9" "ahead ex_queue 9 = 1" by (simp_all add: live_def ahead_def ex_queue_def)
  moreover have "crypt_steps [Release 5, Wake 7, Acquire 12, Release 7] ex_queue
      = Some \<lparr>g_free = 0, g_waiting = [\<lparr>w_seq = 12, w_gone = False\<rparr>], g_ready = [9], g_held = []\<rparr>" by code_simp
  moreover have "list_all (\<lambda>e. \<not> passes 9 e) [Release 5, Wake 7, Acquire 12, Release 7]" by (simp add: passes_def)
  moreover have "length (filter releases [Release 5, Wake 7, Acquire 12, Release 7]) = 2" by (simp add: releases_def)
  ultimately show ?thesis using crypt_request_served [of 1 ex_queue 9 "[Release 5, Wake 7, Acquire 12, Release 7]"] by simp
qed

end
