(* ===== verification/BitReader.thy ===== *)
theory BitReader
  imports CencSplit
begin

text \<open>
  \<^verbatim>\<open>bitReader\<close> of mp4/audio.go, the plain bit reader over a byte slice that VP9 and AV1 headers are read with.
  It is shown to be a source of the bits of its bytes (the interpretation \<open>bits\<close>), so that a header written
  as a concatenation of codes is read back, and to stand behind exactly the bits read.
\<close>

section \<open>The reader\<close>

record bitReader =
  bt_data :: bytes
  bt_pos :: nat
  bt_err :: bool

type_synonym 'a reads = "(bitReader, 'a) state"

definition newBitReader :: "bytes \<Rightarrow> bitReader" where
  "newBitReader d = \<lparr>bt_data = d, bt_pos = 0, bt_err = False\<rparr>"

text \<open>The loop of \<^verbatim>\<open>bits\<close>: a read past the end answers 0, whatever it had.\<close>

fun b_loop :: "nat \<Rightarrow> u32 \<Rightarrow> bitReader \<Rightarrow> u32 \<times> bitReader" where
  "b_loop 0 v r = (v, r)"
| "b_loop (Suc n) v r =
     (if bt_pos r div 8 \<ge> length (bt_data r) then (0, r\<lparr>bt_err := True\<rparr>)
      else let b = ucast (drop_bit (7 - bt_pos r mod 8) (bt_data r ! (bt_pos r div 8)) AND 1)
        in b_loop n (push_bit 1 v OR b) (r\<lparr>bt_pos := bt_pos r + 1\<rparr>))"

definition b_bits :: "nat \<Rightarrow> u32 reads" where
  "b_bits n = State (b_loop n 0)"

definition b_flag :: "bool reads" where
  "b_flag = do { b \<leftarrow> b_bits 1; ret (b = 1) }"

definition b_failed :: "bool reads" where
  "b_failed = State (\<lambda>r. (bt_err r, r))"

definition b_pos :: "nat reads" where
  "b_pos = State (\<lambda>r. (bt_pos r, r))"

section \<open>A source of bits\<close>

definition bt_rest :: "bitReader \<Rightarrow> bool list" where
  "bt_rest r = drop (bt_pos r) (concat (map byte_bits (bt_data r)))"

definition bt_ok :: "bytes \<Rightarrow> bitReader \<Rightarrow> bool" where
  "bt_ok d r \<longleftrightarrow> bt_data r = d \<and> bt_pos r \<le> 8 * length d"

lemma nth_byte_bits: "k < 8 \<Longrightarrow> byte_bits b ! k = bit b (7 - k)"
  by (simp add: byte_bits_def bits_of_def rev_nth)

lemma nth_concat_bits: "i < 8 * length d \<Longrightarrow> concat (map byte_bits d) ! i = bit (d ! (i div 8)) (7 - i mod 8)"
proof (induction d arbitrary: i)
  case (Cons b d)
  show ?case
  proof (cases "i < 8")
    case True
    then show ?thesis by (simp add: nth_append nth_byte_bits)
  next
    case False
    then have "i div 8 = Suc ((i - 8) div 8)" "i mod 8 = (i - 8) mod 8" "i - 8 < 8 * length d"
      using Cons.prems by (simp_all add: le_div_geq le_mod_geq)
    then show ?thesis using Cons.IH [of "i - 8"] False by (simp add: nth_append)
  qed
qed simp

lemma masked_bit: "ucast (drop_bit n (c :: byte) AND 1) = (of_bool (bit c n) :: u32)"
  by (rule bit_eqI) (auto simp: bit_simps)

lemma bt_rest_Cons:
  assumes "bt_ok d r" "bt_rest r = b # bs"
  shows "\<not> bt_pos r div 8 \<ge> length (bt_data r)"
    and "ucast (drop_bit (7 - bt_pos r mod 8) (bt_data r ! (bt_pos r div 8)) AND 1) = (of_bool b :: u32)"
    and "bt_ok d (r\<lparr>bt_pos := bt_pos r + 1\<rparr>)" "bt_rest (r\<lparr>bt_pos := bt_pos r + 1\<rparr>) = bs"
proof -
  have lt: "bt_pos r < length (concat (map byte_bits (bt_data r)))"
    using assms(2) by (metis bt_rest_def drop_all list.distinct(1) not_less)
  then have lt': "bt_pos r < 8 * length (bt_data r)" by simp
  then show "\<not> bt_pos r div 8 \<ge> length (bt_data r)" by simp
  have all: "b # bs = concat (map byte_bits (bt_data r)) ! bt_pos r # drop (Suc (bt_pos r)) (concat (map byte_bits (bt_data r)))"
    using assms(2) Cons_nth_drop_Suc [OF lt] by (simp add: bt_rest_def)
  then show "ucast (drop_bit (7 - bt_pos r mod 8) (bt_data r ! (bt_pos r div 8)) AND 1) = (of_bool b :: u32)"
    unfolding masked_bit using nth_concat_bits [OF lt'] by simp
  show "bt_ok d (r\<lparr>bt_pos := bt_pos r + 1\<rparr>)" using assms(1) lt' by (simp add: bt_ok_def)
  show "bt_rest (r\<lparr>bt_pos := bt_pos r + 1\<rparr>) = bs" using all by (simp add: bt_rest_def)
qed

lemma bt_rest_Nil: "bt_ok d r \<Longrightarrow> bt_rest r = [] \<Longrightarrow> bt_pos r div 8 \<ge> length (bt_data r)"
  by (simp add: bt_rest_def bt_ok_def)

lemma b_loop_takes:
  "bt_ok d r \<Longrightarrow> bt_rest r = bs @ us \<Longrightarrow>
   \<exists>r'. b_loop (length bs) v r = (fold (\<lambda>b v. push_bit 1 v OR of_bool b) bs v, r') \<and> bt_ok d r' \<and> bt_rest r' = us \<and> bt_err r' = bt_err r"
proof (induction bs arbitrary: v r)
  case (Cons b bs)
  note step = bt_rest_Cons [OF Cons.prems(1), of b "bs @ us"]
  have "bt_rest r = b # bs @ us" using Cons.prems(2) by simp
  note step = step [OF this]
  from Cons.IH [OF step(3,4), of "push_bit 1 v OR of_bool b"] show ?case
    using step(1,2) by (simp add: Let_def)
qed simp

interpretation bits: bit_source "b_bits 1" bt_rest bt_err "bt_ok d" for d
proof
  fix s b bs
  assume "bt_ok d s" "bt_rest s = b # bs"
  then show "\<exists>s'. run_state (b_bits 1) s = (of_bool b, s') \<and> bt_ok d s' \<and> bt_rest s' = bs \<and> bt_err s' = bt_err s"
    using b_loop_takes [of d s "[b]" bs 0] by (simp add: b_bits_def)
next
  fix s
  assume s: "bt_ok d s" "bt_rest s = []"
  then have "run_state (b_bits 1) s = (0, s\<lparr>bt_err := True\<rparr>)" using bt_rest_Nil [OF s] by (simp add: b_bits_def)
  then show "\<exists>s'. run_state (b_bits 1) s = (0, s') \<and> bt_ok d s' \<and> bt_rest s' = [] \<and> bt_err s'"
    using s by (simp add: bt_ok_def bt_rest_def)
qed

section \<open>Reading a known header\<close>

abbreviation gets :: "bytes \<Rightarrow> 'a reads \<Rightarrow> bool list \<Rightarrow> 'a \<Rightarrow> bool" where
  "gets d \<equiv> bit_source.takes bt_rest bt_err (bt_ok d)"

lemmas gets_then = bits.takes_bind
lemmas gets_ret = bits.takes_return

lemma gets_bits: "gets d (b_bits (length bs)) bs (word_of_bits bs)"
proof (rule bits.takesI)
  fix s r
  assume "bt_ok d s" "\<not> bt_err s" "bt_rest s = bs @ r"
  then show "\<exists>s'. run_state (b_bits (length bs)) s = (word_of_bits bs, s') \<and> bt_ok d s' \<and> bt_rest s' = r \<and> \<not> bt_err s'"
    using b_loop_takes [of d s bs r 0] by (simp add: b_bits_def word_of_bits_def)
qed

lemma gets_bits_n: "length bs = n \<Longrightarrow> gets d (b_bits n) bs (word_of_bits bs)"
  using gets_bits [of d bs] by simp

lemma gets_u: "take_bit n v = v \<Longrightarrow> gets d (b_bits n) (bits_of n v) v"
  using gets_bits [of d "bits_of n v"] by simp

lemma gets_bit: "gets d (b_bits 1) [b] (of_bool b)"
  using gets_bits [of d "[b]"] by (simp add: word_of_bits_def)

lemma gets_flag: "gets d b_flag [b] b"
  using bits.takes_bind_return [of d "b_bits 1" "[b]" "of_bool b" "\<lambda>x. x = 1", OF gets_bit] by (simp add: b_flag_def)

lemma gets_bind_flag: "gets d (f b) bs w \<Longrightarrow> gets d (b_flag \<bind> f) (b # bs) w"
  using gets_then [OF gets_flag] by fastforce

lemma gets_bind_bit: "gets d (f (of_bool b)) bs w \<Longrightarrow> gets d (b_bits 1 \<bind> f) (b # bs) w"
  using gets_then [OF gets_bit] by fastforce

lemma gets_failed: "gets d (f False) bs w \<Longrightarrow> gets d (b_failed \<bind> f) bs w"
proof -
  assume "gets d (f False) bs w"
  moreover have "gets d b_failed [] False" by (rule bits.takesI) (simp add: b_failed_def)
  ultimately show ?thesis using gets_then [of d b_failed "[]" False f bs w] by simp
qed

lemma gets_last: "gets d m bs v \<Longrightarrow> gets d (f v) [] w \<Longrightarrow> gets d (m \<bind> f) bs w"
  using gets_then [of d m bs v f "[]" w] by simp

lemma gets_when: "(b \<Longrightarrow> gets d m bs v) \<Longrightarrow> gets d (when_r b m) (if b then bs else []) ()"
  using bits.takes_bind_return [of d m bs v "\<lambda>_. ()"] by (simp add: when_r_def gets_ret)

lemma gets_if: "(b \<Longrightarrow> gets d m xs v) \<Longrightarrow> (\<not> b \<Longrightarrow> gets d n ys v) \<Longrightarrow> gets d (if b then m else n) (if b then xs else ys) v"
  by simp

lemma gets_repeat: "list_all (\<lambda>bs. \<exists>v. gets d m bs v) bss \<Longrightarrow> length bss = n \<Longrightarrow> gets d (repeat_r n m) (concat bss) ()"
proof (induction bss arbitrary: n)
  case Nil
  then show ?case by (simp add: gets_ret)
next
  case (Cons bs bss)
  then obtain k v where "n = Suc k" "gets d m bs v" "gets d (repeat_r k m) (concat bss) ()" by (cases n) auto
  then show ?case by (simp add: gets_then)
qed

text \<open>The reader behind a header stands at its length.\<close>

lemma header_read:
  assumes "gets d m hb v" "concat (map byte_bits d) = hb @ rest"
  shows "\<exists>r. run_state m (newBitReader d) = (v, r) \<and> \<not> bt_err r \<and> bt_pos r = length hb"
proof -
  have new: "bt_ok d (newBitReader d)" "\<not> bt_err (newBitReader d)" "bt_rest (newBitReader d) = hb @ rest"
    by (simp_all add: bt_ok_def newBitReader_def bt_rest_def assms(2))
  obtain r where r: "run_state m (newBitReader d) = (v, r)" "bt_ok d r" "bt_rest r = rest" "\<not> bt_err r"
    using bits.takesD [OF assms(1) new] by auto
  have "length hb + length rest = 8 * length d" using arg_cong [OF assms(2), of length] by simp
  moreover have "length (bt_rest r) = 8 * length d - bt_pos r" using r(2) by (simp add: bt_rest_def bt_ok_def)
  moreover have "length (bt_rest r) = length rest" by (simp only: r(3))
  ultimately have "bt_pos r = length hb" using r(2) unfolding bt_ok_def by arith
  then show ?thesis using r by blast
qed

section \<open>What reads answer\<close>

lemma b_loop_below: "take_bit k v = v \<Longrightarrow> take_bit (k + n) (fst (b_loop n v r)) = fst (b_loop n v r)"
proof (induction n arbitrary: k v r)
  case (Suc n)
  have "take_bit (Suc k) (push_bit 1 v OR of_bool b) = push_bit 1 v OR of_bool b" for b
    unfolding bits_below
  proof (intro allI impI)
    fix m
    assume "bit (push_bit 1 v OR of_bool b) m"
    then have "1 \<le> m \<and> bit v (m - 1) \<or> m = 0" by (auto simp add: bit_or_iff bit_push_bit_iff bit_of_bool_iff simp del: One_nat_def push_bit_of_1)
    moreover have "bit v (m - 1) \<Longrightarrow> m - 1 < k" using Suc.prems unfolding bits_below by simp
    ultimately show "m < Suc k" by auto
  qed
  then show ?case using Suc.IH [of "Suc k" "push_bit 1 v OR of_bool b" for b] by (simp add: masked_bit Let_def)
qed simp

lemma b_bits_below: "unat (fst (run_state (b_bits n) r)) < 2 ^ n"
proof -
  have "take_bit n (fst (b_loop n 0 r)) = fst (b_loop n 0 r)" using b_loop_below [of 0 0 n r] by simp
  then show ?thesis unfolding b_bits_def by (simp, metis take_bit_nat_less_exp unsigned_take_bit_eq)
qed

end
