(* ===== verification/Vp9.thy ===== *)
theory Vp9
  imports BitReader CencIV
begin

text \<open>
  The VP9 splitter of mp4/cenc_vp9.go: a sample is one frame, or a superframe of several with an index behind
  them; of every frame the uncompressed header stays clear, the rest is protected in whole blocks.  The
  header is read bit by bit as its syntax has it (VP9 bitstream specification, 6.2), only to find where it
  ends.
\<close>

section \<open>The uncompressed header\<close>

definition vp9ColorConfig :: "u32 \<Rightarrow> unit reads" where
  "vp9ColorConfig profile = do {
     when_r (profile \<ge> 2) (b_bits 1);
     colorSpace \<leftarrow> b_bits 3;
     if colorSpace \<noteq> 7 then do {
       b_bits 1;
       when_r (profile = 1 \<or> profile = 3) (do { b_bits 2; b_bits 1 }) }
     else when_r (profile = 1 \<or> profile = 3) (b_bits 1) }"

definition vp9RenderSize :: "unit reads" where
  "vp9RenderSize = do { d \<leftarrow> b_flag; when_r d (do { b_bits 16; b_bits 16 }) }"

primrec vp9_found_ref :: "nat \<Rightarrow> bool reads" where
  "vp9_found_ref 0 = ret False"
| "vp9_found_ref (Suc n) = do { f \<leftarrow> b_flag; if f then ret True else vp9_found_ref n }"

definition vp9FrameSizeWithRefs :: "nat \<Rightarrow> nat result reads" where
  "vp9FrameSizeWithRefs knownWidth = do {
     found \<leftarrow> vp9_found_ref 3;
     if found then
       if knownWidth = 0 then ret (Inl (Errf ''VP9 CENC: frame_size_with_refs reuses a reference frame's size''))
       else do { vp9RenderSize; ret (Inr knownWidth) }
     else do { w \<leftarrow> b_bits 16; b_bits 16; vp9RenderSize; ret (Inr (unat w + 1)) } }"

definition vp9ReadInterpolationFilter :: "unit reads" where
  "vp9ReadInterpolationFilter = do { sw \<leftarrow> b_flag; when_r (\<not> sw) (b_bits 2) }"

definition vp9SignedValue :: "nat \<Rightarrow> unit reads" where
  "vp9SignedValue n = do { b_bits n; b_bits 1; ret () }"

definition vp9_delta :: "unit reads" where
  "vp9_delta = do { u \<leftarrow> b_flag; when_r u (vp9SignedValue 6) }"

definition vp9LoopFilterParams :: "unit reads" where
  "vp9LoopFilterParams = do {
     b_bits 6;
     b_bits 3;
     enabled \<leftarrow> b_flag;
     when_r enabled (do {
       update \<leftarrow> b_flag;
       when_r update (do { repeat_r 4 vp9_delta; repeat_r 2 vp9_delta }) }) }"

definition vp9ReadDeltaQ :: "unit reads" where
  "vp9ReadDeltaQ = do { c \<leftarrow> b_flag; when_r c (vp9SignedValue 4) }"

definition vp9QuantizationParams :: "unit reads" where
  "vp9QuantizationParams = do { b_bits 8; vp9ReadDeltaQ; vp9ReadDeltaQ; vp9ReadDeltaQ }"

definition vp9ReadProb :: "unit reads" where
  "vp9ReadProb = do { c \<leftarrow> b_flag; when_r c (b_bits 8) }"

text \<open>The features of a segment, by the bits of their value and whether a sign follows.\<close>

definition vp9_feature_table :: "(nat \<times> bool) list" where
  "vp9_feature_table = [(8, True), (6, True), (2, False), (0, False)]"

primrec vp9_features :: "(nat \<times> bool) list \<Rightarrow> unit reads" where
  "vp9_features [] = ret ()"
| "vp9_features (f # fs) = do {
     enabled \<leftarrow> b_flag;
     when_r enabled (do { when_r (fst f > 0) (b_bits (fst f)); when_r (snd f) (b_bits 1) });
     vp9_features fs }"

definition vp9SegmentationParams :: "unit reads" where
  "vp9SegmentationParams = do {
     enabled \<leftarrow> b_flag;
     if \<not> enabled then ret ()
     else do {
       updateMap \<leftarrow> b_flag;
       when_r updateMap (do {
         repeat_r 7 vp9ReadProb;
         temporalUpdate \<leftarrow> b_bits 1;
         repeat_r 3 (when_r (temporalUpdate = 1) vp9ReadProb) });
       updateData \<leftarrow> b_flag;
       when_r updateData (do { b_bits 1; repeat_r 8 (vp9_features vp9_feature_table) }) } }"

text \<open>The loops of \<^verbatim>\<open>vp9TileInfo\<close> over the number of superblock columns.\<close>

function min_log2 :: "nat \<Rightarrow> nat \<Rightarrow> nat \<Rightarrow> nat" where
  "min_log2 blk target k = (if blk > 0 \<and> push_bit k blk < target then min_log2 blk target (k + 1) else k)"
  by pat_completeness auto
termination
proof (relation "measure (\<lambda>(blk, target, k). target - k)", simp, clarsimp)
  fix blk target k :: nat
  assume a: "0 < blk" "push_bit k blk < target"
  have "1 * 2 ^ k \<le> blk * 2 ^ k" by (rule mult_le_mono1) (use a(1) in simp)
  moreover have "k < 2 ^ k" by (rule less_exp)
  ultimately have "k < target" using a(2) unfolding push_bit_eq_mult mult_1 by linarith
  then show "target - Suc k < target - k" by simp
qed

function vp9_max_log2 :: "nat \<Rightarrow> nat \<Rightarrow> nat" where
  "vp9_max_log2 cols k = (if drop_bit k cols \<ge> 4 then vp9_max_log2 cols (k + 1) else k)"
  by pat_completeness auto
termination
proof (relation "measure (\<lambda>(cols, k). cols - k)", simp, clarsimp)
  fix cols k :: nat
  assume "4 \<le> drop_bit k cols"
  then have "4 * 2 ^ k \<le> cols" by (simp add: drop_bit_eq_div less_eq_div_iff_mult_less_eq)
  moreover have "k < 2 ^ k" by (rule less_exp)
  ultimately show "cols - Suc k < cols - k" by linarith
qed

declare min_log2.simps [simp del] vp9_max_log2.simps [simp del]

text \<open>As many increments as are read, at most \<open>n\<close>.\<close>

primrec increments :: "nat \<Rightarrow> nat reads" where
  "increments 0 = ret 0"
| "increments (Suc n) = do { b \<leftarrow> b_flag; if b then do { k \<leftarrow> increments n; ret (k + 1) } else ret 0 }"

definition vp9_tile_room :: "nat \<Rightarrow> nat" where
  "vp9_tile_room frameWidth =
     (let cols = drop_bit 3 (drop_bit 3 (frameWidth + 7) + 7) in vp9_max_log2 cols 1 - 1 - min_log2 64 cols 0)"

definition vp9TileInfo :: "nat \<Rightarrow> unit result reads" where
  "vp9TileInfo frameWidth =
     (if frameWidth = 0 then ret (Inl (Errf ''VP9 CENC: tile_info needs a known frame width''))
      else do {
        increments (vp9_tile_room frameWidth);
        rows \<leftarrow> b_flag;
        when_r rows (b_bits 1);
        ret (Inr ()) })"

definition vp9_sync :: u32 where "vp9_sync = 0x498342"

definition vp9_key_frame :: "u32 \<Rightarrow> nat result reads" where
  "vp9_key_frame profile = do {
     code \<leftarrow> b_bits 24;
     if code \<noteq> vp9_sync then ret (Inl (Errf ''VP9 CENC: bad frame sync code''))
     else do {
       vp9ColorConfig profile;
       w \<leftarrow> b_bits 16;
       b_bits 16;
       vp9RenderSize;
       ret (Inr (unat w + 1)) } }"

definition vp9_intra_only :: "u32 \<Rightarrow> nat result reads" where
  "vp9_intra_only profile = do {
     code \<leftarrow> b_bits 24;
     if code \<noteq> vp9_sync then ret (Inl (Errf ''VP9 CENC: bad frame sync code''))
     else do {
       when_r (profile > 0) (vp9ColorConfig profile);
       b_bits 8;
       w \<leftarrow> b_bits 16;
       b_bits 16;
       vp9RenderSize;
       ret (Inr (unat w + 1)) } }"

definition vp9_inter_frame :: "nat \<Rightarrow> nat result reads" where
  "vp9_inter_frame knownWidth = do {
     b_bits 8;
     repeat_r 3 (do { b_bits 3; b_bits 1 });
     w \<leftarrow> vp9FrameSizeWithRefs knownWidth;
     case w of Inl e \<Rightarrow> ret (Inl e)
     | Inr w \<Rightarrow> do { b_bits 1; vp9ReadInterpolationFilter; ret (Inr w) } }"

definition vp9_other_frame :: "u32 \<Rightarrow> bool \<Rightarrow> bool \<Rightarrow> nat \<Rightarrow> nat result reads" where
  "vp9_other_frame profile showFrame errorResilient knownWidth = do {
     intraOnly \<leftarrow> (if showFrame then ret False else b_flag);
     when_r (\<not> errorResilient) (b_bits 2);
     if intraOnly then vp9_intra_only profile else vp9_inter_frame knownWidth }"

definition vp9_tail :: "bool \<Rightarrow> nat \<Rightarrow> nat option result reads" where
  "vp9_tail errorResilient w = do {
     when_r (\<not> errorResilient) (do { b_bits 1; b_bits 1 });
     b_bits 2;
     vp9LoopFilterParams;
     vp9QuantizationParams;
     vp9SegmentationParams;
     t \<leftarrow> vp9TileInfo w;
     case t of Inl e \<Rightarrow> ret (Inl e)
     | Inr _ \<Rightarrow> do {
         b_bits 16;
         e \<leftarrow> b_failed;
         ret (if e then Inl (Errf ''VP9 CENC: truncated uncompressed header'') else Inr (Some w)) } }"

text \<open>The width the frame establishes, none when it shows an existing frame.\<close>

definition vp9_header :: "nat \<Rightarrow> nat option result reads" where
  "vp9_header knownWidth = do {
     marker \<leftarrow> b_bits 2;
     if marker \<noteq> 2 then ret (Inl (Errf ''VP9 CENC: bad frame_marker''))
     else do {
       lo \<leftarrow> b_bits 1;
       hi \<leftarrow> b_bits 1;
       let profile = lo OR push_bit 1 hi;
       when_r (profile = 3) (b_bits 1);
       existing \<leftarrow> b_flag;
       if existing then do {
         e \<leftarrow> b_failed;
         ret (if e then Inl (Errf ''VP9 CENC: truncated frame header'') else Inr None) }
       else do {
         frameType \<leftarrow> b_bits 1;
         showFrame \<leftarrow> b_flag;
         errorResilient \<leftarrow> b_flag;
         w \<leftarrow> (if frameType = 0 then vp9_key_frame profile else vp9_other_frame profile showFrame errorResilient knownWidth);
         case w of Inl e \<Rightarrow> ret (Inl e) | Inr w \<Rightarrow> vp9_tail errorResilient w } } }"

section \<open>Frames and superframes\<close>

definition vp9ClampSubsample :: "nat \<Rightarrow> nat \<Rightarrow> cencSubsample" where
  "vp9ClampSubsample clear n =
     (let clear = min (min clear n) 0xFFFF;
          rem = (n - clear) mod 16;
          clear = (if clear + rem \<le> 0xFFFF then clear + rem else clear)
      in \<lparr>sub_clear = word_of_nat clear, sub_protected = word_of_nat (n - clear)\<rparr>)"

definition vp9FrameSubsample :: "bytes \<Rightarrow> nat \<Rightarrow> (cencSubsample \<times> nat) result" where
  "vp9FrameSubsample frame knownWidth =
     (if frame = [] then Inl (Errf ''VP9 CENC: empty frame in sample'')
      else let (h, r) = run_state (vp9_header knownWidth) (newBitReader frame) in
        bind_r h (\<lambda>w. case w of
            None \<Rightarrow> Inr (vp9ClampSubsample (length frame) (length frame), 0)
          | Some w \<Rightarrow> Inr (vp9ClampSubsample ((bt_pos r + 7) div 8) (length frame), w)))"

text \<open>The frames of a superframe, as ranges of the sample, and where the last of them ends.\<close>

fun vp9_frame_ranges :: "nat \<Rightarrow> nat \<Rightarrow> bytes \<Rightarrow> nat \<Rightarrow> nat \<Rightarrow> ((nat \<times> nat) list \<times> nat) result" where
  "vp9_frame_ranges 0 width body off framesEnd = Inr ([], off)"
| "vp9_frame_ranges (Suc n) width body off framesEnd =
     (let sz = le_nat (take width body) in
      if off + sz > framesEnd then Inl (Errf ''VP9 CENC: superframe index frame size exceeds sample bounds'')
      else bind_r (vp9_frame_ranges n width (drop width body) (off + sz) framesEnd) (\<lambda>(frames, e).
        Inr ((off, off + sz) # frames, e)))"

definition vp9SplitSuperframe :: "bytes \<Rightarrow> ((nat \<times> nat) list \<times> nat) result" where
  "vp9SplitSuperframe sample =
     (if sample = [] then Inl Panic
      else let marker = last sample; n = length sample in
        if marker AND 0xE0 \<noteq> 0xC0 then Inr ([(0, n)], 0)
        else let bytesPerSize = unat (drop_bit 3 marker AND 3) + 1;
                 frameCount = unat (marker AND 7) + 1;
                 indexLen = 2 + frameCount * bytesPerSize
          in if indexLen > n \<or> sample ! (n - indexLen) \<noteq> marker then Inr ([(0, n)], 0)
             else bind_r (vp9_frame_ranges frameCount bytesPerSize (slice (n - indexLen + 1) (n - 1) sample) 0 (n - indexLen)) (\<lambda>(frames, off).
               if off \<noteq> n - indexLen then Inl (Errf ''VP9 CENC: superframe index frame sizes do not cover the sample'')
               else Inr (frames, indexLen)))"

section \<open>The splitter\<close>

text \<open>Its state is \<^verbatim>\<open>lastWidth\<close>.\<close>

fun vp9_frames :: "bytes \<Rightarrow> (nat \<times> nat) list \<Rightarrow> nat \<Rightarrow> (cencSubsample list \<times> nat) result" where
  "vp9_frames sample [] lastWidth = Inr ([], lastWidth)"
| "vp9_frames sample ((a, b) # frs) lastWidth =
     bind_r (vp9FrameSubsample (slice a b sample) lastWidth) (\<lambda>(sub, w).
     bind_r (vp9_frames sample frs (if w > 0 then w else lastWidth)) (\<lambda>(subs, lastWidth). Inr (sub # subs, lastWidth)))"

definition vp9_split :: "bytes \<Rightarrow> nat \<Rightarrow> (cencSubsample list \<times> nat) result" where
  "vp9_split sample lastWidth =
     (if sample = [] then Inl (Errf ''VP9 CENC: empty sample'')
      else bind_r (vp9SplitSuperframe sample) (\<lambda>(frames, indexLen).
        bind_r (vp9_frames sample frames lastWidth) (\<lambda>(subs, lastWidth).
          Inr (if indexLen > 0 then subs @ [vp9ClampSubsample indexLen indexLen] else subs, lastWidth))))"

text \<open>\<^verbatim>\<open>splitVP9Subsamples\<close>, a sample on its own.\<close>

definition splitVP9Subsamples :: "bytes \<Rightarrow> cencSubsample list result" where
  "splitVP9Subsamples sample = bind_r (vp9_split sample 0) (\<lambda>(subs, _). Inr subs)"

section \<open>The splitter's laws\<close>

definition vp9_clear :: "nat \<Rightarrow> nat \<Rightarrow> nat" where
  "vp9_clear c n = (let c = min (min c n) 0xFFFF in if c + (n - c) mod 16 \<le> 0xFFFF then c + (n - c) mod 16 else c)"

lemma vp9_clear_le: "vp9_clear c n \<le> n" "vp9_clear c n \<le> 0xFFFF"
proof -
  define m where "m = min (min c n) 0xFFFF"
  have m: "m \<le> n" "m \<le> 0xFFFF" "(n - m) mod 16 \<le> n - m" by (simp_all add: m_def)
  then have "m + (n - m) mod 16 \<le> n" by linarith
  then show "vp9_clear c n \<le> n" "vp9_clear c n \<le> 0xFFFF"
    unfolding vp9_clear_def Let_def m_def [symmetric] using m(1,2) by simp_all
qed

lemma clamp_fields: "n < 2 ^ 32 \<Longrightarrow>
   unat (sub_clear (vp9ClampSubsample c n)) = vp9_clear c n \<and> unat (sub_protected (vp9ClampSubsample c n)) = n - vp9_clear c n"
proof -
  assume n: "n < 2 ^ 32"
  have "sub_clear (vp9ClampSubsample c n) = word_of_nat (vp9_clear c n)"
    "sub_protected (vp9ClampSubsample c n) = word_of_nat (n - vp9_clear c n)"
    by (simp_all add: vp9ClampSubsample_def vp9_clear_def Let_def)
  then show ?thesis using vp9_clear_le [of c n] n by (simp add: unat_of_nat take_bit_nat_eq_self del: of_nat_diff)
qed

lemma clamp_mask: "n < 2 ^ 32 \<Longrightarrow>
   sub_mask (vp9ClampSubsample c n) = replicate (vp9_clear c n) True @ replicate (n - vp9_clear c n) False"
  using clamp_fields by (simp add: sub_mask_def)

lemma clamp_length: "n < 2 ^ 32 \<Longrightarrow> length (sub_mask (vp9ClampSubsample c n)) = n"
  using clamp_mask [of n c] vp9_clear_le(1) [of c n] by simp

lemma vp9_frame_clamped:
  assumes "vp9FrameSubsample frame w = Inr (sub, w')"
  shows "\<exists>c. sub = vp9ClampSubsample c (length frame)"
  using assms by (cases "run_state (vp9_header w) (newBitReader frame)")
    (auto simp: vp9FrameSubsample_def bind_r_Inr split: if_splits option.splits)

text \<open>Ranges that follow each other from \<open>a\<close> to \<open>b\<close>.\<close>

fun tiles :: "nat \<Rightarrow> (nat \<times> nat) list \<Rightarrow> nat \<Rightarrow> bool" where
  "tiles a [] b \<longleftrightarrow> a = b"
| "tiles a ((x, y) # fs) b \<longleftrightarrow> x = a \<and> x \<le> y \<and> tiles y fs b"

lemma tiles_le: "tiles a fs b \<Longrightarrow> a \<le> b"
  by (induction a fs b rule: tiles.induct) auto

lemma frame_ranges_tile: "vp9_frame_ranges k width body off e = Inr (fs, b) \<Longrightarrow> tiles off fs b"
  by (induction k width body off e arbitrary: fs b rule: vp9_frame_ranges.induct) (auto simp: Let_def bind_r_Inr split: if_splits)

lemma superframe_tiles:
  assumes "vp9SplitSuperframe sample = Inr (fs, k)"
  shows "k \<le> length sample \<and> tiles 0 fs (length sample - k)"
  using assms by (auto simp: vp9SplitSuperframe_def Let_def bind_r_Inr split: if_splits dest: frame_ranges_tile)

lemma frames_cover:
  "vp9_frames sample fs w = Inr (subs, w') \<Longrightarrow> tiles a fs b \<Longrightarrow> b \<le> length sample \<Longrightarrow> length sample < 2 ^ 32 \<Longrightarrow>
   length (subs_mask subs) = b - a"
proof (induction sample fs w arbitrary: a subs w' rule: vp9_frames.induct)
  case (2 sample x y fs w)
  obtain sub v subs' where step: "vp9FrameSubsample (slice x y sample) w = Inr (sub, v)"
    "vp9_frames sample fs (if v > 0 then v else w) = Inr (subs', w')" "subs = sub # subs'"
    using "2.prems"(1) by (auto simp: bind_r_Inr)
  have t: "x = a" "x \<le> y" "tiles y fs b" using "2.prems"(2) by simp_all
  then have y: "y \<le> b" using tiles_le by blast
  obtain c where "sub = vp9ClampSubsample c (length (slice x y sample))" using vp9_frame_clamped [OF step(1)] by blast
  moreover have "length (slice x y sample) = y - x" using y "2.prems"(3) by (simp add: length_slice)
  moreover have "y - x < 2 ^ 32" using y "2.prems"(3,4) by linarith
  ultimately have "length (sub_mask sub) = y - x" using clamp_length [of "y - x" c] by simp
  moreover have "length (subs_mask subs') = b - y" by (rule "2.IH" [OF step(1) refl step(2) t(3) "2.prems"(3,4)])
  ultimately show ?case using t(1,2) y by (simp add: step(3) subs_mask_def)
qed (simp add: subs_mask_def)

lemma vp9_split_covers:
  assumes "vp9_split sample w = Inr (subs, w')" "length sample < 2 ^ 32"
  shows "length (subs_mask subs) = length sample"
proof -
  obtain fs k subs' where sf: "vp9SplitSuperframe sample = Inr (fs, k)" and fr: "vp9_frames sample fs w = Inr (subs', w')"
    and subs: "subs = (if k > 0 then subs' @ [vp9ClampSubsample k k] else subs')"
    using assms(1) by (auto simp: vp9_split_def bind_r_Inr split: if_splits)
  note t = superframe_tiles [OF sf]
  have "length (subs_mask subs') = length sample - k"
    using frames_cover [OF fr conjunct2 [OF t]] assms(2) by simp
  moreover have "length (sub_mask (vp9ClampSubsample k k)) = k" using clamp_length [of k k] t assms(2) by simp
  ultimately show ?thesis using t by (simp add: subs subs_mask_def)
qed

lemma answers_case_result:
  "(\<And>e. v = Inl e \<Longrightarrow> answers (f e) P) \<Longrightarrow> (\<And>x. v = Inr x \<Longrightarrow> answers (g x) P) \<Longrightarrow> answers (case v of Inl e \<Rightarrow> f e | Inr x \<Rightarrow> g x) P"
  by (cases v) simp_all

lemma answers_then_quiet:
  "answers m quiet \<Longrightarrow> (\<And>x. answers (f x) quiet) \<Longrightarrow> answers (m \<bind> (\<lambda>v. case v of Inl e \<Rightarrow> ret (Inl e) | Inr x \<Rightarrow> f x)) quiet"
  by (rule answers_quiet_bind)

lemma vp9_header_quiet: "answers (vp9_header w) quiet"
proof -
  have tile: "answers (vp9TileInfo n) quiet" for n unfolding vp9TileInfo_def by (intro ans) simp_all
  have tail: "answers (vp9_tail e n) quiet" for e n
    unfolding vp9_tail_def by (intro ans answers_quiet_bind tile) simp_all
  have "answers (vp9FrameSizeWithRefs n) quiet" for n unfolding vp9FrameSizeWithRefs_def by (intro ans) simp_all
  then have inter: "answers (vp9_inter_frame n) quiet" for n
    unfolding vp9_inter_frame_def by (intro ans answers_quiet_bind) simp_all
  have key: "answers (vp9_key_frame p) quiet" "answers (vp9_intra_only p) quiet" for p
    unfolding vp9_key_frame_def vp9_intra_only_def by (intro ans; simp)+
  have "answers (vp9_other_frame p s e n) quiet" for p s e n
    unfolding vp9_other_frame_def by (intro ans key inter)
  then show ?thesis unfolding vp9_header_def by (intro ans answers_quiet_bind key tail) simp_all
qed

lemma vp9_frame_quiet: "vp9FrameSubsample frame w \<noteq> Inl Panic"
proof -
  have "fst (run_state (vp9_header w) (newBitReader frame)) \<noteq> Inl Panic"
    using vp9_header_quiet by (simp add: answers_def quiet_def)
  then show ?thesis by (auto simp: vp9FrameSubsample_def bind_r_def split: sum.splits option.splits prod.splits)
qed

lemma bind_r_quiet: "r \<noteq> Inl Panic \<Longrightarrow> (\<And>x. r = Inr x \<Longrightarrow> f x \<noteq> Inl Panic) \<Longrightarrow> bind_r r f \<noteq> Inl Panic"
  by (cases r) simp_all

lemma vp9_split_quiet: "vp9_split sample w \<noteq> Inl Panic"
proof -
  have frames: "vp9_frames sample fs w \<noteq> Inl Panic" for fs w
  proof (induction fs arbitrary: w)
    case (Cons x fs)
    have rest: "(case p of (sub, v) \<Rightarrow> bind_r (vp9_frames sample fs (if v > 0 then v else w)) (\<lambda>(subs, w). Inr (sub # subs, w))) \<noteq> Inl Panic" for p
      unfolding case_prod_beta by (rule bind_r_quiet [OF Cons]) simp
    show ?case by (cases x) (simp only: vp9_frames.simps, rule bind_r_quiet [OF vp9_frame_quiet rest])
  qed simp
  have ranges: "vp9_frame_ranges k width body off e \<noteq> Inl Panic" for k width body off e
    by (induction k width body off e rule: vp9_frame_ranges.induct) (auto simp: Let_def bind_r_def split: sum.splits)
  have "sample \<noteq> [] \<Longrightarrow> vp9SplitSuperframe sample \<noteq> Inl Panic"
    using ranges by (auto simp: vp9SplitSuperframe_def Let_def bind_r_def split: sum.splits)
  then show ?thesis using frames by (auto simp: vp9_split_def bind_r_def split: sum.splits)
qed

end
