(* ===== verification/Vp9Header.thy ===== *)
theory Vp9Header
  imports Vp9
begin

text \<open>
  The VP9 uncompressed header as its syntax writes it (VP9 bitstream specification, 6.2), its values and
  the bits they are coded in, and the superframe index of Annex B.  The parser of Vp9 reads exactly these
  bits, so that the splitter keeps clear the bytes that hold a header and protects what follows.
\<close>

section \<open>The values\<close>

text \<open>A colour configuration: the depth bit, the colour space and the bits behind it.\<close>

type_synonym vp9_colour = "bool \<times> bool list \<times> bool list"

datatype vp9_size = Explicit "bool list" "bool list" | FromRef nat

datatype vp9_kind =
    KeyFrame vp9_colour "bool list" "bool list" "bool list option"
  | IntraOnly "bool list" vp9_colour "bool list" "bool list" "bool list" "bool list option"
  | InterFrame "bool list" "bool list" "bool list list" vp9_size "bool list option" bool "bool list option"

record vp9_syntax =
  vh_lo :: bool
  vh_hi :: bool
  vh_reserved :: bool
  vh_existing :: bool
  vh_show :: bool
  vh_resilient :: bool
  vh_kind :: vp9_kind
  vh_context :: "bool list"
  vh_context_idx :: "bool list"
  vh_filter :: "bool list"
  vh_deltas :: "bool list option list option option"
  vh_quant :: "bool list"
  vh_dqs :: "bool list option list"
  vh_segments :: "((bool list option list \<times> bool \<times> bool list option list) option \<times> (bool \<times> bool list option list list) option) option"
  vh_tile_cols :: nat
  vh_tile_rows :: "bool option"
  vh_size :: "bool list"

section \<open>The bits\<close>

definition opt_bits :: "bool list option \<Rightarrow> bool list" where
  "opt_bits x = (case x of None \<Rightarrow> [False] | Some bs \<Rightarrow> True # bs)"

definition opt_len :: "nat \<Rightarrow> bool list option \<Rightarrow> bool" where
  "opt_len n x \<longleftrightarrow> (case x of None \<Rightarrow> True | Some bs \<Rightarrow> length bs = n)"

definition profile_of :: "vp9_syntax \<Rightarrow> u32" where
  "profile_of h = of_bool (vh_lo h) OR push_bit 1 (of_bool (vh_hi h))"

definition odd_profile :: "u32 \<Rightarrow> bool" where
  "odd_profile p \<longleftrightarrow> p = 1 \<or> p = 3"

definition colour_bits :: "u32 \<Rightarrow> vp9_colour \<Rightarrow> bool list" where
  "colour_bits p c = (case c of (deep, space, extra) \<Rightarrow> (if p \<ge> 2 then [deep] else []) @ space @ extra)"

definition colour_ok :: "u32 \<Rightarrow> vp9_colour \<Rightarrow> bool" where
  "colour_ok p c = (case c of (deep, space, extra) \<Rightarrow> length space = 3 \<and>
     length extra = (if word_of_bits space \<noteq> 7 then (if odd_profile p then 4 else 1) else if odd_profile p then 1 else 0))"

text \<open>The references before one is found whose size is taken, or a size of its own.\<close>

definition size_bits :: "vp9_size \<Rightarrow> bool list" where
  "size_bits s = (case s of Explicit w h \<Rightarrow> [False, False, False] @ w @ h | FromRef i \<Rightarrow> replicate i False @ [True])"

definition size_ok :: "nat \<Rightarrow> vp9_size \<Rightarrow> bool" where
  "size_ok knownWidth s = (case s of Explicit w h \<Rightarrow> length w = 16 \<and> length h = 16 | FromRef i \<Rightarrow> i < 3 \<and> 0 < knownWidth)"

definition coded_width :: "bool list \<Rightarrow> nat" where
  "coded_width bs = unat (word_of_bits bs) + 1"

definition size_width :: "nat \<Rightarrow> vp9_size \<Rightarrow> nat" where
  "size_width knownWidth s = (case s of Explicit w h \<Rightarrow> coded_width w | FromRef i \<Rightarrow> knownWidth)"

definition kind_width :: "nat \<Rightarrow> vp9_kind \<Rightarrow> nat" where
  "kind_width knownWidth k = (case k of
     KeyFrame c w h r \<Rightarrow> coded_width w
   | IntraOnly x c f w h r \<Rightarrow> coded_width w
   | InterFrame x f rs s r hp i \<Rightarrow> size_width knownWidth s)"

definition sync_bits :: "bool list" where
  "sync_bits = bits_of 24 vp9_sync"

text \<open>An intra-only frame of profile 0 has no colour configuration.\<close>

definition kind_bits :: "u32 \<Rightarrow> bool \<Rightarrow> bool \<Rightarrow> vp9_kind \<Rightarrow> bool list" where
  "kind_bits p showFrame resilient k = (case k of
     KeyFrame c w h r \<Rightarrow> sync_bits @ colour_bits p c @ w @ h @ opt_bits r
   | IntraOnly x c f w h r \<Rightarrow> (if showFrame then [] else [True]) @ (if resilient then [] else x) @ sync_bits @
       (if p > 0 then colour_bits p c else []) @ f @ w @ h @ opt_bits r
   | InterFrame x f rs s r hp i \<Rightarrow> (if showFrame then [] else [False]) @ (if resilient then [] else x) @
       f @ concat rs @ size_bits s @ opt_bits r @ [hp] @ (case i of None \<Rightarrow> [True] | Some bs \<Rightarrow> False # bs))"

definition kind_ok :: "nat \<Rightarrow> u32 \<Rightarrow> bool \<Rightarrow> vp9_kind \<Rightarrow> bool" where
  "kind_ok knownWidth p showFrame k = (case k of
     KeyFrame c w h r \<Rightarrow> colour_ok p c \<and> length w = 16 \<and> length h = 16 \<and> opt_len 32 r
   | IntraOnly x c f w h r \<Rightarrow> \<not> showFrame \<and> length x = 2 \<and> colour_ok p c \<and> length f = 8 \<and> length w = 16 \<and> length h = 16 \<and> opt_len 32 r
   | InterFrame x f rs s r hp i \<Rightarrow> length x = 2 \<and> length f = 8 \<and> length rs = 3 \<and> list_all (\<lambda>bs. length bs = 4) rs \<and>
       size_ok knownWidth s \<and> opt_len 32 r \<and> opt_len 2 i)"

definition deltas_bits :: "bool list option list option option \<Rightarrow> bool list" where
  "deltas_bits d = (case d of None \<Rightarrow> [False] | Some None \<Rightarrow> [True, False] | Some (Some ds) \<Rightarrow> [True, True] @ concat (map opt_bits ds))"

definition deltas_ok :: "bool list option list option option \<Rightarrow> bool" where
  "deltas_ok d = (case d of Some (Some ds) \<Rightarrow> length ds = 6 \<and> list_all (opt_len 7) ds | _ \<Rightarrow> True)"

fun features_ok :: "(nat \<times> bool) list \<Rightarrow> bool list option list \<Rightarrow> bool" where
  "features_ok [] [] \<longleftrightarrow> True"
| "features_ok ((n, sg) # fs) (x # xs) \<longleftrightarrow> opt_len (n + of_bool sg) x \<and> features_ok fs xs"
| "features_ok _ _ \<longleftrightarrow> False"

definition segments_bits ::
  "((bool list option list \<times> bool \<times> bool list option list) option \<times> (bool \<times> bool list option list list) option) option \<Rightarrow> bool list" where
  "segments_bits s = (case s of None \<Rightarrow> [False]
   | Some (m, d) \<Rightarrow> True #
       (case m of None \<Rightarrow> [False] | Some (tree, temporal, pred) \<Rightarrow>
          True # concat (map opt_bits tree) @ [temporal] @ (if temporal then concat (map opt_bits pred) else [])) @
       (case d of None \<Rightarrow> [False] | Some (absolute, fss) \<Rightarrow> True # absolute # concat (map (\<lambda>fs. concat (map opt_bits fs)) fss)))"

definition segments_ok ::
  "((bool list option list \<times> bool \<times> bool list option list) option \<times> (bool \<times> bool list option list list) option) option \<Rightarrow> bool" where
  "segments_ok s = (case s of None \<Rightarrow> True
   | Some (m, d) \<Rightarrow>
       (case m of None \<Rightarrow> True | Some (tree, temporal, pred) \<Rightarrow>
          length tree = 7 \<and> list_all (opt_len 8) tree \<and> length pred = 3 \<and> list_all (opt_len 8) pred) \<and>
       (case d of None \<Rightarrow> True | Some (absolute, fss) \<Rightarrow> length fss = 8 \<and> list_all (features_ok vp9_feature_table) fss))"

definition tile_bits :: "nat \<Rightarrow> nat \<Rightarrow> bool option \<Rightarrow> bool list" where
  "tile_bits w k rows = replicate k True @ (if k < vp9_tile_room w then [False] else []) @ (case rows of None \<Rightarrow> [False] | Some b \<Rightarrow> [True, b])"

definition vp9_tail_bits :: "nat \<Rightarrow> vp9_syntax \<Rightarrow> bool list" where
  "vp9_tail_bits w h = (if vh_resilient h then [] else vh_context h) @ vh_context_idx h @ vh_filter h @ deltas_bits (vh_deltas h) @
     vh_quant h @ concat (map opt_bits (vh_dqs h)) @ segments_bits (vh_segments h) @ tile_bits w (vh_tile_cols h) (vh_tile_rows h) @ vh_size h"

definition is_key :: "vp9_kind \<Rightarrow> bool" where
  "is_key k = (case k of KeyFrame _ _ _ _ \<Rightarrow> True | _ \<Rightarrow> False)"

definition vp9_bits :: "nat \<Rightarrow> vp9_syntax \<Rightarrow> bool list" where
  "vp9_bits knownWidth h = [True, False, vh_lo h, vh_hi h] @ (if profile_of h = 3 then [vh_reserved h] else []) @ [vh_existing h] @
     (if vh_existing h then []
      else [\<not> is_key (vh_kind h), vh_show h, vh_resilient h] @
        kind_bits (profile_of h) (vh_show h) (vh_resilient h) (vh_kind h) @ vp9_tail_bits (kind_width knownWidth (vh_kind h)) h)"

definition vp9_ok :: "nat \<Rightarrow> vp9_syntax \<Rightarrow> bool" where
  "vp9_ok knownWidth h \<longleftrightarrow> vh_existing h \<or>
     kind_ok knownWidth (profile_of h) (vh_show h) (vh_kind h) \<and> length (vh_context h) = 2 \<and> length (vh_context_idx h) = 2 \<and>
     length (vh_filter h) = 9 \<and> deltas_ok (vh_deltas h) \<and> length (vh_quant h) = 8 \<and> length (vh_dqs h) = 3 \<and>
     list_all (opt_len 5) (vh_dqs h) \<and> segments_ok (vh_segments h) \<and>
     vh_tile_cols h \<le> vp9_tile_room (kind_width knownWidth (vh_kind h)) \<and> length (vh_size h) = 16"

section \<open>The parser reads the bits\<close>

lemma gets_two: "length bs = m + n \<Longrightarrow> gets d (f (word_of_bits (drop m bs))) cs v \<Longrightarrow> gets d (b_bits m \<bind> (\<lambda>_. b_bits n \<bind> f)) (bs @ cs) v"
proof -
  assume len: "length bs = m + n" and f: "gets d (f (word_of_bits (drop m bs))) cs v"
  have "gets d (b_bits m \<bind> (\<lambda>_. b_bits n \<bind> f)) (take m bs @ (drop m bs @ cs)) v"
    by (rule gets_then, rule gets_bits_n, use len in simp, rule gets_then, rule gets_bits_n, use len in simp, rule f)
  then show ?thesis by (simp only: append_assoc [symmetric] append_take_drop_id)
qed

lemma gets_two_last: "length bs = m + n \<Longrightarrow> gets d (b_bits m \<bind> (\<lambda>_. b_bits n)) bs (word_of_bits (drop m bs))"
proof -
  assume len: "length bs = m + n"
  have "gets d (b_bits m \<bind> (\<lambda>_. b_bits n)) (take m bs @ drop m bs) (word_of_bits (drop m bs))"
    by (rule gets_then, rule gets_bits_n, use len in simp, rule gets_bits_n) (use len in simp)
  then show ?thesis by simp
qed

text \<open>A flag and what follows when it is set.\<close>

lemma gets_opt:
  assumes "\<And>bs. x = Some bs \<Longrightarrow> gets d m bs (v' bs)"
  shows "gets d (b_flag \<bind> (\<lambda>u. when_r u m)) (opt_bits x) ()"
proof (cases x)
  case None
  have "gets d (when_r False m) [] ()" by (simp add: when_r_def gets_ret)
  then show ?thesis unfolding opt_bits_def None option.case by (rule gets_bind_flag)
next
  case (Some bs)
  have "gets d (when_r True m) bs ()" using gets_when [of True d m bs "v' bs"] assms Some by simp
  then show ?thesis unfolding opt_bits_def Some option.case by (rule gets_bind_flag)
qed

lemma gets_render: "opt_len 32 r \<Longrightarrow> gets d vp9RenderSize (opt_bits r) ()"
proof -
  assume "opt_len 32 r"
  then have "r = Some bs \<Longrightarrow> gets d (b_bits 16 \<bind> (\<lambda>_. b_bits 16)) bs (word_of_bits (drop 16 bs))" for bs
    using gets_two_last [of bs 16 16] by (simp add: opt_len_def)
  then show ?thesis unfolding vp9RenderSize_def by (rule gets_opt)
qed

lemma gets_signed: "length bs = n + 1 \<Longrightarrow> gets d (vp9SignedValue n) bs ()"
  unfolding vp9SignedValue_def using gets_two [of bs n 1 d "\<lambda>_. ret ()" "[]" "()"] by (simp add: gets_ret)

lemma gets_delta: "opt_len 7 x \<Longrightarrow> gets d vp9_delta (opt_bits x) ()"
  unfolding vp9_delta_def by (rule gets_opt, rule gets_signed) (simp add: opt_len_def)

lemma gets_deltaq: "opt_len 5 x \<Longrightarrow> gets d vp9ReadDeltaQ (opt_bits x) ()"
  unfolding vp9ReadDeltaQ_def by (rule gets_opt, rule gets_signed) (simp add: opt_len_def)

lemma gets_prob: "opt_len 8 x \<Longrightarrow> gets d vp9ReadProb (opt_bits x) ()"
proof -
  assume "opt_len 8 x"
  then have "x = Some bs \<Longrightarrow> gets d (b_bits 8) bs (word_of_bits bs)" for bs
    using gets_bits_n [of bs 8] by (simp add: opt_len_def)
  then show ?thesis unfolding vp9ReadProb_def by (rule gets_opt)
qed

lemma gets_each:
  "(\<And>x. P x \<Longrightarrow> gets d m (f x) ()) \<Longrightarrow> list_all P xs \<Longrightarrow> length xs = n \<Longrightarrow> gets d (repeat_r n m) (concat (map f xs)) ()"
  by (rule gets_repeat) (auto simp: list_all_iff)

lemma gets_colour: "colour_ok p c \<Longrightarrow> gets d (vp9ColorConfig p) (colour_bits p c) ()"
proof -
  obtain deep space extra where c: "c = (deep, space, extra)" by (metis prod_cases3)
  assume "colour_ok p c"
  then have len: "length space = 3"
    and extra: "length extra = (if word_of_bits space \<noteq> 7 then (if odd_profile p then 4 else 1) else if odd_profile p then 1 else 0)"
    by (simp_all add: colour_ok_def c)
  have rest: "gets d (if word_of_bits space \<noteq> 7 then b_bits 1 \<bind> (\<lambda>_. when_r (p = 1 \<or> p = 3) (b_bits 2 \<bind> (\<lambda>_. b_bits 1)))
      else when_r (p = 1 \<or> p = 3) (b_bits 1)) extra ()"
  proof (cases "odd_profile p")
    case True
    then have p: "(p = 1 \<or> p = 3) = True" by (simp add: odd_profile_def)
    have w: "gets d m bs v \<Longrightarrow> gets d (when_r True m) bs ()" for m :: "u32 reads" and bs v
      using gets_when [of True d m bs v] by simp
    show ?thesis
    proof (cases "word_of_bits space = 7")
      case True
      then show ?thesis using extra \<open>odd_profile p\<close> w [OF gets_bits_n [of extra 1]] by (simp only: p) simp
    next
      case False
      then have "length extra = 4" using extra True by simp
      then have "gets d (b_bits 1 \<bind> (\<lambda>_. when_r True (b_bits 2 \<bind> (\<lambda>_. b_bits 1)))) (take 1 extra @ drop 1 extra) ()"
        by (intro gets_then [OF gets_bits_n w [OF gets_two_last]]) simp_all
      then show ?thesis using False by (simp only: p append_take_drop_id) simp
    qed
  next
    case False
    then have p: "(p = 1 \<or> p = 3) = False" by (simp add: odd_profile_def)
    have w: "gets d (when_r False m) [] ()" for m :: "u32 reads" by (simp add: when_r_def gets_ret)
    show ?thesis
    proof (cases "word_of_bits space = 7")
      case True
      then show ?thesis using extra False w by (simp only: p) simp
    next
      case sp: False
      then have "length extra = 1" using extra False by simp
      then have "gets d (b_bits 1 \<bind> (\<lambda>_. when_r False (b_bits 2 \<bind> (\<lambda>_. b_bits 1)))) extra ()"
        by (intro gets_last [OF gets_bits_n w])
      then show ?thesis using sp by (simp only: p) simp
    qed
  qed
  show ?thesis
    unfolding vp9ColorConfig_def colour_bits_def c prod.case
    by (rule gets_then [OF gets_when [OF gets_bit]], rule gets_then, rule gets_bits_n [OF len], rule rest)
qed


lemma gets_found: "i < n \<Longrightarrow> gets d (vp9_found_ref n) (replicate i False @ [True]) True"
proof (induction n arbitrary: i)
  case (Suc n)
  show ?case
  proof (cases i)
    case 0
    then show ?thesis by (simp, intro gets_bind_flag) (simp add: gets_ret)
  next
    case (Suc j)
    then have "gets d (vp9_found_ref n) (replicate j False @ [True]) True" using Suc.IH Suc.prems by simp
    then show ?thesis by (simp add: \<open>i = Suc j\<close>, intro gets_bind_flag) simp
  qed
qed simp

lemma gets_none_found: "gets d (vp9_found_ref 3) [False, False, False] False"
proof -
  have "gets d (vp9_found_ref n) (replicate n False) False" for n
  proof (induction n)
    case (Suc n)
    then show ?case by (simp, intro gets_bind_flag) simp
  qed (simp add: gets_ret)
  from this [of 3] show ?thesis by (simp add: numeral_3_eq_3)
qed

lemma gets_size: "size_ok k s \<Longrightarrow> opt_len 32 r \<Longrightarrow>
   gets d (vp9FrameSizeWithRefs k) (size_bits s @ opt_bits r) (Inr (size_width k s))"
proof -
  assume s: "size_ok k s" and r: "opt_len 32 r"
  have render: "gets d (vp9RenderSize \<bind> (\<lambda>_. ret (Inr n))) (opt_bits r) (Inr n)" for n :: nat
    by (rule gets_last [OF gets_render [OF r] gets_ret])
  show ?thesis
  proof (cases s)
    case (Explicit w h)
    then have len: "length w = 16" "length h = 16" using s by (simp_all add: size_ok_def)
    have "gets d (b_bits 16 \<bind> (\<lambda>w. b_bits 16 \<bind> (\<lambda>_. vp9RenderSize \<bind> (\<lambda>_. ret (Inr (unat w + 1))))))
        (w @ h @ opt_bits r) (Inr (coded_width w))"
      unfolding coded_width_def
      by (rule gets_then, rule gets_bits_n [OF len(1)], rule gets_then, rule gets_bits_n [OF len(2)], rule render)
    then have "gets d (vp9FrameSizeWithRefs k) ([False, False, False] @ (w @ h @ opt_bits r)) (Inr (coded_width w))"
      unfolding vp9FrameSizeWithRefs_def by (intro gets_then [OF gets_none_found]) (simp only: if_False)
    then show ?thesis by (simp add: Explicit size_bits_def size_width_def)
  next
    case (FromRef i)
    then have i: "i < 3" "k \<noteq> 0" using s by (simp_all add: size_ok_def)
    have "gets d (vp9FrameSizeWithRefs k) ((replicate i False @ [True]) @ opt_bits r) (Inr k)"
      unfolding vp9FrameSizeWithRefs_def
      by (rule gets_then [OF gets_found [OF i(1)]]) (simp only: if_True if_not_P [OF i(2)] render)
    then show ?thesis by (simp add: FromRef size_bits_def size_width_def)
  qed
qed

lemma gets_unless: "(\<not> b \<Longrightarrow> gets d m bs v) \<Longrightarrow> gets d (when_r (\<not> b) m) (if b then [] else bs) ()"
  using gets_when [of "\<not> b" d m bs v] by (cases b) simp_all

lemma sync_word: "length sync_bits = 24" "word_of_bits sync_bits = vp9_sync"
proof -
  have "take_bit 24 (vp9_sync) = vp9_sync" unfolding vp9_sync_def by code_simp
  then show "word_of_bits sync_bits = vp9_sync" by (simp add: sync_bits_def)
qed (simp add: sync_bits_def)

lemma gets_sync: "gets d m bs v \<Longrightarrow>
   gets d (b_bits 24 \<bind> (\<lambda>code. if code \<noteq> vp9_sync then ret (Inl e) else m)) (sync_bits @ bs) v"
  by (rule gets_then, rule gets_bits_n [OF sync_word(1)]) (simp add: sync_word(2))

lemma gets_frame_size:
  assumes "length w = 16" "length h = 16" "opt_len 32 r"
  shows "gets d (b_bits 16 \<bind> (\<lambda>w. b_bits 16 \<bind> (\<lambda>_. vp9RenderSize \<bind> (\<lambda>_. ret (Inr (unat w + 1))))))
     (w @ h @ opt_bits r) (Inr (coded_width w))"
  unfolding coded_width_def
  by (rule gets_then, rule gets_bits_n [OF assms(1)], rule gets_then, rule gets_bits_n [OF assms(2)],
      rule gets_last [OF gets_render [OF assms(3)] gets_ret])

lemma gets_kind:
  assumes ok: "kind_ok k p showFrame kind"
  shows "gets d (if of_bool (\<not> is_key kind) = (0 :: u32) then vp9_key_frame p else vp9_other_frame p showFrame resilient k)
     (kind_bits p showFrame resilient kind) (Inr (kind_width k kind))"
proof (cases kind)
  case (KeyFrame c w h r)
  then have h: "colour_ok p c" "length w = 16" "length h = 16" "opt_len 32 r" using ok by (simp_all add: kind_ok_def)
  have "gets d (vp9_key_frame p) (sync_bits @ colour_bits p c @ w @ h @ opt_bits r) (Inr (coded_width w))"
    unfolding vp9_key_frame_def by (rule gets_sync, rule gets_then, rule gets_colour [OF h(1)], rule gets_frame_size [OF h(2-4)])
  then show ?thesis by (simp add: KeyFrame is_key_def kind_bits_def kind_width_def)
next
  case (IntraOnly x c f w h r)
  then have h: "\<not> showFrame" "length x = 2" "colour_ok p c" "length f = 8" "length w = 16" "length h = 16" "opt_len 32 r"
    using ok by (simp_all add: kind_ok_def)
  have intra: "gets d (vp9_intra_only p) (sync_bits @ (if p > 0 then colour_bits p c else []) @ f @ w @ h @ opt_bits r) (Inr (coded_width w))"
    unfolding vp9_intra_only_def
    by (rule gets_sync, rule gets_then, rule gets_when [OF gets_colour [OF h(3)]], rule gets_then, rule gets_bits_n [OF h(4)],
        rule gets_frame_size [OF h(5-7)])
  have "gets d (vp9_other_frame p False resilient k)
      (True # (if resilient then [] else x) @ sync_bits @ (if p > 0 then colour_bits p c else []) @ f @ w @ h @ opt_bits r) (Inr (coded_width w))"
    unfolding vp9_other_frame_def if_False
    by (rule gets_bind_flag, rule gets_then, rule gets_unless [OF gets_bits_n [OF h(2)]]) (simp only: if_True intra)
  then show ?thesis using h(1) by (simp add: IntraOnly is_key_def kind_bits_def kind_width_def)
next
  case (InterFrame x f rs s r hp i)
  then have h: "length x = 2" "length f = 8" "length rs = 3" "list_all (\<lambda>bs. length bs = 4) rs" "size_ok k s" "opt_len 32 r" "opt_len 2 i"
    using ok by (simp_all add: kind_ok_def)
  have refs: "gets d (repeat_r 3 (b_bits 3 \<bind> (\<lambda>_. b_bits 1))) (concat rs) ()"
    by (rule gets_repeat [OF _ h(3)]) (use h(4) gets_two_last [of _ 3 1] in \<open>auto simp: list_all_iff\<close>)
  have interp: "gets d vp9ReadInterpolationFilter (case i of None \<Rightarrow> [True] | Some bs \<Rightarrow> False # bs) ()"
  proof (cases i)
    case None
    have "gets d (when_r (\<not> True) (b_bits 2)) [] ()" by (simp add: when_r_def gets_ret)
    then show ?thesis unfolding vp9ReadInterpolationFilter_def None option.case by (rule gets_bind_flag)
  next
    case (Some bs)
    then have "length bs = 2" using h(7) by (simp add: opt_len_def)
    then have "gets d (when_r (\<not> False) (b_bits 2)) bs ()" using gets_unless [of False d "b_bits 2" bs, OF gets_bits_n] by simp
    then show ?thesis unfolding vp9ReadInterpolationFilter_def Some option.case by (rule gets_bind_flag)
  qed
  have inter: "gets d (vp9_inter_frame k) (f @ concat rs @ (size_bits s @ opt_bits r) @ [hp] @ (case i of None \<Rightarrow> [True] | Some bs \<Rightarrow> False # bs))
      (Inr (size_width k s))"
    unfolding vp9_inter_frame_def
    by (rule gets_then, rule gets_bits_n [OF h(2)], rule gets_then, rule refs, rule gets_then, rule gets_size [OF h(5,6)], unfold sum.case,
        rule gets_then, rule gets_bit, rule gets_last [OF interp gets_ret])
  have rest: "gets d (when_r (\<not> resilient) (b_bits 2) \<bind> (\<lambda>_. if False then vp9_intra_only p else vp9_inter_frame k))
      ((if resilient then [] else x) @ f @ concat rs @ (size_bits s @ opt_bits r) @ [hp] @ (case i of None \<Rightarrow> [True] | Some bs \<Rightarrow> False # bs))
      (Inr (size_width k s))"
    by (rule gets_then, rule gets_unless [OF gets_bits_n [OF h(1)]]) (simp only: if_False inter)
  have intra: "gets d (if showFrame then ret False else b_flag) (if showFrame then [] else [False]) False"
    by (simp add: gets_ret gets_flag)
  have "gets d (vp9_other_frame p showFrame resilient k)
      ((if showFrame then [] else [False]) @ (if resilient then [] else x) @ f @ concat rs @ (size_bits s @ opt_bits r) @ [hp] @
       (case i of None \<Rightarrow> [True] | Some bs \<Rightarrow> False # bs)) (Inr (size_width k s))"
    unfolding vp9_other_frame_def by (rule gets_then, rule intra, rule rest)
  then show ?thesis by (simp add: InterFrame is_key_def kind_bits_def kind_width_def)
qed

lemma gets_deltas: "length fs = 9 \<Longrightarrow> deltas_ok x \<Longrightarrow> gets d vp9LoopFilterParams (fs @ deltas_bits x) ()"
proof -
  assume fs: "length fs = 9" and x: "deltas_ok x"
  have off: "gets d (when_r False m) [] ()" for m :: "unit reads" by (simp add: when_r_def gets_ret)
  have on: "gets d m bs () \<Longrightarrow> gets d (when_r True m) bs ()" for m :: "unit reads" and bs using gets_when [of True] by simp
  let ?inner = "b_flag \<bind> (\<lambda>update. when_r update (repeat_r 4 vp9_delta \<bind> (\<lambda>_. repeat_r 2 vp9_delta)))"
  have "gets d (b_flag \<bind> (\<lambda>enabled. when_r enabled ?inner)) (deltas_bits x) ()"
  proof (cases x)
    case None
    show ?thesis unfolding None deltas_bits_def option.case by (rule gets_bind_flag, rule off)
  next
    case (Some y)
    have "gets d ?inner (tl (deltas_bits x)) ()"
    proof (cases y)
      case None
      show ?thesis unfolding Some None deltas_bits_def option.case list.sel by (rule gets_bind_flag, rule off)
    next
      case ds: (Some ds)
      have len: "length ds = 6" "list_all (opt_len 7) ds" using x by (simp_all add: Some ds deltas_ok_def)
      have parts: "list_all (opt_len 7) (take 4 ds)" "list_all (opt_len 7) (drop 4 ds)" "length (take 4 ds) = 4" "length (drop 4 ds) = 2"
        using len list_all_append [of "opt_len 7" "take 4 ds" "drop 4 ds"] by simp_all
      have "gets d (repeat_r 4 vp9_delta \<bind> (\<lambda>_. repeat_r 2 vp9_delta)) (concat (map opt_bits (take 4 ds)) @ concat (map opt_bits (drop 4 ds))) ()"
      proof (rule gets_then)
        show "gets d (repeat_r 4 vp9_delta) (concat (map opt_bits (take 4 ds))) ()"
          by (rule gets_each [where P = "opt_len 7"]) (simp_all only: parts gets_delta)
        show "gets d (repeat_r 2 vp9_delta) (concat (map opt_bits (drop 4 ds))) ()"
          by (rule gets_each [where P = "opt_len 7"]) (simp_all only: parts gets_delta)
      qed
      then have all: "gets d (repeat_r 4 vp9_delta \<bind> (\<lambda>_. repeat_r 2 vp9_delta)) (concat (map opt_bits ds)) ()"
        unfolding concat_append [symmetric] map_append [symmetric] append_take_drop_id .
      show ?thesis unfolding Some ds deltas_bits_def option.case append.simps list.sel
        by (rule gets_bind_flag, rule on, rule all)
    qed
    then have "gets d (b_flag \<bind> (\<lambda>enabled. when_r enabled ?inner)) (True # tl (deltas_bits x)) ()"
      by (intro gets_bind_flag on)
    moreover have "deltas_bits x = True # tl (deltas_bits x)" by (cases y) (simp_all add: Some deltas_bits_def)
    ultimately show ?thesis by simp
  qed
  then show ?thesis unfolding vp9LoopFilterParams_def by (rule gets_two [of fs 6 3, rotated]) (simp add: fs)
qed


lemma gets_quant: "length q = 8 \<Longrightarrow> length xs = 3 \<Longrightarrow> list_all (opt_len 5) xs \<Longrightarrow>
   gets d vp9QuantizationParams (q @ concat (map opt_bits xs)) ()"
proof -
  assume q: "length q = 8" and xs: "length xs = 3" "list_all (opt_len 5) xs"
  obtain x y z where xyz: "xs = [x, y, z]" using xs(1) by (auto simp: length_Suc_conv numeral_3_eq_3)
  have "opt_len 5 x" "opt_len 5 y" "opt_len 5 z" using xs(2) by (simp_all add: xyz)
  then have "gets d vp9QuantizationParams (q @ opt_bits x @ opt_bits y @ opt_bits z) ()"
    unfolding vp9QuantizationParams_def
    by (intro gets_then [OF gets_bits_n [OF q]] gets_then [OF gets_deltaq] gets_deltaq)
  then show ?thesis by (simp add: xyz)
qed

lemma gets_features: "features_ok fs xs \<Longrightarrow> gets d (vp9_features fs) (concat (map opt_bits xs)) ()"
proof (induction fs xs rule: features_ok.induct)
  case (2 n sg fs x xs)
  then have x: "opt_len (n + of_bool sg) x" and rest: "gets d (vp9_features fs) (concat (map opt_bits xs)) ()" by simp_all
  have coded: "gets d (when_r (n > 0) (b_bits n) \<bind> (\<lambda>_. when_r sg (b_bits 1))) bs ()" if "x = Some bs" for bs
  proof -
    have len: "length (take n bs) = n" "length (drop n bs) = of_bool sg" using x that by (simp_all add: opt_len_def)
    have "gets d (when_r (n > 0) (b_bits n) \<bind> (\<lambda>_. when_r sg (b_bits 1)))
        ((if n > 0 then take n bs else []) @ (if sg then drop n bs else [])) ()"
      by (rule gets_then, rule gets_when [OF gets_bits_n [OF len(1)]], rule gets_when [OF gets_bits_n]) (use len(2) in simp)
    moreover have "(if n > 0 then take n bs else []) @ (if sg then drop n bs else []) = bs"
      using len x that by (auto simp: opt_len_def)
    ultimately show ?thesis by simp
  qed
  have "gets d ((b_flag \<bind> (\<lambda>enabled. when_r enabled (when_r (n > 0) (b_bits n) \<bind> (\<lambda>_. when_r sg (b_bits 1))))) \<bind> (\<lambda>_. vp9_features fs))
      (opt_bits x @ concat (map opt_bits xs)) ()"
    by (rule gets_then, rule gets_opt, erule coded, rule rest)
  then show ?case by (simp add: State_Monad.bind_assoc)
qed (simp_all add: gets_ret)

lemma gets_segments: "segments_ok s \<Longrightarrow> gets d vp9SegmentationParams (segments_bits s) ()"
proof (cases s)
  case None
  show ?thesis unfolding None segments_bits_def option.case vp9SegmentationParams_def by (rule gets_bind_flag) (simp add: gets_ret)
next
  case (Some p)
  assume "segments_ok s"
  obtain m da where p: "p = (m, da)" by fastforce
  have on: "gets d n bs () \<Longrightarrow> gets d (when_r True n) bs ()" for n :: "unit reads" and bs using gets_when [of True] by simp
  have off: "gets d (when_r False n) [] ()" for n :: "unit reads" by (simp add: when_r_def gets_ret)
  have tree: "gets d (b_flag \<bind> (\<lambda>updateMap. when_r updateMap (repeat_r 7 vp9ReadProb \<bind>
        (\<lambda>_. b_bits 1 \<bind> (\<lambda>temporalUpdate. repeat_r 3 (when_r (temporalUpdate = 1) vp9ReadProb))))))
      (case m of None \<Rightarrow> [False] | Some (tree, temporal, pred) \<Rightarrow>
          True # concat (map opt_bits tree) @ [temporal] @ (if temporal then concat (map opt_bits pred) else [])) ()"
  proof (cases m)
    case None
    show ?thesis unfolding None option.case by (rule gets_bind_flag, rule off)
  next
    case (Some q)
    obtain tree temporal pred where q: "q = (tree, temporal, pred)" by (metis prod_cases3)
    have ok: "length tree = 7" "list_all (opt_len 8) tree" "length pred = 3" "list_all (opt_len 8) pred"
      using \<open>segments_ok s\<close> by (simp_all add: segments_ok_def \<open>s = Some p\<close> p Some q)
    have probs: "gets d (repeat_r 7 vp9ReadProb) (concat (map opt_bits tree)) ()"
      by (rule gets_each [where P = "opt_len 8"]) (simp_all only: ok gets_prob)
    have "gets d (repeat_r 3 (when_r (of_bool temporal = (1 :: u32)) vp9ReadProb)) (if temporal then concat (map opt_bits pred) else []) ()"
    proof (cases temporal)
      case True
      have "gets d (when_r True vp9ReadProb) (opt_bits x) ()" if "opt_len 8 x" for x by (rule on [OF gets_prob [OF that]])
      then have "gets d (repeat_r 3 (when_r True vp9ReadProb)) (concat (map opt_bits pred)) ()"
        by (rule gets_each [where P = "opt_len 8"]) (simp_all only: ok)
      then show ?thesis using True by simp
    next
      case False
      have "gets d (repeat_r 3 (when_r False vp9ReadProb)) (concat (map (\<lambda>_. []) [(), (), ()])) ()"
        by (rule gets_each [where P = "\<lambda>_. True"]) (simp_all add: off)
      then show ?thesis using False by simp
    qed
    note pred = this
    show ?thesis unfolding Some q option.case prod.case
      by (rule gets_bind_flag, rule on, rule gets_then, rule probs, rule gets_then, rule gets_bit, rule pred)
  qed
  have data: "gets d (b_flag \<bind> (\<lambda>updateData. when_r updateData (b_bits 1 \<bind> (\<lambda>_. repeat_r 8 (vp9_features vp9_feature_table)))))
      (case da of None \<Rightarrow> [False] | Some (absolute, fss) \<Rightarrow> True # absolute # concat (map (\<lambda>fs. concat (map opt_bits fs)) fss)) ()"
  proof (cases da)
    case None
    show ?thesis unfolding None option.case by (rule gets_bind_flag, rule off)
  next
    case (Some q)
    obtain absolute fss where q: "q = (absolute, fss)" by fastforce
    have ok: "length fss = 8" "list_all (features_ok vp9_feature_table) fss"
      using \<open>segments_ok s\<close> by (simp_all add: segments_ok_def \<open>s = Some p\<close> p Some q)
    have fs: "gets d (repeat_r 8 (vp9_features vp9_feature_table)) (concat (map (\<lambda>fs. concat (map opt_bits fs)) fss)) ()"
      by (rule gets_each [where P = "features_ok vp9_feature_table"]) (simp_all only: ok gets_features)
    show ?thesis unfolding Some q option.case prod.case
      by (rule gets_bind_flag, rule on, rule gets_bind_bit, rule fs)
  qed
  show ?thesis
    unfolding vp9SegmentationParams_def segments_bits_def Some p option.case prod.case
  proof (rule gets_bind_flag)
    show "gets d (if \<not> True then ret () else (b_flag \<bind> (\<lambda>updateMap. when_r updateMap (repeat_r 7 vp9ReadProb \<bind>
        (\<lambda>_. b_bits 1 \<bind> (\<lambda>temporalUpdate. repeat_r 3 (when_r (temporalUpdate = 1) vp9ReadProb)))) \<bind>
        (\<lambda>_. b_flag \<bind> (\<lambda>updateData. when_r updateData (b_bits 1 \<bind> (\<lambda>_. repeat_r 8 (vp9_features vp9_feature_table))))))))
      ((case m of None \<Rightarrow> [False] | Some (tree, temporal, pred) \<Rightarrow>
          True # concat (map opt_bits tree) @ [temporal] @ (if temporal then concat (map opt_bits pred) else [])) @
       (case da of None \<Rightarrow> [False] | Some (absolute, fss) \<Rightarrow> True # absolute # concat (map (\<lambda>fs. concat (map opt_bits fs)) fss))) ()"
      using gets_then [OF tree data] by (simp add: State_Monad.bind_assoc)
  qed
qed

lemma gets_increments: "k \<le> n \<Longrightarrow> gets d (increments n) (replicate k True @ (if k < n then [False] else [])) k"
proof (induction n arbitrary: k)
  case (Suc n)
  show ?case
  proof (cases k)
    case 0
    then show ?thesis by (simp, intro gets_bind_flag) (simp add: gets_ret)
  next
    case (Suc j)
    have "gets d (increments n \<bind> (\<lambda>k. ret (k + 1))) (replicate j True @ (if j < n then [False] else [])) (j + 1)"
      by (rule gets_last, rule Suc.IH, use Suc Suc.prems in simp, rule gets_ret)
    note more_increments = this
    have "gets d (increments (Suc n)) (True # replicate j True @ (if j < n then [False] else [])) (j + 1)"
      unfolding increments.simps by (rule gets_bind_flag) (simp only: if_True more_increments)
    then show ?thesis by (simp add: Suc)
  qed
qed (simp add: gets_ret)

lemma gets_tile: "0 < w \<Longrightarrow> k \<le> vp9_tile_room w \<Longrightarrow> gets d (vp9TileInfo w) (tile_bits w k rows) (Inr ())"
proof -
  assume w: "0 < w" "k \<le> vp9_tile_room w"
  have "gets d (b_flag \<bind> (\<lambda>rows. when_r rows (b_bits 1))) (opt_bits (map_option (\<lambda>b. [b]) rows)) ()"
  proof (rule gets_opt)
    fix bs assume "map_option (\<lambda>b. [b]) rows = Some bs"
    then have "length bs = 1" by (cases rows) auto
    then show "gets d (b_bits 1) bs (word_of_bits bs)" by (rule gets_bits_n)
  qed
  note rows = this
  have "gets d (increments (vp9_tile_room w) \<bind> (\<lambda>_. (b_flag \<bind> (\<lambda>rows. when_r rows (b_bits 1))) \<bind> (\<lambda>_. ret (Inr ()))))
      ((replicate k True @ (if k < vp9_tile_room w then [False] else [])) @ opt_bits (map_option (\<lambda>b. [b]) rows)) (Inr ())"
    by (rule gets_then, rule gets_increments [OF w(2)], rule gets_last, rule rows, rule gets_ret)
  moreover have "w \<noteq> 0" using w(1) by simp
  ultimately have "gets d (vp9TileInfo w)
      ((replicate k True @ (if k < vp9_tile_room w then [False] else [])) @ opt_bits (map_option (\<lambda>b. [b]) rows)) (Inr ())"
    unfolding vp9TileInfo_def by (simp only: if_False State_Monad.bind_assoc)
  then show ?thesis by (cases rows) (simp_all add: tile_bits_def opt_bits_def)
qed


lemma kind_width_pos: "kind_ok k p s kind \<Longrightarrow> 0 < kind_width k kind"
  by (auto simp: kind_width_def kind_ok_def size_width_def size_ok_def coded_width_def split: vp9_kind.splits vp9_size.splits)

lemma gets_tail:
  assumes h: "length (vh_context h) = 2" "length (vh_context_idx h) = 2" "length (vh_filter h) = 9" "deltas_ok (vh_deltas h)"
      "length (vh_quant h) = 8" "length (vh_dqs h) = 3" "list_all (opt_len 5) (vh_dqs h)" "segments_ok (vh_segments h)"
      "vh_tile_cols h \<le> vp9_tile_room w" "length (vh_size h) = 16"
    and w: "0 < w"
  shows "gets d (vp9_tail (vh_resilient h) w) (vp9_tail_bits w h) (Inr (Some w))"
proof -
  have filter: "gets d (vp9LoopFilterParams \<bind> f) (vh_filter h @ deltas_bits (vh_deltas h) @ bs) v"
    if "gets d (f ()) bs v" for f bs and v :: "nat option result"
    unfolding append_assoc [symmetric] by (rule gets_then, rule gets_deltas [OF h(3,4)], rule that)
  have quant: "gets d (vp9QuantizationParams \<bind> f) (vh_quant h @ concat (map opt_bits (vh_dqs h)) @ bs) v"
    if "gets d (f ()) bs v" for f bs and v :: "nat option result"
    unfolding append_assoc [symmetric] by (rule gets_then, rule gets_quant [OF h(5-7)], rule that)
  have "gets d (b_failed \<bind> (\<lambda>e. ret (if e then Inl (Errf ''VP9 CENC: truncated uncompressed header'') else Inr (Some w)))) [] (Inr (Some w))"
    by (rule gets_failed) (simp add: gets_ret)
  then have last: "gets d (b_bits 16 \<bind> (\<lambda>_. b_failed \<bind> (\<lambda>e. ret (if e then Inl (Errf ''VP9 CENC: truncated uncompressed header'') else Inr (Some w)))))
      (vh_size h) (Inr (Some w))"
    by (rule gets_last [OF gets_bits_n [OF h(10)]])
  show ?thesis
    unfolding vp9_tail_def vp9_tail_bits_def
    by (rule gets_then, rule gets_unless, rule gets_two_last, use h(1) in simp, rule gets_then, rule gets_bits_n [OF h(2)],
        rule filter, rule quant, rule gets_then, rule gets_segments [OF h(8)], rule gets_then, rule gets_tile [OF w h(9)],
        unfold sum.case, rule last)
qed

definition vp9_width :: "nat \<Rightarrow> vp9_syntax \<Rightarrow> nat option" where
  "vp9_width knownWidth h = (if vh_existing h then None else Some (kind_width knownWidth (vh_kind h)))"

lemma gets_header:
  assumes ok: "vp9_ok k h"
  shows "gets d (vp9_header k) (vp9_bits k h) (Inr (vp9_width k h))"
proof -
  let ?p = "profile_of h" and ?w = "kind_width k (vh_kind h)"
  have marker: "length [True, False] = 2" "word_of_bits [True, False] = 2" by (simp, code_simp)
  have existing: "gets d (b_failed \<bind> (\<lambda>e. ret (if e then Inl (Errf ''VP9 CENC: truncated frame header'') else Inr None))) [] (Inr None :: nat option result)"
    by (rule gets_failed) (simp add: gets_ret)
  have coded: "gets d (b_bits 1 \<bind> (\<lambda>frameType. b_flag \<bind> (\<lambda>showFrame. b_flag \<bind> (\<lambda>errorResilient.
        (if frameType = 0 then vp9_key_frame ?p else vp9_other_frame ?p showFrame errorResilient k) \<bind>
        (\<lambda>w. case w of Inl e \<Rightarrow> ret (Inl e) | Inr w \<Rightarrow> vp9_tail errorResilient w)))))
      ([\<not> is_key (vh_kind h), vh_show h, vh_resilient h] @ kind_bits ?p (vh_show h) (vh_resilient h) (vh_kind h) @ vp9_tail_bits ?w h)
      (Inr (Some ?w))" if "\<not> vh_existing h"
  proof -
    have kind: "kind_ok k ?p (vh_show h) (vh_kind h)" using ok that by (simp add: vp9_ok_def)
    have tail: "gets d (vp9_tail (vh_resilient h) ?w) (vp9_tail_bits ?w h) (Inr (Some ?w))"
      by (rule gets_tail) (use ok that kind_width_pos [OF kind] in \<open>simp_all add: vp9_ok_def\<close>)
    show ?thesis
      unfolding append.simps
      by (rule gets_bind_bit, rule gets_bind_flag, rule gets_bind_flag, rule gets_then, rule gets_kind [OF kind], unfold sum.case, rule tail)
  qed
  have body: "gets d (if vh_existing h then b_failed \<bind> (\<lambda>e. ret (if e then Inl (Errf ''VP9 CENC: truncated frame header'') else Inr None))
      else b_bits 1 \<bind> (\<lambda>frameType. b_flag \<bind> (\<lambda>showFrame. b_flag \<bind> (\<lambda>errorResilient.
        (if frameType = 0 then vp9_key_frame ?p else vp9_other_frame ?p showFrame errorResilient k) \<bind>
        (\<lambda>w. case w of Inl e \<Rightarrow> ret (Inl e) | Inr w \<Rightarrow> vp9_tail errorResilient w)))))
      (if vh_existing h then [] else [\<not> is_key (vh_kind h), vh_show h, vh_resilient h] @
        kind_bits ?p (vh_show h) (vh_resilient h) (vh_kind h) @ vp9_tail_bits ?w h)
      (Inr (vp9_width k h))"
  proof (cases "vh_existing h")
    case True
    show ?thesis unfolding vp9_width_def if_P [OF True] by (rule existing)
  next
    case False
    show ?thesis unfolding vp9_width_def if_not_P [OF False] by (rule coded [OF False])
  qed
  have bits: "vp9_bits k h = [True, False] @ vh_lo h # vh_hi h # (if ?p = 3 then [vh_reserved h] else []) @ vh_existing h #
      (if vh_existing h then [] else [\<not> is_key (vh_kind h), vh_show h, vh_resilient h] @
        kind_bits ?p (vh_show h) (vh_resilient h) (vh_kind h) @ vp9_tail_bits ?w h)"
    by (simp add: vp9_bits_def)
  show ?thesis
    unfolding bits vp9_header_def
    apply (rule gets_then, rule gets_bits_n [OF marker(1)])
    apply (simp only: marker(2) not_True_eq_False simp_thms if_False)
    apply (rule gets_bind_bit, rule gets_bind_bit)
    apply (simp only: Let_def profile_of_def [symmetric])
    apply (rule gets_then, rule gets_when [OF gets_bit], rule gets_bind_flag, rule body)
    done
qed

section \<open>A sample\<close>

text \<open>A frame with its bytes, and the bytes of it that stay clear.\<close>

type_synonym vp9_frame = "vp9_syntax \<times> bytes"

definition starts :: "nat \<Rightarrow> vp9_frame \<Rightarrow> bool" where
  "starts k f \<longleftrightarrow> vp9_ok k (fst f) \<and> take (length (vp9_bits k (fst f))) (concat (map byte_bits (snd f))) = vp9_bits k (fst f) \<and>
     length (vp9_bits k (fst f)) \<le> 8 * 65520 \<and> (vh_existing (fst f) \<longrightarrow> length (snd f) \<le> 0xFFFF)"

definition header_bytes :: "nat \<Rightarrow> vp9_frame \<Rightarrow> nat" where
  "header_bytes k f = (if vh_existing (fst f) then length (snd f) else (length (vp9_bits k (fst f)) + 7) div 8)"

definition frame_mask :: "nat \<Rightarrow> vp9_frame \<Rightarrow> bool list" where
  "frame_mask k f = (let c = header_bytes k f; n = length (snd f) - c in replicate (c + n mod 16) True @ replicate (n - n mod 16) False)"

definition next_width :: "nat \<Rightarrow> vp9_frame \<Rightarrow> nat" where
  "next_width k f = (case vp9_width k (fst f) of None \<Rightarrow> k | Some w \<Rightarrow> w)"

fun frames_start :: "nat \<Rightarrow> vp9_frame list \<Rightarrow> bool" where
  "frames_start k [] \<longleftrightarrow> True"
| "frames_start k (f # fs) \<longleftrightarrow> starts k f \<and> frames_start (next_width k f) fs"

fun frames_mask :: "nat \<Rightarrow> vp9_frame list \<Rightarrow> bool list" where
  "frames_mask k [] = []"
| "frames_mask k (f # fs) = frame_mask k f @ frames_mask (next_width k f) fs"

lemma starts_bits: "starts k f \<Longrightarrow> \<exists>rest. concat (map byte_bits (snd f)) = vp9_bits k (fst f) @ rest"
  unfolding starts_def by (metis append_take_drop_id)

lemma header_fits:
  assumes s: "starts k f"
  shows "snd f \<noteq> [] \<and> header_bytes k f \<le> length (snd f) \<and> header_bytes k f + (length (snd f) - header_bytes k f) mod 16 \<le> 0xFFFF"
proof -
  obtain rest where "concat (map byte_bits (snd f)) = vp9_bits k (fst f) @ rest" using starts_bits [OF s] by blast
  then have "8 * length (snd f) = length (vp9_bits k (fst f)) + length rest" by (metis length_append length_concat_byte_bits)
  moreover have "0 < length (vp9_bits k (fst f))" by (simp add: vp9_bits_def)
  ultimately have le: "snd f \<noteq> []" "header_bytes k f \<le> length (snd f)" by (auto simp: header_bytes_def)
  have "header_bytes k f + (length (snd f) - header_bytes k f) mod 16 \<le> 0xFFFF"
  proof (cases "vh_existing (fst f)")
    case True
    then show ?thesis using s by (simp add: header_bytes_def starts_def)
  next
    case False
    have "length (vp9_bits k (fst f)) \<le> 524160" using s by (simp add: starts_def)
    then have "header_bytes k f \<le> 65520" unfolding header_bytes_def if_not_P [OF False] by linarith
    moreover have "(length (snd f) - header_bytes k f) mod 16 \<le> 15" using mod_less_divisor [of 16 "length (snd f) - header_bytes k f"] by linarith
    ultimately show ?thesis by simp
  qed
  then show ?thesis using le by simp
qed

lemma frame_split:
  assumes s: "starts k f" and small: "length (snd f) < 2 ^ 32"
  shows "\<exists>sub w. vp9FrameSubsample (snd f) k = Inr (sub, w) \<and> sub_mask sub = frame_mask k f \<and> (if w > 0 then w else k) = next_width k f"
proof -
  define c n where "c = header_bytes k f" and "n = length (snd f)"
  have fits: "snd f \<noteq> []" "c \<le> n" "c + (n - c) mod 16 \<le> 0xFFFF" using header_fits [OF s] by (simp_all add: c_def n_def)
  obtain rest where rest: "concat (map byte_bits (snd f)) = vp9_bits k (fst f) @ rest" using starts_bits [OF s] by blast
  have ok: "vp9_ok k (fst f)" using s by (simp add: starts_def)
  obtain r where r: "run_state (vp9_header k) (newBitReader (snd f)) = (Inr (vp9_width k (fst f)), r)" "bt_pos r = length (vp9_bits k (fst f))"
    using header_read [OF gets_header [OF ok] rest] by auto
  define w where "w = (case vp9_width k (fst f) of None \<Rightarrow> 0 | Some w \<Rightarrow> w)"
  have "vp9FrameSubsample (snd f) k = Inr (vp9ClampSubsample c n, w)"
    using fits(1) r by (auto simp: vp9FrameSubsample_def c_def n_def header_bytes_def w_def vp9_width_def)
  moreover have "vp9_clear c n = c + (n - c) mod 16"
    using fits(2,3) by (simp add: vp9_clear_def Let_def)
  then have "sub_mask (vp9ClampSubsample c n) = frame_mask k f"
    using clamp_mask [of n c] small fits(2) by (simp add: frame_mask_def Let_def flip: c_def n_def)
  moreover have "(if w > 0 then w else k) = next_width k f"
    using ok by (auto simp: w_def next_width_def vp9_width_def vp9_ok_def dest: kind_width_pos)
  ultimately show ?thesis by blast
qed


section \<open>Superframes\<close>

fun le_enc :: "nat \<Rightarrow> nat \<Rightarrow> bytes" where
  "le_enc 0 n = []"
| "le_enc (Suc w) n = word_of_nat (n mod 256) # le_enc w (n div 256)"

lemma length_le_enc [simp]: "length (le_enc w n) = w"
  by (induction w n rule: le_enc.induct) simp_all

lemma le_nat_enc: "n < 256 ^ w \<Longrightarrow> le_nat (le_enc w n) = n"
proof (induction w n rule: le_enc.induct)
  case (2 w n)
  then have "n div 256 < 256 ^ w" by (simp add: less_mult_imp_div_less mult.commute)
  moreover have "unat (word_of_nat (n mod 256) :: byte) = n mod 256" by (simp add: unat_of_nat take_bit_eq_mod)
  ultimately show ?case using 2 by simp
qed simp

definition superframe_marker :: "nat \<Rightarrow> nat \<Rightarrow> byte" where
  "superframe_marker width count = 0xC0 OR push_bit 3 (word_of_nat (width - 1)) OR word_of_nat (count - 1)"

definition vp9_index :: "nat \<Rightarrow> vp9_frame list \<Rightarrow> bytes" where
  "vp9_index width fs = (let m = superframe_marker width (length fs) in m # concat (map (\<lambda>f. le_enc width (length (snd f))) fs) @ [m])"

text \<open>A sample: one frame, or frames with an index of that width behind them.\<close>

definition vp9_sample :: "nat option \<Rightarrow> vp9_frame list \<Rightarrow> bytes" where
  "vp9_sample idx fs = concat (map snd fs) @ (case idx of None \<Rightarrow> [] | Some width \<Rightarrow> vp9_index width fs)"

definition packed :: "nat option \<Rightarrow> vp9_frame list \<Rightarrow> bool" where
  "packed idx fs \<longleftrightarrow> (case idx of
     None \<Rightarrow> length fs = 1 \<and> last (snd (hd fs)) AND 0xE0 \<noteq> 0xC0
   | Some width \<Rightarrow> 1 \<le> width \<and> width \<le> 4 \<and> 1 \<le> length fs \<and> length fs \<le> 8 \<and> list_all (\<lambda>f. length (snd f) < 256 ^ width) fs)"

lemma marker_fields:
  assumes "1 \<le> width" "width \<le> 4" "1 \<le> count" "count \<le> 8"
  shows "superframe_marker width count AND 0xE0 = 0xC0" "unat (drop_bit 3 (superframe_marker width count) AND 3) + 1 = width"
    "unat (superframe_marker width count AND 7) + 1 = count"
proof -
  have all: "\<forall>w \<in> set [1, 2, 3, 4]. \<forall>c \<in> set [1, 2, 3, 4, 5, 6, 7, 8]. superframe_marker w c AND 0xE0 = 0xC0 \<and>
      unat (drop_bit 3 (superframe_marker w c) AND 3) + 1 = w \<and> unat (superframe_marker w c AND 7) + 1 = c"
    by code_simp
  have "width \<in> set [1, 2, 3, 4]" "count \<in> set [1, 2, 3, 4, 5, 6, 7, 8]" using assms by auto
  from all [rule_format, OF this] show "superframe_marker width count AND 0xE0 = 0xC0"
    "unat (drop_bit 3 (superframe_marker width count) AND 3) + 1 = width" "unat (superframe_marker width count AND 7) + 1 = count" by blast+
qed

fun ranges :: "nat \<Rightarrow> vp9_frame list \<Rightarrow> (nat \<times> nat) list" where
  "ranges off [] = []"
| "ranges off (f # fs) = (off, off + length (snd f)) # ranges (off + length (snd f)) fs"

definition frames_len :: "vp9_frame list \<Rightarrow> nat" where
  "frames_len fs = length (concat (map snd fs))"

lemma frames_len_simps [simp]: "frames_len [] = 0" "frames_len (f # fs) = length (snd f) + frames_len fs"
  by (simp_all add: frames_len_def)

lemma frame_ranges_enc:
  "list_all (\<lambda>f. length (snd f) < 256 ^ width) fs \<Longrightarrow> off + frames_len fs \<le> e \<Longrightarrow>
   vp9_frame_ranges (length fs) width (concat (map (\<lambda>f. le_enc width (length (snd f))) fs)) off e = Inr (ranges off fs, off + frames_len fs)"
  by (induction fs arbitrary: off) (simp_all add: le_nat_enc Let_def)

lemma superframe_split:
  assumes "packed idx fs" "concat (map snd fs) \<noteq> []"
  shows "vp9SplitSuperframe (vp9_sample idx fs) = Inr (ranges 0 fs, case idx of None \<Rightarrow> 0 | Some width \<Rightarrow> length (vp9_index width fs))"
proof (cases idx)
  case None
  then obtain f where f: "fs = [f]" using assms(1) by (auto simp: packed_def length_Suc_conv)
  then show ?thesis using assms None by (simp add: packed_def vp9SplitSuperframe_def vp9_sample_def Let_def)
next
  case (Some width)
  let ?n = "length fs" and ?sizes = "concat (map (\<lambda>f. le_enc width (length (snd f))) fs)" and ?fs = "concat (map snd fs)"
  define m where "m = superframe_marker width ?n"
  have p: "1 \<le> width" "width \<le> 4" "1 \<le> ?n" "?n \<le> 8" "list_all (\<lambda>f. length (snd f) < 256 ^ width) fs"
    using assms(1) by (simp_all add: packed_def Some)
  note fields = marker_fields [OF p(1-4), folded m_def]
  have sizes: "length ?sizes = ?n * width" by (induction fs) simp_all
  have sample: "vp9_sample idx fs = ?fs @ m # ?sizes @ [m]" by (simp add: vp9_sample_def Some vp9_index_def Let_def m_def)
  then have sample': "last (vp9_sample idx fs) = m" "length (vp9_sample idx fs) = frames_len fs + (2 + ?n * width)"
    "vp9_sample idx fs \<noteq> []" "vp9_sample idx fs ! frames_len fs = m"
    by (simp_all add: sizes frames_len_def nth_append)
  have body: "slice (frames_len fs + 1) (frames_len fs + (2 + ?n * width) - 1) (vp9_sample idx fs) = ?sizes"
    unfolding slice_def sample using sizes by (simp add: frames_len_def)
  have ranges: "vp9_frame_ranges ?n width ?sizes 0 (frames_len fs) = Inr (ranges 0 fs, frames_len fs)"
    using frame_ranges_enc [OF p(5), of 0] by simp
  have len: "length (vp9_index width fs) = 2 + ?n * width" by (simp add: vp9_index_def Let_def sizes)
  show ?thesis
    unfolding vp9SplitSuperframe_def Let_def sample'(1,2) fields
    using sample'(3,4) body ranges len Some by simp
qed

lemma frames_split:
  "frames_start k fs \<Longrightarrow> sample = pre @ concat (map snd fs) @ post \<Longrightarrow> length sample < 2 ^ 32 \<Longrightarrow>
   \<exists>subs. vp9_frames sample (ranges (length pre) fs) k = Inr (subs, foldl next_width k fs) \<and> subs_mask subs = frames_mask k fs"
proof (induction fs arbitrary: k pre)
  case (Cons f fs)
  have "starts k f" "length (snd f) < 2 ^ 32" using Cons.prems by simp_all
  from frame_split [OF this] obtain sub w where sub: "vp9FrameSubsample (snd f) k = Inr (sub, w)" "sub_mask sub = frame_mask k f"
      "(if w > 0 then w else k) = next_width k f" by blast
  have "slice (length pre) (length pre + length (snd f)) sample = snd f" using Cons.prems(2) by (simp add: slice_def)
  moreover obtain subs where subs: "vp9_frames sample (ranges (length (pre @ snd f)) fs) (next_width k f) = Inr (subs, foldl next_width (next_width k f) fs)"
      "subs_mask subs = frames_mask (next_width k f) fs"
    using Cons.IH [of "next_width k f" "pre @ snd f"] Cons.prems by auto
  ultimately show ?case using sub by (auto simp: subs_mask_def)
qed (simp add: subs_mask_def)



text \<open>A key frame of 352 columns with tile data, and a frame that shows it again, in one superframe.\<close>

definition ex_key :: vp9_syntax where
  "ex_key = \<lparr>vh_lo = False, vh_hi = False, vh_reserved = False, vh_existing = False, vh_show = True, vh_resilient = False,
     vh_kind = KeyFrame (False, [False, False, True], [False]) (bits_of 16 (351 :: u32)) (bits_of 16 (287 :: u32)) None,
     vh_context = [True, False], vh_context_idx = [False, False], vh_filter = bits_of 9 (42 :: u32), vh_deltas = Some None,
     vh_quant = bits_of 8 (60 :: u32), vh_dqs = [None, None, None], vh_segments = None, vh_tile_cols = 0, vh_tile_rows = None,
     vh_size = bits_of 16 (9 :: u32)\<rparr>"

definition ex_frames :: "vp9_frame list" where
  "ex_frames = [(ex_key, [130, 73, 131, 66, 32, 21, 240, 17, 244, 10, 163, 192, 0, 4] @ replicate 19 255), (ex_key\<lparr>vh_existing := True\<rparr>, [136])]"


lemma ex_frames_start: "frames_start 0 ex_frames"
proof -
  have "vp9_ok 0 ex_key" "length (vp9_bits 0 ex_key) = 113" "\<not> vh_existing ex_key" by (code_simp, code_simp, code_simp)
  moreover have "take 113 (concat (map byte_bits ([130, 73, 131, 66, 32, 21, 240, 17, 244, 10, 163, 192, 0, 4] @ replicate 19 255))) = vp9_bits 0 ex_key"
    by code_simp
  ultimately have "starts 0 (ex_key, [130, 73, 131, 66, 32, 21, 240, 17, 244, 10, 163, 192, 0, 4] @ replicate 19 255)"
    by (simp only: starts_def fst_conv snd_conv) simp
  moreover have "starts 352 (ex_key\<lparr>vh_existing := True\<rparr>, [136])"
  proof -
    have "vp9_bits 352 (ex_key\<lparr>vh_existing := True\<rparr>) = [True, False, False, False, True]" "take (Suc (Suc (Suc (Suc (Suc 0))))) (concat (map byte_bits [136])) = [True, False, False, False, True]"
      by (code_simp, code_simp)
    then show ?thesis by (simp add: starts_def vp9_ok_def)
  qed
  moreover have "next_width 0 (ex_key, bs) = 352" for bs by code_simp
  ultimately show ?thesis by (simp only: ex_frames_def frames_start.simps simp_thms)
qed


end
