(* ===== verification/Av1Seq.thy ===== *)
theory Av1Seq
  imports Vp9
begin

text \<open>
  AV1 headers, first half (mp4/cenc_av1.go): the OBU size code, the bit codes and the sequence header.  The
  frame header is in Av1Frame.  A field keeps the source's name behind \<open>sq_\<close>.
\<close>

section \<open>The size code\<close>

text \<open>The loop of \<^verbatim>\<open>readLEB128\<close>: \<open>n\<close> bytes may still come, \<open>i\<close> have been read.\<close>

fun leb_loop :: "nat \<Rightarrow> nat \<Rightarrow> bytes \<Rightarrow> u64 \<Rightarrow> (u64 \<times> nat) result" where
  "leb_loop 0 i b v = Inl (Errf ''cenc: av1: leb128 exceeds the 8-byte maximum'')"
| "leb_loop (Suc n) i b v =
     (case b of [] \<Rightarrow> Inl (Errf ''cenc: av1: truncated leb128 in OBU size field'')
      | x # b \<Rightarrow>
          let v = v OR push_bit (i * 7) (ucast (x AND 0x7F)) in
          if x AND 0x80 = 0 then Inr (v, i + 1) else leb_loop n (i + 1) b v)"

definition readLEB128 :: "bytes \<Rightarrow> (u64 \<times> nat) result" where
  "readLEB128 b = leb_loop 8 0 b 0"

section \<open>The bit codes\<close>

text \<open>\<^verbatim>\<open>av1FloorLog2\<close> plus one is \<open>bit_len\<close>; \<^verbatim>\<open>av1TileLog2\<close> of a positive block is the loop \<open>min_log2\<close>.\<close>

definition av1FloorLog2 :: "u32 \<Rightarrow> int" where
  "av1FloorLog2 x = int (bit_len (unat x)) - 1"

definition av1TileLog2 :: "nat \<Rightarrow> nat \<Rightarrow> nat" where
  "av1TileLog2 blkSize target = min_log2 blkSize target 0"

definition av1Clip3 :: "int \<Rightarrow> int \<Rightarrow> int \<Rightarrow> int" where
  "av1Clip3 lo hi v = (if v < lo then lo else if v > hi then hi else v)"

definition av1SU :: "nat \<Rightarrow> int reads" where
  "av1SU n = do {
     v \<leftarrow> b_bits n;
     let signMask = (push_bit (n - 1) 1 :: u32);
     ret (if v AND signMask \<noteq> 0 then wrap32 (sint v - sint signMask * 2) else sint v) }"

definition av1NS :: "nat \<Rightarrow> u32 reads" where
  "av1NS n =
     (if n < 1 then ret 0
      else do {
        let w = nat (av1FloorLog2 (word_of_nat n) + 1);
        let m = (push_bit w 1 - word_of_nat n :: u32);
        v \<leftarrow> b_bits (w - 1);
        if v < m then ret v
        else do { extra \<leftarrow> b_bits 1; ret (push_bit 1 v - m + extra) } })"

fun uvlc_zeros :: "nat \<Rightarrow> nat \<Rightarrow> nat reads" where
  "uvlc_zeros 0 zeros = ret zeros"
| "uvlc_zeros (Suc n) zeros = do {
     b \<leftarrow> b_bits 1;
     if b = 1 then ret zeros
     else do { e \<leftarrow> b_failed; if e then ret (zeros + 1) else uvlc_zeros n (zeros + 1) } }"

definition av1UVLC :: "u32 reads" where
  "av1UVLC = do {
     zeros \<leftarrow> uvlc_zeros 32 0;
     if zeros \<ge> 32 then ret (- 1)
     else do { v \<leftarrow> b_bits zeros; ret (v + push_bit zeros 1 - 1) } }"

text \<open>The loop of \<^verbatim>\<open>av1DecodeSubexp\<close>.\<close>

function subexp_loop :: "nat \<Rightarrow> nat \<Rightarrow> nat \<Rightarrow> u32 reads" where
  "subexp_loop numSyms i mk =
     (let b2 = (if i > 0 then 3 + i - 1 else 3); a = push_bit b2 1 in
      if numSyms \<le> mk + 3 * a then do { v \<leftarrow> av1NS (numSyms - mk); ret (v + word_of_nat mk) }
      else do {
        b \<leftarrow> b_flag;
        if b then subexp_loop numSyms (i + 1) (mk + a)
        else do { v \<leftarrow> b_bits b2; ret (v + word_of_nat mk) } })"
  by pat_completeness auto
termination by (relation "measure (\<lambda>(numSyms, i, mk). numSyms - mk)") (auto simp: push_bit_eq_mult intro!: diff_less_mono2)

declare subexp_loop.simps [simp del]

definition av1DecodeSubexp :: "nat \<Rightarrow> u32 reads" where
  "av1DecodeSubexp numSyms = subexp_loop numSyms 0 0"

section \<open>The sequence header\<close>

record av1SeqHeader =
  sq_seqProfile :: u32
  sq_reducedStillPictureHeader :: bool
  sq_frameIDNumbersPresent :: bool
  sq_deltaFrameIDLengthMinus2 :: u32
  sq_additionalFrameIDLengthMinus1 :: u32
  sq_frameWidthBitsMinus1 :: u32
  sq_frameHeightBitsMinus1 :: u32
  sq_maxFrameWidthMinus1 :: u32
  sq_maxFrameHeightMinus1 :: u32
  sq_use128x128Superblock :: bool
  sq_enableOrderHint :: bool
  sq_orderHintBits :: u32
  sq_enableRefFrameMvs :: bool
  sq_seqForceScreenContentTools :: u32
  sq_seqForceIntegerMv :: u32
  sq_enableSuperres :: bool
  sq_enableCdef :: bool
  sq_enableRestoration :: bool
  sq_enableWarpedMotion :: bool
  sq_monoChrome :: bool
  sq_numPlanes :: nat
  sq_bitDepth :: nat
  sq_subsamplingX :: u32
  sq_subsamplingY :: u32
  sq_separateUVDeltaQ :: bool
  sq_decoderModelInfoPresent :: bool
  sq_equalPictureInterval :: bool
  sq_bufferDelayLengthMinus1 :: u32
  sq_bufferRemovalTimeLengthMinus1 :: u32
  sq_framePresentationTimeLengthMinus1 :: u32
  sq_operatingPointsCntMinus1 :: u32
  sq_operatingPointIdc :: "u32 list"
  sq_decoderModelPresentForOp :: "bool list"
  sq_filmGrainParamsPresent :: bool

definition av1SelectScreenContentTools :: u32 where "av1SelectScreenContentTools = 2"
definition av1SelectIntegerMv :: u32 where "av1SelectIntegerMv = 2"

definition empty_seq :: av1SeqHeader where
  "empty_seq = \<lparr>sq_seqProfile = 0, sq_reducedStillPictureHeader = False, sq_frameIDNumbersPresent = False,
     sq_deltaFrameIDLengthMinus2 = 0, sq_additionalFrameIDLengthMinus1 = 0, sq_frameWidthBitsMinus1 = 0,
     sq_frameHeightBitsMinus1 = 0, sq_maxFrameWidthMinus1 = 0, sq_maxFrameHeightMinus1 = 0, sq_use128x128Superblock = False,
     sq_enableOrderHint = False, sq_orderHintBits = 0, sq_enableRefFrameMvs = False, sq_seqForceScreenContentTools = 0,
     sq_seqForceIntegerMv = 0, sq_enableSuperres = False, sq_enableCdef = False, sq_enableRestoration = False,
     sq_enableWarpedMotion = False, sq_monoChrome = False, sq_numPlanes = 0, sq_bitDepth = 0, sq_subsamplingX = 0,
     sq_subsamplingY = 0, sq_separateUVDeltaQ = False, sq_decoderModelInfoPresent = False, sq_equalPictureInterval = False,
     sq_bufferDelayLengthMinus1 = 0, sq_bufferRemovalTimeLengthMinus1 = 0, sq_framePresentationTimeLengthMinus1 = 0,
     sq_operatingPointsCntMinus1 = 0, sq_operatingPointIdc = [], sq_decoderModelPresentForOp = [], sq_filmGrainParamsPresent = False\<rparr>"

definition seq_timing :: "av1SeqHeader \<Rightarrow> av1SeqHeader reads" where
  "seq_timing s = do {
     timingInfoPresent \<leftarrow> b_flag;
     if \<not> timingInfoPresent then ret s
     else do {
       b_bits 32;
       b_bits 32;
       equal \<leftarrow> b_flag;
       when_r equal av1UVLC;
       model \<leftarrow> b_flag;
       let s = s\<lparr>sq_equalPictureInterval := equal, sq_decoderModelInfoPresent := model\<rparr>;
       if \<not> model then ret s
       else do {
         delay \<leftarrow> b_bits 5;
         b_bits 32;
         removal \<leftarrow> b_bits 5;
         presentation \<leftarrow> b_bits 5;
         ret (s\<lparr>sq_bufferDelayLengthMinus1 := delay, sq_bufferRemovalTimeLengthMinus1 := removal,
               sq_framePresentationTimeLengthMinus1 := presentation\<rparr>) } } }"

definition op_model :: "av1SeqHeader \<Rightarrow> bool reads" where
  "op_model s =
     (if \<not> sq_decoderModelInfoPresent s then ret False
      else do {
        present \<leftarrow> b_flag;
        when_r present (do {
          b_bits (unat (sq_bufferDelayLengthMinus1 s) + 1);
          b_bits (unat (sq_bufferDelayLengthMinus1 s) + 1);
          b_bits 1 });
        ret present })"

primrec op_points :: "av1SeqHeader \<Rightarrow> bool \<Rightarrow> nat \<Rightarrow> (u32 \<times> bool) list reads" where
  "op_points s displayDelay 0 = ret []"
| "op_points s displayDelay (Suc n) = do {
     idc \<leftarrow> b_bits 12;
     level \<leftarrow> b_bits 5;
     when_r (level > 7) (b_bits 1);
     present \<leftarrow> op_model s;
     when_r displayDelay (do { d \<leftarrow> b_flag; when_r d (b_bits 4) });
     ps \<leftarrow> op_points s displayDelay n;
     ret ((idc, present) # ps) }"

definition seq_operating :: "av1SeqHeader \<Rightarrow> av1SeqHeader reads" where
  "seq_operating s =
     (if sq_reducedStillPictureHeader s then do { b_bits 5; ret s }
      else do {
        s \<leftarrow> seq_timing s;
        displayDelay \<leftarrow> b_flag;
        cnt \<leftarrow> b_bits 5;
        ps \<leftarrow> op_points s displayDelay (unat cnt + 1);
        ret (s\<lparr>sq_operatingPointsCntMinus1 := cnt, sq_operatingPointIdc := map fst ps, sq_decoderModelPresentForOp := map snd ps\<rparr>) })"

definition seq_frame_size :: "av1SeqHeader \<Rightarrow> av1SeqHeader reads" where
  "seq_frame_size s = do {
     wBits \<leftarrow> b_bits 4;
     hBits \<leftarrow> b_bits 4;
     w \<leftarrow> b_bits (unat wBits + 1);
     h \<leftarrow> b_bits (unat hBits + 1);
     ids \<leftarrow> (if sq_reducedStillPictureHeader s then ret False else b_flag);
     (deltaLen, addLen) \<leftarrow> (if ids then do { x \<leftarrow> b_bits 4; y \<leftarrow> b_bits 3; ret (x, y) } else ret (0, 0));
     ret (s\<lparr>sq_frameWidthBitsMinus1 := wBits, sq_frameHeightBitsMinus1 := hBits, sq_maxFrameWidthMinus1 := w,
           sq_maxFrameHeightMinus1 := h, sq_frameIDNumbersPresent := ids, sq_deltaFrameIDLengthMinus2 := deltaLen,
           sq_additionalFrameIDLengthMinus1 := addLen\<rparr>) }"

definition seq_tools :: "av1SeqHeader \<Rightarrow> av1SeqHeader reads" where
  "seq_tools s = do {
     sb \<leftarrow> b_flag;
     b_bits 1;
     b_bits 1;
     let s = s\<lparr>sq_use128x128Superblock := sb\<rparr>;
     if sq_reducedStillPictureHeader s
     then ret (s\<lparr>sq_seqForceScreenContentTools := av1SelectScreenContentTools, sq_seqForceIntegerMv := av1SelectIntegerMv, sq_orderHintBits := 0\<rparr>)
     else do {
       b_bits 1;
       b_bits 1;
       warped \<leftarrow> b_flag;
       b_bits 1;
       hint \<leftarrow> b_flag;
       mvs \<leftarrow> (if hint then do { b_bits 1; b_flag } else ret False);
       select \<leftarrow> b_bits 1;
       screen \<leftarrow> (if select = 1 then ret av1SelectScreenContentTools else b_bits 1);
       integer \<leftarrow> (if screen > 0 then do {
                    select \<leftarrow> b_bits 1;
                    if select = 1 then ret av1SelectIntegerMv else b_bits 1 }
                  else ret av1SelectIntegerMv);
       hintBits \<leftarrow> (if hint then do { n \<leftarrow> b_bits 3; ret (n + 1) } else ret (sq_orderHintBits s));
       ret (s\<lparr>sq_enableWarpedMotion := warped, sq_enableOrderHint := hint, sq_enableRefFrameMvs := mvs,
             sq_seqForceScreenContentTools := screen, sq_seqForceIntegerMv := integer, sq_orderHintBits := hintBits\<rparr>) } }"

definition bit_depth :: "u32 \<Rightarrow> bool \<Rightarrow> nat reads" where
  "bit_depth profile high =
     (if profile = 2 \<and> high then do { twelve \<leftarrow> b_bits 1; ret (if twelve = 1 then 12 else 10) }
      else if profile \<le> 2 then ret (if high then 10 else 8)
      else ret 0)"

text \<open>The subsampling of a picture in colour, whose primaries are not those of an RGB picture.\<close>

definition subsampling :: "u32 \<Rightarrow> nat \<Rightarrow> (u32 \<times> u32) reads" where
  "subsampling profile depth =
     (if profile = 0 then ret (1, 1)
      else if profile = 1 then ret (0, 0)
      else if depth = 12 then do {
        x \<leftarrow> b_bits 1;
        y \<leftarrow> (if x = 1 then b_bits 1 else ret 0);
        ret (x, y) }
      else ret (1, 0))"

definition seq_color :: "av1SeqHeader \<Rightarrow> av1SeqHeader reads" where
  "seq_color s = do {
     high \<leftarrow> b_flag;
     depth \<leftarrow> bit_depth (sq_seqProfile s) high;
     mono \<leftarrow> (if sq_seqProfile s = 1 then ret False else b_flag);
     described \<leftarrow> b_flag;
     (prim, transfer, mat) \<leftarrow> (if described then do { p \<leftarrow> b_bits 8; t \<leftarrow> b_bits 8; m \<leftarrow> b_bits 8; ret (p, t, m) } else ret (2, 2, 2));
     (x, y) \<leftarrow> (if mono then do { b_bits 1; ret (1, 1) }
               else if prim = 1 \<and> transfer = 13 \<and> mat = 0 then ret (0, 0)
               else do {
                 b_bits 1;
                 (x, y) \<leftarrow> subsampling (sq_seqProfile s) depth;
                 when_r (x = 1 \<and> y = 1) (b_bits 2);
                 ret (x, y) });
     separate \<leftarrow> (if mono then ret (sq_separateUVDeltaQ s) else b_flag);
     ret (s\<lparr>sq_bitDepth := depth, sq_monoChrome := mono, sq_numPlanes := (if mono then 1 else 3), sq_subsamplingX := x,
           sq_subsamplingY := y, sq_separateUVDeltaQ := separate\<rparr>) }"

definition seq_header :: "av1SeqHeader reads" where
  "seq_header = do {
     profile \<leftarrow> b_bits 3;
     b_bits 1;
     reduced \<leftarrow> b_flag;
     s \<leftarrow> seq_operating (empty_seq\<lparr>sq_seqProfile := profile, sq_reducedStillPictureHeader := reduced\<rparr>);
     s \<leftarrow> seq_frame_size s;
     s \<leftarrow> seq_tools s;
     superres \<leftarrow> b_flag;
     cdef \<leftarrow> b_flag;
     restoration \<leftarrow> b_flag;
     s \<leftarrow> seq_color (s\<lparr>sq_enableSuperres := superres, sq_enableCdef := cdef, sq_enableRestoration := restoration\<rparr>);
     grain \<leftarrow> b_flag;
     ret (s\<lparr>sq_filmGrainParamsPresent := grain\<rparr>) }"

definition parseAV1SequenceHeader :: "bytes \<Rightarrow> av1SeqHeader result" where
  "parseAV1SequenceHeader payload =
     (let (s, r) = run_state seq_header (newBitReader payload) in
      if bt_err r then Inl (Errf ''cenc: av1: truncated sequence_header_obu'') else Inr s)"

end
