(* ===== verification/Av1Frame.thy ===== *)
theory Av1Frame
  imports Av1Seq
begin

text \<open>
  The AV1 frame header (mp4/cenc_av1.go): \<^verbatim>\<open>parseAV1FrameHeader\<close> reads uncompressed_header of the AV1
  specification (5.9.2) field by field, against the sequence header and the state of the reference slots.
  A field keeps the source's name behind \<open>fh_\<close>; a part of the syntax is an operation of the bit reader that
  returns the header it has filled.
\<close>

section \<open>The header\<close>

record av1RefFrameState =
  rf_valid :: bool
  rf_upscaledWidth :: nat
  rf_frameHeight :: nat
  rf_renderWidth :: nat
  rf_renderHeight :: nat
  rf_orderHint :: u32

record av1FrameHeader =
  fh_frameType :: u32
  fh_frameIsIntra :: bool
  fh_showFrame :: bool
  fh_showableFrame :: bool
  fh_errorResilientMode :: bool
  fh_allowScreenContentTools :: bool
  fh_forceIntegerMv :: bool
  fh_frameSizeOverrideFlag :: bool
  fh_orderHint :: u32
  fh_primaryRefFrame :: u32
  fh_refreshFrameFlags :: u32
  fh_refFrameIdx :: "nat list"
  fh_frameWidth :: nat
  fh_frameHeight :: nat
  fh_upscaledWidth :: nat
  fh_renderWidth :: nat
  fh_renderHeight :: nat
  fh_miCols :: nat
  fh_miRows :: nat
  fh_allowIntrabc :: bool
  fh_allowHighPrecisionMv :: bool
  fh_useRefFrameMvs :: bool
  fh_baseQIdx :: u32
  fh_deltaQYDc :: int
  fh_deltaQUDc :: int
  fh_deltaQUAc :: int
  fh_deltaQVDc :: int
  fh_deltaQVAc :: int
  fh_usingQmatrix :: bool
  fh_segmentationEnabled :: bool
  fh_featureEnabled :: "bool list list"
  fh_featureData :: "int list list"
  fh_deltaQPresent :: bool
  fh_codedLossless :: bool
  fh_allLossless :: bool
  fh_tileColsLog2 :: nat
  fh_tileRowsLog2 :: nat
  fh_referenceSelect :: bool

definition av1NumRefFrames :: nat where "av1NumRefFrames = 8"
definition av1RefsPerFrame :: nat where "av1RefsPerFrame = 7"
definition av1PrimaryRefNone :: u32 where "av1PrimaryRefNone = 7"
definition av1FrameKey :: u32 where "av1FrameKey = 0"
definition av1FrameInter :: u32 where "av1FrameInter = 1"
definition av1FrameIntraOnly :: u32 where "av1FrameIntraOnly = 2"
definition av1FrameSwitch :: u32 where "av1FrameSwitch = 3"
definition av1MaxSegments :: nat where "av1MaxSegments = 8"
definition av1SegLvlMax :: nat where "av1SegLvlMax = 8"
definition av1SegLvlAltQ :: nat where "av1SegLvlAltQ = 0"
definition allFrames :: u32 where "allFrames = 0xFF"

definition empty_frame :: av1FrameHeader where
  "empty_frame = \<lparr>fh_frameType = 0, fh_frameIsIntra = False, fh_showFrame = False, fh_showableFrame = False,
     fh_errorResilientMode = False, fh_allowScreenContentTools = False, fh_forceIntegerMv = False, fh_frameSizeOverrideFlag = False,
     fh_orderHint = 0, fh_primaryRefFrame = 0, fh_refreshFrameFlags = 0, fh_refFrameIdx = replicate av1RefsPerFrame 0,
     fh_frameWidth = 0, fh_frameHeight = 0, fh_upscaledWidth = 0, fh_renderWidth = 0, fh_renderHeight = 0, fh_miCols = 0, fh_miRows = 0,
     fh_allowIntrabc = False, fh_allowHighPrecisionMv = False, fh_useRefFrameMvs = False, fh_baseQIdx = 0, fh_deltaQYDc = 0,
     fh_deltaQUDc = 0, fh_deltaQUAc = 0, fh_deltaQVDc = 0, fh_deltaQVAc = 0, fh_usingQmatrix = False, fh_segmentationEnabled = False,
     fh_featureEnabled = replicate av1MaxSegments (replicate av1SegLvlMax False),
     fh_featureData = replicate av1MaxSegments (replicate av1SegLvlMax 0),
     fh_deltaQPresent = False, fh_codedLossless = False, fh_allLossless = False, fh_tileColsLog2 = 0, fh_tileRowsLog2 = 0,
     fh_referenceSelect = False\<rparr>"

section \<open>What the frame is\<close>

definition frame_kind :: "av1SeqHeader \<Rightarrow> av1FrameHeader result reads" where
  "frame_kind seq =
     (if sq_reducedStillPictureHeader seq
      then ret (Inr (empty_frame\<lparr>fh_frameType := av1FrameKey, fh_frameIsIntra := True, fh_showFrame := True, fh_showableFrame := False\<rparr>))
      else do {
        existing \<leftarrow> b_flag;
        if existing then ret (Inl (Errf ''cenc: av1: combined OBU_FRAME with show_existing_frame is not supported''))
        else do {
          t \<leftarrow> b_bits 2;
          showFrame \<leftarrow> b_flag;
          when_r (showFrame \<and> sq_decoderModelInfoPresent seq \<and> \<not> sq_equalPictureInterval seq)
            (b_bits (unat (sq_framePresentationTimeLengthMinus1 seq) + 1));
          showable \<leftarrow> (if showFrame then ret (t \<noteq> av1FrameKey) else b_flag);
          resilient \<leftarrow> (if t = av1FrameSwitch \<or> t = av1FrameKey \<and> showFrame then ret True else b_flag);
          ret (Inr (empty_frame\<lparr>fh_frameType := t, fh_frameIsIntra := t = av1FrameIntraOnly \<or> t = av1FrameKey, fh_showFrame := showFrame,
                     fh_showableFrame := showable, fh_errorResilientMode := resilient\<rparr>)) } })"

definition frame_tools :: "av1SeqHeader \<Rightarrow> av1FrameHeader \<Rightarrow> av1FrameHeader reads" where
  "frame_tools seq fh = do {
     b_bits 1;
     screen \<leftarrow> (if sq_seqForceScreenContentTools seq = av1SelectScreenContentTools then b_flag
               else ret (sq_seqForceScreenContentTools seq \<noteq> 0));
     integer \<leftarrow> (if screen then
                  if sq_seqForceIntegerMv seq = av1SelectIntegerMv then b_flag else ret (sq_seqForceIntegerMv seq \<noteq> 0)
                else ret (fh_forceIntegerMv fh));
     ret (fh\<lparr>fh_allowScreenContentTools := screen, fh_forceIntegerMv := integer \<or> fh_frameIsIntra fh\<rparr>) }"

definition frame_order :: "av1SeqHeader \<Rightarrow> av1FrameHeader \<Rightarrow> av1FrameHeader reads" where
  "frame_order seq fh = do {
     when_r (sq_frameIDNumbersPresent seq)
       (b_bits (unat (sq_additionalFrameIDLengthMinus1 seq) + unat (sq_deltaFrameIDLengthMinus2 seq) + 3));
     override \<leftarrow> (if fh_frameType fh = av1FrameSwitch then ret True
                 else if sq_reducedStillPictureHeader seq then ret False else b_flag);
     hint \<leftarrow> b_bits (unat (sq_orderHintBits seq));
     primary \<leftarrow> (if fh_frameIsIntra fh \<or> fh_errorResilientMode fh then ret av1PrimaryRefNone else b_bits 3);
     ret (fh\<lparr>fh_frameSizeOverrideFlag := override, fh_orderHint := hint, fh_primaryRefFrame := primary\<rparr>) }"

text \<open>The removal times of the operating points from \<open>op\<close> on; an index past the points is a panic.\<close>

fun removal_times :: "av1SeqHeader \<Rightarrow> u32 \<Rightarrow> u32 \<Rightarrow> nat \<Rightarrow> nat \<Rightarrow> unit result reads" where
  "removal_times seq temporalID spatialID op 0 = ret (Inr ())"
| "removal_times seq temporalID spatialID op (Suc n) =
     (if op \<ge> length (sq_decoderModelPresentForOp seq) then ret (Inl Panic)
      else if \<not> sq_decoderModelPresentForOp seq ! op then removal_times seq temporalID spatialID (op + 1) n
      else if op \<ge> length (sq_operatingPointIdc seq) then ret (Inl Panic)
      else do {
        let idc = sq_operatingPointIdc seq ! op;
        let inTemporal = (drop_bit (unat temporalID) idc AND 1 \<noteq> 0);
        let inSpatial = (drop_bit (unat (spatialID + 8)) idc AND 1 \<noteq> 0);
        when_r (idc = 0 \<or> inTemporal \<and> inSpatial) (b_bits (unat (sq_bufferRemovalTimeLengthMinus1 seq) + 1));
        removal_times seq temporalID spatialID (op + 1) n })"

definition frame_removal :: "av1SeqHeader \<Rightarrow> u32 \<Rightarrow> u32 \<Rightarrow> unit result reads" where
  "frame_removal seq temporalID spatialID =
     (if \<not> sq_decoderModelInfoPresent seq then ret (Inr ())
      else do {
        present \<leftarrow> b_flag;
        if present then removal_times seq temporalID spatialID 0 (unat (sq_operatingPointsCntMinus1 seq) + 1) else ret (Inr ()) })"

definition frame_refresh :: "av1SeqHeader \<Rightarrow> av1FrameHeader \<Rightarrow> av1FrameHeader reads" where
  "frame_refresh seq fh = do {
     flags \<leftarrow> (if fh_frameType fh = av1FrameSwitch \<or> fh_frameType fh = av1FrameKey \<and> fh_showFrame fh then ret allFrames else b_bits 8);
     when_r ((\<not> fh_frameIsIntra fh \<or> flags \<noteq> allFrames) \<and> fh_errorResilientMode fh \<and> sq_enableOrderHint seq)
       (repeat_r av1NumRefFrames (b_bits (unat (sq_orderHintBits seq))));
     ret (fh\<lparr>fh_refreshFrameFlags := flags\<rparr>) }"

section \<open>Its size\<close>

definition av1SuperresParams :: "av1SeqHeader \<Rightarrow> av1FrameHeader \<Rightarrow> av1FrameHeader reads" where
  "av1SuperresParams seq fh = do {
     use \<leftarrow> (if sq_enableSuperres seq then b_flag else ret False);
     denom \<leftarrow> (if use then do { d \<leftarrow> b_bits 3; ret (unat d + 9) } else ret 8);
     ret (fh\<lparr>fh_upscaledWidth := fh_frameWidth fh, fh_frameWidth := (fh_frameWidth fh * 8 + denom div 2) div denom\<rparr>) }"

definition av1ComputeImageSize :: "av1FrameHeader \<Rightarrow> av1FrameHeader" where
  "av1ComputeImageSize fh =
     fh\<lparr>fh_miCols := 2 * drop_bit 3 (fh_frameWidth fh + 7), fh_miRows := 2 * drop_bit 3 (fh_frameHeight fh + 7)\<rparr>"

definition av1FrameSize :: "av1SeqHeader \<Rightarrow> av1FrameHeader \<Rightarrow> av1FrameHeader reads" where
  "av1FrameSize seq fh = do {
     fh \<leftarrow> (if fh_frameSizeOverrideFlag fh then do {
              w \<leftarrow> b_bits (unat (sq_frameWidthBitsMinus1 seq) + 1);
              h \<leftarrow> b_bits (unat (sq_frameHeightBitsMinus1 seq) + 1);
              ret (fh\<lparr>fh_frameWidth := unat w + 1, fh_frameHeight := unat h + 1\<rparr>) }
            else ret (fh\<lparr>fh_frameWidth := unat (sq_maxFrameWidthMinus1 seq) + 1, fh_frameHeight := unat (sq_maxFrameHeightMinus1 seq) + 1\<rparr>));
     fh \<leftarrow> av1SuperresParams seq fh;
     ret (av1ComputeImageSize fh) }"

definition av1RenderSize :: "av1FrameHeader \<Rightarrow> av1FrameHeader reads" where
  "av1RenderSize fh = do {
     different \<leftarrow> b_flag;
     if different then do {
       w \<leftarrow> b_bits 16;
       h \<leftarrow> b_bits 16;
       ret (fh\<lparr>fh_renderWidth := unat w + 1, fh_renderHeight := unat h + 1\<rparr>) }
     else ret (fh\<lparr>fh_renderWidth := fh_upscaledWidth fh, fh_renderHeight := fh_frameHeight fh\<rparr>) }"

text \<open>A reference slot; the code's array has eight.\<close>

definition ref_slot :: "av1RefFrameState list \<Rightarrow> nat \<Rightarrow> av1RefFrameState result" where
  "ref_slot refs i = (if i < length refs then Inr (refs ! i) else Inl Panic)"

text \<open>The first reference whose found_ref is set.\<close>

primrec found_ref :: "nat list \<Rightarrow> nat option reads" where
  "found_ref [] = ret None"
| "found_ref (i # is) = do { f \<leftarrow> b_flag; if f then ret (Some i) else found_ref is }"

definition av1FrameSizeWithRefs :: "av1SeqHeader \<Rightarrow> av1RefFrameState list \<Rightarrow> av1FrameHeader \<Rightarrow> av1FrameHeader result reads" where
  "av1FrameSizeWithRefs seq refs fh = do {
     found \<leftarrow> found_ref (fh_refFrameIdx fh);
     case found of
       None \<Rightarrow> do { fh \<leftarrow> av1FrameSize seq fh; fh \<leftarrow> av1RenderSize fh; ret (Inr fh) }
     | Some i \<Rightarrow>
         (case ref_slot refs i of
            Inl e \<Rightarrow> ret (Inl e)
          | Inr ref \<Rightarrow>
              if \<not> rf_valid ref then ret (Inl (Errf ''cenc: av1: frame_size_with_refs reuses a reference slot without a recorded size''))
              else do {
                fh \<leftarrow> av1SuperresParams seq (fh\<lparr>fh_upscaledWidth := rf_upscaledWidth ref, fh_frameWidth := rf_upscaledWidth ref,
                        fh_frameHeight := rf_frameHeight ref, fh_renderWidth := rf_renderWidth ref, fh_renderHeight := rf_renderHeight ref\<rparr>);
                ret (Inr (av1ComputeImageSize fh)) }) }"

primrec ref_indexes :: "av1SeqHeader \<Rightarrow> nat \<Rightarrow> nat list reads" where
  "ref_indexes seq 0 = ret []"
| "ref_indexes seq (Suc n) = do {
     i \<leftarrow> b_bits 3;
     when_r (sq_frameIDNumbersPresent seq) (b_bits (unat (sq_deltaFrameIDLengthMinus2 seq) + 2));
     is \<leftarrow> ref_indexes seq n;
     ret (unat i # is) }"

definition intra_frame :: "av1SeqHeader \<Rightarrow> av1FrameHeader \<Rightarrow> av1FrameHeader reads" where
  "intra_frame seq fh = do {
     fh \<leftarrow> av1FrameSize seq fh;
     fh \<leftarrow> av1RenderSize fh;
     ibc \<leftarrow> (if fh_allowScreenContentTools fh \<and> fh_upscaledWidth fh = fh_frameWidth fh then b_flag else ret (fh_allowIntrabc fh));
     ret (fh\<lparr>fh_allowIntrabc := ibc\<rparr>) }"

definition inter_motion :: "av1SeqHeader \<Rightarrow> av1FrameHeader \<Rightarrow> av1FrameHeader reads" where
  "inter_motion seq fh = do {
     precise \<leftarrow> (if fh_forceIntegerMv fh then ret False else b_flag);
     switchable \<leftarrow> b_flag;
     when_r (\<not> switchable) (b_bits 2);
     b_bits 1;
     mvs \<leftarrow> (if fh_errorResilientMode fh \<or> \<not> sq_enableRefFrameMvs seq then ret False else b_flag);
     ret (fh\<lparr>fh_allowHighPrecisionMv := precise, fh_useRefFrameMvs := mvs\<rparr>) }"

definition inter_frame :: "av1SeqHeader \<Rightarrow> av1RefFrameState list \<Rightarrow> av1FrameHeader \<Rightarrow> av1FrameHeader result reads" where
  "inter_frame seq refs fh = do {
     short \<leftarrow> (if sq_enableOrderHint seq then b_flag else ret False);
     if short then ret (Inl (Errf ''cenc: av1: frame_refs_short_signaling is not supported for subsample encryption''))
     else do {
       is \<leftarrow> ref_indexes seq av1RefsPerFrame;
       let fh = fh\<lparr>fh_refFrameIdx := is\<rparr>;
       sized \<leftarrow> (if fh_frameSizeOverrideFlag fh \<and> \<not> fh_errorResilientMode fh then av1FrameSizeWithRefs seq refs fh
                else do { fh \<leftarrow> av1FrameSize seq fh; fh \<leftarrow> av1RenderSize fh; ret (Inr fh) });
       case sized of Inl e \<Rightarrow> ret (Inl e) | Inr fh \<Rightarrow> do { fh \<leftarrow> inter_motion seq fh; ret (Inr fh) } } }"

section \<open>Tiles\<close>

definition av1MaxTileWidth :: nat where "av1MaxTileWidth = 4096"
definition av1MaxTileArea :: nat where "av1MaxTileArea = 4096 * 2304"
definition av1MaxTileCols :: nat where "av1MaxTileCols = 64"
definition av1MaxTileRows :: nat where "av1MaxTileRows = 64"

text \<open>Tiles of their own sizes: how many, and the widest, until \<open>n\<close> superblocks are covered.\<close>

function tile_sizes :: "nat \<Rightarrow> nat \<Rightarrow> nat \<Rightarrow> nat \<Rightarrow> nat \<Rightarrow> (nat \<times> nat) reads" where
  "tile_sizes n widest_allowed start cnt widest =
     (if start < n then do {
        v \<leftarrow> av1NS (min (n - start) widest_allowed);
        let sz = unat v + 1;
        tile_sizes n widest_allowed (start + sz) (cnt + 1) (max widest sz) }
      else ret (cnt, widest))"
  by pat_completeness auto
termination by (relation "measure (\<lambda>(n, w, start, t, x). n - start)") auto

declare tile_sizes.simps [simp del]

definition uniform_tiles :: "nat \<Rightarrow> nat \<Rightarrow> nat \<Rightarrow> nat \<Rightarrow> (nat \<times> nat) reads" where
  "uniform_tiles minLog2TileCols maxLog2TileCols minLog2Tiles maxLog2TileRows = do {
     k \<leftarrow> increments (maxLog2TileCols - minLog2TileCols);
     let cols = minLog2TileCols + k;
     let minLog2TileRows = minLog2Tiles - cols;
     k \<leftarrow> increments (maxLog2TileRows - minLog2TileRows);
     ret (cols, minLog2TileRows + k) }"

definition own_tiles :: "nat \<Rightarrow> nat \<Rightarrow> nat \<Rightarrow> nat \<Rightarrow> (nat \<times> nat) reads" where
  "own_tiles sbCols sbRows maxTileWidthSb minLog2Tiles = do {
     (tileCols, widestTileSb) \<leftarrow> tile_sizes sbCols maxTileWidthSb 0 0 0;
     let maxTileAreaSb = (if minLog2Tiles > 0 then drop_bit (minLog2Tiles + 1) (sbRows * sbCols) else sbRows * sbCols);
     let maxTileHeightSb = (if widestTileSb > 0 then max (maxTileAreaSb div widestTileSb) 1 else 1);
     (tileRows, _) \<leftarrow> tile_sizes sbRows maxTileHeightSb 0 0 0;
     ret (av1TileLog2 1 tileCols, av1TileLog2 1 tileRows) }"

definition av1TileInfo :: "av1SeqHeader \<Rightarrow> av1FrameHeader \<Rightarrow> av1FrameHeader reads" where
  "av1TileInfo seq fh = do {
     let sbShift = (if sq_use128x128Superblock seq then 5 else 4 :: nat);
     let sbSize = sbShift + 2;
     let sbCols = drop_bit sbShift (fh_miCols fh + (2 ^ sbShift - 1));
     let sbRows = drop_bit sbShift (fh_miRows fh + (2 ^ sbShift - 1));
     let maxTileWidthSb = drop_bit sbSize av1MaxTileWidth;
     let maxTileAreaSb = drop_bit (2 * sbSize) av1MaxTileArea;
     let minLog2TileCols = av1TileLog2 maxTileWidthSb sbCols;
     let minLog2Tiles = max minLog2TileCols (av1TileLog2 maxTileAreaSb (sbRows * sbCols));
     uniform \<leftarrow> b_flag;
     (cols, rows) \<leftarrow>
       (if uniform then uniform_tiles minLog2TileCols (av1TileLog2 1 (min sbCols av1MaxTileCols)) minLog2Tiles
                          (av1TileLog2 1 (min sbRows av1MaxTileRows))
        else own_tiles sbCols sbRows maxTileWidthSb minLog2Tiles);
     when_r (cols > 0 \<or> rows > 0) (do { b_bits (rows + cols); b_bits 2 });
     ret (fh\<lparr>fh_tileColsLog2 := cols, fh_tileRowsLog2 := rows\<rparr>) }"

section \<open>Quantization and segmentation\<close>

definition av1ReadDeltaQ :: "int reads" where
  "av1ReadDeltaQ = do { coded \<leftarrow> b_flag; if coded then av1SU 7 else ret 0 }"

definition av1QuantizationParams :: "av1SeqHeader \<Rightarrow> av1FrameHeader \<Rightarrow> av1FrameHeader reads" where
  "av1QuantizationParams seq fh = do {
     base \<leftarrow> b_bits 8;
     ydc \<leftarrow> av1ReadDeltaQ;
     fh \<leftarrow> (if sq_numPlanes seq > 1 then do {
              diff \<leftarrow> (if sq_separateUVDeltaQ seq then b_flag else ret False);
              udc \<leftarrow> av1ReadDeltaQ;
              uac \<leftarrow> av1ReadDeltaQ;
              (vdc, vac) \<leftarrow> (if diff then do { d \<leftarrow> av1ReadDeltaQ; a \<leftarrow> av1ReadDeltaQ; ret (d, a) } else ret (udc, uac));
              ret (fh\<lparr>fh_deltaQUDc := udc, fh_deltaQUAc := uac, fh_deltaQVDc := vdc, fh_deltaQVAc := vac\<rparr>) }
            else ret fh);
     matrix \<leftarrow> b_flag;
     when_r matrix (do { b_bits 4; b_bits 4; when_r (sq_separateUVDeltaQ seq) (b_bits 4) });
     ret (fh\<lparr>fh_baseQIdx := base, fh_deltaQYDc := ydc, fh_usingQmatrix := matrix\<rparr>) }"

text \<open>The features of a segment: bits, sign and limit.\<close>

definition av1_seg_features :: "(nat \<times> bool \<times> int) list" where
  "av1_seg_features = [(8, True, 255), (6, True, 63), (6, True, 63), (6, True, 63), (6, True, 63), (3, False, 7), (0, False, 0), (0, False, 0)]"

primrec seg_features :: "(nat \<times> bool \<times> int) list \<Rightarrow> (bool \<times> int) list reads" where
  "seg_features [] = ret []"
| "seg_features (f # fs) = do {
     let (n, signed, limit) = f;
     enabled \<leftarrow> b_flag;
     x \<leftarrow> (if \<not> enabled then ret 0
          else if signed then do { v \<leftarrow> av1SU (1 + n); ret (av1Clip3 (- limit) limit v) }
          else do { v \<leftarrow> b_bits n; ret (av1Clip3 0 limit (sint v)) });
     xs \<leftarrow> seg_features fs;
     ret ((enabled, x) # xs) }"

primrec segments_features :: "nat \<Rightarrow> (bool \<times> int) list list reads" where
  "segments_features 0 = ret []"
| "segments_features (Suc n) = do { x \<leftarrow> seg_features av1_seg_features; xs \<leftarrow> segments_features n; ret (x # xs) }"

definition av1SegmentationParams :: "av1FrameHeader \<Rightarrow> av1FrameHeader result reads" where
  "av1SegmentationParams fh = do {
     enabled \<leftarrow> b_flag;
     let fh = fh\<lparr>fh_segmentationEnabled := enabled\<rparr>;
     if \<not> enabled then ret (Inr fh)
     else do {
       update \<leftarrow> (if fh_primaryRefFrame fh \<noteq> av1PrimaryRefNone then do {
                    m \<leftarrow> b_flag;
                    when_r m (b_bits 1);
                    b_flag }
                 else ret True);
       if \<not> update then ret (Inl (Errf ''cenc: av1: segmentation_params reusing a previous frame's feature data is not supported''))
       else do {
         fs \<leftarrow> segments_features av1MaxSegments;
         ret (Inr (fh\<lparr>fh_featureEnabled := map (map fst) fs, fh_featureData := map (map snd) fs\<rparr>)) } } }"

definition av1DeltaQParams :: "av1FrameHeader \<Rightarrow> av1FrameHeader reads" where
  "av1DeltaQParams fh = do {
     present \<leftarrow> (if fh_baseQIdx fh > 0 then b_flag else ret (fh_deltaQPresent fh));
     when_r present (b_bits 2);
     ret (fh\<lparr>fh_deltaQPresent := present\<rparr>) }"

definition av1DeltaLfParams :: "av1FrameHeader \<Rightarrow> unit reads" where
  "av1DeltaLfParams fh =
     (if \<not> fh_deltaQPresent fh then ret ()
      else do {
        present \<leftarrow> (if \<not> fh_allowIntrabc fh then b_flag else ret False);
        when_r present (do { b_bits 2; b_bits 1 }) })"

definition av1GetQIndex :: "av1FrameHeader \<Rightarrow> nat \<Rightarrow> int" where
  "av1GetQIndex fh seg =
     (if fh_segmentationEnabled fh \<and> fh_featureEnabled fh ! seg ! av1SegLvlAltQ
      then av1Clip3 0 255 (sint (fh_baseQIdx fh) + fh_featureData fh ! seg ! av1SegLvlAltQ)
      else sint (fh_baseQIdx fh))"

definition frame_lossless :: "av1FrameHeader \<Rightarrow> av1FrameHeader" where
  "frame_lossless fh =
     (let coded = list_all (\<lambda>seg. av1GetQIndex fh seg = 0 \<and> fh_deltaQYDc fh = 0 \<and> fh_deltaQUAc fh = 0 \<and>
            fh_deltaQUDc fh = 0 \<and> fh_deltaQVAc fh = 0 \<and> fh_deltaQVDc fh = 0) [0..<av1MaxSegments]
      in fh\<lparr>fh_codedLossless := coded, fh_allLossless := coded \<and> fh_frameWidth fh = fh_upscaledWidth fh\<rparr>)"

section \<open>Filters\<close>

definition filter_delta :: "unit reads" where
  "filter_delta = do { update \<leftarrow> b_flag; when_r update (av1SU 7) }"

definition av1LoopFilterParams :: "av1SeqHeader \<Rightarrow> av1FrameHeader \<Rightarrow> unit reads" where
  "av1LoopFilterParams seq fh =
     (if fh_codedLossless fh \<or> fh_allowIntrabc fh then ret ()
      else do {
        level0 \<leftarrow> b_bits 6;
        level1 \<leftarrow> b_bits 6;
        when_r (sq_numPlanes seq > 1 \<and> (level0 \<noteq> 0 \<or> level1 \<noteq> 0)) (do { b_bits 6; b_bits 6 });
        b_bits 3;
        enabled \<leftarrow> b_flag;
        when_r enabled (do {
          update \<leftarrow> b_flag;
          when_r update (do { repeat_r 8 filter_delta; repeat_r 2 filter_delta }) }) })"

definition av1CdefParams :: "av1SeqHeader \<Rightarrow> av1FrameHeader \<Rightarrow> unit reads" where
  "av1CdefParams seq fh =
     (if fh_codedLossless fh \<or> fh_allowIntrabc fh \<or> \<not> sq_enableCdef seq then ret ()
      else do {
        b_bits 2;
        n \<leftarrow> b_bits 2;
        repeat_r (2 ^ unat n) (do {
          b_bits 4;
          b_bits 2;
          when_r (sq_numPlanes seq > 1) (do { b_bits 4; b_bits 2 }) }) })"

text \<open>Whether a plane is restored, and whether one of the chroma planes is.\<close>

fun lr_planes :: "nat \<Rightarrow> nat \<Rightarrow> bool \<Rightarrow> bool \<Rightarrow> (bool \<times> bool) reads" where
  "lr_planes i 0 uses chroma = ret (uses, chroma)"
| "lr_planes i (Suc n) uses chroma = do {
     t \<leftarrow> b_bits 2;
     if t \<noteq> 0 then lr_planes (i + 1) n True (chroma \<or> i > 0) else lr_planes (i + 1) n uses chroma }"

definition av1LrParams :: "av1SeqHeader \<Rightarrow> av1FrameHeader \<Rightarrow> unit reads" where
  "av1LrParams seq fh =
     (if fh_allLossless fh \<or> fh_allowIntrabc fh \<or> \<not> sq_enableRestoration seq then ret ()
      else do {
        (usesLr, usesChromaLr) \<leftarrow> lr_planes 0 (sq_numPlanes seq) False False;
        when_r usesLr (do {
          shift \<leftarrow> b_flag;
          when_r (\<not> sq_use128x128Superblock seq \<and> shift) (b_bits 1);
          when_r (sq_subsamplingX seq = 1 \<and> sq_subsamplingY seq = 1 \<and> usesChromaLr) (b_bits 1) }) })"

section \<open>References\<close>

definition av1RelativeDist :: "av1SeqHeader \<Rightarrow> u32 \<Rightarrow> u32 \<Rightarrow> int" where
  "av1RelativeDist seq a b =
     (if \<not> sq_enableOrderHint seq then 0
      else let diff = wrap32 (sint a - sint b); m = (2 :: int) ^ unat (sq_orderHintBits seq - 1)
        in (diff AND (m - 1)) - (diff AND m))"

text \<open>The nearest hint before the frame, and the nearest behind it, over the hints of the references in turn.\<close>

fun nearest_refs :: "av1SeqHeader \<Rightarrow> u32 \<Rightarrow> u32 option \<Rightarrow> u32 option \<Rightarrow> u32 list \<Rightarrow> u32 option \<times> u32 option" where
  "nearest_refs seq hint fwd bwd [] = (fwd, bwd)"
| "nearest_refs seq hint fwd bwd (h # hs) =
     (let dist = av1RelativeDist seq h hint in
      if dist < 0 then
        nearest_refs seq hint (if fwd = None \<or> av1RelativeDist seq h (the fwd) > 0 then Some h else fwd) bwd hs
      else if dist > 0 then
        nearest_refs seq hint fwd (if bwd = None \<or> av1RelativeDist seq h (the bwd) < 0 then Some h else bwd) hs
      else nearest_refs seq hint fwd bwd hs)"

definition skip_allowed :: "av1SeqHeader \<Rightarrow> u32 \<Rightarrow> u32 list \<Rightarrow> bool" where
  "skip_allowed seq hint hs =
     (case nearest_refs seq hint None None hs of
        (None, bwd) \<Rightarrow> False
      | (Some f, Some b) \<Rightarrow> True
      | (Some f, None) \<Rightarrow> list_ex (\<lambda>h. av1RelativeDist seq h f < 0) hs)"

text \<open>The order hints of the slots the frame refers to.\<close>

fun ref_hints :: "av1RefFrameState list \<Rightarrow> nat list \<Rightarrow> u32 list result" where
  "ref_hints refs [] = Inr []"
| "ref_hints refs (i # is) = bind_r (ref_slot refs i) (\<lambda>r. bind_r (ref_hints refs is) (\<lambda>hs. Inr (rf_orderHint r # hs)))"

definition av1SkipModeParams :: "av1SeqHeader \<Rightarrow> av1RefFrameState list \<Rightarrow> av1FrameHeader \<Rightarrow> unit result reads" where
  "av1SkipModeParams seq refs fh =
     (if \<not> fh_frameIsIntra fh \<and> fh_referenceSelect fh \<and> sq_enableOrderHint seq then
        (case ref_hints refs (fh_refFrameIdx fh) of
           Inl e \<Rightarrow> ret (Inl e)
         | Inr hs \<Rightarrow> do { when_r (skip_allowed seq (fh_orderHint fh) hs) (b_bits 1); ret (Inr ()) })
      else ret (Inr ()))"

section \<open>Global motion\<close>

definition av1GmIdentity :: nat where "av1GmIdentity = 0"
definition av1GmTranslation :: nat where "av1GmTranslation = 1"
definition av1GmRotZoom :: nat where "av1GmRotZoom = 2"
definition av1GmAffine :: nat where "av1GmAffine = 3"
definition av1GmAbsAlphaBits :: nat where "av1GmAbsAlphaBits = 12"
definition av1GmAbsTransOnlyBits :: nat where "av1GmAbsTransOnlyBits = 9"
definition av1GmAbsTransBits :: nat where "av1GmAbsTransBits = 12"

definition av1ReadGlobalParam :: "nat \<Rightarrow> av1FrameHeader \<Rightarrow> nat \<Rightarrow> u32 reads" where
  "av1ReadGlobalParam gmType fh idx =
     (let absBits = (if idx < 2 then
                       if gmType = av1GmTranslation then
                         (if \<not> fh_allowHighPrecisionMv fh then av1GmAbsTransOnlyBits - 1 else av1GmAbsTransOnlyBits)
                       else av1GmAbsTransBits
                     else av1GmAbsAlphaBits);
          mx = 2 ^ absBits
      in av1DecodeSubexp (2 * mx + 1))"

definition gm_type :: "nat reads" where
  "gm_type = do {
     global \<leftarrow> b_flag;
     if \<not> global then ret av1GmIdentity
     else do {
       rotZoom \<leftarrow> b_flag;
       if rotZoom then ret av1GmRotZoom
       else do { translation \<leftarrow> b_flag; ret (if translation then av1GmTranslation else av1GmAffine) } } }"

definition gm_params :: "av1FrameHeader \<Rightarrow> unit reads" where
  "gm_params fh = do {
     t \<leftarrow> gm_type;
     when_r (t \<ge> av1GmRotZoom) (do {
       av1ReadGlobalParam t fh 2;
       av1ReadGlobalParam t fh 3;
       when_r (t = av1GmAffine) (do { av1ReadGlobalParam t fh 4; av1ReadGlobalParam t fh 5 }) });
     when_r (t \<ge> av1GmTranslation) (do { av1ReadGlobalParam t fh 0; av1ReadGlobalParam t fh 1 }) }"

definition av1GlobalMotionParams :: "av1FrameHeader \<Rightarrow> unit reads" where
  "av1GlobalMotionParams fh = (if fh_frameIsIntra fh then ret () else repeat_r 7 (gm_params fh))"

section \<open>Film grain\<close>

definition grain_points :: "u32 reads" where
  "grain_points = do { n \<leftarrow> b_bits 4; repeat_r (unat n) (do { b_bits 8; b_bits 8 }); ret n }"

definition grain_params :: "av1SeqHeader \<Rightarrow> unit reads" where
  "grain_params seq = do {
     numY \<leftarrow> grain_points;
     fromLuma \<leftarrow> (if sq_monoChrome seq then ret False else b_flag);
     let implicitNone = (sq_seqProfile seq = 0 \<and> sq_subsamplingX seq = 1 \<and> sq_subsamplingY seq = 1 \<and> numY = 0);
     (numCb, numCr) \<leftarrow> (if \<not> sq_monoChrome seq \<and> \<not> fromLuma \<and> \<not> implicitNone
                        then do { b \<leftarrow> grain_points; r \<leftarrow> grain_points; ret (b, r) } else ret (0, 0));
     b_bits 2;
     lag \<leftarrow> b_bits 2;
     let luma = 2 * lag * (lag + 1);
     let chroma = (if numY > 0 then luma + 1 else luma);
     when_r (numY > 0) (repeat_r (unat luma) (b_bits 8));
     when_r (fromLuma \<or> numCb > 0) (repeat_r (unat chroma) (b_bits 8));
     when_r (fromLuma \<or> numCr > 0) (repeat_r (unat chroma) (b_bits 8));
     b_bits 2;
     b_bits 2;
     when_r (numCb > 0) (do { b_bits 8; b_bits 8; b_bits 9 });
     when_r (numCr > 0) (do { b_bits 8; b_bits 8; b_bits 9 });
     b_bits 1;
     b_bits 1;
     ret () }"

definition av1FilmGrainParams :: "av1SeqHeader \<Rightarrow> av1FrameHeader \<Rightarrow> unit reads" where
  "av1FilmGrainParams seq fh =
     (if \<not> sq_filmGrainParamsPresent seq \<or> \<not> fh_showFrame fh \<and> \<not> fh_showableFrame fh then ret ()
      else do {
        grain \<leftarrow> b_flag;
        if \<not> grain then ret ()
        else do {
          b_bits 16;
          update \<leftarrow> (if fh_frameType fh = av1FrameInter then b_flag else ret True);
          if \<not> update then when_r True (b_bits 3) else grain_params seq } })"

section \<open>The whole header\<close>

definition then_r :: "'a result reads \<Rightarrow> ('a \<Rightarrow> 'b result reads) \<Rightarrow> 'b result reads" where
  "then_r m f = do { v \<leftarrow> m; case v of Inl e \<Rightarrow> ret (Inl e) | Inr x \<Rightarrow> f x }"

text \<open>The fields up to the frame's size, those of a frame in itself or of one that refers to others, and what follows.\<close>

definition header_start :: "av1SeqHeader \<Rightarrow> u32 \<Rightarrow> u32 \<Rightarrow> av1FrameHeader result reads" where
  "header_start seq temporalID spatialID =
     then_r (frame_kind seq) (\<lambda>fh. do {
       fh \<leftarrow> frame_tools seq fh;
       fh \<leftarrow> frame_order seq fh;
       then_r (frame_removal seq temporalID spatialID) (\<lambda>_. do { fh \<leftarrow> frame_refresh seq fh; ret (Inr fh) }) })"

definition header_refs :: "av1SeqHeader \<Rightarrow> av1RefFrameState list \<Rightarrow> av1FrameHeader \<Rightarrow> av1FrameHeader result reads" where
  "header_refs seq refs fh =
     (if fh_frameIsIntra fh then do { fh \<leftarrow> intra_frame seq fh; ret (Inr fh) } else inter_frame seq refs fh)"

definition header_end :: "av1SeqHeader \<Rightarrow> av1RefFrameState list \<Rightarrow> av1FrameHeader \<Rightarrow> av1FrameHeader result reads" where
  "header_end seq refs fh =
     then_r (av1SkipModeParams seq refs fh) (\<lambda>_. do {
       when_r (\<not> fh_frameIsIntra fh \<and> \<not> fh_errorResilientMode fh \<and> sq_enableWarpedMotion seq) (b_bits 1);
       b_bits 1;
       av1GlobalMotionParams fh;
       av1FilmGrainParams seq fh;
       e \<leftarrow> b_failed;
       ret (if e then Inl (Errf ''cenc: av1: truncated frame_header_obu'') else Inr fh) })"

definition header_rest :: "av1SeqHeader \<Rightarrow> av1RefFrameState list \<Rightarrow> av1FrameHeader \<Rightarrow> av1FrameHeader result reads" where
  "header_rest seq refs fh = do {
     when_r (\<not> sq_reducedStillPictureHeader seq) (b_bits 1);
     fh \<leftarrow> av1TileInfo seq fh;
     fh \<leftarrow> av1QuantizationParams seq fh;
     then_r (av1SegmentationParams fh) (\<lambda>fh. do {
       fh \<leftarrow> av1DeltaQParams fh;
       av1DeltaLfParams fh;
       let fh = frame_lossless fh;
       av1LoopFilterParams seq fh;
       av1CdefParams seq fh;
       av1LrParams seq fh;
       when_r (\<not> fh_codedLossless fh) (b_bits 1);
       select \<leftarrow> (if fh_frameIsIntra fh then ret (fh_referenceSelect fh) else b_flag);
       header_end seq refs (fh\<lparr>fh_referenceSelect := select\<rparr>) }) }"

definition parseAV1FrameHeader :: "av1SeqHeader \<Rightarrow> av1RefFrameState list \<Rightarrow> u32 \<Rightarrow> u32 \<Rightarrow> av1FrameHeader result reads" where
  "parseAV1FrameHeader seq refs temporalID spatialID =
     then_r (header_start seq temporalID spatialID) (\<lambda>fh.
     then_r (header_refs seq refs fh) (\<lambda>fh. header_rest seq refs fh))"

end
