(* ===== verification/Av1Split.thy ===== *)
theory Av1Split
  imports Av1Frame
begin

text \<open>
  \<^verbatim>\<open>av1Splitter\<close> of mp4/cenc_av1.go: the OBUs of a sample, the state a segment carries (its sequence header and
  the sizes behind the eight reference slots) and the subsamples.  The splitter covers every sample and never
  panics; what it protects is the tile data of its frames and tile groups, in whole cipher blocks.
\<close>

section \<open>OBUs\<close>

definition obuSeqHeader :: byte where "obuSeqHeader = 1"
definition obuTemporalDelimiter :: byte where "obuTemporalDelimiter = 2"
definition obuFrameHeader :: byte where "obuFrameHeader = 3"
definition obuTileGroup :: byte where "obuTileGroup = 4"
definition obuMetadata :: byte where "obuMetadata = 5"
definition obuFrame :: byte where "obuFrame = 6"
definition obuRedundantFrameHdr :: byte where "obuRedundantFrameHdr = 7"
definition obuTileList :: byte where "obuTileList = 8"
definition obuPadding :: byte where "obuPadding = 15"

record obu =
  ob_type :: byte
  ob_temporalID :: u32
  ob_spatialID :: u32
  ob_header :: nat
  ob_payload :: bytes

text \<open>The extension behind the first byte of an OBU.\<close>

definition obu_ext :: "byte \<Rightarrow> bytes \<Rightarrow> ((u32 \<times> u32) \<times> bytes) result" where
  "obu_ext header rest =
     (if drop_bit 2 header AND 1 = 1 then
        (case rest of [] \<Rightarrow> Inl (Errf ''cenc: av1: truncated OBU extension header'')
         | ext # rest \<Rightarrow> Inr ((ucast (drop_bit 5 ext), ucast (drop_bit 3 ext AND 3)), rest))
      else Inr ((0, 0), rest))"

text \<open>The length of its payload.  An OBU without a size runs to the end of the sample.\<close>

definition obu_size :: "byte \<Rightarrow> bytes \<Rightarrow> (nat \<times> bytes) result" where
  "obu_size header rest =
     (if drop_bit 1 header AND 1 = 1 then
        bind_r (readLEB128 rest) (\<lambda>(v, n).
          if v > word_of_nat (length (drop n rest)) then Inl (Errf ''cenc: av1: OBU payload size exceeds sample bounds'')
          else Inr (unat v, drop n rest))
      else Inr (length rest, rest))"

text \<open>The first OBU of \<open>sample\<close>, and the sample behind it.\<close>

definition next_obu :: "bytes \<Rightarrow> (obu \<times> bytes) result" where
  "next_obu sample =
     (case sample of [] \<Rightarrow> Inl Panic
      | header # rest \<Rightarrow>
          bind_r (obu_ext header rest) (\<lambda>((temporalID, spatialID), rest).
          bind_r (obu_size header rest) (\<lambda>(payloadLen, rest).
            if payloadLen > length rest then Inl (Errf ''cenc: av1: OBU payload size exceeds sample bounds'')
            else Inr (\<lparr>ob_type = drop_bit 3 header AND 0x0F, ob_temporalID = temporalID, ob_spatialID = spatialID,
                       ob_header = length sample - length rest, ob_payload = take payloadLen rest\<rparr>, drop payloadLen rest))))"

section \<open>The splitter\<close>

record av1Splitter =
  as_seq :: "av1SeqHeader option"
  as_refs :: "av1RefFrameState list"

definition no_ref :: av1RefFrameState where
  "no_ref = \<lparr>rf_valid = False, rf_upscaledWidth = 0, rf_frameHeight = 0, rf_renderWidth = 0, rf_renderHeight = 0, rf_orderHint = 0\<rparr>"

definition newAV1Splitter :: av1Splitter where
  "newAV1Splitter = \<lparr>as_seq = None, as_refs = replicate av1NumRefFrames no_ref\<rparr>"

definition frame_ref :: "av1FrameHeader \<Rightarrow> av1RefFrameState" where
  "frame_ref fh = \<lparr>rf_valid = True, rf_upscaledWidth = fh_upscaledWidth fh, rf_frameHeight = fh_frameHeight fh,
     rf_renderWidth = fh_renderWidth fh, rf_renderHeight = fh_renderHeight fh, rf_orderHint = fh_orderHint fh\<rparr>"

text \<open>The reference frame update: the slots from \<open>slot\<close> on that the frame refreshes hold it.\<close>

primrec refresh_from :: "nat \<Rightarrow> av1FrameHeader \<Rightarrow> av1RefFrameState list \<Rightarrow> av1RefFrameState list" where
  "refresh_from slot fh [] = []"
| "refresh_from slot fh (r # rs) =
     (if fh_refreshFrameFlags fh AND push_bit slot 1 \<noteq> 0 then frame_ref fh else r) # refresh_from (slot + 1) fh rs"

text \<open>The subsample behind a clear run, with the clear bytes left over behind its blocks.\<close>

definition protect :: "nat \<Rightarrow> nat \<Rightarrow> (cencSubsample list \<times> nat) result" where
  "protect clearRun tileLen =
     (if clearRun > 0xFFFF then Inl (Errf ''cenc: av1: clear region exceeds the 16-bit subsample limit'')
      else let protectedLen = tileLen div 16 * 16
        in Inr ([\<lparr>sub_clear = word_of_nat clearRun, sub_protected = word_of_nat protectedLen\<rparr>], tileLen - protectedLen))"

definition obu_frame :: "obu \<Rightarrow> av1Splitter \<Rightarrow> (av1FrameHeader \<times> nat) result" where
  "obu_frame ob s =
     (case as_seq s of None \<Rightarrow> Inl (Errf ''cenc: av1: OBU_FRAME with no active sequence header in this segment'')
      | Some seq \<Rightarrow>
          (case run_state (parseAV1FrameHeader seq (as_refs s) (ob_temporalID ob) (ob_spatialID ob)) (newBitReader (ob_payload ob)) of
             (Inl e, r) \<Rightarrow> Inl e
           | (Inr fh, r) \<Rightarrow>
               if fh_tileColsLog2 fh > 0 \<or> fh_tileRowsLog2 fh > 0
               then Inl (Errf ''cenc: av1: a frame of several tiles, whose sizes one subsample would encrypt'')
               else let clearInFrame = (bt_pos r + 7) div 8 in
                 if clearInFrame > length (ob_payload ob) then Inl (Errf ''cenc: av1: frame_header_obu parsed past the OBU_FRAME payload'')
                 else Inr (fh, clearInFrame)))"

definition obu_step :: "obu \<Rightarrow> av1Splitter \<Rightarrow> nat \<Rightarrow> (cencSubsample list \<times> nat \<times> av1Splitter) result" where
  "obu_step ob s clearRun =
     (if ob_type ob = obuSeqHeader then
        bind_r (parseAV1SequenceHeader (ob_payload ob)) (\<lambda>seq.
          Inr ([], clearRun + (ob_header ob + length (ob_payload ob)), s\<lparr>as_seq := Some seq\<rparr>))
      else if ob_type ob = obuTileGroup then
        bind_r (protect (clearRun + ob_header ob) (length (ob_payload ob))) (\<lambda>(subs, clearRun). Inr (subs, clearRun, s))
      else if ob_type ob = obuFrame then
        bind_r (obu_frame ob s) (\<lambda>(fh, clearInFrame).
        bind_r (protect (clearRun + (ob_header ob + clearInFrame)) (length (ob_payload ob) - clearInFrame)) (\<lambda>(subs, clearRun).
          Inr (subs, clearRun, s\<lparr>as_refs := refresh_from 0 fh (as_refs s)\<rparr>)))
      else Inr ([], clearRun + (ob_header ob + length (ob_payload ob)), s))"

lemma leb_loop_reads: "leb_loop k i b v = Inr (x, n) \<Longrightarrow> i < n \<and> n - i \<le> length b"
  by (induction k i b v rule: leb_loop.induct) (fastforce simp: Let_def split: if_splits list.splits)+

lemma obu_ext_rest: "obu_ext h rest = Inr (ids, rest') \<Longrightarrow> \<exists>e. rest = e @ rest'"
  by (auto simp: obu_ext_def split: if_splits list.splits)

lemma obu_size_rest: "obu_size h rest = Inr (n, rest') \<Longrightarrow> \<exists>e. rest = e @ rest'"
  by (auto simp: obu_size_def bind_r_Inr split: if_splits) (metis append_take_drop_id)

text \<open>An OBU is its header, of at least a byte, and its payload.\<close>

lemma next_obu_parts:
  assumes "next_obu sample = Inr (ob, rest)"
  shows "\<exists>h. sample = h @ ob_payload ob @ rest \<and> length h = ob_header ob \<and> h \<noteq> []"
proof -
  obtain header r1 ids r2 n r3 where "sample = header # r1" "obu_ext header r1 = Inr (ids, r2)" "obu_size header r2 = Inr (n, r3)"
      "n \<le> length r3" "ob_header ob = length sample - length r3" "ob_payload ob = take n r3" "rest = drop n r3"
    using assms by (auto simp: next_obu_def bind_r_Inr split: list.splits if_splits)
  moreover from this obtain e1 e2 where "r1 = e1 @ r2" "r2 = e2 @ r3" using obu_ext_rest obu_size_rest by blast
  ultimately show ?thesis by (intro exI [of _ "header # e1 @ e2"]) simp
qed

lemma next_obu_shorter: "next_obu sample = Inr (ob, rest) \<Longrightarrow> length rest < length sample"
  using next_obu_parts by fastforce

function av1_obus :: "bytes \<Rightarrow> av1Splitter \<Rightarrow> nat \<Rightarrow> (cencSubsample list \<times> nat \<times> av1Splitter) result" where
  "av1_obus sample s clearRun =
     (if sample = [] then Inr ([], clearRun, s)
      else bind_r (next_obu sample) (\<lambda>(ob, rest).
        bind_r (obu_step ob s clearRun) (\<lambda>(new, clearRun, s).
        bind_r (av1_obus rest s clearRun) (\<lambda>(subs, clearRun, s). Inr (new @ subs, clearRun, s)))))"
  by pat_completeness auto
termination by (relation "measure (\<lambda>(sample, s, c). length sample)") (auto dest: next_obu_shorter)

declare av1_obus.simps [simp del]

definition av1_split :: "bytes \<Rightarrow> av1Splitter \<Rightarrow> (cencSubsample list \<times> av1Splitter) result" where
  "av1_split sample s =
     bind_r (av1_obus sample s 0) (\<lambda>(subs, clearRun, s).
       if clearRun > 0 \<or> subs = [] then
         if clearRun > 0xFFFF then Inl (Errf ''cenc: av1: clear region exceeds the 16-bit subsample limit'')
         else Inr (subs @ [\<lparr>sub_clear = word_of_nat clearRun, sub_protected = 0\<rparr>], s)
       else Inr (subs, s))"

text \<open>\<^verbatim>\<open>splitAV1Subsamples\<close>, a sample on its own.\<close>

definition splitAV1Subsamples :: "bytes \<Rightarrow> cencSubsample list result" where
  "splitAV1Subsamples sample = bind_r (av1_split sample newAV1Splitter) (\<lambda>(subs, _). Inr subs)"


section \<open>What the parsers answer\<close>

text \<open>The lists of a sequence header with decoder models have an entry per operating point.\<close>

definition seq_ok :: "av1SeqHeader \<Rightarrow> bool" where
  "seq_ok seq \<longleftrightarrow> (sq_decoderModelInfoPresent seq \<longrightarrow>
     length (sq_operatingPointIdc seq) = unat (sq_operatingPointsCntMinus1 seq) + 1 \<and>
     length (sq_decoderModelPresentForOp seq) = unat (sq_operatingPointsCntMinus1 seq) + 1)"

text \<open>A frame refers to slots there are.\<close>

definition fh_ok :: "av1FrameHeader \<Rightarrow> bool" where
  "fh_ok fh \<longleftrightarrow> list_all (\<lambda>i. i < 8) (fh_refFrameIdx fh)"

definition fh_good :: "av1FrameHeader result \<Rightarrow> bool" where
  "fh_good v \<longleftrightarrow> (case v of Inl e \<Rightarrow> e \<noteq> Panic | Inr fh \<Rightarrow> fh_ok fh)"

lemma fh_good_simps [simp]: "fh_good (Inl e) \<longleftrightarrow> e \<noteq> Panic" "fh_good (Inr fh) \<longleftrightarrow> fh_ok fh"
  by (simp_all add: fh_good_def)

lemma answers_op_points: "answers (op_points s d n) (\<lambda>ps. length ps = n)"
proof (induction n)
  case (Suc n)
  show ?case unfolding op_points.simps by (rule ans, rule ans, rule ans, rule ans, rule ans, rule answers_bind [OF Suc.IH]) (simp add: answers_return)
qed (simp add: answers_return)

lemma seq_header_ok: "answers seq_header seq_ok"
proof -
  have op: "sq_decoderModelInfoPresent s = False \<Longrightarrow> answers (seq_operating s) seq_ok" for s
    unfolding seq_operating_def
    by (intro answers_if answers_any answers_return answers_bind [OF answers_op_points]) (simp_all add: seq_ok_def)
  have size: "seq_ok s \<Longrightarrow> answers (seq_frame_size s) seq_ok" for s
    unfolding seq_frame_size_def by (intro ans) (simp add: seq_ok_def)
  have tools: "seq_ok s \<Longrightarrow> answers (seq_tools s) seq_ok" for s
    unfolding seq_tools_def by (intro ans) (simp_all add: seq_ok_def)
  have color: "seq_ok s \<Longrightarrow> answers (seq_color s) seq_ok" for s
    unfolding seq_color_def by (intro ans) (simp add: seq_ok_def)
  show ?thesis
    unfolding seq_header_def
    by (rule answers_any, rule answers_any, rule answers_any, rule answers_bind [OF op], simp add: empty_seq_def,
        rule answers_bind [OF size], assumption, rule answers_bind [OF tools], assumption, rule answers_any, rule answers_any,
        rule answers_any, rule answers_bind [OF color], simp add: seq_ok_def, rule answers_any, rule answers_return, simp add: seq_ok_def)
qed

lemma parseAV1SequenceHeader_ok: "parseAV1SequenceHeader payload = Inr seq \<Longrightarrow> seq_ok seq"
  using seq_header_ok by (auto simp: parseAV1SequenceHeader_def answers_def split: prod.splits if_splits) (metis fst_conv)

lemma parseAV1SequenceHeader_quiet: "parseAV1SequenceHeader payload \<noteq> Inl Panic"
  by (auto simp: parseAV1SequenceHeader_def split: prod.splits)

section \<open>The frame header\<close>

lemma answers_bits_below: "answers (b_bits n) (\<lambda>v. unat v < 2 ^ n)"
  by (simp add: answers_def b_bits_below)

lemma answers_then_r:
  "answers m P \<Longrightarrow> (\<And>e. P (Inl e) \<Longrightarrow> Q (Inl e)) \<Longrightarrow> (\<And>x. P (Inr x) \<Longrightarrow> answers (f x) Q) \<Longrightarrow> answers (then_r m f) Q"
  unfolding then_r_def by (rule answers_bind, assumption) (auto intro: answers_return split: sum.split)

lemma answers_ref_indexes: "answers (ref_indexes seq n) (list_all (\<lambda>i. i < 8))"
proof (induction n)
  case (Suc n)
  show ?case unfolding ref_indexes.simps
    by (rule answers_bind [OF answers_bits_below], rule answers_any, rule answers_bind [OF Suc.IH], rule answers_return) simp
qed (simp add: answers_return)

lemma answers_found_ref: "answers (found_ref is) (\<lambda>v. \<forall>i. v = Some i \<longrightarrow> i \<in> set is)"
proof (induction "is")
  case (Cons i "is")
  show ?case unfolding found_ref.simps by (intro answers_any answers_if answers_return answers_mono [OF Cons.IH]) auto
qed (simp add: answers_return)

lemma answers_removal:
  assumes "seq_ok seq" "sq_decoderModelInfoPresent seq"
  shows "k + n \<le> unat (sq_operatingPointsCntMinus1 seq) + 1 \<Longrightarrow> answers (removal_times seq t s k n) quiet"
  using assms by (induction n arbitrary: k) (auto simp: seq_ok_def intro!: ans)

lemma frame_removal_quiet: "seq_ok seq \<Longrightarrow> answers (frame_removal seq t s) quiet"
  unfolding frame_removal_def by (intro ans answers_removal) simp_all

lemma frame_kind_good: "answers (frame_kind seq) fh_good"
  unfolding frame_kind_def by (intro ans) (simp_all add: fh_ok_def empty_frame_def list_all_iff)

text \<open>The parts of the syntax that fill a header keep its references in range.\<close>

lemma part_ok:
  assumes "fh_ok fh"
  shows "answers (frame_tools seq fh) fh_ok" "answers (frame_order seq fh) fh_ok" "answers (frame_refresh seq fh) fh_ok"
    "answers (av1SuperresParams seq fh) fh_ok" "answers (av1RenderSize fh) fh_ok" "answers (inter_motion seq fh) fh_ok"
    "answers (av1TileInfo seq fh) fh_ok" "answers (av1DeltaQParams fh) fh_ok"
    "fh_ok (av1ComputeImageSize fh)" "fh_ok (frame_lossless fh)" "answers (av1SegmentationParams fh) fh_good"
  using assms
  unfolding frame_tools_def frame_order_def frame_refresh_def av1SuperresParams_def av1RenderSize_def inter_motion_def
    av1TileInfo_def av1DeltaQParams_def av1ComputeImageSize_def frame_lossless_def av1SegmentationParams_def
  by ((intro ans)?; simp add: fh_ok_def Let_def)+

lemma quantization_ok: "fh_ok fh \<Longrightarrow> answers (av1QuantizationParams seq fh) fh_ok"
  unfolding av1QuantizationParams_def
  by (rule answers_any, rule answers_any, rule answers_bind [where P = fh_ok]) (intro ans; simp add: fh_ok_def)+

lemma frame_size_ok: "fh_ok fh \<Longrightarrow> answers (av1FrameSize seq fh) fh_ok"
  unfolding av1FrameSize_def
  by (rule answers_bind [where P = fh_ok], (intro ans; simp add: fh_ok_def), rule answers_bind [OF part_ok(4)], assumption,
      rule answers_return, rule part_ok)

lemma own_size_ok: "fh_ok fh \<Longrightarrow> answers (do { fh \<leftarrow> av1FrameSize seq fh; fh \<leftarrow> av1RenderSize fh; ret (Inr fh) }) fh_good"
  by (rule answers_bind [OF frame_size_ok], assumption, rule answers_bind [OF part_ok(5)], assumption, rule answers_return) simp

lemma intra_ok: "fh_ok fh \<Longrightarrow> answers (intra_frame seq fh) fh_ok"
  unfolding intra_frame_def
  by (rule answers_bind [OF frame_size_ok], assumption, rule answers_bind [OF part_ok(5)], assumption, rule answers_any,
      rule answers_return) (simp add: fh_ok_def)

lemma size_with_refs_good:
  assumes "fh_ok fh" "length refs = 8"
  shows "answers (av1FrameSizeWithRefs seq refs fh) fh_good"
  unfolding av1FrameSizeWithRefs_def
proof (rule answers_bind [OF answers_found_ref], goal_cases)
  case (1 x)
  show ?case
  proof (cases x)
    case None
    then show ?thesis using own_size_ok [OF assms(1)] by simp
  next
    case (Some i)
    then have "ref_slot refs i = Inr (refs ! i)" using 1 assms by (auto simp: fh_ok_def list_all_iff ref_slot_def)
    moreover have "fh_ok (fh\<lparr>fh_upscaledWidth := w, fh_frameWidth := w, fh_frameHeight := h, fh_renderWidth := rw, fh_renderHeight := rh\<rparr>)"
      for w h rw rh using assms(1) by (simp add: fh_ok_def)
    ultimately show ?thesis
      by (auto simp: Some intro!: answers_return answers_bind [OF part_ok(4)] part_ok(9))
  qed
qed

lemma inter_good:
  assumes "fh_ok fh" "length refs = 8"
  shows "answers (inter_frame seq refs fh) fh_good"
proof -
  have sized: "fh_ok fh \<Longrightarrow> answers (if b then av1FrameSizeWithRefs seq refs fh
      else do { fh \<leftarrow> av1FrameSize seq fh; fh \<leftarrow> av1RenderSize fh; ret (Inr fh) }) fh_good" for fh b
    using size_with_refs_good assms(2) own_size_ok by simp
  have motion: "fh_good v \<Longrightarrow> answers (case v of Inl e \<Rightarrow> ret (Inl e) | Inr fh \<Rightarrow> do { fh \<leftarrow> inter_motion seq fh; ret (Inr fh) }) fh_good" for v
    by (cases v) (auto intro!: answers_return answers_bind [OF part_ok(6)])
  show ?thesis
    unfolding inter_frame_def
    by (rule answers_any, rule answers_if, rule answers_return, simp, rule answers_bind [OF answers_ref_indexes], rule answers_let,
        rule answers_bind [OF sized], simp add: fh_ok_def, rule motion)
qed

lemma skip_mode_quiet:
  assumes "fh_ok fh" "length refs = 8"
  shows "answers (av1SkipModeParams seq refs fh) quiet"
proof -
  have "list_all (\<lambda>i. i < 8) is \<Longrightarrow> \<exists>hs. ref_hints refs is = Inr hs" for "is"
    using assms(2) by (induction "is") (auto simp: ref_slot_def)
  then obtain hs where "ref_hints refs (fh_refFrameIdx fh) = Inr hs" using assms(1) by (auto simp: fh_ok_def)
  then show ?thesis unfolding av1SkipModeParams_def by (auto intro!: ans)
qed

lemma header_end_good:
  assumes "fh_ok fh" "length refs = 8"
  shows "answers (header_end seq refs fh) fh_good"
  unfolding header_end_def
  by (rule answers_then_r [OF skip_mode_quiet [OF assms]], simp add: quiet_def, intro ans) (simp add: assms)

lemma header_rest_good:
  assumes "fh_ok fh" "length refs = 8"
  shows "answers (header_rest seq refs fh) fh_good"
  unfolding header_rest_def
  by (rule answers_any, rule answers_bind [OF part_ok(7) [OF assms(1)]], rule answers_bind [OF quantization_ok], assumption,
    rule answers_then_r [OF part_ok(11)], assumption, simp, rule answers_bind [OF part_ok(8)], simp, rule answers_any, rule answers_let,
    rule answers_any, rule answers_any, rule answers_any, rule answers_any, rule answers_any, rule header_end_good [OF _ assms(2)])
    (drule part_ok(10), simp add: fh_ok_def)

lemma header_start_good:
  assumes "seq_ok seq"
  shows "answers (header_start seq t s) fh_good"
  unfolding header_start_def
  by (rule answers_then_r [OF frame_kind_good], simp, rule answers_bind [OF part_ok(1)], simp, rule answers_bind [OF part_ok(2)], assumption,
    rule answers_then_r [OF frame_removal_quiet [OF assms]], simp add: quiet_def, rule answers_bind [OF part_ok(3)], assumption,
    rule answers_return, simp)

lemma header_refs_good:
  assumes "fh_ok fh" "length refs = 8"
  shows "answers (header_refs seq refs fh) fh_good"
  unfolding header_refs_def
  by (rule answers_if, rule answers_bind [OF intra_ok [OF assms(1)]], rule answers_return, simp, rule inter_good [OF assms])

lemma frame_header_quiet:
  assumes "seq_ok seq" "length refs = 8"
  shows "answers (parseAV1FrameHeader seq refs t s) quiet"
proof -
  have "answers (parseAV1FrameHeader seq refs t s) fh_good"
    unfolding parseAV1FrameHeader_def
    by (rule answers_then_r [OF header_start_good [OF assms(1)]], simp, rule answers_then_r [OF header_refs_good [OF _ assms(2)]], simp,
      simp, rule header_rest_good [OF _ assms(2)], simp)
  then show ?thesis by (rule answers_mono) (auto simp: fh_good_def quiet_def split: sum.splits)
qed

section \<open>The splitter's laws\<close>

definition av1_ok :: "av1Splitter \<Rightarrow> bool" where
  "av1_ok s \<longleftrightarrow> length (as_refs s) = 8 \<and> (\<forall>seq. as_seq s = Some seq \<longrightarrow> seq_ok seq)"

lemma newAV1Splitter_ok: "av1_ok newAV1Splitter"
  by (simp add: av1_ok_def newAV1Splitter_def av1NumRefFrames_def)

lemma length_refresh [simp]: "length (refresh_from k fh rs) = length rs"
  by (induction rs arbitrary: k) simp_all

lemma obu_step_ok: "av1_ok s \<Longrightarrow> obu_step ob s c = Inr (new, c', s') \<Longrightarrow> av1_ok s'"
  by (auto simp: obu_step_def bind_r_Inr av1_ok_def parseAV1SequenceHeader_ok split: if_splits)

lemma obu_frame_quiet: "av1_ok s \<Longrightarrow> obu_frame ob s \<noteq> Inl Panic"
  using frame_header_quiet [of "the (as_seq s)" "as_refs s" "ob_temporalID ob" "ob_spatialID ob"]
  by (auto simp: obu_frame_def av1_ok_def answers_def quiet_def Let_def split: option.splits prod.splits sum.splits) (metis fst_conv)

lemma bind_r_Panic: "bind_r r f = Inl Panic \<longleftrightarrow> r = Inl Panic \<or> (\<exists>x. r = Inr x \<and> f x = Inl Panic)"
  by (cases r) simp_all

lemma obu_step_quiet:
  assumes "av1_ok s"
  shows "obu_step ob s c \<noteq> Inl Panic"
proof -
  have "protect a n \<noteq> Inl Panic" for a n by (simp add: protect_def Let_def)
  then show ?thesis using obu_frame_quiet [OF assms] parseAV1SequenceHeader_quiet
    by (auto simp: obu_step_def bind_r_Panic)
qed

lemma next_obu_quiet:
  assumes "sample \<noteq> []"
  shows "next_obu sample \<noteq> Inl Panic"
proof -
  have leb: "leb_loop k i b v \<noteq> Inl Panic" for k i b v
    by (induction k i b v rule: leb_loop.induct) (auto simp: Let_def split: list.splits)
  have "obu_ext h r \<noteq> Inl Panic" "obu_size h r \<noteq> Inl Panic" for h r
    using leb by (auto simp: obu_ext_def obu_size_def readLEB128_def bind_r_Panic split: list.splits if_splits)
  then show ?thesis using assms by (cases sample) (auto simp: next_obu_def bind_r_Panic split: if_splits)
qed

lemma av1_obus_quiet: "av1_ok s \<Longrightarrow> av1_obus sample s c \<noteq> Inl Panic"
proof (induction sample s c rule: av1_obus.induct)
  case (1 sample s c)
  show ?case
  proof (cases "sample = []")
    case False
    have "bind_r (next_obu sample) (\<lambda>(ob, rest). bind_r (obu_step ob s c) (\<lambda>(new, c, s).
        bind_r (av1_obus rest s c) (\<lambda>(subs, c, s). Inr (new @ subs, c, s)))) \<noteq> Inl Panic"
      using 1 False by (fastforce simp: bind_r_Panic next_obu_quiet obu_step_quiet dest: obu_step_ok)
    then show ?thesis using False by (subst av1_obus.simps) simp
  qed (simp add: av1_obus.simps)
qed

lemma av1_split_quiet: "av1_ok s \<Longrightarrow> av1_split sample s \<noteq> Inl Panic"
  using av1_obus_quiet by (auto simp: av1_split_def bind_r_Panic split: if_splits)

text \<open>The subsamples cover the sample, and the state stays in order.\<close>

lemma subs_mask_append [simp]: "subs_mask (xs @ ys) = subs_mask xs @ subs_mask ys"
  by (simp add: subs_mask_def)

lemma sub_mask_fields:
  "c \<le> 0xFFFF \<Longrightarrow> p < 2 ^ 32 \<Longrightarrow>
   subs_mask [\<lparr>sub_clear = word_of_nat c, sub_protected = word_of_nat p\<rparr>] = replicate c True @ replicate p False"
  by (simp add: subs_mask_def sub_mask_def unat_of_nat take_bit_nat_eq_self)

lemma protect_mask:
  assumes "protect c n = Inr (subs, c')" "n < 2 ^ 32"
  shows "subs_mask subs = replicate c True @ replicate (n div 16 * 16) False \<and> c' = n mod 16"
proof -
  have "n div 16 * 16 \<le> n" by simp
  then have "n div 16 * 16 < 2 ^ 32" using assms(2) by (rule le_less_trans)
  moreover have "n - n div 16 * 16 = n mod 16" by (simp add: minus_div_mult_eq_mod)
  ultimately show ?thesis using assms(1) sub_mask_fields [of c "n div 16 * 16"] by (auto simp: protect_def Let_def split: if_splits)
qed

lemma protect_length: "protect c n = Inr (subs, c') \<Longrightarrow> n < 2 ^ 32 \<Longrightarrow> length (subs_mask subs) + c' = c + n"
  by (auto dest!: protect_mask)

lemma obu_frame_clear: "obu_frame ob s = Inr (fh, c) \<Longrightarrow> c \<le> length (ob_payload ob)"
  by (auto simp: obu_frame_def Let_def split: option.splits prod.splits sum.splits if_splits)

lemma obu_step_length:
  assumes "obu_step ob s c = Inr (subs, c', s')" "length (ob_payload ob) < 2 ^ 32"
  shows "length (subs_mask subs) + c' = c + ob_header ob + length (ob_payload ob)"
proof -
  have nil: "subs_mask [] = []" by (simp add: subs_mask_def)
  consider (frame) fh k where "obu_frame ob s = Inr (fh, k)" "protect (c + (ob_header ob + k)) (length (ob_payload ob) - k) = Inr (subs, c')"
    | (group) "protect (c + ob_header ob) (length (ob_payload ob)) = Inr (subs, c')"
    | (clear) "subs = []" "c' = c + (ob_header ob + length (ob_payload ob))"
    using assms(1) by (auto simp: obu_step_def bind_r_Inr split: if_splits)
  then show ?thesis
  proof cases
    case frame
    then show ?thesis using protect_length [OF frame(2)] obu_frame_clear [OF frame(1)] assms(2) by simp
  next
    case group
    then show ?thesis using protect_length [OF group] assms(2) by simp
  qed (simp add: nil)
qed

lemma av1_obus_cover:
  "av1_obus sample s c = Inr (subs, c', s') \<Longrightarrow> av1_ok s \<Longrightarrow> length sample < 2 ^ 32 \<Longrightarrow>
   length (subs_mask subs) + c' = c + length sample \<and> av1_ok s'"
proof (induction sample s c arbitrary: subs c' s' rule: av1_obus.induct)
  case (1 sample s c)
  show ?case
  proof (cases "sample = []")
    case True
    then show ?thesis using "1.prems" by (simp add: av1_obus.simps subs_mask_def)
  next
    case False
    obtain ob rest new k s1 subs1 where step: "next_obu sample = Inr (ob, rest)" "obu_step ob s c = Inr (new, k, s1)"
        "av1_obus rest s1 k = Inr (subs1, c', s')" "subs = new @ subs1"
      using "1.prems"(1) False by (subst (asm) av1_obus.simps) (auto simp: bind_r_Inr)
    obtain h where h: "sample = h @ ob_payload ob @ rest" "length h = ob_header ob" using next_obu_parts [OF step(1)] by blast
    have "length (subs_mask subs1) + c' = k + length rest \<and> av1_ok s'"
      using "1.IH" [OF False step(1) refl step(2) refl refl step(3) obu_step_ok [OF "1.prems"(2) step(2)]] h "1.prems"(3) by simp
    moreover have "length (subs_mask new) + k = c + ob_header ob + length (ob_payload ob)"
      using obu_step_length [OF step(2)] h "1.prems"(3) by simp
    ultimately show ?thesis using h by (simp add: step(4))
  qed
qed

lemma av1_split_covers:
  assumes "av1_split sample s = Inr (subs, s')" "av1_ok s" "length sample < 2 ^ 32"
  shows "length (subs_mask subs) = length sample \<and> av1_ok s'"
proof -
  obtain subs1 c where run: "av1_obus sample s 0 = Inr (subs1, c, s')"
      "subs = subs1 \<and> c = 0 \<or> subs = subs1 @ [\<lparr>sub_clear = word_of_nat c, sub_protected = 0\<rparr>] \<and> c \<le> 0xFFFF"
    using assms(1) by (auto simp: av1_split_def bind_r_Inr split: if_splits)
  then show ?thesis using av1_obus_cover [OF run(1) assms(2,3)] sub_mask_fields [of c 0] by auto
qed

end
