(* ===== verification/Av1Layout.thy ===== *)
theory Av1Layout
  imports Av1Split "HOL-Library.Code_Target_Nat"
begin

text \<open>
  The layout an AV1 sample should have, OBU by OBU, and the OBUs as a stream holds them.  The splitter of Av1Split,
  which carries a clear run across the OBUs, lays out exactly that.
\<close>

section \<open>The layout\<close>

text \<open>
  The layout of a sample, unit by unit: every byte of an OBU stays clear but the whole cipher blocks of its tile
  data, which start behind its header and, in a frame, behind the bytes that hold the frame header.
\<close>

definition tile_mask :: "nat \<Rightarrow> bool list" where
  "tile_mask n = replicate (n div 16 * 16) False @ replicate (n mod 16) True"

definition obu_layout :: "obu \<Rightarrow> av1Splitter \<Rightarrow> (bool list \<times> av1Splitter) result" where
  "obu_layout ob s =
     (if ob_type ob = obuSeqHeader then
        bind_r (parseAV1SequenceHeader (ob_payload ob)) (\<lambda>seq.
          Inr (replicate (ob_header ob + length (ob_payload ob)) True, s\<lparr>as_seq := Some seq\<rparr>))
      else if ob_type ob = obuTileGroup then
        Inr (replicate (ob_header ob) True @ tile_mask (length (ob_payload ob)), s)
      else if ob_type ob = obuFrame then
        bind_r (obu_frame ob s) (\<lambda>(fh, c).
          Inr (replicate (ob_header ob + c) True @ tile_mask (length (ob_payload ob) - c), s\<lparr>as_refs := refresh_from 0 fh (as_refs s)\<rparr>))
      else Inr (replicate (ob_header ob + length (ob_payload ob)) True, s))"

fun av1_layout :: "obu list \<Rightarrow> av1Splitter \<Rightarrow> (bool list \<times> av1Splitter) result" where
  "av1_layout [] s = Inr ([], s)"
| "av1_layout (ob # obs) s = bind_r (obu_layout ob s) (\<lambda>(m, s). bind_r (av1_layout obs s) (\<lambda>(ms, s). Inr (m @ ms, s)))"

text \<open>No run of clear bytes is past the 16 bits of its field; \<open>c\<close> bytes of the run have gone by.\<close>

fun short_runs :: "nat \<Rightarrow> bool list \<Rightarrow> bool" where
  "short_runs c [] \<longleftrightarrow> c \<le> 0xFFFF"
| "short_runs c (True # m) \<longleftrightarrow> short_runs (c + 1) m"
| "short_runs c (False # m) \<longleftrightarrow> c \<le> 0xFFFF \<and> short_runs 0 m"

lemma short_runs_clear [simp]: "short_runs c (replicate n True @ m) \<longleftrightarrow> short_runs (c + n) m"
  by (induction n arbitrary: c) simp_all

lemma short_runs_le: "short_runs c m \<Longrightarrow> c \<le> 0xFFFF"
  by (induction c m rule: short_runs.induct) simp_all

lemma short_runs_mono: "short_runs c m \<Longrightarrow> c' \<le> c \<Longrightarrow> short_runs c' m"
  by (induction c m arbitrary: c' rule: short_runs.induct) simp_all

lemma short_runs_open: "short_runs c (replicate n False @ m) \<Longrightarrow> n > 0 \<Longrightarrow> short_runs 0 m"
  by (induction n arbitrary: c) (auto simp: gr0_conv_Suc split: nat.splits, metis append.left_neutral not0_implies_Suc replicate_0 zero_less_Suc)

lemma short_runs_tiles: "short_runs c (tile_mask n @ m) \<Longrightarrow> c \<le> 0xFFFF \<and> short_runs (n mod 16) m"
proof (cases "n div 16 * 16")
  case 0
  moreover assume "short_runs c (tile_mask n @ m)"
  ultimately have "short_runs (c + n mod 16) m" by (simp add: tile_mask_def)
  then show ?thesis using short_runs_mono [of "c + n mod 16" m "n mod 16"] short_runs_le [of "c + n mod 16" m] by simp
next
  case (Suc k)
  moreover assume a: "short_runs c (tile_mask n @ m)"
  ultimately have "short_runs 0 (replicate (n mod 16) True @ m)"
    using short_runs_open [of c "n div 16 * 16" "replicate (n mod 16) True @ m"] by (simp add: tile_mask_def)
  then show ?thesis using short_runs_le [OF a] by simp
qed

text \<open>A step of the splitter lays out its OBU behind the clear run so far.\<close>

lemma protect_tiles:
  assumes "short_runs c (tile_mask n @ m)" "n < 2 ^ 32"
  shows "\<exists>subs. protect c n = Inr (subs, n mod 16) \<and> subs_mask subs @ replicate (n mod 16) True = replicate c True @ tile_mask n \<and> subs \<noteq> []"
proof -
  have c: "c \<le> 0xFFFF" using short_runs_tiles [OF assms(1)] by simp
  have "n - n div 16 * 16 = n mod 16" by (simp add: minus_div_mult_eq_mod)
  then obtain subs where p: "protect c n = Inr (subs, n mod 16)" "subs \<noteq> []" using c by (simp add: protect_def Let_def)
  then show ?thesis using protect_mask [OF p(1) assms(2)] by (simp add: tile_mask_def)
qed

lemma obu_step_layout:
  assumes "obu_layout ob s = Inr (lay, s')" "short_runs c (lay @ m)" "length (ob_payload ob) < 2 ^ 32"
  shows "\<exists>new c'. obu_step ob s c = Inr (new, c', s') \<and> subs_mask new @ replicate c' True = replicate c True @ lay \<and> short_runs c' m"
proof -
  have nil: "subs_mask [] = []" by (simp add: subs_mask_def)
  consider (seq) seq where "ob_type ob = obuSeqHeader" "parseAV1SequenceHeader (ob_payload ob) = Inr seq" "s' = s\<lparr>as_seq := Some seq\<rparr>"
      "lay = replicate (ob_header ob + length (ob_payload ob)) True"
    | (group) "ob_type ob = obuTileGroup" "ob_type ob \<noteq> obuSeqHeader" "s' = s" "lay = replicate (ob_header ob) True @ tile_mask (length (ob_payload ob))"
    | (frame) fh k where "ob_type ob = obuFrame" "ob_type ob \<noteq> obuSeqHeader" "ob_type ob \<noteq> obuTileGroup" "obu_frame ob s = Inr (fh, k)"
      "s' = s\<lparr>as_refs := refresh_from 0 fh (as_refs s)\<rparr>" "lay = replicate (ob_header ob + k) True @ tile_mask (length (ob_payload ob) - k)"
    | (clear) "ob_type ob \<notin> {obuSeqHeader, obuTileGroup, obuFrame}" "s' = s" "lay = replicate (ob_header ob + length (ob_payload ob)) True"
    using assms(1) by (auto simp: obu_layout_def bind_r_Inr split: if_splits)
  then show ?thesis
  proof cases
    case seq
    then show ?thesis using assms(2) by (simp add: obu_step_def nil replicate_add add_ac)
  next
    case group
    have "short_runs (c + ob_header ob) (tile_mask (length (ob_payload ob)) @ m)" using assms(2) group(4) by simp
    from protect_tiles [OF this assms(3)] short_runs_tiles [OF this] show ?thesis
      using group by (auto simp: obu_step_def replicate_add)
  next
    case frame
    have "short_runs (c + (ob_header ob + k)) (tile_mask (length (ob_payload ob) - k) @ m)" using assms(2) frame(6) by (simp add: add_ac)
    moreover have "length (ob_payload ob) - k < 2 ^ 32" using assms(3) by simp
    ultimately show ?thesis using protect_tiles short_runs_tiles frame
      by (fastforce simp: obu_step_def replicate_add)
  next
    case clear
    then show ?thesis using assms(2) by (simp add: obu_step_def nil replicate_add add_ac)
  qed
qed


section \<open>OBUs as written\<close>

text \<open>
  An OBU as a stream holds it: its first byte, its extension, the size of its payload in any LEB128 code that holds
  it, and the payload.
\<close>

record av1_unit =
  un_head :: byte
  un_ext :: "byte option"
  un_leb :: "bytes option"
  un_payload :: bytes

fun leb_value :: "bytes \<Rightarrow> nat" where
  "leb_value [] = 0"
| "leb_value (x # b) = unat (x AND 0x7F) + 128 * leb_value b"

fun leb_ok :: "bytes \<Rightarrow> bool" where
  "leb_ok [] \<longleftrightarrow> False"
| "leb_ok [x] \<longleftrightarrow> x AND 0x80 = 0"
| "leb_ok (x # b) \<longleftrightarrow> x AND 0x80 \<noteq> 0 \<and> leb_ok b"

definition unit_bytes :: "av1_unit \<Rightarrow> bytes" where
  "unit_bytes u = un_head u # (case un_ext u of None \<Rightarrow> [] | Some e \<Rightarrow> [e]) @
     (case un_leb u of None \<Rightarrow> [] | Some b \<Rightarrow> b) @ un_payload u"

definition unit_ok :: "av1_unit \<Rightarrow> bool" where
  "unit_ok u \<longleftrightarrow> (drop_bit 2 (un_head u) AND 1 = 1 \<longleftrightarrow> un_ext u \<noteq> None) \<and> (drop_bit 1 (un_head u) AND 1 = 1 \<longleftrightarrow> un_leb u \<noteq> None) \<and>
     (case un_leb u of None \<Rightarrow> True | Some b \<Rightarrow> leb_ok b \<and> length b \<le> 8 \<and> leb_value b = length (un_payload u))"

text \<open>Only the last OBU of a sample may go without its size.\<close>

fun units_ok :: "av1_unit list \<Rightarrow> bool" where
  "units_ok [] \<longleftrightarrow> True"
| "units_ok (u # us) \<longleftrightarrow> unit_ok u \<and> (un_leb u = None \<longrightarrow> us = []) \<and> units_ok us"

definition un_obu :: "av1_unit \<Rightarrow> obu" where
  "un_obu u = \<lparr>ob_type = drop_bit 3 (un_head u) AND 0x0F,
     ob_temporalID = (case un_ext u of None \<Rightarrow> 0 | Some e \<Rightarrow> ucast (drop_bit 5 e)),
     ob_spatialID = (case un_ext u of None \<Rightarrow> 0 | Some e \<Rightarrow> ucast (drop_bit 3 e AND 3)),
     ob_header = length (unit_bytes u) - length (un_payload u), ob_payload = un_payload u\<rparr>"

lemma leb_part: "(ucast (x AND (0x7F :: byte)) :: u64) OR push_bit 7 (word_of_nat n) = word_of_nat (unat (x AND 0x7F) + 128 * n)"
proof -
  have x: "x AND 0x7F = take_bit 7 x" by (simp add: take_bit_eq_mask mask_eq_decr_exp)
  have "(ucast (x AND (0x7F :: byte)) :: u64) OR push_bit 7 (word_of_nat n) = ucast (x AND 0x7F) + push_bit 7 (word_of_nat n)"
    unfolding x by (rule disjunctive_add [symmetric]) (auto simp: bit_simps)
  also have "\<dots> = word_of_nat (unat (x AND 0x7F) + 128 * n)" by (simp add: push_bit_eq_mult unsigned_ucast_eq)
  finally show ?thesis .
qed

lemma leb_loop_reads_value:
  "leb_ok b \<Longrightarrow> length b \<le> k \<Longrightarrow> leb_loop k i (b @ rest) v = Inr (v OR push_bit (i * 7) (word_of_nat (leb_value b)), i + length b)"
proof (induction b arbitrary: k i v rule: leb_ok.induct)
  case (2 x)
  then show ?case by (cases k) (auto simp: Let_def)
next
  case (3 x y b)
  then obtain j where k: "k = Suc j" "length (y # b) \<le> j" by (cases k) auto
  have "leb_loop j (i + 1) ((y # b) @ rest) w = Inr (w OR push_bit ((i + 1) * 7) (word_of_nat (leb_value (y # b))), i + 1 + length (y # b))" for w
    using 3 k by simp
  moreover have "(word_of_nat (leb_value (x # y # b)) :: u64) = ucast (x AND 0x7F) OR push_bit 7 (word_of_nat (leb_value (y # b)))"
    by (simp only: leb_value.simps(2) [of x] leb_part)
  ultimately show ?case using "3.prems"(1)
    by (simp add: k(1) Let_def or.assoc push_bit_or push_bit_push_bit add.commute del: leb_value.simps(2))
qed simp

lemma readLEB128_unit:
  assumes "leb_ok b" "length b \<le> 8"
  shows "readLEB128 (b @ rest) = Inr (word_of_nat (leb_value b), length b)"
  using leb_loop_reads_value [OF assms, of 0 rest 0] by (simp add: readLEB128_def)

lemma next_obu_unit:
  assumes u: "unit_ok u" "un_leb u = None \<longrightarrow> rest = []" and small: "length (un_payload u @ rest) < 2 ^ 32"
  shows "next_obu (unit_bytes u @ rest) = Inr (un_obu u, rest)"
proof -
  define r where "r = (case un_leb u of None \<Rightarrow> [] | Some b \<Rightarrow> b) @ un_payload u @ rest"
  have bytes: "unit_bytes u @ rest = un_head u # (case un_ext u of None \<Rightarrow> [] | Some e \<Rightarrow> [e]) @ r"
    by (simp add: unit_bytes_def r_def)
  have ext: "obu_ext (un_head u) ((case un_ext u of None \<Rightarrow> [] | Some e \<Rightarrow> [e]) @ r) = Inr ((ob_temporalID (un_obu u), ob_spatialID (un_obu u)), r)"
    using u(1) by (auto simp: obu_ext_def unit_ok_def un_obu_def split: option.splits)
  have size: "obu_size (un_head u) r = Inr (length (un_payload u), un_payload u @ rest)"
  proof (cases "un_leb u")
    case None
    then show ?thesis using u by (simp add: obu_size_def unit_ok_def r_def)
  next
    case (Some b)
    then have b: "drop_bit 1 (un_head u) AND 1 = 1" "leb_ok b" "length b \<le> 8" "leb_value b = length (un_payload u)"
      using u(1) by (simp_all add: unit_ok_def)
    have "length (un_payload u) < 2 ^ 64" "length (un_payload u @ rest) < 2 ^ 64" using small by (simp_all del: length_append) (simp add: )
    then have "unat (word_of_nat (length (un_payload u)) :: u64) = length (un_payload u)"
        "unat (word_of_nat (length (un_payload u @ rest)) :: u64) = length (un_payload u @ rest)"
      by (simp_all add: unat_of_nat take_bit_nat_eq_self del: length_append)
    then show ?thesis using readLEB128_unit [OF b(2,3), of "un_payload u @ rest"] b Some
      by (simp add: obu_size_def r_def word_less_nat_alt)
  qed
  show ?thesis
    unfolding next_obu_def bytes using ext size
    by (simp add: un_obu_def unit_bytes_def r_def)
qed

lemma unit_header: "length (unit_bytes u) = ob_header (un_obu u) + length (un_payload u)" "ob_header (un_obu u) > 0" "ob_payload (un_obu u) = un_payload u"
  by (simp_all add: un_obu_def unit_bytes_def)

lemma av1_obus_layout:
  "units_ok us \<Longrightarrow> av1_layout (map un_obu us) s = Inr (lay, s') \<Longrightarrow> short_runs c lay \<Longrightarrow> length (concat (map unit_bytes us)) < 2 ^ 32 \<Longrightarrow>
   \<exists>subs k. av1_obus (concat (map unit_bytes us)) s c = Inr (subs, k, s') \<and> subs_mask subs @ replicate k True = replicate c True @ lay \<and> k \<le> 0xFFFF"
proof (induction us arbitrary: s c lay)
  case Nil
  then show ?case by (simp add: av1_obus.simps subs_mask_def)
next
  case (Cons u us)
  let ?rest = "concat (map unit_bytes us)"
  obtain m s1 ms where lay: "obu_layout (un_obu u) s = Inr (m, s1)" "av1_layout (map un_obu us) s1 = Inr (ms, s')" "lay = m @ ms"
    using Cons.prems(2) by (auto simp: bind_r_Inr)
  have small: "length (un_payload u @ ?rest) < 2 ^ 32" "length (ob_payload (un_obu u)) < 2 ^ 32" "length ?rest < 2 ^ 32"
    using Cons.prems(4) by (simp_all add: unit_header(1,3))
  have u: "unit_ok u" "un_leb u = None \<longrightarrow> ?rest = []" "units_ok us" using Cons.prems(1) by auto
  obtain new k where step: "obu_step (un_obu u) s c = Inr (new, k, s1)" "subs_mask new @ replicate k True = replicate c True @ m" "short_runs k ms"
    using obu_step_layout [OF lay(1), of c ms] Cons.prems(3) small(2) lay(3) by auto
  obtain subs k' where rest: "av1_obus ?rest s1 k = Inr (subs, k', s')" "subs_mask subs @ replicate k' True = replicate k True @ ms" "k' \<le> 0xFFFF"
    using Cons.IH [OF u(3) lay(2) step(3) small(3)] by blast
  have ne: "(unit_bytes u @ ?rest = []) = False" by (simp add: unit_bytes_def)
  have "av1_obus (unit_bytes u @ ?rest) s c = Inr (new @ subs, k', s')"
    unfolding av1_obus.simps [of "unit_bytes u @ ?rest"] ne using next_obu_unit [OF u(1,2) small(1)] step(1) rest(1) by simp
  moreover have "subs_mask (new @ subs) @ replicate k' True = replicate c True @ lay"
    using step(2) rest(2) by (simp add: lay(3))
  ultimately show ?case using rest(3) by auto
qed


text \<open>A still picture of 16 by 16: its sequence header, and a frame of 45 bytes of tile data behind its header.\<close>

definition ex_units :: "av1_unit list" where
  "ex_units = [\<lparr>un_head = 0x12, un_ext = None, un_leb = Some [0], un_payload = []\<rparr>,
     \<lparr>un_head = 0x0A, un_ext = None, un_leb = Some [0x86, 0], un_payload = [24, 12, 255, 192, 0, 0]\<rparr>,
     \<lparr>un_head = 0x34, un_ext = Some 0x20, un_leb = None, un_payload = [19, 192, 0, 0, 32] @ replicate 45 7\<rparr>]"


section \<open>The bit behind disable_cdf_update\<close>

text \<open>
  A key frame header of the sequence \<open>cdf_seq\<close> as the AV1 specification writes it (5.9.2):
  disable_frame_end_update_cdf is coded only where disable_cdf_update is 0.  The frame's tool fields are all off,
  its base_q_idx is \<open>q\<close>.
\<close>

definition cdf_seq :: bytes where "cdf_seq = [0, 0, 0, 1, 159, 248, 0, 0, 0]"

definition cdf_bits :: "bool \<Rightarrow> byte \<Rightarrow> bool list" where
  "cdf_bits disabled q = [False, False, False, True, disabled, False, False] @ (if disabled then [] else [False]) @ [True] @
     bits_of 8 q @ replicate 22 False @ [True, False]"

definition cdf_sample :: "bytes \<Rightarrow> bytes" where
  "cdf_sample frame = [0x0A, 9] @ cdf_seq @ [0x32, word_of_nat (length frame)] @ frame"

lemma cdf_updated_split:
  "case av1_split (cdf_sample ([16, 218, 0, 0, 1, 0] @ replicate 32 7)) newAV1Splitter of
      Inl _ \<Rightarrow> False | Inr (subs, _) \<Rightarrow> subs = [\<lparr>sub_clear = 19, sub_protected = 32\<rparr>]"
  by code_simp

lemma cdf_disabled_split:
  "case av1_split (cdf_sample ([25, 180, 0, 0, 2] @ replicate 32 7)) newAV1Splitter of
      Inl _ \<Rightarrow> False | Inr (subs, _) \<Rightarrow> subs = [\<lparr>sub_clear = 19, sub_protected = 16\<rparr>, \<lparr>sub_clear = 15, sub_protected = 0\<rparr>]"
  by code_simp


end
