(* ===== verification/CencVideo.thy ===== *)
theory CencVideo
  imports Cenc Vp9 Av1Split "HOL-Library.Code_Target_Nat"
begin

text \<open>
  The splitter of a video track, whatever its codec: \<^verbatim>\<open>newVideoSubsampleSplitter\<close> of mp4/cenc.go and the dynamic
  dispatch of its interface.  It keeps the contract of Cenc, since each of H.264 and HEVC, AV1 and VP9 does, so
  that every encrypted segment of the packager is read back with the key.
\<close>

section \<open>The interface\<close>

datatype videoSubsampleSplitter = H26x h26xSplitter | AV1 av1Splitter | VP9 nat

definition newVideoSubsampleSplitter :: "string \<Rightarrow> bytes \<Rightarrow> string \<Rightarrow> videoSubsampleSplitter result" where
  "newVideoSubsampleSplitter codec private scheme =
     (if codec = ''h264'' \<or> codec = ''hevc'' then bind_r (newH26xSplitter codec private scheme) (\<lambda>s. Inr (H26x s))
      else if codec = ''av1'' then Inr (AV1 newAV1Splitter)
      else if codec = ''vp9'' then Inr (VP9 0)
      else Inl (Errf ''cenc: video codec not supported for subsample encryption''))"

fun video_split :: "videoSubsampleSplitter splitFn" where
  "video_split sample (H26x s) = bind_r (h26x_split sample s) (\<lambda>(subs, s). Inr (subs, H26x s))"
| "video_split sample (AV1 s) = bind_r (av1_split sample s) (\<lambda>(subs, s). Inr (subs, AV1 s))"
| "video_split sample (VP9 w) = bind_r (vp9_split sample w) (\<lambda>(subs, w). Inr (subs, VP9 w))"

fun video_ok :: "videoSubsampleSplitter \<Rightarrow> bool" where
  "video_ok (H26x s) = splitter_ok s"
| "video_ok (AV1 s) = av1_ok s"
| "video_ok (VP9 w) = True"

interpretation video: subsample_splitter newVideoSubsampleSplitter video_split video_ok
proof
  show "newVideoSubsampleSplitter codec private scheme = Inr s \<Longrightarrow> video_ok s" for codec "private" scheme s
    by (auto simp: newVideoSubsampleSplitter_def bind_r_Inr newAV1Splitter_ok h26x.new_ok split: if_splits)
  show "newVideoSubsampleSplitter codec private scheme \<noteq> Inl Panic" for codec "private" scheme
    using h26x.new_quiet by (auto simp: newVideoSubsampleSplitter_def bind_r_Panic)
  show "video_split sample s \<noteq> Inl Panic" if "video_ok s" for sample s
    using that h26x.split_quiet av1_split_quiet vp9_split_quiet by (cases s) (auto simp: bind_r_Panic)
  show "length (subs_mask subs) = length sample \<and> video_ok s'"
    if "video_ok s" "length sample < 2 ^ 32" "video_split sample s = Inr (subs, s')" for sample s subs s'
    using that h26x.split_covers av1_split_covers vp9_split_covers by (cases s) (auto simp: bind_r_Inr)
qed

section \<open>Properties\<close>

text \<open>C4. A prepared segment of video in any codec the packager encrypts (H.264, HEVC, AV1, VP9), or of audio, is read
  back by a client that has the key: under either scheme, for every codec configuration and all samples,
  decrypting by the entries of the segment gives its samples back, in place and with their sizes, and nothing
  the samples hold makes the packaging panic.  \<open>D\<close> is the inverse of the block cipher.\<close>
theorem cenc_segment_decrypts:
  assumes "inverse_block (aes (c_Key c)) D" "validate c = Inr ()" "sum_list (map (unat \<circ> fs_size) ss) \<le> length data"
  shows "prepareCENCSegment aes newVideoSubsampleSplitter video_split c v codec private t ss data \<noteq> Inl Panic \<and>
     (\<forall>td out. prepareCENCSegment aes newVideoSubsampleSplitter video_split c v codec private t ss data = Inr (td, out) \<longrightarrow>
        length out = length data \<and> decrypt_samples (aes (c_Key c)) D c v ss (td_entries td) out = Inr data)"
  using assms by (rule video.prepared_segment_decrypts)

text \<open>A VP9 key frame of 33 bytes under 'cbcs', of which the last block is encrypted.\<close>

definition ex_video :: fragSample where
  "ex_video = \<lparr>fs_size = 33, fs_ptsMs = 0, fs_blockPtsMs = 0, fs_sync = True, fs_dtsTS = 0, fs_durTS = 1024, fs_ctsTS = 0,
     fs_cut = False, fs_srcOff = 100\<rparr>"

definition ex_frame :: bytes where
  "ex_frame = [130, 73, 131, 66, 32, 21, 240, 17, 244, 10, 163, 192, 0, 4] @ replicate 19 255"

theorem cenc_segment_decrypts_witness:
  "\<exists>td out. prepareCENCSegment ex_aes newVideoSubsampleSplitter video_split ex_cbcs True ''vp9'' [] 1 [ex_video] ex_frame = Inr (td, out) \<and>
     out \<noteq> ex_frame \<and> decrypt_samples (ex_aes (c_Key ex_cbcs)) ex_unaes ex_cbcs True [ex_video] (td_entries td) out = Inr ex_frame"
proof -
  define p where "p = prepareCENCSegment ex_aes newVideoSubsampleSplitter video_split ex_cbcs True ''vp9'' [] 1 [ex_video] ex_frame"
  have ok: "validate ex_cbcs = Inr ()" "sum_list (map (unat \<circ> fs_size) [ex_video]) \<le> length ex_frame"
    by (code_simp, simp add: ex_video_def ex_frame_def)
  have "case p of Inl _ \<Rightarrow> False | Inr (td, out) \<Rightarrow> out \<noteq> ex_frame" unfolding p_def by code_simp
  then obtain td out where run: "p = Inr (td, out)" "out \<noteq> ex_frame" by (auto split: sum.splits)
  then show ?thesis
    using cenc_segment_decrypts [where aes = ex_aes, OF ex_aes_inverse ok, of True "''vp9''" "[]" 1] unfolding p_def by blast
qed

end
